(* ===== verification/Prelude.thy ===== *)
theory Prelude
  imports Main "HOL-Library.Word" "HOL-Library.Signed_Division"
begin

unbundle bit_operations_syntax

text \<open>
  Shared vocabulary of the development: the machine integers of the C code, the fatal
  errors ("traps") every runtime routine can end in, the result type that carries them,
  and the generic facts about results, lists and bounded integers the component theories
  use.

  C's \<open>int\<close> is 32 bits and \<open>long long\<close>, \<open>size_t\<close> and pointers are 64 bits, as on the
  platforms the driver builds for. The driver compiles with \<open>-fwrapv\<close>, so signed
  arithmetic wraps; a wrapped value is a word, read as signed by \<open>sint\<close> and as unsigned
  by \<open>uint\<close>/\<open>unat\<close>.
\<close>

type_synonym w8 = "8 word"
type_synonym w32 = "32 word"
type_synonym w64 = "64 word"

definition INT_MAX :: int where "INT_MAX = 2147483647"
definition INT_MIN :: int where "INT_MIN = - 2147483648"
definition SIZE_MAX :: nat where "SIZE_MAX = 18446744073709551615"

text \<open>The bounds are numerals; these facts let arithmetic use them.\<close>

lemmas c_limits = INT_MAX_def INT_MIN_def SIZE_MAX_def

text \<open>
  Traps. Every fatal error of the runtime is a message on stderr and \<open>exit(1)\<close>; the
  program never continues past one. One constructor per message, carrying the numbers the
  message prints; \<open>Trap_msg\<close> is \<open>id_trap(what)\<close> with its text.
\<close>

datatype trap =
    Trap_msg string
  | Trap_alloc_overflow string
  | Trap_oom nat
  | Trap_null_read
  | Trap_freed_list
  | Trap_freed_string
  | Trap_const_list
  | Trap_list_capacity
  | Trap_index int int
  | Trap_pop_empty
  | Trap_native_list int
  | Trap_store_range int int
  | Trap_byte_range int
  | Trap_str_span int int nat
  | Trap_bytes_span int int int
  | Trap_closure_native

type_synonym 'a res = "trap + 'a"

named_theorems res_simps "rewrite rules for results and sequencing"
named_theorems res_elims "elimination of successful sequencing"

text \<open>Sequencing: the code after a call runs only when the call did not trap.\<close>

fun andThen :: "'a res \<Rightarrow> ('a \<Rightarrow> 'b res) \<Rightarrow> 'b res" where
  "andThen (Inl e) f = Inl e"
| "andThen (Inr x) f = f x"

definition require :: "bool \<Rightarrow> trap \<Rightarrow> unit res" where
  "require b e = (if b then Inr () else Inl e)"

lemma andThen_Inr_iff [res_simps]:
  "andThen r f = Inr y \<longleftrightarrow> (\<exists>x. r = Inr x \<and> f x = Inr y)"
  by (cases r) auto

lemma andThen_Inl_iff [res_simps]:
  "andThen r f = Inl e \<longleftrightarrow> r = Inl e \<or> (\<exists>x. r = Inr x \<and> f x = Inl e)"
  by (cases r) auto

lemma require_Inr_iff [res_simps]: "require b e = Inr u \<longleftrightarrow> b"
  by (simp add: require_def)

lemma require_Inl_iff [res_simps]: "require b e = Inl e' \<longleftrightarrow> \<not> b \<and> e' = e"
  by (auto simp: require_def)

lemma require_simps [simp]:
  "require True e = Inr ()"
  "require False e = Inl e"
  by (simp_all add: require_def)

lemma andThen_assoc [simp]:
  "andThen (andThen r f) g = andThen r (\<lambda>x. andThen (f x) g)"
  by (cases r) auto

lemma andThen_return [simp]: "andThen r Inr = r"
  by (cases r) auto

lemma andThen_cong [fundef_cong]:
  "r = r' \<Longrightarrow> (\<And>x. r' = Inr x \<Longrightarrow> f x = f' x) \<Longrightarrow> andThen r f = andThen r' f'"
  by (cases r') auto

text \<open>Conversions between C's integer types: truncation keeps the low bits.\<close>

definition int_of_w32 :: "w64 \<Rightarrow> int" where
  "int_of_w32 x = sint (ucast x :: w32)"

definition wrap32 :: "int \<Rightarrow> int" where
  "wrap32 x = signed_take_bit 31 x"

definition wrap64 :: "int \<Rightarrow> int" where
  "wrap64 x = signed_take_bit 63 x"

lemma wrap32_id [simp]: "- 2147483648 \<le> x \<Longrightarrow> x \<le> 2147483647 \<Longrightarrow> wrap32 x = x"
  by (simp add: wrap32_def signed_take_bit_int_eq_self)

lemma wrap64_id [simp]:
  "- 9223372036854775808 \<le> x \<Longrightarrow> x \<le> 9223372036854775807 \<Longrightarrow> wrap64 x = x"
  by (simp add: wrap64_def signed_take_bit_int_eq_self)

lemma mod_Suc_int: "0 < m \<Longrightarrow> a mod m + 1 < m \<Longrightarrow> (a + 1) mod m = a mod m + (1 :: int)"
proof -
  assume m: "0 < m" "a mod m + 1 < m"
  have "(a + 1) mod m = (a mod m + 1) mod m" by (simp add: mod_add_left_eq)
  also have "\<dots> = a mod m + 1" using m by (intro mod_pos_pos_trivial) auto
  finally show ?thesis .
qed

lemma wrap32_step: "wrap32 x < 2147483647 \<Longrightarrow> wrap32 (x + 1) = wrap32 x + 1"
proof -
  have w: "wrap32 y = (y + 2147483648) mod 4294967296 - 2147483648" for y
    by (simp add: wrap32_def signed_take_bit_eq_take_bit_shift take_bit_eq_mod)
  assume "wrap32 x < 2147483647"
  then have "(x + 2147483648) mod 4294967296 < 4294967295" by (simp add: w)
  then have "(x + 2147483648 + 1) mod 4294967296 = (x + 2147483648) mod 4294967296 + 1"
    by (intro mod_Suc_int) simp_all
  then show ?thesis by (simp add: w add.assoc add.commute [of 1])
qed

lemma wrap32_range: "- 2147483648 \<le> wrap32 x \<and> wrap32 x \<le> 2147483647"
  using signed_take_bit_int_greater_eq_minus_exp [of 31 x] signed_take_bit_int_less_exp [of 31 x]
  by (simp add: wrap32_def)

lemma sint_of_int32 [simp]: "sint (word_of_int x :: w32) = wrap32 x"
  by (simp add: wrap32_def sint_sbintrunc')

lemma sint_of_int64 [simp]: "sint (word_of_int x :: w64) = wrap64 x"
  by (simp add: wrap64_def sint_sbintrunc')

lemma wrap64_period: "wrap64 (x - 2 ^ 64) = wrap64 x"
proof -
  have "(word_of_int (x - 2 ^ 64) :: w64) = word_of_int x - word_of_int (2 ^ 64)" by simp
  also have "(word_of_int (2 ^ 64) :: w64) = 0" by (simp add: word_of_int_2p_len)
  finally have "(word_of_int (x - 2 ^ 64) :: w64) = word_of_int x" by simp
  then have "sint (word_of_int (x - 2 ^ 64) :: w64) = sint (word_of_int x :: w64)" by (rule arg_cong)
  then show ?thesis by (simp only: sint_of_int64)
qed

lemma sint32_range: "- 2147483648 \<le> sint (x :: w32) \<and> sint x \<le> 2147483647"
  using sint_greater_eq [of x] sint_less [of x] by simp

lemma sint64_range: "- 9223372036854775808 \<le> sint (x :: w64) \<and> sint x \<le> 9223372036854775807"
  using sint_greater_eq [of x] sint_less [of x] by simp

lemma unat_of_int64: "0 \<le> x \<Longrightarrow> x \<le> INT_MAX \<Longrightarrow> unat (word_of_int x :: w64) = nat x"
  by (simp add: unat_eq_nat_uint unsigned_of_int take_bit_int_eq_self INT_MAX_def)

text \<open>Lists indexed by C integers: shared facts.\<close>

lemma take_Suc_update:
  "n < length xs \<Longrightarrow> take (Suc n) (xs[n := x]) = take n xs @ [x]"
  by (simp add: take_Suc_conv_app_nth)

lemma take_update_inside:
  "i < n \<Longrightarrow> take n (xs[i := x]) = (take n xs)[i := x]"
  by (simp add: take_update_swap)

lemma nat_less_of_int: "0 \<le> i \<Longrightarrow> i < int n \<Longrightarrow> nat i < n"
  by linarith

text \<open>
  Multi-byte values in memory: the byte order is little-endian, as on every target the
  driver builds for.
\<close>

fun le_bytes :: "nat \<Rightarrow> nat \<Rightarrow> w8 list" where
  "le_bytes 0 x = []"
| "le_bytes (Suc n) x = of_nat (x mod 256) # le_bytes n (x div 256)"

fun le_value :: "w8 list \<Rightarrow> nat" where
  "le_value [] = 0"
| "le_value (b # bs) = unat b + 256 * le_value bs"

lemma length_le_bytes [simp]: "length (le_bytes n x) = n"
  by (induction n arbitrary: x) auto

lemma unat_of_nat_byte: "unat (of_nat (x mod 256) :: w8) = x mod 256"
  by (simp add: unsigned_of_nat take_bit_eq_mod)

lemma le_value_le_bytes: "le_value (le_bytes n x) = x mod 256 ^ n"
proof (induction n arbitrary: x)
  case 0
  then show ?case by simp
next
  case (Suc n)
  have "le_value (le_bytes (Suc n) x) = x mod 256 + 256 * (x div 256 mod 256 ^ n)"
    by (simp only: le_bytes.simps le_value.simps unat_of_nat_byte Suc.IH)
  also have "\<dots> = x mod (256 * 256 ^ n)" by (simp only: mod_mult2_eq)
  finally show ?case by simp
qed

lemma le_bytes_le_value: "le_bytes (length bs) (le_value bs) = bs"
proof (induction bs)
  case Nil
  then show ?case by simp
next
  case (Cons b bs)
  have b: "unat b < 256" using unsigned_less [of b] by simp
  then have "(unat b + 256 * le_value bs) mod 256 = unat b" by simp
  moreover from b have "(unat b + 256 * le_value bs) div 256 = le_value bs" by simp
  ultimately show ?case using Cons by (simp only: length_Cons le_bytes.simps le_value.simps of_nat_unat ucast_id)
qed

text \<open>The bytes of a C string and back; a \<open>char\<close> is one byte.\<close>

definition byte_of_char :: "char \<Rightarrow> w8" where
  "byte_of_char c = of_nat (of_char c)"

definition char_of_byte :: "w8 \<Rightarrow> char" where
  "char_of_byte b = char_of (unat b)"

lemma char_of_byte_of_char [simp]: "char_of_byte (byte_of_char c) = c"
  by (simp add: char_of_byte_def byte_of_char_def unsigned_of_nat take_bit_eq_mod)

lemma byte_of_char_of_byte [simp]: "byte_of_char (char_of_byte b) = b"
proof -
  have "unat b < 256" using unsigned_less [of b] by simp
  then show ?thesis by (simp add: char_of_byte_def byte_of_char_def)
qed

end
