(* ===== verification/Arith.thy ===== *)
theory Arith
  imports Prelude
begin

unbundle bit_operations_syntax

text \<open>
  The arithmetic of the C runtime (the checked, trapping and unsigned operations emitted
  code calls) and the conversions between integers and decimal text. A \<open>word\<close> of the
  language is a \<open>long long\<close>, here a 64-bit word; an \<open>int\<close> is a 32-bit word. Division by
  zero, the one overflowing quotient and a negative shift are traps; everything else has
  the value the theorems below state.
\<close>

section \<open>Sizes\<close>

definition id_add_check :: "nat \<Rightarrow> nat \<Rightarrow> string \<Rightarrow> nat res" where
  "id_add_check a b what =
     (if a > SIZE_MAX - b then Inl (Trap_alloc_overflow what) else Inr (a + b))"

definition id_mul_check :: "nat \<Rightarrow> nat \<Rightarrow> string \<Rightarrow> nat res" where
  "id_mul_check a b what =
     (if a \<noteq> 0 \<and> b > SIZE_MAX div a then Inl (Trap_alloc_overflow what) else Inr (a * b))"

section \<open>Division, remainder, shifts\<close>

definition LLONG_MIN :: w64 where "LLONG_MIN = push_bit 63 1"
definition INT32_MIN :: w32 where "INT32_MIN = push_bit 31 1"

definition id_sdiv :: "w64 \<Rightarrow> w64 \<Rightarrow> w64 res" where
  "id_sdiv a b =
     (if b = 0 then Inl (Trap_msg ''division by zero'')
      else if b = - 1 \<and> a = LLONG_MIN then Inl (Trap_msg ''division overflow'')
      else Inr (word_of_int (sint a sdiv sint b)))"

definition id_smod :: "w64 \<Rightarrow> w64 \<Rightarrow> w64 res" where
  "id_smod a b =
     (if b = 0 then Inl (Trap_msg ''remainder by zero'')
      else if b = - 1 then Inr 0
      else Inr (word_of_int (sint a smod sint b)))"

definition id_idiv :: "w32 \<Rightarrow> w32 \<Rightarrow> w32 res" where
  "id_idiv a b =
     (if b = 0 then Inl (Trap_msg ''division by zero'')
      else if b = - 1 \<and> a = INT32_MIN then Inl (Trap_msg ''division overflow'')
      else Inr (word_of_int (sint a sdiv sint b)))"

definition id_imod :: "w32 \<Rightarrow> w32 \<Rightarrow> w32 res" where
  "id_imod a b =
     (if b = 0 then Inl (Trap_msg ''remainder by zero'')
      else if b = - 1 then Inr 0
      else Inr (word_of_int (sint a smod sint b)))"

definition id_shl :: "w64 \<Rightarrow> w64 \<Rightarrow> w64 res" where
  "id_shl a n =
     (if sint n < 0 then Inl (Trap_msg ''shift by a negative amount'')
      else if sint n \<ge> 64 then Inr 0
      else Inr (push_bit (nat (sint n)) a))"

definition id_sar :: "w64 \<Rightarrow> w64 \<Rightarrow> w64 res" where
  "id_sar a n =
     (if sint n < 0 then Inl (Trap_msg ''shift by a negative amount'')
      else if sint n \<ge> 64 then Inr (if sint a < 0 then - 1 else 0)
      else Inr (signed_drop_bit (nat (sint n)) a))"

definition id_ushr :: "w64 \<Rightarrow> w64 \<Rightarrow> w64 res" where
  "id_ushr a n =
     (if sint n < 0 then Inl (Trap_msg ''shift by a negative amount'')
      else if sint n \<ge> 64 then Inr 0
      else Inr (drop_bit (nat (sint n)) a))"

definition id_udiv :: "w64 \<Rightarrow> w64 \<Rightarrow> w64 res" where
  "id_udiv a b = (if b = 0 then Inl (Trap_msg ''division by zero'') else Inr (a div b))"

definition id_umod :: "w64 \<Rightarrow> w64 \<Rightarrow> w64 res" where
  "id_umod a b = (if b = 0 then Inl (Trap_msg ''division by zero'') else Inr (a mod b))"

definition id_ult :: "w64 \<Rightarrow> w64 \<Rightarrow> w64" where
  "id_ult a b = (if a < b then 1 else 0)"

text \<open>
  The high half of the unsigned product: the 128-bit product where the compiler has one,
  the schoolbook sum of 32-bit halves where it does not (wasm).
\<close>

definition id_umul_hi :: "w64 \<Rightarrow> w64 \<Rightarrow> w64" where
  "id_umul_hi a b = ucast (drop_bit 64 ((ucast a :: 128 word) * ucast b))"

definition id_umul_hi_halves :: "w64 \<Rightarrow> w64 \<Rightarrow> w64" where
  "id_umul_hi_halves a b =
     (let xl = a AND 0xffffffff;
          xh = drop_bit 32 a;
          yl = b AND 0xffffffff;
          yh = drop_bit 32 b;
          lh = xl * yh;
          hl = xh * yl;
          mid = drop_bit 32 (xl * yl) + (lh AND 0xffffffff) + (hl AND 0xffffffff)
      in xh * yh + drop_bit 32 lh + drop_bit 32 hl + drop_bit 32 mid)"

definition id_rotl32 :: "w64 \<Rightarrow> w64 \<Rightarrow> w64" where
  "id_rotl32 x n =
     (let v = (ucast x :: w32); k = (ucast n :: w32) AND 31
      in scast (push_bit (unat k) v OR drop_bit (unat ((0 - k) AND 31)) v))"

definition id_rotl :: "w64 \<Rightarrow> w64 \<Rightarrow> w64" where
  "id_rotl v n =
     (let k = n AND 63 in push_bit (unat k) v OR drop_bit (unat ((0 - k) AND 63)) v)"

definition id_uword_of_int :: "w64 \<Rightarrow> w64" where
  "id_uword_of_int a = ucast (ucast a :: w32)"

section \<open>Overflow-checked arithmetic\<close>

text \<open>
  \<open>__builtin_add_overflow\<close> and its kin: the exact result when it fits the type, a trap
  when it does not. The 32-bit variants truncate their operands to \<open>int\<close> first and widen
  the result back.
\<close>

definition fits64 :: "int \<Rightarrow> w64 res" where
  "fits64 r = (if - (2 ^ 63) \<le> r \<and> r < 2 ^ 63 then Inr (word_of_int r)
               else Inl (Trap_msg ''integer overflow''))"

definition fits32 :: "int \<Rightarrow> w64 res" where
  "fits32 r = (if - (2 ^ 31) \<le> r \<and> r < 2 ^ 31 then Inr (word_of_int r)
               else Inl (Trap_msg ''integer overflow''))"

definition id_add_checked32 :: "w64 \<Rightarrow> w64 \<Rightarrow> w64 res" where
  "id_add_checked32 a b = fits32 (int_of_w32 a + int_of_w32 b)"
definition id_add_checked :: "w64 \<Rightarrow> w64 \<Rightarrow> w64 res" where
  "id_add_checked a b = fits64 (sint a + sint b)"
definition id_sub_checked32 :: "w64 \<Rightarrow> w64 \<Rightarrow> w64 res" where
  "id_sub_checked32 a b = fits32 (int_of_w32 a - int_of_w32 b)"
definition id_sub_checked :: "w64 \<Rightarrow> w64 \<Rightarrow> w64 res" where
  "id_sub_checked a b = fits64 (sint a - sint b)"
definition id_mul_checked32 :: "w64 \<Rightarrow> w64 \<Rightarrow> w64 res" where
  "id_mul_checked32 a b = fits32 (int_of_w32 a * int_of_w32 b)"
definition id_mul_checked :: "w64 \<Rightarrow> w64 \<Rightarrow> w64 res" where
  "id_mul_checked a b = fits64 (sint a * sint b)"

section \<open>Integers and decimal text\<close>

text \<open>A byte of a string as the code reads it.\<close>

abbreviation code_of :: "char \<Rightarrow> nat" where "code_of c \<equiv> of_char c"

definition c_space :: "char \<Rightarrow> bool" where
  "c_space c \<longleftrightarrow> code_of c = 32 \<or> (9 \<le> code_of c \<and> code_of c \<le> 13)"

definition c_digit :: "char \<Rightarrow> bool" where
  "c_digit c \<longleftrightarrow> 48 \<le> code_of c \<and> code_of c \<le> 57"

text \<open>The digit loop of \<open>id_to_int\<close>: it saturates at \<open>lim\<close> and stops.\<close>

fun to_int_digits :: "nat \<Rightarrow> nat \<Rightarrow> string \<Rightarrow> nat" where
  "to_int_digits lim u [] = u"
| "to_int_digits lim u (c # cs) =
     (if c_digit c then
        (let d = code_of c - 48 in
         if u > (lim - d) div 10 then lim else to_int_digits lim (u * 10 + d) cs)
      else u)"

definition id_to_int :: "string \<Rightarrow> int" where
  "id_to_int s =
     (let s1 = dropWhile c_space s;
          neg = (s1 \<noteq> [] \<and> hd s1 = CHR ''-'');
          s2 = (if s1 \<noteq> [] \<and> (hd s1 = CHR ''-'' \<or> hd s1 = CHR ''+'') then tl s1 else s1);
          lim = (if neg then 9223372036854775808 else 9223372036854775807);
          u = to_int_digits lim 0 s2
      in wrap32 (if neg then - int u else int u))"

text \<open>The do-while loop that fills the 24-byte buffer from its end.\<close>

fun word_digits :: "nat \<Rightarrow> string \<Rightarrow> string" where
  "word_digits u acc =
     (let acc' = char_of (48 + u mod 10) # acc
      in if u div 10 = 0 then acc' else word_digits (u div 10) acc')"

declare word_digits.simps [simp del]

definition id_str_of_word :: "w64 \<Rightarrow> string" where
  "id_str_of_word x =
     (let u = (if sint x < 0 then unat (0 - x) else unat x);
          b = word_digits u []
      in if sint x < 0 then CHR ''-'' # b else b)"

definition id_str_of_int :: "w32 \<Rightarrow> string" where
  "id_str_of_int x = id_str_of_word (scast x)"

section \<open>Word lemmas\<close>

lemma uint_drop_bit: "uint (drop_bit n (w :: 'a::len word)) = uint w div 2 ^ n"
  by (simp add: unsigned_drop_bit_eq bintr_uint flip: drop_bit_eq_div)

lemma uint_push_bit: "uint (push_bit n (w :: 'a::len word)) = (uint w * 2 ^ n) mod 2 ^ LENGTH('a)"
  by (simp add: unsigned_push_bit_eq flip: take_bit_eq_mod push_bit_eq_mult)

lemma sdiv_eq_neg: assumes "(x::int) sdiv y = - x" "x < 0" shows "y = -1"
proof -
  have e: "- (sgn y * ((- x) div \<bar>y\<bar>)) = - x"
    using assms by (simp add: signed_divide_int_def)
  have nn: "0 \<le> (- x) div \<bar>y\<bar>" using assms(2) by (cases "y = 0") (simp_all add: pos_imp_zdiv_nonneg_iff)
  have y: "y < 0"
  proof (rule ccontr)
    assume "\<not> y < 0"
    then have "0 \<le> sgn y * ((- x) div \<bar>y\<bar>)" using nn by (intro mult_nonneg_nonneg) (auto simp: sgn_if)
    then show False using e assms(2) by linarith
  qed
  then have d: "(- x) div (- y) = - x" using e by simp
  show ?thesis
  proof (rule ccontr)
    assume "y \<noteq> - 1"
    then have "1 < - y" using y by linarith
    then have "(- x) div (- y) < - x" using assms(2) by (intro int_div_less_self) auto
    then show False using d by linarith
  qed
qed

lemma sint_div_big: "64 \<le> sint n \<Longrightarrow> (sint (a::w64)) div 2 ^ nat (sint (n::w64)) = (if sint a < 0 then -1 else 0)"
proof -
  assume n: "64 \<le> sint n"
  have "(2::int) ^ 64 \<le> 2 ^ nat (sint n)" using n by (intro power_increasing) auto
  then have p: "18446744073709551616 \<le> (2::int) ^ nat (sint n)" by simp
  have r: "- 9223372036854775808 \<le> sint a" "sint a \<le> 9223372036854775807" using sint64_range [of a] by auto
  show ?thesis
  proof (cases "sint a < 0")
    case True
    have "sint a div 2 ^ nat (sint n) = -1"
      using True r p by (intro int_div_pos_eq [of _ _ _ "sint a + 2 ^ nat (sint n)"]) auto
    then show ?thesis using True by simp
  next
    case False
    then show ?thesis using r p by (simp add: div_pos_pos_trivial)
  qed
qed

lemma and_63: "(n :: w64) AND 63 = take_bit 6 n"
  by (simp add: take_bit_eq_mask mask_eq_exp_minus_1)

lemma unat_and_63: "unat ((n :: w64) AND 63) = unat n mod 64"
  by (simp only: and_63 unsigned_take_bit_eq) (simp add: take_bit_eq_mod)

lemma unat_neg_mod64: "unat (x :: w64) < 64 \<Longrightarrow> unat (0 - x) mod 64 = (64 - unat x) mod 64"
proof (cases "unat x = 0")
  case True
  then show ?thesis by (simp add: unat_eq_0)
next
  case False
  assume lt: "unat x < 64"
  have "unat (0 - x) = 18446744073709551616 - unat x"
    using False unat_sub_if' [of 0 x] by simp
  also have "\<dots> = (64 - unat x) + 288230376151711743 * 64"
    using lt by linarith
  finally show ?thesis by (simp only: mod_mult_self1)
qed

lemma unat_neg_and_63: "unat (0 - ((n::w64) AND 63)) mod 64 = (64 - unat n mod 64) mod 64"
  by (rule unat_neg_mod64 [of "n AND 63", unfolded unat_and_63]) simp

lemma and_31: "(n :: w32) AND 31 = take_bit 5 n"
  by (simp add: take_bit_eq_mask mask_eq_exp_minus_1)

lemma unat_and_31: "unat ((n :: w32) AND 31) = unat n mod 32"
  by (simp only: and_31 unsigned_take_bit_eq) (simp add: take_bit_eq_mod)

lemma unat_neg_mod32: "unat (x :: w32) < 32 \<Longrightarrow> unat (0 - x) mod 32 = (32 - unat x) mod 32"
proof (cases "unat x = 0")
  case True
  then show ?thesis by (simp add: unat_eq_0)
next
  case False
  assume lt: "unat x < 32"
  have "unat (0 - x) = 4294967296 - unat x"
    using False unat_sub_if' [of 0 x] by simp
  also have "\<dots> = (32 - unat x) + 134217727 * 32"
    using lt by linarith
  finally show ?thesis by (simp only: mod_mult_self1)
qed

lemma unat_neg_and_31: "unat (0 - ((n::w32) AND 31)) mod 32 = (32 - unat n mod 32) mod 32"
  by (rule unat_neg_mod32 [of "n AND 31", unfolded unat_and_31]) simp

lemma shifts_or_rotl: fixes v :: "'a::len word"
  assumes m: "m < LENGTH('a)"
  shows "push_bit m v OR drop_bit ((LENGTH('a) - m) mod LENGTH('a)) v = word_rotl m v"
proof (rule bit_word_eqI)
  fix i assume i: "i < LENGTH('a)"
  show "bit (push_bit m v OR drop_bit ((LENGTH('a) - m) mod LENGTH('a)) v) i = bit (word_rotl m v) i"
  proof (cases "m \<le> i")
    case True
    have "(i + (LENGTH('a) - m)) mod LENGTH('a) = i - m" using True i m by (simp add: mod_if)
    moreover have "bit v (i + (LENGTH('a) - m) mod LENGTH('a)) \<Longrightarrow> m = 0"
      using True m bit_imp_le_length [of v "i + (LENGTH('a) - m) mod LENGTH('a)"] by (auto simp: mod_if split: if_splits)
    ultimately show ?thesis using True i m
      by (auto simp: bit_or_iff bit_push_bit_iff bit_drop_bit_eq bit_word_rotl_iff add.commute)
  next
    case False
    then show ?thesis using i m
      by (auto simp: bit_or_iff bit_push_bit_iff bit_drop_bit_eq bit_word_rotl_iff add.commute)
  qed
qed

lemma div_square: fixes X M :: int assumes "0 < M" shows "(X * M + Y) div (M * M) = (X + Y div M) div M"
proof -
  have "(X * M + Y) div (M * M) = ((X * M + Y) div M) div M"
    using assms by (simp add: zdiv_zmult2_eq)
  also have "(X * M + Y) div M = X + Y div M" using assms by simp
  finally show ?thesis .
qed

lemma halves_div: fixes Q L H P M :: int
  assumes "0 < M"
  shows "(Q * (M * M) + (L + H) * M + P) div (M * M)
    = Q + L div M + H div M + (P div M + L mod M + H mod M) div M"
proof -
  have "(Q * (M * M) + (L + H) * M + P) = (Q * M + L + H) * M + P" by (simp add: algebra_simps)
  then have "(Q * (M * M) + (L + H) * M + P) div (M * M) = (Q * M + L + H + P div M) div M"
    using div_square [OF assms, of "Q * M + L + H" P] by simp
  also have "Q * M + L + H + P div M = (P div M + L mod M + H mod M) + (Q + L div M + H div M) * M"
  proof -
    have "L = L div M * M + L mod M" "H = H div M * M + H mod M" by simp_all
    then show ?thesis by (simp add: algebra_simps)
  qed
  also have "\<dots> div M = Q + L div M + H div M + (P div M + L mod M + H mod M) div M"
    using assms by simp
  finally show ?thesis .
qed

section \<open>Decimal text\<close>

text \<open>Reference definitions: the decimal text of a natural number and the number a digit string denotes.\<close>

fun dec_str :: "nat \<Rightarrow> string" where
  "dec_str u = (if u < 10 then [char_of (48 + u)] else dec_str (u div 10) @ [char_of (48 + u mod 10)])"
declare dec_str.simps [simp del]

definition dec_value :: "nat \<Rightarrow> string \<Rightarrow> nat" where
  "dec_value = foldl (\<lambda>u c. u * 10 + (code_of c - 48))"

lemma code_digit [simp]: "n < 10 \<Longrightarrow> code_of (char_of (48 + n)) = 48 + n"
  by (simp add: of_char_of)

lemma word_digits_dec: "word_digits u acc = dec_str u @ acc"
proof (induction u arbitrary: acc rule: less_induct)
  case (less u)
  show ?case
  proof (cases "u < 10")
    case True
    then show ?thesis by (simp add: word_digits.simps [of u acc] dec_str.simps [of u] Let_def)
  next
    case False
    then have "u div 10 \<noteq> 0" by linarith
    then show ?thesis using less.IH [of "u div 10"] False
      by (simp add: word_digits.simps [of u acc] dec_str.simps [of u] Let_def)
  qed
qed

lemma dec_str_digits: "list_all c_digit (dec_str u)"
proof (induction u rule: less_induct)
  case (less u)
  have "u mod 10 < 10" by simp
  then have "c_digit (char_of (48 + u mod 10))" using code_digit [of "u mod 10"] by (simp add: c_digit_def del: code_digit)
  then show ?case using less.IH [of "u div 10"]
    by (cases "u < 10") (simp_all add: dec_str.simps [of u] c_digit_def)
qed

lemma dec_str_value: "dec_value 0 (dec_str u) = u"
proof (induction u rule: less_induct)
  case (less u)
  show ?case
  proof (cases "u < 10")
    case True
    then show ?thesis by (simp add: dec_str.simps [of u] dec_value_def)
  next
    case False
    have "code_of (char_of (48 + u mod 10)) - 48 = u mod 10" using code_digit [of "u mod 10"] by simp
    then show ?thesis using less.IH [of "u div 10"] False
      by (simp add: dec_str.simps [of u] dec_value_def)
  qed
qed

lemma dec_value_Cons: "dec_value u (c # cs) = dec_value (u * 10 + (code_of c - 48)) cs"
  by (simp add: dec_value_def)

lemma dec_value_ge: "u \<le> dec_value u cs"
proof (induction cs arbitrary: u)
  case Nil
  show ?case by (simp add: dec_value_def)
next
  case (Cons c cs)
  have "u \<le> u * 10 + (code_of c - 48)" by simp
  also have "\<dots> \<le> dec_value u (c # cs)" using Cons by (simp add: dec_value_Cons)
  finally show ?case .
qed

lemma to_int_digits_exact:
  "list_all c_digit s \<Longrightarrow> 9 \<le> lim \<Longrightarrow> dec_value u s \<le> lim \<Longrightarrow> to_int_digits lim u s = dec_value u s"
proof (induction s arbitrary: u)
  case Nil
  then show ?case by (simp add: dec_value_def)
next
  case (Cons c cs)
  let ?d = "code_of c - 48"
  have d: "?d \<le> 9" using Cons.prems(1) by (auto simp: c_digit_def)
  have "u * 10 + ?d \<le> lim"
    using dec_value_ge [of "u * 10 + ?d" cs] Cons.prems(3) by (simp add: dec_value_Cons)
  then have "\<not> u > (lim - ?d) div 10" by linarith
  then show ?case using Cons by (simp add: dec_value_Cons Let_def)
qed

lemma to_int_digits_saturates:
  "list_all c_digit s \<Longrightarrow> 9 \<le> lim \<Longrightarrow> u \<le> lim \<Longrightarrow> lim < dec_value u s \<Longrightarrow> to_int_digits lim u s = lim"
proof (induction s arbitrary: u)
  case Nil
  then show ?case by (simp add: dec_value_def)
next
  case (Cons c cs)
  let ?d = "code_of c - 48"
  have d: "?d \<le> 9" using Cons.prems(1) by (auto simp: c_digit_def)
  show ?case
  proof (cases "u > (lim - ?d) div 10")
    case True
    then show ?thesis using Cons.prems(1) by (simp add: Let_def)
  next
    case False
    then have "u * 10 + ?d \<le> lim" using d Cons.prems(2) by linarith
    then show ?thesis using Cons False by (simp add: dec_value_Cons Let_def)
  qed
qed

lemma dec_str_Cons: "\<exists>c cs. dec_str u = c # cs \<and> c_digit c"
  using dec_str_digits [of u] by (cases "dec_str u") (auto simp: dec_str.simps [of u] split: if_splits)

lemma digit_not_sign: "c_digit c \<Longrightarrow> \<not> c_space c \<and> c \<noteq> CHR ''-'' \<and> c \<noteq> CHR ''+''"
  by (auto simp: c_digit_def c_space_def)

lemma abs_of_w64:
  "sint (x :: w64) < 0 \<Longrightarrow> int (unat (0 - x)) = - sint x"
  "\<not> sint (x :: w64) < 0 \<Longrightarrow> int (unat x) = sint x"
proof -
  have e: "sint x = uint x - (if sint x < 0 then 18446744073709551616 else 0)"
    using bit_last_iff [of x]
    by (simp add: sint_uint signed_take_bit_eq_take_bit_minus bintr_uint bit_uint_iff)
  show "int (unat x) = sint x" if "\<not> sint x < 0" using e that by simp
  show "int (unat (0 - x)) = - sint x" if neg: "sint x < 0"
  proof -
    have u: "int (unat x) = 18446744073709551616 + sint x" using e neg by simp
    then have pos: "0 < unat x" using sint64_range [of x] by linarith
    have le: "unat x \<le> 18446744073709551616" using u neg by linarith
    have "unat (0 - x) = 18446744073709551616 - unat x"
      using pos unat_sub_if' [of 0 x] by simp
    then have "int (unat (0 - x)) = 18446744073709551616 - int (unat x)" using le by (simp only: of_nat_diff)
    then show ?thesis using u by linarith
  qed
qed

lemma id_str_of_word_text:
  "id_str_of_word x = (if sint x < 0 then CHR ''-'' # dec_str (nat (- sint x)) else dec_str (nat (sint x)))"
proof -
  have "sint x < 0 \<Longrightarrow> unat (0 - x) = nat (- sint x)" using abs_of_w64 (1) [of x] by linarith
  moreover have "\<not> sint x < 0 \<Longrightarrow> unat x = nat (sint x)" using abs_of_w64 (2) [of x] by linarith
  ultimately show ?thesis by (simp add: id_str_of_word_def Let_def word_digits_dec)
qed

section \<open>Properties\<close>

lemmas umul_hi_defs = id_umul_hi_def id_umul_hi_halves_def

lemma uint_umul_hi: "uint (id_umul_hi a b) = (uint a * uint b) div 2 ^ 64"
proof -
  have b: "uint a < 2^64" "uint b < 2^64" using uint_lt2p[of a] uint_lt2p[of b] by auto
  then have "uint a * uint b < 2^64 * 2^64" by (intro mult_strict_mono) auto
  then have p: "uint a * uint b < 2 ^ 128" by simp
  have e: "uint ((ucast a :: 128 word) * ucast b) = uint a * uint b"
    using b p by (simp add: uint_word_ariths unsigned_ucast_eq take_bit_int_eq_self)
  have h: "uint a * uint b div 2 ^ 64 < 2 ^ 64" "0 \<le> uint a * uint b div 2 ^ 64"
    using p by (auto simp: pos_imp_zdiv_nonneg_iff)
  have "uint (id_umul_hi a b) = take_bit 64 (uint (drop_bit 64 ((ucast a :: 128 word) * ucast b)))"
    by (simp only: id_umul_hi_def unsigned_ucast_eq) simp
  also have "\<dots> = take_bit 64 (uint a * uint b div 2 ^ 64)"
    by (simp only: uint_drop_bit e)
  also have "\<dots> = uint a * uint b div 2 ^ 64"
    using h by (simp only: take_bit_int_eq_self)
  finally show ?thesis .
qed

lemma uint_mult_small: "uint x * uint y < 2 ^ 64 \<Longrightarrow> uint (x * y :: w64) = uint x * uint y"
  by (simp add: uint_word_ariths mod_pos_pos_trivial)

lemma uint_add_small: "uint x + uint y < 2 ^ 64 \<Longrightarrow> uint (x + y :: w64) = uint x + uint y"
  by (simp add: uint_word_ariths mod_pos_pos_trivial)

lemma uint_low_half: "uint ((a :: w64) AND 0xffffffff) = uint a mod 4294967296"
proof -
  have "a AND 0xffffffff = take_bit 32 a"
    by (simp add: take_bit_eq_mask mask_eq_exp_minus_1)
  then show ?thesis by (simp only: unsigned_take_bit_eq) (simp add: take_bit_eq_mod)
qed

lemma half_product:
  fixes x y :: int
  assumes "0 \<le> x" "x \<le> 4294967295" "0 \<le> y" "y \<le> 4294967295"
  shows "0 \<le> x * y" "x * y \<le> 18446744065119617025"
proof -
  show "0 \<le> x * y" using assms by simp
  have "x * y \<le> 4294967295 * 4294967295" using assms by (intro mult_mono) auto
  then show "x * y \<le> 18446744065119617025" by simp
qed

lemma uint_umul_hi_halves: "uint (id_umul_hi_halves a b) = (uint a * uint b) div 2 ^ 64"
proof -
  define A B where "A = uint a" and "B = uint b"
  define M :: int where "M = 4294967296"
  define xl xh yl yh where "xl = A mod M" and "xh = A div M" and "yl = B mod M" and "yh = B div M"
  note halves = xl_def xh_def yl_def yh_def
  have AB: "0 \<le> A" "A < M * M" "0 \<le> B" "B < M * M"
    using uint_lt2p [of a] uint_lt2p [of b] by (auto simp: A_def B_def M_def)
  have b: "0 \<le> xl" "xl \<le> 4294967295" "0 \<le> yl" "yl \<le> 4294967295"
    "0 \<le> xh" "xh \<le> 4294967295" "0 \<le> yh" "yh \<le> 4294967295"
    using AB by (auto simp: halves M_def)
  note P = half_product [OF b(1,2) b(3,4)] half_product [OF b(1,2) b(7,8)]
    half_product [OF b(5,6) b(3,4)] half_product [OF b(5,6) b(7,8)]
  have ul: "uint (a AND 0xffffffff) = xl" "uint (b AND 0xffffffff) = yl"
    by (simp_all add: uint_low_half halves A_def B_def M_def)
  have uh: "uint (drop_bit 32 a) = xh" "uint (drop_bit 32 b) = yh"
    by (simp_all only: uint_drop_bit) (simp_all add: halves A_def B_def M_def)
  have m: "uint ((a AND 0xffffffff) * (b AND 0xffffffff)) = xl * yl"
    "uint ((a AND 0xffffffff) * drop_bit 32 b) = xl * yh"
    "uint (drop_bit 32 a * (b AND 0xffffffff)) = xh * yl"
    "uint (drop_bit 32 a * drop_bit 32 b) = xh * yh"
    using P by (simp_all add: uint_mult_small ul uh)
  have Mpos: "0 < M" by (simp add: M_def)
  have AB_split: "A * B = xh * yh * (M * M) + (xl * yh + xh * yl) * M + xl * yl"
  proof -
    have "A = xh * M + xl" "B = yh * M + yl" by (simp_all add: halves)
    then show ?thesis by (simp add: algebra_simps)
  qed
  have sum: "A * B div (M * M) = xh * yh + xl * yh div M + xh * yl div M
      + (xl * yl div M + xl * yh mod M + xh * yl mod M) div M" (is "_ = ?q + ?l + ?h + ?mid div M")
    by (simp only: AB_split halves_div [OF Mpos])
  have "A * B div (M * M) < 2 ^ 64"
    using uint_umul_hi [of a b] uint_lt2p [of "id_umul_hi a b"] by (simp add: A_def B_def M_def)
  then have top: "?q + ?l + ?h + ?mid div M < 2 ^ 64" by (simp only: sum)
  have div_less_M: "xl * yl div M < M"
    using P(1,2) by (simp add: M_def)
  have r: "0 \<le> xl * yl div M" "xl * yl div M < M" "0 \<le> ?l" "0 \<le> ?h"
    "0 \<le> xl * yh mod M" "xl * yh mod M < M" "0 \<le> xh * yl mod M" "xh * yl mod M < M"
    using P Mpos by (simp_all add: pos_imp_zdiv_nonneg_iff div_less_M)
  let ?XL = "a AND 0xffffffff" and ?YL = "b AND 0xffffffff" and ?XH = "drop_bit 32 a" and ?YH = "drop_bit 32 b"
  have d: "uint (drop_bit 32 w) = uint w div M" for w :: w64
    by (simp only: uint_drop_bit M_def) simp
  have lo: "uint (w AND 0xffffffff) = uint w mod M" for w :: w64
    by (simp only: uint_low_half M_def)
  note step = d lo m
  have M64: "M + M + M < 2 ^ 64" by (simp add: M_def)
  have sum2: "uint (v + w) = x + y" if "uint v = x" "uint w = y" "x + y < 2 ^ 64" for v w :: w64 and x y
    using that uint_add_small [of v w] by simp
  have mid0: "0 \<le> ?mid div M" using r Mpos by (simp add: pos_imp_zdiv_nonneg_iff)
  have small: "xl * yl div M + xl * yh mod M < 2 ^ 64" "?mid < 2 ^ 64"
    "?q + ?l < 2 ^ 64" "?q + ?l + ?h < 2 ^ 64"
    using r M64 Mpos mid0 top by linarith+
  have e: "uint (drop_bit 32 (?XL * ?YL)) = xl * yl div M" "uint (?XL * ?YH AND 0xffffffff) = xl * yh mod M"
    "uint (?XH * ?YL AND 0xffffffff) = xh * yl mod M" "uint (drop_bit 32 (?XL * ?YH)) = ?l"
    "uint (drop_bit 32 (?XH * ?YL)) = ?h"
    by (simp_all only: step)
  note mid = sum2 [OF sum2 [OF e(1,2) small(1)] e(3) small(2)]
  note s2 = sum2 [OF sum2 [OF m(4) e(4) small(3)] e(5) small(4)]
  have "uint (drop_bit 32 (drop_bit 32 (?XL * ?YL) + (?XL * ?YH AND 0xffffffff) + (?XH * ?YL AND 0xffffffff))) = ?mid div M"
    by (simp only: d mid)
  then have "uint (id_umul_hi_halves a b) = ?q + ?l + ?h + ?mid div M"
    unfolding id_umul_hi_halves_def Let_def by (rule sum2 [OF s2 _ top])
  then have "uint (id_umul_hi_halves a b) = A * B div (M * M)" by (simp only: sum)
  moreover have "M * M = 2 ^ 64" by (simp add: M_def)
  ultimately show ?thesis by (simp only: A_def B_def)
qed

lemma sdiv_in_range64:
  assumes "\<not> (b = - 1 \<and> a = LLONG_MIN)"
  shows "sint (word_of_int (sint a sdiv sint b) :: w64) = sint a sdiv sint b"
proof -
  have bnd: "\<bar>sint a sdiv sint b\<bar> \<le> \<bar>sint a\<bar>" using sdiv_int_range [of "sint a" "sint b"] by auto
  have r: "- 9223372036854775808 \<le> sint a" "sint a \<le> 9223372036854775807"
    using sint64_range [of a] by auto
  have "sint a sdiv sint b \<noteq> 9223372036854775808"
  proof
    assume e: "sint a sdiv sint b = 9223372036854775808"
    then have a: "sint a = - 9223372036854775808" using bnd r by linarith
    then have "sint b = - 1" using e by (intro sdiv_eq_neg [of "sint a"]) auto
    then have "b = - 1" by (intro signed_word_eqI) simp
    moreover have "a = LLONG_MIN" using a by (intro signed_word_eqI) (simp add: LLONG_MIN_def)
    ultimately show False using assms by blast
  qed
  then show ?thesis using bnd r by simp
qed
lemma sdiv_in_range32:
  assumes "\<not> (b = - 1 \<and> a = INT32_MIN)"
  shows "sint (word_of_int (sint a sdiv sint b) :: w32) = sint a sdiv sint b"
proof -
  have bnd: "\<bar>sint a sdiv sint b\<bar> \<le> \<bar>sint a\<bar>" using sdiv_int_range [of "sint a" "sint b"] by auto
  have r: "- 2147483648 \<le> sint a" "sint a \<le> 2147483647"
    using sint32_range [of a] by auto
  have "sint a sdiv sint b \<noteq> 2147483648"
  proof
    assume e: "sint a sdiv sint b = 2147483648"
    then have a: "sint a = - 2147483648" using bnd r by linarith
    then have "sint b = - 1" using e by (intro sdiv_eq_neg [of "sint a"]) auto
    then have "b = - 1" by (intro signed_word_eqI) simp
    moreover have "a = INT32_MIN" using a by (intro signed_word_eqI) (simp add: INT32_MIN_def)
    ultimately show False using assms by blast
  qed
  then show ?thesis using bnd r by simp
qed

lemma smod_facts:
  fixes x y :: int
  assumes "y \<noteq> 0"
  shows "\<bar>x smod y\<bar> < \<bar>y\<bar>" "\<bar>x smod y\<bar> \<le> \<bar>x\<bar>" "x smod y \<noteq> 0 \<Longrightarrow> sgn (x smod y) = sgn x"
proof -
  have e: "x smod y = sgn x * (\<bar>x\<bar> mod \<bar>y\<bar>)"
    using assms by (simp add: smod_int_alt_def)
  have m: "0 \<le> \<bar>x\<bar> mod \<bar>y\<bar>" "\<bar>x\<bar> mod \<bar>y\<bar> < \<bar>y\<bar>" "\<bar>x\<bar> mod \<bar>y\<bar> \<le> \<bar>x\<bar>"
    using assms by (auto simp: zmod_le_nonneg_dividend)
  show "\<bar>x smod y\<bar> < \<bar>y\<bar>" "\<bar>x smod y\<bar> \<le> \<bar>x\<bar>"
    using m assms by (auto simp: e abs_mult sgn_if)
  show "sgn (x smod y) = sgn x" if "x smod y \<noteq> 0"
    using that m by (auto simp: e sgn_if split: if_splits)
qed

theorem id_sdiv_smod_euclid:
  assumes "id_sdiv a b = Inr q" "id_smod a b = Inr r"
  shows "sint a = sint q * sint b + sint r \<and> \<bar>sint r\<bar> < \<bar>sint b\<bar>
    \<and> (sint r = 0 \<or> sgn (sint r) = sgn (sint a))"
proof -
  have b: "sint b \<noteq> 0" "\<not> (b = - 1 \<and> a = LLONG_MIN)"
    using assms by (auto simp: id_sdiv_def signed_eq_0_iff split: if_splits)
  have q: "sint q = sint a sdiv sint b"
    using assms b sdiv_in_range64 [OF b(2)] by (auto simp: id_sdiv_def split: if_splits)
  have r: "sint r = sint a smod sint b"
  proof (cases "b = - 1")
    case True
    then show ?thesis using assms(2) smod_facts(1) [OF b(1), of "sint a"] by (auto simp: id_smod_def)
  next
    case False
    then have "sint r = wrap64 (sint a smod sint b)" using assms by (auto simp: id_smod_def split: if_splits)
    moreover have "- 9223372036854775808 \<le> sint a smod sint b" "sint a smod sint b \<le> 9223372036854775807"
      using smod_facts(1) [OF b(1), of "sint a"] sint64_range [of b] by linarith+
    ultimately show ?thesis by simp
  qed
  show ?thesis
    using smod_facts [OF b(1), of "sint a"] mult_sdiv_smod_eq [of "sint b" "sint a"]
    by (auto simp: q r mult.commute)
qed

theorem id_sdiv_smod_euclid_witness:
  "sint (-7 :: w64) = sint (-3 :: w64) * sint (2 :: w64) + sint (-1 :: w64)"
proof -
  have "id_sdiv (-7) 2 = Inr (-3)" "id_smod (-7) 2 = Inr (-1)"
    by (simp_all add: id_sdiv_def id_smod_def LLONG_MIN_def)
  from id_sdiv_smod_euclid [OF this] show ?thesis by simp
qed

theorem id_shifts_meaning:
  assumes "0 \<le> sint n"
  shows "\<exists>l r u. id_shl a n = Inr l \<and> id_sar a n = Inr r \<and> id_ushr a n = Inr u
    \<and> uint l = (uint a * 2 ^ nat (sint n)) mod 2 ^ 64
    \<and> sint r = sint a div 2 ^ nat (sint n)
    \<and> uint u = uint a div 2 ^ nat (sint n)"
proof (cases "64 \<le> sint n")
  case True
  then have le: "64 \<le> nat (sint n)" by linarith
  have "(2::int) ^ 64 dvd uint a * 2 ^ nat (sint n)"
    using le by (intro dvd_mult le_imp_power_dvd)
  then have l: "(uint a * 2 ^ nat (sint n)) mod 2 ^ 64 = 0" by simp
  have "uint a < 2 ^ nat (sint n)"
    using uint_lt2p [of a] power_increasing [OF le, of "2::int"] by simp
  then have u: "uint a div 2 ^ nat (sint n) = 0" by (simp add: div_pos_pos_trivial)
  show ?thesis using True l u sint_div_big [OF True, of a]
    by (simp add: id_shl_def id_sar_def id_ushr_def del: power_numeral)
next
  case False
  then show ?thesis using assms uint_push_bit [of "nat (sint n)" a]
    by (simp add: id_shl_def id_sar_def id_ushr_def uint_drop_bit sint_signed_drop_bit_eq
        del: push_bit_eq_mult) (simp add: flip: drop_bit_eq_div push_bit_eq_mult)
qed

theorem id_shifts_meaning_witness:
  "id_shl (-8) 65 = Inr 0 \<and> id_sar (-8) 65 = Inr (-1) \<and> id_ushr (-8) 65 = Inr 0"
proof -
  have "0 \<le> sint (65 :: w64)" by simp
  from id_shifts_meaning [OF this, of "-8"] show ?thesis
    by (auto simp: id_shl_def id_sar_def id_ushr_def)
qed

text \<open>
  C37: The portable 32-bit-halves computation of the high word of an unsigned product equals
  the 128-bit one for all arguments.
\<close>

theorem id_umul_hi_equiv:
  "id_umul_hi_halves a b = id_umul_hi a b \<and> uint (id_umul_hi a b) = uint a * uint b div 2 ^ 64"
proof -
  have "uint (id_umul_hi_halves a b) = uint (id_umul_hi a b)"
    by (simp only: uint_umul_hi uint_umul_hi_halves)
  then have "id_umul_hi_halves a b = id_umul_hi a b" by (rule unsigned_word_eqI)
  then show ?thesis by (simp only: uint_umul_hi)
qed

lemma fits64_iff: "fits64 x = Inr r \<longleftrightarrow> sint r = x"
  using sint64_range [of r] by (auto simp: fits64_def intro!: signed_word_eqI)

lemma fits32_iff: "fits32 x = Inr r \<longleftrightarrow> sint r = x \<and> - (2 ^ 31) \<le> sint r \<and> sint r < 2 ^ 31"
  by (auto simp: fits32_def intro!: signed_word_eqI)

lemmas checked_defs = id_add_checked_def id_sub_checked_def id_mul_checked_def
  id_add_checked32_def id_sub_checked32_def id_mul_checked32_def

theorem id_checked_exact:
  "(id_add_checked a b = Inr r \<longleftrightarrow> sint r = sint a + sint b)
   \<and> (id_sub_checked a b = Inr r \<longleftrightarrow> sint r = sint a - sint b)
   \<and> (id_mul_checked a b = Inr r \<longleftrightarrow> sint r = sint a * sint b)
   \<and> (id_add_checked32 a b = Inr r \<longleftrightarrow> sint r = int_of_w32 a + int_of_w32 b \<and> wrap32 (sint r) = sint r)
   \<and> (id_sub_checked32 a b = Inr r \<longleftrightarrow> sint r = int_of_w32 a - int_of_w32 b \<and> wrap32 (sint r) = sint r)
   \<and> (id_mul_checked32 a b = Inr r \<longleftrightarrow> sint r = int_of_w32 a * int_of_w32 b \<and> wrap32 (sint r) = sint r)"
proof -
  have "wrap32 (sint r) = sint r \<longleftrightarrow> - (2 ^ 31) \<le> sint r \<and> sint r < 2 ^ 31"
    using wrap32_range [of "sint r"] by auto
  then show ?thesis by (auto simp: checked_defs fits64_iff fits32_iff)
qed

theorem id_rotl_word_rotl:
  "id_rotl v n = word_rotl (unat n mod 64) v
   \<and> id_rotl32 x n = scast (word_rotl (unat (ucast n :: w32) mod 32) (ucast x :: w32))"
  using shifts_or_rotl [of "unat n mod 64" v]
    shifts_or_rotl [of "unat (ucast n :: w32) mod 32" "ucast x :: w32"]
  by (simp add: id_rotl_def id_rotl32_def Let_def unat_and_63 unat_and_31
      unat_neg_and_63 [simplified] unat_neg_and_31 [simplified])

lemma to_int_of_word_text: "id_to_int (id_str_of_word x) = wrap32 (sint x)"
proof (cases "sint x < 0")
  case True
  have "to_int_digits 9223372036854775808 0 (dec_str (nat (- sint x))) = nat (- sint x)"
    using sint64_range [of x] by (subst to_int_digits_exact) (auto simp: dec_str_digits dec_str_value)
  then show ?thesis using True by (simp add: id_to_int_def id_str_of_word_text Let_def c_space_def)
next
  case False
  obtain c cs where c: "dec_str (nat (sint x)) = c # cs" "c_digit c" using dec_str_Cons by blast
  have "to_int_digits 9223372036854775807 0 (dec_str (nat (sint x))) = nat (sint x)"
    using sint64_range [of x] by (subst to_int_digits_exact) (auto simp: dec_str_digits dec_str_value)
  then show ?thesis using False c digit_not_sign [OF c(2)]
    by (simp add: id_to_int_def id_str_of_word_text Let_def)
qed

lemma dec_str_length: "u < 10 ^ k \<Longrightarrow> 0 < k \<Longrightarrow> length (dec_str u) \<le> k"
proof (induction k arbitrary: u)
  case 0
  then show ?case by simp
next
  case (Suc k)
  show ?case
  proof (cases "u < 10")
    case True
    then show ?thesis by (simp add: dec_str.simps [of u])
  next
    case False
    then have "u div 10 < 10 ^ k" "0 < k" using Suc.prems by (auto intro: gr0I)
    then show ?thesis using Suc.IH [of "u div 10"] False by (simp add: dec_str.simps [of u])
  qed
qed

lemma sint_scast_w32: "sint (scast (x :: w32) :: w64) = sint x"
  using sint32_range [of x] by (simp add: signed_scast_eq signed_take_bit_int_eq_self)

theorem id_str_of_word_roundtrip:
  "id_to_int (id_str_of_word x) = wrap32 (sint x) \<and> id_to_int (id_str_of_int y) = sint y
   \<and> length (id_str_of_word x) \<le> 24"
proof -
  have "length (dec_str (nat (- sint x))) \<le> 19" "length (dec_str (nat (sint x))) \<le> 19"
    using sint64_range [of x] by (auto intro!: dec_str_length)
  then have "length (id_str_of_word x) \<le> 24" by (simp add: id_str_of_word_text)
  then show ?thesis using sint32_range [of y]
    by (simp add: to_int_of_word_text id_str_of_int_def sint_scast_w32)
qed

end
