(* ===== verification/Pool.thy ===== *)
theory Pool
  imports Arith
begin

text \<open>
  The allocation pool every heap block of the runtime comes from: size classes with
  intrusive free lists, a bump pointer into the current chunk, and large blocks on a doubly
  linked list. The state is the group of the runtime's thread-local variables together with
  the pointer-sized memory cells the pool itself reads and writes (a free block's link at
  offset 8, a chunk's next pointer at offset 0, a large block's prev and next in its
  header). Addresses are naturals, \<open>0\<close> is NULL; what \<open>malloc\<close> and \<open>realloc\<close> answer is an
  argument \<open>m\<close> of the operation that calls them, \<open>0\<close> when they fail.
\<close>

section \<open>Size classes\<close>

definition POOL_MAX :: nat where "POOL_MAX = 16384"
definition POOL_SMALL :: nat where "POOL_SMALL = 512"
definition NCLASS :: nat where "NCLASS = 53"
definition CHUNK :: nat where "CHUNK = 262144"
definition CHUNK_HDR :: nat where "CHUNK_HDR = 16"
definition ALLOC_HDR :: nat where "ALLOC_HDR = 16"

lemmas pool_consts = POOL_MAX_def POOL_SMALL_def NCLASS_def CHUNK_def CHUNK_HDR_def ALLOC_HDR_def

text \<open>The position of the highest set bit, \<open>63 - __builtin_clzll(m)\<close>.\<close>

fun ilog2 :: "nat \<Rightarrow> nat" where
  "ilog2 m = (if m < 2 then 0 else Suc (ilog2 (m div 2)))"

declare ilog2.simps [simp del]

definition id_pool_class :: "nat \<Rightarrow> nat" where
  "id_pool_class n =
     (if n \<le> POOL_SMALL then (if n \<noteq> 0 then (n + 15) div 16 else 1)
      else let m = n - 1; e = ilog2 m
           in 33 + (e - 9) * 4 + (m div 2 ^ (e - 2)) mod 4)"

definition id_pool_class_bytes :: "nat \<Rightarrow> nat" where
  "id_pool_class_bytes k =
     (if k \<le> 32 then k * 16
      else let j = k - 33; e = 9 + j div 4
           in 2 ^ e + (j mod 4 + 1) * 2 ^ (e - 2))"

section \<open>The state\<close>

record pool =
  p_mem :: "nat \<Rightarrow> nat"
  p_fl :: "nat \<Rightarrow> nat"
  p_bump :: nat
  p_left :: nat
  p_chunks :: nat
  p_lo :: nat
  p_hi :: nat
  p_arena :: nat
  p_hooked :: bool

definition pool_init :: pool where
  "pool_init = \<lparr>p_mem = (\<lambda>_. 0), p_fl = (\<lambda>_. 0), p_bump = 0, p_left = 0, p_chunks = 0,
     p_lo = SIZE_MAX, p_hi = 0, p_arena = 0, p_hooked = False\<rparr>"

abbreviation store_cell :: "pool \<Rightarrow> nat \<Rightarrow> nat \<Rightarrow> pool" where
  "store_cell s a v \<equiv> s\<lparr>p_mem := (p_mem s)(a := v)\<rparr>"

section \<open>Operations\<close>

definition id_pool_span :: "nat \<Rightarrow> nat \<Rightarrow> pool \<Rightarrow> pool" where
  "id_pool_span lo hi s =
     s\<lparr>p_lo := (if lo < p_lo s then lo else p_lo s),
       p_hi := (if hi > p_hi s then hi else p_hi s)\<rparr>"

definition id_pool_has :: "pool \<Rightarrow> nat \<Rightarrow> bool" where
  "id_pool_has s a \<longleftrightarrow> p_lo s \<le> a \<and> a < p_hi s"

definition id_arena_hook :: "pool \<Rightarrow> pool" where
  "id_arena_hook s = (if \<not> p_hooked s then s\<lparr>p_hooked := True\<rparr> else s)"

text \<open>A large block's header: \<open>prev\<close> at its address, \<open>next\<close> eight bytes on.\<close>

definition id_arena_link :: "nat \<Rightarrow> pool \<Rightarrow> pool" where
  "id_arena_link h s =
     (let s1 = store_cell s h 0;
          s2 = store_cell s1 (h + 8) (p_arena s1);
          s3 = (if p_arena s2 \<noteq> 0 then store_cell s2 (p_arena s2) h else s2)
      in id_arena_hook (s3\<lparr>p_arena := h\<rparr>))"

definition id_arena_unlink :: "nat \<Rightarrow> pool \<Rightarrow> pool" where
  "id_arena_unlink h s =
     (let s1 = (if p_mem s h \<noteq> 0 then store_cell s (p_mem s h + 8) (p_mem s (h + 8))
                else s\<lparr>p_arena := p_mem s (h + 8)\<rparr>)
      in if p_mem s1 (h + 8) \<noteq> 0 then store_cell s1 (p_mem s1 (h + 8)) (p_mem s1 h) else s1)"

definition id_pool_carve :: "nat \<Rightarrow> nat \<Rightarrow> pool \<Rightarrow> (nat \<times> pool) res" where
  "id_pool_carve m bytes s =
     andThen
       (if p_left s < bytes then
          (if m = 0 then Inl (Trap_oom bytes)
           else
             let s1 = store_cell s m (p_chunks s);
                 s2 = s1\<lparr>p_chunks := m\<rparr>;
                 s3 = id_pool_span m (m + CHUNK) s2
             in Inr (id_arena_hook
                  (s3\<lparr>p_bump := m + CHUNK_HDR, p_left := CHUNK - CHUNK_HDR\<rparr>)))
        else Inr s)
       (\<lambda>s. Inr (p_bump s, s\<lparr>p_bump := p_bump s + bytes, p_left := p_left s - bytes\<rparr>))"

definition id_pool_large_alloc :: "nat \<Rightarrow> nat \<Rightarrow> pool \<Rightarrow> (nat \<times> pool) res" where
  "id_pool_large_alloc m n s =
     andThen (id_add_check n ALLOC_HDR ''alloc'')
       (\<lambda>_. if m = 0 then Inl (Trap_oom n)
             else Inr (m + ALLOC_HDR, id_arena_link m s))"

definition id_pool_large_free :: "nat \<Rightarrow> pool \<Rightarrow> pool" where
  "id_pool_large_free p s = id_arena_unlink (p - ALLOC_HDR) s"

definition id_pool_get :: "nat \<Rightarrow> nat \<Rightarrow> pool \<Rightarrow> (nat \<times> pool) res" where
  "id_pool_get m n s =
     (if n > POOL_MAX then id_pool_large_alloc m n s
      else
        let k = id_pool_class n; p = p_fl s k
        in if p = 0 then id_pool_carve m (id_pool_class_bytes k) s
           else Inr (p, s\<lparr>p_fl := (p_fl s)(k := p_mem s (p + 8))\<rparr>))"

definition id_pool_blk :: "nat \<Rightarrow> nat \<Rightarrow> pool \<Rightarrow> (nat \<times> pool) res" where
  "id_pool_blk m n s = id_pool_get m n s"

definition id_pool_free :: "nat \<Rightarrow> nat \<Rightarrow> pool \<Rightarrow> pool" where
  "id_pool_free p n s =
     (if p = 0 then s
      else if n > POOL_MAX then id_pool_large_free p s
      else
        let k = id_pool_class n; s1 = store_cell s (p + 8) (p_fl s k)
        in s1\<lparr>p_fl := (p_fl s1)(k := p)\<rparr>)"

text \<open>\<open>memcpy\<close> of \<open>n\<close> bytes, on the cells the model keeps.\<close>

definition copy_cells :: "nat \<Rightarrow> nat \<Rightarrow> nat \<Rightarrow> pool \<Rightarrow> pool" where
  "copy_cells q p n s =
     s\<lparr>p_mem := (\<lambda>a. if q \<le> a \<and> a < q + n then p_mem s (p + (a - q)) else p_mem s a)\<rparr>"

definition id_realloc :: "nat \<Rightarrow> nat \<Rightarrow> nat \<Rightarrow> nat \<Rightarrow> pool \<Rightarrow> (nat \<times> pool) res" where
  "id_realloc m p old n s =
     (if p = 0 then id_pool_get m n s
      else if old > POOL_MAX \<and> n > POOL_MAX then
        let h = p - ALLOC_HDR; s1 = id_arena_unlink h s
        in andThen (id_add_check n ALLOC_HDR ''realloc'')
             (\<lambda>_. if m = 0 then Inl (Trap_oom n)
                   else Inr (m + ALLOC_HDR,
                          id_arena_link m (copy_cells m h (ALLOC_HDR + min old n) s1)))
      else if old \<le> POOL_MAX \<and> n \<le> POOL_MAX \<and> id_pool_class old = id_pool_class n then Inr (p, s)
      else
        andThen (id_pool_get m n s)
          (\<lambda>(q, s1). Inr (q, id_pool_free p old (copy_cells q p (min old n) s1))))"

text \<open>
  Release at exit: every large block, then every chunk, is given back to the C library. A
  walk along a list that does not end would not return; \<open>fuel\<close> bounds it, and None is a
  walk that has not ended.
\<close>

fun chain :: "nat \<Rightarrow> (nat \<Rightarrow> nat) \<Rightarrow> nat \<Rightarrow> nat list option" where
  "chain fuel nx 0 = Some []"
| "chain 0 nx (Suc p) = None"
| "chain (Suc fuel) nx (Suc p) = map_option ((#) (Suc p)) (chain fuel nx (nx (Suc p)))"

definition id_pool_drop :: "nat \<Rightarrow> pool \<Rightarrow> (nat list \<times> pool) option" where
  "id_pool_drop fuel s =
     map_option (\<lambda>cs. (cs, s\<lparr>p_chunks := 0, p_bump := 0, p_left := 0, p_fl := (\<lambda>_. 0)\<rparr>))
       (chain fuel (p_mem s) (p_chunks s))"

definition id_arena_free_all :: "nat \<Rightarrow> pool \<Rightarrow> (nat list \<times> pool) option" where
  "id_arena_free_all fuel s =
     Option.bind (chain fuel (\<lambda>h. p_mem s (h + 8)) (p_arena s))
       (\<lambda>hs. map_option (\<lambda>(cs, s'). (hs @ cs, s')) (id_pool_drop fuel (s\<lparr>p_arena := 0\<rparr>)))"

section \<open>Size classes: a class fits its requests and wastes little\<close>


lemma ilog2_bounds: "0 < m \<Longrightarrow> 2 ^ ilog2 m \<le> m \<and> m < 2 ^ Suc (ilog2 m)"
proof (induction m rule: less_induct)
  case (less m)
  show ?case
  proof (cases "m < 2")
    case True
    then show ?thesis using less.prems by (simp add: ilog2.simps [of m])
  next
    case False
    then have "2 ^ ilog2 (m div 2) \<le> m div 2 \<and> m div 2 < 2 ^ Suc (ilog2 (m div 2))"
      by (intro less.IH) auto
    then show ?thesis using False by (simp add: ilog2.simps [of m]) linarith
  qed
qed

text \<open>The large classes: with \<open>e\<close> the leading bit and \<open>q\<close> the three leading bits of \<open>n - 1\<close>.\<close>

lemma large_class:
  assumes "POOL_SMALL < n" "n \<le> POOL_MAX"
  obtains e q where "9 \<le> e" "e \<le> 13" "4 \<le> q" "q \<le> 7"
    "id_pool_class n = 33 + (e - 9) * 4 + (q - 4)"
    "id_pool_class_bytes (id_pool_class n) = (q + 1) * 2 ^ (e - 2)"
    "q * 2 ^ (e - 2) < n" "n \<le> (q + 1) * 2 ^ (e - 2)"
proof -
  define m where "m = n - 1"
  define e where "e = ilog2 m"
  define q where "q = m div 2 ^ (e - 2)"
  have m: "512 \<le> m" "m \<le> 16383" "n = m + 1" using assms by (auto simp: m_def pool_consts)
  have b: "2 ^ e \<le> m" "m < 2 ^ Suc e" using ilog2_bounds [of m] m by (auto simp: e_def)
  have "2 ^ e < (2::nat) ^ 14" using b m by simp
  then have e2: "e \<le> 13" using power_less_imp_less_exp [of "2::nat" e 14] by linarith
  have "(2::nat) ^ 9 < 2 ^ Suc e" using b m by simp
  then have e1: "9 \<le> e" using power_less_imp_less_exp [of "2::nat" 9 "Suc e"] by linarith
  have p: "(2::nat) ^ e = 4 * 2 ^ (e - 2)"
  proof -
    have "e = Suc (Suc (e - 2))" using e1 by simp
    then have "(2::nat) ^ e = 2 ^ Suc (Suc (e - 2))" by simp
    then show ?thesis by simp
  qed
  have q1: "4 \<le> q" using b(1) p by (simp add: q_def less_eq_div_iff_mult_less_eq)
  have "m < 8 * 2 ^ (e - 2)" using b(2) p by simp
  then have q2: "q \<le> 7" using less_mult_imp_div_less [of m 8 "2 ^ (e - 2)"] by (simp add: q_def)
  have qm: "q mod 4 = q - 4" using q1 q2 by (simp add: mod_if)
  have c: "id_pool_class n = 33 + (e - 9) * 4 + (q - 4)"
  proof -
    have "id_pool_class n = 33 + (e - 9) * 4 + q mod 4"
      using assms(1) by (simp add: id_pool_class_def Let_def m_def e_def q_def)
    then show ?thesis by (simp add: qm)
  qed
  have q3: "q - 4 < 4" using q2 by simp
  have j: "((e - 9) * 4 + (q - 4)) div 4 = e - 9" "((e - 9) * 4 + (q - 4)) mod 4 = q - 4"
    using q3 by simp_all
  have "id_pool_class_bytes (id_pool_class n) = 2 ^ e + (q - 4 + 1) * 2 ^ (e - 2)"
    unfolding id_pool_class_bytes_def c using j e1 by (simp add: Let_def add.assoc)
  also have "\<dots> = (q + 1) * 2 ^ (e - 2)"
  proof -
    have "q + 1 = 4 + (q - 4 + 1)" using q1 by simp
    then show ?thesis by (simp only: p add_mult_distrib)
  qed
  finally have cb: "id_pool_class_bytes (id_pool_class n) = (q + 1) * 2 ^ (e - 2)" .
  have lo: "q * 2 ^ (e - 2) \<le> m" by (simp add: q_def)
  have hi: "m < (q + 1) * 2 ^ (e - 2)"
    using dividend_less_div_times [of "2 ^ (e - 2)" m] by (simp add: q_def algebra_simps)
  show thesis using that [of e q] e1 e2 q1 q2 c cb lo hi m by simp
qed

lemma small_class:
  assumes "n \<le> POOL_SMALL"
  shows "id_pool_class n = (if n = 0 then 1 else (n + 15) div 16)"
    "id_pool_class_bytes (id_pool_class n) = 16 * (if n = 0 then 1 else (n + 15) div 16)"
proof -
  show e: "id_pool_class n = (if n = 0 then 1 else (n + 15) div 16)"
    using assms by (simp add: id_pool_class_def)
  have "id_pool_class n \<le> 32" using assms by (auto simp: e POOL_SMALL_def)
  then show "id_pool_class_bytes (id_pool_class n) = 16 * (if n = 0 then 1 else (n + 15) div 16)"
    by (simp add: id_pool_class_bytes_def e)
qed

lemma class_less: "n \<le> POOL_MAX \<Longrightarrow> id_pool_class n < NCLASS"
proof (cases "n \<le> POOL_SMALL")
  case True
  then show ?thesis by (auto simp: small_class pool_consts)
next
  case False
  moreover assume "n \<le> POOL_MAX"
  ultimately obtain e q where "e \<le> 13" "q \<le> 7" "id_pool_class n = 33 + (e - 9) * 4 + (q - 4)"
    using large_class [of n] by (metis not_le)
  then show ?thesis by (simp add: NCLASS_def)
qed

lemma class_fits: "n \<le> POOL_MAX \<Longrightarrow> n \<le> id_pool_class_bytes (id_pool_class n)"
proof (cases "n \<le> POOL_SMALL")
  case True
  then show ?thesis by (simp add: small_class(2)) linarith
next
  case False
  moreover assume "n \<le> POOL_MAX"
  ultimately show ?thesis using large_class [of n] by (metis not_le)
qed

lemma class_bytes_small: "k \<le> 32 \<Longrightarrow> id_pool_class_bytes k = 16 * k"
  by (simp add: id_pool_class_bytes_def)

lemma class_bytes_large:
  assumes "33 \<le> k" "k < NCLASS"
  obtains e r where "9 \<le> e" "e \<le> 13" "r < 4" "k = 33 + (e - 9) * 4 + r"
    "id_pool_class_bytes k = (5 + r) * 2 ^ (e - 2)"
proof -
  define e where "e = 9 + (k - 33) div 4"
  define r where "r = (k - 33) mod 4"
  have e: "9 \<le> e" "e \<le> 13" using assms by (auto simp: e_def NCLASS_def)
  have k: "k = 33 + (e - 9) * 4 + r" using assms by (simp add: e_def r_def)
  have p: "(2::nat) ^ e = 4 * 2 ^ (e - 2)"
  proof -
    have "e = Suc (Suc (e - 2))" using e by simp
    then have "(2::nat) ^ e = 2 ^ Suc (Suc (e - 2))" by simp
    then show ?thesis by simp
  qed
  have "id_pool_class_bytes k = 2 ^ e + (r + 1) * 2 ^ (e - 2)"
    using assms(1) by (simp add: id_pool_class_bytes_def Let_def e_def r_def)
  also have "\<dots> = (5 + r) * 2 ^ (e - 2)" by (simp add: p algebra_simps)
  finally have b: "id_pool_class_bytes k = (5 + r) * 2 ^ (e - 2)" .
  have "r < 4" by (simp add: r_def)
  from that [OF e this k b] show thesis .
qed

lemma class_bytes_bounds:
  assumes "0 < k" "k < NCLASS"
  shows "16 \<le> id_pool_class_bytes k" "id_pool_class_bytes k \<le> 16384"
    "id_pool_class_bytes k mod 16 = 0"
proof -
  have "16 \<le> id_pool_class_bytes k \<and> id_pool_class_bytes k \<le> 16384 \<and> id_pool_class_bytes k mod 16 = 0"
  proof (cases "k \<le> 32")
    case True
    then show ?thesis using assms by (simp add: class_bytes_small)
  next
    case False
    then have "33 \<le> k" by simp
    then obtain e r where *: "9 \<le> e" "e \<le> 13" "r < 4" "id_pool_class_bytes k = (5 + r) * 2 ^ (e - 2)"
      using class_bytes_large [of k] assms(2) by metis
    have "e - 2 = 4 + (e - 6)" using *(1) by simp
    then have "(2::nat) ^ (e - 2) = 2 ^ 4 * 2 ^ (e - 6)" by (simp only: power_add)
    then have b: "id_pool_class_bytes k = 16 * ((5 + r) * 2 ^ (e - 6))" by (simp add: *(4))
    have "(2::nat) ^ (e - 6) \<le> 2 ^ 7" using *(2) by (intro power_increasing) auto
    then have "(5 + r) * 2 ^ (e - 6) \<le> 8 * 2 ^ 7" using *(3) by (intro mult_le_mono) auto
    then show ?thesis by (simp add: b)
  qed
  then show "16 \<le> id_pool_class_bytes k" "id_pool_class_bytes k \<le> 16384"
    "id_pool_class_bytes k mod 16 = 0" by auto
qed

lemma class_pos: "n \<le> POOL_MAX \<Longrightarrow> 0 < id_pool_class n"
proof (cases "n \<le> POOL_SMALL")
  case True
  then show ?thesis by (auto simp: small_class)
next
  case False
  moreover assume "n \<le> POOL_MAX"
  ultimately show ?thesis using large_class [of n] by (metis not_le add_gr_0 zero_less_numeral)
qed

lemma class_waste_small:
  "n \<le> POOL_SMALL \<Longrightarrow> 0 < n \<Longrightarrow> id_pool_class_bytes (id_pool_class n) < n + 16"
  by (simp add: small_class(2))

lemma class_waste_large:
  assumes "POOL_SMALL < n" "n \<le> POOL_MAX"
  shows "4 * id_pool_class_bytes (id_pool_class n) < 5 * n"
proof -
  obtain e q where *: "4 \<le> q" "id_pool_class_bytes (id_pool_class n) = (q + 1) * 2 ^ (e - 2)"
    "q * 2 ^ (e - 2) < n"
    using large_class [OF assms] by metis
  have "4 * 2 ^ (e - 2) \<le> q * 2 ^ (e - 2)" using *(1) by (intro mult_le_mono1)
  moreover have "(q + 1) * 2 ^ (e - 2) = q * 2 ^ (e - 2) + 2 ^ (e - 2)" by simp
  ultimately show ?thesis using *(2,3) by linarith
qed

lemma class_of_bytes:
  assumes "0 < k" "k < NCLASS"
  shows "id_pool_class (id_pool_class_bytes k) = k"
proof (cases "k \<le> 32")
  case True
  then show ?thesis using assms by (simp add: class_bytes_small id_pool_class_def POOL_SMALL_def)
next
  case False
  then have "33 \<le> k" by simp
  then obtain e r where *: "9 \<le> e" "e \<le> 13" "r < 4" "k = 33 + (e - 9) * 4 + r"
    "id_pool_class_bytes k = (5 + r) * 2 ^ (e - 2)"
    using class_bytes_large [of k] assms(2) by metis
  define n where "n = id_pool_class_bytes k"
  have x: "(128::nat) \<le> 2 ^ (e - 2)"
    using power_increasing [of 7 "e - 2" "2::nat"] * by simp
  have "n \<ge> 5 * 128" unfolding n_def *(5) using x by (intro mult_le_mono) auto
  then have n: "POOL_SMALL < n" "n \<le> POOL_MAX"
    using class_bytes_bounds [OF assms] by (auto simp: n_def pool_consts)
  obtain e' q where c: "9 \<le> e'" "e' \<le> 13" "4 \<le> q" "q \<le> 7"
    "id_pool_class n = 33 + (e' - 9) * 4 + (q - 4)"
    "q * 2 ^ (e' - 2) < n" "n \<le> (q + 1) * 2 ^ (e' - 2)"
    using large_class [OF n] by metis
  have nn: "n = (5 + r) * 2 ^ (e - 2)" by (simp add: n_def *(5))
  have "e' = e"
  proof (rule ccontr)
    assume "e' \<noteq> e"
    then consider "e' < e" | "e < e'" by linarith
    then show False
    proof cases
      case 1
      then have "2 * (2::nat) ^ (e' - 2) \<le> 2 ^ (e - 2)"
        using power_increasing [of "Suc (e' - 2)" "e - 2" "2::nat"] c(1) by simp
      moreover have "(q + 1) * 2 ^ (e' - 2) \<le> 8 * 2 ^ (e' - 2)" using c(4) by (intro mult_le_mono1) auto
      moreover have "5 * 2 ^ (e - 2) \<le> n" unfolding nn by (intro mult_le_mono1) auto
      moreover have "(0::nat) < 2 ^ (e - 2)" by simp
      ultimately show False using c(7) by linarith
    next
      case 2
      then have "2 * (2::nat) ^ (e - 2) \<le> 2 ^ (e' - 2)"
        using power_increasing [of "Suc (e - 2)" "e' - 2" "2::nat"] *(1) by simp
      moreover have "4 * 2 ^ (e' - 2) \<le> q * 2 ^ (e' - 2)" using c(3) by (intro mult_le_mono1) auto
      moreover have "n \<le> 8 * 2 ^ (e - 2)" unfolding nn using *(3) by (intro mult_le_mono1) auto
      ultimately show False using c(6) by linarith
    qed
  qed
  moreover have "q = 4 + r"
  proof -
    have "q < 5 + r" using c(6) nn \<open>e' = e\<close> by simp
    moreover have "5 + r \<le> q + 1"
      using c(7) unfolding nn \<open>e' = e\<close> by (rule mult_right_le_imp_le) simp
    ultimately show ?thesis by linarith
  qed
  ultimately show ?thesis using c(5) *(4) by (simp add: n_def)
qed

lemma bytes_step: "k < 52 \<Longrightarrow> id_pool_class_bytes k < id_pool_class_bytes (Suc k)"
proof (cases "k < 32")
  case True
  then show ?thesis by (simp add: class_bytes_small)
next
  case False
  assume "k < 52"
  then have "k \<in> {32, 33, 34, 35, 36, 37, 38, 39, 40, 41, 42,
      43, 44, 45, 46, 47, 48, 49, 50, 51}"
    using False by (simp only: insert_iff empty_iff) presburger
  then show ?thesis
    by (simp only: insert_iff empty_iff, elim disjE)
      (simp_all add: id_pool_class_bytes_def Let_def)
qed

lemma bytes_mono: "j < k \<Longrightarrow> k < NCLASS \<Longrightarrow> id_pool_class_bytes j < id_pool_class_bytes k"
proof (induction k)
  case (Suc k)
  then show ?case using bytes_step [of k] by (cases "j = k") (auto simp: NCLASS_def)
qed simp

lemma class_tight:
  assumes "1 < id_pool_class n" "n \<le> POOL_MAX"
  shows "id_pool_class_bytes (id_pool_class n - 1) < n"
proof (cases "n \<le> POOL_SMALL")
  case True
  then have k: "id_pool_class n = (n + 15) div 16" "n \<noteq> 0" using assms(1) by (auto simp: small_class split: if_splits)
  moreover have "(n + 15) div 16 \<le> 32" using True by (simp add: POOL_SMALL_def)
  ultimately show ?thesis using assms(1) by (simp add: class_bytes_small)
next
  case False
  then obtain e q where *: "9 \<le> e" "e \<le> 13" "4 \<le> q" "q \<le> 7" "id_pool_class n = 33 + (e - 9) * 4 + (q - 4)"
    "q * 2 ^ (e - 2) < n"
    using large_class [of n] assms(2) by (metis not_le)
  have e: "e = 9 \<or> e = 10 \<or> e = 11 \<or> e = 12 \<or> e = 13" using * by auto
  have q: "q = 4 \<or> q = 5 \<or> q = 6 \<or> q = 7" using * by auto
  have "id_pool_class_bytes (id_pool_class n - 1) = q * 2 ^ (e - 2)"
    using e q unfolding *(5) by (elim disjE) (simp_all add: id_pool_class_bytes_def Let_def)
  then show ?thesis using *(6) by simp
qed

theorem id_pool_class_best_fit:
  assumes "n \<le> POOL_MAX"
  shows "0 < id_pool_class n \<and> id_pool_class n < NCLASS
    \<and> n \<le> id_pool_class_bytes (id_pool_class n)
    \<and> (\<forall>j < NCLASS. n \<le> id_pool_class_bytes j \<longrightarrow> id_pool_class n \<le> max 1 j)
    \<and> (0 < n \<longrightarrow> id_pool_class_bytes (id_pool_class n) < max (n + 16) (n + n div 4 + 1))"
proof -
  let ?k = "id_pool_class n"
  have k: "0 < ?k" "?k < NCLASS" "n \<le> id_pool_class_bytes ?k"
    using class_pos class_less class_fits assms by auto
  have "?k \<le> max 1 j" if "j < NCLASS" "n \<le> id_pool_class_bytes j" for j
  proof (rule ccontr)
    assume "\<not> ?k \<le> max 1 j"
    then have "1 < ?k" "j \<le> ?k - 1" by auto
    moreover have "id_pool_class_bytes j \<le> id_pool_class_bytes (?k - 1)"
      by (cases "j = ?k - 1") (use calculation(2) k(2) in \<open>auto intro!: less_imp_le bytes_mono\<close>)
    ultimately show False using class_tight [OF _ assms] that(2) by fastforce
  qed
  moreover have "0 < n \<Longrightarrow> id_pool_class_bytes ?k < max (n + 16) (n + n div 4 + 1)"
    using class_waste_small [of n] class_waste_large [of n] assms by (cases "n \<le> POOL_SMALL") auto
  ultimately show ?thesis using k by blast
qed

theorem id_pool_class_best_fit_witness:
  "id_pool_class 600 < NCLASS \<and> 600 \<le> id_pool_class_bytes (id_pool_class 600)"
  using id_pool_class_best_fit [of 600] by (simp add: POOL_MAX_def)
end
