(* ===== verification/Growable.thy ===== *)
theory Growable
  imports Prelude
begin

text \<open>
  The contract the runtime's two growable buffers share (the list of eight-byte cells and
  the buffer of bytes): what push, get, set and pop promise about the sequence of cells a
  buffer holds. The interface is a locale; a client's reasoning about a whole sequence of
  operations is done once here, against plain HOL lists.

  The allocator a buffer grows into is an environment: what the pool answers to a request
  for \<open>n\<close> bytes, and to one that extends a block of \<open>old\<close> bytes to \<open>n\<close>, is an argument, as
  is what a fresh block holds before it is written.
\<close>

record 'c mem_env =
  e_get :: "nat \<Rightarrow> unit res"
  e_realloc :: "nat \<Rightarrow> nat \<Rightarrow> unit res"
  e_junk :: "nat \<Rightarrow> 'c"

definition roomy :: "'c mem_env \<Rightarrow> bool" where
  "roomy e \<longleftrightarrow> (\<forall>n. e_get e n = Inr ()) \<and> (\<forall>m n. e_realloc e m n = Inr ())"

text \<open>A block that some allocation handed out, as its size; freeing names the size again.\<close>

datatype blk = Header nat | Cells nat

datatype 'a gop = Push 'a | Set int 'a | Pop

text \<open>One operation, and a sequence of them, on a buffer given by its three mutators.\<close>

fun do_op :: "('s \<Rightarrow> 'a \<Rightarrow> 's res) \<Rightarrow> ('s \<Rightarrow> int \<Rightarrow> 'a \<Rightarrow> 's res) \<Rightarrow> ('s \<Rightarrow> ('a \<times> 's) res)
    \<Rightarrow> 'a gop \<Rightarrow> 's \<Rightarrow> ('a list \<times> 's) res" where
  "do_op pu se po (Push v) s = andThen (pu s v) (\<lambda>s. Inr ([], s))"
| "do_op pu se po (Set i v) s = andThen (se s i v) (\<lambda>s. Inr ([], s))"
| "do_op pu se po Pop s = andThen (po s) (\<lambda>(v, s). Inr ([v], s))"

fun do_ops :: "('s \<Rightarrow> 'a \<Rightarrow> 's res) \<Rightarrow> ('s \<Rightarrow> int \<Rightarrow> 'a \<Rightarrow> 's res) \<Rightarrow> ('s \<Rightarrow> ('a \<times> 's) res)
    \<Rightarrow> 'a gop list \<Rightarrow> 's \<Rightarrow> ('a list \<times> 's) res" where
  "do_ops pu se po [] s = Inr ([], s)"
| "do_ops pu se po (x # xs) s =
     andThen (do_op pu se po x s)
       (\<lambda>(out, s). andThen (do_ops pu se po xs s) (\<lambda>(out', s). Inr (out @ out', s)))"

text \<open>The same sequence on a HOL list: the specification. None is an out-of-range access.\<close>

fun spec_op :: "'a gop \<Rightarrow> 'a list \<Rightarrow> ('a list \<times> 'a list) option" where
  "spec_op (Push v) xs = Some ([], xs @ [v])"
| "spec_op (Set i v) xs = (if 0 \<le> i \<and> i < int (length xs) then Some ([], xs[nat i := v]) else None)"
| "spec_op Pop xs = (if xs = [] then None else Some ([last xs], butlast xs))"

fun spec_ops :: "'a gop list \<Rightarrow> 'a list \<Rightarrow> ('a list \<times> 'a list) option" where
  "spec_ops [] xs = Some ([], xs)"
| "spec_ops (p # ps) xs =
     (case spec_op p xs of None \<Rightarrow> None
      | Some (out, ys) \<Rightarrow> map_option (\<lambda>(out', zs). (out @ out', zs)) (spec_ops ps ys))"

text \<open>
  The contract. \<open>inv\<close> is well-formed and mutable, \<open>abs\<close> the cells held; \<open>fits n\<close> says that
  a buffer may hold \<open>n\<close> cells (the capacity is an \<open>int\<close>) and that memory is there for them.
\<close>

locale growable =
  fixes inv :: "'s \<Rightarrow> bool"
    and abs :: "'s \<Rightarrow> 'a list"
    and fits :: "nat \<Rightarrow> bool"
    and push :: "'s \<Rightarrow> 'a \<Rightarrow> 's res"
    and get :: "'s \<Rightarrow> int \<Rightarrow> 'a res"
    and set_at :: "'s \<Rightarrow> int \<Rightarrow> 'a \<Rightarrow> 's res"
    and pop :: "'s \<Rightarrow> ('a \<times> 's) res"
  assumes push_keeps: "inv s \<Longrightarrow> push s v = Inr s' \<Longrightarrow> inv s' \<and> abs s' = abs s @ [v]"
    and push_total: "inv s \<Longrightarrow> fits (Suc (length (abs s))) \<Longrightarrow> \<exists>s'. push s v = Inr s'"
    and get_is: "inv s \<Longrightarrow> get s i =
      (if 0 \<le> i \<and> i < int (length (abs s)) then Inr (abs s ! nat i)
       else Inl (Trap_index i (int (length (abs s)))))"
    and set_out: "inv s \<Longrightarrow> \<not> (0 \<le> i \<and> i < int (length (abs s))) \<Longrightarrow>
      set_at s i v = Inl (Trap_index i (int (length (abs s))))"
    and set_in: "inv s \<Longrightarrow> 0 \<le> i \<Longrightarrow> i < int (length (abs s)) \<Longrightarrow>
      \<exists>s'. set_at s i v = Inr s' \<and> inv s' \<and> abs s' = (abs s)[nat i := v]"
    and pop_empty: "inv s \<Longrightarrow> abs s = [] \<Longrightarrow> \<exists>e. pop s = Inl e"
    and pop_last: "inv s \<Longrightarrow> abs s \<noteq> [] \<Longrightarrow>
      \<exists>s'. pop s = Inr (last (abs s), s') \<and> inv s' \<and> abs s' = butlast (abs s)"
begin

lemma op_refines:
  "inv s \<Longrightarrow> do_op push set_at pop p s = Inr (out, s') \<Longrightarrow>
     inv s' \<and> spec_op p (abs s) = Some (out, abs s')"
proof (cases p)
  case (Push v)
  then show "inv s \<Longrightarrow> do_op push set_at pop p s = Inr (out, s') \<Longrightarrow> ?thesis"
    using push_keeps by (auto simp: res_simps)
next
  case (Set i v)
  assume a: "inv s" "do_op push set_at pop p s = Inr (out, s')"
  show ?thesis
  proof (cases "0 \<le> i \<and> i < int (length (abs s))")
    case True
    then show ?thesis using Set a set_in [of s i v] by (auto simp: res_simps)
  next
    case False
    then show ?thesis using Set a set_out [of s i v] by auto
  qed
next
  case Pop
  assume a: "inv s" "do_op push set_at pop p s = Inr (out, s')"
  show ?thesis
  proof (cases "abs s = []")
    case True
    then show ?thesis using Pop a pop_empty [of s] by auto
  next
    case False
    then show ?thesis using Pop a pop_last [of s] by auto
  qed
qed

text \<open>Every sequence that runs to its end did what the same sequence does on a list.\<close>

lemma ops_refine:
  "inv s \<Longrightarrow> do_ops push set_at pop ps s = Inr (out, s') \<Longrightarrow>
     inv s' \<and> spec_ops ps (abs s) = Some (out, abs s')"
proof (induction ps arbitrary: s out)
  case Nil
  then show ?case by simp
next
  case (Cons p ps)
  from Cons.prems(2) obtain o1 s1 o2 where
    1: "do_op push set_at pop p s = Inr (o1, s1)" and
    2: "do_ops push set_at pop ps s1 = Inr (o2, s')" and 3: "out = o1 @ o2"
    by (auto simp: res_simps)
  from op_refines [OF Cons.prems(1) 1] have 4: "inv s1" "spec_op p (abs s) = Some (o1, abs s1)"
    by auto
  from Cons.IH [OF 4(1) 2] 4(2) 3 show ?case by simp
qed

lemma get_of_push:
  assumes "inv s" "push s v = Inr s'"
  shows "get s' (int (length (abs s))) = Inr v"
  using push_keeps [OF assms] by (simp add: get_is nth_append)

lemma pop_of_push:
  assumes "inv s" "push s v = Inr s'"
  shows "\<exists>s''. pop s' = Inr (v, s'') \<and> inv s'' \<and> abs s'' = abs s"
  using push_keeps [OF assms] pop_last [of s'] by auto

text \<open>Within the bounds a sequence the specification accepts does run to its end.\<close>

lemma op_runs:
  assumes "inv s" "spec_op p (abs s) = Some (out, ys)" "fits (length ys)"
  shows "\<exists>s'. do_op push set_at pop p s = Inr (out, s') \<and> inv s' \<and> abs s' = ys"
proof (cases p)
  case (Push v)
  then have y: "ys = abs s @ [v]" "out = []" using assms by auto
  then obtain s' where s: "push s v = Inr s'" using push_total [of s v] assms by auto
  with push_keeps [OF assms(1) s] y Push show ?thesis by simp
next
  case (Set i v)
  then show ?thesis using assms set_in [of s i v] by (auto split: if_splits)
next
  case Pop
  then show ?thesis using assms pop_last [of s] by (auto split: if_splits)
qed

lemma ops_run:
  assumes "inv s" "spec_ops ps (abs s) = Some (out, ys)"
    and "\<And>n. n \<le> length (abs s) + length ps \<Longrightarrow> fits n"
  shows "\<exists>s'. do_ops push set_at pop ps s = Inr (out, s') \<and> inv s' \<and> abs s' = ys"
  using assms
proof (induction ps arbitrary: s out)
  case Nil
  then show ?case by simp
next
  case (Cons p ps)
  from Cons.prems(2) obtain o1 zs o2 where
    1: "spec_op p (abs s) = Some (o1, zs)" and 2: "spec_ops ps zs = Some (o2, ys)" "out = o1 @ o2"
    by (auto split: option.splits)
  have l: "length zs \<le> Suc (length (abs s))" using 1 by (cases p) (auto split: if_splits)
  obtain s1 where s1: "do_op push set_at pop p s = Inr (o1, s1)" "inv s1" "abs s1 = zs"
    using op_runs [OF Cons.prems(1) 1] Cons.prems(3) [of "length zs"] l by auto
  have "\<exists>s'. do_ops push set_at pop ps s1 = Inr (o2, s') \<and> inv s' \<and> abs s' = ys"
    using Cons.IH [of s1 o2] s1 2 Cons.prems(3) l by simp
  with s1 2 show ?case by auto
qed

end

end
