(* ===== verification/StrCore.thy ===== *)
theory StrCore
  imports Arith Growable
begin

text \<open>
  How the runtime makes a string. A string is a block: its byte count, its bytes, a NUL.
  A string is modelled as its bytes, a list of characters; the count is the list's length
  and the block's size \<open>n + 8 + 1\<close> is what an allocation checks and asks for.
\<close>

definition id_slen :: "string \<Rightarrow> nat" where
  "id_slen s = length s"

definition id_str_new :: "'c mem_env \<Rightarrow> nat \<Rightarrow> unit res" where
  "id_str_new e n =
     andThen (id_add_check n 8 ''string'') (\<lambda>h.
     andThen (id_add_check h 1 ''string'') (\<lambda>b. e_get e b))"

definition id_str_from :: "'c mem_env \<Rightarrow> string \<Rightarrow> string res" where
  "id_str_from e p = andThen (id_str_new e (length p)) (\<lambda>_. Inr p)"

text \<open>\<open>strlen\<close> stops at the first NUL.\<close>

definition c_text :: "string \<Rightarrow> string" where
  "c_text p = takeWhile (\<lambda>c. c \<noteq> CHR 0x00) p"

definition id_str_of_cstr :: "'c mem_env \<Rightarrow> string \<Rightarrow> string res" where
  "id_str_of_cstr e p = id_str_from e (c_text p)"

definition id_str_dup :: "'c mem_env \<Rightarrow> string \<Rightarrow> string res" where
  "id_str_dup e s = id_str_from e (take (id_slen s) s)"

text \<open>A block a string may have: NUL-free and shorter than the address space.\<close>

definition str_ok :: "string \<Rightarrow> bool" where
  "str_ok s \<longleftrightarrow> CHR 0x00 \<notin> set s \<and> int (length s) \<le> INT_MAX"

lemma id_str_new_total: "roomy e \<Longrightarrow> n + 9 \<le> SIZE_MAX \<Longrightarrow> id_str_new e n = Inr ()"
  by (auto simp: id_str_new_def id_add_check_def roomy_def)

lemma id_str_from_total: "roomy e \<Longrightarrow> length p + 9 \<le> SIZE_MAX \<Longrightarrow> id_str_from e p = Inr p"
  by (simp add: id_str_from_def id_str_new_total)

lemma id_str_from_result: "id_str_from e p = Inr r \<Longrightarrow> r = p"
  by (auto simp: id_str_from_def res_simps)

lemma c_text_id: "CHR 0x00 \<notin> set s \<Longrightarrow> c_text s = s"
  by (simp add: c_text_def takeWhile_eq_all_conv) metis

end
