(* ===== verification/IdBytes.thy ===== *)
theory IdBytes
  imports Arith Growable StrCore
begin

text \<open>
  The growable buffer of bytes. Like the list, a header block with the first bytes inline;
  when the buffer outgrows them the bytes move to a block of their own and the first eight
  inline bytes hold the header block's capacity, which is why a capacity is never below 8.
  Values cross the interface as \<open>long long\<close> and are checked to be in 0..255.
\<close>

record idbytes =
  b_len :: int
  b_cap :: int
  b_inl :: "w8 list"
  b_out :: "w8 list option"

type_synonym benv = "w8 mem_env"

definition id_bytes_bytes :: "nat \<Rightarrow> nat" where
  "id_bytes_bytes n = 16 + n"

definition b_data :: "idbytes \<Rightarrow> w8 list" where
  "b_data B = (case b_out B of None \<Rightarrow> b_inl B | Some d \<Rightarrow> d)"

definition put_bytes :: "w8 list \<Rightarrow> idbytes \<Rightarrow> idbytes" where
  "put_bytes d B = (case b_out B of None \<Rightarrow> B\<lparr>b_inl := d\<rparr> | Some _ \<Rightarrow> B\<lparr>b_out := Some d\<rparr>)"

text \<open>\<open>memcpy\<close> of \<open>src\<close> to offset \<open>i\<close> of \<open>d\<close>.\<close>

definition blit :: "nat \<Rightarrow> 'a list \<Rightarrow> 'a list \<Rightarrow> 'a list" where
  "blit i src d = take i d @ src @ drop (i + length src) d"

section \<open>Making and releasing\<close>

definition id_bytes_make :: "benv \<Rightarrow> int \<Rightarrow> int \<Rightarrow> idbytes res" where
  "id_bytes_make e len cap =
     andThen (e_get e (id_bytes_bytes (nat cap)))
       (\<lambda>_. Inr \<lparr>b_len = wrap32 len, b_cap = wrap32 cap,
                 b_inl = map (e_junk e) [0..<nat cap], b_out = None\<rparr>)"

definition id_bytes_new :: "benv \<Rightarrow> int \<Rightarrow> idbytes res" where
  "id_bytes_new e n =
     (if n < 0 \<or> n > INT_MAX then Inl (Trap_msg ''bytes_new: length out of range'')
      else andThen (id_bytes_make e n (if n < 8 then 8 else n))
             (\<lambda>B. Inr (put_bytes (blit 0 (replicate (nat n) 0) (b_data B)) B)))"

definition id_bytes_free :: "bool \<Rightarrow> idbytes option \<Rightarrow> (idbytes option \<times> blk list) res" where
  "id_bytes_free guard Bo =
     (case Bo of None \<Rightarrow> Inr (None, [])
      | Some B \<Rightarrow>
          if guard then
            if b_cap B = INT_MIN then Inl Trap_freed_list
            else
              let c = (if b_cap B < 0 then - b_cap B else b_cap B);
                  B1 = put_bytes (blit 0 (replicate (nat c) 0xDD) (b_data B)) B
              in Inr (Some (B1\<lparr>b_len := - 1, b_cap := INT_MIN\<rparr>), [])
          else
            let c = nat (if b_cap B < 0 then - b_cap B else b_cap B)
            in case b_out B of
                 None \<Rightarrow> Inr (None, [Header (id_bytes_bytes c)])
               | Some _ \<Rightarrow>
                   let ic = le_value (take 8 (b_inl B))
                   in Inr (None, [Cells c, Header (id_bytes_bytes ic)]))"

definition id_bytes_mut_check :: "idbytes \<Rightarrow> unit res" where
  "id_bytes_mut_check B =
     (if b_cap B < 0 then
        if b_cap B = INT_MIN then Inl Trap_freed_list
        else Inl (Trap_msg ''cannot mutate a constant bytes'')
      else Inr ())"

definition id_bytes_oob :: "idbytes \<Rightarrow> int \<Rightarrow> trap" where
  "id_bytes_oob B i = (if b_cap B = INT_MIN then Trap_freed_list else Trap_index i (b_len B))"

definition id_byte_fit :: "int \<Rightarrow> w8 res" where
  "id_byte_fit v = (if v < 0 \<or> v > 255 then Inl (Trap_byte_range v) else Inr (word_of_int v))"

section \<open>Access and growth\<close>

definition with_bytes :: "idbytes option \<Rightarrow> (idbytes \<Rightarrow> 'b res) \<Rightarrow> 'b res" where
  "with_bytes Bo f = (case Bo of None \<Rightarrow> Inl Trap_null_read | Some B \<Rightarrow> f B)"

definition id_bytes_len_raw :: "idbytes option \<Rightarrow> int" where
  "id_bytes_len_raw Bo = (case Bo of None \<Rightarrow> - 1 | Some B \<Rightarrow> b_len B)"

definition id_bytes_cap_raw :: "idbytes option \<Rightarrow> int" where
  "id_bytes_cap_raw Bo = (case Bo of None \<Rightarrow> - 1 | Some B \<Rightarrow> b_cap B)"

definition id_bytes_len :: "idbytes option \<Rightarrow> int res" where
  "id_bytes_len Bo =
     with_bytes Bo (\<lambda>B. if b_len B < 0 then Inl Trap_freed_list else Inr (b_len B))"

definition id_bytes_get :: "idbytes option \<Rightarrow> int \<Rightarrow> int res" where
  "id_bytes_get Bo i =
     with_bytes Bo (\<lambda>B.
       if i < 0 \<or> i \<ge> b_len B then Inl (id_bytes_oob B i) else Inr (uint (b_data B ! nat i)))"

definition id_bytes_set :: "idbytes option \<Rightarrow> int \<Rightarrow> int \<Rightarrow> idbytes res" where
  "id_bytes_set Bo i v =
     with_bytes Bo (\<lambda>B.
       andThen (id_bytes_mut_check B) (\<lambda>_.
         if i < 0 \<or> i \<ge> b_len B then Inl (id_bytes_oob B i)
         else andThen (id_byte_fit v) (\<lambda>b. Inr (put_bytes ((b_data B)[nat i := b]) B))))"

definition id_bytes_store :: "idbytes option \<Rightarrow> int \<Rightarrow> int \<Rightarrow> idbytes res" where
  "id_bytes_store Bo i v =
     with_bytes Bo (\<lambda>B.
       andThen (id_bytes_mut_check B) (\<lambda>_.
         if i < 0 \<or> i \<ge> b_len B then Inl (id_bytes_oob B i)
         else Inr (put_bytes ((b_data B)[nat i := word_of_int v]) B)))"

definition id_bytes_cell :: "idbytes \<Rightarrow> int \<Rightarrow> int" where
  "id_bytes_cell B i = uint (b_data B ! nat i)"

definition id_bytes_cell_set :: "idbytes \<Rightarrow> int \<Rightarrow> int \<Rightarrow> idbytes res" where
  "id_bytes_cell_set B i v =
     andThen (id_byte_fit v) (\<lambda>b. Inr (put_bytes ((b_data B)[nat i := b]) B))"

fun fit_all :: "nat \<Rightarrow> int list \<Rightarrow> w8 list \<Rightarrow> w8 list res" where
  "fit_all k [] d = Inr d"
| "fit_all k (v # vs) d = andThen (id_byte_fit v) (\<lambda>b. fit_all (Suc k) vs (d[k := b]))"

definition id_bytes_lit :: "benv \<Rightarrow> int list \<Rightarrow> idbytes res" where
  "id_bytes_lit e args =
     (let n = int (length args)
      in andThen (id_bytes_make e n (if n < 8 then 8 else n)) (\<lambda>B.
           andThen (fit_all 0 args (b_data B)) (\<lambda>d. Inr (put_bytes d B))))"

text \<open>The debug text of a buffer, as written to stderr.\<close>

definition hex_digit_upper :: "nat \<Rightarrow> char" where
  "hex_digit_upper d = (if d < 10 then char_of (48 + d) else char_of (55 + d))"

definition hex2 :: "w8 \<Rightarrow> string" where
  "hex2 b = [hex_digit_upper (unat b div 16), hex_digit_upper (unat b mod 16)]"

definition id_bytes_show :: "idbytes \<Rightarrow> string" where
  "id_bytes_show B =
     ''['' @ concat (map (\<lambda>i. (if i \<noteq> 0 then '', '' else '''') @ ''0x'' @ hex2 (b_data B ! i))
                    [0..<nat (b_len B)]) @ '']''"

definition id_bytes_reserve :: "benv \<Rightarrow> idbytes \<Rightarrow> nat \<Rightarrow> idbytes res" where
  "id_bytes_reserve e B need =
     (if nat (b_cap B) \<ge> need then Inr B
      else if int need > INT_MAX then Inl (Trap_msg ''bytes capacity overflow'')
      else
        let n1 = nat (b_cap B) * 2;
            n2 = (if n1 < need then need else n1);
            ncap = (if int n2 > INT_MAX then nat INT_MAX else n2)
        in case b_out B of
             None \<Rightarrow>
               andThen (e_get e ncap)
                 (\<lambda>_. Inr (B\<lparr>b_out := Some (take (nat (b_len B)) (b_inl B)
                                        @ map (e_junk e) [nat (b_len B)..<ncap]),
                            b_inl := blit 0 (le_bytes 8 (nat (b_cap B))) (b_inl B),
                            b_cap := int ncap\<rparr>))
           | Some d \<Rightarrow>
               andThen (e_realloc e (nat (b_cap B)) ncap)
                 (\<lambda>_. Inr (B\<lparr>b_out := Some (take (nat (b_cap B)) d
                                        @ map (e_junk e) [nat (b_cap B)..<ncap]),
                            b_cap := int ncap\<rparr>)))"

definition id_bytes_push :: "benv \<Rightarrow> idbytes option \<Rightarrow> int \<Rightarrow> idbytes res" where
  "id_bytes_push e Bo v =
     with_bytes Bo (\<lambda>B.
       andThen (id_bytes_mut_check B) (\<lambda>_.
       andThen (id_byte_fit v) (\<lambda>b.
       andThen (if b_len B \<ge> b_cap B then id_bytes_reserve e B (nat (b_len B) + 1) else Inr B) (\<lambda>B.
         Inr ((put_bytes ((b_data B)[nat (b_len B) := b]) B)\<lparr>b_len := b_len B + 1\<rparr>)))))"

definition id_bytes_pop :: "idbytes option \<Rightarrow> (int \<times> idbytes) res" where
  "id_bytes_pop Bo =
     with_bytes Bo (\<lambda>B.
       andThen (id_bytes_mut_check B) (\<lambda>_.
         if b_len B \<le> 0 then Inl (Trap_msg ''pop from empty bytes'')
         else let n = b_len B - 1 in Inr (uint (b_data B ! nat n), B\<lparr>b_len := n\<rparr>)))"

text \<open>
  \<open>id_bytes_append\<close>: \<open>S = None\<close> in the second position is NULL; \<open>alias\<close> says both pointers
  are the same buffer, whose data is then read after the reservation moved it.
\<close>

definition id_bytes_append :: "benv \<Rightarrow> bool \<Rightarrow> idbytes option \<Rightarrow> idbytes option \<Rightarrow> idbytes res" where
  "id_bytes_append e alias Do So =
     with_bytes Do (\<lambda>D. with_bytes So (\<lambda>S.
       andThen (id_bytes_mut_check D) (\<lambda>_.
         if b_len S < 0 then Inl Trap_freed_list
         else
           let n = nat (b_len S)
           in if n = 0 then Inr D
              else
                andThen (id_add_check (nat (b_len D)) n ''bytes_append'') (\<lambda>need.
                andThen (id_bytes_reserve e D need) (\<lambda>D'.
                  let src = take n (b_data (if alias then D' else S))
                  in Inr ((put_bytes (blit (nat (b_len D')) src (b_data D')) D')
                           \<lparr>b_len := b_len D' + int n\<rparr>))))))"

definition id_bytes_sub :: "benv \<Rightarrow> idbytes option \<Rightarrow> int \<Rightarrow> int \<Rightarrow> idbytes res" where
  "id_bytes_sub e Bo i n =
     with_bytes Bo (\<lambda>B.
       if b_len B < 0 then Inl Trap_freed_list
       else if i < 0 \<or> n < 0 \<or> (n > 0 \<and> i + n > b_len B) then Inl (Trap_bytes_span i n (b_len B))
       else
         andThen (id_bytes_make e n (if n < 8 then 8 else n)) (\<lambda>R.
           Inr (if n \<noteq> 0 then put_bytes (blit 0 (take (nat n) (drop (nat i) (b_data B))) (b_data R)) R
                else R)))"

text \<open>\<open>memcmp\<close>: C fixes only the sign of its answer, taken here as -1, 0 or 1.\<close>

fun mem_cmp :: "w8 list \<Rightarrow> w8 list \<Rightarrow> int" where
  "mem_cmp (a # as) (b # bs) = (if a = b then mem_cmp as bs else if a < b then - 1 else 1)"
| "mem_cmp _ _ = 0"

definition id_bytes_cmp :: "idbytes option \<Rightarrow> idbytes option \<Rightarrow> int res" where
  "id_bytes_cmp Ao Bo =
     with_bytes Ao (\<lambda>A. with_bytes Bo (\<lambda>B.
       if b_len A < 0 \<or> b_len B < 0 then Inl Trap_freed_list
       else if b_len A \<noteq> b_len B then Inr 1
       else if b_len A \<noteq> 0
         then Inr (mem_cmp (take (nat (b_len A)) (b_data A)) (take (nat (b_len A)) (b_data B)))
       else Inr 0))"

definition id_bytes_of_string :: "benv \<Rightarrow> string \<Rightarrow> idbytes res" where
  "id_bytes_of_string e s =
     (let n = int (length s)
      in if n > INT_MAX then Inl (Trap_msg ''bytes_of_string: string too long'')
         else andThen (id_bytes_make e n (if n < 8 then 8 else n)) (\<lambda>R.
                Inr (put_bytes (blit 0 (map byte_of_char s) (b_data R)) R)))"

definition id_string_of_bytes :: "benv \<Rightarrow> idbytes option \<Rightarrow> string res" where
  "id_string_of_bytes e Bo =
     with_bytes Bo (\<lambda>B.
       if b_len B < 0 then Inl Trap_freed_list
       else if b_len B > 0 \<and> 0 \<in> set (take (nat (b_len B)) (b_data B))
         then Inl (Trap_msg ''a NUL byte reached a string (string_of_bytes): look for it first with idstd bytes_find(b, 0), or keep the data in bytes'')
       else id_str_from e (map char_of_byte (take (nat (b_len B)) (b_data B))))"

section \<open>Well-formed buffers\<close>

definition bytes_inv :: "idbytes \<Rightarrow> bool" where
  "bytes_inv B \<longleftrightarrow> 0 \<le> b_len B \<and> b_len B \<le> b_cap B \<and> 8 \<le> b_cap B \<and> b_cap B \<le> INT_MAX
     \<and> length (b_data B) = nat (b_cap B)
     \<and> (b_out B \<noteq> None \<longrightarrow> 8 \<le> length (b_inl B) \<and> le_value (take 8 (b_inl B)) = length (b_inl B))"

definition bytes_abs :: "idbytes \<Rightarrow> w8 list" where
  "bytes_abs B = take (nat (b_len B)) (b_data B)"

definition bytes_blocks :: "idbytes \<Rightarrow> blk list" where
  "bytes_blocks B =
     (case b_out B of None \<Rightarrow> [Header (id_bytes_bytes (length (b_inl B)))]
      | Some d \<Rightarrow> [Cells (length d), Header (id_bytes_bytes (length (b_inl B)))])"

definition bytes_fits :: "benv \<Rightarrow> nat \<Rightarrow> bool" where
  "bytes_fits e n \<longleftrightarrow> roomy e \<and> int n \<le> INT_MAX"

lemma b_data_put [simp]: "b_data (put_bytes d B) = d"
  by (simp add: b_data_def put_bytes_def split: option.splits)

lemma put_bytes_fields [simp]:
  "b_len (put_bytes d B) = b_len B" "b_cap (put_bytes d B) = b_cap B"
  "b_out (put_bytes d B) = None \<longleftrightarrow> b_out B = None"
  "b_out B \<noteq> None \<Longrightarrow> b_inl (put_bytes d B) = b_inl B"
  by (auto simp: put_bytes_def split: option.splits)

lemma b_data_len [simp]: "b_data (B\<lparr>b_len := n\<rparr>) = b_data B" "b_data (B\<lparr>b_cap := n\<rparr>) = b_data B"
  by (simp_all add: b_data_def split: option.splits)

lemma length_blit [simp]: "i + length src \<le> length d \<Longrightarrow> length (blit i src d) = length d"
  by (simp add: blit_def)

lemma take_blit: "i + length src \<le> length d \<Longrightarrow> take (i + length src) (blit i src d) = take i d @ src"
  by (simp add: blit_def)

lemma bytes_invD:
  assumes "bytes_inv B"
  shows "0 \<le> b_len B" "b_len B \<le> b_cap B" "8 \<le> b_cap B" "0 < b_cap B" "b_cap B \<le> INT_MAX"
    "length (b_data B) = nat (b_cap B)"
    "b_out B \<noteq> None \<Longrightarrow> 8 \<le> length (b_inl B)"
    "b_out B \<noteq> None \<Longrightarrow> le_value (take 8 (b_inl B)) = length (b_inl B)"
  using assms by (auto simp: bytes_inv_def)

lemma bytes_invI:
  "\<lbrakk>0 \<le> b_len B; b_len B \<le> b_cap B; 8 \<le> b_cap B; b_cap B \<le> INT_MAX;
    length (b_data B) = nat (b_cap B);
    b_out B \<noteq> None \<Longrightarrow> 8 \<le> length (b_inl B) \<and> le_value (take 8 (b_inl B)) = length (b_inl B)\<rbrakk>
   \<Longrightarrow> bytes_inv B"
  by (simp add: bytes_inv_def)

lemma bytes_abs_length [simp]: "bytes_inv B \<Longrightarrow> length (bytes_abs B) = nat (b_len B)"
  by (auto simp: bytes_inv_def bytes_abs_def)

lemma bytes_inv_mut [simp]: "bytes_inv B \<Longrightarrow> id_bytes_mut_check B = Inr ()"
  using bytes_invD(4) [of B] by (simp add: id_bytes_mut_check_def)

lemma byte_fit_uint [simp]: "id_byte_fit (uint (b :: w8)) = Inr b"
proof -
  have "uint b < 2 ^ LENGTH(8)" by (rule uint_lt2p)
  then show ?thesis by (simp add: id_byte_fit_def)
qed

lemma id_byte_fit_iff: "id_byte_fit v = Inr b \<longleftrightarrow> 0 \<le> v \<and> v \<le> 255 \<and> v = uint b"
proof -
  have "uint b < 2 ^ LENGTH(8)" by (rule uint_lt2p)
  then show ?thesis
    by (auto simp: id_byte_fit_def unsigned_of_int take_bit_int_eq_self)
qed

lemma id_bytes_make_ok:
  assumes "roomy e" "0 \<le> n" "n \<le> INT_MAX"
  shows "\<exists>B. id_bytes_make e n (if n < 8 then 8 else n) = Inr B \<and> bytes_inv B \<and> b_len B = n \<and> b_out B = None"
  using assms
  by (auto simp: id_bytes_make_def roomy_def bytes_inv_def b_data_def INT_MAX_def)

text \<open>Filling the first \<open>b_len\<close> bytes of a fresh buffer.\<close>

lemma put_prefix:
  assumes "bytes_inv B" "length xs = nat (b_len B)"
  shows "bytes_inv (put_bytes (blit 0 xs (b_data B)) B) \<and> bytes_abs (put_bytes (blit 0 xs (b_data B)) B) = xs"
proof -
  note b = bytes_invD [OF assms(1)]
  have "bytes_inv (put_bytes (blit 0 xs (b_data B)) B)"
    using b assms(2) by (intro bytes_invI) auto
  moreover have "bytes_abs (put_bytes (blit 0 xs (b_data B)) B) = xs"
    using assms(2) by (simp add: bytes_abs_def blit_def)
  ultimately show ?thesis ..
qed

text \<open>A reservation keeps the bytes and makes room for what was asked.\<close>

lemma id_bytes_reserve_ok:
  assumes "bytes_inv B" "id_bytes_reserve e B need = Inr B'"
  shows "bytes_inv B' \<and> bytes_abs B' = bytes_abs B \<and> b_len B' = b_len B \<and> int need \<le> b_cap B'"
proof (cases "nat (b_cap B) \<ge> need")
  case True
  then show ?thesis using assms bytes_invD [OF assms(1)] by (auto simp: id_bytes_reserve_def)
next
  case False
  note b = bytes_invD [OF assms(1)]
  have n: "int need \<le> INT_MAX" using False assms(2)
    by (auto simp: id_bytes_reserve_def split: if_splits)
  define n2 where "n2 = (if nat (b_cap B) * 2 < need then need else nat (b_cap B) * 2)"
  define ncap where "ncap = (if int n2 > INT_MAX then nat INT_MAX else n2)"
  have nc: "nat (b_cap B) < ncap" "int ncap \<le> INT_MAX" "need \<le> ncap"
    using False n b by (auto simp: ncap_def n2_def INT_MAX_def)
  show ?thesis
  proof (cases "b_out B")
    case None
    then have d: "b_data B = b_inl B" by (simp add: b_data_def)
    define d' where "d' = take (nat (b_len B)) (b_inl B) @ map (e_junk e) [nat (b_len B)..<ncap]"
    have B': "B' = B\<lparr>b_out := Some d', b_inl := blit 0 (le_bytes 8 (nat (b_cap B))) (b_inl B), b_cap := int ncap\<rparr>"
      using assms(2) False n None
      by (auto simp: id_bytes_reserve_def Let_def ncap_def n2_def d'_def res_simps)
    have dl: "b_data B' = d'" by (simp add: B' b_data_def)
    have l: "length d' = ncap" using b nc d by (simp add: d'_def)
    have "le_value (take 8 (b_inl B')) = nat (b_cap B)"
    proof -
      have "take 8 (b_inl B') = le_bytes 8 (nat (b_cap B))" by (simp add: B' blit_def)
      moreover have "nat (b_cap B) < 256 ^ 8" using b by (simp add: INT_MAX_def)
      ultimately show ?thesis by (simp only: le_value_le_bytes mod_less)
    qed
    moreover have "length (b_inl B') = nat (b_cap B)"
    proof -
      have "0 + length (le_bytes 8 (nat (b_cap B))) \<le> length (b_inl B)" using b d by simp
      then have "length (b_inl B') = length (b_inl B)" by (simp only: B' length_blit) simp
      then show ?thesis using b d by simp
    qed
    ultimately have i: "8 \<le> length (b_inl B') \<and> le_value (take 8 (b_inl B')) = length (b_inl B')"
      using b by simp
    have "bytes_inv B'"
      by (rule bytes_invI) (use b nc l dl i in \<open>simp_all add: B'\<close>)
    moreover have "bytes_abs B' = bytes_abs B" using b d by (simp add: bytes_abs_def dl) (simp add: B' d'_def)
    ultimately show ?thesis using nc by (simp add: B')
  next
    case (Some ds)
    then have d: "b_data B = ds" by (simp add: b_data_def)
    define d' where "d' = take (nat (b_cap B)) ds @ map (e_junk e) [nat (b_cap B)..<ncap]"
    have B': "B' = B\<lparr>b_out := Some d', b_cap := int ncap\<rparr>"
      using assms(2) False n Some
      by (auto simp: id_bytes_reserve_def Let_def ncap_def n2_def d'_def res_simps)
    have dl: "b_data B' = d'" by (simp add: B' b_data_def)
    have l: "length d' = ncap" using b nc d by (simp add: d'_def)
    have "bytes_inv B'" using b nc l dl Some by (intro bytes_invI) (auto simp: B')
    moreover have "bytes_abs B' = bytes_abs B" using b d by (simp add: bytes_abs_def dl) (simp add: B' d'_def)
    ultimately show ?thesis using nc by (simp add: B')
  qed
qed

lemma id_bytes_reserve_total:
  "roomy e \<Longrightarrow> int need \<le> INT_MAX \<Longrightarrow> \<exists>B'. id_bytes_reserve e B need = Inr B'"
  by (auto simp: id_bytes_reserve_def roomy_def Let_def split: option.splits)

lemma put_bytes_inv:
  assumes "bytes_inv B" "length d = length (b_data B)" "0 \<le> n" "n \<le> b_cap B"
  shows "bytes_inv ((put_bytes d B)\<lparr>b_len := n\<rparr>)"
  using bytes_invD [OF assms(1)] assms(2-) by (intro bytes_invI) auto

lemma id_bytes_push_ok:
  assumes "bytes_inv B" "id_bytes_push e (Some B) v = Inr B'"
  shows "0 \<le> v \<and> v \<le> 255 \<and> bytes_inv B' \<and> bytes_abs B' = bytes_abs B @ [word_of_int v]"
proof -
  from assms obtain b M where f: "id_byte_fit v = Inr b"
    and M: "(if b_len B \<ge> b_cap B then id_bytes_reserve e B (nat (b_len B) + 1) else Inr B) = Inr M"
    and B': "B' = (put_bytes ((b_data M)[nat (b_len M) := b]) M)\<lparr>b_len := b_len M + 1\<rparr>"
    by (auto simp: id_bytes_push_def with_bytes_def res_simps)
  have g: "bytes_inv M \<and> bytes_abs M = bytes_abs B \<and> b_len M < b_cap M"
  proof (cases "b_len B \<ge> b_cap B")
    case True
    then have "id_bytes_reserve e B (nat (b_len B) + 1) = Inr M" using M by simp
    from id_bytes_reserve_ok [OF assms(1) this] bytes_invD [OF assms(1)] show ?thesis by auto
  next
    case False
    with M assms(1) show ?thesis by auto
  qed
  note m = bytes_invD [of M]
  have "bytes_inv B'" unfolding B' using g m by (intro put_bytes_inv) auto
  moreover have "bytes_abs B' = bytes_abs M @ [b]"
  proof -
    have "nat (b_len M + 1) = Suc (nat (b_len M))" using g m by simp
    then show ?thesis using g m by (simp add: B' bytes_abs_def take_Suc_update)
  qed
  ultimately show ?thesis using g f by (auto simp: id_byte_fit_iff)
qed

lemma id_bytes_push_total:
  assumes "bytes_inv B" "bytes_fits e (Suc (length (bytes_abs B)))"
  shows "\<exists>B'. id_bytes_push e (Some B) (uint (b :: w8)) = Inr B'"
proof -
  have "\<exists>M. id_bytes_reserve e B (nat (b_len B) + 1) = Inr M"
    using assms by (intro id_bytes_reserve_total) (auto simp: bytes_fits_def)
  then show ?thesis using assms(1) by (auto simp: id_bytes_push_def with_bytes_def)
qed

lemma bytes_oob: "bytes_inv B \<Longrightarrow> id_bytes_oob B i = Trap_index i (int (length (bytes_abs B)))"
  using bytes_invD [of B] by (auto simp: id_bytes_oob_def c_limits)

lemma id_bytes_get_ok:
  assumes "bytes_inv B"
  shows "id_bytes_get (Some B) i =
    (if 0 \<le> i \<and> i < int (length (bytes_abs B)) then Inr (uint (bytes_abs B ! nat i))
     else Inl (Trap_index i (int (length (bytes_abs B)))))"
  using bytes_invD [OF assms] assms
  by (auto simp: id_bytes_get_def with_bytes_def bytes_oob) (simp_all add: bytes_abs_def)

lemma id_bytes_set_ok:
  assumes "bytes_inv B" "0 \<le> i" "i < int (length (bytes_abs B))"
  shows "\<exists>B'. id_bytes_set (Some B) i (uint (b :: w8)) = Inr B' \<and> bytes_inv B'
    \<and> bytes_abs B' = (bytes_abs B)[nat i := b]"
proof -
  note b = bytes_invD [OF assms(1)]
  let ?B = "put_bytes ((b_data B)[nat i := b]) B"
  have "bytes_inv ?B" using b by (intro bytes_invI) auto
  moreover have "bytes_abs ?B = (bytes_abs B)[nat i := b]"
    using assms b by (simp add: bytes_abs_def take_update_inside)
  ultimately show ?thesis using assms b by (simp add: id_bytes_set_def with_bytes_def)
qed

lemma id_bytes_pop_ok:
  assumes "bytes_inv B" "bytes_abs B \<noteq> []"
  shows "\<exists>B'. id_bytes_pop (Some B) = Inr (uint (last (bytes_abs B)), B') \<and> bytes_inv B'
    \<and> bytes_abs B' = butlast (bytes_abs B)"
proof -
  note b = bytes_invD [OF assms(1)]
  have l: "0 < b_len B" using b assms(2) by (auto simp: bytes_abs_def)
  have s: "nat (b_len B) = Suc (nat (b_len B - 1))" using l by simp
  have lt: "nat (b_len B - 1) < length (b_data B)" using l b by simp
  have t: "bytes_abs B = take (nat (b_len B - 1)) (b_data B) @ [b_data B ! nat (b_len B - 1)]"
    using lt by (simp only: bytes_abs_def s take_Suc_conv_app_nth)
  have "bytes_inv (B\<lparr>b_len := b_len B - 1\<rparr>)" using b l by (intro bytes_invI) auto
  moreover have "bytes_abs (B\<lparr>b_len := b_len B - 1\<rparr>) = butlast (bytes_abs B)"
    by (simp add: t) (simp add: bytes_abs_def)
  ultimately show ?thesis using assms(1) l
    by (simp add: id_bytes_pop_def with_bytes_def Let_def) (simp add: t)
qed

text \<open>The buffer through byte-valued operations: values are passed as 0..255.\<close>

definition push_byte :: "benv \<Rightarrow> idbytes \<Rightarrow> w8 \<Rightarrow> idbytes res" where
  "push_byte e B b = id_bytes_push e (Some B) (uint b)"

definition get_byte :: "idbytes \<Rightarrow> int \<Rightarrow> w8 res" where
  "get_byte B i = andThen (id_bytes_get (Some B) i) (\<lambda>v. Inr (word_of_int v))"

definition set_byte :: "idbytes \<Rightarrow> int \<Rightarrow> w8 \<Rightarrow> idbytes res" where
  "set_byte B i b = id_bytes_set (Some B) i (uint b)"

definition pop_byte :: "idbytes \<Rightarrow> (w8 \<times> idbytes) res" where
  "pop_byte B = andThen (id_bytes_pop (Some B)) (\<lambda>(v, B'). Inr (word_of_int v, B'))"

lemmas byte_op_defs = push_byte_def get_byte_def set_byte_def pop_byte_def

interpretation buffers: growable bytes_inv bytes_abs "bytes_fits e" "push_byte e"
    get_byte set_byte pop_byte for e
proof unfold_locales
  fix B v B' assume "bytes_inv B" "push_byte e B v = Inr B'"
  then show "bytes_inv B' \<and> bytes_abs B' = bytes_abs B @ [v]"
    using id_bytes_push_ok [of B e "uint v" B'] by (simp add: push_byte_def)
next
  fix B v assume "bytes_inv B" "bytes_fits e (Suc (length (bytes_abs B)))"
  then show "\<exists>B'. push_byte e B v = Inr B'" by (simp add: push_byte_def id_bytes_push_total)
next
  fix B i assume "bytes_inv B"
  then show "get_byte B i = (if 0 \<le> i \<and> i < int (length (bytes_abs B)) then Inr (bytes_abs B ! nat i)
      else Inl (Trap_index i (int (length (bytes_abs B)))))"
    by (simp add: get_byte_def id_bytes_get_ok)
next
  fix B i v assume "bytes_inv B" "\<not> (0 \<le> i \<and> i < int (length (bytes_abs B)))"
  then show "set_byte B i v = Inl (Trap_index i (int (length (bytes_abs B))))"
    using bytes_invD(1) [of B] by (auto simp: set_byte_def id_bytes_set_def with_bytes_def bytes_oob)
next
  fix B i v assume "bytes_inv B" "0 \<le> i" "i < int (length (bytes_abs B))"
  then show "\<exists>B'. set_byte B i v = Inr B' \<and> bytes_inv B' \<and> bytes_abs B' = (bytes_abs B)[nat i := v]"
    unfolding set_byte_def by (rule id_bytes_set_ok)
next
  fix B assume "bytes_inv B" "bytes_abs B = []"
  then show "\<exists>t. pop_byte B = Inl t"
    using bytes_abs_length [of B] by (auto simp: pop_byte_def id_bytes_pop_def with_bytes_def)
next
  fix B assume "bytes_inv B" "bytes_abs B \<noteq> []"
  then show "\<exists>B'. pop_byte B = Inr (last (bytes_abs B), B') \<and> bytes_inv B' \<and> bytes_abs B' = butlast (bytes_abs B)"
    using id_bytes_pop_ok [of B] by (auto simp: pop_byte_def)
qed

section \<open>Whole-buffer operations\<close>

text \<open>Appending: the two buffers may be one, and the source is read after the reservation.\<close>

lemma id_bytes_append_ok:
  assumes "bytes_inv D" "bytes_inv S" "alias \<Longrightarrow> S = D"
    and "id_bytes_append e alias (Some D) (Some S) = Inr D'"
  shows "bytes_inv D' \<and> bytes_abs D' = bytes_abs D @ bytes_abs S"
proof (cases "b_len S = 0")
  case True
  then show ?thesis using assms bytes_invD [OF assms(1)]
    by (auto simp: id_bytes_append_def with_bytes_def bytes_abs_def)
next
  case False
  note d = bytes_invD [OF assms(1)] and sv = bytes_invD [OF assms(2)]
  define n where "n = nat (b_len S)"
  have n: "0 < n" "int n = b_len S" using False sv by (auto simp: n_def)
  from assms(4) False sv obtain M where
    M: "id_bytes_reserve e D (nat (b_len D) + n) = Inr M" and
    D': "D' = (put_bytes (blit (nat (b_len M)) (take n (b_data (if alias then M else S))) (b_data M)) M)
                \<lparr>b_len := b_len M + int n\<rparr>"
    using assms(1) by (auto simp: id_bytes_append_def with_bytes_def res_simps n_def Let_def
        id_add_check_def split: if_splits)
  from id_bytes_reserve_ok [OF assms(1) M] have
    m: "bytes_inv M" "bytes_abs M = bytes_abs D" "b_len M = b_len D" "b_len D + int n \<le> b_cap M"
    using d by auto
  note mi = bytes_invD [OF m(1)]
  have "take n (b_data (if alias then M else S)) = bytes_abs S"
    using m assms(3) by (auto simp: n_def bytes_abs_def)
  then have D2: "D' = (put_bytes (blit (nat (b_len D)) (bytes_abs S) (b_data M)) M)\<lparr>b_len := b_len D + int n\<rparr>"
    using D' m by simp
  have sl: "length (bytes_abs S) = n" using assms(2) by (simp add: n_def)
  have fit: "nat (b_len D) + length (bytes_abs S) \<le> length (b_data M)"
    using m mi d sl by simp
  have "bytes_inv D'" unfolding D2
    using m n fit d by (intro put_bytes_inv) auto
  moreover have "bytes_abs D' = bytes_abs D @ bytes_abs S"
  proof -
    have "nat (b_len D + int n) = nat (b_len D) + length (bytes_abs S)" using d sl by simp
    moreover have "bytes_abs D' = take (nat (b_len D + int n)) (blit (nat (b_len D)) (bytes_abs S) (b_data M))"
      unfolding D2 by (simp add: bytes_abs_def [of "_\<lparr>b_len := _\<rparr>"])
    ultimately have "bytes_abs D' = take (nat (b_len D)) (b_data M) @ bytes_abs S"
      by (simp only: take_blit [OF fit])
    then show ?thesis using m by (simp add: bytes_abs_def)
  qed
  ultimately show ?thesis ..
qed

lemma id_bytes_append_total:
  assumes "bytes_inv D" "bytes_inv S" "roomy e"
    "int (length (bytes_abs D) + length (bytes_abs S)) \<le> INT_MAX"
  shows "\<exists>D'. id_bytes_append e alias (Some D) (Some S) = Inr D'"
proof -
  note d = bytes_invD [OF assms(1)] and sv = bytes_invD [OF assms(2)]
  let ?need = "nat (b_len D) + nat (b_len S)"
  have n: "int ?need \<le> INT_MAX" using assms by simp
  then have "id_add_check (nat (b_len D)) (nat (b_len S)) ''bytes_append'' = Inr ?need"
    using d sv by (simp add: id_add_check_def c_limits)
  moreover obtain M where "id_bytes_reserve e D ?need = Inr M"
    using id_bytes_reserve_total [OF assms(3) n] by blast
  ultimately show ?thesis using assms d sv
    by (simp add: id_bytes_append_def with_bytes_def Let_def)
qed

lemma id_bytes_sub_ok:
  assumes "bytes_inv B" "roomy e" "0 \<le> i" "0 \<le> n" "n = 0 \<or> i + n \<le> int (length (bytes_abs B))"
  shows "\<exists>R. id_bytes_sub e (Some B) i n = Inr R \<and> bytes_inv R
    \<and> bytes_abs R = take (nat n) (drop (nat i) (bytes_abs B))"
proof -
  note b = bytes_invD [OF assms(1)]
  have n: "n \<le> INT_MAX" using assms b by (auto simp: INT_MAX_def)
  obtain R where R: "id_bytes_make e n (if n < 8 then 8 else n) = Inr R" "bytes_inv R" "b_len R = n"
    using id_bytes_make_ok [OF assms(2,4) n] by blast
  let ?src = "take (nat n) (drop (nat i) (b_data B))"
  have guard: "\<not> (i < 0 \<or> n < 0 \<or> (n > 0 \<and> i + n > b_len B))"
    using assms b by auto
  show ?thesis
  proof (cases "n = 0")
    case True
    then show ?thesis using R guard b
      by (intro exI [of _ R]) (simp add: id_bytes_sub_def with_bytes_def bytes_abs_def)
  next
    case False
    then have i: "i + n \<le> b_len B" using assms b by auto
    then have l: "length ?src = nat (b_len R)" using b R assms by simp
    have "?src = take (nat n) (drop (nat i) (bytes_abs B))"
      using i assms b by (simp add: bytes_abs_def drop_take min_def nat_diff_distrib)
    then show ?thesis using put_prefix [OF R(2) l] R guard b False
      by (simp add: id_bytes_sub_def with_bytes_def)
  qed
qed

lemma mem_cmp_eq: "length xs = length ys \<Longrightarrow> mem_cmp xs ys = 0 \<longleftrightarrow> xs = ys"
  by (induction xs ys rule: list_induct2) auto

lemma fit_all_ok:
  "list_all (\<lambda>v. 0 \<le> v \<and> v \<le> 255) vs \<Longrightarrow> k + length vs \<le> length d \<Longrightarrow>
     fit_all k vs d = Inr (blit k (map word_of_int vs) d)"
proof (induction vs arbitrary: k d)
  case Nil
  then show ?case by (simp add: blit_def)
next
  case (Cons v vs)
  have "id_byte_fit v = Inr (word_of_int v)" using Cons.prems by (simp add: id_byte_fit_def)
  then show ?case using Cons
    by (simp add: blit_def take_Suc_conv_app_nth)
qed

lemma id_bytes_lit_ok:
  assumes "roomy e" "list_all (\<lambda>v. 0 \<le> v \<and> v \<le> 255) vs" "int (length vs) \<le> INT_MAX"
  shows "\<exists>B. id_bytes_lit e vs = Inr B \<and> bytes_inv B \<and> bytes_abs B = map word_of_int vs"
proof -
  let ?n = "int (length vs)"
  obtain R where R: "id_bytes_make e ?n (if ?n < 8 then 8 else ?n) = Inr R" "bytes_inv R" "b_len R = ?n"
    using id_bytes_make_ok [OF assms(1) _ assms(3)] by auto
  have "length (b_data R) \<ge> length vs" using bytes_invD [OF R(2)] R by simp
  then have "fit_all 0 vs (b_data R) = Inr (blit 0 (map word_of_int vs) (b_data R))"
    using fit_all_ok [OF assms(2)] by simp
  then show ?thesis using R put_prefix [OF R(2), of "map word_of_int vs"]
    by (simp add: id_bytes_lit_def Let_def)
qed

lemma id_bytes_of_string_ok:
  assumes "roomy e" "int (length s) \<le> INT_MAX"
  shows "\<exists>B. id_bytes_of_string e s = Inr B \<and> bytes_inv B \<and> bytes_abs B = map byte_of_char s"
proof -
  let ?n = "int (length s)"
  obtain R where R: "id_bytes_make e ?n (if ?n < 8 then 8 else ?n) = Inr R" "bytes_inv R" "b_len R = ?n"
    using id_bytes_make_ok [OF assms(1) _ assms(2)] by auto
  then show ?thesis using put_prefix [OF R(2), of "map byte_of_char s"] assms(2)
    by (simp add: id_bytes_of_string_def Let_def)
qed

lemma byte_of_char_0: "byte_of_char c = 0 \<longleftrightarrow> c = CHR 0x00"
proof
  have z: "byte_of_char (CHR 0x00) = 0" by (simp add: byte_of_char_def)
  assume "byte_of_char c = 0"
  then have "byte_of_char c = byte_of_char (CHR 0x00)" by (simp only: z)
  then have "char_of_byte (byte_of_char c) = char_of_byte (byte_of_char (CHR 0x00))" by (rule arg_cong)
  then show "c = CHR 0x00" by (simp only: char_of_byte_of_char)
qed (simp add: byte_of_char_def)

section \<open>Properties\<close>


definition byte_env :: benv where
  "byte_env = \<lparr>e_get = (\<lambda>_. Inr ()), e_realloc = (\<lambda>_ _. Inr ()), e_junk = (\<lambda>_. 7)\<rparr>"

definition small_bytes :: idbytes where
  "small_bytes = \<lparr>b_len = 8, b_cap = 8, b_inl = [1, 2, 3, 4, 5, 6, 7, 8], b_out = None\<rparr>"

lemma small_bytes_inv: "bytes_inv small_bytes" "roomy byte_env" "bytes_abs small_bytes = [1, 2, 3, 4, 5, 6, 7, 8]"
  by (auto simp: small_bytes_def byte_env_def roomy_def bytes_inv_def b_data_def bytes_abs_def INT_MAX_def)


text \<open>Append, also of a buffer to itself, and the span that takes it apart again.\<close>

theorem id_bytes_append_sub:
  assumes "bytes_inv D" "bytes_inv S" "alias \<Longrightarrow> S = D" "roomy e"
    and "int (length (bytes_abs D) + length (bytes_abs S)) \<le> INT_MAX"
  shows "\<exists>D' A Z. id_bytes_append e alias (Some D) (Some S) = Inr D'
     \<and> bytes_inv D' \<and> bytes_abs D' = bytes_abs D @ bytes_abs S
     \<and> id_bytes_sub e (Some D') 0 (b_len D) = Inr A \<and> bytes_abs A = bytes_abs D
     \<and> id_bytes_sub e (Some D') (b_len D) (b_len S) = Inr Z \<and> bytes_abs Z = bytes_abs S"
proof -
  obtain D' where D': "id_bytes_append e alias (Some D) (Some S) = Inr D'"
    using id_bytes_append_total [OF assms(1,2,4,5)] by blast
  from id_bytes_append_ok [OF assms(1-3) D']
  have d: "bytes_inv D'" "bytes_abs D' = bytes_abs D @ bytes_abs S" by auto
  note di = bytes_invD [OF assms(1)] and si = bytes_invD [OF assms(2)]
  have l: "int (length (bytes_abs D')) = b_len D + b_len S" using d(2) di(1) si(1) assms(1,2) by simp
  obtain A where A: "id_bytes_sub e (Some D') 0 (b_len D) = Inr A"
    "bytes_abs A = take (nat (b_len D)) (drop (nat 0) (bytes_abs D'))"
    using id_bytes_sub_ok [OF d(1) assms(4), of 0 "b_len D"] l di(1) si(1) by auto
  obtain Z where Z: "id_bytes_sub e (Some D') (b_len D) (b_len S) = Inr Z"
    "bytes_abs Z = take (nat (b_len S)) (drop (nat (b_len D)) (bytes_abs D'))"
    using id_bytes_sub_ok [OF d(1) assms(4), of "b_len D" "b_len S"] l di(1) si(1) by auto
  show ?thesis using D' d A Z assms(1,2) by auto
qed

theorem id_bytes_append_sub_witness:
  "\<exists>D'. id_bytes_append byte_env True (Some small_bytes) (Some small_bytes) = Inr D'
     \<and> bytes_abs D' = [1, 2, 3, 4, 5, 6, 7, 8, 1, 2, 3, 4, 5, 6, 7, 8]"
  using id_bytes_append_sub [OF small_bytes_inv(1,1), of True byte_env]
  by (auto simp: small_bytes_inv INT_MAX_def)

theorem id_bytes_string_roundtrip:
  assumes "roomy e" "int (length s) \<le> INT_MAX"
  shows "\<exists>B. id_bytes_of_string e s = Inr B \<and> bytes_inv B
     \<and> bytes_abs B = map byte_of_char s
     \<and> (CHR 0x00 \<notin> set s \<longrightarrow> id_string_of_bytes e (Some B) = Inr s)
     \<and> (CHR 0x00 \<in> set s \<longrightarrow> (\<exists>m. id_string_of_bytes e (Some B) = Inl (Trap_msg m)))"
proof -
  obtain B where B: "id_bytes_of_string e s = Inr B" "bytes_inv B" "bytes_abs B = map byte_of_char s"
    using id_bytes_of_string_ok [OF assms] by blast
  have l: "b_len B = int (length s)"
    using bytes_abs_length [OF B(2)] bytes_invD(1) [OF B(2)] B(3) by simp
  have t: "take (nat (b_len B)) (b_data B) = map byte_of_char s"
    using B(3) by (simp add: bytes_abs_def)
  have z: "0 \<in> set (map byte_of_char s) \<longleftrightarrow> CHR 0x00 \<in> set s"
    by (auto simp: image_iff) (metis byte_of_char_0)+
  have r: "map char_of_byte (map byte_of_char s) = s" by (simp add: map_idI)
  note tl = t [unfolded l nat_int] and zl = z and rl = r
  have f: "id_str_from e s = Inr s"
    using assms by (intro id_str_from_total) (auto simp: c_limits)
  have "CHR 0x00 \<in> set s \<longrightarrow> s \<noteq> []" by auto
  then show ?thesis using B l f
    by (cases "s = []") (simp_all add: id_string_of_bytes_def with_bytes_def tl zl rl del: set_map map_map)
qed

theorem id_bytes_string_roundtrip_witness:
  "\<exists>B. id_bytes_of_string byte_env ''id'' = Inr B \<and> id_string_of_bytes byte_env (Some B) = Inr ''id''"
  using id_bytes_string_roundtrip [OF small_bytes_inv(2), of "''id''"] by (auto simp: INT_MAX_def)

theorem id_bytes_free_balanced:
  assumes "bytes_inv B"
  shows "id_bytes_free False (Some B) = Inr (None, bytes_blocks B)"
  using bytes_invD [OF assms]
  by (auto simp: id_bytes_free_def bytes_blocks_def b_data_def Let_def split: option.splits)

theorem id_bytes_free_balanced_witness:
  "id_bytes_free False (Some small_bytes) = Inr (None, [Header 24])"
  using id_bytes_free_balanced [OF small_bytes_inv(1)]
  by (simp add: bytes_blocks_def small_bytes_def id_bytes_bytes_def)

lemma id_bytes_cmp_zero:
  assumes "bytes_inv A" "bytes_inv B"
  shows "id_bytes_cmp (Some A) (Some B) = Inr 0 \<longleftrightarrow> bytes_abs A = bytes_abs B"
proof (cases "b_len A = b_len B")
  case True
  then show ?thesis using bytes_invD [OF assms(1)] bytes_invD [OF assms(2)]
    by (auto simp: id_bytes_cmp_def with_bytes_def bytes_abs_def mem_cmp_eq)
next
  case False
  then have "length (bytes_abs A) \<noteq> length (bytes_abs B)"
    using assms bytes_invD(1) [OF assms(1)] bytes_invD(1) [OF assms(2)] by simp
  then show ?thesis using False bytes_invD(1) [OF assms(1)] bytes_invD(1) [OF assms(2)]
    by (auto simp: id_bytes_cmp_def with_bytes_def)
qed

end
