(* ===== verification/Store.thy ===== *)
theory Store
  imports IdBytes
begin

text \<open>
  The flat store: one byte-addressed memory that grows on demand. An address is a word;
  address 0 is never handed out. The state is the runtime's \<open>id_store\<close> (its bytes, as many
  as \<open>id_store_cap\<close>), the high-water mark \<open>id_store_used\<close> and the allocation counters. The
  interface its clients rely on, reads and writes of little-endian fields, is a locale.
\<close>

record store =
  st_bytes :: "w8 list"
  st_used :: int
  st_blocks :: int
  st_total :: int
  st_hwm :: int

definition store_init :: store where
  "store_init = \<lparr>st_bytes = [], st_used = 1, st_blocks = 0, st_total = 0, st_hwm = 0\<rparr>"

definition st_cap :: "store \<Rightarrow> int" where
  "st_cap s = int (length (st_bytes s))"

section \<open>Growth and allocation\<close>

text \<open>
  The doubling loop of \<open>id_store_grow\<close>. The capacity it starts from is positive; from 0 the
  C loop would not end.
\<close>

function grow_cap :: "int \<Rightarrow> int \<Rightarrow> int res" where
  "grow_cap cap need =
     (if 0 < cap \<and> cap < need then
        if cap > 2 ^ 44 then Inl (Trap_msg ''store too large'') else grow_cap (cap * 2) need
      else Inr cap)"
  by pat_completeness auto
termination by (relation "measure (\<lambda>(cap, need). nat (need - cap))") auto

declare grow_cap.simps [simp del]

definition id_store_grow :: "benv \<Rightarrow> store \<Rightarrow> int \<Rightarrow> store res" where
  "id_store_grow e s need =
     andThen (grow_cap (if st_cap s \<noteq> 0 then st_cap s else 65536) need) (\<lambda>cap.
     andThen (e_realloc e (nat (st_cap s)) (nat cap)) (\<lambda>_.
       Inr (s\<lparr>st_bytes := st_bytes s @ replicate (nat (cap - st_cap s)) 0\<rparr>)))"

definition id_mem_alloc :: "benv \<Rightarrow> store \<Rightarrow> int \<Rightarrow> (int \<times> store) res" where
  "id_mem_alloc e s n =
     (if n < 0 then Inl (Trap_msg ''negative allocation size'')
      else
        let base = (st_used s + 7) AND NOT 7; end = wrap64 (base + n)
        in if end < base then Inl (Trap_msg ''allocation size overflow'')
           else
             andThen (if end > st_cap s then id_store_grow e s end else Inr s) (\<lambda>s.
               Inr (base, s\<lparr>st_used := end, st_blocks := st_blocks s + 1,
                            st_total := st_total s + n,
                            st_hwm := (if end > st_hwm s then end else st_hwm s)\<rparr>)))"

definition id_mem_size :: "store \<Rightarrow> int" where
  "id_mem_size s = st_used s"

definition id_store_leave :: "store \<Rightarrow> store" where
  "id_store_leave s = s\<lparr>st_bytes := [], st_used := 1\<rparr>"

section \<open>Reads and writes\<close>

text \<open>The one check every access goes through; \<open>addr + width\<close> is a 64-bit sum.\<close>

definition id_at :: "store \<Rightarrow> int \<Rightarrow> int \<Rightarrow> nat res" where
  "id_at s addr width =
     (if addr \<le> 0 \<or> wrap64 (addr + width) > st_used s
      then Inl (Trap_store_range addr (st_used s)) else Inr (nat addr))"

definition id_store_span :: "store \<Rightarrow> int \<Rightarrow> int \<Rightarrow> nat res" where
  "id_store_span s addr n =
     (if n < 0 then Inl (Trap_msg ''negative length'') else id_at s addr n)"

definition id_peek_n :: "store \<Rightarrow> int \<Rightarrow> nat \<Rightarrow> w64 res" where
  "id_peek_n s addr width =
     andThen (id_at s addr (int width))
       (\<lambda>p. Inr (of_nat (le_value (take width (drop p (st_bytes s))))))"

definition id_poke_n :: "store \<Rightarrow> int \<Rightarrow> w64 \<Rightarrow> nat \<Rightarrow> store res" where
  "id_poke_n s addr value width =
     andThen (id_at s addr (int width))
       (\<lambda>p. Inr (s\<lparr>st_bytes := blit p (le_bytes width (unat value)) (st_bytes s)\<rparr>))"

definition id_peek8 :: "store \<Rightarrow> int \<Rightarrow> w64 res" where "id_peek8 s a = id_peek_n s a 1"
definition id_peek16 :: "store \<Rightarrow> int \<Rightarrow> w64 res" where "id_peek16 s a = id_peek_n s a 2"
definition id_peek32 :: "store \<Rightarrow> int \<Rightarrow> w64 res" where "id_peek32 s a = id_peek_n s a 4"
definition id_peek64 :: "store \<Rightarrow> int \<Rightarrow> w64 res" where "id_peek64 s a = id_peek_n s a 8"
definition id_poke8 :: "store \<Rightarrow> int \<Rightarrow> w64 \<Rightarrow> store res" where "id_poke8 s a v = id_poke_n s a v 1"
definition id_poke16 :: "store \<Rightarrow> int \<Rightarrow> w64 \<Rightarrow> store res" where "id_poke16 s a v = id_poke_n s a v 2"
definition id_poke32 :: "store \<Rightarrow> int \<Rightarrow> w64 \<Rightarrow> store res" where "id_poke32 s a v = id_poke_n s a v 4"
definition id_poke64 :: "store \<Rightarrow> int \<Rightarrow> w64 \<Rightarrow> store res" where "id_poke64 s a v = id_poke_n s a v 8"

text \<open>The signed reads narrow and sign-extend; the unsigned ones are the plain reads.\<close>

definition id_peek8s :: "store \<Rightarrow> int \<Rightarrow> w64 res" where
  "id_peek8s s a = andThen (id_peek_n s a 1) (\<lambda>v. Inr (scast (ucast v :: w8)))"
definition id_peek16s :: "store \<Rightarrow> int \<Rightarrow> w64 res" where
  "id_peek16s s a = andThen (id_peek_n s a 2) (\<lambda>v. Inr (scast (ucast v :: 16 word)))"
definition id_peek32s :: "store \<Rightarrow> int \<Rightarrow> w64 res" where
  "id_peek32s s a = andThen (id_peek_n s a 4) (\<lambda>v. Inr (scast (ucast v :: w32)))"
definition id_peek8u :: "store \<Rightarrow> int \<Rightarrow> w64 res" where "id_peek8u s a = id_peek_n s a 1"
definition id_peek16u :: "store \<Rightarrow> int \<Rightarrow> w64 res" where "id_peek16u s a = id_peek_n s a 2"
definition id_peek32u :: "store \<Rightarrow> int \<Rightarrow> w64 res" where "id_peek32u s a = id_peek_n s a 4"

section \<open>Bridges to strings and byte buffers\<close>

definition id_str_of_mem :: "benv \<Rightarrow> store \<Rightarrow> int \<Rightarrow> int \<Rightarrow> string res" where
  "id_str_of_mem e s addr n =
     (if n < 0 then Inl (Trap_msg ''negative length'')
      else
        andThen (id_at s addr n) (\<lambda>p.
          let bs = take (nat n) (drop p (st_bytes s))
          in if 0 \<in> set bs
             then Inl (Trap_msg ''a NUL byte reached a string (str_of_mem): use idstd stdio_slurp or stdio_read_mem, or the store (fs_read_mem), for binary data'')
             else id_str_from e (map char_of_byte bs)))"

definition id_mem_of_str :: "benv \<Rightarrow> store \<Rightarrow> string \<Rightarrow> (int \<times> store) res" where
  "id_mem_of_str e s str =
     andThen (id_mem_alloc e s (int (length str) + 1)) (\<lambda>(a, s).
       Inr (a, s\<lparr>st_bytes := blit (nat a) (map byte_of_char str @ [0]) (st_bytes s)\<rparr>))"

definition id_bytes_of_memory :: "benv \<Rightarrow> store \<Rightarrow> int \<Rightarrow> int \<Rightarrow> idbytes res" where
  "id_bytes_of_memory e s addr n =
     (if n < 0 \<or> n > INT_MAX then Inl (Trap_msg ''bytes_of_memory: length out of range'')
      else
        andThen (id_at s addr n) (\<lambda>p.
        andThen (id_bytes_make e n (if n < 8 then 8 else n)) (\<lambda>R.
          Inr (put_bytes (blit 0 (take (nat n) (drop p (st_bytes s))) (b_data R)) R))))"

definition id_memory_of_bytes :: "benv \<Rightarrow> store \<Rightarrow> idbytes option \<Rightarrow> (int \<times> store) res" where
  "id_memory_of_bytes e s Bo =
     with_bytes Bo (\<lambda>B.
       if b_len B < 0 then Inl Trap_freed_list
       else
         andThen (id_mem_alloc e s (b_len B)) (\<lambda>(a, s).
           Inr (a, if b_len B \<noteq> 0
                   then s\<lparr>st_bytes := blit (nat a) (take (nat (b_len B)) (b_data B)) (st_bytes s)\<rparr>
                   else s)))"

section \<open>The contract of fields in memory\<close>

locale byte_store =
  fixes inv :: "'s \<Rightarrow> bool"
    and lim :: "'s \<Rightarrow> int"
    and peek :: "'s \<Rightarrow> int \<Rightarrow> nat \<Rightarrow> w64 res"
    and poke :: "'s \<Rightarrow> int \<Rightarrow> w64 \<Rightarrow> nat \<Rightarrow> 's res"
  assumes poke_in: "inv s \<Longrightarrow> 0 < a \<Longrightarrow> a + int w \<le> lim s \<Longrightarrow>
      \<exists>s'. poke s a v w = Inr s' \<and> inv s' \<and> lim s' = lim s"
    and peek_poke: "inv s \<Longrightarrow> 0 < a \<Longrightarrow> a + int w \<le> lim s \<Longrightarrow> w \<le> 8 \<Longrightarrow>
      poke s a v w = Inr s' \<Longrightarrow> peek s' a w = Inr (take_bit (8 * w) v)"
    and peek_other: "inv s \<Longrightarrow> 0 < a \<Longrightarrow> a + int w \<le> lim s \<Longrightarrow> poke s a v w = Inr s' \<Longrightarrow>
      b + int w' \<le> a \<or> a + int w \<le> b \<Longrightarrow> 0 < b \<Longrightarrow> b + int w' \<le> lim s \<Longrightarrow>
      peek s' b w' = peek s b w'"
begin

text \<open>An array of fields of width \<open>w\<close>, written one after the other from address \<open>a\<close>.\<close>

fun poke_all :: "'s \<Rightarrow> int \<Rightarrow> nat \<Rightarrow> w64 list \<Rightarrow> 's res" where
  "poke_all s a w [] = Inr s"
| "poke_all s a w (v # vs) = andThen (poke s a v w) (\<lambda>s. poke_all s (a + int w) w vs)"

lemma poke_all_runs:
  "inv s \<Longrightarrow> 0 < a \<Longrightarrow> a + int w * int (length vs) \<le> lim s \<Longrightarrow>
     \<exists>s'. poke_all s a w vs = Inr s' \<and> inv s' \<and> lim s' = lim s
       \<and> (\<forall>b w'. 0 < b \<and> b + int w' \<le> lim s \<and> (b + int w' \<le> a \<or> a + int w * int (length vs) \<le> b)
            \<longrightarrow> peek s' b w' = peek s b w')"
proof (induction vs arbitrary: s a)
  case Nil
  then show ?case by simp
next
  case (Cons v vs)
  have l: "a + int w + int w * int (length vs) \<le> lim s"
    using Cons.prems(3) by (simp add: algebra_simps)
  then have a: "a + int w \<le> lim s"
    by (smt (verit) mult_nonneg_nonneg of_nat_0_le_iff)
  obtain s1 where s1: "poke s a v w = Inr s1" "inv s1" "lim s1 = lim s"
    using poke_in [OF Cons.prems(1,2) a] by blast
  obtain s' where s': "poke_all s1 (a + int w) w vs = Inr s'" "inv s'" "lim s' = lim s1"
    "\<And>b w'. 0 < b \<Longrightarrow> b + int w' \<le> lim s1 \<Longrightarrow>
       b + int w' \<le> a + int w \<or> a + int w + int w * int (length vs) \<le> b \<Longrightarrow>
       peek s' b w' = peek s1 b w'"
    using Cons.IH [of s1 "a + int w"] s1 Cons.prems(2) l by auto
  have "peek s' b w' = peek s b w'"
    if b: "0 < b" "b + int w' \<le> lim s" "b + int w' \<le> a \<or> a + int w * int (length (v # vs)) \<le> b"
    for b w'
  proof -
    have ge: "0 \<le> int w * int (length vs)" by simp
    from b(3) have d: "b + int w' \<le> a \<or> a + int w + int w * int (length vs) \<le> b"
      by (auto simp: algebra_simps)
    then have "peek s' b w' = peek s1 b w'" using s'(4) b s1 by auto
    moreover have "b + int w' \<le> a \<or> a + int w \<le> b" using d ge by linarith
    then have "peek s1 b w' = peek s b w'"
      using peek_other [OF Cons.prems(1,2) a s1(1)] b by blast
    ultimately show ?thesis by simp
  qed
  with s1 s' show ?case by auto
qed

lemma peek_poke_all:
  "inv s \<Longrightarrow> 0 < a \<Longrightarrow> a + int w * int (length vs) \<le> lim s \<Longrightarrow> w \<le> 8 \<Longrightarrow>
     poke_all s a w vs = Inr s' \<Longrightarrow> i < length vs \<Longrightarrow>
     peek s' (a + int w * int i) w = Inr (take_bit (8 * w) (vs ! i))"
proof (induction vs arbitrary: s a i)
  case Nil
  then show ?case by simp
next
  case (Cons v vs)
  have l: "a + int w + int w * int (length vs) \<le> lim s"
    using Cons.prems(3) by (simp add: algebra_simps)
  then have a: "a + int w \<le> lim s"
    by (smt (verit) mult_nonneg_nonneg of_nat_0_le_iff)
  obtain s1 where s1: "poke s a v w = Inr s1" "inv s1" "lim s1 = lim s"
    using poke_in [OF Cons.prems(1,2) a] by blast
  have r: "poke_all s1 (a + int w) w vs = Inr s'" using Cons.prems(5) s1 by simp
  show ?case
  proof (cases i)
    case 0
    have "peek s' a w = peek s1 a w"
      using poke_all_runs [OF s1(2), of "a + int w" w vs] r s1 l a Cons.prems(2) by auto
    then show ?thesis using peek_poke [OF Cons.prems(1,2) a Cons.prems(4) s1(1)] 0 by simp
  next
    case (Suc j)
    then have "peek s' (a + int w + int w * int j) w = Inr (take_bit (8 * w) (vs ! j))"
      using Cons.IH [of s1 "a + int w" j] s1 r l Cons.prems by simp
    moreover have "a + int w + int w * int j = a + int w * int i"
      by (simp add: Suc algebra_simps)
    ultimately show ?thesis using Suc by simp
  qed
qed

end

section \<open>The store satisfies the contract\<close>

text \<open>Bytes past the high-water mark are zero, so what an allocation returns is zeroed.\<close>

definition store_inv :: "store \<Rightarrow> bool" where
  "store_inv s \<longleftrightarrow> 1 \<le> st_used s \<and> st_used s \<le> max 1 (st_cap s) \<and> st_cap s \<le> 2 ^ 45
     \<and> (\<forall>i. st_used s \<le> int i \<and> i < length (st_bytes s) \<longrightarrow> st_bytes s ! i = 0)"

lemma store_inv_init [simp]: "store_inv store_init"
  by (simp add: store_inv_def store_init_def st_cap_def)

lemma store_invD:
  assumes "store_inv s"
  shows "1 \<le> st_used s" "st_used s \<le> max 1 (st_cap s)" "st_cap s \<le> 2 ^ 45" "0 \<le> st_cap s"
    "st_used s \<le> 2 ^ 45"
proof -
  show a: "1 \<le> st_used s" "st_used s \<le> max 1 (st_cap s)" "st_cap s \<le> 2 ^ 45" "0 \<le> st_cap s"
    using assms by (auto simp: store_inv_def st_cap_def)
  show "st_used s \<le> 2 ^ 45" using a by (auto simp: max_def split: if_splits)
qed

text \<open>The bounds check is exact wherever \<open>addr + width\<close> does not wrap.\<close>

lemma id_at_iff:
  assumes "a + w \<le> 9223372036854775807" "0 \<le> w"
  shows "id_at s a w = Inr p \<longleftrightarrow> 0 < a \<and> a + w \<le> st_used s \<and> p = nat a"
proof (cases "0 < a")
  case True
  then have "wrap64 (a + w) = a + w" using assms by (intro wrap64_id) auto
  then show ?thesis using True by (auto simp: id_at_def)
next
  case False
  then show ?thesis by (simp add: id_at_def)
qed

lemma id_at_in:
  assumes "store_inv s" "0 < a" "0 \<le> w" "a + w \<le> st_used s"
  shows "id_at s a w = Inr (nat a)"
  using store_invD(5) [OF assms(1)] assms by (simp add: id_at_iff)

lemma span_inside:
  assumes "store_inv s" "0 < a" "a + int w \<le> st_used s" "0 < w"
  shows "nat a + w \<le> length (st_bytes s)"
proof -
  have "1 < st_used s" using assms by linarith
  then have "st_used s \<le> st_cap s" using store_invD(2) [OF assms(1)] by (auto simp: max_def split: if_splits)
  then show ?thesis using assms by (simp add: st_cap_def)
qed

lemma nth_blit:
  "i + length src \<le> length d \<Longrightarrow> j < length d \<Longrightarrow>
     blit i src d ! j = (if i \<le> j \<and> j < i + length src then src ! (j - i) else d ! j)"
  by (auto simp: blit_def nth_append)

lemma blit_nil [simp]: "blit i [] d = d"
  by (simp add: blit_def)

text \<open>Writing inside the allocated part keeps the invariant.\<close>

lemma write_inv:
  assumes "store_inv s" "0 < a" "a + int (length bs) \<le> st_used s"
  shows "store_inv (s\<lparr>st_bytes := blit (nat a) bs (st_bytes s)\<rparr>)"
proof (cases "bs = []")
  case True
  then show ?thesis using assms by simp
next
  case False
  then have l: "nat a + length bs \<le> length (st_bytes s)"
    using span_inside [OF assms] by simp
  have "blit (nat a) bs (st_bytes s) ! i = 0"
    if "st_used s \<le> int i" "i < length (st_bytes s)" for i
  proof -
    have "nat a + length bs \<le> i" using that(1) assms(2,3) by linarith
    moreover have "st_bytes s ! i = 0" using that assms(1) by (simp add: store_inv_def)
    ultimately show ?thesis using that l by (simp add: nth_blit)
  qed
  then show ?thesis using store_invD [OF assms(1)] l
    by (simp add: store_inv_def st_cap_def)
qed

lemma read_blit_same:
  "nat a + length bs \<le> length d \<Longrightarrow> take (length bs) (drop (nat a) (blit (nat a) bs d)) = bs"
  by (simp add: blit_def)

lemma read_blit_other:
  assumes "i + length bs \<le> length d" "j + n \<le> i \<or> i + length bs \<le> j"
  shows "take n (drop j (blit i bs d)) = take n (drop j d)"
proof (rule nth_equalityI)
  show "length (take n (drop j (blit i bs d))) = length (take n (drop j d))" using assms(1) by simp
next
  fix k assume "k < length (take n (drop j (blit i bs d)))"
  then have k: "k < n" "j + k < length d" using assms(1) by auto
  have "\<not> (i \<le> j + k \<and> j + k < i + length bs)" using assms(2) k by linarith
  then show "take n (drop j (blit i bs d)) ! k = take n (drop j d) ! k"
    using k assms(1) by (auto simp: nth_blit)
qed

lemma unat_mod_take_bit: "(of_nat (unat (v :: w64) mod 256 ^ w) :: w64) = take_bit (8 * w) v"
proof -
  have "(256::nat) ^ w = 2 ^ (8 * w)" by (simp add: power_mult)
  then have "unat v mod 256 ^ w = take_bit (8 * w) (unat v)" by (simp add: take_bit_eq_mod)
  also have "\<dots> = unat (take_bit (8 * w) v)" by (simp add: unsigned_take_bit_eq)
  finally show ?thesis by simp
qed

interpretation mem: byte_store store_inv st_used id_peek_n id_poke_n
proof unfold_locales
  fix s a w v assume a: "store_inv s" "0 < a" "a + int w \<le> st_used s"
  then have "id_poke_n s a v w = Inr (s\<lparr>st_bytes := blit (nat a) (le_bytes w (unat v)) (st_bytes s)\<rparr>)"
    by (simp add: id_poke_n_def id_at_in)
  moreover have "store_inv (s\<lparr>st_bytes := blit (nat a) (le_bytes w (unat v)) (st_bytes s)\<rparr>)"
    using a by (intro write_inv) auto
  ultimately show "\<exists>s'. id_poke_n s a v w = Inr s' \<and> store_inv s' \<and> st_used s' = st_used s" by auto
next
  fix s a w v s' assume a: "store_inv s" "0 < a" "a + int w \<le> st_used s" "w \<le> 8"
    "id_poke_n s a v w = Inr s'"
  then have s': "s' = s\<lparr>st_bytes := blit (nat a) (le_bytes w (unat v)) (st_bytes s)\<rparr>"
    by (simp add: id_poke_n_def id_at_in)
  have i: "store_inv s'" unfolding s' using a by (intro write_inv) auto
  have "take w (drop (nat a) (st_bytes s')) = le_bytes w (unat v)"
  proof (cases "w = 0")
    case True
    then show ?thesis by simp
  next
    case False
    then have "nat a + w \<le> length (st_bytes s)" using span_inside a by blast
    then show ?thesis using read_blit_same [of a "le_bytes w (unat v)" "st_bytes s"] by (simp add: s')
  qed
  moreover have "id_at s' a (int w) = Inr (nat a)" using a i by (intro id_at_in) (auto simp: s')
  ultimately show "id_peek_n s' a w = Inr (take_bit (8 * w) v)"
    by (simp add: id_peek_n_def le_value_le_bytes unat_mod_take_bit)
next
  fix s a w v s' b w' assume a: "store_inv s" "0 < a" "a + int w \<le> st_used s"
    "id_poke_n s a v w = Inr s'" "b + int w' \<le> a \<or> a + int w \<le> b" "0 < b" "b + int w' \<le> st_used s"
  then have s': "s' = s\<lparr>st_bytes := blit (nat a) (le_bytes w (unat v)) (st_bytes s)\<rparr>"
    by (simp add: id_poke_n_def id_at_in)
  have i: "store_inv s'" unfolding s' using a by (intro write_inv) auto
  have "take w' (drop (nat b) (st_bytes s')) = take w' (drop (nat b) (st_bytes s))"
  proof (cases "w = 0")
    case True
    then show ?thesis by (simp add: s')
  next
    case False
    then have "nat a + w \<le> length (st_bytes s)" using span_inside a by blast
    moreover have "nat b + w' \<le> nat a \<or> nat a + w \<le> nat b" using a(2,5,6) by linarith
    ultimately show ?thesis
      using read_blit_other [of "nat a" "le_bytes w (unat v)" "st_bytes s" "nat b" w'] by (simp add: s')
  qed
  moreover have "id_at s' b (int w') = Inr (nat b)" "id_at s b (int w') = Inr (nat b)"
    using a i by (auto intro!: id_at_in simp: s')
  ultimately show "id_peek_n s' b w' = id_peek_n s b w'" by (simp add: id_peek_n_def)
qed

section \<open>Allocation\<close>

lemma grow_cap_ok:
  "0 < cap \<Longrightarrow> cap \<le> 2 ^ 45 \<Longrightarrow> grow_cap cap need = Inr c \<Longrightarrow> need \<le> c \<and> cap \<le> c \<and> c \<le> 2 ^ 45"
proof (induction cap need rule: grow_cap.induct)
  case (1 cap need)
  show ?case
  proof (cases "cap < need")
    case True
    with 1 have "cap \<le> 2 ^ 44" "grow_cap (cap * 2) need = Inr c"
      by (auto simp: grow_cap.simps [of cap need] split: if_splits)
    with 1 True show ?thesis by auto
  next
    case False
    with 1 show ?thesis by (auto simp: grow_cap.simps [of cap need])
  qed
qed

lemma grow_cap_total: "0 < cap \<Longrightarrow> need \<le> 2 ^ 44 \<Longrightarrow> \<exists>c. grow_cap cap need = Inr c"
proof (induction cap need rule: grow_cap.induct)
  case (1 cap need)
  then show ?case by (cases "cap < need") (auto simp: grow_cap.simps [of cap need])
qed

lemma align8: "(x + 7) AND NOT 7 = x + (7 :: int) - (x + 7) mod 8"
proof -
  have "(x + 7) AND NOT (mask 3) = push_bit 3 (drop_bit 3 (x + 7))"
    by (rule bit_eqI) (auto simp: bit_and_iff bit_not_iff bit_push_bit_iff bit_drop_bit_eq bit_mask_iff)
  also have "\<dots> = x + 7 - take_bit 3 (x + 7)"
    using bits_ident [of 3 "x + 7"] by simp
  finally show ?thesis by (simp add: mask_eq_exp_minus_1 take_bit_eq_mod)
qed

lemma align8_facts:
  "x \<le> (x + 7) AND NOT (7 :: int)" "(x + 7) AND NOT (7 :: int) \<le> x + 7" "((x + 7) AND NOT (7 :: int)) mod 8 = 0"
  unfolding align8 by presburger+

lemma id_store_grow_ok:
  assumes "store_inv s" "id_store_grow e s need = Inr s'"
  shows "store_inv s' \<and> need \<le> st_cap s' \<and> st_used s' = st_used s
    \<and> (\<exists>n. st_bytes s' = st_bytes s @ replicate n 0)"
proof -
  note i = store_invD [OF assms(1)]
  let ?c = "if st_cap s \<noteq> 0 then st_cap s else 65536"
  from assms(2) obtain c where c: "grow_cap ?c need = Inr c"
    and s': "s' = s\<lparr>st_bytes := st_bytes s @ replicate (nat (c - st_cap s)) 0\<rparr>"
    by (auto simp: id_store_grow_def res_simps)
  have "0 < ?c" "?c \<le> 2 ^ 45" using i by auto
  from grow_cap_ok [OF this c] have g: "need \<le> c" "?c \<le> c" "c \<le> 2 ^ 45" by auto
  then have k: "st_cap s' = c" using i by (auto simp: s' st_cap_def split: if_splits)
  have "store_inv s'" unfolding store_inv_def
  proof (intro conjI allI impI)
    show "1 \<le> st_used s'" using i by (simp add: s')
    show "st_used s' \<le> max 1 (st_cap s')" using i g k by (auto simp: s' max_def split: if_splits)
    show "st_cap s' \<le> 2 ^ 45" using g k by simp
    fix j assume "st_used s' \<le> int j \<and> j < length (st_bytes s')"
    then show "st_bytes s' ! j = 0" using assms(1)
      by (auto simp: s' nth_append store_inv_def)
  qed
  with g k show ?thesis by (auto simp: s')
qed

lemma mem_alloc_facts:
  assumes "store_inv s" "n < 9223372036854775807 - 2 ^ 45 - 7" "id_mem_alloc e s n = Inr (a, s')"
  shows "store_inv s' \<and> a mod 8 = 0 \<and> 0 < a \<and> st_used s \<le> a \<and> a \<le> st_used s + 7 \<and> st_used s' = a + n
     \<and> nat (a + n) \<le> max 1 (length (st_bytes s'))
     \<and> take (length (st_bytes s)) (st_bytes s') = st_bytes s
     \<and> (\<forall>i. a \<le> int i \<and> int i < a + n \<longrightarrow> st_bytes s' ! i = 0)"
proof -
  note i = store_invD [OF assms(1)]
  define base where "base = (st_used s + 7) AND NOT 7"
  have b: "st_used s \<le> base" "base \<le> st_used s + 7" "base mod 8 = 0"
    unfolding base_def by (rule align8_facts)+
  have bd: "(st_used s + 7) AND - 8 = base" by (simp add: base_def)
  from assms(3) have n: "0 \<le> n" by (auto simp: id_mem_alloc_def split: if_splits)
  have w: "wrap64 (base + n) = base + n" using b i n assms(2) by (intro wrap64_id) simp_all
  from assms(3) n w obtain t where
    t: "(if base + n > st_cap s then id_store_grow e s (base + n) else Inr s) = Inr t"
    and a: "a = base" and s': "s' = t\<lparr>st_used := base + n, st_blocks := st_blocks t + 1, st_total := st_total t + n,
       st_hwm := (if base + n > st_hwm t then base + n else st_hwm t)\<rparr>"
    by (auto simp: id_mem_alloc_def Let_def res_simps bd split: if_splits)
  have g: "store_inv t \<and> base + n \<le> st_cap t \<and> (\<exists>k. st_bytes t = st_bytes s @ replicate k 0)"
  proof (cases "base + n > st_cap s")
    case True
    then show ?thesis using t id_store_grow_ok [OF assms(1)] by auto
  next
    case False
    then show ?thesis using t assms(1) by (auto intro: exI [of _ 0])
  qed
  then obtain k where k: "st_bytes t = st_bytes s @ replicate k 0" by blast
  have used: "st_used s \<le> base + n" using b n by linarith
  have z: "st_bytes t ! j = 0" if "st_used s \<le> int j" "j < length (st_bytes t)" for j
    using that assms(1) by (auto simp: k nth_append store_inv_def)
  have "store_inv s'" unfolding store_inv_def
  proof (intro conjI allI impI)
    show "1 \<le> st_used s'" using used i by (simp add: s')
    show "st_used s' \<le> max 1 (st_cap s')"
      using g by (simp add: s' st_cap_def) linarith
    show "st_cap s' \<le> 2 ^ 45" using g by (simp add: s' st_cap_def store_inv_def)
    fix j assume "st_used s' \<le> int j \<and> j < length (st_bytes s')"
    then show "st_bytes s' ! j = 0" using z [of j] used by (simp add: s')
  qed
  moreover have "st_bytes s' ! j = 0" if "a \<le> int j" "int j < a + n" for j
    using z [of j] that g a b by (auto simp: s' st_cap_def)
  moreover have "nat (a + n) \<le> max 1 (length (st_bytes s'))"
    using g a by (simp add: s' st_cap_def max_def) linarith
  ultimately show ?thesis using b i a n k by (auto simp: s')
qed

lemma id_mem_alloc_total:
  assumes "store_inv s" "roomy e" "0 \<le> n" "st_used s + 7 + n \<le> 2 ^ 44"
  shows "\<exists>a s'. id_mem_alloc e s n = Inr (a, s')"
proof -
  note i = store_invD [OF assms(1)]
  define base where "base = (st_used s + 7) AND NOT 7"
  have b: "st_used s \<le> base" "base \<le> st_used s + 7"
    unfolding base_def by (rule align8_facts)+
  have bd: "(st_used s + 7) AND - 8 = base" by (simp add: base_def)
  have w: "wrap64 (base + n) = base + n" using b i assms by (intro wrap64_id) simp_all
  have "\<exists>t. id_store_grow e s (base + n) = Inr t"
  proof -
    have "\<exists>c. grow_cap (if st_cap s \<noteq> 0 then st_cap s else 65536) (base + n) = Inr c"
      using i b assms by (intro grow_cap_total) auto
    then show ?thesis using assms(2) by (auto simp: id_store_grow_def roomy_def)
  qed
  then show ?thesis using w assms(3) by (auto simp: id_mem_alloc_def Let_def bd)
qed

lemma at_span:
  assumes "store_inv s" "0 < a" "0 \<le> n" "a + n \<le> st_used s"
  shows "id_at s a n = Inr (nat a)" "id_store_span s a n = Inr (nat a)"
  using id_at_in [OF assms] assms(3) by (simp_all add: id_store_span_def)

text \<open>What was written at a fresh block is read back there.\<close>

lemma alloc_write:
  assumes "store_inv s" "int (length bs) \<le> n" "n \<le> INT_MAX + 1" "id_mem_alloc e s n = Inr (a, s1)"
    and "s2 = s1\<lparr>st_bytes := blit (nat a) bs (st_bytes s1)\<rparr>"
  shows "store_inv s2 \<and> 0 < a \<and> st_used s \<le> a \<and> st_used s2 = a + n
    \<and> id_at s2 a (int (length bs)) = Inr (nat a)
    \<and> take (length bs) (drop (nat a) (st_bytes s2)) = bs"
proof -
  have f: "store_inv s1" "0 < a" "st_used s \<le> a" "st_used s1 = a + n"
    using mem_alloc_facts [OF assms(1) _ assms(4)] assms(3) by (auto simp: INT_MAX_def)
  have w: "store_inv s2" unfolding assms(5) using f assms(2) by (intro write_inv) auto
  have r: "take (length bs) (drop (nat a) (st_bytes s2)) = bs"
  proof (cases "bs = []")
    case True
    then show ?thesis by simp
  next
    case False
    then have "nat a + length bs \<le> length (st_bytes s1)"
      using span_inside [of s1 a "length bs"] f assms(2) by auto
    then show ?thesis by (simp add: assms(5) read_blit_same)
  qed
  have "id_at s2 a (int (length bs)) = Inr (nat a)"
    using f assms(2) by (intro id_at_in w) (auto simp: assms(5))
  with w f r show ?thesis by (auto simp: assms(5))
qed

section \<open>Properties\<close>

theorem id_mem_alloc_fresh:
  assumes "store_inv s" "roomy e" "0 \<le> n" "st_used s + 7 + n \<le> 2 ^ 44"
  shows "\<exists>a s'. id_mem_alloc e s n = Inr (a, s') \<and> store_inv s'
     \<and> a mod 8 = 0 \<and> 0 < a \<and> st_used s \<le> a \<and> st_used s' = a + n
     \<and> take (length (st_bytes s)) (st_bytes s') = st_bytes s
     \<and> (\<forall>i. a \<le> int i \<and> int i < a + n \<longrightarrow> st_bytes s' ! i = 0)"
proof -
  obtain a s' where m: "id_mem_alloc e s n = Inr (a, s')" using id_mem_alloc_total [OF assms] by blast
  have "n < 9223372036854775807 - 2 ^ 45 - 7" using assms(4) store_invD(1) [OF assms(1)] by simp
  from mem_alloc_facts [OF assms(1) this m] m show ?thesis by (intro exI [of _ a] exI [of _ s']) simp
qed

theorem id_mem_alloc_fresh_witness:
  "\<exists>a s'. id_mem_alloc byte_env store_init 12 = Inr (a, s') \<and> a mod 8 = 0 \<and> st_used s' = a + 12"
  using id_mem_alloc_fresh [OF store_inv_init small_bytes_inv(2), of 12] by (auto simp: store_init_def)

text \<open>An array of fields in a span reads back field by field, and nothing outside it changed.\<close>

text \<open>
  C23: Storing an array of values at a store address and reading it back cell by cell gives
  each value truncated to the width, and no other readable range of the store changes.
\<close>

theorem id_poke_peek_array:
  assumes "store_inv s" "0 < a" "a + int w * int (length vs) \<le> st_used s" "w \<le> 8"
  shows "\<exists>s'. mem.poke_all s a w vs = Inr s' \<and> store_inv s'
     \<and> (\<forall>i < length vs. id_peek_n s' (a + int w * int i) w = Inr (take_bit (8 * w) (vs ! i)))
     \<and> (\<forall>b w'. 0 < b \<and> b + int w' \<le> st_used s
          \<and> (b + int w' \<le> a \<or> a + int w * int (length vs) \<le> b)
          \<longrightarrow> id_peek_n s' b w' = id_peek_n s b w')"
proof -
  from mem.poke_all_runs [OF assms(1-3)] obtain s' where
    s': "mem.poke_all s a w vs = Inr s'" "store_inv s'" and
    o: "\<forall>b w'. 0 < b \<and> b + int w' \<le> st_used s
          \<and> (b + int w' \<le> a \<or> a + int w * int (length vs) \<le> b)
          \<longrightarrow> id_peek_n s' b w' = id_peek_n s b w'" by blast
  have "\<forall>i < length vs. id_peek_n s' (a + int w * int i) w = Inr (take_bit (8 * w) (vs ! i))"
    using mem.peek_poke_all [OF assms s'(1)] by blast
  with s' o show ?thesis by blast
qed

definition small_store :: store where
  "small_store = \<lparr>st_bytes = replicate 32 0, st_used = 32, st_blocks = 1, st_total = 24, st_hwm = 32\<rparr>"

lemma small_store_inv: "store_inv small_store" "st_used small_store = 32"
  by (auto simp: store_inv_def small_store_def st_cap_def)

theorem id_poke_peek_array_witness:
  "\<exists>s'. mem.poke_all small_store 8 2 [1, 65537] = Inr s'
     \<and> (\<forall>i < 2. id_peek_n s' (8 + 2 * int i) 2 = Inr (take_bit 16 ([1, 65537] ! i)))"
  using id_poke_peek_array [OF small_store_inv(1), of 8 2 "[1, 65537]"]
  by (auto simp: small_store_inv numeral_2_eq_2)

text \<open>
  The bounds check, where the sum does not wrap, admits exactly the spans inside the store;
  near the top of the address range the 64-bit sum wraps to a negative number and a span
  outside the store is admitted.
\<close>

text \<open>
  C36: The store address check admits exactly the addresses whose whole range lies in the
  used part, as long as address plus width fits 64 bits; when the sum wraps, it admits the
  access although the range is outside the store.
\<close>

theorem id_at_bounds:
  assumes "store_inv s" "0 \<le> w" "- 9223372036854775808 \<le> a" "a \<le> 9223372036854775807"
    "w \<le> 9223372036854775807"
  shows "(a + w \<le> 9223372036854775807 \<longrightarrow>
           (\<forall>p. id_at s a w = Inr p \<longleftrightarrow> 0 < a \<and> a + w \<le> st_used s \<and> p = nat a))
       \<and> (9223372036854775807 < a + w \<longrightarrow> id_at s a w = Inr (nat a))"
proof (intro conjI impI allI)
  fix p assume "a + w \<le> 9223372036854775807"
  then show "id_at s a w = Inr p \<longleftrightarrow> 0 < a \<and> a + w \<le> st_used s \<and> p = nat a"
    using id_at_iff assms(2) by blast
next
  assume o: "9223372036854775807 < a + w"
  have "wrap64 (a + w) = wrap64 (a + w - 2 ^ 64)" by (simp only: wrap64_period)
  also have "\<dots> = a + w - 2 ^ 64" using o assms by (intro wrap64_id) auto
  finally have "wrap64 (a + w) \<le> - 2" using assms by simp
  moreover have "0 < a" using o assms by linarith
  ultimately show "id_at s a w = Inr (nat a)"
    using store_invD(1) [OF assms(1)] by (simp add: id_at_def)
qed

theorem id_at_bounds_witness:
  "id_at small_store 8 8 = Inr 8 \<and> id_at small_store 9223372036854775807 8 = Inr 9223372036854775807"
  using id_at_bounds [OF small_store_inv(1), of 8 8]
    id_at_bounds [OF small_store_inv(1), of 8 9223372036854775807]
  by (simp add: small_store_inv)

theorem store_string_roundtrip:
  assumes "store_inv s" "roomy e" "CHR 0x00 \<notin> set str" "int (length str) \<le> INT_MAX"
    "st_used s + 8 + int (length str) \<le> 2 ^ 44"
  shows "\<exists>a s'. id_mem_of_str e s str = Inr (a, s') \<and> store_inv s'
     \<and> id_str_of_mem e s' a (int (length str)) = Inr str"
proof -
  let ?n = "int (length str) + 1"
  obtain a s1 where m: "id_mem_alloc e s ?n = Inr (a, s1)"
    using id_mem_alloc_total [OF assms(1,2), of ?n] assms(5) by auto
  define bs where "bs = map byte_of_char str"
  define s2 where "s2 = s1\<lparr>st_bytes := blit (nat a) (bs @ [0]) (st_bytes s1)\<rparr>"
  have w: "store_inv s2" "0 < a" "st_used s2 = a + ?n"
    and r: "take (length (bs @ [0])) (drop (nat a) (st_bytes s2)) = bs @ [0]"
    using alloc_write [OF assms(1) _ _ m s2_def] assms(4) by (auto simp: bs_def)
  have t: "take (length str) (drop (nat a) (st_bytes s2)) = bs"
  proof -
    have "take (length str) (take (length (bs @ [0])) (drop (nat a) (st_bytes s2))) = take (length str) (bs @ [0])"
      by (simp only: r)
    then show ?thesis by (simp add: bs_def)
  qed
  have at: "id_at s2 a (int (length str)) = Inr (nat a)" using w by (intro at_span) auto
  have z: "0 \<notin> set bs" using assms(3) by (auto simp: bs_def) (metis byte_of_char_0)
  have b: "map char_of_byte bs = str" by (simp add: bs_def map_idI)
  have f: "id_str_from e str = Inr str" using assms(2,4) by (intro id_str_from_total) (auto simp: c_limits)
  have "id_str_of_mem e s2 a (int (length str)) = Inr str"
    using at t z b f by (simp add: id_str_of_mem_def Let_def)
  moreover have "id_mem_of_str e s str = Inr (a, s2)"
    using m by (simp add: id_mem_of_str_def s2_def bs_def)
  ultimately show ?thesis using w by blast
qed

theorem store_string_roundtrip_witness:
  "\<exists>a s'. id_mem_of_str byte_env small_store ''id'' = Inr (a, s')
     \<and> id_str_of_mem byte_env s' a 2 = Inr ''id''"
  using store_string_roundtrip [OF small_store_inv(1) small_bytes_inv(2), of "''id''"]
  by (auto simp: small_store_inv INT_MAX_def)

theorem store_bytes_roundtrip:
  assumes "store_inv s" "roomy e" "bytes_inv B" "st_used s + 7 + b_len B \<le> 2 ^ 44"
  shows "\<exists>a s' R. id_memory_of_bytes e s (Some B) = Inr (a, s') \<and> store_inv s'
     \<and> id_bytes_of_memory e s' a (b_len B) = Inr R \<and> bytes_inv R \<and> bytes_abs R = bytes_abs B"
proof -
  note b = bytes_invD [OF assms(3)]
  obtain a s1 where m: "id_mem_alloc e s (b_len B) = Inr (a, s1)"
    using id_mem_alloc_total [OF assms(1,2) b(1) assms(4)] by blast
  define s2 where "s2 = s1\<lparr>st_bytes := blit (nat a) (bytes_abs B) (st_bytes s1)\<rparr>"
  have l: "int (length (bytes_abs B)) = b_len B" using assms(3) b by simp
  have w: "store_inv s2" "id_at s2 a (b_len B) = Inr (nat a)"
    and r: "take (length (bytes_abs B)) (drop (nat a) (st_bytes s2)) = bytes_abs B"
    using alloc_write [OF assms(1) _ _ m s2_def] b l by auto
  obtain R where R: "id_bytes_make e (b_len B) (if b_len B < 8 then 8 else b_len B) = Inr R"
    "bytes_inv R" "b_len R = b_len B"
    using id_bytes_make_ok [OF assms(2) b(1)] b by force
  have t: "take (nat (b_len B)) (drop (nat a) (st_bytes s2)) = bytes_abs B"
    using r assms(3) by simp
  have "id_memory_of_bytes e s (Some B) = Inr (a, s2)"
  proof (cases "b_len B = 0")
    case True
    then have "bytes_abs B = []" by (simp add: bytes_abs_def)
    then show ?thesis using m True by (simp add: id_memory_of_bytes_def with_bytes_def s2_def)
  next
    case False
    then show ?thesis using m b by (simp add: id_memory_of_bytes_def with_bytes_def s2_def bytes_abs_def)
  qed
  moreover have "id_bytes_of_memory e s2 a (b_len B)
      = Inr (put_bytes (blit 0 (bytes_abs B) (b_data R)) R)"
    using w b R t by (simp add: id_bytes_of_memory_def)
  ultimately show ?thesis using w put_prefix [OF R(2), of "bytes_abs B"] R(3) assms(3) by auto
qed

theorem store_bytes_roundtrip_witness:
  "\<exists>a s' R. id_memory_of_bytes byte_env small_store (Some small_bytes) = Inr (a, s')
     \<and> id_bytes_of_memory byte_env s' a 8 = Inr R \<and> bytes_abs R = [1, 2, 3, 4, 5, 6, 7, 8]"
  using store_bytes_roundtrip [OF small_store_inv(1) small_bytes_inv(2,1)]
  by (auto simp: small_store_inv small_bytes_inv) (auto simp: small_bytes_def)

end
