(* ===== verification/Strings.thy ===== *)
theory Strings
  imports StrCore
begin

text \<open>
  The string operations of the runtime: concatenation (also the in-place form used when an
  operand is a temporary), single characters, spans, and reading standard input. A string
  is its bytes; \<open>e\<close> is the allocator. Standard input is a list of bytes, consumed by the
  operation that reads it.
\<close>

section \<open>Concatenation\<close>

definition id_concat :: "'c mem_env \<Rightarrow> string \<Rightarrow> string \<Rightarrow> string res" where
  "id_concat e a b =
     andThen (id_add_check (id_slen a) (id_slen b) ''concat'') (\<lambda>n.
     andThen (id_str_new e n) (\<lambda>_. Inr (a @ b)))"

text \<open>
  \<open>m\<close>'s bit 1: \<open>a\<close>'s block is reallocated and reused; bit 2: \<open>b\<close>'s block is given back (with
  the free guard off), as the second component says.
\<close>

definition id_concat_f :: "'c mem_env \<Rightarrow> string \<Rightarrow> string \<Rightarrow> nat \<Rightarrow> (string \<times> blk list) res" where
  "id_concat_f e a b m =
     andThen (id_add_check (id_slen a) (id_slen b) ''concat'') (\<lambda>n.
     andThen
       (if odd m
        then andThen (id_add_check n (8 + 1) ''concat'') (\<lambda>hb. e_realloc e (id_slen a + 8 + 1) hb)
        else id_str_new e n)
       (\<lambda>_. Inr (a @ b, if odd (m div 2) then [Cells (id_slen b + 8 + 1)] else [])))"

section \<open>Characters and spans\<close>

definition id_len :: "string \<Rightarrow> int" where
  "id_len s = wrap32 (int (id_slen s))"

definition id_character_code_at :: "string \<Rightarrow> int \<Rightarrow> int" where
  "id_character_code_at s i =
     (if i < 0 then - 1
      else if nat i \<ge> id_slen s then - 1
      else int (of_char (s ! nat i)))"

definition id_chr :: "'c mem_env \<Rightarrow> int \<Rightarrow> string res" where
  "id_chr e code =
     (if code mod 256 = 0
      then Inl (Trap_msg ''a NUL byte reached a string (chr(0)): a string cannot hold NUL; use the store (poke8) for binary data'')
      else id_str_from e [char_of (nat (code mod 256))])"

definition id_str_sub :: "'c mem_env \<Rightarrow> string \<Rightarrow> int \<Rightarrow> int \<Rightarrow> string res" where
  "id_str_sub e s i n =
     (if i < 0 \<or> n < 0 \<or> (n > 0 \<and> nat i + nat n > id_slen s) then Inl (Trap_str_span i n (id_slen s))
      else id_str_from e (take (nat n) (drop (if n \<noteq> 0 then nat i else 0) s)))"

section \<open>Standard input\<close>

definition nul_check :: "string \<Rightarrow> string \<Rightarrow> string res" where
  "nul_check what r =
     (if CHR 0x00 \<in> set r
      then Inl (Trap_msg (''a NUL byte reached a string ('' @ what @ ''): use idstd stdio_slurp or stdio_read_mem, or the store (fs_read_mem), for binary data''))
      else Inr r)"

text \<open>One line: the block starts at 64 bytes and doubles; 8 bytes of it hold the count.\<close>

definition grow_block :: "'c mem_env \<Rightarrow> string \<Rightarrow> nat \<Rightarrow> nat \<Rightarrow> nat res" where
  "grow_block e what cap n =
     (if 8 + n + 1 \<ge> cap then
        if cap > SIZE_MAX div 2 then Inl (Trap_alloc_overflow what)
        else andThen (e_realloc e cap (cap * 2)) (\<lambda>_. Inr (cap * 2))
      else Inr cap)"

fun input_loop :: "'c mem_env \<Rightarrow> nat \<Rightarrow> string \<Rightarrow> string \<Rightarrow> (string \<times> nat \<times> string) res" where
  "input_loop e cap acc [] = Inr (acc, cap, [])"
| "input_loop e cap acc (c # inp) =
     (if c = CHR 0x0A then Inr (acc, cap, inp)
      else andThen (grow_block e ''input'' cap (length acc)) (\<lambda>cap.
             input_loop e cap (acc @ [c]) inp))"

definition id_input :: "'c mem_env \<Rightarrow> string \<Rightarrow> (string \<times> string) res" where
  "id_input e inp =
     andThen (e_get e 64) (\<lambda>_.
     andThen (input_loop e 64 [] inp) (\<lambda>(r, cap, rest).
     andThen (e_realloc e cap (8 + length r + 1)) (\<lambda>_.
     andThen (nul_check ''input'' r) (\<lambda>r. Inr (r, rest)))))"

text \<open>All of it: each \<open>fread\<close> fills the room left, and an empty one ends the loop.\<close>

function read_loop :: "'c mem_env \<Rightarrow> nat \<Rightarrow> string \<Rightarrow> string \<Rightarrow> (string \<times> nat) res" where
  "read_loop e cap acc inp =
     andThen (grow_block e ''read_all'' cap (length acc)) (\<lambda>cap.
       let room = cap - 8 - length acc - 1; got = take room inp
       in if got = [] then Inr (acc, cap) else read_loop e cap (acc @ got) (drop room inp))"
  by pat_completeness auto
termination
  by (relation "measure (\<lambda>(e, cap, acc, inp). length inp)") (auto simp: neq_Nil_conv)

declare read_loop.simps [simp del]

definition id_read_all :: "'c mem_env \<Rightarrow> string \<Rightarrow> string res" where
  "id_read_all e inp =
     andThen (e_get e 4096) (\<lambda>_.
     andThen (read_loop e 4096 [] inp) (\<lambda>(r, cap).
     andThen (e_realloc e cap (8 + length r + 1)) (\<lambda>_. nul_check ''read_all'' r)))"

section \<open>Lemmas\<close>

lemma id_concat_ok:
  assumes "roomy e" "length a + length b + 9 \<le> SIZE_MAX"
  shows "id_concat e a b = Inr (a @ b)"
  using assms by (auto simp: id_concat_def id_slen_def id_add_check_def id_str_new_total)

lemma id_concat_result: "id_concat e a b = Inr r \<Longrightarrow> r = a @ b"
  by (auto simp: id_concat_def res_simps)

lemma code_at_range: "id_character_code_at s i = - 1 \<or>
    0 \<le> id_character_code_at s i \<and> id_character_code_at s i \<le> 255"
proof -
  have "int (of_char c) \<le> 255" for c :: char using nat_of_char_less_256 [of c] by linarith
  then show ?thesis by (simp add: id_character_code_at_def)
qed

lemma code_at_in: "0 \<le> i \<Longrightarrow> i < int (length s) \<Longrightarrow> id_character_code_at s i = int (of_char (s ! nat i))"
  by (auto simp: id_character_code_at_def id_slen_def)

lemma code_at_out: "i < 0 \<or> int (length s) \<le> i \<Longrightarrow> id_character_code_at s i = - 1"
  by (auto simp: id_character_code_at_def id_slen_def)

lemma id_str_sub_ok:
  assumes "roomy e" "0 \<le> i" "0 \<le> n" "i + n \<le> int (length s)" "int (length s) \<le> INT_MAX"
  shows "id_str_sub e s i n = Inr (take (nat n) (drop (nat i) s))"
proof -
  have "\<not> (i < 0 \<or> n < 0 \<or> (n > 0 \<and> nat i + nat n > id_slen s))"
    using assms by (auto simp: id_slen_def nat_add_distrib [symmetric])
  moreover have "id_str_from e (take (nat n) (drop (nat i) s)) = Inr (take (nat n) (drop (nat i) s))"
    using assms by (intro id_str_from_total) (auto simp: c_limits min_def)
  moreover have "n = 0 \<Longrightarrow> id_str_from e [] = Inr []"
    using assms(1) by (intro id_str_from_total) (auto simp: c_limits)
  ultimately show ?thesis by (auto simp: id_str_sub_def)
qed

lemma char_of_code [simp]: "char_of (of_char c :: nat) = (c :: char)"
  by simp

lemma grow_block_ok:
  assumes "grow_block e what cap n = Inr cap'"
  shows "cap \<le> cap' \<and> (9 < cap \<longrightarrow> n + 9 \<le> cap \<longrightarrow> n + 9 < cap')"
  using assms by (auto simp: grow_block_def res_simps split: if_splits)

lemma grow_block_total:
  "roomy e \<Longrightarrow> cap \<le> SIZE_MAX div 2 \<Longrightarrow> \<exists>cap'. grow_block e what cap n = Inr cap' \<and> cap' \<le> max cap (2 * (n + 9))"
  by (auto simp: grow_block_def roomy_def)

lemma input_loop_text:
  "input_loop e cap acc inp = Inr (r, cap', rest) \<Longrightarrow>
     r = acc @ takeWhile (\<lambda>c. c \<noteq> CHR 0x0A) inp \<and> rest = drop 1 (dropWhile (\<lambda>c. c \<noteq> CHR 0x0A) inp)"
  by (induction e cap acc inp rule: input_loop.induct) (auto simp: res_simps split: if_splits)

lemma input_loop_total:
  "roomy e \<Longrightarrow> cap \<le> SIZE_MAX div 2 \<Longrightarrow> 2 * (length acc + length inp + 9) \<le> SIZE_MAX div 2 \<Longrightarrow>
     \<exists>res. input_loop e cap acc inp = Inr res"
proof (induction e cap acc inp rule: input_loop.induct)
  case (1 e cap acc)
  then show ?case by simp
next
  case (2 e cap acc c inp)
  show ?case
  proof (cases "c = CHR 0x0A")
    case True
    then show ?thesis by simp
  next
    case False
    obtain cap' where g: "grow_block e ''input'' cap (length acc) = Inr cap'"
      "cap' \<le> max cap (2 * (length acc + 9))"
      using grow_block_total [OF 2(2,3)] by blast
    then have "cap' \<le> SIZE_MAX div 2" using 2(3,4) by auto
    then show ?thesis using 2 False g by simp
  qed
qed

text \<open>Reading the whole input: the block only ever grows ahead of what is in it.\<close>

lemma read_loop_text:
  "read_loop e cap acc inp = Inr (r, cap') \<Longrightarrow> 9 < cap \<Longrightarrow> length acc + 9 \<le> cap \<Longrightarrow> r = acc @ inp"
proof (induction e cap acc inp rule: read_loop.induct)
  case (1 e cap acc inp)
  from 1(2) obtain c where g: "grow_block e ''read_all'' cap (length acc) = Inr c"
    by (auto simp: read_loop.simps [of e cap acc inp] res_simps)
  from grow_block_ok [OF g] 1(3,4) have c: "9 < c" "length acc + 9 < c" by auto
  let ?room = "c - 8 - length acc - 1"
  have room: "0 < ?room" using c by simp
  show ?case
  proof (cases "take ?room inp = []")
    case True
    then have i: "inp = []" using room by auto
    then have "read_loop e cap acc [] = Inr (acc, c)"
      using g by (simp add: read_loop.simps [of e cap acc "[]"])
    then show ?thesis using 1(2) i by simp
  next
    case False
    then have r: "read_loop e c (acc @ take ?room inp) (drop ?room inp) = Inr (r, cap')"
      using 1(2) g by (simp add: read_loop.simps [of e cap acc inp] Let_def)
    have "length (acc @ take ?room inp) + 9 \<le> c" using c by (simp add: min_def) linarith
    from 1(1) [OF g refl refl False r c(1) this] show ?thesis by simp
  qed
qed

lemma read_loop_total:
  "roomy e \<Longrightarrow> cap \<le> SIZE_MAX div 2 \<Longrightarrow> 2 * (length acc + length inp + 9) \<le> SIZE_MAX div 2 \<Longrightarrow>
     \<exists>res. read_loop e cap acc inp = Inr res"
proof (induction e cap acc inp rule: read_loop.induct)
  case (1 e cap acc inp)
  obtain c where g: "grow_block e ''read_all'' cap (length acc) = Inr c"
    "c \<le> max cap (2 * (length acc + 9))"
    using grow_block_total [OF 1(2,3)] by blast
  then have c: "c \<le> SIZE_MAX div 2" using 1(3,4) by auto
  let ?room = "c - 8 - length acc - 1"
  show ?case
  proof (cases "take ?room inp = []")
    case True
    then show ?thesis using g by (auto simp: read_loop.simps [of e cap acc inp] Let_def)
  next
    case False
    have "length (acc @ take ?room inp) + length (drop ?room inp) = length acc + length inp"
      by (simp add: min_def)
    then have "2 * (length (acc @ take ?room inp) + length (drop ?room inp) + 9) \<le> SIZE_MAX div 2"
      using 1(4) by presburger
    from 1(1) [OF g(1) refl refl False 1(2) c this] False g show ?thesis
      by (simp add: read_loop.simps [of e cap acc inp] Let_def)
  qed
qed

section \<open>Properties\<close>

theorem id_concat_in_place:
  assumes "roomy e" "length a + length b + 9 \<le> SIZE_MAX"
  shows "id_concat e a b = Inr (a @ b)
     \<and> (\<exists>fr. id_concat_f e a b m = Inr (a @ b, fr)
          \<and> (fr = [] \<longleftrightarrow> \<not> odd (m div 2)) \<and> (\<forall>x \<in> set fr. x = Cells (length b + 9)))"
proof -
  have "id_add_check (length a + length b) 9 ''concat'' = Inr (length a + length b + 9)"
    "id_add_check (length a) (length b) ''concat'' = Inr (length a + length b)"
    using assms by (auto simp: id_add_check_def)
  then show ?thesis using assms id_str_new_total [of e "length a + length b"]
    by (auto simp: id_concat_ok id_concat_f_def id_slen_def roomy_def)
qed

definition str_env :: "w8 mem_env" where
  "str_env = \<lparr>e_get = (\<lambda>_. Inr ()), e_realloc = (\<lambda>_ _. Inr ()), e_junk = (\<lambda>_. 0)\<rparr>"

lemma str_env_roomy [simp]: "roomy str_env"
  by (simp add: roomy_def str_env_def)

theorem id_concat_in_place_witness:
  "id_concat str_env ''ab'' ''c'' = Inr ''abc'' \<and> (\<exists>fr. id_concat_f str_env ''ab'' ''c'' 3 = Inr (''abc'', fr))"
  using id_concat_in_place [OF str_env_roomy, of "''ab''" "''c''" 3] by (auto simp: SIZE_MAX_def)

theorem id_str_sub_concat:
  assumes "roomy e" "0 \<le> k" "k \<le> int (length s)" "int (length s) \<le> INT_MAX"
  shows "\<exists>a b. id_str_sub e s 0 k = Inr a \<and> id_str_sub e s k (int (length s) - k) = Inr b
     \<and> id_concat e a b = Inr s
     \<and> (\<forall>j. id_character_code_at s j =
           (if j < k then id_character_code_at a j else id_character_code_at b (j - k)))"
proof -
  let ?k = "nat k"
  have k: "?k \<le> length s" "int ?k = k" using assms by auto
  have a: "id_str_sub e s 0 k = Inr (take ?k s)"
    using id_str_sub_ok [OF assms(1), of 0 k s] assms by simp
  have b: "id_str_sub e s k (int (length s) - k) = Inr (drop ?k s)"
    using id_str_sub_ok [OF assms(1,2), of "int (length s) - k" s] assms by (simp add: nat_diff_distrib)
  have "id_concat e (take ?k s) (drop ?k s) = Inr (take ?k s @ drop ?k s)"
    using assms by (intro id_concat_ok) (auto simp: c_limits)
  moreover have "id_character_code_at s j =
      (if j < k then id_character_code_at (take ?k s) j else id_character_code_at (drop ?k s) (j - k))" for j
    using k assms(2) by (auto simp: id_character_code_at_def id_slen_def nat_diff_distrib nth_drop
        add.commute nat_less_iff)
  ultimately show ?thesis using a b by auto
qed

theorem id_str_sub_concat_witness:
  "\<exists>a b. id_str_sub str_env ''lexer'' 0 3 = Inr a \<and> id_str_sub str_env ''lexer'' 3 2 = Inr b
     \<and> id_concat str_env a b = Inr ''lexer''"
  using id_str_sub_concat [OF str_env_roomy, of 3 "''lexer''"] by (auto simp: INT_MAX_def)

theorem id_chr_code_at:
  assumes "roomy e"
  shows "(code mod 256 \<noteq> 0 \<longrightarrow>
            (\<exists>s. id_chr e code = Inr s \<and> id_character_code_at s 0 = code mod 256))
       \<and> (code mod 256 = 0 \<longrightarrow> (\<exists>m. id_chr e code = Inl (Trap_msg m)))"
proof -
  let ?c = "char_of (nat (code mod 256)) :: char"
  have "int (of_char ?c) = code mod 256" by (simp add: nat_mod_distrib)
  moreover have "id_str_from e [?c] = Inr [?c]"
    using assms by (intro id_str_from_total) (auto simp: SIZE_MAX_def)
  ultimately show ?thesis by (auto simp: id_chr_def id_character_code_at_def id_slen_def)
qed

theorem id_chr_code_at_witness:
  "\<exists>s. id_chr str_env 321 = Inr s \<and> id_character_code_at s 0 = 65"
  using id_chr_code_at [OF str_env_roomy, of 321] by auto

theorem id_input_line:
  assumes "roomy e" "2 * (length inp + 9) \<le> SIZE_MAX div 2" "CHR 0x00 \<notin> set inp"
  shows "\<exists>l rest. id_input e inp = Inr (l, rest)
     \<and> CHR 0x0A \<notin> set l \<and> (inp = l \<and> rest = [] \<or> inp = l @ CHR 0x0A # rest)"
proof -
  let ?p = "\<lambda>c. c \<noteq> CHR 0x0A"
  have "(64::nat) \<le> SIZE_MAX div 2" by (simp add: SIZE_MAX_def)
  then obtain r cap rest where l: "input_loop e 64 [] inp = Inr (r, cap, rest)"
    using input_loop_total [OF assms(1), of 64 "[]" inp] assms(2) by auto
  from input_loop_text [OF l] have r: "r = takeWhile ?p inp" "rest = drop 1 (dropWhile ?p inp)" by auto
  have z: "CHR 0x00 \<notin> set r" using assms(3) r set_takeWhileD by metis
  have n: "CHR 0x0A \<notin> set r" using r set_takeWhileD by metis
  have "inp = r \<and> rest = [] \<or> inp = r @ CHR 0x0A # rest"
  proof (cases "dropWhile ?p inp")
    case Nil
    then have "takeWhile ?p inp = inp" using takeWhile_dropWhile_id [of ?p inp] by auto
    with r Nil have "inp = r" "rest = []" by auto
    then show ?thesis by blast
  next
    case (Cons c cs)
    then have "c = CHR 0x0A" using hd_dropWhile [of ?p inp] by auto
    then show ?thesis using r Cons takeWhile_dropWhile_id [of ?p inp] by simp
  qed
  moreover have "id_input e inp = Inr (r, rest)"
    using assms(1) l z by (simp add: id_input_def roomy_def nul_check_def)
  ultimately show ?thesis using n by blast
qed

theorem id_input_line_witness:
  "\<exists>l rest. id_input str_env (''ab'' @ [CHR 0x0A] @ ''c'') = Inr (l, rest) \<and> CHR 0x0A \<notin> set l"
  using id_input_line [OF str_env_roomy, of "''ab'' @ [CHR 0x0A] @ ''c''"] by (auto simp: SIZE_MAX_def)

lemma read_loop_all:
  assumes "roomy e" "2 * (length inp + 9) \<le> SIZE_MAX div 2"
  shows "\<exists>cap. read_loop e 4096 [] inp = Inr (inp, cap)"
proof -
  have "(4096::nat) \<le> SIZE_MAX div 2" by (simp add: SIZE_MAX_def)
  then obtain r cap where l: "read_loop e 4096 [] inp = Inr (r, cap)"
    using read_loop_total [OF assms(1), of 4096 "[]" inp] assms(2) by auto
  with read_loop_text [OF l] show ?thesis by simp
qed

theorem id_read_all_is_input:
  assumes "roomy e" "2 * (length inp + 9) \<le> SIZE_MAX div 2"
  shows "id_read_all e inp = nul_check ''read_all'' inp"
  using read_loop_all [OF assms] assms(1) by (auto simp: id_read_all_def roomy_def)

theorem id_read_all_is_input_witness:
  "id_read_all str_env ''x = 1'' = Inr ''x = 1''"
  using id_read_all_is_input [OF str_env_roomy, of "''x = 1''"] by (simp add: SIZE_MAX_def nul_check_def)

end
