(* ===== verification/Channels.thy ===== *)
theory Channels
  imports Prelude
begin

text \<open>
  Channels and threads. A channel is a ring buffer of \<open>cap\<close> cells in a table of 256; handle
  \<open>2 * i\<close> is its receiving end and \<open>2 * i + 1\<close> its sending end. Each operation runs under
  the channel's lock, so it is one step on the table; where the code waits on a condition
  variable the operation has no step yet, which is the result None. Threads live in a table
  of their own.
\<close>

record chan =
  c_q :: "int list"
  c_head :: nat
  c_count :: nat
  c_cap :: nat
  c_sopen :: bool
  c_ropen :: bool
  c_taken :: bool
  c_used :: bool

type_synonym chans = "nat \<Rightarrow> chan"

definition no_chan :: chan where
  "no_chan = \<lparr>c_q = [], c_head = 0, c_count = 0, c_cap = 0, c_sopen = False, c_ropen = False,
     c_taken = False, c_used = False\<rparr>"

section \<open>The operations\<close>

definition id_chan_of :: "chans \<Rightarrow> int \<Rightarrow> nat res" where
  "id_chan_of T h =
     (if h < 2 \<or> h div 2 \<ge> 256 \<or> \<not> c_used (T (nat (h div 2)))
      then Inl (Trap_msg ''chan: not an open channel end'') else Inr (nat (h div 2)))"

text \<open>The first free slot from \<open>i\<close>, or 256.\<close>

function free_slot :: "(nat \<Rightarrow> bool) \<Rightarrow> nat \<Rightarrow> nat" where
  "free_slot used i = (if i < 256 \<and> used i then free_slot used (i + 1) else i)"
  by pat_completeness auto
termination by (relation "measure (\<lambda>(used, i). 256 - i)") auto

declare free_slot.simps [simp del]

definition id_chan_new :: "bool \<Rightarrow> chans \<Rightarrow> int \<Rightarrow> (int \<times> chans) res" where
  "id_chan_new mem T cap =
     (if cap < 1 then Inl (Trap_msg ''chan_new: capacity must be at least 1'')
      else
        let i = free_slot (\<lambda>i. c_used (T i)) 1
        in if i = 256 then Inl (Trap_msg ''chan_new: too many open channels'')
           else if \<not> mem then Inl (Trap_msg ''out of memory (channel)'')
           else Inr (int i * 2,
                     T(i := \<lparr>c_q = replicate (nat cap) 0, c_head = 0, c_count = 0, c_cap = nat cap,
                             c_sopen = True, c_ropen = True, c_taken = False, c_used = True\<rparr>)))"

definition id_chan_sender :: "chans \<Rightarrow> int \<Rightarrow> (int \<times> chans) res" where
  "id_chan_sender T rx =
     andThen (id_chan_of T rx) (\<lambda>i.
       if c_taken (T i)
       then Inl (Trap_msg ''this channel already has a sender (a channel has one sender; make a second channel)'')
       else Inr (rx + 1, T(i := (T i)\<lparr>c_taken := True\<rparr>)))"

definition ring_put :: "int \<Rightarrow> chan \<Rightarrow> chan" where
  "ring_put v c =
     c\<lparr>c_q := (c_q c)[(c_head c + c_count c) mod c_cap c := v], c_count := c_count c + 1\<rparr>"

definition ring_take :: "chan \<Rightarrow> int \<times> chan" where
  "ring_take c =
     (c_q c ! c_head c, c\<lparr>c_head := (c_head c + 1) mod c_cap c, c_count := c_count c - 1\<rparr>)"

definition id_chan_send :: "chans \<Rightarrow> int \<Rightarrow> int \<Rightarrow> (bool \<times> chans) res option" where
  "id_chan_send T tx v =
     (case id_chan_of T tx of Inl t \<Rightarrow> Some (Inl t)
      | Inr i \<Rightarrow>
          let c = T i
          in if c_count c = c_cap c \<and> c_ropen c then None
             else if c_ropen c then Some (Inr (True, T(i := ring_put v c)))
             else Some (Inr (False, T)))"

definition id_chan_wait :: "chans \<Rightarrow> int \<Rightarrow> bool res option" where
  "id_chan_wait T rx =
     (case id_chan_of T rx of Inl t \<Rightarrow> Some (Inl t)
      | Inr i \<Rightarrow>
          let c = T i
          in if c_count c = 0 \<and> c_sopen c then None else Some (Inr (c_count c > 0)))"

definition id_chan_take :: "chans \<Rightarrow> int \<Rightarrow> (int \<times> chans) res" where
  "id_chan_take T rx =
     andThen (id_chan_of T rx) (\<lambda>i.
       if c_count (T i) = 0
       then Inl (Trap_msg ''chan_take on an empty channel: call chan_wait first and take only when it returns 1'')
       else let (v, c) = ring_take (T i) in Inr (v, T(i := c)))"

definition id_chan_close :: "chans \<Rightarrow> int \<Rightarrow> chans res" where
  "id_chan_close T h =
     andThen (id_chan_of T h) (\<lambda>i.
       let c = (if odd h then (T i)\<lparr>c_sopen := False\<rparr> else (T i)\<lparr>c_ropen := False\<rparr>)
       in if c_sopen c \<or> c_ropen c then Inr (T(i := c))
          else Inr (T(i := c\<lparr>c_q := [], c_used := False\<rparr>)))"

section \<open>Threads\<close>

text \<open>\<open>t_done\<close> is what \<open>pthread_join\<close> waits for: the thread's function has returned.\<close>

record thr =
  t_f :: "int \<Rightarrow> int"
  t_arg :: int
  t_res :: int
  t_used :: bool
  t_done :: bool

definition id_thr_spawn :: "bool \<Rightarrow> (nat \<Rightarrow> thr) \<Rightarrow> (int \<Rightarrow> int) \<Rightarrow> int \<Rightarrow> (int \<times> (nat \<Rightarrow> thr)) res" where
  "id_thr_spawn created T f arg =
     (let i = free_slot (\<lambda>i. t_used (T i)) 1
      in if i = 256 then Inl (Trap_msg ''thr_spawn: too many running threads'')
         else if \<not> created then Inl (Trap_msg ''thr_spawn: cannot start a thread'')
         else Inr (int i, T(i := (T i)\<lparr>t_used := True, t_f := f, t_arg := arg, t_done := False\<rparr>)))"

definition id_thr_main :: "(nat \<Rightarrow> thr) \<Rightarrow> nat \<Rightarrow> (nat \<Rightarrow> thr)" where
  "id_thr_main T i = T(i := (T i)\<lparr>t_res := t_f (T i) (t_arg (T i)), t_done := True\<rparr>)"

definition id_thr_join :: "(nat \<Rightarrow> thr) \<Rightarrow> int \<Rightarrow> (int \<times> (nat \<Rightarrow> thr)) res option" where
  "id_thr_join T h =
     (if h < 1 \<or> h \<ge> 256 \<or> \<not> t_used (T (nat h))
      then Some (Inl (Trap_msg ''thr_join: not a running thread''))
      else if \<not> t_done (T (nat h)) then None
      else Some (Inr (t_res (T (nat h)), T(nat h := (T (nat h))\<lparr>t_used := False\<rparr>))))"

section \<open>The contract of a bounded queue\<close>

locale bounded_queue =
  fixes inv :: "'s \<Rightarrow> bool"
    and abs :: "'s \<Rightarrow> 'a list"
    and bound :: "'s \<Rightarrow> nat"
    and put :: "'a \<Rightarrow> 's \<Rightarrow> 's"
    and take_one :: "'s \<Rightarrow> 'a \<times> 's"
  assumes bounded: "inv s \<Longrightarrow> length (abs s) \<le> bound s"
    and put_last: "inv s \<Longrightarrow> length (abs s) < bound s \<Longrightarrow>
      inv (put v s) \<and> abs (put v s) = abs s @ [v] \<and> bound (put v s) = bound s"
    and take_first: "inv s \<Longrightarrow> abs s \<noteq> [] \<Longrightarrow>
      fst (take_one s) = hd (abs s) \<and> inv (snd (take_one s)) \<and> abs (snd (take_one s)) = tl (abs s)
      \<and> bound (snd (take_one s)) = bound s"
begin

text \<open>A put followed by as many takes as were waiting hands over the value put.\<close>

fun take_n :: "nat \<Rightarrow> 's \<Rightarrow> 'a list \<times> 's" where
  "take_n 0 s = ([], s)"
| "take_n (Suc n) s = (let (v, s1) = take_one s; (vs, s2) = take_n n s1 in (v # vs, s2))"

lemma take_n_abs:
  "inv s \<Longrightarrow> n \<le> length (abs s) \<Longrightarrow>
     fst (take_n n s) = take n (abs s) \<and> inv (snd (take_n n s)) \<and> abs (snd (take_n n s)) = drop n (abs s)"
proof (induction n arbitrary: s)
  case 0
  then show ?case by simp
next
  case (Suc n)
  then have ne: "abs s \<noteq> []" by auto
  from take_first [OF Suc.prems(1) ne]
  have t: "fst (take_one s) = hd (abs s)" "inv (snd (take_one s))" "abs (snd (take_one s)) = tl (abs s)"
    by auto
  have "n \<le> length (abs (snd (take_one s)))" using Suc.prems t by simp
  from Suc.IH [OF t(2) this] t ne show ?case
    by (cases "abs s") (auto simp: Let_def split: prod.splits)
qed

lemma put_then_drain:
  assumes "inv s" "length (abs s) < bound s"
  shows "fst (take_n (Suc (length (abs s))) (put v s)) = abs s @ [v]"
proof -
  from put_last [OF assms, of v] have p: "inv (put v s)" "abs (put v s) = abs s @ [v]" by auto
  have "Suc (length (abs s)) \<le> length (abs (put v s))" by (simp add: p(2))
  from take_n_abs [OF p(1) this] show ?thesis by (simp add: p(2))
qed

end

section \<open>The ring buffer is a bounded queue\<close>

definition chan_inv :: "chan \<Rightarrow> bool" where
  "chan_inv c \<longleftrightarrow> (c_used c \<longrightarrow> 0 < c_cap c \<and> c_head c < c_cap c \<and> c_count c \<le> c_cap c
     \<and> length (c_q c) = c_cap c)"

definition chan_abs :: "chan \<Rightarrow> int list" where
  "chan_abs c = map (\<lambda>k. c_q c ! ((c_head c + k) mod c_cap c)) [0..<c_count c]"

definition open_chan :: "chan \<Rightarrow> bool" where
  "open_chan c \<longleftrightarrow> chan_inv c \<and> c_used c"

lemma open_chanD:
  "open_chan c \<Longrightarrow> 0 < c_cap c \<and> c_head c < c_cap c \<and> c_count c \<le> c_cap c \<and> length (c_q c) = c_cap c"
  by (simp add: open_chan_def chan_inv_def)

lemma ring_slot_inj:
  fixes h j k n :: nat
  assumes "j < n" "k < n" "(h + j) mod n = (h + k) mod n"
  shows "j = k"
proof -
  have "(int h + int j) mod int n = (int h + int k) mod int n"
    using assms(3) by (metis of_nat_add of_nat_mod)
  then have "(int h + int j - (int h + int k)) mod int n = 0" by (simp add: mod_eq_dvd_iff)
  then have "int n dvd int j - int k" by (simp add: mod_eq_0_iff_dvd)
  moreover have "\<bar>int j - int k\<bar> < int n" using assms by linarith
  ultimately have "int j - int k = 0" using dvd_imp_le_int [of "int j - int k" "int n"] by fastforce
  then show ?thesis by simp
qed

interpretation ring: bounded_queue open_chan chan_abs c_cap ring_put ring_take
proof unfold_locales
  fix c assume "open_chan c"
  then show "length (chan_abs c) \<le> c_cap c" using open_chanD by (simp add: chan_abs_def)
next
  fix c v assume o: "open_chan c" and l: "length (chan_abs c) < c_cap c"
  note d = open_chanD [OF o]
  have n: "c_count c < c_cap c" using l by (simp add: chan_abs_def)
  have "chan_abs (ring_put v c) = chan_abs c @ [v]"
  proof -
    have "(c_q c)[(c_head c + c_count c) mod c_cap c := v] ! ((c_head c + k) mod c_cap c)
        = c_q c ! ((c_head c + k) mod c_cap c)" if "k < c_count c" for k
      using ring_slot_inj [of k "c_cap c" "c_count c" "c_head c"] that n by (intro nth_list_update_neq) auto
    then show ?thesis using d n by (simp add: chan_abs_def ring_put_def)
  qed
  moreover have "open_chan (ring_put v c)"
    using o n d by (simp add: open_chan_def chan_inv_def ring_put_def)
  ultimately show "open_chan (ring_put v c) \<and> chan_abs (ring_put v c) = chan_abs c @ [v]
      \<and> c_cap (ring_put v c) = c_cap c"
    by (simp add: ring_put_def)
next
  fix c assume o: "open_chan c" and ne: "chan_abs c \<noteq> []"
  note d = open_chanD [OF o]
  from ne obtain m where m: "c_count c = Suc m" by (cases "c_count c") (auto simp: chan_abs_def)
  have "hd (chan_abs c) = c_q c ! c_head c" using d m by (simp add: chan_abs_def upt_conv_Cons del: upt_Suc)
  moreover have "chan_abs (snd (ring_take c)) = tl (chan_abs c)"
  proof -
    have "((c_head c + 1) mod c_cap c + k) mod c_cap c = (c_head c + Suc k) mod c_cap c" for k
      by (simp add: mod_simps)
    then have "chan_abs (snd (ring_take c)) = map (\<lambda>k. c_q c ! ((c_head c + Suc k) mod c_cap c)) [0..<m]"
      using m by (simp add: chan_abs_def ring_take_def)
    moreover have "tl (chan_abs c) = map (\<lambda>k. c_q c ! ((c_head c + k) mod c_cap c)) (map Suc [0..<m])"
      using m by (simp add: chan_abs_def upt_conv_Cons map_Suc_upt flip: map_tl del: upt_Suc map_map)
    ultimately show ?thesis by simp
  qed
  moreover have "open_chan (snd (ring_take c))"
    using o m d by (auto simp: open_chan_def chan_inv_def ring_take_def)
  ultimately show "fst (ring_take c) = hd (chan_abs c) \<and> open_chan (snd (ring_take c))
      \<and> chan_abs (snd (ring_take c)) = tl (chan_abs c) \<and> c_cap (snd (ring_take c)) = c_cap c"
    by (simp add: ring_take_def)
qed

section \<open>The system: threads using the channels\<close>

text \<open>
  One step is one API call that returned; the label records which. A call that would wait
  or trap is no step.
\<close>

datatype chan_event =
    New int | Sender int | Send int int bool | Ready int bool | Take int int | Close int

inductive chan_step :: "chans \<Rightarrow> chan_event \<Rightarrow> chans \<Rightarrow> bool" where
  step_new: "id_chan_new True T cap = Inr (h, T') \<Longrightarrow> chan_step T (New h) T'"
| step_sender: "id_chan_sender T rx = Inr (h, T') \<Longrightarrow> chan_step T (Sender h) T'"
| step_send: "id_chan_send T tx v = Some (Inr (ok, T')) \<Longrightarrow> chan_step T (Send tx v ok) T'"
| step_wait: "id_chan_wait T rx = Some (Inr ok) \<Longrightarrow> chan_step T (Ready rx ok) T"
| step_take: "id_chan_take T rx = Inr (v, T') \<Longrightarrow> chan_step T (Take rx v) T'"
| step_close: "id_chan_close T h = Inr T' \<Longrightarrow> chan_step T (Close h) T'"

inductive_cases chan_stepE: "chan_step T ev T'"

inductive chan_run :: "chans \<Rightarrow> chan_event list \<Rightarrow> chans \<Rightarrow> bool" where
  run_nil: "chan_run T [] T"
| run_step: "chan_step T ev T1 \<Longrightarrow> chan_run T1 evs T2 \<Longrightarrow> chan_run T (ev # evs) T2"

inductive_simps chan_run_simps: "chan_run T [] T'" "chan_run T (ev # evs) T'"

definition chans_inv :: "chans \<Rightarrow> bool" where
  "chans_inv T \<longleftrightarrow> (\<forall>i. chan_inv (T i))"

text \<open>What a history put into and took out of channel \<open>i\<close>, and whether it closed it.\<close>

fun sent :: "nat \<Rightarrow> chan_event list \<Rightarrow> int list" where
  "sent i [] = []"
| "sent i (Send h v True # evs) = (if nat (h div 2) = i then v # sent i evs else sent i evs)"
| "sent i (_ # evs) = sent i evs"

fun taken :: "nat \<Rightarrow> chan_event list \<Rightarrow> int list" where
  "taken i [] = []"
| "taken i (Take h v # evs) = (if nat (h div 2) = i then v # taken i evs else taken i evs)"
| "taken i (_ # evs) = taken i evs"

fun closes :: "nat \<Rightarrow> chan_event \<Rightarrow> bool" where
  "closes i (Close h) = (nat (h div 2) = i)"
| "closes i _ = False"

lemma id_chan_of_Inr: "id_chan_of T h = Inr i \<Longrightarrow> c_used (T i) \<and> i = nat (h div 2) \<and> 0 < i \<and> i < 256"
  by (auto simp: id_chan_of_def split: if_splits)

lemma free_slot_ok: "free_slot used i = j \<Longrightarrow> i \<le> 256 \<Longrightarrow> i \<le> j \<and> j \<le> 256 \<and> (j < 256 \<longrightarrow> \<not> used j)"
proof (induction used i rule: free_slot.induct)
  case (1 used i)
  show ?case
  proof (cases "i < 256 \<and> used i")
    case True
    then show ?thesis using 1 by (auto simp: free_slot.simps [of used i])
  next
    case False
    then have "free_slot used i = i" by (subst free_slot.simps) auto
    then have "j = i" using 1(2) by simp
    then show ?thesis using False 1(3) by auto
  qed
qed

text \<open>What a call that returned says about the table before and after it.\<close>

lemma newD:
  assumes "id_chan_new True T cap = Inr (h, T')"
  obtains j c where "\<not> c_used (T j)" "0 < j" "j < 256" "h = 2 * int j" "T' = T(j := c)" "chan_inv c" "c_used c"
    "\<not> c_taken c"
proof -
  let ?j = "free_slot (\<lambda>i. c_used (T i)) 1"
  have "1 \<le> ?j \<and> ?j \<le> 256 \<and> (?j < 256 \<longrightarrow> \<not> c_used (T ?j))"
    using free_slot_ok [of "\<lambda>i. c_used (T i)" 1 ?j] by simp
  with assms show thesis
    by (intro that [of ?j "\<lparr>c_q = replicate (nat cap) 0, c_head = 0, c_count = 0, c_cap = nat cap,
          c_sopen = True, c_ropen = True, c_taken = False, c_used = True\<rparr>"])
       (auto simp: id_chan_new_def Let_def chan_inv_def split: if_splits)
qed

lemma senderD:
  assumes "id_chan_sender T rx = Inr (h, T')"
  obtains j where "c_used (T j)" "j = nat (rx div 2)" "2 \<le> rx" "\<not> c_taken (T j)" "h = rx + 1"
    "T' = T(j := (T j)\<lparr>c_taken := True\<rparr>)"
proof -
  from assms obtain j where "id_chan_of T rx = Inr j" by (auto simp: id_chan_sender_def res_simps)
  with assms show thesis
    by (intro that [of j]) (auto simp: id_chan_sender_def id_chan_of_def split: if_splits)
qed

lemma sendD:
  assumes "id_chan_send T tx v = Some (Inr (ok, T'))"
  obtains j where "c_used (T j)" "j = nat (tx div 2)"
    "ok \<longrightarrow> T' = T(j := ring_put v (T j)) \<and> c_count (T j) \<noteq> c_cap (T j)" "\<not> ok \<longrightarrow> T' = T"
proof -
  from assms obtain j where j: "id_chan_of T tx = Inr j" by (auto simp: id_chan_send_def split: sum.splits)
  with assms show thesis using id_chan_of_Inr [OF j]
    by (intro that [of j]) (auto simp: id_chan_send_def Let_def split: if_splits)
qed

lemma takeD:
  assumes "id_chan_take T rx = Inr (v, T')"
  obtains j where "c_used (T j)" "j = nat (rx div 2)" "chan_abs (T j) \<noteq> []"
    "v = fst (ring_take (T j))" "T' = T(j := snd (ring_take (T j)))"
proof -
  from assms obtain j where j: "id_chan_of T rx = Inr j" by (auto simp: id_chan_take_def res_simps)
  with assms show thesis using id_chan_of_Inr [OF j]
    by (intro that [of j]) (auto simp: id_chan_take_def chan_abs_def split: if_splits prod.splits)
qed

lemma closeD:
  assumes "id_chan_close T h = Inr T'"
  obtains j c where "c_used (T j)" "j = nat (h div 2)" "T' = T(j := c)"
    "c_used c \<and> chan_inv (T j) \<longrightarrow> chan_inv c" "c_taken c = c_taken (T j)"
    "\<not> c_used c \<longrightarrow> \<not> c_sopen c \<and> \<not> c_ropen c"
proof -
  from assms obtain j where j: "id_chan_of T h = Inr j" by (auto simp: id_chan_close_def res_simps)
  let ?c = "if odd h then (T j)\<lparr>c_sopen := False\<rparr> else (T j)\<lparr>c_ropen := False\<rparr>"
  show thesis
  proof (cases "c_sopen ?c \<or> c_ropen ?c")
    case True
    with assms j show thesis using id_chan_of_Inr [OF j]
      by (intro that [of j ?c]) (auto simp: id_chan_close_def Let_def chan_inv_def)
  next
    case False
    with assms j show thesis using id_chan_of_Inr [OF j]
      by (intro that [of j "?c\<lparr>c_q := [], c_used := False\<rparr>"]) (auto simp: id_chan_close_def Let_def)
  qed
qed

lemma unused_inv [simp]: "\<not> c_used c \<Longrightarrow> chan_inv c"
  by (simp add: chan_inv_def)

lemma ring_put_open:
  assumes "chans_inv T" "c_used (T j)" "c_count (T j) \<noteq> c_cap (T j)"
  shows "open_chan (ring_put v (T j)) \<and> chan_abs (ring_put v (T j)) = chan_abs (T j) @ [v]"
proof -
  have o: "open_chan (T j)" using assms by (simp add: open_chan_def chans_inv_def)
  have "length (chan_abs (T j)) < c_cap (T j)" using open_chanD [OF o] assms(3) by (simp add: chan_abs_def)
  from ring.put_last [OF o this] show ?thesis by blast
qed

lemma ring_take_open:
  assumes "chans_inv T" "c_used (T j)" "chan_abs (T j) \<noteq> []"
  shows "open_chan (snd (ring_take (T j))) \<and> fst (ring_take (T j)) # chan_abs (snd (ring_take (T j))) = chan_abs (T j)"
proof -
  have o: "open_chan (T j)" using assms by (simp add: open_chan_def chans_inv_def)
  from ring.take_first [OF o assms(3)] assms(3) show ?thesis by simp
qed

lemma chan_step_inv: "chan_step T ev T' \<Longrightarrow> chans_inv T \<Longrightarrow> chans_inv T'"
proof (induction rule: chan_step.induct)
  case (step_new T cap h T')
  then show ?case by (auto elim!: newD simp: chans_inv_def)
next
  case (step_sender T rx h T')
  then show ?case by (auto elim!: senderD simp: chans_inv_def chan_inv_def)
next
  case (step_send T tx v ok T')
  from step_send.hyps show ?case
    using step_send.prems ring_put_open [OF step_send.prems]
    by (elim sendD) (cases ok, auto simp: chans_inv_def open_chan_def)
next
  case (step_wait T rx ok)
  then show ?case by simp
next
  case (step_take T rx v T')
  from step_take.hyps show ?case
    using step_take.prems ring_take_open [OF step_take.prems]
    by (elim takeD) (auto simp: chans_inv_def open_chan_def)
next
  case (step_close T h T')
  from step_close.hyps obtain j c where c: "T' = T(j := c)" "c_used c \<and> chan_inv (T j) \<longrightarrow> chan_inv c"
    by (rule closeD) blast
  have "chan_inv c" using c(2) step_close.prems by (cases "c_used c") (auto simp: chans_inv_def)
  then show ?case using c(1) step_close.prems by (simp add: chans_inv_def)
qed

lemma chan_run_inv: "chan_run T evs T' \<Longrightarrow> chans_inv T \<Longrightarrow> chans_inv T'"
  by (induction rule: chan_run.induct) (auto intro: chan_step_inv)

text \<open>One step's effect on the queue of an open channel it does not close.\<close>

lemma chan_step_queue:
  assumes "chan_step T ev T'" "chans_inv T" "c_used (T i)" "\<not> closes i ev"
  shows "c_used (T' i) \<and> chan_abs (T i) @ sent i [ev] = taken i [ev] @ chan_abs (T' i)"
  using assms
proof (induction rule: chan_step.induct)
  case (step_new T cap h T')
  from step_new.hyps obtain j c where "\<not> c_used (T j)" "T' = T(j := c)" by (rule newD)
  then have "T' i = T i" using step_new.prems by auto
  then show ?case using step_new.prems by simp
next
  case (step_sender T rx h T')
  from step_sender.hyps obtain j where "T' = T(j := (T j)\<lparr>c_taken := True\<rparr>)" by (rule senderD)
  then show ?case using step_sender.prems by (auto simp: chan_abs_def)
next
  case (step_send T tx v ok T')
  from step_send.hyps obtain j where j: "c_used (T j)" "j = nat (tx div 2)"
    "ok \<longrightarrow> T' = T(j := ring_put v (T j)) \<and> c_count (T j) \<noteq> c_cap (T j)" "\<not> ok \<longrightarrow> T' = T"
    by (rule sendD) blast
  show ?case
  proof (cases ok)
    case True
    with j(3) have "T' = T(j := ring_put v (T j))" "c_count (T j) \<noteq> c_cap (T j)" by auto
    with ring_put_open [OF step_send.prems(1) j(1) this(2), of v] True step_send.prems
    show ?thesis unfolding j(2) by (simp add: open_chan_def)
  next
    case False
    then show ?thesis using j(4) step_send.prems by simp
  qed
next
  case (step_wait T rx ok)
  then show ?case by simp
next
  case (step_take T rx v T')
  from step_take.hyps obtain j where j: "c_used (T j)" "j = nat (rx div 2)" "chan_abs (T j) \<noteq> []"
    "v = fst (ring_take (T j))" "T' = T(j := snd (ring_take (T j)))" by (rule takeD)
  from ring_take_open [OF step_take.prems(1) j(1,3)] show ?case
    using j(4,5) step_take.prems unfolding j(2) by (simp add: open_chan_def)
next
  case (step_close T h T')
  from step_close.hyps obtain j c where "j = nat (h div 2)" "T' = T(j := c)" by (rule closeD) blast
  then show ?case using step_close.prems by simp
qed

lemma sent_Cons: "sent i (ev # evs) = sent i [ev] @ sent i evs"
  by (cases "(i, ev # evs)" rule: sent.cases) auto

lemma taken_Cons: "taken i (ev # evs) = taken i [ev] @ taken i evs"
  by (cases "(i, ev # evs)" rule: taken.cases) auto

section \<open>Properties\<close>


definition two_cells :: chans where
  "two_cells = (\<lambda>_. no_chan)(1 := \<lparr>c_q = [0, 0], c_head = 1, c_count = 0, c_cap = 2, c_sopen = True,
     c_ropen = True, c_taken = True, c_used = True\<rparr>)"

lemma two_cells_inv: "chans_inv two_cells" "c_used (two_cells 1)"
  by (auto simp: chans_inv_def chan_inv_def two_cells_def no_chan_def)


theorem chan_blocking:
  assumes "chans_inv T" "id_chan_of T h = Inr i"
  shows "(id_chan_send T h v = None \<longleftrightarrow> length (chan_abs (T i)) = c_cap (T i) \<and> c_ropen (T i))
     \<and> (id_chan_wait T h = None \<longleftrightarrow> chan_abs (T i) = [] \<and> c_sopen (T i))
     \<and> (\<not> c_ropen (T i) \<longrightarrow> id_chan_send T h v = Some (Inr (False, T)))
     \<and> (\<not> c_sopen (T i) \<longrightarrow> id_chan_wait T h = Some (Inr (chan_abs (T i) \<noteq> [])))
     \<and> ((\<exists>r. id_chan_take T h = Inr r) \<longleftrightarrow> chan_abs (T i) \<noteq> [])"
  using assms
  by (auto simp: id_chan_send_def id_chan_wait_def id_chan_take_def chan_abs_def Let_def
      split: prod.splits)

theorem chan_blocking_witness:
  "id_chan_wait two_cells 2 = None \<and> id_chan_send two_cells 3 7 \<noteq> None"
  using chan_blocking [OF two_cells_inv(1), of 2 1 7] chan_blocking [OF two_cells_inv(1), of 3 1 7]
  by (simp add: id_chan_of_def two_cells_def chan_abs_def)

theorem chan_one_sender_and_release:
  assumes "chan_step T ev T'" "chans_inv T"
  shows "(\<forall>i. c_used (T i) \<and> c_taken (T i) \<longrightarrow> c_taken (T' i))
     \<and> (\<forall>i. c_used (T i) \<and> c_taken (T i) \<longrightarrow> ev \<noteq> Sender (2 * int i + 1))
     \<and> (\<forall>i. c_used (T i) \<and> \<not> c_used (T' i) \<longrightarrow> closes i ev \<and> \<not> c_sopen (T' i) \<and> \<not> c_ropen (T' i))"
  using assms
proof (induction rule: chan_step.induct)
  case (step_new T cap h T')
  from step_new.hyps obtain j c where "\<not> c_used (T j)" "h = 2 * int j" "T' = T(j := c)" "c_used c"
    by (rule newD)
  then show ?case by auto
next
  case (step_sender T rx h T')
  from step_sender.hyps obtain j where j: "j = nat (rx div 2)" "2 \<le> rx" "\<not> c_taken (T j)" "h = rx + 1"
    "T' = T(j := (T j)\<lparr>c_taken := True\<rparr>)" by (rule senderD)
  have "i = j" if "h = 2 * int i + 1" for i using that j(1,2,4) by simp
  then show ?case using j(3,5) by auto
next
  case (step_send T tx v ok T')
  from step_send.hyps show ?case
    by (elim sendD) (cases ok, auto simp: ring_put_def)
next
  case (step_wait T rx ok)
  then show ?case by simp
next
  case (step_take T rx v T')
  from step_take.hyps show ?case by (elim takeD) (auto simp: ring_take_def)
next
  case (step_close T h T')
  from step_close.hyps obtain j c where "c_used (T j)" "j = nat (h div 2)" "T' = T(j := c)"
    "c_used c \<and> chan_inv (T j) \<longrightarrow> chan_inv c"
    "c_taken c = c_taken (T j)" "\<not> c_used c \<longrightarrow> \<not> c_sopen c \<and> \<not> c_ropen c" by (rule closeD) blast
  then show ?case by auto
qed

theorem chan_one_sender_and_release_witness:
  "\<exists>T'. chan_step two_cells (Close 2) T' \<and> c_used (T' 1)"
proof -
  obtain T' where c: "id_chan_close two_cells 2 = Inr T'"
    by (simp add: id_chan_close_def id_chan_of_def two_cells_def Let_def)
  then have s: "chan_step two_cells (Close 2) T'" by (rule step_close)
  have "\<not> c_used (T' 1) \<longrightarrow> \<not> c_sopen (T' 1)"
    using chan_one_sender_and_release [OF s two_cells_inv(1)] two_cells_inv(2) by blast
  moreover have "c_sopen (T' 1)" using c
    by (auto simp: id_chan_close_def id_chan_of_def two_cells_def Let_def)
  ultimately show ?thesis using s by blast
qed

theorem id_thr_join_result:
  assumes "id_thr_spawn True T f arg = Inr (h, T1)"
  shows "1 \<le> h \<and> h < 256 \<and> \<not> t_used (T (nat h))
     \<and> id_thr_join T1 h = None
     \<and> (\<exists>T2. id_thr_join (id_thr_main T1 (nat h)) h = Some (Inr (f arg, T2)) \<and> \<not> t_used (T2 (nat h))
          \<and> (\<exists>m. id_thr_join T2 h = Some (Inl (Trap_msg m))))"
proof -
  let ?j = "free_slot (\<lambda>i. t_used (T i)) 1"
  have "1 \<le> ?j \<and> ?j \<le> 256 \<and> (?j < 256 \<longrightarrow> \<not> t_used (T ?j))"
    using free_slot_ok [of "\<lambda>i. t_used (T i)" 1 ?j] by simp
  moreover from assms have "?j \<noteq> 256" "h = int ?j"
    "T1 = T(?j := (T ?j)\<lparr>t_used := True, t_f := f, t_arg := arg, t_done := False\<rparr>)"
    by (auto simp: id_thr_spawn_def Let_def split: if_splits)
  ultimately show ?thesis by (auto simp: id_thr_join_def id_thr_main_def)
qed

definition no_thr :: thr where
  "no_thr = \<lparr>t_f = (\<lambda>x. x), t_arg = 0, t_res = 0, t_used = False, t_done = False\<rparr>"

theorem id_thr_join_result_witness:
  "\<exists>h T1 T2. id_thr_spawn True (\<lambda>_. no_thr) (\<lambda>x. x * x) 7 = Inr (h, T1)
     \<and> id_thr_join (id_thr_main T1 (nat h)) h = Some (Inr (49, T2))"
proof -
  have "free_slot (\<lambda>i. t_used no_thr) 1 = 1" by (subst free_slot.simps) (simp add: no_thr_def)
  then obtain T1 where s: "id_thr_spawn True (\<lambda>_. no_thr) (\<lambda>x. x * x) 7 = Inr (1, T1)"
    by (simp add: id_thr_spawn_def)
  from id_thr_join_result [OF s] show ?thesis using s by auto
qed

end
