(* ===== verification/FreeWalk.thy ===== *)
theory FreeWalk
  imports Prelude "HOL-Library.Multiset"
begin

text \<open>
  Releasing a whole data structure. The compiler proves a value dead and calls either
  \<open>id_free_walk\<close> with a descriptor string of its type or \<open>id_frs_run\<close> with a generated
  destructor; both walk the structure with an explicit stack and free every block it owns.
  The heap is a map from addresses to live objects; an access to an address that is not live
  is undefined behaviour, the result None. The free guard is off here: a freed block is no
  longer live.
\<close>

datatype obj = OStr | OList "nat list"

type_synonym heap = "nat \<rightharpoonup> obj"

text \<open>Freeing blocks one after the other; a block that is not live cannot be freed.\<close>

fun release :: "heap \<Rightarrow> nat list \<Rightarrow> heap option" where
  "release H [] = Some H"
| "release H (a # as) = (if H a = None then None else release (H(a := None)) as)"

definition live :: "nat list \<Rightarrow> nat list" where
  "live ps = filter (\<lambda>p. p \<noteq> 0) ps"

text \<open>\<open>id_list_free_deep\<close>, \<open>id_list_free_strs\<close> and \<open>id_list_free_bytes\<close>: the elements, then the list.\<close>

definition id_list_free_deep :: "heap \<Rightarrow> nat \<Rightarrow> heap option" where
  "id_list_free_deep H p =
     (if p = 0 then Some H
      else case H p of Some (OList cells) \<Rightarrow> release H (live cells @ [p]) | _ \<Rightarrow> None)"

definition id_list_free_strs :: "heap \<Rightarrow> nat \<Rightarrow> heap option" where
  "id_list_free_strs H p = id_list_free_deep H p"

section \<open>Type descriptors\<close>

text \<open>
  A descriptor is a text: \<open>s\<close> a string, \<open>.\<close> a cell that owns nothing, \<open>l\<close> a list of what
  follows, \<open>S\<close> with a digit a struct of that many fields, \<open>@n;\<close> the descriptor at offset
  \<open>n\<close> of the whole text. \<open>id_fr_skip\<close> steps over one descriptor; its recursion is bounded
  by the text's length.
\<close>

fun id_fr_skip :: "nat \<Rightarrow> string \<Rightarrow> string" and skip_fields :: "nat \<Rightarrow> nat \<Rightarrow> string \<Rightarrow> string" where
  "id_fr_skip 0 d = d"
| "id_fr_skip (Suc f) d =
     (case d of [] \<Rightarrow> []
      | c # cs \<Rightarrow>
          if c = CHR ''l'' then id_fr_skip f cs
          else if c = CHR ''S'' then skip_fields f (of_char (hd cs) - 48) (tl cs)
          else if c = CHR ''@'' then tl (dropWhile (\<lambda>x. x \<noteq> CHR '';'') cs)
          else cs)"
| "skip_fields 0 n d = d"
| "skip_fields (Suc f) 0 d = d"
| "skip_fields (Suc f) (Suc n) d = skip_fields f n (id_fr_skip f d)"

text \<open>Following \<open>@\<close> references; a chain of them that does not end is None.\<close>

fun offset_of :: "nat \<Rightarrow> string \<Rightarrow> nat" where
  "offset_of n [] = n"
| "offset_of n (c # cs) = (if c = CHR '';'' then n else offset_of (n * 10 + (of_char c - 48)) cs)"

fun resolve :: "nat \<Rightarrow> string \<Rightarrow> string \<Rightarrow> string option" where
  "resolve 0 base d = None"
| "resolve (Suc f) base d =
     (case d of [] \<Rightarrow> None
      | c # cs \<Rightarrow> if c = CHR ''@'' then resolve f base (drop (offset_of 0 cs) base) else Some d)"

section \<open>One node of each walk\<close>

text \<open>
  A visit says which blocks a stack entry frees, in order, and which entries it pushes, in
  order; None is an access to a block that is not live.
\<close>

type_synonym 'd visit = "heap \<Rightarrow> nat \<times> 'd \<Rightarrow> (nat list \<times> (nat \<times> 'd) list) option"

fun field_entries :: "nat \<Rightarrow> nat list \<Rightarrow> string \<Rightarrow> (nat \<times> string) list" where
  "field_entries 0 cells f = []"
| "field_entries (Suc k) cells f =
     (if hd f \<noteq> CHR ''.'' then [(hd cells, f)] else [])
     @ field_entries k (tl cells) (id_fr_skip (2 * length f) f)"

definition walk_visit :: "string \<Rightarrow> string visit" where
  "walk_visit base H e =
     (case e of (p, d) \<Rightarrow>
       case resolve (Suc (length base)) base d of None \<Rightarrow> None
       | Some d \<Rightarrow>
           if p = 0 \<or> hd d = CHR ''.'' then Some ([], [])
           else if hd d = CHR ''s'' then (if H p = Some OStr then Some ([p], []) else None)
           else
             case H p of Some (OList cells) \<Rightarrow>
               Some ([p],
                 if hd d = CHR ''S'' then field_entries (of_char (hd (tl d)) - 48) cells (drop 2 d)
                 else if hd (tl d) = CHR ''.'' then []
                 else map (\<lambda>c. (c, tl d)) cells)
             | _ \<Rightarrow> None)"

text \<open>The generated destructors, as the list of what each does with its fields, in order.\<close>

datatype dty =
    TXmlR | TXmlW | TZip | TZipW | TZstdLoop | TZstdBlock
  | TZstdDecoded | TZstdOffset | TZstdWalk | TBlendMesh | TGuiBd | TGuiCl
  | TGuiHm | TGuiButton | TGuiToggle | TGuiColors | TGuiCombo | TGuiComboSet
  | TGuiDialog | TGuiDialogText | TGuiDrop | TGuiFiles | TGuiFilesList | TGuiGallery
  | TGuiMenu | TGuiPop | TGuiScroll | TGuiTextBox | TGuiTb | TGuiTbLog
  | TGuiTbSel | TGuiTbHist | TGuiTip

datatype fld = FList nat | FStrs nat | FStr nat | FSub nat dty

fun idfs_fields :: "dty \<Rightarrow> fld list" where
  "idfs_fields TXmlR = [FList 0, FList 1, FStrs 2]"
| "idfs_fields TXmlW = [FList 0, FStrs 1]"
| "idfs_fields TZip = [FList 1, FStrs 2]"
| "idfs_fields TZipW = [FList 0, FList 1, FStrs 2]"
| "idfs_fields TZstdLoop = [FList 0, FList 1]"
| "idfs_fields TZstdBlock = [FList 2]"
| "idfs_fields TZstdDecoded = [FList 0, FList 1]"
| "idfs_fields TZstdOffset = [FList 1]"
| "idfs_fields TZstdWalk = [FList 0, FList 1, FList 2]"
| "idfs_fields TBlendMesh = [FList 2]"
| "idfs_fields TGuiBd = [FSub 0 TGuiHm, FSub 1 TGuiCl, FSub 2 TGuiCl]"
| "idfs_fields TGuiCl = [FList 0, FStrs 1, FList 2]"
| "idfs_fields TGuiHm = [FStrs 0, FList 1, FList 2]"
| "idfs_fields TGuiButton = [FList 0, FStr 1]"
| "idfs_fields TGuiToggle = [FSub 0 TGuiButton]"
| "idfs_fields TGuiColors = [FList 0, FList 1, FStr 2]"
| "idfs_fields TGuiCombo = [FSub 0 TGuiTextBox, FSub 1 TGuiMenu, FSub 2 TGuiComboSet]"
| "idfs_fields TGuiComboSet = [FStrs 0, FList 1, FStr 2]"
| "idfs_fields TGuiDialog = [FSub 0 TGuiDialogText, FList 1, FList 2]"
| "idfs_fields TGuiDialogText = [FStr 0, FStrs 1, FStrs 2]"
| "idfs_fields TGuiDrop = [FSub 0 TGuiButton, FStrs 1, FList 2]"
| "idfs_fields TGuiFiles = [FSub 0 TGuiTextBox, FSub 1 TGuiFilesList, FList 2]"
| "idfs_fields TGuiFilesList = [FStrs 0, FStr 1, FStr 2]"
| "idfs_fields TGuiGallery = [FStrs 0, FList 1]"
| "idfs_fields TGuiMenu = [FStrs 0, FList 1]"
| "idfs_fields TGuiPop = [FList 0]"
| "idfs_fields TGuiScroll = [FList 0]"
| "idfs_fields TGuiTextBox = [FSub 0 TGuiTb, FList 1, FStr 2]"
| "idfs_fields TGuiTb = [FStr 0, FSub 1 TGuiTbSel, FSub 2 TGuiTbHist]"
| "idfs_fields TGuiTbLog = [FStrs 0, FList 1]"
| "idfs_fields TGuiTbSel = [FList 2]"
| "idfs_fields TGuiTbHist = [FSub 0 TGuiTbLog, FSub 1 TGuiTbLog]"
| "idfs_fields TGuiTip = [FList 0, FStr 1]"

definition cell_of :: "nat list \<Rightarrow> nat \<Rightarrow> nat" where
  "cell_of cells i = (if i < length cells then cells ! i else 0)"

fun field_visit :: "heap \<Rightarrow> nat list \<Rightarrow> fld \<Rightarrow> (nat list \<times> (nat \<times> dty) list) option" where
  "field_visit H cells (FList i) = Some (live [cell_of cells i], [])"
| "field_visit H cells (FStr i) = Some (live [cell_of cells i], [])"
| "field_visit H cells (FStrs i) =
     (let c = cell_of cells i
      in if c = 0 then Some ([], [])
         else case H c of Some (OList ss) \<Rightarrow> Some (live ss @ [c], []) | _ \<Rightarrow> None)"
| "field_visit H cells (FSub i t) =
     Some ([], if cell_of cells i = 0 then [] else [(cell_of cells i, t)])"

fun fields_visit :: "heap \<Rightarrow> nat list \<Rightarrow> fld list \<Rightarrow> (nat list \<times> (nat \<times> dty) list) option" where
  "fields_visit H cells [] = Some ([], [])"
| "fields_visit H cells (f # fs) =
     (case field_visit H cells f of None \<Rightarrow> None
      | Some (now, nx) \<Rightarrow>
          map_option (\<lambda>(now', nx'). (now @ now', nx @ nx')) (fields_visit H cells fs))"

definition idfs_visit :: "dty visit" where
  "idfs_visit H e =
     (case e of (p, t) \<Rightarrow>
       if p = 0 then Some ([], [])
       else case H p of Some (OList cells) \<Rightarrow>
              map_option (\<lambda>(now, nx). (now @ [p], nx)) (fields_visit H cells (idfs_fields t))
            | _ \<Rightarrow> None)"

section \<open>The stack machine\<close>

fun run_walk :: "'d visit \<Rightarrow> nat \<Rightarrow> heap \<Rightarrow> (nat \<times> 'd) list \<Rightarrow> nat list \<Rightarrow> (heap \<times> nat list) option" where
  "run_walk v 0 H stk log = None"
| "run_walk v (Suc f) H [] log = Some (H, log)"
| "run_walk v (Suc f) H (e # stk) log =
     (case v H e of None \<Rightarrow> None
      | Some (now, nx) \<Rightarrow>
          (case release H now of None \<Rightarrow> None
           | Some H' \<Rightarrow> run_walk v f H' (rev nx @ stk) (log @ now)))"

definition id_free_walk :: "nat \<Rightarrow> heap \<Rightarrow> nat \<Rightarrow> string \<Rightarrow> (heap \<times> nat list) option" where
  "id_free_walk fuel H root base = run_walk (walk_visit base) fuel H [(root, base)] []"

definition id_frs_run :: "nat \<Rightarrow> heap \<Rightarrow> nat \<Rightarrow> dty \<Rightarrow> (heap \<times> nat list) option" where
  "id_frs_run fuel H root t =
     run_walk idfs_visit fuel H (if root = 0 then [] else [(root, t)]) []"

section \<open>Ownership\<close>

text \<open>
  \<open>owns v H e A n\<close>: the entry \<open>e\<close> owns the blocks \<open>A\<close> (in the heap \<open>H\<close>), reached through
  \<open>n\<close> stack entries. \<open>owns_all\<close> is the same for a list of entries.
\<close>

inductive owns :: "'d visit \<Rightarrow> heap \<Rightarrow> nat \<times> 'd \<Rightarrow> nat list \<Rightarrow> nat \<Rightarrow> bool"
  and owns_all :: "'d visit \<Rightarrow> heap \<Rightarrow> (nat \<times> 'd) list \<Rightarrow> nat list \<Rightarrow> nat \<Rightarrow> bool"
  for v H where
  owns_node: "v H e = Some (now, nx) \<Longrightarrow> owns_all v H nx A n \<Longrightarrow>
     set now \<subseteq> dom H \<Longrightarrow> owns v H e (now @ A) (Suc n)"
| owns_nil: "owns_all v H [] [] 0"
| owns_cons: "owns v H e A n \<Longrightarrow> owns_all v H es B m \<Longrightarrow> owns_all v H (e # es) (A @ B) (n + m)"

inductive_cases owns_nodeE: "owns v H e A n"
inductive_cases owns_consE: "owns_all v H (e # es) A n"
inductive_cases owns_nilE: "owns_all v H [] A n"

lemma release_ok:
  "distinct as \<Longrightarrow> set as \<subseteq> dom H \<Longrightarrow> release H as = Some (H |` (- set as))"
proof (induction as arbitrary: H)
  case Nil
  then show ?case by (simp add: restrict_map_def)
next
  case (Cons a as)
  then have "set as \<subseteq> dom (H(a := None))" by auto
  with Cons have "release (H(a := None)) as = Some ((H(a := None)) |` (- set as))" by simp
  moreover have "(H(a := None)) |` (- set as) = H |` (- set (a # as))"
    by (rule ext) (auto simp: restrict_map_def)
  ultimately show ?case using Cons.prems by auto
qed

lemma owns_all_append:
  "owns_all v H es A n \<Longrightarrow> owns_all v H fs B m \<Longrightarrow> owns_all v H (es @ fs) (A @ B) (n + m)"
proof (induction es arbitrary: A n)
  case Nil
  then show ?case by (auto elim: owns_nilE)
next
  case (Cons e es)
  from Cons.prems(1) obtain A1 n1 A2 n2 where
    o: "owns v H e A1 n1" "owns_all v H es A2 n2" "A = A1 @ A2" "n = n1 + n2"
    by (rule owns_consE)
  from owns_cons [OF o(1) Cons.IH [OF o(2) Cons.prems(2)]] o(3,4)
  show ?case by (simp add: add.assoc)
qed

lemma owns_all_rev:
  "owns_all v H es A n \<Longrightarrow> \<exists>B. owns_all v H (rev es) B n \<and> mset B = mset A"
proof (induction es arbitrary: A n)
  case Nil
  then show ?case by (auto elim: owns_nilE intro: owns_nil)
next
  case (Cons e es)
  from Cons.prems obtain A1 n1 A2 n2 where
    o: "owns v H e A1 n1" "owns_all v H es A2 n2" "A = A1 @ A2" "n = n1 + n2"
    by (rule owns_consE)
  from Cons.IH [OF o(2)] obtain B where B: "owns_all v H (rev es) B n2" "mset B = mset A2" by blast
  have "owns_all v H [e] (A1 @ []) (n1 + 0)" by (rule owns_cons [OF o(1) owns_nil])
  from owns_all_append [OF B(1) this] have "owns_all v H (rev (e # es)) (B @ A1) n"
    by (simp add: o(4) add.commute)
  then show ?case using B(2) o(3) by (intro exI [of _ "B @ A1"]) simp
qed

section \<open>The contract of a visit, and what a walk frees\<close>

text \<open>
  A visit reads only blocks it frees: where those are unchanged, so is the visit. That is
  what lets the blocks the rest of the stack owns be freed in between.
\<close>

locale local_visit =
  fixes v :: "'d visit"
  assumes reads_freed: "v H e = Some (now, nx) \<Longrightarrow> (\<forall>a \<in> set now. H' a = H a) \<Longrightarrow>
    v H' e = Some (now, nx)"
begin

lemma owns_frame:
  shows "owns v H e A n \<Longrightarrow> (\<forall>a \<in> set A. H' a = H a) \<Longrightarrow> owns v H' e A n"
    and owns_all_frame:
      "owns_all v H es B m \<Longrightarrow> (\<forall>a \<in> set B. H' a = H a) \<Longrightarrow> owns_all v H' es B m"
proof (induction rule: owns_owns_all.inducts)
  case (owns_node e now nx A n)
  then have "v H' e = Some (now, nx)" using reads_freed [OF owns_node(1)] by simp
  moreover have "owns_all v H' nx A n" using owns_node by simp
  moreover have "set now \<subseteq> dom H'"
  proof
    fix a assume "a \<in> set now"
    then show "a \<in> dom H'" using owns_node by (simp add: dom_def subset_iff)
  qed
  ultimately show ?case by (rule owns_owns_all.owns_node)
next
  case owns_nil
  then show ?case by (simp add: owns_owns_all.owns_nil)
next
  case (owns_cons e A n es B m)
  then show ?case by (auto intro: owns_owns_all.owns_cons)
qed

text \<open>A stack that owns disjoint blocks is emptied, every one of them freed exactly once.\<close>

lemma run_walk_frees:
  "owns_all v H stk A n \<Longrightarrow> distinct A \<Longrightarrow> n < f \<Longrightarrow>
     \<exists>log'. run_walk v f H stk log = Some (H |` (- set A), log @ log') \<and> mset log' = mset A"
proof (induction n arbitrary: f H stk A log rule: less_induct)
  case (less n)
  obtain g where f: "f = Suc g" using less.prems(3) by (cases f) auto
  show ?case
  proof (cases stk)
    case Nil
    then have "A = []" using less.prems(1) by (auto elim: owns_nilE)
    then show ?thesis using Nil f by (simp add: restrict_map_def)
  next
    case (Cons e rest)
    then obtain A1 n1 A2 n2 where o: "owns v H e A1 n1" "owns_all v H rest A2 n2" "A = A1 @ A2" "n = n1 + n2"
      using less.prems(1) by (auto elim: owns_consE)
    from o(1) obtain now nx K k where
      e: "v H e = Some (now, nx)" "owns_all v H nx K k" "set now \<subseteq> dom H" "A1 = now @ K" "n1 = Suc k"
      by (rule owns_nodeE)
    have d: "distinct now" "distinct K" "set now \<inter> set K = {}" "set now \<inter> set A2 = {}"
      using less.prems(2) o e by auto
    let ?H = "H |` (- set now)"
    have rel: "release H now = Some ?H" by (rule release_ok [OF d(1) e(3)])
    obtain R where R: "owns_all v H (rev nx) R k" "mset R = mset K" using owns_all_rev [OF e(2)] by blast
    have "owns_all v H (rev nx @ rest) (R @ A2) (k + n2)" by (rule owns_all_append [OF R(1) o(2)])
    moreover have sR: "set R = set K" using R(2) by (rule mset_eq_setD)
    then have "\<forall>a \<in> set (R @ A2). ?H a = H a" using d by (auto simp: restrict_map_def)
    ultimately have new: "owns_all v ?H (rev nx @ rest) (R @ A2) (k + n2)" by (rule owns_all_frame)
    have "mset (R @ A2) = mset (K @ A2)" using R(2) by simp
    then have dist: "distinct (R @ A2)" using less.prems(2) o(3) e(4)
      by (metis distinct_append mset_eq_imp_distinct_iff append.assoc)
    from less.IH [OF _ new dist, of g "log @ now"] less.prems(3) f o(4) e(5)
    obtain log' where l: "run_walk v g ?H (rev nx @ rest) (log @ now) = Some (?H |` (- set (R @ A2)), (log @ now) @ log')"
      "mset log' = mset (R @ A2)" by auto
    have "?H |` (- set (R @ A2)) = H |` (- set A)"
      using sR o(3) e(4) by (intro ext) (auto simp: restrict_map_def)
    moreover have "mset (now @ log') = mset A" using l(2) R(2) o(3) e(4) by simp
    ultimately show ?thesis using Cons f e(1) rel l(1) by (intro exI [of _ "now @ log'"]) simp
  qed
qed

end

lemma field_visit_reads:
  "field_visit H cells f = Some (now, nx) \<Longrightarrow> (\<forall>a \<in> set now. H' a = H a) \<Longrightarrow>
     field_visit H' cells f = Some (now, nx)"
  by (cases f) (auto simp: Let_def split: if_splits option.splits obj.splits)

lemma fields_visit_reads:
  "fields_visit H cells fs = Some (now, nx) \<Longrightarrow> (\<forall>a \<in> set now. H' a = H a) \<Longrightarrow>
     fields_visit H' cells fs = Some (now, nx)"
proof (induction fs arbitrary: now nx)
  case Nil
  then show ?case by simp
next
  case (Cons f fs)
  from Cons.prems(1) obtain n1 x1 n2 x2 where
    1: "field_visit H cells f = Some (n1, x1)" "fields_visit H cells fs = Some (n2, x2)"
       "now = n1 @ n2" "nx = x1 @ x2"
    by (auto split: option.splits)
  have "field_visit H' cells f = Some (n1, x1)"
    using field_visit_reads [OF 1(1)] Cons.prems(2) 1(3) by simp
  moreover have "fields_visit H' cells fs = Some (n2, x2)"
    using Cons.IH [OF 1(2)] Cons.prems(2) 1(3) by simp
  ultimately show ?case using 1 by simp
qed

interpretation descr: local_visit "walk_visit base" for base
proof
  fix H H' :: heap and e now nx
  assume v: "walk_visit base H e = Some (now, nx)" and a: "\<forall>a \<in> set now. H' a = H a"
  obtain p d where e: "e = (p, d)" by (cases e)
  from v obtain d' where r: "resolve (Suc (length base)) base d = Some d'"
    by (auto simp: walk_visit_def e simp del: resolve.simps split: option.splits)
  show "walk_visit base H' e = Some (now, nx)"
  proof (cases "p = 0 \<or> hd d' = CHR ''.''")
    case True
    then show ?thesis using v r by (simp add: walk_visit_def e del: resolve.simps)
  next
    case False
    then have "now = [p]" using v r
      by (auto simp: walk_visit_def e simp del: resolve.simps split: if_splits option.splits obj.splits)
    then have "H' p = H p" using a by simp
    then have "walk_visit base H' e = walk_visit base H e"
      by (simp add: walk_visit_def e r del: resolve.simps)
    then show ?thesis using v by simp
  qed
qed

interpretation typed: local_visit idfs_visit
proof
  fix H H' :: heap and e now nx
  assume v: "idfs_visit H e = Some (now, nx)" and a: "\<forall>a \<in> set now. H' a = H a"
  obtain p t where e: "e = (p, t)" by (cases e)
  show "idfs_visit H' e = Some (now, nx)"
  proof (cases "p = 0")
    case True
    then show ?thesis using v by (simp add: idfs_visit_def e)
  next
    case False
    with v obtain cells now' where c: "H p = Some (OList cells)"
      "fields_visit H cells (idfs_fields t) = Some (now', nx)" "now = now' @ [p]"
      by (auto simp: idfs_visit_def e split: option.splits obj.splits)
    then have "H' p = H p" using a by simp
    moreover have "fields_visit H' cells (idfs_fields t) = Some (now', nx)"
      using fields_visit_reads [OF c(2)] a c(3) by simp
    ultimately show ?thesis using False c by (simp add: idfs_visit_def e)
  qed
qed

section \<open>Descriptors round trip\<close>

datatype shape = SStr | SNone | SList shape | SStruct "shape list" | SRef nat

fun ref_text :: "nat \<Rightarrow> string" where
  "ref_text n = (if n < 10 then [char_of (48 + n)] else ref_text (n div 10) @ [char_of (48 + n mod 10)])"

declare ref_text.simps [simp del]

fun descr :: "shape \<Rightarrow> string" where
  "descr SStr = ''s''"
| "descr SNone = ''.''"
| "descr (SList t) = CHR ''l'' # descr t"
| "descr (SStruct ts) = CHR ''S'' # char_of (48 + length ts) # concat (map descr ts)"
| "descr (SRef n) = CHR ''@'' # ref_text n @ '';''"

fun small_shape :: "shape \<Rightarrow> bool" where
  "small_shape (SList t) = small_shape t"
| "small_shape (SStruct ts) = (length ts < 208 \<and> list_all small_shape ts)"
| "small_shape _ = True"

lemma ref_text_digits: "c \<in> set (ref_text n) \<Longrightarrow> c \<noteq> CHR '';''"
proof (induction n rule: ref_text.induct)
  case (1 n)
  have d: "char_of (48 + k) \<noteq> CHR '';''" if "k < 10" for k :: nat
  proof
    assume "char_of (48 + k) = CHR '';''"
    then have "(of_char (char_of (48 + k) :: char) :: nat) = of_char (CHR '';'')" by simp
    then show False using that by simp
  qed
  show ?case
  proof (cases "n < 10")
    case True
    then show ?thesis using 1(2) d [of n] by (auto simp: ref_text.simps [of n])
  next
    case False
    then show ?thesis using 1 d [of "n mod 10"] by (auto simp: ref_text.simps [of n])
  qed
qed

lemma descr_nonempty: "0 < length (descr t)"
  by (cases t) auto

lemma skip_fields_descr:
  assumes "\<And>u f r. u \<in> set us \<Longrightarrow> 2 * length (descr u) \<le> f \<Longrightarrow> id_fr_skip f (descr u @ r) = r"
    and "2 * length (concat (map descr us)) + 1 \<le> h"
  shows "skip_fields h (length us) (concat (map descr us) @ rest) = rest"
  using assms
proof (induction us arbitrary: h)
  case Nil
  then show ?case by (cases h) auto
next
  case (Cons u us)
  then obtain k where h: "h = Suc k" by (cases h) auto
  have l: "0 < length (descr u)" by (rule descr_nonempty)
  have "id_fr_skip k (descr u @ concat (map descr us) @ rest) = concat (map descr us) @ rest"
    using Cons.prems h by simp
  moreover have "skip_fields k (length us) (concat (map descr us) @ rest) = rest"
  proof (rule Cons.IH)
    show "2 * length (concat (map descr us)) + 1 \<le> k"
      using Cons.prems(2) h l by (simp del: length_greater_0_conv)
  qed (use Cons.prems in auto)
  ultimately show ?case using h by simp
qed

lemma of_char_add: "n < 208 \<Longrightarrow> (of_char (char_of (48 + n) :: char) :: nat) - 48 = n"
  by simp

lemma fr_skip_descr:
  "small_shape t \<Longrightarrow> 2 * length (descr t) \<le> f \<Longrightarrow> id_fr_skip f (descr t @ rest) = rest"
proof (induction t arbitrary: f rest)
  case (SStruct ts)
  obtain g where f: "f = Suc g" using SStruct.prems by (cases f) auto
  have "skip_fields g (length ts) (concat (map descr ts) @ rest) = rest"
    using SStruct f by (intro skip_fields_descr) (auto simp: list_all_iff)
  then show ?case using SStruct.prems f of_char_add [of "length ts"] by simp
next
  case (SRef n)
  obtain g where f: "f = Suc g" using SRef.prems by (cases f) auto
  have "dropWhile (\<lambda>x. x \<noteq> CHR '';'') (ref_text n @ CHR '';'' # rest) = CHR '';'' # rest"
    using ref_text_digits by (subst dropWhile_append2) auto
  then show ?case using f by simp
next
  case (SList t)
  then show ?case by (cases f) auto
next
  case SStr
  then show ?case by (cases f) auto
next
  case SNone
  then show ?case by (cases f) auto
qed

section \<open>Properties\<close>


definition two_strings :: heap where
  "two_strings = [16 \<mapsto> OList [32, 48], 32 \<mapsto> OStr, 48 \<mapsto> OStr, 64 \<mapsto> OStr]"

lemma owns_two_strings: "owns (walk_visit ''ls'') two_strings (16, ''ls'') [16, 32, 48] 3"
proof -
  have s: "owns (walk_visit ''ls'') two_strings (a, ''s'') ([a] @ []) (Suc 0)" if "a = 32 \<or> a = 48" for a
    using that by (intro owns_node [where nx = "[]"] owns_nil)
      (auto simp: walk_visit_def two_strings_def)
  have "owns (walk_visit ''ls'') two_strings (16, ''ls'')
      ([16] @ ([32] @ []) @ ([48] @ []) @ []) (Suc (Suc 0 + (Suc 0 + 0)))"
  proof (rule owns_node [where nx = "[(32, ''s''), (48, ''s'')]"])
    show "owns_all (walk_visit ''ls'') two_strings [(32, ''s''), (48, ''s'')]
        (([32] @ []) @ ([48] @ []) @ []) (Suc 0 + (Suc 0 + 0))"
      by (intro owns_cons owns_nil s) simp_all
  qed (auto simp: walk_visit_def two_strings_def)
  then show ?thesis by (simp add: numeral_3_eq_3)
qed


theorem id_frs_run_frees_once:
  assumes "owns idfs_visit H (root, t) A n" "distinct A" "Suc n < fuel"
  shows "\<exists>log. id_frs_run fuel H root t = Some (H |` (- set A), log)
     \<and> distinct log \<and> set log = set A"
proof (cases "root = 0")
  case True
  then have "A = []" using assms(1) by (auto elim!: owns_nodeE owns_nilE simp: idfs_visit_def)
  then show ?thesis using True assms(3)
    by (cases fuel) (auto simp: id_frs_run_def restrict_map_def)
next
  case False
  have "owns_all idfs_visit H [(root, t)] (A @ []) (n + 0)"
    by (rule owns_cons [OF assms(1) owns_nil])
  then have "owns_all idfs_visit H [(root, t)] A n" by simp
  from typed.run_walk_frees [OF this assms(2), of fuel "[]"] assms(3)
  obtain log where "run_walk idfs_visit fuel H [(root, t)] [] = Some (H |` (- set A), log)"
    "mset log = mset A" by auto
  then show ?thesis using False unfolding id_frs_run_def
    by (intro exI [of _ log]) (auto dest: mset_eq_setD mset_eq_imp_distinct_iff simp: assms(2))
qed

definition gui_tip :: heap where
  "gui_tip = [16 \<mapsto> OList [32, 48], 32 \<mapsto> OList [7, 8], 48 \<mapsto> OStr, 64 \<mapsto> OStr]"

theorem id_frs_run_frees_once_witness:
  "\<exists>H' log. id_frs_run 5 gui_tip 16 TGuiTip = Some (H', log) \<and> set log = {16, 32, 48}"
proof -
  have "owns idfs_visit gui_tip (16, TGuiTip) ([32, 48, 16] @ []) (Suc 0)"
    by (rule owns_node [where nx = "[]", OF _ owns_nil])
      (auto simp: idfs_visit_def gui_tip_def cell_of_def live_def)
  from id_frs_run_frees_once [OF this, of 5] show ?thesis by auto
qed

theorem id_fr_skip_one_descriptor:
  assumes "small_shape t"
  shows "id_fr_skip (2 * length (descr t @ rest)) (descr t @ rest) = rest"
  using fr_skip_descr [OF assms] by simp

theorem id_fr_skip_one_descriptor_witness:
  "id_fr_skip 20 ''S2l@12;s..'' = ''..''"
  using id_fr_skip_one_descriptor [of "SStruct [SList (SRef 12), SStr]" "''..''"]
  by (simp add: ref_text.simps char_of_def bit_Suc_0_iff)

end
