(* ===== verification/IdList.thy ===== *)
theory IdList
  imports Arith Growable
begin

text \<open>
  The growable list of the runtime: a header (\<open>len\<close>, \<open>cap\<close>, \<open>data\<close>) in one block with its
  first cells; when the list outgrows them the cells move to a block of their own and the
  first inline cell keeps the capacity the header block was made with. \<open>l_out\<close> is None
  while \<open>data\<close> points at the inline cells. A locked (constant) list has a negative
  capacity, a freed one \<open>len = -1\<close> and \<open>cap = INT_MIN\<close>. A NULL list is None.
\<close>

record idlist =
  l_len :: int
  l_cap :: int
  l_inl :: "w64 list"
  l_out :: "w64 list option"

type_synonym env = "w64 mem_env"

definition id_list_bytes :: "nat \<Rightarrow> nat" where
  "id_list_bytes n = 16 + 8 * n"

definition l_data :: "idlist \<Rightarrow> w64 list" where
  "l_data L = (case l_out L of None \<Rightarrow> l_inl L | Some d \<Rightarrow> d)"

definition put_data :: "w64 list \<Rightarrow> idlist \<Rightarrow> idlist" where
  "put_data d L = (case l_out L of None \<Rightarrow> L\<lparr>l_inl := d\<rparr> | Some _ \<Rightarrow> L\<lparr>l_out := Some d\<rparr>)"

section \<open>Making and releasing\<close>

definition id_list_make :: "env \<Rightarrow> int \<Rightarrow> int \<Rightarrow> idlist res" where
  "id_list_make e len cap =
     andThen (e_get e (id_list_bytes (nat cap)))
       (\<lambda>_. Inr \<lparr>l_len = len, l_cap = cap, l_inl = map (e_junk e) [0..<nat cap], l_out = None\<rparr>)"

definition id_list_new :: "env \<Rightarrow> idlist res" where
  "id_list_new e = id_list_make e 0 4"

definition id_list_sized :: "env \<Rightarrow> int \<Rightarrow> idlist res" where
  "id_list_sized e n = id_list_make e n (if n < 4 then 4 else n)"

text \<open>
  \<open>id_list_free\<close>: with the guard on, the cells are filled with \<open>0xDD\<close> and the header marked;
  otherwise the blocks go back to the pool, each with the size it is freed by. The answer is
  the list afterwards (None once its memory is gone) and the blocks given back.
\<close>

definition id_list_free :: "bool \<Rightarrow> idlist option \<Rightarrow> (idlist option \<times> blk list) res" where
  "id_list_free guard Lo =
     (case Lo of None \<Rightarrow> Inr (None, [])
      | Some L \<Rightarrow>
          if guard then
            if l_cap L = INT_MIN then Inl Trap_freed_list
            else
              let c = (if l_cap L < 0 then - l_cap L else l_cap L);
                  L1 = put_data (map (\<lambda>j. if j < nat c then 0xDDDDDDDDDDDDDDDD else l_data L ! j)
                                  [0..<length (l_data L)]) L
              in Inr (Some (L1\<lparr>l_len := - 1, l_cap := INT_MIN\<rparr>), [])
          else
            let c = nat (if l_cap L < 0 then - l_cap L else l_cap L)
            in case l_out L of
                 None \<Rightarrow> Inr (None, [Header (id_list_bytes c)])
               | Some _ \<Rightarrow>
                   let ic = unat (l_inl L ! 0)
                   in Inr (None, [Cells (8 * c), Header (id_list_bytes ic)]))"

definition id_list_lock :: "idlist \<Rightarrow> idlist" where
  "id_list_lock L = L\<lparr>l_cap := 0 - l_cap L\<rparr>"

definition id_list_mut_check :: "idlist \<Rightarrow> unit res" where
  "id_list_mut_check L =
     (if l_cap L < 0 then
        if l_cap L = INT_MIN then Inl Trap_freed_list else Inl Trap_const_list
      else Inr ())"

section \<open>Growth and access\<close>

definition id_list_grow :: "env \<Rightarrow> idlist \<Rightarrow> idlist res" where
  "id_list_grow e L =
     (if l_cap L > INT_MAX div 2 then Inl Trap_list_capacity
      else
        let ncap = (if l_cap L < 2 then 4 else l_cap L * 2)
        in andThen (id_mul_check 8 (nat ncap) ''list growth'')
             (\<lambda>nb.
               case l_out L of
                 None \<Rightarrow>
                   andThen (e_get e nb)
                     (\<lambda>_. Inr (L\<lparr>l_out := Some (take (nat (l_len L)) (l_inl L)
                                            @ map (e_junk e) [nat (l_len L)..<nat ncap]),
                                l_inl := (l_inl L)[0 := word_of_int (l_cap L)],
                                l_cap := ncap\<rparr>))
               | Some d \<Rightarrow>
                   andThen (e_realloc e (8 * nat (l_cap L)) nb)
                     (\<lambda>_. Inr (L\<lparr>l_out := Some (take (nat (l_cap L)) d
                                            @ map (e_junk e) [nat (l_cap L)..<nat ncap]),
                                l_cap := ncap\<rparr>))))"

definition with_list :: "idlist option \<Rightarrow> (idlist \<Rightarrow> 'b res) \<Rightarrow> 'b res" where
  "with_list Lo f = (case Lo of None \<Rightarrow> Inl Trap_null_read | Some L \<Rightarrow> f L)"

definition id_list_push :: "env \<Rightarrow> idlist option \<Rightarrow> w64 \<Rightarrow> idlist res" where
  "id_list_push e Lo v =
     with_list Lo (\<lambda>L.
       andThen (id_list_mut_check L) (\<lambda>_.
       andThen (if l_len L \<ge> l_cap L then id_list_grow e L else Inr L) (\<lambda>L.
         Inr ((put_data ((l_data L)[nat (l_len L) := v]) L)\<lparr>l_len := l_len L + 1\<rparr>))))"

definition id_list_get :: "idlist option \<Rightarrow> int \<Rightarrow> w64 res" where
  "id_list_get Lo i =
     with_list Lo (\<lambda>L.
       if i < 0 \<or> i \<ge> l_len L then
         if l_cap L = INT_MIN then Inl Trap_freed_list else Inl (Trap_index i (l_len L))
       else Inr (l_data L ! nat i))"

definition id_list_set :: "idlist option \<Rightarrow> int \<Rightarrow> w64 \<Rightarrow> idlist res" where
  "id_list_set Lo i v =
     with_list Lo (\<lambda>L.
       andThen (id_list_mut_check L) (\<lambda>_.
         if i < 0 \<or> i \<ge> l_len L then Inl (Trap_index i (l_len L))
         else Inr (put_data ((l_data L)[nat i := v]) L)))"

definition id_list_cell :: "idlist \<Rightarrow> int \<Rightarrow> w64" where
  "id_list_cell L i = l_data L ! nat i"

definition id_list_cell_set :: "idlist \<Rightarrow> int \<Rightarrow> w64 \<Rightarrow> idlist" where
  "id_list_cell_set L i v = put_data ((l_data L)[nat i := v]) L"

definition id_list_len_raw :: "idlist option \<Rightarrow> int" where
  "id_list_len_raw Lo = (case Lo of None \<Rightarrow> - 1 | Some L \<Rightarrow> l_len L)"

definition id_list_cap_raw :: "idlist option \<Rightarrow> int" where
  "id_list_cap_raw Lo = (case Lo of None \<Rightarrow> - 1 | Some L \<Rightarrow> l_cap L)"

definition id_list_len :: "idlist option \<Rightarrow> int res" where
  "id_list_len Lo =
     with_list Lo (\<lambda>L. if l_len L < 0 then Inl Trap_freed_list else Inr (l_len L))"

definition id_list_pop :: "idlist option \<Rightarrow> (w64 \<times> idlist) res" where
  "id_list_pop Lo =
     with_list Lo (\<lambda>L.
       andThen (id_list_mut_check L) (\<lambda>_.
         if l_len L \<le> 0 then Inl Trap_pop_empty
         else let n = l_len L - 1 in Inr (l_data L ! nat n, L\<lparr>l_len := n\<rparr>)))"

text \<open>A list a native returned: its length and its data pointer, None when NULL.\<close>

fun push_all :: "env \<Rightarrow> w64 list \<Rightarrow> idlist \<Rightarrow> idlist res" where
  "push_all e [] L = Inr L"
| "push_all e (v # vs) L = andThen (id_list_push e (Some L) v) (push_all e vs)"

definition id_list_adopt :: "env \<Rightarrow> (int \<times> w64 list option) option \<Rightarrow> idlist option res" where
  "id_list_adopt e f =
     (case f of None \<Rightarrow> Inr None
      | Some (len, data) \<Rightarrow>
          if len < 0 \<or> (len > 0 \<and> data = None) then Inl (Trap_native_list len)
          else
            let cells = (case data of None \<Rightarrow> [] | Some d \<Rightarrow> take (nat len) d)
            in andThen (id_list_new e) (\<lambda>L. andThen (push_all e cells L) (\<lambda>L. Inr (Some L))))"

definition id_list_lit :: "env \<Rightarrow> w64 list \<Rightarrow> idlist res" where
  "id_list_lit e args =
     (let n = int (length args)
      in andThen (id_list_make e n (if n < 1 then 4 else n))
           (\<lambda>L. Inr (put_data (fold (\<lambda>k d. d[k := args ! k]) [0..<length args] (l_data L)) L)))"

section \<open>Well-formed lists\<close>

text \<open>
  \<open>list_ok\<close> is every list the runtime makes and has not freed, \<open>list_inv\<close> those that may be
  mutated; \<open>list_abs\<close> is the sequence a list stands for and \<open>list_blocks\<close> the blocks it owns,
  each with the size it was allocated with.
\<close>

definition list_ok :: "idlist \<Rightarrow> bool" where
  "list_ok L \<longleftrightarrow> 0 \<le> l_len L \<and> l_len L \<le> \<bar>l_cap L\<bar> \<and> 0 < \<bar>l_cap L\<bar> \<and> \<bar>l_cap L\<bar> \<le> INT_MAX
     \<and> length (l_data L) = nat \<bar>l_cap L\<bar>
     \<and> (l_out L \<noteq> None \<longrightarrow> l_inl L \<noteq> [] \<and> unat (l_inl L ! 0) = length (l_inl L))"

definition list_inv :: "idlist \<Rightarrow> bool" where
  "list_inv L \<longleftrightarrow> list_ok L \<and> 0 < l_cap L"

definition list_abs :: "idlist \<Rightarrow> w64 list" where
  "list_abs L = take (nat (l_len L)) (l_data L)"

definition list_blocks :: "idlist \<Rightarrow> blk list" where
  "list_blocks L =
     (case l_out L of None \<Rightarrow> [Header (id_list_bytes (length (l_inl L)))]
      | Some d \<Rightarrow> [Cells (8 * length d), Header (id_list_bytes (length (l_inl L)))])"

definition list_fits :: "env \<Rightarrow> nat \<Rightarrow> bool" where
  "list_fits e n \<longleftrightarrow> roomy e \<and> n \<le> 1073741824"

lemmas list_defs = list_inv_def list_ok_def list_abs_def

lemma l_data_put [simp]: "l_data (put_data d L) = d"
  by (simp add: l_data_def put_data_def split: option.splits)

lemma put_data_fields [simp]:
  "l_len (put_data d L) = l_len L" "l_cap (put_data d L) = l_cap L"
  "l_out (put_data d L) = None \<longleftrightarrow> l_out L = None"
  "l_out L \<noteq> None \<Longrightarrow> l_inl (put_data d L) = l_inl L"
  by (auto simp: put_data_def split: option.splits)

lemma l_data_len [simp]: "l_data (L\<lparr>l_len := n\<rparr>) = l_data L" "l_data (L\<lparr>l_cap := n\<rparr>) = l_data L"
  by (simp_all add: l_data_def split: option.splits)

lemma list_abs_length [simp]: "list_ok L \<Longrightarrow> length (list_abs L) = nat (l_len L)"
  by (auto simp: list_defs)

lemma list_invD:
  assumes "list_inv L"
  shows "0 \<le> l_len L" "l_len L \<le> l_cap L" "0 < l_cap L" "l_cap L \<le> INT_MAX"
    "length (l_data L) = nat (l_cap L)"
    "l_out L \<noteq> None \<Longrightarrow> l_inl L \<noteq> []"
    "l_out L \<noteq> None \<Longrightarrow> unat (l_inl L ! 0) = length (l_inl L)"
    "\<bar>l_cap L\<bar> = l_cap L"
  using assms by (auto simp: list_inv_def list_ok_def)

lemma list_invI:
  "\<lbrakk>0 \<le> l_len L; l_len L \<le> l_cap L; 0 < l_cap L; l_cap L \<le> INT_MAX;
    length (l_data L) = nat (l_cap L);
    l_out L \<noteq> None \<Longrightarrow> l_inl L \<noteq> [] \<and> unat (l_inl L ! 0) = length (l_inl L)\<rbrakk> \<Longrightarrow> list_inv L"
  by (simp add: list_inv_def list_ok_def)

lemma list_inv_ok: "list_inv L \<Longrightarrow> list_ok L"
  by (simp add: list_inv_def)

lemma list_inv_mut [simp]: "list_inv L \<Longrightarrow> id_list_mut_check L = Inr ()"
  by (simp add: list_inv_def id_list_mut_check_def)

lemma id_list_make_inv:
  assumes "id_list_make e len cap = Inr L" "0 \<le> len" "len \<le> cap" "0 < cap" "cap \<le> INT_MAX"
  shows "list_inv L \<and> l_len L = len \<and> l_cap L = cap \<and> l_out L = None"
  using assms by (auto simp: id_list_make_def list_inv_def list_ok_def l_data_def res_simps)

text \<open>Growth keeps the cells, makes room, and records the header block's capacity.\<close>

lemma id_list_grow_inv:
  assumes "list_inv L" "l_len L = l_cap L" "id_list_grow e L = Inr L'"
  shows "list_inv L' \<and> list_abs L' = list_abs L \<and> l_len L' = l_len L \<and> l_len L' < l_cap L'"
proof -
  note l = list_invD [OF assms(1)]
  from assms(3) have c: "l_cap L \<le> 1073741823"
    by (auto simp: id_list_grow_def INT_MAX_def split: if_splits)
  define ncap where "ncap = (if l_cap L < 2 then 4 else l_cap L * 2)"
  have nc: "l_cap L < ncap" "ncap \<le> INT_MAX" "0 < ncap"
    using l c by (auto simp: ncap_def INT_MAX_def)
  define d' where "d' = take (nat (l_cap L)) (l_data L) @ map (e_junk e) [nat (l_cap L)..<nat ncap]"
  have d': "length d' = nat ncap" "take (nat (l_cap L)) d' = take (nat (l_cap L)) (l_data L)"
    using l nc by (simp_all add: d'_def)
  show ?thesis
  proof (cases "l_out L")
    case None
    then have d: "l_data L = l_inl L" by (simp add: l_data_def)
    from d l have n: "l_inl L \<noteq> []" by auto
    have u: "unat (word_of_int (l_cap L) :: w64) = nat (l_cap L)"
      using l by (simp add: unat_of_int64)
    have L': "L' = L\<lparr>l_out := Some d', l_inl := (l_inl L)[0 := word_of_int (l_cap L)], l_cap := ncap\<rparr>"
      using assms(2,3) None d
      by (auto simp: id_list_grow_def ncap_def d'_def res_simps Let_def split: if_splits)
    have dl: "l_data L' = d'" by (simp add: L' l_data_def)
    have "list_inv L'"
    proof (rule list_invI)
      show "l_inl L' \<noteq> [] \<and> unat (l_inl L' ! 0) = length (l_inl L')"
        using n u d l by (simp add: L')
    qed (use l nc d' dl in \<open>simp_all add: L'\<close>)
    then show ?thesis using nc assms(2) d' dl by (simp add: list_abs_def L')
  next
    case (Some ds)
    then have d: "l_data L = ds" by (simp add: l_data_def)
    have L': "L' = L\<lparr>l_out := Some d', l_cap := ncap\<rparr>"
      using assms(2,3) Some d
      by (auto simp: id_list_grow_def ncap_def d'_def res_simps Let_def split: if_splits)
    have dl: "l_data L' = d'" by (simp add: L' l_data_def)
    have "list_inv L'" using Some
      by (intro list_invI) (use l nc d' dl in \<open>simp_all add: L'\<close>)
    then show ?thesis using nc assms(2) d' dl by (simp add: list_abs_def L')
  qed
qed

lemma id_list_grow_total:
  assumes "list_inv L" "roomy e" "l_cap L \<le> 1073741823"
  shows "\<exists>L'. id_list_grow e L = Inr L'"
proof -
  have "\<exists>nb. id_mul_check 8 (nat (if l_cap L < 2 then 4 else l_cap L * 2)) ''list growth'' = Inr nb"
    using assms(3) by (auto simp: id_mul_check_def SIZE_MAX_def)
  then show ?thesis using assms
    by (auto simp: id_list_grow_def roomy_def INT_MAX_def Let_def split: option.splits)
qed

lemma put_cell_inv:
  assumes "list_inv L" "0 \<le> i" "i < l_cap L" "n = l_len L \<or> (n = l_len L + 1 \<and> n \<le> l_cap L)"
  shows "list_inv ((put_data ((l_data L)[nat i := v]) L)\<lparr>l_len := n\<rparr>)"
  using list_invD [OF assms(1)] assms(2-) by (intro list_invI) auto

lemma id_list_push_ok:
  assumes "list_inv L" "id_list_push e (Some L) v = Inr L'"
  shows "list_inv L' \<and> list_abs L' = list_abs L @ [v]"
proof -
  from assms obtain M where M: "(if l_len L \<ge> l_cap L then id_list_grow e L else Inr L) = Inr M"
    and L': "L' = (put_data ((l_data M)[nat (l_len M) := v]) M)\<lparr>l_len := l_len M + 1\<rparr>"
    by (auto simp: id_list_push_def with_list_def res_simps)
  have g: "list_inv M \<and> list_abs M = list_abs L \<and> l_len M < l_cap M"
  proof (cases "l_len L \<ge> l_cap L")
    case True
    then have "l_len L = l_cap L" using assms(1) by (auto simp: list_inv_def list_ok_def)
    moreover from True M have "id_list_grow e L = Inr M" by simp
    ultimately show ?thesis using id_list_grow_inv [OF assms(1)] by metis
  next
    case False
    with M assms(1) show ?thesis by auto
  qed
  then have m: "list_inv M" "l_len M < l_cap M" "0 \<le> l_len M" "length (l_data M) = nat (l_cap M)"
    by (auto simp: list_inv_def list_ok_def)
  have "list_inv L'" unfolding L' using m by (intro put_cell_inv) auto
  moreover have "list_abs L' = list_abs M @ [v]"
  proof -
    have "nat (l_len M + 1) = Suc (nat (l_len M))" using m by simp
    then show ?thesis using m by (simp add: L' list_abs_def take_Suc_update)
  qed
  ultimately show ?thesis using g by simp
qed

lemma id_list_push_total:
  assumes "list_inv L" "list_fits e (Suc (length (list_abs L)))"
  shows "\<exists>L'. id_list_push e (Some L) v = Inr L'"
proof (cases "l_len L \<ge> l_cap L")
  case True
  with assms have "l_cap L \<le> 1073741823" "roomy e"
    by (auto simp: list_fits_def list_inv_def)
  then obtain M where "id_list_grow e L = Inr M" using id_list_grow_total [OF assms(1)] by blast
  then show ?thesis using assms(1) by (simp add: id_list_push_def with_list_def)
next
  case False
  then show ?thesis using assms(1) by (simp add: id_list_push_def with_list_def)
qed

lemma id_list_get_ok:
  assumes "list_ok L"
  shows "id_list_get (Some L) i =
    (if 0 \<le> i \<and> i < int (length (list_abs L)) then Inr (list_abs L ! nat i)
     else Inl (Trap_index i (int (length (list_abs L)))))"
proof -
  have "l_cap L \<noteq> INT_MIN" using assms by (auto simp: list_ok_def c_limits)
  moreover have "0 \<le> l_len L" "int (length (list_abs L)) = l_len L"
    using assms by (auto simp: list_ok_def list_abs_def)
  ultimately show ?thesis
    by (auto simp: id_list_get_def with_list_def list_abs_def)
qed

lemma id_list_set_ok:
  assumes "list_inv L" "0 \<le> i" "i < int (length (list_abs L))"
  shows "\<exists>L'. id_list_set (Some L) i v = Inr L' \<and> list_inv L' \<and> list_abs L' = (list_abs L)[nat i := v]"
proof -
  note l = list_invD [OF assms(1)]
  have i: "i < l_len L" "0 \<le> l_len L" "l_len L \<le> l_cap L"
    using assms l by (auto simp: list_abs_def)
  let ?M = "put_data ((l_data L)[nat i := v]) L"
  have "list_inv ((?M)\<lparr>l_len := l_len L\<rparr>)" using assms i by (intro put_cell_inv) auto
  then have "list_inv ?M" by (auto simp: list_inv_def list_ok_def)
  moreover have "list_abs ?M = (list_abs L)[nat i := v]"
    using i assms by (simp add: list_abs_def take_update_inside)
  ultimately show ?thesis using assms i by (simp add: id_list_set_def with_list_def)
qed

lemma id_list_pop_ok:
  assumes "list_inv L" "list_abs L \<noteq> []"
  shows "\<exists>L'. id_list_pop (Some L) = Inr (last (list_abs L), L') \<and> list_inv L'
    \<and> list_abs L' = butlast (list_abs L)"
proof -
  have l: "0 < l_len L" "l_len L \<le> l_cap L" "length (l_data L) = nat (l_cap L)"
    using assms by (auto simp: list_inv_def list_ok_def list_abs_def)
  have s: "nat (l_len L) = Suc (nat (l_len L - 1))" using l by simp
  have lt: "nat (l_len L - 1) < length (l_data L)" using l by simp
  have t: "list_abs L = take (nat (l_len L - 1)) (l_data L) @ [l_data L ! nat (l_len L - 1)]"
    using lt by (simp only: list_abs_def s take_Suc_conv_app_nth)
  have "list_inv (L\<lparr>l_len := l_len L - 1\<rparr>)"
    using list_invD [OF assms(1)] l by (intro list_invI) auto
  moreover have "list_abs (L\<lparr>l_len := l_len L - 1\<rparr>) = butlast (list_abs L)"
    by (simp add: t) (simp add: list_abs_def)
  ultimately show ?thesis using assms(1) l
    by (simp add: id_list_pop_def with_list_def Let_def) (simp add: t)
qed

interpretation lists: growable list_inv list_abs "list_fits e" "\<lambda>L. id_list_push e (Some L)"
    "\<lambda>L. id_list_get (Some L)" "\<lambda>L. id_list_set (Some L)" "\<lambda>L. id_list_pop (Some L)" for e
proof unfold_locales
  fix L v L' assume "list_inv L" "id_list_push e (Some L) v = Inr L'"
  then show "list_inv L' \<and> list_abs L' = list_abs L @ [v]" by (rule id_list_push_ok)
next
  fix L v assume "list_inv L" "list_fits e (Suc (length (list_abs L)))"
  then show "\<exists>L'. id_list_push e (Some L) v = Inr L'" by (rule id_list_push_total)
next
  fix L i assume "list_inv L"
  then show "id_list_get (Some L) i =
      (if 0 \<le> i \<and> i < int (length (list_abs L)) then Inr (list_abs L ! nat i)
       else Inl (Trap_index i (int (length (list_abs L)))))"
    by (intro id_list_get_ok list_inv_ok)
next
  fix L i v assume "list_inv L" "\<not> (0 \<le> i \<and> i < int (length (list_abs L)))"
  then show "id_list_set (Some L) i v = Inl (Trap_index i (int (length (list_abs L))))"
    by (auto simp: id_list_set_def with_list_def list_inv_def list_ok_def list_abs_def)
next
  fix L i v assume "list_inv L" "0 \<le> i" "i < int (length (list_abs L))"
  then show "\<exists>L'. id_list_set (Some L) i v = Inr L' \<and> list_inv L'
      \<and> list_abs L' = (list_abs L)[nat i := v]"
    by (rule id_list_set_ok)
next
  fix L assume "list_inv L" "list_abs L = []"
  then show "\<exists>e. id_list_pop (Some L) = Inl e"
    by (auto simp: id_list_pop_def with_list_def list_inv_def list_ok_def list_abs_def)
next
  fix L assume "list_inv L" "list_abs L \<noteq> []"
  then show "\<exists>L'. id_list_pop (Some L) = Inr (last (list_abs L), L') \<and> list_inv L'
      \<and> list_abs L' = butlast (list_abs L)"
    by (rule id_list_pop_ok)
qed

section \<open>Literals, lists from natives, locking, release\<close>

lemma push_all_ok:
  "list_inv L \<Longrightarrow> push_all e vs L = Inr L' \<Longrightarrow> list_inv L' \<and> list_abs L' = list_abs L @ vs"
proof (induction vs arbitrary: L)
  case Nil
  then show ?case by simp
next
  case (Cons v vs)
  then obtain M where "id_list_push e (Some L) v = Inr M" "push_all e vs M = Inr L'"
    by (auto simp: res_simps)
  with Cons.IH [of M] id_list_push_ok [OF Cons.prems(1)] show ?case by auto
qed

lemma push_all_total:
  "list_inv L \<Longrightarrow> roomy e \<Longrightarrow> length (list_abs L) + length vs \<le> 1073741824 \<Longrightarrow>
     \<exists>L'. push_all e vs L = Inr L'"
proof (induction vs arbitrary: L)
  case Nil
  then show ?case by simp
next
  case (Cons v vs)
  then obtain M where M: "id_list_push e (Some L) v = Inr M"
    using id_list_push_total [of L e v] by (auto simp: list_fits_def)
  from id_list_push_ok [OF Cons.prems(1) M] Cons.prems Cons.IH [of M] M show ?case by auto
qed

lemma id_list_new_ok:
  "id_list_new e = Inr L \<Longrightarrow> list_inv L \<and> list_abs L = []"
  using id_list_make_inv [of e 0 4 L] by (auto simp: id_list_new_def list_abs_def INT_MAX_def)

lemma id_list_make_total: "roomy e \<Longrightarrow> \<exists>L. id_list_make e len cap = Inr L"
  by (simp add: id_list_make_def roomy_def)

lemma id_list_adopt_ok:
  assumes "roomy e" "length d \<le> 1073741824" "length d = nat len" "0 \<le> len"
  shows "\<exists>L. id_list_adopt e (Some (len, Some d)) = Inr (Some L) \<and> list_inv L \<and> list_abs L = d"
proof -
  obtain L0 where L0: "id_list_new e = Inr L0"
    using id_list_make_total [OF assms(1)] by (auto simp: id_list_new_def)
  then have i: "list_inv L0" "list_abs L0 = []" using id_list_new_ok by auto
  obtain L where L: "push_all e d L0 = Inr L" using push_all_total [OF i(1) assms(1), of d] i assms(2) by auto
  from push_all_ok [OF i(1) L] i L L0 assms show ?thesis by (simp add: id_list_adopt_def)
qed

lemma fold_fill_cells:
  "n \<le> length xs \<Longrightarrow> n \<le> length d \<Longrightarrow>
     fold (\<lambda>k d. d[k := xs ! k]) [0..<n] d = take n xs @ drop n d"
proof (induction n)
  case 0
  then show ?case by simp
next
  case (Suc n)
  have "fold (\<lambda>k d. d[k := xs ! k]) [0..<Suc n] d = (take n xs @ drop n d)[n := xs ! n]"
    using Suc by simp
  also have "\<dots> = take n xs @ (xs ! n) # drop (Suc n) d"
    using Suc.prems by (simp add: list_update_append upd_conv_take_nth_drop take_drop)
  also have "\<dots> = take (Suc n) xs @ drop (Suc n) d"
    using Suc.prems by (simp add: take_Suc_conv_app_nth)
  finally show ?case .
qed

lemma id_list_lit_ok:
  assumes "id_list_lit e args = Inr L" "int (length args) \<le> INT_MAX"
  shows "list_inv L \<and> list_abs L = args"
proof -
  let ?n = "int (length args)"
  obtain M where M: "id_list_make e ?n (if ?n < 1 then 4 else ?n) = Inr M"
    and L: "L = put_data (fold (\<lambda>k d. d[k := args ! k]) [0..<length args] (l_data M)) M"
    using assms(1) by (auto simp: id_list_lit_def Let_def res_simps)
  have m: "list_inv M" "l_len M = ?n"
    using id_list_make_inv [OF M] assms(2) by (auto simp: INT_MAX_def split: if_splits)
  note l = list_invD [OF m(1)]
  have f: "fold (\<lambda>k d. d[k := args ! k]) [0..<length args] (l_data M) = args @ drop (length args) (l_data M)"
    using fold_fill_cells [of "length args" args "l_data M"] l m by simp
  have "list_inv L" unfolding L f using l m by (intro list_invI) auto
  moreover have "list_abs L = args" using m by (simp add: L f list_abs_def)
  ultimately show ?thesis ..
qed

lemma list_ok_cases:
  assumes "list_ok L"
  shows "list_inv L \<or> list_inv (id_list_lock L)"
  using assms by (auto simp: list_inv_def list_ok_def id_list_lock_def abs_if split: if_splits)

lemma push_locked: "list_inv L \<Longrightarrow> id_list_push e (Some (id_list_lock L)) v = Inl Trap_const_list"
  using list_invD(3,4) [of L]
  by (auto simp: id_list_push_def with_list_def id_list_mut_check_def id_list_lock_def c_limits)

lemma get_locked: "list_inv L \<Longrightarrow> id_list_get (Some (id_list_lock L)) i = id_list_get (Some L) i"
  using list_invD(3,4) [of L]
  by (auto simp: id_list_get_def with_list_def id_list_lock_def c_limits)

lemma nat_abs_cap: "nat (if c < 0 then - c else c) = nat \<bar>c :: int\<bar>"
  by simp

section \<open>Properties\<close>

text \<open>
  C8: The growable list implements its specification: every sequence of pushes, stores and
  pops, run on a list whose blocks can be had, succeeds exactly when the same sequence
  succeeds on the plain sequence of elements, with the same popped values and the same final
  contents, and keeps the invariant (inline cells, spilled block and capacity agree).
\<close>

theorem id_list_ops_refine:
  assumes "list_inv L" "roomy e" "length (list_abs L) + length ps \<le> 1073741824"
  shows "(\<forall>out L'. do_ops (\<lambda>L. id_list_push e (Some L)) (\<lambda>L. id_list_set (Some L))
              (\<lambda>L. id_list_pop (Some L)) ps L = Inr (out, L') \<longrightarrow>
            list_inv L' \<and> spec_ops ps (list_abs L) = Some (out, list_abs L'))
       \<and> (\<forall>out ys. spec_ops ps (list_abs L) = Some (out, ys) \<longrightarrow>
            (\<exists>L'. do_ops (\<lambda>L. id_list_push e (Some L)) (\<lambda>L. id_list_set (Some L))
              (\<lambda>L. id_list_pop (Some L)) ps L = Inr (out, L') \<and> list_inv L' \<and> list_abs L' = ys))"
proof (intro conjI allI impI)
  fix out L' assume "do_ops (\<lambda>L. id_list_push e (Some L)) (\<lambda>L. id_list_set (Some L))
    (\<lambda>L. id_list_pop (Some L)) ps L = Inr (out, L')"
  from lists.ops_refine [OF assms(1) this]
  show "list_inv L'" "spec_ops ps (list_abs L) = Some (out, list_abs L')" by auto
next
  fix out ys assume "spec_ops ps (list_abs L) = Some (out, ys)"
  from lists.ops_run [OF assms(1) this, of e] assms(2,3)
  show "\<exists>L'. do_ops (\<lambda>L. id_list_push e (Some L)) (\<lambda>L. id_list_set (Some L))
    (\<lambda>L. id_list_pop (Some L)) ps L = Inr (out, L') \<and> list_inv L' \<and> list_abs L' = ys"
    by (auto simp: list_fits_def)
qed

definition small_env :: env where
  "small_env = \<lparr>e_get = (\<lambda>_. Inr ()), e_realloc = (\<lambda>_ _. Inr ()), e_junk = (\<lambda>_. 7)\<rparr>"

definition small_list :: idlist where
  "small_list = \<lparr>l_len = 1, l_cap = 2, l_inl = [5, 6], l_out = None\<rparr>"

lemma small_list_inv: "list_inv small_list" "roomy small_env" "list_abs small_list = [5]"
  by (auto simp: small_list_def small_env_def roomy_def list_inv_def list_ok_def l_data_def
      list_abs_def INT_MAX_def)

theorem id_list_ops_refine_witness:
  "\<exists>L'. do_ops (\<lambda>L. id_list_push small_env (Some L)) (\<lambda>L. id_list_set (Some L))
      (\<lambda>L. id_list_pop (Some L)) [Push 8, Push 9, Set 0 4, Pop] small_list = Inr ([9], L')
    \<and> list_inv L' \<and> list_abs L' = [4, 8]"
  using id_list_ops_refine [OF small_list_inv(1,2), of "[Push 8, Push 9, Set 0 4, Pop]"]
  by (simp add: small_list_inv)

theorem id_list_free_balanced:
  assumes "list_ok L"
  shows "id_list_free False (Some L) = Inr (None, list_blocks L)"
proof (cases "l_out L")
  case None
  then show ?thesis using assms
    by (auto simp: id_list_free_def list_blocks_def list_ok_def l_data_def nat_abs_cap)
next
  case (Some d)
  then show ?thesis using assms
    by (auto simp: id_list_free_def list_blocks_def list_ok_def l_data_def nat_abs_cap)
qed

theorem id_list_free_balanced_witness:
  "id_list_free False (Some small_list) = Inr (None, [Header 32])"
  using id_list_free_balanced [OF list_inv_ok [OF small_list_inv(1)]]
  by (simp add: list_blocks_def small_list_def id_list_bytes_def)

theorem id_list_guard_catches_use_after_free:
  assumes "list_ok L"
  shows "\<exists>F. id_list_free True (Some L) = Inr (Some F, [])
     \<and> id_list_free True (Some F) = Inl Trap_freed_list
     \<and> id_list_get (Some F) i = Inl Trap_freed_list
     \<and> id_list_set (Some F) i v = Inl Trap_freed_list
     \<and> id_list_push e (Some F) v = Inl Trap_freed_list
     \<and> id_list_pop (Some F) = Inl Trap_freed_list
     \<and> id_list_len (Some F) = Inl Trap_freed_list"
proof -
  have "l_cap L \<noteq> INT_MIN" using assms by (auto simp: list_ok_def c_limits)
  then obtain F where F: "id_list_free True (Some L) = Inr (Some F, [])" "l_len F = - 1" "l_cap F = INT_MIN"
    by (simp add: id_list_free_def Let_def)
  have "INT_MIN < 0" by (simp add: INT_MIN_def)
  with F show ?thesis
    by (auto simp: id_list_free_def id_list_get_def id_list_set_def id_list_push_def id_list_pop_def
        id_list_len_def with_list_def id_list_mut_check_def)
qed

theorem id_list_guard_catches_use_after_free_witness:
  "\<exists>F. id_list_free True (Some small_list) = Inr (Some F, []) \<and> id_list_get (Some F) 0 = Inl Trap_freed_list"
  using id_list_guard_catches_use_after_free [OF list_inv_ok [OF small_list_inv(1)], of 0 0 small_env]
  by blast

theorem id_list_lock_const:
  assumes "list_inv L"
  shows "id_list_push e (Some (id_list_lock L)) v = Inl Trap_const_list
     \<and> id_list_set (Some (id_list_lock L)) i v = Inl Trap_const_list
     \<and> id_list_pop (Some (id_list_lock L)) = Inl Trap_const_list
     \<and> id_list_get (Some (id_list_lock L)) i = id_list_get (Some L) i
     \<and> id_list_len (Some (id_list_lock L)) = id_list_len (Some L)
     \<and> id_list_free False (Some (id_list_lock L)) = id_list_free False (Some L)
     \<and> id_list_lock (id_list_lock L) = L"
proof -
  note l = list_invD [OF assms]
  have c: "l_cap L \<noteq> INT_MIN" "- l_cap L \<noteq> INT_MIN" "- l_cap L < 0" "l_data (id_list_lock L) = l_data L"
    using l by (auto simp: c_limits id_list_lock_def l_data_def split: option.splits)
  show ?thesis using c l(1-3)
    by (auto simp: id_list_push_def id_list_set_def id_list_pop_def id_list_get_def id_list_len_def
        with_list_def id_list_mut_check_def id_list_free_def id_list_lock_def Let_def
        split: option.splits)
qed

theorem id_list_lock_const_witness:
  "id_list_push small_env (Some (id_list_lock small_list)) 3 = Inl Trap_const_list"
  using id_list_lock_const [OF small_list_inv(1)] by blast

theorem id_list_adopt_lit:
  assumes "roomy e" "length d \<le> 1073741824"
  shows "\<exists>L M. id_list_adopt e (Some (int (length d), Some d)) = Inr (Some L)
     \<and> id_list_lit e d = Inr M
     \<and> list_inv L \<and> list_inv M \<and> list_abs L = d \<and> list_abs M = d"
proof -
  let ?n = "int (length d)"
  obtain M0 where "id_list_make e ?n (if ?n < 1 then 4 else ?n) = Inr M0"
    using id_list_make_total [OF assms(1)] by blast
  then obtain M where M: "id_list_lit e d = Inr M" by (simp add: id_list_lit_def Let_def)
  have "int (length d) \<le> INT_MAX" using assms(2) by (simp add: INT_MAX_def)
  from id_list_lit_ok [OF M this] id_list_adopt_ok [OF assms, of "int (length d)"] M
  show ?thesis by auto
qed

theorem id_list_adopt_lit_witness:
  "\<exists>L. id_list_adopt small_env (Some (3, Some [1, 2, 3])) = Inr (Some L) \<and> list_abs L = [1, 2, 3]"
  using id_list_adopt_lit [OF small_list_inv(2), of "[1, 2, 3]"] by auto

end
