(* ===== verification/Closures.thy ===== *)
theory Closures
  imports IdList
begin

text \<open>
  Function values. A closure is a block: the function, the plain pointer a native may be
  given (0 when there is none), the number of captured cells, the cells, and one more cell
  whose bits say which of the first 63 cells hold a list the closure owns. Functions and
  lists are addresses.
\<close>

record clo =
  f_fn :: nat
  f_raw :: nat
  f_n :: int
  f_cells :: "w64 list"

definition id_clo_make :: "env \<Rightarrow> nat \<Rightarrow> int \<Rightarrow> clo res" where
  "id_clo_make e fn n =
     andThen (id_mul_check 8 (nat (n + 1)) ''closure'') (\<lambda>c.
     andThen (id_add_check 24 c ''closure'') (\<lambda>b.
     andThen (e_get e b) (\<lambda>_.
       Inr \<lparr>f_fn = fn, f_raw = 0, f_n = n, f_cells = replicate (nat (n + 1)) 0\<rparr>)))"

definition id_clo_new :: "env \<Rightarrow> clo \<Rightarrow> clo res" where
  "id_clo_new e t = id_clo_make e (f_fn t) (f_n t)"

definition id_clo_set :: "clo \<Rightarrow> int \<Rightarrow> w64 \<Rightarrow> clo" where
  "id_clo_set c i v = c\<lparr>f_cells := (f_cells c)[nat i := v]\<rparr>"

definition id_clo_setl :: "clo \<Rightarrow> int \<Rightarrow> w64 \<Rightarrow> clo" where
  "id_clo_setl c i v =
     (let c1 = id_clo_set c i v
      in if i < 63
         then c1\<lparr>f_cells := (f_cells c1)[nat (f_n c1) := (f_cells c1 ! nat (f_n c1)) OR push_bit (nat i) 1]\<rparr>
         else c1)"

text \<open>
  \<open>id_clo_free\<close>: the closure afterwards (None once its block is given back), the lists freed,
  in order, and the block.
\<close>

definition id_clo_free :: "bool \<Rightarrow> clo option \<Rightarrow> (clo option \<times> w64 list \<times> blk list) res" where
  "id_clo_free guard co =
     (case co of None \<Rightarrow> Inr (None, [], [])
      | Some c \<Rightarrow>
          if f_n c < 0 then Inl Trap_freed_list
          else
            let m = f_cells c ! nat (f_n c);
                ls = map (\<lambda>i. f_cells c ! i) (filter (\<lambda>i. bit m i) [0..<min 63 (nat (f_n c))]);
                cells = nat (f_n c) + 1
            in if guard
               then Inr (Some (c\<lparr>f_cells := replicate cells 0xDDDDDDDDDDDDDDDD, f_n := - 1\<rparr>), ls, [])
               else Inr (None, ls, [Cells (24 + cells * 8)]))"

definition id_clo_copy :: "env \<Rightarrow> idlist option \<Rightarrow> idlist res" where
  "id_clo_copy e Lo =
     with_list Lo (\<lambda>L.
       andThen (id_list_new e) (\<lambda>M.
       andThen (push_all e (take (nat (l_len L)) (l_data L)) M) (\<lambda>M. Inr (id_list_lock M))))"

definition id_fn_raw :: "clo option \<Rightarrow> nat res" where
  "id_fn_raw co =
     (case co of None \<Rightarrow> Inl Trap_null_read
      | Some c \<Rightarrow> if f_raw c = 0 then Inl Trap_closure_native else Inr (f_raw c))"

text \<open>\<open>same\<close> says the two pointers are equal.\<close>

definition id_fn_eq :: "bool \<Rightarrow> clo option \<Rightarrow> clo option \<Rightarrow> bool" where
  "id_fn_eq same ao bo \<longleftrightarrow>
     same \<or> (case (ao, bo) of
       (Some a, Some b) \<Rightarrow> f_fn a = f_fn b \<and> f_raw a = f_raw b \<and> f_n a = f_n b
         \<and> take (nat (f_n a)) (f_cells a) = take (nat (f_n a)) (f_cells b)
     | _ \<Rightarrow> False)"

definition id_clo_fn :: "clo option \<Rightarrow> nat res" where
  "id_clo_fn co = (case co of None \<Rightarrow> Inl Trap_null_read | Some c \<Rightarrow> Inr (f_fn c))"

definition id_clo_cell :: "clo option \<Rightarrow> int \<Rightarrow> w64 res" where
  "id_clo_cell co i = (case co of None \<Rightarrow> Inl Trap_null_read | Some c \<Rightarrow> Inr (f_cells c ! nat i))"

text \<open>The table of plain functions' values: one object per function, for up to 64 of them.\<close>

definition id_fn_plain :: "env \<Rightarrow> clo list \<Rightarrow> nat \<Rightarrow> nat \<Rightarrow> (clo \<times> clo list) res" where
  "id_fn_plain e tab fn raw =
     (case find (\<lambda>c. f_fn c = fn) tab of
        Some c \<Rightarrow> Inr (c, tab)
      | None \<Rightarrow>
          andThen (id_clo_make e fn 0) (\<lambda>c.
            let c1 = c\<lparr>f_raw := raw\<rparr>
            in Inr (c1, if length tab < 64 then tab @ [c1] else tab)))"

section \<open>Building and releasing a closure\<close>

definition clo_ok :: "clo \<Rightarrow> bool" where
  "clo_ok c \<longleftrightarrow> 0 \<le> f_n c \<and> length (f_cells c) = Suc (nat (f_n c))"

text \<open>Storing the captured values in order; a list the closure owns is stored by \<open>id_clo_setl\<close>.\<close>

fun capture :: "int \<Rightarrow> (bool \<times> w64) list \<Rightarrow> clo \<Rightarrow> clo" where
  "capture i [] c = c"
| "capture i ((own, v) # vs) c =
     capture (i + 1) vs (if own then id_clo_setl c i v else id_clo_set c i v)"

lemma id_clo_make_ok:
  assumes "roomy e" "0 \<le> n" "n \<le> INT_MAX"
  shows "id_clo_make e fn n = Inr \<lparr>f_fn = fn, f_raw = 0, f_n = n, f_cells = replicate (nat (n + 1)) 0\<rparr>"
  using assms
  by (auto simp: id_clo_make_def id_mul_check_def id_add_check_def roomy_def c_limits)

lemma clo_set_facts:
  assumes "clo_ok c" "0 \<le> i" "i < f_n c"
  shows "clo_ok (id_clo_set c i v)" "f_n (id_clo_set c i v) = f_n c"
    "f_cells (id_clo_set c i v) ! nat i = v"
    "j \<noteq> nat i \<Longrightarrow> f_cells (id_clo_set c i v) ! j = f_cells c ! j"
    "clo_ok (id_clo_setl c i v)" "f_n (id_clo_setl c i v) = f_n c"
    "f_cells (id_clo_setl c i v) ! nat i = v"
    "j \<noteq> nat i \<Longrightarrow> j \<noteq> nat (f_n c) \<Longrightarrow> f_cells (id_clo_setl c i v) ! j = f_cells c ! j"
  using assms by (auto simp: id_clo_set_def id_clo_setl_def clo_ok_def Let_def nth_list_update)

lemma clo_mask:
  assumes "clo_ok c" "0 \<le> i" "i < f_n c"
  shows "f_cells (id_clo_set c i v) ! nat (f_n c) = f_cells c ! nat (f_n c)"
    "k < 63 \<Longrightarrow> bit (f_cells (id_clo_setl c i v) ! nat (f_n c)) k \<longleftrightarrow>
       bit (f_cells c ! nat (f_n c)) k \<or> k = nat i"
proof -
  have "nat i \<noteq> nat (f_n c)" using assms by simp
  then show "f_cells (id_clo_set c i v) ! nat (f_n c) = f_cells c ! nat (f_n c)"
    by (simp add: id_clo_set_def)
  show "bit (f_cells (id_clo_setl c i v) ! nat (f_n c)) k \<longleftrightarrow>
       bit (f_cells c ! nat (f_n c)) k \<or> k = nat i" if k: "k < 63"
  proof (cases "i < 63")
    case True
    then show ?thesis using assms k
      by (auto simp: id_clo_setl_def id_clo_set_def clo_ok_def Let_def bit_or_iff bit_push_bit_iff
          bit_exp_iff nth_list_update)
  next
    case False
    then have "k \<noteq> nat i" using k by simp
    then show ?thesis using assms False
      by (simp add: id_clo_setl_def id_clo_set_def)
  qed
qed

lemma capture_facts:
  assumes "clo_ok c" "0 \<le> i" "i + int (length vs) = f_n c"
  shows "clo_ok (capture i vs c) \<and> f_n (capture i vs c) = f_n c
    \<and> (\<forall>j < length vs. f_cells (capture i vs c) ! (nat i + j) = snd (vs ! j))
    \<and> (\<forall>j < nat i. f_cells (capture i vs c) ! j = f_cells c ! j)
    \<and> (\<forall>k < 63. bit (f_cells (capture i vs c) ! nat (f_n c)) k \<longleftrightarrow>
         bit (f_cells c ! nat (f_n c)) k \<or> (nat i \<le> k \<and> k < nat i + length vs \<and> fst (vs ! (k - nat i))))"
  using assms
proof (induction vs arbitrary: i c)
  case Nil
  then show ?case by auto
next
  case (Cons x vs)
  obtain own v where x: "x = (own, v)" by (cases x)
  define d where "d = (if own then id_clo_setl c i v else id_clo_set c i v)"
  have i: "0 \<le> i" "i < f_n c" using Cons.prems by auto
  note s = clo_set_facts [OF Cons.prems(1) i, where v = v] and m = clo_mask [OF Cons.prems(1) i, where v = v]
  have d: "clo_ok d" "f_n d = f_n c" "f_cells d ! nat i = v"
    "\<And>j. j < nat i \<Longrightarrow> f_cells d ! j = f_cells c ! j"
    using s i by (auto simp: d_def)
  have b: "bit (f_cells d ! nat (f_n c)) k \<longleftrightarrow> bit (f_cells c ! nat (f_n c)) k \<or> (own \<and> k = nat i)"
    if "k < 63" for k
    using m(1) m(2) [OF that] by (auto simp: d_def)
  have ni: "nat (i + 1) = Suc (nat i)" using i by simp
  from Cons.IH [OF d(1), of "i + 1"] Cons.prems i d(2)
  have ih: "clo_ok (capture (i + 1) vs d)" "f_n (capture (i + 1) vs d) = f_n c"
    "\<And>j. j < length vs \<Longrightarrow> f_cells (capture (i + 1) vs d) ! (Suc (nat i) + j) = snd (vs ! j)"
    "\<And>j. j < Suc (nat i) \<Longrightarrow> f_cells (capture (i + 1) vs d) ! j = f_cells d ! j"
    "\<And>k. k < 63 \<Longrightarrow> bit (f_cells (capture (i + 1) vs d) ! nat (f_n c)) k \<longleftrightarrow>
       bit (f_cells d ! nat (f_n c)) k \<or> (Suc (nat i) \<le> k \<and> k < Suc (nat i) + length vs \<and> fst (vs ! (k - Suc (nat i))))"
    by (auto simp: ni)
  have c: "capture i (x # vs) c = capture (i + 1) vs d" by (simp add: x d_def)
  have "f_cells (capture i (x # vs) c) ! (nat i + j) = snd ((x # vs) ! j)" if "j < length (x # vs)" for j
  proof (cases j)
    case 0
    then show ?thesis using ih(4) [of "nat i"] d(3) unfolding c by (simp add: x)
  next
    case (Suc j')
    then show ?thesis using ih(3) [of j'] that unfolding c by simp
  qed
  moreover have "bit (f_cells (capture i (x # vs) c) ! nat (f_n c)) k \<longleftrightarrow>
       bit (f_cells c ! nat (f_n c)) k
       \<or> (nat i \<le> k \<and> k < nat i + length (x # vs) \<and> fst ((x # vs) ! (k - nat i)))" if "k < 63" for k
  proof -
    have "(nat i \<le> k \<and> k < nat i + length (x # vs) \<and> fst ((x # vs) ! (k - nat i))) \<longleftrightarrow>
      (own \<and> k = nat i) \<or> (Suc (nat i) \<le> k \<and> k < Suc (nat i) + length vs \<and> fst (vs ! (k - Suc (nat i))))"
      by (cases "k = nat i") (auto simp: x nth_Cons' Suc_diff_le)
    then show ?thesis using ih(5) [OF that] b [OF that] unfolding c by simp
  qed
  ultimately show ?case using ih d c by auto
qed

section \<open>Properties\<close>

text \<open>
  C39: Freeing a closure releases exactly the captured lists marked as owned among the first
  63 captures, and its own block.
\<close>

theorem id_clo_free_owned_lists:
  assumes "roomy e" "int (length vs) \<le> INT_MAX" "id_clo_make e fn (int (length vs)) = Inr c"
  shows "id_clo_free False (Some (capture 0 vs c))
     = Inr (None, map snd (filter fst (take 63 vs)), [Cells (24 + 8 * (length vs + 1))])"
proof -
  let ?n = "length vs" and ?d = "capture 0 vs c"
  have c: "c = \<lparr>f_fn = fn, f_raw = 0, f_n = int ?n, f_cells = replicate (Suc ?n) 0\<rparr>"
    using assms id_clo_make_ok [OF assms(1) _ assms(2)] by (simp add: nat_add_distrib)
  have ok: "clo_ok c" by (simp add: c clo_ok_def)
  have fn: "f_n c = int ?n" "\<And>k. \<not> bit (f_cells c ! ?n) k" by (simp_all add: c nth_append del: replicate_Suc)
  from capture_facts [OF ok, of 0 vs] fn have d: "clo_ok ?d" "f_n ?d = int ?n"
    "\<And>j. j < ?n \<Longrightarrow> f_cells ?d ! j = snd (vs ! j)"
    "\<And>k. k < 63 \<Longrightarrow> bit (f_cells ?d ! ?n) k \<longleftrightarrow> k < ?n \<and> fst (vs ! k)"
    by auto
  let ?m = "min 63 ?n"
  have "map (\<lambda>i. f_cells ?d ! i) (filter (\<lambda>i. bit (f_cells ?d ! ?n) i) [0..<?m])
      = map (\<lambda>i. snd (vs ! i)) (filter (\<lambda>i. fst (vs ! i)) [0..<?m])"
    by (rule map_cong) (auto intro!: filter_cong simp: d(3,4))
  also have "\<dots> = map snd (filter fst (map (\<lambda>i. vs ! i) [0..<?m]))"
    by (simp add: filter_map comp_def)
  also have "map (\<lambda>i. vs ! i) [0..<?m] = take 63 vs"
    by (rule nth_equalityI) (auto simp: min_def split: if_splits)
  finally show ?thesis using d(2) by (simp add: id_clo_free_def Let_def)
qed

theorem id_clo_free_owned_lists_witness:
  "\<exists>c. id_clo_make small_env 5 3 = Inr c
     \<and> id_clo_free False (Some (capture 0 [(True, 8), (False, 9), (True, 10)] c))
         = Inr (None, [8, 10], [Cells 56])"
proof -
  have m: "id_clo_make small_env 5 (int (length [(True, 8), (False, 9), (True, 10 :: w64)]))
      = Inr \<lparr>f_fn = 5, f_raw = 0, f_n = 3, f_cells = replicate 4 0\<rparr>"
    using id_clo_make_ok [OF small_list_inv(2), of 3 5] by (simp add: INT_MAX_def)
  from id_clo_free_owned_lists [OF small_list_inv(2) _ m] m show ?thesis by (simp add: INT_MAX_def)
qed

theorem id_clo_copy_const:
  assumes "list_ok L" "roomy e" "length (list_abs L) \<le> 1073741824"
  shows "\<exists>M. id_clo_copy e (Some L) = Inr M \<and> list_abs M = list_abs L
     \<and> id_list_push e (Some M) v = Inl Trap_const_list
     \<and> id_list_get (Some M) i = id_list_get (Some L) i"
proof -
  obtain N where N: "id_list_new e = Inr N" using id_list_make_total [OF assms(2)]
    by (auto simp: id_list_new_def)
  then have n: "list_inv N" "list_abs N = []" using id_list_new_ok by auto
  obtain M where M: "push_all e (list_abs L) N = Inr M"
    using push_all_total [OF n(1) assms(2), of "list_abs L"] n assms(3) by auto
  from push_all_ok [OF n(1) M] n have m: "list_inv M" "list_abs M = list_abs L" by auto
  have "id_clo_copy e (Some L) = Inr (id_list_lock M)"
    using N M by (simp add: id_clo_copy_def with_list_def list_abs_def)
  moreover have "list_abs (id_list_lock M) = list_abs L"
    using m by (simp add: id_list_lock_def list_abs_def)
  moreover have "id_list_get (Some (id_list_lock M)) i = id_list_get (Some L) i"
    using get_locked [OF m(1)] id_list_get_ok [OF list_inv_ok [OF m(1)]] id_list_get_ok [OF assms(1)] m
    by simp
  ultimately show ?thesis using push_locked [OF m(1)] by blast
qed

theorem id_clo_copy_const_witness:
  "\<exists>M. id_clo_copy small_env (Some small_list) = Inr M \<and> list_abs M = [5]
     \<and> id_list_push small_env (Some M) 1 = Inl Trap_const_list"
  using id_clo_copy_const [OF list_inv_ok [OF small_list_inv(1)] small_list_inv(2), of 1]
  by (auto simp: small_list_inv)

text \<open>One function value per plain function, while the table has room.\<close>

theorem id_fn_plain_shared:
  assumes "length tab < 64" "id_fn_plain e tab fn raw = Inr (c, tab')"
  shows "f_fn c = fn \<and> id_fn_plain e tab' fn raw' = Inr (c, tab')"
proof (cases "find (\<lambda>c. f_fn c = fn) tab")
  case None
  then have "\<forall>d \<in> set tab. f_fn d \<noteq> fn" by (simp add: find_None_iff)
  moreover from None assms have t: "tab' = tab @ [c]" "f_fn c = fn"
    by (auto simp: id_fn_plain_def id_clo_make_def res_simps Let_def)
  ultimately have "find (\<lambda>c. f_fn c = fn) tab' = Some c"
    by (induction tab arbitrary: tab') auto
  then show ?thesis using t by (simp add: id_fn_plain_def)
next
  case (Some d)
  then have "f_fn d = fn" by (auto simp: find_Some_iff)
  then show ?thesis using Some assms by (auto simp: id_fn_plain_def)
qed

theorem id_fn_plain_shared_witness:
  "\<exists>c. id_fn_plain small_env [] 9 10 = Inr (c, [c]) \<and> id_fn_plain small_env [c] 9 11 = Inr (c, [c])"
proof -
  have "id_clo_make small_env 9 0 = Inr \<lparr>f_fn = 9, f_raw = 0, f_n = 0, f_cells = [0]\<rparr>"
    using id_clo_make_ok [OF small_list_inv(2), of 0 9] by (simp add: INT_MAX_def)
  then have "id_fn_plain small_env [] 9 10 = Inr (\<lparr>f_fn = 9, f_raw = 10, f_n = 0, f_cells = [0]\<rparr>,
      [\<lparr>f_fn = 9, f_raw = 10, f_n = 0, f_cells = [0]\<rparr>])"
    by (simp add: id_fn_plain_def Let_def)
  with id_fn_plain_shared [OF _ this] show ?thesis by auto
qed

end
