(* ===== verification/LexScan.thy ===== *)
theory LexScan
  imports Strings
begin

text \<open>
  The lexer's reading of characters: the character classes, the keyword table, the cursor
  loops that find where a token ends, and the value of a hexadecimal or binary literal.
  Everything here reads the source only; the cursor is an \<open>int\<close>, and reading outside the
  source gives -1. Lengths are bounded so that no cursor overflows (\<open>id_len\<close> is an
  \<open>int\<close>).
\<close>

section \<open>Character classes\<close>

definition id_character_in :: "int \<Rightarrow> int \<Rightarrow> int \<Rightarrow> bool" where
  "id_character_in code lo hi \<longleftrightarrow> code \<ge> lo \<and> code \<le> hi"

definition id_character_is_alpha :: "int \<Rightarrow> bool" where
  "id_character_is_alpha code \<longleftrightarrow> id_character_in code 65 90 \<or> id_character_in code 97 122"

definition id_character_is_space :: "int \<Rightarrow> bool" where
  "id_character_is_space code \<longleftrightarrow> ((code = 32 \<or> code = 9) \<or> code = 10) \<or> code = 13"

definition id_character_is_name_start :: "int \<Rightarrow> bool" where
  "id_character_is_name_start code \<longleftrightarrow> id_character_is_alpha code \<or> code = 95"

definition id_character_is_digit :: "int \<Rightarrow> bool" where
  "id_character_is_digit code \<longleftrightarrow> id_character_in code 48 57"

definition id_character_is_name_part :: "int \<Rightarrow> bool" where
  "id_character_is_name_part code \<longleftrightarrow> id_character_is_name_start code \<or> id_character_is_digit code"

definition id_is_hex :: "int \<Rightarrow> bool" where
  "id_is_hex c \<longleftrightarrow> (id_character_is_digit c \<or> (c \<ge> 97 \<and> c \<le> 102)) \<or> (c \<ge> 65 \<and> c \<le> 70)"

definition id_is_bin :: "int \<Rightarrow> bool" where
  "id_is_bin c \<longleftrightarrow> c = 48 \<or> c = 49"

lemmas char_class_defs = id_character_in_def id_character_is_alpha_def id_character_is_space_def
  id_character_is_name_start_def id_character_is_digit_def id_character_is_name_part_def
  id_is_hex_def id_is_bin_def

abbreviation code_at :: "string \<Rightarrow> int \<Rightarrow> int" where "code_at \<equiv> id_character_code_at"

definition id_idstd_character_is_digit_at :: "string \<Rightarrow> int \<Rightarrow> bool" where
  "id_idstd_character_is_digit_at s i = id_character_is_digit (code_at s i)"

definition id_idstd_character_is_space_at :: "string \<Rightarrow> int \<Rightarrow> bool" where
  "id_idstd_character_is_space_at s i = id_character_is_space (code_at s i)"

definition id_is_name_start_at :: "string \<Rightarrow> int \<Rightarrow> bool" where
  "id_is_name_start_at src i = id_character_is_name_start (code_at src i)"

definition id_is_name_part_at :: "string \<Rightarrow> int \<Rightarrow> bool" where
  "id_is_name_part_at src i = id_character_is_name_part (code_at src i)"

definition id_is_hex_at :: "string \<Rightarrow> int \<Rightarrow> bool" where
  "id_is_hex_at src i = id_is_hex (code_at src i)"

definition id_is_bin_at :: "string \<Rightarrow> int \<Rightarrow> bool" where
  "id_is_bin_at src i = id_is_bin (code_at src i)"

lemmas class_at_defs = id_idstd_character_is_digit_at_def id_idstd_character_is_space_at_def
  id_is_name_start_at_def id_is_name_part_at_def id_is_hex_at_def id_is_bin_at_def

section \<open>Words\<close>

text \<open>\<open>strcmp(a, b) == 0\<close>\<close>

definition streq :: "string \<Rightarrow> string \<Rightarrow> bool" where
  "streq a b \<longleftrightarrow> c_text a = c_text b"

definition kw_list :: "string list" where
  "kw_list = [''int'', ''float'', ''string'', ''void'', ''if'', ''else'', ''while'', ''for'',
     ''return'', ''export'', ''import'', ''word'', ''asm'', ''native'', ''given'', ''then'',
     ''func'', ''prints'', ''eprints'', ''calls'', ''chain'', ''blank'', ''break'', ''stdin'',
     ''traps'', ''timeout'', ''struct'', ''pure'', ''bytes'', ''sender'', ''receiver'',
     ''bool'', ''true'', ''false'']"

definition id_is_kw :: "string \<Rightarrow> bool" where
  "id_is_kw w \<longleftrightarrow> list_ex (\<lambda>k. streq w k) kw_list"

definition id_kindof :: "string \<Rightarrow> string" where
  "id_kindof w = (if id_is_kw w then ''kw'' else ''ident'')"

definition two_ops :: "string list" where
  "two_ops = [''=='', ''!='', ''<='', ''>='', ''&&'', ''||'', ''<<'', ''>>'']"

definition id_is_two_op :: "string \<Rightarrow> bool" where
  "id_is_two_op two \<longleftrightarrow> list_ex (\<lambda>k. streq two k) two_ops"

section \<open>Where a token ends\<close>

text \<open>The cursor loops; each stops at the end of the source, where the code is -1.\<close>

lemma code_at_bound: "code_at s i \<noteq> - 1 \<Longrightarrow> 0 \<le> i \<and> i < int (length s)"
  by (auto simp: id_character_code_at_def id_slen_def split: if_splits)

lemma class_at_bound:
  "id_idstd_character_is_digit_at s i \<Longrightarrow> i < int (length s)"
  "id_is_hex_at s i \<Longrightarrow> i < int (length s)"
  "id_is_bin_at s i \<Longrightarrow> i < int (length s)"
  "id_is_name_part_at s i \<Longrightarrow> i < int (length s)"
  using code_at_bound [of s i] by (auto simp: class_at_defs char_class_defs)

function id_string_end_of_line :: "string \<Rightarrow> int \<Rightarrow> int" where
  "id_string_end_of_line s i =
     (if code_at s i \<noteq> 10 \<and> code_at s i \<noteq> - 1 then id_string_end_of_line s (i + 1) else i)"
  by pat_completeness auto
termination
  by (relation "measure (\<lambda>(s, i). nat (int (length s) - i))") (auto dest: code_at_bound)

function id_digit_run_end :: "string \<Rightarrow> int \<Rightarrow> int" where
  "id_digit_run_end src i =
     (if id_idstd_character_is_digit_at src i then id_digit_run_end src (i + 1) else i)"
  by pat_completeness auto
termination
  by (relation "measure (\<lambda>(s, i). nat (int (length s) - i))") (auto dest: class_at_bound)

function id_hex_end :: "string \<Rightarrow> int \<Rightarrow> int" where
  "id_hex_end src i = (if id_is_hex_at src i then id_hex_end src (i + 1) else i)"
  by pat_completeness auto
termination
  by (relation "measure (\<lambda>(s, i). nat (int (length s) - i))") (auto dest: class_at_bound)

function id_bin_end :: "string \<Rightarrow> int \<Rightarrow> int" where
  "id_bin_end src i = (if id_is_bin_at src i then id_bin_end src (i + 1) else i)"
  by pat_completeness auto
termination
  by (relation "measure (\<lambda>(s, i). nat (int (length s) - i))") (auto dest: class_at_bound)

definition id_adv_str :: "string \<Rightarrow> int \<Rightarrow> int" where
  "id_adv_str src i = (if code_at src i = 92 then i + 2 else i + 1)"

function id_str_end :: "string \<Rightarrow> int \<Rightarrow> int" where
  "id_str_end src i =
     (if code_at src i \<noteq> 34 \<and> code_at src i \<noteq> - 1 then id_str_end src (id_adv_str src i) else i)"
  by pat_completeness auto
termination
  by (relation "measure (\<lambda>(s, i). nat (int (length s) - i))")
     (auto simp: id_adv_str_def dest: code_at_bound)

function id_zero_end :: "string \<Rightarrow> int \<Rightarrow> int \<Rightarrow> int" where
  "id_zero_end src from e =
     (if from < e \<and> code_at src from = 48 then id_zero_end src (from + 1) e else from)"
  by pat_completeness auto
termination by (relation "measure (\<lambda>(s, i, e). nat (e - i))") auto

declare id_string_end_of_line.simps [simp del] id_digit_run_end.simps [simp del]
  id_hex_end.simps [simp del] id_bin_end.simps [simp del] id_str_end.simps [simp del]
  id_zero_end.simps [simp del]

section \<open>Numbers\<close>

definition id_has_frac :: "string \<Rightarrow> int \<Rightarrow> bool" where
  "id_has_frac src e \<longleftrightarrow> code_at src e = 46 \<and> id_idstd_character_is_digit_at src (e + 1)"

definition id_exp_end :: "string \<Rightarrow> int \<Rightarrow> int" where
  "id_exp_end src fe =
     (let c = code_at src fe
      in if c = 101 \<or> c = 69 then
           let sg = code_at src (fe + 1)
           in id_digit_run_end src ((fe + 1) + (if sg = 43 \<or> sg = 45 then 1 else 0))
         else fe)"

definition id_num_end :: "string \<Rightarrow> int \<Rightarrow> int \<Rightarrow> int" where
  "id_num_end src i e =
     (let fe = (if id_has_frac src e then id_digit_run_end src (e + 1) else e) in id_exp_end src fe)"

definition id_numkind :: "int \<Rightarrow> int \<Rightarrow> string" where
  "id_numkind e fe = (if fe > e then ''float'' else ''int'')"

definition id_hex_start :: "string \<Rightarrow> int \<Rightarrow> bool" where
  "id_hex_start src i \<longleftrightarrow>
     (code_at src i = 48 \<and> (code_at src (i + 1) = 120 \<or> code_at src (i + 1) = 88)) \<and> id_is_hex_at src (i + 2)"

definition id_bin_start :: "string \<Rightarrow> int \<Rightarrow> bool" where
  "id_bin_start src i \<longleftrightarrow>
     (code_at src i = 48 \<and> (code_at src (i + 1) = 98 \<or> code_at src (i + 1) = 66)) \<and> id_is_bin_at src (i + 2)"

definition id_hex_alpha :: "int \<Rightarrow> int" where
  "id_hex_alpha c = (if c \<ge> 97 then c - 87 else c - 55)"

definition id_hex_digit :: "int \<Rightarrow> int" where
  "id_hex_digit c = (if c \<ge> 65 then id_hex_alpha c else c - 48)"

text \<open>The value loops work in 64-bit words.\<close>

function hex_loop :: "string \<Rightarrow> int \<Rightarrow> int \<Rightarrow> w64 \<Rightarrow> w64" where
  "hex_loop src i e v =
     (if i < e then hex_loop src (i + 1) e (v * 16 + word_of_int (id_hex_digit (code_at src i))) else v)"
  by pat_completeness auto
termination by (relation "measure (\<lambda>(s, i, e, v). nat (e - i))") auto

definition id_hex_val :: "string \<Rightarrow> int \<Rightarrow> int \<Rightarrow> w64" where
  "id_hex_val src i e = hex_loop src i e 0"

text \<open>
  The binary loop is emitted twice: reading the bytes directly where the whole range is
  inside the string, through the checked read otherwise.
\<close>

function bin_loop :: "(int \<Rightarrow> int) \<Rightarrow> int \<Rightarrow> int \<Rightarrow> w64 \<Rightarrow> w64" where
  "bin_loop rd i e v =
     (if i < e then bin_loop rd (i + 1) e ((v * 2 + word_of_int (rd i)) - 48) else v)"
  by pat_completeness auto
termination by (relation "measure (\<lambda>(rd, i, e, v). nat (e - i))") auto

definition id_bin_val :: "string \<Rightarrow> int \<Rightarrow> int \<Rightarrow> w64" where
  "id_bin_val src i e =
     (if e \<le> int (id_slen src) - 0 \<and> i \<ge> 0
      then bin_loop (\<lambda>j. int (of_char (src ! nat j))) i e 0
      else bin_loop (code_at src) i e 0)"

declare hex_loop.simps [simp del] bin_loop.simps [simp del]

text \<open>Unsigned decimal, printed in two halves through the signed printer.\<close>

lemma id_len_Cons: "id_len s < 10 \<Longrightarrow> id_len (c # s) = id_len s + 1"
  using wrap32_step [of "int (length s)"] by (simp add: id_len_def id_slen_def add.commute)

function id_pad10 :: "string \<Rightarrow> string" where
  "id_pad10 s = (if id_len s < 10 \<and> length s < 10 then id_pad10 (CHR ''0'' # s) else s)"
  by pat_completeness auto
termination by (relation "measure (\<lambda>s. 10 - length s)") auto

declare id_pad10.simps [simp del]

definition id_udec :: "w64 \<Rightarrow> string res" where
  "id_udec v =
     andThen (id_udiv v 10000000000) (\<lambda>hi.
       if hi \<noteq> 0
       then andThen (id_umod v 10000000000) (\<lambda>lo.
              Inr (id_str_of_word hi @ id_pad10 (id_str_of_word lo)))
       else Inr (id_str_of_word v))"

end
