(* ===== verification/Lexer.thy ===== *)
theory Lexer
  imports LexScan
begin

text \<open>
  The lexer: it reads the whole source and prints one line per token, a kind and a text,
  with \<open>line\<close> lines where the source goes to a new line and, with \<open>--cols\<close>, a \<open>span\<close> line
  after each token. Its state is the three exported one-cell lists (the current line
  number, the offset the current line starts at, whether spans are wanted) and the lines
  printed so far. The memory its strings need is taken to be there (\<open>str_env\<close>); what can
  still trap is taking a span of the source.
\<close>

record lexst =
  lexline :: int
  lexbol :: int
  lexcols :: bool
  lexout :: "string list"

definition id_print :: "string \<Rightarrow> lexst \<Rightarrow> lexst" where
  "id_print s st = st\<lparr>lexout := lexout st @ [s]\<rparr>"

definition int_text :: "int \<Rightarrow> string" where
  "int_text x = id_str_of_int (word_of_int x)"

section \<open>Lines, spans, spaces and comments\<close>

definition id_bump_line :: "lexst \<Rightarrow> lexst" where
  "id_bump_line st =
     (let st1 = st\<lparr>lexline := wrap32 (lexline st + 1)\<rparr>
      in id_print (''line '' @ int_text (lexline st1)) st1)"

definition id_is_lcomment :: "string \<Rightarrow> int \<Rightarrow> bool" where
  "id_is_lcomment src i \<longleftrightarrow> code_at src i = 47 \<and> code_at src (i + 1) = 47"

definition id_is_shebang :: "string \<Rightarrow> int \<Rightarrow> lexst \<Rightarrow> bool" where
  "id_is_shebang src i st \<longleftrightarrow>
     ((code_at src i = 35 \<and> code_at src (i + 1) = 33) \<and> i = lexbol st) \<and> lexline st = 1"

definition id_span_out :: "string \<Rightarrow> int \<Rightarrow> int \<Rightarrow> lexst \<Rightarrow> lexst" where
  "id_span_out src i ni st =
     (if (lexcols st \<and> \<not> id_is_lcomment src i) \<and> \<not> id_is_shebang src i st
      then let b = lexbol st in id_print (''span '' @ int_text (((i - b) * 65536 + ni) - b)) st
      else st)"

definition id_eat_space :: "string \<Rightarrow> int \<Rightarrow> lexst \<Rightarrow> int \<times> lexst" where
  "id_eat_space src i st =
     (i + 1, if code_at src i = 10 then (id_bump_line st)\<lparr>lexbol := i + 1\<rparr> else st)"

function id_skip_block :: "string \<Rightarrow> int \<Rightarrow> lexst \<Rightarrow> int \<times> lexst" where
  "id_skip_block src i st =
     (if code_at src i \<noteq> - 1 \<and> (code_at src i \<noteq> 42 \<or> code_at src (i + 1) \<noteq> 47)
      then (case id_eat_space src i st of (j, st1) \<Rightarrow> id_skip_block src j st1)
      else (i + 2, st))"
  by pat_completeness auto
termination
  by (relation "measure (\<lambda>(s, i, st). nat (int (length s) - i))")
     (auto simp: id_eat_space_def dest: code_at_bound)

declare id_skip_block.simps [simp del]

definition id_block_tok :: "string \<Rightarrow> int \<Rightarrow> lexst \<Rightarrow> int \<times> lexst" where
  "id_block_tok src i st = id_skip_block src (i + 2) (id_print ''op /*'' st)"

section \<open>Slices and single tokens\<close>

definition id_slice_str :: "string \<Rightarrow> int \<Rightarrow> int \<Rightarrow> string res" where
  "id_slice_str src a b = (if a < b then id_str_sub str_env src a (b - a) else Inr '''')"

definition id_one_at :: "string \<Rightarrow> int \<Rightarrow> string res" where
  "id_one_at src i = id_chr str_env (code_at src i)"

definition id_two_at :: "string \<Rightarrow> int \<Rightarrow> string res" where
  "id_two_at src i =
     andThen (id_chr str_env (code_at src i)) (\<lambda>a.
     andThen (id_chr str_env (code_at src (i + 1))) (\<lambda>b. Inr (a @ b)))"

definition id_oplen :: "string \<Rightarrow> int \<Rightarrow> int res" where
  "id_oplen src i = andThen (id_two_at src i) (\<lambda>two. Inr (if id_is_two_op two then 2 else 1))"

definition id_scan_op_out :: "string \<Rightarrow> int \<Rightarrow> string \<Rightarrow> lexst \<Rightarrow> lexst res" where
  "id_scan_op_out src i two st =
     andThen (id_one_at src i) (\<lambda>one.
       Inr (if id_is_two_op two then id_print (''op '' @ two) st else id_print (''op '' @ one) st))"

definition id_scan_op :: "string \<Rightarrow> int \<Rightarrow> lexst \<Rightarrow> (int \<times> lexst) res" where
  "id_scan_op src i st =
     andThen (id_two_at src i) (\<lambda>two.
     andThen (id_scan_op_out src i two st) (\<lambda>st1.
     andThen (id_oplen src i) (\<lambda>n. Inr (i + n, st1))))"

definition id_scan_ident_out :: "string \<Rightarrow> lexst \<Rightarrow> lexst" where
  "id_scan_ident_out ident st = id_print (id_kindof ident @ '' '' @ ident) st"

function ident_loop :: "string \<Rightarrow> int \<Rightarrow> string \<Rightarrow> (string \<times> int) res" where
  "ident_loop src i ident =
     (if id_is_name_part_at src i
      then andThen (id_chr str_env (code_at src i)) (\<lambda>c. ident_loop src (i + 1) (ident @ c))
      else Inr (ident, i))"
  by pat_completeness auto
termination
  by (relation "measure (\<lambda>(s, i, id). nat (int (length s) - i))") (auto dest: class_at_bound)

declare ident_loop.simps [simp del]

definition id_scan_ident :: "string \<Rightarrow> int \<Rightarrow> lexst \<Rightarrow> (int \<times> lexst) res" where
  "id_scan_ident src i st =
     andThen (ident_loop src i '''') (\<lambda>(ident, j). Inr (j, id_scan_ident_out ident st))"

definition id_scan_num_out :: "string \<Rightarrow> int \<Rightarrow> int \<Rightarrow> int \<Rightarrow> lexst \<Rightarrow> lexst res" where
  "id_scan_num_out src i e fe st =
     andThen (id_slice_str src i fe) (\<lambda>text. Inr (id_print (id_numkind e fe @ '' '' @ text) st))"

definition id_scan_number :: "string \<Rightarrow> int \<Rightarrow> lexst \<Rightarrow> (int \<times> lexst) res" where
  "id_scan_number src i st =
     (let e = id_digit_run_end src i; fe = id_num_end src i e
      in andThen (id_scan_num_out src i e fe st) (\<lambda>st1. Inr (fe, st1)))"

definition id_scan_str_out :: "string \<Rightarrow> int \<Rightarrow> int \<Rightarrow> lexst \<Rightarrow> lexst res" where
  "id_scan_str_out src i e st =
     andThen (id_chr str_env 34) (\<lambda>q.
     andThen (id_slice_str src i e) (\<lambda>text.
       Inr (id_print (((''str '' @ q) @ text) @ q) st)))"

definition id_scan_string :: "string \<Rightarrow> int \<Rightarrow> lexst \<Rightarrow> (int \<times> lexst) res" where
  "id_scan_string src i st =
     (let e = id_str_end src i
      in andThen (id_scan_str_out src i e st) (\<lambda>st1. Inr (e + 1, st1)))"

definition id_print_uint :: "w64 \<Rightarrow> lexst \<Rightarrow> lexst res" where
  "id_print_uint v st = andThen (id_udec v) (\<lambda>text. Inr (id_print (''int '' @ text) st))"

definition id_print_number :: "string \<Rightarrow> int \<Rightarrow> int \<Rightarrow> w64 \<Rightarrow> int \<Rightarrow> lexst \<Rightarrow> lexst res" where
  "id_print_number src i e v limit st =
     (let first = id_zero_end src (i + 2) e
      in if e - first > limit
         then andThen (id_str_sub str_env src i (e - i)) (\<lambda>text. Inr (id_print (''int '' @ text) st))
         else id_print_uint v st)"

definition id_scan_hex :: "string \<Rightarrow> int \<Rightarrow> lexst \<Rightarrow> (int \<times> lexst) res" where
  "id_scan_hex src i st =
     (let e = id_hex_end src (i + 2); v = id_hex_val src (i + 2) e
      in andThen (id_print_number src i e v 16 st) (\<lambda>st1. Inr (e, st1)))"

definition id_scan_bin :: "string \<Rightarrow> int \<Rightarrow> lexst \<Rightarrow> (int \<times> lexst) res" where
  "id_scan_bin src i st =
     (let e = id_bin_end src (i + 2); v = id_bin_val src (i + 2) e
      in andThen (id_print_number src i e v 64 st) (\<lambda>st1. Inr (e, st1)))"

definition id_scan_hash_out :: "string \<Rightarrow> int \<Rightarrow> int \<Rightarrow> lexst \<Rightarrow> lexst res" where
  "id_scan_hash_out src i e st =
     andThen (id_slice_str src (i + 1) e) (\<lambda>text. Inr (id_print text st))"

definition id_scan_hash :: "string \<Rightarrow> int \<Rightarrow> lexst \<Rightarrow> (int \<times> lexst) res" where
  "id_scan_hash src i st =
     (let e = id_string_end_of_line src i
      in andThen (id_scan_hash_out src i e st) (\<lambda>st1. Inr (e, st1\<lparr>lexline := 0\<rparr>)))"

definition id_scan_shebang :: "string \<Rightarrow> int \<Rightarrow> lexst \<Rightarrow> int \<times> lexst" where
  "id_scan_shebang src i st =
     (id_string_end_of_line src i,
      if \<not> id_is_shebang src i st then id_print ''op #!'' st else st)"

definition id_scan_bang :: "string \<Rightarrow> int \<Rightarrow> lexst \<Rightarrow> (int \<times> lexst) res" where
  "id_scan_bang src i st =
     (if code_at src (i + 1) = 33 then Inr (id_scan_shebang src i st) else id_scan_hash src i st)"

section \<open>The dispatch\<close>

definition id_scan_strop :: "string \<Rightarrow> int \<Rightarrow> lexst \<Rightarrow> (int \<times> lexst) res" where
  "id_scan_strop src i st =
     (if code_at src i = 34 then id_scan_string src (i + 1) st else id_scan_op src i st)"

definition id_scan_decop :: "string \<Rightarrow> int \<Rightarrow> lexst \<Rightarrow> (int \<times> lexst) res" where
  "id_scan_decop src i st =
     (if id_idstd_character_is_digit_at src i then id_scan_number src i st
      else id_scan_strop src i st)"

definition id_scan_binop :: "string \<Rightarrow> int \<Rightarrow> lexst \<Rightarrow> (int \<times> lexst) res" where
  "id_scan_binop src i st =
     (if id_bin_start src i then id_scan_bin src i st else id_scan_decop src i st)"

definition id_scan_numop :: "string \<Rightarrow> int \<Rightarrow> lexst \<Rightarrow> (int \<times> lexst) res" where
  "id_scan_numop src i st =
     (if id_hex_start src i then id_scan_hex src i st else id_scan_binop src i st)"

definition id_scan_token :: "string \<Rightarrow> int \<Rightarrow> lexst \<Rightarrow> (int \<times> lexst) res" where
  "id_scan_token src i st =
     (if id_is_name_start_at src i then id_scan_ident src i st else id_scan_numop src i st)"

definition id_scan_hashop :: "string \<Rightarrow> int \<Rightarrow> lexst \<Rightarrow> (int \<times> lexst) res" where
  "id_scan_hashop src i st =
     (if code_at src i = 35 then id_scan_bang src i st else id_scan_token src i st)"

definition id_scan_block :: "string \<Rightarrow> int \<Rightarrow> lexst \<Rightarrow> (int \<times> lexst) res" where
  "id_scan_block src i st =
     (if code_at src i = 47 \<and> code_at src (i + 1) = 42 then Inr (id_block_tok src i st)
      else id_scan_hashop src i st)"

definition id_scan_word :: "string \<Rightarrow> int \<Rightarrow> lexst \<Rightarrow> (int \<times> lexst) res" where
  "id_scan_word src i st =
     (if code_at src i = 47 \<and> code_at src (i + 1) = 47 then Inr (id_string_end_of_line src i, st)
      else id_scan_block src i st)"

definition id_scan_tok_span :: "string \<Rightarrow> int \<Rightarrow> lexst \<Rightarrow> (int \<times> lexst) res" where
  "id_scan_tok_span src i st =
     andThen (id_scan_word src i st) (\<lambda>(ni, st1). Inr (ni, id_span_out src i ni st1))"

definition id_scan_one :: "string \<Rightarrow> int \<Rightarrow> lexst \<Rightarrow> (int \<times> lexst) res" where
  "id_scan_one src i st =
     (if id_idstd_character_is_space_at src i then Inr (id_eat_space src i st)
      else id_scan_tok_span src i st)"

lemmas scan_defs = id_scan_one_def id_scan_tok_span_def id_scan_word_def id_scan_block_def
  id_scan_hashop_def id_scan_token_def id_scan_numop_def id_scan_binop_def id_scan_decop_def
  id_scan_strop_def

section \<open>The cursor loops as scans of a run of characters\<close>

text \<open>
  The contract of a cursor loop: it steps over characters of a class and stops at the first
  other one, or at the end. What a loop finds is then a \<open>takeWhile\<close>.
\<close>

locale char_run =
  fixes run :: "string \<Rightarrow> int \<Rightarrow> int"
    and P :: "char \<Rightarrow> bool"
  assumes step: "0 \<le> i \<Longrightarrow> i < int (length s) \<Longrightarrow> P (s ! nat i) \<Longrightarrow> run s i = run s (i + 1)"
    and stop: "\<not> (0 \<le> i \<and> i < int (length s) \<and> P (s ! nat i)) \<Longrightarrow> run s i = i"
begin

lemma run_word:
  "list_all P w \<Longrightarrow> rest = [] \<or> \<not> P (hd rest) \<Longrightarrow>
     run (a @ w @ rest) (int (length a)) = int (length a + length w)"
proof (induction w arbitrary: a)
  case Nil
  have "\<not> (0 \<le> int (length a) \<and> int (length a) < int (length (a @ rest)) \<and> P ((a @ rest) ! length a))"
    using Nil.prems(2) by (cases rest) auto
  then show ?case using stop [of "int (length a)" "a @ rest"] by simp
next
  case (Cons c w)
  have "run (a @ (c # w) @ rest) (int (length a)) = run (a @ (c # w) @ rest) (int (length a) + 1)"
    using Cons.prems(1) by (intro step) auto
  also have "\<dots> = run ((a @ [c]) @ w @ rest) (int (length (a @ [c])))" by (simp add: add.commute)
  also have "\<dots> = int (length (a @ [c]) + length w)" using Cons by (intro Cons.IH) auto
  finally show ?case by simp
qed

lemma run_span:
  assumes "0 \<le> i" "i \<le> int (length s)"
  shows "run s i = i + int (length (takeWhile P (drop (nat i) s)))"
proof -
  let ?t = "drop (nat i) s"
  have s: "s = take (nat i) s @ takeWhile P ?t @ dropWhile P ?t" by simp
  have l: "length (take (nat i) s) = nat i" using assms by simp
  have "run (take (nat i) s @ takeWhile P ?t @ dropWhile P ?t) (int (length (take (nat i) s)))
      = int (length (take (nat i) s) + length (takeWhile P ?t))"
  proof (rule run_word)
    show "list_all P (takeWhile P ?t)" by (auto simp: list_all_iff dest: set_takeWhileD)
    show "dropWhile P ?t = [] \<or> \<not> P (hd (dropWhile P ?t))" using hd_dropWhile by blast
  qed
  then show ?thesis using assms s l by (simp only: l) simp
qed

lemma run_ge: "i \<le> run s i"
proof (cases "0 \<le> i \<and> i \<le> int (length s)")
  case True
  then show ?thesis by (simp add: run_span)
next
  case False
  then show ?thesis using stop [of i s] by auto
qed

lemma run_le: "i \<le> int (length s) \<Longrightarrow> run s i \<le> int (length s)"
proof (cases "0 \<le> i")
  case True
  assume i: "i \<le> int (length s)"
  have "length (takeWhile P (drop (nat i) s)) \<le> length (drop (nat i) s)" by (rule length_takeWhile_le)
  then show ?thesis using run_span [OF True i] True i by simp
next
  case False
  assume "i \<le> int (length s)"
  then show ?thesis using False stop [of i s] by simp
qed

lemma run_gt: "0 \<le> i \<Longrightarrow> i < int (length s) \<Longrightarrow> P (s ! nat i) \<Longrightarrow> i < run s i"
  using step [of i s] run_ge [of "i + 1" s] by simp

end

definition chr_is :: "(int \<Rightarrow> bool) \<Rightarrow> char \<Rightarrow> bool" where
  "chr_is p c \<longleftrightarrow> p (int (of_char c))"

lemma code_at_cases:
  "code_at s i = (if 0 \<le> i \<and> i < int (length s) then int (of_char (s ! nat i)) else - 1)"
  by (auto simp: id_character_code_at_def id_slen_def)

lemma char_run_at:
  assumes "\<And>i. run s i = (if p (code_at s i) then run s (i + 1) else i)" "\<not> p (- 1)"
  shows "0 \<le> i \<Longrightarrow> i < int (length s) \<Longrightarrow> chr_is p (s ! nat i) \<Longrightarrow> run s i = run s (i + 1)"
    and "\<not> (0 \<le> i \<and> i < int (length s) \<and> chr_is p (s ! nat i)) \<Longrightarrow> run s i = i"
proof -
  show "0 \<le> i \<Longrightarrow> i < int (length s) \<Longrightarrow> chr_is p (s ! nat i) \<Longrightarrow> run s i = run s (i + 1)"
    using assms(1) [of i] by (auto simp: code_at_cases chr_is_def)
  assume "\<not> (0 \<le> i \<and> i < int (length s) \<and> chr_is p (s ! nat i))"
  then have "\<not> p (code_at s i)" using assms(2) by (auto simp: code_at_cases chr_is_def)
  then show "run s i = i" by (subst assms(1)) simp
qed

interpretation digits: char_run id_digit_run_end "chr_is id_character_is_digit"
  by unfold_locales
    (rule char_run_at; simp add: id_digit_run_end.simps id_idstd_character_is_digit_at_def char_class_defs)+
interpretation hexes: char_run id_hex_end "chr_is id_is_hex"
  by unfold_locales
    (rule char_run_at; simp add: id_hex_end.simps id_is_hex_at_def char_class_defs)+
interpretation bins: char_run id_bin_end "chr_is id_is_bin"
  by unfold_locales
    (rule char_run_at; simp add: id_bin_end.simps id_is_bin_at_def char_class_defs)+
interpretation lines: char_run id_string_end_of_line "chr_is (\<lambda>c. c \<noteq> 10 \<and> c \<noteq> - 1)"
  by unfold_locales
    (rule char_run_at; simp add: id_string_end_of_line.simps)+

text \<open>Identifiers are collected character by character.\<close>

lemma chr_char: "c \<noteq> CHR 0x00 \<Longrightarrow> id_chr str_env (int (of_char c)) = Inr [c]"
proof -
  assume c: "c \<noteq> CHR 0x00"
  have "(of_char c :: nat) \<noteq> 0"
  proof
    assume "(of_char c :: nat) = 0"
    then have "(of_char c :: nat) = of_char (CHR 0x00)" by simp
    then show False using c by (simp only: of_char_eq_iff)
  qed
  moreover have "(of_char c :: nat) < 256" by simp
  then have "int (of_char c) mod 256 = int (of_char c)" by simp
  ultimately show ?thesis
    by (simp add: id_chr_def id_str_from_total SIZE_MAX_def del: of_char_mod_256)
qed

abbreviation name_char :: "char \<Rightarrow> bool" where "name_char \<equiv> chr_is id_character_is_name_part"

lemma name_char_nonzero: "name_char c \<Longrightarrow> c \<noteq> CHR 0x00"
  by (auto simp: chr_is_def char_class_defs)

lemma name_at: "id_is_name_part_at s i \<longleftrightarrow> 0 \<le> i \<and> i < int (length s) \<and> name_char (s ! nat i)"
  by (auto simp: id_is_name_part_at_def code_at_cases chr_is_def) (simp_all add: char_class_defs)

lemma ident_loop_word:
  "list_all name_char w \<Longrightarrow> rest = [] \<or> \<not> name_char (hd rest) \<Longrightarrow>
     ident_loop (a @ w @ rest) (int (length a)) acc = Inr (acc @ w, int (length a + length w))"
proof (induction w arbitrary: a acc)
  case Nil
  have "\<not> id_is_name_part_at (a @ rest) (int (length a))"
    using Nil.prems(2) by (cases rest) (auto simp: name_at)
  then show ?case by (simp add: ident_loop.simps [of "a @ rest"])
next
  case (Cons c w)
  let ?s = "a @ (c # w) @ rest" and ?i = "int (length a)"
  have at: "id_is_name_part_at ?s ?i" using Cons.prems(1) by (simp add: name_at)
  have code: "code_at ?s ?i = int (of_char c)" by (simp add: code_at_cases)
  have "id_chr str_env (int (of_char c)) = Inr [c]"
    using Cons.prems(1) name_char_nonzero by (intro chr_char) simp
  then have "ident_loop ?s ?i acc = ident_loop ?s (?i + 1) (acc @ [c])"
    using at code by (subst ident_loop.simps) simp
  also have "\<dots> = ident_loop ((a @ [c]) @ w @ rest) (int (length (a @ [c]))) (acc @ [c])"
    by (simp add: add.commute)
  also have "\<dots> = Inr ((acc @ [c]) @ w, int (length (a @ [c]) + length w))"
    using Cons by (intro Cons.IH) auto
  finally show ?case by simp
qed

lemma ident_loop_span:
  assumes "0 \<le> i" "i \<le> int (length s)"
  shows "ident_loop s i acc = Inr (acc @ takeWhile name_char (drop (nat i) s),
    i + int (length (takeWhile name_char (drop (nat i) s))))"
proof -
  let ?t = "drop (nat i) s"
  have s: "s = take (nat i) s @ takeWhile name_char ?t @ dropWhile name_char ?t" by simp
  have l: "length (take (nat i) s) = nat i" using assms by simp
  have "ident_loop (take (nat i) s @ takeWhile name_char ?t @ dropWhile name_char ?t)
      (int (length (take (nat i) s))) acc
    = Inr (acc @ takeWhile name_char ?t, int (length (take (nat i) s) + length (takeWhile name_char ?t)))"
  proof (rule ident_loop_word)
    show "list_all name_char (takeWhile name_char ?t)" by (auto simp: list_all_iff dest: set_takeWhileD)
    show "dropWhile name_char ?t = [] \<or> \<not> name_char (hd (dropWhile name_char ?t))"
      using hd_dropWhile by blast
  qed
  then show ?thesis using assms s l by (simp only: l) simp
qed

section \<open>Every step moves the cursor on, and not past the end by more than two\<close>

lemma str_end_ge: "i \<le> id_str_end s i"
  by (induction s i rule: id_str_end.induct)
    (subst id_str_end.simps, auto simp: id_adv_str_def split: if_splits)

lemma str_end_le: "i \<le> int (length s) + 1 \<Longrightarrow> id_str_end s i \<le> int (length s) + 1"
proof (induction s i rule: id_str_end.induct)
  case (1 s i)
  then show ?case
    using code_at_bound [of s i] by (subst id_str_end.simps) (auto simp: id_adv_str_def)
qed

lemma skip_block_ge: "i + 2 \<le> fst (id_skip_block s i st)"
proof (induction s i st rule: id_skip_block.induct)
  case (1 s i st)
  then show ?case by (subst id_skip_block.simps) (auto simp: id_eat_space_def)
qed

lemma skip_block_le: "i \<le> int (length s) \<Longrightarrow> fst (id_skip_block s i st) \<le> int (length s) + 2"
proof (induction s i st rule: id_skip_block.induct)
  case (1 s i st)
  then show ?case using code_at_bound [of s i]
    by (subst id_skip_block.simps) (auto simp: id_eat_space_def)
qed

lemma num_end_ge: "e \<le> id_num_end s i e"
proof -
  have x: "j \<le> id_exp_end s j" for j
    using digits.run_ge [of "j + 1 + 1" s] digits.run_ge [of "j + 1" s]
    by (auto simp: id_exp_end_def Let_def)
  show ?thesis using digits.run_ge [of "e + 1" s] x [of e] x [of "id_digit_run_end s (e + 1)"]
    by (auto simp: id_num_end_def Let_def)
qed

lemma num_end_le: "e \<le> int (length s) \<Longrightarrow> id_num_end s i e \<le> int (length s)"
proof -
  have x: "id_exp_end s j \<le> int (length s)" if "j \<le> int (length s)" for j
  proof -
    have "code_at s j = 101 \<or> code_at s j = 69 \<Longrightarrow> j + 1 \<le> int (length s)"
      using code_at_bound [of s j] by auto
    moreover have "code_at s (j + 1) = 43 \<or> code_at s (j + 1) = 45 \<Longrightarrow> j + 1 + 1 \<le> int (length s)"
      using code_at_bound [of s "j + 1"] by auto
    ultimately show ?thesis using that digits.run_le [of "j + 1 + 1" s] digits.run_le [of "j + 1" s]
      by (auto simp: id_exp_end_def Let_def)
  qed
  assume e: "e \<le> int (length s)"
  show ?thesis
  proof (cases "id_has_frac s e")
    case True
    then have "e + 1 \<le> int (length s)" using code_at_bound [of s e] by (auto simp: id_has_frac_def)
    then show ?thesis using True x [OF digits.run_le] by (simp add: id_num_end_def)
  next
    case False
    then show ?thesis using x [OF e] by (simp add: id_num_end_def)
  qed
qed

lemma num_start:
  assumes "id_idstd_character_is_digit_at s i"
  shows "i < id_digit_run_end s i"
proof -
  have "id_digit_run_end s i = id_digit_run_end s (i + 1)"
    using assms by (subst id_digit_run_end.simps) simp
  then show ?thesis using digits.run_ge [of "i + 1" s] by linarith
qed

lemma ident_loop_gt:
  assumes "id_is_name_start_at s i" "ident_loop s i acc = Inr (w, j)"
  shows "i < j \<and> j \<le> int (length s)"
proof -
  have p: "id_is_name_part_at s i" using assms(1)
    by (simp add: id_is_name_part_at_def id_is_name_start_at_def id_character_is_name_part_def)
  then have i: "0 \<le> i" "i < int (length s)" "name_char (s ! nat i)" by (auto simp: name_at)
  let ?t = "drop (nat i) s"
  have t: "?t \<noteq> []" "hd ?t = s ! nat i" using i by (auto simp: hd_drop_conv_nth)
  then have "takeWhile name_char ?t \<noteq> []" using i(3) by (cases ?t) auto
  moreover have "length (takeWhile name_char ?t) \<le> length ?t" by (rule length_takeWhile_le)
  moreover have "j = i + int (length (takeWhile name_char ?t))"
    using ident_loop_span [of i s acc] i assms(2) by simp
  ultimately show ?thesis using i by (cases "takeWhile name_char ?t") auto
qed

lemma oplen_bounds: "id_oplen s i = Inr n \<Longrightarrow> n = 1 \<or> n = 2"
  by (auto simp: id_oplen_def res_simps)

lemma scan_cursor:
  "id_scan_ident s i st = Inr (j, st') \<Longrightarrow> \<exists>w. ident_loop s i [] = Inr (w, j)"
  "id_scan_number s i st = Inr (j, st') \<Longrightarrow> j = id_num_end s i (id_digit_run_end s i)"
  "id_scan_string s i st = Inr (j, st') \<Longrightarrow> j = id_str_end s i + 1"
  "id_scan_hex s i st = Inr (j, st') \<Longrightarrow> j = id_hex_end s (i + 2)"
  "id_scan_bin s i st = Inr (j, st') \<Longrightarrow> j = id_bin_end s (i + 2)"
  "id_scan_bang s i st = Inr (j, st') \<Longrightarrow> j = id_string_end_of_line s i"
  "id_scan_op s i st = Inr (j, st') \<Longrightarrow> id_oplen s i = Inr (j - i)"
  by (auto simp: id_scan_ident_def id_scan_number_def id_scan_string_def id_scan_hex_def
      id_scan_bin_def id_scan_bang_def id_scan_shebang_def id_scan_hash_def id_scan_op_def
      res_simps Let_def split: if_splits)

lemma line_end_gt:
  "code_at s i \<noteq> 10 \<Longrightarrow> code_at s i \<noteq> - 1 \<Longrightarrow> i < id_string_end_of_line s i"
  using lines.run_ge [of "i + 1" s] by (subst id_string_end_of_line.simps) simp

lemma scan_one_progress:
  assumes "id_scan_one s i st = Inr (j, st')"
  shows "i < j"
  using assms hexes.run_ge [of "i + 2" s] bins.run_ge [of "i + 2" s] str_end_ge [of "i + 1" s]
    skip_block_ge [of "i + 2" s "id_print ''op /*'' st"] num_start [of s i]
    num_end_ge [of "id_digit_run_end s i" s i] line_end_gt [of s i] oplen_bounds [of s i "j - i"]
    ident_loop_gt [of s i "[]" _ j]
  by (auto simp: scan_defs id_eat_space_def id_block_tok_def res_simps split: if_splits
      dest!: scan_cursor dest: arg_cong [where f = fst])

lemma two_at_second:
  assumes "id_two_at s i = Inr two" "id_is_two_op two"
  shows "i + 1 < int (length s)"
proof (rule ccontr)
  assume "\<not> i + 1 < int (length s)"
  then have "code_at s (i + 1) = - 1" by (simp add: code_at_cases)
  moreover have "char_of (nat ((- 1) mod 256)) = CHR 0xFF" by (simp add: char_of_def bit_Suc_0_iff)
  ultimately have "\<exists>a. two = [a, CHR 0xFF]" using assms(1)
    by (auto simp: id_two_at_def id_chr_def res_simps dest!: id_str_from_result split: if_splits)
  then show False using assms(2)
    by (auto simp: id_is_two_op_def two_ops_def streq_def c_text_def split: if_splits)
qed

lemma oplen_le:
  assumes "id_oplen s i = Inr n" "i < int (length s)"
  shows "i + n \<le> int (length s)"
  using assms two_at_second [of s i] by (auto simp: id_oplen_def res_simps split: if_splits)

lemma hex_le: "id_hex_start s i \<Longrightarrow> id_hex_end s (i + 2) \<le> int (length s)"
  using class_at_bound(2) [of s "i + 2"] hexes.run_le [of "i + 2" s] by (auto simp: id_hex_start_def)

lemma bin_le: "id_bin_start s i \<Longrightarrow> id_bin_end s (i + 2) \<le> int (length s)"
  using class_at_bound(3) [of s "i + 2"] bins.run_le [of "i + 2" s] by (auto simp: id_bin_start_def)

lemma number_le:
  "id_idstd_character_is_digit_at s i \<Longrightarrow> id_num_end s i (id_digit_run_end s i) \<le> int (length s)"
  using class_at_bound(1) [of s i] digits.run_le [of i s] num_end_le by auto

lemma scan_one_bound:
  assumes "id_scan_one s i st = Inr (j, st')" "i < int (length s)"
  shows "j \<le> int (length s) + 2"
  using assms hex_le [of s i] bin_le [of s i] str_end_le [of "i + 1" s]
    skip_block_le [of "i + 2" s "id_print ''op /*'' st"] number_le [of s i]
    lines.run_le [of i s] oplen_le [of s i "j - i"] ident_loop_gt [of s i "[]" _ j]
    code_at_bound [of s "i + 1"]
  by (auto simp: scan_defs id_eat_space_def id_block_tok_def res_simps split: if_splits
      dest!: scan_cursor dest: arg_cong [where f = fst])

section \<open>The main loop\<close>

function id_lex_loop :: "string \<Rightarrow> int \<Rightarrow> int \<Rightarrow> lexst \<Rightarrow> lexst res" where
  "id_lex_loop src n i st =
     (if i < n then andThen (id_scan_one src i st) (\<lambda>(j, st1). id_lex_loop src n j st1)
      else Inr st)"
  by pat_completeness auto
termination
  by (relation "measure (\<lambda>(src, n, i, st). nat (n - i))") (auto dest!: scan_one_progress)

declare id_lex_loop.simps [simp del]

definition id_lex :: "string \<Rightarrow> lexst \<Rightarrow> lexst res" where
  "id_lex src st = id_lex_loop src (id_len src) 0 st"

text \<open>\<open>argv\<close> as strings; spans are printed when the first argument is \<open>--cols\<close>.\<close>

definition id_lex_setup :: "string list \<Rightarrow> lexst" where
  "id_lex_setup argv =
     \<lparr>lexline = 1, lexbol = 0,
      lexcols = (length argv > 1 \<and> streq (argv ! 1) ''--cols''), lexout = []\<rparr>"

definition id_lex_all :: "string \<Rightarrow> lexst \<Rightarrow> lexst res" where
  "id_lex_all input st = andThen (id_read_all str_env input) (\<lambda>src. id_lex src st)"

definition id_main :: "string list \<Rightarrow> string \<Rightarrow> string list res" where
  "id_main argv input =
     andThen (id_lex_all input (id_lex_setup argv)) (\<lambda>st. Inr (lexout (id_print ''eof'' st)))"

section \<open>The only trap: a string that ends in a lone backslash\<close>

lemma sub_total:
  assumes "0 \<le> a" "a \<le> b" "b \<le> int (length s)" "int (length s) \<le> INT_MAX"
  shows "id_str_sub str_env s a (b - a) = Inr (take (nat (b - a)) (drop (nat a) s))"
  using assms by (intro id_str_sub_ok) auto

lemma slice_total:
  assumes "0 \<le> a" "b \<le> int (length s)" "int (length s) \<le> INT_MAX"
  shows "id_slice_str s a b = Inr (take (nat (b - a)) (drop (nat a) s))"
  using assms sub_total [of a b s] by (auto simp: id_slice_str_def)

lemma chr_at_total:
  "CHR 0x00 \<notin> set s \<Longrightarrow> \<exists>t. id_chr str_env (code_at s i) = Inr t"
proof (cases "0 \<le> i \<and> i < int (length s)")
  case True
  assume z: "CHR 0x00 \<notin> set s"
  have "s ! nat i \<in> set s" using True by (simp add: nat_less_iff)
  then have "s ! nat i \<noteq> CHR 0x00" using z by metis
  then show ?thesis using chr_char [of "s ! nat i"] True by (auto simp: code_at_cases)
next
  case False
  then show ?thesis by (auto simp: code_at_cases id_chr_def id_str_from_total SIZE_MAX_def)
qed

lemma two_at_total: "CHR 0x00 \<notin> set s \<Longrightarrow> \<exists>t. id_two_at s i = Inr t"
  using chr_at_total [of s i] chr_at_total [of s "i + 1"] by (auto simp: id_two_at_def)

lemma udec_total: "\<exists>t. id_udec v = Inr t"
  by (auto simp: id_udec_def id_udiv_def id_umod_def)

lemma print_number_total:
  assumes "0 \<le> i" "i + 2 \<le> e" "e \<le> int (length s)" "int (length s) \<le> INT_MAX"
  shows "\<exists>t. id_print_number s i e v limit st = Inr t"
proof -
  have "\<exists>t. id_str_sub str_env s i (e - i) = Inr t" using sub_total [of i e s] assms by auto
  then show ?thesis using udec_total [of v]
    by (auto simp: id_print_number_def id_print_uint_def Let_def)
qed

lemma andThen_total: "\<exists>t. r = Inr t \<Longrightarrow> \<exists>x. andThen r (\<lambda>y. Inr (f y)) = Inr x"
  by auto

lemma scan_one_total:
  assumes "CHR 0x00 \<notin> set s" "int (length s) \<le> INT_MAX" "0 \<le> i" "i < int (length s)"
    and "code_at s i = 34 \<longrightarrow> id_str_end s (i + 1) \<le> int (length s)"
  shows "\<exists>r. id_scan_one s i st = Inr r"
proof -
  have ident: "\<exists>r. id_scan_ident s i st = Inr r"
    using ident_loop_span [of i s "[]"] assms by (auto simp: id_scan_ident_def)
  have number: "id_idstd_character_is_digit_at s i \<Longrightarrow> \<exists>r. id_scan_number s i st = Inr r"
    using slice_total [OF assms(3) number_le assms(2)]
    by (auto simp: id_scan_number_def id_scan_num_out_def Let_def)
  have hex: "id_hex_start s i \<Longrightarrow> \<exists>r. id_scan_hex s i st = Inr r"
    unfolding id_scan_hex_def Let_def
    by (rule andThen_total, rule print_number_total) (use assms hexes.run_ge hex_le in auto)
  have bin: "id_bin_start s i \<Longrightarrow> \<exists>r. id_scan_bin s i st = Inr r"
    unfolding id_scan_bin_def Let_def
    by (rule andThen_total, rule print_number_total) (use assms bins.run_ge bin_le in auto)
  have q: "\<exists>t. id_chr str_env 34 = Inr t"
    by (simp add: id_chr_def id_str_from_total SIZE_MAX_def)
  have str: "code_at s i = 34 \<Longrightarrow> \<exists>r. id_scan_string s (i + 1) st = Inr r"
    using slice_total [of "i + 1" "id_str_end s (i + 1)" s] assms q
    by (auto simp: id_scan_string_def id_scan_str_out_def Let_def)
  have hash: "\<exists>r. id_scan_bang s i st = Inr r"
    using slice_total [of "i + 1" "id_string_end_of_line s i" s] lines.run_le [of i s] assms
    by (auto simp: id_scan_bang_def id_scan_hash_def id_scan_hash_out_def Let_def)
  have opr: "\<exists>r. id_scan_op s i st = Inr r"
    using two_at_total [OF assms(1), of i] chr_at_total [OF assms(1), of i]
    by (auto simp: id_scan_op_def id_scan_op_out_def id_one_at_def id_oplen_def)
  have "\<exists>r. id_scan_word s i st = Inr r"
    using ident number hex bin str hash opr
    by (simp add: id_scan_word_def id_scan_block_def id_scan_hashop_def id_scan_token_def
        id_scan_numop_def id_scan_binop_def id_scan_decop_def id_scan_strop_def)
  then show ?thesis by (auto simp: id_scan_one_def id_scan_tok_span_def split: prod.splits)
qed

lemma str_end_inside:
  "s \<noteq> [] \<longrightarrow> last s \<noteq> CHR 0x5C \<Longrightarrow> i \<le> int (length s) \<Longrightarrow> id_str_end s i \<le> int (length s)"
proof (induction s i rule: id_str_end.induct)
  case (1 s i)
  have "i + 2 \<le> int (length s)" if "code_at s i = 92"
  proof -
    have i: "0 \<le> i" "i < int (length s)" using that code_at_bound [of s i] by auto
    have "s ! nat i = CHR 0x5C"
    proof -
      have "(of_char (s ! nat i) :: nat) = of_char (CHR 0x5C)" using that i by (simp add: code_at_cases)
      then show ?thesis by (simp only: of_char_eq_iff)
    qed
    moreover have "s \<noteq> []" using i by auto
    ultimately have "nat i \<noteq> length s - 1" using 1(2) by (auto simp: last_conv_nth)
    then show ?thesis using i by linarith
  qed
  then show ?case using 1 code_at_bound [of s i]
    by (subst id_str_end.simps) (auto simp: id_adv_str_def)
qed

lemma lex_loop_total:
  assumes "CHR 0x00 \<notin> set s" "int (length s) \<le> INT_MAX" "s \<noteq> [] \<longrightarrow> last s \<noteq> CHR 0x5C"
    and "n = int (length s)" "0 \<le> i"
  shows "\<exists>st'. id_lex_loop s n i st = Inr st'"
  using assms
proof (induction s n i st rule: id_lex_loop.induct)
  case (1 s n i st)
  show ?case
  proof (cases "i < n")
    case True
    have "id_str_end s (i + 1) \<le> int (length s)" using True 1(4,5) by (intro str_end_inside) auto
    with True 1 obtain j st1 where r: "id_scan_one s i st = Inr (j, st1)"
      using scan_one_total [of s i st] by auto
    have "0 \<le> j" using scan_one_progress [OF r] 1(6) by linarith
    then have "\<exists>st'. id_lex_loop s n j st1 = Inr st'" using 1 True r by auto
    then show ?thesis using True r by (subst id_lex_loop.simps) simp
  next
    case False
    then show ?thesis by (simp add: id_lex_loop.simps [of s n i st])
  qed
qed

lemma lex_loop_inv:
  assumes "id_lex_loop s n i st = Inr st'" "Q i st"
    and "\<And>i j st st'. i < n \<Longrightarrow> Q i st \<Longrightarrow> id_scan_one s i st = Inr (j, st') \<Longrightarrow> Q j st'"
  shows "\<exists>j. n \<le> j \<and> Q j st'"
  using assms
proof (induction s n i st rule: id_lex_loop.induct)
  case (1 s n i st)
  show ?case
  proof (cases "i < n")
    case True
    then obtain j st1 where r: "id_scan_one s i st = Inr (j, st1)" "id_lex_loop s n j st1 = Inr st'"
      using 1(2) by (auto simp: id_lex_loop.simps [of s n i st] res_simps)
    have q: "Q j st1" using 1(4) [OF True 1(3) r(1)] .
    show ?thesis by (rule 1(1) [OF True r(1) refl r(2) q]) (rule 1(4))
  next
    case False
    then have "st' = st" using 1(2) by (simp add: id_lex_loop.simps [of s n i st])
    then show ?thesis using False 1(3) by (intro exI [of _ i]) auto
  qed
qed

end
