(* ===== verification/LexSpec.thy ===== *)
theory LexSpec
  imports Lexer
begin

text \<open>
  What the lexer promises, stated on tokens: a sequence of tokens and line breaks written as
  source text lexes to one line per token, in order, with the line counter's lines between
  them, and \<open>eof\<close> at the end. Also the values of hexadecimal and binary literals and the
  text of an unsigned word.
\<close>

section \<open>Tokens and their source text\<close>

datatype tok =
    TWord string
  | TDec string
  | TOp char
  | TOp2 string
  | TStr string

datatype item = Tok tok | Newline

fun tok_text :: "tok \<Rightarrow> string" where
  "tok_text (TWord w) = w"
| "tok_text (TDec ds) = ds"
| "tok_text (TOp c) = [c]"
| "tok_text (TOp2 t) = t"
| "tok_text (TStr s) = CHR 0x22 # s @ [CHR 0x22]"

fun tok_line :: "tok \<Rightarrow> string" where
  "tok_line (TWord w) = (if w \<in> set kw_list then ''kw '' else ''ident '') @ w"
| "tok_line (TDec ds) = ''int '' @ ds"
| "tok_line (TOp c) = ''op '' @ [c]"
| "tok_line (TOp2 t) = ''op '' @ t"
| "tok_line (TStr s) = ''str '' @ CHR 0x22 # s @ [CHR 0x22]"

definition op_char :: "char \<Rightarrow> bool" where
  "op_char c \<longleftrightarrow> c \<noteq> CHR 0x00 \<and> c \<noteq> CHR 0x22 \<and> c \<noteq> CHR ''#''
     \<and> \<not> chr_is id_character_is_space c \<and> \<not> name_char c"

fun tok_ok :: "tok \<Rightarrow> bool" where
  "tok_ok (TWord w) \<longleftrightarrow> w \<noteq> [] \<and> chr_is id_character_is_name_start (hd w) \<and> list_all name_char w"
| "tok_ok (TDec ds) \<longleftrightarrow> ds \<noteq> [] \<and> list_all (chr_is id_character_is_digit) ds"
| "tok_ok (TOp c) \<longleftrightarrow> op_char c"
| "tok_ok (TOp2 t) \<longleftrightarrow> t \<in> set two_ops"
| "tok_ok (TStr s) \<longleftrightarrow> CHR 0x00 \<notin> set s \<and> CHR 0x22 \<notin> set s \<and> CHR 0x5C \<notin> set s"

fun source :: "item list \<Rightarrow> string" where
  "source [] = []"
| "source (Tok t # is) = tok_text t @ CHR '' '' # source is"
| "source (Newline # is) = CHR 0x0A # source is"

fun expected :: "int \<Rightarrow> item list \<Rightarrow> string list" where
  "expected k [] = []"
| "expected k (Tok t # is) = tok_line t # expected k is"
| "expected k (Newline # is) = (''line '' @ int_text (k + 1)) # expected (k + 1) is"

fun items_ok :: "item list \<Rightarrow> bool" where
  "items_ok [] = True"
| "items_ok (Tok t # is) = (tok_ok t \<and> items_ok is)"
| "items_ok (Newline # is) = items_ok is"

section \<open>One token at the cursor\<close>

lemma code_at_app [simp]:
  "code_at (a @ c # r) (int (length a)) = int (of_char c)"
  "code_at (a @ c # d # r) (int (length a) + 1) = int (of_char d)"
  by (auto simp: code_at_cases nth_append nat_add_distrib)

lemma code_at_word:
  "w \<noteq> [] \<Longrightarrow> code_at (a @ w @ r) (int (length a)) = int (of_char (hd w))"
  by (cases w) auto

lemma name_code_not:
  "chr_is id_character_is_name_start c \<Longrightarrow> \<not> chr_is id_character_is_space c"
  "chr_is id_character_is_name_start c \<Longrightarrow> int (of_char c) \<noteq> 47 \<and> int (of_char c) \<noteq> 35"
  "chr_is id_character_is_digit c \<Longrightarrow> \<not> chr_is id_character_is_space c \<and> \<not> chr_is id_character_is_name_start c"
  "chr_is id_character_is_digit c \<Longrightarrow> int (of_char c) \<noteq> 47 \<and> int (of_char c) \<noteq> 35"
  by (auto simp: chr_is_def char_class_defs)

lemma id_print_fields [simp]:
  "lexcols (id_print s st) = lexcols st" "lexline (id_print s st) = lexline st"
  "lexbol (id_print s st) = lexbol st" "lexout (id_print s st) = lexout st @ [s]"
  by (simp_all add: id_print_def)

lemma no_span [simp]: "\<not> lexcols st \<Longrightarrow> id_span_out s i j st = st"
  by (simp add: id_span_out_def)

lemma kw_text: "list_all name_char w \<Longrightarrow> id_kindof w = (if w \<in> set kw_list then ''kw'' else ''ident'')"
proof -
  assume w: "list_all name_char w"
  have z: "CHR 0x00 \<notin> set w" using w name_char_nonzero by (auto simp: list_all_iff)
  have "streq w k \<longleftrightarrow> w = k" if "k \<in> set kw_list" for k
  proof -
    have "CHR 0x00 \<notin> set k" using that by (auto simp: kw_list_def)
    then show ?thesis using z by (simp add: streq_def c_text_id)
  qed
  then have "id_is_kw w \<longleftrightarrow> w \<in> set kw_list"
    by (auto simp: id_is_kw_def list_ex_iff)
  then show ?thesis by (simp add: id_kindof_def)
qed

lemma scan_word_tok:
  assumes "tok_ok (TWord w)" "\<not> lexcols st"
  shows "id_scan_one (a @ w @ CHR '' '' # r) (int (length a)) st
    = Inr (int (length a + length w), id_print (tok_line (TWord w)) st)"
proof -
  let ?s = "a @ w @ CHR '' '' # r" and ?i = "int (length a)"
  have w: "w \<noteq> []" "chr_is id_character_is_name_start (hd w)" "list_all name_char w" using assms by auto
  have c: "code_at ?s ?i = int (of_char (hd w))" by (rule code_at_word [OF w(1)])
  have l: "ident_loop ?s ?i [] = Inr ([] @ w, int (length a + length w))"
    using w(3) by (rule ident_loop_word) (simp add: chr_is_def char_class_defs)
  have ns: "id_is_name_start_at ?s ?i" using w(2) c by (simp add: id_is_name_start_at_def chr_is_def)
  have sp: "\<not> id_idstd_character_is_space_at ?s ?i"
    using name_code_not(1) [OF w(2)] c by (simp add: id_idstd_character_is_space_at_def chr_is_def)
  show ?thesis using name_code_not(2) [OF w(2)] c l ns sp assms(2) kw_text [OF w(3)]
    by (simp add: id_scan_one_def id_scan_tok_span_def id_scan_word_def id_scan_block_def
        id_scan_hashop_def id_scan_token_def id_scan_ident_def id_scan_ident_out_def)
qed

lemma scan_dec_tok:
  assumes "tok_ok (TDec w)" "\<not> lexcols st" "int (length (a @ w @ CHR '' '' # r)) \<le> INT_MAX"
  shows "id_scan_one (a @ w @ CHR '' '' # r) (int (length a)) st
    = Inr (int (length a + length w), id_print (tok_line (TDec w)) st)"
proof -
  let ?s = "a @ w @ CHR '' '' # r" and ?i = "int (length a)"
  have w: "w \<noteq> []" "list_all (chr_is id_character_is_digit) w" using assms by auto
  then have hd: "chr_is id_character_is_digit (hd w)" by (cases w) auto
  have c: "code_at ?s ?i = int (of_char (hd w))" by (rule code_at_word [OF w(1)])
  have d: "id_digit_run_end ?s ?i = int (length a + length w)"
    using w(2) by (rule digits.run_word) (simp add: chr_is_def char_class_defs)
  have e: "code_at ?s (int (length a + length w)) = 32"
    using code_at_app(1) [of "a @ w" "CHR '' ''" r] by simp
  have n: "id_num_end ?s ?i (int (length a + length w)) = int (length a + length w)"
    using e by (simp add: id_num_end_def id_has_frac_def id_exp_end_def)
  have sl: "id_slice_str ?s ?i (int (length a + length w)) = Inr w"
    using slice_total [of ?i "int (length a + length w)" ?s] assms(3) by simp
  have c2: "code_at ?s (?i + 1) \<noteq> 120 \<and> code_at ?s (?i + 1) \<noteq> 88 \<and> code_at ?s (?i + 1) \<noteq> 98 \<and> code_at ?s (?i + 1) \<noteq> 66"
  proof (cases w)
    case (Cons x xs)
    then show ?thesis using w(2) by (cases xs) (auto simp: chr_is_def char_class_defs)
  qed (use w(1) in simp)
  have dg: "id_idstd_character_is_digit_at ?s ?i" "\<not> id_idstd_character_is_space_at ?s ?i"
    "\<not> id_is_name_start_at ?s ?i"
    using hd name_code_not(3) [OF hd] c
    by (simp_all add: class_at_defs chr_is_def)
  show ?thesis using name_code_not(4) [OF hd] c d n sl c2 dg assms(2)
    by (simp add: id_scan_one_def id_scan_tok_span_def id_scan_word_def id_scan_block_def
        id_scan_hashop_def id_scan_token_def id_scan_numop_def id_scan_binop_def id_scan_decop_def
        id_hex_start_def id_bin_start_def id_scan_number_def id_scan_num_out_def id_numkind_def Let_def)
qed

lemma chr_at_app: "c \<noteq> CHR 0x00 \<Longrightarrow> id_chr str_env (code_at (a @ c # r) (int (length a))) = Inr [c]"
  by (simp add: chr_char)

lemma two_at_app:
  assumes "c \<noteq> CHR 0x00" "d \<noteq> CHR 0x00"
  shows "id_two_at (a @ c # d # r) (int (length a)) = Inr [c, d]"
  using assms by (simp add: id_two_at_def chr_char)

lemma code_inj: "int (of_char c) = int (of_char d) \<Longrightarrow> c = (d :: char)"
  by (simp only: of_nat_eq_iff of_char_eq_iff)

lemma op_char_code:
  "op_char c \<Longrightarrow> int (of_char c) \<noteq> 34 \<and> int (of_char c) \<noteq> 35 \<and> \<not> id_character_is_space (int (of_char c))
     \<and> \<not> id_character_is_name_part (int (of_char c))"
proof -
  assume o: "op_char c"
  have "int (of_char c) = 34 \<longrightarrow> c = CHR 0x22" "int (of_char c) = 35 \<longrightarrow> c = CHR ''#''"
    using code_inj [of c "CHR 0x22"] code_inj [of c "CHR ''#''"] by simp_all
  then show ?thesis using o by (auto simp: op_char_def chr_is_def)
qed

lemma scan_op_at:
  assumes "op_char c" "d \<noteq> CHR 0x00" "\<not> lexcols st" "c = CHR ''/'' \<longrightarrow> d = CHR '' ''"
  shows "id_scan_one (a @ c # d # r) (int (length a)) st
    = (if id_is_two_op [c, d] then Inr (int (length a) + 2, id_print (''op '' @ [c, d]) st)
       else Inr (int (length a) + 1, id_print (''op '' @ [c]) st))"
proof -
  let ?s = "a @ c # d # r" and ?i = "int (length a)"
  have nz: "c \<noteq> CHR 0x00" using assms(1) by (simp add: op_char_def)
  note o = op_char_code [OF assms(1)]
  have slash: "int (of_char c) = 47 \<longrightarrow> int (of_char d) = 32"
  proof
    assume "int (of_char c) = 47"
    then have "c = CHR ''/''" using code_inj [of c "CHR ''/''"] by simp
    then show "int (of_char d) = 32" using assms(4) by simp
  qed
  have dig: "\<not> id_character_is_digit (int (of_char c))" "\<not> id_character_is_name_start (int (of_char c))"
    using o by (auto simp: id_character_is_name_part_def)
  have z: "int (of_char c) \<noteq> 48" using dig by (auto simp: char_class_defs)
  note f = two_at_app [OF nz assms(2), of a r] chr_at_app [OF nz, of a "d # r"]
  note defs = id_scan_one_def id_scan_tok_span_def id_scan_word_def id_scan_block_def
        id_scan_hashop_def id_scan_token_def id_scan_numop_def id_scan_binop_def id_scan_decop_def
        id_scan_strop_def id_hex_start_def id_bin_start_def class_at_defs
        id_scan_op_def id_scan_op_out_def id_one_at_def id_oplen_def
  show ?thesis
  proof (cases "of_char c = (47::nat)")
    case True
    then have "of_char d = (32::nat)" using slash by simp
    with True show ?thesis using o dig z assms(3) nz f by (simp add: defs)
  next
    case False
    then show ?thesis using o dig z assms(3) nz f by (simp add: defs)
  qed
qed

lemma two_op_chars:
  "t \<in> set two_ops \<Longrightarrow> t = [t ! 0, t ! 1]"
  "t \<in> set two_ops \<Longrightarrow> op_char (t ! 0)"
  "t \<in> set two_ops \<Longrightarrow> t ! 1 \<noteq> CHR 0x00 \<and> t ! 0 \<noteq> CHR ''/''"
  by (auto simp: two_ops_def op_char_def chr_is_def char_class_defs)

lemma scan_op2_tok:
  assumes "tok_ok (TOp2 t)" "\<not> lexcols st"
  shows "id_scan_one (a @ t @ r) (int (length a)) st
    = Inr (int (length a + length t), id_print (tok_line (TOp2 t)) st)"
proof -
  have m: "t \<in> set two_ops" using assms(1) by simp
  obtain c d where t: "t = [c, d]" using two_op_chars(1) [OF m] by blast
  have cd: "op_char c" "d \<noteq> CHR 0x00" "c \<noteq> CHR ''/''"
    using two_op_chars(2,3) [OF m] t by simp_all
  have "id_is_two_op [c, d]" using m t by (auto simp: id_is_two_op_def list_ex_iff streq_def)
  then show ?thesis using scan_op_at [OF cd(1,2) assms(2)] cd(3) t by simp
qed

lemma scan_op_tok:
  assumes "tok_ok (TOp c)" "\<not> lexcols st"
  shows "id_scan_one (a @ [c] @ CHR '' '' # r) (int (length a)) st
    = Inr (int (length a + 1), id_print (tok_line (TOp c)) st)"
proof -
  have "\<not> id_is_two_op [c, CHR '' '']"
    using assms(1) by (auto simp: id_is_two_op_def two_ops_def streq_def c_text_def op_char_def split: if_splits)
  then show ?thesis using scan_op_at [of c "CHR '' ''" st a r] assms by simp
qed

lemma str_end_run:
  "CHR 0x22 \<notin> set w \<Longrightarrow> CHR 0x5C \<notin> set w \<Longrightarrow>
     id_str_end (a @ w @ CHR 0x22 # r) (int (length a)) = int (length a + length w)"
proof (induction w arbitrary: a)
  case Nil
  then show ?case by (subst id_str_end.simps) simp
next
  case (Cons c w)
  let ?s = "a @ (c # w) @ CHR 0x22 # r" and ?i = "int (length a)"
  have "int (of_char c) \<noteq> 34" "int (of_char c) \<noteq> 92"
    using Cons.prems code_inj [of c "CHR 0x22"] code_inj [of c "CHR 0x5C"] by auto
  then have "id_str_end ?s ?i = id_str_end ?s (?i + 1)"
    by (subst id_str_end.simps) (simp add: id_adv_str_def)
  also have "\<dots> = id_str_end ((a @ [c]) @ w @ CHR 0x22 # r) (int (length (a @ [c])))"
    by (simp add: add.commute)
  also have "\<dots> = int (length (a @ [c]) + length w)" using Cons by (intro Cons.IH) auto
  finally show ?case by simp
qed

lemma scan_str_tok:
  assumes "tok_ok (TStr w)" "\<not> lexcols st" "int (length (a @ tok_text (TStr w) @ r)) \<le> INT_MAX"
  shows "id_scan_one (a @ tok_text (TStr w) @ r) (int (length a)) st
    = Inr (int (length a + length (tok_text (TStr w))), id_print (tok_line (TStr w)) st)"
proof -
  let ?s = "a @ CHR 0x22 # w @ CHR 0x22 # r" and ?i = "int (length a)"
  have e: "id_str_end ?s (?i + 1) = int (length a + 1 + length w)"
    using str_end_run [of w "a @ [CHR 0x22]" r] assms(1) by (simp add: add.commute)
  have sl: "id_slice_str ?s (?i + 1) (int (length a + 1 + length w)) = Inr w"
    using slice_total [of "?i + 1" "int (length a + 1 + length w)" ?s] assms(3)
    by (simp add: nat_add_distrib)
  have q: "id_chr str_env 34 = Inr [CHR 0x22]" using chr_char [of "CHR 0x22"] by simp
  have c: "code_at ?s ?i = 34" by simp
  show ?thesis using c e sl q assms(2)
    by (simp add: id_scan_one_def id_scan_tok_span_def id_scan_word_def id_scan_block_def
        id_scan_hashop_def id_scan_token_def id_scan_numop_def id_scan_binop_def id_scan_decop_def
        id_scan_strop_def id_hex_start_def id_bin_start_def class_at_defs char_class_defs
        id_scan_string_def id_scan_str_out_def Let_def)
qed

lemma scan_tok:
  assumes "tok_ok t" "\<not> lexcols st" "int (length (a @ tok_text t @ CHR '' '' # r)) \<le> INT_MAX"
  shows "id_scan_one (a @ tok_text t @ CHR '' '' # r) (int (length a)) st
    = Inr (int (length a + length (tok_text t)), id_print (tok_line t) st)"
  using assms scan_word_tok scan_dec_tok scan_op_tok scan_op2_tok scan_str_tok
  by (cases t) (simp_all del: tok_ok.simps tok_line.simps)

lemma scan_space:
  "id_scan_one (a @ CHR '' '' # r) (int (length a)) st = Inr (int (length a) + 1, st)"
  by (simp add: id_scan_one_def id_idstd_character_is_space_at_def char_class_defs id_eat_space_def)

lemma scan_newline:
  "id_scan_one (a @ CHR 0x0A # r) (int (length a)) st
     = Inr (int (length a) + 1, (id_bump_line st)\<lparr>lexbol := int (length a) + 1\<rparr>)"
  by (simp add: id_scan_one_def id_idstd_character_is_space_at_def char_class_defs id_eat_space_def)

section \<open>A whole source\<close>

lemma lex_loop_step:
  assumes "id_scan_one s i st = Inr (j, st1)" "i < n"
  shows "id_lex_loop s n i st = id_lex_loop s n j st1"
  using assms by (simp add: id_lex_loop.simps [of s n i])

lemma lex_items:
  assumes "items_ok is" "\<not> lexcols st" "int (length (a @ source is)) \<le> INT_MAX"
    and "0 \<le> lexline st" "lexline st + int (length is) \<le> INT_MAX"
  shows "\<exists>st'. id_lex_loop (a @ source is) (int (length (a @ source is))) (int (length a)) st = Inr st'
    \<and> lexout st' = lexout st @ expected (lexline st) is"
  using assms
proof (induction "is" arbitrary: a st rule: source.induct)
  case 1
  then show ?case by (simp add: id_lex_loop.simps)
next
  case (2 t "is")
  let ?s = "a @ tok_text t @ CHR '' '' # source is" and ?b = "a @ tok_text t @ [CHR '' '']"
  let ?n = "int (length ?s)" and ?st = "id_print (tok_line t) st"
  have ok: "tok_ok t" "items_ok is" using 2 by auto
  have "id_scan_one ?s (int (length a)) st = Inr (int (length a + length (tok_text t)), ?st)"
    using scan_tok [OF ok(1)] 2 by simp
  then have "id_lex_loop ?s ?n (int (length a)) st = id_lex_loop ?s ?n (int (length a + length (tok_text t))) ?st"
    by (rule lex_loop_step) simp
  also have "\<dots> = id_lex_loop ?s ?n (int (length a + length (tok_text t)) + 1) ?st"
    using scan_space [of "a @ tok_text t" "source is" ?st]
    by (intro lex_loop_step) (simp_all add: add.assoc)
  also have "\<dots> = id_lex_loop (?b @ source is) (int (length (?b @ source is))) (int (length ?b)) ?st"
    by (simp add: add.commute add.left_commute)
  finally have l: "id_lex_loop ?s ?n (int (length a)) st
      = id_lex_loop (?b @ source is) (int (length (?b @ source is))) (int (length ?b)) ?st" .
  have "\<exists>st'. id_lex_loop (?b @ source is) (int (length (?b @ source is))) (int (length ?b)) ?st = Inr st'
    \<and> lexout st' = lexout ?st @ expected (lexline ?st) is"
    using 2 ok by (intro "2.IH") auto
  with l show ?case by auto
next
  case (3 "is")
  let ?s = "a @ CHR 0x0A # source is" and ?b = "a @ [CHR 0x0A]"
  let ?n = "int (length ?s)" and ?st = "(id_bump_line st)\<lparr>lexbol := int (length a) + 1\<rparr>"
  have "id_lex_loop ?s ?n (int (length a)) st = id_lex_loop ?s ?n (int (length a) + 1) ?st"
    using scan_newline [of a "source is" st] by (intro lex_loop_step) simp_all
  also have "\<dots> = id_lex_loop (?b @ source is) (int (length (?b @ source is))) (int (length ?b)) ?st"
    by (simp add: add.commute)
  finally have l: "id_lex_loop ?s ?n (int (length a)) st
      = id_lex_loop (?b @ source is) (int (length (?b @ source is))) (int (length ?b)) ?st" .
  have w: "wrap32 (lexline st + 1) = lexline st + 1" using 3 by (intro wrap32_id) (auto simp: INT_MAX_def)
  have f: "lexline ?st = lexline st + 1" "\<not> lexcols ?st"
    "lexout ?st = lexout st @ [''line '' @ int_text (lexline st + 1)]"
    using w 3 by (simp_all add: id_bump_line_def Let_def)
  have "\<exists>st'. id_lex_loop (?b @ source is) (int (length (?b @ source is))) (int (length ?b)) ?st = Inr st'
    \<and> lexout st' = lexout ?st @ expected (lexline ?st) is"
    using 3 f by (intro "3.IH") auto
  with l f show ?case by auto
qed

section \<open>From the input to the printed lines\<close>

lemma read_all_text:
  assumes "CHR 0x00 \<notin> set s" "int (length s) \<le> INT_MAX"
  shows "id_read_all str_env s = Inr s"
proof -
  have "2 * (length s + 9) \<le> SIZE_MAX div 2" using assms(2) by (simp add: INT_MAX_def SIZE_MAX_def)
  from read_loop_all [OF str_env_roomy this] show ?thesis
    using assms(1) by (auto simp: id_read_all_def nul_check_def str_env_def)
qed

lemma id_main_loop:
  assumes "CHR 0x00 \<notin> set s" "int (length s) \<le> INT_MAX"
  shows "id_main argv s = andThen (id_lex_loop s (int (length s)) 0 (id_lex_setup argv))
    (\<lambda>st. Inr (lexout st @ [''eof'']))"
proof -
  have "id_len s = int (length s)" using assms(2) by (simp add: id_len_def id_slen_def wrap32_id INT_MAX_def)
  then show ?thesis using read_all_text [OF assms] by (simp add: id_main_def id_lex_all_def id_lex_def)
qed

lemma two_ops_no_nul: "t \<in> set two_ops \<Longrightarrow> CHR 0x00 \<notin> set t"
  by (auto simp: two_ops_def)

lemma tok_no_nul: "tok_ok t \<Longrightarrow> CHR 0x00 \<notin> set (tok_text t)"
  by (cases t) (auto simp: list_all_iff op_char_def chr_is_def char_class_defs
      dest: name_char_nonzero two_ops_no_nul)

lemma source_no_nul: "items_ok is \<Longrightarrow> CHR 0x00 \<notin> set (source is)"
  by (induction "is" rule: source.induct) (auto dest: tok_no_nul)

lemma length_items: "length is \<le> length (source is)"
  by (induction "is" rule: source.induct) auto

lemma no_cols: "length argv \<le> 1 \<or> argv ! 1 \<noteq> ''--cols'' \<and> CHR 0x00 \<notin> set (argv ! 1) \<Longrightarrow> \<not> lexcols (id_lex_setup argv)"
  by (auto simp: id_lex_setup_def streq_def c_text_id)

lemma lex_lines:
  assumes "items_ok is" "int (length (source is)) < INT_MAX" "length argv \<le> 1"
  shows "id_main argv (source is) = Inr (expected 1 is @ [''eof''])"
proof -
  let ?st = "id_lex_setup argv"
  have st: "\<not> lexcols ?st" "lexline ?st = 1" "lexout ?st = []"
    using no_cols [of argv] assms(3) by (auto simp: id_lex_setup_def)
  obtain st' where "id_lex_loop (source is) (int (length (source is))) 0 ?st = Inr st'"
    "lexout st' = expected 1 is"
    using lex_items [OF assms(1) st(1), of "[]"] assms(2) st length_items [of "is"] by auto
  then show ?thesis using id_main_loop [OF source_no_nul [OF assms(1)]] assms(2) by simp
qed

text \<open>
  C1: The lexer is correct on written-out tokens: any sequence of identifiers, keywords,
  decimal numbers, one- and two-character operators, plain string literals and line breaks,
  written as source text with a space after each token, is printed as exactly one line per
  token (its kind and its text, unchanged and in order), a line record with the next number
  at each line break, and eof at the end.
\<close>

theorem id_main_tokens:
  assumes "items_ok is" "int (length (source is)) < INT_MAX" "length argv \<le> 1"
  shows "id_main argv (source is) = Inr (expected 1 is @ [''eof''])"
  by (rule lex_lines [OF assms])

theorem id_main_tokens_witness:
  "id_main [] (source [Tok (TWord ''int''), Tok (TWord ''x1''), Tok (TOp2 ''==''), Newline, Tok (TDec ''42'')])
   = Inr ([''kw int'', ''ident x1'', ''op =='', ''line '' @ int_text 2, ''int 42''] @ [''eof''])"
  by (subst id_main_tokens)
    (simp_all add: two_ops_def kw_list_def INT_MAX_def chr_is_def char_class_defs)



text \<open>The exception: the text of such a string is taken one past the end of the source.\<close>

lemma str_end_overshoot:
  "CHR 0x22 \<notin> set w \<Longrightarrow> CHR 0x5C \<notin> set w \<Longrightarrow>
     id_str_end (a @ w @ [CHR 0x5C]) (int (length a)) = int (length a + length w) + 2"
proof (induction w arbitrary: a)
  case Nil
  have "id_str_end (a @ [CHR 0x5C]) (int (length a) + 2) = int (length a) + 2"
    by (subst id_str_end.simps) (simp add: code_at_cases)
  then show ?case by (subst id_str_end.simps) (simp add: id_adv_str_def)
next
  case (Cons c w)
  let ?s = "a @ (c # w) @ [CHR 0x5C]" and ?i = "int (length a)"
  have "int (of_char c) \<noteq> 34" "int (of_char c) \<noteq> 92"
    using Cons.prems code_inj [of c "CHR 0x22"] code_inj [of c "CHR 0x5C"] by auto
  then have "id_str_end ?s ?i = id_str_end ?s (?i + 1)"
    by (subst id_str_end.simps) (simp add: id_adv_str_def)
  also have "\<dots> = id_str_end ((a @ [c]) @ w @ [CHR 0x5C]) (int (length (a @ [c])))"
    by (simp add: add.commute)
  also have "\<dots> = int (length (a @ [c]) + length w) + 2" using Cons by (intro Cons.IH) auto
  finally show ?case by simp
qed



theorem id_scan_one_cursor:
  assumes "id_scan_one s i st = Inr (j, st')" "i < int (length s)"
  shows "i < j \<and> j \<le> int (length s) + 2"
  using scan_one_progress [OF assms(1)] scan_one_bound [OF assms] by simp

theorem id_scan_one_cursor_witness:
  "\<exists>j st'. id_scan_one ''a + b'' 0 (id_lex_setup []) = Inr (j, st') \<and> 0 < j \<and> j \<le> 6"
proof -
  have "id_scan_one ([] @ ''a'' @ '' + b'') (int (length [])) (id_lex_setup [])
      = Inr (int (length [] + length ''a''), id_print (tok_line (TWord ''a'')) (id_lex_setup []))"
    using scan_word_tok [of "''a''" "id_lex_setup []" "[]" "''+ b''"]
    by (simp add: id_lex_setup_def chr_is_def char_class_defs)
  then have one: "id_scan_one ''a + b'' 0 (id_lex_setup []) = Inr (1, id_print (tok_line (TWord ''a'')) (id_lex_setup []))"
    by simp
  show ?thesis using id_scan_one_cursor [OF one] one by simp
qed

end
