(* ===== verification/LexNum.thy ===== *)
theory LexNum
  imports LexSpec
begin

text \<open>
  Hexadecimal and binary literals. The lexer computes their value in 64 bits and prints it
  as an unsigned decimal number; it has only a signed printer, so a large value is printed
  in two halves. A literal with more significant digits than 64 bits hold is printed as
  written, for the parser to refuse.
\<close>

section \<open>Unsigned decimal text\<close>

lemma dec_str_append:
  "0 < q \<Longrightarrow> r < 10 ^ k \<Longrightarrow> 0 < k \<Longrightarrow>
     dec_str (q * 10 ^ k + r) = dec_str q @ replicate (k - length (dec_str r)) (CHR ''0'') @ dec_str r"
proof (induction k arbitrary: r)
  case 0
  then show ?case by simp
next
  case (Suc k)
  let ?n = "q * 10 ^ Suc k + r"
  have e: "?n = r + (q * 10 ^ k) * 10" by simp
  have n: "?n div 10 = q * 10 ^ k + r div 10" "?n mod 10 = r mod 10" unfolding e by simp_all
  have "1 * 10 \<le> q * (10 * 10 ^ k)" using Suc.prems(1) by (intro mult_mono) auto
  then have "10 \<le> ?n" by (simp add: mult_1 trans_le_add1 del: One_nat_def)
  then have s: "dec_str ?n = dec_str (q * 10 ^ k + r div 10) @ [char_of (48 + r mod 10)]"
    using n by (subst dec_str.simps) (simp del: power_Suc)
  show ?case
  proof (cases "k = 0")
    case True
    then have "r < 10" using Suc.prems by simp
    then show ?thesis using s True by (simp add: dec_str.simps [of r])
  next
    case False
    have "r div 10 < 10 ^ k" using Suc.prems by auto
    then have i: "dec_str (q * 10 ^ k + r div 10)
        = dec_str q @ replicate (k - length (dec_str (r div 10))) (CHR ''0'') @ dec_str (r div 10)"
      using Suc False by simp
    show ?thesis
    proof (cases "r < 10")
      case True
      then have "dec_str (r div 10) = ''0''" "dec_str r = [char_of (48 + r)]"
        by (simp_all add: dec_str.simps [of r] dec_str.simps [of 0] char_of_def bit_Suc_0_iff)
      moreover have "replicate k (CHR ''0'') = replicate (k - 1) (CHR ''0'') @ [CHR ''0'']"
        using False by (cases k) (simp_all add: replicate_append_same)
      ultimately show ?thesis using s i True by simp
    next
      case ge: False
      then have "dec_str r = dec_str (r div 10) @ [char_of (48 + r mod 10)]"
        by (simp add: dec_str.simps [of r])
      then show ?thesis using s i by simp
    qed
  qed
qed

lemma pad10: "length s \<le> 10 \<Longrightarrow> id_pad10 s = replicate (10 - length s) (CHR ''0'') @ s"
proof (induction s rule: id_pad10.induct)
  case (1 s)
  have l: "id_len s = int (length s)" using 1 by (simp add: id_len_def id_slen_def wrap32_id)
  show ?case
  proof (cases "length s < 10")
    case True
    have "replicate (10 - length s) (CHR ''0'') = replicate (9 - length s) (CHR ''0'') @ [CHR ''0'']"
      using True by (simp add: replicate_append_same Suc_diff_le flip: replicate_Suc)
    then show ?thesis using 1 True l by (subst id_pad10.simps) simp
  next
    case False
    then show ?thesis using 1 l by (subst id_pad10.simps) simp
  qed
qed

lemma str_of_word_small: "unat x < 9223372036854775808 \<Longrightarrow> id_str_of_word x = dec_str (unat x)"
proof -
  assume x: "unat x < 9223372036854775808"
  have "uint x = int (unat x)" by simp
  then have "uint x < 9223372036854775808" using x by linarith
  then have "sint x = uint x"
    using signed_take_bit_int_eq_self [of 63 "uint x"] order_trans [of "- 9223372036854775808" 0 "uint x"]
    by (simp add: sint_uint)
  then show ?thesis by (simp add: id_str_of_word_text)
qed

lemma udec_text: "id_udec v = Inr (dec_str (unat v))"
proof -
  let ?p = "10000000000 :: w64"
  let ?q = "unat v div 10000000000" and ?r = "unat v mod 10000000000"
  have u: "unat (v div ?p) = ?q" "unat (v mod ?p) = ?r" by (simp_all add: unat_div unat_mod)
  have b: "unat v < 18446744073709551616" using unsigned_less [of v, where ?'a = nat] by simp
  show ?thesis
  proof (cases "?q = 0")
    case True
    then have "v div ?p = 0" using u(1) by (metis unat_eq_zero)
    moreover have "id_str_of_word v = dec_str (unat v)" using True by (intro str_of_word_small) auto
    ultimately show ?thesis by (simp add: id_udec_def id_udiv_def)
  next
    case False
    then have nz: "v div ?p \<noteq> 0" using u(1) by (metis unat_0)
    have d: "?q * 10000000000 + ?r = unat v" "?r < 10000000000" by simp_all
    then have "?q < 9223372036854775808" "?r < 9223372036854775808" using b by linarith+
    then have "id_str_of_word (v div ?p) = dec_str ?q" "id_str_of_word (v mod ?p) = dec_str ?r"
      using str_of_word_small [of "v div ?p"] str_of_word_small [of "v mod ?p"] by (simp_all only: u)
    moreover have "length (dec_str ?r) \<le> 10" by (rule dec_str_length) simp_all
    moreover have "dec_str (?q * 10 ^ 10 + ?r) = dec_str ?q @ replicate (10 - length (dec_str ?r)) (CHR ''0'') @ dec_str ?r"
      using False by (intro dec_str_append) simp_all
    moreover have "?q * 10 ^ 10 + ?r = unat v" by simp
    ultimately show ?thesis using nz by (simp add: id_udec_def id_udiv_def id_umod_def pad10)
  qed
qed

section \<open>The value of a literal\<close>

text \<open>The number a digit string denotes in base \<open>b\<close>, and the same sum in 64 bits.\<close>

definition radix_value :: "nat \<Rightarrow> (char \<Rightarrow> nat) \<Rightarrow> string \<Rightarrow> nat" where
  "radix_value b d w = foldl (\<lambda>n c. n * b + d c) 0 w"

abbreviation hex_number :: "string \<Rightarrow> nat" where
  "hex_number \<equiv> radix_value 16 (\<lambda>c. nat (id_hex_digit (int (of_char c))))"

abbreviation bin_number :: "string \<Rightarrow> nat" where
  "bin_number \<equiv> radix_value 2 (\<lambda>c. of_char c - 48)"

lemma radix_bound:
  fixes d :: "char \<Rightarrow> nat"
  assumes "\<forall>c \<in> set w. d c < b" "0 < b"
  shows "foldl (\<lambda>n c. n * b + d c) m w < (m + 1) * b ^ length w"
  using assms(1)
proof (induction w arbitrary: m)
  case (Cons c w)
  have "foldl (\<lambda>n c. n * b + d c) (m * b + d c) w < (m * b + d c + 1) * b ^ length w"
    using Cons by simp
  also have "\<dots> \<le> ((m + 1) * b) * b ^ length w"
    using Cons.prems by (intro mult_le_mono1) (simp add: Suc_le_eq)
  finally show ?case by (simp add: algebra_simps)
qed simp

lemma radix_leading_zeros:
  assumes "d (CHR ''0'') = 0"
  shows "radix_value b d w = radix_value b d (dropWhile (\<lambda>c. c = CHR ''0'') w)"
  using assms by (induction w) (simp_all add: radix_value_def)

lemma radix_small:
  assumes "\<forall>c \<in> set w. d c < b" "0 < b" "d (CHR ''0'') = 0"
  shows "radix_value b d w < b ^ length (dropWhile (\<lambda>c. c = CHR ''0'') w)"
proof -
  let ?z = "dropWhile (\<lambda>c. c = CHR ''0'') w"
  have "\<forall>c \<in> set ?z. d c < b" using assms(1) set_dropWhileD by fast
  from radix_bound [OF this assms(2), of 0] show ?thesis
    by (subst radix_leading_zeros [where d = d, OF assms(3)]) (simp add: radix_value_def)
qed

lemma of_nat_radix:
  "foldl (\<lambda>v c. v * of_nat b + of_nat (d c)) (of_nat m :: 'a::comm_semiring_1) w
     = of_nat (foldl (\<lambda>n c. n * b + d c) m w)"
proof (induction w arbitrary: m)
  case (Cons c w)
  show ?case using Cons [of "m * b + d c"] by simp
qed simp

lemma hex_digit_range:
  "chr_is id_is_hex c \<Longrightarrow> 0 \<le> id_hex_digit (int (of_char c)) \<and> id_hex_digit (int (of_char c)) < 16"
  by (auto simp: chr_is_def char_class_defs id_hex_digit_def id_hex_alpha_def)

lemma hex_loop_word:
  "list_all (chr_is id_is_hex) w \<Longrightarrow>
     hex_loop (a @ w @ r) (int (length a)) (int (length a + length w)) v
       = foldl (\<lambda>v c. v * 16 + word_of_int (id_hex_digit (int (of_char c)))) v w"
proof (induction w arbitrary: a v)
  case Nil
  then show ?case by (simp add: hex_loop.simps)
next
  case (Cons c w)
  let ?v = "v * 16 + word_of_int (id_hex_digit (int (of_char c)))"
  have "hex_loop (a @ (c # w) @ r) (int (length a)) (int (length a + length (c # w))) v
      = hex_loop ((a @ [c]) @ w @ r) (int (length (a @ [c]))) (int (length (a @ [c]) + length w)) ?v"
    by (subst hex_loop.simps) (simp add: add.commute)
  also have "\<dots> = foldl (\<lambda>v c. v * 16 + word_of_int (id_hex_digit (int (of_char c)))) ?v w"
    using Cons by (intro Cons.IH) simp
  finally show ?case by simp
qed

lemma hex_val_word:
  assumes "list_all (chr_is id_is_hex) w"
  shows "id_hex_val (a @ w @ r) (int (length a)) (int (length a + length w)) = of_nat (hex_number w)"
proof -
  have e: "foldl (\<lambda>v c. v * 16 + word_of_int (id_hex_digit (int (of_char c)))) v w
      = foldl (\<lambda>v c. v * of_nat 16 + of_nat (nat (id_hex_digit (int (of_char c))))) v w" for v :: w64
    using assms by (induction w arbitrary: v) (simp_all add: hex_digit_range)
  show ?thesis using e [of 0] hex_loop_word [OF assms, of a r 0]
      of_nat_radix [where 'a = "64 word" and b = 16 and d = "\<lambda>c. nat (id_hex_digit (int (of_char c)))" and m = 0 and w = w]
    by (simp add: id_hex_val_def radix_value_def)
qed

lemma bin_digit_word:
  "chr_is id_is_bin c \<Longrightarrow> v * 2 + word_of_int (int (of_char c)) - 48 = v * 2 + (of_nat (of_char c - 48) :: w64)"
  by (auto simp: chr_is_def id_is_bin_def)

lemma bin_loop_word:
  assumes "\<And>k. k < length w \<Longrightarrow> rd (i + int k) = int (of_char (w ! k))" "list_all (chr_is id_is_bin) w"
  shows "bin_loop rd i (i + int (length w)) v
    = foldl (\<lambda>v c. v * of_nat 2 + of_nat (of_char c - 48)) v w"
  using assms
proof (induction w arbitrary: i v)
  case Nil
  then show ?case by (simp add: bin_loop.simps)
next
  case (Cons c w)
  let ?v = "v * 2 + of_nat (of_char c - 48)"
  have c: "rd i = int (of_char c)" using Cons.prems(1) [of 0] by simp
  have v: "v * 2 + word_of_int (rd i) - 48 = ?v"
    using bin_digit_word [of c v] Cons.prems(2) by (simp only: c list.pred_inject)
  have rd: "k < length w \<Longrightarrow> rd (i + 1 + int k) = int (of_char (w ! k))" for k
    using Cons.prems(1) [of "Suc k"] by (simp add: add.assoc)
  have "bin_loop rd i (i + int (length (c # w))) v = bin_loop rd (i + 1) (i + 1 + int (length w)) ?v"
    by (subst bin_loop.simps) (simp only: v, simp add: add.assoc)
  also have "\<dots> = foldl (\<lambda>v c. v * of_nat 2 + of_nat (of_char c - 48)) ?v w"
    using Cons.prems(2) rd by (intro Cons.IH) simp_all
  finally show ?case by simp
qed

lemma bin_val_word:
  assumes "list_all (chr_is id_is_bin) w"
  shows "id_bin_val (a @ w @ r) (int (length a)) (int (length a + length w)) = of_nat (bin_number w)"
proof -
  have "nat (int (length a) + int k) = length a + k" for k by simp
  then have "(a @ w @ r) ! nat (int (length a) + int k) = w ! k" if "k < length w" for k
    using that by (simp add: nth_append)
  then have "bin_loop (\<lambda>j. int (of_char ((a @ w @ r) ! nat j))) (int (length a)) (int (length a) + int (length w)) 0
      = foldl (\<lambda>v c. v * of_nat 2 + of_nat (of_char c - 48)) 0 w"
    using assms by (intro bin_loop_word) simp_all
  then show ?thesis using of_nat_radix [where 'a = "64 word" and b = 2 and d = "\<lambda>c. of_char c - 48" and m = 0 and w = w]
    by (simp add: id_bin_val_def id_slen_def radix_value_def)
qed

lemma zero_end_word:
  "id_zero_end (a @ w @ r) (int (length a)) (int (length a + length w))
     = int (length a + length (takeWhile (\<lambda>c. c = CHR ''0'') w))"
proof (induction w arbitrary: a)
  case Nil
  then show ?case by (simp add: id_zero_end.simps)
next
  case (Cons c w)
  let ?s = "a @ (c # w) @ r"
  show ?case
  proof (cases "c = CHR ''0''")
    case True
    have "id_zero_end ?s (int (length a)) (int (length a + length (c # w)))
        = id_zero_end ((a @ [c]) @ w @ r) (int (length (a @ [c]))) (int (length (a @ [c]) + length w))"
      using True by (subst id_zero_end.simps) (simp add: add.commute)
    then show ?thesis using Cons [of "a @ [c]"] True by simp
  next
    case False
    then have "int (of_char c) \<noteq> 48" using code_inj [of c "CHR ''0''"] by auto
    then show ?thesis using False by (subst id_zero_end.simps) simp
  qed
qed

text \<open>What is printed: the value, or the literal itself when it has too many digits.\<close>

definition literal_text :: "nat \<Rightarrow> string \<Rightarrow> string \<Rightarrow> nat \<Rightarrow> string" where
  "literal_text limit pre w n =
     (if limit < length (dropWhile (\<lambda>c. c = CHR ''0'') w) then pre @ w else dec_str n)"

lemma drop_take_while: "length (takeWhile P w) + length (dropWhile P w) = length w"
  by (metis length_append takeWhile_dropWhile_id)

lemma print_number_word:
  assumes "length pre = 2" "int (length (a @ pre @ w @ r)) \<le> INT_MAX"
    and "v = of_nat n" "n < 2 ^ 64 \<or> limit < length (dropWhile (\<lambda>c. c = CHR ''0'') w)"
  shows "id_print_number (a @ pre @ w @ r) (int (length a)) (int (length a + 2 + length w)) v (int limit) st
    = Inr (id_print (''int '' @ literal_text limit pre w n) st)"
proof -
  let ?s = "a @ pre @ w @ r" and ?z = "\<lambda>c. c = CHR ''0''"
  have f: "id_zero_end ?s (int (length a) + 2) (int (length a + 2 + length w))
      = int (length a + 2 + length (takeWhile ?z w))"
  proof -
    have i: "int (length a) + 2 = int (length (a @ pre))" using assms(1) by simp
    show ?thesis unfolding i using zero_end_word [of "a @ pre" w r] assms(1) by simp
  qed
  have g: "int (length a + 2 + length w) - int (length a + 2 + length (takeWhile ?z w))
      = int (length (dropWhile ?z w))"
    using drop_take_while [of ?z w] by linarith
  have s: "id_str_sub str_env ?s (int (length a)) (int (2 + length w)) = Inr (pre @ w)"
    using sub_total [of "int (length a)" "int (length a + 2 + length w)" ?s] assms(1,2)
    by (simp add: nat_add_distrib add.assoc)
  show ?thesis
  proof (cases "limit < length (dropWhile ?z w)")
    case True
    then show ?thesis using f g s by (simp add: id_print_number_def literal_text_def Let_def)
  next
    case False
    then have "unat v = n" using assms(3,4) by (simp add: unsigned_of_nat take_bit_nat_eq_self)
    then show ?thesis using f g False
      by (simp add: id_print_number_def literal_text_def Let_def id_print_uint_def udec_text)
  qed
qed

lemma hex_number_fits:
  assumes "list_all (chr_is id_is_hex) w" "length (dropWhile (\<lambda>c. c = CHR ''0'') w) \<le> 16"
  shows "hex_number w < 2 ^ 64"
proof -
  have "hex_number w < 16 ^ length (dropWhile (\<lambda>c. c = CHR ''0'') w)"
  proof (rule radix_small)
    show "\<forall>c \<in> set w. nat (id_hex_digit (int (of_char c))) < 16"
      using assms(1) hex_digit_range by (simp add: list_all_iff nat_less_iff)
  qed (simp_all add: id_hex_digit_def)
  also have "\<dots> \<le> 16 ^ 16" using assms(2) by (intro power_increasing) simp_all
  finally show ?thesis by simp
qed

lemma bin_number_fits:
  assumes "list_all (chr_is id_is_bin) w" "length (dropWhile (\<lambda>c. c = CHR ''0'') w) \<le> 64"
  shows "bin_number w < 2 ^ 64"
proof -
  have "bin_number w < 2 ^ length (dropWhile (\<lambda>c. c = CHR ''0'') w)"
    using assms(1) by (intro radix_small) (auto simp: list_all_iff chr_is_def id_is_bin_def)
  also have "\<dots> \<le> 2 ^ 64" using assms(2) by (intro power_increasing) simp_all
  finally show ?thesis .
qed

section \<open>A literal at the cursor\<close>

lemma code_at_prefix:
  "code_at (a @ (c # [x]) @ w @ r) (int (length a)) = int (of_char c)"
  "code_at (a @ (c # [x]) @ w @ r) (int (length a) + 1) = int (of_char x)"
  "w \<noteq> [] \<Longrightarrow> code_at (a @ (c # [x]) @ w @ r) (int (length a) + 2) = int (of_char (hd w))"
proof -
  show "code_at (a @ (c # [x]) @ w @ r) (int (length a)) = int (of_char c)"
    using code_at_app(1) [of a c "x # w @ r"] by simp
  show "code_at (a @ (c # [x]) @ w @ r) (int (length a) + 1) = int (of_char x)"
    using code_at_app(2) [of a c x "w @ r"] by simp
  assume "w \<noteq> []"
  then show "code_at (a @ (c # [x]) @ w @ r) (int (length a) + 2) = int (of_char (hd w))"
    using code_at_word [of w "a @ [c, x]" r] by (simp add: add.commute)
qed

lemma scan_one_zero:
  assumes "code_at s i = 48" "\<not> lexcols st"
  shows "id_hex_start s i \<Longrightarrow> id_scan_hex s i st = Inr (j, id_print t st)
           \<Longrightarrow> id_scan_one s i st = Inr (j, id_print t st)"
    and "\<not> id_hex_start s i \<Longrightarrow> id_bin_start s i \<Longrightarrow> id_scan_bin s i st = Inr (j, id_print t st)
           \<Longrightarrow> id_scan_one s i st = Inr (j, id_print t st)"
  using assms by (simp_all add: scan_defs id_idstd_character_is_space_at_def id_is_name_start_at_def char_class_defs)


theorem id_scan_bin_literal:
  assumes "w \<noteq> []" "list_all (chr_is id_is_bin) w" "r = [] \<or> \<not> chr_is id_is_bin (hd r)"
    and "x \<in> {CHR ''b'', CHR ''B''}" "\<not> lexcols st"
    and "int (length (a @ [CHR ''0'', x] @ w @ r)) \<le> INT_MAX"
  shows "id_scan_one (a @ [CHR ''0'', x] @ w @ r) (int (length a)) st
    = Inr (int (length a + 2 + length w),
           id_print (''int '' @ literal_text 64 [CHR ''0'', x] w (bin_number w)) st)"
proof -
  let ?s = "a @ [CHR ''0'', x] @ w @ r" and ?i = "int (length a)" and ?e = "int (length a + 2 + length w)"
  have h: "chr_is id_is_bin (hd w)" using assms(1,2) by (cases w) auto
  note c = code_at_prefix(1,2) [of a "CHR ''0''" x w r] code_at_prefix(3) [OF assms(1), of a "CHR ''0''" x r]
  have hs: "id_bin_start ?s ?i" "\<not> id_hex_start ?s ?i" using assms(4) h
    unfolding id_hex_start_def id_bin_start_def id_is_bin_at_def c chr_is_def by auto
  have e: "id_bin_end ?s (?i + 2) = ?e"
    using bins.run_word [OF assms(2,3), of "a @ [CHR ''0'', x]"] by (simp add: add.commute)
  have v: "id_bin_val ?s (?i + 2) ?e = of_nat (bin_number w)"
    using bin_val_word [OF assms(2), of "a @ [CHR ''0'', x]" r] by (simp add: add.commute)
  have "id_print_number ?s ?i ?e (of_nat (bin_number w)) (int 64) st
      = Inr (id_print (''int '' @ literal_text 64 [CHR ''0'', x] w (bin_number w)) st)"
    using bin_number_fits [OF assms(2)] assms(6) by (intro print_number_word) auto
  then have "id_scan_bin ?s ?i st = Inr (?e, id_print (''int '' @ literal_text 64 [CHR ''0'', x] w (bin_number w)) st)"
    using e v by (simp add: id_scan_bin_def Let_def)
  then show ?thesis using scan_one_zero(2) [of ?s ?i st, OF _ assms(5) hs(2,1)] code_at_prefix(1) by simp
qed


theorem id_scan_bin_literal_witness:
  "id_scan_one ''0b101'' 0 (id_lex_setup []) = Inr (5, id_print ''int 5'' (id_lex_setup []))"
  using id_scan_bin_literal [of "''101''" "[]" "CHR ''b''" "id_lex_setup []" "[]"]
  by (simp add: chr_is_def char_class_defs id_lex_setup_def INT_MAX_def literal_text_def radix_value_def
      dec_str.simps char_of_def bit_Suc_0_iff)

theorem id_udec_decimal:
  "id_udec v = Inr (dec_str (unat v)) \<and> dec_value 0 (dec_str (unat v)) = unat v"
  by (simp add: udec_text dec_str_value)

end
