(* ===== verification/Cells.thy ===== *)
theory Cells
  imports IdList LexScan
begin

text \<open>
  Lists as the compiled code sees them. The code generated from \<open>id\<close> reads and writes lists
  only through \<open>id_list_get\<close>, \<open>id_list_set\<close>, \<open>id_list_push\<close>, \<open>id_list_pop\<close> and \<open>id_list_len\<close>;
  here these are operations on the sequence a list stands for, with the same traps, and the
  lemmas of the first section show that this is what the runtime's list does. Above this
  layer a list parameter is a HOL list, returned updated where the code changes it; two list
  parameters of a function are two different lists.
\<close>

section \<open>The five operations on sequences\<close>

definition lget :: "'a list \<Rightarrow> int \<Rightarrow> 'a res" where
  "lget xs i =
     (if 0 \<le> i \<and> i < int (length xs) then Inr (xs ! nat i) else Inl (Trap_index i (int (length xs))))"

definition lset :: "'a list \<Rightarrow> int \<Rightarrow> 'a \<Rightarrow> 'a list res" where
  "lset xs i v =
     (if 0 \<le> i \<and> i < int (length xs) then Inr (xs[nat i := v]) else Inl (Trap_index i (int (length xs))))"

definition lpush :: "'a list \<Rightarrow> 'a \<Rightarrow> 'a list" where
  "lpush xs v = xs @ [v]"

definition lpop :: "'a list \<Rightarrow> ('a \<times> 'a list) res" where
  "lpop xs = (if xs = [] then Inl Trap_pop_empty else Inr (last xs, butlast xs))"

definition llen :: "'a list \<Rightarrow> int" where
  "llen xs = int (length xs)"

lemma lget_nth [simp]: "k < length xs \<Longrightarrow> lget xs (int k) = Inr (xs ! k)"
  by (simp add: lget_def)

lemma lset_nth [simp]: "k < length xs \<Longrightarrow> lset xs (int k) v = Inr (xs[k := v])"
  by (simp add: lset_def)

lemma lget_ok: "0 \<le> i \<Longrightarrow> i < llen xs \<Longrightarrow> lget xs i = Inr (xs ! nat i)"
  by (simp add: lget_def llen_def)

lemma lset_ok: "0 \<le> i \<Longrightarrow> i < llen xs \<Longrightarrow> lset xs i v = Inr (xs[nat i := v])"
  by (simp add: lset_def llen_def)

lemma lget_Inr_iff: "lget xs i = Inr v \<longleftrightarrow> 0 \<le> i \<and> i < llen xs \<and> v = xs ! nat i"
  by (auto simp: lget_def llen_def)

lemma llen_simps [simp]:
  "llen [] = 0" "llen (x # xs) = llen xs + 1" "llen (xs @ ys) = llen xs + llen ys"
  "llen (xs[k := v]) = llen xs" "llen (lpush xs v) = llen xs + 1" "llen (replicate n x) = int n"
  "0 \<le> llen xs"
  by (simp_all add: llen_def lpush_def)

text \<open>The runtime's list implements them (pushing needs the memory to be there).\<close>

lemma runtime_get: "list_ok L \<Longrightarrow> id_list_get (Some L) i = lget (list_abs L) i"
  by (simp add: id_list_get_ok lget_def)

lemma runtime_len: "list_ok L \<Longrightarrow> id_list_len (Some L) = Inr (llen (list_abs L))"
  using list_abs_length [of L] by (auto simp: id_list_len_def with_list_def llen_def list_ok_def)

lemma runtime_set:
  assumes "list_inv L" "lset (list_abs L) i v = Inr ys"
  shows "\<exists>L'. id_list_set (Some L) i v = Inr L' \<and> list_inv L' \<and> list_abs L' = ys"
  using id_list_set_ok [OF assms(1), of i v] assms(2) by (auto simp: lset_def split: if_splits)

lemma runtime_push:
  assumes "list_inv L" "roomy e" "length (list_abs L) < 1073741824"
  shows "\<exists>L'. id_list_push e (Some L) v = Inr L' \<and> list_inv L' \<and> list_abs L' = lpush (list_abs L) v"
proof -
  obtain L' where p: "id_list_push e (Some L) v = Inr L'"
    using id_list_push_total [of L e v] assms by (auto simp: list_fits_def)
  then show ?thesis using id_list_push_ok [of L e v L'] assms(1) by (auto simp: lpush_def)
qed

lemma runtime_pop:
  assumes "list_inv L" "lpop (list_abs L) = Inr (v, ys)"
  shows "\<exists>L'. id_list_pop (Some L) = Inr (v, L') \<and> list_inv L' \<and> list_abs L' = ys"
  using id_list_pop_ok [of L] assms by (auto simp: lpop_def split: if_splits)

section \<open>C integers as \<open>int\<close> values\<close>

text \<open>
  An \<open>int\<close> of the compiled code is an \<open>int\<close> of the model that fits 32 bits; division and
  remainder are the runtime's, on its words.
\<close>

definition c_idiv :: "int \<Rightarrow> int \<Rightarrow> int res" where
  "c_idiv a b = andThen (id_idiv (word_of_int a) (word_of_int b)) (\<lambda>r. Inr (sint r))"

definition c_imod :: "int \<Rightarrow> int \<Rightarrow> int res" where
  "c_imod a b = andThen (id_imod (word_of_int a) (word_of_int b)) (\<lambda>r. Inr (sint r))"

lemma wrap32_small: "0 \<le> a \<Longrightarrow> a \<le> INT_MAX \<Longrightarrow> wrap32 a = a"
  by (rule wrap32_id) (auto simp: INT_MAX_def)

lemma small_word:
  assumes "0 < b" "b \<le> INT_MAX"
  shows "(word_of_int b :: w32) \<noteq> 0" "(word_of_int b :: w32) \<noteq> - 1"
proof -
  have s: "sint (word_of_int b :: w32) = b" using assms by (simp add: wrap32_small)
  show "(word_of_int b :: w32) \<noteq> 0"
    by (rule notI, drule arg_cong [where f = sint]) (use s assms in simp)
  show "(word_of_int b :: w32) \<noteq> - 1"
    by (rule notI, drule arg_cong [where f = sint]) (use s assms in simp)
qed

lemma c_imod_nat:
  assumes "0 \<le> a" "a \<le> INT_MAX" "0 < b" "b \<le> INT_MAX"
  shows "c_imod a b = Inr (a mod b)"
proof -
  have m: "0 \<le> a mod b" "a mod b \<le> INT_MAX"
    using assms pos_mod_sign [of b a] pos_mod_bound [of b a] by linarith+
  have "a smod b = a mod b" using assms by (auto simp: signed_modulo_int_def sgn_if)
  then show ?thesis using assms small_word [of b] m by (simp add: c_imod_def id_imod_def wrap32_small)
qed

lemma c_idiv_nat:
  assumes "0 \<le> a" "a \<le> INT_MAX" "0 < b" "b \<le> INT_MAX"
  shows "c_idiv a b = Inr (a div b)"
proof -
  have "a div b \<le> a div 1" using assms by (intro zdiv_mono2) auto
  then have d: "0 \<le> a div b" "a div b \<le> INT_MAX"
    using assms by (auto simp: pos_imp_zdiv_nonneg_iff)
  have "a sdiv b = a div b" using assms by (auto simp: signed_divide_int_def sgn_if)
  then show ?thesis using assms small_word [of b] d by (simp add: c_idiv_def id_idiv_def wrap32_small)
qed

lemma code_at_nonneg: "0 \<le> code_at s i \<longleftrightarrow> 0 \<le> i \<and> i < int (length s)"
  by (auto simp: id_character_code_at_def id_slen_def)

section \<open>Runs that may not end\<close>

text \<open>
  A loop with no bound of its own is a partial function; None is a run that does not return,
  \<open>Some\<close> a result, which may be a trap.
\<close>

type_synonym 'a run = "'a res option"

definition thenRun :: "'a run \<Rightarrow> ('a \<Rightarrow> 'b run) \<Rightarrow> 'b run" where
  "thenRun r f = Option.bind r (\<lambda>x. case x of Inl t \<Rightarrow> Some (Inl t) | Inr y \<Rightarrow> f y)"

lemma thenRun_simps [simp]:
  "thenRun None f = None" "thenRun (Some (Inl t)) f = Some (Inl t)" "thenRun (Some (Inr x)) f = f x"
  by (simp_all add: thenRun_def)

lemma thenRun_assoc [simp]: "thenRun (thenRun r f) g = thenRun r (\<lambda>x. thenRun (f x) g)"
  by (cases r; simp; cases "the r") auto

lemma thenRun_Inr_iff: "thenRun r f = Some (Inr y) \<longleftrightarrow> (\<exists>x. r = Some (Inr x) \<and> f x = Some (Inr y))"
  by (auto simp: thenRun_def bind_eq_Some_conv split: sum.splits) (metis sum.exhaust)+

lemma thenRun_None_iff: "thenRun r f = None \<longleftrightarrow> r = None \<or> (\<exists>x. r = Some (Inr x) \<and> f x = None)"
  by (cases r) (auto simp: thenRun_def split: sum.splits)

lemma thenRun_InrE: "thenRun r f = Some (Inr y) \<Longrightarrow> (\<And>x. r = Some (Inr x) \<Longrightarrow> f x = Some (Inr y) \<Longrightarrow> P) \<Longrightarrow> P"
  by (auto simp: thenRun_Inr_iff)

lemma thenRun_mono [partial_function_mono]:
  assumes "mono_option f" "\<And>y. mono_option (\<lambda>x. g x y)"
  shows "mono_option (\<lambda>x. thenRun (f x) (g x))"
proof -
  have "mono_option (\<lambda>x. case y of Inl t \<Rightarrow> Some (Inl t) | Inr z \<Rightarrow> g x z)" for y
    by (cases y) (simp_all add: assms(2) option.const_mono)
  then show ?thesis unfolding thenRun_def by (rule bind_mono [OF assms(1)])
qed

end
