(* ===== verification/ListLib.thy ===== *)
theory ListLib
  imports Cells
begin

text \<open>
  The list functions of the standard library the compiler is linked with: guarded access,
  search, fill, extend and splice, for lists of integers and of strings. Loops the code
  generator has doubled, once reading cells directly where it could show the whole range is
  inside the list and once through the checked accessors, are written with the reader as an
  argument.
\<close>

section \<open>Access\<close>

definition id_list_get_or :: "int list \<Rightarrow> int \<Rightarrow> int \<Rightarrow> int res" where
  "id_list_get_or xs i d = (if i \<ge> 0 \<and> i < llen xs then lget xs i else Inr d)"

definition id_list_string_get_or :: "string list \<Rightarrow> int \<Rightarrow> string \<Rightarrow> string res" where
  "id_list_string_get_or xs i d = (if i \<ge> 0 \<and> i < llen xs then lget xs i else Inr d)"

definition id_list_is_at :: "int list \<Rightarrow> int \<Rightarrow> int \<Rightarrow> bool res" where
  "id_list_is_at xs i v = andThen (lget xs i) (\<lambda>x. Inr (x = v))"

definition id_idstd_list_span_ok :: "int list \<Rightarrow> int \<Rightarrow> int \<Rightarrow> bool" where
  "id_idstd_list_span_ok xs lo hi \<longleftrightarrow> (lo \<ge> 0 \<and> lo \<le> hi) \<and> hi \<le> llen xs"

definition id_idstd_list_string_span_ok :: "string list \<Rightarrow> int \<Rightarrow> int \<Rightarrow> bool" where
  "id_idstd_list_string_span_ok xs lo hi \<longleftrightarrow> (lo \<ge> 0 \<and> lo \<le> hi) \<and> hi \<le> llen xs"

definition id_list_same_at :: "int list \<Rightarrow> int \<Rightarrow> int \<Rightarrow> bool res" where
  "id_list_same_at xs i j = andThen (lget xs i) (\<lambda>a. andThen (lget xs j) (\<lambda>b. Inr (a = b)))"

definition id_list_string_same_at :: "string list \<Rightarrow> int \<Rightarrow> int \<Rightarrow> bool res" where
  "id_list_string_same_at xs i j = andThen (lget xs i) (\<lambda>a. andThen (lget xs j) (\<lambda>b. Inr (streq a b)))"

section \<open>Search\<close>

definition id_list_pick :: "int \<Rightarrow> int \<Rightarrow> bool \<Rightarrow> int" where
  "id_list_pick at i hit = (if hit \<and> at < 0 then i else at)"

function index_loop :: "int list \<Rightarrow> int \<Rightarrow> int \<Rightarrow> int \<Rightarrow> int res" where
  "index_loop xs v i at =
     (if i < llen xs
      then andThen (lget xs i) (\<lambda>x. index_loop xs v (i + 1) (id_list_pick at i (x = v)))
      else Inr at)"
  by pat_completeness auto
termination by (relation "measure (\<lambda>(xs, v, i, at). nat (llen xs - i))") auto

definition id_list_index_of :: "int list \<Rightarrow> int \<Rightarrow> int res" where
  "id_list_index_of xs v = index_loop xs v 0 (0 - 1)"

definition id_list_find :: "int list \<Rightarrow> int \<Rightarrow> bool res" where
  "id_list_find xs v = andThen (id_list_index_of xs v) (\<lambda>i. Inr (i \<ge> 0))"

function string_index_loop :: "(int \<Rightarrow> string res) \<Rightarrow> int \<Rightarrow> string \<Rightarrow> int \<Rightarrow> int \<Rightarrow> int res" where
  "string_index_loop rd n s i sat =
     (if i < n \<and> sat < 0
      then andThen (rd i) (\<lambda>x. string_index_loop rd n s (i + 1) (if streq x s then i else sat))
      else Inr sat)"
  by pat_completeness auto
termination by (relation "measure (\<lambda>(rd, n, s, i, sat). nat (n - i))") auto

definition id_list_string_index :: "string list \<Rightarrow> string \<Rightarrow> int res" where
  "id_list_string_index xs s =
     (let i = 0; sat = - 1
      in if llen xs \<le> llen xs - 0 \<and> i \<ge> 0
         then string_index_loop (\<lambda>i. Inr (xs ! nat i)) (llen xs) s i sat
         else string_index_loop (lget xs) (llen xs) s i sat)"

section \<open>Fill and extend\<close>

function fill_loop :: "'a list \<Rightarrow> int \<Rightarrow> int \<Rightarrow> 'a \<Rightarrow> 'a list" where
  "fill_loop xs i n v = (if i < n then fill_loop (lpush xs v) (i + 1) n v else xs)"
  by pat_completeness auto
termination by (relation "measure (\<lambda>(xs, i, n, v). nat (n - i))") auto

definition id_list_fill :: "int list \<Rightarrow> int \<Rightarrow> int \<Rightarrow> int list" where
  "id_list_fill xs n v = fill_loop xs 0 n v"

definition id_list_filled :: "int \<Rightarrow> int \<Rightarrow> int list" where
  "id_list_filled n v = id_list_fill [] n v"

function set_loop :: "(int list \<Rightarrow> int \<Rightarrow> int \<Rightarrow> int list res) \<Rightarrow> int list \<Rightarrow> int \<Rightarrow> int \<Rightarrow> int \<Rightarrow> int list res" where
  "set_loop wr xs i n v =
     (if i < n then andThen (wr xs i v) (\<lambda>xs. set_loop wr xs (i + 1) n v) else Inr xs)"
  by pat_completeness auto
termination by (relation "measure (\<lambda>(wr, xs, i, n, v). nat (n - i))") auto

definition id_list_set_all :: "int list \<Rightarrow> int \<Rightarrow> int \<Rightarrow> int list res" where
  "id_list_set_all xs n v =
     (let i = 0
      in if n \<le> llen xs - 0 \<and> i \<ge> 0 then set_loop (\<lambda>xs i v. Inr (xs[nat i := v])) xs i n v
         else set_loop lset xs i n v)"

function extend_loop :: "'a list \<Rightarrow> 'a list \<Rightarrow> int \<Rightarrow> 'a list res" where
  "extend_loop xs ys i =
     (if i < llen ys then andThen (lget ys i) (\<lambda>y. extend_loop (lpush xs y) ys (i + 1)) else Inr xs)"
  by pat_completeness auto
termination by (relation "measure (\<lambda>(xs, ys, i). nat (llen ys - i))") auto

definition id_list_extend :: "int list \<Rightarrow> int list \<Rightarrow> int list res" where
  "id_list_extend xs ys = extend_loop xs ys 0"

definition id_list_string_extend :: "string list \<Rightarrow> string list \<Rightarrow> string list res" where
  "id_list_string_extend xs ys = extend_loop xs ys 0"

definition id_list_string_tail :: "string list \<Rightarrow> int \<Rightarrow> string list res" where
  "id_list_string_tail xs start = extend_loop [] xs start"

declare index_loop.simps [simp del] string_index_loop.simps [simp del] fill_loop.simps [simp del]
  set_loop.simps [simp del] extend_loop.simps [simp del]

section \<open>Splice\<close>

text \<open>
  The integer splice works in place: it grows the list, moves the tail right or left, drops
  what is left over and copies the new elements in. The string splice keeps the tail aside.
\<close>

function grow_loop :: "int list \<Rightarrow> int \<Rightarrow> int list" where
  "grow_loop xs n = (if llen xs < n then grow_loop (lpush xs 0) n else xs)"
  by pat_completeness auto
termination by (relation "measure (\<lambda>(xs, n). nat (n - llen xs))") auto

function right_loop :: "int list \<Rightarrow> int \<Rightarrow> int \<Rightarrow> int \<Rightarrow> int list res" where
  "right_loop xs ch i hi =
     (if ch > 0 \<and> i \<ge> hi
      then andThen (lget xs i) (\<lambda>x. andThen (lset xs (i + ch) x) (\<lambda>xs. right_loop xs ch (i - 1) hi))
      else Inr xs)"
  by pat_completeness auto
termination by (relation "measure (\<lambda>(xs, ch, i, hi). nat (i - hi + 1))") auto

function left_loop :: "int list \<Rightarrow> int \<Rightarrow> int \<Rightarrow> int \<Rightarrow> int list res" where
  "left_loop xs ch i n =
     (if ch < 0 \<and> i < n
      then andThen (lget xs i) (\<lambda>x. andThen (lset xs (i + ch) x) (\<lambda>xs. left_loop xs ch (i + 1) n))
      else Inr xs)"
  by pat_completeness auto
termination by (relation "measure (\<lambda>(xs, ch, i, n). nat (n - i))") auto

function shrink_loop :: "'a list \<Rightarrow> int \<Rightarrow> 'a list res" where
  "shrink_loop xs n =
     (if llen xs > n then andThen (lpop xs) (\<lambda>(_, ys). shrink_loop ys n) else Inr xs)"
  by pat_completeness auto
termination
  by (relation "measure (\<lambda>(xs, n). length xs)") (auto simp: lpop_def split: if_splits)

function copy_loop :: "int list \<Rightarrow> int \<Rightarrow> int list \<Rightarrow> int \<Rightarrow> int list res" where
  "copy_loop xs lo ys k =
     (if k < llen ys
      then andThen (lget ys k) (\<lambda>y. andThen (lset xs (lo + k) y) (\<lambda>xs. copy_loop xs lo ys (k + 1)))
      else Inr xs)"
  by pat_completeness auto
termination by (relation "measure (\<lambda>(xs, lo, ys, k). nat (llen ys - k))") auto

declare grow_loop.simps [simp del] right_loop.simps [simp del] left_loop.simps [simp del]
  shrink_loop.simps [simp del] copy_loop.simps [simp del]

definition span_trap :: "int \<Rightarrow> int \<Rightarrow> int \<Rightarrow> trap" where
  "span_trap lo hi n =
     Trap_msg (''list span out of bounds: '' @ id_str_of_int (word_of_int lo) @ ''..''
       @ id_str_of_int (word_of_int hi) @ '' in a list of length '' @ id_str_of_int (word_of_int n))"

definition id_list_splice :: "int list \<Rightarrow> int \<Rightarrow> int \<Rightarrow> int list \<Rightarrow> int list res" where
  "id_list_splice xs lo hi ys =
     (if \<not> id_idstd_list_span_ok xs lo hi then Inl (span_trap lo hi (llen xs))
      else
        let n = llen xs; ch = llen ys - (hi - lo)
        in andThen (right_loop (grow_loop xs (n + ch)) ch (n - 1) hi) (\<lambda>xs.
           andThen (left_loop xs ch hi n) (\<lambda>xs.
           andThen (shrink_loop xs (n + ch)) (\<lambda>xs.
             copy_loop xs lo ys 0))))"

definition id_list_string_splice :: "string list \<Rightarrow> int \<Rightarrow> int \<Rightarrow> string list \<Rightarrow> string list res" where
  "id_list_string_splice xs lo hi ys =
     (if \<not> id_idstd_list_string_span_ok xs lo hi then Inl (span_trap lo hi (llen xs))
      else
        andThen (id_list_string_tail xs hi) (\<lambda>tail.
        andThen (shrink_loop xs lo) (\<lambda>xs.
        andThen (id_list_string_extend xs ys) (\<lambda>xs.
          id_list_string_extend xs tail))))"

section \<open>What the loops compute\<close>

text \<open>The first position that satisfies a test, -1 when there is none.\<close>

definition first_index :: "('a \<Rightarrow> bool) \<Rightarrow> 'a list \<Rightarrow> int" where
  "first_index P xs = (if \<exists>x \<in> set xs. P x then int (length (takeWhile (\<lambda>x. \<not> P x) xs)) else - 1)"

lemma first_index_simps [simp]:
  "first_index P [] = - 1"
  "first_index P (x # xs) = (if P x then 0 else let k = first_index P xs in if k < 0 then - 1 else k + 1)"
  by (auto simp: first_index_def Let_def)

lemma first_index_found:
  "first_index P xs = k \<Longrightarrow> 0 \<le> k \<Longrightarrow> k < llen xs \<and> P (xs ! nat k) \<and> (\<forall>j < nat k. \<not> P (xs ! j))"
proof (induction xs arbitrary: k)
  case (Cons x xs)
  show ?case
  proof (cases "P x")
    case False
    let ?k = "first_index P xs"
    have k: "0 \<le> ?k" "k = ?k + 1" using Cons.prems False by (auto simp: Let_def split: if_splits)
    have "nat k = Suc (nat ?k)" using k by simp
    then show ?thesis using Cons.IH [OF refl k(1)] False k by (auto simp: nth_Cons split: nat.splits)
  qed (use Cons.prems in auto)
qed simp

lemma first_index_none: "first_index P xs < 0 \<longleftrightarrow> (\<forall>x \<in> set xs. \<not> P x)"
  by (auto simp: first_index_def)

lemma index_loop_done: "0 \<le> at \<Longrightarrow> 0 \<le> i \<Longrightarrow> index_loop xs v i at = Inr at"
proof (induction xs v i at rule: index_loop.induct)
  case (1 xs v i at)
  then show ?case by (subst index_loop.simps) (auto simp: lget_ok id_list_pick_def)
qed

lemma index_loop_first:
  "index_loop (ys @ xs) v (int (length ys)) (- 1) =
     Inr (let k = first_index (\<lambda>x. x = v) xs in if k < 0 then - 1 else k + int (length ys))"
proof (induction xs arbitrary: ys)
  case Nil
  then show ?case by (subst index_loop.simps) (simp add: llen_def)
next
  case (Cons x xs)
  have "index_loop (ys @ x # xs) v (int (length ys)) (- 1)
      = index_loop ((ys @ [x]) @ xs) v (int (length (ys @ [x]))) (id_list_pick (- 1) (int (length ys)) (x = v))"
    by (subst index_loop.simps) (simp add: llen_def add.commute)
  then show ?case using Cons [of "ys @ [x]"]
    by (auto simp: id_list_pick_def index_loop_done Let_def)
qed

lemma index_of_first: "id_list_index_of xs v = Inr (first_index (\<lambda>x. x = v) xs)"
  using index_loop_first [of "[]" xs v] first_index_none [of "\<lambda>x. x = v" xs]
  by (auto simp: id_list_index_of_def Let_def first_index_def)

lemma string_index_loop_done: "0 \<le> sat \<Longrightarrow> string_index_loop rd n s i sat = Inr sat"
  by (subst string_index_loop.simps) simp

lemma string_index_loop_first:
  assumes "\<And>k. k < length ys + length xs \<Longrightarrow> rd (int k) = Inr ((ys @ xs) ! k)"
  shows "string_index_loop rd (int (length ys + length xs)) s (int (length ys)) (- 1) =
     Inr (let k = first_index (\<lambda>x. streq x s) xs in if k < 0 then - 1 else k + int (length ys))"
  using assms
proof (induction xs arbitrary: ys)
  case Nil
  then show ?case by (subst string_index_loop.simps) simp
next
  case (Cons x xs)
  have "rd (int (length ys)) = Inr x" using Cons.prems [of "length ys"] by simp
  then have "string_index_loop rd (int (length ys + length (x # xs))) s (int (length ys)) (- 1)
      = string_index_loop rd (int (length (ys @ [x]) + length xs)) s (int (length (ys @ [x])))
          (if streq x s then int (length ys) else - 1)"
    by (subst string_index_loop.simps) (simp add: add.commute)
  then show ?case using Cons.IH [of "ys @ [x]"] Cons.prems
    by (auto simp: string_index_loop_done Let_def)
qed

lemma string_index_first: "id_list_string_index xs s = Inr (first_index (\<lambda>x. streq x s) xs)"
proof -
  have "string_index_loop (\<lambda>i. Inr (xs ! nat i)) (llen xs) s 0 (- 1)
      = Inr (let k = first_index (\<lambda>x. streq x s) xs in if k < 0 then - 1 else k + 0)"
    using string_index_loop_first [of "[]" xs "\<lambda>i. Inr (xs ! nat i)" s] by (simp add: llen_def Let_def)
  then show ?thesis using first_index_none [of "\<lambda>x. streq x s" xs]
    by (auto simp: id_list_string_index_def Let_def first_index_def)
qed

lemma fill_loop_text: "fill_loop xs i n v = xs @ replicate (nat (n - i)) v"
proof (induction xs i n v rule: fill_loop.induct)
  case (1 xs i n v)
  show ?case
  proof (cases "i < n")
    case True
    then have "nat (n - i) = Suc (nat (n - (i + 1)))" by simp
    then show ?thesis using 1 True by (subst fill_loop.simps) (simp add: lpush_def)
  next
    case False
    then show ?thesis by (subst fill_loop.simps) simp
  qed
qed

lemma extend_loop_text: "extend_loop xs (us @ ys) (int (length us)) = Inr (xs @ ys)"
proof (induction ys arbitrary: us xs)
  case Nil
  then show ?case by (subst extend_loop.simps) (simp add: llen_def)
next
  case (Cons y ys)
  have "extend_loop xs (us @ y # ys) (int (length us))
      = extend_loop (xs @ [y]) ((us @ [y]) @ ys) (int (length (us @ [y])))"
    by (subst extend_loop.simps) (simp add: llen_def lpush_def add.commute)
  then show ?case using Cons [of "xs @ [y]" "us @ [y]"] by simp
qed

lemma extend_all: "extend_loop xs ys 0 = Inr (xs @ ys)"
  using extend_loop_text [of xs "[]" ys] by simp

lemma extend_from:
  assumes "0 \<le> i" "i \<le> llen ys"
  shows "extend_loop xs ys i = Inr (xs @ drop (nat i) ys)"
proof -
  have "int (length (take (nat i) ys)) = i" using assms by (simp add: llen_def)
  then show ?thesis using extend_loop_text [of xs "take (nat i) ys" "drop (nat i) ys"] by simp
qed

lemma shrink_loop_text: "0 \<le> n \<Longrightarrow> shrink_loop xs n = Inr (take (nat n) xs)"
proof (induction xs n rule: shrink_loop.induct)
  case (1 xs n)
  show ?case
  proof (cases "llen xs > n")
    case True
    then have "xs \<noteq> []" "nat n \<le> length xs - 1" using 1(2) by (auto simp: llen_def)
    then show ?thesis using 1 True
      by (subst shrink_loop.simps) (simp add: lpop_def butlast_conv_take min_def)
  next
    case False
    then show ?thesis by (subst shrink_loop.simps) (auto simp: llen_def)
  qed
qed

section \<open>Splice\<close>

lemma grow_loop_text: "grow_loop xs n = xs @ replicate (nat (n - llen xs)) 0"
proof (induction xs n rule: grow_loop.induct)
  case (1 xs n)
  show ?case
  proof (cases "llen xs < n")
    case True
    then have "nat (n - llen xs) = Suc (nat (n - (llen xs + 1)))" by simp
    then show ?thesis using 1 True by (subst grow_loop.simps) (simp add: lpush_def)
  next
    case False
    then show ?thesis by (subst grow_loop.simps) simp
  qed
qed

text \<open>The two tail moves, cell by cell: \<open>j\<close> is taken from \<open>j - ch\<close> in the moved range.\<close>

lemma right_loop_nth:
  assumes "0 < ch" "0 \<le> hi" "hi - 1 \<le> i" "i + ch < llen xs"
  shows "\<exists>zs. right_loop xs ch i hi = Inr zs \<and> length zs = length xs
    \<and> (\<forall>j. zs ! j = (if hi + ch \<le> int j \<and> int j \<le> i + ch then xs ! nat (int j - ch) else xs ! j))"
  using assms
proof (induction xs ch i hi rule: right_loop.induct)
  case (1 xs ch i hi)
  show ?case
  proof (cases "i \<ge> hi")
    case True
    let ?ys = "xs[nat (i + ch) := xs ! nat i]"
    have g: "lget xs i = Inr (xs ! nat i)" "lset xs (i + ch) (xs ! nat i) = Inr ?ys"
      using 1(2-) True by (auto intro!: lget_ok lset_ok)
    then obtain zs where zs: "right_loop ?ys ch (i - 1) hi = Inr zs" "length zs = length ?ys"
      "\<And>j. zs ! j = (if hi + ch \<le> int j \<and> int j \<le> i - 1 + ch then ?ys ! nat (int j - ch) else ?ys ! j)"
      using 1(1) [of "xs ! nat i" ?ys] 1(2-) True by auto
    have "zs ! j = (if hi + ch \<le> int j \<and> int j \<le> i + ch then xs ! nat (int j - ch) else xs ! j)" for j
    proof (cases "int j = i + ch")
      case True
      then have "j = nat (i + ch)" "j < length xs" using 1(5) by (auto simp: llen_def)
      then show ?thesis using zs(3) [of j] True \<open>i \<ge> hi\<close> by simp
    next
      case False
      then have "nat (i + ch) \<noteq> j" "int j - ch \<noteq> i + ch \<or> \<not> int j \<le> i + ch" using 1(2,3) True by auto
      then show ?thesis using zs(3) [of j] False 1(2,3) True by (auto simp: nth_list_update_neq)
    qed
    then show ?thesis using zs(1,2) g 1(2) True by (intro exI [of _ zs]) (simp add: right_loop.simps [of xs])
  next
    case False
    then show ?thesis using 1(4) by (intro exI [of _ xs]) (auto simp: right_loop.simps [of xs])
  qed
qed

lemma left_loop_nth:
  assumes "ch < 0" "0 \<le> i + ch" "i \<le> n" "n \<le> llen xs"
  shows "\<exists>zs. left_loop xs ch i n = Inr zs \<and> length zs = length xs
    \<and> (\<forall>j. zs ! j = (if i + ch \<le> int j \<and> int j < n + ch then xs ! nat (int j - ch) else xs ! j))"
  using assms
proof (induction xs ch i n rule: left_loop.induct)
  case (1 xs ch i n)
  show ?case
  proof (cases "i < n")
    case True
    let ?ys = "xs[nat (i + ch) := xs ! nat i]"
    have g: "lget xs i = Inr (xs ! nat i)" "lset xs (i + ch) (xs ! nat i) = Inr ?ys"
      using 1(2-) True by (auto intro!: lget_ok lset_ok)
    then obtain zs where zs: "left_loop ?ys ch (i + 1) n = Inr zs" "length zs = length ?ys"
      "\<And>j. zs ! j = (if i + 1 + ch \<le> int j \<and> int j < n + ch then ?ys ! nat (int j - ch) else ?ys ! j)"
      using 1(1) [of "xs ! nat i" ?ys] 1(2-) True by auto
    have "zs ! j = (if i + ch \<le> int j \<and> int j < n + ch then xs ! nat (int j - ch) else xs ! j)" for j
    proof (cases "int j = i + ch")
      case True
      then have "j = nat (i + ch)" "j < length xs" using 1(2-) \<open>i < n\<close> by (auto simp: llen_def)
      then show ?thesis using zs(3) [of j] True \<open>i < n\<close> by simp
    next
      case False
      then have "nat (i + ch) \<noteq> j" "int j - ch \<noteq> i + ch \<or> \<not> i + 1 + ch \<le> int j" using 1(2,3) True by auto
      then show ?thesis using zs(3) [of j] False 1(2,3) True by (auto simp: nth_list_update_neq)
    qed
    then show ?thesis using zs(1,2) g 1(2) True by (intro exI [of _ zs]) (simp add: left_loop.simps [of xs])
  next
    case False
    then show ?thesis using 1(4) by (intro exI [of _ xs]) (auto simp: left_loop.simps [of xs])
  qed
qed

lemma copy_loop_text:
  "copy_loop (as @ us @ bs) (int (length as) - int (length ks)) (ks @ ys) (int (length ks))
     = (Inr (as @ ys @ bs))"
  if "length us = length ys" for as us bs
  using that
proof (induction ys arbitrary: as us ks)
  case Nil
  then show ?case by (subst copy_loop.simps) (simp add: llen_def)
next
  case (Cons y ys)
  obtain u us' where us: "us = u # us'" "length us' = length ys" using Cons.prems by (cases us) auto
  have "lset (as @ us @ bs) (int (length as)) y = Inr ((as @ [y]) @ us' @ bs)" using us by simp
  then have "copy_loop (as @ us @ bs) (int (length as) - int (length ks)) (ks @ y # ys) (int (length ks))
      = copy_loop ((as @ [y]) @ us' @ bs) (int (length (as @ [y])) - int (length (ks @ [y])))
          ((ks @ [y]) @ ys) (int (length (ks @ [y])))"
    by (subst copy_loop.simps) (simp add: llen_def add.commute)
  also have "\<dots> = Inr ((as @ [y]) @ ys @ bs)" using us by (intro Cons.IH)
  finally show ?case by simp
qed

lemma no_move [simp]:
  "\<not> 0 < ch \<Longrightarrow> right_loop xs ch i hi = Inr xs" "\<not> ch < 0 \<Longrightarrow> left_loop xs ch i n = Inr xs"
  by (subst right_loop.simps, simp) (subst left_loop.simps, simp)

lemma splice_moves:
  assumes "lo \<le> hi" "hi \<le> length xs" "ch = int m - int (hi - lo)" "n = int (length xs)"
  shows "\<exists>zs. andThen (right_loop (grow_loop xs (n + ch)) ch (n - 1) (int hi)) (\<lambda>xs.
             andThen (left_loop xs ch (int hi) n) (\<lambda>xs. shrink_loop xs (n + ch))) = Inr zs
    \<and> length zs = lo + m + (length xs - hi) \<and> take lo zs = take lo xs \<and> drop (lo + m) zs = drop hi xs"
proof -
  have tot: "nat (n + ch) = lo + m + (length xs - hi)" "0 \<le> n + ch" using assms by auto
  consider "0 < ch" | "ch = 0" | "ch < 0" by linarith
  then show ?thesis
  proof cases
    case 1
    let ?g = "xs @ replicate (nat ch) 0"
    have g: "grow_loop xs (n + ch) = ?g" using assms(4) by (simp add: grow_loop_text llen_def)
    obtain zs where zs: "right_loop ?g ch (n - 1) (int hi) = Inr zs" "length zs = length ?g"
      "\<And>j. zs ! j = (if int hi + ch \<le> int j \<and> int j \<le> n - 1 + ch then ?g ! nat (int j - ch) else ?g ! j)"
      using right_loop_nth [of ch "int hi" "n - 1" ?g] 1 assms by (auto simp: llen_def)
    have len: "length zs = lo + m + (length xs - hi)" using zs(2) assms 1 by simp
    have "take lo zs = take lo xs"
      using zs(3) len assms 1 by (intro nth_equalityI) (auto simp: nth_append)
    moreover have "drop (lo + m) zs = drop hi xs"
    proof (rule nth_equalityI)
      fix k assume "k < length (drop (lo + m) zs)"
      then have k: "hi + k < length xs" using len by simp
      have "nat (int (lo + m + k) - ch) = hi + k" using assms by auto
      then show "drop (lo + m) zs ! k = drop hi xs ! k"
        using zs(3) [of "lo + m + k"] k len assms by (simp add: nth_append)
    qed (use len assms in simp)
    ultimately show ?thesis using zs(1) g 1 tot len by (simp add: shrink_loop_text)
  next
    case 2
    then have "lo + m = hi" using assms by linarith
    then show ?thesis using 2 assms tot by (auto simp: grow_loop_text llen_def shrink_loop_text)
  next
    case 3
    have g: "grow_loop xs (n + ch) = xs" using assms(4) 3 by (simp add: grow_loop_text llen_def)
    obtain zs where zs: "left_loop xs ch (int hi) n = Inr zs" "length zs = length xs"
      "\<And>j. zs ! j = (if int hi + ch \<le> int j \<and> int j < n + ch then xs ! nat (int j - ch) else xs ! j)"
      using left_loop_nth [of ch "int hi" n xs] 3 assms by (auto simp: llen_def)
    have "take lo (take (nat (n + ch)) zs) = take lo xs"
      using zs(2,3) assms tot 3 by (intro nth_equalityI) auto
    moreover have "drop (lo + m) (take (nat (n + ch)) zs) = drop hi xs"
    proof (rule nth_equalityI)
      fix k assume "k < length (drop (lo + m) (take (nat (n + ch)) zs))"
      then have k: "hi + k < length xs" using tot zs(2) by simp
      have "nat (int (lo + m + k) - ch) = hi + k" using assms by auto
      then show "drop (lo + m) (take (nat (n + ch)) zs) ! k = drop hi xs ! k"
        using zs(2) zs(3) [of "lo + m + k"] k assms tot 3 by simp
    qed (use tot zs(2) assms 3 in simp)
    ultimately show ?thesis using zs(1,2) g 3 tot assms by (simp add: shrink_loop_text)
  qed
qed

text \<open>The reference: the span is replaced, or the call traps.\<close>

definition splice_spec :: "'a list \<Rightarrow> int \<Rightarrow> int \<Rightarrow> 'a list \<Rightarrow> 'a list res" where
  "splice_spec xs lo hi ys =
     (if 0 \<le> lo \<and> lo \<le> hi \<and> hi \<le> int (length xs) then Inr (take (nat lo) xs @ ys @ drop (nat hi) xs)
      else Inl (span_trap lo hi (int (length xs))))"

lemma splice_ok:
  assumes "lo \<le> hi" "hi \<le> length xs"
  shows "id_list_splice xs (int lo) (int hi) ys = Inr (take lo xs @ ys @ drop hi xs)"
proof -
  let ?m = "length ys" and ?ch = "int (length ys) - int (hi - lo)" and ?n = "int (length xs)"
  obtain zs where zs: "andThen (right_loop (grow_loop xs (?n + ?ch)) ?ch (?n - 1) (int hi)) (\<lambda>xs.
             andThen (left_loop xs ?ch (int hi) ?n) (\<lambda>xs. shrink_loop xs (?n + ?ch))) = Inr zs"
    "length zs = lo + ?m + (length xs - hi)" "take lo zs = take lo xs" "drop (lo + ?m) zs = drop hi xs"
    using splice_moves [OF assms refl refl, of ?m] by blast
  have mid: "zs = take lo xs @ take ?m (drop lo zs) @ drop hi xs"
    using zs(3,4) append_take_drop_id [of lo zs] append_take_drop_id [of ?m "drop lo zs"]
    by (simp add: add.commute)
  have "copy_loop (take lo xs @ take ?m (drop lo zs) @ drop hi xs)
        (int (length (take lo xs)) - int (length ([] :: int list))) ([] @ ys) (int (length ([] :: int list)))
      = Inr (take lo xs @ ys @ drop hi xs)"
    using zs(2) by (intro copy_loop_text) simp
  then have "copy_loop zs (int lo) ys 0 = Inr (take lo xs @ ys @ drop hi xs)"
    using mid assms by simp
  moreover have "id_list_splice xs (int lo) (int hi) ys
      = andThen (andThen (right_loop (grow_loop xs (?n + ?ch)) ?ch (?n - 1) (int hi)) (\<lambda>xs.
             andThen (left_loop xs ?ch (int hi) ?n) (\<lambda>xs. shrink_loop xs (?n + ?ch))))
          (\<lambda>zs. copy_loop zs (int lo) ys 0)"
    using assms by (simp add: id_list_splice_def id_idstd_list_span_ok_def llen_def Let_def of_nat_diff)
  ultimately show ?thesis using zs(1) by simp
qed

text \<open>
  C31: The integer splice, which shifts cells in place by loops that grow, move right, move
  left and shrink, and the string splice, which cuts the tail off and appends, both replace
  the span by the new elements, with the same trap on a bad span.
\<close>

theorem id_list_splices_agree:
  "id_list_splice xs lo hi ys = splice_spec xs lo hi ys
   \<and> id_list_string_splice ss lo hi ts = splice_spec ss lo hi ts"
proof -
  have "id_list_splice xs lo hi ys = splice_spec xs lo hi ys"
    using splice_ok [of "nat lo" "nat hi" xs ys]
    by (auto simp: splice_spec_def id_list_splice_def id_idstd_list_span_ok_def llen_def)
  moreover have "id_list_string_splice ss lo hi ts = splice_spec ss lo hi ts"
    by (auto simp: splice_spec_def id_list_string_splice_def id_idstd_list_string_span_ok_def llen_def
        id_list_string_tail_def id_list_string_extend_def extend_from shrink_loop_text extend_all)
  ultimately show ?thesis ..
qed

end
