(* ===== verification/HashMap.thy ===== *)
theory HashMap
  imports ListLib
begin

text \<open>
  The hash map of the standard library: four parallel lists (keys, values, used flags and a
  one-cell count), open addressing with linear probing, and growth by a factor of four when
  the table would be more than half full. The keys are strings compared with \<open>strcmp\<close>.
\<close>

section \<open>Hashing a string\<close>

text \<open>FNV-1a in a 32-bit signed \<open>int\<close>; the arithmetic wraps (\<open>-fwrapv\<close>).\<close>

function id_idstd_string_hash_run :: "string \<Rightarrow> w32 \<Rightarrow> int \<Rightarrow> w32" where
  "id_idstd_string_hash_run s hv i =
     (if code_at s i \<ge> 0
      then id_idstd_string_hash_run s ((hv XOR word_of_int (code_at s i)) * 16777619) (i + 1)
      else hv)"
  by pat_completeness auto
termination
  by (relation "measure (\<lambda>(s, hv, i). nat (int (length s) - i))") (auto simp: code_at_nonneg)

declare id_idstd_string_hash_run.simps [simp del]

definition id_string_hash :: "string \<Rightarrow> int" where
  "id_string_hash s = sint (id_idstd_string_hash_run s (0 - 2128831035) 0 AND 2147483647)"

lemma string_hash_range: "0 \<le> id_string_hash s \<and> id_string_hash s \<le> INT_MAX"
proof -
  let ?w = "id_idstd_string_hash_run s (0 - 2128831035) 0"
  have m: "(2147483647 :: w32) = mask 31" by (simp add: mask_eq_exp_minus_1)
  have "?w AND 2147483647 = take_bit 31 ?w" by (simp only: m take_bit_eq_mask)
  then have u: "uint (?w AND 2147483647) = take_bit 31 (uint ?w)" by (simp add: unsigned_take_bit_eq)
  then have b: "0 \<le> uint (?w AND 2147483647)" "uint (?w AND 2147483647) < 2 ^ 31"
    using take_bit_int_less_exp [of 31 "uint ?w"] by simp_all
  then have "sint (?w AND 2147483647) = uint (?w AND 2147483647)"
    using signed_take_bit_int_eq_self [of 31 "uint (?w AND 2147483647)"]
      order_trans [of "- 2147483648" 0 "uint (?w AND 2147483647)"] by (simp only: sint_uint) simp
  then show ?thesis using b by (simp add: id_string_hash_def INT_MAX_def)
qed

section \<open>The table\<close>

record hmap =
  h_keys :: "string list"
  h_values :: "int list"
  h_used :: "int list"
  h_count :: "int list"

text \<open>\<open>id_idstd_hash_map_fill\<close> pushes \<open>n\<close> free slots on the three lists.\<close>

definition id_idstd_hash_map_fill_one :: "hmap \<Rightarrow> hmap" where
  "id_idstd_hash_map_fill_one h =
     h\<lparr>h_keys := lpush (h_keys h) '''', h_values := lpush (h_values h) 0, h_used := lpush (h_used h) 0\<rparr>"

function fill_slots :: "hmap \<Rightarrow> int \<Rightarrow> int \<Rightarrow> hmap" where
  "fill_slots h i n = (if i < n then fill_slots (id_idstd_hash_map_fill_one h) (i + 1) n else h)"
  by pat_completeness auto
termination by (relation "measure (\<lambda>(h, i, n). nat (n - i))") auto

definition id_idstd_hash_map_fill :: "hmap \<Rightarrow> int \<Rightarrow> hmap" where
  "id_idstd_hash_map_fill h n = fill_slots h 0 n"

definition id_hash_map_initialize :: "hmap \<Rightarrow> hmap" where
  "id_hash_map_initialize h =
     (let h1 = id_idstd_hash_map_fill h 8 in h1\<lparr>h_count := lpush (h_count h1) 0\<rparr>)"

text \<open>Linear probing. The loop has no bound: it ends because the table has a free slot.\<close>

partial_function (option) id_idstd_hash_map_probe :: "string list \<Rightarrow> int list \<Rightarrow> string \<Rightarrow> int \<Rightarrow> int run" where
  "id_idstd_hash_map_probe keys used key i =
     thenRun (Some (lget used i)) (\<lambda>u.
       if u = 1
       then thenRun (Some (lget keys i)) (\<lambda>k.
              if \<not> streq k key
              then thenRun (Some (c_imod (wrap32 (i + 1)) (llen keys)))
                     (\<lambda>j. id_idstd_hash_map_probe keys used key j)
              else Some (Inr i))
       else Some (Inr i))"

declare id_idstd_hash_map_probe.simps [code]

definition id_idstd_hash_map_slot :: "string list \<Rightarrow> int list \<Rightarrow> string \<Rightarrow> int run" where
  "id_idstd_hash_map_slot keys used key =
     thenRun (Some (c_imod (id_string_hash key) (llen keys))) (id_idstd_hash_map_probe keys used key)"

section \<open>Growing\<close>

definition id_idstd_hash_map_rehash_place :: "hmap \<Rightarrow> int \<Rightarrow> string \<Rightarrow> int \<Rightarrow> hmap res" where
  "id_idstd_hash_map_rehash_place h slot key v =
     andThen (lset (h_keys h) slot key) (\<lambda>ks.
     andThen (lset (h_values h) slot v) (\<lambda>vs.
     andThen (lset (h_used h) slot 1) (\<lambda>us.
       Inr (h\<lparr>h_keys := ks, h_values := vs, h_used := us\<rparr>))))"

text \<open>\<open>copy_old\<close> writes slots \<open>i..cap-1\<close> of \<open>g\<close> into \<open>h\<close>; \<open>clear\<close> frees slots \<open>i..cap-1\<close>.\<close>

definition id_idstd_hash_map_copy_old_one :: "hmap \<Rightarrow> hmap \<Rightarrow> int \<Rightarrow> hmap res" where
  "id_idstd_hash_map_copy_old_one h g i =
     andThen (lget (h_keys g) i) (\<lambda>k. andThen (lset (h_keys h) i k) (\<lambda>ks.
     andThen (lget (h_values g) i) (\<lambda>v. andThen (lset (h_values h) i v) (\<lambda>vs.
     andThen (lget (h_used g) i) (\<lambda>u. andThen (lset (h_used h) i u) (\<lambda>us.
       Inr (h\<lparr>h_keys := ks, h_values := vs, h_used := us\<rparr>)))))))"

function id_idstd_hash_map_copy_old :: "hmap \<Rightarrow> hmap \<Rightarrow> int \<Rightarrow> int \<Rightarrow> hmap res" where
  "id_idstd_hash_map_copy_old h g i cap =
     (if i < cap
      then andThen (id_idstd_hash_map_copy_old_one h g i) (\<lambda>h. id_idstd_hash_map_copy_old h g (i + 1) cap)
      else Inr h)"
  by pat_completeness auto
termination by (relation "measure (\<lambda>(h, g, i, cap). nat (cap - i))") auto

definition id_idstd_hash_map_clear_one :: "hmap \<Rightarrow> int \<Rightarrow> hmap res" where
  "id_idstd_hash_map_clear_one h i =
     andThen (lset (h_keys h) i '''') (\<lambda>ks.
     andThen (lset (h_values h) i 0) (\<lambda>vs.
     andThen (lset (h_used h) i 0) (\<lambda>us.
       Inr (h\<lparr>h_keys := ks, h_values := vs, h_used := us\<rparr>))))"

function id_idstd_hash_map_clear :: "hmap \<Rightarrow> int \<Rightarrow> int \<Rightarrow> hmap res" where
  "id_idstd_hash_map_clear h i cap =
     (if i < cap
      then andThen (id_idstd_hash_map_clear_one h i) (\<lambda>h. id_idstd_hash_map_clear h (i + 1) cap)
      else Inr h)"
  by pat_completeness auto
termination by (relation "measure (\<lambda>(h, i, cap). nat (cap - i))") auto

definition id_idstd_hash_map_rehash_slot :: "hmap \<Rightarrow> hmap \<Rightarrow> int \<Rightarrow> hmap run" where
  "id_idstd_hash_map_rehash_slot g h i =
     thenRun (Some (lget (h_used g) i)) (\<lambda>u.
       if u = 1
       then thenRun (Some (lget (h_keys g) i)) (\<lambda>k.
            thenRun (id_idstd_hash_map_slot (h_keys h) (h_used h) k) (\<lambda>slot.
            thenRun (Some (lget (h_values g) i)) (\<lambda>v.
              Some (id_idstd_hash_map_rehash_place h slot k v))))
       else Some (Inr h))"

function id_idstd_hash_map_rehash :: "hmap \<Rightarrow> hmap \<Rightarrow> int \<Rightarrow> hmap run" where
  "id_idstd_hash_map_rehash g h i =
     (if i < llen (h_keys g)
      then thenRun (id_idstd_hash_map_rehash_slot g h i) (\<lambda>h. id_idstd_hash_map_rehash g h (i + 1))
      else Some (Inr h))"
  by pat_completeness auto
termination by (relation "measure (\<lambda>(g, h, i). nat (llen (h_keys g) - i))") auto

declare fill_slots.simps [simp del] id_idstd_hash_map_copy_old.simps [simp del]
  id_idstd_hash_map_clear.simps [simp del] id_idstd_hash_map_rehash.simps [simp del]

definition no_slots :: hmap where
  "no_slots = \<lparr>h_keys = [], h_values = [], h_used = [], h_count = []\<rparr>"

definition id_idstd_hash_map_grow :: "hmap \<Rightarrow> hmap run" where
  "id_idstd_hash_map_grow h =
     (let cap = llen (h_keys h); ncap = wrap32 (cap * 4);
          new = id_idstd_hash_map_fill no_slots cap;
          h1 = id_idstd_hash_map_fill h (ncap - cap)
      in thenRun (Some (id_idstd_hash_map_copy_old new h1 0 cap)) (\<lambda>new.
         thenRun (Some (id_idstd_hash_map_clear h1 0 cap)) (\<lambda>h2.
           id_idstd_hash_map_rehash new h2 0)))"

section \<open>Lookup and insertion\<close>

definition id_idstd_hash_map_full :: "hmap \<Rightarrow> bool res" where
  "id_idstd_hash_map_full h =
     andThen (lget (h_count h) 0) (\<lambda>c. Inr (wrap32 (wrap32 (c + 1) * 2) > llen (h_used h)))"

definition id_hash_map_get :: "hmap \<Rightarrow> string \<Rightarrow> int \<Rightarrow> int run" where
  "id_hash_map_get h key d =
     thenRun (id_idstd_hash_map_slot (h_keys h) (h_used h) key) (\<lambda>slot.
     thenRun (Some (lget (h_used h) slot)) (\<lambda>u.
       if u = 1 then Some (lget (h_values h) slot) else Some (Inr d)))"

definition id_hash_map_has :: "hmap \<Rightarrow> string \<Rightarrow> int run" where
  "id_hash_map_has h key =
     thenRun (id_idstd_hash_map_slot (h_keys h) (h_used h) key) (\<lambda>slot. Some (lget (h_used h) slot))"

text \<open>A new slot takes its own copy of the key.\<close>

definition take_slot :: "hmap \<Rightarrow> int \<Rightarrow> string \<Rightarrow> hmap res" where
  "take_slot h slot key =
     andThen (lset (h_used h) slot 1) (\<lambda>us.
     andThen (lget (h_count h) 0) (\<lambda>c.
     andThen (lset (h_count h) 0 (wrap32 (c + 1))) (\<lambda>cs.
     andThen (id_concat str_env key '''') (\<lambda>k.
     andThen (lset (h_keys h) slot k) (\<lambda>ks.
       Inr (h\<lparr>h_used := us, h_count := cs, h_keys := ks\<rparr>))))))"

definition id_hash_map_put :: "hmap \<Rightarrow> string \<Rightarrow> int \<Rightarrow> hmap run" where
  "id_hash_map_put h key v =
     thenRun (Some (id_idstd_hash_map_full h)) (\<lambda>full.
     thenRun (if full then id_idstd_hash_map_grow h else Some (Inr h)) (\<lambda>h.
     thenRun (id_idstd_hash_map_slot (h_keys h) (h_used h) key) (\<lambda>slot.
     thenRun (Some (lget (h_used h) slot)) (\<lambda>u.
     thenRun (Some (if u = 0 then take_slot h slot key else Inr h)) (\<lambda>h.
     thenRun (Some (lset (h_values h) slot v)) (\<lambda>vs.
       Some (Inr (h\<lparr>h_values := vs\<rparr>))))))))"

definition id_hash_set_add :: "hmap \<Rightarrow> string \<Rightarrow> hmap run" where
  "id_hash_set_add h key = id_hash_map_put h key 0"

section \<open>Well-formed tables and what they hold\<close>

text \<open>
  \<open>slot_of n k d\<close> is the slot the search for \<open>k\<close> visits after \<open>d\<close> steps. A table is
  well-formed when every key sits on its own search path, behind used slots with other keys.
\<close>

definition slot_of :: "nat \<Rightarrow> string \<Rightarrow> nat \<Rightarrow> nat" where
  "slot_of n k d = (nat (id_string_hash k) + d) mod n"

definition on_path :: "hmap \<Rightarrow> nat \<Rightarrow> string \<Rightarrow> nat \<Rightarrow> bool" where
  "on_path h n k j \<longleftrightarrow>
     (\<exists>d. j = slot_of n k d \<and> (\<forall>e < d. h_used h ! slot_of n k e = 1 \<and> h_keys h ! slot_of n k e \<noteq> k))"

definition tab_ok :: "hmap \<Rightarrow> nat \<Rightarrow> bool" where
  "tab_ok h n \<longleftrightarrow> 0 < n \<and> int n \<le> 1073741824
     \<and> length (h_keys h) = n \<and> length (h_values h) = n \<and> length (h_used h) = n
     \<and> set (h_used h) \<subseteq> {0, 1}
     \<and> (\<forall>i < n. h_used h ! i = 1 \<longrightarrow> CHR 0x00 \<notin> set (h_keys h ! i) \<and> on_path h n (h_keys h ! i) i)"

definition hm_abs :: "hmap \<Rightarrow> string \<Rightarrow> int option" where
  "hm_abs h = map_of (map (\<lambda>i. (h_keys h ! i, h_values h ! i))
     (filter (\<lambda>i. h_used h ! i = 1) [0..<length (h_used h)]))"

definition n_used :: "hmap \<Rightarrow> nat" where
  "n_used h = length (filter (\<lambda>u. u = 1) (h_used h))"

definition hm_inv :: "hmap \<Rightarrow> bool" where
  "hm_inv h \<longleftrightarrow> tab_ok h (length (h_used h)) \<and> h_count h = [int (n_used h)]
     \<and> 2 * n_used h \<le> length (h_used h)"

lemma tab_okD:
  assumes "tab_ok h n"
  shows "0 < n" "int n \<le> 1073741824" "length (h_keys h) = n" "length (h_values h) = n" "length (h_used h) = n"
    "i < n \<Longrightarrow> h_used h ! i = 0 \<or> h_used h ! i = 1"
    "i < n \<Longrightarrow> h_used h ! i = 1 \<Longrightarrow> CHR 0x00 \<notin> set (h_keys h ! i)"
    "i < n \<Longrightarrow> h_used h ! i = 1 \<Longrightarrow> on_path h n (h_keys h ! i) i"
proof -
  show "i < n \<Longrightarrow> h_used h ! i = 0 \<or> h_used h ! i = 1"
    using assms subsetD [OF _ nth_mem [of i "h_used h"], of "{0, 1}"] by (auto simp: tab_ok_def)
qed (use assms in \<open>simp_all add: tab_ok_def\<close>)

lemma slot_of_less: "0 < n \<Longrightarrow> slot_of n k d < n"
  by (simp add: slot_of_def)

lemma slot_of_Suc: "(slot_of n k d + 1) mod n = slot_of n k (Suc d)"
  by (simp add: slot_of_def mod_simps)

lemma slot_of_onto: "j < n \<Longrightarrow> \<exists>d. slot_of n k d = j"
proof -
  let ?h = "nat (id_string_hash k)"
  assume j: "j < n"
  then obtain m where "n = Suc m" by (cases n) auto
  then have e: "?h + (j + m * ?h) = j + n * ?h" by simp
  have "slot_of n k (j + m * ?h) = j" unfolding slot_of_def e using j by simp
  then show ?thesis by blast
qed

lemma keys_distinct:
  assumes "tab_ok h n" "i < n" "j < n" "h_used h ! i = 1" "h_used h ! j = 1" "h_keys h ! i = h_keys h ! j"
  shows "i = j"
proof -
  obtain d where d: "i = slot_of n (h_keys h ! i) d"
    "\<And>e. e < d \<Longrightarrow> h_keys h ! slot_of n (h_keys h ! i) e \<noteq> h_keys h ! i"
    using tab_okD(8) [OF assms(1,2,4)] by (auto simp: on_path_def)
  obtain d' where d': "j = slot_of n (h_keys h ! i) d'"
    "\<And>e. e < d' \<Longrightarrow> h_keys h ! slot_of n (h_keys h ! i) e \<noteq> h_keys h ! i"
    using tab_okD(8) [OF assms(1,3,5)] assms(6) by (auto simp: on_path_def)
  have "\<not> d < d'" "\<not> d' < d" using d d' assms(6) by metis+
  then show ?thesis using d d' by simp
qed

lemma hm_abs_iff:
  assumes "tab_ok h n"
  shows "hm_abs h k = Some v \<longleftrightarrow> (\<exists>i < n. h_used h ! i = 1 \<and> h_keys h ! i = k \<and> h_values h ! i = v)"
proof -
  have "inj_on (\<lambda>i. h_keys h ! i) (set (filter (\<lambda>i. h_used h ! i = 1) [0..<n]))"
    using keys_distinct [OF assms] by (auto simp: inj_on_def)
  then have "distinct (map fst (map (\<lambda>i. (h_keys h ! i, h_values h ! i))
      (filter (\<lambda>i. h_used h ! i = 1) [0..<n])))"
    by (simp add: comp_def distinct_map)
  then show ?thesis using tab_okD(5) [OF assms] by (auto simp: hm_abs_def)
qed

lemma hm_abs_None:
  assumes "tab_ok h n"
  shows "hm_abs h k = None \<longleftrightarrow> (\<forall>i < n. h_used h ! i = 1 \<longrightarrow> h_keys h ! i \<noteq> k)"
  using hm_abs_iff [OF assms, of k] by (metis not_None_eq)

section \<open>Searching\<close>

lemma probe_path:
  assumes "length ks = n" "length us = n" "0 < n" "int n \<le> 1073741824" "i < n"
    and "\<And>e. e < d \<Longrightarrow> us ! ((i + e) mod n) = 1 \<and> \<not> streq (ks ! ((i + e) mod n)) key"
    and "\<not> (us ! ((i + d) mod n) = 1 \<and> \<not> streq (ks ! ((i + d) mod n)) key)"
  shows "id_idstd_hash_map_probe ks us key (int i) = Some (Inr (int ((i + d) mod n)))"
  using assms
proof (induction d arbitrary: i)
  case 0
  then show ?case by (subst id_idstd_hash_map_probe.simps) simp
next
  case (Suc d)
  have here: "us ! i = 1" "\<not> streq (ks ! i) key" using Suc.prems(6) [of 0] Suc.prems(5) by simp_all
  have "wrap32 (int i + 1) = int i + 1" using Suc.prems(4,5) by (intro wrap32_small) (auto simp: INT_MAX_def)
  then have "c_imod (wrap32 (int i + 1)) (llen ks) = Inr (int ((i + 1) mod n))"
    using Suc.prems(1-5) by (subst c_imod_nat) (auto simp: llen_def INT_MAX_def zmod_int add.commute)
  then have "id_idstd_hash_map_probe ks us key (int i) = id_idstd_hash_map_probe ks us key (int ((i + 1) mod n))"
    using here Suc.prems(1,2,5) by (subst id_idstd_hash_map_probe.simps) simp
  also have "\<dots> = Some (Inr (int (((i + 1) mod n + d) mod n)))"
  proof (rule Suc.IH)
    show "us ! (((i + 1) mod n + e) mod n) = 1 \<and> \<not> streq (ks ! (((i + 1) mod n + e) mod n)) key" if "e < d" for e
      using Suc.prems(6) [of "Suc e"] that by (simp add: mod_simps)
    show "\<not> (us ! (((i + 1) mod n + d) mod n) = 1 \<and> \<not> streq (ks ! (((i + 1) mod n + d) mod n)) key)"
      using Suc.prems(7) by (simp add: mod_simps)
  qed (use Suc.prems in simp_all)
  finally show ?case by (simp add: mod_simps)
qed

lemma streq_refl [simp]: "streq a a"
  by (simp add: streq_def)

lemma streq_text: "CHR 0x00 \<notin> set a \<Longrightarrow> CHR 0x00 \<notin> set b \<Longrightarrow> streq a b \<longleftrightarrow> a = b"
  by (simp add: streq_def c_text_id)

text \<open>A search in a table with a free slot ends, at the key's slot or at the free slot of its path.\<close>

lemma slot_found:
  assumes "tab_ok h n" "f < n" "h_used h ! f = 0" "CHR 0x00 \<notin> set k"
  shows "\<exists>j < n. id_idstd_hash_map_slot (h_keys h) (h_used h) k = Some (Inr (int j)) \<and> on_path h n k j
    \<and> (h_used h ! j = 1 \<and> h_keys h ! j = k \<or> h_used h ! j = 0 \<and> hm_abs h k = None)"
proof -
  note t = tab_okD [OF assms(1)]
  let ?go = "\<lambda>d. h_used h ! slot_of n k d = 1 \<and> h_keys h ! slot_of n k d \<noteq> k"
  obtain df where df: "slot_of n k df = f" using slot_of_onto [OF assms(2)] by blast
  then have stop: "\<not> ?go df" using assms(3) by simp
  then obtain d where d: "\<not> ?go d" "\<And>e. e < d \<Longrightarrow> ?go e"
    using exists_least_iff [of "\<lambda>d. \<not> ?go d"] by blast
  define i where "i = nat (id_string_hash k) mod n"
  have i: "i < n" using t(1) by (simp add: i_def)
  have ie: "(i + e) mod n = slot_of n k e" for e by (simp add: i_def slot_of_def mod_add_left_eq)
  have eq: "h_used h ! slot_of n k e = 1 \<Longrightarrow> streq (h_keys h ! slot_of n k e) k \<longleftrightarrow> h_keys h ! slot_of n k e = k" for e
    using t(7) [OF slot_of_less [OF t(1)]] assms(4) by (intro streq_text) auto
  have "c_imod (id_string_hash k) (llen (h_keys h)) = Inr (int i)"
    using string_hash_range [of k] t(1-3) by (subst c_imod_nat) (auto simp: llen_def INT_MAX_def i_def zmod_int)
  moreover have "id_idstd_hash_map_probe (h_keys h) (h_used h) k (int i) = Some (Inr (int ((i + d) mod n)))"
    using t(1-5) i d eq by (intro probe_path) (auto simp: ie)
  ultimately have s: "id_idstd_hash_map_slot (h_keys h) (h_used h) k = Some (Inr (int (slot_of n k d)))"
    by (simp add: id_idstd_hash_map_slot_def ie)
  have p: "on_path h n k (slot_of n k d)" using d(2) by (auto simp: on_path_def)
  have j: "slot_of n k d < n" using slot_of_less [OF t(1)] .
  show ?thesis
  proof (cases "h_used h ! slot_of n k d = 1")
    case True
    then show ?thesis using s p j d(1) by blast
  next
    case False
    then have z: "h_used h ! slot_of n k d = 0" using t(6) [OF j] by simp
    have "h_keys h ! i' \<noteq> k" if i': "i' < n" "h_used h ! i' = 1" for i'
    proof
      assume k: "h_keys h ! i' = k"
      then obtain d' where d': "i' = slot_of n k d'" "\<And>e. e < d' \<Longrightarrow> ?go e"
        using t(8) [OF i'] by (auto simp: on_path_def)
      have "\<not> ?go d'" using d'(1) k by simp
      then have "\<not> d' < d" using d(2) by blast
      moreover have "\<not> d < d'" using d'(2) d(1) by blast
      ultimately have "d' = d" by simp
      then show False using d'(1) i'(2) z by simp
    qed
    then have "hm_abs h k = None" using hm_abs_None [OF assms(1)] by blast
    then show ?thesis using s p j z by blast
  qed
qed

text \<open>Writing a key into the slot its search found keeps the table well-formed.\<close>

lemma place_ok:
  assumes "tab_ok h n" "j < n" "on_path h n k j" "CHR 0x00 \<notin> set k"
    and "h_used h ! j = 1 \<and> h_keys h ! j = k \<or> h_used h ! j = 0 \<and> hm_abs h k = None"
    and "h_keys h' = (h_keys h)[j := k]" "h_values h' = (h_values h)[j := v]" "h_used h' = (h_used h)[j := 1]"
  shows "tab_ok h' n" "hm_abs h' = (hm_abs h)(k \<mapsto> v)"
proof -
  note t = tab_okD [OF assms(1)]
  have keys: "h_keys h' ! i = (if i = j then k else h_keys h ! i)"
    and vals: "h_values h' ! i = (if i = j then v else h_values h ! i)"
    and used: "h_used h' ! i = (if i = j then 1 else h_used h ! i)" if "i < n" for i
    using that t(3-5) assms(6-8) by (auto simp: nth_list_update)
  have other: "h_keys h ! i \<noteq> k" if "i < n" "h_used h ! i = 1" "i \<noteq> j" for i
    using that assms(5) keys_distinct [OF assms(1) that(1) assms(2) that(2)] hm_abs_None [OF assms(1), of k] by auto
  have path: "on_path h' n k' i" if p: "on_path h n k' i" for k' i
  proof -
    obtain d where d: "i = slot_of n k' d"
      "\<And>e. e < d \<Longrightarrow> h_used h ! slot_of n k' e = 1 \<and> h_keys h ! slot_of n k' e \<noteq> k'"
      using p by (auto simp: on_path_def)
    have "h_used h' ! slot_of n k' e = 1 \<and> h_keys h' ! slot_of n k' e \<noteq> k'" if "e < d" for e
    proof (cases "slot_of n k' e = j")
      case True
      then show ?thesis using d(2) [OF that] assms(5) keys used slot_of_less [OF t(1), of k' e] by auto
    next
      case False
      then show ?thesis using d(2) [OF that] keys used slot_of_less [OF t(1), of k' e] by auto
    qed
    then show ?thesis using d(1) by (auto simp: on_path_def)
  qed
  have "set (h_used h') \<subseteq> {0, 1}"
    using assms(1) set_update_subset_insert [of "h_used h" j 1] by (auto simp: tab_ok_def assms(8))
  moreover have "CHR 0x00 \<notin> set (h_keys h' ! i) \<and> on_path h' n (h_keys h' ! i) i"
    if "i < n" "h_used h' ! i = 1" for i
    using that keys used path assms(3,4) t(7,8) [of i] by (cases "i = j") auto
  ultimately show ok: "tab_ok h' n" using t(1-5) assms(6-8) by (simp add: tab_ok_def)
  show "hm_abs h' = (hm_abs h)(k \<mapsto> v)"
  proof (rule map_le_antisym; unfold map_le_def)
    show "\<forall>a \<in> dom (hm_abs h'). hm_abs h' a = ((hm_abs h)(k \<mapsto> v)) a"
    proof
      fix a assume "a \<in> dom (hm_abs h')"
      then obtain x where x: "hm_abs h' a = Some x" by auto
      then obtain i where i: "i < n" "h_used h' ! i = 1" "h_keys h' ! i = a" "h_values h' ! i = x"
        using hm_abs_iff [OF ok] by auto
      then show "hm_abs h' a = ((hm_abs h)(k \<mapsto> v)) a"
        using x keys vals used other hm_abs_iff [OF assms(1), of a x] by (cases "i = j") auto
    qed
    show "\<forall>a \<in> dom ((hm_abs h)(k \<mapsto> v)). ((hm_abs h)(k \<mapsto> v)) a = hm_abs h' a"
    proof
      fix a assume "a \<in> dom ((hm_abs h)(k \<mapsto> v))"
      show "((hm_abs h)(k \<mapsto> v)) a = hm_abs h' a"
      proof (cases "a = k")
        case True
        then show ?thesis using hm_abs_iff [OF ok, of k v] keys vals used assms(2) by (auto intro: sym)
      next
        case False
        then obtain x where x: "hm_abs h a = Some x" using \<open>a \<in> dom ((hm_abs h)(k \<mapsto> v))\<close> by auto
        then obtain i where i: "i < n" "h_used h ! i = 1" "h_keys h ! i = a" "h_values h ! i = x"
          using hm_abs_iff [OF assms(1)] by auto
        have "i \<noteq> j" using assms(5) i False by auto
        then have "hm_abs h' a = Some x" using hm_abs_iff [OF ok, of a x] i keys vals used by auto
        then show ?thesis using False x by simp
      qed
    qed
  qed
qed

section \<open>Growing keeps the map\<close>

text \<open>A loop that writes positions \<open>i..cap-1\<close> of the three lists.\<close>

definition agree :: "nat \<Rightarrow> nat \<Rightarrow> 'a list \<Rightarrow> 'a list \<Rightarrow> 'a list \<Rightarrow> bool" where
  "agree i cap zs gs hs \<longleftrightarrow> length zs = length hs
     \<and> (\<forall>j < length hs. zs ! j = (if i \<le> j \<and> j < cap then gs ! j else hs ! j))"

lemma agree_refl: "cap \<le> i \<Longrightarrow> agree i cap hs gs hs"
  by (auto simp: agree_def)

lemma agree_step:
  assumes "agree (Suc i) cap zs gs (hs[i := gs ! i])" "i < cap"
  shows "agree i cap zs gs hs"
  using assms by (auto simp: agree_def nth_list_update not_le less_Suc_eq_le dest: le_neq_trans)

lemma copy_old_ok:
  assumes "cap \<le> length (h_keys h)" "length (h_values h) = length (h_keys h)" "length (h_used h) = length (h_keys h)"
    and "cap \<le> length (h_keys g)" "length (h_values g) = length (h_keys g)" "length (h_used g) = length (h_keys g)"
  shows "\<exists>r. id_idstd_hash_map_copy_old h g (int i) (int cap) = Inr r \<and> h_count r = h_count h
    \<and> agree i cap (h_keys r) (h_keys g) (h_keys h) \<and> agree i cap (h_values r) (h_values g) (h_values h)
    \<and> agree i cap (h_used r) (h_used g) (h_used h)"
  using assms
proof (induction "cap - i" arbitrary: i h)
  case 0
  then show ?case by (subst id_idstd_hash_map_copy_old.simps) (auto simp: agree_refl)
next
  case (Suc m)
  let ?h = "h\<lparr>h_keys := (h_keys h)[i := h_keys g ! i], h_values := (h_values h)[i := h_values g ! i],
    h_used := (h_used h)[i := h_used g ! i]\<rparr>"
  have i: "i < cap" using Suc.hyps(2) by linarith
  have "id_idstd_hash_map_copy_old_one h g (int i) = Inr ?h"
    using i Suc.prems by (simp add: id_idstd_hash_map_copy_old_one_def)
  then have s: "id_idstd_hash_map_copy_old h g (int i) (int cap)
      = id_idstd_hash_map_copy_old ?h g (int (Suc i)) (int cap)"
    using i by (subst id_idstd_hash_map_copy_old.simps) (simp add: add.commute)
  have "m = cap - Suc i" using Suc.hyps(2) by simp
  then have "\<exists>r. id_idstd_hash_map_copy_old ?h g (int (Suc i)) (int cap) = Inr r \<and> h_count r = h_count ?h
    \<and> agree (Suc i) cap (h_keys r) (h_keys g) (h_keys ?h) \<and> agree (Suc i) cap (h_values r) (h_values g) (h_values ?h)
    \<and> agree (Suc i) cap (h_used r) (h_used g) (h_used ?h)"
    using Suc.prems by (intro Suc.hyps(1)) simp_all
  then show ?case using s i by (auto intro: agree_step)
qed

lemma clear_ok:
  assumes "cap \<le> length (h_keys h)" "length (h_values h) = length (h_keys h)" "length (h_used h) = length (h_keys h)"
  shows "\<exists>r. id_idstd_hash_map_clear h (int i) (int cap) = Inr r \<and> h_count r = h_count h
    \<and> agree i cap (h_keys r) (replicate cap []) (h_keys h) \<and> agree i cap (h_values r) (replicate cap 0) (h_values h)
    \<and> agree i cap (h_used r) (replicate cap 0) (h_used h)"
  using assms
proof (induction "cap - i" arbitrary: i h)
  case 0
  then show ?case by (subst id_idstd_hash_map_clear.simps) (auto simp: agree_refl)
next
  case (Suc m)
  let ?h = "h\<lparr>h_keys := (h_keys h)[i := []], h_values := (h_values h)[i := 0], h_used := (h_used h)[i := 0]\<rparr>"
  have i: "i < cap" using Suc.hyps(2) by linarith
  have "id_idstd_hash_map_clear_one h (int i) = Inr ?h"
    using i Suc.prems by (simp add: id_idstd_hash_map_clear_one_def)
  then have s: "id_idstd_hash_map_clear h (int i) (int cap) = id_idstd_hash_map_clear ?h (int (Suc i)) (int cap)"
    using i by (subst id_idstd_hash_map_clear.simps) (simp add: add.commute)
  have "m = cap - Suc i" using Suc.hyps(2) by simp
  then have "\<exists>r. id_idstd_hash_map_clear ?h (int (Suc i)) (int cap) = Inr r \<and> h_count r = h_count ?h
    \<and> agree (Suc i) cap (h_keys r) (replicate cap []) (h_keys ?h) \<and> agree (Suc i) cap (h_values r) (replicate cap 0) (h_values ?h)
    \<and> agree (Suc i) cap (h_used r) (replicate cap 0) (h_used ?h)"
    using Suc.prems by (intro Suc.hyps(1)) simp_all
  then obtain r where r: "id_idstd_hash_map_clear ?h (int (Suc i)) (int cap) = Inr r" "h_count r = h_count ?h"
    "agree (Suc i) cap (h_keys r) (replicate cap []) (h_keys ?h)"
    "agree (Suc i) cap (h_values r) (replicate cap 0) (h_values ?h)"
    "agree (Suc i) cap (h_used r) (replicate cap 0) (h_used ?h)" by blast
  have "agree i cap (h_keys r) (replicate cap []) (h_keys h)" by (rule agree_step [OF _ i]) (use r(3) i in simp)
  moreover have "agree i cap (h_values r) (replicate cap 0) (h_values h)" by (rule agree_step [OF _ i]) (use r(4) i in simp)
  moreover have "agree i cap (h_used r) (replicate cap 0) (h_used h)" by (rule agree_step [OF _ i]) (use r(5) i in simp)
  ultimately show ?case using s r by simp
qed

lemma fill_ok:
  "id_idstd_hash_map_fill h (int n) =
     h\<lparr>h_keys := h_keys h @ replicate n [], h_values := h_values h @ replicate n 0,
       h_used := h_used h @ replicate n 0\<rparr>"
proof -
  have "fill_slots h i (i + int n) = h\<lparr>h_keys := h_keys h @ replicate n [], h_values := h_values h @ replicate n 0,
       h_used := h_used h @ replicate n 0\<rparr>" for i
  proof (induction n arbitrary: h i)
    case 0
    then show ?case by (subst fill_slots.simps) simp
  next
    case (Suc n)
    have "fill_slots h i (i + int (Suc n)) = fill_slots (id_idstd_hash_map_fill_one h) (i + 1) ((i + 1) + int n)"
      by (subst fill_slots.simps) (simp add: add.assoc)
    then show ?case using Suc [of "id_idstd_hash_map_fill_one h" "i + 1"]
      by (simp add: id_idstd_hash_map_fill_one_def lpush_def)
  qed
  from this [of 0] show ?thesis by (simp add: id_idstd_hash_map_fill_def)
qed

lemma agree_all: "agree 0 cap zs gs hs \<Longrightarrow> length gs = cap \<Longrightarrow> cap \<le> length hs \<Longrightarrow> zs = gs @ drop cap hs"
  by (auto simp: agree_def nth_append intro!: nth_equalityI)

text \<open>The entries below a slot, and the table rebuilt from them.\<close>

definition below :: "hmap \<Rightarrow> nat \<Rightarrow> string \<Rightarrow> int option" where
  "below g i = map_of (map (\<lambda>j. (h_keys g ! j, h_values g ! j)) (filter (\<lambda>j. h_used g ! j = 1) [0..<i]))"

lemma below_all: "length (h_used g) = n \<Longrightarrow> below g n = hm_abs g"
  by (simp add: below_def hm_abs_def)

lemma below_Suc:
  assumes "tab_ok g n" "i < n"
  shows "h_used g ! i = 1 \<Longrightarrow> below g (Suc i) = (below g i)(h_keys g ! i \<mapsto> h_values g ! i) \<and> below g i (h_keys g ! i) = None"
    and "h_used g ! i \<noteq> 1 \<Longrightarrow> below g (Suc i) = below g i"
proof -
  assume u: "h_used g ! i = 1"
  have "\<forall>j < i. h_used g ! j = 1 \<longrightarrow> h_keys g ! j \<noteq> h_keys g ! i"
  proof (intro allI impI notI)
    fix j assume "j < i" "h_used g ! j = 1" "h_keys g ! j = h_keys g ! i"
    then show False using keys_distinct [OF assms(1) _ assms(2) _ u, of j] assms(2) by simp
  qed
  then have n: "below g i (h_keys g ! i) = None"
    by (auto simp: below_def map_of_eq_None_iff image_iff)
  have "below g (Suc i) = [h_keys g ! i \<mapsto> h_values g ! i] ++ below g i" using u by (simp add: below_def)
  then show "below g (Suc i) = (below g i)(h_keys g ! i \<mapsto> h_values g ! i) \<and> below g i (h_keys g ! i) = None"
    using n by (auto simp: map_add_def fun_eq_iff split: option.splits)
next
  show "h_used g ! i \<noteq> 1 \<Longrightarrow> below g (Suc i) = below g i" by (simp add: below_def)
qed

lemma n_used_update:
  assumes "j < length us" "us ! j = 0"
  shows "length (filter (\<lambda>u. u = 1) (us[j := 1])) = Suc (length (filter (\<lambda>u. u = (1::int)) us))"
proof -
  have s: "us = take j us @ us ! j # drop (Suc j) us" by (rule id_take_nth_drop [OF assms(1)])
  have "us[j := 1] = take j us @ 1 # drop (Suc j) us" using assms by (simp add: upd_conv_take_nth_drop)
  then show ?thesis using assms(2) arg_cong [OF s, of "filter (\<lambda>u. u = 1)"] by simp
qed

lemma n_used_take:
  "n_used h = length (filter (\<lambda>j. h_used h ! j = 1) [0..<length (h_used h)])"
proof -
  have "h_used h = map (\<lambda>j. h_used h ! j) [0..<length (h_used h)]" by (simp add: map_nth)
  then have "filter (\<lambda>u. u = 1) (h_used h) = filter (\<lambda>u. u = 1) (map (\<lambda>j. h_used h ! j) [0..<length (h_used h)])" by simp
  then show ?thesis by (simp add: n_used_def filter_map comp_def)
qed

lemma free_slot_exists:
  assumes "tab_ok h n" "n_used h < n"
  shows "\<exists>f < n. h_used h ! f = 0"
proof (rule ccontr)
  assume "\<not> ?thesis"
  then have "\<forall>u \<in> set (h_used h). u = 1" using tab_okD(5,6) [OF assms(1)] by (metis in_set_conv_nth)
  then have "n_used h = n" using tab_okD(5) [OF assms(1)] by (simp add: n_used_def filter_id_conv)
  then show False using assms(2) by simp
qed

lemma rehash_ok:
  assumes "tab_ok g n" "i \<le> n" "tab_ok h m" "n < m"
    and "hm_abs h = below g i" "n_used h = length (filter (\<lambda>j. h_used g ! j = 1) [0..<i])"
  shows "\<exists>r. id_idstd_hash_map_rehash g h (int i) = Some (Inr r) \<and> tab_ok r m
    \<and> hm_abs r = hm_abs g \<and> n_used r = n_used g \<and> h_count r = h_count h"
  using assms(2-)
proof (induction "n - i" arbitrary: i h)
  case 0
  then have "i = n" by simp
  moreover have "length (h_used g) = n" "length (h_keys g) = n" using tab_okD [OF assms(1)] by auto
  ultimately show ?case using 0 below_all [of g n] n_used_take [of g]
    by (subst id_idstd_hash_map_rehash.simps) (simp add: llen_def)
next
  case (Suc d)
  note t = tab_okD [OF assms(1)] and th = tab_okD [OF Suc.prems(2)]
  have i: "i < n" "d = n - Suc i" using Suc.hyps(2) by simp_all
  have step: "id_idstd_hash_map_rehash g h (int i)
      = thenRun (id_idstd_hash_map_rehash_slot g h (int i)) (\<lambda>h. id_idstd_hash_map_rehash g h (int (Suc i)))"
    using i t by (subst id_idstd_hash_map_rehash.simps) (simp add: llen_def add.commute)
  show ?case
  proof (cases "h_used g ! i = 1")
    case True
    let ?k = "h_keys g ! i" and ?v = "h_values g ! i"
    have k: "CHR 0x00 \<notin> set ?k" using t(7) [OF i(1) True] .
    have none: "hm_abs h ?k = None" using below_Suc(1) [OF assms(1) i(1) True] Suc.prems(4) by simp
    have "length (filter (\<lambda>j. h_used g ! j = 1) [0..<i]) \<le> i" using length_filter_le [of _ "[0..<i]"] by simp
    then have "n_used h < m" using Suc.prems i by simp
    then obtain f where "f < m" "h_used h ! f = 0" using free_slot_exists [OF Suc.prems(2)] by blast
    then obtain j where j: "j < m" "id_idstd_hash_map_slot (h_keys h) (h_used h) ?k = Some (Inr (int j))"
      "on_path h m ?k j" "h_used h ! j = 1 \<and> h_keys h ! j = ?k \<or> h_used h ! j = 0 \<and> hm_abs h ?k = None"
      using slot_found [OF Suc.prems(2) _ _ k] by blast
    have z: "h_used h ! j = 0" using j(1,4) none hm_abs_None [OF Suc.prems(2), of ?k] by auto
    let ?h = "h\<lparr>h_keys := (h_keys h)[j := ?k], h_values := (h_values h)[j := ?v], h_used := (h_used h)[j := 1]\<rparr>"
    have p: "tab_ok ?h m" "hm_abs ?h = (hm_abs h)(?k \<mapsto> ?v)"
      by (rule place_ok [OF Suc.prems(2) j(1,3) k j(4)], simp_all)+
    have "id_idstd_hash_map_rehash_slot g h (int i) = Some (Inr ?h)"
      using True i t j th by (simp add: id_idstd_hash_map_rehash_slot_def id_idstd_hash_map_rehash_place_def)
    moreover have "\<exists>r. id_idstd_hash_map_rehash g ?h (int (Suc i)) = Some (Inr r) \<and> tab_ok r m
        \<and> hm_abs r = hm_abs g \<and> n_used r = n_used g \<and> h_count r = h_count ?h"
      using i p Suc.prems below_Suc(1) [OF assms(1) i(1) True] n_used_update [of j "h_used h"] j(1) th z True
      by (intro Suc.hyps(1)) (simp_all add: n_used_def)
    ultimately show ?thesis using step by simp
  next
    case False
    then have "id_idstd_hash_map_rehash_slot g h (int i) = Some (Inr h)"
      using i t by (simp add: id_idstd_hash_map_rehash_slot_def)
    moreover have "\<exists>r. id_idstd_hash_map_rehash g h (int (Suc i)) = Some (Inr r) \<and> tab_ok r m
        \<and> hm_abs r = hm_abs g \<and> n_used r = n_used g \<and> h_count r = h_count h"
      using i Suc.prems below_Suc(2) [OF assms(1) i(1) False] False
      by (intro Suc.hyps(1)) simp_all
    ultimately show ?thesis using step by simp
  qed
qed

lemma fresh_table:
  assumes "0 < m" "int m \<le> 1073741824" "length (h_keys h) = m" "length (h_values h) = m" "h_used h = replicate m 0"
  shows "tab_ok h m" "hm_abs h = Map.empty" "n_used h = 0"
proof -
  show "tab_ok h m" using assms by (auto simp: tab_ok_def)
  show "n_used h = 0" using assms by (simp add: n_used_def)
  have "filter (\<lambda>i. h_used h ! i = 1) [0..<m] = []" using assms by (auto simp: filter_empty_conv)
  then show "hm_abs h = Map.empty" using assms by (simp add: hm_abs_def)
qed

lemma tab_ok_cong:
  assumes "h_keys h = h_keys g" "h_values h = h_values g" "h_used h = h_used g"
  shows "tab_ok h n = tab_ok g n" "hm_abs h = hm_abs g" "n_used h = n_used g"
  using assms by (simp_all add: tab_ok_def hm_abs_def n_used_def on_path_def)

lemma grow_ok:
  assumes "tab_ok h n" "int n \<le> 268435456"
  shows "\<exists>r. id_idstd_hash_map_grow h = Some (Inr r) \<and> tab_ok r (4 * n)
    \<and> hm_abs r = hm_abs h \<and> n_used r = n_used h \<and> h_count r = h_count h"
proof -
  note t = tab_okD [OF assms(1)]
  define h1 where "h1 = id_idstd_hash_map_fill h (int (3 * n))"
  have h1_def': "h1 = id_idstd_hash_map_fill h (3 * int n)" by (simp add: h1_def)
  have h1: "h_keys h1 = h_keys h @ replicate (3 * n) []" "h_values h1 = h_values h @ replicate (3 * n) 0"
    "h_used h1 = h_used h @ replicate (3 * n) 0" "h_count h1 = h_count h"
    by (simp_all only: h1_def fill_ok) simp_all
  define new where "new = id_idstd_hash_map_fill no_slots (int n)"
  have new: "h_keys new = replicate n []" "h_values new = replicate n 0" "h_used new = replicate n 0"
    by (simp_all add: new_def fill_ok no_slots_def)
  have cap: "llen (h_keys h) = int n" using t(3) by (simp add: llen_def)
  have "wrap32 (int n * 4) = int n * 4" using assms(2) by (intro wrap32_small) (auto simp: INT_MAX_def)
  then have ncap: "wrap32 (int n * 4) - int n = int (3 * n)" by simp
  obtain g where g: "id_idstd_hash_map_copy_old new h1 0 (int n) = Inr g"
    "agree 0 n (h_keys g) (h_keys h1) (h_keys new)" "agree 0 n (h_values g) (h_values h1) (h_values new)"
    "agree 0 n (h_used g) (h_used h1) (h_used new)"
    using copy_old_ok [of n new h1 0] t(3-5) h1 new by auto
  have gh: "h_keys g = h_keys h" "h_values g = h_values h" "h_used g = h_used h"
    using g(2-4) t(3-5) by (auto simp: agree_def h1 new nth_append intro!: nth_equalityI)
  obtain h2 where h2: "id_idstd_hash_map_clear h1 0 (int n) = Inr h2" "h_count h2 = h_count h1"
    "agree 0 n (h_keys h2) (replicate n []) (h_keys h1)" "agree 0 n (h_values h2) (replicate n 0) (h_values h1)"
    "agree 0 n (h_used h2) (replicate n 0) (h_used h1)"
    using clear_ok [of n h1 0] t(3-5) h1 by auto
  have len: "length (h_keys h2) = 4 * n" "length (h_values h2) = 4 * n"
    using h2(3,4) t(3-5) by (auto simp: agree_def h1)
  have used: "h_used h2 = replicate (4 * n) 0"
    using h2(5) t(3-5) by (auto simp: agree_def h1 nth_append intro!: nth_equalityI)
  have fresh: "tab_ok h2 (4 * n)" "hm_abs h2 = Map.empty" "n_used h2 = 0"
    using fresh_table [of "4 * n" h2] len used t(1) assms(2) by auto
  have gok: "tab_ok g n" "hm_abs g = hm_abs h" "n_used g = n_used h"
    using tab_ok_cong [OF gh] assms(1) by auto
  obtain r where "id_idstd_hash_map_rehash g h2 (int 0) = Some (Inr r)" "tab_ok r (4 * n)"
    "hm_abs r = hm_abs g" "n_used r = n_used g" "h_count r = h_count h2"
    using rehash_ok [OF gok(1), of 0 h2 "4 * n"] fresh t(1) by (auto simp: below_def)
  then show ?thesis using g(1) h2(1,2) cap ncap gok h1(4)
    by (simp add: id_idstd_hash_map_grow_def Let_def flip: h1_def' new_def)
qed

section \<open>The operations on the map\<close>

lemma hm_inv_free:
  assumes "hm_inv h"
  shows "\<exists>f < length (h_used h). h_used h ! f = 0"
proof (rule free_slot_exists)
  show "tab_ok h (length (h_used h))" using assms by (simp add: hm_inv_def)
  have "0 < length (h_used h)" by (rule tab_okD(1)) fact
  moreover have "2 * n_used h \<le> length (h_used h)" using assms by (simp add: hm_inv_def)
  ultimately show "n_used h < length (h_used h)" by linarith
qed

lemma initialize_ok:
  "hm_inv (id_hash_map_initialize no_slots) \<and> hm_abs (id_hash_map_initialize no_slots) = Map.empty"
proof -
  let ?h = "id_hash_map_initialize no_slots"
  have f: "id_idstd_hash_map_fill h 8 = h\<lparr>h_keys := h_keys h @ replicate 8 [], h_values := h_values h @ replicate 8 0,
       h_used := h_used h @ replicate 8 0\<rparr>" for h using fill_ok [of h 8] by simp
  have "h_keys ?h = replicate 8 []" "h_values ?h = replicate 8 0" "h_used ?h = replicate 8 0" "h_count ?h = [0]"
    by (simp_all only: id_hash_map_initialize_def f no_slots_def Let_def lpush_def) simp_all
  then show ?thesis using fresh_table [of 8 ?h] by (simp add: hm_inv_def)
qed

lemma get_ok:
  assumes "hm_inv h" "CHR 0x00 \<notin> set k"
  shows "id_hash_map_get h k d = Some (Inr (case hm_abs h k of None \<Rightarrow> d | Some v \<Rightarrow> v))"
    and "id_hash_map_has h k = Some (Inr (if hm_abs h k = None then 0 else 1))"
proof -
  let ?n = "length (h_used h)"
  have ok: "tab_ok h ?n" using assms(1) by (simp add: hm_inv_def)
  note t = tab_okD [OF ok]
  obtain f where "f < ?n" "h_used h ! f = 0" using hm_inv_free [OF assms(1)] by blast
  then obtain j where j: "j < ?n" "id_idstd_hash_map_slot (h_keys h) (h_used h) k = Some (Inr (int j))"
    "h_used h ! j = 1 \<and> h_keys h ! j = k \<or> h_used h ! j = 0 \<and> hm_abs h k = None"
    using slot_found [OF ok _ _ assms(2)] by blast
  have v: "h_used h ! j = 1 \<Longrightarrow> hm_abs h k = Some (h_values h ! j)"
    using j hm_abs_iff [OF ok] by auto
  show "id_hash_map_get h k d = Some (Inr (case hm_abs h k of None \<Rightarrow> d | Some v \<Rightarrow> v))"
    using j v t(3,4) by (auto simp: id_hash_map_get_def)
  show "id_hash_map_has h k = Some (Inr (if hm_abs h k = None then 0 else 1))"
    using j v by (auto simp: id_hash_map_has_def)
qed

lemma grow_when_full:
  assumes "hm_inv h" "length (h_used h) \<le> 268435456"
  shows "\<exists>full r. id_idstd_hash_map_full h = Inr full
    \<and> (if full then id_idstd_hash_map_grow h else Some (Inr h)) = Some (Inr r)
    \<and> hm_inv r \<and> hm_abs r = hm_abs h \<and> 2 * (n_used r + 1) \<le> length (h_used r)"
proof -
  let ?n = "length (h_used h)"
  have ok: "tab_ok h ?n" and c: "h_count h = [int (n_used h)]" "2 * n_used h \<le> ?n"
    using assms(1) by (auto simp: hm_inv_def)
  have w: "wrap32 (wrap32 (int (n_used h) + 1) * 2) = (int (n_used h) + 1) * 2"
    using c(2) assms(2) by (simp add: wrap32_small INT_MAX_def)
  have full: "id_idstd_hash_map_full h = Inr ((int (n_used h) + 1) * 2 > int ?n)"
    using c(1) w by (simp add: id_idstd_hash_map_full_def lget_def llen_def)
  show ?thesis
  proof (cases "(int (n_used h) + 1) * 2 > int ?n")
    case True
    obtain r where r: "id_idstd_hash_map_grow h = Some (Inr r)" "tab_ok r (4 * ?n)" "hm_abs r = hm_abs h"
      "n_used r = n_used h" "h_count r = h_count h" using grow_ok [OF ok] assms(2) by auto
    have "0 < ?n" using tab_okD(1) [OF ok] .
    moreover have "length (h_used r) = 4 * ?n" using tab_okD(5) [OF r(2)] .
    moreover have "2 * n_used r + 2 \<le> 4 * ?n" using c(2) r(4) \<open>0 < ?n\<close> by linarith
    ultimately have "hm_inv r" "2 * (n_used r + 1) \<le> length (h_used r)" using r c by (simp_all add: hm_inv_def)
    then show ?thesis using full r True by (intro exI [of _ True] exI [of _ r]) simp
  next
    case False
    then show ?thesis using full assms(1) by (intro exI [of _ False] exI [of _ h]) auto
  qed
qed

lemma put_ok:
  assumes "hm_inv h" "length (h_used h) \<le> 268435456" "CHR 0x00 \<notin> set k" "int (length k) \<le> INT_MAX"
  shows "\<exists>h'. id_hash_map_put h k v = Some (Inr h') \<and> hm_inv h' \<and> hm_abs h' = (hm_abs h)(k \<mapsto> v)"
proof -
  obtain full g where g: "id_idstd_hash_map_full h = Inr full"
    "(if full then id_idstd_hash_map_grow h else Some (Inr h)) = Some (Inr g)"
    "hm_inv g" "hm_abs g = hm_abs h" "2 * (n_used g + 1) \<le> length (h_used g)"
    using grow_when_full [OF assms(1,2)] by blast
  let ?n = "length (h_used g)"
  have ok: "tab_ok g ?n" and c: "h_count g = [int (n_used g)]" using g(3) by (auto simp: hm_inv_def)
  note t = tab_okD [OF ok]
  obtain f where "f < ?n" "h_used g ! f = 0" using hm_inv_free [OF g(3)] by blast
  then obtain j where j: "j < ?n" "id_idstd_hash_map_slot (h_keys g) (h_used g) k = Some (Inr (int j))"
    "on_path g ?n k j" "h_used g ! j = 1 \<and> h_keys g ! j = k \<or> h_used g ! j = 0 \<and> hm_abs g k = None"
    using slot_found [OF ok _ _ assms(3)] by blast
  have cat: "id_concat str_env k '''' = Inr k"
    using assms(4) id_concat_ok [of str_env k "[]"] by (simp add: INT_MAX_def SIZE_MAX_def)
  have put: "id_hash_map_put h k v = thenRun (Some (if h_used g ! j = 0 then take_slot g (int j) k else Inr g)) (\<lambda>h.
     thenRun (Some (lset (h_values h) (int j) v)) (\<lambda>vs. Some (Inr (h\<lparr>h_values := vs\<rparr>))))"
    using g(1,2) j(1,2) by (simp add: id_hash_map_put_def)
  show ?thesis
  proof (cases "h_used g ! j = 0")
    case True
    have w: "wrap32 (int (n_used g) + 1) = int (n_used g) + 1"
      using g(5) t(2) by (intro wrap32_small) (auto simp: INT_MAX_def)
    let ?h = "g\<lparr>h_used := (h_used g)[j := 1], h_count := [int (n_used g) + 1], h_keys := (h_keys g)[j := k],
      h_values := (h_values g)[j := v]\<rparr>"
    have "id_hash_map_put h k v = Some (Inr ?h)"
      using put True j(1) t(3,4) c w cat by (simp add: take_slot_def lget_def lset_def)
    moreover have "tab_ok ?h ?n" "hm_abs ?h = (hm_abs g)(k \<mapsto> v)"
      by (rule place_ok [OF ok j(1,3) assms(3) j(4)], simp_all)+
    moreover have "n_used ?h = n_used g + 1" using n_used_update [OF j(1) True] by (simp add: n_used_def)
    ultimately show ?thesis using g(4,5) by (simp add: hm_inv_def)
  next
    case False
    then have u: "h_used g ! j = 1" "h_keys g ! j = k" using j(4) by auto
    let ?h = "g\<lparr>h_values := (h_values g)[j := v]\<rparr>"
    have "id_hash_map_put h k v = Some (Inr ?h)" using put False j(1) t(4) by simp
    moreover have "h_keys ?h = (h_keys g)[j := k]" "h_used ?h = (h_used g)[j := 1]"
      using u list_update_id [of "h_keys g" j] list_update_id [of "h_used g" j] by simp_all
    note place = place_ok [OF ok j(1,3) assms(3) j(4) this(1) _ this(2), of v]
    have "tab_ok ?h ?n" "hm_abs ?h = (hm_abs g)(k \<mapsto> v)" by (rule place, simp)+
    moreover have "n_used ?h = n_used g" by (simp add: n_used_def)
    ultimately show ?thesis using g(3,4) by (simp add: hm_inv_def)
  qed
qed

section \<open>The map interface\<close>

text \<open>
  What the compiler relies on: its tables are string maps. The laws are those of a map from
  strings to integers; the client below runs a whole sequence of insertions.
\<close>

locale string_map =
  fixes mk :: "'m"
    and put :: "'m \<Rightarrow> string \<Rightarrow> int \<Rightarrow> 'm run"
    and get :: "'m \<Rightarrow> string \<Rightarrow> int \<Rightarrow> int run"
    and inv :: "'m \<Rightarrow> bool"
    and small :: "'m \<Rightarrow> bool"
    and abs :: "'m \<Rightarrow> string \<Rightarrow> int option"
    and key :: "string \<Rightarrow> bool"
  assumes mk_law: "inv mk \<and> abs mk = Map.empty"
    and put_law: "inv m \<Longrightarrow> small m \<Longrightarrow> key k \<Longrightarrow>
      \<exists>m'. put m k v = Some (Inr m') \<and> inv m' \<and> abs m' = (abs m)(k \<mapsto> v)"
    and get_law: "inv m \<Longrightarrow> key k \<Longrightarrow>
      get m k d = Some (Inr (case abs m k of None \<Rightarrow> d | Some v \<Rightarrow> v))"
begin

text \<open>A sequence of insertions, ended early (None) when the table is no longer small.\<close>

fun puts :: "(string \<times> int) list \<Rightarrow> 'm \<Rightarrow> 'm run" where
  "puts [] m = Some (Inr m)"
| "puts (kv # kvs) m = (if small m then thenRun (put m (fst kv) (snd kv)) (puts kvs) else None)"

lemma puts_law:
  "inv m \<Longrightarrow> list_all (\<lambda>kv. key (fst kv)) kvs \<Longrightarrow> puts kvs m = Some r \<Longrightarrow>
     \<exists>m'. r = Inr m' \<and> inv m' \<and> abs m' = abs m ++ map_of (rev kvs)"
proof (induction kvs arbitrary: m)
  case (Cons kv kvs)
  then obtain m' where m': "put m (fst kv) (snd kv) = Some (Inr m')" "inv m'" "abs m' = (abs m)(fst kv \<mapsto> snd kv)"
    using put_law [of m "fst kv" "snd kv"] by (auto split: if_splits)
  then have p: "puts kvs m' = Some r" using Cons.prems(3) by (simp split: if_splits)
  have e: "abs m' ++ map_of (rev kvs) = abs m ++ map_of (rev (kv # kvs))"
    unfolding m'(3) by (auto simp: map_add_def fun_eq_iff split: option.splits)
  obtain m'' where "r = Inr m''" "inv m''" "abs m'' = abs m' ++ map_of (rev kvs)"
    using Cons.IH [OF m'(2) _ p] Cons.prems(2) by auto
  then show ?case using e by metis
qed auto

lemma get_after_puts:
  assumes "list_all (\<lambda>kv. key (fst kv)) kvs" "puts kvs mk = Some (Inr m)" "key k"
  shows "get m k d = Some (Inr (case map_of (rev kvs) k of None \<Rightarrow> d | Some v \<Rightarrow> v))"
  using puts_law [OF conjunct1 [OF mk_law] assms(1,2)] get_law [of m k d] assms(3) mk_law by auto

end

definition table_small :: "hmap \<Rightarrow> bool" where
  "table_small h \<longleftrightarrow> length (h_used h) \<le> 268435456"

definition c_string :: "string \<Rightarrow> bool" where
  "c_string k \<longleftrightarrow> CHR 0x00 \<notin> set k \<and> int (length k) \<le> INT_MAX"

interpretation table: string_map "id_hash_map_initialize no_slots" id_hash_map_put id_hash_map_get
    hm_inv table_small hm_abs c_string
  by unfold_locales (use initialize_ok put_ok get_ok in \<open>auto simp: table_small_def c_string_def\<close>)

section \<open>Properties\<close>

text \<open>
  C14: Putting a key into the open-addressing hash map always succeeds, also when the table
  has to grow and be rehashed, keeps the invariant, changes the mapping at that key only,
  and get and has agree with it for every key.
\<close>

theorem id_hash_map_put_get:
  assumes "hm_inv h" "length (h_used h) \<le> 268435456" "CHR 0x00 \<notin> set k" "int (length k) \<le> INT_MAX" "CHR 0x00 \<notin> set k'"
  shows "\<exists>h'. id_hash_map_put h k v = Some (Inr h') \<and> hm_inv h' \<and> hm_abs h' = (hm_abs h)(k \<mapsto> v)
     \<and> id_hash_map_get h' k' d = (if k' = k then Some (Inr v) else id_hash_map_get h k' d)
     \<and> id_hash_map_has h' k' = (if k' = k then Some (Inr 1) else id_hash_map_has h k')"
proof -
  obtain h' where h': "id_hash_map_put h k v = Some (Inr h')" "hm_inv h'" "hm_abs h' = (hm_abs h)(k \<mapsto> v)"
    using put_ok [OF assms(1-4)] by blast
  then show ?thesis using get_ok [OF h'(2) assms(5)] get_ok [OF assms(1,5)] by auto
qed

theorem id_hash_map_is_map:
  assumes "list_all (\<lambda>kv. c_string (fst kv)) kvs" "table.puts kvs (id_hash_map_initialize no_slots) = Some r" "c_string k"
  shows "\<exists>h. r = Inr h \<and> id_hash_map_get h k d = Some (Inr (case map_of (rev kvs) k of None \<Rightarrow> d | Some v \<Rightarrow> v))"
proof -
  obtain h where "r = Inr h"
    using table.puts_law [OF conjunct1 [OF table.mk_law] assms(1,2)] by auto
  then show ?thesis using table.get_after_puts [OF assms(1) _ assms(3)] assms(2) by auto
qed

text \<open>A concrete table: one key inserted, then looked up.\<close>

lemma small_table: "hm_inv (id_hash_map_initialize no_slots)" "length (h_used (id_hash_map_initialize no_slots)) = 8"
  using initialize_ok fill_ok [of no_slots 8]
  by (simp_all add: id_hash_map_initialize_def Let_def no_slots_def)

theorem id_hash_map_put_get_witness:
  "\<exists>h'. id_hash_map_put (id_hash_map_initialize no_slots) ''ab'' 7 = Some (Inr h') \<and> hm_inv h'
     \<and> id_hash_map_get h' ''ab'' 0 = Some (Inr 7)"
  using id_hash_map_put_get [OF small_table(1), of "''ab''" "''ab''" 7 0]
  by (auto simp: small_table(2) INT_MAX_def)

theorem id_hash_map_is_map_witness:
  "\<exists>h. table.puts [(''ab'', 7)] (id_hash_map_initialize no_slots) = Some (Inr h)
     \<and> id_hash_map_get h ''ab'' 0 = Some (Inr 7)"
proof -
  obtain h where "id_hash_map_put (id_hash_map_initialize no_slots) ''ab'' 7 = Some (Inr h)"
    using put_ok [OF small_table(1), of "''ab''" 7] by (auto simp: small_table(2) INT_MAX_def)
  then have p: "table.puts [(''ab'', 7)] (id_hash_map_initialize no_slots) = Some (Inr h)"
    by (simp add: table_small_def small_table(2))
  show ?thesis using id_hash_map_is_map [OF _ p, of "''ab''" 0] p by (auto simp: c_string_def INT_MAX_def)
qed

end
