(* ===== verification/StrLib.thy ===== *)
theory StrLib
  imports HashMap Store
begin

text \<open>
  The string functions of the standard library: case mapping, comparison, search, split and
  join, replace, trim, repeat and the case conversion of names. A joined or lowered string is
  built in the linear store and read back from it, so those functions take and return the
  store. Memory for strings is taken to be there (\<open>str_env\<close>). A cursor that moves one character
  at a time stays below \<open>INT_MAX\<close>; sums of two lengths are wrapped to 32 bits.
\<close>

section \<open>Characters\<close>

definition id_fixed_point_minimum :: "int \<Rightarrow> int \<Rightarrow> int" where
  "id_fixed_point_minimum a b = (if b < a then b else a)"

definition id_fixed_point_maximum :: "int \<Rightarrow> int \<Rightarrow> int" where
  "id_fixed_point_maximum a b = (if b > a then b else a)"

definition id_fixed_point_sign :: "int \<Rightarrow> int" where
  "id_fixed_point_sign a = of_bool (a > 0) - of_bool (a < 0)"

definition id_character_upper :: "int \<Rightarrow> int" where
  "id_character_upper c = (if id_character_in c 97 122 then c - 32 else c)"

definition id_character_lower :: "int \<Rightarrow> int" where
  "id_character_lower c = (if id_character_in c 65 90 then c + 32 else c)"

definition id_url_hex_value :: "int \<Rightarrow> int" where
  "id_url_hex_value c =
     (let l = id_character_lower c; r = 0 - 1;
          r = (if c \<ge> 48 \<and> c \<le> 57 then c - 48 else r)
      in if l \<ge> 97 \<and> l \<le> 102 then l - 87 else r)"

definition id_idstd_character_case_class :: "int \<Rightarrow> int" where
  "id_idstd_character_case_class c =
     (let r = 0;
          r = (if id_character_lower c \<noteq> c then 1 else r);
          r = (if id_character_upper c \<noteq> c then 2 else r)
      in if id_character_is_digit c then 3 else r)"

definition id_string_advance_past_escape :: "string \<Rightarrow> int \<Rightarrow> int \<Rightarrow> int \<Rightarrow> int" where
  "id_string_advance_past_escape s i esc by = (if code_at s i = esc then wrap32 (i + by) else wrap32 (i + 1))"

definition id_string_is_axis_piece :: "string \<Rightarrow> int \<Rightarrow> bool" where
  "id_string_is_axis_piece p parts \<longleftrightarrow>
     parts > 1 \<and> ((streq p ''x'' \<or> streq p ''y'') \<or> streq p ''z'')"

section \<open>Comparison\<close>

function id_idstd_string_compare_run :: "string \<Rightarrow> string \<Rightarrow> int \<Rightarrow> int" where
  "id_idstd_string_compare_run s t i =
     (if code_at s i \<ge> 0 \<and> code_at s i = code_at t i then id_idstd_string_compare_run s t (i + 1) else i)"
  by pat_completeness auto
termination
  by (relation "measure (\<lambda>(s, t, i). nat (int (length s) - i))") (auto simp: code_at_nonneg)

definition id_idstd_string_compare_sign :: "string \<Rightarrow> string \<Rightarrow> int \<Rightarrow> int" where
  "id_idstd_string_compare_sign s t i = id_fixed_point_sign (code_at s i - code_at t i)"

definition id_string_compare :: "string \<Rightarrow> string \<Rightarrow> int" where
  "id_string_compare s t = id_idstd_string_compare_sign s t (id_idstd_string_compare_run s t 0)"

section \<open>Search\<close>

function equals_loop :: "string \<Rightarrow> int \<Rightarrow> string \<Rightarrow> int \<Rightarrow> int \<Rightarrow> int" where
  "equals_loop s i t j m =
     (if j < m \<and> code_at s (i + j) = code_at t j then equals_loop s i t (j + 1) m else j)"
  by pat_completeness auto
termination by (relation "measure (\<lambda>(s, i, t, j, m). nat (m - j))") auto

definition id_string_equals_at :: "string \<Rightarrow> int \<Rightarrow> string \<Rightarrow> bool" where
  "id_string_equals_at s i t \<longleftrightarrow> equals_loop s i t 0 (id_len t) = id_len t"

definition id_string_starts_with :: "string \<Rightarrow> string \<Rightarrow> bool" where
  "id_string_starts_with s t = id_string_equals_at s 0 t"

definition id_string_ends_with :: "string \<Rightarrow> string \<Rightarrow> bool" where
  "id_string_ends_with s t \<longleftrightarrow> (let i = id_len s - id_len t in i \<ge> 0 \<and> id_string_equals_at s i t)"

function id_idstd_string_skip_until_byte :: "string \<Rightarrow> int \<Rightarrow> int \<Rightarrow> int" where
  "id_idstd_string_skip_until_byte s i byte =
     (if code_at s i \<ge> 0 \<and> code_at s i \<noteq> byte then id_idstd_string_skip_until_byte s (i + 1) byte else i)"
  by pat_completeness auto
termination
  by (relation "measure (\<lambda>(s, i, byte). nat (int (length s) - i))") (auto simp: code_at_nonneg)

declare id_idstd_string_compare_run.simps [simp del] equals_loop.simps [simp del]
  id_idstd_string_skip_until_byte.simps [simp del]

lemma skip_until_ge: "i \<le> id_idstd_string_skip_until_byte s i b"
  by (induction s i b rule: id_idstd_string_skip_until_byte.induct)
    (subst id_idstd_string_skip_until_byte.simps, auto)

function find_loop :: "string \<Rightarrow> string \<Rightarrow> int \<Rightarrow> int \<Rightarrow> int" where
  "find_loop s t i head =
     (if code_at s i \<ge> 0 \<and> \<not> id_string_equals_at s i t
      then find_loop s t (id_idstd_string_skip_until_byte s (i + 1) head) head
      else i)"
  by pat_completeness auto
termination
proof (relation "measure (\<lambda>(s, t, i, head). nat (int (length s) - i))", goal_cases)
  case (2 s t i head)
  then have "0 \<le> i" "i < int (length s)" by (simp_all add: code_at_nonneg)
  then show ?case using skip_until_ge [of "i + 1" s head] by simp
qed simp

declare find_loop.simps [simp del]

definition id_idstd_string_find_run :: "string \<Rightarrow> string \<Rightarrow> int \<Rightarrow> int" where
  "id_idstd_string_find_run s t i =
     (let head = code_at t 0;
          i = find_loop s t (id_idstd_string_skip_until_byte s i head) head
      in if code_at s i < 0 then 0 - 1 else i)"

definition id_string_find_from :: "string \<Rightarrow> string \<Rightarrow> int \<Rightarrow> int" where
  "id_string_find_from s t i = (if code_at t 0 \<ge> 0 then id_idstd_string_find_run s t i else i)"

definition id_string_find :: "string \<Rightarrow> string \<Rightarrow> int" where
  "id_string_find s t = id_string_find_from s t 0"

section \<open>Trim\<close>

lemma code_at_pos: "code_at s i = k \<Longrightarrow> 0 \<le> k \<Longrightarrow> 0 \<le> i \<and> i < int (length s)"
  using code_at_nonneg [of s i] by simp

function id_idstd_string_whitespace_start :: "string \<Rightarrow> int \<Rightarrow> int" where
  "id_idstd_string_whitespace_start s i =
     (if id_idstd_character_is_space_at s i then id_idstd_string_whitespace_start s (i + 1) else i)"
  by pat_completeness auto
termination
  by (relation "measure (\<lambda>(s, i). nat (int (length s) - i))")
     (auto simp: id_idstd_character_is_space_at_def char_class_defs dest!: code_at_pos)

function id_idstd_string_whitespace_end :: "string \<Rightarrow> int \<Rightarrow> int" where
  "id_idstd_string_whitespace_end s n =
     (if n > 0 \<and> id_idstd_character_is_space_at s (n - 1) then id_idstd_string_whitespace_end s (n - 1) else n)"
  by pat_completeness auto
termination by (relation "measure (\<lambda>(s, n). nat n)") auto

declare id_idstd_string_whitespace_start.simps [simp del] id_idstd_string_whitespace_end.simps [simp del]

definition id_idstd_string_trim_end :: "string \<Rightarrow> int" where
  "id_idstd_string_trim_end s = id_idstd_string_whitespace_end s (id_len s)"

definition id_idstd_string_trim_slice :: "string \<Rightarrow> int \<Rightarrow> int \<Rightarrow> string res" where
  "id_idstd_string_trim_slice s i n = id_str_sub str_env s i (id_fixed_point_maximum (n - i) 0)"

definition id_string_trim :: "string \<Rightarrow> string res" where
  "id_string_trim s =
     id_idstd_string_trim_slice s (id_idstd_string_whitespace_start s 0) (id_idstd_string_trim_end s)"

section \<open>Split\<close>

definition id_idstd_string_split_cut :: "int \<Rightarrow> int \<Rightarrow> int" where
  "id_idstd_string_split_cut at n = (if at \<ge> 0 then at else n)"

definition id_idstd_string_split_bound :: "string \<Rightarrow> string \<Rightarrow> int \<Rightarrow> int \<Rightarrow> int" where
  "id_idstd_string_split_bound s sep i sz = id_idstd_string_split_cut (id_string_find_from s sep i) sz"

definition id_idstd_string_split_push :: "string list \<Rightarrow> string \<Rightarrow> int \<Rightarrow> int \<Rightarrow> string list res" where
  "id_idstd_string_split_push strs s i n =
     andThen (id_str_sub str_env s i (n - i)) (\<lambda>t. Inr (lpush strs t))"

definition id_idstd_string_split_one ::
    "string list \<Rightarrow> string \<Rightarrow> string \<Rightarrow> int \<Rightarrow> int \<Rightarrow> (int \<times> string list) res" where
  "id_idstd_string_split_one strs s sep i sz =
     (let n = id_idstd_string_split_bound s sep i sz
      in andThen (id_idstd_string_split_push strs s i n) (\<lambda>strs. Inr (wrap32 (n + id_len sep), strs)))"

partial_function (option) split_loop :: "string list \<Rightarrow> string \<Rightarrow> string \<Rightarrow> int \<Rightarrow> int \<Rightarrow> string list run" where
  "split_loop strs s sep i n =
     (if i \<le> n
      then thenRun (Some (id_idstd_string_split_one strs s sep i n)) (\<lambda>(j, strs). split_loop strs s sep j n)
      else Some (Inr strs))"

declare split_loop.simps [code]

definition id_idstd_string_split_loop :: "string list \<Rightarrow> string \<Rightarrow> string \<Rightarrow> int \<Rightarrow> string list run" where
  "id_idstd_string_split_loop strs s sep i = split_loop strs s sep i (id_len s)"

definition id_string_split :: "string \<Rightarrow> string \<Rightarrow> string list run" where
  "id_string_split s sep =
     (if id_len sep > 0 then id_idstd_string_split_loop [] s sep 0
      else Some (id_idstd_string_split_push [] s 0 (id_len s)))"

section \<open>Writing into the store\<close>

definition span_fail :: "string \<Rightarrow> int \<Rightarrow> int \<Rightarrow> trap" where
  "span_fail s i n =
     Trap_msg (''str span out of bounds: i='' @ id_str_of_int (word_of_int i) @ '' n=''
       @ id_str_of_int (word_of_int n) @ '' in a string of length ''
       @ id_str_of_int (word_of_int (id_len s))
       @ ''; clamp i and n first (fixed_point_minimum, fixed_point_maximum)'')"

definition id_idstd_string_checked_length :: "string \<Rightarrow> int \<Rightarrow> int \<Rightarrow> int res" where
  "id_idstd_string_checked_length s i n =
     (let e = wrap32 (i + n);
          ok = (i \<ge> 0 \<and> n \<ge> 0) \<and> (n = 0 \<or> code_at s (wrap32 (e - 1)) \<ge> 0)
      in if \<not> ok then Inl (span_fail s i n) else Inr n)"

function copy_chars :: "string \<Rightarrow> int \<Rightarrow> int \<Rightarrow> int \<Rightarrow> int \<Rightarrow> store \<Rightarrow> store res" where
  "copy_chars s i j m addr st =
     (if j < m
      then andThen (id_poke8 st (addr + j) (word_of_int (code_at s (i + j))))
             (\<lambda>st. copy_chars s i (j + 1) m addr st)
      else Inr st)"
  by pat_completeness auto
termination by (relation "measure (\<lambda>(s, i, j, m, addr, st). nat (m - j))") auto

definition id_string_copy_to_memory :: "string \<Rightarrow> int \<Rightarrow> int \<Rightarrow> int \<Rightarrow> store \<Rightarrow> store res" where
  "id_string_copy_to_memory s i n addr st =
     andThen (id_idstd_string_checked_length s i n) (\<lambda>m. copy_chars s i 0 m addr st)"

section \<open>Lower case\<close>

definition id_idstd_string_lower_step :: "string \<Rightarrow> int \<Rightarrow> int \<Rightarrow> store \<Rightarrow> store res" where
  "id_idstd_string_lower_step s addr i st =
     id_poke8 st (addr + i) (word_of_int (id_character_lower (code_at s i)))"

function id_idstd_string_lower_copy :: "string \<Rightarrow> int \<Rightarrow> int \<Rightarrow> store \<Rightarrow> store res" where
  "id_idstd_string_lower_copy s addr i st =
     (if code_at s i \<ge> 0
      then andThen (id_idstd_string_lower_step s addr i st) (id_idstd_string_lower_copy s addr (i + 1))
      else Inr st)"
  by pat_completeness auto
termination
  by (relation "measure (\<lambda>(s, addr, i, st). nat (int (length s) - i))") (auto simp: code_at_nonneg)

definition id_idstd_string_lower_alloc :: "string \<Rightarrow> int \<Rightarrow> store \<Rightarrow> (int \<times> store) res" where
  "id_idstd_string_lower_alloc s n st =
     andThen (id_mem_alloc str_env st (wrap32 (n + 1))) (\<lambda>(addr, st).
     andThen (id_idstd_string_lower_copy s addr 0 st) (\<lambda>st. Inr (addr, st)))"

definition id_string_lower :: "string \<Rightarrow> store \<Rightarrow> (string \<times> store) res" where
  "id_string_lower s st =
     (let n = id_len s
      in andThen (id_idstd_string_lower_alloc s n st) (\<lambda>(addr, st).
         andThen (id_str_of_mem str_env st addr n) (\<lambda>r. Inr (r, st))))"

section \<open>Join and replace\<close>

definition id_idstd_string_join_separator_length :: "string list \<Rightarrow> string \<Rightarrow> int" where
  "id_idstd_string_join_separator_length strs sep =
     wrap32 (id_fixed_point_maximum (llen strs - 1) 0 * id_len sep)"

function join_length_loop :: "(int \<Rightarrow> string res) \<Rightarrow> int \<Rightarrow> int \<Rightarrow> int \<Rightarrow> int res" where
  "join_length_loop rd k i n =
     (if i < k then andThen (rd i) (\<lambda>s. join_length_loop rd k (i + 1) (wrap32 (n + id_len s))) else Inr n)"
  by pat_completeness auto
termination by (relation "measure (\<lambda>(rd, k, i, n). nat (k - i))") auto

definition id_idstd_string_join_length :: "string list \<Rightarrow> string \<Rightarrow> int res" where
  "id_idstd_string_join_length strs sep =
     (let n = id_idstd_string_join_separator_length strs sep; i = 0
      in if llen strs \<le> llen strs - 0 \<and> i \<ge> 0
         then join_length_loop (\<lambda>i. Inr (strs ! nat i)) (llen strs) i n
         else join_length_loop (lget strs) (llen strs) i n)"

definition id_idstd_string_join_put :: "string \<Rightarrow> int \<Rightarrow> int \<Rightarrow> store \<Rightarrow> (int \<times> store) res" where
  "id_idstd_string_join_put s addr p st =
     andThen (id_string_copy_to_memory s 0 (id_len s) (addr + p) st) (\<lambda>st. Inr (wrap32 (p + id_len s), st))"

definition id_idstd_string_join_separator_write :: "string \<Rightarrow> int \<Rightarrow> int \<Rightarrow> bool \<Rightarrow> store \<Rightarrow> (int \<times> store) res" where
  "id_idstd_string_join_separator_write sep addr p again st =
     (if again then id_idstd_string_join_put sep addr p st else Inr (p, st))"

text \<open>The cursor of a join is a list of two cells: the next string and the next byte.\<close>

definition id_idstd_string_join_one_advance ::
    "int list \<Rightarrow> string list \<Rightarrow> string \<Rightarrow> int \<Rightarrow> int \<Rightarrow> store \<Rightarrow> (int list \<times> store) res" where
  "id_idstd_string_join_one_advance bs strs sep addr p st =
     andThen (lget bs 0) (\<lambda>i.
     andThen (id_idstd_string_join_separator_write sep addr p (i < llen strs - 1) st) (\<lambda>(q, st).
     andThen (lset bs 1 q) (\<lambda>bs. Inr (bs, st))))"

definition id_idstd_string_join_one ::
    "int list \<Rightarrow> string list \<Rightarrow> string \<Rightarrow> int \<Rightarrow> store \<Rightarrow> (int list \<times> store) res" where
  "id_idstd_string_join_one bs strs sep addr st =
     andThen (lget bs 0) (\<lambda>i.
     andThen (lget strs i) (\<lambda>s.
     andThen (lget bs 1) (\<lambda>q.
     andThen (id_idstd_string_join_put s addr q st) (\<lambda>(p, st).
     andThen (id_idstd_string_join_one_advance bs strs sep addr p st) (\<lambda>(bs, st).
     andThen (lget bs 0) (\<lambda>i.
     andThen (lset bs 0 (i + 1)) (\<lambda>bs. Inr (bs, st))))))))"

partial_function (option) join_loop ::
    "int list \<Rightarrow> string list \<Rightarrow> string \<Rightarrow> int \<Rightarrow> store \<Rightarrow> store run" where
  "join_loop bs strs sep addr st =
     thenRun (Some (lget bs 0)) (\<lambda>i.
       if i < llen strs
       then thenRun (Some (id_idstd_string_join_one bs strs sep addr st))
              (\<lambda>(bs, st). join_loop bs strs sep addr st)
       else Some (Inr st))"

declare join_loop.simps [code]

definition id_idstd_string_join_copy :: "string list \<Rightarrow> string \<Rightarrow> int \<Rightarrow> int \<Rightarrow> store \<Rightarrow> (string \<times> store) run" where
  "id_idstd_string_join_copy strs sep addr n st =
     thenRun (join_loop [0, 0] strs sep addr st) (\<lambda>st.
     thenRun (Some (id_str_of_mem str_env st addr n)) (\<lambda>r. Some (Inr (r, st))))"

definition id_string_join :: "string list \<Rightarrow> string \<Rightarrow> store \<Rightarrow> (string \<times> store) run" where
  "id_string_join strs sep st =
     thenRun (Some (id_idstd_string_join_length strs sep)) (\<lambda>n.
     thenRun (Some (id_mem_alloc str_env st (wrap32 (n + 1)))) (\<lambda>(addr, st).
       id_idstd_string_join_copy strs sep addr n st))"

definition id_string_replace :: "string \<Rightarrow> string \<Rightarrow> string \<Rightarrow> store \<Rightarrow> (string \<times> store) run" where
  "id_string_replace s fr to st =
     thenRun (id_string_split s fr) (\<lambda>parts. id_string_join parts to st)"

section \<open>Repeat and snake case\<close>

partial_function (option) repeat_loop :: "string \<Rightarrow> string \<Rightarrow> int \<Rightarrow> string run" where
  "repeat_loop ret s n =
     (if n > 0
      then thenRun (Some (c_imod n 2)) (\<lambda>m.
           thenRun (Some (if m = 1 then id_concat str_env ret s else Inr ret)) (\<lambda>ret.
           thenRun (Some (id_concat str_env s s)) (\<lambda>s.
           thenRun (Some (c_idiv n 2)) (\<lambda>n. repeat_loop ret s n))))
      else Some (Inr ret))"

declare repeat_loop.simps [code]

definition id_string_repeat :: "string \<Rightarrow> int \<Rightarrow> string run" where
  "id_string_repeat s n = thenRun (Some (id_str_dup str_env '''')) (\<lambda>ret. repeat_loop ret s n)"

definition id_idstd_string_snake_cut :: "string \<Rightarrow> int \<Rightarrow> bool" where
  "id_idstd_string_snake_cut s i \<longleftrightarrow>
     (let before = id_idstd_character_case_class (code_at s (i - 1));
          here = id_idstd_character_case_class (code_at s i);
          aft = id_idstd_character_case_class (code_at s (i + 1))
      in here = 1 \<and> (before \<ge> 2 \<or> (before = 1 \<and> aft = 2)))"

function snake_loop :: "string \<Rightarrow> string list \<Rightarrow> int \<Rightarrow> int \<Rightarrow> (string list \<times> int) res" where
  "snake_loop s parts start i =
     (if code_at s i \<ge> 0
      then if id_idstd_string_snake_cut s i
           then andThen (id_str_sub str_env s start (i - start)) (\<lambda>t. snake_loop s (lpush parts t) i (i + 1))
           else snake_loop s parts start (i + 1)
      else Inr (parts, start))"
  by pat_completeness auto
termination
  by (relation "measure (\<lambda>(s, parts, start, i). nat (int (length s) - i))") (auto simp: code_at_nonneg)

definition snake_parts :: "string \<Rightarrow> string list res" where
  "snake_parts s =
     andThen (snake_loop s [] 0 1) (\<lambda>(parts, start).
     andThen (id_str_sub str_env s start (id_len s - start)) (\<lambda>t. Inr (lpush parts t)))"

definition id_string_snake :: "string \<Rightarrow> store \<Rightarrow> (string \<times> store) run" where
  "id_string_snake s st = thenRun (Some (snake_parts s)) (\<lambda>parts. id_string_join parts ''_'' st)"

declare copy_chars.simps [simp del] id_idstd_string_lower_copy.simps [simp del]
  join_length_loop.simps [simp del] snake_loop.simps [simp del]

end
