(* ===== verification/StrSpec.thy ===== *)
theory StrSpec
  imports StrLib
begin

text \<open>
  What the string functions compute, stated on plain lists of characters: search finds the
  first occurrence, split cuts at every separator, join writes the pieces and separators into
  the store and reads the text back, comparison is the lexicographic order of the character
  codes, trim and repeat are the list functions of that name.
\<close>

section \<open>Occurrences\<close>

definition occurs :: "string \<Rightarrow> string \<Rightarrow> nat \<Rightarrow> bool" where
  "occurs s t k \<longleftrightarrow> take (length t) (drop k s) = t"

lemma id_len_small: "int (length s) \<le> INT_MAX \<Longrightarrow> id_len s = int (length s)"
  by (simp add: id_len_def id_slen_def wrap32_small)

lemma code_eq_iff:
  "i < length s \<Longrightarrow> j < length t \<Longrightarrow> code_at s (int i) = code_at t (int j) \<longleftrightarrow> s ! i = t ! j"
  by (simp add: code_at_in)

lemma code_differ: "i \<ge> length s \<Longrightarrow> j < length t \<Longrightarrow> code_at s (int i) \<noteq> code_at t (int j)"
  using code_at_nonneg [of t "int j"] by (simp add: code_at_out)

lemma equals_loop_all:
  assumes "j \<le> m"
  shows "equals_loop s (int i) t (int j) (int m) = int m \<longleftrightarrow>
     (\<forall>k. j \<le> k \<and> k < m \<longrightarrow> code_at s (int (i + k)) = code_at t (int k))"
  using assms
proof (induction "m - j" arbitrary: j)
  case 0
  then show ?case by (subst equals_loop.simps) auto
next
  case (Suc d)
  then have "j < m" by simp
  then have ih: "equals_loop s (int i) t (int (Suc j)) (int m) = int m \<longleftrightarrow>
     (\<forall>k. Suc j \<le> k \<and> k < m \<longrightarrow> code_at s (int (i + k)) = code_at t (int k))"
    using Suc.hyps(2) by (intro Suc.hyps(1)) auto
  show ?case
  proof (cases "code_at s (int (i + j)) = code_at t (int j)")
    case True
    then have "equals_loop s (int i) t (int j) (int m) = equals_loop s (int i) t (int (Suc j)) (int m)"
      using \<open>j < m\<close> by (subst equals_loop.simps) (simp add: add.commute)
    moreover have "(\<forall>k. j \<le> k \<and> k < m \<longrightarrow> code_at s (int (i + k)) = code_at t (int k)) \<longleftrightarrow>
        (\<forall>k. Suc j \<le> k \<and> k < m \<longrightarrow> code_at s (int (i + k)) = code_at t (int k))"
      using True by (metis Suc_leD Suc_leI le_eq_less_or_eq)
    ultimately show ?thesis using ih by simp
  next
    case False
    then have "equals_loop s (int i) t (int j) (int m) = int j" by (subst equals_loop.simps) simp
    then show ?thesis using False \<open>j < m\<close> by auto
  qed
qed

lemma equals_at_occurs:
  assumes "int (length t) \<le> INT_MAX"
  shows "id_string_equals_at s (int i) t \<longleftrightarrow> occurs s t i"
proof -
  have "id_string_equals_at s (int i) t \<longleftrightarrow>
      (\<forall>k < length t. code_at s (int (i + k)) = code_at t (int k))"
    using equals_loop_all [of 0 "length t" s i t] assms
    by (simp add: id_string_equals_at_def id_len_small)
  also have "\<dots> \<longleftrightarrow> (\<forall>k < length t. i + k < length s \<and> s ! (i + k) = t ! k)"
    by (metis code_eq_iff code_differ not_le)
  also have "\<dots> \<longleftrightarrow> occurs s t i"
  proof
    assume a: "\<forall>k < length t. i + k < length s \<and> s ! (i + k) = t ! k"
    then have "length t \<le> length s - i"
      by (cases t) (auto dest!: spec [of _ "length t - 1"])
    then show "occurs s t i" unfolding occurs_def
      using a by (intro nth_equalityI) auto
  next
    assume o: "occurs s t i"
    show "\<forall>k < length t. i + k < length s \<and> s ! (i + k) = t ! k"
    proof (intro allI impI)
      fix k assume k: "k < length t"
      have "length (take (length t) (drop i s)) = length t" using o by (simp add: occurs_def)
      then have l: "i + k < length s" using k by (auto simp: min_def split: if_splits)
      have "take (length t) (drop i s) ! k = t ! k" using o by (simp add: occurs_def)
      then show "i + k < length s \<and> s ! (i + k) = t ! k" using k l by simp
    qed
  qed
  finally show ?thesis .
qed

lemma starts_with_iff:
  "int (length t) \<le> INT_MAX \<Longrightarrow> id_string_starts_with s t \<longleftrightarrow> (\<exists>r. s = t @ r)"
  using equals_at_occurs [of t s 0]
  by (auto simp: id_string_starts_with_def occurs_def) (metis append_take_drop_id)

lemma ends_with_iff:
  assumes "int (length t) \<le> INT_MAX" "int (length s) \<le> INT_MAX"
  shows "id_string_ends_with s t \<longleftrightarrow> (\<exists>r. s = r @ t)"
proof (cases "length t \<le> length s")
  case True
  then have e: "int (length s) - int (length t) = int (length s - length t)" by simp
  have "id_string_ends_with s t \<longleftrightarrow> occurs s t (length s - length t)"
    using e equals_at_occurs [OF assms(1), of s "length s - length t"]
    by (simp add: id_string_ends_with_def id_len_small [OF assms(1)] id_len_small [OF assms(2)] Let_def True)
  also have "\<dots> \<longleftrightarrow> drop (length s - length t) s = t" using True by (simp add: occurs_def)
  also have "\<dots> \<longleftrightarrow> (\<exists>r. s = r @ t)" by (auto) (metis append_take_drop_id)
  finally show ?thesis .
next
  case False
  then show ?thesis using assms by (auto simp: id_string_ends_with_def id_len_small)
qed

section \<open>Search\<close>

lemma skip_until_stops:
  assumes "0 \<le> i"
  shows "let k = id_idstd_string_skip_until_byte s i b in
     (\<forall>j. i \<le> j \<and> j < k \<longrightarrow> 0 \<le> code_at s j \<and> code_at s j \<noteq> b) \<and> (0 \<le> code_at s k \<longrightarrow> code_at s k = b)"
  using assms
proof (induction s i b rule: id_idstd_string_skip_until_byte.induct)
  case (1 s i b)
  let ?go = "code_at s i \<ge> 0 \<and> code_at s i \<noteq> b"
  show ?case
  proof (cases ?go)
    case True
    then have e: "id_idstd_string_skip_until_byte s i b = id_idstd_string_skip_until_byte s (i + 1) b"
      by (subst id_idstd_string_skip_until_byte.simps) simp
    have "0 \<le> code_at s j \<and> code_at s j \<noteq> b"
      if "i \<le> j" "\<forall>j. i + 1 \<le> j \<and> j < k \<longrightarrow> 0 \<le> code_at s j \<and> code_at s j \<noteq> b" "j < k" for j k
      using that True by (cases "j = i") auto
    then show ?thesis using 1 True unfolding e Let_def by fastforce
  next
    case False
    then have "id_idstd_string_skip_until_byte s i b = i"
      by (subst id_idstd_string_skip_until_byte.simps) auto
    then show ?thesis using False by auto
  qed
qed

lemma occurs_head:
  assumes "occurs s t (nat j)" "t \<noteq> []" "0 \<le> j"
  shows "code_at s j = code_at t 0" "0 \<le> code_at s j"
proof -
  have "length (take (length t) (drop (nat j) s)) = length t" using assms by (simp add: occurs_def)
  then have l: "nat j < length s" using assms(2) by (cases t) (auto simp: min_def split: if_splits)
  have "take (length t) (drop (nat j) s) ! 0 = t ! 0" using assms by (simp add: occurs_def)
  then have "s ! nat j = t ! 0" using assms(2) l by simp
  then show "code_at s j = code_at t 0" "0 \<le> code_at s j"
    using l assms by (simp_all add: code_at_in code_at_nonneg)
qed

text \<open>\<open>first_at s t i k\<close>: k is the first occurrence at or after i.\<close>

definition first_at :: "string \<Rightarrow> string \<Rightarrow> nat \<Rightarrow> nat \<Rightarrow> bool" where
  "first_at s t i k \<longleftrightarrow> i \<le> k \<and> occurs s t k \<and> (\<forall>j. i \<le> j \<and> j < k \<longrightarrow> \<not> occurs s t j)"

lemma find_loop_first:
  assumes "t \<noteq> []" "int (length t) \<le> INT_MAX" "0 \<le> i" "0 \<le> code_at s i \<longrightarrow> code_at s i = code_at t 0"
  shows "let k = find_loop s t i (code_at t 0) in
     i \<le> k \<and> (\<forall>j. i \<le> j \<and> j < k \<longrightarrow> \<not> occurs s t (nat j)) \<and> (0 \<le> code_at s k \<longrightarrow> occurs s t (nat k))"
  using assms(3,4)
proof (induction "nat (int (length s) - i)" arbitrary: i rule: less_induct)
  case less
  let ?h = "code_at t 0"
  show ?case
  proof (cases "0 \<le> code_at s i \<and> \<not> id_string_equals_at s i t")
    case True
    define n where "n = id_idstd_string_skip_until_byte s (i + 1) ?h"
    have e: "find_loop s t i ?h = find_loop s t n ?h"
      using True by (subst find_loop.simps) (simp add: n_def)
    have ni: "i + 1 \<le> n" by (simp add: n_def skip_until_ge)
    have sk: "\<And>j. i + 1 \<le> j \<Longrightarrow> j < n \<Longrightarrow> code_at s j \<noteq> ?h"
      "0 \<le> code_at s n \<longrightarrow> code_at s n = ?h"
      using skip_until_stops [of "i + 1" s ?h] less.prems(1) by (auto simp: n_def Let_def)
    have "i < int (length s)" using True by (simp add: code_at_nonneg)
    then have "nat (int (length s) - n) < nat (int (length s) - i)" using ni by simp
    from less.hyps [OF this] ni less.prems(1) sk(2)
    have ih: "let k = find_loop s t n ?h in n \<le> k \<and> (\<forall>j. n \<le> j \<and> j < k \<longrightarrow> \<not> occurs s t (nat j))
        \<and> (0 \<le> code_at s k \<longrightarrow> occurs s t (nat k))" by simp
    have no: "\<not> occurs s t (nat j)" if "i \<le> j" "j < n" for j
    proof (cases "j = i")
      case True
      then show ?thesis using \<open>0 \<le> code_at s i \<and> \<not> id_string_equals_at s i t\<close> less.prems(1)
          equals_at_occurs [OF assms(2), of s "nat i"] by simp
    next
      case False
      then show ?thesis using sk(1) [of j] that occurs_head(1) [of s t j] assms(1) less.prems(1) by auto
    qed
    show ?thesis unfolding e Let_def
      using ih ni no by (metis (no_types, lifting) linorder_not_less order.strict_trans1 zle_add1_eq_le zless_add1_eq)
  next
    case False
    then have "find_loop s t i ?h = i" by (subst find_loop.simps) auto
    then show ?thesis using False less.prems(1) equals_at_occurs [OF assms(2), of s "nat i"]
      by (auto simp: Let_def)
  qed
qed

lemma find_from_first:
  assumes "t \<noteq> []" "int (length t) \<le> INT_MAX"
  shows "(\<exists>k. first_at s t i k \<and> id_string_find_from s t (int i) = int k) \<or>
     ((\<forall>k \<ge> i. \<not> occurs s t k) \<and> id_string_find_from s t (int i) = - 1)"
proof -
  let ?h = "code_at t 0"
  define n where "n = id_idstd_string_skip_until_byte s (int i) ?h"
  define k where "k = find_loop s t n ?h"
  have t0: "0 \<le> ?h" using assms(1) by (simp add: code_at_nonneg)
  have ni: "int i \<le> n" by (simp add: n_def skip_until_ge)
  have sk: "\<And>j. int i \<le> j \<Longrightarrow> j < n \<Longrightarrow> code_at s j \<noteq> ?h" "0 \<le> code_at s n \<longrightarrow> code_at s n = ?h"
    using skip_until_stops [of "int i" s ?h] by (auto simp: n_def Let_def)
  have f: "n \<le> k" "\<And>j. n \<le> j \<Longrightarrow> j < k \<Longrightarrow> \<not> occurs s t (nat j)" "0 \<le> code_at s k \<Longrightarrow> occurs s t (nat k)"
    using find_loop_first [OF assms, of n s] ni sk(2) by (auto simp: k_def Let_def)
  have no: "\<not> occurs s t j" if "i \<le> j" "int j < k" for j
    using f(2) [of "int j"] sk(1) [of "int j"] occurs_head(1) [of s t "int j"] assms(1) that
    by (cases "int j < n") auto
  have e: "id_string_find_from s t (int i) = (if code_at s k < 0 then - 1 else k)"
    using t0 by (simp add: id_string_find_from_def id_idstd_string_find_run_def Let_def n_def k_def)
  show ?thesis
  proof (cases "code_at s k < 0")
    case True
    have "\<not> occurs s t j" if "i \<le> j" for j
    proof (cases "int j < k")
      case False
      have "int (length s) \<le> k" using True f(1) ni code_at_nonneg [of s k] by auto
      then show ?thesis using False occurs_head(2) [of s t "int j"] assms(1) code_at_nonneg [of s "int j"]
        by auto
    qed (use no that in blast)
    then show ?thesis using e True by auto
  next
    case False
    then have "first_at s t i (nat k)" using f(1,3) ni no by (auto simp: first_at_def)
    then show ?thesis using e False f(1) ni by (intro disjI1 exI [of _ "nat k"]) simp
  qed
qed

section \<open>Comparison\<close>

fun lex_sign :: "string \<Rightarrow> string \<Rightarrow> int" where
  "lex_sign [] [] = 0"
| "lex_sign [] (y # ys) = - 1"
| "lex_sign (x # xs) [] = 1"
| "lex_sign (x # xs) (y # ys) =
     (if x = y then lex_sign xs ys else if (of_char x :: nat) < of_char y then - 1 else 1)"

lemma code_at_append:
  "code_at (p @ x # xs) (int (length p)) = int (of_char x)" "code_at p (int (length p)) = - 1"
  by (simp_all add: code_at_in code_at_out)

lemma compare_from:
  "length p = length q \<Longrightarrow>
     (let i = id_idstd_string_compare_run (p @ s) (q @ t) (int (length p))
      in id_idstd_string_compare_sign (p @ s) (q @ t) i) = lex_sign s t"
proof (induction s t arbitrary: p q rule: lex_sign.induct)
  case 1
  then show ?case using code_at_append(2) [of p] code_at_append(2) [of q]
    by (subst id_idstd_string_compare_run.simps) (simp add: id_idstd_string_compare_sign_def id_fixed_point_sign_def)
next
  case (2 y ys)
  then show ?case using code_at_append(2) [of p] code_at_append(1) [of q y ys]
    by (subst id_idstd_string_compare_run.simps) (simp add: id_idstd_string_compare_sign_def id_fixed_point_sign_def)
next
  case (3 x xs)
  then show ?case using code_at_append(1) [of p x xs] code_at_append(2) [of q]
    by (subst id_idstd_string_compare_run.simps) (simp add: id_idstd_string_compare_sign_def id_fixed_point_sign_def)
next
  case (4 x xs y ys)
  note c = code_at_append(1) [of p x xs] code_at_append(1) [of q y ys]
  show ?case
  proof (cases "x = y")
    case True
    then have "id_idstd_string_compare_run (p @ x # xs) (q @ y # ys) (int (length p))
        = id_idstd_string_compare_run ((p @ [x]) @ xs) ((q @ [y]) @ ys) (int (length (p @ [x])))"
      using c "4.prems" by (subst id_idstd_string_compare_run.simps) (simp add: add.commute)
    then show ?thesis using 4(1) [OF True, of "p @ [x]" "q @ [y]"] "4.prems" True by simp
  next
    case False
    then have "(of_char x :: nat) < of_char y \<or> (of_char y :: nat) < of_char x"
      by (metis char_of_code linorder_neqE_nat)
    then show ?thesis using c "4.prems" False
      by (subst id_idstd_string_compare_run.simps) (auto simp: id_idstd_string_compare_sign_def id_fixed_point_sign_def)
  qed
qed

lemma compare_lex: "id_string_compare s t = lex_sign s t"
  using compare_from [of "[]" "[]" s t] by (simp add: id_string_compare_def Let_def)

definition code_less :: "(char \<times> char) set" where
  "code_less = {(a, b). (of_char a :: nat) < of_char b}"

lemma lex_sign_lexord:
  "lex_sign s t = - 1 \<longleftrightarrow> (s, t) \<in> lexord code_less" "lex_sign s t = 0 \<longleftrightarrow> s = t"
  "lex_sign s t \<in> {- 1, 0, 1}" "lex_sign t s = - lex_sign s t"
proof (induction s t rule: lex_sign.induct)
  case (4 x xs y ys)
  have "(of_char x :: nat) \<noteq> of_char y" if "x \<noteq> y" using that char_of_code by metis
  then show "lex_sign (x # xs) (y # ys) = - 1 \<longleftrightarrow> (x # xs, y # ys) \<in> lexord code_less"
    "lex_sign (x # xs) (y # ys) = 0 \<longleftrightarrow> x # xs = y # ys"
    "lex_sign (x # xs) (y # ys) \<in> {- 1, 0, 1}"
    "lex_sign (y # ys) (x # xs) = - lex_sign (x # xs) (y # ys)"
    using 4 by (auto simp: code_less_def)
qed auto

section \<open>Trim\<close>

abbreviation space :: "char \<Rightarrow> bool" where
  "space c \<equiv> id_character_is_space (int (of_char c))"

lemma space_at: "k < length s \<Longrightarrow> id_idstd_character_is_space_at s (int k) \<longleftrightarrow> space (s ! k)"
  by (simp add: id_idstd_character_is_space_at_def code_at_in)

lemma no_space_at: "\<not> id_idstd_character_is_space_at s (int (length s))"
  by (simp add: id_idstd_character_is_space_at_def code_at_out id_character_is_space_def)

lemma whitespace_start_from:
  "id_idstd_string_whitespace_start (p @ s) (int (length p)) = int (length p + length (takeWhile space s))"
proof (induction s arbitrary: p)
  case Nil
  then show ?case using no_space_at [of p] by (subst id_idstd_string_whitespace_start.simps) simp
next
  case (Cons x s)
  have sp: "id_idstd_character_is_space_at (p @ x # s) (int (length p)) \<longleftrightarrow> space x"
    by (subst space_at) simp_all
  show ?case
  proof (cases "space x")
    case True
    then have "id_idstd_string_whitespace_start (p @ x # s) (int (length p))
        = id_idstd_string_whitespace_start ((p @ [x]) @ s) (int (length (p @ [x])))"
      using sp by (subst id_idstd_string_whitespace_start.simps) (simp add: add.commute)
    then show ?thesis using Cons.IH [of "p @ [x]"] True by simp
  next
    case False
    then show ?thesis using sp by (subst id_idstd_string_whitespace_start.simps) simp
  qed
qed

lemma whitespace_end_from:
  "n \<le> length s \<Longrightarrow> id_idstd_string_whitespace_end s (int n)
     = int (n - length (takeWhile space (rev (take n s))))"
proof (induction n)
  case 0
  then show ?case by (subst id_idstd_string_whitespace_end.simps) simp
next
  case (Suc n)
  then have sp: "id_idstd_character_is_space_at s (int n) \<longleftrightarrow> space (s ! n)" by (simp add: space_at)
  have t: "rev (take (Suc n) s) = s ! n # rev (take n s)" using Suc.prems by (simp add: take_Suc_conv_app_nth)
  show ?case
  proof (cases "space (s ! n)")
    case True
    then have "id_idstd_string_whitespace_end s (int (Suc n)) = id_idstd_string_whitespace_end s (int n)"
      using sp by (subst id_idstd_string_whitespace_end.simps) simp
    then show ?thesis using Suc True by (simp add: t)
  next
    case False
    then show ?thesis using sp by (subst id_idstd_string_whitespace_end.simps) (simp add: t)
  qed
qed

lemma trim_tail:
  assumes "u \<noteq> []" "\<not> P (hd u)"
  shows "takeWhile P (rev (v @ u)) = takeWhile P (rev u)"
  using assms takeWhile_append1 [of "hd u" "rev u" P "rev v"] by simp

lemma trim_ok:
  assumes "int (length s) \<le> INT_MAX"
  shows "id_string_trim s = Inr (rev (dropWhile space (rev (dropWhile space s))))"
proof -
  define a where "a = length (takeWhile space s)"
  define u where "u = dropWhile space s"
  define b where "b = length (takeWhile space (rev s))"
  have st: "id_idstd_string_whitespace_start s 0 = int a"
    using whitespace_start_from [of "[]" s] by (simp add: a_def)
  have en: "id_idstd_string_trim_end s = int (length s - b)"
    using whitespace_end_from [of "length s" s] assms by (simp add: id_idstd_string_trim_end_def id_len_small b_def)
  have du: "drop a s = u" by (simp add: a_def u_def dropWhile_eq_drop)
  have su: "s = takeWhile space s @ u" by (simp add: u_def)
  have la: "a + length u = length s" using su by (metis a_def length_append)
  have m: "id_fixed_point_maximum (int (length s - b) - int a) 0 = int (length s - b - a)"
    by (auto simp: id_fixed_point_maximum_def)
  have sub: "id_str_sub str_env s (int a) (int (length s - b - a)) = Inr (take (length s - b - a) (drop a s))"
    using id_str_sub_ok [OF str_env_roomy, of "int a" "int (length s - b - a)" s] assms la by simp
  have "take (length s - b - a) u = rev (dropWhile space (rev u))"
  proof (cases "u = []")
    case False
    then have "\<not> space (hd u)" using hd_dropWhile [of space s] by (simp add: u_def)
    then have b: "b = length (takeWhile space (rev u))"
      using trim_tail [OF False, of space "takeWhile space s"] su by (metis b_def)
    have "rev (dropWhile space (rev u)) = take (length u - b) u"
      by (simp add: b dropWhile_eq_drop rev_drop)
    moreover have "length u - b = length s - b - a" using la by simp
    ultimately show ?thesis by simp
  qed simp
  then show ?thesis
    using sub by (simp add: id_string_trim_def id_idstd_string_trim_slice_def st en m du u_def [symmetric])
qed

section \<open>Split\<close>

fun intercalate :: "string \<Rightarrow> string list \<Rightarrow> string" where
  "intercalate sep [] = []"
| "intercalate sep [p] = p"
| "intercalate sep (p # q # ps) = p @ sep @ intercalate sep (q # ps)"

lemma intercalate_Cons: "ps \<noteq> [] \<Longrightarrow> intercalate sep (p # ps) = p @ sep @ intercalate sep ps"
  by (cases ps) auto

definition sep_free :: "string \<Rightarrow> string \<Rightarrow> bool" where
  "sep_free sep p \<longleftrightarrow> (\<forall>k. \<not> occurs p sep k)"

lemma occurs_split:
  assumes "t \<noteq> []"
  shows "occurs s t k \<longleftrightarrow> (\<exists>u v. s = u @ t @ v \<and> length u = k)"
proof
  assume o: "occurs s t k"
  then have "length (take (length t) (drop k s)) = length t" by (simp add: occurs_def)
  then have "k \<le> length s" using assms by (cases t) (auto simp: min_def split: if_splits)
  moreover have "drop k s = t @ drop (length t) (drop k s)"
    using o append_take_drop_id [of "length t" "drop k s"] by (simp only: occurs_def)
  ultimately show "\<exists>u v. s = u @ t @ v \<and> length u = k"
    by (intro exI [of _ "take k s"] exI [of _ "drop (length t) (drop k s)"])
      (simp only: append_take_drop_id length_take min.absorb2 simp_thms flip: append_assoc)
qed (auto simp: occurs_def)

lemma piece_free:
  assumes "t \<noteq> []" "i \<le> k" "k \<le> length s" "\<And>j. i \<le> j \<Longrightarrow> j < k \<Longrightarrow> \<not> occurs s t j"
  shows "sep_free t (take (k - i) (drop i s))"
  unfolding sep_free_def
proof (intro allI notI)
  fix j assume "occurs (take (k - i) (drop i s)) t j"
  then obtain u v where u: "take (k - i) (drop i s) = u @ t @ v" "length u = j"
    using occurs_split [OF assms(1)] by blast
  have "s = take i s @ take (k - i) (drop i s) @ drop (k - i) (drop i s)"
    by (simp only: append_take_drop_id)
  then have "s = (take i s @ u) @ t @ (v @ drop (k - i) (drop i s))" by (simp only: u append_assoc)
  moreover have "length (take i s @ u) = i + j" using assms u by simp
  ultimately have "occurs s t (i + j)" using occurs_split [OF assms(1)] by blast
  moreover have "i + j < k"
  proof -
    have "length (u @ t @ v) \<le> k - i" unfolding u(1) [symmetric] by simp
    then show ?thesis using u(2) assms(1,2) by (cases t) auto
  qed
  ultimately show False using assms(4) [of "i + j"] by simp
qed

lemma id_split_push:
  assumes "i \<le> k" "k \<le> length s" "int (length s) \<le> INT_MAX"
  shows "id_idstd_string_split_push acc s (int i) (int k) = Inr (acc @ [take (k - i) (drop i s)])"
proof -
  have n: "int k - int i = int (k - i)" using assms(1) by simp
  have "id_str_sub str_env s (int i) (int (k - i)) = Inr (take (k - i) (drop i s))"
    using id_str_sub_ok [OF str_env_roomy, of "int i" "int (k - i)" s] assms by (simp del: of_nat_diff)
  then show ?thesis unfolding id_idstd_string_split_push_def n by (simp add: lpush_def del: of_nat_diff)
qed

lemma split_loop_pieces:
  assumes "sep \<noteq> []" "int (length s) + int (length sep) \<le> INT_MAX" "i \<le> length s"
  shows "\<exists>ps. split_loop acc s sep (int i) (int (length s)) = Some (Inr (acc @ ps)) \<and> ps \<noteq> []
     \<and> intercalate sep ps = drop i s \<and> (\<forall>p \<in> set ps. sep_free sep p)"
  using assms(3)
proof (induction "length s - i" arbitrary: i acc rule: less_induct)
  case less
  have ls: "int (length s) \<le> INT_MAX" "int (length sep) \<le> INT_MAX" using assms(2) by auto
  note ff = find_from_first [OF assms(1) ls(2), of s i]
  show ?case
  proof (cases "\<exists>k. first_at s sep i k \<and> id_string_find_from s sep (int i) = int k")
    case True
    then obtain k where k: "first_at s sep i k" "id_string_find_from s sep (int i) = int k" by blast
    obtain u v where uv: "s = u @ sep @ v" "length u = k"
      using k(1) occurs_split [OF assms(1)] by (auto simp: first_at_def)
    let ?j = "k + length sep" and ?p = "take (k - i) (drop i s)"
    have ik: "i \<le> k" "k \<le> length s" "?j \<le> length s" using k(1) uv by (auto simp: first_at_def)
    have w: "wrap32 (int k + int (length sep)) = int ?j" using ik assms(2) by (simp add: wrap32_small)
    have one: "id_idstd_string_split_one acc s sep (int i) (int (length s)) = Inr (int ?j, acc @ [?p])"
      using id_split_push [OF ik(1,2) ls(1)] w ls(2)
      by (simp add: id_idstd_string_split_one_def id_idstd_string_split_bound_def id_idstd_string_split_cut_def
          k(2) Let_def id_len_small)
    have "length s - ?j < length s - i" using ik assms(1) by (cases sep) auto
    from less.hyps [OF this ik(3), of "acc @ [?p]"] obtain ps where
      ps: "split_loop (acc @ [?p]) s sep (int ?j) (int (length s)) = Some (Inr ((acc @ [?p]) @ ps))" "ps \<noteq> []"
        "intercalate sep ps = drop ?j s" "\<forall>p \<in> set ps. sep_free sep p" by blast
    have "split_loop acc s sep (int i) (int (length s)) = Some (Inr (acc @ (?p # ps)))"
      using one ps(1) less.prems by (subst split_loop.simps) simp
    moreover have "intercalate sep (?p # ps) = drop i s"
    proof -
      have "drop ?j s = v" "drop i s = ?p @ sep @ v" using uv ik by simp_all
      then show ?thesis using ps(2,3) by (simp add: intercalate_Cons)
    qed
    moreover have "sep_free sep ?p"
      using k(1) ik by (intro piece_free assms(1)) (auto simp: first_at_def)
    ultimately show ?thesis using ps(4) by (intro exI [of _ "?p # ps"]) simp
  next
    case False
    then have no: "\<forall>k \<ge> i. \<not> occurs s sep k" "id_string_find_from s sep (int i) = - 1" using ff by auto
    let ?p = "drop i s"
    have w: "wrap32 (int (length s) + int (length sep)) = int (length s) + int (length sep)"
      using assms(2) by (simp add: wrap32_small)
    have "id_idstd_string_split_one acc s sep (int i) (int (length s))
        = Inr (int (length s) + int (length sep), acc @ [?p])"
      using id_split_push [OF less.prems order_refl ls(1)] w ls(2)
      by (simp add: id_idstd_string_split_one_def id_idstd_string_split_bound_def id_idstd_string_split_cut_def
          no(2) Let_def id_len_small)
    moreover have "split_loop as s sep (int (length s) + int (length sep)) (int (length s)) = Some (Inr as)" for as
      using assms(1) by (subst split_loop.simps) simp
    ultimately have "split_loop acc s sep (int i) (int (length s)) = Some (Inr (acc @ [?p]))"
      using less.prems by (subst split_loop.simps) simp
    moreover have "sep_free sep ?p"
      using piece_free [OF assms(1) less.prems order_refl] no(1) by auto
    ultimately show ?thesis by (intro exI [of _ "[?p]"]) simp
  qed
qed

lemma split_pieces:
  assumes "sep \<noteq> []" "int (length s) + int (length sep) \<le> INT_MAX"
  shows "\<exists>ps. id_string_split s sep = Some (Inr ps) \<and> ps \<noteq> []
     \<and> intercalate sep ps = s \<and> (\<forall>p \<in> set ps. sep_free sep p)"
proof -
  have "id_len s = int (length s)" "id_len sep = int (length sep)" using assms(2) by (auto intro: id_len_small)
  then show ?thesis using split_loop_pieces [OF assms le0, of "[]"] assms(1)
    by (simp add: id_string_split_def id_idstd_string_split_loop_def)
qed

section \<open>Text written into the store\<close>

abbreviation wr :: "store \<Rightarrow> int \<Rightarrow> w8 list \<Rightarrow> store" where
  "wr st a bs \<equiv> st\<lparr>st_bytes := blit (nat a) bs (st_bytes st)\<rparr>"

abbreviation bytes_of :: "string \<Rightarrow> w8 list" where
  "bytes_of \<equiv> map byte_of_char"

lemma blit_blit:
  "i + length a + length b \<le> length d \<Longrightarrow> blit (i + length a) b (blit i a d) = blit i (a @ b) d"
  by (simp add: blit_def ac_simps)

lemma wr_wr:
  assumes "store_inv st" "0 < a" "a + int (length xs) + int (length ys) \<le> st_used st"
  shows "wr (wr st a xs) (a + int (length xs)) ys = wr st a (xs @ ys)"
proof (cases "xs @ ys = []")
  case False
  then have "nat a + length (xs @ ys) \<le> length (st_bytes st)"
    using span_inside [OF assms(1,2), of "length (xs @ ys)"] assms(3) by auto
  moreover have "nat (a + int (length xs)) = nat a + length xs" using assms(2) by simp
  ultimately show ?thesis using blit_blit [of "nat a" xs ys "st_bytes st"] by (simp only: store.simps) simp
qed simp

lemma wr_nil [simp]: "wr st a [] = st"
  by simp

lemma poke8_char:
  assumes "store_inv st" "0 < a" "a + 1 \<le> st_used st"
  shows "id_poke8 st a (word_of_int (int (of_char c))) = Inr (wr st a [byte_of_char c])"
proof -
  have "unat (word_of_int (int (of_char c)) :: w64) = of_char c"
    by (simp add: unsigned_of_nat take_bit_eq_mod)
      (intro mod_less, rule less_trans [OF nat_of_char_less_256], simp)
  then have "le_bytes 1 (unat (word_of_int (int (of_char c)) :: w64)) = [byte_of_char c]"
    using nat_of_char_less_256 [of c] by (simp add: byte_of_char_def)
  then show ?thesis using id_at_in [OF assms(1,2), of 1] assms(3)
    by (simp add: id_poke8_def id_poke_n_def)
qed

lemma wr_facts:
  assumes "store_inv st" "0 < a" "a + int (length bs) \<le> st_used st"
  shows "store_inv (wr st a bs)" "st_used (wr st a bs) = st_used st"
  using write_inv [OF assms] by simp_all

lemma copy_chars_ok:
  assumes "store_inv st" "0 < addr" "i + m \<le> length s" "addr + int m \<le> st_used st" "j \<le> m"
  shows "copy_chars s (int i) (int j) (int m) addr st
     = Inr (wr st (addr + int j) (bytes_of (take (m - j) (drop (i + j) s))))"
  using assms
proof (induction "m - j" arbitrary: j st)
  case 0
  then show ?case by (subst copy_chars.simps) simp
next
  case (Suc d)
  then have j: "j < m" "i + j < length s" by auto
  let ?c = "s ! (i + j)" and ?st = "wr st (addr + int j) [byte_of_char (s ! (i + j))]"
  have c: "code_at s (int i + int j) = int (of_char ?c)"
    using code_at_in [of "int (i + j)" s] j by (simp add: nat_add_distrib [symmetric] flip: of_nat_add)
  have p: "id_poke8 st (addr + int j) (word_of_int (int (of_char ?c))) = Inr ?st"
    using Suc.prems j by (intro poke8_char) auto
  have f: "store_inv ?st" "st_used ?st = st_used st"
    using wr_facts [of st "addr + int j" "[byte_of_char ?c]"] Suc.prems j by auto
  have ih: "copy_chars s (int i) (int (Suc j)) (int m) addr ?st
      = Inr (wr ?st (addr + int (Suc j)) (bytes_of (take (m - Suc j) (drop (i + Suc j) s))))"
    using f Suc.prems Suc.hyps(2) j by (intro Suc.hyps(1)) auto
  have "wr ?st (addr + int j + 1) (bytes_of (take (m - Suc j) (drop (i + Suc j) s)))
      = wr st (addr + int j) (byte_of_char ?c # bytes_of (take (m - Suc j) (drop (i + Suc j) s)))"
    using wr_wr [of st "addr + int j" "[byte_of_char ?c]" "bytes_of (take (m - Suc j) (drop (i + Suc j) s))"]
      Suc.prems j by simp
  moreover have "take (m - j) (drop (i + j) s) = ?c # take (m - Suc j) (drop (i + Suc j) s)"
    using j by (simp add: Cons_nth_drop_Suc [symmetric, OF j(2)] Suc_diff_Suc [symmetric, OF j(1)])
  moreover have "copy_chars s (int i) (int j) (int m) addr st
      = copy_chars s (int i) (int (Suc j)) (int m) addr ?st"
    using j c p by (subst copy_chars.simps) (simp add: add.commute)
  ultimately show ?case using ih by (simp add: algebra_simps)
qed

lemma copy_to_memory_ok:
  assumes "store_inv st" "0 < a" "a + int (length s) \<le> st_used st" "int (length s) \<le> INT_MAX"
  shows "id_string_copy_to_memory s 0 (id_len s) a st = Inr (wr st a (bytes_of s))"
proof -
  have w: "wrap32 (int (length s)) = int (length s)" "s \<noteq> [] \<Longrightarrow> wrap32 (int (length s) - 1) = int (length s) - 1"
    using assms(4) by (auto intro!: wrap32_small simp: Suc_le_eq)
  have "id_idstd_string_checked_length s 0 (int (length s)) = Inr (int (length s))"
    using w by (cases "s = []") (auto simp: id_idstd_string_checked_length_def Let_def code_at_nonneg Suc_le_eq)
  then show ?thesis using copy_chars_ok [of st a 0 "length s" s 0] assms
    by (simp add: id_string_copy_to_memory_def id_len_small)
qed

lemma join_put_ok:
  assumes "store_inv st" "0 < a" "0 \<le> p" "a + p + int (length s) \<le> st_used st" "p + int (length s) \<le> INT_MAX"
  shows "id_idstd_string_join_put s a p st = Inr (p + int (length s), wr st (a + p) (bytes_of s))"
  using assms copy_to_memory_ok [of st "a + p" s]
  by (simp add: id_idstd_string_join_put_def id_len_small wrap32_small)

lemma join_loop_ok:
  assumes "store_inv st" "0 < a" "k \<le> length strs" "0 \<le> p"
    "a + p + int (length (intercalate sep (drop k strs))) \<le> st_used st"
    "p + int (length (intercalate sep (drop k strs))) \<le> INT_MAX"
  shows "join_loop [int k, p] strs sep a st
     = Some (Inr (wr st (a + p) (bytes_of (intercalate sep (drop k strs)))))"
  using assms
proof (induction "length strs - k" arbitrary: k p st)
  case 0
  then show ?case by (subst join_loop.simps) (simp add: lget_def llen_def)
next
  case (Suc d)
  let ?s = "strs ! k" and ?t = "if int k < llen strs - 1 then sep else []"
  have k: "k < length strs" using Suc.hyps(2) by simp
  have e: "intercalate sep (drop k strs) = ?s @ ?t @ intercalate sep (drop (Suc k) strs)"
    using k by (cases "drop (Suc k) strs") (auto simp: Cons_nth_drop_Suc [symmetric] llen_def)
  let ?p1 = "p + int (length ?s)" and ?st1 = "wr st (a + p) (bytes_of ?s)"
  let ?p2 = "?p1 + int (length ?t)" and ?st2 = "wr (wr st (a + p) (bytes_of ?s)) (a + ?p1) (bytes_of ?t)"
  note pr = Suc.prems [unfolded e]
  have put1: "id_idstd_string_join_put ?s a p st = Inr (?p1, ?st1)"
    using pr by (intro join_put_ok) auto
  have f1: "store_inv ?st1" "st_used ?st1 = st_used st"
    using wr_facts [of st "a + p" "bytes_of ?s"] pr by auto
  have put2: "id_idstd_string_join_separator_write sep a ?p1 (int k < llen strs - 1) ?st1 = Inr (?p2, ?st2)"
    using join_put_ok [OF f1(1), of a ?p1 sep] pr f1(2) by (auto simp: id_idstd_string_join_separator_write_def)
  have f2: "store_inv ?st2" "st_used ?st2 = st_used st"
    using wr_facts [OF f1(1), of "a + ?p1" "bytes_of ?t"] pr f1(2) by auto
  have one: "id_idstd_string_join_one [int k, p] strs sep a st = Inr ([int (Suc k), ?p2], ?st2)"
    using k put1 put2
    by (simp add: id_idstd_string_join_one_def id_idstd_string_join_one_advance_def lget_def lset_def add.commute)
  have ih: "join_loop [int (Suc k), ?p2] strs sep a ?st2
      = Some (Inr (wr ?st2 (a + ?p2) (bytes_of (intercalate sep (drop (Suc k) strs)))))"
    using f2 pr k Suc.hyps(2) by (intro Suc.hyps(1)) auto
  have w1: "?st2 = wr st (a + p) (bytes_of (?s @ ?t))"
    using wr_wr [of st "a + p" "bytes_of ?s" "bytes_of ?t"] pr by (simp add: add.assoc)
  have w2: "wr ?st2 (a + ?p2) (bytes_of (intercalate sep (drop (Suc k) strs)))
      = wr st (a + p) (bytes_of ((?s @ ?t) @ intercalate sep (drop (Suc k) strs)))"
    unfolding w1
    using wr_wr [of st "a + p" "bytes_of (?s @ ?t)" "bytes_of (intercalate sep (drop (Suc k) strs))"] pr
    by (simp add: add.assoc)
  have "join_loop [int k, p] strs sep a st = join_loop [int (Suc k), ?p2] strs sep a ?st2"
    using k one by (subst join_loop.simps) (simp add: lget_def llen_def)
  then show ?case unfolding ih w2 e by simp
qed

lemma join_length_from:
  assumes "i \<le> length strs" "0 \<le> n" "n + int (length (concat (drop i strs))) \<le> INT_MAX"
  shows "join_length_loop (\<lambda>i. Inr (strs ! nat i)) (llen strs) (int i) n
     = Inr (n + int (length (concat (drop i strs))))"
  using assms
proof (induction "length strs - i" arbitrary: i n)
  case 0
  then show ?case by (subst join_length_loop.simps) (simp add: llen_def)
next
  case (Suc d)
  then have i: "i < length strs" by simp
  then have e: "concat (drop i strs) = strs ! i @ concat (drop (Suc i) strs)"
    by (simp add: Cons_nth_drop_Suc [symmetric])
  let ?n = "n + int (length (strs ! i))"
  have b: "int (length (strs ! i)) \<le> INT_MAX" "?n \<le> INT_MAX" "0 \<le> ?n"
    using Suc.prems by (auto simp: e)
  have "join_length_loop (\<lambda>i. Inr (strs ! nat i)) (llen strs) (int (Suc i)) ?n
      = Inr (?n + int (length (concat (drop (Suc i) strs))))"
    using Suc.prems Suc.hyps(2) i b by (intro Suc.hyps(1)) (auto simp: e)
  moreover have "join_length_loop (\<lambda>i. Inr (strs ! nat i)) (llen strs) (int i) n
      = join_length_loop (\<lambda>i. Inr (strs ! nat i)) (llen strs) (int (Suc i)) ?n"
    using i b by (subst join_length_loop.simps) (simp add: llen_def id_len_small wrap32_small add.commute)
  ultimately show ?case by (simp add: e)
qed

lemma length_intercalate:
  "length (intercalate sep strs) = (length strs - 1) * length sep + length (concat strs)"
  by (induction sep strs rule: intercalate.induct) auto

lemma join_length_ok:
  assumes "int (length (intercalate sep strs)) \<le> INT_MAX" "int (length sep) \<le> INT_MAX"
  shows "id_idstd_string_join_length strs sep = Inr (int (length (intercalate sep strs)))"
proof -
  let ?k = "(length strs - 1) * length sep"
  have "int ?k \<le> int (length (intercalate sep strs))" by (simp only: length_intercalate of_nat_le_iff)
  then have k: "int ?k \<le> INT_MAX" using assms(1) by linarith
  have "id_fixed_point_maximum (llen strs - 1) 0 = int (length strs - 1)"
    by (cases strs) (auto simp: id_fixed_point_maximum_def llen_def)
  then have "id_idstd_string_join_separator_length strs sep = wrap32 (int ?k)"
    using assms(2) by (simp add: id_idstd_string_join_separator_length_def id_len_small del: of_nat_diff)
  also have "\<dots> = int ?k" by (rule wrap32_small) (use k in simp_all)
  finally have s: "id_idstd_string_join_separator_length strs sep = int ?k" .
  have "int ?k + int (length (concat (drop 0 strs))) \<le> INT_MAX"
    using assms(1) by (simp only: length_intercalate drop0 of_nat_add)
  from join_length_from [OF le0 of_nat_0_le_iff this]
  show ?thesis by (simp add: id_idstd_string_join_length_def s Let_def length_intercalate)
qed

text \<open>The text of a block just written is what \<open>id_str_of_mem\<close> reads.\<close>

lemma str_of_written:
  assumes "store_inv st" "id_mem_alloc str_env st (int (length t) + 1) = Inr (a, st1)"
    "int (length t) < INT_MAX" "CHR 0x00 \<notin> set t"
  shows "id_str_of_mem str_env (wr st1 a (bytes_of t)) a (int (length t)) = Inr t"
    "store_inv (wr st1 a (bytes_of t))"
proof -
  have w: "store_inv (wr st1 a (bytes_of t)) \<and> 0 < a \<and> st_used st \<le> a
      \<and> st_used (wr st1 a (bytes_of t)) = a + (int (length t) + 1)
      \<and> id_at (wr st1 a (bytes_of t)) a (int (length (bytes_of t))) = Inr (nat a)
      \<and> take (length (bytes_of t)) (drop (nat a) (st_bytes (wr st1 a (bytes_of t)))) = bytes_of t"
    using assms(3) by (intro alloc_write [OF assms(1) _ _ assms(2) refl]) auto
  have z: "0 \<notin> set (bytes_of t)" using assms(4) by (auto simp: image_iff) (metis byte_of_char_0)
  have r: "map char_of_byte (bytes_of t) = t" by (simp add: map_idI)
  have f: "id_str_from str_env t = Inr t"
    using assms(3) by (intro id_str_from_total str_env_roomy) (auto simp: c_limits)
  show "id_str_of_mem str_env (wr st1 a (bytes_of t)) a (int (length t)) = Inr t"
    using w z r f by (simp add: id_str_of_mem_def Let_def del: map_map)
  show "store_inv (wr st1 a (bytes_of t))" using w by blast
qed

lemma alloc_text:
  assumes "store_inv st" "int (length t) < INT_MAX" "st_used st + 8 + int (length t) \<le> 2 ^ 44"
  shows "\<exists>a st1. id_mem_alloc str_env st (int (length t) + 1) = Inr (a, st1) \<and> store_inv st1 \<and> 0 < a
     \<and> st_used st1 = a + (int (length t) + 1)"
proof -
  obtain a st1 where m: "id_mem_alloc str_env st (int (length t) + 1) = Inr (a, st1)"
    using id_mem_alloc_total [OF assms(1) str_env_roomy, of "int (length t) + 1"] assms(3) by auto
  have "int (length t) + 1 < 9223372036854775807 - 2 ^ 45 - 7" using assms(2) by (simp add: INT_MAX_def)
  from mem_alloc_facts [OF assms(1) this m] m show ?thesis by blast
qed

lemma join_writes:
  assumes "store_inv st" "int (length sep) \<le> INT_MAX" "int (length (intercalate sep strs)) < INT_MAX"
    "st_used st + 8 + int (length (intercalate sep strs)) \<le> 2 ^ 44" "CHR 0x00 \<notin> set (intercalate sep strs)"
  shows "\<exists>st'. id_string_join strs sep st = Some (Inr (intercalate sep strs, st')) \<and> store_inv st'"
proof -
  let ?t = "intercalate sep strs"
  obtain a st1 where m: "id_mem_alloc str_env st (int (length ?t) + 1) = Inr (a, st1)"
    and f: "store_inv st1" "0 < a" "st_used st1 = a + (int (length ?t) + 1)"
    using alloc_text [OF assms(1,3,4)] by blast
  have j: "join_loop [int 0, 0] strs sep a st1 = Some (Inr (wr st1 (a + 0) (bytes_of (intercalate sep (drop 0 strs)))))"
    using f assms(3) by (intro join_loop_ok) auto
  have l: "id_idstd_string_join_length strs sep = Inr (int (length ?t))"
    using assms(2,3) by (intro join_length_ok) auto
  have w: "wrap32 (int (length ?t) + 1) = int (length ?t) + 1" using assms(3) by (intro wrap32_small) auto
  note s = str_of_written [OF assms(1) m assms(3,5)]
  have "id_string_join strs sep st = Some (Inr (?t, wr st1 a (bytes_of ?t)))"
    using j s(1) by (simp add: id_string_join_def l w m id_idstd_string_join_copy_def)
  then show ?thesis using s(2) by blast
qed

section \<open>Lower case\<close>

definition lower_char :: "char \<Rightarrow> char" where
  "lower_char c = char_of (nat (id_character_lower (int (of_char c))))"

lemma lower_char_code: "id_character_lower (int (of_char c)) = int (of_char (lower_char c))"
proof -
  let ?l = "id_character_lower (int (of_char c))"
  have b: "0 \<le> ?l" "?l < 256"
    using nat_of_char_less_256 [of c] by (auto simp: id_character_lower_def char_class_defs)
  have "(of_char (lower_char c) :: nat) = nat ?l mod 256"
    unfolding lower_char_def by (rule of_char_mod_256 [symmetric, THEN trans, rotated]) (simp add: of_char_of)
  moreover have "nat ?l mod 256 = nat ?l" using b by simp
  ultimately show ?thesis using b by simp
qed

lemma lower_copy_ok:
  assumes "store_inv st" "0 < a" "i \<le> length s" "a + int (length s) \<le> st_used st"
  shows "id_idstd_string_lower_copy s a (int i) st
     = Inr (wr st (a + int i) (bytes_of (map lower_char (drop i s))))"
  using assms
proof (induction "length s - i" arbitrary: i st)
  case 0
  then show ?case by (subst id_idstd_string_lower_copy.simps) (simp add: code_at_out)
next
  case (Suc d)
  then have i: "i < length s" by simp
  let ?c = "lower_char (s ! i)" and ?r = "bytes_of (map lower_char (drop (Suc i) s))"
  let ?st = "wr st (a + int i) [byte_of_char (lower_char (s ! i))]"
  have st: "id_idstd_string_lower_step s a (int i) st = Inr ?st"
    using poke8_char [of st "a + int i" ?c] Suc.prems i
    by (simp add: id_idstd_string_lower_step_def code_at_in lower_char_code)
  have f: "store_inv ?st" "st_used ?st = st_used st"
    using wr_facts [of st "a + int i" "[byte_of_char ?c]"] Suc.prems i by auto
  have ih: "id_idstd_string_lower_copy s a (int (Suc i)) ?st = Inr (wr ?st (a + int (Suc i)) ?r)"
    using f Suc.prems Suc.hyps(2) i by (intro Suc.hyps(1)) auto
  have "wr ?st (a + int i + 1) ?r = wr st (a + int i) (byte_of_char ?c # ?r)"
    using wr_wr [of st "a + int i" "[byte_of_char ?c]" ?r] Suc.prems i by simp
  moreover have "id_idstd_string_lower_copy s a (int i) st = id_idstd_string_lower_copy s a (int (Suc i)) ?st"
    using st i by (subst id_idstd_string_lower_copy.simps) (simp add: code_at_nonneg add.commute)
  ultimately show ?case using ih i by (simp add: algebra_simps Cons_nth_drop_Suc [symmetric])
qed

lemma lower_writes:
  assumes "store_inv st" "int (length s) < INT_MAX" "st_used st + 8 + int (length s) \<le> 2 ^ 44"
    "CHR 0x00 \<notin> set s"
  shows "\<exists>st'. id_string_lower s st = Inr (map lower_char s, st') \<and> store_inv st'"
proof -
  let ?t = "map lower_char s"
  have z: "CHR 0x00 \<notin> set ?t"
  proof
    assume "CHR 0x00 \<in> set ?t"
    then obtain c where c: "c \<in> set s" "lower_char c = CHR 0x00" by auto
    then have "id_character_lower (int (of_char c)) = 0" by (simp add: lower_char_code)
    then have "(of_char c :: nat) = 0" by (auto simp: id_character_lower_def char_class_defs split: if_splits)
    then have "c = CHR 0x00" using byte_of_char_0 [of c] by (simp add: byte_of_char_def)
    then show False using c assms(4) by simp
  qed
  obtain a st1 where m: "id_mem_alloc str_env st (int (length ?t) + 1) = Inr (a, st1)"
    and f: "store_inv st1" "0 < a" "st_used st1 = a + (int (length ?t) + 1)"
    using alloc_text [OF assms(1), of ?t] assms(2,3) by auto
  note s = str_of_written [OF assms(1) m _ z]
  have l: "id_len s = int (length s)" "wrap32 (int (length s) + 1) = int (length s) + 1"
    using assms(2) by (auto intro!: id_len_small wrap32_small)
  have "id_idstd_string_lower_copy s a (int 0) st1 = Inr (wr st1 (a + int 0) (bytes_of (map lower_char (drop 0 s))))"
    using f by (intro lower_copy_ok) auto
  then have "id_string_lower s st = Inr (?t, wr st1 a (bytes_of ?t))"
    using m s(1) l assms(2) by (simp add: id_string_lower_def id_idstd_string_lower_alloc_def Let_def del: map_map)
  then show ?thesis using s(2) assms(2) by auto
qed

section \<open>Repeat\<close>

lemma concat_replicate_double: "concat (replicate k (s @ s)) = concat (replicate (2 * k) s)"
  by (induction k) auto

lemma repeat_loop_ok:
  assumes "0 \<le> n" "n \<le> INT_MAX" "length ret + 2 * nat n * length s + 9 \<le> SIZE_MAX"
  shows "repeat_loop ret s n = Some (Inr (ret @ concat (replicate (nat n) s)))"
  using assms
proof (induction "nat n" arbitrary: n ret s rule: less_induct)
  case less
  show ?case
  proof (cases "n = 0")
    case True
    then show ?thesis by (subst repeat_loop.simps) simp
  next
    case False
    then have n: "0 < n" using less.prems by simp
    let ?q = "nat n div 2" and ?r = "nat n mod 2"
    have q: "nat (n div 2) = ?q" "n mod 2 = int ?r" using n by (simp_all add: nat_div_distrib zmod_int)
    have nq: "nat n = 2 * ?q + ?r" by simp
    have lg: "2 * nat n * length s = 2 * ?q * (2 * length s) + 2 * ?r * length s"
    proof -
      have "2 * m * l = 2 * q * (2 * l) + 2 * r * l" if "m = 2 * q + r" for m q r l :: nat
        using that by (simp add: algebra_simps)
      from this [OF nq] show ?thesis .
    qed
    have ls: "1 * (2 * length s) \<le> nat n * (2 * length s)" using n by (intro mult_le_mono1) simp
    have "2 * nat n * length s = nat n * (2 * length s)" by simp
    then have sz: "length ret + 2 * length s + 9 \<le> SIZE_MAX" using ls less.prems(3) by linarith
    then have dbl: "id_concat str_env s s = Inr (s @ s)" by (intro id_concat_ok) auto
    define ret' where "ret' = (if ?r = 1 then ret @ s else ret)"
    have app: "(if int ?r = 1 then id_concat str_env ret s else Inr ret) = Inr ret'"
      using sz id_concat_ok [OF str_env_roomy, of ret s] by (auto simp: ret'_def)
    have lr: "length ret' \<le> length ret + ?r * length s" by (auto simp: ret'_def)
    have dm: "c_imod n 2 = Inr (int ?r)" "c_idiv n 2 = Inr (n div 2)"
      using c_imod_nat [of n 2] c_idiv_nat [of n 2] less.prems q by (simp_all add: INT_MAX_def)
    have ih: "repeat_loop ret' (s @ s) (n div 2) = Some (Inr (ret' @ concat (replicate (nat (n div 2)) (s @ s))))"
    proof (rule less.hyps)
      show "nat (n div 2) < nat n" using n by simp
      show "0 \<le> n div 2" "n div 2 \<le> INT_MAX" using n less.prems(2) by auto
      show "length ret' + 2 * nat (n div 2) * length (s @ s) + 9 \<le> SIZE_MAX"
      proof -
        have "2 * ?r * length s = ?r * length s + ?r * length s" by simp
        then have "length ret' + 2 * ?q * (2 * length s) + 9 \<le> SIZE_MAX"
          using less.prems(3) [unfolded lg] lr by linarith
        then show ?thesis by (simp only: q length_append mult_2)
      qed
    qed
    have "ret' @ concat (replicate ?q (s @ s)) = ret @ concat (replicate (nat n) s)"
    proof -
      have "concat (replicate (nat n) s) = concat (replicate (?r + 2 * ?q) s)" by simp
      also have "\<dots> = concat (replicate ?r s) @ concat (replicate (2 * ?q) s)"
        by (simp only: replicate_add concat_append)
      finally have "concat (replicate (nat n) s) = concat (replicate ?r s) @ concat (replicate (2 * ?q) s)" .
      moreover have "ret' = ret @ concat (replicate ?r s)" by (cases "nat n mod 2") (auto simp: ret'_def)
      ultimately show ?thesis by (simp add: concat_replicate_double)
    qed
    then show ?thesis using n dm app dbl ih q by (subst repeat_loop.simps) simp
  qed
qed

section \<open>Properties\<close>

theorem id_string_find_from_first:
  assumes "t \<noteq> []" "int (length t) \<le> INT_MAX"
  shows "(id_string_find_from s t (int i) = int k \<longleftrightarrow> first_at s t i k)
     \<and> (id_string_find_from s t (int i) = - 1 \<longleftrightarrow> (\<forall>k \<ge> i. \<not> occurs s t k))"
proof -
  have u: "k = l" if "first_at s t i k" "first_at s t i l" for k l
    using that unfolding first_at_def by (metis linorder_neqE_nat)
  show ?thesis using find_from_first [OF assms, of s i] u by (auto simp: first_at_def)
qed

theorem id_string_find_from_first_witness:
  "id_string_find_from ''list_get(list)'' ''list'' 1 = 9 \<and> id_string_find_from ''lis'' ''list'' 0 = - 1"
proof -
  have a: "first_at ''list_get(list)'' ''list'' 1 9"
    by (auto simp: first_at_def occurs_def less_Suc_eq numeral_eq_Suc)
  have b: "\<not> occurs ''lis'' ''list'' k" for k
    by (simp add: occurs_split)
  show ?thesis
    using id_string_find_from_first [of "''list''" "''list_get(list)''" 1 9]
      id_string_find_from_first [of "''list''" "''lis''" 0] a b by (simp add: INT_MAX_def)
qed

theorem id_string_compare_lexicographic:
  "id_string_compare s t \<in> {- 1, 0, 1}
   \<and> (id_string_compare s t = 0 \<longleftrightarrow> s = t)
   \<and> (id_string_compare s t = - 1 \<longleftrightarrow> (s, t) \<in> lexord code_less)
   \<and> id_string_compare t s = - id_string_compare s t"
  unfolding compare_lex by (intro conjI lex_sign_lexord)

theorem id_string_trim_ends:
  assumes "int (length s) \<le> INT_MAX"
  shows "id_string_trim s = Inr (rev (dropWhile space (rev (dropWhile space s))))"
  by (rule trim_ok [OF assms])

theorem id_string_trim_ends_witness: "id_string_trim ''  a b '' = Inr ''a b''"
  using id_string_trim_ends [of "''  a b ''"] by (simp add: INT_MAX_def id_character_is_space_def)

text \<open>
  C32: Splitting a string at a separator gives parts that do not contain it, and joining
  them with it through the store gives the string back.
\<close>

theorem id_string_split_join:
  assumes "store_inv st" "sep \<noteq> []" "int (length s) + int (length sep) \<le> INT_MAX"
    "st_used st + 8 + int (length s) \<le> 2 ^ 44" "CHR 0x00 \<notin> set s"
  shows "\<exists>ps st'. id_string_split s sep = Some (Inr ps) \<and> id_string_join ps sep st = Some (Inr (s, st'))
     \<and> store_inv st' \<and> ps \<noteq> [] \<and> (\<forall>p \<in> set ps. sep_free sep p)"
proof -
  obtain ps where ps: "id_string_split s sep = Some (Inr ps)" "ps \<noteq> []" "intercalate sep ps = s"
    "\<forall>p \<in> set ps. sep_free sep p" using split_pieces [OF assms(2,3)] by blast
  have "0 < length sep" using assms(2) by simp
  then have "int (length sep) \<le> INT_MAX" "int (length s) < INT_MAX" using assms(3) by linarith+
  then show ?thesis using join_writes [OF assms(1), of sep ps] ps assms(4,5) by auto
qed

theorem id_string_split_join_witness:
  "\<exists>ps st'. id_string_split ''a,,b'' '','' = Some (Inr ps) \<and> id_string_join ps '','' small_store = Some (Inr (''a,,b'', st'))"
  using id_string_split_join [OF small_store_inv(1), of "'',''" "''a,,b''"]
  by (auto simp: small_store_inv INT_MAX_def)

lemma set_intercalate:
  "set (intercalate sep ps) \<subseteq> set sep \<union> \<Union> (set ` set ps)" "p \<in> set ps \<Longrightarrow> set p \<subseteq> set (intercalate sep ps)"
  by (induction sep ps rule: intercalate.induct) auto

theorem id_string_replace_all:
  assumes "store_inv st" "fr \<noteq> []" "int (length s) + int (length fr) \<le> INT_MAX"
    "int (length to) \<le> INT_MAX" "CHR 0x00 \<notin> set s" "CHR 0x00 \<notin> set to"
    "st_used st + 8 + (int (length s) + 1) * (int (length to) + 1) \<le> 2 ^ 30"
  shows "\<exists>ps st'. intercalate fr ps = s \<and> (\<forall>p \<in> set ps. sep_free fr p)
     \<and> id_string_replace s fr to st = Some (Inr (intercalate to ps, st')) \<and> store_inv st'"
proof -
  obtain ps where ps: "id_string_split s fr = Some (Inr ps)" "ps \<noteq> []" "intercalate fr ps = s"
    "\<forall>p \<in> set ps. sep_free fr p" using split_pieces [OF assms(2,3)] by blast
  have l: "length s = (length ps - 1) * length fr + length (concat ps)"
    using length_intercalate [of fr ps] ps(3) by simp
  have "(length ps - 1) * 1 \<le> (length ps - 1) * length fr"
    using assms(2) by (intro mult_le_mono2) (simp add: Suc_le_eq)
  then have "length ps - 1 \<le> length s" "length (concat ps) \<le> length s" using l by linarith+
  then have b: "length (intercalate to ps) \<le> length s * length to + length s"
    using mult_le_mono1 [of "length ps - 1" "length s" "length to"] unfolding length_intercalate by linarith
  have "int (length (intercalate to ps)) \<le> int (length s) * int (length to) + int (length s)"
    using of_nat_mono [OF b, where 'a = int] by simp
  also have "\<dots> \<le> (int (length s) + 1) * (int (length to) + 1)" by (simp add: algebra_simps)
  finally have b': "int (length (intercalate to ps)) \<le> (int (length s) + 1) * (int (length to) + 1)" .
  have z: "CHR 0x00 \<notin> set (intercalate to ps)"
    using set_intercalate(1) [of to ps] set_intercalate(2) [of _ ps fr] assms(5,6) ps(3) by blast
  have "1 \<le> st_used st" using store_invD(1) [OF assms(1)] .
  then show ?thesis
    using join_writes [OF assms(1,4), of ps] z b' assms(7) ps by (fastforce simp: id_string_replace_def INT_MAX_def)
qed

theorem id_string_replace_all_witness:
  "\<exists>ps st'. intercalate ''ab'' ps = ''xabyab''
     \<and> id_string_replace ''xabyab'' ''ab'' ''c'' small_store = Some (Inr (intercalate ''c'' ps, st'))"
  using id_string_replace_all [OF small_store_inv(1), of "''ab''" "''xabyab''" "''c''"]
  by (auto simp: small_store_inv INT_MAX_def)

theorem id_string_repeat_copies:
  assumes "n \<le> INT_MAX" "2 * nat n * length s + 9 \<le> SIZE_MAX"
  shows "id_string_repeat s n = Some (Inr (concat (replicate (nat n) s)))"
proof -
  have d: "id_str_dup str_env '''' = Inr ''''"
    using id_str_from_total [OF str_env_roomy, of "''''"] by (simp add: id_str_dup_def c_limits)
  show ?thesis
  proof (cases "0 \<le> n")
    case True
    then show ?thesis using repeat_loop_ok [of n "''''" s] assms d by (simp add: id_string_repeat_def)
  next
    case False
    then show ?thesis using d by (simp add: id_string_repeat_def) (subst repeat_loop.simps, simp)
  qed
qed

theorem id_string_repeat_copies_witness: "id_string_repeat ''ab'' 3 = Some (Inr ''ababab'')"
  using id_string_repeat_copies [of 3 "''ab''"] by (simp add: c_limits numeral_3_eq_3)

end
