(* ===== verification/Literals.thy ===== *)
theory Literals
  imports StrLib
begin

text \<open>
  The checks the parser makes on the text of a literal: whether a decimal integer fits an
  int or a word, whether a float overflows to infinity (its exact decimal value is compared
  with the 309 digits of the rounding limit), and the escapes of a string literal. A text is
  the token's text as the lexer printed it.
\<close>

section \<open>Slices\<close>

definition id_slice :: "string \<Rightarrow> int \<Rightarrow> int \<Rightarrow> string res" where
  "id_slice src a b = (if a < b then id_str_sub str_env src a (b - a) else Inr '''')"

section \<open>Integers\<close>

function zeros_loop :: "string \<Rightarrow> int \<Rightarrow> int" where
  "zeros_loop s i = (if i + 1 < id_len s \<and> code_at s i = 48 then zeros_loop s (i + 1) else i)"
  by pat_completeness auto
termination by (relation "measure (\<lambda>(s, i). nat (id_len s - i))") auto

definition id_zeros_tail :: "string \<Rightarrow> int \<Rightarrow> string res" where
  "id_zeros_tail s i = id_slice s i (id_len s)"

definition id_strip_zeros :: "string \<Rightarrow> string res" where
  "id_strip_zeros s = id_zeros_tail s (zeros_loop s 0)"

definition id_dec_step :: "w64 \<Rightarrow> int \<Rightarrow> w64" where
  "id_dec_step dv c = dv * 10 + word_of_int c - 48"

function dec_loop :: "(int \<Rightarrow> int) \<Rightarrow> int \<Rightarrow> int \<Rightarrow> w64 \<Rightarrow> w64" where
  "dec_loop rd n i dv = (if i < n then dec_loop rd n (i + 1) (id_dec_step dv (rd i)) else dv)"
  by pat_completeness auto
termination by (relation "measure (\<lambda>(rd, n, i, dv). nat (n - i))") auto

definition id_dec_val :: "string \<Rightarrow> w64" where
  "id_dec_val s =
     (let i = 0
      in if int (id_slen s) \<le> int (id_slen s) - 0 \<and> i \<ge> 0
         then dec_loop (\<lambda>i. int (of_char (s ! nat i))) (id_len s) i 0
         else dec_loop (code_at s) (id_len s) i 0)"

definition id_over_max :: "string \<Rightarrow> bool" where
  "id_over_max s \<longleftrightarrow> 2147483647 <s id_dec_val s"

definition id_wide_dec :: "string \<Rightarrow> bool" where
  "id_wide_dec s = (if id_len s < 11 then id_over_max s else True)"

definition id_is_bigdec :: "string \<Rightarrow> bool res" where
  "id_is_bigdec s = andThen (id_strip_zeros s) (\<lambda>z. Inr (id_wide_dec z))"

function id_first_difference :: "string \<Rightarrow> string \<Rightarrow> int \<Rightarrow> int" where
  "id_first_difference digits limit diff_at =
     (if diff_at < id_len digits \<and> code_at digits diff_at = code_at limit diff_at
      then id_first_difference digits limit (diff_at + 1) else diff_at)"
  by pat_completeness auto
termination by (relation "measure (\<lambda>(digits, limit, i). nat (id_len digits - i))") auto

definition id_digits_exceed :: "string \<Rightarrow> string \<Rightarrow> bool" where
  "id_digits_exceed digits limit \<longleftrightarrow>
     (let diff_at = id_first_difference digits limit 0
      in diff_at < id_len digits \<and> code_at digits diff_at > code_at limit diff_at)"

definition id_exceeds_word :: "string \<Rightarrow> bool res" where
  "id_exceeds_word text =
     andThen (id_strip_zeros text) (\<lambda>significant.
       Inr (if id_len significant = 20 then id_digits_exceed significant ''18446744073709551615''
            else id_len significant > 20 \<or> code_at text 1 > 57))"

declare zeros_loop.simps [simp del] dec_loop.simps [simp del] id_first_difference.simps [simp del]

section \<open>Floats\<close>

definition flt_inf_pt :: int where
  "flt_inf_pt = 309"

definition flt_inf_digits :: string where
  "flt_inf_digits =
     ''17976931348623158079372897140530341507993413271003782693617377898044496829276475''
   @ ''09466490179775872070963302864166928879109465555478519404026306574886715058206819''
   @ ''08902000708383676273854845817711531764475730270069855571366959622842914819860834''
   @ ''936475292719074168444365510704342711559699508093042880177904174497792''"

function e_loop :: "string \<Rightarrow> int \<Rightarrow> int" where
  "e_loop text k =
     (if k < id_len text \<and> code_at text k \<noteq> 101 \<and> code_at text k \<noteq> 69 then e_loop text (k + 1) else k)"
  by pat_completeness auto
termination by (relation "measure (\<lambda>(text, k). nat (id_len text - k))") auto

definition id_flt_e_at :: "string \<Rightarrow> int" where
  "id_flt_e_at text = e_loop text 0"

definition id_flt_exp_has :: "string \<Rightarrow> int \<Rightarrow> bool" where
  "id_flt_exp_has text j \<longleftrightarrow>
     (let c = code_at text j; d = code_at text (j + of_bool (c = 43 \<or> c = 45)) in d \<ge> 48 \<and> d \<le> 57)"

definition id_flt_exp_ok :: "string \<Rightarrow> bool" where
  "id_flt_exp_ok text \<longleftrightarrow>
     (let k = id_flt_e_at text in if k < id_len text then id_flt_exp_has text (k + 1) else True)"

definition id_flt_clamp :: "string \<Rightarrow> int" where
  "id_flt_clamp z = (if id_len z \<le> 6 then id_to_int z else 1000000)"

definition id_flt_exp_of :: "string \<Rightarrow> int res" where
  "id_flt_exp_of es =
     (let sg = code_at es 0; a = of_bool (sg = 43 \<or> sg = 45)
      in andThen (id_slice es a (id_len es)) (\<lambda>ds.
         andThen (id_strip_zeros ds) (\<lambda>z.
           let v = id_flt_clamp z in Inr (if sg = 45 then 0 - v else v))))"

definition id_flt_lit_exp :: "string \<Rightarrow> int res" where
  "id_flt_lit_exp text =
     (let k = id_flt_e_at text; n = id_len text
      in if k < n then andThen (id_slice text (k + 1) n) id_flt_exp_of else Inr 0)"

definition id_flt_ilen :: "string \<Rightarrow> int" where
  "id_flt_ilen text =
     (let dot = id_string_find text ''.''; k = id_flt_e_at text in if dot \<ge> 0 then dot else k)"

definition id_flt_scale :: "string \<Rightarrow> string \<Rightarrow> string \<Rightarrow> int res" where
  "id_flt_scale text raw ds =
     andThen (id_flt_lit_exp text) (\<lambda>e. Inr (wrap32 (id_flt_ilen text + e - id_len raw + id_len ds)))"

definition id_flt_lit_mant :: "string \<Rightarrow> store \<Rightarrow> (string \<times> store) run" where
  "id_flt_lit_mant text st =
     thenRun (Some (id_slice text 0 (id_flt_e_at text))) (\<lambda>m. id_string_replace m ''.'' '''' st)"

function lstrip_loop :: "string \<Rightarrow> int \<Rightarrow> int" where
  "lstrip_loop raw i = (if code_at raw i = 48 then lstrip_loop raw (i + 1) else i)"
  by pat_completeness auto
termination
  by (relation "measure (\<lambda>(raw, i). nat (int (length raw) - i))") (auto dest!: code_at_pos)

definition id_flt_lstrip :: "string \<Rightarrow> string res" where
  "id_flt_lstrip raw = id_slice raw (lstrip_loop raw 0) (id_len raw)"

declare e_loop.simps [simp del] lstrip_loop.simps [simp del]

definition id_flt_head :: "string \<Rightarrow> int \<Rightarrow> string run" where
  "id_flt_head ds w =
     (let m = id_fixed_point_minimum (id_len ds) w
      in thenRun (id_string_repeat ''0'' (w - m)) (\<lambda>z.
         thenRun (Some (id_str_sub str_env ds 0 m)) (\<lambda>h. Some (id_concat str_env h z))))"

definition id_flt_ge_max :: "string \<Rightarrow> bool run" where
  "id_flt_ge_max ds =
     thenRun (id_flt_head ds flt_inf_pt) (\<lambda>h. Some (Inr (id_string_compare h flt_inf_digits \<ge> 0)))"

definition id_flt_over_at :: "int \<Rightarrow> string \<Rightarrow> bool run" where
  "id_flt_over_at p ds =
     (if p > flt_inf_pt then Some (Inr True)
      else if p = flt_inf_pt then id_flt_ge_max ds else Some (Inr False))"

definition id_flt_over :: "string \<Rightarrow> store \<Rightarrow> (bool \<times> store) run" where
  "id_flt_over text st =
     thenRun (id_flt_lit_mant text st) (\<lambda>(raw, st).
     thenRun (Some (id_flt_lstrip raw)) (\<lambda>ds.
       if id_len ds > 0
       then thenRun (Some (id_flt_scale text raw ds)) (\<lambda>p.
            thenRun (id_flt_over_at p ds) (\<lambda>ov. Some (Inr (ov, st))))
       else Some (Inr (False, st))))"

definition id_flt_norm :: "string \<Rightarrow> string res" where
  "id_flt_norm text =
     (let k = id_flt_e_at text; n = id_len text
      in if k < n \<and> id_string_find text ''.'' < 0
         then andThen (id_slice text 0 k) (\<lambda>a. andThen (id_slice text k n) (\<lambda>b. Inr (a @ ''.0'' @ b)))
         else Inr text)"

section \<open>Escapes of string literals\<close>

definition id_hex_escape_at :: "string \<Rightarrow> int \<Rightarrow> bool" where
  "id_hex_escape_at text at \<longleftrightarrow>
     (let high = id_url_hex_value (code_at text (at + 2)); low = id_url_hex_value (code_at text (at + 3))
      in ((code_at text at = 92 \<and> code_at text (at + 1) = 120) \<and> high \<ge> 0) \<and> low \<ge> 0)"

definition id_hex_escape_byte :: "string \<Rightarrow> int \<Rightarrow> int" where
  "id_hex_escape_byte text at =
     (let high = id_url_hex_value (code_at text (at + 2)); low = id_url_hex_value (code_at text (at + 3))
      in high * 16 + low)"

function bad_hex_loop :: "string \<Rightarrow> int \<Rightarrow> bool \<Rightarrow> bool" where
  "bad_hex_loop text i found =
     (if i < id_len text
      then let found = (if (code_at text i = 92 \<and> code_at text (i + 1) = 120) \<and> \<not> id_hex_escape_at text i
                        then True else found);
               i' = (if code_at text i = 92 then i + 1 else i)
           in bad_hex_loop text (i' + 1) found
      else found)"
  by pat_completeness auto
termination by (relation "measure (\<lambda>(text, i, found). nat (id_len text - i))") auto

definition id_str_bad_hex :: "string \<Rightarrow> bool" where
  "id_str_bad_hex text = bad_hex_loop text 0 False"

definition id_nul_tail :: "string \<Rightarrow> int \<Rightarrow> bool" where
  "id_nul_tail text at \<longleftrightarrow>
     (let d1 = code_at text at; d2 = code_at text (at + 1); z = True;
          z = (if d1 \<ge> 49 \<and> d1 \<le> 55 then False else z)
      in if (d1 = 48 \<and> d2 \<ge> 49) \<and> d2 \<le> 55 then False else z)"

function has_nul_loop :: "string \<Rightarrow> int \<Rightarrow> bool \<Rightarrow> bool" where
  "has_nul_loop text i found =
     (if i < id_len text
      then let found = (if code_at text i = 92
                           \<and> ((code_at text (i + 1) = 48 \<and> id_nul_tail text (i + 2))
                              \<or> (id_hex_escape_byte text i = 0 \<and> id_hex_escape_at text i))
                        then True else found);
               i' = (if code_at text i = 92 then i + 1 else i)
           in has_nul_loop text (i' + 1) found
      else found)"
  by pat_completeness auto
termination by (relation "measure (\<lambda>(text, i, found). nat (id_len text - i))") auto

definition id_str_has_nul :: "string \<Rightarrow> bool" where
  "id_str_has_nul text = has_nul_loop text 0 False"

function octal_length_loop :: "string \<Rightarrow> int \<Rightarrow> int \<Rightarrow> int" where
  "octal_length_loop text at n =
     (if ((code_at text at = 92 \<and> n < 3) \<and> code_at text ((at + 1) + n) \<ge> 48) \<and> code_at text ((at + 1) + n) \<le> 55
      then octal_length_loop text at (n + 1) else n)"
  by pat_completeness auto
termination by (relation "measure (\<lambda>(text, at, n). nat (3 - n))") auto

definition id_octal_escape_length :: "string \<Rightarrow> int \<Rightarrow> int" where
  "id_octal_escape_length text at = octal_length_loop text at 0"

function octal_value_loop :: "string \<Rightarrow> int \<Rightarrow> int \<Rightarrow> int \<Rightarrow> int \<Rightarrow> int" where
  "octal_value_loop text at n i v =
     (if i \<le> n then octal_value_loop text at n (i + 1) (wrap32 (v * 8 + code_at text (at + i) - 48)) else v)"
  by pat_completeness auto
termination by (relation "measure (\<lambda>(text, at, n, i, v). nat (n + 1 - i))") auto

definition id_octal_escape_byte :: "string \<Rightarrow> int \<Rightarrow> int \<Rightarrow> int res" where
  "id_octal_escape_byte text at n = c_imod (octal_value_loop text at n 1 0) 256"

declare bad_hex_loop.simps [simp del] has_nul_loop.simps [simp del] octal_length_loop.simps [simp del]
  octal_value_loop.simps [simp del]

end
