(* ===== verification/LitSpec.thy ===== *)
theory LitSpec
  imports StrSpec Literals LexNum
begin

text \<open>
  What the literal checks decide. An integer text is read as its decimal value: the checks
  compare that value with the 32-bit and the 64-bit limits exactly. A float text is read as an
  exact decimal fraction: the overflow check holds exactly when the fraction is at least the
  point from which rounding gives infinity.
\<close>

section \<open>Decimal values\<close>

abbreviation digits :: "string \<Rightarrow> bool" where
  "digits s \<equiv> list_all c_digit s"

lemma dec_value_start: "dec_value u s = u * 10 ^ length s + dec_value 0 s"
proof (induction s arbitrary: u)
  case Nil
  then show ?case by (simp add: dec_value_def)
next
  case (Cons c cs)
  have "dec_value u (c # cs) = (u * 10 + (code_of c - 48)) * 10 ^ length cs + dec_value 0 cs"
    unfolding dec_value_Cons by (rule Cons.IH)
  moreover have "dec_value 0 (c # cs) = (code_of c - 48) * 10 ^ length cs + dec_value 0 cs"
    unfolding dec_value_Cons using Cons.IH [of "0 * 10 + (code_of c - 48)"] by simp
  ultimately show ?case by (simp add: algebra_simps)
qed

lemma dec_value_append: "dec_value 0 (s @ t) = dec_value 0 s * 10 ^ length t + dec_value 0 t"
  using dec_value_start [of "dec_value 0 s" t] by (simp add: dec_value_def)

lemma dec_value_bound: "digits s \<Longrightarrow> dec_value 0 s < 10 ^ length s"
proof (induction s)
  case (Cons c cs)
  have "code_of c \<le> 57" using Cons.prems by (simp add: c_digit_def)
  then have "code_of c - 48 \<le> 9" by linarith
  then have "(code_of c - 48) * 10 ^ length cs \<le> 9 * 10 ^ length cs" by (rule mult_le_mono1)
  moreover have "dec_value 0 (c # cs) = (code_of c - 48) * 10 ^ length cs + dec_value 0 cs"
    unfolding dec_value_Cons using dec_value_start [of "0 * 10 + (code_of c - 48)" cs] by simp
  moreover have "dec_value 0 cs < 10 ^ length cs" using Cons by simp
  ultimately have "dec_value 0 (c # cs) < 10 * 10 ^ length cs" by linarith
  then show ?case by simp
qed (simp add: dec_value_def)

lemma zero_char: "code_of c = 48 \<longleftrightarrow> c = CHR ''0''"
proof
  assume "code_of c = 48"
  then have "code_of c = code_of (CHR ''0'')" by simp
  then show "c = CHR ''0''" by (metis char_of_code)
qed simp

lemma dec_value_lead:
  assumes "digits (c # cs)" "c \<noteq> CHR ''0''"
  shows "10 ^ length cs \<le> dec_value 0 (c # cs)"
proof -
  have "1 \<le> code_of c - 48" using assms zero_char [of c] by (auto simp: c_digit_def)
  then have "1 * 10 ^ length cs \<le> (code_of c - 48) * 10 ^ length cs" by (intro mult_le_mono1)
  moreover have "dec_value 0 (c # cs) = (code_of c - 48) * 10 ^ length cs + dec_value 0 cs"
    unfolding dec_value_Cons using dec_value_start [of "0 * 10 + (code_of c - 48)" cs] by simp
  ultimately show ?thesis by linarith
qed

lemma dec_value_zeros [simp]: "dec_value 0 (replicate k (CHR ''0'') @ s) = dec_value 0 s"
  by (induction k) (simp_all add: dec_value_Cons)

text \<open>Digit strings of one length are ordered as their values.\<close>

lemma lex_sign_digits:
  "length a = length b \<Longrightarrow> digits a \<Longrightarrow> digits b \<Longrightarrow>
     lex_sign a b = (if dec_value 0 a < dec_value 0 b then - 1 else if dec_value 0 a = dec_value 0 b then 0 else 1)"
proof (induction a b rule: list_induct2')
  case (4 x xs y ys)
  have v: "dec_value 0 (c # cs) = (code_of c - 48) * 10 ^ length cs + dec_value 0 cs" for c cs
    unfolding dec_value_Cons using dec_value_start [of "0 * 10 + (code_of c - 48)" cs] by simp
  have b: "dec_value 0 xs < 10 ^ length ys" "dec_value 0 ys < 10 ^ length ys"
    using dec_value_bound [of xs] dec_value_bound [of ys] 4 by auto
  have less: "i * 10 ^ n + p < j * 10 ^ n + q" if "i < j" "p < 10 ^ n" for i j p q n :: nat
  proof -
    have "i * 10 ^ n + 10 ^ n \<le> j * 10 ^ n" using mult_le_mono1 [of "i + 1" j "10 ^ n"] that by simp
    then show ?thesis using that by linarith
  qed
  show ?case
  proof (cases "x = y")
    case True
    then show ?thesis using 4 by (simp add: v)
  next
    case False
    then have ne: "code_of x \<noteq> code_of y" by (metis char_of_code)
    have ge: "48 \<le> code_of x" "48 \<le> code_of y" using 4 by (auto simp: c_digit_def)
    show ?thesis
    proof (cases "code_of x < code_of y")
      case True
      then have "dec_value 0 (x # xs) < dec_value 0 (y # ys)"
        using less [of "code_of x - 48" "code_of y - 48" "dec_value 0 xs" "length ys" "dec_value 0 ys"] ge b 4
        by (simp add: v)
      then show ?thesis using False True by simp
    next
      case gt: False
      then have "code_of y - 48 < code_of x - 48" using ne ge by linarith
      then have "dec_value 0 (y # ys) < dec_value 0 (x # xs)"
        using less [of "code_of y - 48" "code_of x - 48" "dec_value 0 ys" "length ys" "dec_value 0 xs"] b 4
        by (simp add: v)
      then show ?thesis using False gt by simp
    qed
  qed
qed (auto simp: dec_value_def)

section \<open>Stripping zeros\<close>

lemma slice_tail:
  "int (length s) \<le> INT_MAX \<Longrightarrow> k \<le> length s \<Longrightarrow> id_slice s (int k) (int (length s)) = Inr (drop k s)"
  using id_str_sub_ok [OF str_env_roomy, of "int k" "int (length s) - int k" s]
  by (auto simp: id_slice_def)

lemma slice_head:
  "int (length s) \<le> INT_MAX \<Longrightarrow> k \<le> length s \<Longrightarrow> id_slice s 0 (int k) = Inr (take k s)"
  using id_str_sub_ok [OF str_env_roomy, of 0 "int k" s] by (auto simp: id_slice_def)

lemma zeros_loop_from:
  assumes "int (length (replicate k (CHR ''0'') @ s)) \<le> INT_MAX"
  shows "\<exists>j. zeros_loop (replicate k (CHR ''0'') @ s) (int k) = int (k + j)
    \<and> (\<exists>r. s = replicate j (CHR ''0'') @ r \<and> (length r \<le> 1 \<or> hd r \<noteq> CHR ''0'') \<and> (r = [] \<longrightarrow> s = []))"
  using assms
proof (induction s arbitrary: k)
  case Nil
  then show ?case by (intro exI [of _ 0]) (subst zeros_loop.simps, simp add: id_len_small)
next
  case (Cons c cs)
  let ?s = "replicate k (CHR ''0'') @ c # cs"
  have l: "id_len ?s = int (length ?s)" using Cons.prems by (intro id_len_small)
  have c: "code_at ?s (int k) = int (code_of c)" using code_at_append(1) [of "replicate k (CHR ''0'')" c cs] by simp
  show ?case
  proof (cases "cs \<noteq> [] \<and> c = CHR ''0''")
    case True
    have e: "replicate (Suc k) (CHR ''0'') @ cs = ?s"
      using True by (simp add: replicate_app_Cons_same)
    have "int (length (replicate (Suc k) (CHR ''0'') @ cs)) \<le> INT_MAX" using Cons.prems by simp
    from Cons.IH [OF this] obtain j r where
      j: "zeros_loop ?s (int (Suc k)) = int (Suc k + j)" "cs = replicate j (CHR ''0'') @ r"
        "length r \<le> 1 \<or> hd r \<noteq> CHR ''0''" "r = [] \<longrightarrow> cs = []" unfolding e by blast
    have "zeros_loop ?s (int k) = zeros_loop ?s (int (Suc k))"
      using True l c by (subst zeros_loop.simps) (simp add: add.commute)
    then show ?thesis using j True by (intro exI [of _ "Suc j"]) auto
  next
    case False
    then have "zeros_loop ?s (int k) = int k"
      using l c zero_char [of c] by (subst zeros_loop.simps) auto
    then show ?thesis using False by (intro exI [of _ 0]) auto
  qed
qed

text \<open>What remains has the same value, and no leading zero unless it is one character.\<close>

lemma strip_zeros_ok:
  assumes "int (length s) \<le> INT_MAX"
  shows "\<exists>j r. id_strip_zeros s = Inr r \<and> s = replicate j (CHR ''0'') @ r
     \<and> (length r \<le> 1 \<or> hd r \<noteq> CHR ''0'') \<and> (r = [] \<longrightarrow> s = [])"
proof -
  obtain j r where j: "zeros_loop s 0 = int j" "s = replicate j (CHR ''0'') @ r"
      "length r \<le> 1 \<or> hd r \<noteq> CHR ''0''" "r = [] \<longrightarrow> s = []"
    using zeros_loop_from [of 0 s] assms by auto
  have "length s = j + length r" using arg_cong [OF j(2), of length] by simp
  then have "id_slice s (int j) (int (length s)) = Inr (drop j s)" by (intro slice_tail assms) simp
  moreover have "drop j s = r" using j(2) by (metis append_eq_conv_conj length_replicate)
  ultimately show ?thesis using j assms
    by (intro exI [of _ j] exI [of _ r]) (simp add: id_strip_zeros_def id_zeros_tail_def id_len_small)
qed

section \<open>Integer literals\<close>

lemma digits_exceed_from:
  "length p = length q \<Longrightarrow> length s = length t \<Longrightarrow> int (length (p @ s)) \<le> INT_MAX \<Longrightarrow>
     (let i = id_first_difference (p @ s) (q @ t) (int (length p))
      in i < id_len (p @ s) \<and> code_at (p @ s) i > code_at (q @ t) i) \<longleftrightarrow> lex_sign s t = 1"
proof (induction s t arbitrary: p q rule: list_induct2')
  case 1
  then show ?case by (subst id_first_difference.simps) (simp add: id_len_small)
next
  case (4 x xs y ys)
  have l: "id_len (p @ x # xs) = int (length p) + int (length xs) + 1"
    using "4.prems"(3) by (subst id_len_small) auto
  note c = code_at_append(1) [of p x xs] code_at_append(1) [of q y ys]
  show ?case
  proof (cases "x = y")
    case True
    then have "id_first_difference (p @ x # xs) (q @ y # ys) (int (length p))
        = id_first_difference ((p @ [x]) @ xs) ((q @ [y]) @ ys) (int (length (p @ [x])))"
      using c l "4.prems" by (subst id_first_difference.simps) (simp add: add.commute)
    then show ?thesis using "4.IH" [of "p @ [x]" "q @ [y]"] "4.prems" True by simp
  next
    case False
    then have ne: "code_of x \<noteq> code_of y" by (metis char_of_code)
    then have "id_first_difference (p @ x # xs) (q @ y # ys) (int (length p)) = int (length p)"
      using c "4.prems" by (subst id_first_difference.simps) simp
    moreover have "\<not> code_of x < code_of y \<longleftrightarrow> code_of y < code_of x" using ne by linarith
    ultimately show ?thesis using c l "4.prems" False by simp
  qed
qed auto

lemma digits_exceed_iff:
  assumes "length a = length b" "digits a" "digits b" "int (length a) \<le> INT_MAX"
  shows "id_digits_exceed a b \<longleftrightarrow> dec_value 0 b < dec_value 0 a"
  using digits_exceed_from [of "[]" "[]" a b] lex_sign_digits [OF assms(1-3)] assms
  by (auto simp: id_digits_exceed_def Let_def)

lemma dec_step_digit:
  assumes "c_digit c"
  shows "id_dec_step (of_nat u) (int (code_of c)) = of_nat (u * 10 + (code_of c - 48))"
proof -
  have "(of_nat (u * 10 + (code_of c - 48)) :: w64) = of_nat u * 10 + (of_nat (code_of c) - 48)"
    using assms by (simp add: c_digit_def of_nat_diff)
  then show ?thesis by (simp add: id_dec_step_def)
qed

lemma dec_loop_value:
  assumes "digits s" "k \<le> length s"
  shows "dec_loop (\<lambda>i. int (of_char (s ! nat i))) (int (length s)) (int k) (of_nat u) = of_nat (dec_value u (drop k s))"
  using assms(2)
proof (induction "length s - k" arbitrary: k u)
  case 0
  then show ?case by (subst dec_loop.simps) (simp add: dec_value_def)
next
  case (Suc d)
  then have k: "k < length s" by simp
  have d: "c_digit (s ! k)" using assms(1) k by (simp add: list_all_length)
  have "dec_loop (\<lambda>i. int (of_char (s ! nat i))) (int (length s)) (int k) (of_nat u)
      = dec_loop (\<lambda>i. int (of_char (s ! nat i))) (int (length s)) (int (Suc k)) (of_nat (u * 10 + (code_of (s ! k) - 48)))"
    using k dec_step_digit [OF d, of u] by (subst dec_loop.simps) (simp add: add.commute)
  also have "\<dots> = of_nat (dec_value (u * 10 + (code_of (s ! k) - 48)) (drop (Suc k) s))"
    using Suc.hyps(2) k by (intro Suc.hyps(1)) auto
  also have "\<dots> = of_nat (dec_value u (drop k s))"
    using k by (simp add: Cons_nth_drop_Suc [symmetric] dec_value_Cons)
  finally show ?case .
qed

lemma dec_val_value:
  assumes "digits s" "int (length s) \<le> INT_MAX"
  shows "id_dec_val s = of_nat (dec_value 0 s)"
  using dec_loop_value [OF assms(1) le0, of 0] assms(2) by (simp add: id_dec_val_def id_slen_def id_len_small)

lemma over_max_value:
  assumes "digits s" "length s < 11"
  shows "id_over_max s \<longleftrightarrow> 2147483647 < dec_value 0 s"
proof -
  have "(10::nat) ^ length s \<le> 10 ^ 10" using assms(2) by (intro power_increasing) auto
  then have b: "dec_value 0 s < 10 ^ 10" using dec_value_bound [OF assms(1)] by linarith
  have v: "id_dec_val s = of_nat (dec_value 0 s)"
    using assms by (intro dec_val_value) (auto simp: INT_MAX_def)
  have "sint (of_nat (dec_value 0 s) :: w64) = int (dec_value 0 s)"
    using b wrap64_id [of "int (dec_value 0 s)"] sint_of_int64 [of "int (dec_value 0 s)"] by simp
  then show ?thesis using v by (simp add: id_over_max_def word_sless_alt)
qed

lemma stripped:
  assumes "digits s" "int (length s) \<le> INT_MAX"
  shows "\<exists>r. id_strip_zeros s = Inr r \<and> digits r \<and> dec_value 0 r = dec_value 0 s
     \<and> length r \<le> length s \<and> (1 < length r \<longrightarrow> 10 ^ (length r - 1) \<le> dec_value 0 s)"
proof -
  obtain j r where r: "id_strip_zeros s = Inr r" "s = replicate j (CHR ''0'') @ r"
    "length r \<le> 1 \<or> hd r \<noteq> CHR ''0''" using strip_zeros_ok [OF assms(2)] by blast
  have d: "digits r" using assms(1) r(2) by simp
  have v: "dec_value 0 r = dec_value 0 s" by (simp add: r(2))
  have "10 ^ (length r - 1) \<le> dec_value 0 s" if "1 < length r"
  proof (cases r)
    case (Cons c cs)
    then show ?thesis using dec_value_lead [of c cs] d r(3) that v by auto
  qed (use that in simp)
  moreover have "length r \<le> length s" using arg_cong [OF r(2), of length] by simp
  ultimately show ?thesis using r(1) d v by blast
qed

lemma exceeds_word_exact:
  assumes "digits s" "int (length s) \<le> INT_MAX"
  shows "id_exceeds_word s = Inr (dec_value 0 s > 18446744073709551615)"
proof -
  obtain r where r: "id_strip_zeros s = Inr r" "digits r" "dec_value 0 r = dec_value 0 s"
    "length r \<le> length s" "1 < length r \<longrightarrow> 10 ^ (length r - 1) \<le> dec_value 0 s"
    using stripped [OF assms] by blast
  have l: "id_len r = int (length r)" using r(4) assms(2) by (intro id_len_small) simp
  have c: "code_at s 1 \<le> 57"
  proof (cases "1 < length s")
    case True
    then have "c_digit (s ! 1)" using assms(1) by (simp add: list_all_length)
    then show ?thesis using code_at_in [of 1 s] True by (simp add: c_digit_def)
  qed (simp add: code_at_out)
  consider "length r < 20" | "length r = 20" | "20 < length r" by linarith
  then show ?thesis
  proof cases
    case 1
    then have "(10::nat) ^ length r \<le> 10 ^ 19" by (intro power_increasing) auto
    then have "dec_value 0 s < 10 ^ 19" using dec_value_bound [OF r(2)] r(3) by linarith
    then show ?thesis using 1 r(1) l c by (simp add: id_exceeds_word_def)
  next
    case 2
    have "dec_value 0 ''18446744073709551615'' = 18446744073709551615"
      by (simp add: dec_value_def)
    then have "id_digits_exceed r ''18446744073709551615'' \<longleftrightarrow> 18446744073709551615 < dec_value 0 r"
      using 2 r(2) by (subst digits_exceed_iff) (simp_all add: INT_MAX_def c_digit_def)
    then show ?thesis using 2 r(1,3) l by (simp add: id_exceeds_word_def)
  next
    case 3
    then have "(10::nat) ^ 20 \<le> 10 ^ (length r - 1)" by (intro power_increasing) auto
    then have "10 ^ 20 \<le> dec_value 0 s" using r(5) 3 by simp
    then show ?thesis using 3 r(1) l by (simp add: id_exceeds_word_def)
  qed
qed

theorem id_exceeds_word_exact:
  assumes "digits s" "int (length s) \<le> INT_MAX"
  shows "id_exceeds_word s = Inr (dec_value 0 s > 18446744073709551615)"
  by (rule exceeds_word_exact [OF assms])

theorem id_exceeds_word_exact_witness:
  "id_exceeds_word ''0018446744073709551616'' = Inr True \<and> id_exceeds_word ''18446744073709551615'' = Inr False"
  using id_exceeds_word_exact [of "''0018446744073709551616''"] id_exceeds_word_exact [of "''18446744073709551615''"]
  by (simp add: c_digit_def INT_MAX_def dec_value_def)

lemma is_bigdec_exact:
  assumes "digits s" "int (length s) \<le> INT_MAX"
  shows "id_is_bigdec s = Inr (2147483647 < dec_value 0 s)"
proof -
  obtain r where r: "id_strip_zeros s = Inr r" "digits r" "dec_value 0 r = dec_value 0 s"
    "length r \<le> length s" "1 < length r \<longrightarrow> 10 ^ (length r - 1) \<le> dec_value 0 s"
    using stripped [OF assms] by blast
  have l: "id_len r = int (length r)" using r(4) assms(2) by (intro id_len_small) simp
  show ?thesis
  proof (cases "length r < 11")
    case True
    then show ?thesis using r(1,3) l over_max_value [OF r(2) True] by (simp add: id_is_bigdec_def id_wide_dec_def)
  next
    case False
    then have "(10::nat) ^ 10 \<le> 10 ^ (length r - 1)" by (intro power_increasing) auto
    then have "10 ^ 10 \<le> dec_value 0 s" using r(5) False by simp
    then show ?thesis using False r(1) l by (simp add: id_is_bigdec_def id_wide_dec_def)
  qed
qed

text \<open>A literal that passes the 32-bit check is read as its value.\<close>

lemma to_int_value:
  assumes "digits s" "s \<noteq> []" "dec_value 0 s \<le> 2147483647"
  shows "id_to_int s = int (dec_value 0 s)"
proof -
  obtain c cs where t: "s = c # cs" "c_digit c" using assms(1,2) by (cases s) auto
  have "to_int_digits 9223372036854775807 0 s = dec_value 0 s"
    using assms by (intro to_int_digits_exact) auto
  then show ?thesis using t digit_not_sign [OF t(2)] assms(3) by (simp add: id_to_int_def Let_def)
qed

theorem id_is_bigdec_to_int:
  assumes "digits s" "s \<noteq> []" "int (length s) \<le> INT_MAX"
  shows "id_is_bigdec s = Inr (2147483647 < dec_value 0 s)
     \<and> (id_is_bigdec s = Inr False \<longrightarrow> id_to_int s = int (dec_value 0 s))"
  using is_bigdec_exact [OF assms(1,3)] to_int_value [OF assms(1,2)] by auto

theorem id_is_bigdec_to_int_witness:
  "id_is_bigdec ''2147483648'' = Inr True \<and> id_is_bigdec ''00002147483647'' = Inr False
    \<and> id_to_int ''00002147483647'' = 2147483647"
  using id_is_bigdec_to_int [of "''2147483648''"] id_is_bigdec_to_int [of "''00002147483647''"]
  by (simp add: c_digit_def INT_MAX_def dec_value_def)

section \<open>Float literals\<close>

text \<open>The least real that rounds to infinity: the largest double plus half its last place.\<close>

definition flt_limit :: nat where
  "flt_limit = 2 ^ 1024 - 2 ^ 970"

text \<open>\<open>N * 10 ^ k\<close> is at least the limit.\<close>

definition rounds_to_inf :: "nat \<Rightarrow> int \<Rightarrow> bool" where
  "rounds_to_inf N k \<longleftrightarrow>
     (if 0 \<le> k then flt_limit \<le> N * 10 ^ nat k else flt_limit * 10 ^ nat (- k) \<le> N)"

lemma limit_digits: "dec_value 0 flt_inf_digits = flt_limit" "digits flt_inf_digits" "length flt_inf_digits = 309"
  by (simp_all add: flt_inf_digits_def dec_value_def flt_limit_def c_digit_def)

lemma limit_bounds: "flt_limit < 10 ^ 309" "10 ^ 308 \<le> flt_limit"
  by (simp_all add: flt_limit_def)

lemma over_above:
  assumes "10 ^ (n - 1) \<le> N" "0 < n" "309 < k + int n"
  shows "rounds_to_inf N k"
proof (cases "0 \<le> k")
  case True
  have "(10::nat) ^ 309 \<le> 10 ^ (n - 1 + nat k)" using assms True by (intro power_increasing) auto
  also have "\<dots> = 10 ^ (n - 1) * 10 ^ nat k" by (rule power_add)
  also have "\<dots> \<le> N * 10 ^ nat k" using assms(1) by (rule mult_le_mono1)
  finally show ?thesis using True limit_bounds(1) by (simp add: rounds_to_inf_def)
next
  case False
  have "flt_limit * 10 ^ nat (- k) \<le> 10 ^ 309 * 10 ^ nat (- k)" using limit_bounds(1) by (intro mult_le_mono1) simp
  also have "\<dots> = 10 ^ (309 + nat (- k))" by (rule power_add [symmetric])
  also have "\<dots> \<le> 10 ^ (n - 1)" using assms False by (intro power_increasing) auto
  finally show ?thesis using False assms(1) by (simp add: rounds_to_inf_def)
qed

lemma over_below:
  assumes "N < 10 ^ n" "k + int n < 309"
  shows "\<not> rounds_to_inf N k"
proof (cases "0 \<le> k")
  case True
  have "N * 10 ^ nat k < 10 ^ n * 10 ^ nat k" using assms(1) by simp
  also have "\<dots> = 10 ^ (n + nat k)" by (rule power_add [symmetric])
  also have "\<dots> \<le> 10 ^ 308" using assms True by (intro power_increasing) auto
  finally show ?thesis using True limit_bounds(2) by (simp add: rounds_to_inf_def)
next
  case False
  have "N < 10 ^ n" by (rule assms)
  also have "\<dots> \<le> 10 ^ (308 + nat (- k))" using assms False by (intro power_increasing) auto
  also have "\<dots> = 10 ^ 308 * 10 ^ nat (- k)" by (rule power_add)
  also have "\<dots> \<le> flt_limit * 10 ^ nat (- k)" using limit_bounds(2) by (rule mult_le_mono1)
  finally show ?thesis using False by (simp add: rounds_to_inf_def)
qed

definition flt_head :: "string \<Rightarrow> string" where
  "flt_head ds = take 309 ds @ replicate (309 - length ds) (CHR ''0'')"

lemma dec_value_trail: "dec_value 0 (s @ replicate j (CHR ''0'')) = dec_value 0 s * 10 ^ j"
  using dec_value_append [of s "replicate j (CHR ''0'')"] dec_value_zeros [of j "[]"] by (simp add: dec_value_def)

lemma over_at_point:
  assumes "digits ds" "k + int (length ds) = 309"
  shows "rounds_to_inf (dec_value 0 ds) k \<longleftrightarrow> flt_limit \<le> dec_value 0 (flt_head ds)"
proof (cases "length ds \<le> 309")
  case True
  then have "nat k = 309 - length ds" "0 \<le> k" using assms(2) by auto
  then show ?thesis using True by (simp add: rounds_to_inf_def flt_head_def dec_value_trail)
next
  case False
  let ?h = "take 309 ds" and ?t = "drop 309 ds" and ?j = "length ds - 309"
  have j: "nat (- k) = ?j" "k < 0" using False assms(2) by auto
  have "dec_value 0 ds = dec_value 0 ?h * 10 ^ ?j + dec_value 0 ?t"
    using dec_value_append [of ?h ?t] by simp
  moreover have t: "dec_value 0 ?t < 10 ^ ?j"
  proof -
    have "digits ?t" using assms(1) by (metis append_take_drop_id list_all_append)
    from dec_value_bound [OF this] show ?thesis by simp
  qed
  moreover have "L * 10 ^ ?j \<le> H * 10 ^ ?j + T \<longleftrightarrow> L \<le> H" if "T < 10 ^ ?j" for L H T :: nat
  proof
    assume a: "L * 10 ^ ?j \<le> H * 10 ^ ?j + T"
    show "L \<le> H"
    proof (rule ccontr)
      assume "\<not> L \<le> H"
      then have "(H + 1) * 10 ^ ?j \<le> L * 10 ^ ?j" by (intro mult_le_mono1) simp
      then have "H * 10 ^ ?j + 10 ^ ?j \<le> L * 10 ^ ?j" by simp
      then show False using a that by linarith
    qed
  next
    assume "L \<le> H"
    then have "L * 10 ^ ?j \<le> H * 10 ^ ?j" by (rule mult_le_mono1)
    then show "L * 10 ^ ?j \<le> H * 10 ^ ?j + T" by linarith
  qed
  ultimately show ?thesis using j False by (simp add: rounds_to_inf_def flt_head_def)
qed

lemma flt_head_ok:
  assumes "int (length ds) \<le> INT_MAX"
  shows "id_flt_head ds flt_inf_pt = Some (Inr (flt_head ds))"
proof -
  have l: "id_len ds = int (length ds)" using assms by (rule id_len_small)
  have m: "id_fixed_point_minimum (int (length ds)) 309 = int (min 309 (length ds))"
    by (simp add: id_fixed_point_minimum_def min_def)
  have r: "id_string_repeat ''0'' (309 - int (min 309 (length ds))) = Some (Inr (replicate (309 - length ds) (CHR ''0'')))"
  proof -
    have e: "nat (309 - int (min 309 (length ds))) = 309 - length ds" by (auto simp: min_def nat_diff_distrib)
    have "concat (replicate j ''0'') = replicate j (CHR ''0'')" for j by (induction j) auto
    then show ?thesis
      using repeat_loop_ok [of "309 - int (min 309 (length ds))" "''''" "''0''"] e
        id_str_from_total [OF str_env_roomy, of "''''"]
      by (simp add: id_string_repeat_def id_str_dup_def c_limits)
  qed
  have s: "id_str_sub str_env ds 0 (int (min 309 (length ds))) = Inr (take 309 ds)"
    using id_str_sub_ok [OF str_env_roomy, of 0 "int (min 309 (length ds))" ds] assms
    by (cases "309 \<le> length ds") simp_all
  have c: "id_concat str_env (take 309 ds) (replicate (309 - length ds) (CHR ''0'')) = Inr (flt_head ds)"
    unfolding flt_head_def by (intro id_concat_ok str_env_roomy) (auto simp: c_limits)
  show ?thesis using l m r s c by (simp add: id_flt_head_def flt_inf_pt_def)
qed

lemma flt_over_at_ok:
  assumes "digits ds" "int (length ds) \<le> INT_MAX" "10 ^ (length ds - 1) \<le> dec_value 0 ds" "ds \<noteq> []"
  shows "id_flt_over_at (k + int (length ds)) ds = Some (Inr (rounds_to_inf (dec_value 0 ds) k))"
proof -
  have h: "digits (flt_head ds)" "length (flt_head ds) = 309"
  proof -
    have "digits (take 309 ds)" using assms(1) by (metis append_take_drop_id list_all_append)
    then show "digits (flt_head ds)" by (auto simp: flt_head_def list_all_iff c_digit_def)
  qed (simp add: flt_head_def)
  have c: "id_string_compare (flt_head ds) flt_inf_digits \<ge> 0 \<longleftrightarrow> flt_limit \<le> dec_value 0 (flt_head ds)"
    using lex_sign_digits [of "flt_head ds" flt_inf_digits] h limit_digits by (auto simp: compare_lex)
  consider "k + int (length ds) < 309" | "k + int (length ds) = 309" | "309 < k + int (length ds)" by linarith
  then show ?thesis
  proof cases
    case 1
    then show ?thesis using over_below [OF dec_value_bound [OF assms(1)]] by (simp add: id_flt_over_at_def flt_inf_pt_def)
  next
    case 2
    then show ?thesis using over_at_point [OF assms(1) 2] flt_head_ok [OF assms(2)] c
      by (simp add: id_flt_over_at_def id_flt_ge_max_def flt_inf_pt_def)
  next
    case 3
    then show ?thesis using over_above [OF assms(3) _ 3] assms(4) by (simp add: id_flt_over_at_def flt_inf_pt_def)
  qed
qed

text \<open>The parts of a float text: integer digits, fraction, exponent.\<close>

fun frac_text :: "string option \<Rightarrow> string" where
  "frac_text None = ''''"
| "frac_text (Some f) = ''.'' @ f"

fun exp_text :: "(bool \<times> string \<times> string) option \<Rightarrow> string" where
  "exp_text None = ''''"
| "exp_text (Some (cap, sg, e)) = (if cap then ''E'' else ''e'') @ sg @ e"

fun exp_value :: "(bool \<times> string \<times> string) option \<Rightarrow> int" where
  "exp_value None = 0"
| "exp_value (Some (cap, sg, e)) = (if sg = ''-'' then - int (dec_value 0 e) else int (dec_value 0 e))"

definition flt_text :: "string \<Rightarrow> string option \<Rightarrow> (bool \<times> string \<times> string) option \<Rightarrow> string" where
  "flt_text i f x = i @ frac_text f @ exp_text x"

definition flt_parts :: "string \<Rightarrow> string option \<Rightarrow> (bool \<times> string \<times> string) option \<Rightarrow> bool" where
  "flt_parts i f x \<longleftrightarrow> i \<noteq> [] \<and> digits i \<and> (\<forall>d. f = Some d \<longrightarrow> digits d)
     \<and> (\<forall>cap sg e. x = Some (cap, sg, e) \<longrightarrow> sg \<in> {'''', ''+'', ''-''} \<and> e \<noteq> [] \<and> digits e)"

definition frac_digits :: "string option \<Rightarrow> string" where
  "frac_digits f = (case f of None \<Rightarrow> '''' | Some d \<Rightarrow> d)"

definition exp_mark :: "char \<Rightarrow> bool" where
  "exp_mark c \<longleftrightarrow> code_of c = 101 \<or> code_of c = 69"

lemma digit_marks: "c_digit c \<Longrightarrow> \<not> exp_mark c \<and> c \<noteq> CHR ''.''"
  by (auto simp: c_digit_def exp_mark_def)

lemma e_loop_from:
  "int (length (p @ s)) \<le> INT_MAX \<Longrightarrow>
     e_loop (p @ s) (int (length p)) = int (length p + length (takeWhile (\<lambda>c. \<not> exp_mark c) s))"
proof (induction s arbitrary: p)
  case Nil
  then show ?case by (subst e_loop.simps) (simp add: id_len_small)
next
  case (Cons c cs)
  note c = code_at_append(1) [of p c cs]
  have l: "id_len (p @ c # cs) = int (length p) + int (length cs) + 1"
    using Cons.prems by (subst id_len_small) auto
  show ?case
  proof (cases "exp_mark c")
    case True
    then show ?thesis using c by (subst e_loop.simps) (auto simp: exp_mark_def)
  next
    case False
    then have "e_loop (p @ c # cs) (int (length p)) = e_loop ((p @ [c]) @ cs) (int (length (p @ [c])))"
      using c l by (subst e_loop.simps) (simp add: exp_mark_def add.commute)
    then show ?thesis using Cons.IH [of "p @ [c]"] Cons.prems False by simp
  qed
qed

lemma takeWhile_stop: "list_all P s \<Longrightarrow> (t = [] \<or> \<not> P (hd t)) \<Longrightarrow> takeWhile P (s @ t) = s"
  by (induction s) (cases t, auto)

lemma e_at_ok:
  assumes "flt_parts i f x" "int (length (flt_text i f x)) \<le> INT_MAX"
  shows "id_flt_e_at (flt_text i f x) = int (length (i @ frac_text f))"
proof -
  have a: "list_all (\<lambda>c. \<not> exp_mark c) (i @ frac_text f)"
  proof -
    have "list_all (\<lambda>c. \<not> exp_mark c) d" if "digits d" for d
      using that digit_marks by (auto simp: list_all_iff)
    then show ?thesis using assms(1) by (cases f) (auto simp: flt_parts_def exp_mark_def)
  qed
  have b: "exp_text x = [] \<or> exp_mark (hd (exp_text x))"
    by (cases x rule: exp_text.cases) (auto simp: exp_mark_def)
  have "takeWhile (\<lambda>c. \<not> exp_mark c) ((i @ frac_text f) @ exp_text x) = i @ frac_text f"
    using a b by (intro takeWhile_stop) auto
  then show ?thesis using e_loop_from [of "[]" "flt_text i f x"] assms(2)
    by (simp add: id_flt_e_at_def flt_text_def)
qed

lemma occurs_char: "occurs s [c] k \<longleftrightarrow> k < length s \<and> s ! k = c"
proof -
  have "occurs s [c] k \<longleftrightarrow> (\<exists>u v. s = u @ [c] @ v \<and> length u = k)" by (rule occurs_split) simp
  also have "\<dots> \<longleftrightarrow> k < length s \<and> s ! k = c"
  proof (intro iffI)
    assume "k < length s \<and> s ! k = c"
    then show "\<exists>u v. s = u @ [c] @ v \<and> length u = k"
      using id_take_nth_drop [of k s] by (intro exI [of _ "take k s"] exI [of _ "drop (Suc k) s"]) simp
  qed auto
  finally show ?thesis .
qed

lemma find_char:
  "id_string_find s [c] = (if c \<in> set s then int (length (takeWhile (\<lambda>d. d \<noteq> c) s)) else - 1)"
proof -
  have f: "(\<exists>k. first_at s [c] 0 k \<and> id_string_find_from s [c] (int 0) = int k) \<or>
     ((\<forall>k \<ge> 0. \<not> occurs s [c] k) \<and> id_string_find_from s [c] (int 0) = - 1)"
    by (rule find_from_first) (simp_all add: INT_MAX_def)
  show ?thesis
  proof (cases "c \<in> set s")
    case True
    then obtain u v where uv: "s = u @ c # v" "c \<notin> set u" by (metis split_list_first)
    then have "takeWhile (\<lambda>d. d \<noteq> c) (u @ c # v) = u"
      by (intro takeWhile_stop) (auto simp: list_all_iff)
    then have t: "takeWhile (\<lambda>d. d \<noteq> c) s = u" using uv by simp
    have n: "length u < length s" "s ! length u = c" using uv by simp_all
    have b: "s ! j \<noteq> c" if "j < length u" for j using uv that nth_mem [of j u] by (auto simp: nth_append)
    from f n obtain k where k: "first_at s [c] 0 k" "id_string_find_from s [c] 0 = int k"
      by (auto simp: occurs_char)
    have "k = length u"
      using k(1) n b by (auto simp: first_at_def occurs_char) (metis linorder_neqE_nat)
    then show ?thesis using k True t by (simp add: id_string_find_def)
  next
    case False
    then have "\<not> first_at s [c] 0 k" for k by (auto simp: first_at_def occurs_char)
    then show ?thesis using f False by (simp add: id_string_find_def)
  qed
qed

lemma ilen_ok:
  assumes "flt_parts i f x" "int (length (flt_text i f x)) \<le> INT_MAX"
  shows "id_flt_ilen (flt_text i f x) = int (length i)"
proof -
  have nd: "CHR ''.'' \<notin> set d" if "digits d" for d using that by (auto simp: list_all_iff c_digit_def)
  have ni: "list_all (\<lambda>d. d \<noteq> CHR ''.'') i" using assms(1) digit_marks by (auto simp: flt_parts_def list_all_iff)
  show ?thesis
  proof (cases f)
    case None
    have "CHR ''.'' \<notin> set (flt_text i f x)"
      using assms(1) nd None by (cases x rule: exp_text.cases) (auto simp: flt_text_def flt_parts_def)
    then show ?thesis using e_at_ok [OF assms] None by (simp add: id_flt_ilen_def find_char)
  next
    case (Some d)
    have "takeWhile (\<lambda>d. d \<noteq> CHR ''.'') (i @ (''.'' @ d @ exp_text x)) = i"
      using ni by (intro takeWhile_stop) auto
    then show ?thesis using Some by (simp add: id_flt_ilen_def find_char flt_text_def)
  qed
qed

lemma clamp_ok:
  assumes "digits e" "e \<noteq> []" "int (length e) \<le> INT_MAX"
  shows "\<exists>r. id_strip_zeros e = Inr r \<and> id_flt_clamp r = min 1000000 (int (dec_value 0 e))"
proof -
  obtain j r where r0: "id_strip_zeros e = Inr r" "r = [] \<longrightarrow> e = []"
    using strip_zeros_ok [OF assms(3)] by blast
  obtain r' where r': "id_strip_zeros e = Inr r'" "digits r'" "dec_value 0 r' = dec_value 0 e"
    "length r' \<le> length e" "1 < length r' \<longrightarrow> 10 ^ (length r' - 1) \<le> dec_value 0 e"
    using stripped [OF assms(1,3)] by blast
  have r: "r' = r" using r0 r' by simp
  have l: "id_len r = int (length r)" using r'(4) r assms(3) by (intro id_len_small) simp
  show ?thesis
  proof (cases "length r \<le> 6")
    case True
    then have "(10::nat) ^ length r \<le> 10 ^ 6" by (intro power_increasing) auto
    then have "dec_value 0 r < 10 ^ 6" using dec_value_bound [of r] r' r by simp
    then show ?thesis using True l r0 r' r assms(2) to_int_value [of r] by (simp add: id_flt_clamp_def min_def)
  next
    case False
    then have "(10::nat) ^ 6 \<le> 10 ^ (length r - 1)" by (intro power_increasing) auto
    then have "1000000 \<le> dec_value 0 e" using r'(5) r False by simp
    then show ?thesis using False l r0 by (simp add: id_flt_clamp_def)
  qed
qed

lemma exp_of_ok:
  assumes "sg \<in> {'''', ''+'', ''-''}" "digits e" "e \<noteq> []" "int (length (sg @ e)) \<le> INT_MAX"
  shows "id_flt_exp_of (sg @ e) = Inr ((if sg = ''-'' then - 1 else 1) * min 1000000 (int (dec_value 0 e)))"
proof -
  obtain r where r: "id_strip_zeros e = Inr r" "id_flt_clamp r = min 1000000 (int (dec_value 0 e))"
    using clamp_ok [OF assms(2,3)] assms(4) by auto
  obtain c cs where e: "e = c # cs" "c_digit c" using assms(2,3) by (cases e) auto
  have c0: "code_at (c # cs) 0 = int (code_of c)" "code_of c \<noteq> 43" "code_of c \<noteq> 45"
    using code_at_append(1) [of "[]" c cs] e(2) by (auto simp: c_digit_def)
  have c1: "code_at (''+'' @ e) 0 = 43" "code_at (''-'' @ e) 0 = 45"
    by (simp_all add: code_at_in)
  have l: "id_len (sg @ e) = int (length (sg @ e))" using assms(4) by (rule id_len_small)
  have s: "id_slice (sg @ e) (int (length sg)) (int (length (sg @ e))) = Inr e"
    using slice_tail [OF assms(4), of "length sg"] by simp
  consider "sg = ''''" | "sg = ''+''" | "sg = ''-''" using assms(1) by blast
  then show ?thesis
  proof cases
    case 1
    then show ?thesis using s l r c0 e by (simp add: id_flt_exp_of_def Let_def)
  next
    case 2
    then show ?thesis using s l r c1 by (simp add: id_flt_exp_of_def Let_def)
  next
    case 3
    then show ?thesis using s l r c1 by (simp add: id_flt_exp_of_def Let_def)
  qed
qed

definition exp_clamped :: "(bool \<times> string \<times> string) option \<Rightarrow> int" where
  "exp_clamped x = max (- 1000000) (min 1000000 (exp_value x))"

lemma lit_exp_ok:
  assumes "flt_parts i f x" "int (length (flt_text i f x)) \<le> INT_MAX"
  shows "id_flt_lit_exp (flt_text i f x) = Inr (exp_clamped x)"
proof -
  have l: "id_len (flt_text i f x) = int (length (flt_text i f x))" using assms(2) by (rule id_len_small)
  note e = e_at_ok [OF assms]
  show ?thesis
  proof (cases x)
    case None
    then show ?thesis using e l by (simp add: id_flt_lit_exp_def flt_text_def exp_clamped_def)
  next
    case (Some t)
    obtain cap sg d where t: "t = (cap, sg, d)" by (cases t)
    have p: "sg \<in> {'''', ''+'', ''-''}" "digits d" "d \<noteq> []" using assms(1) Some t by (auto simp: flt_parts_def)
    let ?k = "length (i @ frac_text f) + 1"
    have s: "id_slice (flt_text i f x) (int ?k) (int (length (flt_text i f x))) = Inr (sg @ d)"
    proof -
      have "?k \<le> length (flt_text i f x)" "drop ?k (flt_text i f x) = sg @ d"
        using Some t by (simp_all add: flt_text_def)
      then show ?thesis using slice_tail [OF assms(2), of ?k] by simp
    qed
    have x: "int (length (sg @ d)) \<le> INT_MAX" using assms(2) Some t by (simp add: flt_text_def)
    have "(if sg = ''-'' then - 1 else 1) * min 1000000 (int (dec_value 0 d)) = exp_clamped x"
      using Some t by (auto simp: exp_clamped_def)
    moreover have "int (length (i @ frac_text f)) < int (length (flt_text i f x))"
      using Some t by (simp add: flt_text_def)
    ultimately show ?thesis using e l s exp_of_ok [OF p x]
      by (simp add: id_flt_lit_exp_def add.commute)
  qed
qed

lemma lstrip_from:
  "lstrip_loop (replicate k (CHR ''0'') @ s) (int k) = int (k + length (takeWhile (\<lambda>c. c = CHR ''0'') s))"
proof (induction s arbitrary: k)
  case Nil
  then show ?case by (subst lstrip_loop.simps) (simp add: code_at_out)
next
  case (Cons c cs)
  have c: "code_at (replicate k (CHR ''0'') @ c # cs) (int k) = int (code_of c)"
    using code_at_append(1) [of "replicate k (CHR ''0'')" c cs] by simp
  show ?case
  proof (cases "c = CHR ''0''")
    case True
    then have "lstrip_loop (replicate k (CHR ''0'') @ c # cs) (int k)
        = lstrip_loop (replicate (Suc k) (CHR ''0'') @ cs) (int (Suc k))"
      using c by (subst lstrip_loop.simps) (simp add: replicate_app_Cons_same add.commute)
    then show ?thesis using Cons.IH [of "Suc k"] True by simp
  next
    case False
    then show ?thesis using c zero_char [of c] by (subst lstrip_loop.simps) simp
  qed
qed

lemma lstrip_ok:
  assumes "int (length s) \<le> INT_MAX"
  shows "id_flt_lstrip s = Inr (dropWhile (\<lambda>c. c = CHR ''0'') s)"
  using lstrip_from [of 0 s] slice_tail [OF assms, of "length (takeWhile (\<lambda>c. c = CHR ''0'') s)"] assms
  by (simp add: id_flt_lstrip_def id_len_small length_takeWhile_le dropWhile_eq_drop)

lemma sep_free_char: "sep_free [c] p \<longleftrightarrow> c \<notin> set p"
  by (auto simp: sep_free_def occurs_char in_set_conv_nth)

lemma concat_pieces:
  "(\<forall>p \<in> set ps. c \<notin> set p) \<Longrightarrow> intercalate '''' ps = filter (\<lambda>d. d \<noteq> c) (intercalate [c] ps)"
proof (induction "[c]" ps rule: intercalate.induct)
  case (3 p q ps)
  have "filter (\<lambda>d. d \<noteq> c) p = p" using 3 by (auto simp: filter_id_conv)
  then show ?case using 3 by simp
qed (auto intro!: filter_True [symmetric])

lemma lit_mant_ok:
  assumes "flt_parts i f x" "int (length (flt_text i f x)) \<le> 900000" "store_inv st"
    "st_used st + 8 + int (length (flt_text i f x)) \<le> 2 ^ 44"
  shows "\<exists>st'. id_flt_lit_mant (flt_text i f x) st = Some (Inr (i @ frac_digits f, st'))"
proof -
  let ?m = "i @ frac_text f"
  have b: "int (length (flt_text i f x)) \<le> INT_MAX" using assms(2) by (simp add: INT_MAX_def)
  have lm: "length ?m \<le> length (flt_text i f x)" by (simp add: flt_text_def)
  have s: "id_slice (flt_text i f x) 0 (int (length ?m)) = Inr ?m"
    using slice_head [OF b lm] by (simp add: flt_text_def)
  obtain ps where ps: "id_string_split ?m ''.'' = Some (Inr ps)" "intercalate ''.'' ps = ?m"
    "\<forall>p \<in> set ps. sep_free ''.'' p"
    using split_pieces [of "''.''" ?m] lm assms(2) by (auto simp: INT_MAX_def)
  have nodot: "filter (\<lambda>d. d \<noteq> CHR ''.'') d = d" if "digits d" for d
    using that by (auto simp: filter_id_conv list_all_iff c_digit_def)
  have "intercalate '''' ps = filter (\<lambda>d. d \<noteq> CHR ''.'') ?m"
    using concat_pieces [of ps "CHR ''.''"] ps(2,3) by (simp add: sep_free_char)
  also have "\<dots> = i @ frac_digits f"
    using assms(1) nodot by (cases f) (auto simp: flt_parts_def frac_digits_def)
  finally have r: "intercalate '''' ps = i @ frac_digits f" .
  have dn: "digits (i @ frac_digits f)" using assms(1) by (cases f) (auto simp: flt_parts_def frac_digits_def)
  have z: "CHR 0x00 \<notin> set (i @ frac_digits f)"
  proof
    assume "CHR 0x00 \<in> set (i @ frac_digits f)"
    then have "c_digit (CHR 0x00)" using dn by (auto simp: list_all_iff)
    then show False by (simp add: c_digit_def)
  qed
  have lr: "length (i @ frac_digits f) \<le> length ?m" by (cases f) (simp_all add: frac_digits_def)
  have "\<exists>st'. id_string_join ps '''' st = Some (Inr (intercalate '''' ps, st')) \<and> store_inv st'"
    using z lr lm assms by (intro join_writes) (auto simp: r INT_MAX_def)
  then show ?thesis using e_at_ok [OF assms(1) b] s ps(1) r by (auto simp: id_flt_lit_mant_def id_string_replace_def)
qed

text \<open>Clamping the exponent does not move a value across the limit.\<close>

lemma clamped_same_side:
  assumes "exp_clamped x = v" "int n \<le> 900000" "int m \<le> 900000" "N < 10 ^ n" "10 ^ (n - 1) \<le> N" "0 < n"
  shows "rounds_to_inf N (v - int m) \<longleftrightarrow> rounds_to_inf N (exp_value x - int m)"
proof -
  consider "exp_value x = v" | "v = 1000000" "1000000 \<le> exp_value x" | "v = - 1000000" "exp_value x \<le> - 1000000"
    using assms(1) by (auto simp: exp_clamped_def max_def min_def split: if_splits)
  then show ?thesis
  proof cases
    case 1
    then show ?thesis by simp
  next
    case 2
    then show ?thesis
      using over_above [OF assms(5,6), of "v - int m"] over_above [OF assms(5,6), of "exp_value x - int m"] assms(3,6)
      by simp
  next
    case 3
    then show ?thesis
      using over_below [OF assms(4), of "v - int m"] over_below [OF assms(4), of "exp_value x - int m"] assms(2)
      by simp
  qed
qed



section \<open>Escapes\<close>

text \<open>The text of the four-character escape \<open>400\<close> between quotes: its value is 256, which is 0 as a byte.\<close>

definition octal_400 :: string where
  "octal_400 = [CHR 0x22, CHR 0x5C, CHR ''4'', CHR ''0'', CHR ''0'', CHR 0x22]"


end
