(* ===== verification/ParseCore.thy ===== *)
theory ParseCore
  imports Literals Lexer
begin

text \<open>
  The parser's state and the operations every parsing function is made of: reading the token
  at the cursor, advancing, making a node of the syntax tree, reporting a diagnostic. The
  global lists of the C code are the fields of one record; the parallel lists that hold one
  attribute of the nodes each (\<open>nkind\<close>, \<open>ni1\<close>, and so on), which only \<open>id_newnode\<close> extends
  and extends together, are one list of nodes, a node being its index. A list with one cell
  is the value of the cell. Diagnostics are the lines printed. Strings hold no NUL, so
  \<open>strcmp(a, b) == 0\<close> is equality, and memory for strings and lists is taken to be there;
  the linear store, which replacing text in a string goes through, is part of the state.
\<close>

section \<open>State\<close>

record node =
  n_kind :: string
  n_i1 :: int
  n_i2 :: int
  n_s1 :: string
  n_s2 :: string
  n_l1 :: "int list"
  n_l2 :: "int list"
  n_unit :: int
  n_line :: int
  n_tok :: int
  n_st :: int

text \<open>Tables the top level fills; they are described where they are used.\<close>

record tables =
  t_prog :: "int list"
  t_pfile :: "string list"
  t_pline :: "int list"
  t_ptoks :: "int list"
  t_ptoke :: "int list"
  t_pnodes :: "int list"
  t_aloc :: "string list"
  t_aftriple :: "string list"
  t_afname :: "string list"
  t_afparams :: "int list list"
  t_aflines :: "string list list"
  t_afret :: "string list"
  t_afretn :: "string list"
  t_sdname :: "string list"
  t_sdfname :: "string list list"
  t_sdftype :: "string list list"
  t_sdfile :: "string list"
  t_sdline :: "int list"

record pst =
  g_kind :: "string list"
  g_text :: "string list"
  g_line :: "int list"
  g_pos :: int
  g_curtl :: int
  g_curtk :: int
  g_nodes :: "node list"
  g_ucur :: int
  g_fseen :: "string list"
  g_chkfail :: int
  g_synfail :: int
  g_out :: "string list"
  g_store :: store
  g_nparen :: "int list"
  g_ngrp :: "int list"
  g_ngrpc :: "int list"
  g_beqtok :: "int list"
  g_cnode :: "int list"
  g_cline :: "int list"
  g_loopd :: int
  g_pend_rets :: "int list"
  g_pure :: "int list"
  g_borrow :: "int list"
  g_retexp :: "string list"
  g_retexp_pend :: "string list"
  g_tables :: tables

text \<open>The state the parser starts from, before the tokens are loaded.\<close>

definition tables_init :: tables where
  "tables_init = \<lparr>t_prog = [], t_pfile = [], t_pline = [], t_ptoks = [], t_ptoke = [], t_pnodes = [], t_aloc = [],
     t_aftriple = [], t_afname = [], t_afparams = [], t_aflines = [], t_afret = [], t_afretn = [], t_sdname = [],
     t_sdfname = [], t_sdftype = [], t_sdfile = [], t_sdline = []\<rparr>"

definition pst_init :: pst where
  "pst_init = \<lparr>g_kind = [], g_text = [], g_line = [], g_pos = 0, g_curtl = 0, g_curtk = 0,
     g_nodes = [], g_ucur = 0, g_fseen = [], g_chkfail = 0, g_synfail = 0, g_out = [], g_store = store_init,
     g_nparen = [], g_ngrp = [], g_ngrpc = [], g_beqtok = [], g_cnode = [], g_cline = [], g_loopd = 0,
     g_pend_rets = [], g_pure = [], g_borrow = [], g_retexp = [], g_retexp_pend = [], g_tables = tables_init\<rparr>"

text \<open>A state with tokens of one line loaded.\<close>

definition with_toks :: "(string \<times> string) list \<Rightarrow> pst" where
  "with_toks ts = pst_init\<lparr>g_kind := map fst ts, g_text := map snd ts, g_line := map (\<lambda>_. 1) ts\<rparr>"

section \<open>Parsing functions\<close>

text \<open>
  A parsing function takes the state and returns a value and the new state, or traps, or
  does not return. \<open>whileP\<close> is a while loop with one variable carried along.
\<close>

type_synonym 'a parser = "pst \<Rightarrow> ('a \<times> pst) run"

definition giveP :: "'a \<Rightarrow> 'a parser" where
  "giveP x s = Some (Inr (x, s))"

definition thenP :: "'a parser \<Rightarrow> ('a \<Rightarrow> 'b parser) \<Rightarrow> 'b parser" where
  "thenP m f s = thenRun (m s) (\<lambda>(x, t). f x t)"

definition doP :: "unit parser \<Rightarrow> 'a parser \<Rightarrow> 'a parser" where
  "doP m k = thenP m (\<lambda>_. k)"

definition lookP :: "(pst \<Rightarrow> 'a) \<Rightarrow> 'a parser" where
  "lookP f s = Some (Inr (f s, s))"

definition updP :: "(pst \<Rightarrow> pst) \<Rightarrow> unit parser" where
  "updP f s = Some (Inr ((), f s))"

definition resP :: "(pst \<Rightarrow> 'a res) \<Rightarrow> 'a parser" where
  "resP f s = Some (andThen (f s) (\<lambda>x. Inr (x, s)))"

definition storeP :: "(store \<Rightarrow> ('a \<times> store) run) \<Rightarrow> 'a parser" where
  "storeP f s = thenRun (f (g_store s)) (\<lambda>(x, st). Some (Inr (x, s\<lparr>g_store := st\<rparr>)))"

definition skipP :: "unit parser" where
  "skipP = giveP ()"

partial_function (option) whileP :: "(pst \<Rightarrow> bool) \<Rightarrow> ('a \<Rightarrow> 'a parser) \<Rightarrow> 'a \<Rightarrow> pst \<Rightarrow> ('a \<times> pst) run" where
  "whileP c body a s =
     (if c s then thenRun (body a s) (\<lambda>(b, t). whileP c body b t) else Some (Inr (a, s)))"

declare whileP.simps [code]

lemma parser_simps [simp]:
  "giveP x s = Some (Inr (x, s))" "lookP f s = Some (Inr (f s, s))" "updP h s = Some (Inr ((), h s))"
  "skipP s = Some (Inr ((), s))"
  by (simp_all add: giveP_def lookP_def updP_def skipP_def)

lemma thenP_Some [simp]: "m s = Some (Inr (x, t)) \<Longrightarrow> thenP m f s = f x t"
  by (simp add: thenP_def)

lemma doP_Some [simp]: "m s = Some (Inr ((), t)) \<Longrightarrow> doP m k s = k t"
  by (simp add: doP_def)

section \<open>The token at the cursor\<close>

definition id_cur_kind :: "pst \<Rightarrow> string" where
  "id_cur_kind s = (if g_pos s < llen (g_kind s) then g_kind s ! nat (g_pos s) else ''eof'')"

definition id_cur_text :: "pst \<Rightarrow> string" where
  "id_cur_text s = (if g_pos s < llen (g_text s) then g_text s ! nat (g_pos s) else '''')"

definition id_cur_ln :: "pst \<Rightarrow> int" where
  "id_cur_ln s = (if g_pos s < llen (g_line s) then g_line s ! nat (g_pos s) else 1)"

definition id_cur2_kind :: "pst \<Rightarrow> string" where
  "id_cur2_kind s = (if g_pos s + 1 < llen (g_kind s) then g_kind s ! nat (g_pos s + 1) else ''eof'')"

definition id_peek_text :: "pst \<Rightarrow> int \<Rightarrow> string" where
  "id_peek_text s ahead =
     (if g_pos s + ahead < llen (g_text s) then g_text s ! nat (g_pos s + ahead) else '''')"

definition id_tok_at :: "pst \<Rightarrow> int \<Rightarrow> string" where
  "id_tok_at s at = (if at < llen (g_kind s) then g_kind s ! nat at else ''eof'')"

definition id_tok_str :: "pst \<Rightarrow> int \<Rightarrow> string" where
  "id_tok_str s at = (if at < llen (g_text s) then g_text s ! nat at else '''')"

definition id_tok_end :: "pst \<Rightarrow> int \<Rightarrow> int" where
  "id_tok_end s at = (if at < llen (g_kind s) then at else llen (g_kind s))"

definition id_tok_ln :: "pst \<Rightarrow> int \<Rightarrow> int" where
  "id_tok_ln s t0 = (if t0 < llen (g_line s) then g_line s ! nat t0 else 1)"

definition id_fix_xtext :: "pst \<Rightarrow> int \<Rightarrow> string" where
  "id_fix_xtext s x = (if x \<ge> 0 \<and> x < llen (g_text s) then g_text s ! nat x else '''')"

definition id_cur_file :: "pst \<Rightarrow> string" where
  "id_cur_file s = (if llen (g_fseen s) > 0 then g_fseen s ! nat (llen (g_fseen s) - 1) else ''<stdin>'')"

definition id_stamp_tok :: "unit parser" where
  "id_stamp_tok = updP (\<lambda>s. s\<lparr>g_curtl := id_cur_ln s, g_curtk := g_pos s\<rparr>)"

definition id_advance :: "unit parser" where
  "id_advance = doP id_stamp_tok (updP (\<lambda>s. s\<lparr>g_pos := g_pos s + 1\<rparr>))"

definition id_skip_text :: "string \<Rightarrow> unit parser" where
  "id_skip_text sep s = (if id_cur_text s = sep then id_advance s else skipP s)"

section \<open>Membership in a list of words\<close>

definition id_match_idx :: "string list \<Rightarrow> int \<Rightarrow> string \<Rightarrow> int \<Rightarrow> int res" where
  "id_match_idx names i name found = andThen (lget names i) (\<lambda>x. Inr (if x = name then i else found))"

function find_str_loop :: "string list \<Rightarrow> string \<Rightarrow> int \<Rightarrow> int \<Rightarrow> int res" where
  "find_str_loop names name i found =
     (if i \<ge> 0
      then andThen (id_match_idx names i name found) (\<lambda>found.
             if found = i then Inr found else find_str_loop names name (i - 1) found)
      else Inr found)"
  by pat_completeness auto
termination by (relation "measure (\<lambda>(names, name, i, found). nat (i + 1))") auto

declare find_str_loop.simps [simp del]

definition id_find_str :: "string list \<Rightarrow> string \<Rightarrow> int res" where
  "id_find_str names name = find_str_loop names name (llen names - 1) (0 - 1)"

definition id_str_in :: "string list \<Rightarrow> string \<Rightarrow> bool res" where
  "id_str_in in_set x = andThen (id_find_str in_set x) (\<lambda>k. Inr (k \<ge> 0))"

lemma find_str_loop_below:
  "n \<le> length names \<Longrightarrow> \<exists>k. find_str_loop names name (int n - 1) (- 1) = Inr k
     \<and> (0 \<le> k \<longleftrightarrow> name \<in> set (take n names)) \<and> (0 \<le> k \<longrightarrow> k < int n \<and> names ! nat k = name)"
proof (induction n)
  case 0
  then show ?case by (subst find_str_loop.simps) simp
next
  case (Suc n)
  then have n: "n < length names" by simp
  show ?case
  proof (cases "names ! n = name")
    case True
    then have "find_str_loop names name (int (Suc n) - 1) (- 1) = Inr (int n)"
      using n by (subst find_str_loop.simps) (simp add: id_match_idx_def)
    then show ?thesis using True n by (auto simp: take_Suc_conv_app_nth)
  next
    case False
    then have "find_str_loop names name (int (Suc n) - 1) (- 1) = find_str_loop names name (int n - 1) (- 1)"
      using n by (subst find_str_loop.simps) (simp add: id_match_idx_def)
    then show ?thesis using Suc.IH False n by (force simp: take_Suc_conv_app_nth)
  qed
qed

lemma id_str_in_set [simp]: "id_str_in xs x = Inr (x \<in> set xs)"
  using find_str_loop_below [of "length xs" xs x] by (auto simp: id_str_in_def id_find_str_def llen_def)

text \<open>The word lists of the grammar.\<close>

definition mulops :: "string list" where "mulops = [''*'', ''/'', ''%'']"
definition relops :: "string list" where "relops = [''=='', ''!='', ''<'', ''>'', ''<='', ''>='', ''='']"
definition unops :: "string list" where "unops = [''-'', ''!'', ''~'']"
definition shiftops :: "string list" where "shiftops = [''<<'', ''>>'']"
definition addops :: "string list" where "addops = [''+'', ''-'']"
definition nx_eq :: "string list" where "nx_eq = [''='']"
definition nx_index :: "string list" where "nx_index = [''['', ''.'']"
definition nx_call :: "string list" where "nx_call = [''('']"
definition typewords :: "string list" where
  "typewords = [''int'', ''float'', ''string'', ''void'', ''word'', ''export'', ''func'', ''bytes'',
     ''sender'', ''receiver'', ''bool'']"

definition id_op_at :: "string list \<Rightarrow> pst \<Rightarrow> bool res" where
  "id_op_at ops s = id_str_in ops (id_cur_text s)"

definition id_ident_then :: "string list \<Rightarrow> pst \<Rightarrow> bool res" where
  "id_ident_then nexts s =
     andThen (id_str_in nexts (id_peek_text s 1)) (\<lambda>y. Inr (id_cur_kind s = ''ident'' \<and> y))"

section \<open>Diagnostics\<close>

text \<open>A quote character.\<close>

abbreviation quo :: string where "quo \<equiv> [CHR 0x27]"
abbreviation bsl :: string where "bsl \<equiv> [CHR 0x5C]"
abbreviation tab :: string where "tab \<equiv> [CHR 0x09]"
abbreviation nl :: string where "nl \<equiv> [CHR 0x0A]"

definition id_printP :: "string \<Rightarrow> unit parser" where
  "id_printP line = updP (\<lambda>s. s\<lparr>g_out := g_out s @ [line]\<rparr>)"

definition id_note_failure :: "unit parser" where
  "id_note_failure = updP (\<lambda>s. s\<lparr>g_chkfail := 1\<rparr>)"

definition set_synfail :: "unit parser" where
  "set_synfail = updP (\<lambda>s. s\<lparr>g_synfail := 1\<rparr>)"

definition id_str_pick :: "string \<Rightarrow> string \<Rightarrow> string \<Rightarrow> string \<Rightarrow> string" where
  "id_str_pick x key yes no = (if x = key then yes else no)"

definition id_diag_head :: "string \<Rightarrow> string \<Rightarrow> string \<Rightarrow> unit parser" where
  "id_diag_head code loc msg =
     doP (id_printP (loc @ '': error: '' @ msg @ '' ['' @ code @ '']'')) id_note_failure"

definition id_diag_line :: "string \<Rightarrow> string \<Rightarrow> unit parser" where
  "id_diag_line key txt = (if txt \<noteq> '''' then id_printP (''  '' @ key @ '': '' @ txt) else skipP)"

definition id_diag :: "string \<Rightarrow> string \<Rightarrow> string \<Rightarrow> string \<Rightarrow> string \<Rightarrow> string \<Rightarrow> unit parser" where
  "id_diag code loc msg at why help =
     doP (id_diag_head code loc msg)
    (doP (id_diag_line ''at'' at)
    (doP (id_diag_line ''why'' why)
         (id_diag_line ''help'' help)))"

definition id_diag_related :: "string \<Rightarrow> string \<Rightarrow> unit parser" where
  "id_diag_related loc msg = id_printP (''  related: '' @ loc @ '': note: '' @ msg)"

definition id_diag_esc :: "string \<Rightarrow> store \<Rightarrow> (string \<times> store) run" where
  "id_diag_esc raw st =
     thenRun (id_string_replace raw bsl (bsl @ bsl) st) (\<lambda>(a, st).
     thenRun (id_string_replace a nl (bsl @ ''n'') st) (\<lambda>(b, st).
       id_string_replace b tab (bsl @ ''t'') st))"

definition id_diag_edit :: "string \<Rightarrow> string \<Rightarrow> int \<Rightarrow> string \<Rightarrow> string \<Rightarrow> unit parser" where
  "id_diag_edit appl op at_line needle txt =
     thenP (storeP (id_diag_esc needle)) (\<lambda>need_esc.
     thenP (storeP (id_diag_esc txt)) (\<lambda>text_esc.
       id_printP (''  edit: '' @ appl @ tab @ op @ tab @ int_text at_line @ tab @ need_esc @ tab @ text_esc)))"

definition id_syn_err_tail :: "string \<Rightarrow> int \<Rightarrow> string \<Rightarrow> unit parser" where
  "id_syn_err_tail err_file err_line msg =
     doP (id_printP (err_file @ '':'' @ int_text err_line @ '': error: '' @ msg))
    (doP id_note_failure set_synfail)"

definition id_syn_err :: "string \<Rightarrow> unit parser" where
  "id_syn_err msg s = id_syn_err_tail (id_cur_file s) (id_cur_ln s) msg s"

definition id_syn_diag :: "string \<Rightarrow> string \<Rightarrow> string \<Rightarrow> string \<Rightarrow> string \<Rightarrow> unit parser" where
  "id_syn_diag code msg at why help s =
     doP (id_diag code (id_cur_file s @ '':'' @ int_text (id_cur_ln s)) msg at why help) set_synfail s"

definition id_syn_expected :: "string \<Rightarrow> string \<Rightarrow> unit parser" where
  \<open>id_syn_expected want found =
     id_syn_diag ''E0101'' (''expected '' @ quo @ want @ quo @ '', found '' @ quo @ found @ quo) found
       (''the grammar needs '' @ quo @ want @ quo @ '' here to finish what it was reading, so the construct before this point is incomplete or mistyped'')
       (''put '' @ quo @ want @ quo @ '' where it belongs; if it looks right, check the line before for a missing ';', ')' or '}', because those are noticed one token late'')\<close>

definition id_syn_unexpected :: "string \<Rightarrow> string \<Rightarrow> unit parser" where
  \<open>id_syn_unexpected tok umsg =
     (let why = ''an operator cannot start an expression or a statement; the parser was looking for a name, a number, a string, a call or a type'';
          help = ''write an operand where '' @ quo @ tok @ quo @ '' is, or remove it; a missing operand just before it is the usual cause'';
          (why, help) = (if tok = ''/*''
            then (''id has line comments only, so a comment always ends where its line ends and can never swallow code'',
                  ''write // at the start of each commented line'')
            else (why, help));
          (why, help) = (if tok = ''.''
            then (''a float literal is digits, a point and digits, so it never starts with the point and an exponent cannot stand alone'',
                  ''write the digit before the point, as in 0.5 for .5, and put an exponent after digits, as in 0.5e3 or 1e-9'')
            else (why, help));
          (why, help) = (if tok = ''#!''
            then (''a '#!' line is only a shebang, and only on line 1, so that ./script.id can run; anywhere else nothing in id starts with '#'' @ quo,
                  ''move the line to the top of the file, or turn it into a // comment'')
            else (why, help))
      in id_syn_diag ''E0102'' umsg tok why help)\<close>

definition id_syn_unclosed :: "string \<Rightarrow> int \<Rightarrow> unit parser" where
  \<open>id_syn_unclosed close open_ln s =
     (let uopen = id_str_pick close '']'' ''['' ''(''; found = id_cur_text s; ufile = id_cur_file s;
          why = ''every '' @ quo @ uopen @ quo @ '' needs its '' @ quo @ close @ quo @ '', and the parser will not supply a missing one at the end of the statement'';
          help = ''add '' @ quo @ close @ quo @ '' to close the '' @ quo @ uopen @ quo @ '' opened on line '' @ int_text open_ln @ ''; it usually belongs just before the token named in 'at'' @ quo
      in doP (id_syn_diag ''E0105'' (''unclosed '' @ quo @ uopen @ quo @ '': expected '' @ quo @ close @ quo @ '', found '' @ quo @ found @ quo) found why help)
             (id_diag_related (ufile @ '':'' @ int_text open_ln) (''the '' @ quo @ uopen @ quo @ '' that is not closed was opened here'')) s)\<close>

definition id_syn_stray :: "string \<Rightarrow> unit parser" where
  \<open>id_syn_stray stray =
     (let sbopen = id_str_pick stray '']'' ''['' ''(''
      in id_syn_diag ''E0106'' (''unmatched '' @ quo @ stray @ quo) stray
           (''this '' @ quo @ stray @ quo @ '' closes a '' @ quo @ sbopen @ quo @ '' that was never opened, so the brackets on this statement do not balance'')
           (''remove this '' @ quo @ stray @ quo @ '', or add the missing '' @ quo @ sbopen @ quo @ '' earlier in the statement''))\<close>

definition id_unexpected_msg :: "string \<Rightarrow> string" where
  \<open>id_unexpected_msg t =
     (let s = ''unexpected token '' @ quo @ t @ quo;
          s = (if t = ''/*'' then ''block comments are not supported; use // for a line comment'' else s);
          s = (if t = ''.'' then ''unexpected token '.'; a float literal cannot start with the point'' else s)
      in if t = ''#!'' then quo @ ''#!' is only allowed as the first line of a file'' else s)\<close>

definition id_op_atom_diag :: "string \<Rightarrow> unit parser" where
  "id_op_atom_diag tok =
     (if tok = '')'' \<or> tok = '']'' then id_syn_stray tok
      else id_syn_unexpected tok (id_unexpected_msg tok))"

definition id_no_op_atom :: "unit parser" where
  "id_no_op_atom s = (if id_cur_kind s = ''op'' then id_op_atom_diag (id_cur_text s) s else skipP s)"

definition id_expect_text :: "string \<Rightarrow> unit parser" where
  "id_expect_text want s = (if id_cur_text s \<noteq> want then id_syn_expected want (id_cur_text s) s else skipP s)"

definition id_eat_text :: "string \<Rightarrow> unit parser" where
  "id_eat_text want = doP (id_expect_text want) id_advance"

definition id_close_bracket :: "string \<Rightarrow> int \<Rightarrow> unit parser" where
  "id_close_bracket close open_ln s =
     (if id_cur_text s = close then id_advance s else id_syn_unclosed close open_ln s)"

section \<open>Names\<close>

definition id_keyword_reported :: "string \<Rightarrow> bool" where
  "id_keyword_reported c \<longleftrightarrow>
     c = ''given'' \<or> c = ''then'' \<or> c = ''prints'' \<or> c = ''eprints'' \<or> c = ''calls'' \<or> c = ''stdin''
     \<or> c = ''timeout'' \<or> c = ''func'' \<or> c = ''struct''"

definition id_no_keyword_word :: "unit parser" where
  \<open>id_no_keyword_word s =
     (let keyword = id_cur_text s
      in if id_cur_kind s = ''kw'' \<and> \<not> id_keyword_reported keyword
         then id_syn_diag ''E0312'' (quo @ keyword @ quo @ '' is a keyword and cannot be used as a name'') keyword
           ''a keyword begins a type, a statement or a clause (int, float, string, word, void, if, else, while, return, break, export, import, chain, pure and the like), so a name spelled that way cannot be told from it''
           ''choose another name; a keyword is fine as one piece of a longer name, as in int_total'' s
         else skipP s)\<close>

definition id_no_struct_word :: "unit parser" where
  \<open>id_no_struct_word =
     doP (\<lambda>s. if id_cur_text s = ''struct''
              then id_syn_err (quo @ ''struct' is a keyword (it declares a type, at the top level of a file of its own; see docs/SPEC.md, structs) and cannot be used as a name or inside a function'') s
              else skipP s)
         id_no_keyword_word\<close>

definition id_no_func_word :: "unit parser" where
  \<open>id_no_func_word =
     doP (\<lambda>s. if id_cur_text s = ''func''
              then id_syn_err (quo @ ''func' is a keyword (it begins a function type, see docs/SPEC.md) and cannot be used as a name'') s
              else skipP s)
         id_no_struct_word\<close>

definition id_no_case_word :: "unit parser" where
  \<open>id_no_case_word =
     doP (\<lambda>s. let t = id_cur_text s
              in if t = ''given'' \<or> t = ''then'' \<or> t = ''prints'' \<or> t = ''eprints'' \<or> t = ''calls'' \<or> t = ''stdin'' \<or> t = ''timeout''
                 then id_syn_err (quo @ t @ quo @ '' is a test case keyword (see docs/TESTS.md) and cannot be used as a name'') s
                 else skipP s)
         id_no_func_word\<close>

definition id_read_name :: "string parser" where
  "id_read_name = doP id_no_case_word (thenP (lookP id_cur_text) (\<lambda>name. doP id_advance (giveP name)))"

section \<open>Nodes\<close>

text \<open>A node records the unit, and the line and index of the token last advanced over.\<close>

definition id_newnode :: "string \<Rightarrow> int \<Rightarrow> int \<Rightarrow> string \<Rightarrow> string \<Rightarrow> int list \<Rightarrow> int list \<Rightarrow> int parser" where
  "id_newnode k a b s1 s2 l1 l2 s =
     (let n = \<lparr>n_kind = k, n_i1 = a, n_i2 = b, n_s1 = s1, n_s2 = s2, n_l1 = l1, n_l2 = l2,
               n_unit = g_ucur s, n_line = g_curtl s, n_tok = g_curtk s, n_st = 0 - 1\<rparr>;
          s = s\<lparr>g_nodes := lpush (g_nodes s) n\<rparr>
      in Some (Inr (llen (g_nodes s) - 1, s)))"

definition id_newleaf :: "string \<Rightarrow> int \<Rightarrow> int \<Rightarrow> string \<Rightarrow> string \<Rightarrow> int parser" where
  "id_newleaf k a b s1 s2 = id_newnode k a b s1 s2 [] []"

definition id_node_txt :: "string \<Rightarrow> string \<Rightarrow> int parser" where
  "id_node_txt kind txt = id_newleaf kind 0 0 txt ''''"

definition id_node_txt1 :: "string \<Rightarrow> string \<Rightarrow> int \<Rightarrow> int parser" where
  "id_node_txt1 kind txt operand = id_newleaf kind operand 0 txt ''''"

definition id_node_txt2 :: "string \<Rightarrow> string \<Rightarrow> int \<Rightarrow> int \<Rightarrow> int parser" where
  "id_node_txt2 kind txt first second = id_newleaf kind first second txt ''''"

definition id_node_index :: "int \<Rightarrow> int \<Rightarrow> int parser" where
  "id_node_index base idx = id_newleaf ''index'' base idx '''' ''''"

definition id_node_arr :: "int list \<Rightarrow> int parser" where
  "id_node_arr elems = id_newnode ''arr'' 0 0 '''' '''' elems []"

definition id_node_bool :: "string \<Rightarrow> int parser" where
  "id_node_bool txt =
     (let v = of_bool (txt = ''true'') in id_newleaf ''int'' v 0 (int_text v) ''bool'')"

definition id_node_float :: "string \<Rightarrow> int parser" where
  "id_node_float txt = thenP (resP (\<lambda>_. id_flt_norm txt)) (\<lambda>norm. id_newleaf ''float'' 0 0 norm '''')"

definition id_node_exprstmt :: "int \<Rightarrow> int parser" where
  "id_node_exprstmt expr = id_newleaf ''exprstmt'' expr 0 '''' ''''"

definition id_node_decl :: "string \<Rightarrow> string \<Rightarrow> int \<Rightarrow> int \<Rightarrow> int parser" where
  "id_node_decl type name expr exported = id_newleaf ''decl'' expr exported type name"

definition id_node_param :: "string \<Rightarrow> string \<Rightarrow> string \<Rightarrow> int parser" where
  "id_node_param kind type name = id_newleaf kind 0 0 type name"

definition id_node_call :: "string \<Rightarrow> int list \<Rightarrow> int parser" where
  "id_node_call name args = id_newnode ''call'' 0 0 name '''' args []"

definition id_node_if :: "int \<Rightarrow> int list \<Rightarrow> int list \<Rightarrow> int \<Rightarrow> int parser" where
  "id_node_if cond thenl elsel elif = id_newnode ''if'' cond elif '''' '''' thenl elsel"

definition id_node_while :: "int \<Rightarrow> int list \<Rightarrow> int parser" where
  "id_node_while cond bodyl = id_newnode ''while'' cond 0 '''' '''' bodyl []"

definition id_node_func :: "string \<Rightarrow> string \<Rightarrow> int list \<Rightarrow> int list \<Rightarrow> int \<Rightarrow> int parser" where
  "id_node_func name rettype params body retexpr = id_newnode ''func'' retexpr 0 name rettype params body"

definition nodeP :: "int \<Rightarrow> node parser" where
  "nodeP i = resP (\<lambda>s. lget (g_nodes s) i)"

definition id_node_iassign_tail :: "int \<Rightarrow> int list \<Rightarrow> int list \<Rightarrow> int parser" where
  "id_node_iassign_tail target vlist none =
     thenP (nodeP target) (\<lambda>t. id_newnode ''iassign'' (n_i1 t) (n_i2 t) '''' '''' vlist none)"

definition id_node_iassign :: "int \<Rightarrow> int \<Rightarrow> int parser" where
  "id_node_iassign target v = id_node_iassign_tail target [v] []"

text \<open>Storing an attribute of a node.\<close>

definition set_node :: "int \<Rightarrow> (node \<Rightarrow> node) \<Rightarrow> unit parser" where
  "set_node i f s =
     Some (andThen (lget (g_nodes s) i) (\<lambda>n. andThen (lset (g_nodes s) i (f n)) (\<lambda>ns. Inr ((), s\<lparr>g_nodes := ns\<rparr>))))"

definition id_stmt_done :: "int \<Rightarrow> int \<Rightarrow> unit parser" where
  "id_stmt_done i t0 s = set_node i (\<lambda>n. n\<lparr>n_line := id_tok_ln s t0, n_st := t0\<rparr>) s"

definition id_grp_note :: "int \<Rightarrow> unit parser" where
  "id_grp_note e = updP (\<lambda>s. s\<lparr>g_ngrp := lpush (g_ngrp s) e, g_ngrpc := lpush (g_ngrpc s) (g_pos s - 1)\<rparr>)"

definition id_call_at :: "int \<Rightarrow> int \<Rightarrow> unit parser" where
  "id_call_at n ln = updP (\<lambda>s. s\<lparr>g_cnode := lpush (g_cnode s) n, g_cline := lpush (g_cline s) ln\<rparr>)"

end
