(* ===== verification/ParseExpr.thy ===== *)
theory ParseExpr
  imports ParseCore
begin

text \<open>
  The expression parser: one function per precedence level, each a loop that folds operands
  of the next level to the left, from \<open>||\<close> (loosest) over \<open>&&\<close>, the comparisons, \<open>|\<close>, \<open>^\<close>,
  \<open>&\<close>, the shifts, the sums and the products to the prefix operators, then index and field
  access, then atoms. The C functions are mutually recursive through \<open>id_parse_unary\<close>. Here
  every function takes the parser of an operand, \<open>u\<close>, as its first argument, and
  \<open>id_parse_unary\<close> ties the knot with a bound on the nesting: at depth 0 it does not return.
  A parser that was given a depth larger than the number of tokens left always returns.
\<close>

section \<open>Literals\<close>

definition id_int_check :: "string \<Rightarrow> unit parser" where
  \<open>id_int_check txt =
     thenP (resP (\<lambda>_. id_exceeds_word txt)) (\<lambda>ex.
       if ex then id_syn_diag ''E0107'' (''integer literal '' @ quo @ txt @ quo @ '' does not fit in 64 bits'') txt
         ''an int is 32 bits and a word is 64, so the largest literal is 18446744073709551615 (0xffffffffffffffff); a larger one would wrap around and store a different number than the one written''
         ''write a value no larger than 18446744073709551615, or build the number from smaller parts''
       else skipP)\<close>

definition id_finish_int :: "string \<Rightarrow> int parser" where
  "id_finish_int txt =
     thenP (resP (\<lambda>_. id_is_bigdec txt)) (\<lambda>big. id_node_txt2 ''int'' txt (id_to_int txt) (of_bool big))"

definition id_parse_int :: "int parser" where
  "id_parse_int =
     thenP (lookP id_cur_text) (\<lambda>txt.
     doP (id_int_check txt) (doP id_advance (id_finish_int txt)))"

definition id_str_hex_check :: "string \<Rightarrow> unit parser" where
  \<open>id_str_hex_check txt =
     (if id_str_bad_hex txt
      then id_syn_diag ''E0108'' (''string literal '' @ txt @ '' has a '' @ bsl @ ''x escape without two hex digits'') txt
        (bsl @ ''x is followed by exactly two hex digits and denotes the one byte they spell, as in "'' @ bsl @ ''x1b" for ESC; on every target, whatever comes after those two digits is ordinary text'')
        (''write both digits ('' @ bsl @ ''x0a rather than '' @ bsl @ ''xa), or spell the byte with '' @ bsl @ ''n or '' @ bsl @ ''t if it is a newline or a tab'')
      else skipP)\<close>

definition id_parse_str :: "int parser" where
  \<open>id_parse_str =
     thenP (lookP id_cur_text) (\<lambda>txt.
     doP (if id_str_has_nul txt
          then id_syn_err (''a string literal may not contain '' @ bsl @ ''0: a string never holds a NUL byte, so keep binary data in stdio_read_mem, fs_read_mem or the store and not in a string'')
          else skipP)
    (doP id_advance (doP (id_str_hex_check txt) (id_node_txt ''str'' txt))))\<close>

definition id_flt_bad :: "string \<Rightarrow> string \<Rightarrow> string \<Rightarrow> string \<Rightarrow> string \<Rightarrow> unit parser" where
  "id_flt_bad txt code tail why help =
     id_syn_diag code (''float literal '' @ quo @ txt @ quo @ tail) txt why help"

definition flt_exp_why :: string where
  \<open>flt_exp_why = ''an exponent is 'e' or 'E', an optional sign and at least one digit, so this text names no number; it is not read as a number followed by a variable called e''\<close>

definition flt_exp_help :: string where
  \<open>flt_exp_help = ''write the digits after the 'e', as in 1e5, 1.5E+3 or 6.02e-23, or delete the 'e' if it was a typo''\<close>

definition flt_big_why :: string where
  \<open>flt_big_why = ''a float is an IEEE-754 binary64 and its largest finite value is about 1.7976931348623157e308; a literal beyond that rounds to infinity, which a literal cannot be''\<close>

definition flt_big_help :: string where
  \<open>flt_big_help = ''write a value no larger than 1.7976931348623157e308, or lower the exponent''\<close>

definition id_flt_check :: "string \<Rightarrow> unit parser" where
  "id_flt_check txt =
     (if \<not> id_flt_exp_ok txt
      then id_flt_bad txt ''E0103'' '' has an exponent with no digits'' flt_exp_why flt_exp_help
      else thenP (storeP (id_flt_over txt)) (\<lambda>ov.
             if ov then id_flt_bad txt ''E0104'' '' is too large: it overflows to infinity'' flt_big_why flt_big_help
             else skipP))"

definition id_parse_float :: "int parser" where
  "id_parse_float =
     thenP (lookP id_cur_text) (\<lambda>txt.
     doP (id_flt_check txt) (doP id_advance (id_node_float txt)))"

definition id_parse_bool :: "int parser" where
  "id_parse_bool = thenP (lookP id_cur_text) (\<lambda>txt. doP id_advance (id_node_bool txt))"

definition id_parse_import :: "int parser" where
  "id_parse_import = doP id_advance (thenP id_read_name (\<lambda>name. id_node_txt ''import'' name))"

section \<open>Binary levels\<close>

type_synonym operand = "int parser"

definition id_fold_mul_tail :: "operand \<Rightarrow> int \<Rightarrow> string \<Rightarrow> int parser" where
  "id_fold_mul_tail u left op = thenP u (\<lambda>right. id_node_txt2 ''bin'' op left right)"

definition id_fold_mul :: "operand \<Rightarrow> int \<Rightarrow> int parser" where
  "id_fold_mul u left = thenP (lookP id_cur_text) (\<lambda>op. doP id_advance (id_fold_mul_tail u left op))"

text \<open>\<open>id_op_at\<close> never traps; its answer is the loop's condition.\<close>

definition at_op :: "string list \<Rightarrow> pst \<Rightarrow> bool" where
  "at_op ops s \<longleftrightarrow> id_op_at ops s = Inr True"

definition id_parse_mul :: "operand \<Rightarrow> int parser" where
  "id_parse_mul u = thenP u (whileP (at_op mulops) (id_fold_mul u))"

definition id_fold_add_tail :: "operand \<Rightarrow> int \<Rightarrow> string \<Rightarrow> int parser" where
  "id_fold_add_tail u left op = thenP (id_parse_mul u) (\<lambda>right. id_node_txt2 ''bin'' op left right)"

definition id_fold_add :: "operand \<Rightarrow> int \<Rightarrow> int parser" where
  "id_fold_add u left = thenP (lookP id_cur_text) (\<lambda>op. doP id_advance (id_fold_add_tail u left op))"

definition id_parse_add :: "operand \<Rightarrow> int parser" where
  "id_parse_add u = thenP (id_parse_mul u) (whileP (at_op addops) (id_fold_add u))"

definition id_fold_shift_tail :: "operand \<Rightarrow> int \<Rightarrow> string \<Rightarrow> int parser" where
  "id_fold_shift_tail u left op = thenP (id_parse_add u) (\<lambda>right. id_node_txt2 ''bin'' op left right)"

definition id_fold_shift :: "operand \<Rightarrow> int \<Rightarrow> int parser" where
  "id_fold_shift u left = thenP (lookP id_cur_text) (\<lambda>op. doP id_advance (id_fold_shift_tail u left op))"

definition id_parse_shift :: "operand \<Rightarrow> int parser" where
  "id_parse_shift u = thenP (id_parse_add u) (whileP (at_op shiftops) (id_fold_shift u))"

definition id_fold_bitand :: "operand \<Rightarrow> int \<Rightarrow> int parser" where
  "id_fold_bitand u left = doP id_advance (thenP (id_parse_shift u) (\<lambda>right. id_node_txt2 ''bin'' ''&'' left right))"

definition id_parse_bitand :: "operand \<Rightarrow> int parser" where
  "id_parse_bitand u = thenP (id_parse_shift u) (whileP (\<lambda>s. id_cur_text s = ''&'') (id_fold_bitand u))"

definition id_fold_bitxor :: "operand \<Rightarrow> int \<Rightarrow> int parser" where
  "id_fold_bitxor u left = doP id_advance (thenP (id_parse_bitand u) (\<lambda>right. id_node_txt2 ''bin'' ''^'' left right))"

definition id_parse_bitxor :: "operand \<Rightarrow> int parser" where
  "id_parse_bitxor u = thenP (id_parse_bitand u) (whileP (\<lambda>s. id_cur_text s = ''^'') (id_fold_bitxor u))"

definition id_fold_bitor :: "operand \<Rightarrow> int \<Rightarrow> int parser" where
  "id_fold_bitor u left = doP id_advance (thenP (id_parse_bitxor u) (\<lambda>right. id_node_txt2 ''bin'' ''|'' left right))"

definition id_parse_bitor :: "operand \<Rightarrow> int parser" where
  "id_parse_bitor u = thenP (id_parse_bitxor u) (whileP (\<lambda>s. id_cur_text s = ''|'') (id_fold_bitor u))"

text \<open>A bare \<open>=\<close> between operands is reported and read as \<open>==\<close>.\<close>

definition id_bare_eq_diag :: "unit parser" where
  \<open>id_bare_eq_diag s =
     (let left = id_fix_xtext s (g_pos s - 1); right = id_fix_xtext s (g_pos s + 1);
          why = ''in id a statement `x = y;` stores, and an expression compares with `==`; the single `=` between two operands is accepted by the grammar as a comparison but reads as a store to anyone who knows either form'';
          beq_from = left @ '' = '' @ right; beq_to = left @ '' == '' @ right;
          loc = id_cur_file s @ '':'' @ int_text (id_cur_ln s)
      in doP (id_diag ''E0313'' loc (quo @ ''=' compares nothing here: equality in an expression is written '=='' @ quo) ''='' why
                ''write '==' where the comparison is meant'')
             (if left \<noteq> '''' \<and> right \<noteq> ''''
              then id_diag_edit ''machine'' ''replace'' (id_cur_ln s) beq_from beq_to else skipP) s)\<close>

definition id_rel_op :: "string parser" where
  "id_rel_op =
     thenP (lookP id_cur_text) (\<lambda>op.
       if op = ''=''
       then doP id_bare_eq_diag
           (doP (updP (\<lambda>s. s\<lparr>g_beqtok := lpush (g_beqtok s) (g_pos s)\<rparr>)) (giveP ''==''))
       else giveP op)"

definition id_fold_rel_tail :: "operand \<Rightarrow> int \<Rightarrow> string \<Rightarrow> int parser" where
  "id_fold_rel_tail u left op = thenP (id_parse_bitor u) (\<lambda>right. id_node_txt2 ''bin'' op left right)"

definition id_fold_rel :: "operand \<Rightarrow> int \<Rightarrow> int parser" where
  "id_fold_rel u left = thenP id_rel_op (\<lambda>op. doP id_advance (id_fold_rel_tail u left op))"

definition id_parse_rel :: "operand \<Rightarrow> int parser" where
  "id_parse_rel u = thenP (id_parse_bitor u) (whileP (at_op relops) (id_fold_rel u))"

definition id_fold_and :: "operand \<Rightarrow> int \<Rightarrow> int parser" where
  "id_fold_and u left = doP id_advance (thenP (id_parse_rel u) (\<lambda>right. id_node_txt2 ''bin'' ''&&'' left right))"

definition id_parse_and :: "operand \<Rightarrow> int parser" where
  "id_parse_and u = thenP (id_parse_rel u) (whileP (\<lambda>s. id_cur_text s = ''&&'') (id_fold_and u))"

definition id_fold_or :: "operand \<Rightarrow> int \<Rightarrow> int parser" where
  "id_fold_or u left = doP id_advance (thenP (id_parse_and u) (\<lambda>right. id_node_txt2 ''bin'' ''||'' left right))"

definition id_parse_expr :: "operand \<Rightarrow> int parser" where
  "id_parse_expr u = thenP (id_parse_and u) (whileP (\<lambda>s. id_cur_text s = ''||'') (id_fold_or u))"

section \<open>Lists of expressions\<close>

definition fill_cond :: "string \<Rightarrow> pst \<Rightarrow> bool" where
  "fill_cond close s \<longleftrightarrow> (id_cur_text s \<noteq> close \<and> id_cur_text s \<noteq> '';'') \<and> id_cur_kind s \<noteq> ''eof''"

definition fill_item :: "operand \<Rightarrow> int list \<Rightarrow> int list parser" where
  "fill_item u items = thenP (id_parse_expr u) (\<lambda>e. doP (id_skip_text '','') (giveP (lpush items e)))"

definition id_fill_list :: "operand \<Rightarrow> int list \<Rightarrow> string \<Rightarrow> int list parser" where
  "id_fill_list u items close = whileP (fill_cond close) (fill_item u) items"

definition id_scan_list :: "operand \<Rightarrow> int list \<Rightarrow> string \<Rightarrow> int list parser" where
  "id_scan_list u items close =
     thenP (lookP id_cur_ln) (\<lambda>ln.
     doP id_advance
    (thenP (id_fill_list u items close) (\<lambda>items.
     doP (id_close_bracket close ln) (giveP items))))"

definition id_parse_arr :: "operand \<Rightarrow> int parser" where
  "id_parse_arr u = thenP (id_scan_list u [] '']'') id_node_arr"

definition id_parse_call :: "operand \<Rightarrow> string \<Rightarrow> int parser" where
  "id_parse_call u name = thenP (id_scan_list u [] '')'') (id_node_call name)"

section \<open>Atoms\<close>

definition id_finish_atom :: "operand \<Rightarrow> string \<Rightarrow> int parser" where
  "id_finish_atom u name =
     thenP (id_node_txt ''var'' name) (\<lambda>n s.
       if id_cur_text s = ''(''
       then thenP (id_parse_call u name) (\<lambda>n. doP (id_call_at n (id_cur_ln s)) (giveP n)) s
       else giveP n s)"

definition id_parse_ident_or_call :: "operand \<Rightarrow> int parser" where
  "id_parse_ident_or_call u = doP id_no_op_atom (thenP id_read_name (id_finish_atom u))"

definition id_parse_atom3 :: "operand \<Rightarrow> int parser" where
  "id_parse_atom3 u s = (if id_cur_text s = ''import'' then id_parse_import s else id_parse_ident_or_call u s)"

definition id_parse_atom_bool :: "operand \<Rightarrow> int parser" where
  "id_parse_atom_bool u s =
     (if id_cur_kind s = ''kw'' \<and> (id_cur_text s = ''true'' \<or> id_cur_text s = ''false'')
      then id_parse_bool s else id_parse_atom3 u s)"

definition id_parse_atom_float :: "operand \<Rightarrow> int parser" where
  "id_parse_atom_float u s = (if id_cur_kind s = ''float'' then id_parse_float s else id_parse_atom_bool u s)"

definition id_parse_atom2 :: "operand \<Rightarrow> int parser" where
  "id_parse_atom2 u s = (if id_cur_kind s = ''str'' then id_parse_str s else id_parse_atom_float u s)"

definition id_parse_atom :: "operand \<Rightarrow> int parser" where
  "id_parse_atom u s = (if id_cur_kind s = ''int'' then id_parse_int s else id_parse_atom2 u s)"

definition id_pp2 :: "operand \<Rightarrow> int parser" where
  "id_pp2 u s = (if id_cur_text s = ''['' then id_parse_arr u s else id_parse_atom u s)"

definition id_parse_paren :: "operand \<Rightarrow> int parser" where
  "id_parse_paren u =
     thenP (lookP id_cur_ln) (\<lambda>ln.
     doP id_advance
    (thenP (id_parse_expr u) (\<lambda>e. doP (id_close_bracket '')'' ln) (giveP e))))"

definition id_paren_primary :: "operand \<Rightarrow> int parser" where
  "id_paren_primary u =
     thenP (id_parse_paren u) (\<lambda>e.
     thenP (nodeP e) (\<lambda>n.
     doP (if n_kind n = ''bin'' then updP (\<lambda>s. s\<lparr>g_nparen := lpush (g_nparen s) e\<rparr>) else skipP)
    (doP (id_grp_note e) (giveP e))))"

definition id_parse_primary :: "operand \<Rightarrow> int parser" where
  "id_parse_primary u s = (if id_cur_text s = ''('' then id_paren_primary u s else id_pp2 u s)"

section \<open>Postfix and prefix operators\<close>

definition id_fold_index_tail :: "int \<Rightarrow> int \<Rightarrow> int \<Rightarrow> int parser" where
  "id_fold_index_tail base idx open_ln = doP (id_close_bracket '']'' open_ln) (id_node_index base idx)"

definition id_fold_index :: "operand \<Rightarrow> int \<Rightarrow> int parser" where
  "id_fold_index u base =
     thenP (lookP id_cur_ln) (\<lambda>ln.
     doP id_advance
    (thenP (id_parse_expr u) (\<lambda>idx. id_fold_index_tail base idx ln)))"

definition id_fold_field :: "int \<Rightarrow> int parser" where
  "id_fold_field base =
     doP id_advance
    (thenP id_read_name (\<lambda>fl. thenP (id_newleaf ''fld'' 0 0 fl '''') (id_node_index base)))"

definition id_fold_post :: "operand \<Rightarrow> int \<Rightarrow> int parser" where
  "id_fold_post u base s = (if id_cur_text s = ''['' then id_fold_index u base s else id_fold_field base s)"

definition id_parse_postfix :: "operand \<Rightarrow> int parser" where
  "id_parse_postfix u =
     thenP (id_parse_primary u) (whileP (\<lambda>s. id_cur_text s = ''['' \<or> id_cur_text s = ''.'') (id_fold_post u))"

definition id_fold_unary_tail :: "operand \<Rightarrow> string \<Rightarrow> int parser" where
  "id_fold_unary_tail u op = thenP u (id_node_txt1 ''un'' op)"

definition id_fold_unary :: "operand \<Rightarrow> int parser" where
  "id_fold_unary u = thenP (lookP id_cur_text) (\<lambda>op. doP id_advance (id_fold_unary_tail u op))"

definition id_unary_or_postfix :: "operand \<Rightarrow> string \<Rightarrow> int parser" where
  "id_unary_or_postfix u tok =
     thenP (resP (\<lambda>_. id_str_in unops tok)) (\<lambda>y. if y then id_fold_unary u else id_parse_postfix u)"

primrec id_parse_unary :: "nat \<Rightarrow> int parser" where
  "id_parse_unary 0 = (\<lambda>s. None)"
| "id_parse_unary (Suc d) =
     thenP (lookP id_cur_text) (\<lambda>tok. id_unary_or_postfix (id_parse_unary d) tok)"

end
