(* ===== verification/ParseType.thy ===== *)
theory ParseType
  imports ParseCore
begin

text \<open>
  Types are read to their canonical text: a word with \<open>[]\<close> after it for each list level, a
  channel end with the type of its messages in brackets, a function type with its parameter
  types and its result. As in the expression parser, the functions take the parser of a nested
  type as first argument and \<open>id_parse_type\<close> is bounded by a nesting depth.
\<close>

definition id_ty_is_func :: "string \<Rightarrow> bool" where
  "id_ty_is_func t \<longleftrightarrow> code_at t 0 = 102 \<and> code_at t 4 = 40"

definition id_ty_is_list :: "string \<Rightarrow> bool" where
  "id_ty_is_list t \<longleftrightarrow> (let n = id_len t in (n > 2 \<and> code_at t (n - 1) = 93) \<and> \<not> id_ty_is_func t)"

definition brackets_step :: "string \<Rightarrow> string parser" where
  "brackets_step t = doP id_advance (doP id_advance (giveP (t @ ''[]'')))"

definition id_add_brackets :: "string \<Rightarrow> string parser" where
  "id_add_brackets t = whileP (\<lambda>s. id_cur_text s = ''['') brackets_step t"

definition id_end_word_err :: "unit parser" where
  \<open>id_end_word_err =
     id_syn_diag ''E0809'' ''a channel cannot carry a 'word': a word is an address in the flat store, and the store belongs to one thread'' ''word''
       ''the thread that receives the message has a different store, so the address would point at nothing or at the wrong memory''
       ''send the value the address refers to (an int, a string, or bytes), not the address''\<close>

definition id_end_func_err :: "unit parser" where
  \<open>id_end_func_err =
     id_syn_diag ''E0810'' ''a channel cannot carry a function value or void: a function value points into the thread that made it, and void is no value'' ''func''
       ''a function value sent to another thread would call code and captured variables that belong to the sender''
       ''send an int that names the action, and let the receiving thread choose the function; or send a struct of plain values''\<close>

definition id_end_msg_ok :: "string \<Rightarrow> unit parser" where
  "id_end_msg_ok mtype =
     doP (if mtype = ''word'' then id_end_word_err else skipP)
         (if id_ty_is_func mtype \<or> mtype = ''void'' then id_end_func_err else skipP)"

definition id_close_end :: "unit parser" where
  "id_close_end = doP (id_expect_text '')'') id_advance"

definition id_parse_end_type :: "string parser \<Rightarrow> string \<Rightarrow> string parser" where
  "id_parse_end_type ty t =
     doP (id_expect_text ''('')
    (doP id_advance
    (thenP ty (\<lambda>mtype.
     doP (id_end_msg_ok mtype)
    (doP id_close_end (giveP (t @ ''('' @ mtype @ '')''))))))"

definition id_end_or_brackets :: "string parser \<Rightarrow> string \<Rightarrow> string parser" where
  "id_end_or_brackets ty t =
     (if t = ''sender'' \<or> t = ''receiver'' then id_parse_end_type ty t else id_add_brackets t)"

definition id_fn_sep :: "string \<Rightarrow> string" where
  "id_fn_sep out = (if out \<noteq> '''' then '', '' else '''')"

definition id_no_param_name :: "string \<Rightarrow> unit parser" where
  \<open>id_no_param_name pt =
     doP (\<lambda>s. if id_cur_kind s = ''ident''
              then doP (id_syn_err (''a function type lists parameter types only: write '' @ quo @ pt @ quo @ '', not '' @ quo @ pt @ '' '' @ id_cur_text s @ quo)) id_advance s
              else skipP s)
         (id_skip_text '','')\<close>

definition id_fn_type_param :: "string parser \<Rightarrow> string \<Rightarrow> string parser" where
  "id_fn_type_param ty out =
     thenP ty (\<lambda>pt. doP (id_no_param_name pt) (giveP (out @ id_fn_sep out @ pt)))"

definition id_fn_type_params :: "string parser \<Rightarrow> string \<Rightarrow> string parser" where
  "id_fn_type_params ty out =
     thenP (whileP (\<lambda>s. id_cur_text s \<noteq> '')'' \<and> id_cur_kind s \<noteq> ''eof'') (id_fn_type_param ty) out) (\<lambda>out.
     doP id_advance (giveP out))"

definition id_no_fn_ret :: "string \<Rightarrow> unit parser" where
  "id_no_fn_ret rb =
     (if rb = ''func''
      then id_syn_err ''a function type cannot return a function value; pass the function, or store it in a local or an export''
      else skipP)"

definition id_no_void_list :: "string \<Rightarrow> string \<Rightarrow> string \<Rightarrow> unit parser" where
  \<open>id_no_void_list pl rb rt =
     (if rb = ''void'' \<and> rt \<noteq> ''void''
      then id_syn_err (quo @ ''func('' @ pl @ '') return '' @ rt @ quo @ '': brackets after a function type's return type belong to the return type, and '' @ rt @ '' is not a type; a function value cannot be an element of a list'')
      else skipP)\<close>

definition id_fn_type_ret3 :: "string parser \<Rightarrow> string \<Rightarrow> string \<Rightarrow> string parser" where
  "id_fn_type_ret3 ty pl rb =
     thenP ty (\<lambda>rt. doP (id_no_void_list pl rb rt) (giveP (''func('' @ pl @ '') return '' @ rt)))"

definition id_fn_type_ret2 :: "string parser \<Rightarrow> string \<Rightarrow> string parser" where
  "id_fn_type_ret2 ty pl =
     thenP (lookP id_cur_text) (\<lambda>rb. doP (id_no_fn_ret rb) (id_fn_type_ret3 ty pl rb))"

definition id_fn_type_ret :: "string parser \<Rightarrow> string \<Rightarrow> string parser" where
  "id_fn_type_ret ty pl = doP (id_expect_text ''return'') (doP id_advance (id_fn_type_ret2 ty pl))"

definition id_fn_type_rest :: "string parser \<Rightarrow> string parser" where
  "id_fn_type_rest ty = thenP (id_fn_type_params ty '''') (id_fn_type_ret ty)"

definition id_parse_fn_type :: "string parser \<Rightarrow> string parser" where
  "id_parse_fn_type ty = doP (id_expect_text ''('') (doP id_advance (id_fn_type_rest ty))"

definition id_type_tail :: "string parser \<Rightarrow> string \<Rightarrow> string parser" where
  "id_type_tail ty t = (if t = ''func'' then id_parse_fn_type ty else id_end_or_brackets ty t)"

primrec id_parse_type :: "nat \<Rightarrow> string parser" where
  "id_parse_type 0 = (\<lambda>s. None)"
| "id_parse_type (Suc d) =
     thenP (lookP id_cur_text) (\<lambda>t. doP id_advance (id_type_tail (id_parse_type d) t))"

end
