(* ===== verification/ParseStmt.thy ===== *)
theory ParseStmt
  imports ParseExpr ParseType
begin

text \<open>
  Statements and blocks. Every function takes a nesting depth \<open>n\<close> for the expressions and
  types in it; the functions that read a block also take \<open>fs\<close>, the parser of one statement of
  a block, and \<open>id_fill_stmt\<close> ties the knot, bounded by a depth of its own. A list of statements
  under construction, which the C code extends in place, is passed in and returned.
\<close>

abbreviation exprP :: "nat \<Rightarrow> int parser" where
  "exprP n \<equiv> id_parse_expr (id_parse_unary n)"

type_synonym filler = "int list \<Rightarrow> int list parser"

section \<open>Simple statements\<close>

definition id_parse_exprstmt :: "nat \<Rightarrow> int parser" where
  "id_parse_exprstmt n = thenP (exprP n) (\<lambda>e. doP (id_skip_text '';'') (id_node_exprstmt e))"

definition id_assign_rhs :: "nat \<Rightarrow> string \<Rightarrow> int parser" where
  "id_assign_rhs n name = thenP (exprP n) (\<lambda>e. doP (id_skip_text '';'') (id_node_txt1 ''assign'' name e))"

definition id_parse_assign :: "nat \<Rightarrow> int parser" where
  "id_parse_assign n =
     thenP (lookP id_cur_text) (\<lambda>name. doP id_advance (doP id_advance (id_assign_rhs n name)))"

definition id_parse_iassign :: "nat \<Rightarrow> int parser" where
  "id_parse_iassign n =
     thenP (id_parse_postfix (id_parse_unary n)) (\<lambda>target.
     doP id_advance
    (thenP (exprP n) (\<lambda>e. doP (id_skip_text '';'') (id_node_iassign target e))))"

definition id_parse_stmt5 :: "nat \<Rightarrow> int parser" where
  "id_parse_stmt5 n =
     thenP (resP (id_ident_then nx_index)) (\<lambda>y. if y then id_parse_iassign n else id_parse_exprstmt n)"

definition id_parse_stmt4 :: "nat \<Rightarrow> int parser" where
  "id_parse_stmt4 n =
     thenP (resP (id_ident_then nx_eq)) (\<lambda>y. if y then id_parse_assign n else id_parse_stmt5 n)"

definition id_parse_ret :: "nat \<Rightarrow> int parser" where
  "id_parse_ret n =
     doP id_advance
    (thenP (\<lambda>s. if id_cur_text s \<noteq> '';'' then exprP n s else giveP (0 - 1) s) (\<lambda>e.
     doP (id_skip_text '';'')
    (thenP (id_newnode ''ret'' e 0 '''' '''' [] []) (\<lambda>r.
     doP (updP (\<lambda>s. s\<lparr>g_pend_rets := lpush (g_pend_rets s) r\<rparr>)) (giveP r)))))"

definition id_parse_ret_or :: "nat \<Rightarrow> int parser" where
  "id_parse_ret_or n s = (if id_cur_text s = ''return'' then id_parse_ret n s else id_parse_stmt4 n s)"

definition id_parse_blank :: "int parser" where
  \<open>id_parse_blank =
     thenP (lookP id_cur_text) (\<lambda>kw.
     doP (\<lambda>s. if kw = ''break'' \<and> g_loopd s = 0
              then id_syn_diag ''E0109'' (quo @ ''break' is not inside a 'while'' @ quo) ''break''
                ''break leaves the innermost enclosing loop, so with no loop around it there is nothing to leave''
                ''delete the 'break', or move it into the body of the 'while' it should leave'' s
              else skipP s)
    (doP id_advance
    (doP (id_skip_text '';'') (id_newleaf kw (0 - 1) 0 '''' ''''))))\<close>

definition id_parse_blank_or :: "nat \<Rightarrow> int parser" where
  "id_parse_blank_or n s =
     (if id_cur_text s = ''blank'' \<or> id_cur_text s = ''break'' then id_parse_blank s else id_parse_ret_or n s)"

section \<open>Declarations\<close>

definition id_decl_rhs :: "nat \<Rightarrow> string \<Rightarrow> string \<Rightarrow> int \<Rightarrow> int parser" where
  "id_decl_rhs n type name exported =
     thenP (exprP n) (\<lambda>e. doP (id_skip_text '';'') (id_node_decl type name e exported))"

definition id_finish_decl_tail :: "nat \<Rightarrow> string \<Rightarrow> string \<Rightarrow> int \<Rightarrow> int parser" where
  "id_finish_decl_tail n type name exported = doP (id_eat_text ''='') (id_decl_rhs n type name exported)"

definition id_finish_decl :: "nat \<Rightarrow> string \<Rightarrow> int \<Rightarrow> int parser" where
  "id_finish_decl n type exported = thenP id_read_name (\<lambda>name. id_finish_decl_tail n type name exported)"

definition id_take_export :: "int parser" where
  "id_take_export s = (if id_cur_text s = ''export'' then doP id_advance (giveP 1) s else giveP 0 s)"

definition id_parse_decl :: "nat \<Rightarrow> int parser" where
  "id_parse_decl n =
     thenP id_take_export (\<lambda>exported. thenP (id_parse_type n) (\<lambda>type. id_finish_decl n type exported))"

definition id_is_named_type_start :: "pst \<Rightarrow> bool" where
  "id_is_named_type_start s \<longleftrightarrow>
     (if id_cur_kind s = ''ident'' \<and> id_cur2_kind s = ''ident'' then True
      else (id_cur_kind s = ''ident'' \<and> id_peek_text s 1 = ''['') \<and> id_peek_text s 2 = '']'')"

definition id_is_decl_start :: "pst \<Rightarrow> bool res" where
  "id_is_decl_start s =
     andThen (id_str_in typewords (id_cur_text s)) (\<lambda>y. Inr (if id_is_named_type_start s then True else y))"

definition id_parse_stmt3 :: "nat \<Rightarrow> int parser" where
  "id_parse_stmt3 n =
     thenP (resP id_is_decl_start) (\<lambda>y. if y then id_parse_decl n else id_parse_blank_or n)"

section \<open>Blocks, conditionals and loops\<close>

definition id_fill_block :: "filler \<Rightarrow> int list \<Rightarrow> int list parser" where
  "id_fill_block fs stmts = whileP (\<lambda>s. id_cur_text s \<noteq> ''}'' \<and> id_cur_kind s \<noteq> ''eof'') fs stmts"

definition id_scan_block :: "filler \<Rightarrow> int list \<Rightarrow> int list parser" where
  "id_scan_block fs stmts =
     doP id_advance (thenP (id_fill_block fs stmts) (\<lambda>stmts. doP id_advance (giveP stmts)))"

definition id_parse_block :: "filler \<Rightarrow> int list parser" where
  "id_parse_block fs = doP (id_expect_text ''{'') (id_scan_block fs [])"

definition id_else_body :: "filler \<Rightarrow> int parser \<Rightarrow> int list parser" where
  "id_else_body fs pif s =
     (if id_cur_text s = ''if'' then thenP pif (\<lambda>i. giveP (lpush [] i)) s else id_parse_block fs s)"

definition id_parse_else :: "filler \<Rightarrow> int parser \<Rightarrow> int list parser" where
  "id_parse_else fs pif s =
     (if id_cur_text s = ''else'' then doP id_advance (id_else_body fs pif) s else giveP [] s)"

definition id_at_elif :: "pst \<Rightarrow> int" where
  "id_at_elif s =
     (let ok = (if id_cur_text s = ''else'' then 2 else 0)
      in if ok = 2 \<and> id_peek_text s 1 = ''if'' then 1 else ok)"

definition id_if_tail :: "filler \<Rightarrow> int parser \<Rightarrow> int \<Rightarrow> int list \<Rightarrow> int \<Rightarrow> int parser" where
  "id_if_tail fs pif cond thenl elif = thenP (id_parse_else fs pif) (\<lambda>elsel. id_node_if cond thenl elsel elif)"

definition id_if_body :: "filler \<Rightarrow> int parser \<Rightarrow> int \<Rightarrow> int parser" where
  "id_if_body fs pif cond =
     thenP (id_parse_block fs) (\<lambda>thenl.
     thenP (lookP id_at_elif) (\<lambda>elif. id_if_tail fs pif cond thenl elif))"

text \<open>A chain of \<open>else if\<close> nests to the right; its length is bounded by the depth \<open>d\<close>.\<close>

primrec id_parse_if :: "nat \<Rightarrow> filler \<Rightarrow> nat \<Rightarrow> int parser" where
  "id_parse_if n fs 0 = (\<lambda>s. None)"
| "id_parse_if n fs (Suc d) =
     doP id_advance
    (thenP (id_parse_paren (id_parse_unary n)) (\<lambda>cond. id_if_body fs (id_parse_if n fs d) cond))"

definition add_loopd :: "int \<Rightarrow> unit parser" where
  "add_loopd k = updP (\<lambda>s. s\<lparr>g_loopd := g_loopd s + k\<rparr>)"

definition id_parse_while :: "nat \<Rightarrow> filler \<Rightarrow> int parser" where
  "id_parse_while n fs =
     doP id_advance
    (thenP (id_parse_paren (id_parse_unary n)) (\<lambda>cond.
     doP (add_loopd 1)
    (thenP (id_parse_block fs) (\<lambda>body.
     doP (add_loopd (- 1)) (id_node_while cond body)))))"

definition id_parse_stmt2 :: "nat \<Rightarrow> filler \<Rightarrow> int parser" where
  "id_parse_stmt2 n fs s = (if id_cur_text s = ''while'' then id_parse_while n fs s else id_parse_stmt3 n s)"

definition id_parse_stmt :: "nat \<Rightarrow> filler \<Rightarrow> int parser" where
  "id_parse_stmt n fs s = (if id_cur_text s = ''if'' then id_parse_if n fs n s else id_parse_stmt2 n fs s)"

definition id_stmt_at_line :: "nat \<Rightarrow> filler \<Rightarrow> int parser" where
  "id_stmt_at_line n fs =
     thenP (lookP g_pos) (\<lambda>t0. thenP (id_parse_stmt n fs) (\<lambda>i. doP (id_stmt_done i t0) (giveP i)))"

text \<open>
  A \<open>for\<close> becomes its first statement, and a while loop whose body ends with the step; both
  are put on the list of the block the \<open>for\<close> stands in.
\<close>

definition id_parse_for_init :: "nat \<Rightarrow> int parser" where
  "id_parse_for_init n =
     thenP (lookP g_pos) (\<lambda>t0. thenP (id_parse_stmt3 n) (\<lambda>first. doP (id_stmt_done first t0) (giveP first)))"

definition id_parse_for_step :: "nat \<Rightarrow> int parser" where
  "id_parse_for_step n =
     thenP (lookP g_pos) (\<lambda>t0.
     thenP (lookP id_cur_text) (\<lambda>name.
     doP id_advance
    (doP id_advance
    (thenP (exprP n) (\<lambda>ex.
     doP (id_skip_text '')'')
    (thenP (id_node_txt1 ''assign'' name ex) (\<lambda>r. doP (id_stmt_done r t0) (giveP r))))))))"

definition id_parse_for_loop :: "filler \<Rightarrow> int \<Rightarrow> int \<Rightarrow> int parser" where
  "id_parse_for_loop fs cond step =
     doP (add_loopd 1)
    (thenP (id_parse_block fs) (\<lambda>body.
     let body = lpush body step
     in doP (add_loopd (- 1))
       (thenP (id_node_while cond body) (\<lambda>r.
        doP (set_node r (\<lambda>w. w\<lparr>n_i2 := 1\<rparr>)) (giveP r)))))"

definition id_parse_for :: "nat \<Rightarrow> filler \<Rightarrow> int list \<Rightarrow> (int \<times> int list) parser" where
  "id_parse_for n fs stmts =
     doP id_advance
    (doP (id_skip_text ''('')
    (thenP (id_parse_for_init n) (\<lambda>first.
     let stmts = lpush stmts first
     in thenP (exprP n) (\<lambda>cond.
        doP (id_skip_text '';'')
       (thenP (id_parse_for_step n) (\<lambda>step.
        thenP (id_parse_for_loop fs cond step) (\<lambda>r. giveP (r, lpush stmts r))))))))"

primrec id_fill_stmt :: "nat \<Rightarrow> nat \<Rightarrow> filler" where
  "id_fill_stmt n 0 = (\<lambda>stmts s. None)"
| "id_fill_stmt n (Suc d) = (\<lambda>stmts s.
     if id_cur_text s = ''for''
     then thenP (lookP g_pos) (\<lambda>t0.
          thenP (id_parse_for n (id_fill_stmt n d) stmts) (\<lambda>(for_node, stmts).
          doP (id_stmt_done for_node t0) (giveP stmts))) s
     else thenP (id_stmt_at_line n (id_fill_stmt n d)) (\<lambda>st. giveP (lpush stmts st)) s)"

end
