(* ===== verification/ParseFun.thy ===== *)
theory ParseFun
  imports ParseStmt
begin

text \<open>
  Functions, natives, structs, assembly functions and file marks: the declarations of a file,
  except the test cases that may follow a function.
\<close>

section \<open>Marks on parameters\<close>

definition id_at_pure :: "pst \<Rightarrow> bool" where
  "id_at_pure s \<longleftrightarrow> id_cur_text s = ''pure''"

definition id_skip_pure :: "unit parser" where
  "id_skip_pure s = (if id_at_pure s then id_advance s else skipP s)"

definition id_take_borrows :: "bool parser" where
  "id_take_borrows s =
     (if id_cur_text s = ''borrows'' then doP id_advance (giveP True) s else giveP False s)"

definition id_pure_mark_fn :: "bool \<Rightarrow> int \<Rightarrow> unit parser" where
  "id_pure_mark_fn pflag i = (if pflag then updP (\<lambda>s. s\<lparr>g_pure := lpush (g_pure s) i\<rparr>) else skipP)"

definition id_pure_misplaced :: "string \<Rightarrow> string \<Rightarrow> unit parser" where
  \<open>id_pure_misplaced name type =
     id_syn_diag ''E0807'' (quo @ ''pure' belongs before a parameter whose type is a function type, and '' @ quo @ name @ quo @ '' is '' @ type) name
       (quo @ ''pure' promises that the function a caller passes writes no export and does no I/O, which says nothing about a value of type '' @ type)
       (''write 'pure func(...) return ...' only for a function-typed parameter; remove 'pure' from '' @ quo @ name @ quo @ '', or give it a function type'')\<close>

definition id_pure_mark_param :: "bool \<Rightarrow> int \<Rightarrow> unit parser" where
  "id_pure_mark_param pflag i =
     doP (if pflag
          then thenP (nodeP i) (\<lambda>n.
                 if \<not> id_string_starts_with (n_s1 n) ''func('' then id_pure_misplaced (n_s2 n) (n_s1 n) else skipP)
          else skipP)
         (id_pure_mark_fn pflag i)"

definition id_borrow_bad :: "string \<Rightarrow> string \<Rightarrow> bool" where
  "id_borrow_bad kind type \<longleftrightarrow> (kind \<noteq> ''nparam'' \<or> type = ''int'') \<or> type = ''float''"

definition id_borrow_refuse :: "string \<Rightarrow> string \<Rightarrow> unit parser" where
  \<open>id_borrow_refuse kind type =
     id_syn_diag ''E0808'' (quo @ ''borrows' cannot be written on a '' @ kind @ '' of type '' @ type @ ''; it marks a string, list, bytes, struct or word parameter of a native'') type
       (quo @ ''borrows' promises that the C behind a native does not keep the heap value it is given, and an int or float is not a heap value, nor is a parameter of a function that has a body'')
       ''remove 'borrows' here, or move it to the string, list, bytes, struct or word parameter of the native that the C only reads during the call''\<close>

definition id_borrow_check :: "string \<Rightarrow> string \<Rightarrow> int \<Rightarrow> unit parser" where
  "id_borrow_check kind type i =
     (if id_borrow_bad kind type then id_borrow_refuse kind type
      else updP (\<lambda>s. s\<lparr>g_borrow := lpush (g_borrow s) i\<rparr>))"

definition id_borrow_mark :: "string \<Rightarrow> bool \<Rightarrow> string \<Rightarrow> int \<Rightarrow> unit parser" where
  "id_borrow_mark kind bflag type i = (if bflag then id_borrow_check kind type i else skipP)"

section \<open>Parameters\<close>

definition id_one_param :: "nat \<Rightarrow> string \<Rightarrow> int parser" where
  "id_one_param n kind =
     thenP (lookP id_at_pure) (\<lambda>pure_v.
     doP id_skip_pure
    (thenP id_take_borrows (\<lambda>bflag.
     thenP (id_parse_type n) (\<lambda>type.
     thenP id_read_name (\<lambda>name.
     thenP (id_node_param kind type name) (\<lambda>r.
     doP (id_pure_mark_param pure_v r)
    (doP (id_borrow_mark kind bflag type r) (giveP r))))))))"

definition fill_param :: "nat \<Rightarrow> string \<Rightarrow> int list \<Rightarrow> int list parser" where
  "fill_param n kind params =
     thenP (id_one_param n kind) (\<lambda>p. doP (id_skip_text '','') (giveP (lpush params p)))"

definition id_fill_params :: "nat \<Rightarrow> int list \<Rightarrow> string \<Rightarrow> int list parser" where
  "id_fill_params n params kind =
     whileP (\<lambda>s. (id_cur_text s \<noteq> '')'' \<and> id_cur_text s \<noteq> ''{'') \<and> id_cur_kind s \<noteq> ''eof'') (fill_param n kind) params"

definition id_scan_params :: "nat \<Rightarrow> int list \<Rightarrow> string \<Rightarrow> int list parser" where
  "id_scan_params n params kind =
     thenP (lookP id_cur_ln) (\<lambda>ln.
     doP id_advance
    (thenP (id_fill_params n params kind) (\<lambda>params.
     doP (id_close_bracket '')'' ln) (giveP params))))"

definition id_parse_params :: "nat \<Rightarrow> string \<Rightarrow> int list parser" where
  "id_parse_params n kind = id_scan_params n [] kind"

section \<open>Return clauses\<close>

definition id_void_step :: "pst \<Rightarrow> int \<Rightarrow> int \<Rightarrow> int" where
  "id_void_step s at n = (if id_tok_str s at = ''('' then n + 1 else if id_tok_str s at = '')'' then n - 1 else n)"

function id_void_close :: "pst \<Rightarrow> int \<Rightarrow> int \<Rightarrow> int \<Rightarrow> int" where
  "id_void_close s at n lo =
     (if at < llen (g_text s) \<and> (n > 0 \<or> at = lo)
      then id_void_close s (at + 1) (id_void_step s at n) lo else at)"
  by pat_completeness auto
termination by (relation "measure (\<lambda>(s, at, n, lo). nat (llen (g_text s) - at))") auto

declare id_void_close.simps [simp del]

definition id_void_semi :: "pst \<Rightarrow> int \<Rightarrow> bool" where
  "id_void_semi s at \<longleftrightarrow> id_tok_str s at = '';''"

definition id_void_call :: "pst \<Rightarrow> int \<Rightarrow> bool" where
  "id_void_call s at \<longleftrightarrow>
     (if id_tok_at s at = ''ident'' \<and> id_tok_str s (at + 1) = ''(''
      then id_void_semi s (id_void_close s (at + 1) 0 (at + 1)) else False)"

definition id_void_export :: "unit parser" where
  \<open>id_void_export s =
     (if id_cur_kind s = ''kw'' \<and> id_cur_text s = ''export''
      then doP id_advance
          (thenP id_read_name (\<lambda>nm.
           doP (updP (\<lambda>s. s\<lparr>g_retexp_pend := lpush (g_retexp_pend s) nm\<rparr>))
               (\<lambda>s. if id_cur_text s = '',''
                    then id_syn_err ''a return clause names exactly one exported variable: write '} return void export NAME;' with the one variable this function exists to initialize'' s
                    else skipP s))) s
      else skipP s)\<close>

definition id_void_tail :: "unit parser" where
  \<open>id_void_tail =
     doP (\<lambda>s. if id_void_call s (g_pos s)
              then id_syn_err ''a 'void' return clause takes no expression; write '} return void;' and move the call into the body'' s
              else skipP s)
         id_void_export\<close>

definition id_ret_expr :: "nat \<Rightarrow> string \<Rightarrow> int parser" where
  "id_ret_expr n rt = (if rt \<noteq> ''void'' then exprP n else doP id_void_tail (giveP (0 - 1)))"

text \<open>The \<open>return\<close> statements of a body are labelled with the function they leave.\<close>

definition seal_one :: "string \<Rightarrow> string \<Rightarrow> unit \<Rightarrow> unit parser" where
  "seal_one name rt a =
     thenP (resP (\<lambda>s. lpop (g_pend_rets s))) (\<lambda>(r, rest).
     doP (updP (\<lambda>s. s\<lparr>g_pend_rets := rest\<rparr>))
         (set_node r (\<lambda>n. n\<lparr>n_s1 := name, n_s2 := rt\<rparr>)))"

definition id_seal_rets :: "string \<Rightarrow> string \<Rightarrow> unit parser" where
  "id_seal_rets name rt = whileP (\<lambda>s. llen (g_pend_rets s) > 0) (seal_one name rt) ()"

definition id_retexp_bind :: "int \<Rightarrow> unit parser" where
  "id_retexp_bind fnode s =
     (if llen (g_retexp_pend s) > 0
      then thenP (resP (\<lambda>s. lpop (g_retexp_pend s))) (\<lambda>(nm, rest).
           doP (updP (\<lambda>s. s\<lparr>g_retexp_pend := rest, g_retexp := lpush (g_retexp s) nm\<rparr>))
               (\<lambda>s. set_node fnode (\<lambda>n. n\<lparr>n_i2 := llen (g_retexp s) + 1\<rparr>) s)) s
      else skipP s)"

definition id_non_void_export :: "string \<Rightarrow> unit parser" where
  \<open>id_non_void_export rt s =
     (if (rt \<noteq> ''void'' \<and> id_cur_kind s = ''kw'') \<and> id_cur_text s = ''export''
      then doP (id_syn_err (''only a void function can name the export it initializes: '} return '' @ rt @ '' export NAME;' gives a value and a variable at once; drop 'export NAME' from the return clause, or make the function void''))
          (doP id_advance id_advance) s
      else skipP s)\<close>

section \<open>Chains\<close>

text \<open>A chain restates the parameters and adds a body after the first.\<close>

definition id_chain_one :: "int \<Rightarrow> int \<Rightarrow> unit parser" where
  \<open>id_chain_one a b =
     thenP (nodeP a) (\<lambda>na. thenP (nodeP b) (\<lambda>nb.
       if n_s1 na \<noteq> n_s1 nb \<or> n_s2 na \<noteq> n_s2 nb
       then id_syn_err ''a chain restates the function's parameters exactly; this one differs'' else skipP))\<close>

function id_chain_each :: "int list \<Rightarrow> int list \<Rightarrow> int \<Rightarrow> unit parser" where
  "id_chain_each params restated i =
     (if i < llen params
      then thenP (resP (\<lambda>_. lget params i)) (\<lambda>a. thenP (resP (\<lambda>_. lget restated i)) (\<lambda>b.
           doP (id_chain_one a b) (id_chain_each params restated (i + 1))))
      else skipP)"
  by pat_completeness auto
termination by (relation "measure (\<lambda>(params, restated, i). nat (llen params - i))") auto

declare id_chain_each.simps [simp del]

definition id_chain_same :: "int list \<Rightarrow> int list \<Rightarrow> unit parser" where
  \<open>id_chain_same params restated =
     (if llen params \<noteq> llen restated
      then id_syn_err ''a chain restates the function's parameters exactly; this one lists a different number''
      else id_chain_each params restated 0)\<close>

definition id_chain_add :: "int list \<Rightarrow> int list \<Rightarrow> int list parser" where
  "id_chain_add body seg =
     thenP (id_newleaf ''chain'' (0 - 1) 0 '''' '''') (\<lambda>mark. resP (\<lambda>_. id_list_extend (lpush body mark) seg))"

definition id_chain_tail :: "filler \<Rightarrow> int list \<Rightarrow> int list \<Rightarrow> int list \<Rightarrow> int list parser" where
  "id_chain_tail fs params restated body =
     doP (id_chain_same params restated) (thenP (id_parse_block fs) (\<lambda>seg. id_chain_add body seg))"

definition id_take_chain :: "nat \<Rightarrow> filler \<Rightarrow> int list \<Rightarrow> int list \<Rightarrow> int list parser" where
  "id_take_chain n fs params body =
     doP id_advance
    (thenP (id_parse_params n ''param'') (\<lambda>restated. id_chain_tail fs params restated body))"

definition id_chain_loop :: "nat \<Rightarrow> filler \<Rightarrow> int list \<Rightarrow> int list \<Rightarrow> int list parser" where
  "id_chain_loop n fs params body = whileP (\<lambda>s. id_cur_text s = ''chain'') (id_take_chain n fs params) body"

definition id_parse_segments :: "nat \<Rightarrow> filler \<Rightarrow> int list \<Rightarrow> int list parser" where
  "id_parse_segments n fs params = thenP (id_parse_block fs) (id_chain_loop n fs params)"

section \<open>Functions\<close>

definition id_func_done :: "nat \<Rightarrow> string \<Rightarrow> int list \<Rightarrow> int list \<Rightarrow> string \<Rightarrow> int parser" where
  "id_func_done n name params body rt =
     thenP (id_ret_expr n rt) (\<lambda>rexpr.
     doP (id_skip_text '';'')
    (thenP (id_node_func name rt params body rexpr) (\<lambda>r.
     doP (id_seal_rets name rt)
    (doP (id_non_void_export rt)
    (doP (id_retexp_bind r) (giveP r))))))"

definition id_func_ret :: "nat \<Rightarrow> string \<Rightarrow> int list \<Rightarrow> int list \<Rightarrow> int parser" where
  "id_func_ret n name params body =
     doP id_advance (thenP (id_parse_type n) (id_func_done n name params body))"

definition id_func_sig :: "nat \<Rightarrow> string \<Rightarrow> int parser" where
  "id_func_sig n name =
     thenP (id_parse_params n ''param'') (\<lambda>params.
     thenP (id_parse_segments n (id_fill_stmt n n) params) (\<lambda>body. id_func_ret n name params body))"

definition id_parse_func :: "nat \<Rightarrow> int parser" where
  "id_parse_func n = thenP id_read_name (id_func_sig n)"

definition id_native_node :: "string \<Rightarrow> string \<Rightarrow> int list \<Rightarrow> int parser" where
  "id_native_node name rt params =
     doP (id_skip_text '';'') (id_newnode ''func'' (0 - 1) 1 name rt params [])"

definition id_native_type :: "nat \<Rightarrow> string \<Rightarrow> int list \<Rightarrow> int parser" where
  "id_native_type n name params =
     thenP (id_parse_type n) (\<lambda>rt. doP (id_expect_text '';'') (id_native_node name rt params))"

definition id_native_ret :: "nat \<Rightarrow> string \<Rightarrow> int list \<Rightarrow> int parser" where
  "id_native_ret n name params = doP (id_expect_text ''return'') (doP id_advance (id_native_type n name params))"

definition id_native_sig :: "nat \<Rightarrow> string \<Rightarrow> int parser" where
  "id_native_sig n name = doP id_advance (thenP (id_parse_params n ''nparam'') (id_native_ret n name))"

definition id_parse_native :: "nat \<Rightarrow> int parser" where
  "id_parse_native n = doP id_advance (thenP (lookP id_cur_text) (id_native_sig n))"

definition id_parse_fn_kind :: "nat \<Rightarrow> int parser" where
  "id_parse_fn_kind n s = (if id_cur_text s = ''native'' then id_parse_native n s else id_parse_func n s)"

definition id_parse_fn :: "nat \<Rightarrow> int parser" where
  "id_parse_fn n =
     thenP (lookP id_at_pure) (\<lambda>pure_v.
     doP id_skip_pure
    (thenP (id_parse_fn_kind n) (\<lambda>r. doP (id_pure_mark_fn pure_v r) (giveP r))))"

section \<open>Structs\<close>

definition id_sd_field :: "nat \<Rightarrow> string list \<times> string list \<Rightarrow> (string list \<times> string list) parser" where
  "id_sd_field n fs =
     thenP (id_parse_type n) (\<lambda>t.
     thenP id_read_name (\<lambda>fl.
     doP (id_expect_text '';'')
    (doP id_advance (giveP (lpush (fst fs) fl, lpush (snd fs) t)))))"

definition id_sd_fields :: "nat \<Rightarrow> string list \<times> string list \<Rightarrow> (string list \<times> string list) parser" where
  "id_sd_fields n fs = whileP (\<lambda>s. id_cur_text s \<noteq> ''}'' \<and> id_cur_kind s \<noteq> ''eof'') (id_sd_field n) fs"

definition tablesP :: "(tables \<Rightarrow> tables) \<Rightarrow> unit parser" where
  "tablesP f = updP (\<lambda>s. s\<lparr>g_tables := f (g_tables s)\<rparr>)"

definition id_sd_note :: "string \<Rightarrow> string list \<Rightarrow> string list \<Rightarrow> string \<Rightarrow> int \<Rightarrow> unit parser" where
  "id_sd_note nm fns fts file ln =
     tablesP (\<lambda>t. t\<lparr>t_sdname := lpush (t_sdname t) nm, t_sdfname := lpush (t_sdfname t) fns,
                     t_sdftype := lpush (t_sdftype t) fts, t_sdfile := lpush (t_sdfile t) file,
                     t_sdline := lpush (t_sdline t) ln\<rparr>)"

definition id_parse_struct :: "nat \<Rightarrow> unit parser" where
  "id_parse_struct n =
     thenP (lookP id_cur_file) (\<lambda>file.
     thenP (lookP id_cur_ln) (\<lambda>ln.
     doP id_advance
    (thenP id_read_name (\<lambda>nm.
     doP (id_expect_text ''{'')
    (doP id_advance
    (thenP (id_sd_fields n ([], [])) (\<lambda>(fns, fts).
     doP (id_sd_note nm fns fts file ln)
    (doP (id_expect_text ''}'') id_advance))))))))"

section \<open>Assembly functions\<close>

definition id_asm_fin :: "unit parser" where
  "id_asm_fin = doP id_advance (id_skip_text '';'')"

definition id_asm_tail_end :: "string \<Rightarrow> unit parser" where
  "id_asm_tail_end name = doP (tablesP (\<lambda>t. t\<lparr>t_afretn := lpush (t_afretn t) name\<rparr>)) id_asm_fin"

definition id_asm_tail_mid :: "string \<Rightarrow> unit parser" where
  "id_asm_tail_mid rt =
     doP (tablesP (\<lambda>t. t\<lparr>t_afret := lpush (t_afret t) rt\<rparr>)) (thenP (lookP id_cur_text) id_asm_tail_end)"

definition id_asm_tail :: "nat \<Rightarrow> unit parser" where
  "id_asm_tail n = doP id_advance (thenP (id_parse_type n) id_asm_tail_mid)"

definition asm_line :: "string list \<Rightarrow> string list parser" where
  "asm_line alines = thenP (lookP id_cur_text) (\<lambda>t. doP id_advance (giveP (lpush alines t)))"

definition id_fill_asm :: "string list \<Rightarrow> string list parser" where
  "id_fill_asm alines = whileP (\<lambda>s. id_cur_kind s = ''str'') asm_line alines"

definition id_scan_asm :: "string list \<Rightarrow> string list parser" where
  "id_scan_asm alines = doP id_advance (thenP (id_fill_asm alines) (\<lambda>alines. doP id_advance (giveP alines)))"

definition id_asm_lines_tail :: "nat \<Rightarrow> string list \<Rightarrow> unit parser" where
  "id_asm_lines_tail n alines =
     doP (tablesP (\<lambda>t. t\<lparr>t_aflines := lpush (t_aflines t) alines\<rparr>)) (id_asm_tail n)"

definition id_asm_lines :: "nat \<Rightarrow> unit parser" where
  "id_asm_lines n = thenP (id_scan_asm []) (id_asm_lines_tail n)"

definition id_asm_sig_tail :: "nat \<Rightarrow> int list \<Rightarrow> unit parser" where
  "id_asm_sig_tail n ids =
     doP (tablesP (\<lambda>t. t\<lparr>t_afparams := lpush (t_afparams t) ids\<rparr>)) (id_asm_lines n)"

definition id_parse_asm :: "nat \<Rightarrow> unit parser" where
  "id_parse_asm n =
     doP id_advance
    (thenP (lookP id_cur_text) (\<lambda>t.
     thenP (resP (\<lambda>_. id_str_sub str_env t 1 (id_len t - 2))) (\<lambda>unquoted.
     doP (tablesP (\<lambda>t. t\<lparr>t_aftriple := lpush (t_aftriple t) unquoted\<rparr>))
    (doP id_advance
    (thenP (lookP id_cur_text) (\<lambda>nm.
     doP (tablesP (\<lambda>t. t\<lparr>t_afname := lpush (t_afname t) nm\<rparr>))
    (doP id_advance
    (thenP (id_parse_params n ''param'') (id_asm_sig_tail n)))))))))"

definition id_push_asm :: "nat \<Rightarrow> unit parser" where
  "id_push_asm n s =
     doP (tablesP (\<lambda>t. t\<lparr>t_aloc := lpush (t_aloc t) (id_cur_file s @ '':'' @ int_text (id_cur_ln s))\<rparr>))
         (id_parse_asm n) s"

section \<open>Files\<close>

function id_bar_at :: "string \<Rightarrow> int \<Rightarrow> int" where
  "id_bar_at s i = (if i < id_len s \<and> code_at s i \<noteq> 124 then id_bar_at s (i + 1) else i)"
  by pat_completeness auto
termination by (relation "measure (\<lambda>(s, i). nat (id_len s - i))") auto

declare id_bar_at.simps [simp del]

definition id_file_unit :: "string \<Rightarrow> int res" where
  "id_file_unit s =
     (if id_bar_at s 0 < id_len s
      then andThen (id_slice s 0 (id_bar_at s 0)) (\<lambda>t. Inr (id_to_int t)) else Inr 0)"

definition id_file_path :: "string \<Rightarrow> string res" where
  "id_file_path s =
     (if id_bar_at s 0 < id_len s then id_slice s (id_bar_at s 0 + 1) (id_len s) else Inr s)"

definition id_take_file_unit :: "string \<Rightarrow> unit parser" where
  "id_take_file_unit t =
     thenP (resP (\<lambda>_. id_file_unit t)) (\<lambda>u. doP (updP (\<lambda>s. s\<lparr>g_ucur := u\<rparr>)) id_advance)"

definition id_take_file_mid :: "string \<Rightarrow> unit parser" where
  "id_take_file_mid path =
     doP (updP (\<lambda>s. s\<lparr>g_fseen := lpush (g_fseen s) path\<rparr>)) (thenP (lookP id_cur_text) id_take_file_unit)"

definition id_take_file :: "unit parser" where
  "id_take_file =
     thenP (lookP id_cur_text) (\<lambda>t. thenP (resP (\<lambda>_. id_file_path t)) id_take_file_mid)"

end
