(* ===== verification/ParseLive.thy ===== *)
theory ParseLive
  imports ParseFun LitSpec
begin

text \<open>
  The parser returns on every sequence of tokens, reports what it prints as a failure, and
  builds a tree: the children of every node have smaller indices. The theory is a small
  verification-condition generator: \<open>wp p V s\<close> says that \<open>p\<close> returns from \<open>s\<close> and that \<open>V\<close>
  holds of its value and state when it does not trap; every parsing function has one rule,
  proved from the rules of the functions it calls.
\<close>

section \<open>Weakest preconditions\<close>

named_theorems wp "weakest-precondition rules of the parsing functions"

definition wp :: "('a \<times> pst) run \<Rightarrow> ('a \<Rightarrow> pst \<Rightarrow> bool) \<Rightarrow> bool" where
  "wp r V \<longleftrightarrow> r \<noteq> None \<and> (\<forall>x s'. r = Some (Inr (x, s')) \<longrightarrow> V x s')"

lemma wp_then [wp]: "wp (p s) (\<lambda>x t. wp (f x t) V) \<Longrightarrow> wp (thenP p f s) V"
  unfolding wp_def thenP_def thenRun_def by (cases "p s") (auto split: sum.splits)

lemma wp_do [wp]: "wp (m s) (\<lambda>_ t. wp (k t) V) \<Longrightarrow> wp (doP m k s) V"
  unfolding doP_def by (rule wp_then)

lemma wp_give: "V x s \<Longrightarrow> wp (Some (Inr (x, s))) V"
  by (simp add: wp_def)

lemma wp_giveP [wp]: "V x s \<Longrightarrow> wp (giveP x s) V"
  by (simp add: wp_def)

lemma wp_lookP [wp]: "V (f s) s \<Longrightarrow> wp (lookP f s) V"
  by (simp add: wp_def)

lemma wp_skipP [wp]: "V () s \<Longrightarrow> wp (skipP s) V"
  by (simp add: wp_def)

lemma wp_updP: "V () (h s) \<Longrightarrow> wp (updP h s) V"
  by (simp add: wp_def)

lemma wp_res [wp]: "(\<And>x. f s = Inr x \<Longrightarrow> V x s) \<Longrightarrow> wp (resP f s) V"
  by (cases "f s") (auto simp: wp_def resP_def)

lemma wp_if [wp]: "(b \<Longrightarrow> wp p V) \<Longrightarrow> (\<not> b \<Longrightarrow> wp q V) \<Longrightarrow> wp (if b then p else q) V"
  by simp

lemma wp_if_app [wp]: "(b \<Longrightarrow> wp (p s) V) \<Longrightarrow> (\<not> b \<Longrightarrow> wp (q s) V) \<Longrightarrow> wp ((if b then p else q) s) V"
  by simp

text \<open>A loop returns when its body makes a measure of the state smaller.\<close>

lemma wp_while:
  assumes "I a s" and "\<And>a s. I a s \<Longrightarrow> c s \<Longrightarrow> wp (body a s) (\<lambda>b t. I b t \<and> f t < (f s :: nat))"
    and "\<And>a s. I a s \<Longrightarrow> \<not> c s \<Longrightarrow> V a s"
  shows "wp (whileP c body a s) V"
  using assms(1)
proof (induction "f s" arbitrary: a s rule: less_induct)
  case less
  show ?case
  proof (cases "c s")
    case False
    then show ?thesis using assms(3) [OF less.prems] by (simp add: wp_def whileP.simps [of c])
  next
    case True
    note b = assms(2) [OF less.prems True]
    then obtain r where r: "body a s = Some r" unfolding wp_def by auto
    show ?thesis
    proof (cases r)
      case (Inl t)
      then show ?thesis using r True by (simp add: wp_def whileP.simps [of c body a s])
    next
      case (Inr p)
      then obtain b' t where p: "body a s = Some (Inr (b', t))" using r by (cases p) simp
      then have "I b' t" "f t < f s" using b unfolding wp_def by auto
      then have "wp (whileP c body b' t) V" using less.hyps by blast
      then show ?thesis using p True by (simp add: wp_def whileP.simps [of c body a s])
    qed
  qed
qed

section \<open>Well-formed states\<close>

text \<open>The children of a node, by its kind.\<close>

definition children :: "node \<Rightarrow> int list" where
  "children n =
     (if n_kind n = ''bin'' \<or> n_kind n = ''index'' then [n_i1 n, n_i2 n]
      else if n_kind n = ''un'' \<or> n_kind n = ''exprstmt'' \<or> n_kind n = ''assign'' \<or> n_kind n = ''decl''
      then [n_i1 n]
      else if n_kind n = ''arr'' \<or> n_kind n = ''call'' \<or> n_kind n = ''iassign'' then n_l1 n
      else if n_kind n = ''ret'' then (if n_i1 n = - 1 then [] else [n_i1 n])
      else if n_kind n = ''if'' then n_i1 n # n_l1 n @ n_l2 n
      else if n_kind n = ''while'' then n_i1 n # n_l1 n
      else if n_kind n = ''func'' then (if n_i1 n = - 1 then [] else [n_i1 n]) @ n_l1 n @ n_l2 n
      else [])"

definition refs_below :: "int list \<Rightarrow> nat \<Rightarrow> bool" where
  "refs_below xs m \<longleftrightarrow> (\<forall>x \<in> set xs. 0 \<le> x \<and> x < int m)"

text \<open>The nodes form a forest whose edges go to smaller indices.\<close>

definition forest :: "node list \<Rightarrow> bool" where
  "forest ns \<longleftrightarrow> (\<forall>i < length ns. refs_below (children (ns ! i)) i)"

definition toks_ok :: "pst \<Rightarrow> bool" where
  "toks_ok s \<longleftrightarrow> 0 \<le> g_pos s \<and> length (g_kind s) = length (g_text s)
     \<and> (\<forall>t \<in> set (g_text s). int (length t) \<le> 536870912)"

definition remaining :: "pst \<Rightarrow> nat" where
  "remaining s = nat (llen (g_text s) - g_pos s)"

text \<open>
  What every step of the parser guarantees: the tokens stay, the cursor does not go back, nodes
  keep their kind and children, and nothing is printed without noting a failure.
\<close>

definition good :: "pst \<Rightarrow> pst \<Rightarrow> bool" where
  "good s s' \<longleftrightarrow> toks_ok s' \<and> (forest (g_nodes s) \<longrightarrow> forest (g_nodes s'))
     \<and> g_kind s' = g_kind s \<and> g_text s' = g_text s \<and> g_line s' = g_line s \<and> g_pos s \<le> g_pos s'
     \<and> length (g_nodes s) \<le> length (g_nodes s')
     \<and> (\<forall>i < length (g_nodes s). n_kind (g_nodes s' ! i) = n_kind (g_nodes s ! i)
          \<and> children (g_nodes s' ! i) = children (g_nodes s ! i))
     \<and> (g_out s' = g_out s \<or> g_chkfail s' = 1) \<and> (g_chkfail s = 1 \<longrightarrow> g_chkfail s' = 1)
     \<and> (g_synfail s = 1 \<longrightarrow> g_synfail s' = 1)"

lemma good_refl: "toks_ok s \<Longrightarrow> good s s"
  by (simp add: good_def)

lemma good_trans:
  assumes "good s0 s1" "good s1 s2"
  shows "good s0 s2"
  unfolding good_def
  using assms [unfolded good_def] by (intro conjI allI impI; (elim conjE)?; (simp; fail | auto))

lemma good_toks: "good s0 s \<Longrightarrow> toks_ok s"
  by (simp add: good_def)

text \<open>
  The rules of the parsing functions start from a state \<open>s\<close> reached from \<open>s0\<close>. \<open>post\<close> is what a
  function must establish: the new state is reached from \<open>s0\<close>, no node was lost, at least \<open>k\<close>
  tokens were consumed while there were any, and the value has the property \<open>N\<close>, which may
  depend on the number of nodes.
\<close>

definition post :: "pst \<Rightarrow> pst \<Rightarrow> nat \<Rightarrow> ('a \<Rightarrow> nat \<Rightarrow> bool) \<Rightarrow> ('a \<Rightarrow> pst \<Rightarrow> bool) \<Rightarrow> bool" where
  "post s0 s k N V \<longleftrightarrow>
     (\<forall>r s'. good s0 s' \<longrightarrow> length (g_nodes s) \<le> length (g_nodes s') \<longrightarrow> remaining s' \<le> remaining s - k
        \<longrightarrow> N r (length (g_nodes s')) \<longrightarrow> V r s')"

lemma postI [wp]:
  "(\<And>r s'. good s0 s' \<Longrightarrow> length (g_nodes s) \<le> length (g_nodes s') \<Longrightarrow> remaining s' \<le> remaining s - k
     \<Longrightarrow> N r (length (g_nodes s')) \<Longrightarrow> V r s') \<Longrightarrow> post s0 s k N V"
  by (simp add: post_def)

lemma postD:
  "post s0 s k N V \<Longrightarrow> good s0 s' \<Longrightarrow> length (g_nodes s) \<le> length (g_nodes s')
     \<Longrightarrow> remaining s' \<le> remaining s - k \<Longrightarrow> N r (length (g_nodes s')) \<Longrightarrow> V r s'"
  by (simp add: post_def)

definition any :: "'a \<Rightarrow> nat \<Rightarrow> bool" where
  "any r m \<longleftrightarrow> True"

definition is_node :: "int \<Rightarrow> nat \<Rightarrow> bool" where
  "is_node r m \<longleftrightarrow> 0 \<le> r \<and> r < int m"

lemma any_simp [simp]: "any r m"
  by (simp add: any_def)

lemma is_node_mono: "is_node r m \<Longrightarrow> m \<le> m' \<Longrightarrow> is_node r m'"
  by (simp add: is_node_def)

lemma refs_mono: "refs_below xs m \<Longrightarrow> m \<le> m' \<Longrightarrow> refs_below xs m'"
  by (auto simp: refs_below_def dest!: bspec)

lemma refs_simps [simp]:
  "refs_below [] m" "refs_below (x # xs) m \<longleftrightarrow> is_node x m \<and> refs_below xs m"
  "refs_below (lpush xs x) m \<longleftrightarrow> refs_below xs m \<and> is_node x m"
  "refs_below (xs @ ys) m \<longleftrightarrow> refs_below xs m \<and> refs_below ys m"
  by (auto simp: refs_below_def is_node_def lpush_def)

lemma refs_push [wp]: "refs_below xs m \<Longrightarrow> is_node x m \<Longrightarrow> refs_below (lpush xs x) m"
  by simp

lemma refs_nil [wp]: "refs_below [] m"
  by simp

text \<open>A step that changes neither tokens nor nodes.\<close>

lemma good_upd:
  assumes "good s0 s" "g_kind s' = g_kind s" "g_text s' = g_text s" "g_line s' = g_line s"
    "g_nodes s' = g_nodes s" "g_pos s \<le> g_pos s'"
    "g_out s' = g_out s \<or> g_chkfail s' = 1" "g_chkfail s = 1 \<longrightarrow> g_chkfail s' = 1"
    "g_synfail s = 1 \<longrightarrow> g_synfail s' = 1"
  shows "good s0 s'"
  by (rule good_trans [OF assms(1)]) (use assms in \<open>auto simp: good_def toks_ok_def\<close>)

lemma at_eof: "toks_ok s \<Longrightarrow> remaining s = 0 \<Longrightarrow> id_cur_text s = '''' \<and> id_cur_kind s = ''eof''"
  by (simp add: toks_ok_def remaining_def id_cur_text_def id_cur_kind_def llen_def)

lemma id_advance_wp [wp]: "good s0 s \<Longrightarrow> post s0 s 1 any V \<Longrightarrow> wp (id_advance s) V"
  unfolding id_advance_def id_stamp_tok_def
  by (simp add: wp_def, erule postD)
    (auto elim: good_upd [rotated] simp: remaining_def intro: good_upd)

section \<open>Diagnostics\<close>

lemma wp_eq: "p s = Some (Inr (x, s')) \<Longrightarrow> V x s' \<Longrightarrow> wp (p s) V"
  by (simp add: wp_def)

text \<open>\<open>failed s s'\<close>: only output, the failure flags and the store differ, and a failure is noted.\<close>

definition failed :: "pst \<Rightarrow> pst \<Rightarrow> bool" where
  "failed s s' \<longleftrightarrow> g_kind s' = g_kind s \<and> g_text s' = g_text s \<and> g_line s' = g_line s
     \<and> g_nodes s' = g_nodes s \<and> g_pos s' = g_pos s \<and> g_chkfail s' = 1 \<and> (g_synfail s = 1 \<longrightarrow> g_synfail s' = 1)"

lemma failed_wp:
  assumes "good s0 s" "post s0 s 0 any V" "p s = Some (Inr ((), s'))" "failed s s'"
  shows "wp (p s) V"
  by (rule wp_eq, rule assms(3), rule postD [OF assms(2)])
    (use assms in \<open>auto intro: good_upd simp: remaining_def failed_def\<close>)

lemma id_diag_failed: "\<exists>s'. id_diag code loc msg at why help s = Some (Inr ((), s')) \<and> failed s s'"
  by (simp add: id_diag_def id_diag_head_def id_diag_line_def id_printP_def id_note_failure_def failed_def)

lemma id_syn_diag_failed: "\<exists>s'. id_syn_diag code msg at why help s = Some (Inr ((), s')) \<and> failed s s'"
proof -
  obtain s1 where s1: "id_diag code (id_cur_file s @ '':'' @ int_text (id_cur_ln s)) msg at why help s = Some (Inr ((), s1))"
    "failed s s1" using id_diag_failed by blast
  then show ?thesis by (simp add: id_syn_diag_def set_synfail_def failed_def)
qed

lemma id_diag_wp [wp]: "good s0 s \<Longrightarrow> post s0 s 0 any V \<Longrightarrow> wp (id_diag code loc msg at why help s) V"
  using id_diag_failed failed_wp by metis

lemma id_syn_diag_wp [wp]: "good s0 s \<Longrightarrow> post s0 s 0 any V \<Longrightarrow> wp (id_syn_diag code msg at why help s) V"
  using id_syn_diag_failed failed_wp by metis

lemma id_syn_err_wp [wp]: "good s0 s \<Longrightarrow> post s0 s 0 any V \<Longrightarrow> wp (id_syn_err msg s) V"
  by (rule failed_wp, assumption+, simp add: id_syn_err_def id_syn_err_tail_def id_printP_def id_note_failure_def set_synfail_def)
    (simp add: failed_def)

lemma id_syn_expected_wp [wp]: "good s0 s \<Longrightarrow> post s0 s 0 any V \<Longrightarrow> wp (id_syn_expected want found s) V"
  unfolding id_syn_expected_def by (rule id_syn_diag_wp)

lemma id_syn_unexpected_wp [wp]: "good s0 s \<Longrightarrow> post s0 s 0 any V \<Longrightarrow> wp (id_syn_unexpected tok msg s) V"
  unfolding id_syn_unexpected_def Let_def by (simp add: case_prod_beta id_syn_diag_wp)

lemma id_syn_stray_wp [wp]: "good s0 s \<Longrightarrow> post s0 s 0 any V \<Longrightarrow> wp (id_syn_stray t s) V"
  unfolding id_syn_stray_def Let_def by (rule id_syn_diag_wp)

lemma id_syn_unclosed_wp [wp]:
  assumes "good s0 s" "post s0 s 0 any V"
  shows "wp (id_syn_unclosed close ln s) V"
proof -
  have "\<exists>s'. id_syn_unclosed close ln s = Some (Inr ((), s')) \<and> failed s s'"
  proof -
    obtain w h where "id_syn_unclosed close ln s
        = doP (id_syn_diag ''E0105'' (''unclosed '' @ quo @ id_str_pick close '']'' ''['' ''('' @ quo @ '': expected '' @ quo @ close
               @ quo @ '', found '' @ quo @ id_cur_text s @ quo) (id_cur_text s) w h)
             (id_diag_related (id_cur_file s @ '':'' @ int_text ln)
               (''the '' @ quo @ id_str_pick close '']'' ''['' ''('' @ quo @ '' that is not closed was opened here'')) s"
      unfolding id_syn_unclosed_def Let_def by blast
    then show ?thesis
      using id_syn_diag_failed [of "''E0105''" "''unclosed '' @ quo @ id_str_pick close '']'' ''['' ''('' @ quo @ '': expected '' @ quo @ close
               @ quo @ '', found '' @ quo @ id_cur_text s @ quo" "id_cur_text s" w h s]
      by (auto simp: id_diag_related_def id_printP_def failed_def)
  qed
  then show ?thesis using failed_wp [OF assms] by blast
qed

section \<open>Text operations that use the store\<close>

lemma join_one_cursor:
  "id_idstd_string_join_one [i, q] strs sep addr st = Inr (bs, st') \<Longrightarrow> \<exists>q'. bs = [i + 1, q']"
  by (auto simp: id_idstd_string_join_one_def id_idstd_string_join_one_advance_def lget_def lset_def andThen_Inr_iff
      split: if_splits prod.splits)

lemma join_loop_returns: "join_loop [i, q] strs sep addr st \<noteq> None"
proof (induction "nat (llen strs - i)" arbitrary: i q st rule: less_induct)
  case less
  show ?case
  proof (cases "i < llen strs")
    case True
    show ?thesis
    proof (cases "id_idstd_string_join_one [i, q] strs sep addr st")
      case (Inl t)
      then show ?thesis using True by (subst join_loop.simps) (simp add: lget_def)
    next
      case (Inr r)
      then obtain q' st' where "id_idstd_string_join_one [i, q] strs sep addr st = Inr ([i + 1, q'], st')"
        using join_one_cursor by (cases r) fast
      then show ?thesis using True less [of "i + 1" q' st'] by (subst join_loop.simps) (simp add: lget_def)
    qed
  next
    case False
    then show ?thesis by (subst join_loop.simps) (simp add: lget_def)
  qed
qed

lemma join_returns: "id_string_join strs sep st \<noteq> None"
proof -
  have "id_idstd_string_join_copy strs sep a n st' \<noteq> None" for a n st'
    using join_loop_returns [of 0 0 strs sep a st']
    by (auto simp: id_idstd_string_join_copy_def thenRun_None_iff)
  then show ?thesis by (auto simp: id_string_join_def thenRun_None_iff)
qed

lemma str_of_mem_length: "id_str_of_mem e st a n = Inr x \<Longrightarrow> 0 \<le> n \<and> int (length x) \<le> n"
  by (auto simp: id_str_of_mem_def id_str_from_def Let_def andThen_Inr_iff split: if_splits)

lemma wrap32_max: "wrap32 x \<le> INT_MAX"
  using wrap32_range [of x] by (simp add: INT_MAX_def)

lemma join_length_range:
  "n \<le> INT_MAX \<Longrightarrow> join_length_loop rd k i n = Inr m \<Longrightarrow> m \<le> INT_MAX"
proof (induction rd k i n rule: join_length_loop.induct)
  case (1 rd k i n)
  show ?case
  proof (cases "i < k")
    case True
    then obtain s where "rd i = Inr s" "join_length_loop rd k (i + 1) (wrap32 (n + id_len s)) = Inr m"
      using 1(3) by (subst (asm) join_length_loop.simps) (auto simp: andThen_Inr_iff)
    then show ?thesis using 1(1) [OF True] wrap32_max by blast
  next
    case False
    then show ?thesis using 1(2,3) by (subst (asm) join_length_loop.simps) simp
  qed
qed

lemma join_small:
  assumes "id_string_join strs sep st = Some (Inr (x, st'))"
  shows "int (length x) < INT_MAX"
proof -
  obtain n a st1 where n: "id_idstd_string_join_length strs sep = Inr n"
    and a: "id_mem_alloc str_env st (wrap32 (n + 1)) = Inr (a, st1)"
    and c: "id_idstd_string_join_copy strs sep a n st1 = Some (Inr (x, st'))"
    using assms by (auto simp: id_string_join_def thenRun_Inr_iff)
  have "n \<le> INT_MAX" using n wrap32_max
    by (auto simp: id_idstd_string_join_length_def Let_def id_idstd_string_join_separator_length_def
        intro: join_length_range split: if_splits)
  moreover have "0 \<le> wrap32 (n + 1)" using a by (auto simp: id_mem_alloc_def split: if_splits)
  moreover have "0 \<le> n \<and> int (length x) \<le> n"
    using c by (auto simp: id_idstd_string_join_copy_def thenRun_Inr_iff dest: str_of_mem_length)
  ultimately show ?thesis by (cases "n = INT_MAX") (auto simp: INT_MAX_def wrap32_def)
qed

lemma replace_returns:
  assumes "fr \<noteq> []" "int (length s) + int (length fr) \<le> INT_MAX"
  shows "id_string_replace s fr to st \<noteq> None"
  using split_pieces [OF assms] join_returns by (auto simp: id_string_replace_def)

lemma replace_small:
  "id_string_replace s fr to st = Some (Inr (x, st')) \<Longrightarrow> int (length x) < INT_MAX"
  by (auto simp: id_string_replace_def thenRun_Inr_iff dest: join_small)

lemma diag_esc_returns:
  assumes "int (length raw) < INT_MAX"
  shows "id_diag_esc raw st \<noteq> None"
proof -
  have "id_string_replace y [c] to st \<noteq> None" if "int (length y) < INT_MAX" for y c to st
    using replace_returns [of "[c]" y to st] that by simp
  then show ?thesis using assms
    by (auto simp: id_diag_esc_def thenRun_None_iff dest!: replace_small)
qed

lemma slice_length: "id_slice s a b = Inr r \<Longrightarrow> length r \<le> length s"
  by (auto simp: id_slice_def id_str_sub_def id_str_from_def andThen_Inr_iff split: if_splits)

lemma flt_over_returns:
  assumes "int (length t) < INT_MAX"
  shows "id_flt_over t st \<noteq> None"
proof -
  have r: "id_string_repeat ''0'' (309 - id_fixed_point_minimum (id_len d) 309) \<noteq> None" if "0 < id_len d" for d
    using repeat_loop_ok [of "309 - id_fixed_point_minimum (id_len d) 309" "''''" "''0''"] that
    by (auto simp: id_string_repeat_def id_fixed_point_minimum_def thenRun_None_iff id_str_dup_def id_str_from_def
        andThen_Inr_iff c_limits id_slen_def split: if_splits)
  have "id_flt_over_at p d \<noteq> None" if "0 < id_len d" for p d
    using r [OF that]
    by (simp add: id_flt_over_at_def id_flt_ge_max_def id_flt_head_def thenRun_None_iff flt_inf_pt_def Let_def del: not_None_eq)
  moreover have "id_flt_lit_mant t st \<noteq> None"
    using assms replace_returns [of "''.''"] by (auto simp: id_flt_lit_mant_def thenRun_None_iff dest!: slice_length)
  ultimately show ?thesis by (simp add: id_flt_over_def thenRun_None_iff del: not_None_eq)
qed

text \<open>The rules of the parsing functions that use the store.\<close>

lemma storeP_returns: "f (g_store s) \<noteq> None \<Longrightarrow> storeP f s \<noteq> None"
  by (auto simp: storeP_def thenRun_None_iff)

lemma storeP_result: "storeP f s = Some (Inr (x, s')) \<Longrightarrow> \<exists>st. s' = s\<lparr>g_store := st\<rparr>"
  by (auto simp: storeP_def thenRun_Inr_iff)

lemma wp_storeP: "f (g_store s) \<noteq> None \<Longrightarrow> (\<And>x st. V x (s\<lparr>g_store := st\<rparr>)) \<Longrightarrow> wp (storeP f s) V"
  using storeP_returns storeP_result unfolding wp_def by metis

lemma cur_text_length: "toks_ok s \<Longrightarrow> int (length (id_cur_text s)) \<le> 536870912"
  by (auto simp: toks_ok_def id_cur_text_def llen_def)

lemma fix_xtext_length: "toks_ok s \<Longrightarrow> int (length (id_fix_xtext s x)) \<le> 536870912"
  by (auto simp: toks_ok_def id_fix_xtext_def llen_def)

lemma id_diag_edit_wp:
  assumes "good s0 s" "post s0 s 0 any V" "g_chkfail s = 1" "int (length needle) < INT_MAX" "int (length txt) < INT_MAX"
  shows "wp (id_diag_edit appl op ln needle txt s) V"
  unfolding id_diag_edit_def id_printP_def
proof (intro wp_then wp_storeP diag_esc_returns assms(4,5))
  fix a b st st'
  let ?l = "''  edit: '' @ appl @ tab @ op @ tab @ int_text ln @ tab @ a @ tab @ b"
  show "wp (updP (\<lambda>s. s\<lparr>g_out := g_out s @ [?l]\<rparr>) (s\<lparr>g_store := st, g_store := st'\<rparr>)) V"
    using assms(1,3) by (auto simp: wp_def remaining_def intro!: postD [OF assms(2)] elim: good_upd)
qed

section \<open>Tokens, names and nodes\<close>

lemma id_skip_text_wp [wp]: "good s0 s \<Longrightarrow> post s0 s 0 any V \<Longrightarrow> wp (id_skip_text sep s) V"
  unfolding id_skip_text_def by (assumption | rule wp | erule postD | (simp; fail))+

lemma id_op_atom_diag_wp [wp]: "good s0 s \<Longrightarrow> post s0 s 0 any V \<Longrightarrow> wp (id_op_atom_diag tok s) V"
  unfolding id_op_atom_diag_def by (assumption | rule wp | erule postD | (simp; fail))+

lemma id_no_op_atom_wp [wp]: "good s0 s \<Longrightarrow> post s0 s 0 any V \<Longrightarrow> wp (id_no_op_atom s) V"
  unfolding id_no_op_atom_def by (assumption | rule wp | erule postD | (simp; fail))+

lemma id_close_bracket_wp [wp]: "good s0 s \<Longrightarrow> post s0 s 0 any V \<Longrightarrow> wp (id_close_bracket close ln s) V"
  unfolding id_close_bracket_def by (assumption | rule wp | erule postD | (simp; fail))+

lemma id_expect_text_wp [wp]: "good s0 s \<Longrightarrow> post s0 s 0 any V \<Longrightarrow> wp (id_expect_text want s) V"
  unfolding id_expect_text_def by (assumption | rule wp | erule postD | (simp; fail))+

lemma id_eat_text_wp [wp]: "good s0 s \<Longrightarrow> post s0 s 1 any V \<Longrightarrow> wp (id_eat_text want s) V"
  unfolding id_eat_text_def by (assumption | rule wp | erule postD | (simp; fail))+

lemma id_no_keyword_word_wp [wp]: "good s0 s \<Longrightarrow> post s0 s 0 any V \<Longrightarrow> wp (id_no_keyword_word s) V"
  unfolding id_no_keyword_word_def Let_def by (assumption | rule wp | erule postD | (simp; fail))+

lemma id_no_struct_word_wp [wp]: "good s0 s \<Longrightarrow> post s0 s 0 any V \<Longrightarrow> wp (id_no_struct_word s) V"
  unfolding id_no_struct_word_def by (assumption | rule wp | erule postD | (simp; fail))+

lemma id_no_func_word_wp [wp]: "good s0 s \<Longrightarrow> post s0 s 0 any V \<Longrightarrow> wp (id_no_func_word s) V"
  unfolding id_no_func_word_def by (assumption | rule wp | erule postD | (simp; fail))+

lemma id_no_case_word_wp [wp]: "good s0 s \<Longrightarrow> post s0 s 0 any V \<Longrightarrow> wp (id_no_case_word s) V"
  unfolding id_no_case_word_def Let_def by (assumption | rule wp | erule postD | (simp; fail))+

lemma id_read_name_wp [wp]: "good s0 s \<Longrightarrow> post s0 s 1 any V \<Longrightarrow> wp (id_read_name s) V"
  unfolding id_read_name_def by (assumption | rule wp | erule postD | (simp; fail))+

section \<open>New nodes\<close>

lemma nth_push [simp]: "i < length xs \<Longrightarrow> lpush xs x ! i = xs ! i" "lpush xs x ! length xs = x"
  "length (lpush xs x) = Suc (length xs)"
  by (simp_all add: lpush_def nth_append)

lemma forest_push: "forest ns \<Longrightarrow> refs_below (children n) (length ns) \<Longrightarrow> forest (lpush ns n)"
  by (auto simp: forest_def less_Suc_eq)

lemma new_node_wp:
  assumes "good s0 s" "post s0 s 0 is_node V"
    "refs_below (children \<lparr>n_kind = k, n_i1 = a, n_i2 = b, n_s1 = s1, n_s2 = s2, n_l1 = l1, n_l2 = l2,
               n_unit = g_ucur s, n_line = g_curtl s, n_tok = g_curtk s, n_st = 0 - 1\<rparr>) (length (g_nodes s))"
  shows "wp (id_newnode k a b s1 s2 l1 l2 s) V"
proof -
  let ?n = "\<lparr>n_kind = k, n_i1 = a, n_i2 = b, n_s1 = s1, n_s2 = s2, n_l1 = l1, n_l2 = l2,
               n_unit = g_ucur s, n_line = g_curtl s, n_tok = g_curtk s, n_st = 0 - 1\<rparr>"
  let ?t = "s\<lparr>g_nodes := lpush (g_nodes s) ?n\<rparr>"
  have "good s ?t" using assms(1,3) forest_push [of "g_nodes s" ?n] by (auto simp: good_def toks_ok_def)
  then have "V (llen (lpush (g_nodes s) ?n) - 1) ?t"
    using good_trans [OF assms(1)]
    by (intro postD [OF assms(2)]) (auto simp: is_node_def remaining_def llen_def)
  then show ?thesis by (simp add: wp_def id_newnode_def Let_def)
qed

text \<open>Kinds of nodes with no children.\<close>

definition leaf :: "string \<Rightarrow> bool" where
  "leaf k \<longleftrightarrow> (\<forall>n. n_kind n = k \<longrightarrow> children n = [])"

lemma leaf_kinds [simp]:
  "leaf ''var''" "leaf ''str''" "leaf ''import''" "leaf ''int''" "leaf ''float''" "leaf ''fld''" "leaf ''chain''"
  "leaf ''param''" "leaf ''nparam''" "leaf ''blank''" "leaf ''break''"
  by (simp_all add: leaf_def children_def)

lemma leaf_wp [wp]: "good s0 s \<Longrightarrow> post s0 s 0 is_node V \<Longrightarrow> leaf k \<Longrightarrow> wp (id_newleaf k a b s1 s2 s) V"
  unfolding id_newleaf_def by (rule new_node_wp) (simp_all add: leaf_def)

lemma node_txt_wp [wp]: "good s0 s \<Longrightarrow> post s0 s 0 is_node V \<Longrightarrow> leaf k \<Longrightarrow> wp (id_node_txt k txt s) V"
  unfolding id_node_txt_def by (rule leaf_wp)

lemma node_num_wp [wp]: "good s0 s \<Longrightarrow> post s0 s 0 is_node V \<Longrightarrow> leaf k \<Longrightarrow> wp (id_node_txt2 k txt a b s) V"
  unfolding id_node_txt2_def by (rule leaf_wp)

lemma node_bool_wp [wp]: "good s0 s \<Longrightarrow> post s0 s 0 is_node V \<Longrightarrow> wp (id_node_bool txt s) V"
  unfolding id_node_bool_def Let_def by (rule leaf_wp) simp_all

lemma node_float_wp [wp]: "good s0 s \<Longrightarrow> post s0 s 0 is_node V \<Longrightarrow> wp (id_node_float txt s) V"
  unfolding id_node_float_def by (assumption | rule wp | (simp; fail))+

lemma node_param_wp [wp]: "good s0 s \<Longrightarrow> post s0 s 0 is_node V \<Longrightarrow> leaf k \<Longrightarrow> wp (id_node_param k t name s) V"
  unfolding id_node_param_def by (rule leaf_wp)

lemma node_bin_wp [wp]:
  "good s0 s \<Longrightarrow> post s0 s 0 is_node V \<Longrightarrow> is_node a (length (g_nodes s)) \<Longrightarrow> is_node b (length (g_nodes s))
     \<Longrightarrow> wp (id_node_txt2 ''bin'' op a b s) V"
  unfolding id_node_txt2_def id_newleaf_def by (rule new_node_wp) (simp_all add: children_def)

lemma node_index_wp [wp]:
  "good s0 s \<Longrightarrow> post s0 s 0 is_node V \<Longrightarrow> is_node a (length (g_nodes s)) \<Longrightarrow> is_node b (length (g_nodes s))
     \<Longrightarrow> wp (id_node_index a b s) V"
  unfolding id_node_index_def id_newleaf_def by (rule new_node_wp) (simp_all add: children_def)

lemma node_one_wp [wp]:
  "good s0 s \<Longrightarrow> post s0 s 0 is_node V \<Longrightarrow> is_node a (length (g_nodes s))
     \<Longrightarrow> k = ''un'' \<or> k = ''assign'' \<Longrightarrow> wp (id_node_txt1 k op a s) V"
  unfolding id_node_txt1_def id_newleaf_def by (rule new_node_wp) (auto simp: children_def)

lemma node_exprstmt_wp [wp]:
  "good s0 s \<Longrightarrow> post s0 s 0 is_node V \<Longrightarrow> is_node a (length (g_nodes s)) \<Longrightarrow> wp (id_node_exprstmt a s) V"
  unfolding id_node_exprstmt_def id_newleaf_def by (rule new_node_wp) (simp_all add: children_def)

lemma node_decl_wp [wp]:
  "good s0 s \<Longrightarrow> post s0 s 0 is_node V \<Longrightarrow> is_node a (length (g_nodes s)) \<Longrightarrow> wp (id_node_decl t name a x s) V"
  unfolding id_node_decl_def id_newleaf_def by (rule new_node_wp) (simp_all add: children_def)

lemma node_arr_wp [wp]:
  "good s0 s \<Longrightarrow> post s0 s 0 is_node V \<Longrightarrow> refs_below xs (length (g_nodes s)) \<Longrightarrow> wp (id_node_arr xs s) V"
  unfolding id_node_arr_def by (rule new_node_wp) (simp_all add: children_def)

lemma node_call_wp [wp]:
  "good s0 s \<Longrightarrow> post s0 s 0 is_node V \<Longrightarrow> refs_below xs (length (g_nodes s)) \<Longrightarrow> wp (id_node_call name xs s) V"
  unfolding id_node_call_def by (rule new_node_wp) (simp_all add: children_def)

lemma node_if_wp [wp]:
  "good s0 s \<Longrightarrow> post s0 s 0 is_node V \<Longrightarrow> is_node c (length (g_nodes s)) \<Longrightarrow> refs_below xs (length (g_nodes s))
     \<Longrightarrow> refs_below ys (length (g_nodes s)) \<Longrightarrow> wp (id_node_if c xs ys e s) V"
  unfolding id_node_if_def by (rule new_node_wp) (simp_all add: children_def)

lemma node_while_wp [wp]:
  "good s0 s \<Longrightarrow> post s0 s 0 is_node V \<Longrightarrow> is_node c (length (g_nodes s)) \<Longrightarrow> refs_below xs (length (g_nodes s))
     \<Longrightarrow> wp (id_node_while c xs s) V"
  unfolding id_node_while_def by (rule new_node_wp) (simp_all add: children_def)

lemma nodeP_wp [wp]: "(\<And>n. V n s) \<Longrightarrow> wp (nodeP i s) V"
  unfolding nodeP_def by (rule wp_res)

lemma node_iassign_wp [wp]:
  "good s0 s \<Longrightarrow> post s0 s 0 is_node V \<Longrightarrow> is_node e (length (g_nodes s)) \<Longrightarrow> wp (id_node_iassign t e s) V"
  unfolding id_node_iassign_def id_node_iassign_tail_def
  by (rule wp_then, rule nodeP_wp, rule new_node_wp) (simp_all add: children_def)

text \<open>An attribute that is not a child may be stored.\<close>

definition keeps :: "(node \<Rightarrow> node) \<Rightarrow> bool" where
  "keeps f \<longleftrightarrow> (\<forall>n. n_kind (f n) = n_kind n \<and> children (f n) = children n)"

lemma keeps_attributes [simp]:
  "keeps (\<lambda>n. n\<lparr>n_line := a, n_st := b\<rparr>)" "keeps (\<lambda>n. n\<lparr>n_s1 := x, n_s2 := y\<rparr>)"
  by (simp_all add: keeps_def children_def)

lemma forest_same:
  assumes "length ns' = length ns" "\<And>i. i < length ns \<Longrightarrow> children (ns' ! i) = children (ns ! i)"
  shows "forest ns \<longleftrightarrow> forest ns'"
  using assms by (simp add: forest_def)

lemma set_node_wp:
  assumes "good s0 s" "post s0 s 0 any V" "\<And>n. is_node i (length (g_nodes s)) \<Longrightarrow> n = g_nodes s ! nat i
      \<Longrightarrow> n_kind (f n) = n_kind n \<and> children (f n) = children n"
  shows "wp (set_node i f s) V"
proof (cases "is_node i (length (g_nodes s))")
  case True
  let ?ns = "(g_nodes s)[nat i := f (g_nodes s ! nat i)]"
  have e: "set_node i f s = Some (Inr ((), s\<lparr>g_nodes := ?ns\<rparr>))"
    using True by (simp add: set_node_def is_node_def lget_ok lset_ok llen_def)
  have k: "n_kind (?ns ! j) = n_kind (g_nodes s ! j) \<and> children (?ns ! j) = children (g_nodes s ! j)"
    if "j < length (g_nodes s)" for j using that assms(3) [OF True refl] by (cases "j = nat i") simp_all
  have "forest (g_nodes s) \<longleftrightarrow> forest ?ns" by (rule forest_same) (use k in auto)
  then have "good s (s\<lparr>g_nodes := ?ns\<rparr>)"
    using k good_toks [OF assms(1)] unfolding good_def toks_ok_def by simp
  then have "V () (s\<lparr>g_nodes := ?ns\<rparr>)"
    by (intro postD [OF assms(2)]) (auto simp: remaining_def intro: good_trans [OF assms(1)])
  then show ?thesis unfolding e by (simp add: wp_def)
next
  case False
  then have "lget (g_nodes s) i = Inl (Trap_index i (int (length (g_nodes s))))" by (auto simp: is_node_def lget_def)
  then show ?thesis by (simp add: set_node_def wp_def)
qed

lemma set_attribute_wp [wp]: "good s0 s \<Longrightarrow> post s0 s 0 any V \<Longrightarrow> keeps f \<Longrightarrow> wp (set_node i f s) V"
  by (rule set_node_wp) (auto simp: keeps_def)

lemma id_stmt_done_wp [wp]: "good s0 s \<Longrightarrow> post s0 s 0 any V \<Longrightarrow> wp (id_stmt_done i t0 s) V"
  unfolding id_stmt_done_def by (rule set_attribute_wp) simp_all

text \<open>Updates of the other fields of the state.\<close>

definition quiet :: "pst \<Rightarrow> pst \<Rightarrow> bool" where
  "quiet s s' \<longleftrightarrow> g_kind s' = g_kind s \<and> g_text s' = g_text s \<and> g_line s' = g_line s \<and> g_nodes s' = g_nodes s
     \<and> g_pos s' = g_pos s \<and> g_out s' = g_out s \<and> g_chkfail s' = g_chkfail s \<and> g_synfail s' = g_synfail s"

declare quiet_def [simp]

lemma quiet_upd_wp [wp]: "good s0 s \<Longrightarrow> post s0 s 0 any V \<Longrightarrow> quiet s (h s) \<Longrightarrow> wp (updP h s) V"
  by (rule wp_updP, erule postD) (auto simp: quiet_def remaining_def intro: good_upd)

section \<open>Expressions\<close>

lemma id_grp_note_wp [wp]: "good s0 s \<Longrightarrow> post s0 s 0 any V \<Longrightarrow> wp (id_grp_note e s) V"
  unfolding id_grp_note_def by (assumption | rule wp | erule postD | (erule is_node_mono refs_mono; simp; fail) | (simp; fail))+

lemma id_call_at_wp [wp]: "good s0 s \<Longrightarrow> post s0 s 0 any V \<Longrightarrow> wp (id_call_at n ln s) V"
  unfolding id_call_at_def by (assumption | rule wp | erule postD | (erule is_node_mono refs_mono; simp; fail) | (simp; fail))+

lemma id_int_check_wp [wp]: "good s0 s \<Longrightarrow> post s0 s 0 any V \<Longrightarrow> wp (id_int_check txt s) V"
  unfolding id_int_check_def by (assumption | rule wp | erule postD | (erule is_node_mono refs_mono; simp; fail) | (simp; fail))+

lemma id_finish_int_wp [wp]: "good s0 s \<Longrightarrow> post s0 s 0 is_node V \<Longrightarrow> wp (id_finish_int txt s) V"
  unfolding id_finish_int_def by (assumption | rule wp | erule postD | (erule is_node_mono refs_mono; simp; fail) | (simp; fail))+

lemma id_parse_int_wp [wp]: "good s0 s \<Longrightarrow> post s0 s 1 is_node V \<Longrightarrow> wp (id_parse_int s) V"
  unfolding id_parse_int_def by (assumption | rule wp | erule postD | (erule is_node_mono refs_mono; simp; fail) | (simp; fail))+

lemma id_str_hex_check_wp [wp]: "good s0 s \<Longrightarrow> post s0 s 0 any V \<Longrightarrow> wp (id_str_hex_check txt s) V"
  unfolding id_str_hex_check_def by (assumption | rule wp | erule postD | (erule is_node_mono refs_mono; simp; fail) | (simp; fail))+

lemma id_parse_str_wp [wp]: "good s0 s \<Longrightarrow> post s0 s 1 is_node V \<Longrightarrow> wp (id_parse_str s) V"
  unfolding id_parse_str_def by (assumption | rule wp | erule postD | (erule is_node_mono refs_mono; simp; fail) | (simp; fail))+

lemma id_flt_bad_wp [wp]: "good s0 s \<Longrightarrow> post s0 s 0 any V \<Longrightarrow> wp (id_flt_bad txt code t why h s) V"
  unfolding id_flt_bad_def by (assumption | rule wp | erule postD | (erule is_node_mono refs_mono; simp; fail) | (simp; fail))+

lemma id_flt_check_wp [wp]: "good s0 s \<Longrightarrow> post s0 s 0 any V \<Longrightarrow> int (length txt) < INT_MAX \<Longrightarrow> wp (id_flt_check txt s) V"
  unfolding id_flt_check_def
  by (rule wp_if_app)
    (assumption | rule wp flt_over_returns wp_storeP | erule postD | (simp; fail) | (erule good_upd; simp; fail)
      | (simp add: remaining_def; fail))+

lemma id_parse_float_wp [wp]: "good s0 s \<Longrightarrow> post s0 s 1 is_node V \<Longrightarrow> wp (id_parse_float s) V"
  unfolding id_parse_float_def using cur_text_length [of s] good_toks [of s0 s]
  by - (assumption | rule wp | erule postD | (simp; fail) | (simp add: INT_MAX_def; fail))+

lemma id_parse_bool_wp [wp]: "good s0 s \<Longrightarrow> post s0 s 1 is_node V \<Longrightarrow> wp (id_parse_bool s) V"
  unfolding id_parse_bool_def by (assumption | rule wp | erule postD | (erule is_node_mono refs_mono; simp; fail) | (simp; fail))+

lemma id_parse_import_wp [wp]: "good s0 s \<Longrightarrow> post s0 s 1 is_node V \<Longrightarrow> wp (id_parse_import s) V"
  unfolding id_parse_import_def by (assumption | rule wp | erule postD | (erule is_node_mono refs_mono; simp; fail) | (simp; fail))+

section \<open>Binary operators\<close>

text \<open>
  A parser that returns whenever fewer than \<open>m\<close> tokens are left, consumes one if there is one
  and gives values with the property \<open>N\<close>.
\<close>

definition parser_ok :: "nat \<Rightarrow> ('a \<Rightarrow> nat \<Rightarrow> bool) \<Rightarrow> 'a parser \<Rightarrow> bool" where
  "parser_ok m N u \<longleftrightarrow>
     (\<forall>s0 s V. good s0 s \<longrightarrow> remaining s < m \<longrightarrow> post s0 s 1 N V \<longrightarrow> wp (u s) V)"

abbreviation operand_ok :: "nat \<Rightarrow> int parser \<Rightarrow> bool" where
  "operand_ok m \<equiv> parser_ok m is_node"

lemma use_operand: "parser_ok m N u \<Longrightarrow> good s0 s \<Longrightarrow> remaining s < m \<Longrightarrow> post s0 s 1 N V \<Longrightarrow> wp (u s) V"
  by (simp add: parser_ok_def)

lemma operandI:
  "(\<And>s0 s V. good s0 s \<Longrightarrow> remaining s < m \<Longrightarrow> post s0 s 1 N V \<Longrightarrow> wp (u s) V) \<Longrightarrow> parser_ok m N u"
  by (simp add: parser_ok_def)

text \<open>A loop whose condition fails at the end of the tokens and whose body consumes one.\<close>

lemma loop_wp:
  assumes "good s0 s" "N a (length (g_nodes s))" "post s0 s 0 N V" "\<And>t. good s0 t \<Longrightarrow> c t \<Longrightarrow> 0 < remaining t"
    and "\<And>b t W. good s0 t \<Longrightarrow> 0 < remaining t \<Longrightarrow> remaining t \<le> remaining s \<Longrightarrow> N b (length (g_nodes t))
      \<Longrightarrow> post s0 t 1 N W \<Longrightarrow> wp (body b t) W"
  shows "wp (whileP c body a s) V"
proof (rule wp_while [where f = remaining and I = "\<lambda>b t. good s0 t \<and> length (g_nodes s) \<le> length (g_nodes t)
      \<and> remaining t \<le> remaining s \<and> N b (length (g_nodes t))"], goal_cases)
  case (2 b t)
  then have "0 < remaining t" using assms(4) by blast
  with 2 show ?case by (intro assms(5) postI) auto
next
  case (3 b t)
  then show ?case using assms(3) by (auto intro: postD)
qed (use assms(1,2) in auto)

lemma text_remains: "good s0 s \<Longrightarrow> id_cur_text s \<noteq> '''' \<Longrightarrow> 0 < remaining s"
  using at_eof good_toks by blast

lemma at_op_remains: "at_op ops s \<Longrightarrow> '''' \<notin> set ops \<Longrightarrow> good s0 s \<Longrightarrow> 0 < remaining s"
  using text_remains [of s0 s] by (cases "id_cur_text s") (auto simp: at_op_def id_op_at_def)

lemma ops_nonempty [simp]: "'''' \<notin> set mulops" "'''' \<notin> set addops" "'''' \<notin> set shiftops" "'''' \<notin> set relops"
  by (simp_all add: mulops_def addops_def shiftops_def relops_def)

text \<open>One step of a loop: it takes the value so far, and is run while there are tokens.\<close>

definition step_ok :: "nat \<Rightarrow> ('a \<Rightarrow> nat \<Rightarrow> bool) \<Rightarrow> ('a \<Rightarrow> 'a parser) \<Rightarrow> bool" where
  "step_ok m N f \<longleftrightarrow>
     (\<forall>s0 s x V. good s0 s \<longrightarrow> 0 < remaining s \<longrightarrow> remaining s < m \<longrightarrow> N x (length (g_nodes s))
        \<longrightarrow> post s0 s 1 N V \<longrightarrow> wp (f x s) V)"

abbreviation fold_ok :: "nat \<Rightarrow> (int \<Rightarrow> int parser) \<Rightarrow> bool" where
  "fold_ok m \<equiv> step_ok m is_node"

lemma use_step: "step_ok m N f \<Longrightarrow> good s0 s \<Longrightarrow> 0 < remaining s \<Longrightarrow> remaining s < m
    \<Longrightarrow> N x (length (g_nodes s)) \<Longrightarrow> post s0 s 1 N V \<Longrightarrow> wp (f x s) V"
  by (simp add: step_ok_def)

lemma stepI:
  "(\<And>s0 s x V. good s0 s \<Longrightarrow> 0 < remaining s \<Longrightarrow> remaining s < m \<Longrightarrow> N x (length (g_nodes s))
     \<Longrightarrow> post s0 s 1 N V \<Longrightarrow> wp (f x s) V) \<Longrightarrow> step_ok m N f"
  by (simp add: step_ok_def)

lemma level_ok:
  assumes "operand_ok m p" "fold_ok k f" "m \<le> Suc k" "\<And>s0 s. good s0 s \<Longrightarrow> c s \<Longrightarrow> 0 < remaining s"
  shows "operand_ok m (thenP p (whileP c f))"
proof (intro operandI wp_then)
  fix s0 s V assume s: "good s0 s" "remaining s < m" "post s0 s 1 is_node V"
  have "wp (whileP c f x t) V"
    if t: "good s0 t" "length (g_nodes s) \<le> length (g_nodes t)" "remaining t \<le> remaining s - 1"
      "is_node x (length (g_nodes t))" for x t
  proof (rule loop_wp [where N = is_node, OF t(1,4)])
    show "post s0 t 0 is_node V" using s(3) t by (auto simp: post_def)
    fix b w W assume w: "good s0 w" "0 < remaining w" "remaining w \<le> remaining t" "is_node b (length (g_nodes w))"
      "post s0 w 1 is_node W"
    then show "wp (f b w) W" using t(3) s(2) assms(3) by (intro use_step [OF assms(2)]) simp_all
  qed (rule assms(4))
  then show "wp (p s) (\<lambda>x t. wp (whileP c f x t) V)"
    using s by (intro use_operand [OF assms(1)] postI) auto
qed

lemma id_fold_mul_ok: "operand_ok m u \<Longrightarrow> fold_ok m (id_fold_mul u)"
  unfolding id_fold_mul_def id_fold_mul_tail_def by (rule stepI) (assumption | rule wp | erule postD | erule use_operand | (erule is_node_mono refs_mono; simp; fail) | (simp; fail))+

lemma id_parse_mul_ok: "operand_ok m u \<Longrightarrow> operand_ok m (id_parse_mul u)"
  unfolding id_parse_mul_def by (rule level_ok, erule asm_rl, rule id_fold_mul_ok, erule asm_rl) (auto dest: at_op_remains)

lemma id_fold_add_ok: "operand_ok m (id_parse_mul u) \<Longrightarrow> fold_ok m (id_fold_add u)"
  unfolding id_fold_add_def id_fold_add_tail_def by (rule stepI) (assumption | rule wp | erule postD | erule use_operand | (erule is_node_mono refs_mono; simp; fail) | (simp; fail))+

lemma id_parse_add_ok: "operand_ok m u \<Longrightarrow> operand_ok m (id_parse_add u)"
  unfolding id_parse_add_def by (rule level_ok, erule id_parse_mul_ok, rule id_fold_add_ok, erule id_parse_mul_ok) (auto dest: at_op_remains)

lemma id_fold_shift_ok: "operand_ok m (id_parse_add u) \<Longrightarrow> fold_ok m (id_fold_shift u)"
  unfolding id_fold_shift_def id_fold_shift_tail_def by (rule stepI) (assumption | rule wp | erule postD | erule use_operand | (erule is_node_mono refs_mono; simp; fail) | (simp; fail))+

lemma id_parse_shift_ok: "operand_ok m u \<Longrightarrow> operand_ok m (id_parse_shift u)"
  unfolding id_parse_shift_def by (rule level_ok, erule id_parse_add_ok, rule id_fold_shift_ok, erule id_parse_add_ok) (auto dest: at_op_remains)

lemma id_fold_bitand_ok: "operand_ok m (id_parse_shift u) \<Longrightarrow> fold_ok m (id_fold_bitand u)"
  unfolding id_fold_bitand_def  by (rule stepI) (assumption | rule wp | erule postD | erule use_operand | (erule is_node_mono refs_mono; simp; fail) | (simp; fail))+

lemma id_parse_bitand_ok: "operand_ok m u \<Longrightarrow> operand_ok m (id_parse_bitand u)"
  unfolding id_parse_bitand_def by (rule level_ok, erule id_parse_shift_ok, rule id_fold_bitand_ok, erule id_parse_shift_ok) (auto dest: text_remains)

lemma id_fold_bitxor_ok: "operand_ok m (id_parse_bitand u) \<Longrightarrow> fold_ok m (id_fold_bitxor u)"
  unfolding id_fold_bitxor_def  by (rule stepI) (assumption | rule wp | erule postD | erule use_operand | (erule is_node_mono refs_mono; simp; fail) | (simp; fail))+

lemma id_parse_bitxor_ok: "operand_ok m u \<Longrightarrow> operand_ok m (id_parse_bitxor u)"
  unfolding id_parse_bitxor_def by (rule level_ok, erule id_parse_bitand_ok, rule id_fold_bitxor_ok, erule id_parse_bitand_ok) (auto dest: text_remains)

lemma id_fold_bitor_ok: "operand_ok m (id_parse_bitxor u) \<Longrightarrow> fold_ok m (id_fold_bitor u)"
  unfolding id_fold_bitor_def  by (rule stepI) (assumption | rule wp | erule postD | erule use_operand | (erule is_node_mono refs_mono; simp; fail) | (simp; fail))+

lemma id_parse_bitor_ok: "operand_ok m u \<Longrightarrow> operand_ok m (id_parse_bitor u)"
  unfolding id_parse_bitor_def by (rule level_ok, erule id_parse_bitxor_ok, rule id_fold_bitor_ok, erule id_parse_bitxor_ok) (auto dest: text_remains)

lemma id_bare_eq_diag_wp [wp]:
  assumes "good s0 s" "post s0 s 0 any V"
  shows "wp (id_bare_eq_diag s) V"
proof -
  let ?l = "id_fix_xtext s (g_pos s - 1)" and ?r = "id_fix_xtext s (g_pos s + 1)"
  have len: "int (length (?l @ '' = '' @ ?r)) < INT_MAX" "int (length (?l @ '' == '' @ ?r)) < INT_MAX"
    using fix_xtext_length [OF good_toks [OF assms(1)], of "g_pos s - 1"]
      fix_xtext_length [OF good_toks [OF assms(1)], of "g_pos s + 1"] by (simp_all add: INT_MAX_def)
  obtain c l m a w h where e: "id_bare_eq_diag s
      = doP (id_diag c l m a w h) (if ?l \<noteq> '''' \<and> ?r \<noteq> ''''
          then id_diag_edit ''machine'' ''replace'' (id_cur_ln s) (?l @ '' = '' @ ?r) (?l @ '' == '' @ ?r) else skipP) s"
    unfolding id_bare_eq_diag_def Let_def by blast
  obtain t where t: "id_diag c l m a w h s = Some (Inr ((), t))" "failed s t" using id_diag_failed by blast
  have g: "good s0 t" "g_chkfail t = 1" "g_nodes t = g_nodes s" "remaining t = remaining s"
    using t(2) assms(1) by (auto simp: failed_def remaining_def elim: good_upd)
  have p: "post s0 t 0 any V" using assms(2) g(3,4) by (simp add: post_def)
  show ?thesis unfolding e doP_def thenP_def t(1) thenRun_simps case_prod_conv
    by (intro wp_if_app id_diag_edit_wp [OF g(1) p g(2) len] wp_skipP postD [OF p] g(1)) simp_all
qed

lemma id_rel_op_wp [wp]: "good s0 s \<Longrightarrow> post s0 s 0 any V \<Longrightarrow> wp (id_rel_op s) V"
  unfolding id_rel_op_def by (assumption | rule wp | erule postD | erule use_operand | (erule is_node_mono refs_mono; simp; fail) | (simp; fail))+

lemma id_fold_rel_ok: "operand_ok m (id_parse_bitor u) \<Longrightarrow> fold_ok m (id_fold_rel u)"
  unfolding id_fold_rel_def id_fold_rel_tail_def by (rule stepI) (assumption | rule wp | erule postD | erule use_operand | (erule is_node_mono refs_mono; simp; fail) | (simp; fail))+

lemma id_parse_rel_ok: "operand_ok m u \<Longrightarrow> operand_ok m (id_parse_rel u)"
  unfolding id_parse_rel_def by (rule level_ok, erule id_parse_bitor_ok, rule id_fold_rel_ok, erule id_parse_bitor_ok) (auto dest: at_op_remains)

lemma id_fold_and_ok: "operand_ok m (id_parse_rel u) \<Longrightarrow> fold_ok m (id_fold_and u)"
  unfolding id_fold_and_def  by (rule stepI) (assumption | rule wp | erule postD | erule use_operand | (erule is_node_mono refs_mono; simp; fail) | (simp; fail))+

lemma id_parse_and_ok: "operand_ok m u \<Longrightarrow> operand_ok m (id_parse_and u)"
  unfolding id_parse_and_def by (rule level_ok, erule id_parse_rel_ok, rule id_fold_and_ok, erule id_parse_rel_ok) (auto dest: text_remains)

lemma id_fold_or_ok: "operand_ok m (id_parse_and u) \<Longrightarrow> fold_ok m (id_fold_or u)"
  unfolding id_fold_or_def  by (rule stepI) (assumption | rule wp | erule postD | erule use_operand | (erule is_node_mono refs_mono; simp; fail) | (simp; fail))+

lemma id_parse_expr_ok: "operand_ok m u \<Longrightarrow> operand_ok m (id_parse_expr u)"
  unfolding id_parse_expr_def by (rule level_ok, erule id_parse_and_ok, rule id_fold_or_ok, erule id_parse_and_ok) (auto dest: text_remains)

section \<open>Lists of expressions, atoms and operators\<close>

lemma id_fill_list_wp:
  assumes "operand_ok m u" "good s0 s" "remaining s < m" "refs_below xs (length (g_nodes s))" "post s0 s 0 refs_below V"
    "close \<noteq> ''''"
  shows "wp (id_fill_list u xs close s) V"
  unfolding id_fill_list_def
proof (rule loop_wp [where N = refs_below, OF assms(2,4,5)])
  fix t assume "good s0 t" "fill_cond close t"
  then show "0 < remaining t" using at_eof [of t] good_toks [of s0 t] by (auto simp: fill_cond_def)
next
  fix b t W assume t: "good s0 t" "0 < remaining t" "remaining t \<le> remaining s" "refs_below b (length (g_nodes t))"
    "post s0 t 1 refs_below W"
  then have "remaining t < m" using assms(3) by simp
  show "wp (fill_item u b t) W" unfolding fill_item_def
    by (rule wp_then, rule use_operand [OF id_parse_expr_ok [OF assms(1)] t(1) \<open>remaining t < m\<close>])
      (insert t, assumption | rule wp | erule postD | (erule is_node_mono refs_mono; simp; fail) | (simp; fail))+
qed

lemma id_scan_list_wp:
  assumes "operand_ok m u" "good s0 s" "remaining s \<le> m" "0 < remaining s" "refs_below xs (length (g_nodes s))"
    "post s0 s 1 refs_below V" "close \<noteq> ''''"
  shows "wp (id_scan_list u xs close s) V"
  unfolding id_scan_list_def using assms
  by - (assumption | rule wp id_fill_list_wp [OF assms(1)] | erule postD | (erule is_node_mono refs_mono; simp; fail) | (simp; fail))+

lemma id_parse_arr_wp [wp]: "operand_ok m u \<Longrightarrow> remaining s \<le> m \<Longrightarrow> 0 < remaining s \<Longrightarrow> good s0 s \<Longrightarrow> post s0 s 1 is_node V \<Longrightarrow> wp (id_parse_arr u s) V"
  unfolding id_parse_arr_def  by (assumption | rule wp id_scan_list_wp | erule postD | erule use_operand | (erule is_node_mono refs_mono; simp; fail) | (simp; fail))+

lemma id_parse_call_wp [wp]: "operand_ok m u \<Longrightarrow> remaining s \<le> m \<Longrightarrow> 0 < remaining s \<Longrightarrow> good s0 s \<Longrightarrow> post s0 s 1 is_node V \<Longrightarrow> wp (id_parse_call u name s) V"
  unfolding id_parse_call_def  by (assumption | rule wp id_scan_list_wp | erule postD | erule use_operand | (erule is_node_mono refs_mono; simp; fail) | (simp; fail))+

lemma id_finish_atom_wp [wp]: "operand_ok m u \<Longrightarrow> remaining s \<le> m \<Longrightarrow> good s0 s \<Longrightarrow> post s0 s 0 is_node V \<Longrightarrow> wp (id_finish_atom u name s) V"
  unfolding id_finish_atom_def  by (assumption | rule wp | erule postD | erule use_operand | (erule is_node_mono refs_mono; simp; fail) | (simp; fail) | (rule text_remains, assumption, simp; fail))+

lemma id_parse_ident_or_call_wp [wp]: "operand_ok m u \<Longrightarrow> remaining s \<le> m \<Longrightarrow> good s0 s \<Longrightarrow> post s0 s 1 is_node V \<Longrightarrow> wp (id_parse_ident_or_call u s) V"
  unfolding id_parse_ident_or_call_def  by (assumption | rule wp | erule postD | erule use_operand | (erule is_node_mono refs_mono; simp; fail) | (simp; fail) | (rule text_remains, assumption, simp; fail))+

lemma id_parse_atom3_wp [wp]: "operand_ok m u \<Longrightarrow> remaining s \<le> m \<Longrightarrow> good s0 s \<Longrightarrow> post s0 s 1 is_node V \<Longrightarrow> wp (id_parse_atom3 u s) V"
  unfolding id_parse_atom3_def  by (assumption | rule wp | erule postD | erule use_operand | (erule is_node_mono refs_mono; simp; fail) | (simp; fail) | (rule text_remains, assumption, simp; fail))+

lemma id_parse_atom_bool_wp [wp]: "operand_ok m u \<Longrightarrow> remaining s \<le> m \<Longrightarrow> good s0 s \<Longrightarrow> post s0 s 1 is_node V \<Longrightarrow> wp (id_parse_atom_bool u s) V"
  unfolding id_parse_atom_bool_def  by (assumption | rule wp | erule postD | erule use_operand | (erule is_node_mono refs_mono; simp; fail) | (simp; fail) | (rule text_remains, assumption, simp; fail))+

lemma id_parse_atom_float_wp [wp]: "operand_ok m u \<Longrightarrow> remaining s \<le> m \<Longrightarrow> good s0 s \<Longrightarrow> post s0 s 1 is_node V \<Longrightarrow> wp (id_parse_atom_float u s) V"
  unfolding id_parse_atom_float_def  by (assumption | rule wp | erule postD | erule use_operand | (erule is_node_mono refs_mono; simp; fail) | (simp; fail) | (rule text_remains, assumption, simp; fail))+

lemma id_parse_atom2_wp [wp]: "operand_ok m u \<Longrightarrow> remaining s \<le> m \<Longrightarrow> good s0 s \<Longrightarrow> post s0 s 1 is_node V \<Longrightarrow> wp (id_parse_atom2 u s) V"
  unfolding id_parse_atom2_def  by (assumption | rule wp | erule postD | erule use_operand | (erule is_node_mono refs_mono; simp; fail) | (simp; fail) | (rule text_remains, assumption, simp; fail))+

lemma id_parse_atom_wp [wp]: "operand_ok m u \<Longrightarrow> remaining s \<le> m \<Longrightarrow> good s0 s \<Longrightarrow> post s0 s 1 is_node V \<Longrightarrow> wp (id_parse_atom u s) V"
  unfolding id_parse_atom_def  by (assumption | rule wp | erule postD | erule use_operand | (erule is_node_mono refs_mono; simp; fail) | (simp; fail) | (rule text_remains, assumption, simp; fail))+

lemma id_pp2_wp [wp]: "operand_ok m u \<Longrightarrow> remaining s \<le> m \<Longrightarrow> good s0 s \<Longrightarrow> post s0 s 1 is_node V \<Longrightarrow> wp (id_pp2 u s) V"
  unfolding id_pp2_def  by (assumption | rule wp | erule postD | erule use_operand | (erule is_node_mono refs_mono; simp; fail) | (simp; fail) | (rule text_remains, assumption, simp; fail))+

lemma id_parse_paren_wp [wp]: "operand_ok m u \<Longrightarrow> remaining s \<le> m \<Longrightarrow> 0 < remaining s \<Longrightarrow> good s0 s \<Longrightarrow> post s0 s 1 is_node V \<Longrightarrow> wp (id_parse_paren u s) V"
  unfolding id_parse_paren_def  by (assumption | rule wp use_operand [OF id_parse_expr_ok] | erule postD | erule use_operand | (erule is_node_mono refs_mono; simp; fail) | (simp; fail) | (rule text_remains, assumption, simp; fail))+

lemma id_paren_primary_wp [wp]: "operand_ok m u \<Longrightarrow> remaining s \<le> m \<Longrightarrow> 0 < remaining s \<Longrightarrow> good s0 s \<Longrightarrow> post s0 s 1 is_node V \<Longrightarrow> wp (id_paren_primary u s) V"
  unfolding id_paren_primary_def  by (assumption | rule wp | erule postD | erule use_operand | (erule is_node_mono refs_mono; simp; fail) | (simp; fail) | (rule text_remains, assumption, simp; fail))+

lemma id_parse_primary_wp [wp]: "operand_ok m u \<Longrightarrow> remaining s \<le> m \<Longrightarrow> good s0 s \<Longrightarrow> post s0 s 1 is_node V \<Longrightarrow> wp (id_parse_primary u s) V"
  unfolding id_parse_primary_def  by (assumption | rule wp | erule postD | erule use_operand | (erule is_node_mono refs_mono; simp; fail) | (simp; fail) | (rule text_remains, assumption, simp; fail))+

lemma id_fold_index_tail_wp [wp]: "is_node b (length (g_nodes s)) \<Longrightarrow> is_node i (length (g_nodes s)) \<Longrightarrow> good s0 s \<Longrightarrow> post s0 s 0 is_node V \<Longrightarrow> wp (id_fold_index_tail b i ln s) V"
  unfolding id_fold_index_tail_def  by (assumption | rule wp | erule postD | erule use_operand | (erule is_node_mono refs_mono; simp; fail) | (simp; fail) | (rule text_remains, assumption, simp; fail))+

lemma id_fold_index_wp [wp]: "operand_ok m u \<Longrightarrow> remaining s \<le> m \<Longrightarrow> 0 < remaining s \<Longrightarrow> is_node b (length (g_nodes s)) \<Longrightarrow> good s0 s \<Longrightarrow> post s0 s 1 is_node V \<Longrightarrow> wp (id_fold_index u b s) V"
  unfolding id_fold_index_def  by (assumption | rule wp use_operand [OF id_parse_expr_ok] | erule postD | erule use_operand | (erule is_node_mono refs_mono; simp; fail) | (simp; fail) | (rule text_remains, assumption, simp; fail))+

lemma id_fold_field_wp [wp]: "is_node b (length (g_nodes s)) \<Longrightarrow> good s0 s \<Longrightarrow> post s0 s 1 is_node V \<Longrightarrow> wp (id_fold_field b s) V"
  unfolding id_fold_field_def  by (assumption | rule wp | erule postD | erule use_operand | (erule is_node_mono refs_mono; simp; fail) | (simp; fail) | (rule text_remains, assumption, simp; fail))+

lemma id_fold_post_wp [wp]: "operand_ok m u \<Longrightarrow> remaining s \<le> m \<Longrightarrow> 0 < remaining s \<Longrightarrow> is_node b (length (g_nodes s)) \<Longrightarrow> good s0 s \<Longrightarrow> post s0 s 1 is_node V \<Longrightarrow> wp (id_fold_post u b s) V"
  unfolding id_fold_post_def  by (assumption | rule wp | erule postD | erule use_operand | (erule is_node_mono refs_mono; simp; fail) | (simp; fail) | (rule text_remains, assumption, simp; fail))+

lemma id_parse_primary_ok: "operand_ok m u \<Longrightarrow> operand_ok (Suc m) (id_parse_primary u)"
  by (rule operandI, rule id_parse_primary_wp, assumption) simp_all

lemma id_parse_postfix_ok: "operand_ok m u \<Longrightarrow> operand_ok (Suc m) (id_parse_postfix u)"
  unfolding id_parse_postfix_def
proof (rule level_ok [where k = "Suc m"], erule id_parse_primary_ok)
  assume u: "operand_ok m u"
  show "fold_ok (Suc m) (id_fold_post u)" by (rule stepI, rule id_fold_post_wp [OF u]) simp_all
qed (auto dest: text_remains)

lemma id_fold_unary_wp: "operand_ok m u \<Longrightarrow> remaining s \<le> m \<Longrightarrow> 0 < remaining s \<Longrightarrow> good s0 s \<Longrightarrow> post s0 s 1 is_node V
    \<Longrightarrow> wp (id_fold_unary u s) V"
  unfolding id_fold_unary_def id_fold_unary_tail_def by (assumption | rule wp | erule postD | erule use_operand | (erule is_node_mono refs_mono; simp; fail) | (simp; fail) | (rule text_remains, assumption, simp; fail))+

text \<open>The knot: with a depth above the number of tokens left, the operand parser returns.\<close>

lemma id_parse_unary_ok: "operand_ok d (id_parse_unary d)"
proof (induction d)
  case 0
  show ?case by (rule operandI) simp
next
  case (Suc d)
  show ?case
  proof (rule operandI)
    fix s0 s V assume s: "good s0 s" "remaining s < Suc d" "post s0 s 1 is_node V"
    have "0 < remaining s" if "id_cur_text s \<in> set unops" using that text_remains [OF s(1)] by (auto simp: unops_def)
    then show "wp (id_parse_unary (Suc d) s) V"
      unfolding id_parse_unary.simps id_unary_or_postfix_def
      using s id_fold_unary_wp [OF Suc.IH] use_operand [OF id_parse_postfix_ok [OF Suc.IH]]
      by (intro wp_then wp_lookP wp_res wp_if_app) simp_all
  qed
qed

end
