(* ===== verification/StmtLive.thy ===== *)
theory StmtLive
  imports ParseLive
begin

text \<open>
  The rules of the parsers of types, statements, blocks and functions, and the theorems: on any
  tokens a function is parsed to an end, what is printed is noted as a failure, and the nodes
  form a forest.
\<close>

section \<open>Types\<close>

lemma kind_remains: "good s0 s \<Longrightarrow> id_cur_kind s \<noteq> ''eof'' \<Longrightarrow> 0 < remaining s"
  using at_eof good_toks by blast

lemma id_add_brackets_wp [wp]: "good s0 s \<Longrightarrow> post s0 s 0 any V \<Longrightarrow> wp (id_add_brackets t s) V"
  unfolding id_add_brackets_def brackets_step_def
  by (rule loop_wp [where N = any])
    (assumption | rule wp | erule postD | (simp; fail) | (rule text_remains, assumption, simp; fail))+

lemma id_end_msg_ok_wp [wp]: "good s0 s \<Longrightarrow> post s0 s 0 any V \<Longrightarrow> wp (id_end_msg_ok t s) V"
  unfolding id_end_msg_ok_def id_end_word_err_def id_end_func_err_def by (assumption | rule wp | erule postD | erule use_operand | (erule is_node_mono refs_mono; simp; fail) | (simp; fail) | (rule text_remains, assumption, simp; fail))+

lemma id_close_end_wp [wp]: "good s0 s \<Longrightarrow> post s0 s 1 any V \<Longrightarrow> wp (id_close_end s) V"
  unfolding id_close_end_def  by (assumption | rule wp | erule postD | erule use_operand | (erule is_node_mono refs_mono; simp; fail) | (simp; fail) | (rule text_remains, assumption, simp; fail))+

lemma id_parse_end_type_wp [wp]: "parser_ok m any ty \<Longrightarrow> remaining s < m \<Longrightarrow> good s0 s \<Longrightarrow> post s0 s 0 any V \<Longrightarrow> wp (id_parse_end_type ty t s) V"
  unfolding id_parse_end_type_def  by (assumption | rule wp | erule postD | erule use_operand | (erule is_node_mono refs_mono; simp; fail) | (simp; fail) | (rule text_remains, assumption, simp; fail))+

lemma id_end_or_brackets_wp [wp]: "parser_ok m any ty \<Longrightarrow> remaining s < m \<Longrightarrow> good s0 s \<Longrightarrow> post s0 s 0 any V \<Longrightarrow> wp (id_end_or_brackets ty t s) V"
  unfolding id_end_or_brackets_def  by (assumption | rule wp | erule postD | erule use_operand | (erule is_node_mono refs_mono; simp; fail) | (simp; fail) | (rule text_remains, assumption, simp; fail))+

lemma id_no_param_name_wp [wp]: "good s0 s \<Longrightarrow> post s0 s 0 any V \<Longrightarrow> wp (id_no_param_name t s) V"
  unfolding id_no_param_name_def  by (assumption | rule wp | erule postD | erule use_operand | (erule is_node_mono refs_mono; simp; fail) | (simp; fail) | (rule text_remains, assumption, simp; fail))+

lemma id_fn_type_param_wp [wp]: "parser_ok m any ty \<Longrightarrow> remaining s < m \<Longrightarrow> good s0 s \<Longrightarrow> post s0 s 1 any V \<Longrightarrow> wp (id_fn_type_param ty out s) V"
  unfolding id_fn_type_param_def  by (assumption | rule wp | erule postD | erule use_operand | (erule is_node_mono refs_mono; simp; fail) | (simp; fail) | (rule text_remains, assumption, simp; fail))+

lemma id_fn_type_params_wp [wp]:
  "parser_ok m any ty \<Longrightarrow> remaining s < m \<Longrightarrow> good s0 s \<Longrightarrow> post s0 s 0 any V \<Longrightarrow> wp (id_fn_type_params ty out s) V"
  unfolding id_fn_type_params_def
  by (rule wp_then, rule loop_wp [where N = any])
    (assumption | rule wp | erule postD | (simp; fail) | (rule kind_remains, assumption, simp; fail))+

lemma id_no_fn_ret_wp [wp]: "good s0 s \<Longrightarrow> post s0 s 0 any V \<Longrightarrow> wp (id_no_fn_ret rb s) V"
  unfolding id_no_fn_ret_def  by (assumption | rule wp | erule postD | erule use_operand | (erule is_node_mono refs_mono; simp; fail) | (simp; fail) | (rule text_remains, assumption, simp; fail))+

lemma id_no_void_list_wp [wp]: "good s0 s \<Longrightarrow> post s0 s 0 any V \<Longrightarrow> wp (id_no_void_list pl rb rt s) V"
  unfolding id_no_void_list_def  by (assumption | rule wp | erule postD | erule use_operand | (erule is_node_mono refs_mono; simp; fail) | (simp; fail) | (rule text_remains, assumption, simp; fail))+

lemma id_fn_type_ret3_wp [wp]: "parser_ok m any ty \<Longrightarrow> remaining s < m \<Longrightarrow> good s0 s \<Longrightarrow> post s0 s 1 any V \<Longrightarrow> wp (id_fn_type_ret3 ty pl rb s) V"
  unfolding id_fn_type_ret3_def  by (assumption | rule wp | erule postD | erule use_operand | (erule is_node_mono refs_mono; simp; fail) | (simp; fail) | (rule text_remains, assumption, simp; fail))+

lemma id_fn_type_ret2_wp [wp]: "parser_ok m any ty \<Longrightarrow> remaining s < m \<Longrightarrow> good s0 s \<Longrightarrow> post s0 s 1 any V \<Longrightarrow> wp (id_fn_type_ret2 ty pl s) V"
  unfolding id_fn_type_ret2_def  by (assumption | rule wp | erule postD | erule use_operand | (erule is_node_mono refs_mono; simp; fail) | (simp; fail) | (rule text_remains, assumption, simp; fail))+

lemma id_fn_type_ret_wp [wp]: "parser_ok m any ty \<Longrightarrow> remaining s < m \<Longrightarrow> good s0 s \<Longrightarrow> post s0 s 1 any V \<Longrightarrow> wp (id_fn_type_ret ty pl s) V"
  unfolding id_fn_type_ret_def  by (assumption | rule wp | erule postD | erule use_operand | (erule is_node_mono refs_mono; simp; fail) | (simp; fail) | (rule text_remains, assumption, simp; fail))+

lemma id_fn_type_rest_wp [wp]: "parser_ok m any ty \<Longrightarrow> remaining s < m \<Longrightarrow> good s0 s \<Longrightarrow> post s0 s 0 any V \<Longrightarrow> wp (id_fn_type_rest ty s) V"
  unfolding id_fn_type_rest_def  by (assumption | rule wp | erule postD | erule use_operand | (erule is_node_mono refs_mono; simp; fail) | (simp; fail) | (rule text_remains, assumption, simp; fail))+

lemma id_parse_fn_type_wp [wp]: "parser_ok m any ty \<Longrightarrow> remaining s < m \<Longrightarrow> good s0 s \<Longrightarrow> post s0 s 1 any V \<Longrightarrow> wp (id_parse_fn_type ty s) V"
  unfolding id_parse_fn_type_def  by (assumption | rule wp | erule postD | erule use_operand | (erule is_node_mono refs_mono; simp; fail) | (simp; fail) | (rule text_remains, assumption, simp; fail))+

lemma id_type_tail_wp [wp]: "parser_ok m any ty \<Longrightarrow> remaining s < m \<Longrightarrow> good s0 s \<Longrightarrow> post s0 s 0 any V \<Longrightarrow> wp (id_type_tail ty t s) V"
  unfolding id_type_tail_def  by (assumption | rule wp | erule postD | erule use_operand | (erule is_node_mono refs_mono; simp; fail) | (simp; fail) | (rule text_remains, assumption, simp; fail))+

lemma id_parse_type_ok: "parser_ok d any (id_parse_type d)"
proof (induction d)
  case 0
  show ?case by (rule operandI) simp
next
  case (Suc d)
  show ?case
  proof (rule operandI)
    fix s0 s and V :: "string \<Rightarrow> pst \<Rightarrow> bool"
    assume s: "good s0 s" "remaining s < Suc d" "post s0 s 1 any V"
    show "wp (id_parse_type (Suc d) s) V"
    proof (cases "remaining s = 0")
      case True
      then have "id_cur_text s = ''''" using at_eof good_toks s(1) by blast
      then show ?thesis using s unfolding id_parse_type.simps id_type_tail_def id_end_or_brackets_def
        by (intro wp_then wp_lookP wp_do) (simp, (assumption | rule wp | erule postD | (simp; fail))+)
    next
      case False
      then show ?thesis using s Suc.IH unfolding id_parse_type.simps
        by - (assumption | rule wp | erule postD | (simp; fail))+
    qed
  qed
qed

section \<open>Statements\<close>

lemma expr_wp [wp]: "remaining s < n \<Longrightarrow> good s0 s \<Longrightarrow> post s0 s 1 is_node V \<Longrightarrow> wp (exprP n s) V"
  by (rule use_operand [OF id_parse_expr_ok [OF id_parse_unary_ok]])

lemma type_wp [wp]: "remaining s < n \<Longrightarrow> good s0 s \<Longrightarrow> post s0 s 1 any V \<Longrightarrow> wp (id_parse_type n s) V"
  by (rule use_operand [OF id_parse_type_ok])

lemma postfix_wp [wp]:
  "remaining s < n \<Longrightarrow> good s0 s \<Longrightarrow> post s0 s 1 is_node V \<Longrightarrow> wp (id_parse_postfix (id_parse_unary n) s) V"
  by (rule use_operand [OF id_parse_postfix_ok [OF id_parse_unary_ok]]) simp_all

lemma paren_wp [wp]:
  "remaining s < n \<Longrightarrow> good s0 s \<Longrightarrow> post s0 s 1 is_node V \<Longrightarrow> wp (id_parse_paren (id_parse_unary n) s) V"
  unfolding id_parse_paren_def
  by (assumption | rule wp | erule postD | (erule is_node_mono refs_mono; simp; fail) | (simp; fail))+

text \<open>The expression of a \<open>return\<close> may be missing.\<close>

definition opt_node :: "int \<Rightarrow> nat \<Rightarrow> bool" where
  "opt_node e m \<longleftrightarrow> e = - 1 \<or> is_node e m"

lemma opt_node_intros [wp]: "opt_node (0 - 1) m" "is_node e m \<Longrightarrow> opt_node e m"
  by (simp_all add: opt_node_def)

lemma opt_node_mono: "opt_node e m \<Longrightarrow> m \<le> m' \<Longrightarrow> opt_node e m'"
  by (auto simp: opt_node_def is_node_def)

lemma node_ret_wp [wp]:
  "good s0 s \<Longrightarrow> post s0 s 0 is_node V \<Longrightarrow> opt_node e (length (g_nodes s))
     \<Longrightarrow> wp (id_newnode ''ret'' e 0 '''' '''' [] [] s) V"
  by (rule new_node_wp) (auto simp: children_def opt_node_def)

lemma id_parse_exprstmt_wp [wp]: "remaining s < n \<Longrightarrow> good s0 s \<Longrightarrow> post s0 s 1 is_node V \<Longrightarrow> wp (id_parse_exprstmt n s) V"
  unfolding id_parse_exprstmt_def  by (assumption | rule wp | erule postD | erule use_operand | (erule is_node_mono refs_mono; simp; fail) | (simp; fail) | (rule text_remains, assumption, simp; fail))+

lemma id_assign_rhs_wp [wp]: "remaining s < n \<Longrightarrow> good s0 s \<Longrightarrow> post s0 s 1 is_node V \<Longrightarrow> wp (id_assign_rhs n name s) V"
  unfolding id_assign_rhs_def  by (assumption | rule wp | erule postD | erule use_operand | (erule is_node_mono refs_mono; simp; fail) | (simp; fail) | (rule text_remains, assumption, simp; fail))+

lemma id_parse_assign_wp [wp]: "remaining s < n \<Longrightarrow> good s0 s \<Longrightarrow> post s0 s 1 is_node V \<Longrightarrow> wp (id_parse_assign n s) V"
  unfolding id_parse_assign_def  by (assumption | rule wp | erule postD | erule use_operand | (erule is_node_mono refs_mono; simp; fail) | (simp; fail) | (rule text_remains, assumption, simp; fail))+

lemma id_parse_iassign_wp [wp]: "remaining s < n \<Longrightarrow> good s0 s \<Longrightarrow> post s0 s 1 is_node V \<Longrightarrow> wp (id_parse_iassign n s) V"
  unfolding id_parse_iassign_def  by (assumption | rule wp | erule postD | erule use_operand | (erule is_node_mono refs_mono; simp; fail) | (simp; fail) | (rule text_remains, assumption, simp; fail))+

lemma id_parse_stmt5_wp [wp]: "remaining s < n \<Longrightarrow> good s0 s \<Longrightarrow> post s0 s 1 is_node V \<Longrightarrow> wp (id_parse_stmt5 n s) V"
  unfolding id_parse_stmt5_def  by (assumption | rule wp | erule postD | erule use_operand | (erule is_node_mono refs_mono; simp; fail) | (simp; fail) | (rule text_remains, assumption, simp; fail))+

lemma id_parse_stmt4_wp [wp]: "remaining s < n \<Longrightarrow> good s0 s \<Longrightarrow> post s0 s 1 is_node V \<Longrightarrow> wp (id_parse_stmt4 n s) V"
  unfolding id_parse_stmt4_def  by (assumption | rule wp | erule postD | erule use_operand | (erule is_node_mono refs_mono; simp; fail) | (simp; fail) | (rule text_remains, assumption, simp; fail))+

lemma id_parse_ret_wp [wp]: "remaining s < n \<Longrightarrow> good s0 s \<Longrightarrow> post s0 s 1 is_node V \<Longrightarrow> wp (id_parse_ret n s) V"
  unfolding id_parse_ret_def  by (assumption | rule wp | erule postD | erule use_operand | (erule is_node_mono refs_mono; simp; fail) | (simp; fail) | (rule text_remains, assumption, simp; fail))+

lemma id_parse_ret_or_wp [wp]: "remaining s < n \<Longrightarrow> good s0 s \<Longrightarrow> post s0 s 1 is_node V \<Longrightarrow> wp (id_parse_ret_or n s) V"
  unfolding id_parse_ret_or_def  by (assumption | rule wp | erule postD | erule use_operand | (erule is_node_mono refs_mono; simp; fail) | (simp; fail) | (rule text_remains, assumption, simp; fail))+

lemma id_parse_blank_wp:
  "id_cur_text s = ''blank'' \<or> id_cur_text s = ''break'' \<Longrightarrow> good s0 s \<Longrightarrow> post s0 s 1 is_node V \<Longrightarrow> wp (id_parse_blank s) V"
  unfolding id_parse_blank_def by (assumption | rule wp | erule postD | (simp; fail) | (elim disjE; simp; fail))+

lemma id_parse_blank_or_wp [wp]: "remaining s < n \<Longrightarrow> good s0 s \<Longrightarrow> post s0 s 1 is_node V \<Longrightarrow> wp (id_parse_blank_or n s) V"
  unfolding id_parse_blank_or_def  by (assumption | rule wp id_parse_blank_wp | erule postD | erule use_operand | (erule is_node_mono refs_mono; simp; fail) | (simp; fail) | (rule text_remains, assumption, simp; fail))+

lemma id_decl_rhs_wp [wp]: "remaining s < n \<Longrightarrow> good s0 s \<Longrightarrow> post s0 s 1 is_node V \<Longrightarrow> wp (id_decl_rhs n t name x s) V"
  unfolding id_decl_rhs_def  by (assumption | rule wp | erule postD | erule use_operand | (erule is_node_mono refs_mono; simp; fail) | (simp; fail) | (rule text_remains, assumption, simp; fail))+

lemma id_finish_decl_tail_wp [wp]: "remaining s < n \<Longrightarrow> good s0 s \<Longrightarrow> post s0 s 1 is_node V \<Longrightarrow> wp (id_finish_decl_tail n t name x s) V"
  unfolding id_finish_decl_tail_def  by (assumption | rule wp | erule postD | erule use_operand | (erule is_node_mono refs_mono; simp; fail) | (simp; fail) | (rule text_remains, assumption, simp; fail))+

lemma id_finish_decl_wp [wp]: "remaining s < n \<Longrightarrow> good s0 s \<Longrightarrow> post s0 s 1 is_node V \<Longrightarrow> wp (id_finish_decl n t x s) V"
  unfolding id_finish_decl_def  by (assumption | rule wp | erule postD | erule use_operand | (erule is_node_mono refs_mono; simp; fail) | (simp; fail) | (rule text_remains, assumption, simp; fail))+

lemma id_take_export_wp [wp]: "good s0 s \<Longrightarrow> post s0 s 0 any V \<Longrightarrow> wp (id_take_export s) V"
  unfolding id_take_export_def  by (assumption | rule wp | erule postD | erule use_operand | (erule is_node_mono refs_mono; simp; fail) | (simp; fail) | (rule text_remains, assumption, simp; fail))+

lemma id_parse_decl_wp [wp]: "remaining s < n \<Longrightarrow> good s0 s \<Longrightarrow> post s0 s 1 is_node V \<Longrightarrow> wp (id_parse_decl n s) V"
  unfolding id_parse_decl_def  by (assumption | rule wp | erule postD | erule use_operand | (erule is_node_mono refs_mono; simp; fail) | (simp; fail) | (rule text_remains, assumption, simp; fail))+

lemma id_parse_stmt3_wp [wp]: "remaining s < n \<Longrightarrow> good s0 s \<Longrightarrow> post s0 s 1 is_node V \<Longrightarrow> wp (id_parse_stmt3 n s) V"
  unfolding id_parse_stmt3_def  by (assumption | rule wp | erule postD | erule use_operand | (erule is_node_mono refs_mono; simp; fail) | (simp; fail) | (rule text_remains, assumption, simp; fail))+

section \<open>Blocks, conditionals and loops\<close>

text \<open>\<open>fs\<close> is the parser of one statement of a block; it may be run with fewer than \<open>m\<close> tokens left.\<close>

lemma id_fill_block_wp:
  assumes "step_ok m refs_below fs" "remaining s \<le> m - 1" "refs_below xs (length (g_nodes s))" "good s0 s" "post s0 s 0 refs_below V"
  shows "wp (id_fill_block fs xs s) V"
  unfolding id_fill_block_def
proof (rule loop_wp [where N = refs_below, OF assms(4,3,5)])
  fix t assume "good s0 t" "id_cur_text t \<noteq> ''}'' \<and> id_cur_kind t \<noteq> ''eof''"
  then show "0 < remaining t" using kind_remains by blast
next
  fix b t W assume t: "good s0 t" "0 < remaining t" "remaining t \<le> remaining s" "refs_below b (length (g_nodes t))"
    "post s0 t 1 refs_below W"
  then have "remaining t < m" using assms(2) by auto
  then show "wp (fs b t) W" using t by (intro use_step [OF assms(1)]) simp_all
qed

lemma id_scan_block_wp [wp]: "step_ok m refs_below fs \<Longrightarrow> remaining s \<le> m \<Longrightarrow> refs_below xs (length (g_nodes s)) \<Longrightarrow> good s0 s \<Longrightarrow> post s0 s 1 refs_below V \<Longrightarrow> wp (id_scan_block fs xs s) V"
  unfolding id_scan_block_def  by (assumption | rule wp id_fill_block_wp | erule postD | erule use_operand | (erule is_node_mono refs_mono opt_node_mono; simp; fail) | (simp; fail) | (rule text_remains, assumption, simp; fail))+

lemma id_parse_block_wp [wp]: "step_ok m refs_below fs \<Longrightarrow> remaining s \<le> m \<Longrightarrow> good s0 s \<Longrightarrow> post s0 s 1 refs_below V \<Longrightarrow> wp (id_parse_block fs s) V"
  unfolding id_parse_block_def  by (assumption | rule wp | erule postD | erule use_operand | (erule is_node_mono refs_mono opt_node_mono; simp; fail) | (simp; fail) | (rule text_remains, assumption, simp; fail))+

lemma id_else_body_wp:
  assumes "step_ok m refs_below fs" "remaining s \<le> m" "remaining s \<le> k" "good s0 s" "post s0 s 0 refs_below V"
    and pif: "\<And>t W. good s0 t \<Longrightarrow> 0 < remaining t \<Longrightarrow> remaining t \<le> k \<Longrightarrow> post s0 t 1 is_node W \<Longrightarrow> wp (pif t) W"
  shows "wp (id_else_body fs pif s) V"
  unfolding id_else_body_def using assms(1-5)
  by - (assumption | rule wp pif | erule postD | erule use_operand | (erule is_node_mono refs_mono opt_node_mono; simp; fail) | (simp; fail) | (rule text_remains, assumption, simp; fail))+

lemma id_parse_else_wp:
  assumes "step_ok m refs_below fs" "remaining s \<le> m" "remaining s \<le> k" "good s0 s" "post s0 s 0 refs_below V"
    and pif: "\<And>t W. good s0 t \<Longrightarrow> 0 < remaining t \<Longrightarrow> remaining t \<le> k \<Longrightarrow> post s0 t 1 is_node W \<Longrightarrow> wp (pif t) W"
  shows "wp (id_parse_else fs pif s) V"
  unfolding id_parse_else_def using assms(1-5)
  by - (assumption | rule wp id_else_body_wp pif | erule postD | erule use_operand | (erule is_node_mono refs_mono opt_node_mono; simp; fail) | (simp; fail) | (rule text_remains, assumption, simp; fail))+

lemma id_if_tail_wp:
  assumes "step_ok m refs_below fs" "remaining s \<le> m" "remaining s \<le> k" "good s0 s" "post s0 s 0 is_node V"
    and pif: "\<And>t W. good s0 t \<Longrightarrow> 0 < remaining t \<Longrightarrow> remaining t \<le> k \<Longrightarrow> post s0 t 1 is_node W \<Longrightarrow> wp (pif t) W"
    and "is_node c (length (g_nodes s))" "refs_below xs (length (g_nodes s))"
  shows "wp (id_if_tail fs pif c xs e s) V"
  unfolding id_if_tail_def using assms(1-5,7-)
  by - (assumption | rule wp id_parse_else_wp pif | erule postD | erule use_operand | (erule is_node_mono refs_mono opt_node_mono; simp; fail) | (simp; fail) | (rule text_remains, assumption, simp; fail))+

lemma id_if_body_wp:
  assumes "step_ok m refs_below fs" "remaining s \<le> m" "remaining s \<le> k" "good s0 s" "post s0 s 0 is_node V"
    and pif: "\<And>t W. good s0 t \<Longrightarrow> 0 < remaining t \<Longrightarrow> remaining t \<le> k \<Longrightarrow> post s0 t 1 is_node W \<Longrightarrow> wp (pif t) W"
    and "is_node c (length (g_nodes s))"
  shows "wp (id_if_body fs pif c s) V"
  unfolding id_if_body_def using assms(1-5,7-)
  by - (assumption | rule wp id_if_tail_wp pif | erule postD | erule use_operand | (erule is_node_mono refs_mono opt_node_mono; simp; fail) | (simp; fail) | (rule text_remains, assumption, simp; fail))+

declare id_parse_paren_wp [wp del]

lemma id_parse_if_wp:
  "remaining s < n \<Longrightarrow> step_ok m refs_below fs \<Longrightarrow> remaining s \<le> m \<Longrightarrow> 0 < remaining s \<Longrightarrow> remaining s \<le> d
     \<Longrightarrow> good s0 s \<Longrightarrow> post s0 s 1 is_node V \<Longrightarrow> wp (id_parse_if n fs d s) V"
proof (induction d arbitrary: s V)
  case (Suc d)
  have "wp (id_parse_if n fs d t) W" if "good s0 t" "0 < remaining t" "remaining t \<le> remaining s - 1" "post s0 t 1 is_node W" for t W
    using that Suc.prems by (intro Suc.IH) auto
  note pif = this
  show ?case unfolding id_parse_if.simps using Suc.prems
    by - (assumption | rule wp | (rule id_if_body_wp [where k = "remaining s - 1" and m = m], assumption) | (rule pif; simp; fail)
      | erule postD | (erule is_node_mono; simp; fail) | (simp; fail))+
qed simp

lemma add_loopd_wp [wp]: "good s0 s \<Longrightarrow> post s0 s 0 any V \<Longrightarrow> wp (add_loopd k s) V"
  unfolding add_loopd_def by (rule quiet_upd_wp) simp_all

lemma id_parse_while_wp [wp]: "remaining s < n \<Longrightarrow> step_ok m refs_below fs \<Longrightarrow> remaining s \<le> m \<Longrightarrow> good s0 s \<Longrightarrow> post s0 s 1 is_node V \<Longrightarrow> wp (id_parse_while n fs s) V"
  unfolding id_parse_while_def  by (assumption | rule wp | erule postD | erule use_operand | (erule is_node_mono refs_mono opt_node_mono; simp; fail) | (simp; fail) | (rule text_remains, assumption, simp; fail))+

lemma id_parse_stmt2_wp [wp]: "remaining s < n \<Longrightarrow> step_ok m refs_below fs \<Longrightarrow> remaining s \<le> m \<Longrightarrow> good s0 s \<Longrightarrow> post s0 s 1 is_node V \<Longrightarrow> wp (id_parse_stmt2 n fs s) V"
  unfolding id_parse_stmt2_def  by (assumption | rule wp | erule postD | erule use_operand | (erule is_node_mono refs_mono opt_node_mono; simp; fail) | (simp; fail) | (rule text_remains, assumption, simp; fail))+

lemma id_parse_stmt_wp [wp]: "remaining s < n \<Longrightarrow> step_ok m refs_below fs \<Longrightarrow> remaining s \<le> m \<Longrightarrow> good s0 s
    \<Longrightarrow> post s0 s 1 is_node V \<Longrightarrow> wp (id_parse_stmt n fs s) V"
  unfolding id_parse_stmt_def
  by (rule wp_if, rule id_parse_if_wp) (assumption | rule wp | erule postD | erule use_operand | (erule is_node_mono refs_mono opt_node_mono; simp; fail) | (simp; fail) | (rule text_remains, assumption, simp; fail))+

lemma id_stmt_at_line_wp [wp]: "remaining s < n \<Longrightarrow> step_ok m refs_below fs \<Longrightarrow> remaining s \<le> m \<Longrightarrow> good s0 s \<Longrightarrow> post s0 s 1 is_node V \<Longrightarrow> wp (id_stmt_at_line n fs s) V"
  unfolding id_stmt_at_line_def  by (assumption | rule wp | erule postD | erule use_operand | (erule is_node_mono refs_mono opt_node_mono; simp; fail) | (simp; fail) | (rule text_remains, assumption, simp; fail))+

lemma id_parse_for_init_wp [wp]: "remaining s < n \<Longrightarrow> good s0 s \<Longrightarrow> post s0 s 1 is_node V \<Longrightarrow> wp (id_parse_for_init n s) V"
  unfolding id_parse_for_init_def  by (assumption | rule wp | erule postD | erule use_operand | (erule is_node_mono refs_mono opt_node_mono; simp; fail) | (simp; fail) | (rule text_remains, assumption, simp; fail))+

lemma id_parse_for_step_wp [wp]: "remaining s < n \<Longrightarrow> good s0 s \<Longrightarrow> post s0 s 1 is_node V \<Longrightarrow> wp (id_parse_for_step n s) V"
  unfolding id_parse_for_step_def  by (assumption | rule wp | erule postD | erule use_operand | (erule is_node_mono refs_mono opt_node_mono; simp; fail) | (simp; fail) | (rule text_remains, assumption, simp; fail))+

text \<open>The while loop a \<open>for\<close> becomes is marked after it was made; the mark is not a child.\<close>

lemma marked_while_wp:
  assumes "good s0 s" "post s0 s 0 is_node V" "is_node c (length (g_nodes s))" "refs_below xs (length (g_nodes s))"
  shows "wp (thenP (id_node_while c xs) (\<lambda>r. doP (set_node r (\<lambda>w. w\<lparr>n_i2 := 1\<rparr>)) (giveP r)) s) V"
proof -
  let ?n = "\<lparr>n_kind = ''while'', n_i1 = c, n_i2 = 0, n_s1 = '''', n_s2 = '''', n_l1 = xs, n_l2 = [],
               n_unit = g_ucur s, n_line = g_curtl s, n_tok = g_curtk s, n_st = 0 - 1\<rparr>"
  let ?t = "s\<lparr>g_nodes := lpush (g_nodes s) ?n\<rparr>"
  have e: "id_node_while c xs s = Some (Inr (int (length (g_nodes s)), ?t))"
    by (simp add: id_node_while_def id_newnode_def Let_def llen_def)
  have "wp (id_node_while c xs s) (\<lambda>r t. good s0 t)"
    by (rule node_while_wp [OF assms(1) _ assms(3,4)]) (simp add: post_def)
  then have t: "good s0 ?t" by (simp add: e wp_def)
  have p: "post s0 ?t 0 any (\<lambda>_. V (int (length (g_nodes s))))"
    using assms(2) by (auto simp: post_def is_node_def remaining_def)
  have w: "wp (set_node (int (length (g_nodes s))) (\<lambda>w. w\<lparr>n_i2 := 1\<rparr>) ?t) (\<lambda>_. V (int (length (g_nodes s))))"
    by (rule set_node_wp [OF t p]) (simp add: children_def)
  have q: "wp (giveP r t) V = V r t" for r t by (simp add: wp_def)
  show ?thesis
    by (intro wp_then, unfold e) (rule wp_give, rule wp_do, unfold q, rule w)
qed

definition node_and_refs :: "int \<times> int list \<Rightarrow> nat \<Rightarrow> bool" where
  "node_and_refs p m \<longleftrightarrow> is_node (fst p) m \<and> refs_below (snd p) m"

lemma node_and_refs_I [wp]: "is_node r m \<Longrightarrow> refs_below xs m \<Longrightarrow> node_and_refs (r, xs) m"
  by (simp add: node_and_refs_def)

lemma id_parse_for_loop_wp [wp]:
  "step_ok m refs_below fs \<Longrightarrow> remaining s \<le> m \<Longrightarrow> is_node c (length (g_nodes s)) \<Longrightarrow> is_node st (length (g_nodes s))
     \<Longrightarrow> good s0 s \<Longrightarrow> post s0 s 0 is_node V \<Longrightarrow> wp (id_parse_for_loop fs c st s) V"
  unfolding id_parse_for_loop_def Let_def
  by (assumption | rule marked_while_wp | rule wp | erule postD | (erule is_node_mono refs_mono; simp; fail) | (simp; fail))+

lemma id_parse_for_wp:
  "remaining s < n \<Longrightarrow> step_ok m refs_below fs \<Longrightarrow> remaining s \<le> m \<Longrightarrow> refs_below xs (length (g_nodes s))
     \<Longrightarrow> good s0 s \<Longrightarrow> post s0 s 1 node_and_refs V \<Longrightarrow> wp (id_parse_for n fs xs s) V"
  unfolding id_parse_for_def Let_def
  by (assumption | rule wp | erule postD | (erule is_node_mono refs_mono; simp; fail) | (simp; fail))+

lemma id_fill_stmt_ok: "step_ok (min d n) refs_below (id_fill_stmt n d)"
proof (induction d)
  case 0
  show ?case by (rule stepI) simp
next
  case (Suc d)
  show ?case
  proof (rule stepI)
    fix s0 s xs V
    assume s: "good s0 s" "0 < remaining s" "remaining s < min (Suc d) n" "refs_below xs (length (g_nodes s))"
      "post s0 s 1 refs_below V"
    then have r: "remaining s < n" "remaining s \<le> min d n" by auto
    have f: "wp (thenP (lookP g_pos) (\<lambda>t0. thenP (id_parse_for n (id_fill_stmt n d) xs) (\<lambda>(for_node, stmts).
          doP (id_stmt_done for_node t0) (giveP stmts))) s) V"
      by (intro wp_then wp_lookP id_parse_for_wp [OF r(1) Suc.IH r(2) s(4,1)] postI; clarsimp simp: node_and_refs_def)
        (insert s, assumption | rule wp | erule postD | (erule is_node_mono refs_mono; simp; fail) | (simp; fail))+
    have "wp (thenP (id_stmt_at_line n (id_fill_stmt n d)) (\<lambda>st. giveP (lpush xs st)) s) V"
      using r s Suc.IH
      by - (assumption | rule wp | erule postD | (erule is_node_mono refs_mono; simp; fail) | (simp; fail))+
    then show "wp (id_fill_stmt n (Suc d) xs s) V" using f by simp
  qed
qed

section \<open>Functions\<close>

lemma id_skip_pure_wp [wp]: "good s0 s \<Longrightarrow> post s0 s 0 any V \<Longrightarrow> wp (id_skip_pure s) V"
  unfolding id_skip_pure_def  by (assumption | rule wp | erule postD | erule use_operand | (erule is_node_mono refs_mono opt_node_mono; simp; fail) | (simp; fail) | (rule text_remains, assumption, simp; fail) | (rule kind_remains, assumption, simp; fail))+

lemma id_take_borrows_wp [wp]: "good s0 s \<Longrightarrow> post s0 s 0 any V \<Longrightarrow> wp (id_take_borrows s) V"
  unfolding id_take_borrows_def  by (assumption | rule wp | erule postD | erule use_operand | (erule is_node_mono refs_mono opt_node_mono; simp; fail) | (simp; fail) | (rule text_remains, assumption, simp; fail) | (rule kind_remains, assumption, simp; fail))+

lemma id_pure_mark_fn_wp [wp]: "good s0 s \<Longrightarrow> post s0 s 0 any V \<Longrightarrow> wp (id_pure_mark_fn b i s) V"
  unfolding id_pure_mark_fn_def  by (assumption | rule wp | erule postD | erule use_operand | (erule is_node_mono refs_mono opt_node_mono; simp; fail) | (simp; fail) | (rule text_remains, assumption, simp; fail) | (rule kind_remains, assumption, simp; fail))+

lemma id_pure_misplaced_wp [wp]: "good s0 s \<Longrightarrow> post s0 s 0 any V \<Longrightarrow> wp (id_pure_misplaced a b s) V"
  unfolding id_pure_misplaced_def  by (assumption | rule wp | erule postD | erule use_operand | (erule is_node_mono refs_mono opt_node_mono; simp; fail) | (simp; fail) | (rule text_remains, assumption, simp; fail) | (rule kind_remains, assumption, simp; fail))+

lemma id_pure_mark_param_wp [wp]: "good s0 s \<Longrightarrow> post s0 s 0 any V \<Longrightarrow> wp (id_pure_mark_param b i s) V"
  unfolding id_pure_mark_param_def  by (assumption | rule wp | erule postD | erule use_operand | (erule is_node_mono refs_mono opt_node_mono; simp; fail) | (simp; fail) | (rule text_remains, assumption, simp; fail) | (rule kind_remains, assumption, simp; fail))+

lemma id_borrow_refuse_wp [wp]: "good s0 s \<Longrightarrow> post s0 s 0 any V \<Longrightarrow> wp (id_borrow_refuse a b s) V"
  unfolding id_borrow_refuse_def  by (assumption | rule wp | erule postD | erule use_operand | (erule is_node_mono refs_mono opt_node_mono; simp; fail) | (simp; fail) | (rule text_remains, assumption, simp; fail) | (rule kind_remains, assumption, simp; fail))+

lemma id_borrow_check_wp [wp]: "good s0 s \<Longrightarrow> post s0 s 0 any V \<Longrightarrow> wp (id_borrow_check a b i s) V"
  unfolding id_borrow_check_def  by (assumption | rule wp | erule postD | erule use_operand | (erule is_node_mono refs_mono opt_node_mono; simp; fail) | (simp; fail) | (rule text_remains, assumption, simp; fail) | (rule kind_remains, assumption, simp; fail))+

lemma id_borrow_mark_wp [wp]: "good s0 s \<Longrightarrow> post s0 s 0 any V \<Longrightarrow> wp (id_borrow_mark a b c i s) V"
  unfolding id_borrow_mark_def  by (assumption | rule wp | erule postD | erule use_operand | (erule is_node_mono refs_mono opt_node_mono; simp; fail) | (simp; fail) | (rule text_remains, assumption, simp; fail) | (rule kind_remains, assumption, simp; fail))+

lemma id_one_param_wp [wp]: "leaf k \<Longrightarrow> remaining s < n \<Longrightarrow> good s0 s \<Longrightarrow> post s0 s 1 is_node V \<Longrightarrow> wp (id_one_param n k s) V"
  unfolding id_one_param_def  by (assumption | rule wp | erule postD | erule use_operand | (erule is_node_mono refs_mono opt_node_mono; simp; fail) | (simp; fail) | (rule text_remains, assumption, simp; fail) | (rule kind_remains, assumption, simp; fail))+

lemma fill_param_wp [wp]: "leaf k \<Longrightarrow> remaining s < n \<Longrightarrow> refs_below xs (length (g_nodes s)) \<Longrightarrow> good s0 s \<Longrightarrow> post s0 s 1 refs_below V \<Longrightarrow> wp (fill_param n k xs s) V"
  unfolding fill_param_def  by (assumption | rule wp | erule postD | erule use_operand | (erule is_node_mono refs_mono opt_node_mono; simp; fail) | (simp; fail) | (rule text_remains, assumption, simp; fail) | (rule kind_remains, assumption, simp; fail))+

lemma id_fill_params_wp [wp]:
  assumes "leaf k" "remaining s < n" "refs_below xs (length (g_nodes s))" "good s0 s" "post s0 s 0 refs_below V"
  shows "wp (id_fill_params n xs k s) V"
  unfolding id_fill_params_def
proof (rule loop_wp [where N = refs_below, OF assms(4,3,5)])
  fix b t W assume t: "good s0 t" "0 < remaining t" "remaining t \<le> remaining s" "refs_below b (length (g_nodes t))"
    "post s0 t 1 refs_below W"
  then show "wp (fill_param n k b t) W" using assms(2) by (intro fill_param_wp [OF assms(1)]) simp_all
qed (auto dest: kind_remains)

lemma id_scan_params_wp [wp]: "leaf k \<Longrightarrow> remaining s < n \<Longrightarrow> refs_below xs (length (g_nodes s)) \<Longrightarrow> good s0 s \<Longrightarrow> post s0 s 1 refs_below V \<Longrightarrow> wp (id_scan_params n xs k s) V"
  unfolding id_scan_params_def  by (assumption | rule wp | erule postD | erule use_operand | (erule is_node_mono refs_mono opt_node_mono; simp; fail) | (simp; fail) | (rule text_remains, assumption, simp; fail) | (rule kind_remains, assumption, simp; fail))+

lemma id_parse_params_wp [wp]: "leaf k \<Longrightarrow> remaining s < n \<Longrightarrow> good s0 s \<Longrightarrow> post s0 s 1 refs_below V \<Longrightarrow> wp (id_parse_params n k s) V"
  unfolding id_parse_params_def  by (assumption | rule wp | erule postD | erule use_operand | (erule is_node_mono refs_mono opt_node_mono; simp; fail) | (simp; fail) | (rule text_remains, assumption, simp; fail) | (rule kind_remains, assumption, simp; fail))+

lemma id_void_export_wp [wp]: "good s0 s \<Longrightarrow> post s0 s 0 any V \<Longrightarrow> wp (id_void_export s) V"
  unfolding id_void_export_def  by (assumption | rule wp | erule postD | erule use_operand | (erule is_node_mono refs_mono opt_node_mono; simp; fail) | (simp; fail) | (rule text_remains, assumption, simp; fail) | (rule kind_remains, assumption, simp; fail))+

lemma id_void_tail_wp [wp]: "good s0 s \<Longrightarrow> post s0 s 0 any V \<Longrightarrow> wp (id_void_tail s) V"
  unfolding id_void_tail_def  by (assumption | rule wp | erule postD | erule use_operand | (erule is_node_mono refs_mono opt_node_mono; simp; fail) | (simp; fail) | (rule text_remains, assumption, simp; fail) | (rule kind_remains, assumption, simp; fail))+

lemma id_ret_expr_wp [wp]: "remaining s < n \<Longrightarrow> good s0 s \<Longrightarrow> post s0 s 0 opt_node V \<Longrightarrow> wp (id_ret_expr n rt s) V"
  unfolding id_ret_expr_def  by (assumption | rule wp | erule postD | erule use_operand | (erule is_node_mono refs_mono opt_node_mono; simp; fail) | (simp; fail) | (rule text_remains, assumption, simp; fail) | (rule kind_remains, assumption, simp; fail))+

lemma id_non_void_export_wp [wp]: "good s0 s \<Longrightarrow> post s0 s 0 any V \<Longrightarrow> wp (id_non_void_export rt s) V"
  unfolding id_non_void_export_def  by (assumption | rule wp | erule postD | erule use_operand | (erule is_node_mono refs_mono opt_node_mono; simp; fail) | (simp; fail) | (rule text_remains, assumption, simp; fail) | (rule kind_remains, assumption, simp; fail))+

lemma wp_split [wp]: "(\<And>a b. x = (a, b) \<Longrightarrow> wp (f a b t) V) \<Longrightarrow> wp ((case x of (a, b) \<Rightarrow> f a b) t) V"
  by (cases x) simp

lemma id_seal_rets_wp [wp]: "good s0 s \<Longrightarrow> post s0 s 0 any V \<Longrightarrow> wp (id_seal_rets name rt s) V"
  unfolding id_seal_rets_def
proof (rule wp_while [where f = "\<lambda>t. length (g_pend_rets t)" and I = "\<lambda>_ t. good s0 t
      \<and> length (g_nodes s) \<le> length (g_nodes t) \<and> remaining t \<le> remaining s"], goal_cases)
  case (2 b t)
  have "wp (set_node r f t') (\<lambda>b t''. (good s0 t'' \<and> length (g_nodes s) \<le> length (g_nodes t'') \<and> remaining t'' \<le> remaining s)
      \<and> length (g_pend_rets t'') < length (g_pend_rets t))"
    if "keeps f" "good s0 t'" "length (g_nodes s) \<le> length (g_nodes t')" "remaining t' \<le> remaining s"
      "length (g_pend_rets t') < length (g_pend_rets t)" for r f t'
  proof -
    have "g_pend_rets t'' = g_pend_rets t'" if "set_node r f t' = Some (Inr (u, t''))" for u t''
      using that by (auto simp: set_node_def andThen_Inr_iff)
    moreover have "wp (set_node r f t') (\<lambda>b t''. good s0 t'' \<and> length (g_nodes s) \<le> length (g_nodes t'') \<and> remaining t'' \<le> remaining s)"
      using that by (intro set_attribute_wp postI) auto
    ultimately show ?thesis using that(5) by (auto simp: wp_def)
  qed
  note r = this
  show ?case unfolding seal_one_def using 2
    by (intro wp_then wp_res wp_split wp_do wp_updP r)
      (auto simp: lpop_def remaining_def llen_def split: if_splits elim: good_upd)
qed (auto intro: postD)

section \<open>Chains\<close>

lemma id_chain_one_wp [wp]: "good s0 s \<Longrightarrow> post s0 s 0 any V \<Longrightarrow> wp (id_chain_one a b s) V"
  unfolding id_chain_one_def  by (assumption | rule wp | erule postD | erule use_operand | (erule is_node_mono refs_mono opt_node_mono; simp; fail) | (simp; fail) | (rule text_remains, assumption, simp; fail) | (rule kind_remains, assumption, simp; fail))+

lemma id_chain_each_wp [wp]: "good s0 s \<Longrightarrow> post s0 s 0 any V \<Longrightarrow> wp (id_chain_each xs ys i s) V"
proof (induction "nat (llen xs - i)" arbitrary: i s V rule: less_induct)
  case less
  have "wp (id_chain_each xs ys (i + 1) t) W" if "good s0 t" "post s0 t 0 any W" "i < llen xs" for t W
    using that by (intro less.hyps) auto
  note r = this
  show ?case using less.prems
    by (subst id_chain_each.simps) (assumption | rule wp r | erule postD | (simp; fail))+
qed

lemma id_chain_same_wp [wp]: "good s0 s \<Longrightarrow> post s0 s 0 any V \<Longrightarrow> wp (id_chain_same xs ys s) V"
  unfolding id_chain_same_def  by (assumption | rule wp | erule postD | erule use_operand | (erule is_node_mono refs_mono opt_node_mono; simp; fail) | (simp; fail) | (rule text_remains, assumption, simp; fail) | (rule kind_remains, assumption, simp; fail))+

lemma id_list_extend_append: "id_list_extend xs ys = Inr zs \<Longrightarrow> zs = xs @ ys"
  by (simp add: id_list_extend_def extend_all)

lemma refs_append: "refs_below xs m \<Longrightarrow> refs_below ys m \<Longrightarrow> refs_below (xs @ ys) m"
  by simp

lemma id_chain_add_wp [wp]:
  "refs_below xs (length (g_nodes s)) \<Longrightarrow> refs_below ys (length (g_nodes s)) \<Longrightarrow> good s0 s \<Longrightarrow> post s0 s 0 refs_below V
     \<Longrightarrow> wp (id_chain_add xs ys s) V"
  unfolding id_chain_add_def
  by (assumption | rule wp refs_append | (drule id_list_extend_append, simp only:) | erule postD
    | (erule is_node_mono refs_mono; simp; fail) | (simp; fail))+

lemma id_chain_tail_wp [wp]: "step_ok m refs_below fs \<Longrightarrow> remaining s \<le> m \<Longrightarrow> refs_below b (length (g_nodes s)) \<Longrightarrow> good s0 s \<Longrightarrow> post s0 s 1 refs_below V \<Longrightarrow> wp (id_chain_tail fs p r b s) V"
  unfolding id_chain_tail_def  by (assumption | rule wp | erule postD | erule use_operand | (erule is_node_mono refs_mono opt_node_mono; simp; fail) | (simp; fail) | (rule text_remains, assumption, simp; fail) | (rule kind_remains, assumption, simp; fail))+

lemma id_take_chain_wp [wp]: "remaining s < n \<Longrightarrow> step_ok m refs_below fs \<Longrightarrow> remaining s \<le> m \<Longrightarrow> refs_below b (length (g_nodes s)) \<Longrightarrow> good s0 s \<Longrightarrow> post s0 s 1 refs_below V \<Longrightarrow> wp (id_take_chain n fs p b s) V"
  unfolding id_take_chain_def  by (assumption | rule wp | erule postD | erule use_operand | (erule is_node_mono refs_mono opt_node_mono; simp; fail) | (simp; fail) | (rule text_remains, assumption, simp; fail) | (rule kind_remains, assumption, simp; fail))+

lemma id_chain_loop_wp [wp]:
  assumes "remaining s < n" "step_ok m refs_below fs" "remaining s \<le> m" "refs_below b (length (g_nodes s))" "good s0 s" "post s0 s 0 refs_below V"
  shows "wp (id_chain_loop n fs p b s) V"
  unfolding id_chain_loop_def
proof (rule loop_wp [where N = refs_below, OF assms(5,4,6)])
  fix b t W assume t: "good s0 t" "0 < remaining t" "remaining t \<le> remaining s" "refs_below b (length (g_nodes t))"
    "post s0 t 1 refs_below W"
  then show "wp (id_take_chain n fs p b t) W" using assms(1,3) by (intro id_take_chain_wp [OF _ assms(2)]) simp_all
qed (rule text_remains, assumption, simp)

lemma id_parse_segments_wp [wp]: "remaining s < n \<Longrightarrow> step_ok m refs_below fs \<Longrightarrow> remaining s \<le> m \<Longrightarrow> good s0 s \<Longrightarrow> post s0 s 1 refs_below V \<Longrightarrow> wp (id_parse_segments n fs p s) V"
  unfolding id_parse_segments_def  by (assumption | rule wp | erule postD | erule use_operand | (erule is_node_mono refs_mono opt_node_mono; simp; fail) | (simp; fail) | (rule text_remains, assumption, simp; fail) | (rule kind_remains, assumption, simp; fail))+

section \<open>Function nodes\<close>

text \<open>The export a function initialises is noted in an attribute of its node that is not a child.\<close>

lemma id_retexp_bind_wp:
  assumes "good s0 s" "post s0 s 0 any V" "is_node f (length (g_nodes s))" "n_kind (g_nodes s ! nat f) = ''func''"
  shows "wp (id_retexp_bind f s) V"
proof (cases "0 < llen (g_retexp_pend s)")
  case True
  show ?thesis unfolding id_retexp_bind_def
  proof (intro wp_if wp_then wp_res wp_split wp_do wp_updP)
    fix nm rest
    let ?t = "s\<lparr>g_retexp_pend := rest, g_retexp := lpush (g_retexp s) nm\<rparr>"
    have t: "good s0 ?t" "post s0 ?t 0 any V" using assms(1,2) by (auto elim: good_upd simp: post_def remaining_def)
    show "wp (set_node f (\<lambda>n. n\<lparr>n_i2 := llen (g_retexp ?t) + 1\<rparr>) ?t) V"
      by (rule set_node_wp [OF t]) (use assms(4) in \<open>simp add: children_def\<close>)
  qed (use True in \<open>simp_all\<close>)
next
  case False
  then show ?thesis using assms(1,2) by (simp add: id_retexp_bind_def wp_def) (erule postD; simp)
qed

lemma good_kind: "good s t \<Longrightarrow> is_node r (length (g_nodes s)) \<Longrightarrow> n_kind (g_nodes t ! nat r) = n_kind (g_nodes s ! nat r)"
  unfolding good_def is_node_def by (elim conjE allE [of _ "nat r"]) (simp add: nat_less_iff)

lemma func_tail_wp:
  assumes "good s0 s" "post s0 s 0 is_node V" "is_node r (length (g_nodes s))" "n_kind (g_nodes s ! nat r) = ''func''"
  shows "wp (doP (id_seal_rets name rt) (doP (id_non_void_export rt) (doP (id_retexp_bind r) (giveP r))) s) V"
proof -
  have g: "good s s" using assms(1) good_refl good_toks by blast
  have b: "wp (doP (id_retexp_bind r) (giveP r) t) V"
    if t: "good s t" "length (g_nodes s) \<le> length (g_nodes t)" "remaining t \<le> remaining s" for t
  proof -
    have "n_kind (g_nodes t ! nat r) = ''func''" using good_kind [OF t(1) assms(3)] assms(4) by simp
    moreover have "is_node r (length (g_nodes t))" using assms(3) t(2) by (rule is_node_mono)
    ultimately show ?thesis
      using good_trans [OF assms(1) t(1)] t(2,3) assms(2)
      by (intro wp_do id_retexp_bind_wp [of s0] postI wp_giveP) (auto elim!: postD is_node_mono)
  qed
  show ?thesis using g by - (assumption | rule wp_do id_seal_rets_wp id_non_void_export_wp postI b | (simp; fail))+
qed

lemma id_func_done_wp [wp]:
  assumes "remaining s < n" "refs_below ps (length (g_nodes s))" "refs_below body (length (g_nodes s))" "good s0 s" "post s0 s 0 is_node V"
  shows "wp (id_func_done n name ps body rt s) V"
proof -
  have f: "wp (thenP (id_node_func name rt ps body e) (\<lambda>r. doP (id_seal_rets name rt) (doP (id_non_void_export rt)
      (doP (id_retexp_bind r) (giveP r)))) t) V"
    if t: "good s0 t" "length (g_nodes s) \<le> length (g_nodes t)" "remaining t \<le> remaining s" "opt_node e (length (g_nodes t))" for e t
  proof -
    let ?n = "\<lparr>n_kind = ''func'', n_i1 = e, n_i2 = 0, n_s1 = name, n_s2 = rt, n_l1 = ps, n_l2 = body,
               n_unit = g_ucur t, n_line = g_curtl t, n_tok = g_curtk t, n_st = 0 - 1\<rparr>"
    let ?t = "t\<lparr>g_nodes := lpush (g_nodes t) ?n\<rparr>"
    have r: "id_node_func name rt ps body e t = Some (Inr (int (length (g_nodes t)), ?t))"
      by (simp add: id_node_func_def id_newnode_def Let_def llen_def)
    have "wp (id_node_func name rt ps body e t) (\<lambda>_. good s0)" unfolding id_node_func_def
      using t refs_mono [OF assms(2) t(2)] refs_mono [OF assms(3) t(2)]
      by (intro new_node_wp [of s0]) (auto simp: post_def children_def opt_node_def)
    then have "good s0 ?t" by (simp add: r wp_def)
    then have "wp (doP (id_seal_rets name rt) (doP (id_non_void_export rt)
        (doP (id_retexp_bind (int (length (g_nodes t)))) (giveP (int (length (g_nodes t)))))) ?t) V"
      using assms(5) t(2,3) by (intro func_tail_wp) (auto simp: post_def is_node_def remaining_def)
    then show ?thesis by (intro wp_then, unfold r) (rule wp_give)
  qed
  show ?thesis unfolding id_func_done_def using assms(1,4)
    by - (assumption | rule f | (erule opt_node_mono; simp; fail) | rule wp | (simp; fail))+
qed

lemma id_func_ret_wp [wp]: "remaining s < n \<Longrightarrow> refs_below ps (length (g_nodes s)) \<Longrightarrow> refs_below b (length (g_nodes s)) \<Longrightarrow> good s0 s \<Longrightarrow> post s0 s 1 is_node V \<Longrightarrow> wp (id_func_ret n name ps b s) V"
  unfolding id_func_ret_def  by (assumption | rule wp | erule postD | erule use_operand | (erule is_node_mono refs_mono opt_node_mono; simp; fail) | (simp; fail) | (rule text_remains, assumption, simp; fail) | (rule kind_remains, assumption, simp; fail))+

lemma fill_stmt_step: "step_ok n refs_below (id_fill_stmt n n)"
  using id_fill_stmt_ok [of n n] by simp

lemma id_func_sig_wp [wp]: "remaining s < n \<Longrightarrow> good s0 s \<Longrightarrow> post s0 s 1 is_node V \<Longrightarrow> wp (id_func_sig n name s) V"
  unfolding id_func_sig_def  by (assumption | rule wp fill_stmt_step | erule postD | erule use_operand | (erule is_node_mono refs_mono opt_node_mono; simp; fail) | (simp; fail) | (rule text_remains, assumption, simp; fail) | (rule kind_remains, assumption, simp; fail))+

lemma id_parse_func_wp [wp]: "remaining s < n \<Longrightarrow> good s0 s \<Longrightarrow> post s0 s 1 is_node V \<Longrightarrow> wp (id_parse_func n s) V"
  unfolding id_parse_func_def  by (assumption | rule wp | erule postD | erule use_operand | (erule is_node_mono refs_mono opt_node_mono; simp; fail) | (simp; fail) | (rule text_remains, assumption, simp; fail) | (rule kind_remains, assumption, simp; fail))+

lemma node_native_wp [wp]:
  "good s0 s \<Longrightarrow> post s0 s 0 is_node V \<Longrightarrow> refs_below ps (length (g_nodes s))
     \<Longrightarrow> wp (id_newnode ''func'' (0 - 1) 1 name rt ps [] s) V"
  by (rule new_node_wp) (auto simp: children_def)

lemma id_native_node_wp [wp]: "refs_below ps (length (g_nodes s)) \<Longrightarrow> good s0 s \<Longrightarrow> post s0 s 0 is_node V \<Longrightarrow> wp (id_native_node name rt ps s) V"
  unfolding id_native_node_def  by (assumption | rule wp | erule postD | erule use_operand | (erule is_node_mono refs_mono opt_node_mono; simp; fail) | (simp; fail) | (rule text_remains, assumption, simp; fail) | (rule kind_remains, assumption, simp; fail))+

lemma id_native_type_wp [wp]: "remaining s < n \<Longrightarrow> refs_below ps (length (g_nodes s)) \<Longrightarrow> good s0 s \<Longrightarrow> post s0 s 1 is_node V \<Longrightarrow> wp (id_native_type n name ps s) V"
  unfolding id_native_type_def  by (assumption | rule wp | erule postD | erule use_operand | (erule is_node_mono refs_mono opt_node_mono; simp; fail) | (simp; fail) | (rule text_remains, assumption, simp; fail) | (rule kind_remains, assumption, simp; fail))+

lemma id_native_ret_wp [wp]: "remaining s < n \<Longrightarrow> refs_below ps (length (g_nodes s)) \<Longrightarrow> good s0 s \<Longrightarrow> post s0 s 1 is_node V \<Longrightarrow> wp (id_native_ret n name ps s) V"
  unfolding id_native_ret_def  by (assumption | rule wp | erule postD | erule use_operand | (erule is_node_mono refs_mono opt_node_mono; simp; fail) | (simp; fail) | (rule text_remains, assumption, simp; fail) | (rule kind_remains, assumption, simp; fail))+

lemma id_native_sig_wp [wp]: "remaining s < n \<Longrightarrow> good s0 s \<Longrightarrow> post s0 s 1 is_node V \<Longrightarrow> wp (id_native_sig n name s) V"
  unfolding id_native_sig_def  by (assumption | rule wp | erule postD | erule use_operand | (erule is_node_mono refs_mono opt_node_mono; simp; fail) | (simp; fail) | (rule text_remains, assumption, simp; fail) | (rule kind_remains, assumption, simp; fail))+

lemma id_parse_native_wp [wp]: "remaining s < n \<Longrightarrow> good s0 s \<Longrightarrow> post s0 s 1 is_node V \<Longrightarrow> wp (id_parse_native n s) V"
  unfolding id_parse_native_def  by (assumption | rule wp | erule postD | erule use_operand | (erule is_node_mono refs_mono opt_node_mono; simp; fail) | (simp; fail) | (rule text_remains, assumption, simp; fail) | (rule kind_remains, assumption, simp; fail))+

lemma id_parse_fn_kind_wp [wp]: "remaining s < n \<Longrightarrow> good s0 s \<Longrightarrow> post s0 s 1 is_node V \<Longrightarrow> wp (id_parse_fn_kind n s) V"
  unfolding id_parse_fn_kind_def  by (assumption | rule wp | erule postD | erule use_operand | (erule is_node_mono refs_mono opt_node_mono; simp; fail) | (simp; fail) | (rule text_remains, assumption, simp; fail) | (rule kind_remains, assumption, simp; fail))+

lemma id_parse_fn_wp [wp]: "remaining s < n \<Longrightarrow> good s0 s \<Longrightarrow> post s0 s 1 is_node V \<Longrightarrow> wp (id_parse_fn n s) V"
  unfolding id_parse_fn_def  by (assumption | rule wp | erule postD | erule use_operand | (erule is_node_mono refs_mono opt_node_mono; simp; fail) | (simp; fail) | (rule text_remains, assumption, simp; fail) | (rule kind_remains, assumption, simp; fail))+

section \<open>What a parse guarantees\<close>

lemma start_post: "post s s k N (\<lambda>r t. good s t \<and> remaining t \<le> remaining s - k \<and> N r (length (g_nodes t)))"
  by (simp add: post_def)

lemma id_parse_fn_good:
  assumes "toks_ok s" "remaining s < n"
  shows "wp (id_parse_fn n s) (\<lambda>r t. good s t \<and> remaining t \<le> remaining s - 1 \<and> is_node r (length (g_nodes t)))"
  by (rule id_parse_fn_wp [OF assms(2) good_refl [OF assms(1)] start_post])

text \<open>
  C10: The function parser always comes back: on every token sequence, well-formed or not,
  parsing a function definition ends (all its loops over parameters, types, statements,
  blocks and argument lists end), within a nesting bound above the number of tokens left,
  and when it does not trap it has consumed at least one token.
\<close>

theorem id_parse_fn_returns:
  assumes "toks_ok s" "remaining s < n"
  shows "\<exists>res. id_parse_fn n s = Some res
     \<and> (\<forall>r s'. res = Inr (r, s') \<longrightarrow> remaining s' < remaining s \<or> remaining s = 0)"
  using id_parse_fn_good [OF assms] unfolding wp_def by (auto, linarith)

text \<open>
  C17: The nodes the function parser makes are a forest: every child reference points to an
  earlier node, the result is a node, and the nodes that were there keep their children, on
  every token sequence.
\<close>

theorem id_parse_fn_forest:
  assumes "toks_ok s" "remaining s < n" "forest (g_nodes s)" "id_parse_fn n s = Some (Inr (r, s'))"
  shows "forest (g_nodes s') \<and> is_node r (length (g_nodes s'))
     \<and> (\<forall>i < length (g_nodes s). children (g_nodes s' ! i) = children (g_nodes s ! i))"
  using id_parse_fn_good [OF assms(1,2)] assms(3,4) by (auto simp: wp_def good_def)

text \<open>
  C28: A diagnostic is never lost: whenever parsing a function prints anything, the failure
  flag is set, so the compiler does not go on to emit code.
\<close>

theorem id_parse_fn_reports:
  assumes "toks_ok s" "remaining s < n" "id_parse_fn n s = Some (Inr (r, s'))" "g_out s' \<noteq> g_out s"
  shows "g_chkfail s' = 1"
  using id_parse_fn_good [OF assms(1,2)] assms(3,4) by (auto simp: wp_def good_def)

text \<open>Two functions: one that is correct, and one with a bracket missing.\<close>

definition small_fn :: "(string \<times> string) list" where
  "small_fn = [(''ident'', ''f''), (''op'', ''(''), (''op'', '')''), (''op'', ''{''), (''ident'', ''g''), (''op'', ''(''),
     (''op'', '')''), (''op'', '';''), (''op'', ''}''), (''kw'', ''return''), (''kw'', ''void''), (''op'', '';'')]"

definition bad_fn :: "(string \<times> string) list" where
  "bad_fn = [(''ident'', ''f''), (''op'', ''(''), (''op'', ''{''), (''op'', ''}''), (''kw'', ''return''), (''kw'', ''void''),
     (''op'', '';'')]"

lemma with_toks_ok: "\<forall>t \<in> set ts. length (snd t) \<le> 9 \<Longrightarrow> toks_ok (with_toks ts) \<and> remaining (with_toks ts) = length ts
     \<and> g_nodes (with_toks ts) = [] \<and> g_out (with_toks ts) = []"
  by (auto simp: with_toks_def pst_init_def toks_ok_def remaining_def llen_def)

theorem id_parse_fn_returns_witness: "\<exists>res. id_parse_fn 8 (with_toks bad_fn) = Some res"
  using id_parse_fn_returns [of "with_toks bad_fn" 8] with_toks_ok [of bad_fn] by (auto simp: bad_fn_def)

lemma small_fn_runs:
  "(case id_parse_fn 13 (with_toks small_fn) of Some (Inr (r, s)) \<Rightarrow> r = 3 \<and> map n_kind (g_nodes s) = [''var'', ''call'', ''exprstmt'', ''func''] | _ \<Rightarrow> False)"
  by code_simp

lemma bad_fn_runs:
  "(case id_parse_fn 8 (with_toks bad_fn) of Some (Inr (r, s)) \<Rightarrow> g_out s \<noteq> [] | _ \<Rightarrow> False)"
  by code_simp

theorem id_parse_fn_forest_witness:
  "\<exists>r s'. id_parse_fn 13 (with_toks small_fn) = Some (Inr (r, s')) \<and> forest (g_nodes s')"
proof -
  obtain r s' where "id_parse_fn 13 (with_toks small_fn) = Some (Inr (r, s'))"
    using small_fn_runs by (auto split: option.splits sum.splits)
  then show ?thesis
    using id_parse_fn_forest [of "with_toks small_fn" 13 r s'] with_toks_ok [of small_fn]
    by (auto simp: small_fn_def forest_def)
qed

theorem id_parse_fn_reports_witness:
  "\<exists>r s'. id_parse_fn 8 (with_toks bad_fn) = Some (Inr (r, s')) \<and> g_chkfail s' = 1"
proof -
  obtain r s' where "id_parse_fn 8 (with_toks bad_fn) = Some (Inr (r, s'))" "g_out s' \<noteq> []"
    using bad_fn_runs by (auto split: option.splits sum.splits)
  then show ?thesis
    using id_parse_fn_reports [of "with_toks bad_fn" 8 r s'] with_toks_ok [of bad_fn]
    by (auto simp: bad_fn_def)
qed

end
