(* ===== verification/Loader.thy ===== *)
theory Loader
  imports ParseCore
begin

text \<open>
  The loader: what the parser reads on its standard input. Each line is a kind, a space and a
  text. Lines of the kinds \<open>line\<close> and \<open>span\<close> tell where the tokens stand, \<open>tcc\<close>, \<open>wrd\<close>, \<open>wrp\<close>
  and \<open>ext\<close> lines carry tables from the driver, and every other line is a token. The state
  is the token lists, the line and span records and the tables (\<open>l_\<close> for \<open>tkind\<close>, \<open>ttext\<close>,
  \<open>tline\<close>, \<open>lnseen\<close>, \<open>tspan\<close>, \<open>tccin\<close>, \<open>vocab_*\<close>, and \<open>x_\<close> for the \<open>ext_*\<close> lists, whose
  four map lists \<open>ext_mk\<close>, \<open>ext_mv\<close>, \<open>ext_mu\<close>, \<open>ext_mc\<close> are one hash map).
\<close>

section \<open>State\<close>

record extern =
  x_n :: "string list"
  x_k :: "string list"
  x_f :: "string list"
  x_l :: "int list"
  x_s :: "int list"
  x_cur :: int
  x_cfp :: "string list"
  x_cfe :: "int list"
  x_inm :: "string list"
  x_path :: string
  x_mode :: int
  x_map :: hmap
  x_vt :: "string list"
  x_vf :: "string list"
  x_vl :: "int list"

definition id_ext_init :: extern where
  "id_ext_init = \<lparr>x_n = [], x_k = [], x_f = [], x_l = [], x_s = [], x_cur = 0 - 1, x_cfp = [], x_cfe = [],
     x_inm = [], x_path = '''', x_mode = 0, x_map = id_hash_map_initialize no_slots, x_vt = [], x_vf = [], x_vl = []\<rparr>"

record loaded =
  l_kind :: "string list"
  l_text :: "string list"
  l_line :: "int list"
  l_seen :: "int list"
  l_span :: "int list"
  l_tccin :: "string list"
  l_vocab :: hmap
  l_paths :: "string list"
  l_ext :: extern

definition load_init :: loaded where
  "load_init = \<lparr>l_kind = [], l_text = [], l_line = [], l_seen = [], l_span = [], l_tccin = [],
     l_vocab = id_hash_map_initialize no_slots, l_paths = [], l_ext = id_ext_init\<rparr>"

section \<open>Records of other compilations\<close>

text \<open>A record is its tab-separated fields, the first of which is its tag.\<close>

definition id_ext_put_row :: "string \<Rightarrow> extern \<Rightarrow> extern run" where
  "id_ext_put_row name x =
     (let row = llen (x_n x) - 1
      in thenRun (id_hash_map_get (x_map x) (''l:'' @ name) 0) (\<lambda>skip.
         thenRun (id_hash_map_put (x_map x) (''n:'' @ name) row) (\<lambda>m.
           Some (Inr (x\<lparr>x_s := lpush (x_s x) skip, x_map := m, x_cur := row, x_inm := lpush (x_inm x) ''''\<rparr>)))))"

definition id_ext_put_fn :: "string list \<Rightarrow> extern \<Rightarrow> extern run" where
  "id_ext_put_fn f x =
     thenRun (Some (lget f 1)) (\<lambda>name.
     thenRun (Some (lget f 2)) (\<lambda>k.
     thenRun (Some (lget f 3)) (\<lambda>ln.
       id_ext_put_row name
         (x\<lparr>x_n := lpush (x_n x) name, x_k := lpush (x_k x) k, x_f := lpush (x_f x) (x_path x),
            x_l := lpush (x_l x) (id_to_int ln)\<rparr>))))"

definition id_ext_put_fp :: "string list \<Rightarrow> extern \<Rightarrow> extern run" where
  "id_ext_put_fp f x =
     (let row = llen (x_cfp x)
      in thenRun (Some (lget f 1)) (\<lambda>fp.
         thenRun (id_hash_map_put (x_map x) (''f:'' @ fp) row) (\<lambda>m.
           Some (Inr (x\<lparr>x_cfp := lpush (x_cfp x) fp, x_cfe := lpush (x_cfe x) (x_cur x), x_map := m\<rparr>)))))"

definition id_ext_put_imd :: "string list \<Rightarrow> extern \<Rightarrow> extern run" where
  "id_ext_put_imd f x =
     thenRun (Some (lget f 2)) (\<lambda>vals.
     thenRun (Some (lset (x_inm x) (x_cur x) vals)) (\<lambda>inm.
     thenRun (Some (lget f 1)) (\<lambda>key.
     thenRun (id_hash_map_put (x_map x) (''i:'' @ key) (x_cur x)) (\<lambda>m.
       Some (Inr (x\<lparr>x_inm := inm, x_map := m\<rparr>))))))"

fun loaded_loop :: "string list \<Rightarrow> hmap \<Rightarrow> hmap run" where
  "loaded_loop [] m = Some (Inr m)"
| "loaded_loop (name # names) m = thenRun (id_hash_map_put m (''l:'' @ name) 1) (loaded_loop names)"

definition id_ext_put_loaded :: "string list \<Rightarrow> extern \<Rightarrow> extern run" where
  "id_ext_put_loaded f x =
     thenRun (Some (lget f 1)) (\<lambda>t.
     thenRun (id_string_split t '' '') (\<lambda>names.
     thenRun (loaded_loop names (x_map x)) (\<lambda>m. Some (Inr (x\<lparr>x_map := m\<rparr>)))))"

definition id_ext_put_var :: "string list \<Rightarrow> extern \<Rightarrow> extern run" where
  "id_ext_put_var f x =
     thenRun (Some (lget f 2)) (\<lambda>t.
     thenRun (Some (lget f 3)) (\<lambda>file.
     thenRun (Some (lget f 4)) (\<lambda>ln.
     thenRun (Some (lget f 1)) (\<lambda>key.
       let vt = lpush (x_vt x) t; row = llen vt - 1
       in thenRun (id_hash_map_put (x_map x) (''v:'' @ key) row) (\<lambda>m.
            Some (Inr (x\<lparr>x_vt := vt, x_vf := lpush (x_vf x) file, x_vl := lpush (x_vl x) (id_to_int ln),
                         x_map := m\<rparr>)))))))"

definition id_ext_route4 :: "string \<Rightarrow> string list \<Rightarrow> extern \<Rightarrow> extern run" where
  "id_ext_route4 tag f x =
     (if tag = ''M'' then Some (Inr (x\<lparr>x_mode := 1\<rparr>))
      else if tag = ''V'' then id_ext_put_var f x else Some (Inr x))"

definition id_ext_route3 :: "string \<Rightarrow> string list \<Rightarrow> extern \<Rightarrow> extern run" where
  "id_ext_route3 tag f x =
     (if tag = ''L'' then id_ext_put_loaded f x
      else if tag = ''Z'' then thenRun (Some (lget f 1)) (\<lambda>p. Some (Inr (x\<lparr>x_path := p\<rparr>)))
      else id_ext_route4 tag f x)"

definition id_ext_route2 :: "string \<Rightarrow> string list \<Rightarrow> extern \<Rightarrow> extern run" where
  "id_ext_route2 tag f x = (if tag = ''I'' then id_ext_put_imd f x else id_ext_route3 tag f x)"

definition id_ext_route :: "string \<Rightarrow> string list \<Rightarrow> extern \<Rightarrow> extern run" where
  "id_ext_route tag f x =
     (if tag = ''F'' then id_ext_put_fn f x else if tag = ''P'' then id_ext_put_fp f x else id_ext_route2 tag f x)"

definition id_ext_line :: "string \<Rightarrow> extern \<Rightarrow> extern run" where
  "id_ext_line text x =
     thenRun (Some (id_chr str_env 9)) (\<lambda>sep.
     thenRun (id_string_split text sep) (\<lambda>f.
     thenRun (Some (lget f 0)) (\<lambda>tag. id_ext_route tag f x)))"

section \<open>Lines\<close>

definition id_src_line :: "loaded \<Rightarrow> int res" where
  "id_src_line s = (if llen (l_seen s) > 0 then lget (l_seen s) (llen (l_seen s) - 1) else Inr 1)"

definition id_push_line :: "loaded \<Rightarrow> loaded res" where
  "id_push_line s = andThen (id_src_line s) (\<lambda>n. Inr (s\<lparr>l_line := lpush (l_line s) n\<rparr>))"

definition id_push_real :: "string \<Rightarrow> string \<Rightarrow> loaded \<Rightarrow> loaded res" where
  "id_push_real kind txt s =
     id_push_line (s\<lparr>l_kind := lpush (l_kind s) kind, l_text := lpush (l_text s) txt\<rparr>)"

definition id_push_tok4 :: "string \<Rightarrow> string \<Rightarrow> loaded \<Rightarrow> loaded res" where
  "id_push_tok4 kind txt s =
     (if kind = ''wrp'' then Inr (s\<lparr>l_paths := lpush (l_paths s) txt\<rparr>) else id_push_real kind txt s)"

definition id_push_tok3 :: "string \<Rightarrow> string \<Rightarrow> loaded \<Rightarrow> loaded run" where
  "id_push_tok3 kind txt s =
     (if kind = ''wrd'' then thenRun (id_hash_set_add (l_vocab s) txt) (\<lambda>v. Some (Inr (s\<lparr>l_vocab := v\<rparr>)))
      else Some (id_push_tok4 kind txt s))"

definition id_push_tok2 :: "string \<Rightarrow> string \<Rightarrow> loaded \<Rightarrow> loaded run" where
  "id_push_tok2 kind txt s =
     (if kind = ''tcc'' then Some (Inr (s\<lparr>l_tccin := lpush (l_tccin s) txt\<rparr>))
      else if kind = ''ext'' then thenRun (id_ext_line txt (l_ext s)) (\<lambda>x. Some (Inr (s\<lparr>l_ext := x\<rparr>)))
      else id_push_tok3 kind txt s)"

function id_span_pad :: "loaded \<Rightarrow> loaded" where
  "id_span_pad s =
     (if llen (l_span s) < llen (l_kind s) - 1 then id_span_pad (s\<lparr>l_span := lpush (l_span s) (0 - 1)\<rparr>) else s)"
  by pat_completeness auto
termination
  by (relation "measure (\<lambda>s. nat (llen (l_kind s) - llen (l_span s)))") (auto simp: llen_def lpush_def)

declare id_span_pad.simps [simp del]

definition id_set_span :: "string \<Rightarrow> loaded \<Rightarrow> loaded" where
  "id_set_span txt s = (let s = id_span_pad s in s\<lparr>l_span := lpush (l_span s) (id_to_int txt)\<rparr>)"

definition id_push_tok :: "string \<Rightarrow> string \<Rightarrow> loaded \<Rightarrow> loaded run" where
  "id_push_tok kind txt s =
     (if kind = ''line'' then Some (Inr (s\<lparr>l_seen := lpush (l_seen s) (id_to_int txt)\<rparr>))
      else if kind = ''span'' then Some (Inr (id_set_span txt s))
      else id_push_tok2 kind txt s)"

function id_find_space :: "string \<Rightarrow> int \<Rightarrow> int \<Rightarrow> int" where
  "id_find_space src i e = (if i < e \<and> code_at src i \<noteq> 32 then id_find_space src (i + 1) e else i)"
  by pat_completeness auto
termination by (relation "measure (\<lambda>(src, i, e). nat (e - i))") auto

function id_string_end_of_line :: "string \<Rightarrow> int \<Rightarrow> int" where
  "id_string_end_of_line s i =
     (if code_at s i \<noteq> 10 \<and> code_at s i \<noteq> - 1 then id_string_end_of_line s (i + 1) else i)"
  by pat_completeness auto
termination
  by (relation "measure (\<lambda>(s, i). nat (int (length s) - i))") (auto simp: code_at_out intro: ccontr)

declare id_find_space.simps [simp del] id_string_end_of_line.simps [simp del]

definition id_proc_line :: "string \<Rightarrow> int \<Rightarrow> int \<Rightarrow> loaded \<Rightarrow> loaded run" where
  "id_proc_line src i e s =
     (let sp = id_find_space src i e
      in if i < e
         then thenRun (Some (id_slice src i sp)) (\<lambda>kind.
              thenRun (Some (id_slice src (sp + 1) e)) (\<lambda>txt. id_push_tok kind txt s))
         else Some (Inr s))"

definition id_take_line :: "string \<Rightarrow> int \<Rightarrow> loaded \<Rightarrow> (int \<times> loaded) run" where
  "id_take_line src i s =
     (let e = id_string_end_of_line src i
      in thenRun (id_proc_line src i e s) (\<lambda>s. Some (Inr (e + 1, s))))"

partial_function (option) id_load_at :: "string \<Rightarrow> int \<Rightarrow> loaded \<Rightarrow> loaded run" where
  "id_load_at src i s =
     (if i < id_len src then thenRun (id_take_line src i s) (\<lambda>(i, s). id_load_at src i s) else Some (Inr s))"

declare id_load_at.simps [code]

definition id_load :: "string \<Rightarrow> loaded run" where
  "id_load inp = thenRun (Some (id_read_all str_env inp)) (\<lambda>src. id_load_at src 0 load_init)"

text \<open>The parser's state once the input is loaded.\<close>

definition start :: "loaded \<Rightarrow> pst" where
  "start s = pst_init\<lparr>g_kind := l_kind s, g_text := l_text s, g_line := l_line s\<rparr>"

end
