(* ===== verification/ExprTree.thy ===== *)
theory ExprTree
  imports ParseExpr LitSpec
begin

text \<open>
  What the expression parser is for: expressions as trees, their tokens with the fewest
  parentheses, and what it means that a node of the parser denotes a tree.
\<close>

section \<open>Trees\<close>

datatype expr =
    EVar string
  | ENum string
  | EStr string
  | EBool bool
  | EUn string expr
  | EBin string expr expr
  | EIndex expr expr
  | EField expr string
  | ECall string "expr list"
  | EArr "expr list"

text \<open>
  The binding levels, tightest first: 0 for atoms, index and field access, 1 for the prefix
  operators, 2 to 10 for the binary ones. The bitwise operators bind tighter than the
  comparisons.
\<close>

definition bin_level :: "string \<Rightarrow> nat" where
  "bin_level op =
     (if op \<in> set mulops then 2 else if op \<in> set addops then 3 else if op \<in> set shiftops then 4
      else if op = ''&'' then 5 else if op = ''^'' then 6 else if op = ''|'' then 7
      else if op \<in> set relops then 8 else if op = ''&&'' then 9 else if op = ''||'' then 10 else 0)"

fun level :: "expr \<Rightarrow> nat" where
  "level (EBin op a b) = bin_level op"
| "level (EUn op a) = 1"
| "level _ = 0"

definition plain_name :: "string \<Rightarrow> bool" where
  "plain_name f \<longleftrightarrow> tok_ok (TWord f) \<and> f \<notin> set kw_list"

text \<open>The trees that can be written: a bare \<open>=\<close> is no operator, a number fits 64 bits.\<close>

fun writable :: "expr \<Rightarrow> bool" where
  "writable (EVar f) = plain_name f"
| "writable (ENum ds) = (tok_ok (TDec ds) \<and> dec_value 0 ds < 2 ^ 64 \<and> length ds \<le> 536870912)"
| "writable (EStr w) = (tok_ok (TStr w) \<and> length w + 2 \<le> 536870912)"
| "writable (EBool b) = True"
| "writable (EUn op a) = (op \<in> set unops \<and> writable a)"
| "writable (EBin op a b) = (bin_level op \<noteq> 0 \<and> op \<noteq> ''='' \<and> writable a \<and> writable b)"
| "writable (EIndex a b) = (writable a \<and> writable b)"
| "writable (EField a f) = (writable a \<and> plain_name f)"
| "writable (ECall f xs) = (plain_name f \<and> list_all writable xs)"
| "writable (EArr xs) = list_all writable xs"

section \<open>Tokens\<close>

definition op_tok :: "string \<Rightarrow> tok" where
  "op_tok op = (if length op = 1 then TOp (hd op) else TOp2 op)"

abbreviation lpar :: tok where "lpar \<equiv> TOp (CHR ''('')"
abbreviation rpar :: tok where "rpar \<equiv> TOp (CHR '')'')"
abbreviation lbrk :: tok where "lbrk \<equiv> TOp (CHR ''['')"
abbreviation rbrk :: tok where "rbrk \<equiv> TOp (CHR '']'')"
abbreviation comma :: tok where "comma \<equiv> TOp (CHR '','')"

definition paren_if :: "bool \<Rightarrow> tok list \<Rightarrow> tok list" where
  "paren_if b ts = (if b then lpar # ts @ [rpar] else ts)"

definition commas :: "tok list list \<Rightarrow> tok list" where
  "commas tss = concat (case tss of [] \<Rightarrow> [] | ts # r \<Rightarrow> ts # map (\<lambda>u. comma # u) r)"

fun tokens :: "expr \<Rightarrow> tok list" where
  "tokens (EVar f) = [TWord f]"
| "tokens (ENum ds) = [TDec ds]"
| "tokens (EStr w) = [TStr w]"
| "tokens (EBool b) = [TWord (if b then ''true'' else ''false'')]"
| "tokens (EUn op a) = op_tok op # paren_if (level a > 1) (tokens a)"
| "tokens (EBin op a b) =
     paren_if (level a > bin_level op) (tokens a) @ op_tok op # paren_if (level b \<ge> bin_level op) (tokens b)"
| "tokens (EIndex a b) = paren_if (level a > 0) (tokens a) @ lbrk # tokens b @ [rbrk]"
| "tokens (EField a f) = paren_if (level a > 0) (tokens a) @ [TOp (CHR ''.''), TWord f]"
| "tokens (ECall f xs) = TWord f # lpar # commas (map tokens xs) @ [rpar]"
| "tokens (EArr xs) = lbrk # commas (map tokens xs) @ [rbrk]"

text \<open>The expression as an operand of level \<open>k\<close>.\<close>

definition tokens_at :: "nat \<Rightarrow> expr \<Rightarrow> tok list" where
  "tokens_at k e = paren_if (level e > k) (tokens e)"

fun tok_kind :: "tok \<Rightarrow> string" where
  "tok_kind (TWord w) = (if w \<in> set kw_list then ''kw'' else ''ident'')"
| "tok_kind (TDec ds) = ''int''"
| "tok_kind (TOp c) = ''op''"
| "tok_kind (TOp2 t) = ''op''"
| "tok_kind (TStr s) = ''str''"

section \<open>Nodes\<close>

definition node_at :: "node list \<Rightarrow> int \<Rightarrow> string \<Rightarrow> string \<Rightarrow> bool" where
  "node_at ns i k txt \<longleftrightarrow> 0 \<le> i \<and> nat i < length ns \<and> n_kind (ns ! nat i) = k \<and> n_s1 (ns ! nat i) = txt"

fun denotes :: "node list \<Rightarrow> int \<Rightarrow> expr \<Rightarrow> bool" where
  "denotes ns i (EVar f) = node_at ns i ''var'' f"
| "denotes ns i (ENum ds) = (node_at ns i ''int'' ds
     \<and> n_i1 (ns ! nat i) = id_to_int ds \<and> n_i2 (ns ! nat i) = of_bool (2147483647 < dec_value 0 ds)
     \<and> (dec_value 0 ds \<le> 2147483647 \<longrightarrow> n_i1 (ns ! nat i) = int (dec_value 0 ds)))"
| "denotes ns i (EStr w) = node_at ns i ''str'' (CHR 0x22 # w @ [CHR 0x22])"
| "denotes ns i (EBool b) = (node_at ns i ''int'' (if b then ''1'' else ''0'') \<and> n_i1 (ns ! nat i) = of_bool b
     \<and> n_i2 (ns ! nat i) = 0 \<and> n_s2 (ns ! nat i) = ''bool'')"
| "denotes ns i (EUn op a) = (node_at ns i ''un'' op \<and> denotes ns (n_i1 (ns ! nat i)) a)"
| "denotes ns i (EBin op a b) = (node_at ns i ''bin'' op
     \<and> denotes ns (n_i1 (ns ! nat i)) a \<and> denotes ns (n_i2 (ns ! nat i)) b)"
| "denotes ns i (EIndex a b) = (node_at ns i ''index'' ''''
     \<and> denotes ns (n_i1 (ns ! nat i)) a \<and> denotes ns (n_i2 (ns ! nat i)) b)"
| "denotes ns i (EField a f) = (node_at ns i ''index'' ''''
     \<and> denotes ns (n_i1 (ns ! nat i)) a \<and> node_at ns (n_i2 (ns ! nat i)) ''fld'' f)"
| "denotes ns i (ECall f xs) = (node_at ns i ''call'' f
     \<and> list_all2 (\<lambda>x j. denotes ns j x) xs (n_l1 (ns ! nat i)))"
| "denotes ns i (EArr xs) = (node_at ns i ''arr'' ''''
     \<and> list_all2 (\<lambda>x j. denotes ns j x) xs (n_l1 (ns ! nat i)))"

lemma node_at_more: "node_at ns i k txt \<Longrightarrow> node_at (ns @ ms) i k txt \<and> (ns @ ms) ! nat i = ns ! nat i"
  by (simp add: node_at_def nth_append)

lemma denotes_more: "denotes ns i e \<Longrightarrow> denotes (ns @ ms) i e"
proof (induction e arbitrary: i)
  case (ENum ds)
  then show ?case using node_at_more [of ns i "''int''" ds ms] by auto
next
  case (ECall f xs)
  then show ?case using node_at_more [of ns i "''call''" f ms] by (auto elim!: list.rel_mono_strong)
next
  case (EArr xs)
  then show ?case using node_at_more [of ns i "''arr''" "''''" ms] by (auto elim!: list.rel_mono_strong)
qed (simp_all add: node_at_def nth_append)

end
