(* ===== verification/LoadSpec.thy ===== *)
theory LoadSpec
  imports Loader ExprTree
begin

text \<open>
  The loader by lines: it cuts its input at the line ends and each line at its first space, and
  takes the records in order. On the lines the lexer prints it gives back the tokens.
\<close>

section \<open>Lines of a text\<close>

fun unlines :: "string list \<Rightarrow> string" where
  "unlines [] = ''''"
| "unlines (l # ls) = l @ CHR 0x0A # unlines ls"

definition rec_kind :: "string \<Rightarrow> string" where
  "rec_kind l = takeWhile (\<lambda>c. c \<noteq> CHR '' '') l"

definition rec_text :: "string \<Rightarrow> string" where
  "rec_text l = drop 1 (dropWhile (\<lambda>c. c \<noteq> CHR '' '') l)"

fun load_lines :: "string list \<Rightarrow> loaded \<Rightarrow> loaded run" where
  "load_lines [] s = Some (Inr s)"
| "load_lines (l # ls) s =
     thenRun (if l = [] then Some (Inr s) else id_push_tok (rec_kind l) (rec_text l) s) (load_lines ls)"

lemma load_lines_app: "load_lines (ls @ ms) s = thenRun (load_lines ls s) (load_lines ms)"
proof (induction ls arbitrary: s)
  case (Cons l ls)
  then have "load_lines (ls @ ms) = (\<lambda>s. thenRun (load_lines ls s) (load_lines ms))" by blast
  then show ?case by simp
qed simp

lemma end_of_line_at:
  assumes "CHR 0x0A \<notin> set l"
  shows "id_string_end_of_line (a @ l @ CHR 0x0A # r) (int (length a)) = int (length a) + int (length l)"
  using assms
proof (induction l arbitrary: a)
  case Nil
  then show ?case by (subst id_string_end_of_line.simps) simp
next
  case (Cons c l)
  have "id_string_end_of_line ((a @ [c]) @ l @ CHR 0x0A # r) (int (length (a @ [c])))
      = int (length (a @ [c])) + int (length l)" using Cons by (intro Cons.IH) simp
  moreover have "int (of_char c) \<noteq> 10" using Cons.prems code_inj [of c "CHR 0x0A"] by auto
  ultimately show ?case by (subst id_string_end_of_line.simps) (simp add: add.commute)
qed

lemma find_space_at:
  assumes "e = int (length a) + int (length l)"
  shows "id_find_space (a @ l @ r) (int (length a)) e = int (length a) + int (length (rec_kind l))"
  using assms
proof (induction l arbitrary: a)
  case Nil
  then show ?case by (subst id_find_space.simps) (simp add: rec_kind_def)
next
  case (Cons c l)
  have "id_find_space ((a @ [c]) @ l @ r) (int (length (a @ [c]))) e
      = int (length (a @ [c])) + int (length (rec_kind l))" using Cons.prems by (intro Cons.IH) simp
  moreover have "int (of_char c) = 32 \<longleftrightarrow> c = CHR '' ''" using code_inj [of c "CHR '' ''"] by auto
  ultimately show ?case using Cons.prems by (subst id_find_space.simps) (simp add: rec_kind_def add.commute)
qed

lemma slice_mid:
  assumes "int (length (a @ w @ r)) \<le> INT_MAX"
  shows "id_slice (a @ w @ r) (int (length a)) (int (length a) + int (length w)) = Inr w"
  using assms id_str_sub_ok [OF str_env_roomy, of "int (length a)" "int (length w)" "a @ w @ r"]
  by (auto simp: id_slice_def)

lemma rec_split: "l = rec_kind l @ (if rec_kind l = l then [] else CHR '' '' # rec_text l)"
proof (cases "dropWhile (\<lambda>c. c \<noteq> CHR '' '') l")
  case Nil
  then have "rec_kind l = l" by (auto simp: rec_kind_def takeWhile_eq_all_conv dropWhile_eq_Nil_conv)
  then show ?thesis by simp
next
  case (Cons c cs)
  have "c = CHR '' ''" using hd_dropWhile [of "\<lambda>c. c \<noteq> CHR '' ''" l] Cons by simp
  then have l: "rec_kind l @ CHR '' '' # rec_text l = l"
    using Cons takeWhile_dropWhile_id [of "\<lambda>c. c \<noteq> CHR '' ''" l] by (simp add: rec_kind_def rec_text_def)
  then have "rec_kind l \<noteq> l" by (metis append_self_conv list.distinct(1))
  then show ?thesis using l by simp
qed

lemma rec_text_none: "rec_kind l = l \<Longrightarrow> rec_text l = []"
  using takeWhile_dropWhile_id [of "\<lambda>c. c \<noteq> CHR '' ''" l]
  unfolding rec_kind_def rec_text_def by (metis append_self_conv drop_Nil)

lemma proc_line_at:
  assumes "int (length (a @ l @ r)) \<le> INT_MAX"
  shows "id_proc_line (a @ l @ r) (int (length a)) (int (length a) + int (length l)) s
     = (if l = [] then Some (Inr s) else id_push_tok (rec_kind l) (rec_text l) s)"
proof -
  let ?k = "rec_kind l" and ?e = "int (length a) + int (length l)"
  obtain t where l: "l = ?k @ t" "t = (if ?k = l then [] else CHR '' '' # rec_text l)" using rec_split by blast
  have k: "id_slice (a @ l @ r) (int (length a)) (int (length a) + int (length ?k)) = Inr ?k"
    using slice_mid [of a ?k "t @ r"] assms l(1) by (metis append_assoc)
  have "id_slice (a @ l @ r) (int (length a) + int (length ?k) + 1) ?e = Inr (rec_text l)"
  proof (cases "?k = l")
    case True
    then show ?thesis using rec_text_none [OF True] by (simp add: id_slice_def)
  next
    case False
    then have l': "l = ?k @ CHR '' '' # rec_text l" using l by simp
    have "length l = Suc (length ?k + length (rec_text l))" using arg_cong [OF l', of length] by simp
    moreover have s: "a @ l @ r = (a @ ?k @ [CHR '' '']) @ rec_text l @ r"
      using l' by (metis append_Cons append_Nil append_assoc)
    ultimately show ?thesis using slice_mid [of "a @ ?k @ [CHR '' '']" "rec_text l" r] assms [unfolded s]
      unfolding s by (simp only: length_append list.size) (simp add: algebra_simps)
  qed
  then show ?thesis using k find_space_at [of ?e a l r] by (simp add: id_proc_line_def Let_def)
qed

lemma load_at_lines:
  assumes "\<forall>l \<in> set ls. CHR 0x0A \<notin> set l" "int (length (a @ unlines ls)) \<le> INT_MAX"
  shows "id_load_at (a @ unlines ls) (int (length a)) s = load_lines ls s"
  using assms
proof (induction ls arbitrary: a s)
  case Nil
  then show ?case by (subst id_load_at.simps) (simp add: id_len_small)
next
  case (Cons l ls)
  let ?src = "a @ l @ CHR 0x0A # unlines ls"
  have n: "CHR 0x0A \<notin> set l" and i: "int (length ?src) \<le> INT_MAX" using Cons.prems by auto
  have "id_take_line ?src (int (length a)) s
      = thenRun (if l = [] then Some (Inr s) else id_push_tok (rec_kind l) (rec_text l) s)
          (\<lambda>s. Some (Inr (int (length a) + int (length l) + 1, s)))"
    using proc_line_at [OF i] by (simp add: id_take_line_def end_of_line_at [OF n] Let_def)
  moreover have "id_load_at ((a @ l @ [CHR 0x0A]) @ unlines ls) (int (length (a @ l @ [CHR 0x0A]))) t = load_lines ls t" for t
    using Cons.prems by (intro Cons.IH) simp_all
  then have "id_load_at ?src (int (length a) + int (length l) + 1) t = load_lines ls t" for t
    by (simp add: algebra_simps)
  moreover have "int (length a) < id_len ?src" using i by (simp add: id_len_small)
  ultimately show ?case by (subst id_load_at.simps) simp
qed

lemma load_text:
  assumes "\<forall>l \<in> set ls. CHR 0x0A \<notin> set l \<and> CHR 0x00 \<notin> set l" "int (length (unlines ls)) \<le> INT_MAX"
  shows "id_load (unlines ls) = load_lines ls load_init"
proof -
  have "CHR 0x00 \<notin> set (unlines ls)" using assms(1) by (induction ls) auto
  then show ?thesis using read_all_text assms load_at_lines [of ls "[]"] by (simp add: id_load_def)
qed

section \<open>The lines of the lexer\<close>

fun toks :: "item list \<Rightarrow> tok list" where
  "toks [] = []"
| "toks (Tok t # is) = t # toks is"
| "toks (Newline # is) = toks is"

text \<open>The line each token stands on, when the first is on line \<open>k\<close>, and the line after the last.\<close>

fun tok_lines :: "int \<Rightarrow> item list \<Rightarrow> int list" where
  "tok_lines k [] = []"
| "tok_lines k (Tok t # is) = k # tok_lines k is"
| "tok_lines k (Newline # is) = tok_lines (k + 1) is"

fun last_line :: "int \<Rightarrow> item list \<Rightarrow> int" where
  "last_line k [] = k"
| "last_line k (Tok t # is) = last_line k is"
| "last_line k (Newline # is) = last_line (k + 1) is"

definition one_line :: "tok \<Rightarrow> bool" where
  "one_line t \<longleftrightarrow> CHR 0x0A \<notin> set (tok_text t)"

lemma tok_line_rec: "tok_line t = tok_kind t @ CHR '' '' # tok_text t"
  by (cases t) auto

lemma kind_chars: "CHR '' '' \<notin> set (tok_kind t)" "CHR 0x0A \<notin> set (tok_kind t)" "CHR 0x00 \<notin> set (tok_kind t)"
  by (cases t; simp)+

lemma rec_of_kind: "CHR '' '' \<notin> set k \<Longrightarrow> rec_kind (k @ CHR '' '' # t) = k \<and> rec_text (k @ CHR '' '' # t) = t"
  by (induction k) (auto simp: rec_kind_def rec_text_def)

lemma tok_kind_plain: "tok_kind t \<notin> {''line'', ''span'', ''tcc'', ''ext'', ''wrd'', ''wrp''}"
  by (cases t) auto

definition now_at :: "int \<Rightarrow> loaded \<Rightarrow> bool" where
  "now_at k s \<longleftrightarrow> id_src_line s = Inr k"

lemma src_line_same: "l_seen t = l_seen s \<Longrightarrow> id_src_line t = id_src_line s"
  by (simp add: id_src_line_def)

lemma push_plain:
  assumes "now_at k s" "kind \<notin> {''line'', ''span'', ''tcc'', ''ext'', ''wrd'', ''wrp''}"
  shows "id_push_tok kind txt s
     = Some (Inr (s\<lparr>l_kind := l_kind s @ [kind], l_text := l_text s @ [txt], l_line := l_line s @ [k]\<rparr>))"
  using assms src_line_same [of "s\<lparr>l_kind := l_kind s @ [kind], l_text := l_text s @ [txt]\<rparr>" s]
  by (simp add: id_push_tok_def id_push_tok2_def id_push_tok3_def id_push_tok4_def id_push_real_def id_push_line_def
      now_at_def lpush_def)

lemma int_text_back:
  assumes "- 2147483648 \<le> k" "k \<le> INT_MAX"
  shows "id_to_int (int_text k) = k"
proof -
  have "sint (word_of_int k :: w32) = k" using assms
    by (simp add: signed_of_int signed_take_bit_int_eq_self INT_MAX_def)
  then show ?thesis using assms by (simp add: int_text_def id_str_of_int_def to_int_of_word_text sint_scast_w32 wrap32_small)
qed

lemma load_line_record:
  assumes "- 2147483648 \<le> k" "k \<le> INT_MAX"
  shows "id_push_tok ''line'' (int_text k) s = Some (Inr (s\<lparr>l_seen := l_seen s @ [k]\<rparr>)) \<and> now_at k (s\<lparr>l_seen := l_seen s @ [k]\<rparr>)"
  using int_text_back [OF assms] by (simp add: id_push_tok_def now_at_def id_src_line_def lpush_def llen_def lget_def nth_append)

lemma load_expected:
  assumes "now_at k s" "0 < k" "k + int (length is) \<le> INT_MAX"
  shows "\<exists>seen. load_lines (expected k is) s = Some (Inr (s\<lparr>l_kind := l_kind s @ map tok_kind (toks is),
      l_text := l_text s @ map tok_text (toks is), l_line := l_line s @ tok_lines k is, l_seen := seen\<rparr>))
    \<and> now_at (last_line k is)
       (s\<lparr>l_kind := l_kind s @ map tok_kind (toks is),
      l_text := l_text s @ map tok_text (toks is), l_line := l_line s @ tok_lines k is, l_seen := seen\<rparr>)"
  using assms
proof (induction k "is" arbitrary: s rule: expected.induct)
  case (1 k)
  then show ?case by (intro exI [of _ "l_seen s"]) simp
next
  case (2 k t "is")
  let ?s = "s\<lparr>l_kind := l_kind s @ [tok_kind t], l_text := l_text s @ [tok_text t], l_line := l_line s @ [k]\<rparr>"
  have "now_at k ?s" using "2.prems"(1) src_line_same [of ?s s] by (simp add: now_at_def)
  moreover have "id_push_tok (rec_kind (tok_line t)) (rec_text (tok_line t)) s = Some (Inr ?s)"
    using push_plain [OF "2.prems"(1) tok_kind_plain] rec_of_kind [OF kind_chars(1)] by (simp add: tok_line_rec)
  moreover have "tok_line t \<noteq> []" by (simp add: tok_line_rec)
  ultimately show ?case using "2.IH" [of ?s] "2.prems" by simp
next
  case (3 k "is")
  let ?s = "s\<lparr>l_seen := l_seen s @ [k + 1]\<rparr>"
  have n: "id_push_tok ''line'' (int_text (k + 1)) s = Some (Inr ?s)" "now_at (k + 1) ?s"
    using load_line_record [of "k + 1" s] 3(3,4) by auto
  have r: "rec_kind (''line '' @ int_text (k + 1)) = ''line''" "rec_text (''line '' @ int_text (k + 1)) = int_text (k + 1)"
    using rec_of_kind [of "''line''" "int_text (k + 1)"] by simp_all
  show ?case using "3.IH" [of ?s] n r 3(3,4) by simp
qed

lemma int_text_chars: "c \<in> set (int_text k) \<Longrightarrow> c \<noteq> CHR 0x0A \<and> c \<noteq> CHR 0x00"
proof -
  have "c \<in> set (dec_str u) \<Longrightarrow> c_digit c" for u using dec_str_digits [of u] by (auto simp: list_all_iff)
  moreover have "\<not> c_digit (CHR 0x0A)" "\<not> c_digit (CHR 0x00)" by (simp_all add: c_digit_def)
  ultimately show "c \<in> set (int_text k) \<Longrightarrow> c \<noteq> CHR 0x0A \<and> c \<noteq> CHR 0x00"
    by (auto simp: int_text_def id_str_of_int_def id_str_of_word_text split: if_splits)
qed

lemma expected_chars:
  assumes "items_ok is" "list_all one_line (toks is)"
  shows "\<forall>l \<in> set (expected k is). CHR 0x0A \<notin> set l \<and> CHR 0x00 \<notin> set l"
  using assms
proof (induction k "is" rule: expected.induct)
  case (2 k t "is")
  have t: "tok_ok t" "CHR 0x0A \<notin> set (tok_text t)" and r: "items_ok is" "list_all one_line (toks is)"
    using "2.prems" by (simp_all del: tok_ok.simps add: one_line_def [of t])
  have "CHR 0x0A \<notin> set (tok_line t) \<and> CHR 0x00 \<notin> set (tok_line t)"
    using t(2) tok_no_nul [OF t(1)] kind_chars [of t] unfolding tok_line_rec by simp
  then show ?case using "2.IH" [OF r] by simp
next
  case (3 k "is")
  have "CHR 0x0A \<notin> set (int_text (k + 1))" "CHR 0x00 \<notin> set (int_text (k + 1))" using int_text_chars by blast+
  then show ?case using 3 by simp
qed simp

lemma now_init: "now_at 1 load_init"
  by (simp add: now_at_def id_src_line_def load_init_def llen_def)

lemma load_tokens:
  assumes "items_ok is" "list_all one_line (toks is)" "int (length is) < INT_MAX"
    "int (length (unlines (expected 1 is @ [''eof'']))) \<le> INT_MAX"
  shows "\<exists>L. id_load (unlines (expected 1 is @ [''eof''])) = Some (Inr L)
     \<and> l_kind L = map tok_kind (toks is) @ [''eof''] \<and> l_text L = map tok_text (toks is) @ ['''']
     \<and> l_line L = tok_lines 1 is @ [last_line 1 is]"
proof -
  have i: "l_kind load_init = []" "l_text load_init = []" "l_line load_init = []" by (simp_all add: load_init_def)
  obtain s where s: "load_lines (expected 1 is) load_init = Some (Inr s)" "now_at (last_line 1 is) s"
    "l_kind s = map tok_kind (toks is)" "l_text s = map tok_text (toks is)" "l_line s = tok_lines 1 is"
  proof -
    have "0 < (1 :: int)" "1 + int (length is) \<le> INT_MAX" using assms(3) by simp_all
    from load_expected [OF now_init this] show thesis unfolding i by (elim exE conjE) (rule that, assumption+, simp_all)
  qed
  have "rec_kind ''eof'' = ''eof''" "rec_text ''eof'' = ''''" by (simp_all add: rec_kind_def rec_text_def)
  then have "load_lines [''eof''] s
      = Some (Inr (s\<lparr>l_kind := l_kind s @ [''eof''], l_text := l_text s @ [''''], l_line := l_line s @ [last_line 1 is]\<rparr>))"
    using push_plain [OF s(2), of "''eof''" "''''"] by simp
  moreover have "id_load (unlines (expected 1 is @ [''eof''])) = load_lines (expected 1 is @ [''eof'']) load_init"
    using expected_chars [OF assms(1,2)] assms(4) by (intro load_text) auto
  ultimately show ?thesis using s by (simp add: load_lines_app)
qed

theorem id_load_tokens:
  assumes "items_ok is" "list_all one_line (toks is)" "int (length is) < INT_MAX"
    "int (length (unlines (expected 1 is @ [''eof'']))) \<le> INT_MAX"
  shows "\<exists>L. id_load (unlines (expected 1 is @ [''eof''])) = Some (Inr L)
     \<and> l_kind L = map tok_kind (toks is) @ [''eof''] \<and> l_text L = map tok_text (toks is) @ ['''']
     \<and> l_line L = tok_lines 1 is @ [last_line 1 is]"
  by (rule load_tokens [OF assms])

theorem id_load_tokens_witness:
  "\<exists>L. id_load (unlines (expected 1 [Tok (TWord ''x''), Newline, Tok (TDec ''42'')] @ [''eof''])) = Some (Inr L)
     \<and> l_text L = [''x'', ''42'', ''''] \<and> l_line L = [1, 2, 2]"
proof -
  let ?is = "[Tok (TWord ''x''), Newline, Tok (TDec ''42'')]"
  have "tok_ok (TWord ''x'')" "tok_ok (TDec ''42'')" "length (int_text 2) = 1" by code_simp+
  then show ?thesis using id_load_tokens [of ?is]
    by (auto simp: INT_MAX_def one_line_def kw_list_def simp del: tok_ok.simps)
qed

section \<open>Line ends inside a string literal\<close>

text \<open>
  The lexer prints the text of a string literal as it stands. A line end in it ends the record,
  and what follows is taken as records of their own, of any kind.
\<close>

lemma unlines_one: "unlines ((a @ CHR 0x0A # b) # ls) = unlines (a # b # ls)"
  by simp

definition bare :: "string \<Rightarrow> bool" where
  "bare w \<longleftrightarrow> CHR 0x00 \<notin> set w \<and> CHR 0x0A \<notin> set w \<and> CHR 0x22 \<notin> set w \<and> CHR 0x5C \<notin> set w"

text \<open>
  C30: The line protocol between the lexer and the parser does not carry a string literal
  that spans lines: the loader ends the token at the line break and takes the following
  lines of the literal for records of their own, of whatever kind they spell.
\<close>

theorem id_load_string_lines:
  assumes "bare w" "bare l" "bare v" "int (length w + length l + length v) + 20 \<le> INT_MAX" "length argv \<le> 1"
  shows "\<exists>out. id_main argv (source [Tok (TStr (w @ CHR 0x0A # l @ CHR 0x0A # v))]) = Inr out
     \<and> id_load (unlines out) = load_lines [''str '' @ CHR 0x22 # w, l, v @ [CHR 0x22], ''eof''] load_init"
proof -
  let ?t = "TStr (w @ CHR 0x0A # l @ CHR 0x0A # v)"
  let ?ls = "[''str '' @ CHR 0x22 # w, l, v @ [CHR 0x22], ''eof'']"
  have "items_ok [Tok ?t]" using assms(1-3) by (auto simp: bare_def)
  then have m: "id_main argv (source [Tok ?t]) = Inr (expected 1 [Tok ?t] @ [''eof''])"
    using assms(4,5) by (intro lex_lines) simp_all
  have u: "unlines (expected 1 [Tok ?t] @ [''eof'']) = unlines ?ls" by simp
  have "id_load (unlines ?ls) = load_lines ?ls load_init"
    using assms(1-4) by (intro load_text) (auto simp: bare_def)
  then show ?thesis using m u by metis
qed

theorem id_load_string_lines_witness:
  "\<exists>out L. id_main [] (source [Tok (TStr (''a'' @ CHR 0x0A # ''op ;'' @ CHR 0x0A # ''tcc b''))]) = Inr out
     \<and> id_load (unlines out) = Some (Inr L) \<and> l_kind L = [''str'', ''op'', ''eof''] \<and> l_text L = [CHR 0x22 # ''a'', '';'', '''']
     \<and> l_tccin L = [''b'' @ [CHR 0x22]]"
proof -
  have n: "now_at 1 (load_init\<lparr>l_kind := ks, l_text := ts, l_line := ns, l_tccin := cs\<rparr>)" for ks ts ns cs
    using now_init unfolding now_at_def by (subst src_line_same [of _ load_init]) simp_all
  have n': "now_at 1 (load_init\<lparr>l_kind := ks, l_text := ts, l_line := ns\<rparr>)" for ks ts ns
    using now_init unfolding now_at_def by (subst src_line_same [of _ load_init]) simp_all
  have i: "l_kind load_init = []" "l_text load_init = []" "l_line load_init = []" "l_tccin load_init = []"
    by (simp_all add: load_init_def)
  have "\<exists>L. load_lines [''str '' @ CHR 0x22 # ''a'', ''op ;'', ''tcc b'' @ [CHR 0x22], ''eof''] load_init = Some (Inr L)
     \<and> l_kind L = [''str'', ''op'', ''eof''] \<and> l_text L = [CHR 0x22 # ''a'', '';'', ''''] \<and> l_tccin L = [''b'' @ [CHR 0x22]]"
    by (simp add: rec_kind_def rec_text_def push_plain [OF now_init] push_plain [OF n] push_plain [OF n'] i)
      (simp add: id_push_tok_def [of "''tcc''"] id_push_tok2_def lpush_def push_plain [OF n] i rec_kind_def rec_text_def)
  moreover have "bare ''a''" "bare ''op ;''" "bare ''tcc b''" by code_simp+
  ultimately show ?thesis using id_load_string_lines [of "''a''" "''op ;''" "''tcc b''" "[]"] by (auto simp: INT_MAX_def)
qed

end
