(* ===== verification/ParseTree.thy ===== *)
theory ParseTree
  imports ExprTree
begin

text \<open>
  The expression parser inverts the printer: from the tokens of a tree, followed by anything
  that does not go on with it, each level's parser makes a node that denotes the tree, stops
  right after the last token and reports nothing.
\<close>

section \<open>The tokens ahead\<close>

definition ahead :: "pst \<Rightarrow> (string \<times> string) list \<Rightarrow> bool" where
  "ahead s ps \<longleftrightarrow> 0 \<le> g_pos s \<and> g_pos s \<le> llen (g_text s)
     \<and> drop (nat (g_pos s)) (g_kind s) = map fst ps \<and> drop (nat (g_pos s)) (g_text s) = map snd ps
     \<and> length (g_kind s) = length (g_text s)"

definition nxt :: "(string \<times> string) list \<Rightarrow> string" where
  "nxt ps = (case ps of [] \<Rightarrow> '''' | p # _ \<Rightarrow> snd p)"

definition adv :: "pst \<Rightarrow> pst" where
  "adv s = s\<lparr>g_curtl := id_cur_ln s, g_curtk := g_pos s, g_pos := g_pos s + 1\<rparr>"

lemma nxt_simps [simp]: "nxt [] = ''''" "nxt (p # ps) = snd p"
  by (simp_all add: nxt_def)

lemma drop_Cons_nth: "drop n xs = y # ys \<Longrightarrow> n < length xs \<and> xs ! n = y \<and> drop (Suc n) xs = ys"
  by (metis Cons_nth_drop_Suc drop_all list.distinct(1) list.inject not_le)

lemma ahead_text [simp]: "ahead s ps \<Longrightarrow> id_cur_text s = nxt ps"
  by (cases ps) (auto simp: ahead_def id_cur_text_def llen_def dest!: drop_Cons_nth)

lemma ahead_kind [simp]: "ahead s (p # ps) \<Longrightarrow> id_cur_kind s = fst p"
  by (auto simp: ahead_def id_cur_kind_def llen_def dest!: drop_Cons_nth)

lemma ahead_end [simp]: "ahead s [] \<Longrightarrow> id_cur_kind s = ''eof''"
  by (auto simp: ahead_def id_cur_kind_def llen_def)

lemma id_advance_adv: "id_advance s = Some (Inr ((), adv s))"
  by (simp add: id_advance_def id_stamp_tok_def adv_def)

lemma ahead_adv [intro]: "ahead s (p # ps) \<Longrightarrow> ahead (adv s) ps"
  by (auto simp: ahead_def adv_def llen_def nat_add_distrib dest!: drop_Cons_nth)

section \<open>Steps without a diagnostic\<close>

definition clean :: "pst \<Rightarrow> pst \<Rightarrow> bool" where
  "clean s s' \<longleftrightarrow> (\<exists>ms. g_nodes s' = g_nodes s @ ms) \<and> g_out s' = g_out s \<and> g_chkfail s' = g_chkfail s
     \<and> g_synfail s' = g_synfail s \<and> g_beqtok s' = g_beqtok s \<and> g_store s' = g_store s \<and> g_kind s' = g_kind s
     \<and> g_text s' = g_text s \<and> g_line s' = g_line s"

lemma clean_refl [simp]: "clean s s"
  by (simp add: clean_def)

lemma clean_trans: "clean s t \<Longrightarrow> clean t u \<Longrightarrow> clean s u"
  by (auto simp: clean_def)

lemma clean_adv [simp]: "clean s (adv s)"
  by (simp add: clean_def adv_def)

lemma clean_denotes: "clean s t \<Longrightarrow> denotes (g_nodes s) i e \<Longrightarrow> denotes (g_nodes t) i e"
  by (auto simp: clean_def denotes_more)

text \<open>
  \<open>reaches F C s ps e\<close>: from \<open>s\<close>, \<open>F\<close> goes on like \<open>C\<close> from a state where \<open>ps\<close> is ahead, with a
  node that denotes \<open>e\<close>.
\<close>

definition reaches :: "int parser \<Rightarrow> (int \<Rightarrow> int parser) \<Rightarrow> pst \<Rightarrow> (string \<times> string) list \<Rightarrow> expr \<Rightarrow> bool" where
  "reaches F C s ps e \<longleftrightarrow>
     (\<exists>r s'. F s = C r s' \<and> ahead s' ps \<and> clean s s' \<and> denotes (g_nodes s') r e)"

lemma reachesI: "F s = C r s' \<Longrightarrow> ahead s' ps \<Longrightarrow> clean s s' \<Longrightarrow> denotes (g_nodes s') r e \<Longrightarrow> reaches F C s ps e"
  by (auto simp: reaches_def)

section \<open>The levels of the parser\<close>

declare id_parse_unary.simps [simp del]

definition lev :: "nat \<Rightarrow> nat \<Rightarrow> int parser" where
  "lev k d =
     (let u = id_parse_unary (Suc d)
      in if k = 0 then id_parse_postfix (id_parse_unary d) else if k = 1 then u
         else if k = 2 then id_parse_mul u else if k = 3 then id_parse_add u else if k = 4 then id_parse_shift u
         else if k = 5 then id_parse_bitand u else if k = 6 then id_parse_bitxor u else if k = 7 then id_parse_bitor u
         else if k = 8 then id_parse_rel u else if k = 9 then id_parse_and u else id_parse_expr u)"

definition test_at :: "nat \<Rightarrow> pst \<Rightarrow> bool" where
  "test_at k s \<longleftrightarrow> bin_level (id_cur_text s) = k"

definition fold_at :: "nat \<Rightarrow> nat \<Rightarrow> int \<Rightarrow> int parser" where
  "fold_at k d =
     (let u = id_parse_unary (Suc d)
      in if k = 2 then id_fold_mul u else if k = 3 then id_fold_add u else if k = 4 then id_fold_shift u
         else if k = 5 then id_fold_bitand u else if k = 6 then id_fold_bitxor u else if k = 7 then id_fold_bitor u
         else if k = 8 then id_fold_rel u else if k = 9 then id_fold_and u else id_fold_or u)"

text \<open>How the parser of a level goes on after its first operand.\<close>

definition rest_at :: "nat \<Rightarrow> nat \<Rightarrow> int \<Rightarrow> int parser" where
  "rest_at k d =
     (if k = 0 then whileP (\<lambda>s. id_cur_text s = ''['' \<or> id_cur_text s = ''.'') (id_fold_post (id_parse_unary d))
      else if k = 1 then giveP else whileP (test_at k) (fold_at k d))"

lemma bin_levels [simp]:
  "bin_level op = 2 \<longleftrightarrow> op \<in> set mulops" "bin_level op = 3 \<longleftrightarrow> op \<in> set addops"
  "bin_level op = 4 \<longleftrightarrow> op \<in> set shiftops" "bin_level op = 5 \<longleftrightarrow> op = ''&''" "bin_level op = 6 \<longleftrightarrow> op = ''^''"
  "bin_level op = 7 \<longleftrightarrow> op = ''|''" "bin_level op = 8 \<longleftrightarrow> op \<in> set relops" "bin_level op = 9 \<longleftrightarrow> op = ''&&''"
  "bin_level op = 10 \<longleftrightarrow> op = ''||''"
  by (auto simp: bin_level_def mulops_def addops_def shiftops_def relops_def)

lemma bin_level_range: "bin_level op \<noteq> 0 \<Longrightarrow> 2 \<le> bin_level op \<and> bin_level op \<le> 10"
  by (auto simp: bin_level_def split: if_splits)

lemma level_cases: "2 \<le> k \<Longrightarrow> k \<le> 10 \<Longrightarrow> k \<in> {2, 3, 4, 5, 6, 7, 8, 9, 10 :: nat}"
  by auto

lemma lev_Suc:
  assumes "2 \<le> k" "k \<le> 10"
  shows "lev k d = thenP (lev (k - 1) d) (rest_at k d)"
proof -
  have t: "at_op ops = (\<lambda>s. id_cur_text s \<in> set ops)" for ops by (simp add: fun_eq_iff at_op_def id_op_at_def)
  show ?thesis using level_cases [OF assms]
    by (elim insertE; simp add: Let_def lev_def rest_at_def test_at_def [abs_def] fold_at_def t id_parse_mul_def id_parse_add_def
        id_parse_shift_def id_parse_bitand_def id_parse_bitxor_def id_parse_bitor_def id_parse_rel_def id_parse_and_def
        id_parse_expr_def)
qed

lemma fold_at_step:
  assumes "bin_level op = k" "k \<noteq> 0" "op \<noteq> ''=''" "id_cur_text s = op"
  shows "fold_at k d l s = thenP (lev (k - 1) d) (\<lambda>r. id_node_txt2 ''bin'' op l r) (adv s)"
proof -
  have "2 \<le> k" "k \<le> 10" using assms bin_level_range by auto
  from level_cases [OF this] show ?thesis using assms
    by (elim insertE; simp add: Let_def fold_at_def lev_def id_fold_mul_def id_fold_mul_tail_def id_fold_add_def id_fold_add_tail_def
        id_fold_shift_def id_fold_shift_tail_def id_fold_bitand_def id_fold_bitxor_def id_fold_bitor_def id_fold_rel_def
        id_fold_rel_tail_def id_rel_op_def id_fold_and_def id_fold_or_def doP_def thenP_def id_advance_adv)
qed

section \<open>Nodes made, loops left\<close>

lemma newnode_clean:
  assumes "ahead s ps"
  shows "\<exists>r s'. id_newnode k a b s1 s2 l1 l2 s = Some (Inr (r, s')) \<and> ahead s' ps \<and> clean s s' \<and> node_at (g_nodes s') r k s1
     \<and> n_i1 (g_nodes s' ! nat r) = a \<and> n_i2 (g_nodes s' ! nat r) = b \<and> n_s2 (g_nodes s' ! nat r) = s2
     \<and> n_l1 (g_nodes s' ! nat r) = l1"
  using assms by (simp add: id_newnode_def Let_def ahead_def clean_def node_at_def lpush_def llen_def nth_append)

lemma ahead_same: "ahead s ps \<Longrightarrow> g_kind s' = g_kind s \<Longrightarrow> g_text s' = g_text s \<Longrightarrow> g_pos s' = g_pos s \<Longrightarrow> ahead s' ps"
  by (simp add: ahead_def)

text \<open>\<open>ps\<close> does not go on with an operand of a level below \<open>k\<close>.\<close>

definition follow :: "nat \<Rightarrow> (string \<times> string) list \<Rightarrow> bool" where
  "follow k ps \<longleftrightarrow> nxt ps \<noteq> ''('' \<and> (0 < k \<longrightarrow> nxt ps \<noteq> ''['' \<and> nxt ps \<noteq> ''.'')
     \<and> (0 < bin_level (nxt ps) \<longrightarrow> k \<le> bin_level (nxt ps))"

lemma follow_mono: "follow k ps \<Longrightarrow> j \<le> k \<Longrightarrow> follow j ps"
  by (auto simp: follow_def)

lemma while_stops: "\<not> c s \<Longrightarrow> whileP c f r s = Some (Inr (r, s))"
  by (subst whileP.simps) simp

lemma rest_stops: "ahead s ps \<Longrightarrow> follow (Suc k) ps \<Longrightarrow> rest_at k d r s = Some (Inr (r, s))"
  by (auto simp: rest_at_def follow_def test_at_def intro!: while_stops)

lemma lev_unary:
  assumes "ahead s qs" "nxt qs \<notin> set unops"
  shows "lev 1 d s = lev 0 d s"
  using assms by (simp add: lev_def id_parse_unary.simps thenP_def id_unary_or_postfix_def resP_def)

text \<open>What a level's parser reaches, the looser levels reach too.\<close>

lemma climb:
  assumes "reaches (lev j d) (rest_at j d) s ps e" "j \<le> k" "k \<le> 10" "follow k ps" "ahead s qs"
    "nxt qs \<notin> set unops \<or> 1 \<le> j"
  shows "reaches (lev k d) (rest_at k d) s ps e"
  using assms(2-4)
proof (induction k)
  case 0
  then show ?case using assms(1) by simp
next
  case (Suc k)
  show ?case
  proof (cases "j = Suc k")
    case True
    then show ?thesis using assms(1) by simp
  next
    case False
    have "reaches (lev k d) (rest_at k d) s ps e" using Suc False by (intro Suc.IH) (auto intro: follow_mono)
    then obtain r s' where r: "lev k d s = rest_at k d r s'" "ahead s' ps" "clean s s'" "denotes (g_nodes s') r e"
      by (auto simp: reaches_def)
    have l: "lev k d s = Some (Inr (r, s'))" using r(1) rest_stops [OF r(2) Suc.prems(3)] by simp
    have "lev (Suc k) d s = rest_at (Suc k) d r s'"
    proof (cases "k = 0")
      case True
      then have "nxt qs \<notin> set unops" using False Suc.prems(1) assms(6) by auto
      then show ?thesis using l True lev_unary [OF assms(5)] by (simp add: rest_at_def)
    next
      case False
      then show ?thesis using l Suc.prems(2) by (simp add: lev_Suc thenP_def)
    qed
    then show ?thesis using r(2-4) by (auto simp: reaches_def)
  qed
qed

section \<open>Atoms\<close>

lemma plain_name_not:
  assumes "plain_name f"
  shows "f \<noteq> ''('' \<and> f \<noteq> ''['' \<and> f \<noteq> '')'' \<and> f \<noteq> '']'' \<and> f \<noteq> '','' \<and> f \<noteq> '';'' \<and> f \<notin> set unops"
  using assms by (auto simp: plain_name_def unops_def chr_is_def char_class_defs)

lemma plain_name_words:
  assumes "plain_name f"
  shows "f \<noteq> ''import'' \<and> f \<noteq> ''struct'' \<and> f \<noteq> ''func'' \<and> f \<notin> {''given'', ''then'', ''prints'', ''eprints'', ''calls'', ''stdin'', ''timeout''}"
  using assms by (auto simp: plain_name_def kw_list_def)

abbreviation tk :: "tok \<Rightarrow> string \<times> string" where
  "tk t \<equiv> (tok_kind t, tok_text t)"

lemma read_name:
  assumes "plain_name f" "ahead s ((''ident'', f) # ps)"
  shows "id_read_name s = Some (Inr (f, adv s))"
  using assms plain_name_words [OF assms(1)]
  by (simp add: id_read_name_def id_no_case_word_def id_no_func_word_def id_no_struct_word_def id_no_keyword_word_def
      id_advance_adv Let_def doP_def thenP_def)

lemma primary_var:
  assumes "plain_name f" "ahead s ((''ident'', f) # ps)" "nxt ps \<noteq> ''(''"
  shows "\<exists>r s'. id_parse_primary u s = Some (Inr (r, s')) \<and> ahead s' ps \<and> clean s s' \<and> denotes (g_nodes s') r (EVar f)"
proof -
  have a: "ahead (adv s) ps" using assms(2) by blast
  obtain r s' where r: "id_newnode ''var'' 0 0 f '''' [] [] (adv s) = Some (Inr (r, s'))" "ahead s' ps" "clean (adv s) s'"
    "node_at (g_nodes s') r ''var'' f" using newnode_clean [OF a] by meson
  have "id_parse_primary u s = Some (Inr (r, s'))"
    using assms plain_name_not [OF assms(1)] plain_name_words [OF assms(1)] read_name [OF assms(1,2)] r(1,2)
    by (simp add: id_parse_primary_def id_pp2_def id_parse_atom_def id_parse_atom2_def id_parse_atom_float_def
        id_parse_atom_bool_def id_parse_atom3_def id_parse_ident_or_call_def id_no_op_atom_def id_finish_atom_def
        id_node_txt_def id_newleaf_def doP_def thenP_def)
  then show ?thesis using r clean_trans [OF clean_adv r(3)] by auto
qed

lemma digit_class: "chr_is id_character_is_digit c \<longleftrightarrow> c_digit c"
  by (simp add: chr_is_def char_class_defs c_digit_def)

lemma primary_num:
  assumes "writable (ENum ds)" "ahead s ((''int'', ds) # ps)"
  shows "\<exists>r s'. id_parse_primary u s = Some (Inr (r, s')) \<and> ahead s' ps \<and> clean s s' \<and> denotes (g_nodes s') r (ENum ds)"
proof -
  have ds: "digits ds" "ds \<noteq> []" "int (length ds) \<le> INT_MAX" "dec_value 0 ds < 2 ^ 64"
    using assms(1) by (auto simp: digit_class INT_MAX_def list_all_iff)
  have e: "id_exceeds_word ds = Inr False" using exceeds_word_exact [OF ds(1,3)] ds(4) by simp
  have b: "id_is_bigdec ds = Inr (2147483647 < dec_value 0 ds)" by (rule is_bigdec_exact [OF ds(1,3)])
  have n: "ds \<noteq> ''(''" "ds \<noteq> ''[''" using ds(1) by (auto simp: c_digit_def)
  have a: "ahead (adv s) ps" using assms(2) by blast
  obtain r s' where r: "id_newnode ''int'' (id_to_int ds) (of_bool (2147483647 < dec_value 0 ds)) ds '''' [] [] (adv s) = Some (Inr (r, s'))"
    "ahead s' ps" "clean (adv s) s'" "node_at (g_nodes s') r ''int'' ds" "n_i1 (g_nodes s' ! nat r) = id_to_int ds"
    "n_i2 (g_nodes s' ! nat r) = of_bool (2147483647 < dec_value 0 ds)" using newnode_clean [OF a] by meson
  have "id_parse_primary u s = Some (Inr (r, s'))"
    using assms(2) n e b r(1)
    by (simp add: id_parse_primary_def id_pp2_def id_parse_atom_def id_parse_int_def id_int_check_def id_finish_int_def
        id_node_txt2_def id_newleaf_def doP_def thenP_def resP_def id_advance_adv)
  moreover have "denotes (g_nodes s') r (ENum ds)"
    using r(4-6) to_int_value [OF ds(1,2)] by (auto simp: not_less)
  ultimately show ?thesis using r(2) clean_trans [OF clean_adv r(3)] by auto
qed

lemma no_escape:
  assumes "CHR 0x5C \<notin> set t"
  shows "code_at t i \<noteq> 92"
proof (cases "0 \<le> i \<and> i < int (length t)")
  case True
  then have "t ! nat i \<in> set t" by (simp add: nat_less_iff)
  then have "t ! nat i \<noteq> CHR 0x5C" using assms by metis
  then have "of_char (t ! nat i) \<noteq> (of_char (CHR 0x5C) :: nat)" by (simp only: of_char_eq_iff not_False_eq_True)
  then show ?thesis using code_at_in [of i t] True by simp
qed (auto simp: code_at_out)

lemma no_bad_hex: "CHR 0x5C \<notin> set t \<Longrightarrow> bad_hex_loop t i b = b"
proof (induction t i b rule: bad_hex_loop.induct)
  case (1 t i b)
  have "code_at t i \<noteq> 92" by (rule no_escape [OF 1(2)])
  then show ?case using 1 by (subst bad_hex_loop.simps) (simp add: Let_def)
qed

lemma no_nul: "CHR 0x5C \<notin> set t \<Longrightarrow> has_nul_loop t i b = b"
proof (induction t i b rule: has_nul_loop.induct)
  case (1 t i b)
  have "code_at t i \<noteq> 92" by (rule no_escape [OF 1(2)])
  then show ?case using 1 by (subst has_nul_loop.simps) (simp add: Let_def)
qed

lemma primary_str:
  assumes "writable (EStr w)" "ahead s (tk (TStr w) # ps)"
  shows "\<exists>r s'. id_parse_primary u s = Some (Inr (r, s')) \<and> ahead s' ps \<and> clean s s' \<and> denotes (g_nodes s') r (EStr w)"
proof -
  let ?t = "CHR 0x22 # w @ [CHR 0x22]"
  have t: "CHR 0x5C \<notin> set ?t" using assms(1) by simp
  have c: "\<not> id_str_has_nul ?t" "\<not> id_str_bad_hex ?t"
    unfolding id_str_has_nul_def id_str_bad_hex_def using no_nul [OF t] no_bad_hex [OF t] by simp_all
  have a: "ahead (adv s) ps" using assms(2) by blast
  obtain r s' where r: "id_newnode ''str'' 0 0 ?t '''' [] [] (adv s) = Some (Inr (r, s'))"
    "ahead s' ps" "clean (adv s) s'" "node_at (g_nodes s') r ''str'' ?t" using newnode_clean [OF a] by meson
  have "id_parse_primary u s = Some (Inr (r, s'))"
    using assms(2) c r(1)
    by (simp add: id_parse_primary_def id_pp2_def id_parse_atom_def id_parse_atom2_def id_parse_str_def id_str_hex_check_def
        id_node_txt_def id_newleaf_def doP_def thenP_def id_advance_adv)
  then show ?thesis using r clean_trans [OF clean_adv r(3)] by auto
qed

lemma primary_bool:
  assumes "ahead s (tk (TWord (if b then ''true'' else ''false'')) # ps)"
  shows "\<exists>r s'. id_parse_primary u s = Some (Inr (r, s')) \<and> ahead s' ps \<and> clean s s' \<and> denotes (g_nodes s') r (EBool b)"
proof -
  let ?w = "if b then ''true'' else ''false''"
  have k: "tk (TWord ?w) = (''kw'', ?w)" by (simp add: kw_list_def)
  have "int_text 1 = ''1''" "int_text 0 = ''0''" by code_simp+
  then have i: "int_text (of_bool b) = (if b then ''1'' else ''0'')" by simp
  have a: "ahead (adv s) ps" using assms by blast
  obtain r s' where r: "id_newnode ''int'' (of_bool b) 0 (if b then ''1'' else ''0'') ''bool'' [] [] (adv s) = Some (Inr (r, s'))"
    "ahead s' ps" "clean (adv s) s'" "node_at (g_nodes s') r ''int'' (if b then ''1'' else ''0'')"
    "n_i1 (g_nodes s' ! nat r) = of_bool b" "n_i2 (g_nodes s' ! nat r) = 0" "n_s2 (g_nodes s' ! nat r) = ''bool''"
    using newnode_clean [OF a] by meson
  have "id_parse_primary u s = Some (Inr (r, s'))"
    using assms [unfolded k] r(1) i
    by (cases b) (simp_all add: id_parse_primary_def id_pp2_def id_parse_atom_def id_parse_atom2_def id_parse_atom_float_def
        id_parse_atom_bool_def id_parse_bool_def id_node_bool_def Let_def id_newleaf_def doP_def thenP_def id_advance_adv)
  then show ?thesis using r clean_trans [OF clean_adv r(3)] by auto
qed

section \<open>First tokens\<close>

lemma op_tok_text [simp]: "op \<noteq> [] \<Longrightarrow> tok_text (op_tok op) = op" "tok_kind (op_tok op) = ''op''"
  by (cases op; auto simp: op_tok_def)+

lemma unop_nonempty: "op \<in> set unops \<Longrightarrow> op \<noteq> []"
  by (auto simp: unops_def)

lemma binop_nonempty: "bin_level op \<noteq> 0 \<Longrightarrow> op \<noteq> []"
  by (auto simp: bin_level_def mulops_def addops_def shiftops_def relops_def split: if_splits)

definition starts :: "tok list \<Rightarrow> bool" where
  "starts ts \<longleftrightarrow> (\<exists>t us. ts = t # us \<and> tok_text t \<notin> {'')'', '']'', '';'', '',''} \<and> tok_kind t \<noteq> ''eof'')"

lemma starts_app [simp]: "starts ts \<Longrightarrow> starts (ts @ us)"
  by (auto simp: starts_def)

lemma starts_paren [simp]: "starts ts \<Longrightarrow> starts (paren_if b ts)"
  by (auto simp: starts_def paren_if_def)

lemma starts_tokens: "writable e \<Longrightarrow> starts (tokens e)"
proof (induction e)
  case (EVar f)
  then show ?case using plain_name_not [of f] by (auto simp: starts_def plain_name_def)
next
  case (ENum ds)
  then have "digits ds" "ds \<noteq> []" by (auto simp: digit_class list_all_iff)
  then show ?case by (auto simp: starts_def c_digit_def)
next
  case (EUn op a)
  then show ?case by (auto simp: starts_def unops_def)
next
  case (ECall f xs)
  then show ?case using plain_name_not [of f] by (auto simp: starts_def plain_name_def)
next
  case (EBin op a b)
  then show ?case by simp
next
  case (EIndex a b)
  then show ?case by simp
next
  case (EField a f)
  then show ?case by simp
qed (auto simp: starts_def kw_list_def)

lemma no_unop_first: "writable e \<Longrightarrow> level e = 0 \<Longrightarrow> nxt (map tk (tokens e) @ ps) \<notin> set unops"
proof (induction e arbitrary: ps)
  case (EVar f)
  then show ?case using plain_name_not [of f] by simp
next
  case (ENum ds)
  then have "digits ds" by (simp add: digit_class list_all_iff)
  then show ?case by (auto simp: unops_def c_digit_def)
next
  case (EBin op a b)
  then show ?case by simp
next
  case (EIndex a b)
  then show ?case by (cases "0 < level a") (auto simp: paren_if_def unops_def)
next
  case (EField a f)
  then show ?case by (cases "0 < level a") (auto simp: paren_if_def unops_def)
next
  case (ECall f xs)
  then show ?case using plain_name_not [of f] by simp
qed (auto simp: unops_def)

section \<open>Parentheses\<close>

text \<open>What is to be shown of a tree: by its own level, and as an operand of any level.\<close>

definition direct :: "expr \<Rightarrow> bool" where
  "direct e \<longleftrightarrow> (\<forall>d s ps. ahead s (map tk (tokens e) @ ps) \<longrightarrow> length (tokens e) \<le> Suc d \<longrightarrow> follow (level e) ps
     \<longrightarrow> reaches (lev (level e) d) (rest_at (level e) d) s ps e)"

definition as_operand :: "expr \<Rightarrow> bool" where
  "as_operand e \<longleftrightarrow> (\<forall>k d s ps. k \<le> 10 \<longrightarrow> ahead s (map tk (tokens_at k e) @ ps) \<longrightarrow> length (tokens_at k e) \<le> Suc d
     \<longrightarrow> follow k ps \<longrightarrow> reaches (lev k d) (rest_at k d) s ps e)"

lemma level_max: "level e \<le> 10"
proof (cases e)
  case (EBin op a b)
  then show ?thesis using bin_level_range [of op] by (cases "bin_level op = 0") auto
qed auto

lemma direct_up:
  assumes "direct e" "writable e" "level e \<le> k" "k \<le> 10" "ahead s (map tk (tokens e) @ ps)" "length (tokens e) \<le> Suc d"
    "follow k ps"
  shows "reaches (lev k d) (rest_at k d) s ps e"
proof (rule climb [OF _ assms(3,4,7,5)])
  show "reaches (lev (level e) d) (rest_at (level e) d) s ps e"
    using assms(1,5,6) follow_mono [OF assms(7,3)] by (simp add: direct_def)
  show "nxt (map tk (tokens e) @ ps) \<notin> set unops \<or> 1 \<le> level e"
    using no_unop_first [OF assms(2)] by (cases "level e") auto
qed

text \<open>A whole expression, up to a token that continues none.\<close>

lemma whole_expr:
  assumes "direct e" "writable e" "ahead s (map tk (tokens e) @ ps)" "length (tokens e) \<le> Suc d" "follow 11 ps"
  shows "\<exists>r s'. id_parse_expr (id_parse_unary (Suc d)) s = Some (Inr (r, s')) \<and> ahead s' ps \<and> clean s s'
     \<and> denotes (g_nodes s') r e"
proof -
  have "reaches (lev 10 d) (rest_at 10 d) s ps e"
    using assms level_max follow_mono [OF assms(5)] by (intro direct_up) auto
  then obtain r s' where r: "lev 10 d s = rest_at 10 d r s'" "ahead s' ps" "clean s s'" "denotes (g_nodes s') r e"
    by (auto simp: reaches_def)
  have "follow (Suc 10) ps" using assms(5) by simp
  then have "rest_at 10 d r s' = Some (Inr (r, s'))" using rest_stops [OF r(2)] by blast
  then show ?thesis using r by (auto simp: lev_def)
qed

lemma follow_close [simp]: "follow k ((x, '')'') # ps)" "follow k ((x, '']'') # ps)" "follow k ((x, '','') # ps)"
  by (simp_all add: follow_def bin_level_def mulops_def addops_def shiftops_def relops_def)

lemma denotes_node: "denotes ns r e \<Longrightarrow> 0 \<le> r \<and> nat r < length ns"
  by (cases e) (auto simp: node_at_def)

text \<open>A primary expression is the start of a postfix expression.\<close>

lemma primary_reaches:
  assumes "id_parse_primary (id_parse_unary d) s = Some (Inr (r, s'))" "ahead s' ps" "clean s s'" "denotes (g_nodes s') r e"
  shows "reaches (lev 0 d) (rest_at 0 d) s ps e"
  using assms by (intro reachesI) (simp_all add: lev_def rest_at_def id_parse_postfix_def thenP_def)

lemma close_bracket_ok: "ahead s ((k, c) # ps) \<Longrightarrow> id_close_bracket c ln s = Some (Inr ((), adv s))"
  by (simp add: id_close_bracket_def id_advance_adv)

lemma paren_reaches:
  assumes "direct e" "writable e" "ahead s (map tk (lpar # tokens e @ [rpar]) @ ps)" "length (tokens e) + 2 \<le> Suc d"
  shows "reaches (lev 0 d) (rest_at 0 d) s ps e"
proof -
  obtain c where d: "d = Suc c" using assms(4) by (cases d) auto
  have a: "ahead (adv s) (map tk (tokens e) @ (''op'', '')'') # ps)" using assms(3) by auto
  obtain r t where r: "id_parse_expr (id_parse_unary d) (adv s) = Some (Inr (r, t))" "ahead t ((''op'', '')'') # ps)"
    "clean (adv s) t" "denotes (g_nodes t) r e"
    using whole_expr [OF assms(1,2) a, of c] assms(4) d by auto
  let ?b = "n_kind (g_nodes t ! nat r) = ''bin''"
  define t1 where "t1 = (if ?b then (adv t)\<lparr>g_nparen := lpush (g_nparen (adv t)) r\<rparr> else adv t)"
  define t2 where "t2 = t1\<lparr>g_ngrp := lpush (g_ngrp t1) r, g_ngrpc := lpush (g_ngrpc t1) (g_pos t1 - 1)\<rparr>"
  have n: "lget (g_nodes (adv t)) r = Inr (g_nodes t ! nat r)"
    using denotes_node [OF r(4)] by (simp add: lget_def adv_def, linarith)
  have "id_parse_paren (id_parse_unary d) s = Some (Inr (r, adv t))"
    using r(1) close_bracket_ok [OF r(2)] by (simp add: id_parse_paren_def id_advance_adv doP_def thenP_def)
  then have p: "id_parse_primary (id_parse_unary d) s = Some (Inr (r, t2))"
    using assms(3) n by (simp add: id_parse_primary_def id_paren_primary_def nodeP_def resP_def id_grp_note_def doP_def thenP_def
        t1_def t2_def)
  have "ahead (adv t) ps" using r(2) by blast
  then have "ahead t2 ps" by (rule ahead_same) (simp_all add: t1_def t2_def)
  moreover have "clean (adv t) t2" by (simp add: clean_def t1_def t2_def)
  then have "clean s t2" "clean t t2" using r(3) by (meson clean_adv clean_trans)+
  moreover have "denotes (g_nodes t2) r e" using clean_denotes [OF \<open>clean t t2\<close> r(4)] .
  ultimately show ?thesis using p by (intro primary_reaches)
qed

lemma operand_of_direct: "direct e \<Longrightarrow> writable e \<Longrightarrow> as_operand e"
  unfolding as_operand_def
proof (intro allI impI)
  fix k d s ps
  assume e: "direct e" "writable e" and k: "k \<le> 10" "ahead s (map tk (tokens_at k e) @ ps)"
    "length (tokens_at k e) \<le> Suc d" "follow k ps"
  show "reaches (lev k d) (rest_at k d) s ps e"
  proof (cases "level e \<le> k")
    case True
    then show ?thesis using e k by (intro direct_up) (simp_all add: tokens_at_def paren_if_def)
  next
    case False
    then have t: "tokens_at k e = lpar # tokens e @ [rpar]" by (simp add: tokens_at_def paren_if_def)
    have "reaches (lev 0 d) (rest_at 0 d) s ps e" using e k(2,3) by (intro paren_reaches) (simp_all add: t)
    then show ?thesis by (rule climb [OF _ le0 k(1,4,2)]) (simp add: t unops_def)
  qed
qed

section \<open>Lists of expressions\<close>

lemma commas_simps [simp]:
  "commas [] = []" "commas [ts] = ts" "commas (ts # us # r) = ts @ comma # commas (us # r)"
  by (simp_all add: commas_def)

lemma fill_list_ok:
  assumes "\<forall>x \<in> set xs. direct x" "list_all writable xs" "\<forall>x \<in> set xs. length (tokens x) \<le> Suc d"
    "ahead s (map tk (commas (map tokens xs)) @ (k, close) # ps)" "list_all2 (\<lambda>x j. denotes (g_nodes s) j x) ys js"
    "close \<in> {'')'', '']''}" "k \<noteq> ''eof''"
  shows "\<exists>rs s'. id_fill_list (id_parse_unary (Suc d)) js close s = Some (Inr (js @ rs, s')) \<and> ahead s' ((k, close) # ps)
     \<and> clean s s' \<and> list_all2 (\<lambda>x j. denotes (g_nodes s') j x) (ys @ xs) (js @ rs)"
  using assms(1-5)
proof (induction xs arbitrary: s js ys)
  case Nil
  have "\<not> fill_cond close s" using Nil(4) assms(6) by (auto simp: fill_cond_def)
  then have "id_fill_list (id_parse_unary (Suc d)) js close s = Some (Inr (js @ [], s))"
    unfolding id_fill_list_def by (subst while_stops) simp_all
  then show ?case using Nil by (intro exI [of _ "[]"] exI [of _ s]) simp
next
  case (Cons x xs)
  have w: "direct x" "writable x" "length (tokens x) \<le> Suc d" using Cons.prems by auto
  let ?q = "if xs = [] then (k, close) # ps else tk comma # map tk (commas (map tokens xs)) @ (k, close) # ps"
  have a: "ahead s (map tk (tokens x) @ ?q)" using Cons.prems(4) by (cases xs) simp_all
  have "follow 11 ?q" using assms(6) by auto
  then obtain r t where r: "id_parse_expr (id_parse_unary (Suc d)) s = Some (Inr (r, t))" "ahead t ?q" "clean s t"
    "denotes (g_nodes t) r x" using whole_expr [OF w(1,2) a w(3)] by blast
  obtain t0 us where t0: "tokens x = t0 # us" "tok_text t0 \<notin> {'')'', '']'', '';'', '',''}" "tok_kind t0 \<noteq> ''eof''"
    using starts_tokens [OF w(2)] by (auto simp: starts_def)
  have c: "fill_cond close s" using a t0 assms(6) by (auto simp: fill_cond_def)
  define v where "v = (if xs = [] then t else adv t)"
  have v: "id_skip_text '','' t = Some (Inr ((), v))" "ahead v (map tk (commas (map tokens xs)) @ (k, close) # ps)"
      "clean t v"
    using r(2) assms(6) by (cases xs; auto simp: v_def id_skip_text_def id_advance_adv)+
  have l: "list_all2 (\<lambda>x j. denotes (g_nodes v) j x) (ys @ [x]) (js @ [r])"
    using Cons.prems(5) r(3,4) v(3) by (auto intro!: list_all2_appendI elim!: list_all2_mono intro: clean_denotes clean_trans)
  obtain rs s' where i: "id_fill_list (id_parse_unary (Suc d)) (js @ [r]) close v = Some (Inr ((js @ [r]) @ rs, s'))"
    "ahead s' ((k, close) # ps)" "clean v s'" "list_all2 (\<lambda>x j. denotes (g_nodes s') j x) ((ys @ [x]) @ xs) ((js @ [r]) @ rs)"
    using Cons.IH [OF _ _ _ v(2) l] Cons.prems(1-3) by auto
  have "id_fill_list (id_parse_unary (Suc d)) js close s = Some (Inr (js @ (r # rs), s'))"
    using i(1) c r(1) v(1) unfolding id_fill_list_def
    by (subst whileP.simps) (simp add: fill_item_def doP_def thenP_def lpush_def)
  moreover have "clean s s'" using r(3) v(3) i(3) by (meson clean_trans)
  ultimately show ?case using i(2,4) by auto
qed

section \<open>Every tree\<close>

lemma direct_atom:
  assumes "level e = 0" "\<And>d s ps. ahead s (map tk (tokens e) @ ps) \<Longrightarrow> length (tokens e) \<le> Suc d \<Longrightarrow> nxt ps \<noteq> ''(''
    \<Longrightarrow> \<exists>r s'. id_parse_primary (id_parse_unary d) s = Some (Inr (r, s')) \<and> ahead s' ps \<and> clean s s'
      \<and> denotes (g_nodes s') r e"
  shows "direct e"
  unfolding direct_def assms(1)
proof (intro allI impI)
  fix d s ps assume "ahead s (map tk (tokens e) @ ps)" "length (tokens e) \<le> Suc d" "follow 0 ps"
  then show "reaches (lev 0 d) (rest_at 0 d) s ps e"
    using assms(2) [of s ps d] primary_reaches by (auto simp: follow_def)
qed

lemma tokens_pos: "writable e \<Longrightarrow> 0 < length (tokens e)" "writable e \<Longrightarrow> 0 < length (tokens_at k e)"
  using starts_tokens [of e] by (auto simp: starts_def tokens_at_def paren_if_def)

lemma as_operandD:
  "as_operand e \<Longrightarrow> k \<le> 10 \<Longrightarrow> ahead s (map tk (tokens_at k e) @ ps) \<Longrightarrow> length (tokens_at k e) \<le> Suc d \<Longrightarrow> follow k ps
     \<Longrightarrow> \<exists>r s'. lev k d s = rest_at k d r s' \<and> ahead s' ps \<and> clean s s' \<and> denotes (g_nodes s') r e"
  by (auto simp: as_operand_def reaches_def)

lemma direct_un:
  assumes "op \<in> set unops" "as_operand a" "writable a"
  shows "direct (EUn op a)"
  unfolding direct_def
proof (intro allI impI)
  fix d s ps
  assume h: "ahead s (map tk (tokens (EUn op a)) @ ps)" "length (tokens (EUn op a)) \<le> Suc d" "follow (level (EUn op a)) ps"
  have t: "tokens (EUn op a) = op_tok op # tokens_at 1 a" by (simp add: tokens_at_def)
  note h = h(1) [unfolded t] h(2) [unfolded t] h(3)
  have o: "op \<noteq> []" by (rule unop_nonempty [OF assms(1)])
  obtain c where d: "d = Suc c" using h(2) tokens_pos(2) [OF assms(3), of 1] by (cases d) auto
  have "ahead (adv s) (map tk (tokens_at 1 a) @ ps)" using h(1) by auto
  then obtain r t where r: "lev 1 c (adv s) = rest_at 1 c r t" "ahead t ps" "clean (adv s) t" "denotes (g_nodes t) r a"
    using as_operandD [OF assms(2), of 1 "adv s" ps c] h(2,3) d by auto
  obtain r' s' where n: "id_newnode ''un'' r 0 op '''' [] [] t = Some (Inr (r', s'))" "ahead s' ps" "clean t s'"
    "node_at (g_nodes s') r' ''un'' op" "n_i1 (g_nodes s' ! nat r') = r" using newnode_clean [OF r(2)] by meson
  have u: "id_parse_unary d (adv s) = Some (Inr (r, t))" using r(1) by (simp add: lev_def rest_at_def d)
  have c: "id_cur_text s = op" using h(1) o by simp
  have "lev 1 d s = Some (Inr (r', s'))"
    using c assms(1) n(1) u
    by (simp add: lev_def id_parse_unary.simps(2) [of d] id_unary_or_postfix_def id_fold_unary_def id_fold_unary_tail_def
        id_node_txt1_def id_newleaf_def id_advance_adv doP_def thenP_def resP_def)
  moreover have "clean s s'" using r(3) n(3) by (meson clean_adv clean_trans)
  moreover have "denotes (g_nodes s') r' (EUn op a)" using n(4,5) clean_denotes [OF n(3) r(4)] by simp
  ultimately show "reaches (lev (level (EUn op a)) d) (rest_at (level (EUn op a)) d) s ps (EUn op a)"
    using n(2) by (intro reachesI) (simp_all add: rest_at_def)
qed

lemma direct_bin:
  assumes "bin_level op \<noteq> 0" "op \<noteq> ''=''" "as_operand a" "as_operand b"
  shows "direct (EBin op a b)"
  unfolding direct_def
proof (intro allI impI)
  fix d s ps
  let ?e = "EBin op a b" and ?k = "bin_level op"
  assume h: "ahead s (map tk (tokens ?e) @ ps)" "length (tokens ?e) \<le> Suc d" "follow (level ?e) ps"
  have k: "2 \<le> ?k" "?k \<le> 10" "?k - 1 \<le> 10" using bin_level_range [OF assms(1)] by auto
  have o: "op \<noteq> []" by (rule binop_nonempty [OF assms(1)])
  have t: "tokens ?e = tokens_at ?k a @ op_tok op # tokens_at (?k - 1) b"
    using k by (auto simp: tokens_at_def intro!: arg_cong [of _ _ "\<lambda>b. paren_if b _"])
  note h = h(1) [unfolded t] h(2) [unfolded t] h(3)
  have "follow ?k ((''op'', op) # map tk (tokens_at (?k - 1) b) @ ps)"
    using assms(1,2) by (auto simp: follow_def bin_level_def mulops_def addops_def shiftops_def relops_def split: if_splits)
  then obtain ra sa where a: "lev ?k d s = rest_at ?k d ra sa" "ahead sa ((''op'', op) # map tk (tokens_at (?k - 1) b) @ ps)"
    "clean s sa" "denotes (g_nodes sa) ra a"
    using as_operandD [OF assms(3) k(2), of s "(''op'', op) # map tk (tokens_at (?k - 1) b) @ ps" d] h(1,2) o by auto
  have c: "id_cur_text sa = op" using a(2) by simp
  have "ahead (adv sa) (map tk (tokens_at (?k - 1) b) @ ps)" using a(2) by blast
  then obtain rb sb where b: "lev (?k - 1) d (adv sa) = rest_at (?k - 1) d rb sb" "ahead sb ps" "clean (adv sa) sb"
    "denotes (g_nodes sb) rb b"
    using as_operandD [OF assms(4) k(3), of "adv sa" ps d] h(2) follow_mono [of ?k ps "?k - 1"] h(3) by auto
  have b': "rest_at (?k - 1) d rb sb = Some (Inr (rb, sb))" using rest_stops [OF b(2), of "?k - 1"] h(3) k by simp
  obtain r s' where n: "id_newnode ''bin'' ra rb op '''' [] [] sb = Some (Inr (r, s'))" "ahead s' ps" "clean sb s'"
    "node_at (g_nodes s') r ''bin'' op" "n_i1 (g_nodes s' ! nat r) = ra" "n_i2 (g_nodes s' ! nat r) = rb"
    using newnode_clean [OF b(2)] by meson
  have "fold_at ?k d ra sa = Some (Inr (r, s'))"
    using b(1) b' n(1) unfolding fold_at_step [OF refl assms(1,2) c]
    by (simp add: thenP_def id_node_txt2_def id_newleaf_def)
  then have w: "rest_at ?k d ra sa = rest_at ?k d r s'"
    using k c by (simp add: rest_at_def test_at_def whileP.simps [of "test_at (bin_level op)" "fold_at (bin_level op) d" ra sa])
  have ss: "clean sa s'" using b(3) n(3) by (meson clean_adv clean_trans)
  have "denotes (g_nodes s') r ?e"
    using n(4-6) clean_denotes [OF ss a(4)] clean_denotes [OF n(3) b(4)] by simp
  then show "reaches (lev (level ?e) d) (rest_at (level ?e) d) s ps ?e"
    using a(1) w n(2) clean_trans [OF a(3) ss] by (intro reachesI) simp_all
qed

lemma direct_index:
  assumes "as_operand a" "direct b" "writable b"
  shows "direct (EIndex a b)"
  unfolding direct_def
proof (intro allI impI)
  fix d s ps
  let ?e = "EIndex a b"
  assume h: "ahead s (map tk (tokens ?e) @ ps)" "length (tokens ?e) \<le> Suc d" "follow (level ?e) ps"
  have t: "tokens ?e = tokens_at 0 a @ lbrk # tokens b @ [rbrk]" by (simp add: tokens_at_def)
  note h = h(1) [unfolded t] h(2) [unfolded t] h(3)
  let ?q = "(''op'', ''['') # map tk (tokens b) @ (''op'', '']'') # ps"
  have "follow 0 ?q" by (simp add: follow_def bin_level_def mulops_def addops_def shiftops_def relops_def)
  then obtain ra sa where a: "lev 0 d s = rest_at 0 d ra sa" "ahead sa ?q" "clean s sa" "denotes (g_nodes sa) ra a"
    using as_operandD [OF assms(1) le0, of s ?q d] h(1,2) by auto
  obtain c where d: "d = Suc c" using h(2) by (cases d) auto
  have ab: "ahead (adv sa) (map tk (tokens b) @ (''op'', '']'') # ps)" using a(2) by blast
  obtain rb sb where b: "id_parse_expr (id_parse_unary d) (adv sa) = Some (Inr (rb, sb))" "ahead sb ((''op'', '']'') # ps)"
    "clean (adv sa) sb" "denotes (g_nodes sb) rb b" using whole_expr [OF assms(2,3) ab, of c] h(2) d by auto
  have "ahead (adv sb) ps" using b(2) by blast
  then obtain r s' where n: "id_newnode ''index'' ra rb '''' '''' [] [] (adv sb) = Some (Inr (r, s'))" "ahead s' ps"
    "clean (adv sb) s'" "node_at (g_nodes s') r ''index'' ''''" "n_i1 (g_nodes s' ! nat r) = ra"
    "n_i2 (g_nodes s' ! nat r) = rb" using newnode_clean by meson
  have "id_fold_post (id_parse_unary d) ra sa = Some (Inr (r, s'))"
    using a(2) b(1) n(1) close_bracket_ok [OF b(2)]
    by (simp add: id_fold_post_def id_fold_index_def id_fold_index_tail_def id_node_index_def id_newleaf_def id_advance_adv
        doP_def thenP_def)
  then have w: "rest_at 0 d ra sa = rest_at 0 d r s'"
    using a(2) by (simp add: rest_at_def whileP.simps [of _ "id_fold_post (id_parse_unary d)" ra sa])
  have ss: "clean sb s'" "clean sa s'" using b(3) n(3) by (meson clean_adv clean_trans)+
  have "denotes (g_nodes s') r ?e"
    using n(4-6) clean_denotes [OF ss(2) a(4)] clean_denotes [OF ss(1) b(4)] by simp
  then show "reaches (lev (level ?e) d) (rest_at (level ?e) d) s ps ?e"
    using a(1) w n(2) clean_trans [OF a(3) ss(2)] by (intro reachesI) simp_all
qed

lemma direct_field:
  assumes "as_operand a" "plain_name f"
  shows "direct (EField a f)"
  unfolding direct_def
proof (intro allI impI)
  fix d s ps
  let ?e = "EField a f"
  assume h: "ahead s (map tk (tokens ?e) @ ps)" "length (tokens ?e) \<le> Suc d" "follow (level ?e) ps"
  have t: "tokens ?e = tokens_at 0 a @ [TOp (CHR ''.''), TWord f]" by (simp add: tokens_at_def)
  note h = h(1) [unfolded t] h(2) [unfolded t] h(3)
  have f: "f \<notin> set kw_list" using assms(2) by (simp add: plain_name_def)
  let ?q = "(''op'', ''.'') # (''ident'', f) # ps"
  have "follow 0 ?q" by (simp add: follow_def bin_level_def mulops_def addops_def shiftops_def relops_def)
  then obtain ra sa where a: "lev 0 d s = rest_at 0 d ra sa" "ahead sa ?q" "clean s sa" "denotes (g_nodes sa) ra a"
    using as_operandD [OF assms(1) le0, of s ?q d] h(1,2) f by auto
  have b: "ahead (adv sa) ((''ident'', f) # ps)" using a(2) by blast
  then have "ahead (adv (adv sa)) ps" by blast
  then obtain rf sf where n: "id_newnode ''fld'' 0 0 f '''' [] [] (adv (adv sa)) = Some (Inr (rf, sf))" "ahead sf ps"
    "clean (adv (adv sa)) sf" "node_at (g_nodes sf) rf ''fld'' f" using newnode_clean by meson
  obtain r s' where m: "id_newnode ''index'' ra rf '''' '''' [] [] sf = Some (Inr (r, s'))" "ahead s' ps"
    "clean sf s'" "node_at (g_nodes s') r ''index'' ''''" "n_i1 (g_nodes s' ! nat r) = ra"
    "n_i2 (g_nodes s' ! nat r) = rf" using newnode_clean [OF n(2)] by meson
  have "id_fold_post (id_parse_unary d) ra sa = Some (Inr (r, s'))"
    using a(2) n(1) m(1) read_name [OF assms(2) b]
    by (simp add: id_fold_post_def id_fold_field_def id_node_index_def id_newleaf_def id_advance_adv doP_def thenP_def)
  then have w: "rest_at 0 d ra sa = rest_at 0 d r s'"
    using a(2) by (simp add: rest_at_def whileP.simps [of _ "id_fold_post (id_parse_unary d)" ra sa])
  have ss: "clean sa s'" using n(3) m(3) by (meson clean_adv clean_trans)
  have "node_at (g_nodes s') rf ''fld'' f" using n(4) m(3) node_at_more by (auto simp: clean_def)
  then have "denotes (g_nodes s') r ?e" using m(4-6) clean_denotes [OF ss a(4)] by simp
  then show "reaches (lev (level ?e) d) (rest_at (level ?e) d) s ps ?e"
    using a(1) w m(2) clean_trans [OF a(3) ss] by (intro reachesI) simp_all
qed

lemma tokens_in_commas: "x \<in> set xs \<Longrightarrow> length (tokens x) \<le> length (commas (map tokens xs))"
proof (induction xs)
  case (Cons y ys)
  then show ?case by (cases ys) auto
qed simp

lemma scan_list_ok:
  assumes "\<forall>x \<in> set xs. direct x" "list_all writable xs" "length (commas (map tokens xs)) \<le> d"
    "ahead s ((k0, c0) # map tk (commas (map tokens xs)) @ (''op'', close) # ps)" "close \<in> {'')'', '']''}" "0 < d"
  shows "\<exists>rs s'. id_scan_list (id_parse_unary d) [] close s = Some (Inr (rs, s')) \<and> ahead s' ps
     \<and> clean s s' \<and> list_all2 (\<lambda>x j. denotes (g_nodes s') j x) xs rs"
proof -
  obtain c where d: "d = Suc c" using assms(6) by (cases d) auto
  have a: "ahead (adv s) (map tk (commas (map tokens xs)) @ (''op'', close) # ps)" using assms(4) by blast
  have l: "\<forall>x \<in> set xs. length (tokens x) \<le> Suc c" using tokens_in_commas assms(3) d by fastforce
  obtain rs t where r: "id_fill_list (id_parse_unary d) [] close (adv s) = Some (Inr (rs, t))" "ahead t ((''op'', close) # ps)"
    "clean (adv s) t" "list_all2 (\<lambda>x j. denotes (g_nodes t) j x) xs rs"
    using fill_list_ok [OF assms(1,2) l a _ assms(5), of "[]" "[]"] d by auto
  have "id_scan_list (id_parse_unary d) [] close s = Some (Inr (rs, adv t))"
    using r(1) close_bracket_ok [OF r(2)] by (simp add: id_scan_list_def id_advance_adv doP_def thenP_def)
  moreover have "clean s (adv t)" using r(3) by (meson clean_adv clean_trans)
  moreover have "list_all2 (\<lambda>x j. denotes (g_nodes (adv t)) j x) xs rs" using r(4) by (simp add: adv_def)
  ultimately show ?thesis using r(2) by blast
qed

lemma clean_denotes_list:
  "clean s t \<Longrightarrow> list_all2 (\<lambda>x j. denotes (g_nodes s) j x) xs rs \<Longrightarrow> list_all2 (\<lambda>x j. denotes (g_nodes t) j x) xs rs"
  by (auto elim: list_all2_mono intro: clean_denotes)

lemma direct_arr:
  assumes "\<forall>x \<in> set xs. direct x" "list_all writable xs"
  shows "direct (EArr xs)"
proof (rule direct_atom)
  fix d s ps assume h: "ahead s (map tk (tokens (EArr xs)) @ ps)" "length (tokens (EArr xs)) \<le> Suc d"
  then have "ahead s ((''op'', ''['') # map tk (commas (map tokens xs)) @ (''op'', '']'') # ps)"
    "length (commas (map tokens xs)) \<le> d" "0 < d" by auto
  then obtain rs t where r: "id_scan_list (id_parse_unary d) [] '']'' s = Some (Inr (rs, t))" "ahead t ps" "clean s t"
    "list_all2 (\<lambda>x j. denotes (g_nodes t) j x) xs rs" using scan_list_ok [OF assms] by blast
  obtain r' s' where n: "id_newnode ''arr'' 0 0 '''' '''' rs [] t = Some (Inr (r', s'))" "ahead s' ps" "clean t s'"
    "node_at (g_nodes s') r' ''arr'' ''''" "n_l1 (g_nodes s' ! nat r') = rs" using newnode_clean [OF r(2)] by meson
  have "id_parse_primary (id_parse_unary d) s = Some (Inr (r', s'))"
    using h(1) r(1) n(1)
    by (simp add: id_parse_primary_def id_pp2_def id_parse_arr_def id_node_arr_def thenP_def)
  then show "\<exists>r s'. id_parse_primary (id_parse_unary d) s = Some (Inr (r, s')) \<and> ahead s' ps \<and> clean s s'
      \<and> denotes (g_nodes s') r (EArr xs)"
    using n clean_trans [OF r(3) n(3)] clean_denotes_list [OF n(3) r(4)] by auto
qed simp

lemma direct_call:
  assumes "plain_name f" "\<forall>x \<in> set xs. direct x" "list_all writable xs"
  shows "direct (ECall f xs)"
proof (rule direct_atom)
  fix d s ps assume h: "ahead s (map tk (tokens (ECall f xs)) @ ps)" "length (tokens (ECall f xs)) \<le> Suc d"
  have f: "f \<notin> set kw_list" using assms(1) by (simp add: plain_name_def)
  let ?q = "(''op'', ''('') # map tk (commas (map tokens xs)) @ (''op'', '')'') # ps"
  have a: "ahead s ((''ident'', f) # ?q)" "length (commas (map tokens xs)) \<le> d" "0 < d" using h f by auto
  then have av: "ahead (adv s) ?q" by blast
  obtain v t0 where v: "id_newnode ''var'' 0 0 f '''' [] [] (adv s) = Some (Inr (v, t0))" "ahead t0 ?q" "clean (adv s) t0"
    using newnode_clean [OF av] by meson
  obtain rs t where r: "id_scan_list (id_parse_unary d) [] '')'' t0 = Some (Inr (rs, t))" "ahead t ps" "clean t0 t"
    "list_all2 (\<lambda>x j. denotes (g_nodes t) j x) xs rs" using scan_list_ok [OF assms(2,3) a(2) v(2) _ a(3)] by auto
  obtain r' t' where n: "id_newnode ''call'' 0 0 f '''' rs [] t = Some (Inr (r', t'))" "ahead t' ps" "clean t t'"
    "node_at (g_nodes t') r' ''call'' f" "n_l1 (g_nodes t' ! nat r') = rs" using newnode_clean [OF r(2)] by meson
  define s' where "s' = t'\<lparr>g_cnode := lpush (g_cnode t') r', g_cline := lpush (g_cline t') (id_cur_ln t0)\<rparr>"
  have "id_parse_primary (id_parse_unary d) s = Some (Inr (r', s'))"
    using a(1) plain_name_not [OF assms(1)] plain_name_words [OF assms(1)] read_name [OF assms(1) a(1)] v(1,2) r(1) n(1)
    by (simp add: id_parse_primary_def id_pp2_def id_parse_atom_def id_parse_atom2_def id_parse_atom_float_def
        id_parse_atom_bool_def id_parse_atom3_def id_parse_ident_or_call_def id_no_op_atom_def id_finish_atom_def
        id_node_txt_def id_newleaf_def id_parse_call_def id_node_call_def id_call_at_def s'_def doP_def thenP_def)
  moreover have "ahead s' ps" using n(2) by (rule ahead_same) (simp_all add: s'_def)
  moreover have c: "clean t s'" using n(3) by (simp add: clean_def s'_def)
  moreover have "clean s s'" using v(3) r(3) c by (meson clean_adv clean_trans)
  moreover have "denotes (g_nodes s') r' (ECall f xs)"
    using n(4,5) clean_denotes_list [OF n(3) r(4)] by (simp add: s'_def)
  ultimately show "\<exists>r s'. id_parse_primary (id_parse_unary d) s = Some (Inr (r, s')) \<and> ahead s' ps \<and> clean s s'
      \<and> denotes (g_nodes s') r (ECall f xs)" by blast
qed simp

lemma every_direct: "writable e \<Longrightarrow> direct e"
proof (induction e)
  case (EVar f)
  then show ?case
    by (intro direct_atom) (use primary_var in \<open>auto simp: plain_name_def\<close>)
next
  case (ENum ds)
  then show ?case by (intro direct_atom) (use primary_num [OF ENum] in \<open>simp_all del: denotes.simps\<close>)
next
  case (EStr w)
  then show ?case by (intro direct_atom) (use primary_str [OF EStr] in \<open>simp_all del: denotes.simps\<close>)
next
  case (EBool b)
  then show ?case by (intro direct_atom) (use primary_bool in \<open>simp_all del: denotes.simps tok_kind.simps\<close>)
next
  case (EUn op a)
  then show ?case by (intro direct_un operand_of_direct) auto
next
  case (EBin op a b)
  then show ?case by (intro direct_bin operand_of_direct) auto
next
  case (EIndex a b)
  then show ?case by (intro direct_index operand_of_direct) auto
next
  case (EField a f)
  then show ?case by (intro direct_field operand_of_direct) auto
next
  case (ECall f xs)
  then show ?case by (intro direct_call) (auto simp: list_all_iff)
next
  case (EArr xs)
  then show ?case by (intro direct_arr) (auto simp: list_all_iff)
qed

section \<open>The round trip\<close>

text \<open>
  C2: The expression parser inverts the printer of expressions: from the tokens of any tree
  of names, numbers, strings, booleans, prefix and binary operators, index and field
  accesses, calls and array literals, written with only the parentheses the binding levels
  need and followed by a token that does not go on with it, it returns a node that denotes
  that tree (same operators, operands and order, left-associative, 10 levels), stops right
  after the last token, only adds nodes and reports nothing; a nesting bound of the number
  of tokens is enough.
\<close>

theorem id_parse_expr_roundtrip:
  assumes "writable e" "ahead s (map tk (tokens e) @ ps)" "length (tokens e) \<le> n" "follow 11 ps"
  shows "\<exists>r s'. id_parse_expr (id_parse_unary n) s = Some (Inr (r, s')) \<and> ahead s' ps \<and> denotes (g_nodes s') r e
     \<and> (\<exists>ms. g_nodes s' = g_nodes s @ ms) \<and> g_out s' = g_out s \<and> g_chkfail s' = g_chkfail s"
proof -
  obtain d where d: "n = Suc d" using tokens_pos(1) [OF assms(1)] assms(3) by (cases n) auto
  show ?thesis
    using whole_expr [OF every_direct [OF assms(1)] assms(1,2) _ assms(4), of d] assms(3) unfolding d clean_def by blast
qed

text \<open>\<open>f(x)[0] + a * !b.c\<close>, before a semicolon.\<close>

definition small_expr :: expr where
  "small_expr = EBin ''+'' (EIndex (ECall ''f'' [EVar ''x'']) (ENum ''0''))
     (EBin ''*'' (EVar ''a'') (EUn ''!'' (EField (EVar ''b'') ''c'')))"

definition small_toks :: "(string \<times> string) list" where
  "small_toks = map tk (tokens small_expr) @ [(''op'', '';'')]"

lemma small_expr_facts: "writable small_expr" "ahead (with_toks small_toks) small_toks" "length (tokens small_expr) \<le> 14"
  "follow 11 [(''op'', '';'')]"
proof -
  have names: "\<forall>f \<in> {''a'', ''b'', ''c'', ''f'', ''x''}. plain_name f" "tok_ok (TDec ''0'')" by code_simp+
  then show "writable small_expr"
    by (simp add: small_expr_def dec_value_def bin_level_def mulops_def addops_def shiftops_def relops_def unops_def del: tok_ok.simps)
  show "ahead (with_toks small_toks) small_toks" by (simp add: ahead_def with_toks_def pst_init_def)
  show "length (tokens small_expr) \<le> 14"
    by (simp add: small_expr_def paren_if_def bin_level_def mulops_def addops_def shiftops_def relops_def)
  show "follow 11 [(''op'', '';'')]" by (simp add: follow_def mulops_def addops_def shiftops_def relops_def bin_level_def)
qed

theorem id_parse_expr_roundtrip_witness:
  "\<exists>r s'. id_parse_expr (id_parse_unary 14) (with_toks small_toks) = Some (Inr (r, s')) \<and> denotes (g_nodes s') r small_expr
     \<and> id_cur_text s' = '';''"
proof -
  obtain r s' where r: "id_parse_expr (id_parse_unary 14) (with_toks small_toks) = Some (Inr (r, s'))"
    "ahead s' [(''op'', '';'')]" "denotes (g_nodes s') r small_expr"
    using id_parse_expr_roundtrip [OF small_expr_facts(1) small_expr_facts(2) [unfolded small_toks_def] small_expr_facts(3,4)]
    unfolding small_toks_def by blast
  have "id_cur_text s' = '';''" using ahead_text [OF r(2)] by simp
  then show ?thesis using r(1,3) by blast
qed

end
