(* ===== verification/FrontEnd.thy ===== *)
theory FrontEnd
  imports LoadSpec ParseTree
begin

text \<open>
  The parts of the front end put together: source text through the lexer, its lines through the
  loader, the loaded tokens through the expression parser.
\<close>

section \<open>The tokens of a tree can be written\<close>

lemma ops_ok: "\<forall>op \<in> set (mulops @ addops @ shiftops @ relops @ unops @ [''&'', ''^'', ''|'', ''&&'', ''||'']). tok_ok (op_tok op)"
  by code_simp

lemma punct_ok: "tok_ok lpar" "tok_ok rpar" "tok_ok lbrk" "tok_ok rbrk" "tok_ok comma" "tok_ok (TOp (CHR ''.''))"
  "tok_ok (TWord ''true'')" "tok_ok (TWord ''false'')"
  by code_simp+

lemma bin_op_ok: "bin_level op \<noteq> 0 \<Longrightarrow> tok_ok (op_tok op)"
  using ops_ok by (auto simp: bin_level_def split: if_splits)

lemma un_op_ok: "op \<in> set unops \<Longrightarrow> tok_ok (op_tok op)"
  using ops_ok by auto

lemma paren_if_ok: "list_all tok_ok (paren_if b ts) \<longleftrightarrow> list_all tok_ok ts"
  using punct_ok by (simp add: paren_if_def del: tok_ok.simps)

lemma commas_ok: "\<forall>ts \<in> set tss. list_all tok_ok ts \<Longrightarrow> list_all tok_ok (commas tss)"
proof (induction tss rule: induct_list012)
  case (3 ts us tss)
  then show ?case using punct_ok(5) by (simp del: tok_ok.simps)
qed simp_all

lemma tokens_ok: "writable e \<Longrightarrow> list_all tok_ok (tokens e)"
proof (induction e)
  case (ECall f xs)
  then have "list_all tok_ok (commas (map tokens xs))" by (intro commas_ok) (auto simp: list_all_iff simp del: tok_ok.simps)
  then show ?case using ECall.prems punct_ok by (simp add: plain_name_def del: tok_ok.simps)
next
  case (EArr xs)
  then have "list_all tok_ok (commas (map tokens xs))" by (intro commas_ok) (auto simp: list_all_iff simp del: tok_ok.simps)
  then show ?case using punct_ok by (simp del: tok_ok.simps)
qed (use punct_ok bin_op_ok un_op_ok in \<open>simp_all add: paren_if_ok plain_name_def del: tok_ok.simps\<close>)

section \<open>From source text to a tree\<close>

lemma items_ok_toks: "items_ok is \<longleftrightarrow> list_all tok_ok (toks is)"
  by (induction "is" rule: items_ok.induct) (simp_all del: tok_ok.simps)

lemma tok_lines_length: "length (tok_lines k is) = length (toks is)"
  by (induction k "is" rule: tok_lines.induct) simp_all

lemma ahead_start:
  assumes "l_kind L = map tok_kind ts @ [''eof'']" "l_text L = map tok_text ts @ ['''']"
  shows "ahead (start L) (map tk ts @ [(''eof'', '''')])"
  using assms by (simp add: ahead_def start_def pst_init_def)

lemma unlines_app: "unlines (ls @ ms) = unlines ls @ unlines ms"
  by (induction ls) simp_all

lemma int_text_length: "length (int_text k) \<le> 20"
proof -
  let ?x = "scast (word_of_int k :: w32) :: w64"
  have "length (dec_str (nat (- sint ?x))) \<le> 19" "length (dec_str (nat (sint ?x))) \<le> 19"
    using sint64_range [of ?x] by (auto intro!: dec_str_length)
  then show ?thesis by (simp add: int_text_def id_str_of_int_def id_str_of_word_text)
qed

lemma expected_length: "length (unlines (expected k is)) \<le> 26 * length (source is)"
proof (induction k "is" rule: expected.induct)
  case (2 k t "is")
  have "length (tok_kind t) \<le> 5" by (cases t) auto
  then show ?case using 2 by (simp add: tok_line_rec)
next
  case (3 k "is")
  then show ?case using int_text_length [of "k + 1"] by simp
qed simp


definition small_items :: "item list" where
  "small_items = map Tok (take 6 (tokens small_expr)) @ Newline # map Tok (drop 6 (tokens small_expr)) @ [Newline, Tok (TOp (CHR '';''))]"

lemma small_expr_tokens: "tokens small_expr = [TWord ''f'', lpar, TWord ''x'', rpar, lbrk, TDec ''0'', rbrk, TOp (CHR ''+''),
    TWord ''a'', TOp (CHR ''*''), TOp (CHR ''!''), TWord ''b'', TOp (CHR ''.''), TWord ''c'']"
  by (simp add: small_expr_def paren_if_def op_tok_def bin_level_def mulops_def addops_def shiftops_def relops_def)


end
