(* ===== verification/Names.thy ===== *)
theory Names
  imports ParseCore
begin

text \<open>
  The index of function names: the parallel lists \<open>fnames\<close>, \<open>frets\<close> and \<open>fnodes\<close>, and 251
  buckets \<open>fidx\<close> of positions in them, found by a hash of the name. A later function of the
  same name hides an earlier one. The index is shown to answer like the linear search.
\<close>

section \<open>State\<close>

record syms =
  y_names :: "string list"
  y_rets :: "string list"
  y_nodes :: "int list"
  y_idx :: "int list list"

definition idx_n :: int where
  "idx_n = 251"

function push_buckets_loop :: "int list list \<Rightarrow> int \<Rightarrow> int list list" where
  "push_buckets_loop bs i = (if i < idx_n then push_buckets_loop (lpush bs []) (i + 1) else bs)"
  by pat_completeness auto
termination by (relation "measure (\<lambda>(bs, i). nat (idx_n - i))") (auto simp: idx_n_def)

declare push_buckets_loop.simps [simp del]

definition id_init_idx :: syms where
  "id_init_idx = \<lparr>y_names = [], y_rets = [], y_nodes = [], y_idx = push_buckets_loop [] 0\<rparr>"

section \<open>Operations\<close>

definition id_hash_step :: "int \<Rightarrow> int \<Rightarrow> int res" where
  "id_hash_step hv c = c_imod (wrap32 (hv * 31 + c)) 65536"

function id_hash_loop :: "string \<Rightarrow> int \<Rightarrow> int \<Rightarrow> int res" where
  "id_hash_loop s i hv =
     (if i < id_len s then andThen (id_hash_step hv (code_at s i)) (\<lambda>hv. id_hash_loop s (i + 1) hv) else Inr hv)"
  by pat_completeness auto
termination by (relation "measure (\<lambda>(s, i, hv). nat (id_len s - i))") auto

declare id_hash_loop.simps [simp del]

definition id_name_bucket :: "string \<Rightarrow> int res" where
  "id_name_bucket s = andThen (id_hash_loop s 0 0) (\<lambda>hv. c_imod hv idx_n)"

definition id_ix_hit :: "string list \<Rightarrow> int list \<Rightarrow> int \<Rightarrow> string \<Rightarrow> int \<Rightarrow> int res" where
  "id_ix_hit names bucket i name found =
     andThen (lget bucket i) (\<lambda>b. andThen (lget names b) (\<lambda>x. Inr (if x = name then b else found)))"

function find_ix_loop :: "string list \<Rightarrow> int list \<Rightarrow> string \<Rightarrow> int \<Rightarrow> int \<Rightarrow> int res" where
  "find_ix_loop names bucket name i found =
     (if i \<ge> 0
      then andThen (id_ix_hit names bucket i name found) (\<lambda>found.
           andThen (lget bucket i) (\<lambda>b.
             if found = b then Inr found else find_ix_loop names bucket name (i - 1) found))
      else Inr found)"
  by pat_completeness auto
termination by (relation "measure (\<lambda>(names, bucket, name, i, found). nat (i + 1))") auto

declare find_ix_loop.simps [simp del]

definition id_find_ix :: "string list \<Rightarrow> int list \<Rightarrow> string \<Rightarrow> int res" where
  "id_find_ix names bucket name = find_ix_loop names bucket name (llen bucket - 1) (0 - 1)"

definition id_fidx_push :: "int \<Rightarrow> int \<Rightarrow> string \<Rightarrow> syms \<Rightarrow> syms res" where
  "id_fidx_push slot len name y =
     andThen (lget (y_idx y) slot) (\<lambda>b.
     andThen (lset (y_idx y) slot (lpush b len)) (\<lambda>bs.
       Inr (y\<lparr>y_idx := bs, y_names := lpush (y_names y) name\<rparr>)))"

definition id_fidx_add :: "string \<Rightarrow> syms \<Rightarrow> syms res" where
  "id_fidx_add name y = andThen (id_name_bucket name) (\<lambda>b. id_fidx_push b (llen (y_names y)) name y)"

definition id_add_func :: "string \<Rightarrow> string \<Rightarrow> int \<Rightarrow> syms \<Rightarrow> syms res" where
  "id_add_func name ret i y =
     id_fidx_add name (y\<lparr>y_rets := lpush (y_rets y) ret, y_nodes := lpush (y_nodes y) i\<rparr>)"

definition id_sym_func :: "node list \<Rightarrow> int \<Rightarrow> syms \<Rightarrow> syms res" where
  "id_sym_func ns i y =
     andThen (lget ns i) (\<lambda>n. if n_kind n = ''func'' then id_add_func (n_s1 n) (n_s2 n) i y else Inr y)"

definition id_fn_node_at :: "syms \<Rightarrow> int \<Rightarrow> int res" where
  "id_fn_node_at y idx = (if idx \<ge> 0 then lget (y_nodes y) idx else Inr (0 - 1))"

definition id_fn_node_of :: "syms \<Rightarrow> string \<Rightarrow> int res" where
  "id_fn_node_of y name =
     andThen (id_name_bucket name) (\<lambda>b.
     andThen (lget (y_idx y) b) (\<lambda>bucket.
     andThen (id_find_ix (y_names y) bucket name) (\<lambda>idx. id_fn_node_at y idx)))"

section \<open>The index answers like a search of all names\<close>

definition bucket_of :: "string \<Rightarrow> nat" where
  "bucket_of s = nat (case id_name_bucket s of Inr b \<Rightarrow> b | Inl _ \<Rightarrow> 0)"

lemma hash_step_ok:
  assumes "0 \<le> hv" "hv < 65536" "0 \<le> c" "c < 256"
  shows "\<exists>h. id_hash_step hv c = Inr h \<and> 0 \<le> h \<and> h < 65536"
proof -
  have "wrap32 (hv * 31 + c) = hv * 31 + c" using assms by (intro wrap32_small) (auto simp: INT_MAX_def)
  then have "id_hash_step hv c = Inr ((hv * 31 + c) mod 65536)"
    using assms by (simp add: id_hash_step_def c_imod_nat INT_MAX_def)
  then show ?thesis by simp
qed

lemma code_at_byte: "0 \<le> i \<Longrightarrow> i < int (length s) \<Longrightarrow> 0 \<le> code_at s i \<and> code_at s i < 256"
  using code_at_in [of i s] code_at_range [of s i] by auto

lemma id_len_le: "id_len s \<le> int (length s)"
proof (cases "int (length s) \<le> INT_MAX")
  case True
  then show ?thesis by (simp add: id_len_def id_slen_def wrap32_small)
next
  case False
  then show ?thesis using wrap32_range [of "int (length s)"] by (simp add: id_len_def id_slen_def INT_MAX_def)
qed

lemma hash_loop_ok: "0 \<le> i \<Longrightarrow> 0 \<le> hv \<Longrightarrow> hv < 65536 \<Longrightarrow> \<exists>h. id_hash_loop s i hv = Inr h \<and> 0 \<le> h \<and> h < 65536"
proof (induction s i hv rule: id_hash_loop.induct)
  case (1 s i hv)
  show ?case
  proof (cases "i < id_len s")
    case True
    then have "i < int (length s)" using id_len_le [of s] by linarith
    then obtain h where h: "id_hash_step hv (code_at s i) = Inr h" "0 \<le> h" "h < 65536"
      using hash_step_ok [OF "1.prems"(2,3)] code_at_byte [OF "1.prems"(1)] by blast
    then show ?thesis using "1.IH" [OF True h(1)] True "1.prems"(1) by (subst id_hash_loop.simps) simp
  next
    case False
    then show ?thesis using 1 by (subst id_hash_loop.simps) simp
  qed
qed

lemma name_bucket: "id_name_bucket s = Inr (int (bucket_of s)) \<and> bucket_of s < 251"
proof -
  obtain h where h: "id_hash_loop s 0 0 = Inr h" "0 \<le> h" "h < 65536" using hash_loop_ok [of 0 0 s] by auto
  then have "id_name_bucket s = Inr (h mod 251)" by (simp add: id_name_bucket_def idx_n_def c_imod_nat INT_MAX_def)
  moreover have "0 \<le> h mod 251 \<and> h mod 251 < 251" by simp
  ultimately show ?thesis by (simp add: bucket_of_def)
qed

definition last_of :: "nat list \<Rightarrow> string list \<Rightarrow> string \<Rightarrow> int" where
  "last_of js names name = (case find (\<lambda>j. names ! j = name) (rev js) of Some j \<Rightarrow> int j | None \<Rightarrow> - 1)"

lemma find_member: "find P xs = Some x \<Longrightarrow> x \<in> set xs"
  by (induction xs) (auto split: if_splits)

lemma last_of_less: "last_of [0..<n] names name < int n"
  using find_member [of _ "rev [0..<n]"] by (fastforce simp: last_of_def split: option.splits)

lemma find_ix_last:
  assumes "\<forall>j \<in> set js. j < length names" "n \<le> length js"
  shows "find_ix_loop names (map int js) name (int n - 1) (- 1) = Inr (last_of (take n js) names name)"
  using assms(2)
proof (induction n)
  case 0
  then show ?case by (subst find_ix_loop.simps) (simp add: last_of_def)
next
  case (Suc n)
  then have n: "n < length js" "js ! n < length names" using assms(1) by simp_all
  have t: "take (Suc n) js = take n js @ [js ! n]" using n by (simp add: take_Suc_conv_app_nth)
  have "id_ix_hit names (map int js) (int n) name (- 1) = Inr (if names ! (js ! n) = name then int (js ! n) else - 1)"
    using n by (simp add: id_ix_hit_def)
  then show ?case using Suc n by (subst find_ix_loop.simps) (simp add: t last_of_def)
qed

lemma find_str_last: "n \<le> length names \<Longrightarrow> find_str_loop names name (int n - 1) (- 1) = Inr (last_of [0..<n] names name)"
proof (induction n)
  case 0
  then show ?case by (subst find_str_loop.simps) (simp add: last_of_def)
next
  case (Suc n)
  then show ?case by (subst find_str_loop.simps) (simp add: id_match_idx_def last_of_def)
qed

definition names_inv :: "syms \<Rightarrow> bool" where
  "names_inv y \<longleftrightarrow> length (y_idx y) = 251 \<and> length (y_nodes y) = length (y_names y)
     \<and> (\<forall>b < 251. y_idx y ! b = map int (filter (\<lambda>j. bucket_of (y_names y ! j) = b) [0..<length (y_names y)]))"

lemma find_some_filter: "(\<And>x. P x \<Longrightarrow> Q x) \<Longrightarrow> find P (filter Q xs) = find P xs"
  by (induction xs) auto

lemma fn_node_last:
  assumes "names_inv y"
  shows "id_fn_node_of y name = id_fn_node_at y (last_of [0..<length (y_names y)] (y_names y) name)"
proof -
  let ?b = "bucket_of name" and ?names = "y_names y"
  let ?js = "filter (\<lambda>j. bucket_of (?names ! j) = ?b) [0..<length ?names]"
  have b: "id_name_bucket name = Inr (int ?b)" "?b < 251" using name_bucket by auto
  have i: "lget (y_idx y) (int ?b) = Inr (map int ?js)" using assms b(2) by (simp add: names_inv_def)
  have "id_find_ix ?names (map int ?js) name = Inr (last_of ?js ?names name)"
    using find_ix_last [of ?js ?names "length ?js" name] by (simp add: id_find_ix_def llen_def)
  moreover have "last_of ?js ?names name = last_of [0..<length ?names] ?names name"
    unfolding last_of_def rev_filter by (subst find_some_filter) auto
  ultimately show ?thesis using b i by (simp add: id_fn_node_of_def)
qed

lemma init_idx_inv: "names_inv id_init_idx"
proof -
  have "n \<le> 251 \<Longrightarrow> push_buckets_loop bs (251 - int n) = bs @ replicate n []" for bs n
  proof (induction n arbitrary: bs)
    case 0
    then show ?case by (subst push_buckets_loop.simps) (simp add: idx_n_def)
  next
    case (Suc n)
    then show ?case by (subst push_buckets_loop.simps) (simp add: idx_n_def lpush_def algebra_simps)
  qed
  from this [of 251 "[]"] show ?thesis by (simp add: names_inv_def id_init_idx_def)
qed

lemma add_func_inv:
  assumes "names_inv y"
  shows "\<exists>y'. id_add_func name ret i y = Inr y' \<and> names_inv y' \<and> y_names y' = y_names y @ [name] \<and> y_nodes y' = y_nodes y @ [i]"
proof -
  let ?b = "bucket_of name"
  have b: "id_name_bucket name = Inr (int ?b)" "?b < 251" using name_bucket by auto
  have l: "length (y_idx y) = 251" using assms by (simp add: names_inv_def)
  let ?y = "y\<lparr>y_rets := y_rets y @ [ret], y_nodes := y_nodes y @ [i],
     y_idx := (y_idx y)[?b := y_idx y ! ?b @ [int (length (y_names y))]], y_names := y_names y @ [name]\<rparr>"
  have "id_add_func name ret i y = Inr ?y"
    using b l by (simp add: id_add_func_def id_fidx_add_def id_fidx_push_def lpush_def llen_def)
  moreover have "names_inv ?y"
    unfolding names_inv_def
  proof (intro conjI allI impI)
    fix c :: nat assume c: "c < 251"
    have f: "filter (\<lambda>j. bucket_of ((y_names y @ [name]) ! j) = c) [0..<length (y_names y)]
        = filter (\<lambda>j. bucket_of (y_names y ! j) = c) [0..<length (y_names y)]"
      by (rule filter_cong) (auto simp: nth_append)
    show "y_idx ?y ! c = map int (filter (\<lambda>j. bucket_of (y_names ?y ! j) = c) [0..<length (y_names ?y)])"
      using assms b(2) c l f by (cases "c = ?b") (auto simp: names_inv_def)
  qed (use assms in \<open>auto simp: names_inv_def\<close>)
  ultimately show ?thesis by auto
qed

text \<open>
  C29: The hashed index of function names answers like a search of the whole name list from
  its end, and entering a function makes it the answer for its name and changes no other
  answer.
\<close>

theorem id_fn_node_of_linear:
  assumes "names_inv y"
  shows "id_fn_node_of y name = andThen (id_find_str (y_names y) name) (id_fn_node_at y)
     \<and> (\<exists>y'. id_add_func g ret i y = Inr y' \<and> names_inv y'
          \<and> id_fn_node_of y' name = (if name = g then Inr i else id_fn_node_of y name))"
proof
  let ?n = "y_names y"
  show "id_fn_node_of y name = andThen (id_find_str ?n name) (id_fn_node_at y)"
    using find_str_last [of "length ?n" ?n name] fn_node_last [OF assms] by (simp add: id_find_str_def llen_def)
  obtain y' where y': "id_add_func g ret i y = Inr y'" "names_inv y'" "y_names y' = ?n @ [g]" "y_nodes y' = y_nodes y @ [i]"
    using add_func_inv [OF assms] by blast
  have l: "length (y_nodes y) = length ?n" using assms by (simp add: names_inv_def)
  have c: "find (\<lambda>j. (?n @ [g]) ! j = name) (rev [0..<length ?n]) = find (\<lambda>j. ?n ! j = name) (rev [0..<length ?n])"
    by (rule find_cong) (auto simp: nth_append)
  have "id_fn_node_of y' name = (if name = g then Inr i else id_fn_node_of y name)"
  proof (cases "name = g")
    case True
    have "(y_nodes y @ [i]) ! length ?n = i" using l by (metis nth_append_length)
    then show ?thesis using True l unfolding fn_node_last [OF y'(2)]
      by (simp add: y'(3,4) last_of_def id_fn_node_at_def)
  next
    case False
    have "last_of [0..<length (y_names y')] (y_names y') name = last_of [0..<length ?n] ?n name"
      using False by (simp add: y'(3) last_of_def c)
    moreover have "last_of [0..<length ?n] ?n name < int (length ?n)" by (rule last_of_less)
    ultimately show ?thesis using False l
      unfolding fn_node_last [OF y'(2)] fn_node_last [OF assms] by (auto simp: id_fn_node_at_def y'(4) lget_def nth_append)
  qed
  then show "\<exists>y'. id_add_func g ret i y = Inr y' \<and> names_inv y'
     \<and> id_fn_node_of y' name = (if name = g then Inr i else id_fn_node_of y name)" using y' by blast
qed

theorem id_fn_node_of_linear_witness:
  "\<exists>y'. id_add_func ''f'' ''int'' 5 id_init_idx = Inr y' \<and> id_fn_node_of y' ''f'' = Inr 5"
  using id_fn_node_of_linear [OF init_idx_inv, of "''f''" "''f''" "''int''" 5] by auto

end
