(* ===== verification/Canon.thy ===== *)
theory Canon
  imports Names
begin

text \<open>
  The canonical text of expressions, statements and functions. The compiler compares these
  texts to find functions with the same logic, and evaluates constants with them. Locals are
  numbered in the order they occur (\<open>cnames\<close>), imports likewise (\<open>cimps\<close>), the function's own
  name is \<open>self\<close> (\<open>cself\<close>), arithmetic on two literals is computed and operands that change
  nothing are dropped. With \<open>cloose\<close> set, literals lose their value. The nodes and the function
  index are only read. The recursion over nodes has no bound in the code; here it has one.
\<close>

section \<open>State\<close>

record cst =
  c_self :: string
  c_names :: "string list"
  c_imps :: "string list"
  c_loose :: int

type_synonym 'a canon = "cst \<Rightarrow> ('a \<times> cst) run"

definition giveC :: "'a \<Rightarrow> 'a canon" where
  "giveC x s = Some (Inr (x, s))"

definition thenC :: "'a canon \<Rightarrow> ('a \<Rightarrow> 'b canon) \<Rightarrow> 'b canon" where
  "thenC m f s = thenRun (m s) (\<lambda>(x, s). f x s)"

definition resC :: "'a res \<Rightarrow> 'a canon" where
  "resC r s = thenRun (Some r) (\<lambda>x. Some (Inr (x, s)))"

lemma canon_simps [simp]:
  "thenC m f s = thenRun (m s) (\<lambda>(x, s). f x s)" "giveC x s = Some (Inr (x, s))" "resC (Inr x) s = Some (Inr (x, s))"
  "resC (Inl t) s = Some (Inl t)"
  by (simp_all add: thenC_def giveC_def resC_def)

definition id_uq_begin :: "string \<Rightarrow> unit canon" where
  "id_uq_begin name s = Some (Inr ((), s\<lparr>c_self := name, c_names := [], c_imps := []\<rparr>))"

definition id_cn_add :: "string \<Rightarrow> int canon" where
  "id_cn_add name s = (let ns = lpush (c_names s) name in Some (Inr (llen ns - 1, s\<lparr>c_names := ns\<rparr>)))"

definition id_cn :: "string \<Rightarrow> string canon" where
  "id_cn name s =
     thenRun (Some (id_find_str (c_names s) name)) (\<lambda>idx.
     thenC (if idx < 0 then id_cn_add name else giveC idx) (\<lambda>idx. giveC (int_text idx)) s)"

definition id_imp_pos :: "string \<Rightarrow> int canon" where
  "id_imp_pos key s =
     thenRun (Some (id_find_str (c_imps s) key)) (\<lambda>idx.
       if idx < 0 then let im = lpush (c_imps s) key in Some (Inr (llen im - 1, s\<lparr>c_imps := im\<rparr>))
       else Some (Inr (idx, s)))"

definition id_imp_fp :: "node list \<Rightarrow> int \<Rightarrow> string canon" where
  "id_imp_fp ns i =
     thenC (resC (lget ns i)) (\<lambda>n. thenC (id_imp_pos (n_s1 n)) (\<lambda>k. giveC (''g('' @ int_text k @ '')'')))"

section \<open>Arithmetic on two literals\<close>

text \<open>The operands are 32-bit. The empty text stands for no result.\<close>

definition id_compute_or :: "int \<Rightarrow> int \<Rightarrow> string" where
  "id_compute_or a b = ''I'' @ int_text (a OR b)"

definition id_compute_xor :: "int \<Rightarrow> int \<Rightarrow> string" where
  "id_compute_xor a b = ''I'' @ int_text (a XOR b)"

definition id_compute_and :: "int \<Rightarrow> int \<Rightarrow> string" where
  "id_compute_and a b = ''I'' @ int_text (a AND b)"

definition id_compute_shr :: "int \<Rightarrow> int \<Rightarrow> string res" where
  "id_compute_shr a b =
     andThen (id_sar (word_of_int a) (word_of_int b)) (\<lambda>r. Inr (''I'' @ int_text (wrap32 (sint r))))"

definition id_shl_word :: "int \<Rightarrow> int \<Rightarrow> int res" where
  "id_shl_word a b = andThen (id_shl (word_of_int a) (word_of_int b)) (\<lambda>r. Inr (sint r))"

definition id_mul_word :: "int \<Rightarrow> int \<Rightarrow> int" where
  "id_mul_word a b = sint ((word_of_int a :: w64) * word_of_int b)"

definition id_fold_word :: "int \<Rightarrow> string" where
  "id_fold_word wv = (if wv \<le> 2147483647 then ''I'' @ int_text (wrap32 wv) else '''')"

definition id_compute_shl :: "int \<Rightarrow> int \<Rightarrow> string res" where
  "id_compute_shl a b = (if b < 32 then andThen (id_shl_word a b) (\<lambda>r. Inr (id_fold_word r)) else Inr '''')"

definition id_compute_add :: "int \<Rightarrow> int \<Rightarrow> string" where
  "id_compute_add a b = (if a \<le> wrap32 (2147483647 - b) then ''I'' @ int_text (wrap32 (a + b)) else '''')"

definition id_compute_sub :: "int \<Rightarrow> int \<Rightarrow> string" where
  "id_compute_sub a b = ''I'' @ int_text (wrap32 (a - b))"

definition id_compute_mul :: "int \<Rightarrow> int \<Rightarrow> string" where
  "id_compute_mul a b = id_fold_word (id_mul_word a b)"

definition id_compute_div :: "int \<Rightarrow> int \<Rightarrow> string res" where
  "id_compute_div a b = (if b \<noteq> 0 then andThen (c_idiv a b) (\<lambda>n. Inr (''I'' @ int_text n)) else Inr '''')"

definition id_compute_mod :: "int \<Rightarrow> int \<Rightarrow> string res" where
  "id_compute_mod a b = (if b \<noteq> 0 then andThen (c_imod a b) (\<lambda>n. Inr (''I'' @ int_text n)) else Inr '''')"

definition id_fold_op5 :: "string \<Rightarrow> int \<Rightarrow> int \<Rightarrow> string res" where
  "id_fold_op5 op a b =
     (if op = ''<<'' then id_compute_shl a b else if op = ''>>'' then id_compute_shr a b else Inr '''')"

definition id_fold_op4 :: "string \<Rightarrow> int \<Rightarrow> int \<Rightarrow> string res" where
  "id_fold_op4 op a b =
     andThen (id_fold_op5 op a b) (\<lambda>r.
       if op = ''|'' then Inr (id_compute_or a b) else if op = ''^'' then Inr (id_compute_xor a b) else Inr r)"

definition id_fold_op3 :: "string \<Rightarrow> int \<Rightarrow> int \<Rightarrow> string res" where
  "id_fold_op3 op a b =
     andThen (id_fold_op4 op a b) (\<lambda>r.
       if op = ''%'' then id_compute_mod a b else if op = ''&'' then Inr (id_compute_and a b) else Inr r)"

definition id_fold_op2 :: "string \<Rightarrow> int \<Rightarrow> int \<Rightarrow> string res" where
  "id_fold_op2 op a b =
     andThen (id_fold_op3 op a b) (\<lambda>r.
       if op = ''*'' then Inr (id_compute_mul a b) else if op = ''/'' then id_compute_div a b else Inr r)"

definition id_fold_op :: "string \<Rightarrow> int \<Rightarrow> int \<Rightarrow> string res" where
  "id_fold_op op a b =
     andThen (id_fold_op2 op a b) (\<lambda>r.
       if op = ''+'' then Inr (id_compute_add a b) else if op = ''-'' then Inr (id_compute_sub a b) else Inr r)"

definition id_bin_fold2 :: "node list \<Rightarrow> string \<Rightarrow> int \<Rightarrow> int \<Rightarrow> string res" where
  "id_bin_fold2 ns op lid rid =
     andThen (lget ns lid) (\<lambda>l. andThen (lget ns rid) (\<lambda>r.
       if n_i2 l = 0 \<and> n_i2 r = 0 then id_fold_op op (n_i1 l) (n_i1 r) else Inr ''''))"

section \<open>Expressions\<close>

text \<open>\<open>u\<close> is the canonical text of a node below.\<close>

type_synonym sub = "int \<Rightarrow> string canon"

definition id_sep_at :: "string \<Rightarrow> int \<Rightarrow> string" where
  "id_sep_at s i = (if i > 0 then s else '''')"

definition id_lit_val :: "string \<Rightarrow> string \<Rightarrow> string canon" where
  "id_lit_val tag spell s = Some (Inr (if c_loose s = 1 then tag else tag @ spell, s))"

definition id_lit_is :: "node list \<Rightarrow> int \<Rightarrow> int \<Rightarrow> bool res" where
  "id_lit_is ns i v = andThen (lget ns i) (\<lambda>n. Inr (n_kind n = ''int'' \<and> n_i1 n = v))"

definition id_ident_zero_sym :: "node list \<Rightarrow> sub \<Rightarrow> string \<Rightarrow> int \<Rightarrow> int \<Rightarrow> string canon" where
  "id_ident_zero_sym ns u op lid rid =
     (if op = ''+'' \<or> op = ''|'' \<or> op = ''^''
      then thenC (resC (id_lit_is ns rid 0)) (\<lambda>z.
           thenC (if z then u lid else giveC '''') (\<lambda>r.
           thenC (resC (id_lit_is ns lid 0)) (\<lambda>z. if z then u rid else giveC r)))
      else giveC '''')"

definition id_ident_zero_right :: "node list \<Rightarrow> sub \<Rightarrow> string \<Rightarrow> int \<Rightarrow> int \<Rightarrow> string canon" where
  "id_ident_zero_right ns u op lid rid =
     (if op = ''-'' \<or> op = ''<<'' \<or> op = ''>>''
      then thenC (resC (id_lit_is ns rid 0)) (\<lambda>z. if z then u lid else giveC '''')
      else giveC '''')"

definition id_ident_one :: "node list \<Rightarrow> sub \<Rightarrow> string \<Rightarrow> int \<Rightarrow> int \<Rightarrow> string canon" where
  "id_ident_one ns u op lid rid =
     thenC (if op = ''*'' \<or> op = ''/'' then resC (id_lit_is ns rid 1) else giveC False) (\<lambda>z.
     thenC (if z then u lid else giveC '''') (\<lambda>r.
     thenC (if op = ''*'' then resC (id_lit_is ns lid 1) else giveC False) (\<lambda>z. if z then u rid else giveC r)))"

definition id_bin_identity :: "node list \<Rightarrow> sub \<Rightarrow> string \<Rightarrow> int \<Rightarrow> int \<Rightarrow> string canon" where
  "id_bin_identity ns u op lid rid =
     thenC (id_ident_zero_sym ns u op lid rid) (\<lambda>r.
     thenC (if r = '''' then id_ident_zero_right ns u op lid rid else giveC r) (\<lambda>r.
       if r = '''' then id_ident_one ns u op lid rid else giveC r))"

definition id_bin_simplify :: "node list \<Rightarrow> sub \<Rightarrow> int \<Rightarrow> string \<Rightarrow> string canon" where
  "id_bin_simplify ns u i op s =
     thenC (resC (lget ns i)) (\<lambda>n.
     thenC (resC (lget ns (n_i1 n))) (\<lambda>l.
     thenC (resC (lget ns (n_i2 n))) (\<lambda>r.
     thenC (if (n_kind l = ''int'' \<and> n_kind r = ''int'') \<and> c_loose s = 0
            then resC (id_bin_fold2 ns op (n_i1 n) (n_i2 n)) else giveC '''') (\<lambda>t.
       if t = '''' \<and> c_loose s = 0 then id_bin_identity ns u op (n_i1 n) (n_i2 n) else giveC t)))) s"

definition id_canon_pair :: "sub \<Rightarrow> int \<Rightarrow> int \<Rightarrow> string canon" where
  "id_canon_pair u a b = thenC (u a) (\<lambda>x. thenC (u b) (\<lambda>y. giveC (''('' @ x @ '','' @ y @ '')'')))"

definition id_bin_pair :: "node list \<Rightarrow> sub \<Rightarrow> int \<Rightarrow> string canon" where
  "id_bin_pair ns u i = thenC (resC (lget ns i)) (\<lambda>n. id_canon_pair u (n_i1 n) (n_i2 n))"

definition id_bin_op :: "node list \<Rightarrow> int \<Rightarrow> string res" where
  "id_bin_op ns i = andThen (lget ns i) (\<lambda>n. Inr (if n_s1 n = ''='' then ''=='' else n_s1 n))"

definition id_canon_bin :: "node list \<Rightarrow> sub \<Rightarrow> int \<Rightarrow> string canon" where
  "id_canon_bin ns u i =
     thenC (resC (id_bin_op ns i)) (\<lambda>op.
     thenC (id_bin_simplify ns u i op) (\<lambda>simple.
       if simple = '''' then thenC (id_bin_pair ns u i) (\<lambda>pair. giveC (''b'' @ op @ pair)) else giveC simple))"

text \<open>\<open>canon_args_from k\<close> is the loop of \<open>id_canon_args\<close> from argument \<open>k\<close> on.\<close>

fun canon_args_from :: "sub \<Rightarrow> int \<Rightarrow> int list \<Rightarrow> string \<Rightarrow> string canon" where
  "canon_args_from u k [] out = giveC out"
| "canon_args_from u k (a # as) out = thenC (u a) (\<lambda>t. canon_args_from u (k + 1) as (out @ id_sep_at '','' k @ t))"

definition id_canon_args :: "sub \<Rightarrow> int list \<Rightarrow> string canon" where
  "id_canon_args u as = canon_args_from u 0 as ''''"

definition id_canon_callee :: "string \<Rightarrow> string canon" where
  "id_canon_callee name s =
     thenRun (Some (id_find_str (c_names s) name)) (\<lambda>k.
       if k \<ge> 0 then thenC (id_cn name) (\<lambda>t. giveC (''v'' @ t)) s
       else Some (Inr (if name = c_self s then ''self'' else name, s)))"

definition id_call_fp :: "node list \<Rightarrow> sub \<Rightarrow> int \<Rightarrow> string canon" where
  "id_call_fp ns u i =
     thenC (resC (lget ns i)) (\<lambda>n.
     thenC (id_canon_callee (n_s1 n)) (\<lambda>f.
     thenC (id_canon_args u (n_l1 n)) (\<lambda>as.
     thenC (if n_s1 n = ''ushr'' \<and> llen (n_l1 n) = 2
            then thenC (resC (lget (n_l1 n) 1)) (\<lambda>b. resC (id_lit_is ns b 0)) else giveC False) (\<lambda>z.
       if z then thenC (resC (lget (n_l1 n) 0)) u else giveC (''c('' @ f @ '':'' @ as @ '')'')))))"

definition id_is_fn_value :: "node list \<Rightarrow> syms \<Rightarrow> int \<Rightarrow> bool res" where
  "id_is_fn_value ns y i =
     andThen (lget ns i) (\<lambda>n. if n_kind n = ''var'' then andThen (id_fn_node_of y (n_s1 n)) (\<lambda>k. Inr (k \<ge> 0)) else Inr False)"

definition id_canon_var :: "node list \<Rightarrow> syms \<Rightarrow> int \<Rightarrow> string canon" where
  "id_canon_var ns y i =
     thenC (resC (lget ns i)) (\<lambda>n.
     thenC (id_canon_callee (n_s1 n)) (\<lambda>f.
     thenC (resC (id_is_fn_value ns y i)) (\<lambda>fv.
       if fv then giveC (''fv('' @ f @ '')'') else thenC (id_cn (n_s1 n)) (\<lambda>k. giveC (''v'' @ k)))))"

definition id_ce5 :: "node list \<Rightarrow> sub \<Rightarrow> int \<Rightarrow> string canon" where
  "id_ce5 ns u i =
     thenC (resC (lget ns i)) (\<lambda>n.
       if n_kind n = ''call'' then id_call_fp ns u i
       else if n_kind n = ''arr'' then thenC (id_canon_args u (n_l1 n)) (\<lambda>t. giveC (''ar('' @ t @ '')''))
       else giveC (''?'' @ n_kind n @ ''#'' @ int_text i))"

definition id_ce4 :: "node list \<Rightarrow> sub \<Rightarrow> int \<Rightarrow> string canon" where
  "id_ce4 ns u i =
     thenC (id_ce5 ns u i) (\<lambda>out.
     thenC (resC (lget ns i)) (\<lambda>n.
       if n_kind n = ''un'' then thenC (u (n_i1 n)) (\<lambda>t. giveC (''u'' @ n_s1 n @ ''('' @ t @ '')''))
       else if n_kind n = ''index'' then thenC (id_canon_pair u (n_i1 n) (n_i2 n)) (\<lambda>t. giveC (''ix'' @ t))
       else giveC out))"

definition id_ce3 :: "node list \<Rightarrow> sub \<Rightarrow> int \<Rightarrow> string canon" where
  "id_ce3 ns u i =
     thenC (id_ce4 ns u i) (\<lambda>out.
     thenC (resC (lget ns i)) (\<lambda>n.
       if n_kind n = ''import'' then id_imp_fp ns i else if n_kind n = ''bin'' then id_canon_bin ns u i else giveC out))"

definition id_ce2 :: "node list \<Rightarrow> syms \<Rightarrow> sub \<Rightarrow> int \<Rightarrow> string canon" where
  "id_ce2 ns y u i =
     thenC (id_ce3 ns u i) (\<lambda>out.
     thenC (resC (lget ns i)) (\<lambda>n.
       if n_kind n = ''str'' then id_lit_val ''S'' (n_s1 n) else if n_kind n = ''var'' then id_canon_var ns y i
       else giveC out))"

fun id_canon_expr :: "node list \<Rightarrow> syms \<Rightarrow> nat \<Rightarrow> int \<Rightarrow> string canon" where
  "id_canon_expr ns y 0 i = (\<lambda>s. None)"
| "id_canon_expr ns y (Suc d) i =
     thenC (id_ce2 ns y (id_canon_expr ns y d) i) (\<lambda>out.
     thenC (resC (lget ns i)) (\<lambda>n.
       if n_kind n = ''int'' then thenC (resC (id_strip_zeros (n_s1 n))) (id_lit_val ''I'')
       else if n_kind n = ''float'' then id_lit_val ''F'' (n_s1 n)
       else if n_kind n = ''fld'' then giveC (''f.'' @ n_s1 n)
       else giveC out))"

text \<open>A number of a constant, for the LLVM target.\<close>

fun id_ll_const_num :: "node list \<Rightarrow> syms \<Rightarrow> nat \<Rightarrow> int \<Rightarrow> string canon" where
  "id_ll_const_num ns y 0 i = (\<lambda>s. None)"
| "id_ll_const_num ns y (Suc d) i =
     thenC (resC (lget ns i)) (\<lambda>n.
     thenC (id_canon_expr ns y d i) (\<lambda>fp.
     thenC (if code_at fp 0 = 73 then resC (id_zeros_tail fp 1) else giveC (n_s1 n)) (\<lambda>t.
       if n_kind n = ''un'' \<and> n_s1 n = ''-''
       then thenC (id_ll_const_num ns y d (n_i1 n)) (\<lambda>inner.
              if code_at inner 0 = 45 then resC (id_zeros_tail inner 1) else giveC (''-'' @ inner))
       else if n_kind n = ''un'' \<and> n_s1 n = ''~''
       then thenC (id_ll_const_num ns y d (n_i1 n)) (\<lambda>inner. giveC (int_text (wrap32 (- 1 - id_to_int inner))))
       else giveC t)))"

section \<open>Statements\<close>

text \<open>\<open>u\<close> is the canonical text of an expression, \<open>v\<close> that of a statement below.\<close>

definition id_blank_push :: "node list \<Rightarrow> int list \<Rightarrow> int \<Rightarrow> int list res" where
  "id_blank_push ns kept i = andThen (lget ns i) (\<lambda>n. Inr (if n_kind n \<noteq> ''blank'' then lpush kept i else kept))"

fun blank_drop_loop :: "node list \<Rightarrow> int list \<Rightarrow> int list \<Rightarrow> int list res" where
  "blank_drop_loop ns kept [] = Inr kept"
| "blank_drop_loop ns kept (i # is) = andThen (id_blank_push ns kept i) (\<lambda>kept. blank_drop_loop ns kept is)"

definition id_blank_drop :: "node list \<Rightarrow> int list \<Rightarrow> int list res" where
  "id_blank_drop ns stmts = blank_drop_loop ns [] stmts"

fun canon_join_from :: "sub \<Rightarrow> int \<Rightarrow> int list \<Rightarrow> string \<Rightarrow> string canon" where
  "canon_join_from v k [] out = giveC out"
| "canon_join_from v k (i # is) out = thenC (v i) (\<lambda>t. canon_join_from v (k + 1) is (out @ id_sep_at '';'' k @ t))"

definition id_canon_join :: "sub \<Rightarrow> int list \<Rightarrow> string canon" where
  "id_canon_join v stmts = canon_join_from v 0 stmts ''''"

definition id_canon_body :: "node list \<Rightarrow> sub \<Rightarrow> int list \<Rightarrow> string canon" where
  "id_canon_body ns v stmts = thenC (resC (id_blank_drop ns stmts)) (id_canon_join v)"

definition id_canon_ret :: "node list \<Rightarrow> sub \<Rightarrow> int \<Rightarrow> string canon" where
  "id_canon_ret ns u i = thenC (resC (lget ns i)) (\<lambda>n. if n_i1 n \<ge> 0 then u (n_i1 n) else giveC ''void'')"

definition id_cst_flow :: "node list \<Rightarrow> sub \<Rightarrow> int \<Rightarrow> string canon" where
  "id_cst_flow ns u i =
     thenC (resC (lget ns i)) (\<lambda>n.
       if n_kind n = ''break'' then giveC ''brk''
       else if n_kind n = ''ret'' then thenC (id_canon_ret ns u i) (\<lambda>t. giveC (''ret('' @ t @ '')''))
       else giveC (''?'' @ n_kind n @ ''#'' @ int_text i))"

definition id_cst4 :: "node list \<Rightarrow> sub \<Rightarrow> int \<Rightarrow> string canon" where
  "id_cst4 ns u i =
     thenC (id_cst_flow ns u i) (\<lambda>out.
     thenC (resC (lget ns i)) (\<lambda>n.
       giveC (if n_kind n = ''chain'' then ''|'' else if n_kind n = ''blank'' then '''' else out)))"

definition id_canon_else3 :: "node list \<Rightarrow> sub \<Rightarrow> int list \<Rightarrow> string canon" where
  "id_canon_else3 ns v els =
     (if llen els > 0 then thenC (id_canon_body ns v els) (\<lambda>t. giveC (''else{'' @ t @ ''}'')) else giveC '''')"

definition id_canon_else2 :: "node list \<Rightarrow> sub \<Rightarrow> int list \<Rightarrow> int \<Rightarrow> string canon" where
  "id_canon_else2 ns v els elif =
     (if elif = 1 then thenC (resC (lget els 0)) (\<lambda>e. thenC (v e) (\<lambda>t. giveC (''elif'' @ t)))
      else id_canon_else3 ns v els)"

definition id_cst_if :: "node list \<Rightarrow> sub \<Rightarrow> sub \<Rightarrow> int \<Rightarrow> string canon" where
  "id_cst_if ns u v i =
     thenC (resC (lget ns i)) (\<lambda>n.
     thenC (u (n_i1 n)) (\<lambda>c.
     thenC (id_canon_body ns v (n_l1 n)) (\<lambda>t.
     thenC (id_canon_else2 ns v (n_l2 n) (n_i2 n)) (\<lambda>e. giveC (''if('' @ c @ ''){'' @ t @ ''}'' @ e)))))"

definition id_cst3 :: "node list \<Rightarrow> sub \<Rightarrow> sub \<Rightarrow> int \<Rightarrow> string canon" where
  "id_cst3 ns u v i =
     thenC (id_cst4 ns u i) (\<lambda>out.
     thenC (resC (lget ns i)) (\<lambda>n.
       if n_kind n = ''if'' then id_cst_if ns u v i
       else if n_kind n = ''while''
       then thenC (u (n_i1 n)) (\<lambda>c. thenC (id_canon_body ns v (n_l1 n)) (\<lambda>t. giveC (''wh('' @ c @ ''){'' @ t @ ''}'')))
       else giveC out))"

definition id_iassign_val :: "node list \<Rightarrow> sub \<Rightarrow> int \<Rightarrow> string \<Rightarrow> string \<Rightarrow> string canon" where
  "id_iassign_val ns u i head key =
     thenC (resC (lget ns i)) (\<lambda>n.
     thenC (resC (lget (n_l1 n) 0)) (\<lambda>e.
     thenC (u e) (\<lambda>t. giveC (''ia:'' @ head @ ''['' @ key @ '']='' @ t))))"

definition id_iassign_tail :: "node list \<Rightarrow> sub \<Rightarrow> int \<Rightarrow> string \<Rightarrow> string canon" where
  "id_iassign_tail ns u i head =
     thenC (resC (lget ns i)) (\<lambda>n. thenC (u (n_i2 n)) (\<lambda>key. id_iassign_val ns u i head key))"

definition id_canon_iassign :: "node list \<Rightarrow> sub \<Rightarrow> int \<Rightarrow> string canon" where
  "id_canon_iassign ns u i =
     thenC (resC (lget ns i)) (\<lambda>n. thenC (u (n_i1 n)) (\<lambda>head. id_iassign_tail ns u i head))"

definition id_cst2 :: "node list \<Rightarrow> sub \<Rightarrow> sub \<Rightarrow> int \<Rightarrow> string canon" where
  "id_cst2 ns u v i =
     thenC (id_cst3 ns u v i) (\<lambda>out.
     thenC (resC (lget ns i)) (\<lambda>n.
       if n_kind n = ''iassign'' then id_canon_iassign ns u i
       else if n_kind n = ''exprstmt'' then thenC (u (n_i1 n)) (\<lambda>t. giveC (''e:'' @ t))
       else giveC out))"

definition id_ni2_pick :: "node list \<Rightarrow> int \<Rightarrow> string \<Rightarrow> string \<Rightarrow> string res" where
  "id_ni2_pick ns i no yes = andThen (lget ns i) (\<lambda>n. Inr (if n_i2 n = 1 then yes else no))"

definition id_decl_name :: "node list \<Rightarrow> int \<Rightarrow> string canon" where
  "id_decl_name ns i = thenC (resC (lget ns i)) (\<lambda>n. if n_i2 n \<noteq> 1 then id_cn (n_s2 n) else giveC (n_s2 n))"

definition id_canon_decl :: "node list \<Rightarrow> sub \<Rightarrow> int \<Rightarrow> string canon" where
  "id_canon_decl ns u i =
     thenC (resC (id_ni2_pick ns i ''d:'' ''ed:'')) (\<lambda>out.
     thenC (id_decl_name ns i) (\<lambda>nm.
     thenC (resC (lget ns i)) (\<lambda>n.
     thenC (u (n_i1 n)) (\<lambda>t. giveC (out @ n_s1 n @ '' '' @ nm @ ''='' @ t)))))"

fun id_canon_stmt :: "node list \<Rightarrow> syms \<Rightarrow> nat \<Rightarrow> int \<Rightarrow> string canon" where
  "id_canon_stmt ns y 0 i = (\<lambda>s. None)"
| "id_canon_stmt ns y (Suc d) i =
     thenC (id_cst2 ns (id_canon_expr ns y (Suc d)) (id_canon_stmt ns y d) i) (\<lambda>out.
     thenC (resC (lget ns i)) (\<lambda>n.
       if n_kind n = ''decl'' then id_canon_decl ns (id_canon_expr ns y (Suc d)) i
       else if n_kind n = ''assign''
       then thenC (id_cn (n_s1 n)) (\<lambda>k. thenC (id_canon_expr ns y (Suc d) (n_i1 n)) (\<lambda>t. giveC (''a:'' @ k @ ''='' @ t)))
       else giveC out))"

section \<open>Functions\<close>

definition id_canon_param :: "node list \<Rightarrow> int \<Rightarrow> string canon" where
  "id_canon_param ns i =
     thenC (resC (lget ns i)) (\<lambda>n. thenC (id_cn (n_s2 n)) (\<lambda>k. giveC (n_s1 n @ '' '' @ k)))"

definition id_canon_params :: "node list \<Rightarrow> int list \<Rightarrow> string canon" where
  "id_canon_params ns ps = canon_args_from (id_canon_param ns) 0 ps ''''"

definition id_is_native :: "node list \<Rightarrow> int \<Rightarrow> bool res" where
  "id_is_native ns i = andThen (lget ns i) (\<lambda>n. Inr (n_i2 n = 1))"

definition id_canon_native :: "node list \<Rightarrow> int \<Rightarrow> string \<Rightarrow> string canon" where
  "id_canon_native ns i out =
     thenC (resC (lget ns i)) (\<lambda>n. giveC (''('' @ out @ '')->'' @ n_s2 n @ '' native '' @ n_s1 n))"

definition id_canon_logic :: "node list \<Rightarrow> syms \<Rightarrow> nat \<Rightarrow> int \<Rightarrow> string \<Rightarrow> string canon" where
  "id_canon_logic ns y d i out =
     thenC (resC (lget ns i)) (\<lambda>n.
     thenC (id_canon_body ns (id_canon_stmt ns y d) (n_l2 n)) (\<lambda>body.
     thenC (id_canon_ret ns (id_canon_expr ns y d) i) (\<lambda>r.
       giveC (''('' @ out @ '')->'' @ n_s2 n @ ''{'' @ body @ ''}=>'' @ r))))"

definition id_canon_func_tail :: "node list \<Rightarrow> syms \<Rightarrow> nat \<Rightarrow> int \<Rightarrow> string \<Rightarrow> string canon" where
  "id_canon_func_tail ns y d i out =
     thenC (resC (id_is_native ns i)) (\<lambda>b.
       if b then id_canon_native ns i out else id_canon_logic ns y d i out)"

definition id_canon_func_body :: "node list \<Rightarrow> syms \<Rightarrow> nat \<Rightarrow> int \<Rightarrow> string canon" where
  "id_canon_func_body ns y d i =
     thenC (resC (lget ns i)) (\<lambda>n. thenC (id_canon_params ns (n_l1 n)) (\<lambda>out. id_canon_func_tail ns y d i out))"

definition id_canon_func :: "node list \<Rightarrow> syms \<Rightarrow> nat \<Rightarrow> int \<Rightarrow> string canon" where
  "id_canon_func ns y d i =
     thenC (resC (lget ns i)) (\<lambda>n. thenC (id_uq_begin (n_s1 n)) (\<lambda>_. id_canon_func_body ns y d i))"

text \<open>The unit a function is compared by: its imports, its signature with the result, its body.\<close>

definition id_imp_vec :: "store \<Rightarrow> cst \<Rightarrow> (string \<times> store) run" where
  "id_imp_vec st s = id_string_join (c_imps s) '','' st"

definition id_unit_sig2 :: "node list \<Rightarrow> syms \<Rightarrow> nat \<Rightarrow> int \<Rightarrow> string canon" where
  "id_unit_sig2 ns y d i =
     thenC (resC (lget ns i)) (\<lambda>n.
     thenC (id_canon_params ns (n_l1 n)) (\<lambda>ps.
     thenC (id_canon_ret ns (id_canon_expr ns y d) i) (\<lambda>r. giveC (''('' @ ps @ '')->'' @ n_s2 n @ ''=>'' @ r))))"

definition id_unit_sig :: "node list \<Rightarrow> syms \<Rightarrow> nat \<Rightarrow> int \<Rightarrow> string canon" where
  "id_unit_sig ns y d i =
     thenC (resC (lget ns i)) (\<lambda>n. thenC (id_uq_begin (n_s1 n)) (\<lambda>_. id_unit_sig2 ns y d i))"

definition id_seg_text :: "node list \<Rightarrow> syms \<Rightarrow> nat \<Rightarrow> string \<Rightarrow> int list \<Rightarrow> store \<Rightarrow> cst \<Rightarrow> ((string \<times> store) \<times> cst) run" where
  "id_seg_text ns y d sig cur st =
     thenC (id_canon_body ns (id_canon_stmt ns y d) cur) (\<lambda>body s.
       thenRun (id_imp_vec st s) (\<lambda>(vec, st). Some (Inr ((vec @ ''|'' @ sig @ ''{'' @ body @ ''}'', st), s))))"

definition id_unit_walk :: "node list \<Rightarrow> syms \<Rightarrow> nat \<Rightarrow> int \<Rightarrow> string \<Rightarrow> store \<Rightarrow> cst \<Rightarrow> ((string \<times> store) \<times> cst) run" where
  "id_unit_walk ns y d i sig st =
     thenC (resC (lget ns i)) (\<lambda>n. id_seg_text ns y d sig (n_l2 n) st)"

definition id_unit_plain :: "node list \<Rightarrow> syms \<Rightarrow> nat \<Rightarrow> int \<Rightarrow> store \<Rightarrow> cst \<Rightarrow> ((string \<times> store) \<times> cst) run" where
  "id_unit_plain ns y d i st = thenC (id_unit_sig ns y d i) (\<lambda>sig. id_unit_walk ns y d i sig st)"

definition id_unit_native :: "node list \<Rightarrow> syms \<Rightarrow> nat \<Rightarrow> int \<Rightarrow> store \<Rightarrow> cst \<Rightarrow> ((string \<times> store) \<times> cst) run" where
  "id_unit_native ns y d i st = thenC (id_canon_func ns y d i) (\<lambda>fp. giveC (''|'' @ fp, st))"

definition id_unit_kind :: "node list \<Rightarrow> syms \<Rightarrow> nat \<Rightarrow> int \<Rightarrow> store \<Rightarrow> cst \<Rightarrow> ((string \<times> store) \<times> cst) run" where
  "id_unit_kind ns y d i st =
     thenC (resC (id_is_native ns i)) (\<lambda>b. if b then id_unit_native ns y d i st else id_unit_plain ns y d i st)"

end
