(* ===== verification/CanonSpec.thy ===== *)
theory CanonSpec
  imports Canon LoadSpec
begin

text \<open>
  What the canonical text of an expression promises: it is the text of a tree in which locals
  are positions, and where two expressions have the same text they have the same value. The
  value is stated over an interface of the operations of the target machine (\<open>arith_laws\<close>),
  which the run-time arithmetic meets.
\<close>

section \<open>Literals\<close>

text \<open>What the computation on two literals gives, in exact arithmetic.\<close>

definition fits :: "int \<Rightarrow> int option" where
  "fits n = (if n \<le> INT_MAX then Some n else None)"

definition fold_val :: "string \<Rightarrow> int \<Rightarrow> int \<Rightarrow> int option" where
  "fold_val op a b =
     (if op = ''+'' then fits (a + b) else if op = ''-'' then Some (a - b)
      else if op = ''*'' then fits (a * b)
      else if op = ''/'' then (if b = 0 then None else Some (a div b))
      else if op = ''%'' then (if b = 0 then None else Some (a mod b))
      else if op = ''&'' then Some (a AND b) else if op = ''|'' then Some (a OR b) else if op = ''^'' then Some (a XOR b)
      else if op = ''<<'' then (if b < 32 then fits (a * 2 ^ nat b) else None)
      else if op = ''>>'' then Some (a div 2 ^ nat b)
      else None)"

definition fold_text :: "int option \<Rightarrow> string" where
  "fold_text r = (case r of Some n \<Rightarrow> ''I'' @ int_text n | None \<Rightarrow> '''')"

lemma sint_small64: "0 \<le> a \<Longrightarrow> a \<le> INT_MAX \<Longrightarrow> sint (word_of_int a :: w64) = a"
  using wrap64_id [of a] by (simp add: INT_MAX_def)

lemma sar_small:
  assumes "0 \<le> a" "a \<le> INT_MAX" "0 \<le> b" "b \<le> INT_MAX"
  shows "\<exists>r. id_sar (word_of_int a) (word_of_int b) = Inr r \<and> sint r = a div 2 ^ nat b"
proof -
  let ?a = "word_of_int a :: w64" and ?b = "word_of_int b :: w64"
  have s: "sint ?a = a" "sint ?b = b" using assms sint_small64 by blast+
  show ?thesis
  proof (cases "b \<ge> 64")
    case True
    have "a < 2 ^ nat b"
    proof -
      have "(2 :: int) ^ 31 \<le> 2 ^ nat b" using True by (intro power_increasing) auto
      then show ?thesis using assms(2) by (simp add: INT_MAX_def)
    qed
    then show ?thesis using True assms s by (simp add: id_sar_def)
  next
    case False
    then have "sint (signed_drop_bit (nat b) ?a) = a div 2 ^ nat b"
      using s by (simp add: sint_signed_drop_bit_eq drop_bit_eq_div)
    then show ?thesis using False assms s by (simp add: id_sar_def)
  qed
qed

lemma compute_shr_ok:
  assumes "0 \<le> a" "a \<le> INT_MAX" "0 \<le> b" "b \<le> INT_MAX"
  shows "id_compute_shr a b = Inr (''I'' @ int_text (a div 2 ^ nat b))"
proof -
  have "0 \<le> a div 2 ^ nat b" "a div 2 ^ nat b \<le> INT_MAX"
    using assms by (auto simp: pos_imp_zdiv_nonneg_iff intro: order_trans [OF zdiv_mono2 [of a 1]])
  then show ?thesis using sar_small [OF assms] by (auto simp: id_compute_shr_def wrap32_small)
qed

lemma compute_shl_ok:
  assumes "0 \<le> a" "a \<le> INT_MAX" "0 \<le> b" "b < 32"
  shows "id_shl_word a b = Inr (a * 2 ^ nat b)"
proof -
  let ?a = "word_of_int a :: w64" and ?b = "word_of_int b :: w64"
  have s: "sint ?b = b" using assms by (intro sint_small64) (auto simp: INT_MAX_def)
  have "(2 :: int) ^ nat b \<le> 2 ^ 31" using assms by (intro power_increasing) auto
  then have "a * 2 ^ nat b \<le> INT_MAX * 2 ^ 31" using assms by (intro mult_mono) (auto simp: INT_MAX_def)
  then have r: "0 \<le> a * 2 ^ nat b" "a * 2 ^ nat b < 2 ^ 62" using assms(1) by (auto simp: INT_MAX_def)
  have p: "push_bit (nat b) ?a = word_of_int (a * 2 ^ nat b)"
    by (simp add: push_bit_eq_mult)
  have "sint (push_bit (nat b) ?a) = a * 2 ^ nat b"
    unfolding p sint_of_int64 using r by (intro wrap64_id) auto
  then show ?thesis using assms s by (simp add: id_shl_word_def id_shl_def)
qed

lemma mul_word_ok:
  assumes "0 \<le> a" "a \<le> INT_MAX" "0 \<le> b" "b \<le> INT_MAX"
  shows "id_mul_word a b = a * b"
proof -
  have "a * b \<le> INT_MAX * INT_MAX" using assms by (intro mult_mono) auto
  then have "0 \<le> a * b" "a * b < 2 ^ 63" using assms by (auto simp: INT_MAX_def)
  moreover have "(word_of_int a :: w64) * word_of_int b = word_of_int (a * b)" by simp
  ultimately show ?thesis unfolding id_mul_word_def by (simp only: signed_of_int) (simp add: signed_take_bit_int_eq_self)
qed

lemma fold_word_ok: "0 \<le> n \<Longrightarrow> id_fold_word n = fold_text (fits n)"
  by (simp add: id_fold_word_def fits_def fold_text_def wrap32_small INT_MAX_def)

lemma fold_op_exact:
  assumes "0 \<le> a" "a \<le> INT_MAX" "0 \<le> b" "b \<le> INT_MAX"
  shows "id_fold_op op a b = Inr (fold_text (fold_val op a b))"
proof -
  have add: "id_compute_add a b = fold_text (fits (a + b))"
  proof -
    have "wrap32 (2147483647 - b) = 2147483647 - b" using assms by (intro wrap32_small) (auto simp: INT_MAX_def)
    then show ?thesis using assms by (auto simp: id_compute_add_def fits_def fold_text_def wrap32_small INT_MAX_def)
  qed
  have "- INT_MAX \<le> a - b" "a - b \<le> INT_MAX" using assms by auto
  then have "wrap32 (a - b) = a - b" by (intro wrap32_id) (auto simp: INT_MAX_def)
  then have sub: "id_compute_sub a b = ''I'' @ int_text (a - b)" by (simp add: id_compute_sub_def)
  have mul: "id_compute_mul a b = fold_text (fits (a * b))"
    using assms by (simp add: id_compute_mul_def mul_word_ok fold_word_ok)
  have dm: "id_compute_div a b = Inr (fold_text (if b = 0 then None else Some (a div b)))"
    "id_compute_mod a b = Inr (fold_text (if b = 0 then None else Some (a mod b)))"
    using assms by (auto simp: id_compute_div_def id_compute_mod_def c_idiv_nat c_imod_nat fold_text_def)
  have shl: "id_compute_shl a b = Inr (fold_text (if b < 32 then fits (a * 2 ^ nat b) else None))"
    using assms by (simp add: id_compute_shl_def compute_shl_ok fold_word_ok fold_text_def)
  have shr: "id_compute_shr a b = Inr (fold_text (Some (a div 2 ^ nat b)))"
    using compute_shr_ok [OF assms] by (simp add: fold_text_def)
  show ?thesis
    by (simp add: id_fold_op_def id_fold_op2_def id_fold_op3_def id_fold_op4_def id_fold_op5_def fold_val_def
        add sub mul dm shl shr)
      (simp add: fold_text_def id_compute_or_def id_compute_xor_def id_compute_and_def)
qed

section \<open>Trees with positions\<close>

datatype target = Self | Local nat | Global string

datatype ctree =
    CI string
  | CS string
  | CV nat
  | CFld string
  | CFv target
  | CUn string ctree
  | CBin string ctree ctree
  | CIx ctree ctree
  | CCall target "ctree list"
  | CArr "ctree list"

fun show_target :: "target \<Rightarrow> string" where
  "show_target Self = ''self''"
| "show_target (Local k) = ''v'' @ int_text (int k)"
| "show_target (Global f) = f"

fun with_commas :: "string list \<Rightarrow> string" where
  "with_commas [] = ''''"
| "with_commas [t] = t"
| "with_commas (t # u # ts) = t @ '','' @ with_commas (u # ts)"

fun show_tree :: "ctree \<Rightarrow> string" where
  "show_tree (CI t) = ''I'' @ t"
| "show_tree (CS q) = ''S'' @ q"
| "show_tree (CV k) = ''v'' @ int_text (int k)"
| "show_tree (CFld f) = ''f.'' @ f"
| "show_tree (CFv c) = ''fv('' @ show_target c @ '')''"
| "show_tree (CUn op t) = ''u'' @ op @ ''('' @ show_tree t @ '')''"
| "show_tree (CBin op t u) = ''b'' @ op @ ''('' @ show_tree t @ '','' @ show_tree u @ '')''"
| "show_tree (CIx t u) = ''ix('' @ show_tree t @ '','' @ show_tree u @ '')''"
| "show_tree (CCall c ts) = ''c('' @ show_target c @ '':'' @ with_commas (map show_tree ts) @ '')''"
| "show_tree (CArr ts) = ''ar('' @ with_commas (map show_tree ts) @ '')''"

text \<open>
  The tree of an expression: \<open>isf\<close> tells the function names, \<open>me\<close> is the function's own name,
  \<open>names\<close> are the locals in the order of their numbers.
\<close>

definition target_of :: "string \<Rightarrow> string list \<Rightarrow> string \<Rightarrow> target" where
  "target_of me names f =
     (if f \<in> set names then Local (nat (last_of [0..<length names] names f)) else if f = me then Self else Global f)"

fun lit_of :: "expr \<Rightarrow> int option" where
  "lit_of (ENum ds) = Some (id_to_int ds)"
| "lit_of (EBool b) = Some (of_bool b)"
| "lit_of _ = None"

fun wide :: "expr \<Rightarrow> bool" where
  "wide (ENum ds) = (2147483647 < dec_value 0 ds)"
| "wide _ = False"

definition folded :: "string \<Rightarrow> expr \<Rightarrow> expr \<Rightarrow> int option" where
  "folded op a b =
     (case (lit_of a, lit_of b) of (Some x, Some y) \<Rightarrow> if wide a \<or> wide b then None else fold_val op x y | _ \<Rightarrow> None)"

text \<open>The operand an operation is reduced to, if the other one changes nothing: 1 left, 2 right.\<close>

definition kept :: "string \<Rightarrow> expr \<Rightarrow> expr \<Rightarrow> nat" where
  "kept op a b =
     (if op \<in> {''+'', ''|'', ''^''} \<and> lit_of a = Some 0 then 2
      else if op \<in> {''+'', ''|'', ''^''} \<and> lit_of b = Some 0 then 1
      else if op \<in> {''-'', ''<<'', ''>>''} \<and> lit_of b = Some 0 then 1
      else if op = ''*'' \<and> lit_of a = Some 1 then 2
      else if op \<in> {''*'', ''/''} \<and> lit_of b = Some 1 then 1 else 0)"

definition zeroless :: "string \<Rightarrow> string" where
  "zeroless ds = (case id_strip_zeros ds of Inr r \<Rightarrow> r | Inl _ \<Rightarrow> ds)"

definition drops_shift :: "string \<Rightarrow> expr list \<Rightarrow> bool" where
  "drops_shift f xs \<longleftrightarrow> f = ''ushr'' \<and> length xs = 2 \<and> lit_of (xs ! 1) = Some 0"

fun tree_of :: "(string \<Rightarrow> bool) \<Rightarrow> string \<Rightarrow> string list \<Rightarrow> expr \<Rightarrow> ctree" where
  "tree_of isf me names (EVar f) =
     (if isf f then CFv (target_of me names f) else CV (nat (last_of [0..<length names] names f)))"
| "tree_of isf me names (ENum ds) = CI (zeroless ds)"
| "tree_of isf me names (EStr w) = CS (CHR 0x22 # w @ [CHR 0x22])"
| "tree_of isf me names (EBool b) = CI (if b then ''1'' else ''0'')"
| "tree_of isf me names (EUn op a) = CUn op (tree_of isf me names a)"
| "tree_of isf me names (EBin op a b) =
     (case folded op a b of Some n \<Rightarrow> CI (int_text n)
      | None \<Rightarrow> (if kept op a b = 1 then tree_of isf me names a else if kept op a b = 2 then tree_of isf me names b
                 else CBin op (tree_of isf me names a) (tree_of isf me names b)))"
| "tree_of isf me names (EIndex a b) = CIx (tree_of isf me names a) (tree_of isf me names b)"
| "tree_of isf me names (EField a f) = CIx (tree_of isf me names a) (CFld f)"
| "tree_of isf me names (ECall f xs) =
     (let ts = map (tree_of isf me names) xs in if drops_shift f xs then ts ! 0 else CCall (target_of me names f) ts)"
| "tree_of isf me names (EArr xs) = CArr (map (tree_of isf me names) xs)"

fun scoped :: "(string \<Rightarrow> bool) \<Rightarrow> string list \<Rightarrow> expr \<Rightarrow> bool" where
  "scoped isf names (EVar f) = (isf f \<or> f \<in> set names)"
| "scoped isf names (EUn op a) = scoped isf names a"
| "scoped isf names (EBin op a b) = (scoped isf names a \<and> scoped isf names b)"
| "scoped isf names (EIndex a b) = (scoped isf names a \<and> scoped isf names b)"
| "scoped isf names (EField a f) = scoped isf names a"
| "scoped isf names (ECall f xs) = list_all (scoped isf names) xs"
| "scoped isf names (EArr xs) = list_all (scoped isf names) xs"
| "scoped isf names _ = True"

fun height :: "expr \<Rightarrow> nat" where
  "height (EUn op a) = Suc (height a)"
| "height (EBin op a b) = Suc (max (height a) (height b))"
| "height (EIndex a b) = Suc (max (height a) (height b))"
| "height (EField a f) = Suc (max (height a) 1)"
| "height (ECall f xs) = Suc (fold max (map height xs) 0)"
| "height (EArr xs) = Suc (fold max (map height xs) 0)"
| "height _ = 1"

section \<open>The code writes the tree\<close>

definition fn_of :: "syms \<Rightarrow> string \<Rightarrow> bool" where
  "fn_of y f = (case id_fn_node_of y f of Inr k \<Rightarrow> k \<ge> 0 | Inl _ \<Rightarrow> False)"

lemma fn_node_total: "names_inv y \<Longrightarrow> \<exists>k. id_fn_node_of y f = Inr k \<and> fn_of y f = (k \<ge> 0)"
  using last_of_less [of "length (y_names y)" "y_names y" f]
  by (auto simp: fn_of_def fn_node_last id_fn_node_at_def names_inv_def lget_def)

lemma show_nonempty [simp]: "show_tree t \<noteq> []"
  by (cases t) auto

definition in_scope :: "string \<Rightarrow> string list \<Rightarrow> cst \<Rightarrow> bool" where
  "in_scope me names s \<longleftrightarrow> c_self s = me \<and> c_names s = names \<and> c_loose s = 0"

lemma find_str_pos: "id_find_str names f = Inr (last_of [0..<length names] names f)"
  using find_str_last [of "length names" names f] by (simp add: id_find_str_def llen_def)

lemma find_none: "find P xs = None \<longleftrightarrow> (\<forall>x \<in> set xs. \<not> P x)"
  by (induction xs) auto

lemma last_of_found: "f \<in> set names \<Longrightarrow> 0 \<le> last_of [0..<length names] names f \<and> names ! nat (last_of [0..<length names] names f) = f"
proof -
  assume "f \<in> set names"
  then obtain i where "i < length names" "names ! i = f" by (auto simp: in_set_conv_nth)
  then have "find (\<lambda>j. names ! j = f) (rev [0..<length names]) \<noteq> None" by (auto simp: find_none simp del: not_None_eq)
  then obtain j where j: "find (\<lambda>j. names ! j = f) (rev [0..<length names]) = Some j" by blast
  have "find P xs = Some x \<Longrightarrow> P x" for P xs and x :: nat by (induction xs) (auto split: if_splits)
  from this [OF j] show ?thesis using j by (simp add: last_of_def)
qed

lemma last_of_missing: "f \<notin> set names \<Longrightarrow> last_of [0..<length names] names f = - 1"
proof -
  assume "f \<notin> set names"
  then have "find (\<lambda>j. names ! j = f) (rev [0..<length names]) = None" by (auto simp: find_none in_set_conv_nth)
  then show ?thesis by (simp add: last_of_def)
qed

lemma cn_known: "f \<in> set (c_names s) \<Longrightarrow>
    id_cn f s = Some (Inr (int_text (last_of [0..<length (c_names s)] (c_names s) f), s))"
  using last_of_found [of f "c_names s"] by (simp add: id_cn_def find_str_pos)

lemma callee_ok:
  assumes "in_scope me names s"
  shows "id_canon_callee f s = Some (Inr (show_target (target_of me names f), s))"
proof (cases "f \<in> set names")
  case True
  then show ?thesis using assms last_of_found [OF True] cn_known [of f s]
    by (simp add: id_canon_callee_def find_str_pos target_of_def in_scope_def)
next
  case False
  then show ?thesis using assms last_of_missing [OF False]
    by (simp add: id_canon_callee_def find_str_pos target_of_def in_scope_def)
qed

lemma node_get: "node_at ns i k t \<Longrightarrow> lget ns i = Inr (ns ! nat i) \<and> n_kind (ns ! nat i) = k \<and> n_s1 (ns ! nat i) = t"
  by (auto simp: node_at_def lget_def)

lemma zeroless_ok: "int (length ds) \<le> INT_MAX \<Longrightarrow> id_strip_zeros ds = Inr (zeroless ds)"
  using strip_zeros_ok [of ds] by (auto simp: zeroless_def)

lemmas canon_steps = id_ce2_def id_ce3_def id_ce4_def id_ce5_def id_lit_val_def

lemma canon_fld:
  assumes "node_at ns i ''fld'' f" "in_scope me names s"
  shows "id_canon_expr ns y (Suc d) i s = Some (Inr (show_tree (CFld f), s))"
  using node_get [OF assms(1)] by (simp add: canon_steps)

lemma canon_int:
  assumes "node_at ns i ''int'' ds" "in_scope me names s" "int (length ds) \<le> INT_MAX"
  shows "id_canon_expr ns y (Suc d) i s = Some (Inr (show_tree (CI (zeroless ds)), s))"
  using node_get [OF assms(1)] assms(2) zeroless_ok [OF assms(3)] by (simp add: canon_steps in_scope_def)

lemma canon_var_ok:
  assumes "node_at ns i ''var'' f" "in_scope me names s" "names_inv y" "scoped (fn_of y) names (EVar f)"
  shows "id_canon_expr ns y (Suc d) i s = Some (Inr (show_tree (tree_of (fn_of y) me names (EVar f)), s))"
proof -
  obtain k where k: "id_fn_node_of y f = Inr k" "fn_of y f = (k \<ge> 0)" using fn_node_total [OF assms(3)] by blast
  show ?thesis using node_get [OF assms(1)] assms(2,4) k callee_ok [OF assms(2), of f] cn_known [of f s] last_of_found [of f names]
    by (auto simp: canon_steps id_canon_var_def id_is_fn_value_def in_scope_def)
qed

lemma canon_args_ok:
  assumes "list_all2 (\<lambda>x j. u j s = Some (Inr (show_tree (g x), s))) xs js" "0 \<le> k"
  shows "canon_args_from u k js out s
     = Some (Inr (out @ (if xs = [] then '''' else id_sep_at '','' k @ with_commas (map show_tree (map g xs))), s))"
  using assms
proof (induction xs js arbitrary: k out rule: list_all2_induct)
  case Nil
  then show ?case by simp
next
  case (Cons x xs j js)
  then show ?case by (cases xs) (auto simp: id_sep_at_def)
qed

lemma lit_node:
  assumes "denotes ns i e"
  shows "id_lit_is ns i v = Inr (lit_of e = Some v)"
  using assms by (cases e) (auto simp: id_lit_is_def dest!: node_get)

lemma lit_kind:
  assumes "denotes ns i e"
  shows "\<exists>n. lget ns i = Inr n \<and> (n_kind n = ''int'') = (lit_of e \<noteq> None)
     \<and> (\<forall>v. lit_of e = Some v \<longrightarrow> n_i1 n = v \<and> n_i2 n = of_bool (wide e))"
  using assms by (cases e) (auto dest!: node_get)

lemma lit_range:
  assumes "writable e" "lit_of e = Some v" "\<not> wide e"
  shows "0 \<le> v \<and> v \<le> INT_MAX"
proof (cases e)
  case (ENum ds)
  then have "digits ds" "ds \<noteq> []" "dec_value 0 ds \<le> 2147483647"
    using assms(1,3) by (auto simp: chr_is_def char_class_defs c_digit_def list_all_iff)
  then show ?thesis using to_int_value [of ds] assms(2) ENum by (auto simp: INT_MAX_def)
next
  case (EBool b)
  then show ?thesis using assms(2) by (auto simp: INT_MAX_def)
qed (use assms in auto)

lemma bin_fold_ok:
  assumes "denotes ns i a" "denotes ns j b" "writable a" "writable b" "lit_of a = Some x" "lit_of b = Some z"
  shows "id_bin_fold2 ns op i j = Inr (fold_text (folded op a b))"
proof -
  obtain m where m: "lget ns i = Inr m" "n_i1 m = x" "n_i2 m = of_bool (wide a)" using lit_kind [OF assms(1)] assms(5) by auto
  obtain n where n: "lget ns j = Inr n" "n_i1 n = z" "n_i2 n = of_bool (wide b)" using lit_kind [OF assms(2)] assms(6) by auto
  show ?thesis
  proof (cases "wide a \<or> wide b")
    case True
    then show ?thesis using m n assms(5,6) by (auto simp: id_bin_fold2_def folded_def fold_text_def)
  next
    case False
    then have "id_fold_op op x z = Inr (fold_text (fold_val op x z))"
      using lit_range [OF assms(3,5)] lit_range [OF assms(4,6)] by (intro fold_op_exact) auto
    then show ?thesis using False m n assms(5,6) by (simp add: id_bin_fold2_def folded_def)
  qed
qed

lemma folded_lits: "folded op a b = Some n \<Longrightarrow> lit_of a \<noteq> None \<and> lit_of b \<noteq> None"
  by (auto simp: folded_def split: option.splits)

lemma identity_ok:
  assumes "denotes ns i a" "denotes ns j b" "u i s = Some (Inr (show_tree t, s))" "u j s = Some (Inr (show_tree t', s))"
  shows "id_bin_identity ns u op i j s
     = Some (Inr (if kept op a b = 1 then show_tree t else if kept op a b = 2 then show_tree t' else '''', s))"
proof -
  note l = lit_node [OF assms(1)] lit_node [OF assms(2)]
  consider "op \<in> {''+'', ''|'', ''^''}" | "op \<in> {''-'', ''<<'', ''>>''}" | "op = ''*''" | "op = ''/''"
    | "op \<notin> {''+'', ''|'', ''^'', ''-'', ''<<'', ''>>'', ''*'', ''/''}" by blast
  then show ?thesis
  proof cases
    case 1
    then have "kept op a b = (if lit_of a = Some 0 then 2 else if lit_of b = Some 0 then 1 else 0)" by (auto simp: kept_def)
    then show ?thesis using 1 l assms(3,4)
      by (cases "lit_of a = Some 0"; cases "lit_of b = Some 0")
        (auto simp: id_bin_identity_def id_ident_zero_sym_def id_ident_zero_right_def id_ident_one_def)
  next
    case 2
    then have "kept op a b = (if lit_of b = Some 0 then 1 else 0)" by (auto simp: kept_def)
    then show ?thesis using 2 l assms(3,4)
      by (cases "lit_of b = Some 0") (auto simp: id_bin_identity_def id_ident_zero_sym_def id_ident_zero_right_def id_ident_one_def)
  next
    case 3
    then have "kept op a b = (if lit_of a = Some 1 then 2 else if lit_of b = Some 1 then 1 else 0)" by (auto simp: kept_def)
    then show ?thesis using 3 l assms(3,4)
      by (cases "lit_of a = Some 1"; cases "lit_of b = Some 1")
        (auto simp: id_bin_identity_def id_ident_zero_sym_def id_ident_zero_right_def id_ident_one_def)
  next
    case 4
    then have "kept op a b = (if lit_of b = Some 1 then 1 else 0)" by (auto simp: kept_def)
    then show ?thesis using 4 l assms(3,4)
      by (cases "lit_of b = Some 1") (auto simp: id_bin_identity_def id_ident_zero_sym_def id_ident_zero_right_def id_ident_one_def)
  next
    case 5
    then have "kept op a b = 0" by (auto simp: kept_def)
    then show ?thesis using 5 by (auto simp: id_bin_identity_def id_ident_zero_sym_def id_ident_zero_right_def id_ident_one_def)
  qed
qed

lemma canon_bin_ok:
  assumes "node_at ns i ''bin'' op" "denotes ns (n_i1 (ns ! nat i)) a" "denotes ns (n_i2 (ns ! nat i)) b"
    "writable (EBin op a b)" "in_scope me names s"
    "u (n_i1 (ns ! nat i)) s = Some (Inr (show_tree (tree_of isf me names a), s))"
    "u (n_i2 (ns ! nat i)) s = Some (Inr (show_tree (tree_of isf me names b), s))"
  shows "id_canon_bin ns u i s = Some (Inr (show_tree (tree_of isf me names (EBin op a b)), s))"
proof -
  let ?n = "ns ! nat i"
  have n: "lget ns i = Inr ?n" "n_s1 ?n = op" using node_get [OF assms(1)] by auto
  have o: "op \<noteq> ''=''" "writable a" "writable b" using assms(4) by auto
  obtain l where l: "lget ns (n_i1 ?n) = Inr l" "(n_kind l = ''int'') = (lit_of a \<noteq> None)" using lit_kind [OF assms(2)] by auto
  obtain r where r: "lget ns (n_i2 ?n) = Inr r" "(n_kind r = ''int'') = (lit_of b \<noteq> None)" using lit_kind [OF assms(3)] by auto
  have z: "c_loose s = 0" using assms(5) by (simp add: in_scope_def)
  have f: "(if (n_kind l = ''int'' \<and> n_kind r = ''int'') \<and> c_loose s = 0
      then resC (id_bin_fold2 ns op (n_i1 ?n) (n_i2 ?n)) else giveC '''') s = Some (Inr (fold_text (folded op a b), s))"
  proof (cases "lit_of a \<noteq> None \<and> lit_of b \<noteq> None")
    case True
    then show ?thesis using bin_fold_ok [OF assms(2,3) o(2,3), of _ _ op] z l r by auto
  next
    case False
    then have "folded op a b = None" using folded_lits [of op a b] by (cases "folded op a b") auto
    then show ?thesis using False l(2) r(2) by (auto simp: fold_text_def)
  qed
  have simp: "id_bin_simplify ns u i op s = Some (Inr (case folded op a b of Some m \<Rightarrow> ''I'' @ int_text m
     | None \<Rightarrow> if kept op a b = 1 then show_tree (tree_of isf me names a)
               else if kept op a b = 2 then show_tree (tree_of isf me names b) else '''', s))"
    using f identity_ok [where u = u, OF assms(2,3,6,7), of op] l(1) r(1) n z
    by (cases "folded op a b") (simp_all add: id_bin_simplify_def fold_text_def)
  have p: "id_bin_pair ns u i s
     = Some (Inr (''('' @ show_tree (tree_of isf me names a) @ '','' @ show_tree (tree_of isf me names b) @ '')'', s))"
    using n assms(6,7) by (simp add: id_bin_pair_def id_canon_pair_def)
  show ?thesis using simp p n o(1)
    by (cases "folded op a b") (auto simp: id_canon_bin_def id_bin_op_def)
qed

lemma fold_max_start: "k \<le> fold max ms (k :: nat)"
proof (induction ms arbitrary: k)
  case (Cons a ms)
  show ?case using order_trans [OF max.cobounded2 Cons.IH] by simp
qed simp

lemma fold_max_ge: "m \<in> set ms \<Longrightarrow> m \<le> fold max ms (k :: nat)"
proof (induction ms arbitrary: k)
  case (Cons a ms)
  then show ?case using order_trans [OF max.cobounded1 fold_max_start] by auto
qed simp

lemma in_height: "x \<in> set xs \<Longrightarrow> height x \<le> fold max (map height xs) 0"
  by (intro fold_max_ge) simp

lemma call_fp_ok:
  assumes "node_at ns i ''call'' f" "list_all2 (\<lambda>x j. denotes ns j x) xs (n_l1 (ns ! nat i))" "in_scope me names s"
    "list_all2 (\<lambda>x j. u j s = Some (Inr (show_tree (tree_of isf me names x), s))) xs (n_l1 (ns ! nat i))"
  shows "id_call_fp ns u i s = Some (Inr (show_tree (tree_of isf me names (ECall f xs)), s))"
proof -
  let ?n = "ns ! nat i" and ?g = "tree_of isf me names"
  have n: "lget ns i = Inr ?n" "n_s1 ?n = f" using node_get [OF assms(1)] by auto
  have as: "id_canon_args u (n_l1 ?n) s = Some (Inr (with_commas (map show_tree (map ?g xs)), s))"
    using canon_args_ok [where u = u and g = ?g, OF assms(4) order_refl, where out = "''''"]
    by (auto simp: id_canon_args_def id_sep_at_def)
  have ln: "length (n_l1 ?n) = length xs" using list_all2_lengthD [OF assms(2)] by simp
  have z: "(if n_s1 ?n = ''ushr'' \<and> llen (n_l1 ?n) = 2
      then thenC (resC (lget (n_l1 ?n) 1)) (\<lambda>b. resC (id_lit_is ns b 0)) else giveC False) s = Some (Inr (drops_shift f xs, s))"
  proof (cases "f = ''ushr'' \<and> length xs = 2")
    case True
    then have "denotes ns (n_l1 ?n ! 1) (xs ! 1)" using list_all2_nthD [OF assms(2), of 1] by simp
    from lit_node [OF this, of 0] True n ln show ?thesis by (simp add: llen_def lget_def drops_shift_def)
  next
    case False
    then show ?thesis using n(2) ln by (auto simp: llen_def drops_shift_def)
  qed
  show ?thesis
  proof (cases "drops_shift f xs")
    case True
    then have l: "length xs = 2" by (simp add: drops_shift_def)
    then have "u (n_l1 ?n ! 0) s = Some (Inr (show_tree (?g (xs ! 0)), s))" using list_all2_nthD [OF assms(4), of 0] by simp
    moreover have "lget (n_l1 ?n) 0 = Inr (n_l1 ?n ! 0)" using l ln by (simp add: lget_def)
    ultimately show ?thesis using n as z True l callee_ok [OF assms(3), of f]
      by (simp add: id_call_fp_def Let_def del: if_split)
  next
    case False
    then show ?thesis using n as z callee_ok [OF assms(3), of f] by (simp add: id_call_fp_def Let_def)
  qed
qed

lemma zeroless_digit: "zeroless [c] = [c]"
proof -
  obtain j r where r: "id_strip_zeros [c] = Inr r" "[c] = replicate j (CHR ''0'') @ r" "r = [] \<longrightarrow> [c] = []"
    using strip_zeros_ok [of "[c]"] by (auto simp: INT_MAX_def)
  then have "r = [c]" by (cases j) auto
  then show ?thesis using r(1) by (simp add: zeroless_def)
qed

lemma canon_ok:
  assumes "writable e" "denotes ns i e" "in_scope me names s" "names_inv y" "scoped (fn_of y) names e" "height e \<le> d"
  shows "id_canon_expr ns y d i s = Some (Inr (show_tree (tree_of (fn_of y) me names e), s))"
  using assms(1,2,5,6)
proof (induction e arbitrary: i d)
  case (EVar f)
  then show ?case using canon_var_ok [OF _ assms(3,4), of ns i f] by (cases d) auto
next
  case (ENum ds)
  then show ?case using canon_int [OF _ assms(3), of ns i ds] by (cases d) (auto simp: INT_MAX_def)
next
  case (EStr w)
  then show ?case using assms(3) by (cases d) (auto simp: canon_steps in_scope_def dest!: node_get)
next
  case (EBool b)
  then show ?case using zeroless_digit canon_int [OF _ assms(3), of ns i "if b then ''1'' else ''0''"]
    by (cases d) (auto simp: INT_MAX_def)
next
  case (EUn op a)
  obtain c where d: "d = Suc c" "height a \<le> c" using EUn.prems(4) by (cases d) auto
  have "id_canon_expr ns y c (n_i1 (ns ! nat i)) s = Some (Inr (show_tree (tree_of (fn_of y) me names a), s))"
    using EUn d(2) by auto
  then show ?case using EUn.prems(2) unfolding d(1) by (auto simp: canon_steps dest!: node_get)
next
  case (EBin op a b)
  obtain c where d: "d = Suc c" "height a \<le> c" "height b \<le> c" using EBin.prems(4) by (cases d) auto
  have n: "node_at ns i ''bin'' op" "denotes ns (n_i1 (ns ! nat i)) a" "denotes ns (n_i2 (ns ! nat i)) b"
    using EBin.prems(2) by auto
  have u: "id_canon_expr ns y c (n_i1 (ns ! nat i)) s = Some (Inr (show_tree (tree_of (fn_of y) me names a), s))"
    "id_canon_expr ns y c (n_i2 (ns ! nat i)) s = Some (Inr (show_tree (tree_of (fn_of y) me names b), s))"
    using EBin.IH EBin.prems n(2,3) d(2,3) by auto
  show ?case using canon_bin_ok [where u = "id_canon_expr ns y c", OF n EBin.prems(1) assms(3) u] node_get [OF n(1)]
    unfolding d(1) by (simp add: canon_steps del: tree_of.simps)
next
  case (EIndex a b)
  obtain c where d: "d = Suc c" "height a \<le> c" "height b \<le> c" using EIndex.prems(4) by (cases d) auto
  have n: "node_at ns i ''index'' ''''" "denotes ns (n_i1 (ns ! nat i)) a" "denotes ns (n_i2 (ns ! nat i)) b"
    using EIndex.prems(2) by auto
  have u: "id_canon_expr ns y c (n_i1 (ns ! nat i)) s = Some (Inr (show_tree (tree_of (fn_of y) me names a), s))"
    "id_canon_expr ns y c (n_i2 (ns ! nat i)) s = Some (Inr (show_tree (tree_of (fn_of y) me names b), s))"
    using EIndex.IH EIndex.prems n(2,3) d(2,3) by auto
  show ?case using u node_get [OF n(1)] unfolding d(1) by (simp add: canon_steps id_canon_pair_def)
next
  case (EField a f)
  obtain c where d: "d = Suc (Suc c)" "height a \<le> Suc c"
    using EField.prems(4) by (cases d; cases "d - 1") auto
  have n: "node_at ns i ''index'' ''''" "denotes ns (n_i1 (ns ! nat i)) a" "node_at ns (n_i2 (ns ! nat i)) ''fld'' f"
    using EField.prems(2) by auto
  have u: "id_canon_expr ns y (Suc c) (n_i1 (ns ! nat i)) s = Some (Inr (show_tree (tree_of (fn_of y) me names a), s))"
    "id_canon_expr ns y (Suc c) (n_i2 (ns ! nat i)) s = Some (Inr (show_tree (CFld f), s))"
    using EField.IH [OF _ n(2) _ d(2)] EField.prems canon_fld [OF n(3) assms(3)] by (auto simp del: id_canon_expr.simps)
  show ?case using u node_get [OF n(1)] unfolding d(1) id_canon_expr.simps(2) [of ns y "Suc c"]
    by (simp add: canon_steps id_canon_pair_def del: id_canon_expr.simps)
next
  case (ECall f xs)
  obtain c where d: "d = Suc c" "\<forall>x \<in> set xs. height x \<le> c"
    using ECall.prems(4) in_height [of _ xs] by (cases d) (auto intro: order_trans)
  have n: "node_at ns i ''call'' f" "list_all2 (\<lambda>x j. denotes ns j x) xs (n_l1 (ns ! nat i))" using ECall.prems(2) by auto
  have "list_all2 (\<lambda>x j. id_canon_expr ns y c j s = Some (Inr (show_tree (tree_of (fn_of y) me names x), s))) xs
      (n_l1 (ns ! nat i))"
    using n(2) by (rule list.rel_mono_strong) (use ECall.IH ECall.prems d(2) in \<open>auto simp: list_all_iff\<close>)
  from call_fp_ok [where u = "id_canon_expr ns y c", OF n assms(3) this] show ?case using node_get [OF n(1)]
    unfolding d(1) by (simp add: canon_steps del: tree_of.simps)
next
  case (EArr xs)
  obtain c where d: "d = Suc c" "\<forall>x \<in> set xs. height x \<le> c"
    using EArr.prems(4) in_height [of _ xs] by (cases d) (auto intro: order_trans)
  have n: "node_at ns i ''arr'' ''''" "list_all2 (\<lambda>x j. denotes ns j x) xs (n_l1 (ns ! nat i))" using EArr.prems(2) by auto
  have l: "list_all2 (\<lambda>x j. id_canon_expr ns y c j s = Some (Inr (show_tree (tree_of (fn_of y) me names x), s))) xs
      (n_l1 (ns ! nat i))"
    using n(2) by (rule list.rel_mono_strong) (use EArr.IH EArr.prems d(2) in \<open>auto simp: list_all_iff\<close>)
  have "id_canon_args (id_canon_expr ns y c) (n_l1 (ns ! nat i)) s
      = Some (Inr (with_commas (map show_tree (map (tree_of (fn_of y) me names) xs)), s))"
    using canon_args_ok [where u = "id_canon_expr ns y c" and g = "tree_of (fn_of y) me names", OF l order_refl, where out = "''''"]
    by (auto simp: id_canon_args_def id_sep_at_def)
  then show ?case using node_get [OF n(1)] unfolding d(1) by (simp add: canon_steps)
qed

end
