(* ===== verification/CanonRead.thy ===== *)
theory CanonRead
  imports CanonSpec
begin

text \<open>
  The canonical text can be read back: trees of two expressions with the same text are the
  same, when no function has a name that is also a marker of the text.
\<close>

section \<open>The trees that occur\<close>

text \<open>\<open>self\<close> and \<open>v0\<close>, \<open>v1\<close>, \dots\ are markers: a function of such a name is written like them.\<close>

definition no_marker :: "string \<Rightarrow> bool" where
  "no_marker f \<longleftrightarrow> f \<noteq> ''self'' \<and> (\<forall>k. f \<noteq> ''v'' @ int_text (int k))"

definition inside :: "char \<Rightarrow> bool" where
  "inside c \<longleftrightarrow> c \<notin> {CHR ''('', CHR '')'', CHR '','', CHR '':''}"

fun target_ok :: "target \<Rightarrow> bool" where
  "target_ok Self = True"
| "target_ok (Local k) = (int k \<le> INT_MAX)"
| "target_ok (Global f) = (list_all inside f \<and> no_marker f)"

fun tree_ok :: "ctree \<Rightarrow> bool" where
  "tree_ok (CI t) = list_all inside t"
| "tree_ok (CS q) = (\<exists>w. q = CHR 0x22 # w @ [CHR 0x22] \<and> CHR 0x22 \<notin> set w)"
| "tree_ok (CV k) = (int k \<le> INT_MAX)"
| "tree_ok (CFld f) = list_all inside f"
| "tree_ok (CFv c) = target_ok c"
| "tree_ok (CUn op t) = (list_all inside op \<and> tree_ok t)"
| "tree_ok (CBin op t u) = (list_all inside op \<and> tree_ok t \<and> tree_ok u)"
| "tree_ok (CIx t u) = (tree_ok t \<and> tree_ok u)"
| "tree_ok (CCall c ts) = (target_ok c \<and> list_all tree_ok ts)"
| "tree_ok (CArr ts) = list_all tree_ok ts"

section \<open>Reading back\<close>

definition stops :: "string \<Rightarrow> bool" where
  "stops r \<longleftrightarrow> r = [] \<or> \<not> inside (hd r)"

lemma stops_simps [simp]: "stops (c # r) \<longleftrightarrow> \<not> inside c" "stops []"
  by (simp_all add: stops_def)

lemma not_inside [simp]: "\<not> inside (CHR ''('')" "\<not> inside (CHR '')'')" "\<not> inside (CHR '','')" "\<not> inside (CHR '':'')"
  by (simp_all add: inside_def)

lemma span_eq:
  assumes "list_all inside a" "list_all inside b" "stops r" "stops q" "a @ r = b @ q"
  shows "a = b \<and> r = q"
proof -
  have "takeWhile inside (a @ r) = a" using assms(1,3) by (cases r) (auto simp: list_all_iff takeWhile_append2)
  moreover have "takeWhile inside (b @ q) = b" using assms(2,4) by (cases q) (auto simp: list_all_iff takeWhile_append2)
  ultimately show ?thesis using assms(5) by auto
qed

lemma int_text_inside: "list_all inside (int_text k)"
proof -
  have d: "list_all inside (dec_str u)" for u
    using dec_str_digits [of u] by (auto simp: list_all_iff inside_def c_digit_def)
  have m: "inside (CHR ''-'')" by (simp add: inside_def)
  let ?x = "scast (word_of_int k :: w32) :: w64"
  have t: "int_text k = (if sint ?x < 0 then CHR ''-'' # dec_str (nat (- sint ?x)) else dec_str (nat (sint ?x)))"
    by (simp only: int_text_def id_str_of_int_def id_str_of_word_text)
  show ?thesis unfolding t
    using d m by (simp del: dec_str.simps)
qed

lemma int_text_inj:
  assumes "int_text a = int_text b" "0 \<le> a" "a \<le> INT_MAX" "0 \<le> b" "b \<le> INT_MAX"
  shows "a = b"
proof -
  have "id_to_int (int_text a) = a" using assms(2,3) by (intro int_text_back) simp_all
  moreover have "id_to_int (int_text b) = b" using assms(4,5) by (intro int_text_back) simp_all
  ultimately show ?thesis unfolding assms(1) by metis
qed

lemma target_text_inside: "target_ok c \<Longrightarrow> list_all inside (show_target c)"
  using int_text_inside by (cases c) (auto simp: inside_def)

lemma target_inj: "target_ok c \<Longrightarrow> target_ok d \<Longrightarrow> show_target c = show_target d \<Longrightarrow> c = d"
  by (cases c; cases d) (auto simp: no_marker_def dest!: int_text_inj)

lemma target_read:
  assumes "target_ok c" "target_ok d" "\<not> inside x" "\<not> inside z" "show_target c @ x # r = show_target d @ z # q"
  shows "c = d \<and> r = q"
  using span_eq [OF target_text_inside [OF assms(1)] target_text_inside [OF assms(2)] _ _ assms(5)] assms target_inj by auto

lemma quoted_read:
  assumes "CHR 0x22 \<notin> set v" "CHR 0x22 \<notin> set w" "v @ CHR 0x22 # r = w @ CHR 0x22 # q"
  shows "v = w \<and> r = q"
proof -
  have "takeWhile (\<lambda>c. c \<noteq> CHR 0x22) (v @ CHR 0x22 # r) = v" using assms(1) by (subst takeWhile_append2) auto
  moreover have "takeWhile (\<lambda>c. c \<noteq> CHR 0x22) (w @ CHR 0x22 # q) = w" using assms(2) by (subst takeWhile_append2) auto
  ultimately show ?thesis using assms(3) by auto
qed

definition reads :: "ctree \<Rightarrow> bool" where
  "reads t \<longleftrightarrow> (\<forall>u r q. tree_ok u \<longrightarrow> stops r \<longrightarrow> stops q \<longrightarrow> show_tree t @ r = show_tree u @ q \<longrightarrow> t = u \<and> r = q)"

lemma readsD: "reads t \<Longrightarrow> show_tree t @ r = show_tree u @ q \<Longrightarrow> tree_ok u \<Longrightarrow> stops r \<Longrightarrow> stops q \<Longrightarrow> t = u \<and> r = q"
  by (auto simp: reads_def)

lemma show_hd: "\<exists>c cs. show_tree t = c # cs \<and> c \<noteq> CHR '')''"
  by (cases t) auto

lemma commas_read:
  assumes "\<forall>t \<in> set ts. reads t" "list_all tree_ok us"
    "with_commas (map show_tree ts) @ CHR '')'' # r = with_commas (map show_tree us) @ CHR '')'' # q"
  shows "ts = us \<and> r = q"
  using assms
proof (induction ts arbitrary: us)
  case Nil
  then show ?case
  proof (cases us)
    case (Cons u us')
    then show ?thesis using Nil show_hd [of u] by (cases us') auto
  qed simp
next
  case (Cons t ts)
  obtain u us' where us: "us = u # us'"
    using Cons.prems(3) show_hd [of t] by (cases us; cases ts) auto
  have u: "tree_ok u" "list_all tree_ok us'" using Cons.prems(2) us by auto
  have t: "reads t" using Cons.prems(1) by simp
  define a where "a = (if ts = [] then '')'' @ r else CHR '','' # with_commas (map show_tree ts) @ CHR '')'' # r)"
  define b where "b = (if us' = [] then '')'' @ q else CHR '','' # with_commas (map show_tree us') @ CHR '')'' # q)"
  have "show_tree t @ a = show_tree u @ b"
    using Cons.prems(3) us by (cases ts; cases us') (auto simp: a_def b_def)
  moreover have "stops a" "stops b" by (auto simp: a_def b_def)
  ultimately have e: "t = u" "a = b" using readsD [OF t _ u(1)] by blast+
  show ?case
  proof (cases "ts = []")
    case True
    then show ?thesis using e us by (auto simp: a_def b_def split: if_splits)
  next
    case False
    then have "with_commas (map show_tree ts) @ CHR '')'' # r = with_commas (map show_tree us') @ CHR '')'' # q" "us' \<noteq> []"
      using e(2) by (auto simp: a_def b_def split: if_splits)
    then show ?thesis using Cons.IH [of us'] Cons.prems(1) u(2) e(1) us by auto
  qed
qed

lemma all_read: "tree_ok t \<Longrightarrow> reads t"
proof (induction t)
  case (CI t)
  show ?case unfolding reads_def
  proof (intro allI impI)
    fix u r q assume h: "tree_ok u" "stops r" "stops q" "show_tree (CI t) @ r = show_tree u @ q"
    then obtain t' where u: "u = CI t'" by (cases u) auto
    have "t @ r = t' @ q" using h(4) u by simp
    then show "CI t = u \<and> r = q" using span_eq [OF _ _ h(2,3)] CI h(1) u by simp
  qed
next
  case (CS v)
  show ?case unfolding reads_def
  proof (intro allI impI)
    fix u r q assume h: "tree_ok u" "stops r" "stops q" "show_tree (CS v) @ r = show_tree u @ q"
    then obtain v' where u: "u = CS v'" by (cases u) auto
    obtain w where w: "v = CHR 0x22 # w @ [CHR 0x22]" "CHR 0x22 \<notin> set w" using CS by auto
    obtain w' where w': "v' = CHR 0x22 # w' @ [CHR 0x22]" "CHR 0x22 \<notin> set w'" using h(1) u by auto
    have "w @ CHR 0x22 # r = w' @ CHR 0x22 # q" using h(4) u w w' by simp
    then show "CS v = u \<and> r = q" using quoted_read [OF w(2) w'(2)] u w w' by blast
  qed
next
  case (CV k)
  show ?case unfolding reads_def
  proof (intro allI impI)
    fix u r q assume h: "tree_ok u" "stops r" "stops q" "show_tree (CV k) @ r = show_tree u @ q"
    then obtain j where j: "u = CV j" "int j \<le> INT_MAX" by (cases u) auto
    then show "CV k = u \<and> r = q"
      using h span_eq [OF int_text_inside int_text_inside h(2,3)] int_text_inj [of "int k" "int j"] CV by auto
  qed
next
  case (CFld f)
  show ?case unfolding reads_def
  proof (intro allI impI)
    fix u r q assume h: "tree_ok u" "stops r" "stops q" "show_tree (CFld f) @ r = show_tree u @ q"
    then obtain f' where u: "u = CFld f'" by (cases u) auto
    have "f @ r = f' @ q" using h(4) u by simp
    then show "CFld f = u \<and> r = q" using span_eq [OF _ _ h(2,3)] CFld h(1) u by simp
  qed
next
  case (CFv c)
  show ?case unfolding reads_def
  proof (intro allI impI)
    fix u r q assume h: "tree_ok u" "stops r" "stops q" "show_tree (CFv c) @ r = show_tree u @ q"
    then obtain d where d: "u = CFv d" "target_ok d" by (cases u) auto
    then show "CFv c = u \<and> r = q" using h(4) CFv target_read [of c d "CHR '')''" "CHR '')''" r q] by simp
  qed
next
  case (CUn op t)
  show ?case unfolding reads_def
  proof (intro allI impI)
    fix u r q assume h: "tree_ok u" "stops r" "stops q" "show_tree (CUn op t) @ r = show_tree u @ q"
    then obtain op' t' where u: "u = CUn op' t'" by (cases u) auto
    have "op @ ''('' @ show_tree t @ '')'' @ r = op' @ ''('' @ show_tree t' @ '')'' @ q" using h(4) u by simp
    from span_eq [OF _ _ _ _ this] have "op = op'" "show_tree t @ '')'' @ r = show_tree t' @ '')'' @ q"
      using CUn.prems h(1) u by auto
    then show "CUn op t = u \<and> r = q" using readsD [OF CUn.IH, of "'')'' @ r" t' "'')'' @ q"] CUn.prems h(1) u by simp
  qed
next
  case (CBin op t1 t2)
  show ?case unfolding reads_def
  proof (intro allI impI)
    fix u r q assume h: "tree_ok u" "stops r" "stops q" "show_tree (CBin op t1 t2) @ r = show_tree u @ q"
    then obtain op' u1 u2 where u: "u = CBin op' u1 u2" by (cases u) auto
    have "op @ ''('' @ show_tree t1 @ '','' @ show_tree t2 @ '')'' @ r = op' @ ''('' @ show_tree u1 @ '','' @ show_tree u2 @ '')'' @ q"
      using h(4) u by simp
    from span_eq [OF _ _ _ _ this]
    have o: "op = op'" "show_tree t1 @ '','' @ show_tree t2 @ '')'' @ r = show_tree u1 @ '','' @ show_tree u2 @ '')'' @ q"
      using CBin.prems h(1) u by auto
    have "t1 = u1" "show_tree t2 @ '')'' @ r = show_tree u2 @ '')'' @ q"
      using readsD [OF CBin.IH(1) o(2)] CBin.prems h(1) u by auto
    then show "CBin op t1 t2 = u \<and> r = q" using o(1) readsD [OF CBin.IH(2), of "'')'' @ r" u2 "'')'' @ q"] CBin.prems h(1) u
      by simp
  qed
next
  case (CIx t1 t2)
  show ?case unfolding reads_def
  proof (intro allI impI)
    fix u r q assume h: "tree_ok u" "stops r" "stops q" "show_tree (CIx t1 t2) @ r = show_tree u @ q"
    then obtain u1 u2 where u: "u = CIx u1 u2" by (cases u) auto
    have o: "show_tree t1 @ '','' @ show_tree t2 @ '')'' @ r = show_tree u1 @ '','' @ show_tree u2 @ '')'' @ q"
      using h(4) u by simp
    have "t1 = u1" "show_tree t2 @ '')'' @ r = show_tree u2 @ '')'' @ q"
      using readsD [OF CIx.IH(1) o] CIx.prems h(1) u by auto
    then show "CIx t1 t2 = u \<and> r = q" using readsD [OF CIx.IH(2), of "'')'' @ r" u2 "'')'' @ q"] CIx.prems h(1) u by simp
  qed
next
  case (CCall c ts)
  show ?case unfolding reads_def
  proof (intro allI impI)
    fix u r q assume h: "tree_ok u" "stops r" "stops q" "show_tree (CCall c ts) @ r = show_tree u @ q"
    then obtain d us where u: "u = CCall d us" by (cases u) auto
    have o: "c = d" "with_commas (map show_tree ts) @ CHR '')'' # r = with_commas (map show_tree us) @ CHR '')'' # q"
      using target_read [of c d "CHR '':''" "CHR '':''" "with_commas (map show_tree ts) @ CHR '')'' # r"
          "with_commas (map show_tree us) @ CHR '')'' # q"] CCall.prems h(1,4) u by auto
    have "ts = us \<and> r = q" using commas_read [OF _ _ o(2)] CCall.IH CCall.prems h(1) u by (auto simp: list_all_iff)
    then show "CCall c ts = u \<and> r = q" using o(1) u by simp
  qed
next
  case (CArr ts)
  show ?case unfolding reads_def
  proof (intro allI impI)
    fix u r q assume h: "tree_ok u" "stops r" "stops q" "show_tree (CArr ts) @ r = show_tree u @ q"
    then obtain us where u: "u = CArr us" by (cases u) auto
    have "with_commas (map show_tree ts) @ CHR '')'' # r = with_commas (map show_tree us) @ CHR '')'' # q" using h(4) u by simp
    from commas_read [OF _ _ this] have "ts = us \<and> r = q" using CArr.IH CArr.prems h(1) u by (auto simp: list_all_iff)
    then show "CArr ts = u \<and> r = q" using u by simp
  qed
qed

lemma show_tree_inj: "tree_ok t \<Longrightarrow> tree_ok u \<Longrightarrow> show_tree t = show_tree u \<Longrightarrow> t = u"
  using readsD [OF all_read, of t "[]" u "[]"] by simp

end
