(* ===== verification/CanonSound.thy ===== *)
theory CanonSound
  imports CanonRead
begin

text \<open>
  The value of an expression, over the operations of a machine, and the main property of the
  canonical text: two expressions with the same text have the same value. The laws of the
  arithmetic the simplifications rest on are an interface (\<open>arith_laws\<close>); the arithmetic of the
  C run time, on 32-bit and 64-bit values, meets it as long as no operand is converted: no
  number is added to a string, and no 32-bit value is shifted as an unsigned 64-bit one.
\<close>

section \<open>Values\<close>

datatype 'v callee = CallSelf | CallValue 'v | CallName string

record ('v, 's) machine =
  m_num :: "int \<Rightarrow> 'v"
  m_str :: "string \<Rightarrow> 'v"
  m_bin :: "string \<Rightarrow> 'v \<Rightarrow> 'v \<Rightarrow> 'v option"
  m_un :: "string \<Rightarrow> 'v \<Rightarrow> 'v option"
  m_stop :: "string \<Rightarrow> 'v \<Rightarrow> 'v option"
  m_index :: "'v \<Rightarrow> 'v \<Rightarrow> 's \<Rightarrow> ('v \<times> 's) option"
  m_field :: "'v \<Rightarrow> string \<Rightarrow> 's \<Rightarrow> ('v \<times> 's) option"
  m_call :: "'v callee \<Rightarrow> 'v list \<Rightarrow> 's \<Rightarrow> ('v \<times> 's) option"
  m_arr :: "'v list \<Rightarrow> 's \<Rightarrow> ('v \<times> 's) option"
  m_fun :: "'v callee \<Rightarrow> 'v"

text \<open>
  \<open>m_stop op v\<close> is the value of \<open>v op \<dots>\<close> when the right operand is not evaluated. \<open>env\<close> is the
  value of a local; a name that is no local is the function itself or a function by its name.
  \<open>ushr\<close> is an operation of the machine.
\<close>

definition callee_of :: "string \<Rightarrow> (string \<Rightarrow> 'v option) \<Rightarrow> string \<Rightarrow> 'v callee" where
  "callee_of me env f = (case env f of Some v \<Rightarrow> CallValue v | None \<Rightarrow> if f = me then CallSelf else CallName f)"

definition bin_step :: "('v, 's) machine \<Rightarrow> string \<Rightarrow> ('s \<Rightarrow> ('v \<times> 's) option) \<Rightarrow> ('s \<Rightarrow> ('v \<times> 's) option) \<Rightarrow> 's \<Rightarrow> ('v \<times> 's) option" where
  "bin_step M op f g s =
     Option.bind (f s) (\<lambda>(a, s). case m_stop M op a of Some v \<Rightarrow> Some (v, s)
       | None \<Rightarrow> Option.bind (g s) (\<lambda>(b, s). map_option (\<lambda>v. (v, s)) (m_bin M op a b)))"

fun all_steps :: "('s \<Rightarrow> ('v \<times> 's) option) list \<Rightarrow> 's \<Rightarrow> ('v list \<times> 's) option" where
  "all_steps [] s = Some ([], s)"
| "all_steps (f # fs) s = Option.bind (f s) (\<lambda>(v, s). map_option (\<lambda>(vs, s). (v # vs, s)) (all_steps fs s))"

definition call_step :: "('v, 's) machine \<Rightarrow> 'v callee \<Rightarrow> ('s \<Rightarrow> ('v \<times> 's) option) list \<Rightarrow> 's \<Rightarrow> ('v \<times> 's) option" where
  "call_step M c fs s =
     Option.bind (all_steps fs s) (\<lambda>(vs, s).
       if c = CallName ''ushr'' \<and> length vs = 2 then map_option (\<lambda>v. (v, s)) (m_bin M ''ushr'' (vs ! 0) (vs ! 1))
       else m_call M c vs s)"

fun eval :: "('v, 's) machine \<Rightarrow> (string \<Rightarrow> bool) \<Rightarrow> string \<Rightarrow> (string \<Rightarrow> 'v option) \<Rightarrow> expr \<Rightarrow> 's \<Rightarrow> ('v \<times> 's) option" where
  "eval M isf me env (EVar f) s =
     (if isf f then Some (m_fun M (callee_of me env f), s) else map_option (\<lambda>v. (v, s)) (env f))"
| "eval M isf me env (ENum ds) s = Some (m_num M (int (dec_value 0 ds)), s)"
| "eval M isf me env (EStr w) s = Some (m_str M w, s)"
| "eval M isf me env (EBool b) s = Some (m_num M (of_bool b), s)"
| "eval M isf me env (EUn op a) s =
     Option.bind (eval M isf me env a s) (\<lambda>(v, s). map_option (\<lambda>w. (w, s)) (m_un M op v))"
| "eval M isf me env (EBin op a b) s = bin_step M op (eval M isf me env a) (eval M isf me env b) s"
| "eval M isf me env (EIndex a b) s =
     Option.bind (eval M isf me env a s) (\<lambda>(v, s). Option.bind (eval M isf me env b s) (\<lambda>(w, s). m_index M v w s))"
| "eval M isf me env (EField a f) s = Option.bind (eval M isf me env a s) (\<lambda>(v, s). m_field M v f s)"
| "eval M isf me env (ECall f xs) s = call_step M (callee_of me env f) (map (eval M isf me env) xs) s"
| "eval M isf me env (EArr xs) s = Option.bind (all_steps (map (eval M isf me env) xs) s) (\<lambda>(vs, s). m_arr M vs s)"

text \<open>The value of a tree, with the locals by their numbers.\<close>

definition text_num :: "string \<Rightarrow> int" where
  "text_num t = (if t \<noteq> [] \<and> hd t = CHR ''-'' then - int (dec_value 0 (tl t)) else int (dec_value 0 t))"

fun target_callee :: "'v list \<Rightarrow> target \<Rightarrow> 'v callee" where
  "target_callee vs Self = CallSelf"
| "target_callee vs (Local k) = CallValue (vs ! k)"
| "target_callee vs (Global f) = CallName f"

fun tree_eval :: "('v, 's) machine \<Rightarrow> 'v list \<Rightarrow> ctree \<Rightarrow> 's \<Rightarrow> ('v \<times> 's) option" where
  "tree_eval M vs (CI t) s = Some (m_num M (text_num t), s)"
| "tree_eval M vs (CS q) s = Some (m_str M (butlast (tl q)), s)"
| "tree_eval M vs (CV k) s = Some (vs ! k, s)"
| "tree_eval M vs (CFld f) s = None"
| "tree_eval M vs (CFv c) s = Some (m_fun M (target_callee vs c), s)"
| "tree_eval M vs (CUn op t) s =
     Option.bind (tree_eval M vs t s) (\<lambda>(v, s). map_option (\<lambda>w. (w, s)) (m_un M op v))"
| "tree_eval M vs (CBin op t u) s = bin_step M op (tree_eval M vs t) (tree_eval M vs u) s"
| "tree_eval M vs (CIx t u) s =
     Option.bind (tree_eval M vs t s) (\<lambda>(v, s). case u of CFld f \<Rightarrow> m_field M v f s
       | _ \<Rightarrow> Option.bind (tree_eval M vs u s) (\<lambda>(w, s). m_index M v w s))"
| "tree_eval M vs (CCall c ts) s = call_step M (target_callee vs c) (map (tree_eval M vs) ts) s"
| "tree_eval M vs (CArr ts) s = Option.bind (all_steps (map (tree_eval M vs) ts) s) (\<lambda>(ws, s). m_arr M ws s)"

section \<open>The laws the simplifications rest on\<close>

locale arith_laws =
  fixes bin :: "string \<Rightarrow> 'v \<Rightarrow> 'v \<Rightarrow> 'v option"
    and num :: "int \<Rightarrow> 'v"
    and stop :: "string \<Rightarrow> 'v \<Rightarrow> 'v option"
  assumes no_stop: "op \<notin> {''&&'', ''||''} \<Longrightarrow> stop op v = None"
    and zero_right: "op \<in> {''+'', ''|'', ''^'', ''-'', ''<<'', ''>>'', ''ushr''} \<Longrightarrow> bin op v (num 0) = Some w \<Longrightarrow> w = v"
    and zero_left: "op \<in> {''+'', ''|'', ''^''} \<Longrightarrow> bin op (num 0) v = Some w \<Longrightarrow> w = v"
    and one_right: "op \<in> {''*'', ''/''} \<Longrightarrow> bin op v (num 1) = Some w \<Longrightarrow> w = v"
    and one_left: "bin ''*'' (num 1) v = Some w \<Longrightarrow> w = v"
    and computed: "0 \<le> a \<Longrightarrow> a \<le> INT_MAX \<Longrightarrow> 0 \<le> b \<Longrightarrow> b \<le> INT_MAX \<Longrightarrow> fold_val op a b = Some n
      \<Longrightarrow> bin op (num a) (num b) = Some w \<Longrightarrow> w = num n"

text \<open>
  A literal above 32 bits whose low half is 0 or 1 is taken for that number by the
  simplifications; \<open>exact\<close> excludes it.
\<close>

fun exact :: "expr \<Rightarrow> bool" where
  "exact (ENum ds) = (wide (ENum ds) \<longrightarrow> id_to_int ds \<notin> {0, 1})"
| "exact (EUn op a) = exact a"
| "exact (EBin op a b) = (exact a \<and> exact b)"
| "exact (EIndex a b) = (exact a \<and> exact b)"
| "exact (EField a f) = exact a"
| "exact (ECall f xs) = list_all exact xs"
| "exact (EArr xs) = list_all exact xs"
| "exact _ = True"

definition locals :: "string list \<Rightarrow> 'v list \<Rightarrow> string \<Rightarrow> 'v option" where
  "locals names vs f = (if f \<in> set names then Some (vs ! nat (last_of [0..<length names] names f)) else None)"

lemma target_value: "target_callee vs (target_of me names f) = callee_of me (locals names vs) f"
  by (simp add: target_of_def callee_of_def locals_def)

lemma text_num_int: "- 2147483648 \<le> n \<Longrightarrow> n \<le> INT_MAX \<Longrightarrow> text_num (int_text n) = n"
proof -
  assume n: "- 2147483648 \<le> n" "n \<le> INT_MAX"
  let ?x = "scast (word_of_int n :: w32) :: w64"
  have x: "sint ?x = n" using n by (simp add: sint_scast_w32 INT_MAX_def)
  have t: "int_text n = (if n < 0 then CHR ''-'' # dec_str (nat (- n)) else dec_str (nat n))"
    by (simp only: int_text_def id_str_of_int_def id_str_of_word_text x)
  have v: "dec_value 0 (dec_str u) = u" for u by (rule dec_str_value)
  obtain c cs where c: "dec_str (nat n) = c # cs" "c_digit c" using dec_str_Cons by blast
  then have "c \<noteq> CHR ''-''" using digit_not_sign by blast
  then show ?thesis using v [of "nat n"] v [of "nat (- n)"] c(1) unfolding t text_num_def
    by (auto simp del: dec_str.simps)
qed

lemma text_num_digits: "digits t \<Longrightarrow> text_num t = int (dec_value 0 t)"
  by (cases t) (auto simp: text_num_def c_digit_def)

lemma fold_val_range:
  assumes "0 \<le> a" "a \<le> INT_MAX" "0 \<le> b" "b \<le> INT_MAX" "fold_val op a b = Some n"
  shows "- 2147483648 \<le> n \<and> n \<le> INT_MAX"
proof -
  have t: "take_bit 31 a = a" "take_bit 31 b = b" using assms(1-4) by (simp_all add: take_bit_int_eq_self INT_MAX_def)
  have bits: "0 \<le> take_bit 31 k" "take_bit 31 k \<le> INT_MAX" for k :: int
    using take_bit_int_less_exp [of 31 k] by (simp_all add: INT_MAX_def)
  have "a OR b = take_bit 31 (a OR b)" "a XOR b = take_bit 31 (a XOR b)" "a AND b = take_bit 31 (a AND b)"
    using t by simp_all
  then have w: "0 \<le> a OR b \<and> a OR b \<le> INT_MAX" "0 \<le> a XOR b \<and> a XOR b \<le> INT_MAX" "0 \<le> a AND b \<and> a AND b \<le> INT_MAX"
    using bits by metis+
  have d: "b \<noteq> 0 \<Longrightarrow> 0 \<le> a div b \<and> a div b \<le> INT_MAX \<and> 0 \<le> a mod b \<and> a mod b \<le> INT_MAX"
    using assms(1-4) zdiv_mono2 [of a 1 b] zmod_le_nonneg_dividend [of a b] by (auto simp: pos_imp_zdiv_nonneg_iff)
  have s: "0 \<le> a div 2 ^ nat b \<and> a div 2 ^ nat b \<le> INT_MAX"
    using assms(1-4) zdiv_mono2 [of a 1 "2 ^ nat b"] by (auto simp: pos_imp_zdiv_nonneg_iff)
  show ?thesis
  proof (cases "op = ''-''")
    case True
    then have "n = a - b" using assms(5) by (simp add: fold_val_def)
    then show ?thesis using assms(1-4) by (simp add: INT_MAX_def)
  next
    case False
    then have "0 \<le> n \<and> n \<le> INT_MAX"
      using assms w d s by (auto simp: fold_val_def fits_def split: if_splits)
    then show ?thesis by simp
  qed
qed

lemma tree_not_fld: "tree_of isf me names e \<noteq> CFld f"
proof (induction e)
  case (EBin op a b)
  then show ?case by (auto split: option.splits)
next
  case (ECall g xs)
  then show ?case by (auto simp: Let_def drops_shift_def)
qed auto

lemma ix_eval:
  assumes "\<forall>f. u \<noteq> CFld f"
  shows "tree_eval M vs (CIx t u) s
     = Option.bind (tree_eval M vs t s) (\<lambda>(v, s). Option.bind (tree_eval M vs u s) (\<lambda>(w, s). m_index M v w s))"
  using assms by (cases u) simp_all

lemma lit_value:
  assumes "writable e" "exact e" "lit_of e = Some v" "\<not> wide e \<or> v \<in> {0, 1}"
  shows "eval M isf me env e s = Some (m_num M v, s)"
proof (cases e)
  case (ENum ds)
  then have "digits ds" "ds \<noteq> []" using assms(1) by (auto simp: chr_is_def char_class_defs c_digit_def list_all_iff)
  then show ?thesis using assms(2-4) ENum to_int_value [of ds] by (auto simp: not_less)
qed (use assms in auto)

lemma all_steps_sim:
  assumes "\<forall>x \<in> set xs. \<forall>s r. f x s = Some r \<longrightarrow> g x s = Some r" "all_steps (map f xs) s = Some r"
  shows "all_steps (map g xs) s = Some r"
  using assms
proof (induction xs arbitrary: s r)
  case (Cons x xs)
  then obtain v s1 ws s2 where v: "f x s = Some (v, s1)" "all_steps (map f xs) s1 = Some (ws, s2)" "r = (v # ws, s2)"
    by (auto split: bind_splits)
  then have "g x s = Some (v, s1)" "all_steps (map g xs) s1 = Some (ws, s2)" using Cons by auto
  then show ?case using v(3) by simp
qed simp

lemma bin_step_sim:
  assumes "\<And>s r. f s = Some r \<Longrightarrow> f' s = Some r" "\<And>s r. g s = Some r \<Longrightarrow> g' s = Some r" "bin_step M op f g s = Some r"
  shows "bin_step M op f' g' s = Some r"
proof -
  obtain a s1 where a: "f s = Some (a, s1)" using assms(3) by (auto simp: bin_step_def split: bind_splits)
  then show ?thesis using assms(1) [OF a] assms(2,3)
    by (cases "m_stop M op a"; cases "g s1") (auto simp: bin_step_def)
qed

lemma call_step_sim:
  assumes "\<forall>x \<in> set xs. \<forall>s r. f x s = Some r \<longrightarrow> g x s = Some r" "call_step M c (map f xs) s = Some r"
  shows "call_step M c (map g xs) s = Some r"
proof -
  obtain a where a: "all_steps (map f xs) s = Some a" using assms(2) by (auto simp: call_step_def split: bind_splits)
  then show ?thesis using assms(2) all_steps_sim [OF assms(1) a] by (simp add: call_step_def)
qed

section \<open>Simplifying keeps the value\<close>

context arith_laws begin

lemma literals_computed:
  assumes "writable a" "writable b" "exact a" "exact b" "folded op a b = Some n" "m_bin M = bin" "m_num M = num" "m_stop M = stop"
    "bin_step M op (eval M isf me env a) (eval M isf me env b) s = Some r"
  shows "r = (m_num M (text_num (int_text n)), s)"
proof -
  obtain x y where l: "lit_of a = Some x" "lit_of b = Some y" "\<not> wide a" "\<not> wide b" "fold_val op x y = Some n"
    using assms(5) by (auto simp: folded_def split: option.splits if_splits)
  have r: "0 \<le> x" "x \<le> INT_MAX" "0 \<le> y" "y \<le> INT_MAX"
    using lit_range [OF assms(1) l(1,3)] lit_range [OF assms(2) l(2,4)] by auto
  have "op \<notin> {''&&'', ''||''}" using l(5) by (auto simp: fold_val_def)
  then have "m_stop M op v = None" for v using no_stop assms(8) by simp
  then obtain w where w: "bin op (num x) (num y) = Some w" "r = (w, s)"
    using assms(9) lit_value [OF assms(1,3) l(1), of M isf me env s] lit_value [OF assms(2,4) l(2), of M isf me env s] l(3,4)
      assms(6,7) by (auto simp: bin_step_def)
  have "text_num (int_text n) = n" using fold_val_range [OF r l(5)] by (intro text_num_int) auto
  then show ?thesis using computed [OF r l(5) w(1)] w(2) assms(7) by simp
qed

lemma operand_kept:
  assumes "writable a" "writable b" "exact a" "exact b" "m_bin M = bin" "m_num M = num" "m_stop M = stop"
    "bin_step M op (eval M isf me env a) (eval M isf me env b) s = Some r"
  shows "(kept op a b = 1 \<longrightarrow> eval M isf me env a s = Some r) \<and> (kept op a b = 2 \<longrightarrow> eval M isf me env b s = Some r)"
proof (intro conjI impI)
  assume k: "kept op a b = 1"
  then obtain c where c: "lit_of b = Some c" "c \<in> {0, 1}"
    "c = 0 \<and> op \<in> {''+'', ''|'', ''^'', ''-'', ''<<'', ''>>''} \<or> c = 1 \<and> op \<in> {''*'', ''/''}"
    by (auto simp: kept_def split: if_splits)
  then have "op \<notin> {''&&'', ''||''}" by auto
  then have n: "m_stop M op v = None" for v using no_stop assms(7) by simp
  obtain v s1 where v: "eval M isf me env a s = Some (v, s1)" using assms(8) by (auto simp: bin_step_def split: bind_splits)
  have b: "eval M isf me env b s1 = Some (num c, s1)"
    using lit_value [OF assms(2,4) c(1), of M isf me env s1] c(2) assms(6) by simp
  obtain w where "bin op v (num c) = Some w" "r = (w, s1)" using assms(5,8) v b n by (auto simp: bin_step_def)
  then show "eval M isf me env a s = Some r" using v c(3) zero_right [of op v w] one_right [of op v w] by auto
next
  assume k: "kept op a b = 2"
  then obtain c where c: "lit_of a = Some c" "c \<in> {0, 1}" "c = 0 \<and> op \<in> {''+'', ''|'', ''^''} \<or> c = 1 \<and> op = ''*''"
    by (auto simp: kept_def split: if_splits)
  then have "op \<notin> {''&&'', ''||''}" by auto
  then have n: "m_stop M op v = None" for v using no_stop assms(7) by simp
  have a: "eval M isf me env a s = Some (num c, s)"
    using lit_value [OF assms(1,3) c(1), of M isf me env s] c(2) assms(6) by simp
  obtain v s1 w where v: "eval M isf me env b s = Some (v, s1)" "bin op (num c) v = Some w" "r = (w, s1)"
    using assms(5,8) a n by (auto simp: bin_step_def split: bind_splits)
  then show "eval M isf me env b s = Some r" using c(3) zero_left [of op v w] one_left [of v w] by auto
qed

lemma shift_dropped:
  assumes "writable z" "exact z" "lit_of z = Some 0" "m_bin M = bin" "m_num M = num"
    "call_step M (CallName ''ushr'') [f, eval M isf me env z] s = Some r"
  shows "f s = Some r"
proof -
  obtain v s1 where v: "f s = Some (v, s1)" using assms(6) by (auto simp: call_step_def split: bind_splits)
  have "eval M isf me env z s1 = Some (num 0, s1)" using lit_value [OF assms(1-3), of M isf me env s1] assms(5) by simp
  then obtain w where "bin ''ushr'' v (num 0) = Some w" "r = (w, s1)" using assms(4,6) v by (auto simp: call_step_def)
  then show ?thesis using v zero_right [of "''ushr''" v w] by simp
qed

lemma tree_sound:
  assumes "m_bin M = bin" "m_num M = num" "m_stop M = stop" "''ushr'' \<notin> set names" "me \<noteq> ''ushr''"
  shows "writable e \<Longrightarrow> exact e \<Longrightarrow> scoped isf names e \<Longrightarrow> eval M isf me (locals names vs) e s = Some r
    \<Longrightarrow> tree_eval M vs (tree_of isf me names e) s = Some r"
proof (induction e arbitrary: s r)
  case (EVar f)
  then show ?case by (auto simp: target_value) (auto simp: locals_def split: if_splits)
next
  case (ENum ds)
  then have d: "digits ds" "int (length ds) \<le> INT_MAX"
    by (auto simp: chr_is_def char_class_defs c_digit_def list_all_iff INT_MAX_def)
  obtain z where z: "id_strip_zeros ds = Inr z" "digits z" "dec_value 0 z = dec_value 0 ds" using stripped [OF d] by blast
  then have "text_num (zeroless ds) = int (dec_value 0 ds)" by (simp add: zeroless_def text_num_digits)
  then show ?case using ENum by simp
next
  case (EStr w)
  then show ?case by (simp add: butlast_append)
next
  case (EBool b)
  then show ?case by (auto simp: text_num_def dec_value_def c_digit_def)
next
  case (EUn op a)
  obtain v s1 where v: "eval M isf me (locals names vs) a s = Some (v, s1)" using EUn.prems(4) by (auto split: bind_splits)
  then show ?case using EUn.IH [OF _ _ _ v] EUn.prems by simp
next
  case (EBin op a b)
  have p: "writable a" "writable b" "exact a" "exact b" using EBin.prems by auto
  have st: "bin_step M op (eval M isf me (locals names vs) a) (eval M isf me (locals names vs) b) s = Some r"
    using EBin.prems(4) by simp
  have ia: "eval M isf me (locals names vs) a s = Some r \<Longrightarrow> tree_eval M vs (tree_of isf me names a) s = Some r" for s r
    using EBin.IH(1) EBin.prems by auto
  have ib: "eval M isf me (locals names vs) b s = Some r \<Longrightarrow> tree_eval M vs (tree_of isf me names b) s = Some r" for s r
    using EBin.IH(2) EBin.prems by auto
  show ?case
  proof (cases "folded op a b")
    case None
    note k = operand_kept [OF p assms(1-3) st]
    consider "kept op a b = 1" | "kept op a b = 2" | "kept op a b \<notin> {1, 2}" by auto
    then show ?thesis
    proof cases
      case 3
      then show ?thesis using None bin_step_sim [OF ia ib st] by auto
    qed (use None k ia ib in auto)
  next
    case (Some n)
    then show ?thesis using literals_computed [OF p Some assms(1-3) st] by simp
  qed
next
  case (EIndex a b)
  obtain v s1 w s2 where v: "eval M isf me (locals names vs) a s = Some (v, s1)"
    "eval M isf me (locals names vs) b s1 = Some (w, s2)" "m_index M v w s2 = Some r"
    using EIndex.prems(4) by (auto split: bind_splits)
  have "tree_eval M vs (tree_of isf me names a) s = Some (v, s1)" "tree_eval M vs (tree_of isf me names b) s1 = Some (w, s2)"
    using EIndex.IH(1) [OF _ _ _ v(1)] EIndex.IH(2) [OF _ _ _ v(2)] EIndex.prems by auto
  then show ?case using v(3) ix_eval [of "tree_of isf me names b" M vs] tree_not_fld [of isf me names b]
    by (simp del: tree_eval.simps)
next
  case (EField a f)
  obtain v s1 where v: "eval M isf me (locals names vs) a s = Some (v, s1)" using EField.prems(4) by (auto split: bind_splits)
  then show ?case using EField.IH [OF _ _ _ v] EField.prems by simp
next
  case (ECall f xs)
  have ih: "\<forall>x \<in> set xs. \<forall>s r. eval M isf me (locals names vs) x s = Some r
      \<longrightarrow> (tree_eval M vs \<circ> tree_of isf me names) x s = Some r"
    using ECall.IH ECall.prems(1-3) by (auto simp: list_all_iff)
  have st: "call_step M (callee_of me (locals names vs) f) (map (eval M isf me (locals names vs)) xs) s = Some r"
    using ECall.prems(4) by simp
  show ?case
  proof (cases "drops_shift f xs")
    case True
    then obtain x z where x: "xs = [x, z]" "lit_of z = Some 0" "f = ''ushr''"
      by (auto simp: drops_shift_def length_Suc_conv numeral_2_eq_2)
    have "callee_of me (locals names vs) f = CallName ''ushr''" using assms(4,5) x(3) by (simp add: callee_of_def locals_def)
    then have "eval M isf me (locals names vs) x s = Some r"
      using shift_dropped [OF _ _ x(2) assms(1,2)] st x ECall.prems(1,2) by simp
    then show ?thesis using ih x True by (cases r) (simp add: Let_def)
  next
    case False
    then show ?thesis using call_step_sim [OF ih st] by (simp add: Let_def target_value comp_def)
  qed
next
  case (EArr xs)
  have ih: "\<forall>x \<in> set xs. \<forall>s r. eval M isf me (locals names vs) x s = Some r
      \<longrightarrow> (tree_eval M vs \<circ> tree_of isf me names) x s = Some r"
    using EArr.IH EArr.prems(1-3) by (auto simp: list_all_iff)
  obtain ws s1 where "all_steps (map (eval M isf me (locals names vs)) xs) s = Some (ws, s1)" "m_arr M ws s1 = Some r"
    using EArr.prems(4) by (auto split: bind_splits)
  then show ?case using all_steps_sim [OF ih] by (simp add: comp_def)
qed

end

end
