(* ===== verification/CanonRun.thy ===== *)
theory CanonRun
  imports CanonSound
begin

section \<open>The arithmetic of the run time\<close>

text \<open>
  Values are 32-bit and 64-bit integers, strings and references. An operation on a 32-bit and
  a 64-bit value is done on 64 bits. A number added to a string is written out, and \<open>ushr\<close>
  reads a 32-bit operand as unsigned; with \<open>strict\<close>, these two conversions are not done.
\<close>

datatype rtval = RInt w32 | RWord w64 | RStr string | RRef int

definition widen :: "w32 \<Rightarrow> w64" where
  "widen x = scast x"

definition narrow :: "w64 \<Rightarrow> w32" where
  "narrow x = scast x"

definition some_of :: "'a res \<Rightarrow> 'a option" where
  "some_of r = (case r of Inr x \<Rightarrow> Some x | Inl _ \<Rightarrow> None)"

definition word_op :: "string \<Rightarrow> w64 \<Rightarrow> w64 \<Rightarrow> w64 option" where
  "word_op op x z =
     (if op = ''+'' then Some (x + z) else if op = ''-'' then Some (x - z) else if op = ''*'' then Some (x * z)
      else if op = ''&'' then Some (x AND z) else if op = ''|'' then Some (x OR z) else if op = ''^'' then Some (x XOR z)
      else if op = ''<<'' then some_of (id_shl x z) else if op = ''>>'' then some_of (id_sar x z)
      else if op = ''/'' then some_of (id_sdiv x z) else if op = ''%'' then some_of (id_smod x z) else None)"

definition int_op :: "string \<Rightarrow> w32 \<Rightarrow> w32 \<Rightarrow> w32 option" where
  "int_op op x z =
     (if op = ''/'' then some_of (id_idiv x z) else if op = ''%'' then some_of (id_imod x z)
      else map_option narrow (word_op op (widen x) (widen z)))"

definition compare_op :: "string \<Rightarrow> int \<Rightarrow> int \<Rightarrow> bool option" where
  "compare_op op x z =
     (if op = ''=='' then Some (x = z) else if op = ''!='' then Some (x \<noteq> z) else if op = ''<'' then Some (x < z)
      else if op = ''>'' then Some (x > z) else if op = ''<='' then Some (x \<le> z) else if op = ''>='' then Some (x \<ge> z)
      else None)"

definition truth :: "bool \<Rightarrow> rtval" where
  "truth b = RInt (of_bool b)"

definition rt_words :: "string \<Rightarrow> w64 \<Rightarrow> w64 \<Rightarrow> rtval option" where
  "rt_words op x z =
     (if op = ''ushr'' then map_option RWord (some_of (id_ushr x z))
      else case compare_op op (sint x) (sint z) of Some b \<Rightarrow> Some (truth b) | None \<Rightarrow> map_option RWord (word_op op x z))"

definition rt_ints :: "bool \<Rightarrow> string \<Rightarrow> w32 \<Rightarrow> w32 \<Rightarrow> rtval option" where
  "rt_ints strict op x z =
     (if op = ''ushr'' then (if strict then None else map_option RWord (some_of (id_ushr (ucast x) (ucast z))))
      else case compare_op op (sint x) (sint z) of Some b \<Rightarrow> Some (truth b) | None \<Rightarrow> map_option RInt (int_op op x z))"

fun rt_bin :: "bool \<Rightarrow> string \<Rightarrow> rtval \<Rightarrow> rtval \<Rightarrow> rtval option" where
  "rt_bin strict op (RInt x) (RInt z) = rt_ints strict op x z"
| "rt_bin strict op (RInt x) (RWord z) =
     (if op = ''ushr'' then (if strict then None else rt_words op (ucast x) z) else rt_words op (widen x) z)"
| "rt_bin strict op (RWord x) (RInt z) = rt_words op x (widen z)"
| "rt_bin strict op (RWord x) (RWord z) = rt_words op x z"
| "rt_bin strict op (RStr x) (RStr z) =
     (if op = ''+'' then Some (RStr (x @ z)) else if op = ''=='' then Some (truth (x = z))
      else if op = ''!='' then Some (truth (x \<noteq> z)) else None)"
| "rt_bin strict op (RStr x) (RInt z) = (if op = ''+'' \<and> \<not> strict then Some (RStr (x @ id_str_of_int z)) else None)"
| "rt_bin strict op (RInt x) (RStr z) = (if op = ''+'' \<and> \<not> strict then Some (RStr (id_str_of_int x @ z)) else None)"
| "rt_bin strict op (RStr x) (RWord z) = (if op = ''+'' \<and> \<not> strict then Some (RStr (x @ id_str_of_word z)) else None)"
| "rt_bin strict op (RWord x) (RStr z) = (if op = ''+'' \<and> \<not> strict then Some (RStr (id_str_of_word x @ z)) else None)"
| "rt_bin strict op _ _ = None"

definition rt_num :: "int \<Rightarrow> rtval" where
  "rt_num n = (if - 2147483648 \<le> n \<and> n \<le> INT_MAX then RInt (word_of_int n) else RWord (word_of_int n))"

fun rt_stop :: "string \<Rightarrow> rtval \<Rightarrow> rtval option" where
  "rt_stop op (RInt x) = (if op = ''&&'' \<and> x = 0 then Some (RInt 0) else if op = ''||'' \<and> x \<noteq> 0 then Some (RInt 1) else None)"
| "rt_stop op _ = None"

section \<open>It meets the laws\<close>

lemma narrow_of_int: "narrow (word_of_int k) = word_of_int k"
proof -
  have e: "narrow (word_of_int k) = word_of_int (sint (word_of_int k :: w64))"
    unfolding narrow_def by (rule scast_eq)
  show ?thesis unfolding e sint_sbintrunc' by (simp add: word_of_int_eq_iff take_bit_signed_take_bit)
qed

lemma narrow_widen [simp]: "narrow (widen x) = x"
proof -
  have "widen x = word_of_int (sint x)" by (simp add: widen_def)
  then show ?thesis using narrow_of_int [of "sint x"] by simp
qed

lemma widen_small [simp]: "widen 0 = 0" "widen 1 = 1"
  by (simp_all add: widen_def)

lemma sdiv_one: "(k :: int) sdiv 1 = k"
  by (simp add: signed_divide_int_def sgn_mult_abs)

lemma by_one: "id_sdiv x 1 = Inr x" "id_idiv y 1 = Inr y"
  by (simp_all add: id_sdiv_def id_idiv_def sdiv_one)

lemma by_zero: "id_shl x 0 = Inr x" "id_sar x 0 = Inr x" "id_ushr x 0 = Inr x"
  by (simp_all add: id_shl_def id_sar_def id_ushr_def)

lemmas rt_defs = rt_words_def rt_ints_def word_op_def int_op_def compare_op_def some_of_def by_one by_zero

lemma rt_num_small [simp]: "rt_num 0 = RInt 0" "rt_num 1 = RInt 1"
  by (simp_all add: rt_num_def INT_MAX_def)

lemma word_eqI32: "sint x = n \<Longrightarrow> x = (word_of_int n :: w32)"
  by auto

lemma c_div_word:
  assumes "c_idiv a b = Inr n"
  shows "id_idiv (word_of_int a) (word_of_int b) = Inr (word_of_int n)"
  using assms by (cases "id_idiv (word_of_int a) (word_of_int b)") (auto simp: c_idiv_def)

lemma c_mod_word:
  assumes "c_imod a b = Inr n"
  shows "id_imod (word_of_int a) (word_of_int b) = Inr (word_of_int n)"
  using assms by (cases "id_imod (word_of_int a) (word_of_int b)") (auto simp: c_imod_def)

lemma widen_of_int: "0 \<le> a \<Longrightarrow> a \<le> INT_MAX \<Longrightarrow> widen (word_of_int a) = word_of_int a"
proof -
  assume "0 \<le> a" "a \<le> INT_MAX"
  then have "sint (word_of_int a :: w32) = a" by (simp add: wrap32_small INT_MAX_def)
  moreover have "widen (word_of_int a) = word_of_int (sint (word_of_int a :: w32))" unfolding widen_def by (rule scast_eq)
  ultimately show ?thesis by metis
qed

lemma fold_is_int:
  assumes "0 \<le> a" "a \<le> INT_MAX" "0 \<le> b" "b \<le> INT_MAX" "fold_val op a b = Some n"
    "int_op op (word_of_int a) (word_of_int b) = Some w"
  shows "w = word_of_int n"
proof -
  have dm: "op = ''/'' \<or> op = ''%'' \<Longrightarrow> w = word_of_int n"
    using assms c_div_word [of a b "a div b"] c_mod_word [of a b "a mod b"]
    by (auto simp: c_idiv_nat c_imod_nat fold_val_def int_op_def some_of_def split: if_splits)
  have wo: "op \<notin> {''/'', ''%''} \<Longrightarrow> \<exists>z. word_op op (word_of_int a) (word_of_int b) = Some z \<and> w = narrow z"
    using assms by (auto simp: int_op_def widen_of_int)
  have shl: "op = ''<<'' \<Longrightarrow> word_op op (word_of_int a) (word_of_int b) = Some z \<Longrightarrow> z = word_of_int n" for z
  proof -
    assume o: "op = ''<<''" and z: "word_op op (word_of_int a) (word_of_int b) = Some z"
    have "b < 32" "n = a * 2 ^ nat b" using o assms(5) by (auto simp: fold_val_def fits_def split: if_splits)
    then have "id_shl_word a b = Inr n" using compute_shl_ok assms(1-3) by simp
    then have "sint z = n" using z o by (auto simp: word_op_def some_of_def id_shl_word_def split: sum.splits)
    then show "z = word_of_int n" by auto
  qed
  have sar: "op = ''>>'' \<Longrightarrow> word_op op (word_of_int a) (word_of_int b) = Some z \<Longrightarrow> z = word_of_int n" for z
  proof -
    assume o: "op = ''>>''" and z: "word_op op (word_of_int a) (word_of_int b) = Some z"
    have "n = a div 2 ^ nat b" using o assms(5) by (simp add: fold_val_def)
    then have "sint z = n" using z o sar_small [OF assms(1-4)] by (auto simp: word_op_def some_of_def)
    then show "z = word_of_int n" by auto
  qed
  show ?thesis
  proof (cases "op \<in> {''/'', ''%''}")
    case True
    then show ?thesis using dm by auto
  next
    case False
    then obtain z where z: "word_op op (word_of_int a) (word_of_int b) = Some z" "w = narrow z" using wo by blast
    have "z = word_of_int n"
    proof (cases "op \<in> {''<<'', ''>>''}")
      case True
      then show ?thesis using shl [OF _ z(1)] sar [OF _ z(1)] by auto
    next
      case o: False
      show ?thesis using o False assms(5) z(1)
        by (auto simp: fold_val_def word_op_def fits_def word_wi_log_defs split: if_splits)
    qed
    then show ?thesis using z(2) narrow_of_int by simp
  qed
qed

lemma by_zero_right: "op \<in> {''+'', ''|'', ''^'', ''-'', ''<<'', ''>>''} \<Longrightarrow> word_op op x 0 = Some x \<and> compare_op op a b = None"
  by (auto simp: word_op_def compare_op_def some_of_def by_zero)

lemma by_zero_left: "op \<in> {''+'', ''|'', ''^''} \<Longrightarrow> word_op op 0 x = Some x \<and> compare_op op a b = None"
  by (auto simp: word_op_def compare_op_def)

lemma by_one_right: "op \<in> {''*'', ''/''} \<Longrightarrow> word_op op x 1 = Some x \<and> int_op op y 1 = Some y \<and> compare_op op a b = None"
  by (auto simp: word_op_def int_op_def compare_op_def some_of_def by_one)

lemma by_one_left: "word_op ''*'' 1 x = Some x" "int_op ''*'' 1 y = Some y" "compare_op ''*'' a b = None"
  by (auto simp: word_op_def int_op_def compare_op_def)

lemma rt_zero_right:
  assumes "op \<in> {''+'', ''|'', ''^'', ''-'', ''<<'', ''>>'', ''ushr''}" "rt_bin True op v (rt_num 0) = Some w"
  shows "w = v"
proof (cases "op = ''ushr''")
  case True
  then show ?thesis using assms(2) by (cases v) (auto simp: rt_ints_def rt_words_def some_of_def by_zero)
next
  case False
  then have o: "op \<in> {''+'', ''|'', ''^'', ''-'', ''<<'', ''>>''}" using assms(1) by auto
  have i: "int_op op x 0 = Some x" for x using o by_zero_right [OF o] by (auto simp: int_op_def)
  show ?thesis using assms(2) False i by_zero_right [OF o] by (cases v) (auto simp: rt_ints_def rt_words_def)
qed

lemma rt_zero_left:
  assumes "op \<in> {''+'', ''|'', ''^''}" "rt_bin True op (rt_num 0) v = Some w"
  shows "w = v"
proof -
  have n: "op \<noteq> ''ushr''" using assms(1) by auto
  have i: "int_op op 0 x = Some x" for x using assms(1) by_zero_left [OF assms(1)] by (auto simp: int_op_def)
  show ?thesis using assms(2) n i by_zero_left [OF assms(1)] by (cases v) (auto simp: rt_ints_def rt_words_def)
qed

lemma rt_one_right:
  assumes "op \<in> {''*'', ''/''}" "rt_bin True op v (rt_num 1) = Some w"
  shows "w = v"
proof -
  have n: "op \<noteq> ''ushr''" "op \<noteq> ''+''" using assms(1) by auto
  show ?thesis using assms(2) n by_one_right [OF assms(1)] by (cases v) (auto simp: rt_ints_def rt_words_def)
qed

lemma rt_one_left: "rt_bin True ''*'' (rt_num 1) v = Some w \<Longrightarrow> w = v"
  by (cases v) (auto simp: rt_ints_def rt_words_def by_one_left)

lemma rt_computed:
  assumes "0 \<le> a" "a \<le> INT_MAX" "0 \<le> b" "b \<le> INT_MAX" "fold_val op a b = Some n"
    "rt_bin True op (rt_num a) (rt_num b) = Some w"
  shows "w = rt_num n"
proof -
  have r: "rt_num a = RInt (word_of_int a)" "rt_num b = RInt (word_of_int b)" "rt_num n = RInt (word_of_int n)"
    using assms(1-4) fold_val_range [OF assms(1-5)] by (simp_all add: rt_num_def INT_MAX_def)
  have c: "compare_op op x z = None" "op \<noteq> ''ushr''" for x z
    using assms(5) by (auto simp: fold_val_def compare_op_def split: if_splits)
  have "map_option RInt (int_op op (word_of_int a) (word_of_int b)) = Some w"
    using assms(6) unfolding r rt_bin.simps rt_ints_def c(1) using c(2) by simp
  then obtain z where "int_op op (word_of_int a) (word_of_int b) = Some z" "w = RInt z" by blast
  then show ?thesis using r(3) fold_is_int [OF assms(1-5)] by simp
qed

lemma rt_no_stop: "op \<notin> {''&&'', ''||''} \<Longrightarrow> rt_stop op v = None"
  by (cases v) auto

interpretation rt: arith_laws "rt_bin True" rt_num rt_stop
  by unfold_locales (fact rt_no_stop rt_zero_right rt_zero_left rt_one_right rt_one_left rt_computed)+

section \<open>The trees of expressions can be read back\<close>

text \<open>
  A function that is called or taken as a value has a name that is no marker, unless the name
  is that of a local or of the function itself.
\<close>

definition name_ok :: "string \<Rightarrow> string list \<Rightarrow> string \<Rightarrow> bool" where
  "name_ok me names f \<longleftrightarrow> f \<in> set names \<or> f = me \<or> no_marker f"

fun names_ok :: "(string \<Rightarrow> bool) \<Rightarrow> string \<Rightarrow> string list \<Rightarrow> expr \<Rightarrow> bool" where
  "names_ok isf me names (EVar f) = (isf f \<longrightarrow> name_ok me names f)"
| "names_ok isf me names (EUn op a) = names_ok isf me names a"
| "names_ok isf me names (EBin op a b) = (names_ok isf me names a \<and> names_ok isf me names b)"
| "names_ok isf me names (EIndex a b) = (names_ok isf me names a \<and> names_ok isf me names b)"
| "names_ok isf me names (EField a f) = names_ok isf me names a"
| "names_ok isf me names (ECall f xs) = (name_ok me names f \<and> list_all (names_ok isf me names) xs)"
| "names_ok isf me names (EArr xs) = list_all (names_ok isf me names) xs"
| "names_ok isf me names _ = True"

lemma name_inside: "plain_name f \<Longrightarrow> list_all inside f"
  by (auto simp: plain_name_def chr_is_def char_class_defs list_all_iff inside_def)

lemma ops_inside: "\<forall>op \<in> set (mulops @ addops @ shiftops @ relops @ unops @ [''&'', ''^'', ''|'', ''&&'', ''||'']). list_all inside op"
  by code_simp

lemma op_inside: "op \<in> set unops \<or> bin_level op \<noteq> 0 \<Longrightarrow> list_all inside op"
  using ops_inside by (auto simp: bin_level_def split: if_splits)

lemma local_ok:
  assumes "f \<in> set names" "int (length names) \<le> INT_MAX"
  shows "int (nat (last_of [0..<length names] names f)) \<le> INT_MAX"
  using last_of_found [OF assms(1)] last_of_less [of "length names" names f] assms(2) by auto

lemma target_of_ok:
  assumes "plain_name f" "name_ok me names f" "int (length names) \<le> INT_MAX"
  shows "target_ok (target_of me names f)"
  using assms local_ok [of f names] name_inside [of f] by (auto simp: target_of_def name_ok_def)

lemma tree_of_ok:
  assumes "int (length names) \<le> INT_MAX"
  shows "writable e \<Longrightarrow> scoped isf names e \<Longrightarrow> names_ok isf me names e \<Longrightarrow> tree_ok (tree_of isf me names e)"
proof (induction e)
  case (EVar f)
  then show ?case using target_of_ok [OF _ _ assms, of f me] local_ok [OF _ assms, of f] by auto
next
  case (ENum ds)
  then have d: "digits ds" "int (length ds) \<le> INT_MAX"
    by (auto simp: chr_is_def char_class_defs c_digit_def list_all_iff INT_MAX_def)
  obtain z where z: "id_strip_zeros ds = Inr z" "digits z" using stripped [OF d] by blast
  then show ?case by (auto simp: zeroless_def list_all_iff inside_def c_digit_def)
next
  case (EStr w)
  then show ?case by auto
next
  case (EBool b)
  then show ?case by (auto simp: inside_def)
next
  case (EUn op a)
  then show ?case using op_inside [of op] by auto
next
  case (EBin op a b)
  then show ?case using op_inside [of op] int_text_inside by (auto split: option.splits)
next
  case (EIndex a b)
  then show ?case by auto
next
  case (EField a f)
  then show ?case using name_inside by auto
next
  case (ECall f xs)
  then show ?case using target_of_ok [OF _ _ assms, of f me] 
    by (auto simp: Let_def list_all_iff drops_shift_def)
next
  case (EArr xs)
  then show ?case by (auto simp: list_all_iff)
qed

section \<open>The claims\<close>

text \<open>The expressions that the property covers, in a function \<open>me\<close> with the locals \<open>names\<close>.\<close>

definition canonical :: "(string \<Rightarrow> bool) \<Rightarrow> string \<Rightarrow> string list \<Rightarrow> expr \<Rightarrow> bool" where
  "canonical isf me names e \<longleftrightarrow> writable e \<and> exact e \<and> scoped isf names e \<and> names_ok isf me names e
     \<and> int (length names) \<le> INT_MAX \<and> ''ushr'' \<notin> set names \<and> me \<noteq> ''ushr''"

text \<open>The machine of the C run time, with what is not arithmetic left open.\<close>

definition runs_on :: "bool \<Rightarrow> (rtval, 's) machine \<Rightarrow> bool" where
  "runs_on strict M \<longleftrightarrow> m_bin M = rt_bin strict \<and> m_num M = rt_num \<and> m_stop M = rt_stop \<and> m_str M = RStr"


definition sample_node :: "string \<Rightarrow> string \<Rightarrow> int \<Rightarrow> int \<Rightarrow> node" where
  "sample_node k t a b = \<lparr>n_kind = k, n_i1 = a, n_i2 = b, n_s1 = t, n_s2 = '''', n_l1 = [], n_l2 = [], n_unit = 0, n_line = 1, n_tok = 0, n_st = 0\<rparr>"

definition sample_machine :: "bool \<Rightarrow> (rtval, unit) machine" where
  "sample_machine strict = \<lparr>m_num = rt_num, m_str = RStr, m_bin = rt_bin strict, m_un = (\<lambda>_ _. None), m_stop = rt_stop,
     m_index = (\<lambda>_ _ _. None), m_field = (\<lambda>_ _ _. None), m_call = (\<lambda>_ _ _. None), m_arr = (\<lambda>_ _. None), m_fun = (\<lambda>_. RRef 0)\<rparr>"

definition sample_cst :: "string \<Rightarrow> string list \<Rightarrow> cst" where
  "sample_cst me names = \<lparr>c_self = me, c_names = names, c_imps = [], c_loose = 0\<rparr>"

lemma sample_scope: "in_scope me names (sample_cst me names)"
  by (simp add: in_scope_def sample_cst_def)

lemma no_functions: "\<not> fn_of id_init_idx f"
proof -
  have "id_fn_node_of id_init_idx f = Inr (- 1)"
    unfolding fn_node_last [OF init_idx_inv] by (simp add: id_init_idx_def last_of_def id_fn_node_at_def)
  then show ?thesis by (simp add: fn_of_def)
qed

text \<open>\<open>x + 0\<close> in a function with the parameter \<open>x\<close>, and \<open>b * 1\<close> in one with the parameter \<open>b\<close>.\<close>

definition sample_sum :: expr where "sample_sum = EBin ''+'' (EVar ''x'') (ENum ''0'')"
definition sample_product :: expr where "sample_product = EBin ''*'' (EVar ''b'') (ENum ''1'')"

definition sample_nodes :: "node list" where
  "sample_nodes = [sample_node ''var'' ''x'' 0 0, sample_node ''int'' ''0'' 0 0, sample_node ''bin'' ''+'' 0 1,
     sample_node ''var'' ''b'' 0 0, sample_node ''int'' ''1'' 1 0, sample_node ''bin'' ''*'' 3 4]"

lemma sample_decs: "dec_value 0 ''0'' = 0" "dec_value 0 ''1'' = 1"
  by (simp_all add: dec_value_def)

lemma sample_ints: "id_to_int ''0'' = 0" "id_to_int ''1'' = 1"
  using to_int_value [of "''0''"] to_int_value [of "''1''"] by (simp_all add: sample_decs c_digit_def)

lemma sample_denotes: "denotes sample_nodes 2 sample_sum" "denotes sample_nodes 5 sample_product"
  by (simp_all add: node_at_def sample_nodes_def sample_node_def sample_sum_def sample_product_def sample_ints sample_decs)

lemma sample_writable: "plain_name ''x''" "plain_name ''b''" "tok_ok (TDec ''0'')" "tok_ok (TDec ''1'')"
  "bin_level ''+'' \<noteq> 0" "bin_level ''*'' \<noteq> 0" "plain_name ''ushr''"
  by code_simp+

lemma sample_last: "last_of [0..<1] [f] f = 0"
  by (simp add: last_of_def)

lemma sample_canonical: "canonical (fn_of id_init_idx) ''f'' [''x''] sample_sum" "canonical (fn_of id_init_idx) ''g'' [''b''] sample_product"
proof -
  have "writable sample_sum" "exact sample_sum" "writable sample_product" "exact sample_product"
    using sample_writable by (simp_all add: sample_sum_def sample_product_def sample_decs del: tok_ok.simps)
  moreover have "scoped isf [''x''] sample_sum" "scoped isf [''b''] sample_product" for isf
    by (simp_all add: sample_sum_def sample_product_def)
  moreover have "names_ok (fn_of id_init_idx) ''f'' [''x''] sample_sum" "names_ok (fn_of id_init_idx) ''g'' [''b''] sample_product"
    using no_functions by (simp_all add: sample_sum_def sample_product_def)
  ultimately show "canonical (fn_of id_init_idx) ''f'' [''x''] sample_sum" "canonical (fn_of id_init_idx) ''g'' [''b''] sample_product"
    by (simp_all add: canonical_def INT_MAX_def)
qed

lemma canonicalD: "canonical isf me names e \<Longrightarrow> writable e \<and> scoped isf names e"
  by (simp add: canonical_def)

lemma sample_trees: "\<not> isf ''x'' \<Longrightarrow> tree_of isf ''f'' [''x''] sample_sum = CV 0" "\<not> isf ''b'' \<Longrightarrow> tree_of isf ''g'' [''b''] sample_product = CV 0"
  using sample_last [of "''x''"] sample_last [of "''b''"]
  by (simp_all add: sample_sum_def sample_product_def folded_def kept_def sample_ints)

lemma sample_text:
  "id_canon_expr sample_nodes id_init_idx 2 2 (sample_cst ''f'' [''x'']) = Some (Inr (''v0'', sample_cst ''f'' [''x'']))"
  "id_canon_expr sample_nodes id_init_idx 2 5 (sample_cst ''g'' [''b'']) = Some (Inr (''v0'', sample_cst ''g'' [''b'']))"
proof -
  have v: "int_text 0 = ''0''" by code_simp
  have h: "height sample_sum \<le> 2" "height sample_product \<le> 2" by (simp_all add: sample_sum_def sample_product_def)
  note c = canonicalD [OF sample_canonical(1)] canonicalD [OF sample_canonical(2)]
  show "id_canon_expr sample_nodes id_init_idx 2 2 (sample_cst ''f'' [''x'']) = Some (Inr (''v0'', sample_cst ''f'' [''x'']))"
    using canon_ok [OF _ sample_denotes(1) sample_scope init_idx_inv _ h(1), of "[''x'']" "''f''"] c
    by (simp add: sample_trees(1) [OF no_functions] v del: id_canon_expr.simps)
  show "id_canon_expr sample_nodes id_init_idx 2 5 (sample_cst ''g'' [''b'']) = Some (Inr (''v0'', sample_cst ''g'' [''b'']))"
    using canon_ok [OF _ sample_denotes(2) sample_scope init_idx_inv _ h(2), of "[''b'']" "''g''"] c
    by (simp add: sample_trees(2) [OF no_functions] v del: id_canon_expr.simps)
qed

lemma sample_runs: "runs_on strict (sample_machine strict)"
  by (simp add: runs_on_def sample_machine_def)

lemma sample_values:
  "eval (sample_machine True) (fn_of id_init_idx) ''f'' (locals [''x''] [RInt 9]) sample_sum () = Some (RInt 9, ())"
  "eval (sample_machine True) (fn_of id_init_idx) ''g'' (locals [''b''] [RInt 9]) sample_product () = Some (RInt 9, ())"
proof -
  have "rt_bin True ''+'' (RInt 9) (rt_num 0) = Some (RInt 9)" "rt_bin True ''*'' (RInt 9) (rt_num 1) = Some (RInt 9)"
    by code_simp+
  then show "eval (sample_machine True) (fn_of id_init_idx) ''f'' (locals [''x''] [RInt 9]) sample_sum () = Some (RInt 9, ())"
    "eval (sample_machine True) (fn_of id_init_idx) ''g'' (locals [''b''] [RInt 9]) sample_product () = Some (RInt 9, ())"
    using no_functions sample_last [of "''x''"] sample_last [of "''b''"]
    by (simp_all add: sample_sum_def sample_product_def bin_step_def sample_machine_def locals_def sample_decs)
qed


text \<open>The machine that converts operands; calls are left open.\<close>

definition converting :: "(rtval, unit) machine" where
  "converting = sample_machine False"

text \<open>Expressions in a parameter, and a value of the parameter, that are simplified to the parameter.\<close>

definition collisions :: "string \<Rightarrow> (expr \<times> rtval) list" where
  "collisions f =
     [(EBin ''+'' (EVar f) (ENum ''4294967296''), RWord 7), (EBin ''+'' (EVar f) (ENum ''0''), RStr ''a''),
      (ECall ''ushr'' [EVar f, ENum ''0''], RInt (- 1))]"

lemma plain_num: "digits ds \<Longrightarrow> ds \<noteq> [] \<Longrightarrow> dec_value 0 ds < 2 ^ 64 \<Longrightarrow> length ds \<le> 536870912 \<Longrightarrow> writable (ENum ds)"
  by (auto simp: chr_is_def char_class_defs c_digit_def list_all_iff)

lemma wide_zero: "id_to_int ''4294967296'' = 0" "dec_value 0 ''4294967296'' = 4294967296"
proof -
  show d: "dec_value 0 ''4294967296'' = 4294967296" by (simp add: dec_value_def)
  have "to_int_digits 9223372036854775807 0 ''4294967296'' = 4294967296"
    using to_int_digits_exact [of "''4294967296''" 9223372036854775807 0] by (simp only: d) (simp add: c_digit_def)
  then show "id_to_int ''4294967296'' = 0"
    by (simp add: id_to_int_def Let_def c_space_def wrap32_def del: to_int_digits.simps)
qed

lemma collision_trees:
  assumes "(e, v) \<in> set (collisions f)" "\<not> isf f"
  shows "tree_of isf me [f] e = tree_of isf me [f] (EVar f)"
  using assms by (auto simp: collisions_def folded_def kept_def sample_ints wide_zero sample_decs drops_shift_def)

lemma zero_text: "id_str_of_int 0 = ''0''"
  by code_simp

lemma collision_values:
  assumes "(e, v) \<in> set (collisions f)" "\<not> isf f" "f \<noteq> ''ushr''" "me \<noteq> ''ushr''"
  shows "\<exists>w. eval converting isf me (locals [f] [v]) e () = Some (w, ()) \<and> w \<noteq> v"
proof -
  have v: "locals [f] [v] f = Some v" using sample_last [of f] by (simp add: locals_def)
  have c: "callee_of me (locals [f] [v]) ''ushr'' = CallName ''ushr''" using assms(3,4) by (simp add: callee_of_def locals_def)
  have m: "m_bin converting = rt_bin False" "m_num converting = rt_num" "m_stop converting = rt_stop"
    by (simp_all add: converting_def sample_machine_def)
  have n: "rt_num 4294967296 = RWord 4294967296" by (simp add: rt_num_def INT_MAX_def)
  have z: "rt_stop op (RInt 0) = None" if "op = ''+''" for op using that by simp
  have b: "rt_bin False ''+'' (RWord 7) (RWord 4294967296) = Some (RWord 4294967303)"
    "rt_bin False ''+'' (RStr ''a'') (RInt 0) = Some (RStr ''a0'')"
    "rt_bin False ''ushr'' (RInt (- 1)) (RInt 0) = Some (RWord (ucast (- 1 :: w32)))"
    by (simp_all add: rt_words_def rt_ints_def compare_op_def word_op_def some_of_def id_ushr_def zero_text)
  show ?thesis using assms(1,2) v c m n z b
    by (auto simp: collisions_def bin_step_def call_step_def sample_decs wide_zero simp del: rt_bin.simps)
qed

text \<open>
  C12: With the conversions of the run time the canonical text does not separate values:
  adding 4294967296 to a 64-bit parameter, adding 0 to a string, and an unsigned shift by 0
  of a 32-bit parameter are all written as the parameter alone, and each has another value.
\<close>

theorem id_canon_expr_collides:
  assumes "names_inv y" "in_scope me [f] s" "plain_name f" "f \<noteq> ''ushr''" "me \<noteq> ''ushr''" "\<not> fn_of y f"
    "(e, v) \<in> set (collisions f)" "denotes ns i e" "denotes ns j (EVar f)"
  shows "(\<exists>t. id_canon_expr ns y 2 i s = Some (Inr (t, s)) \<and> id_canon_expr ns y 2 j s = Some (Inr (t, s)))
    \<and> (\<exists>w. eval converting (fn_of y) me (locals [f] [v]) e () = Some (w, ())
         \<and> eval converting (fn_of y) me (locals [f] [v]) (EVar f) () = Some (v, ()) \<and> w \<noteq> v)"
proof
  have x: "writable (ENum ''4294967296'')" "writable (ENum ''0'')"
    by (intro plain_num; simp add: wide_zero sample_decs c_digit_def)+
  have e: "writable e" "scoped (fn_of y) [f] e" "height e \<le> 2"
    using assms(3,7) x sample_writable(5,7) by (auto simp: collisions_def simp del: writable.simps(2))
  have v: "writable (EVar f)" "scoped (fn_of y) [f] (EVar f)" "height (EVar f) \<le> 2" using assms(3) by simp_all
  show "\<exists>t. id_canon_expr ns y 2 i s = Some (Inr (t, s)) \<and> id_canon_expr ns y 2 j s = Some (Inr (t, s))"
    using canon_ok [OF e(1) assms(8,2,1) e(2,3)] canon_ok [OF v(1) assms(9,2,1) v(2,3)] collision_trees [where isf = "fn_of y", OF assms(7,6)]
    by (metis (no_types))
  have "locals [f] [v] f = Some v" using sample_last [of f] by (simp add: locals_def)
  then have "eval converting (fn_of y) me (locals [f] [v]) (EVar f) () = Some (v, ())" using assms(6) by simp
  then show "\<exists>w. eval converting (fn_of y) me (locals [f] [v]) e () = Some (w, ())
         \<and> eval converting (fn_of y) me (locals [f] [v]) (EVar f) () = Some (v, ()) \<and> w \<noteq> v"
    using collision_values [where isf = "fn_of y", OF assms(7,6,4,5)] by blast
qed

lemma collides_sample: "denotes [sample_node ''var'' ''x'' 0 0, sample_node ''int'' ''0'' 0 0, sample_node ''bin'' ''+'' 0 1] 2 sample_sum"
  "denotes [sample_node ''var'' ''x'' 0 0, sample_node ''int'' ''0'' 0 0, sample_node ''bin'' ''+'' 0 1] 0 (EVar ''x'')"
  by (simp_all add: node_at_def sample_node_def sample_sum_def sample_ints sample_decs)

theorem id_canon_expr_collides_witness:
  "\<exists>w. eval converting (fn_of id_init_idx) ''f'' (locals [''x''] [RStr ''a'']) sample_sum () = Some (w, ()) \<and> w \<noteq> RStr ''a''"
  using id_canon_expr_collides [OF init_idx_inv sample_scope sample_writable(1) _ _ no_functions _ collides_sample [unfolded sample_sum_def],
      where me = "''f''" and v = "RStr ''a''"] unfolding sample_sum_def by (auto simp: collisions_def)

section \<open>Computing at compile time\<close>

lemma int_op_total:
  assumes "0 \<le> a" "a \<le> INT_MAX" "0 \<le> b" "b \<le> INT_MAX" "fold_val op a b = Some n"
  shows "int_op op (word_of_int a) (word_of_int b) = Some (word_of_int n)"
proof -
  have s: "sint (word_of_int b :: w64) = b" using assms(3,4) by (rule sint_small64)
  have sh: "op = ''<<'' \<Longrightarrow> id_shl (word_of_int a) (word_of_int b) \<noteq> Inl z" "id_sar (word_of_int a) (word_of_int b) \<noteq> Inl z" for z
    using s assms(3) by (simp_all add: id_shl_def id_sar_def)
  have "op \<in> {''+'', ''-'', ''*'', ''/'', ''%'', ''&'', ''|'', ''^'', ''<<'', ''>>''}"
    using assms(5) by (auto simp: fold_val_def split: if_splits)
  then have "int_op op (word_of_int a) (word_of_int b) \<noteq> None"
    using sh assms c_div_word [of a b "a div b"] c_mod_word [of a b "a mod b"]
    by (auto simp: int_op_def word_op_def some_of_def widen_of_int fold_val_def c_idiv_nat c_imod_nat split: sum.splits if_splits)
  then show ?thesis using fold_is_int [OF assms] by auto
qed



end
