(* ===== verification/PoolSafe.thy ===== *)
theory PoolSafe
  imports Pool "HOL-Library.Multiset"
begin

text \<open>
  The pool is safe: over any run of allocations, releases, reallocations and writes into live
  blocks, with a C library that hands out fresh memory, the live blocks never overlap, no
  operation changes what another block holds, and the release at exit gives every block backs to
  the C library once. The proof names, for every address, what owns it.
\<close>

section \<open>Linked lists in memory\<close>

fun linked :: "(nat \<Rightarrow> nat) \<Rightarrow> nat \<Rightarrow> nat list \<Rightarrow> bool" where
  "linked nx p [] \<longleftrightarrow> p = 0"
| "linked nx p (x # xs) \<longleftrightarrow> p = x \<and> x \<noteq> 0 \<and> linked nx (nx x) xs"

fun backs :: "(nat \<Rightarrow> nat) \<Rightarrow> nat \<Rightarrow> nat list \<Rightarrow> bool" where
  "backs pv q [] \<longleftrightarrow> True"
| "backs pv q (x # xs) \<longleftrightarrow> pv x = q \<and> backs pv x xs"

lemma linked_cong: "(\<And>x. x \<in> set xs \<Longrightarrow> nx x = nx' x) \<Longrightarrow> linked nx p xs \<longleftrightarrow> linked nx' p xs"
  by (induction xs arbitrary: p) auto

lemma backs_cong: "(\<And>x. x \<in> set xs \<Longrightarrow> pv x = pv' x) \<Longrightarrow> backs pv q xs \<longleftrightarrow> backs pv' q xs"
  by (induction xs arbitrary: q) auto

lemma linked_zero [simp]: "linked nx 0 xs \<longleftrightarrow> xs = []"
  by (cases xs) auto

lemma linked_cons: "p \<noteq> 0 \<Longrightarrow> linked nx p xs \<longleftrightarrow> (\<exists>ys. xs = p # ys \<and> linked nx (nx p) ys)"
  by (cases xs) auto

lemma linked_unique: "linked nx p xs \<Longrightarrow> linked nx p ys \<Longrightarrow> xs = ys"
proof (induction xs arbitrary: p ys)
  case Nil
  then show ?case by (cases ys) auto
next
  case (Cons x xs)
  then show ?case by (cases ys) auto
qed

lemma linked_from: "linked nx p (xs @ x # ys) \<Longrightarrow> linked nx x (x # ys)"
  by (induction xs arbitrary: p) auto

lemma linked_nonzero: "linked nx p xs \<Longrightarrow> x \<in> set xs \<Longrightarrow> x \<noteq> 0"
  by (induction xs arbitrary: p) auto

lemma linked_distinct: "linked nx p xs \<Longrightarrow> distinct xs"
proof (induction xs arbitrary: p)
  case (Cons x xs)
  have "x \<notin> set xs"
  proof
    assume "x \<in> set xs"
    then obtain as bs where "xs = as @ x # bs" by (auto simp: in_set_conv_decomp)
    then have "linked nx x (x # bs)" using Cons.prems linked_from [of nx p "x # as" x bs] by simp
    then have "x # bs = x # xs" using Cons.prems linked_unique [of nx x "x # bs" "x # xs"] by auto
    then show False using \<open>xs = as @ x # bs\<close> by simp
  qed
  then show ?case using Cons by auto
qed simp

lemma linked_chain: "linked nx p xs \<Longrightarrow> length xs \<le> fuel \<Longrightarrow> chain fuel nx p = Some xs"
proof (induction xs arbitrary: p fuel)
  case (Cons x xs)
  then show ?case by (cases fuel; cases x) auto
qed simp

text \<open>Taking one node out of a doubly linked list, and putting one in front.\<close>

definition dll :: "(nat \<Rightarrow> nat) \<Rightarrow> nat \<Rightarrow> nat list \<Rightarrow> bool" where
  "dll m a hs \<longleftrightarrow> linked (\<lambda>h. m (h + 8)) a hs \<and> backs m 0 hs"

definition apart :: "nat list \<Rightarrow> bool" where
  "apart hs \<longleftrightarrow> (\<forall>g \<in> set hs. \<forall>h \<in> set hs. g \<noteq> h + 8)"

lemma apartD: "apart hs \<Longrightarrow> g \<in> set hs \<Longrightarrow> h \<in> set hs \<Longrightarrow> g \<noteq> h + 8"
  by (auto simp: apart_def)

lemma linked_app: "linked nx p (xs @ ys) \<Longrightarrow> \<exists>q. linked nx q ys"
  by (induction xs arbitrary: p) auto

lemma linked_skip:
  assumes "linked nx p (xs @ g # h # ys)" "\<And>x. x \<in> set (xs @ ys) \<Longrightarrow> nx' x = nx x" "nx' g = nx h"
  shows "linked nx' p (xs @ g # ys)"
  using assms
proof (induction xs arbitrary: p)
  case Nil
  then show ?case using linked_cong [of ys nx' nx] by auto
qed auto

lemma backs_skip:
  assumes "backs pv q (xs @ g # h # ys)" "\<And>x. x \<in> set (xs @ g # tl ys) \<Longrightarrow> pv' x = pv x" "ys \<noteq> [] \<Longrightarrow> pv' (hd ys) = g"
  shows "backs pv' q (xs @ g # ys)"
  using assms
proof (induction xs arbitrary: q)
  case Nil
  then show ?case using backs_cong [of "tl ys" pv' pv] by (cases ys) auto
qed auto

lemma backs_at: "backs pv q (xs @ g # h # ys) \<Longrightarrow> pv h = g"
  by (induction xs arbitrary: q) auto

lemma backs_after: "backs pv q (xs @ h # ys) \<Longrightarrow> backs pv h ys"
  by (induction xs arbitrary: q) auto

lemma linked_at: "linked nx p (xs @ h # ys) \<Longrightarrow> linked nx (nx h) ys"
  by (induction xs arbitrary: p) auto

lemma linked_hd: "linked nx p xs \<Longrightarrow> p \<noteq> 0 \<Longrightarrow> xs \<noteq> [] \<and> p = hd xs"
  by (cases xs) auto

lemma dll_push:
  assumes "dll m a hs" "apart (h # hs)" "h \<notin> set hs" "h \<noteq> 0"
  shows "dll (let m1 = m(h := 0, h + 8 := a) in if a \<noteq> 0 then m1(a := h) else m1) h (h # hs)"
proof -
  define m' where "m' = (let m1 = m(h := 0, h + 8 := a) in if a \<noteq> 0 then m1(a := h) else m1)"
  have d: "distinct hs" using assms(1) linked_distinct by (auto simp: dll_def)
  have ah: "a \<noteq> 0 \<Longrightarrow> a \<in> set hs" using assms(1) linked_hd [of "\<lambda>h. m (h + 8)" a hs] by (auto simp: dll_def)
  have nx: "m' (x + 8) = m (x + 8)" if "x \<in> set hs" for x
    using that assms(2,3) ah apartD [OF assms(2), of a x] apartD [OF assms(2), of h x] by (auto simp: m'_def Let_def)
  have "linked (\<lambda>h. m' (h + 8)) a hs" using assms(1) linked_cong [of hs "\<lambda>h. m' (h + 8)" "\<lambda>h. m (h + 8)"] nx by (simp add: dll_def)
  moreover have "m' (h + 8) = a" using ah apartD [OF assms(2), of a h] by (auto simp: m'_def Let_def)
  moreover have "m' h = 0" using ah assms(3) by (auto simp: m'_def Let_def)
  moreover have "backs m' h hs"
  proof (cases hs)
    case (Cons x xs)
    then have x: "a = x" "x \<noteq> 0" "backs m x xs" using assms(1) by (auto simp: dll_def)
    have "m' z = m z" if "z \<in> set xs" for z
      using that d x(1) assms(3) Cons apartD [OF assms(2), of z h] by (auto simp: m'_def Let_def)
    then have "backs m' x xs" using x(3) backs_cong [of xs m' m] by auto
    then show ?thesis using Cons x by (simp add: m'_def)
  qed simp
  ultimately show ?thesis using assms(4) unfolding m'_def [symmetric] by (simp add: dll_def)
qed

lemma dll_tail:
  assumes "dll m a (xs @ h # ys)" "apart (xs @ h # ys)"
  shows "dll (if m (h + 8) \<noteq> 0 then m(m (h + 8) := 0) else m) (m (h + 8)) ys"
proof -
  have l: "linked (\<lambda>h. m (h + 8)) (m (h + 8)) ys" using assms(1) linked_at [of "\<lambda>h. m (h + 8)" a xs h ys] by (simp add: dll_def)
  have b: "backs m h ys" using assms(1) backs_after [of m 0 xs h ys] by (simp add: dll_def)
  have d: "distinct ys" using l by (rule linked_distinct)
  show ?thesis
  proof (cases ys)
    case (Cons y zs)
    have y: "m (h + 8) = y" "y \<noteq> 0" using l Cons by auto
    have n: "x \<in> set ys \<Longrightarrow> x + 8 \<noteq> y" for x using apartD [OF assms(2), of y x] Cons by auto
    have "linked (\<lambda>h. (m(y := 0)) (h + 8)) y ys" using l y linked_cong [of ys "\<lambda>h. (m(y := 0)) (h + 8)" "\<lambda>h. m (h + 8)"] n by auto
    moreover have "backs (m(y := 0)) y zs"
    proof -
      have "(m(y := 0)) x = m x" if "x \<in> set zs" for x using that d Cons by auto
      then show ?thesis using b Cons backs_cong [of zs "m(y := 0)" m y] by simp
    qed
    ultimately show ?thesis using y Cons by (simp add: dll_def)
  qed (use l in \<open>simp add: dll_def\<close>)
qed

lemma dll_unlink:
  assumes "dll m a (xs @ h # ys)" "apart (xs @ h # ys)"
  defines "m1 \<equiv> if m h \<noteq> 0 then m(m h + 8 := m (h + 8)) else m"
  shows "dll (if m1 (h + 8) \<noteq> 0 then m1(m1 (h + 8) := m1 h) else m1) (if m h \<noteq> 0 then a else m (h + 8)) (xs @ ys)"
proof (cases xs rule: rev_cases)
  case Nil
  then have h: "m h = 0" using assms(1) by (simp add: dll_def)
  then show ?thesis using dll_tail [OF assms(1,2)] Nil by (cases "m (h + 8) = 0") (simp_all add: m1_def)
next
  case (snoc us g)
  have l: "linked (\<lambda>h. m (h + 8)) a (us @ g # h # ys)" "backs m 0 (us @ g # h # ys)" using assms(1) snoc by (auto simp: dll_def)
  have d: "distinct (us @ g # h # ys)" using l(1) by (rule linked_distinct)
  have g: "m h = g" "g \<noteq> 0" using backs_at [OF l(2)] linked_nonzero [OF l(1), of g] by auto
  have y: "linked (\<lambda>h. m (h + 8)) (m (h + 8)) ys" using linked_at [of "\<lambda>h. m (h + 8)" a "us @ [g]" h ys] l(1) by simp
  have ap: "z \<in> set (us @ g # h # ys) \<Longrightarrow> w \<in> set (us @ g # h # ys) \<Longrightarrow> z \<noteq> w + 8" for z w
    using apartD [OF assms(2), of z w] snoc by auto
  define m2 where "m2 = (if m (h + 8) \<noteq> 0 then m(g + 8 := m (h + 8), m (h + 8) := g) else m(g + 8 := 0))"
  have m1: "m1 = m(g + 8 := m (h + 8))" using g by (simp add: m1_def)
  have e: "(if m1 (h + 8) \<noteq> 0 then m1(m1 (h + 8) := m1 h) else m1) = m2"
    using g d ap [of h g] by (auto simp: m1 m2_def)
  have y0: "m (h + 8) \<noteq> 0 \<Longrightarrow> ys \<noteq> [] \<and> m (h + 8) = hd ys" using y by (rule linked_hd)
  have yz: "m (h + 8) = 0 \<Longrightarrow> ys = []" using y by simp
  have "linked (\<lambda>h. m2 (h + 8)) a (us @ g # ys)"
  proof (rule linked_skip [OF l(1)])
    fix x assume x: "x \<in> set (us @ ys)"
    then have "x \<noteq> g" using d by auto
    then show "m2 (x + 8) = m (x + 8)" using y0 ap [of "hd ys" x] x by (auto simp: m2_def)
  next
    show "m2 (g + 8) = m (h + 8)" using y0 ap [of "hd ys" g] by (auto simp: m2_def)
  qed
  moreover have "backs m2 0 (us @ g # ys)"
  proof (rule backs_skip [OF l(2)])
    fix x assume x: "x \<in> set (us @ g # tl ys)"
    then have "x \<in> set (us @ g # h # ys)" "ys \<noteq> [] \<Longrightarrow> x \<noteq> hd ys" using d by (cases ys; auto)+
    then show "m2 x = m x" using ap [of x g] y0 yz by (auto simp: m2_def)
  next
    assume n: "ys \<noteq> []"
    then have "m (h + 8) \<noteq> 0" using yz by blast
    then show "m2 (hd ys) = g" using y0 by (auto simp: m2_def)
  qed
  ultimately show ?thesis using e g snoc by (simp add: dll_def)
qed

section \<open>Runs\<close>

text \<open>
  \<open>u_live\<close> are the blocks that are handed out, each with the size it was asked with; \<open>u_heap\<close>
  are the blocks the C library has given out. \<open>took m z\<close> is an allocation of \<open>z\<close> bytes that the
  library answers with \<open>m\<close>: aligned, and apart from what it has given out.
\<close>

record sys =
  u_pool :: pool
  u_live :: "(nat \<times> nat) list"
  u_heap :: "(nat \<times> nat) list"

definition took :: "nat \<Rightarrow> nat \<Rightarrow> (nat \<times> nat) list \<Rightarrow> (nat \<times> nat) list option" where
  "took m z H =
     (if z = 0 then Some H
      else if m \<noteq> 0 \<and> m mod 16 = 0 \<and> list_all (\<lambda>(b, w). m + z \<le> b \<or> b + w \<le> m) H then Some ((m, z) # H) else None)"

text \<open>What an allocation asks the library for (0: nothing), and what a release gives back.\<close>

definition asks :: "nat \<Rightarrow> pool \<Rightarrow> nat" where
  "asks n s =
     (if n > POOL_MAX then n + ALLOC_HDR
      else if p_fl s (id_pool_class n) = 0 \<and> p_left s < id_pool_class_bytes (id_pool_class n) then CHUNK else 0)"

definition gave :: "nat \<Rightarrow> nat \<Rightarrow> (nat \<times> nat) list \<Rightarrow> (nat \<times> nat) list" where
  "gave p n H = (if n > POOL_MAX then remove1 (p - ALLOC_HDR, n + ALLOC_HDR) H else H)"

datatype pool_event = Get nat nat | Free nat nat | Write nat nat | Realloc nat nat nat nat

definition do_get :: "nat \<Rightarrow> nat \<Rightarrow> sys \<Rightarrow> (nat \<times> sys) option" where
  "do_get m n u =
     (case (took m (asks n (u_pool u)) (u_heap u), id_pool_get m n (u_pool u)) of
        (Some H, Inr (p, s)) \<Rightarrow> Some (p, \<lparr>u_pool = s, u_live = (p, n) # u_live u, u_heap = H\<rparr>)
      | _ \<Rightarrow> None)"

definition do_free :: "nat \<Rightarrow> nat \<Rightarrow> sys \<Rightarrow> sys option" where
  "do_free p n u =
     (if (p, n) \<in> set (u_live u)
      then Some \<lparr>u_pool = id_pool_free p n (u_pool u), u_live = remove1 (p, n) (u_live u), u_heap = gave p n (u_heap u)\<rparr>
      else None)"

definition do_write :: "nat \<Rightarrow> nat \<Rightarrow> sys \<Rightarrow> sys option" where
  "do_write a v u =
     (if list_ex (\<lambda>(p, n). p \<le> a \<and> a + 8 \<le> p + n) (u_live u) then Some (u\<lparr>u_pool := store_cell (u_pool u) a v\<rparr>) else None)"

definition both_large :: "nat \<Rightarrow> nat \<Rightarrow> bool" where
  "both_large old n \<longleftrightarrow> old > POOL_MAX \<and> n > POOL_MAX"

definition stays :: "nat \<Rightarrow> nat \<Rightarrow> bool" where
  "stays old n \<longleftrightarrow> old \<le> POOL_MAX \<and> n \<le> POOL_MAX \<and> id_pool_class old = id_pool_class n"

definition do_realloc :: "nat \<Rightarrow> nat \<Rightarrow> nat \<Rightarrow> nat \<Rightarrow> sys \<Rightarrow> (nat \<times> sys) option" where
  "do_realloc m p old n u =
     (if (p, old) \<notin> set (u_live u) then None
      else
        let s = u_pool u; H = (if both_large old n then gave p old (u_heap u) else u_heap u);
            z = (if both_large old n then n + ALLOC_HDR else if stays old n then 0 else asks n s)
        in case (took m z H, id_realloc m p old n s) of
             (Some H', Inr (q, s')) \<Rightarrow>
               Some (q, \<lparr>u_pool = s', u_live = (q, n) # remove1 (p, old) (u_live u),
                         u_heap = (if both_large old n \<or> stays old n then H' else gave p old H')\<rparr>)
           | _ \<Rightarrow> None)"

fun on_event :: "pool_event \<Rightarrow> sys \<Rightarrow> sys option" where
  "on_event (Get m n) u = map_option snd (do_get m n u)"
| "on_event (Free p n) u = do_free p n u"
| "on_event (Write a v) u = do_write a v u"
| "on_event (Realloc m p old n) u = map_option snd (do_realloc m p old n u)"

fun pool_run :: "pool_event list \<Rightarrow> sys \<Rightarrow> sys option" where
  "pool_run [] u = Some u"
| "pool_run (e # es) u = Option.bind (on_event e u) (pool_run es)"

definition sys_init :: sys where
  "sys_init = \<lparr>u_pool = pool_init, u_live = [], u_heap = []\<rparr>"

section \<open>Owners\<close>

datatype owner = Used nat | Spare nat nat | Rest | Chunk nat | Large nat

type_synonym owners = "nat \<Rightarrow> owner option"

definition owns :: "owners \<Rightarrow> owner \<Rightarrow> nat \<Rightarrow> nat \<Rightarrow> bool" where
  "owns own t a b \<longleftrightarrow> (\<forall>x. a \<le> x \<and> x < b \<longrightarrow> own x = Some t)"

definition retag :: "owners \<Rightarrow> nat \<Rightarrow> nat \<Rightarrow> owner option \<Rightarrow> owners" where
  "retag own a b r x = (if a \<le> x \<and> x < b then r else own x)"

lemma ownsD: "owns own t a b \<Longrightarrow> a \<le> x \<Longrightarrow> x < b \<Longrightarrow> own x = Some t"
  by (simp add: owns_def)

lemma owns_retag: "owns own t a b \<Longrightarrow> (\<And>z. x \<le> z \<Longrightarrow> z < e \<Longrightarrow> own z \<noteq> Some t) \<Longrightarrow> owns (retag own x e r) t a b"
  by (auto simp: owns_def retag_def)

lemma owns_retag_other: "owns own t a b \<Longrightarrow> owns own u x e \<Longrightarrow> t \<noteq> u \<Longrightarrow> owns (retag own x e r) t a b"
  by (rule owns_retag) (auto simp: owns_def)

lemma owns_retag_new: "owns (retag own a b (Some t)) t a b"
  by (simp add: owns_def retag_def)

lemma owns_sub: "owns own t a b \<Longrightarrow> a \<le> a' \<Longrightarrow> b' \<le> b \<Longrightarrow> owns own t a' b'"
  by (auto simp: owns_def)

text \<open>The bytes a block of \<open>n\<close> requested bytes occupies.\<close>

definition room :: "nat \<Rightarrow> nat" where
  "room n = (if n \<le> POOL_MAX then id_pool_class_bytes (id_pool_class n) else n)"

lemma room_pos: "0 < room n" "n \<le> room n"
proof -
  show "0 < room n" using class_bytes_bounds(1) [OF class_pos class_less, of n] by (auto simp: room_def)
  show "n \<le> room n" using class_fits by (simp add: room_def)
qed

definition large :: "(nat \<times> nat) list \<Rightarrow> (nat \<times> nat) list" where
  "large L = filter (\<lambda>(p, n). n > POOL_MAX) L"

definition lives :: "owners \<Rightarrow> (nat \<times> nat) list \<Rightarrow> bool" where
  "lives own L \<longleftrightarrow> distinct (map fst L) \<and> (\<forall>(p, n) \<in> set L. p \<noteq> 0 \<and> p mod 16 = 0 \<and> owns own (Used p) p (p + room n))"

definition spares :: "owners \<Rightarrow> (nat \<Rightarrow> nat) \<Rightarrow> (nat \<Rightarrow> nat) \<Rightarrow> (nat \<Rightarrow> nat list) \<Rightarrow> bool" where
  "spares own m fl sp \<longleftrightarrow> (\<forall>k. 0 < k \<and> k < NCLASS \<longrightarrow> linked (\<lambda>x. m (x + 8)) (fl k) (sp k)
     \<and> (\<forall>x \<in> set (sp k). x mod 16 = 0 \<and> owns own (Spare k x) x (x + id_pool_class_bytes k)))"

definition rest :: "owners \<Rightarrow> nat \<Rightarrow> nat \<Rightarrow> bool" where
  "rest own b l \<longleftrightarrow> b mod 16 = 0 \<and> (0 < l \<longrightarrow> 0 < b) \<and> owns own Rest b (b + l)"

definition chunked :: "owners \<Rightarrow> (nat \<Rightarrow> nat) \<Rightarrow> nat \<Rightarrow> nat list \<Rightarrow> bool" where
  "chunked own m c cs \<longleftrightarrow> linked m c cs \<and> (\<forall>x \<in> set cs. owns own (Chunk x) x (x + CHUNK_HDR))"

definition headed :: "nat list \<Rightarrow> owners \<Rightarrow> (nat \<Rightarrow> nat) \<Rightarrow> nat \<Rightarrow> nat list \<Rightarrow> (nat \<times> nat) list \<Rightarrow> bool" where
  "headed fs own m a hs L \<longleftrightarrow> dll m a hs \<and> (\<forall>h \<in> set hs. owns own (Large h) h (h + ALLOC_HDR))
     \<and> mset hs = mset fs + mset (map (\<lambda>(p, n). p - ALLOC_HDR) (large L)) \<and> (\<forall>(p, n) \<in> set (large L). ALLOC_HDR < p)"

definition backed :: "nat list \<Rightarrow> (nat \<times> nat) list \<Rightarrow> nat list \<Rightarrow> (nat \<times> nat) list \<Rightarrow> bool" where
  "backed fs H cs L \<longleftrightarrow> mset H = mset (map (\<lambda>f. (f, ALLOC_HDR)) fs) + mset (map (\<lambda>c. (c, CHUNK)) cs)
     + mset (map (\<lambda>(p, n). (p - ALLOC_HDR, n + ALLOC_HDR)) (large L))"

definition covered :: "owners \<Rightarrow> (nat \<times> nat) list \<Rightarrow> bool" where
  "covered own H \<longleftrightarrow> (\<forall>a. own a \<noteq> None \<longrightarrow> (\<exists>(b, z) \<in> set H. b \<le> a \<and> a < b + z))"

text \<open>A small block, handed out or spare, and the rest lie in one chunk each.\<close>

definition within :: "nat list \<Rightarrow> nat \<Rightarrow> nat \<Rightarrow> bool" where
  "within cs a b \<longleftrightarrow> (\<exists>c \<in> set cs. c + CHUNK_HDR \<le> a \<and> b \<le> c + CHUNK)"

definition housed :: "nat list \<Rightarrow> (nat \<Rightarrow> nat list) \<Rightarrow> nat \<Rightarrow> nat \<Rightarrow> (nat \<times> nat) list \<Rightarrow> bool" where
  "housed cs sp b l L \<longleftrightarrow> (\<forall>(p, n) \<in> set L. n \<le> POOL_MAX \<longrightarrow> within cs p (p + room n))
     \<and> (\<forall>k x. 0 < k \<and> k < NCLASS \<and> x \<in> set (sp k) \<longrightarrow> within cs x (x + id_pool_class_bytes k))
     \<and> (0 < l \<longrightarrow> within cs b (b + l))"

definition pool_inv :: "nat list \<Rightarrow> owners \<Rightarrow> (nat \<Rightarrow> nat list) \<Rightarrow> nat list \<Rightarrow> nat list \<Rightarrow> sys \<Rightarrow> bool" where
  "pool_inv fs own sp cs hs u \<longleftrightarrow>
     lives own (u_live u) \<and> spares own (p_mem (u_pool u)) (p_fl (u_pool u)) sp \<and> rest own (p_bump (u_pool u)) (p_left (u_pool u))
     \<and> chunked own (p_mem (u_pool u)) (p_chunks (u_pool u)) cs \<and> headed fs own (p_mem (u_pool u)) (p_arena (u_pool u)) hs (u_live u)
     \<and> backed fs (u_heap u) cs (u_live u) \<and> covered own (u_heap u)
     \<and> housed cs sp (p_bump (u_pool u)) (p_left (u_pool u)) (u_live u)"

lemmas inv_parts = lives_def spares_def rest_def chunked_def headed_def backed_def covered_def housed_def

lemma within_more: "within cs a b \<Longrightarrow> within (c # cs) a b"
  by (auto simp: within_def)

lemma within_sub: "within cs a b \<Longrightarrow> a \<le> a' \<Longrightarrow> b' \<le> b \<Longrightarrow> within cs a' b'"
  by (force simp: within_def)

text \<open>What a change of memory that touches no cell of the pool leaves alone.\<close>

definition keeps :: "owners \<Rightarrow> (nat \<Rightarrow> nat) \<Rightarrow> (nat \<Rightarrow> nat) \<Rightarrow> bool" where
  "keeps own m m' \<longleftrightarrow> (\<forall>a t. own a = Some t \<and> (\<forall>p. t \<noteq> Used p) \<longrightarrow> m' a = m a)"

lemma keepsD: "keeps own m m' \<Longrightarrow> owns own t a b \<Longrightarrow> (\<forall>p. t \<noteq> Used p) \<Longrightarrow> a \<le> x \<Longrightarrow> x < b \<Longrightarrow> m' x = m x"
  by (auto simp: keeps_def owns_def)

lemma bytes_16: "0 < k \<Longrightarrow> k < NCLASS \<Longrightarrow> 16 \<le> id_pool_class_bytes k"
  using class_bytes_bounds(1) by blast

lemma dll_cong: "(\<And>h. h \<in> set hs \<Longrightarrow> m' h = m h \<and> m' (h + 8) = m (h + 8)) \<Longrightarrow> dll m' a hs \<longleftrightarrow> dll m a hs"
  using linked_cong [of hs "\<lambda>h. m' (h + 8)" "\<lambda>h. m (h + 8)" a] backs_cong [of hs m' m 0] by (simp add: dll_def)

lemma spares_keep: "spares own m fl sp \<Longrightarrow> keeps own m m' \<Longrightarrow> spares own m' fl sp"
proof -
  assume sp: "spares own m fl sp" and k: "keeps own m m'"
  have "linked (\<lambda>x. m' (x + 8)) (fl k) (sp k)" if "0 < k" "k < NCLASS" for k
  proof -
    have "m' (x + 8) = m (x + 8)" if x: "x \<in> set (sp k)" for x
      using sp x \<open>0 < k\<close> \<open>k < NCLASS\<close> bytes_16 [of k] by (intro keepsD [OF k, of "Spare k x" x]) (auto simp: spares_def)
    then show ?thesis using sp that linked_cong [of "sp k" "\<lambda>x. m' (x + 8)" "\<lambda>x. m (x + 8)"] by (simp add: spares_def)
  qed
  then show ?thesis using sp by (auto simp: spares_def)
qed

lemma chunked_keep: "chunked own m c cs \<Longrightarrow> keeps own m m' \<Longrightarrow> chunked own m' c cs"
proof -
  assume ch: "chunked own m c cs" and k: "keeps own m m'"
  have "m' x = m x" if "x \<in> set cs" for x
    using ch that by (intro keepsD [OF k, of "Chunk x" x]) (auto simp: chunked_def CHUNK_HDR_def)
  then show ?thesis using ch linked_cong [of cs m' m] by (simp add: chunked_def)
qed

lemma headed_keep: "headed fs own m a hs L \<Longrightarrow> keeps own m m' \<Longrightarrow> headed fs own m' a hs L"
proof -
  assume hd: "headed fs own m a hs L" and k: "keeps own m m'"
  have "m' h = m h \<and> m' (h + 8) = m (h + 8)" if "h \<in> set hs" for h
    using hd that keepsD [OF k, of "Large h" h "h + ALLOC_HDR"] by (auto simp: headed_def ALLOC_HDR_def)
  then show ?thesis using hd dll_cong [of hs m' m a] by (simp add: headed_def)
qed

text \<open>Giving other owners to a range that the parts do not own.\<close>

lemma spares_retag:
  assumes "spares own m fl sp" "\<And>k y z. x \<le> z \<Longrightarrow> z < e \<Longrightarrow> own z \<noteq> Some (Spare k y)"
  shows "spares (retag own x e r) m fl sp"
  using assms owns_retag by (auto simp: spares_def)

lemma rest_retag: "rest own b l \<Longrightarrow> (\<And>z. x \<le> z \<Longrightarrow> z < e \<Longrightarrow> own z \<noteq> Some Rest) \<Longrightarrow> rest (retag own x e r) b l"
  using owns_retag by (auto simp: rest_def)

lemma chunked_retag:
  assumes "chunked own m c cs" "\<And>y z. x \<le> z \<Longrightarrow> z < e \<Longrightarrow> own z \<noteq> Some (Chunk y)"
  shows "chunked (retag own x e r) m c cs"
  using assms owns_retag by (auto simp: chunked_def)

lemma headed_retag:
  assumes "headed fs own m a hs L" "\<And>y z. x \<le> z \<Longrightarrow> z < e \<Longrightarrow> own z \<noteq> Some (Large y)"
  shows "headed fs (retag own x e r) m a hs L"
  using assms owns_retag by (auto simp: headed_def)

lemma lives_retag:
  assumes "lives own L" "\<And>y z. x \<le> z \<Longrightarrow> z < e \<Longrightarrow> own z \<noteq> Some (Used y)"
  shows "lives (retag own x e r) L"
  using assms owns_retag by (fastforce simp: lives_def)

lemma lives_retag_each:
  assumes "lives own L" "\<And>q k z. (q, k) \<in> set L \<Longrightarrow> x \<le> z \<Longrightarrow> z < e \<Longrightarrow> own z \<noteq> Some (Used q)"
  shows "lives (retag own x e r) L"
  using assms owns_retag by (fastforce simp: lives_def)

lemma covered_retag: "covered own H \<Longrightarrow> (\<And>z. x \<le> z \<Longrightarrow> z < e \<Longrightarrow> own z \<noteq> None) \<Longrightarrow> covered (retag own x e r) H"
  by (auto simp: covered_def retag_def)

lemma lives_new:
  assumes "lives own L" "p \<noteq> 0" "p mod 16 = 0" "\<And>y z. p \<le> z \<Longrightarrow> z < p + room n \<Longrightarrow> own z \<noteq> Some (Used y)"
  shows "lives (retag own p (p + room n) (Some (Used p))) ((p, n) # L)"
proof -
  have "p \<notin> fst ` set L"
  proof
    assume "p \<in> fst ` set L"
    then obtain k where "(p, k) \<in> set L" by auto
    then have "own p = Some (Used p)" using assms(1) room_pos(1) [of k] by (auto simp: lives_def owns_def)
    then show False using assms(4) [of p p] room_pos(1) [of n] by simp
  qed
  then show ?thesis using lives_retag [OF assms(1,4)] assms(2,3) owns_retag_new by (auto simp: lives_def)
qed

lemma distinct_keys_remove1: "distinct (map fst L) \<Longrightarrow> distinct (map fst (remove1 b L))"
  by (induction L) (force dest: subsetD [OF set_remove1_subset])+

lemma lives_less: "lives own L \<Longrightarrow> lives own (remove1 b L)"
  using distinct_keys_remove1 [of L b] by (auto simp: lives_def dest: subsetD [OF set_remove1_subset])

lemma live_used: "lives own L \<Longrightarrow> (p, n) \<in> set L \<Longrightarrow> p \<noteq> 0 \<and> p mod 16 = 0 \<and> owns own (Used p) p (p + room n)"
  by (auto simp: lives_def)

lemma live_fun: "lives own L \<Longrightarrow> (p, n) \<in> set L \<Longrightarrow> (p, k) \<in> set L \<Longrightarrow> n = k"
  by (auto simp: lives_def dest: eq_key_imp_eq_value)

lemma lives_gone:
  assumes "lives own L" "(p, n) \<in> set L" "p \<le> x" "e \<le> p + room n"
  shows "lives (retag own x e r) (remove1 (p, n) L)"
proof -
  have "distinct L" using assms(1) by (simp add: lives_def distinct_map)
  then have "\<forall>(q, k) \<in> set (remove1 (p, n) L). q \<noteq> p"
    using live_fun [OF assms(1,2)] by (auto simp: set_remove1_eq)
  moreover have "owns own (Used p) x e" using live_used [OF assms(1,2)] owns_sub assms(3,4) by blast
  ultimately show ?thesis using lives_less [OF assms(1), of "(p, n)"] owns_retag_other by (fastforce simp: lives_def)
qed

section \<open>Allocating\<close>

lemma took_fresh:
  assumes "took m z H = Some H'" "0 < z" "covered own H"
  shows "m \<noteq> 0 \<and> m mod 16 = 0 \<and> H' = (m, z) # H \<and> (\<forall>a. m \<le> a \<and> a < m + z \<longrightarrow> own a = None)"
proof -
  have t: "m \<noteq> 0" "m mod 16 = 0" "list_all (\<lambda>(b, w). m + z \<le> b \<or> b + w \<le> m) H" "H' = (m, z) # H"
    using assms(1,2) by (auto simp: took_def split: if_splits)
  have "own a = None" if a: "m \<le> a" "a < m + z" for a
  proof (rule ccontr)
    assume "own a \<noteq> None"
    then obtain b w where "(b, w) \<in> set H" "b \<le> a" "a < b + w" using assms(3) by (auto simp: covered_def)
    then show False using t(3) a by (fastforce simp: list_all_iff)
  qed
  then show ?thesis using t by blast
qed

text \<open>What an operation leaves of the blocks handed out before.\<close>

definition same_used :: "owners \<Rightarrow> (nat \<Rightarrow> nat) \<Rightarrow> owners \<Rightarrow> (nat \<Rightarrow> nat) \<Rightarrow> bool" where
  "same_used own m own' m' \<longleftrightarrow> (\<forall>a q. own a = Some (Used q) \<longrightarrow> own' a = Some (Used q) \<and> m' a = m a)"

lemma same_used_trans: "same_used own m own' m' \<Longrightarrow> same_used own' m' own'' m'' \<Longrightarrow> same_used own m own'' m''"
  by (simp add: same_used_def)

definition unused :: "owners \<Rightarrow> nat \<Rightarrow> nat \<Rightarrow> bool" where
  "unused own a b \<longleftrightarrow> (\<forall>x q. a \<le> x \<and> x < b \<longrightarrow> own x \<noteq> Some (Used q))"

lemma get_spare:
  assumes "pool_inv fs own sp cs hs u" "n \<le> POOL_MAX" "k = id_pool_class n" "p_fl (u_pool u) k = x" "x \<noteq> 0"
    "s = u_pool u" "u' = \<lparr>u_pool = s\<lparr>p_fl := (p_fl s)(k := p_mem s (x + 8))\<rparr>, u_live = (x, n) # u_live u, u_heap = u_heap u\<rparr>"
    "own' = retag own x (x + room n) (Some (Used x))"
  shows "pool_inv fs own' (sp(k := tl (sp k))) cs hs u' \<and> same_used own (p_mem (u_pool u)) own' (p_mem (u_pool u'))
    \<and> unused own x (x + room n)"
proof -
  have k: "0 < k" "k < NCLASS" using class_pos class_less assms(2,3) by auto
  note i = assms(1) [unfolded pool_inv_def]
  have sp: "spares own (p_mem s) (p_fl s) sp" using i assms(6) by simp
  have l: "linked (\<lambda>x. p_mem s (x + 8)) x (sp k)" using sp k assms(4,6) by (auto simp: spares_def)
  then obtain ys where ys: "sp k = x # ys" "linked (\<lambda>x. p_mem s (x + 8)) (p_mem s (x + 8)) ys" using assms(5) by (auto simp: linked_cons)
  have d: "x \<notin> set ys" using linked_distinct [OF l] ys(1) by simp
  have r: "room n = id_pool_class_bytes k" using assms(2,3) by (simp add: room_def)
  have x: "x mod 16 = 0" "owns own (Spare k x) x (x + room n)" using sp k ys(1) r by (auto simp: spares_def)
  then have tag: "own z = Some (Spare k x)" if "x \<le> z" "z < x + room n" for z using that by (auto simp: owns_def)
  have "lives own' ((x, n) # u_live u)" unfolding assms(8) using i tag assms(5) x(1) by (intro lives_new) auto
  moreover have "spares own' (p_mem s) ((p_fl s)(k := p_mem s (x + 8))) (sp(k := ys))"
    unfolding spares_def
  proof (intro allI impI conjI ballI)
    fix j assume j: "0 < j \<and> j < NCLASS"
    show "linked (\<lambda>x. p_mem s (x + 8)) (((p_fl s)(k := p_mem s (x + 8))) j) ((sp(k := ys)) j)"
      using ys(2) sp j by (auto simp: spares_def)
    fix y assume y: "y \<in> set ((sp(k := ys)) j)"
    then have "y \<in> set (sp j)" "j \<noteq> k \<or> y \<noteq> x" using ys(1) d by (auto split: if_splits)
    then show "y mod 16 = 0" "owns own' (Spare j y) y (y + id_pool_class_bytes j)"
      unfolding assms(8) using sp j by (auto simp: spares_def intro: owns_retag_other [OF _ x(2)])
  qed
  moreover have "rest own' (p_bump s) (p_left s)" "chunked own' (p_mem s) (p_chunks s) cs"
    "headed fs own' (p_mem s) (p_arena s) hs (u_live u)" "covered own' (u_heap u)"
    using i assms(6,8) tag rest_retag chunked_retag headed_retag covered_retag by auto
  moreover have "same_used own (p_mem s) own' (p_mem s)" using tag by (auto simp: same_used_def assms(8) retag_def)
  moreover have "large ((x, n) # u_live u) = large (u_live u)" using assms(2) by (simp add: large_def)
  moreover have "unused own x (x + room n)" using tag by (simp add: unused_def)
  moreover have "housed cs (sp(k := ys)) (p_bump s) (p_left s) ((x, n) # u_live u)"
    using i assms(6) ys(1) k r by (auto simp: housed_def split: if_splits)
  ultimately show ?thesis using i assms(6,7) ys(1) by (simp add: pool_inv_def headed_def backed_def)
qed

lemma carve_rest:
  assumes "pool_inv fs own sp cs hs u" "n \<le> POOL_MAX" "s = u_pool u" "room n \<le> p_left s" "b = p_bump s"
    "u' = \<lparr>u_pool = s\<lparr>p_bump := b + room n, p_left := p_left s - room n\<rparr>, u_live = (b, n) # u_live u, u_heap = u_heap u\<rparr>"
    "own' = retag own b (b + room n) (Some (Used b))"
  shows "pool_inv fs own' sp cs hs u' \<and> same_used own (p_mem (u_pool u)) own' (p_mem (u_pool u'))
    \<and> unused own b (b + room n)"
proof -
  note i = assms(1) [unfolded pool_inv_def]
  have rs: "b mod 16 = 0" "b \<noteq> 0" "owns own Rest b (b + p_left s)"
    using i assms(3-5) room_pos(1) [of n] by (auto simp: rest_def)
  have r16: "room n mod 16 = 0" using class_bytes_bounds(3) [OF class_pos class_less] assms(2) by (auto simp: room_def)
  have tag: "own z = Some Rest" if "b \<le> z" "z < b + room n" for z using that rs(3) assms(4) by (auto simp: owns_def)
  have "lives own' ((b, n) # u_live u)" unfolding assms(7) using i tag rs by (intro lives_new) auto
  moreover have "rest own' (b + room n) (p_left s - room n)"
    using rs r16 assms(4) by (auto simp: rest_def owns_def assms(7) retag_def mod_add_eq [symmetric])
  moreover have "spares own' (p_mem s) (p_fl s) sp" "chunked own' (p_mem s) (p_chunks s) cs"
    "headed fs own' (p_mem s) (p_arena s) hs (u_live u)" "covered own' (u_heap u)"
    using i assms(3,7) tag spares_retag chunked_retag headed_retag covered_retag by auto
  moreover have "same_used own (p_mem s) own' (p_mem s)" using tag by (auto simp: same_used_def assms(7) retag_def)
  moreover have "large ((b, n) # u_live u) = large (u_live u)" using assms(2) by (simp add: large_def)
  moreover have "unused own b (b + room n)" using tag by (simp add: unused_def)
  moreover have "housed cs sp (b + room n) (p_left s - room n) ((b, n) # u_live u)"
  proof -
    have "within cs b (b + p_left s)" using i assms(3-5) room_pos(1) [of n] by (auto simp: housed_def)
    then have "within cs b (b + room n)" "within cs (b + room n) (b + room n + (p_left s - room n))"
      using assms(4) by (auto intro: within_sub)
    then show ?thesis using i by (auto simp: housed_def)
  qed
  ultimately show ?thesis using i assms(3,6) by (simp add: pool_inv_def headed_def backed_def)
qed

text \<open>Fresh memory: no part owns anything there.\<close>

lemma parts_fresh:
  assumes "pool_inv fs own sp cs hs u" "\<And>a. x \<le> a \<Longrightarrow> a < e \<Longrightarrow> own a = None"
  shows "lives (retag own x e r) (u_live u)" "spares (retag own x e r) (p_mem (u_pool u)) (p_fl (u_pool u)) sp"
    "chunked (retag own x e r) (p_mem (u_pool u)) (p_chunks (u_pool u)) cs"
    "headed fs (retag own x e r) (p_mem (u_pool u)) (p_arena (u_pool u)) hs (u_live u)"
    "rest (retag own x e r) (p_bump (u_pool u)) (p_left (u_pool u))"
  using assms lives_retag spares_retag chunked_retag headed_retag rest_retag by (auto simp: pool_inv_def)

lemma retag_two: "retag (retag own x m r) m e q = (\<lambda>a. if m \<le> a \<and> a < e then q else if x \<le> a \<and> a < m then r else own a)"
  by (auto simp: retag_def)

lemma covered_new: "covered own H \<Longrightarrow> x \<le> m \<Longrightarrow> m \<le> e \<Longrightarrow> covered (retag (retag own x m r) m e q) ((x, e - x) # H)"
  by (auto simp: covered_def retag_def)

lemma keeps_retag: "keeps own m m' \<Longrightarrow> (\<And>a. x \<le> a \<Longrightarrow> a < e \<Longrightarrow> m' a = m a \<or> r = Some (Used t)) \<Longrightarrow> keeps (retag own x e r) m m'"
  by (auto simp: keeps_def retag_def)

lemma new_chunk:
  assumes "pool_inv fs own sp cs hs u" "took m CHUNK (u_heap u) = Some H" "s = u_pool u"
    "s1 = s\<lparr>p_mem := (p_mem s)(m := p_chunks s), p_chunks := m, p_bump := m + CHUNK_HDR, p_left := CHUNK - CHUNK_HDR,
       p_lo := lo, p_hi := hi, p_hooked := hk\<rparr>"
    "own' = retag (retag own m (m + CHUNK_HDR) (Some (Chunk m))) (m + CHUNK_HDR) (m + CHUNK) (Some Rest)"
  shows "pool_inv fs own' sp (m # cs) hs (u\<lparr>u_pool := s1, u_heap := H\<rparr>) \<and> same_used own (p_mem s) own' (p_mem s1)"
proof -
  note i = assms(1) [unfolded pool_inv_def]
  have m: "m \<noteq> 0" "m mod 16 = 0" "H = (m, CHUNK) # u_heap u" "\<And>a. m \<le> a \<Longrightarrow> a < m + CHUNK \<Longrightarrow> own a = None"
    using took_fresh [OF assms(2), of own] i by (auto simp: CHUNK_def)
  let ?own1 = "retag own m (m + CHUNK_HDR) (Some (Chunk m))" and ?mem = "p_mem s1"
  have mem: "?mem = (p_mem s)(m := p_chunks s)" by (simp add: assms(4))
  have hdr: "CHUNK_HDR = 16" "CHUNK = 262144" by (simp_all add: pool_consts)
  have own': "own' a = (if m + 16 \<le> a \<and> a < m + CHUNK then Some Rest else if m \<le> a \<and> a < m + 16 then Some (Chunk m) else own a)" for a
    by (simp add: assms(5) retag_two hdr(1))
  have o: "owns own t a b \<Longrightarrow> owns own' t a b" for t a b
    using m(4) by (auto simp: owns_def own' hdr(2))
  have nm: "owns own t a b \<Longrightarrow> a \<le> x \<Longrightarrow> x < b \<Longrightarrow> x \<noteq> m" for t a b x
    using m(4) [of m] by (auto simp: owns_def hdr(2))
  have k: "keeps own (p_mem s) ?mem" using m(4) [of m] by (auto simp: keeps_def mem hdr(2))
  have "lives own' (u_live u)" using i o by (auto simp: lives_def)
  moreover have "spares own' ?mem (p_fl s) sp" using spares_keep [OF _ k] i assms(3) o by (fastforce simp: spares_def)
  moreover have "rest own' (m + CHUNK_HDR) (CHUNK - CHUNK_HDR)"
    using m(1,2) by (auto simp: rest_def owns_def own' hdr mod_add_eq [symmetric])
  moreover have "chunked own' ?mem m (m # cs)"
  proof -
    have c: "chunked own (p_mem s) (p_chunks s) cs" using i assms(3) by simp
    have "chunked own ?mem (p_chunks s) cs" by (rule chunked_keep [OF c k])
    moreover have "?mem m = p_chunks s" by (simp add: mem)
    moreover have "owns own' (Chunk m) m (m + CHUNK_HDR)" by (simp add: owns_def own' hdr)
    ultimately show ?thesis using m(1) o by (auto simp: chunked_def)
  qed
  moreover have "headed fs own' ?mem (p_arena s) hs (u_live u)"
    using headed_keep [OF _ k] i assms(3) o by (fastforce simp: headed_def)
  moreover have "backed fs H (m # cs) (u_live u)" using i m(3) by (simp add: backed_def)
  moreover have "covered own' H" unfolding m(3)
    using i by (auto simp: covered_def own' hdr)
  moreover have "same_used own (p_mem s) own' ?mem"
    using m(4) nm by (auto simp: same_used_def own' mem hdr(2))
  moreover have "housed (m # cs) sp (m + CHUNK_HDR) (CHUNK - CHUNK_HDR) (u_live u)"
    using i within_more by (auto simp: housed_def within_def hdr)
  ultimately show ?thesis by (simp add: pool_inv_def assms(4))
qed

lemma large_block:
  assumes "pool_inv fs own sp cs hs u" "took m (n + ALLOC_HDR) (u_heap u) = Some H" "n > POOL_MAX" "s = u_pool u"
    "own' = retag (retag own m (m + ALLOC_HDR) (Some (Large m))) (m + ALLOC_HDR) (m + ALLOC_HDR + n) (Some (Used (m + ALLOC_HDR)))"
    "u' = \<lparr>u_pool = id_arena_link m s, u_live = (m + ALLOC_HDR, n) # u_live u, u_heap = H\<rparr>"
  shows "pool_inv fs own' sp cs (m # hs) u' \<and> same_used own (p_mem s) own' (p_mem (u_pool u'))
    \<and> unused own (m + ALLOC_HDR) (m + ALLOC_HDR + room n)"
proof -
  note i = assms(1) [unfolded pool_inv_def]
  have m: "m \<noteq> 0" "m mod 16 = 0" "H = (m, n + ALLOC_HDR) # u_heap u" "\<And>a. m \<le> a \<Longrightarrow> a < m + n + ALLOC_HDR \<Longrightarrow> own a = None"
    using took_fresh [OF assms(2), of own] i by (auto simp: ALLOC_HDR_def)
  have hdr: "ALLOC_HDR = 16" by (simp add: ALLOC_HDR_def)
  have own': "own' a = (if m + 16 \<le> a \<and> a < m + 16 + n then Some (Used (m + 16)) else if m \<le> a \<and> a < m + 16 then Some (Large m) else own a)" for a
    by (simp add: assms(5) retag_two hdr)
  have o: "owns own t a b \<Longrightarrow> owns own' t a b" for t a b
    using m(4) by (auto simp: owns_def own' hdr)
  define a where "a = p_arena s"
  define m' where "m' = (let m1 = (p_mem s)(m := 0, m + 8 := a) in if a \<noteq> 0 then m1(a := m) else m1)"
  have s': "p_mem (id_arena_link m s) = m'" "p_arena (id_arena_link m s) = m" "p_fl (id_arena_link m s) = p_fl s"
    "p_bump (id_arena_link m s) = p_bump s" "p_left (id_arena_link m s) = p_left s" "p_chunks (id_arena_link m s) = p_chunks s"
    by (simp_all add: id_arena_link_def id_arena_hook_def Let_def m'_def a_def)
  have hd: "headed fs own (p_mem s) a hs (u_live u)" using i assms(4) by (simp add: a_def)
  have h: "owns own (Large h) h (h + 16)" if "h \<in> set hs" for h using hd that by (simp add: headed_def hdr)
  have fresh: "x + 8 \<noteq> m \<and> x \<noteq> m + 8 \<and> x \<noteq> m" if "x \<in> set hs" for x
    using h [OF that] m(4) [of m] m(4) [of "m + 8"] by (auto simp: owns_def hdr)
  have two: "g \<noteq> h' + 8" if "g \<in> set hs" "h' \<in> set hs" for g h'
    using h [OF that(1)] h [OF that(2)] by (auto simp: owns_def)
  have ap: "apart (m # hs)" using fresh two by (auto simp: apart_def)
  have d: "dll m' m (m # hs)" unfolding m'_def using hd ap fresh m(1) by (intro dll_push) (auto simp: headed_def)
  have ah: "a \<noteq> 0 \<Longrightarrow> a \<in> set hs" using hd linked_hd [of "\<lambda>h. p_mem s (h + 8)" a hs] by (auto simp: headed_def dll_def)
  have same: "m' x = p_mem s x" if "own x = Some t" "\<And>y. t \<noteq> Large y" for x t
    using that(1) that(2) [of a] m(4) [of m] m(4) [of "m + 8"] ah h [of a] by (auto simp: m'_def Let_def hdr owns_def)
  have lg: "large ((m + 16, n) # u_live u) = (m + 16, n) # large (u_live u)" using assms(3) by (simp add: large_def)
  have "lives own' ((m + 16, n) # u_live u)"
  proof -
    have r: "room n = n" using assms(3) by (simp add: room_def)
    have "own' = retag (retag own m (m + 16) (Some (Large m))) (m + 16) (m + 16 + room n) (Some (Used (m + 16)))"
      by (simp add: assms(5) r hdr)
    moreover have "lives (retag own m (m + 16) (Some (Large m))) (u_live u)" using i m(4) by (intro lives_retag) (auto simp: hdr)
    moreover have "retag own m (m + 16) (Some (Large m)) z \<noteq> Some (Used y)" if "m + 16 \<le> z" "z < m + 16 + room n" for y z
      using that m(4) [of z] r by (simp add: retag_def hdr)
    ultimately show ?thesis using lives_new [of "retag own m (m + 16) (Some (Large m))" "u_live u" "m + 16" n] m(2)
      by (simp add: mod_add_eq [symmetric])
  qed
  moreover have "spares own' m' (p_fl s) sp"
  proof -
    have "linked (\<lambda>x. m' (x + 8)) (p_fl s k) (sp k)" if "0 < k" "k < NCLASS" for k
    proof -
      have "m' (x + 8) = p_mem s (x + 8)" if "x \<in> set (sp k)" for x
        using i assms(4) that \<open>0 < k\<close> \<open>k < NCLASS\<close> bytes_16 [of k] by (intro same [of _ "Spare k x"]) (auto simp: spares_def owns_def)
      then show ?thesis using i assms(4) that linked_cong [of "sp k" "\<lambda>x. m' (x + 8)" "\<lambda>x. p_mem s (x + 8)"] by (simp add: spares_def)
    qed
    then show ?thesis using i assms(4) o by (auto simp: spares_def)
  qed
  moreover have "rest own' (p_bump s) (p_left s)" using i assms(4) o by (auto simp: rest_def)
  moreover have "chunked own' m' (p_chunks s) cs"
  proof -
    have "m' x = p_mem s x" if "x \<in> set cs" for x
      using i that by (intro same [of _ "Chunk x"]) (auto simp: chunked_def owns_def CHUNK_HDR_def)
    then show ?thesis using i assms(4) o linked_cong [of cs m' "p_mem s"] by (auto simp: chunked_def)
  qed
  moreover have "headed fs own' m' m (m # hs) ((m + 16, n) # u_live u)"
  proof -
    have "owns own' (Large m) m (m + 16)" by (simp add: owns_def own')
    moreover have "\<forall>h \<in> set hs. owns own' (Large h) h (h + 16)" using h o by blast
    ultimately show ?thesis using d hd m(1) unfolding headed_def lg by (simp add: hdr)
  qed
  moreover have "backed fs H cs ((m + 16, n) # u_live u)" using i m(3) unfolding backed_def lg by (simp add: hdr)
  moreover have "covered own' H" unfolding m(3) using i by (auto simp: covered_def own' hdr)
  moreover have "same_used own (p_mem s) own' m'"
    unfolding same_used_def
  proof (intro allI impI)
    fix x q assume x: "own x = Some (Used q)"
    then show "own' x = Some (Used q) \<and> m' x = p_mem s x" using same [OF x] m(4) [of x] by (auto simp: own' hdr)
  qed
  moreover have "unused own (m + 16) (m + 16 + room n)" using m(4) assms(3) by (simp add: unused_def room_def hdr)
  moreover have "housed cs sp (p_bump s) (p_left s) ((m + 16, n) # u_live u)" using i assms(3,4) by (auto simp: housed_def)
  ultimately show ?thesis by (simp add: pool_inv_def assms(6) s' hdr)
qed

lemma get_inv:
  assumes "pool_inv fs own sp cs hs u" "do_get m n u = Some (p, u')"
  shows "\<exists>own' sp' c h. pool_inv fs own' sp' (c @ cs) (h @ hs) u' \<and> same_used own (p_mem (u_pool u)) own' (p_mem (u_pool u'))
    \<and> unused own p (p + room n)"
proof -
  let ?s = "u_pool u" and ?k = "id_pool_class n"
  obtain H s' where g: "took m (asks n ?s) (u_heap u) = Some H" "id_pool_get m n ?s = Inr (p, s')"
    "u' = \<lparr>u_pool = s', u_live = (p, n) # u_live u, u_heap = H\<rparr>"
    using assms(2) by (auto simp: do_get_def split: option.splits sum.splits)
  have concl: "pool_inv fs own' sp' (c @ cs) (h @ hs) u' \<Longrightarrow> same_used own (p_mem ?s) own' (p_mem (u_pool u'))
      \<Longrightarrow> unused own p (p + room n) \<Longrightarrow> ?thesis" for own' sp' c h by blast
  show ?thesis
  proof (cases "n \<le> POOL_MAX")
    case False
    then have "asks n ?s = n + ALLOC_HDR" by (simp add: asks_def)
    moreover have "p = m + ALLOC_HDR" "s' = id_arena_link m ?s"
      using False g(2) by (cases "id_add_check n ALLOC_HDR ''alloc''"; auto simp: id_pool_get_def id_pool_large_alloc_def split: if_splits)+
    ultimately show ?thesis using large_block [OF assms(1), of m n H ?s _ u', OF _ _ refl refl] g False concl [of _ sp "[]" "[m]"] by auto
  next
    case n: True
    have r: "room n = id_pool_class_bytes ?k" using n by (simp add: room_def)
    show ?thesis
    proof (cases "p_fl ?s ?k = 0")
      case False
      then have "asks n ?s = 0" "p = p_fl ?s ?k" "s' = ?s\<lparr>p_fl := (p_fl ?s)(?k := p_mem ?s (p_fl ?s ?k + 8))\<rparr>"
        using n g(2) by (auto simp: asks_def id_pool_get_def Let_def)
      then have "pool_inv fs (retag own p (p + room n) (Some (Used p))) (sp(?k := tl (sp ?k))) cs hs u'
          \<and> same_used own (p_mem ?s) (retag own p (p + room n) (Some (Used p))) (p_mem (u_pool u')) \<and> unused own p (p + room n)"
        using get_spare [where x = p and s = ?s and u' = u', OF assms(1) n refl _ _ refl _ refl] g False by (simp add: took_def)
      then show ?thesis using concl [of "retag own p (p + room n) (Some (Used p))" "sp(?k := tl (sp ?k))" "[]" "[]"] by simp
    next
      case fl: True
      have c: "id_pool_carve m (room n) ?s = Inr (p, s')" using g(2) n fl r by (simp add: id_pool_get_def Let_def)
      show ?thesis
      proof (cases "p_left ?s < room n")
        case False
        then have "asks n ?s = 0" "p = p_bump ?s" "s' = ?s\<lparr>p_bump := p + room n, p_left := p_left ?s - room n\<rparr>"
          using n r c by (auto simp: asks_def id_pool_carve_def)
        then have "pool_inv fs (retag own p (p + room n) (Some (Used p))) sp cs hs u'
            \<and> same_used own (p_mem ?s) (retag own p (p + room n) (Some (Used p))) (p_mem (u_pool u')) \<and> unused own p (p + room n)"
          using carve_rest [where b = p and u' = u', OF assms(1) n refl _ _ _ refl] g False by (simp add: took_def)
        then show ?thesis using concl [of "retag own p (p + room n) (Some (Used p))" sp "[]" "[]"] by simp
      next
        case True
        then have a: "asks n ?s = CHUNK" using n fl r by (simp add: asks_def)
        define s1 where "s1 = id_arena_hook (id_pool_span m (m + CHUNK) (store_cell ?s m (p_chunks ?s)\<lparr>p_chunks := m\<rparr>)
            \<lparr>p_bump := m + CHUNK_HDR, p_left := CHUNK - CHUNK_HDR\<rparr>)"
        have s': "p = p_bump s1" "s' = s1\<lparr>p_bump := p + room n, p_left := p_left s1 - room n\<rparr>"
          using c True by (auto simp: id_pool_carve_def s1_def Let_def split: if_splits)
        define own1 where "own1 = retag (retag own m (m + CHUNK_HDR) (Some (Chunk m))) (m + CHUNK_HDR) (m + CHUNK) (Some Rest)"
        have "s1 = ?s\<lparr>p_mem := (p_mem ?s)(m := p_chunks ?s), p_chunks := m, p_bump := m + CHUNK_HDR, p_left := CHUNK - CHUNK_HDR,
            p_lo := p_lo s1, p_hi := p_hi s1, p_hooked := p_hooked s1\<rparr>"
          by (simp add: s1_def id_arena_hook_def id_pool_span_def)
        then have 1: "pool_inv fs own1 sp (m # cs) hs (u\<lparr>u_pool := s1, u_heap := H\<rparr>)" "same_used own (p_mem ?s) own1 (p_mem s1)"
          using new_chunk [OF assms(1) g(1) [unfolded a] refl _ own1_def] by blast+
        have left: "p_left s1 = 262128" by (simp add: s1_def id_arena_hook_def id_pool_span_def pool_consts)
        have "room n \<le> 16384" using class_bytes_bounds(2) [OF class_pos class_less] n r by simp
        then have 2: "pool_inv fs (retag own1 p (p + room n) (Some (Used p))) sp (m # cs) hs u'
            \<and> same_used own1 (p_mem s1) (retag own1 p (p + room n) (Some (Used p))) (p_mem (u_pool u')) \<and> unused own1 p (p + room n)"
          using carve_rest [OF 1(1) n refl, of p u'] s' g(3) left by simp
        have "unused own p (p + room n)" using 2 1(2) by (auto simp: unused_def same_used_def)
        then show ?thesis using 2 same_used_trans [OF 1(2)] concl [of "retag own1 p (p + room n) (Some (Used p))" sp "[m]" "[]"] by simp
      qed
    qed
  qed
qed

section \<open>Releasing\<close>

definition same_but :: "nat \<Rightarrow> owners \<Rightarrow> (nat \<Rightarrow> nat) \<Rightarrow> owners \<Rightarrow> (nat \<Rightarrow> nat) \<Rightarrow> bool" where
  "same_but p own m own' m' \<longleftrightarrow> (\<forall>a q. own a = Some (Used q) \<longrightarrow> q \<noteq> p \<longrightarrow> own' a = Some (Used q) \<and> m' a = m a)"

lemma free_small:
  assumes "pool_inv fs own sp cs hs u" "n \<le> POOL_MAX" "(p, n) \<in> set (u_live u)" "k = id_pool_class n" "s = u_pool u"
    "u' = \<lparr>u_pool = s\<lparr>p_mem := (p_mem s)(p + 8 := p_fl s k), p_fl := (p_fl s)(k := p)\<rparr>, u_live = remove1 (p, n) (u_live u), u_heap = u_heap u\<rparr>"
    "own' = retag own p (p + room n) (Some (Spare k p))"
  shows "pool_inv fs own' (sp(k := p # sp k)) cs hs u' \<and> same_but p own (p_mem s) own' (p_mem (u_pool u'))"
proof -
  note i = assms(1) [unfolded pool_inv_def]
  have k: "0 < k" "k < NCLASS" using class_pos class_less assms(2,4) by auto
  have r: "room n = id_pool_class_bytes k" using assms(2,4) by (simp add: room_def)
  have p: "p \<noteq> 0" "p mod 16 = 0" "owns own (Used p) p (p + room n)" using live_used [of own "u_live u" p n] i assms(3) by auto
  have tag: "own z = Some (Used p)" if "p \<le> z" "z < p + room n" for z using that p(3) by (auto simp: owns_def)
  have p8: "own (p + 8) = Some (Used p)" using tag [of "p + 8"] bytes_16 [OF k] r by simp
  let ?m = "(p_mem s)(p + 8 := p_fl s k)"
  have kp: "keeps own (p_mem s) ?m" using p8 by (auto simp: keeps_def)
  have "lives own' (remove1 (p, n) (u_live u))" unfolding assms(7) using i assms(3) by (intro lives_gone) auto
  moreover have "spares own' ?m ((p_fl s)(k := p)) (sp(k := p # sp k))"
  proof -
    have old: "spares own' ?m (p_fl s) sp" unfolding assms(7)
      using spares_keep [OF _ kp] i assms(5) tag by (intro spares_retag) auto
    moreover have "owns own' (Spare k p) p (p + id_pool_class_bytes k)" using owns_retag_new by (simp add: assms(7) r)
    ultimately show ?thesis using p(1,2) by (auto simp: spares_def)
  qed
  moreover have "rest own' (p_bump s) (p_left s)" unfolding assms(7) using i assms(5) tag by (intro rest_retag) auto
  moreover have "chunked own' ?m (p_chunks s) cs"
    unfolding assms(7) using chunked_keep [OF _ kp] i assms(5) tag by (intro chunked_retag) auto
  moreover have lg: "large (remove1 (p, n) (u_live u)) = large (u_live u)"
    using assms(2) by (simp add: large_def filter_remove1 remove1_idem)
  moreover have "headed fs own' ?m (p_arena s) hs (remove1 (p, n) (u_live u))"
  proof -
    have "headed fs own' ?m (p_arena s) hs (u_live u)"
      unfolding assms(7) using headed_keep [OF _ kp] i assms(5) tag by (intro headed_retag) auto
    then show ?thesis by (simp add: headed_def lg)
  qed
  moreover have "covered own' (u_heap u)" unfolding assms(7) using i tag by (intro covered_retag) auto
  moreover have "same_but p own (p_mem s) own' ?m"
    using tag p8 by (auto simp: same_but_def assms(7) retag_def)
  moreover have "housed cs (sp(k := p # sp k)) (p_bump s) (p_left s) (remove1 (p, n) (u_live u))"
    using i assms(2,3,5) r by (auto simp: housed_def dest: subsetD [OF set_remove1_subset])
  ultimately show ?thesis using i assms(6) by (simp add: pool_inv_def backed_def)
qed

lemma large_remove: "n > POOL_MAX \<Longrightarrow> large (remove1 (p, n) L) = remove1 (p, n) (large L)"
  by (simp add: large_def filter_remove1)

lemma mset_map_remove1: "x \<in> set xs \<Longrightarrow> mset (map f (remove1 x xs)) = mset (map f xs) - {#f x#}"
  by (simp add: image_mset_Diff)

lemma heads_distinct: "headed fs own m a hs L \<Longrightarrow> distinct hs \<and> 0 \<notin> set hs"
proof -
  assume "headed fs own m a hs L"
  then have l: "linked (\<lambda>h. m (h + 8)) a hs" by (simp add: headed_def dll_def)
  then show ?thesis using linked_distinct [OF l] linked_nonzero [OF l, of 0] by blast
qed

lemma heads_apart: "(\<And>g. g \<in> set hs \<Longrightarrow> owns own (Large g) g (g + 16)) \<Longrightarrow> apart hs"
proof -
  assume o: "\<And>g. g \<in> set hs \<Longrightarrow> owns own (Large g) g (g + 16)"
  have "g \<noteq> h + 8" if "g \<in> set hs" "h \<in> set hs" for g h
    using ownsD [OF o [OF that(1)], of g] ownsD [OF o [OF that(2)], of "h + 8"] by auto
  then show ?thesis by (auto simp: apart_def)
qed

lemma head_listed: "headed fs own m a hs L \<Longrightarrow> (p, n) \<in> set (large L) \<Longrightarrow> p - ALLOC_HDR \<in> set hs"
proof -
  assume "headed fs own m a hs L" and b: "(p, n) \<in> set (large L)"
  then have "mset (map (\<lambda>(p, n). p - ALLOC_HDR) (large L)) \<subseteq># mset hs" by (simp add: headed_def)
  from set_mset_mono [OF this] b show ?thesis by force
qed

text \<open>The memory and the head of the list after a large block is unlinked.\<close>

lemma unlink_parts:
  assumes "headed fs own m a hs L" "h \<in> set hs" "s' = id_arena_unlink h s" "m = p_mem s" "a = p_arena s"
  shows "dll (p_mem s') (p_arena s') (remove1 h hs)"
    "\<And>x t. own x = Some t \<Longrightarrow> (\<forall>y. t \<noteq> Large y) \<Longrightarrow> p_mem s' x = m x"
    "p_fl s' = p_fl s" "p_bump s' = p_bump s" "p_left s' = p_left s" "p_chunks s' = p_chunks s"
proof -
  have o: "owns own (Large g) g (g + 16)" if "g \<in> set hs" for g using assms(1) that by (simp add: headed_def ALLOC_HDR_def)
  have d: "dll m a hs" using assms(1) by (simp add: headed_def)
  have ap: "apart hs" using o by (rule heads_apart)
  obtain xs ys where hs: "hs = xs @ h # ys" using assms(2) by (auto simp: in_set_conv_decomp)
  have dist: "distinct hs" using d linked_distinct by (auto simp: dll_def)
  then have rm: "remove1 h hs = xs @ ys" using hs by (simp add: remove1_append)
  define m1 where "m1 = (if m h \<noteq> 0 then m(m h + 8 := m (h + 8)) else m)"
  have s': "p_mem s' = (if m1 (h + 8) \<noteq> 0 then m1(m1 (h + 8) := m1 h) else m1)"
    "p_arena s' = (if m h \<noteq> 0 then a else m (h + 8))"
    by (auto simp: assms(3-5) id_arena_unlink_def Let_def m1_def)
  show "dll (p_mem s') (p_arena s') (remove1 h hs)"
    using dll_unlink [OF d [unfolded hs] ap [unfolded hs]] unfolding rm s' m1_def by simp
  show "p_fl s' = p_fl s" "p_bump s' = p_bump s" "p_left s' = p_left s" "p_chunks s' = p_chunks s"
    by (simp_all add: assms(3) id_arena_unlink_def Let_def)
  fix x t assume x: "own x = Some t" "\<forall>y. t \<noteq> Large y"
  have nl: "g \<in> set hs \<Longrightarrow> x \<noteq> g \<and> x \<noteq> g + 8" for g using o [of g] x by (auto simp: owns_def)
  have "m h \<noteq> 0 \<Longrightarrow> m h \<in> set hs"
  proof -
    assume "m h \<noteq> 0"
    then obtain us g where "xs = us @ [g]" using d hs by (cases xs rule: rev_cases) (auto simp: dll_def)
    then show "m h \<in> set hs" using backs_at [of m 0 us g h ys] d hs by (auto simp: dll_def)
  qed
  moreover have n: "m (h + 8) \<noteq> 0 \<Longrightarrow> m (h + 8) \<in> set hs"
    using linked_at [of "\<lambda>h. m (h + 8)" a xs h ys] linked_hd [of "\<lambda>h. m (h + 8)" "m (h + 8)" ys] d hs by (auto simp: dll_def)
  moreover have "m1 (h + 8) = m (h + 8)" by (auto simp: m1_def)
  ultimately show "p_mem s' x = m x" using nl unfolding s' by (auto simp: m1_def)
qed

lemma free_large:
  assumes "pool_inv fs own sp cs hs u" "n > POOL_MAX" "(p, n) \<in> set (u_live u)" "s = u_pool u" "h = p - ALLOC_HDR"
    "u' = \<lparr>u_pool = id_arena_unlink h s, u_live = remove1 (p, n) (u_live u), u_heap = remove1 (h, n + ALLOC_HDR) (u_heap u)\<rparr>"
    "own' = retag own h (p + n) None"
  shows "pool_inv fs own' sp cs (remove1 h hs) u' \<and> same_but p own (p_mem s) own' (p_mem (u_pool u'))"
proof -
  note i = assms(1) [unfolded pool_inv_def]
  let ?L = "remove1 (p, n) (u_live u)" and ?s = "id_arena_unlink h s"
  have hd: "headed fs own (p_mem s) (p_arena s) hs (u_live u)" using i assms(4) by simp
  have b: "(p, n) \<in> set (large (u_live u))" using assms(2,3) by (simp add: large_def)
  have p: "p = h + 16" using hd b assms(5) by (auto simp: headed_def ALLOC_HDR_def)
  have h: "h \<in> set hs" using head_listed [OF hd b] assms(5) by simp
  note un = unlink_parts [OF hd h refl refl refl]
  have u: "owns own (Used p) p (p + n)" using live_used [of own "u_live u" p n] i assms(2,3) by (auto simp: room_def)
  have l: "owns own (Large h) h p" using hd h p by (simp add: headed_def ALLOC_HDR_def)
  have tag: "own z = Some (Used p) \<or> own z = Some (Large h)" if "h \<le> z" "z < p + n" for z
    using that u l by (cases "z < p") (auto simp: owns_def)
  have lg: "large ?L = remove1 (p, n) (large (u_live u))" using assms(2) by (rule large_remove)
  have "lives own' ?L"
  proof -
    have ne: "q \<noteq> p" if "(q, k) \<in> set ?L" for q k
      using that live_fun [of own "u_live u" p n k] i assms(3)
      by (auto simp: lives_def distinct_map set_remove1_eq)
    have "own z \<noteq> Some (Used q)" if "(q, k) \<in> set ?L" "h \<le> z" "z < p + n" for q k z
      using tag [OF that(2,3)] ne [OF that(1)] by auto
    then show ?thesis unfolding assms(7) using i lives_less by (intro lives_retag_each) auto
  qed
  moreover have "spares own' (p_mem ?s) (p_fl ?s) sp"
  proof -
    have "linked (\<lambda>x. p_mem ?s (x + 8)) (p_fl s k) (sp k)" if "0 < k" "k < NCLASS" for k
    proof -
      have "p_mem ?s (x + 8) = p_mem s (x + 8)" if "x \<in> set (sp k)" for x
        using i assms(4) that \<open>0 < k\<close> \<open>k < NCLASS\<close> bytes_16 [of k] by (intro un(2) [of _ "Spare k x"]) (auto simp: spares_def owns_def)
      then show ?thesis using i assms(4) that linked_cong [of "sp k" "\<lambda>x. p_mem ?s (x + 8)" "\<lambda>x. p_mem s (x + 8)"] by (simp add: spares_def)
    qed
    then have "spares own (p_mem ?s) (p_fl ?s) sp" using i assms(4) un(3) by (auto simp: spares_def)
    then show ?thesis unfolding assms(7) by (rule spares_retag) (use tag in force)
  qed
  moreover have "rest own' (p_bump ?s) (p_left ?s)" unfolding assms(7) un(4,5) using i assms(4) tag by (intro rest_retag) (auto, force)
  moreover have "chunked own' (p_mem ?s) (p_chunks ?s) cs"
  proof -
    have "p_mem ?s x = p_mem s x" if "x \<in> set cs" for x
      using i that by (intro un(2) [of _ "Chunk x"]) (auto simp: chunked_def owns_def CHUNK_HDR_def)
    then have "chunked own (p_mem ?s) (p_chunks ?s) cs" using i assms(4) un(6) linked_cong [of cs "p_mem ?s" "p_mem s"] by (auto simp: chunked_def)
    then show ?thesis unfolding assms(7) by (rule chunked_retag) (use tag in force)
  qed
  moreover have "headed fs own' (p_mem ?s) (p_arena ?s) (remove1 h hs) ?L"
  proof -
    have "owns own' (Large g) g (g + ALLOC_HDR)" if "g \<in> set (remove1 h hs)" for g
    proof -
      have "distinct hs" using hd linked_distinct by (auto simp: headed_def dll_def)
      then have "g \<in> set hs" "g \<noteq> h" using that by auto
      then have "own z \<noteq> Some (Large g)" if "h \<le> z" "z < p + n" for z using tag [OF that] by auto
      then show ?thesis unfolding assms(7) using hd \<open>g \<in> set hs\<close> by (intro owns_retag) (auto simp: headed_def)
    qed
    moreover have "mset (remove1 h hs) = mset fs + mset (map (\<lambda>(p, n). p - ALLOC_HDR) (large ?L))"
    proof -
      let ?g = "\<lambda>(p, n). p - ALLOC_HDR"
      have "?g (p, n) \<in># mset (map ?g (large (u_live u)))" using b by force
      then have "mset fs + mset (map ?g (large (u_live u))) - {#?g (p, n)#} = mset fs + (mset (map ?g (large (u_live u))) - {#?g (p, n)#})"
        by (rule diff_union_single_conv)
      moreover have "mset hs = mset fs + mset (map ?g (large (u_live u)))" using hd by (simp add: headed_def)
      ultimately show ?thesis unfolding lg mset_map_remove1 [OF b] mset_remove1 assms(5) by simp
    qed
    moreover have "\<forall>(q, k) \<in> set (large ?L). ALLOC_HDR < q" using hd by (auto simp: lg headed_def dest: subsetD [OF set_remove1_subset])
    ultimately show ?thesis using un(1) by (simp add: headed_def)
  qed
  moreover have "backed fs (remove1 (h, n + ALLOC_HDR) (u_heap u)) cs ?L"
  proof -
    let ?g = "\<lambda>(p, n). (p - ALLOC_HDR, n + ALLOC_HDR)" and ?A = "mset (map (\<lambda>f. (f, ALLOC_HDR)) fs) + mset (map (\<lambda>c. (c, CHUNK)) cs)"
    have v: "?g (p, n) = (h, n + ALLOC_HDR)" by (simp add: assms(5))
    have "?g (p, n) \<in># mset (map ?g (large (u_live u)))" using b by force
    then have "?A + mset (map ?g (large (u_live u))) - {#?g (p, n)#} = ?A + (mset (map ?g (large (u_live u))) - {#?g (p, n)#})"
      by (rule diff_union_single_conv)
    moreover have "mset (u_heap u) = ?A + mset (map ?g (large (u_live u)))" using i by (simp add: backed_def)
    ultimately show ?thesis unfolding backed_def lg mset_map_remove1 [OF b] mset_remove1 v by simp
  qed
  moreover have "covered own' (remove1 (h, n + ALLOC_HDR) (u_heap u))"
    unfolding covered_def
  proof (intro allI impI)
    fix a assume a: "own' a \<noteq> None"
    then have na: "own a \<noteq> None" "\<not> (h \<le> a \<and> a < p + n)" by (auto simp: assms(7) retag_def split: if_splits)
    then obtain b z where bz: "(b, z) \<in> set (u_heap u)" "b \<le> a" "a < b + z" using i by (auto simp: covered_def)
    then have "(b, z) \<noteq> (h, n + ALLOC_HDR)" using na(2) p by (auto simp: ALLOC_HDR_def)
    then show "\<exists>(b, z) \<in> set (remove1 (h, n + ALLOC_HDR) (u_heap u)). b \<le> a \<and> a < b + z" using bz by (auto simp: in_set_remove1)
  qed
  moreover have "same_but p own (p_mem s) own' (p_mem ?s)"
    unfolding same_but_def
  proof (intro allI impI)
    fix a q assume a: "own a = Some (Used q)" "q \<noteq> p"
    then have "\<not> (h \<le> a \<and> a < p + n)" using tag [of a] by auto
    then show "own' a = Some (Used q) \<and> p_mem ?s a = p_mem s a" using a un(2) [OF a(1)] by (simp add: assms(7) retag_def)
  qed
  moreover have "housed cs sp (p_bump ?s) (p_left ?s) ?L"
    using i assms(4) un(4,5) by (auto simp: housed_def dest: subsetD [OF set_remove1_subset])
  ultimately show ?thesis by (simp add: pool_inv_def assms(6))
qed

lemma free_inv:
  assumes "pool_inv fs own sp cs hs u" "do_free p n u = Some u'"
  shows "\<exists>own' sp'. pool_inv fs own' sp' cs (if n \<le> POOL_MAX then hs else remove1 (p - ALLOC_HDR) hs) u'
    \<and> same_but p own (p_mem (u_pool u)) own' (p_mem (u_pool u'))"
proof -
  have l: "(p, n) \<in> set (u_live u)"
    and u': "u' = \<lparr>u_pool = id_pool_free p n (u_pool u), u_live = remove1 (p, n) (u_live u), u_heap = gave p n (u_heap u)\<rparr>"
    using assms(2) by (auto simp: do_free_def split: if_splits)
  have p: "p \<noteq> 0" using live_used [of own "u_live u" p n] l assms(1) by (auto simp: pool_inv_def)
  show ?thesis
  proof (cases "n \<le> POOL_MAX")
    case True
    then show ?thesis using free_small [OF assms(1) True l refl refl _ refl, of u'] u' p
      by (auto simp: id_pool_free_def Let_def gave_def)
  next
    case False
    then show ?thesis using free_large [OF assms(1) _ l refl refl _ refl, of u'] u' p
      by (auto simp: id_pool_free_def id_pool_large_free_def gave_def)
  qed
qed

section \<open>Writing and reallocating\<close>

lemma inv_keep:
  assumes "pool_inv fs own sp cs hs u" "keeps own (p_mem (u_pool u)) m'"
  shows "pool_inv fs own sp cs hs (u\<lparr>u_pool := (u_pool u)\<lparr>p_mem := m'\<rparr>\<rparr>)"
  using assms spares_keep chunked_keep headed_keep by (auto simp: pool_inv_def)

lemma pool_write_inv:
  assumes "pool_inv fs own sp cs hs u" "do_write a v u = Some u'"
  shows "pool_inv fs own sp cs hs u' \<and> p_mem (u_pool u') = (p_mem (u_pool u))(a := v) \<and> u_live u' = u_live u"
proof -
  obtain p n where p: "(p, n) \<in> set (u_live u)" "p \<le> a" "a + 8 \<le> p + n" "u' = u\<lparr>u_pool := store_cell (u_pool u) a v\<rparr>"
    using assms(2) by (auto simp: do_write_def list_ex_iff split: if_splits)
  then have "own a = Some (Used p)"
    using live_used [of own "u_live u" p n] assms(1) room_pos(2) [of n] by (auto simp: pool_inv_def owns_def)
  then have "keeps own (p_mem (u_pool u)) ((p_mem (u_pool u))(a := v))" by (auto simp: keeps_def)
  from inv_keep [OF assms(1) this] show ?thesis using p(4) by simp
qed

lemma copy_same: "x < q \<or> q + n \<le> x \<Longrightarrow> p_mem (copy_cells q p n s) x = p_mem s x"
  by (auto simp: copy_cells_def)

lemma copy_moved: "i < n \<Longrightarrow> p_mem (copy_cells q p n s) (q + i) = p_mem s (p + i)"
  by (simp add: copy_cells_def)

lemma copy_pool: "copy_cells q p n s = s\<lparr>p_mem := p_mem (copy_cells q p n s)\<rparr>"
  by (simp add: copy_cells_def)

lemma realloc_stays:
  assumes "pool_inv fs own sp cs hs u" "(p, old) \<in> set (u_live u)" "stays old n"
  shows "pool_inv fs own sp cs hs (u\<lparr>u_live := (p, n) # remove1 (p, old) (u_live u)\<rparr>)"
proof -
  have n: "old \<le> POOL_MAX" "n \<le> POOL_MAX" "room n = room old" using assms(3) by (auto simp: stays_def room_def)
  have l: "lives own (u_live u)" using assms(1) by (simp add: pool_inv_def)
  have "distinct (u_live u)" using l by (simp add: lives_def distinct_map)
  then have "p \<notin> fst ` set (remove1 (p, old) (u_live u))" using live_fun [OF l assms(2)] by (auto simp: set_remove1_eq)
  then have "lives own ((p, n) # remove1 (p, old) (u_live u))"
    using lives_less [OF l] live_used [OF l assms(2)] n(3) by (auto simp: lives_def)
  moreover have "large ((p, n) # remove1 (p, old) (u_live u)) = large (u_live u)"
    using n(1,2) by (simp add: large_def filter_remove1 remove1_idem)
  moreover have "housed cs sp (p_bump (u_pool u)) (p_left (u_pool u)) ((p, n) # remove1 (p, old) (u_live u))"
    using assms(1,2) n by (auto simp: pool_inv_def housed_def dest: subsetD [OF set_remove1_subset])
  ultimately show ?thesis using assms(1) by (simp add: pool_inv_def headed_def backed_def)
qed

lemma realloc_large:
  assumes "pool_inv fs own sp cs hs u" "(p, old) \<in> set (u_live u)" "both_large old n"
    "took m (n + ALLOC_HDR) (gave p old (u_heap u)) = Some H" "id_realloc m p old n (u_pool u) = Inr (q, s')"
    "u' = \<lparr>u_pool = s', u_live = (q, n) # remove1 (p, old) (u_live u), u_heap = H\<rparr>"
  shows "\<exists>own'. pool_inv fs own' sp cs (m # remove1 (p - ALLOC_HDR) hs) u' \<and> same_but p own (p_mem (u_pool u)) own' (p_mem (u_pool u'))
    \<and> (\<forall>i < min old n. p_mem (u_pool u') (q + i) = p_mem (u_pool u) (p + i))"
proof -
  let ?s = "u_pool u" and ?h = "p - ALLOC_HDR"
  have big: "old > POOL_MAX" "n > POOL_MAX" using assms(3) by (auto simp: both_large_def)
  have l: "lives own (u_live u)" using assms(1) by (simp add: pool_inv_def)
  have p: "p \<noteq> 0" using live_used [OF l assms(2)] by simp
  let ?s1 = "id_arena_unlink ?h ?s"
  let ?s2 = "copy_cells m ?h (ALLOC_HDR + min old n) ?s1"
  have r: "q = m + ALLOC_HDR" "s' = id_arena_link m ?s2"
    using assms(5) p big by (cases "id_add_check n ALLOC_HDR ''realloc''"; auto simp: id_realloc_def Let_def split: if_splits)+
  define u1 where "u1 = \<lparr>u_pool = ?s1, u_live = remove1 (p, old) (u_live u), u_heap = gave p old (u_heap u)\<rparr>"
  define own1 where "own1 = retag own ?h (p + old) None"
  have "u1 = \<lparr>u_pool = ?s1, u_live = remove1 (p, old) (u_live u), u_heap = remove1 (?h, old + ALLOC_HDR) (u_heap u)\<rparr>"
    using big by (simp add: u1_def gave_def)
  from free_large [OF assms(1) big(1) assms(2) refl refl this own1_def]
  have 1: "pool_inv fs own1 sp cs (remove1 ?h hs) u1" "same_but p own (p_mem ?s) own1 (p_mem ?s1)" by (simp_all add: u1_def)
  have fresh: "m \<noteq> 0" "own1 a = None" if "m \<le> a" "a < m + n + ALLOC_HDR" for a
    using took_fresh [OF assms(4), of own1] 1(1) that by (auto simp: pool_inv_def u1_def ALLOC_HDR_def)
  have k: "keeps own1 (p_mem ?s1) (p_mem ?s2)"
    unfolding keeps_def
  proof (intro allI impI)
    fix a t assume "own1 a = Some t \<and> (\<forall>p. t \<noteq> Used p)"
    then have "a < m \<or> m + n + ALLOC_HDR \<le> a" using fresh(2) [of a] by force
    then show "p_mem ?s2 a = p_mem ?s1 a" by (intro copy_same) auto
  qed
  define u2 where "u2 = u1\<lparr>u_pool := ?s2\<rparr>"
  have 2: "pool_inv fs own1 sp cs (remove1 ?h hs) u2"
    using inv_keep [OF 1(1), of "p_mem ?s2"] k by (simp add: u2_def u1_def copy_pool [of m ?h "ALLOC_HDR + min old n" ?s1, symmetric])
  define own2 where "own2 = retag (retag own1 m (m + ALLOC_HDR) (Some (Large m))) (m + ALLOC_HDR) (m + ALLOC_HDR + n) (Some (Used (m + ALLOC_HDR)))"
  have 3: "pool_inv fs own2 sp cs (m # remove1 ?h hs) u'" "same_used own1 (p_mem ?s2) own2 (p_mem s')"
    using large_block [OF 2 _ big(2) refl own2_def, of H u'] assms(4,6) r by (auto simp: u2_def u1_def)
  have "same_but p own (p_mem ?s) own2 (p_mem s')"
    unfolding same_but_def
  proof (intro allI impI)
    fix a x assume a: "own a = Some (Used x)" "x \<noteq> p"
    then have b: "own1 a = Some (Used x)" "p_mem ?s1 a = p_mem ?s a" using 1(2) by (auto simp: same_but_def)
    then have "a < m \<or> m + n + ALLOC_HDR \<le> a" using fresh(2) [of a] by force
    then have "p_mem ?s2 a = p_mem ?s1 a" by (intro copy_same) auto
    then show "own2 a = Some (Used x) \<and> p_mem s' a = p_mem ?s a" using 3(2) b by (simp add: same_used_def)
  qed
  moreover have "p_mem s' (q + i) = p_mem ?s (p + i)" if i: "i < min old n" for i
  proof -
    have hd: "headed fs own (p_mem ?s) (p_arena ?s) hs (u_live u)" using assms(1) by (simp add: pool_inv_def)
    have b: "(p, old) \<in> set (large (u_live u))" using big(1) assms(2) by (simp add: large_def)
    then have ph: "p = ?h + ALLOC_HDR" using hd by (auto simp: headed_def)
    have h: "?h \<in> set hs" using head_listed [OF hd b] .
    have "own (p + i) = Some (Used p)" using live_used [OF l assms(2)] i room_pos(2) [of old] by (auto simp: owns_def)
    then have m1: "p_mem ?s1 (p + i) = p_mem ?s (p + i)" using unlink_parts(2) [OF hd h refl refl refl, of "p + i" "Used p"] by simp
    have "p_mem ?s2 (m + (ALLOC_HDR + i)) = p_mem ?s1 (?h + (ALLOC_HDR + i))" using i by (intro copy_moved) simp
    then have m2: "p_mem ?s2 (q + i) = p_mem ?s1 (p + i)" using ph r(1) by (simp add: add.assoc [symmetric])
    have "p_arena ?s2 \<noteq> 0 \<Longrightarrow> own1 (p_arena ?s2) = Some (Large (p_arena ?s2))"
      using 2 linked_hd [of "\<lambda>h. p_mem ?s2 (h + 8)" "p_arena ?s2" "remove1 ?h hs"]
      by (auto simp: pool_inv_def headed_def dll_def u2_def owns_def ALLOC_HDR_def)
    moreover have "own1 (q + i) = None" using fresh(2) [of "q + i"] i r(1) by (simp add: ALLOC_HDR_def)
    ultimately have "q + i \<noteq> p_arena ?s2 \<or> p_arena ?s2 = 0" by force
    then have "p_mem s' (q + i) = p_mem ?s2 (q + i)"
      using r by (auto simp: id_arena_link_def id_arena_hook_def Let_def ALLOC_HDR_def)
    then show ?thesis using m1 m2 by simp
  qed
  ultimately show ?thesis using 3(1) assms(6) by auto
qed

lemma realloc_moves:
  assumes "pool_inv fs own sp cs hs u" "(p, old) \<in> set (u_live u)" "\<not> both_large old n" "\<not> stays old n"
    "took m (asks n (u_pool u)) (u_heap u) = Some H" "id_realloc m p old n (u_pool u) = Inr (q, s')"
    "u' = \<lparr>u_pool = s', u_live = (q, n) # remove1 (p, old) (u_live u), u_heap = gave p old H\<rparr>"
  shows "\<exists>own' sp' c h. pool_inv fs own' sp' (c @ cs) (h @ (if old \<le> POOL_MAX then hs else remove1 (p - ALLOC_HDR) hs)) u' \<and> same_but p own (p_mem (u_pool u)) own' (p_mem (u_pool u'))
    \<and> (\<forall>i < min old n. p_mem (u_pool u') (q + i) = p_mem (u_pool u) (p + i))"
proof -
  let ?s = "u_pool u"
  have l: "lives own (u_live u)" using assms(1) by (simp add: pool_inv_def)
  have p: "p \<noteq> 0" using live_used [OF l assms(2)] by simp
  obtain s1 where g: "id_pool_get m n ?s = Inr (q, s1)" "s' = id_pool_free p old (copy_cells q p (min old n) s1)"
    using assms(3,4,6) p by (cases "id_pool_get m n ?s") (auto simp: id_realloc_def both_large_def stays_def split: if_splits)
  define u1 where "u1 = \<lparr>u_pool = s1, u_live = (q, n) # u_live u, u_heap = H\<rparr>"
  have "do_get m n u = Some (q, u1)" using assms(5) g(1) by (simp add: do_get_def u1_def)
  from get_inv [OF assms(1) this] obtain own1 sp1 c h where 1: "pool_inv fs own1 sp1 (c @ cs) (h @ hs) u1"
    "same_used own (p_mem ?s) own1 (p_mem s1)" "unused own q (q + room n)" by (auto simp: u1_def)
  let ?s2 = "copy_cells q p (min old n) s1"
  have l1: "lives own1 ((q, n) # u_live u)" using 1(1) by (simp add: pool_inv_def u1_def)
  then have "q \<notin> fst ` set (u_live u)" by (simp add: lives_def)
  then have qp: "q \<noteq> p" using assms(2) by (metis fst_conv image_eqI)
  have uq: "owns own1 (Used q) q (q + room n)" using live_used [OF l1, of q n] by simp
  have k: "keeps own1 (p_mem s1) (p_mem ?s2)"
    unfolding keeps_def
  proof (intro allI impI)
    fix a t assume a: "own1 a = Some t \<and> (\<forall>p. t \<noteq> Used p)"
    have "own1 a = Some (Used q)" if "q \<le> a" "a < q + n" using ownsD [OF uq that(1)] that(2) room_pos(2) [of n] by simp
    then have "a < q \<or> q + min old n \<le> a" using a by (cases "q \<le> a \<and> a < q + n") auto
    then show "p_mem ?s2 a = p_mem s1 a" by (rule copy_same)
  qed
  define u2 where "u2 = u1\<lparr>u_pool := ?s2\<rparr>"
  have 2: "pool_inv fs own1 sp1 (c @ cs) (h @ hs) u2"
    using inv_keep [OF 1(1), of "p_mem ?s2"] k by (simp add: u2_def u1_def copy_pool [of q p "min old n" s1, symmetric])
  have "do_free p old u2 = Some u'" using assms(2,7) g(2) qp by (simp add: do_free_def u2_def u1_def)
  from free_inv [OF 2 this] obtain own3 sp3
    where 3: "pool_inv fs own3 sp3 (c @ cs) (if old \<le> POOL_MAX then h @ hs else remove1 (p - ALLOC_HDR) (h @ hs)) u'"
      "same_but p own1 (p_mem ?s2) own3 (p_mem s')" by (auto simp: u2_def u1_def assms(7) simp del: remove1.simps)
  have "p - ALLOC_HDR \<notin> set h" if "\<not> old \<le> POOL_MAX"
  proof -
    have "headed fs own (p_mem ?s) (p_arena ?s) hs (u_live u)" using assms(1) by (simp add: pool_inv_def)
    then have "p - ALLOC_HDR \<in> set hs" using that assms(2) by (intro head_listed) (auto simp: large_def)
    moreover have "distinct (h @ hs)" using 1(1) heads_distinct unfolding pool_inv_def by blast
    ultimately show ?thesis by auto
  qed
  then have hs: "(if old \<le> POOL_MAX then h @ hs else remove1 (p - ALLOC_HDR) (h @ hs))
      = h @ (if old \<le> POOL_MAX then hs else remove1 (p - ALLOC_HDR) hs)" by (auto simp: remove1_append)
  have "same_but p own (p_mem ?s) own3 (p_mem s')"
    unfolding same_but_def
  proof (intro allI impI)
    fix a x assume a: "own a = Some (Used x)" "x \<noteq> p"
    then have b: "own1 a = Some (Used x)" "p_mem s1 a = p_mem ?s a" using 1(2) by (auto simp: same_used_def)
    have "\<not> (q \<le> a \<and> a < q + room n)" using 1(3) a(1) by (auto simp: unused_def)
    then have "a < q \<or> q + min old n \<le> a" using room_pos(2) [of n] by auto
    then have "p_mem ?s2 a = p_mem s1 a" by (rule copy_same)
    then show "own3 a = Some (Used x) \<and> p_mem s' a = p_mem ?s a" using 3(2) a(2) b by (simp add: same_but_def)
  qed
  moreover have "p_mem s' (q + i) = p_mem ?s (p + i)" if i: "i < min old n" for i
  proof -
    have "own (p + i) = Some (Used p)" using live_used [OF l assms(2)] i room_pos(2) [of old] by (auto simp: owns_def)
    then have "p_mem s1 (p + i) = p_mem ?s (p + i)" using 1(2) by (simp add: same_used_def)
    moreover have "p_mem ?s2 (q + i) = p_mem s1 (p + i)" using i by (rule copy_moved)
    moreover have "own1 (q + i) = Some (Used q)" using uq i room_pos(2) [of n] by (auto simp: owns_def)
    ultimately show ?thesis using 3(2) qp by (simp add: same_but_def)
  qed
  moreover have "pool_inv fs own3 sp3 (c @ cs) (h @ (if old \<le> POOL_MAX then hs else remove1 (p - ALLOC_HDR) hs)) u'"
    using 3(1) unfolding hs .
  moreover have "u_pool u' = s'" by (simp add: assms(7))
  ultimately show ?thesis by blast
qed

lemma realloc_inv:
  assumes "pool_inv fs own sp cs hs u" "do_realloc m p old n u = Some (q, u')"
  shows "\<exists>own' sp' c h. pool_inv fs own' sp' (c @ cs) (h @ (if old \<le> POOL_MAX then hs else remove1 (p - ALLOC_HDR) hs)) u' \<and> same_but p own (p_mem (u_pool u)) own' (p_mem (u_pool u'))
    \<and> (\<forall>i < min old n. p_mem (u_pool u') (q + i) = p_mem (u_pool u) (p + i))"
proof -
  have l: "(p, old) \<in> set (u_live u)" using assms(2) by (auto simp: do_realloc_def split: if_splits)
  have p: "p \<noteq> 0" using live_used [of own "u_live u" p old] l assms(1) by (auto simp: pool_inv_def)
  have 0: "both_large old n \<or> stays old n \<and> \<not> both_large old n \<or> \<not> both_large old n \<and> \<not> stays old n" by blast
  have concl: "pool_inv fs own' sp' (c @ cs) (h @ (if old \<le> POOL_MAX then hs else remove1 (p - ALLOC_HDR) hs)) u'
      \<Longrightarrow> same_but p own (p_mem (u_pool u)) own' (p_mem (u_pool u'))
      \<Longrightarrow> \<forall>i < min old n. p_mem (u_pool u') (q + i) = p_mem (u_pool u) (p + i) \<Longrightarrow> ?thesis" for own' sp' c h by blast
  from 0 consider (1) "both_large old n" | (2) "stays old n" "\<not> both_large old n" | (3) "\<not> both_large old n" "\<not> stays old n" by blast
  then show ?thesis
  proof cases
    case 1
    then obtain H s' where "took m (n + ALLOC_HDR) (gave p old (u_heap u)) = Some H" "id_realloc m p old n (u_pool u) = Inr (q, s')"
      "u' = \<lparr>u_pool = s', u_live = (q, n) # remove1 (p, old) (u_live u), u_heap = H\<rparr>"
      using assms(2) l by (auto simp: do_realloc_def Let_def split: option.splits sum.splits)
    from realloc_large [OF assms(1) l 1 this] obtain own' where "pool_inv fs own' sp cs (m # remove1 (p - ALLOC_HDR) hs) u'"
      "same_but p own (p_mem (u_pool u)) own' (p_mem (u_pool u'))" "\<forall>i < min old n. p_mem (u_pool u') (q + i) = p_mem (u_pool u) (p + i)"
      by auto
    moreover have "\<not> old \<le> POOL_MAX" using 1 by (simp add: both_large_def)
    ultimately show ?thesis using concl [of own' sp "[]" "[m]"] by simp
  next
    case 2
    then have "id_realloc m p old n (u_pool u) = Inr (p, u_pool u)" using p by (auto simp: id_realloc_def stays_def both_large_def)
    then have "u' = u\<lparr>u_live := (p, n) # remove1 (p, old) (u_live u)\<rparr>" "q = p"
      using assms(2) l 2 by (auto simp: do_realloc_def took_def)
    then show ?thesis using realloc_stays [OF assms(1) l 2(1)] 2(1) concl [of own sp "[]" "[]"] by (simp add: same_but_def stays_def)
  next
    case 3
    then obtain H s' where "took m (asks n (u_pool u)) (u_heap u) = Some H" "id_realloc m p old n (u_pool u) = Inr (q, s')"
      "u' = \<lparr>u_pool = s', u_live = (q, n) # remove1 (p, old) (u_live u), u_heap = gave p old H\<rparr>"
      using assms(2) l by (auto simp: do_realloc_def Let_def split: option.splits sum.splits)
    from realloc_moves [OF assms(1) l 3 this] show ?thesis by blast
  qed
qed

section \<open>Runs are safe\<close>

definition safe :: "sys \<Rightarrow> bool" where
  "safe u \<longleftrightarrow> (\<exists>own sp cs hs. pool_inv [] own sp cs hs u)"

lemma safe_init: "safe sys_init"
proof -
  have "pool_inv [] (\<lambda>_. None) (\<lambda>_. []) [] [] sys_init"
    by (simp add: pool_inv_def inv_parts sys_init_def pool_init_def large_def dll_def owns_def)
  then show ?thesis by (auto simp: safe_def)
qed

definition releases :: "nat \<Rightarrow> pool_event \<Rightarrow> bool" where
  "releases p e \<longleftrightarrow> (case e of Free q n \<Rightarrow> q = p | Realloc m q old n \<Rightarrow> q = p | _ \<Rightarrow> False)"

definition writes :: "nat \<Rightarrow> pool_event \<Rightarrow> bool" where
  "writes a e \<longleftrightarrow> (case e of Write b v \<Rightarrow> b = a | _ \<Rightarrow> False)"

definition kept_live :: "pool_event \<Rightarrow> sys \<Rightarrow> sys \<Rightarrow> bool" where
  "kept_live e u u' \<longleftrightarrow> (\<forall>(p, n) \<in> set (u_live u). \<not> releases p e \<longrightarrow> (p, n) \<in> set (u_live u')
     \<and> (\<forall>a. p \<le> a \<and> a < p + n \<and> \<not> writes a e \<longrightarrow> p_mem (u_pool u') a = p_mem (u_pool u) a))"

lemma kept_liveI:
  assumes "lives own (u_live u)" "\<And>q k. (q, k) \<in> set (u_live u) \<Longrightarrow> \<not> releases q e \<Longrightarrow> (q, k) \<in> set (u_live u')"
    "\<And>q a. own a = Some (Used q) \<Longrightarrow> \<not> releases q e \<Longrightarrow> \<not> writes a e \<Longrightarrow> p_mem (u_pool u') a = p_mem (u_pool u) a"
  shows "kept_live e u u'"
  unfolding kept_live_def
proof (intro ballI, clarify)
  fix p n assume l: "(p, n) \<in> set (u_live u)" and r: "\<not> releases p e"
  have "p_mem (u_pool u') a = p_mem (u_pool u) a" if "p \<le> a" "a < p + n" "\<not> writes a e" for a
    using assms(3) [OF _ r that(3)] live_used [OF assms(1) l] room_pos(2) [of n] that by (auto simp: owns_def)
  then show "(p, n) \<in> set (u_live u') \<and> (\<forall>a. p \<le> a \<and> a < p + n \<and> \<not> writes a e \<longrightarrow> p_mem (u_pool u') a = p_mem (u_pool u) a)"
    using assms(2) [OF l r] by blast
qed

lemma event_inv:
  assumes "pool_inv fs own sp cs hs u" "on_event e u = Some u'"
  shows "\<exists>own' sp' c h g. pool_inv fs own' sp' (c @ cs) (h @ remove1 g hs) u' \<and> g \<notin> set fs \<and> kept_live e u u'
    \<and> (\<forall>(p, n) \<in> set (large (u_live u)). \<not> releases p e \<longrightarrow> g \<noteq> p - ALLOC_HDR)"
proof -
  have l: "lives own (u_live u)" and hd: "headed fs own (p_mem (u_pool u)) (p_arena (u_pool u)) hs (u_live u)"
    using assms(1) by (auto simp: pool_inv_def)
  have d: "distinct hs" "0 \<notin> set hs" using heads_distinct [OF hd] by auto
  have fs: "set fs \<subseteq> set hs"
  proof -
    have "mset fs \<subseteq># mset hs" using hd by (simp add: headed_def)
    from set_mset_mono [OF this] show ?thesis by simp
  qed
  have z: "remove1 0 hs = hs" "0 \<notin> set fs" using d(2) fs by (auto simp: remove1_idem)
  have g: "p - ALLOC_HDR \<notin> set fs" if "(p, n) \<in> set (u_live u)" "n > POOL_MAX" for p n
  proof
    assume f: "p - ALLOC_HDR \<in> set fs"
    have "(p, n) \<in> set (large (u_live u))" using that by (simp add: large_def)
    then have "p - ALLOC_HDR \<in># mset (map (\<lambda>(p, n). p - ALLOC_HDR) (large (u_live u)))" by force
    then have "0 < count (mset (map (\<lambda>(p, n). p - ALLOC_HDR) (large (u_live u)))) (p - ALLOC_HDR)"
      by (simp only: count_greater_zero_iff)
    moreover have "0 < count (mset fs) (p - ALLOC_HDR)" using f by (simp only: count_greater_zero_iff set_mset_mset)
    moreover have "count (mset hs) (p - ALLOC_HDR) = count (mset fs) (p - ALLOC_HDR)
        + count (mset (map (\<lambda>(p, n). p - ALLOC_HDR) (large (u_live u)))) (p - ALLOC_HDR)"
      using hd by (simp only: headed_def count_union)
    moreover have "count (mset hs) (p - ALLOC_HDR) \<le> 1" using d(1) by (simp add: distinct_count_atmost_1)
    ultimately show False by linarith
  qed
  have big: "\<forall>(p, n) \<in> set (large (u_live u)). ALLOC_HDR < p" using hd by (simp add: headed_def)
  then have n0: "\<forall>(p, n) \<in> set (large (u_live u)). \<not> releases p e \<longrightarrow> 0 \<noteq> p - ALLOC_HDR" by auto
  have ng: "\<forall>(p, n) \<in> set (large (u_live u)). \<not> releases p e \<longrightarrow> q - ALLOC_HDR \<noteq> p - ALLOC_HDR"
    if q: "(q, k) \<in> set (u_live u)" "\<not> k \<le> POOL_MAX" "releases q e" for q k
  proof (intro ballI, clarify)
    fix p n assume p: "(p, n) \<in> set (large (u_live u))" "\<not> releases p e" and eq: "q - ALLOC_HDR = p - ALLOC_HDR"
    have "(q, k) \<in> set (large (u_live u))" using q(1,2) by (simp add: large_def)
    then have "q = p" using big p(1) eq by force
    then show False using p(2) q(3) by simp
  qed
  show ?thesis
  proof (cases e)
    case (Get m n)
    then obtain p where p: "do_get m n u = Some (p, u')" using assms(2) by auto
    then have "set (u_live u) \<subseteq> set (u_live u')" by (auto simp: do_get_def split: option.splits sum.splits)
    moreover obtain own' sp' c h where i: "pool_inv fs own' sp' (c @ cs) (h @ hs) u'"
      "same_used own (p_mem (u_pool u)) own' (p_mem (u_pool u'))" using get_inv [OF assms(1) p] by blast
    ultimately have "kept_live e u u'" by (intro kept_liveI [OF l]) (auto simp: same_used_def)
    then show ?thesis using i(1) z n0 by metis
  next
    case (Free p n)
    then have p: "do_free p n u = Some u'" using assms(2) by simp
    then have pn: "(p, n) \<in> set (u_live u)" "u_live u' = remove1 (p, n) (u_live u)" by (auto simp: do_free_def split: if_splits)
    obtain own' sp' where i: "pool_inv fs own' sp' cs (if n \<le> POOL_MAX then hs else remove1 (p - ALLOC_HDR) hs) u'"
      "same_but p own (p_mem (u_pool u)) own' (p_mem (u_pool u'))" using free_inv [OF assms(1) p] by blast
    have "kept_live e u u'" using i(2) Free pn by (intro kept_liveI [OF l]) (auto simp: same_but_def releases_def in_set_remove1)
    moreover have "pool_inv fs own' sp' ([] @ cs) ([] @ remove1 (if n \<le> POOL_MAX then 0 else p - ALLOC_HDR) hs) u'"
      using i(1) z by (simp split: if_splits)
    moreover have "(if n \<le> POOL_MAX then 0 else p - ALLOC_HDR) \<notin> set fs" using z g pn by auto
    moreover have "\<forall>(q, k) \<in> set (large (u_live u)). \<not> releases q e \<longrightarrow> (if n \<le> POOL_MAX then 0 else p - ALLOC_HDR) \<noteq> q - ALLOC_HDR"
      using n0 ng [OF pn(1)] Free by (simp add: releases_def)
    ultimately show ?thesis by blast
  next
    case (Write a v)
    then have w: "do_write a v u = Some u'" using assms(2) by simp
    note i = pool_write_inv [OF assms(1) w]
    have "kept_live e u u'" using i Write by (intro kept_liveI [OF l]) (auto simp: writes_def)
    moreover have "pool_inv fs own sp ([] @ cs) ([] @ remove1 0 hs) u'" using i z by simp
    ultimately show ?thesis using z(2) n0 by blast
  next
    case (Realloc m p old n)
    then obtain q where p: "do_realloc m p old n u = Some (q, u')" using assms(2) by auto
    then have pn: "(p, old) \<in> set (u_live u)" "u_live u' = (q, n) # remove1 (p, old) (u_live u)"
      by (auto simp: do_realloc_def Let_def split: if_splits option.splits sum.splits)
    obtain own' sp' c h where i: "pool_inv fs own' sp' (c @ cs) (h @ (if old \<le> POOL_MAX then hs else remove1 (p - ALLOC_HDR) hs)) u'"
      "same_but p own (p_mem (u_pool u)) own' (p_mem (u_pool u'))" using realloc_inv [OF assms(1) p] by blast
    have "kept_live e u u'" using i(2) Realloc pn by (intro kept_liveI [OF l]) (auto simp: same_but_def releases_def in_set_remove1)
    moreover have "pool_inv fs own' sp' (c @ cs) (h @ remove1 (if old \<le> POOL_MAX then 0 else p - ALLOC_HDR) hs) u'"
      using i(1) z by (simp split: if_splits)
    moreover have "(if old \<le> POOL_MAX then 0 else p - ALLOC_HDR) \<notin> set fs" using z g pn by auto
    moreover have "\<forall>(q, k) \<in> set (large (u_live u)). \<not> releases q e \<longrightarrow> (if old \<le> POOL_MAX then 0 else p - ALLOC_HDR) \<noteq> q - ALLOC_HDR"
      using n0 ng [OF pn(1)] Realloc by (simp add: releases_def)
    ultimately show ?thesis by blast
  qed
qed

lemma event_safe: "safe u \<Longrightarrow> on_event e u = Some u' \<Longrightarrow> safe u'"
  using event_inv unfolding safe_def by blast

lemma run_safe: "safe u \<Longrightarrow> pool_run es u = Some u' \<Longrightarrow> safe u'"
proof (induction es arbitrary: u)
  case (Cons e es)
  then obtain u1 where "on_event e u = Some u1" "pool_run es u1 = Some u'" by (auto split: bind_splits)
  then show ?case using Cons event_safe by blast
qed simp

lemma used_apart:
  assumes "lives own L" "(p, n) \<in> set L" "(q, k) \<in> set L" "p \<noteq> q"
  shows "p + room n \<le> q \<or> q + room k \<le> p"
proof (rule ccontr)
  assume n: "\<not> ?thesis"
  have o: "owns own (Used p) p (p + room n)" "owns own (Used q) q (q + room k)"
    using live_used [OF assms(1,2)] live_used [OF assms(1,3)] by auto
  have "own (max p q) = Some (Used p)" "own (max p q) = Some (Used q)"
    using n room_pos(1) [of n] room_pos(1) [of k] by (auto intro!: ownsD [OF o(1)] ownsD [OF o(2)])
  then show False using assms(4) by simp
qed

text \<open>
  C4: The allocator never hands out overlapping blocks: after any run of allocations,
  releases, writes into live blocks and reallocations, with a C library that answers with
  blocks of its own, the live blocks have distinct addresses, do not overlap, are aligned to
  16, hold what was asked for and lie inside blocks got from the C library and not given
  back.
\<close>

theorem pool_run_apart:
  assumes "pool_run es sys_init = Some u"
  shows "distinct (map fst (u_live u))
    \<and> (\<forall>(p, n) \<in> set (u_live u). \<forall>(q, k) \<in> set (u_live u). p \<noteq> q \<longrightarrow> p + room n \<le> q \<or> q + room k \<le> p)
    \<and> (\<forall>(p, n) \<in> set (u_live u). p \<noteq> 0 \<and> p mod 16 = 0 \<and> n \<le> room n
         \<and> (\<forall>a. p \<le> a \<and> a < p + room n \<longrightarrow> (\<exists>(b, z) \<in> set (u_heap u). b \<le> a \<and> a < b + z)))"
proof -
  obtain own sp cs hs where "pool_inv [] own sp cs hs u" using run_safe [OF safe_init assms] by (auto simp: safe_def)
  then have i: "lives own (u_live u)" "covered own (u_heap u)" by (auto simp: pool_inv_def)
  have c: "\<exists>(b, z) \<in> set (u_heap u). b \<le> a \<and> a < b + z" if "(p, n) \<in> set (u_live u)" "p \<le> a" "a < p + room n" for p n a
  proof -
    have "own a = Some (Used p)" using live_used [OF i(1) that(1)] that(2,3) by (auto simp: owns_def)
    then show ?thesis using i(2) by (simp add: covered_def)
  qed
  show ?thesis
  proof (intro conjI)
    show "distinct (map fst (u_live u))" using i(1) by (simp add: lives_def)
    show "\<forall>(p, n) \<in> set (u_live u). \<forall>(q, k) \<in> set (u_live u). p \<noteq> q \<longrightarrow> p + room n \<le> q \<or> q + room k \<le> p"
      using used_apart [OF i(1)] by blast
    show "\<forall>(p, n) \<in> set (u_live u). p \<noteq> 0 \<and> p mod 16 = 0 \<and> n \<le> room n
         \<and> (\<forall>a. p \<le> a \<and> a < p + room n \<longrightarrow> (\<exists>(b, z) \<in> set (u_heap u). b \<le> a \<and> a < b + z))"
      using live_used [OF i(1)] room_pos(2) c by blast
  qed
qed

text \<open>
  C19: No allocation, release, write or reallocation touches another live block: a block
  that is not the one released or moved stays live and every cell of it that is not the one
  written keeps its value.
\<close>

theorem pool_event_keeps:
  assumes "pool_run es sys_init = Some u" "on_event e u = Some u'" "(p, n) \<in> set (u_live u)" "p \<le> a" "a < p + n"
    "\<not> releases p e" "\<not> writes a e"
  shows "(p, n) \<in> set (u_live u') \<and> p_mem (u_pool u') a = p_mem (u_pool u) a"
proof -
  obtain own sp cs hs where i: "pool_inv [] own sp cs hs u" using run_safe [OF safe_init assms(1)] by (auto simp: safe_def)
  then have "kept_live e u u'" using event_inv [OF i assms(2)] by blast
  then show ?thesis using assms(3-7) unfolding kept_live_def by fastforce
qed

theorem pool_realloc_copies:
  assumes "pool_run es sys_init = Some u" "do_realloc m p old n u = Some (q, u')" "i < min old n"
  shows "p_mem (u_pool u') (q + i) = p_mem (u_pool u) (p + i)"
proof -
  obtain own sp cs hs where "pool_inv [] own sp cs hs u" using run_safe [OF safe_init assms(1)] by (auto simp: safe_def)
  from realloc_inv [OF this assms(2)] assms(3) show ?thesis by blast
qed

text \<open>
  C20: The release at exit comes to an end and gives every block got from the C library back
  exactly once, after any run of the allocator.
\<close>

theorem id_arena_free_all_once:
  assumes "pool_run es sys_init = Some u"
  shows "\<exists>bs s. id_arena_free_all (length (u_heap u)) (u_pool u) = Some (bs, s) \<and> mset bs = mset (map fst (u_heap u))
    \<and> p_arena s = 0 \<and> p_chunks s = 0 \<and> p_left s = 0 \<and> (\<forall>k. p_fl s k = 0)"
proof -
  let ?s = "u_pool u"
  obtain own sp cs hs where i: "pool_inv [] own sp cs hs u" using run_safe [OF safe_init assms] by (auto simp: safe_def)
  have m: "mset hs = mset (map (\<lambda>(p, n). p - ALLOC_HDR) (large (u_live u)))"
    "mset (u_heap u) = mset (map (\<lambda>c. (c, CHUNK)) cs) + mset (map (\<lambda>(p, n). (p - ALLOC_HDR, n + ALLOC_HDR)) (large (u_live u)))"
    using i by (auto simp: pool_inv_def headed_def backed_def)
  have f: "mset (map fst (u_heap u)) = mset cs + mset hs"
    unfolding m(1) mset_map m(2) by (simp add: image_mset.compositionality comp_def case_prod_unfold)
  have len: "length hs \<le> length (u_heap u)" "length cs \<le> length (u_heap u)"
    using arg_cong [OF f, of size] by auto
  have "chain (length (u_heap u)) (\<lambda>h. p_mem ?s (h + 8)) (p_arena ?s) = Some hs"
    using i len(1) by (intro linked_chain) (auto simp: pool_inv_def headed_def dll_def)
  moreover have "chain (length (u_heap u)) (p_mem ?s) (p_chunks ?s) = Some cs"
    using i len(2) by (intro linked_chain) (auto simp: pool_inv_def chunked_def)
  ultimately show ?thesis using f by (auto simp: id_arena_free_all_def id_pool_drop_def)
qed

section \<open>A run\<close>

text \<open>Two blocks of a chunk, the first released, the second moved to a larger class; and a large block.\<close>

definition small_run :: "pool_event list" where
  "small_run = [Get 65536 100, Get 0 100, Free 65552 100, Write 65672 7]"

definition small_run_end :: "pool_event list" where
  "small_run_end = [Realloc 0 65664 100 200, Get 524288 20000]"

definition sys_view :: "sys option \<Rightarrow> ((nat \<times> nat) list \<times> (nat \<times> nat) list) option" where
  "sys_view uo = map_option (\<lambda>u. (u_live u, u_heap u)) uo"

lemma small_run_view:
  "sys_view (pool_run small_run sys_init) = Some ([(65664, 100)], [(65536, 262144)])"
  "sys_view (pool_run (small_run @ small_run_end) sys_init) = Some ([(524304, 20000), (65776, 200)], [(524288, 20016), (65536, 262144)])"
  by (simp_all add: small_run_def small_run_end_def sys_view_def sys_init_def pool_init_def do_get_def do_free_def do_write_def
      do_realloc_def both_large_def stays_def took_def asks_def gave_def id_pool_get_def id_pool_free_def id_realloc_def
      id_pool_carve_def id_pool_span_def id_arena_hook_def id_pool_large_alloc_def id_arena_link_def id_add_check_def
      copy_cells_def id_pool_class_def id_pool_class_bytes_def Let_def pool_consts SIZE_MAX_def)

lemma small_run_ends: "\<exists>u. pool_run (small_run @ small_run_end) sys_init = Some u
    \<and> u_live u = [(524304, 20000), (65776, 200)] \<and> u_heap u = [(524288, 20016), (65536, 262144)]"
  using small_run_view(2) by (auto simp: sys_view_def)

lemma pool_run_app: "pool_run (es @ fs) u = Option.bind (pool_run es u) (pool_run fs)"
  by (induction es arbitrary: u) (auto split: bind_splits)

theorem pool_run_apart_witness:
  "\<exists>u. pool_run (small_run @ small_run_end) sys_init = Some u \<and> (65776, 200) \<in> set (u_live u) \<and> 65776 + room 200 \<le> 524304
     \<and> (\<exists>(b, z) \<in> set (u_heap u). b \<le> 65900 \<and> 65900 < b + z)"
proof -
  obtain u where u: "pool_run (small_run @ small_run_end) sys_init = Some u"
    "u_live u = [(524304, 20000), (65776, 200)]" using small_run_ends by blast
  have r: "room 200 = 208" by (simp add: room_def POOL_MAX_def POOL_SMALL_def id_pool_class_def id_pool_class_bytes_def)
  from pool_run_apart [OF u(1)] u r show ?thesis by auto
qed

theorem pool_event_keeps_witness:
  "\<exists>u u'. pool_run small_run sys_init = Some u \<and> on_event (Get 0 300) u = Some u' \<and> p_mem (u_pool u') 65672 = p_mem (u_pool u) 65672"
proof -
  obtain u where u: "pool_run small_run sys_init = Some u" "u_live u = [(65664, 100)]"
    using small_run_view(1) by (auto simp: sys_view_def)
  have "sys_view (pool_run (small_run @ [Get 0 300]) sys_init) \<noteq> None"
    by (simp add: small_run_def sys_view_def sys_init_def pool_init_def do_get_def do_free_def do_write_def
      took_def asks_def gave_def id_pool_get_def id_pool_free_def
      id_pool_carve_def id_pool_span_def id_arena_hook_def id_pool_class_def id_pool_class_bytes_def Let_def pool_consts)
  then obtain u' where u': "on_event (Get 0 300) u = Some u'" using u(1) by (auto simp: sys_view_def pool_run_app split: bind_splits)
  have "\<not> releases 65664 (Get 0 300)" "\<not> writes 65672 (Get 0 300)" by (simp_all add: releases_def writes_def)
  then show ?thesis using pool_event_keeps [OF u(1) u', of 65664 100 65672] u u' by auto
qed

theorem pool_realloc_copies_witness:
  "\<exists>u u'. pool_run small_run sys_init = Some u \<and> do_realloc 0 65664 100 200 u = Some (65776, u')
     \<and> p_mem (u_pool u') 65784 = p_mem (u_pool u) 65672"
proof -
  obtain u where u: "pool_run small_run sys_init = Some u" using small_run_view(1) by (auto simp: sys_view_def)
  have "map_option fst (Option.bind (pool_run small_run sys_init) (do_realloc 0 65664 100 200)) = Some 65776"
    by (simp add: small_run_def sys_init_def pool_init_def do_get_def do_free_def do_write_def
      do_realloc_def both_large_def stays_def took_def asks_def gave_def id_pool_get_def id_pool_free_def id_realloc_def
      id_pool_carve_def id_pool_span_def id_arena_hook_def copy_cells_def id_pool_class_def id_pool_class_bytes_def Let_def pool_consts)
  then obtain u' where "do_realloc 0 65664 100 200 u = Some (65776, u')" using u by auto
  then show ?thesis using pool_realloc_copies [OF u, of 0 65664 100 200 65776 u' 8] u by auto
qed

theorem id_arena_free_all_once_witness:
  "\<exists>u bs s. pool_run (small_run @ small_run_end) sys_init = Some u \<and> id_arena_free_all 2 (u_pool u) = Some (bs, s)
     \<and> mset bs = {#524288, 65536#}"
proof -
  obtain u where u: "pool_run (small_run @ small_run_end) sys_init = Some u" "u_heap u = [(524288, 20016), (65536, 262144)]"
    using small_run_ends by blast
  from id_arena_free_all_once [OF u(1)] u show ?thesis by (auto simp: numeral_2_eq_2)
qed

end
