(* ===== verification/Interop.thy ===== *)
theory Interop
  imports PoolSafe Store
begin

text \<open>
  A program as a library (\<open>src/interop/idl.c\<close> and \<open>idl_pre.h\<close>). Each exported function is called
  through an entry point: it takes the lock, arms the trap, marks the pool, runs, and releases
  what the call allocated. A trap inside a call is a jump back to the entry point with a message
  for the host. The state is the file's static variables next to the pool and the store.
\<close>

section \<open>State\<close>

record lib =
  lb_pool :: pool
  lb_store :: store
  lb_hdr :: nat
  lb_active :: bool
  lb_inited :: int
  lb_framed :: bool
  lb_mark :: int
  lb_chunk :: nat
  lb_code :: int
  lb_msg :: string
  lb_locked :: bool
  lb_err :: string
  lb_freed :: "nat list"

text \<open>
  \<open>lb_hdr\<close> is the header of the store's block (0 while there is none), \<open>lb_err\<close> what was written
  to stderr, \<open>lb_freed\<close> what was given back to the C library. An action ends with a value, with
  a jump to the entry point, or ends the process.
\<close>

datatype 'a outcome = Back 'a | Jump | Ended int

type_synonym 'a act = "lib \<Rightarrow> 'a outcome \<times> lib"

definition lib_init :: lib where
  "lib_init = \<lparr>lb_pool = pool_init, lb_store = store_init, lb_hdr = 0, lb_active = False, lb_inited = 0, lb_framed = False,
     lb_mark = 1, lb_chunk = 0, lb_code = 0, lb_msg = [], lb_locked = False, lb_err = [], lb_freed = []\<rparr>"

section \<open>Messages and traps\<close>

abbreviation newline :: char where "newline \<equiv> CHR 0x0A"

definition cut_msg :: "string \<Rightarrow> string" where
  "cut_msg t = take 511 t"

definition idl_set_msg :: "string \<Rightarrow> lib \<Rightarrow> lib" where
  "idl_set_msg txt s =
     (if lb_msg s \<noteq> [] then s else s\<lparr>lb_msg := rev (dropWhile (\<lambda>c. c = newline) (rev (cut_msg txt)))\<rparr>)"

definition idl_fprintf :: "bool \<Rightarrow> string \<Rightarrow> lib \<Rightarrow> int \<times> lib" where
  "idl_fprintf to_stderr txt s =
     (if to_stderr \<and> lb_active s then let s1 = idl_set_msg txt s in (int (length (lb_msg s1)), s1)
      else (int (length txt), if to_stderr then s\<lparr>lb_err := lb_err s @ txt\<rparr> else s))"

definition idl_exit :: "int \<Rightarrow> 'a act" where
  "idl_exit code s =
     (if \<not> lb_active s then (Ended code, s)
      else (Jump, if lb_msg s = []
                  then s\<lparr>lb_msg := cut_msg (''id: exit('' @ id_str_of_int (word_of_int code) @ '') called inside a library call'')\<rparr>
                  else s))"

text \<open>Every trap of the run time is a message to stderr and \<open>exit(1)\<close>.\<close>

definition trap_out :: "string \<Rightarrow> 'a act" where
  "trap_out txt s = idl_exit 1 (snd (idl_fprintf True txt s))"

definition idl_argerr :: "string \<Rightarrow> 'a act" where
  "idl_argerr what s = (Jump, s\<lparr>lb_code := 2, lb_msg := cut_msg what\<rparr>)"

definition idl_oom :: "'a act" where
  "idl_oom s = (Jump, s\<lparr>lb_msg := ''out of memory while copying a result out of the id heap''\<rparr>)"

definition idl_error :: "lib \<Rightarrow> string" where
  "idl_error s = lb_msg s"

section \<open>One call\<close>

text \<open>
  \<open>scoped\<close> is the default (not \<open>IDL_KEEP\<close>), \<open>fr\<close> the address of the static header \<open>idl_frame\<close>,
  \<open>init\<close> what \<open>idc_const_init\<close> does.
\<close>

definition frame_pool :: "nat \<Rightarrow> pool \<Rightarrow> pool" where
  "frame_pool fr s = (id_arena_link fr s)\<lparr>p_fl := (\<lambda>_. 0), p_bump := 0, p_left := 0\<rparr>"

definition idl_begin :: "bool \<Rightarrow> nat \<Rightarrow> unit act \<Rightarrow> unit act" where
  "idl_begin scoped fr init s =
     (case (if lb_inited s \<noteq> 2 then init (s\<lparr>lb_inited := 1\<rparr>) else (Back (), s)) of
        (Back _, s1) \<Rightarrow>
          let s2 = (if lb_inited s \<noteq> 2 then s1\<lparr>lb_inited := 2\<rparr> else s1)
          in (Back (), if scoped
                then s2\<lparr>lb_chunk := p_chunks (id_arena_link fr (lb_pool s2)), lb_pool := frame_pool fr (lb_pool s2),
                        lb_mark := st_used (lb_store s2), lb_framed := True\<rparr>
                else s2)
      | r \<Rightarrow> r)"

text \<open>
  The first loop of \<open>idl_release\<close>: the large blocks above the frame are freed, except the
  store's, which goes back to the front of the list. \<open>fuel\<close> bounds the walk; \<open>None\<close> is a walk
  that has not ended.
\<close>

fun arena_walk :: "nat \<Rightarrow> nat \<Rightarrow> nat \<Rightarrow> nat \<Rightarrow> nat list \<Rightarrow> pool \<Rightarrow> (nat list \<times> pool) option" where
  "arena_walk fuel fr sh h freed s =
     (if h = fr then Some (freed, s)
      else case fuel of 0 \<Rightarrow> None
      | Suc fuel \<Rightarrow>
          let nx = p_mem s (h + 8)
          in if h = sh
             then let s1 = store_cell s h 0; s2 = store_cell s1 (h + 8) (p_arena s1);
                      s3 = (if p_arena s2 \<noteq> 0 then store_cell s2 (p_arena s2) h else s2)
                  in arena_walk fuel fr sh nx freed (s3\<lparr>p_arena := h\<rparr>)
             else arena_walk fuel fr sh nx (freed @ [h]) s)"

fun chunk_walk :: "nat \<Rightarrow> nat \<Rightarrow> nat list \<Rightarrow> pool \<Rightarrow> (nat list \<times> pool) option" where
  "chunk_walk fuel mark freed s =
     (if p_chunks s = mark then Some (freed, s)
      else case fuel of 0 \<Rightarrow> None
      | Suc fuel \<Rightarrow> chunk_walk fuel mark (freed @ [p_chunks s]) (s\<lparr>p_chunks := p_mem s (p_chunks s)\<rparr>))"

declare arena_walk.simps [simp del] chunk_walk.simps [simp del]

definition release_pool :: "nat \<Rightarrow> nat \<Rightarrow> nat \<Rightarrow> nat \<Rightarrow> pool \<Rightarrow> (nat list \<times> pool) option" where
  "release_pool fuel fr sh mark s =
     (let below = p_mem s (fr + 8); s1 = s\<lparr>p_arena := below\<rparr>;
          s2 = (if below \<noteq> 0 then store_cell s1 below 0 else s1)
      in Option.bind (arena_walk fuel fr sh (p_arena s) [] s2) (\<lambda>(fa, s3).
         Option.bind (chunk_walk fuel mark fa s3) (\<lambda>(fc, s4).
           Some (fc, s4\<lparr>p_fl := (\<lambda>_. 0), p_bump := 0, p_left := 0\<rparr>))))"

text \<open>The store keeps its block; what was allocated in it since the mark is zeroed.\<close>

definition release_store :: "int \<Rightarrow> store \<Rightarrow> store" where
  "release_store mark t =
     (if st_used t > mark
      then t\<lparr>st_bytes := blit (nat mark) (replicate (nat (st_used t - mark)) 0) (st_bytes t), st_used := mark\<rparr>
      else t)"

definition idl_release :: "nat \<Rightarrow> nat \<Rightarrow> lib \<Rightarrow> lib option" where
  "idl_release fuel fr s =
     map_option (\<lambda>(fs, p). s\<lparr>lb_pool := p, lb_freed := lb_freed s @ fs, lb_store := release_store (lb_mark s) (lb_store s),
                              lb_framed := False\<rparr>)
       (release_pool fuel fr (lb_hdr s) (lb_chunk s) (lb_pool s))"

definition idl_done :: "nat \<Rightarrow> nat \<Rightarrow> int \<Rightarrow> lib \<Rightarrow> (int \<times> lib) option" where
  "idl_done fuel fr code s =
     (let s1 = s\<lparr>lb_active := False\<rparr>
      in map_option (\<lambda>s. (code, s\<lparr>lb_locked := False\<rparr>)) (if lb_framed s1 then idl_release fuel fr s1 else Some s1))"

text \<open>
  An entry point: \<open>IDL_BEGIN\<close>, the wrapper's body, \<open>IDL_END\<close>. The answer is the code it returns;
  \<open>Inl\<close> is the end of the process.
\<close>

definition entry_start :: "lib \<Rightarrow> lib" where
  "entry_start s = s\<lparr>lb_locked := True, lb_code := 1, lb_msg := [], lb_active := True\<rparr>"

definition after_act :: "nat \<Rightarrow> nat \<Rightarrow> unit outcome \<times> lib \<Rightarrow> (int + int \<times> lib) option" where
  "after_act fuel fr r =
     (case r of (Back _, s) \<Rightarrow> map_option Inr (idl_done fuel fr 0 s)
      | (Jump, s) \<Rightarrow> map_option Inr (idl_done fuel fr (lb_code s) s)
      | (Ended c, s) \<Rightarrow> Some (Inl c))"

definition idl_entry :: "bool \<Rightarrow> nat \<Rightarrow> nat \<Rightarrow> unit act \<Rightarrow> unit act \<Rightarrow> lib \<Rightarrow> (int + int \<times> lib) option" where
  "idl_entry scoped fuel fr init body s =
     after_act fuel fr
       (case idl_begin scoped fr init (entry_start s) of (Back _, s1) \<Rightarrow> body s1 | r \<Rightarrow> r)"

definition idl_shutdown :: "nat \<Rightarrow> lib \<Rightarrow> lib option" where
  "idl_shutdown fuel s =
     map_option (\<lambda>(fs, p). s\<lparr>lb_pool := p, lb_freed := lb_freed s @ fs, lb_hdr := 0,
                              lb_store := (lb_store s)\<lparr>st_bytes := [], st_used := 1\<rparr>, lb_inited := 0\<rparr>)
       (id_arena_free_all fuel (lb_pool s))"

end
