(* ===== verification/InteropSpec.thy ===== *)
theory InteropSpec
  imports Interop
begin

text \<open>
  What a library call keeps. The frame header is linked in front of the large blocks and a mark
  is set on the chunks; whatever the call does, the release gives back every block the C library
  handed out since, except the store's, and leaves the blocks from before as they were.
\<close>

section \<open>Framing\<close>

text \<open>The static header is a region that the C library never hands out.\<close>

definition framed :: "nat \<Rightarrow> sys \<Rightarrow> sys option" where
  "framed fr u =
     map_option (\<lambda>H. \<lparr>u_pool = frame_pool fr (u_pool u), u_live = u_live u, u_heap = H\<rparr>) (took fr ALLOC_HDR (u_heap u))"

lemma framed_inv:
  assumes "pool_inv [] own sp cs hs u" "framed fr u = Some u'"
  shows "\<exists>own'. pool_inv [fr] own' (\<lambda>_. []) cs (fr # hs) u' \<and> u_live u' = u_live u
    \<and> same_used own (p_mem (u_pool u)) own' (p_mem (u_pool u')) \<and> p_chunks (u_pool u') = p_chunks (u_pool u)"
proof -
  let ?s = "u_pool u"
  obtain H where t: "took fr ALLOC_HDR (u_heap u) = Some H"
    and u': "u' = \<lparr>u_pool = frame_pool fr ?s, u_live = u_live u, u_heap = H\<rparr>"
    using assms(2) by (auto simp: framed_def)
  note i = assms(1) [unfolded pool_inv_def]
  have hdr: "ALLOC_HDR = 16" by (simp add: ALLOC_HDR_def)
  have f: "fr \<noteq> 0" "H = (fr, 16) # u_heap u" "\<And>a. fr \<le> a \<Longrightarrow> a < fr + 16 \<Longrightarrow> own a = None"
    using took_fresh [OF t, of own] i by (auto simp: hdr)
  define own' where "own' = retag own fr (fr + 16) (Some (Large fr))"
  have ot: "owns own t a b \<Longrightarrow> owns own' t a b" for t a b
    using f(3) by (auto simp: owns_def own'_def retag_def)
  define a where "a = p_arena ?s"
  define m' where "m' = (let m1 = (p_mem ?s)(fr := 0, fr + 8 := a) in if a \<noteq> 0 then m1(a := fr) else m1)"
  have s': "p_mem (frame_pool fr ?s) = m'" "p_arena (frame_pool fr ?s) = fr" "p_fl (frame_pool fr ?s) = (\<lambda>_. 0)"
    "p_bump (frame_pool fr ?s) = 0" "p_left (frame_pool fr ?s) = 0" "p_chunks (frame_pool fr ?s) = p_chunks ?s"
    by (simp_all add: frame_pool_def id_arena_link_def id_arena_hook_def Let_def m'_def a_def)
  have hd: "headed [] own (p_mem ?s) a hs (u_live u)" using i by (simp add: a_def)
  have h: "owns own (Large h) h (h + 16)" if "h \<in> set hs" for h using hd that by (simp add: headed_def hdr)
  have fresh: "x + 8 \<noteq> fr \<and> x \<noteq> fr + 8 \<and> x \<noteq> fr" if "x \<in> set hs" for x
    using h [OF that] f(3) [of fr] f(3) [of "fr + 8"] by (auto simp: owns_def)
  have ap: "apart (fr # hs)"
    using fresh heads_apart [of hs own] h by (auto simp: apart_def)
  have d: "dll m' fr (fr # hs)" unfolding m'_def using hd ap fresh f(1) by (intro dll_push) (auto simp: headed_def)
  have ah: "a \<noteq> 0 \<Longrightarrow> a \<in> set hs" using hd linked_hd [of "\<lambda>h. p_mem ?s (h + 8)" a hs] by (auto simp: headed_def dll_def)
  have same: "m' x = p_mem ?s x" if "own x = Some t" "\<And>y. t \<noteq> Large y" for x t
    using that(1) that(2) [of a] f(3) [of fr] f(3) [of "fr + 8"] ah h [of a] by (auto simp: m'_def Let_def owns_def)
  have "lives own' (u_live u)" using i ot by (auto simp: lives_def)
  moreover have "spares own' m' (\<lambda>_. 0) (\<lambda>_. [])" by (simp add: spares_def)
  moreover have "rest own' 0 0" by (simp add: rest_def owns_def)
  moreover have "chunked own' m' (p_chunks ?s) cs"
  proof -
    have "m' x = p_mem ?s x" if "x \<in> set cs" for x
      using i that by (intro same [of _ "Chunk x"]) (auto simp: chunked_def owns_def CHUNK_HDR_def)
    then show ?thesis using i ot linked_cong [of cs m' "p_mem ?s"] by (auto simp: chunked_def)
  qed
  moreover have "headed [fr] own' m' fr (fr # hs) (u_live u)"
  proof -
    have "owns own' (Large fr) fr (fr + 16)" unfolding own'_def by (rule owns_retag_new)
    moreover have "\<forall>h \<in> set hs. owns own' (Large h) h (h + 16)" using h ot by blast
    ultimately show ?thesis using d hd by (simp add: headed_def hdr)
  qed
  moreover have "backed [fr] H cs (u_live u)" using i f(2) by (simp add: backed_def hdr)
  moreover have "covered own' H" unfolding f(2) using i by (auto simp: covered_def own'_def retag_def)
  moreover have "housed cs (\<lambda>_. []) 0 0 (u_live u)" using i by (auto simp: housed_def)
  moreover have "same_used own (p_mem ?s) own' m'"
    unfolding same_used_def
  proof (intro allI impI)
    fix x q assume x: "own x = Some (Used q)"
    then show "own' x = Some (Used q) \<and> m' x = p_mem ?s x" using same [OF x] f(3) [of x] by (auto simp: own'_def retag_def)
  qed
  ultimately show ?thesis using u' by (auto simp: pool_inv_def s')
qed

section \<open>During the call\<close>

text \<open>The lists split at the frame: above it what the call allocated, below it what is left from before.\<close>

lemma remove1_split: "distinct (xs @ f # ys) \<Longrightarrow> g \<noteq> f \<Longrightarrow>
    remove1 g (xs @ f # ys) = (if g \<in> set xs then remove1 g xs @ f # ys else xs @ f # remove1 g ys)"
  by (auto simp: remove1_append)

definition kept_run :: "pool_event list \<Rightarrow> nat list \<Rightarrow> nat list \<Rightarrow> sys \<Rightarrow> sys \<Rightarrow> bool" where
  "kept_run es ys ys' u u' \<longleftrightarrow> (\<forall>(p, n) \<in> set (u_live u). (\<forall>e \<in> set es. \<not> releases p e) \<longrightarrow> (p, n) \<in> set (u_live u')
     \<and> (n > POOL_MAX \<and> p - ALLOC_HDR \<in> set ys \<longrightarrow> p - ALLOC_HDR \<in> set ys')
     \<and> (\<forall>a. p \<le> a \<and> a < p + n \<and> (\<forall>e \<in> set es. \<not> writes a e) \<longrightarrow> p_mem (u_pool u') a = p_mem (u_pool u) a))"

lemma framed_run:
  assumes "pool_inv [fr] own sp (c @ cs) (xs @ fr # ys) u" "pool_run es u = Some u'"
  shows "\<exists>own' sp' c' xs' ys'. pool_inv [fr] own' sp' (c' @ cs) (xs' @ fr # ys') u' \<and> set ys' \<subseteq> set ys
    \<and> kept_run es ys ys' u u'"
  using assms
proof (induction es arbitrary: own sp c xs ys u)
  case Nil
  then have "u' = u" "kept_run [] ys ys u u" by (simp_all add: kept_run_def)
  then show ?case using Nil.prems(1) by blast
next
  case (Cons e es)
  then obtain u1 where u1: "on_event e u = Some u1" "pool_run es u1 = Some u'" by (auto split: bind_splits)
  obtain own1 sp1 c1 h g where 1: "pool_inv [fr] own1 sp1 (c1 @ c @ cs) (h @ remove1 g (xs @ fr # ys)) u1" "g \<noteq> fr" "kept_live e u u1"
    "\<forall>(p, n) \<in> set (large (u_live u)). \<not> releases p e \<longrightarrow> g \<noteq> p - ALLOC_HDR"
    using event_inv [OF Cons.prems(1) u1(1)] by auto
  have d: "distinct (xs @ fr # ys)" using Cons.prems(1) heads_distinct unfolding pool_inv_def by blast
  define xs1 where "xs1 = h @ (if g \<in> set xs then remove1 g xs else xs)"
  define ys1 where "ys1 = (if g \<in> set xs then ys else remove1 g ys)"
  have "h @ remove1 g (xs @ fr # ys) = xs1 @ fr # ys1" using remove1_split [OF d 1(2)] by (simp add: xs1_def ys1_def)
  then have "pool_inv [fr] own1 sp1 ((c1 @ c) @ cs) (xs1 @ fr # ys1) u1" using 1(1) by simp
  from Cons.IH [OF this u1(2)] obtain own' sp' c' xs' ys' where 2: "pool_inv [fr] own' sp' (c' @ cs) (xs' @ fr # ys') u'"
    "set ys' \<subseteq> set ys1"
    "kept_run es ys1 ys' u1 u'" by blast
  have "set ys1 \<subseteq> set ys" by (auto simp: ys1_def dest: subsetD [OF set_remove1_subset])
  moreover have "kept_run (e # es) ys ys' u u'"
    unfolding kept_run_def
  proof (intro ballI, clarify)
    fix p n assume p: "(p, n) \<in> set (u_live u)" "\<forall>e \<in> set (e # es). \<not> releases p e"
    then have l: "(p, n) \<in> set (u_live u1)"
      "\<forall>a. p \<le> a \<and> a < p + n \<and> \<not> writes a e \<longrightarrow> p_mem (u_pool u1) a = p_mem (u_pool u) a"
      using 1(3) by (auto simp: kept_live_def)
    have y: "p - ALLOC_HDR \<in> set ys1" if "n > POOL_MAX" "p - ALLOC_HDR \<in> set ys"
    proof -
      have "(p, n) \<in> set (large (u_live u))" using p(1) that(1) by (simp add: large_def)
      then have "g \<noteq> p - ALLOC_HDR" using 1(4) p(2) by auto
      then show ?thesis using that(2) by (simp add: ys1_def in_set_remove1)
    qed
    show "(p, n) \<in> set (u_live u') \<and> (n > POOL_MAX \<and> p - ALLOC_HDR \<in> set ys \<longrightarrow> p - ALLOC_HDR \<in> set ys')
       \<and> (\<forall>a. p \<le> a \<and> a < p + n \<and> (\<forall>e \<in> set (e # es). \<not> writes a e) \<longrightarrow> p_mem (u_pool u') a = p_mem (u_pool u) a)"
      using bspec [OF 2(3) [unfolded kept_run_def] l(1)] p(2) y l(2) by auto
  qed
  ultimately show ?case using 2(1,2) by blast
qed

section \<open>The walks of the release\<close>

fun path :: "(nat \<Rightarrow> nat) \<Rightarrow> nat \<Rightarrow> nat list \<Rightarrow> nat \<Rightarrow> bool" where
  "path nx p [] q \<longleftrightarrow> p = q"
| "path nx p (x # xs) q \<longleftrightarrow> p = x \<and> path nx (nx x) xs q"

lemma path_cong: "(\<And>x. x \<in> set xs \<Longrightarrow> nx x = nx' x) \<Longrightarrow> path nx p xs q \<longleftrightarrow> path nx' p xs q"
  by (induction xs arbitrary: p) auto

lemma linked_path: "linked nx p (xs @ q # ys) \<Longrightarrow> path nx p xs q"
  by (induction xs arbitrary: p) auto

lemma linked_start: "linked nx p xs \<Longrightarrow> p = (case xs of [] \<Rightarrow> 0 | x # _ \<Rightarrow> x)"
  by (cases xs) auto

definition cells :: "nat list \<Rightarrow> nat set" where
  "cells hs = (\<Union>h \<in> set hs. {h, h + 8})"

definition same_rest :: "pool \<Rightarrow> pool \<Rightarrow> bool" where
  "same_rest s s' \<longleftrightarrow> p_chunks s' = p_chunks s \<and> p_fl s' = p_fl s \<and> p_bump s' = p_bump s \<and> p_left s' = p_left s"

lemma walk_large:
  assumes "path (\<lambda>h. p_mem s (h + 8)) h xs fr" "dll (p_mem s) (p_arena s) ks" "apart (xs @ ks)" "distinct (xs @ ks)"
    "fr \<notin> set xs" "0 \<notin> set xs" "length xs \<le> fuel"
  shows "\<exists>s'. arena_walk fuel fr sh h fd s = Some (fd @ filter (\<lambda>x. x \<noteq> sh) xs, s')
    \<and> dll (p_mem s') (p_arena s') (filter (\<lambda>x. x = sh) xs @ ks) \<and> same_rest s s'
    \<and> (\<forall>a. a \<notin> cells (xs @ ks) \<longrightarrow> p_mem s' a = p_mem s a)"
  using assms
proof (induction xs arbitrary: h fd s ks fuel)
  case Nil
  then show ?case by (auto simp: same_rest_def arena_walk.simps [of fuel fr sh fr fd s])
next
  case (Cons x xs)
  obtain k where k: "fuel = Suc k" "length xs \<le> k" using Cons.prems(7) by (cases fuel) auto
  have h: "h = x" "x \<noteq> fr" "x \<noteq> 0" "path (\<lambda>h. p_mem s (h + 8)) (p_mem s (x + 8)) xs fr" using Cons.prems(1,5,6) by auto
  show ?case
  proof (cases "x = sh")
    case False
    have "apart (xs @ ks)" using Cons.prems(3) by (auto simp: apart_def)
    then obtain s' where "arena_walk k fr sh (p_mem s (x + 8)) (fd @ [x]) s = Some ((fd @ [x]) @ filter (\<lambda>x. x \<noteq> sh) xs, s')"
      "dll (p_mem s') (p_arena s') (filter (\<lambda>x. x = sh) xs @ ks)" "same_rest s s'"
      "\<forall>a. a \<notin> cells (xs @ ks) \<longrightarrow> p_mem s' a = p_mem s a"
      using Cons.IH [OF h(4) Cons.prems(2), of k "fd @ [x]"] Cons.prems(4,5,6) k(2) by auto
    then show ?thesis using h False k(1) by (auto simp: Let_def cells_def arena_walk.simps [of "Suc k" fr sh x fd s])
  next
    case True
    define a where "a = p_arena s"
    define s1 where "s1 = s\<lparr>p_mem := (let m1 = (p_mem s)(x := 0, x + 8 := a) in if a \<noteq> 0 then m1(a := x) else m1), p_arena := x\<rparr>"
    have ak: "a \<noteq> 0 \<Longrightarrow> a \<in> set ks" using Cons.prems(2) linked_hd [of "\<lambda>h. p_mem s (h + 8)" a ks] by (auto simp: dll_def a_def)
    have ap: "apart (x # ks)" using Cons.prems(3) by (auto simp: apart_def)
    have d: "dll (p_mem s1) (p_arena s1) (x # ks)"
      using dll_push [OF Cons.prems(2) ap] Cons.prems(4) h(3) unfolding s1_def a_def by simp
    have "p_mem s1 (y + 8) = p_mem s (y + 8)" if "y \<in> set xs" for y
      using that Cons.prems(4) ak apartD [OF Cons.prems(3), of x y] apartD [OF Cons.prems(3), of a y]
      by (auto simp: s1_def Let_def)
    then have "path (\<lambda>h. p_mem s1 (h + 8)) (p_mem s (x + 8)) xs fr"
      using h(4) path_cong [of xs "\<lambda>h. p_mem s1 (h + 8)" "\<lambda>h. p_mem s (h + 8)"] by auto
    moreover have "apart (xs @ x # ks)" "distinct (xs @ x # ks)" using Cons.prems(3,4) by (auto simp: apart_def)
    ultimately obtain s' where s': "arena_walk k fr sh (p_mem s (x + 8)) fd s1 = Some (fd @ filter (\<lambda>x. x \<noteq> sh) xs, s')"
      "dll (p_mem s') (p_arena s') (filter (\<lambda>x. x = sh) xs @ x # ks)" "same_rest s1 s'"
      "\<forall>a. a \<notin> cells (xs @ x # ks) \<longrightarrow> p_mem s' a = p_mem s1 a"
      using Cons.IH [OF _ d, of "p_mem s (x + 8)" k fd] Cons.prems(5,6) k(2) by auto
    have "arena_walk fuel fr sh h fd s = arena_walk k fr sh (p_mem s (x + 8)) fd s1"
      using h True k(1) unfolding s1_def a_def by (simp add: Let_def arena_walk.simps [of "Suc k" fr sh sh fd s])
    moreover have "filter (\<lambda>x. x = sh) xs = []" using True Cons.prems(4) by (auto simp: filter_empty_conv)
    moreover have "p_mem s1 b = p_mem s b" if "b \<notin> cells (x # xs @ ks)" for b
      using that ak by (auto simp: s1_def Let_def cells_def)
    ultimately show ?thesis using s' True by (auto simp: same_rest_def s1_def cells_def)
  qed
qed

lemma walk_chunks:
  assumes "linked (p_mem s) (p_chunks s) (c @ cs)" "mark = (case cs of [] \<Rightarrow> 0 | x # _ \<Rightarrow> x)" "length c \<le> fuel"
  shows "chunk_walk fuel mark fd s = Some (fd @ c, s\<lparr>p_chunks := mark\<rparr>)"
  using assms
proof (induction c arbitrary: fd s fuel)
  case Nil
  then have "p_chunks s = mark" using linked_start [of "p_mem s" "p_chunks s" cs] by simp
  then have "s\<lparr>p_chunks := mark\<rparr> = s" by simp
  then show ?case using \<open>p_chunks s = mark\<close> by (subst chunk_walk.simps) simp
next
  case (Cons x c)
  obtain k where k: "fuel = Suc k" "length c \<le> k" using Cons.prems(3) by (cases fuel) auto
  have x: "p_chunks s = x" "x \<noteq> 0" "linked (p_mem s) (p_mem s x) (c @ cs)" using Cons.prems(1) by auto
  have "distinct (x # c @ cs)" using Cons.prems(1) linked_distinct by (metis append_Cons)
  then have "x \<noteq> mark" using Cons.prems(2) x(2) by (cases cs) auto
  moreover have "chunk_walk k mark (fd @ [x]) (s\<lparr>p_chunks := p_mem s x\<rparr>) = Some ((fd @ [x]) @ c, s\<lparr>p_chunks := mark\<rparr>)"
    using Cons.IH [of "s\<lparr>p_chunks := p_mem s x\<rparr>" k "fd @ [x]"] x(3) Cons.prems(2) k(2) by simp
  ultimately show ?case using k(1) x(1) by (simp add: chunk_walk.simps [of "Suc k" mark fd s])
qed

section \<open>The release\<close>

text \<open>What is left: the blocks below the frame and the store's, and the chunks from before.\<close>

definition left_heads :: "nat \<Rightarrow> nat list \<Rightarrow> nat list \<Rightarrow> nat list" where
  "left_heads sh xs ys = filter (\<lambda>x. x = sh) xs @ ys"

definition left_live :: "nat list \<Rightarrow> nat list \<Rightarrow> (nat \<times> nat) list \<Rightarrow> (nat \<times> nat) list" where
  "left_live cs ks L = filter (\<lambda>(p, n). if n > POOL_MAX then p - ALLOC_HDR \<in> set ks else within cs p (p + room n)) L"

definition left_heap :: "nat list \<Rightarrow> nat list \<Rightarrow> (nat \<times> nat) list \<Rightarrow> (nat \<times> nat) list" where
  "left_heap cs ks H = filter (\<lambda>(b, z). b \<in> set cs \<or> b \<in> set ks) H"

lemma large_left: "large (left_live cs ks L) = filter (\<lambda>(p, n). p - ALLOC_HDR \<in> set ks) (large L)"
  by (induction L) (auto simp: large_def left_live_def)

lemma release_walks:
  assumes "pool_inv [fr] own sp (c @ cs) (xs @ fr # ys) u" "mark = (case cs of [] \<Rightarrow> 0 | x # _ \<Rightarrow> x)" "length (u_heap u) \<le> fuel"
  shows "\<exists>s'. release_pool fuel fr sh mark (u_pool u) = Some (filter (\<lambda>x. x \<noteq> sh) xs @ c, s')
    \<and> dll (p_mem s') (p_arena s') (left_heads sh xs ys) \<and> linked (p_mem s') (p_chunks s') cs
    \<and> p_fl s' = (\<lambda>_. 0) \<and> p_bump s' = 0 \<and> p_left s' = 0
    \<and> (\<forall>a t. own a = Some t \<longrightarrow> (\<forall>h. t \<noteq> Large h) \<longrightarrow> p_mem s' a = p_mem (u_pool u) a)"
proof -
  let ?s = "u_pool u" and ?hs = "xs @ fr # ys"
  note i = assms(1) [unfolded pool_inv_def]
  have hd: "headed [fr] own (p_mem ?s) (p_arena ?s) ?hs (u_live u)" using i by blast
  have d: "distinct ?hs" "0 \<notin> set ?hs" using heads_distinct [OF hd] by auto
  have o: "owns own (Large h) h (h + 16)" if "h \<in> set ?hs" for h using hd that by (auto simp: headed_def ALLOC_HDR_def)
  have ap: "apart ?hs" using o by (rule heads_apart)
  have dl: "dll (p_mem ?s) (p_arena ?s) ?hs" using hd by (simp add: headed_def)
  have len: "length xs \<le> fuel" "length c \<le> fuel"
  proof -
    have h: "size (mset ?hs) = Suc (length (large (u_live u)))" using hd by (simp add: headed_def)
    have "size (mset (u_heap u)) = Suc (length (c @ cs) + length (large (u_live u)))" using i by (simp add: backed_def)
    then have "length (u_heap u) = Suc (length (c @ cs) + length (large (u_live u)))" by simp
    then show "length xs \<le> fuel" "length c \<le> fuel" using h assms(3) by auto
  qed
  define below where "below = p_mem ?s (fr + 8)"
  define s2 where "s2 = (let s1 = ?s\<lparr>p_arena := below\<rparr> in if below \<noteq> 0 then store_cell s1 below 0 else s1)"
  have s2: "p_mem s2 = (if below \<noteq> 0 then (p_mem ?s)(below := 0) else p_mem ?s)" "p_arena s2 = below" "p_chunks s2 = p_chunks ?s"
    by (simp_all add: s2_def Let_def)
  have d2: "dll (p_mem s2) (p_arena s2) ys" using dll_tail [OF dl ap] unfolding s2 below_def .
  have bl: "below \<noteq> 0 \<Longrightarrow> below \<in> set ys" using d2 linked_hd [of "\<lambda>h. p_mem s2 (h + 8)" below ys] s2(2) by (auto simp: dll_def)
  have p: "path (\<lambda>h. p_mem s2 (h + 8)) (p_arena ?s) xs fr"
  proof -
    have "path (\<lambda>h. p_mem ?s (h + 8)) (p_arena ?s) xs fr" using dl by (intro linked_path) (auto simp: dll_def)
    moreover have "p_mem s2 (x + 8) = p_mem ?s (x + 8)" if "x \<in> set xs" for x
      using that bl apartD [OF ap, of below x] by (auto simp: s2)
    ultimately show ?thesis using path_cong [of xs "\<lambda>h. p_mem s2 (h + 8)" "\<lambda>h. p_mem ?s (h + 8)"] by auto
  qed
  have ap2: "apart (xs @ ys)" "distinct (xs @ ys)" "fr \<notin> set xs" "0 \<notin> set xs" using ap d by (auto simp: apart_def)
  obtain s3 where s3: "arena_walk fuel fr sh (p_arena ?s) [] s2 = Some (filter (\<lambda>x. x \<noteq> sh) xs, s3)"
    "dll (p_mem s3) (p_arena s3) (left_heads sh xs ys)" "same_rest s2 s3" "\<And>a. a \<notin> cells (xs @ ys) \<Longrightarrow> p_mem s3 a = p_mem s2 a"
    using walk_large [OF p d2 ap2 len(1), of sh "[]"] by (auto simp: left_heads_def)
  have same: "p_mem s3 a = p_mem ?s a" if a: "own a = Some t" "\<forall>h. t \<noteq> Large h" for a t
  proof -
    have n: "a \<noteq> h \<and> a \<noteq> h + 8" if "h \<in> set ?hs" for h using o [OF that] a by (auto simp: owns_def)
    then have "a \<notin> cells (xs @ ys)" by (auto simp: cells_def)
    moreover have "below \<noteq> 0 \<Longrightarrow> a \<noteq> below" using bl n [of below] by auto
    ultimately show ?thesis using s3(4) [of a] by (auto simp: s2)
  qed
  have ch: "chunked own (p_mem ?s) (p_chunks ?s) (c @ cs)" using i by blast
  have l3: "linked (p_mem s3) (p_chunks s3) (c @ cs)"
  proof -
    have "p_mem s3 x = p_mem ?s x" if "x \<in> set (c @ cs)" for x
      using ch that by (intro same [of _ "Chunk x"]) (auto simp: chunked_def owns_def CHUNK_HDR_def)
    then show ?thesis using ch s3(3) linked_cong [of "c @ cs" "p_mem s3" "p_mem ?s"] by (auto simp: chunked_def same_rest_def s2(3))
  qed
  define s4 where "s4 = s3\<lparr>p_chunks := mark, p_fl := (\<lambda>_. 0), p_bump := 0, p_left := 0\<rparr>"
  have "chunk_walk fuel mark (filter (\<lambda>x. x \<noteq> sh) xs) s3 = Some (filter (\<lambda>x. x \<noteq> sh) xs @ c, s3\<lparr>p_chunks := mark\<rparr>)"
    using walk_chunks [OF l3 assms(2) len(2)] .
  then have r: "release_pool fuel fr sh mark ?s = Some (filter (\<lambda>x. x \<noteq> sh) xs @ c, s4)"
    using s3(1) unfolding release_pool_def Let_def below_def [symmetric] s2_def [unfolded Let_def, symmetric] by (simp add: s4_def)
  obtain q where "linked (p_mem s3) q cs" using linked_app [OF l3] by blast
  then have "linked (p_mem s3) mark cs" using linked_start [of "p_mem s3" q cs] assms(2) by simp
  then show ?thesis using r s3(2) same by (auto simp: s4_def)
qed

lemma left_heads_mset:
  assumes "distinct (xs @ fr # ys)"
  shows "filter (\<lambda>h. h \<in> set (left_heads sh xs ys)) (xs @ ys) = left_heads sh xs ys"
proof -
  have "filter (\<lambda>h. h \<in> set (left_heads sh xs ys)) xs = filter (\<lambda>x. x = sh) xs"
    using assms by (intro filter_cong) (auto simp: left_heads_def)
  moreover have "filter (\<lambda>h. h \<in> set (left_heads sh xs ys)) ys = ys" by (auto simp: left_heads_def filter_id_conv)
  ultimately show ?thesis by (simp add: left_heads_def)
qed

lemma filter_image: "filter_mset P (mset (map f xs)) = mset (map f (filter (P \<circ> f) xs))"
  by (simp only: mset_filter [symmetric] filter_map)

lemma release_inv:
  assumes "pool_inv [fr] own sp (c @ cs) (xs @ fr # ys) u" "dll (p_mem s') (p_arena s') ks" "ks = left_heads sh xs ys"
    "linked (p_mem s') (p_chunks s') cs" "p_fl s' = (\<lambda>_. 0)" "p_bump s' = 0" "p_left s' = 0"
  shows "\<exists>own'. pool_inv [] own' (\<lambda>_. []) cs ks \<lparr>u_pool = s', u_live = left_live cs ks (u_live u), u_heap = left_heap cs ks (u_heap u)\<rparr>"
proof -
  let ?H = "left_heap cs ks (u_heap u)" and ?L = "left_live cs ks (u_live u)" and ?hs = "xs @ fr # ys"
  let ?f = "\<lambda>(p, n). p - ALLOC_HDR" and ?g = "\<lambda>(p, n). (p - ALLOC_HDR, n + ALLOC_HDR)"
  note i = assms(1) [unfolded pool_inv_def]
  have hd: "headed [fr] own (p_mem (u_pool u)) (p_arena (u_pool u)) ?hs (u_live u)" using i by blast
  have ch: "chunked own (p_mem (u_pool u)) (p_chunks (u_pool u)) (c @ cs)" using i by blast
  have d: "distinct ?hs" using heads_distinct [OF hd] by blast
  have ks: "set ks \<subseteq> set xs \<union> set ys" using assms(3) by (auto simp: left_heads_def)
  have oh: "own h = Some (Large h)" if "h \<in> set ?hs" for h using hd that by (auto simp: headed_def owns_def ALLOC_HDR_def)
  have oc: "own x = Some (Chunk x)" if "x \<in> set (c @ cs)" for x using ch that by (auto simp: chunked_def owns_def CHUNK_HDR_def)
  have hc: "h \<notin> set (c @ cs)" if "h \<in> set ?hs" for h using oh [OF that] oc [of h] by auto
  have dc: "distinct (c @ cs)" using ch unfolding chunked_def by (blast intro: linked_distinct)
  have mh: "mset (xs @ ys) = mset (map ?f (large (u_live u)))" using hd by (simp add: headed_def)
  have mH: "mset (u_heap u) = mset ((fr, ALLOC_HDR) # map (\<lambda>c. (c, CHUNK)) (c @ cs) @ map ?g (large (u_live u)))"
    using i by (simp add: backed_def)
  have lf: "?f b \<in> set xs \<union> set ys" if "b \<in> set (large (u_live u))" for b
  proof -
    have "?f b \<in># mset (map ?f (large (u_live u)))" using that by auto
    then show ?thesis unfolding mh [symmetric] by simp
  qed
  have big: "ALLOC_HDR < p" if "(p, n) \<in> set (large (u_live u))" for p n using hd that by (auto simp: headed_def)
  define own' where "own' a = (if \<exists>(b, z) \<in> set ?H. b \<le> a \<and> a < b + z then own a else None)" for a
  have keep: "owns own' t a b" if "owns own t a b" "(b', z) \<in> set ?H" "b' \<le> a" "b \<le> b' + z" for t a b b' z
    using that by (fastforce simp: owns_def own'_def)
  have rc: "(x, CHUNK) \<in> set ?H" if "x \<in> set cs" for x
  proof -
    have "(x, CHUNK) \<in> set (u_heap u)" using that arg_cong [OF mH, of set_mset] by auto
    then show ?thesis using that by (simp add: left_heap_def)
  qed
  have rl: "(p - ALLOC_HDR, n + ALLOC_HDR) \<in> set ?H" if "(p, n) \<in> set (large (u_live u))" "p - ALLOC_HDR \<in> set ks" for p n
  proof -
    have "?g (p, n) \<in> set (map ?g (large (u_live u)))" using that(1) unfolding set_map by (rule imageI)
    then have "(p - ALLOC_HDR, n + ALLOC_HDR) \<in> set (u_heap u)" using arg_cong [OF mH, of set_mset] by auto
    then show ?thesis using that by (simp add: left_heap_def)
  qed
  have "lives own' ?L"
  proof -
    have dk: "distinct (map fst ?L)" using i by (auto simp: left_live_def lives_def distinct_map_filter)
    have "p \<noteq> 0 \<and> p mod 16 = 0 \<and> owns own' (Used p) p (p + room n)" if b: "(p, n) \<in> set ?L" for p n
    proof -
      have m: "(p, n) \<in> set (u_live u)" using b by (simp add: left_live_def)
      then have o: "p \<noteq> 0" "p mod 16 = 0" "owns own (Used p) p (p + room n)" using live_used [of own "u_live u" p n] i by auto
      have "owns own' (Used p) p (p + room n)"
      proof (cases "n > POOL_MAX")
        case True
        then have l: "(p, n) \<in> set (large (u_live u))" "p - ALLOC_HDR \<in> set ks" using b m by (auto simp: large_def left_live_def)
        show ?thesis using keep [OF o(3) rl [OF l]] big [OF l(1)] True by (simp add: room_def)
      next
        case False
        then obtain x where "x \<in> set cs" "x + CHUNK_HDR \<le> p" "p + room n \<le> x + CHUNK" using b by (auto simp: left_live_def within_def)
        then show ?thesis using keep [OF o(3) rc [of x]] by simp
      qed
      then show ?thesis using o by blast
    qed
    then show ?thesis using dk by (auto simp: lives_def)
  qed
  moreover have "spares own' (p_mem s') (\<lambda>_. 0) (\<lambda>_. [])" by (simp add: spares_def)
  moreover have "rest own' 0 0" by (simp add: rest_def owns_def)
  moreover have "chunked own' (p_mem s') (p_chunks s') cs"
  proof -
    have "owns own' (Chunk x) x (x + CHUNK_HDR)" if "x \<in> set cs" for x
      using ch that keep [OF _ rc [OF that], of "Chunk x" x "x + CHUNK_HDR"] by (simp add: chunked_def CHUNK_HDR_def CHUNK_def)
    then show ?thesis using assms(4) by (simp add: chunked_def)
  qed
  moreover have "headed [] own' (p_mem s') (p_arena s') ks ?L"
  proof -
    have "owns own' (Large h) h (h + ALLOC_HDR)" if h: "h \<in> set ks" for h
    proof -
      have "h \<in># mset (map ?f (large (u_live u)))" unfolding mh [symmetric] using h ks by auto
      then obtain p n where pn: "(p, n) \<in> set (large (u_live u))" "h = p - ALLOC_HDR" by auto
      have "owns own (Large h) h (h + ALLOC_HDR)" using hd h ks by (auto simp: headed_def)
      then show ?thesis using keep [OF _ rl [OF pn(1)], of "Large h" h "h + ALLOC_HDR"] pn(2) h by simp
    qed
    moreover have "mset ks = mset (map ?f (large ?L))"
    proof -
      have "mset ks = filter_mset (\<lambda>h. h \<in> set ks) (mset (xs @ ys))"
        using left_heads_mset [OF d, of sh] assms(3) by (metis mset_filter)
      also have "\<dots> = mset (map ?f (filter ((\<lambda>h. h \<in> set ks) \<circ> ?f) (large (u_live u))))" unfolding mh by (rule filter_image)
      also have "filter ((\<lambda>h. h \<in> set ks) \<circ> ?f) (large (u_live u)) = large ?L" unfolding large_left by (intro filter_cong) auto
      finally show ?thesis .
    qed
    moreover have "\<forall>(p, n) \<in> set (large ?L). ALLOC_HDR < p" using big by (auto simp: large_left)
    ultimately show ?thesis using assms(2) by (simp add: headed_def)
  qed
  moreover have "backed [] ?H cs ?L"
  proof -
    let ?P = "\<lambda>(b, z :: nat). b \<in> set cs \<or> b \<in> set ks"
    have f: "\<not> ?P (fr, ALLOC_HDR)" using hc [of fr] ks d by auto
    have nc: "filter (\<lambda>x. x \<in> set cs \<or> x \<in> set ks) c = []"
      using dc hc ks by (auto simp: filter_empty_conv)
    have cc: "filter (\<lambda>x. x \<in> set cs \<or> x \<in> set ks) cs = cs" by (auto simp: filter_id_conv)
    have ll: "filter (\<lambda>b. ?f b \<in> set cs \<or> ?f b \<in> set ks) (large (u_live u)) = large ?L"
      unfolding large_left
    proof (rule filter_cong)
      fix b assume "b \<in> set (large (u_live u))"
      then have "?f b \<notin> set cs" using lf [of b] hc by auto
      then show "(?f b \<in> set cs \<or> ?f b \<in> set ks) = (case b of (p, n) \<Rightarrow> p - ALLOC_HDR \<in> set ks)" by (cases b) auto
    qed simp
    have 1: "filter ?P (map (\<lambda>c. (c, CHUNK)) (c @ cs)) = map (\<lambda>c. (c, CHUNK)) cs"
      using nc cc by (simp add: filter_map comp_def)
    have 2: "filter ?P (map ?g (large (u_live u))) = map ?g (large ?L)"
      unfolding ll [symmetric] filter_map by (rule arg_cong [of _ _ "map ?g"], rule filter_cong) auto
    have "mset ?H = filter_mset ?P (mset (u_heap u))" unfolding left_heap_def by (rule mset_filter)
    also have "\<dots> = mset (filter ?P ((fr, ALLOC_HDR) # map (\<lambda>c. (c, CHUNK)) (c @ cs) @ map ?g (large (u_live u))))"
      unfolding mH by (rule mset_filter [symmetric])
    also have "\<dots> = mset (map (\<lambda>c. (c, CHUNK)) cs @ map ?g (large ?L))" using f 1 2 by (simp only: filter.simps filter_append if_False)
    finally show ?thesis by (simp add: backed_def)
  qed
  moreover have "covered own' ?H" by (auto simp: covered_def own'_def split: if_splits)
  moreover have "housed cs (\<lambda>_. []) 0 0 ?L" by (auto simp: housed_def left_live_def)
  ultimately have "pool_inv [] own' (\<lambda>_. []) cs ks \<lparr>u_pool = s', u_live = ?L, u_heap = ?H\<rparr>"
    using assms(5-7) by (simp add: pool_inv_def)
  then show ?thesis by blast
qed

section \<open>A call gives back what it took\<close>

lemma left_addresses:
  assumes "pool_inv [fr] own sp (c @ cs) (xs @ fr # ys) u" "ks = left_heads sh xs ys"
  shows "mset (filter (\<lambda>x. x \<noteq> sh) xs @ c) + mset (map fst (left_heap cs ks (u_heap u))) + {#fr#} = mset (map fst (u_heap u))"
    "set (map fst (left_heap cs ks (u_heap u))) \<subseteq> set cs \<union> set ks"
proof -
  let ?hs = "xs @ fr # ys"
  have hd: "headed [fr] own (p_mem (u_pool u)) (p_arena (u_pool u)) ?hs (u_live u)"
    and ch: "chunked own (p_mem (u_pool u)) (p_chunks (u_pool u)) (c @ cs)" and b: "backed [fr] (u_heap u) (c @ cs) (u_live u)"
    using assms(1) by (auto simp: pool_inv_def)
  have d: "distinct ?hs" using heads_distinct [OF hd] by blast
  have dc: "distinct (c @ cs)" using ch unfolding chunked_def by (blast intro: linked_distinct)
  have hc: "h \<notin> set (c @ cs)" if "h \<in> set ?hs" for h
  proof
    assume "h \<in> set (c @ cs)"
    then have "own h = Some (Chunk h)" using ch by (auto simp: chunked_def owns_def CHUNK_HDR_def)
    moreover have "own h = Some (Large h)" using hd that by (auto simp: headed_def owns_def ALLOC_HDR_def)
    ultimately show False by simp
  qed
  have all: "mset (map fst (u_heap u)) = mset ?hs + mset (c @ cs)"
  proof -
    have "mset (map fst (u_heap u)) = image_mset fst (mset (u_heap u))" by simp
    also have "\<dots> = mset (c @ cs) + ({#fr#} + mset (map (\<lambda>(p, n). p - ALLOC_HDR) (large (u_live u))))"
      using b by (simp add: backed_def image_mset.compositionality comp_def case_prod_unfold)
    also have "{#fr#} + mset (map (\<lambda>(p, n). p - ALLOC_HDR) (large (u_live u))) = mset ?hs" using hd by (simp add: headed_def)
    finally show ?thesis by (simp add: add.commute)
  qed
  have "mset (map fst (left_heap cs ks (u_heap u))) = filter_mset (\<lambda>b. b \<in> set cs \<or> b \<in> set ks) (mset (map fst (u_heap u)))"
    unfolding left_heap_def filter_image by (rule arg_cong [of _ _ "\<lambda>xs. mset (map fst xs)"], rule filter_cong) auto
  also have "\<dots> = mset (filter (\<lambda>b. b \<in> set cs \<or> b \<in> set ks) (?hs @ c @ cs))"
    unfolding all mset_append [symmetric] by (simp only: mset_filter)
  also have "filter (\<lambda>b. b \<in> set cs \<or> b \<in> set ks) (?hs @ c @ cs) = ks @ cs"
  proof -
    have "filter (\<lambda>b. b \<in> set cs \<or> b \<in> set ks) xs = filter (\<lambda>x. x = sh) xs"
      using hc d by (intro filter_cong) (auto simp: assms(2) left_heads_def)
    moreover have "filter (\<lambda>b. b \<in> set cs \<or> b \<in> set ks) ys = ys" by (auto simp: filter_id_conv assms(2) left_heads_def)
    moreover have "fr \<notin> set cs" "fr \<notin> set ks" using hc [of fr] d by (auto simp: assms(2) left_heads_def)
    moreover have "filter (\<lambda>b. b \<in> set cs \<or> b \<in> set ks) c = []"
      using dc hc by (auto simp: filter_empty_conv assms(2) left_heads_def)
    moreover have "filter (\<lambda>b. b \<in> set cs \<or> b \<in> set ks) cs = cs" by (auto simp: filter_id_conv)
    ultimately show ?thesis by (simp add: assms(2) left_heads_def)
  qed
  finally have m: "mset (map fst (left_heap cs ks (u_heap u))) = mset (ks @ cs)" .
  have "mset (filter (\<lambda>x. x \<noteq> sh) xs) + mset (filter (\<lambda>x. x = sh) xs) = mset xs"
    using multiset_partition [of "mset xs" "\<lambda>x. x = sh"] by (simp add: add.commute)
  then show "mset (filter (\<lambda>x. x \<noteq> sh) xs @ c) + mset (map fst (left_heap cs ks (u_heap u))) + {#fr#} = mset (map fst (u_heap u))"
    unfolding m all by (simp add: assms(2) left_heads_def)
  have "set (map fst (left_heap cs ks (u_heap u))) = set (ks @ cs)" using arg_cong [OF m, of set_mset] by (simp only: set_mset_mset)
  then show "set (map fst (left_heap cs ks (u_heap u))) \<subseteq> set cs \<union> set ks" by auto
qed

lemma call_frees:
  assumes "safe u0" "framed fr u0 = Some u1" "pool_run es u1 = Some u2" "length (u_heap u2) \<le> fuel"
  shows "\<exists>freed s' u3. release_pool fuel fr sh (p_chunks (u_pool u0)) (u_pool u2) = Some (freed, s') \<and> u_pool u3 = s' \<and> safe u3
    \<and> mset freed + mset (map fst (u_heap u3)) + {#fr#} = mset (map fst (u_heap u2))
    \<and> set (map fst (u_heap u3)) \<subseteq> set (map fst (u_heap u0)) \<union> {sh} \<and> set (u_live u3) \<subseteq> set (u_live u2)
    \<and> (\<forall>(p, n) \<in> set (u_live u0). (\<forall>e \<in> set es. \<not> releases p e) \<longrightarrow> (p, n) \<in> set (u_live u3)
         \<and> (\<forall>a. p \<le> a \<and> a < p + n \<and> (\<forall>e \<in> set es. \<not> writes a e) \<longrightarrow> p_mem s' a = p_mem (u_pool u0) a))
    \<and> (\<forall>(p, n) \<in> set (u_live u2). n > POOL_MAX \<and> p - ALLOC_HDR = sh \<longrightarrow> (p, n) \<in> set (u_live u3)
         \<and> (\<forall>a. p \<le> a \<and> a < p + n \<longrightarrow> p_mem s' a = p_mem (u_pool u2) a))"
proof -
  obtain own0 sp0 cs hs where 0: "pool_inv [] own0 sp0 cs hs u0" using assms(1) by (auto simp: safe_def)
  obtain own1 where 1: "pool_inv [fr] own1 (\<lambda>_. []) cs (fr # hs) u1" "u_live u1 = u_live u0"
    "same_used own0 (p_mem (u_pool u0)) own1 (p_mem (u_pool u1))" "p_chunks (u_pool u1) = p_chunks (u_pool u0)"
    using framed_inv [OF 0 assms(2)] by blast
  obtain own2 sp2 c xs ys where 2: "pool_inv [fr] own2 sp2 (c @ cs) (xs @ fr # ys) u2" "set ys \<subseteq> set hs" "kept_run es hs ys u1 u2"
    using framed_run [of fr own1 "\<lambda>_. []" "[]" cs "[]" hs u1 es u2] 1(1) assms(3) by auto
  have mark: "p_chunks (u_pool u0) = (case cs of [] \<Rightarrow> 0 | x # _ \<Rightarrow> x)"
    using 0 linked_start [of "p_mem (u_pool u0)" "p_chunks (u_pool u0)" cs] by (simp add: pool_inv_def chunked_def)
  let ?ks = "left_heads sh xs ys"
  obtain s' where s': "release_pool fuel fr sh (p_chunks (u_pool u0)) (u_pool u2) = Some (filter (\<lambda>x. x \<noteq> sh) xs @ c, s')"
    "dll (p_mem s') (p_arena s') ?ks" "linked (p_mem s') (p_chunks s') cs"
    "p_fl s' = (\<lambda>_. 0)" "p_bump s' = 0" "p_left s' = 0"
    "\<And>a t. own2 a = Some t \<Longrightarrow> \<forall>h. t \<noteq> Large h \<Longrightarrow> p_mem s' a = p_mem (u_pool u2) a"
    using release_walks [OF 2(1) mark assms(4), of sh] by blast
  define u3 where "u3 = \<lparr>u_pool = s', u_live = left_live cs ?ks (u_live u2), u_heap = left_heap cs ?ks (u_heap u2)\<rparr>"
  have safe: "safe u3" using release_inv [OF 2(1) s'(2) refl s'(3-6)] by (auto simp: safe_def u3_def)
  have sub: "set (map fst (u_heap u3)) \<subseteq> set (map fst (u_heap u0)) \<union> {sh}"
  proof -
    have h0: "mset (map fst (u_heap u0)) = mset cs + mset hs"
      using 0 by (simp add: pool_inv_def backed_def headed_def image_mset.compositionality comp_def case_prod_unfold)
    have "set cs \<union> set hs = set (map fst (u_heap u0))" using mset_eq_setD [of "map fst (u_heap u0)" "cs @ hs"] h0 by simp
    moreover have "set (map fst (u_heap u3)) \<subseteq> set cs \<union> set ?ks" using left_addresses(2) [OF 2(1) refl] by (simp add: u3_def)
    moreover have "set ?ks \<subseteq> {sh} \<union> set hs" using 2(2) by (auto simp: left_heads_def)
    ultimately show ?thesis by blast
  qed
  have live: "\<forall>(p, n) \<in> set (u_live u0). (\<forall>e \<in> set es. \<not> releases p e) \<longrightarrow> (p, n) \<in> set (u_live u3)
         \<and> (\<forall>a. p \<le> a \<and> a < p + n \<and> (\<forall>e \<in> set es. \<not> writes a e) \<longrightarrow> p_mem s' a = p_mem (u_pool u0) a)"
  proof (intro ballI, clarify)
    fix p n assume p: "(p, n) \<in> set (u_live u0)" and r: "\<forall>e \<in> set es. \<not> releases p e"
    have l0: "lives own0 (u_live u0)" and hd0: "headed [] own0 (p_mem (u_pool u0)) (p_arena (u_pool u0)) hs (u_live u0)"
      using 0 by (auto simp: pool_inv_def)
    have k: "(p, n) \<in> set (u_live u2)" "n > POOL_MAX \<and> p - ALLOC_HDR \<in> set hs \<longrightarrow> p - ALLOC_HDR \<in> set ys"
      "\<forall>a. p \<le> a \<and> a < p + n \<and> (\<forall>e \<in> set es. \<not> writes a e) \<longrightarrow> p_mem (u_pool u2) a = p_mem (u_pool u1) a"
      using bspec [OF 2(3) [unfolded kept_run_def], of "(p, n)"] p r by (auto simp: 1(2))
    have "(p, n) \<in> set (u_live u3)"
    proof (cases "n > POOL_MAX")
      case True
      then have "p - ALLOC_HDR \<in> set hs" using head_listed [OF hd0, of p n] p by (simp add: large_def)
      then show ?thesis using True k by (simp add: u3_def left_live_def left_heads_def)
    next
      case False
      then have "within cs p (p + room n)" using 0 p by (auto simp: pool_inv_def housed_def)
      then show ?thesis using False k(1) by (simp add: u3_def left_live_def)
    qed
    moreover have "p_mem s' a = p_mem (u_pool u0) a" if a: "p \<le> a" "a < p + n" "\<forall>e \<in> set es. \<not> writes a e" for a
    proof -
      have "own2 a = Some (Used p)" using live_used [of own2 "u_live u2" p n] 2(1) k(1) a(1,2) room_pos(2) [of n]
        by (auto simp: pool_inv_def owns_def)
      then have "p_mem s' a = p_mem (u_pool u2) a" by (rule s'(7)) simp
      moreover have "own0 a = Some (Used p)" using live_used [OF l0 p] a(1,2) room_pos(2) [of n] by (auto simp: owns_def)
      ultimately show ?thesis using k(3) a 1(3) by (simp add: same_used_def)
    qed
    ultimately show "(p, n) \<in> set (u_live u3)
      \<and> (\<forall>a. p \<le> a \<and> a < p + n \<and> (\<forall>e \<in> set es. \<not> writes a e) \<longrightarrow> p_mem s' a = p_mem (u_pool u0) a)" by blast
  qed
  have store: "\<forall>(p, n) \<in> set (u_live u2). n > POOL_MAX \<and> p - ALLOC_HDR = sh \<longrightarrow> (p, n) \<in> set (u_live u3)
         \<and> (\<forall>a. p \<le> a \<and> a < p + n \<longrightarrow> p_mem s' a = p_mem (u_pool u2) a)"
  proof (clarify)
    fix p n assume p: "(p, n) \<in> set (u_live u2)" "POOL_MAX < n" "sh = p - ALLOC_HDR"
    have hd2: "headed [fr] own2 (p_mem (u_pool u2)) (p_arena (u_pool u2)) (xs @ fr # ys) (u_live u2)"
      and l2: "lives own2 (u_live u2)" using 2(1) by (auto simp: pool_inv_def)
    have "p - ALLOC_HDR \<in> set (map (\<lambda>(p, n). p - ALLOC_HDR) (large (u_live u2)))" using p by (force simp: large_def)
    moreover have "mset (xs @ ys) = mset (map (\<lambda>(p, n). p - ALLOC_HDR) (large (u_live u2)))" using hd2 by (simp add: headed_def)
    ultimately have "p - ALLOC_HDR \<in> set (xs @ ys)" using mset_eq_setD by blast
    then have "(p, n) \<in> set (u_live u3)" using p by (auto simp: u3_def left_live_def left_heads_def)
    moreover have "p_mem s' a = p_mem (u_pool u2) a" if a: "p \<le> a" "a < p + n" for a
    proof -
      have "own2 a = Some (Used p)" using live_used [OF l2 p(1)] a room_pos(2) [of n] by (auto simp: owns_def)
      then show ?thesis by (rule s'(7)) simp
    qed
    ultimately show "(p, n) \<in> set (u_live u3) \<and> (\<forall>a. p \<le> a \<and> a < p + n \<longrightarrow> p_mem s' a = p_mem (u_pool u2) a)" by blast
  qed
  have "set (u_live u3) \<subseteq> set (u_live u2)" by (auto simp: u3_def left_live_def)
  then show ?thesis using s'(1) safe sub live store left_addresses(1) [OF 2(1) refl, of sh] by (intro exI [of _ "filter (\<lambda>x. x \<noteq> sh) xs @ c"] exI [of _ s'] exI [of _ u3]) (simp add: u3_def)
qed

section \<open>The entry point\<close>

text \<open>The state in which the body of a scoped call runs, once the constants have been set up.\<close>

definition begun :: "nat \<Rightarrow> lib \<Rightarrow> lib" where
  "begun fr s = (entry_start s)\<lparr>lb_chunk := p_chunks (lb_pool s), lb_pool := frame_pool fr (lb_pool s),
     lb_mark := st_used (lb_store s), lb_framed := True\<rparr>"

lemma begin_begun: "lb_inited s = 2 \<Longrightarrow> idl_begin True fr init (entry_start s) = (Back (), begun fr s)"
  by (simp add: idl_begin_def begun_def entry_start_def id_arena_link_def id_arena_hook_def Let_def)

lemma framed_begun: "framed fr u = Some u1 \<Longrightarrow> u_pool u = lb_pool s \<Longrightarrow> u_pool u1 = lb_pool (begun fr s)"
  by (auto simp: framed_def begun_def)

text \<open>What a body leaves alone: the frame's own variables.\<close>

definition frame_kept :: "lib \<Rightarrow> lib \<Rightarrow> bool" where
  "frame_kept s s' \<longleftrightarrow> lb_framed s' = lb_framed s \<and> lb_chunk s' = lb_chunk s \<and> lb_mark s' = lb_mark s"

lemma entry_ends:
  assumes "lb_inited s = 2" "body (begun fr s) = (r, s2)" "r = Back () \<or> r = Jump" "frame_kept (begun fr s) s2"
    "release_pool fuel fr (lb_hdr s2) (p_chunks (lb_pool s)) (lb_pool s2) = Some (fd, p)"
  shows "idl_entry True fuel fr init body s = Some (Inr (if r = Jump then lb_code s2 else 0,
     s2\<lparr>lb_active := False, lb_pool := p, lb_freed := lb_freed s2 @ fd,
        lb_store := release_store (st_used (lb_store s)) (lb_store s2), lb_framed := False, lb_locked := False\<rparr>))"
proof -
  have k: "lb_framed s2" "lb_chunk s2 = p_chunks (lb_pool s)" "lb_mark s2 = st_used (lb_store s)"
    using assms(4) by (simp_all add: frame_kept_def begun_def)
  have "after_act fuel fr (r, s2) = Some (Inr (if r = Jump then lb_code s2 else 0,
     s2\<lparr>lb_active := False, lb_pool := p, lb_freed := lb_freed s2 @ fd,
        lb_store := release_store (st_used (lb_store s)) (lb_store s2), lb_framed := False, lb_locked := False\<rparr>))"
    using assms(3,5) k by (auto simp: after_act_def idl_done_def idl_release_def)
  then show ?thesis using assms(2) by (simp add: idl_entry_def begin_begun [OF assms(1)])
qed


text \<open>
  C33: What a call wrote to the store above the mark is zeroed when it returns: the store
  keeps its invariant and its size, its bytes below the mark are untouched, and every byte
  from the mark on is zero.
\<close>

theorem idl_release_store_clean:
  assumes "store_inv t" "1 \<le> mark" "mark \<le> st_used t"
  shows "store_inv (release_store mark t) \<and> st_used (release_store mark t) = mark
    \<and> length (st_bytes (release_store mark t)) = length (st_bytes t)
    \<and> (\<forall>i < length (st_bytes t). st_bytes (release_store mark t) ! i = (if int i < mark then st_bytes t ! i else 0))"
proof (cases "mark = st_used t")
  case True
  then show ?thesis using assms(1) by (auto simp: release_store_def store_inv_def)
next
  case False
  let ?z = "replicate (nat (st_used t - mark)) (0 :: w8)"
  note i = store_invD [OF assms(1)]
  have u: "mark < st_used t" using False assms(3) by simp
  have c: "st_used t \<le> st_cap t" using i(2) u assms(2) by (auto simp: max_def split: if_splits)
  have l: "nat mark + length ?z \<le> length (st_bytes t)" using c u assms(2) by (simp add: st_cap_def)
  have r: "release_store mark t = t\<lparr>st_bytes := blit (nat mark) ?z (st_bytes t), st_used := mark\<rparr>"
    using u by (simp add: release_store_def)
  have b: "blit (nat mark) ?z (st_bytes t) ! j = (if int j < mark then st_bytes t ! j else 0)" if j: "j < length (st_bytes t)" for j
  proof (cases "nat mark \<le> j \<and> j < nat mark + length ?z")
    case True
    then have "j - nat mark < nat (st_used t - mark)" "\<not> int j < mark" using assms(2) by auto
    then show ?thesis using nth_blit [OF l j] True by (simp add: nth_replicate)
  next
    case False
    then have "int j < mark \<or> st_used t \<le> int j" using u assms(2) by auto
    moreover have "st_used t \<le> int j \<Longrightarrow> st_bytes t ! j = 0" using assms(1) j by (simp add: store_inv_def)
    ultimately show ?thesis using nth_blit [OF l j] False u by auto
  qed
  have "store_inv (release_store mark t)"
    using i c u l b assms(2) by (auto simp: r store_inv_def st_cap_def)
  then show ?thesis using b l by (simp add: r)
qed

section \<open>Traps inside a call\<close>

text \<open>A message as the host reads it: cut to the buffer, without newlines at its end.\<close>

definition host_msg :: "string \<Rightarrow> string" where
  "host_msg t = rev (dropWhile (\<lambda>c. c = newline) (rev (take 511 t)))"

lemma host_msg_bound: "length (host_msg t) \<le> 511"
proof -
  have "length (host_msg t) \<le> length (rev (take 511 t))"
    unfolding host_msg_def using length_dropWhile_le [of "\<lambda>c. c = newline" "rev (take 511 t)"] by simp
  then show ?thesis by simp
qed

lemma host_msg_end: "host_msg t \<noteq> [] \<Longrightarrow> last (host_msg t) \<noteq> newline"
  using hd_dropWhile [of "\<lambda>c. c = newline" "rev (take 511 t)"] by (simp add: host_msg_def last_rev)

lemma trap_out_in_call:
  assumes "lb_active s" "lb_msg s = []" "host_msg txt \<noteq> []"
  shows "trap_out txt s = (Jump, s\<lparr>lb_msg := host_msg txt\<rparr>)"
proof -
  have "snd (idl_fprintf True txt s) = s\<lparr>lb_msg := host_msg txt\<rparr>"
    using assms(1,2) by (simp add: idl_fprintf_def idl_set_msg_def cut_msg_def host_msg_def Let_def)
  then show ?thesis using assms(1,3) by (simp add: trap_out_def idl_exit_def)
qed

lemma trap_out_outside: "\<not> lb_active s \<Longrightarrow> trap_out txt s = (Ended 1, s\<lparr>lb_err := lb_err s @ txt\<rparr>)"
  by (simp add: trap_out_def idl_fprintf_def idl_exit_def)

text \<open>
  C18: A trap inside a library call does not end the process: the host gets code 1 and, as
  the message, the text of the trap cut to 511 bytes without line breaks at its end, nothing
  is written to stderr, the store is cleaned and the lock released.
\<close>

theorem idl_entry_reports:
  assumes "safe u0" "u_pool u0 = lb_pool s" "lb_inited s = 2" "framed fr u0 = Some u1"
    "pool_run es u1 = Some u2" "length (u_heap u2) \<le> fuel"
    "lb_pool s2 = u_pool u2" "frame_kept (begun fr s) s2" "lb_active s2" "lb_msg s2 = []" "lb_code s2 = 1" "lb_err s2 = lb_err s"
    "body (begun fr s) = trap_out txt s2" "host_msg txt \<noteq> []"
  shows "\<exists>s3. idl_entry True fuel fr init body s = Some (Inr (1, s3)) \<and> idl_error s3 = host_msg txt
    \<and> length (idl_error s3) \<le> 511 \<and> last (idl_error s3) \<noteq> newline \<and> lb_err s3 = lb_err s
    \<and> lb_store s3 = release_store (st_used (lb_store s)) (lb_store s2) \<and> \<not> lb_locked s3 \<and> \<not> lb_active s3"
proof -
  obtain fd p where c: "release_pool fuel fr (lb_hdr s2) (p_chunks (u_pool u0)) (u_pool u2) = Some (fd, p)"
    using call_frees [OF assms(1,4,5,6), of "lb_hdr s2"] by blast
  have t: "body (begun fr s) = (Jump, s2\<lparr>lb_msg := host_msg txt\<rparr>)"
    using assms(13) trap_out_in_call [OF assms(9,10,14)] by simp
  have k: "frame_kept (begun fr s) (s2\<lparr>lb_msg := host_msg txt\<rparr>)" using assms(8) by (simp add: frame_kept_def)
  from entry_ends [where body = body, OF assms(3) t _ k, of fuel fd p init] c
  show ?thesis using assms(2,7,11,12) host_msg_bound host_msg_end [OF assms(14)] by (simp add: idl_error_def)
qed

text \<open>
  Constants that trap while they are set up: nothing has been framed, nothing is released, and
  the next call sets them up again.
\<close>

theorem idl_entry_init_retried:
  assumes "lb_inited s \<noteq> 2" "\<not> lb_framed s2" "lb_inited s2 = 1"
    "init ((entry_start s)\<lparr>lb_inited := 1\<rparr>) = (Jump, s2)"
  shows "\<exists>s3. idl_entry scoped fuel fr init body s = Some (Inr (lb_code s2, s3)) \<and> lb_inited s3 = 1
    \<and> lb_pool s3 = lb_pool s2 \<and> lb_store s3 = lb_store s2 \<and> idl_error s3 = lb_msg s2 \<and> \<not> lb_locked s3 \<and> \<not> lb_framed s3
    \<and> idl_begin scoped fr init' (entry_start s3)
        = (case init' ((entry_start s3)\<lparr>lb_inited := 1\<rparr>) of (Back _, s4) \<Rightarrow> idl_begin scoped fr init' (s4\<lparr>lb_inited := 2\<rparr>) | r \<Rightarrow> r)"
proof -
  have i: "lb_inited (entry_start s) \<noteq> 2" using assms(1) by (simp add: entry_start_def)
  have "idl_entry scoped fuel fr init body s = Some (Inr (lb_code s2, s2\<lparr>lb_active := False, lb_locked := False\<rparr>))"
    using assms i by (simp add: idl_entry_def idl_begin_def after_act_def idl_done_def)
  then show ?thesis using assms(2,3)
    by (auto simp: idl_error_def idl_begin_def entry_start_def Let_def split: prod.splits outcome.splits)
qed

section \<open>A call that allocates and traps\<close>

definition demo_lib :: lib where
  "demo_lib = lib_init\<lparr>lb_inited := 2, lb_store := \<lparr>st_bytes = [0, 7, 7, 0], st_used = 3, st_blocks = 1, st_total = 2, st_hwm = 3\<rparr>\<rparr>"

definition demo_trap :: string where "demo_trap = ''id: division by zero'' @ [newline]"

definition demo_body :: "unit act" where
  "demo_body s =
     (case id_pool_get 65536 100 (lb_pool s) of
        Inr (_, p) \<Rightarrow> (case id_pool_get 524288 20000 p of
            Inr (_, q) \<Rightarrow> trap_out demo_trap (s\<lparr>lb_pool := q\<rparr>)
          | Inl _ \<Rightarrow> (Back (), s))
      | Inl _ \<Rightarrow> (Back (), s))"

definition demo_run :: "pool_event list" where "demo_run = [Get 65536 100, Get 524288 20000]"

lemma demo_view:
  "sys_view (Option.bind (framed 64 sys_init) (pool_run demo_run))
     = Some ([(524304, 20000), (65552, 100)], [(524288, 20016), (65536, 262144), (64, 16)])"
  by (simp add: framed_def demo_run_def frame_pool_def sys_view_def sys_init_def pool_init_def do_get_def
      took_def asks_def id_pool_get_def id_pool_carve_def id_pool_span_def id_arena_hook_def id_pool_large_alloc_def id_arena_link_def
      id_add_check_def id_pool_class_def id_pool_class_bytes_def Let_def pool_consts SIZE_MAX_def)

lemma get_event: "on_event (Get a n) u = Some u' \<Longrightarrow> \<exists>p. id_pool_get a n (u_pool u) = Inr (p, u_pool u')"
  by (auto simp: do_get_def split: option.splits sum.splits)

lemma two_gets:
  "pool_run [Get a n, Get b k] u = Some u' \<Longrightarrow>
     \<exists>p q s. id_pool_get a n (u_pool u) = Inr (p, s) \<and> id_pool_get b k s = Inr (q, u_pool u')"
  using get_event [of a n u] get_event [of b k]
  by (auto simp only: pool_run.simps Option.bind_eq_Some_conv option.inject) blast

lemma demo_steps:
  obtains u1 u2 where "framed 64 sys_init = Some u1" "pool_run demo_run u1 = Some u2"
    "u_heap u2 = [(524288, 20016), (65536, 262144), (64, 16)]"
    "demo_body (begun 64 demo_lib) = trap_out demo_trap ((begun 64 demo_lib)\<lparr>lb_pool := u_pool u2\<rparr>)"
proof -
  obtain u1 u2 where u: "framed 64 sys_init = Some u1" "pool_run demo_run u1 = Some u2"
    "u_heap u2 = [(524288, 20016), (65536, 262144), (64, 16)]"
    using demo_view by (auto simp: sys_view_def Option.bind_eq_Some_conv)
  obtain p q s where g: "id_pool_get 65536 100 (u_pool u1) = Inr (p, s)" "id_pool_get 524288 20000 s = Inr (q, u_pool u2)"
    using two_gets u(2) unfolding demo_run_def by blast
  have "u_pool u1 = lb_pool (begun 64 demo_lib)"
    using framed_begun [OF u(1), of demo_lib] by (simp add: demo_lib_def lib_init_def sys_init_def)
  then have "demo_body (begun 64 demo_lib) = trap_out demo_trap ((begun 64 demo_lib)\<lparr>lb_pool := u_pool u2\<rparr>)"
    using g by (simp add: demo_body_def)
  then show ?thesis using that u by blast
qed

lemma demo_facts:
  "u_pool sys_init = lb_pool demo_lib" "lb_inited demo_lib = 2" "host_msg demo_trap = ''id: division by zero''"
  "lb_active (begun fr s)" "lb_msg (begun fr s) = []" "lb_code (begun fr s) = 1" "lb_err (begun fr s) = lb_err s"
  "lb_hdr (begun fr s) = lb_hdr s" "lb_freed (begun fr s) = lb_freed s" "lb_store (begun fr s) = lb_store s"
  by (simp_all add: demo_lib_def lib_init_def sys_init_def host_msg_def demo_trap_def begun_def entry_start_def)


theorem idl_release_store_clean_witness:
  "st_bytes (release_store 2 \<lparr>st_bytes = [0, 7, 7, 0], st_used = 3, st_blocks = 1, st_total = 2, st_hwm = 3\<rparr>) ! 2 = 0"
  using idl_release_store_clean [of "\<lparr>st_bytes = [0, 7, 7, 0], st_used = 3, st_blocks = 1, st_total = 2, st_hwm = 3\<rparr>" 2]
  by (auto simp: store_inv_def st_cap_def nth_Cons' split: if_splits)

theorem idl_entry_reports_witness:
  "\<exists>s3. idl_entry True 3 64 (\<lambda>s. (Back (), s)) demo_body demo_lib = Some (Inr (1, s3)) \<and> idl_error s3 = ''id: division by zero''
     \<and> lb_err s3 = []"
proof -
  obtain u1 u2 where u: "framed 64 sys_init = Some u1" "pool_run demo_run u1 = Some u2"
    "u_heap u2 = [(524288, 20016), (65536, 262144), (64, 16)]"
    "demo_body (begun 64 demo_lib) = trap_out demo_trap ((begun 64 demo_lib)\<lparr>lb_pool := u_pool u2\<rparr>)"
    by (rule demo_steps)
  have f: "length (u_heap u2) \<le> 3" "frame_kept (begun 64 demo_lib) ((begun 64 demo_lib)\<lparr>lb_pool := u_pool u2\<rparr>)"
    using u(3) by (simp_all add: frame_kept_def)
  have e: "lb_err demo_lib = []" by (simp add: demo_lib_def lib_init_def)
  show ?thesis
    using idl_entry_reports [where body = demo_body, OF safe_init demo_facts(1,2) u(1,2) f(1) _ f(2) _ _ _ _ u(4), of "\<lambda>s. (Back (), s)"] e
    by (auto simp: demo_facts)
qed

theorem idl_entry_init_retried_witness:
  "\<exists>s3. idl_entry True 0 64 (trap_out demo_trap) demo_body lib_init = Some (Inr (1, s3)) \<and> lb_inited s3 = 1
     \<and> idl_error s3 = ''id: division by zero''"
proof -
  let ?s = "(entry_start lib_init)\<lparr>lb_inited := 1\<rparr>"
  have "trap_out demo_trap ?s = (Jump, ?s\<lparr>lb_msg := host_msg demo_trap\<rparr>)"
    by (rule trap_out_in_call) (simp_all add: entry_start_def demo_facts)
  from idl_entry_init_retried [where init = "trap_out demo_trap", OF _ _ _ this, of True 0 64 demo_body "\<lambda>s. (Back (), s)"] show ?thesis
    by (auto simp: entry_start_def lib_init_def demo_facts)
qed

end
