(* ===== verification/InteropData.thy ===== *)
theory InteropData
  imports Interop IdList
begin

text \<open>
  What crosses the boundary of a library call (\<open>src/interop/idl.c\<close>) and of a JS module
  (\<open>src/tools/jsbind/shim.c\<close>). A host array is a list behind a pointer that may be NULL; a
  conversion inward ends with a value or a halt: a refused argument, a failed \<open>malloc\<close>, a trap.
  A conversion outward also takes blocks from the host's \<open>malloc\<close>: the state \<open>host\<close> counts the
  calls and names the live blocks by their number, and \<open>ok\<close> says which calls succeed.
\<close>

datatype halt = Arg string | Oom | Trapped trap

type_synonym 'a conv = "halt + 'a"

definition of_res :: "'a res \<Rightarrow> 'a conv" where
  "of_res r = (case r of Inl t \<Rightarrow> Inl (Trapped t) | Inr v \<Rightarrow> Inr v)"

definition bindc :: "'a conv \<Rightarrow> ('a \<Rightarrow> 'b conv) \<Rightarrow> 'b conv" where
  "bindc r f = (case r of Inl x \<Rightarrow> Inl x | Inr v \<Rightarrow> f v)"

text \<open>How a halt leaves the wrapper's body; \<open>say\<close> gives a trap's text.\<close>

definition settle :: "(trap \<Rightarrow> string) \<Rightarrow> 'a conv \<Rightarrow> 'a act" where
  "settle say r s =
     (case r of Inr v \<Rightarrow> (Back v, s) | Inl (Arg w) \<Rightarrow> idl_argerr w s | Inl Oom \<Rightarrow> idl_oom s | Inl (Trapped t) \<Rightarrow> trap_out (say t) s)"

section \<open>Inward\<close>

definition host_read :: "'a list option \<Rightarrow> nat \<Rightarrow> 'a list" where
  "host_read p n = (case p of None \<Rightarrow> [] | Some xs \<Rightarrow> take n xs)"

definition idl_in_str :: "'c mem_env \<Rightarrow> string option \<Rightarrow> nat \<Rightarrow> string conv" where
  "idl_in_str e p n =
     (if n \<noteq> 0 \<and> p = None then Inl (Arg ''a string argument is NULL but its length is not zero'')
      else if n \<noteq> 0 \<and> CHR 0x00 \<in> set (host_read p n)
        then Inl (Arg ''a string argument contains a NUL byte; an id string cannot hold one (pass binary data as an int list)'')
      else of_res (id_str_from e (host_read p n)))"

definition idl_in_bytes :: "benv \<Rightarrow> w8 list option \<Rightarrow> nat \<Rightarrow> idbytes conv" where
  "idl_in_bytes e p n =
     (if n \<noteq> 0 \<and> p = None then Inl (Arg ''a bytes argument is NULL but its length is not zero'')
      else if int n > INT_MAX then Inl (Arg ''a bytes argument is longer than an id bytes value can hold (2^31 - 1 bytes)'')
      else bindc (of_res (id_bytes_new e (int n))) (\<lambda>B. Inr (put_bytes (blit 0 (host_read p n) (b_data B)) B)))"

definition idl_list_make :: "env \<Rightarrow> nat \<Rightarrow> idlist conv" where
  "idl_list_make e n =
     (if int n > INT_MAX div 2 then Inl (Arg ''a list argument is longer than an id list can hold (2^30 elements)'')
      else of_res (id_list_sized e (int n)))"

text \<open>The loop that fills the cells in order.\<close>

fun fill_cells :: "nat \<Rightarrow> w64 list \<Rightarrow> idlist \<Rightarrow> idlist" where
  "fill_cells i [] L = L"
| "fill_cells i (v # vs) L = fill_cells (Suc i) vs (put_data ((l_data L)[i := v]) L)"

definition idl_in_cells :: "env \<Rightarrow> ('a \<Rightarrow> w64) \<Rightarrow> 'a list option \<Rightarrow> nat \<Rightarrow> idlist conv" where
  "idl_in_cells e cell p n =
     (if n \<noteq> 0 \<and> p = None then Inl (Arg ''a list argument is NULL but its length is not zero'')
      else bindc (idl_list_make e n) (\<lambda>L. Inr (fill_cells 0 (map cell (host_read p n)) L)))"

definition idl_in_ints :: "env \<Rightarrow> w32 list option \<Rightarrow> nat \<Rightarrow> idlist conv" where
  "idl_in_ints e = idl_in_cells e scast"

definition idl_in_words :: "env \<Rightarrow> w64 list option \<Rightarrow> nat \<Rightarrow> idlist conv" where
  "idl_in_words e = idl_in_cells e (\<lambda>v. v)"

text \<open>A double is its 64 bits, which \<open>id_box_f\<close> and \<open>id_unbox_f\<close> copy.\<close>

definition id_box_f :: "w64 \<Rightarrow> w64" where "id_box_f bits = bits"
definition id_unbox_f :: "w64 \<Rightarrow> w64" where "id_unbox_f cell = cell"

definition idl_in_floats :: "env \<Rightarrow> w64 list option \<Rightarrow> nat \<Rightarrow> idlist conv" where
  "idl_in_floats e = idl_in_cells e id_box_f"

text \<open>
  A list of strings: \<open>at i\<close> is where the pool puts the \<open>i\<close>-th string. The answer is the list
  and the strings by their addresses; a refused string leaves what was made to the frame.
\<close>

fun fill_strs :: "env \<Rightarrow> (nat \<Rightarrow> w64) \<Rightarrow> nat \<Rightarrow> (string option \<times> nat) list \<Rightarrow> idlist \<Rightarrow> (w64 \<rightharpoonup> string) \<Rightarrow> (idlist \<times> (w64 \<rightharpoonup> string)) conv" where
  "fill_strs e at i [] L txt = Inr (L, txt)"
| "fill_strs e at i ((p, n) # ps) L txt =
     bindc (idl_in_str e p n) (\<lambda>s.
       fill_strs e at (Suc i) ps (put_data ((l_data L)[i := at i]) L) (txt(at i \<mapsto> s)))"

definition idl_in_strs :: "env \<Rightarrow> (nat \<Rightarrow> w64) \<Rightarrow> string option list option \<Rightarrow> nat list option \<Rightarrow> nat
    \<Rightarrow> (w64 \<rightharpoonup> string) \<Rightarrow> (idlist \<times> (w64 \<rightharpoonup> string)) conv" where
  "idl_in_strs e at ps ns k txt =
     (if k \<noteq> 0 \<and> (ps = None \<or> ns = None) then Inl (Arg ''a string list argument has a NULL array but a nonzero count'')
      else bindc (idl_list_make e k) (\<lambda>L.
        fill_strs e at 0 (zip (host_read ps k) (host_read ns k)) L txt))"

section \<open>Outward\<close>

record host =
  h_made :: nat
  h_live :: "nat list"

type_synonym 'a out = "host \<Rightarrow> 'a conv \<times> host"

definition malloc :: "(nat \<Rightarrow> nat \<Rightarrow> bool) \<Rightarrow> nat \<Rightarrow> host \<Rightarrow> nat option \<times> host" where
  "malloc ok n h =
     (let k = h_made h + 1; h1 = h\<lparr>h_made := k\<rparr>
      in if ok k n then (Some k, h1\<lparr>h_live := k # h_live h\<rparr>) else (None, h1))"

definition idl_free :: "nat \<Rightarrow> host \<Rightarrow> host" where
  "idl_free p h = (if p = 0 then h else h\<lparr>h_live := remove1 p (h_live h)\<rparr>)"

definition idl_out_str :: "(nat \<Rightarrow> nat \<Rightarrow> bool) \<Rightarrow> string \<Rightarrow> (nat \<times> string \<times> nat) out" where
  "idl_out_str ok s h =
     (let n = id_slen s
      in case malloc ok ((n + 1) mod 2 ^ 64) h of (None, h) \<Rightarrow> (Inl Oom, h) | (Some r, h) \<Rightarrow> (Inr (r, take n s @ [CHR 0x00], n), h))"

definition idl_out_bytes :: "(nat \<Rightarrow> nat \<Rightarrow> bool) \<Rightarrow> idbytes option \<Rightarrow> (nat \<times> w8 list \<times> nat) out" where
  "idl_out_bytes ok Bo h =
     (case (id_bytes_len Bo, Bo) of
        (Inr k, Some B) \<Rightarrow>
          let n = nat k
          in (case malloc ok (if n \<noteq> 0 then n else 1) h of (None, h) \<Rightarrow> (Inl Oom, h)
              | (Some r, h) \<Rightarrow> (Inr (r, take n (b_data B), n), h))
      | (Inr k, None) \<Rightarrow> (Inl (Trapped Trap_null_read), h)
      | (Inl t, _) \<Rightarrow> (Inl (Trapped t), h))"

definition idl_out_cells :: "(nat \<Rightarrow> nat \<Rightarrow> bool) \<Rightarrow> nat \<Rightarrow> nat \<Rightarrow> nat out" where
  "idl_out_cells ok n width h =
     (case malloc ok (if n \<noteq> 0 then (n * width) mod 2 ^ 64 else 1) h of (None, h) \<Rightarrow> (Inl Oom, h) | (Some r, h) \<Rightarrow> (Inr r, h))"

definition idl_out_list :: "(nat \<Rightarrow> nat \<Rightarrow> bool) \<Rightarrow> nat \<Rightarrow> (w64 \<Rightarrow> 'a) \<Rightarrow> idlist option \<Rightarrow> (nat \<times> 'a list \<times> nat) out" where
  "idl_out_list ok width cell Lo h =
     (case (id_list_len Lo, Lo) of
        (Inr k, Some L) \<Rightarrow>
          let n = nat k
          in (case idl_out_cells ok n width h of (Inl x, h) \<Rightarrow> (Inl x, h)
              | (Inr r, h) \<Rightarrow> (Inr (r, map (\<lambda>i. cell (l_data L ! i)) [0..<n], n), h))
      | (Inr k, None) \<Rightarrow> (Inl (Trapped Trap_null_read), h)
      | (Inl t, _) \<Rightarrow> (Inl (Trapped t), h))"

definition idl_out_ints :: "(nat \<Rightarrow> nat \<Rightarrow> bool) \<Rightarrow> idlist option \<Rightarrow> (nat \<times> w32 list \<times> nat) out" where
  "idl_out_ints ok = idl_out_list ok 4 ucast"

definition idl_out_words :: "(nat \<Rightarrow> nat \<Rightarrow> bool) \<Rightarrow> idlist option \<Rightarrow> (nat \<times> w64 list \<times> nat) out" where
  "idl_out_words ok = idl_out_list ok 8 (\<lambda>v. v)"

definition idl_out_floats :: "(nat \<Rightarrow> nat \<Rightarrow> bool) \<Rightarrow> idlist option \<Rightarrow> (nat \<times> w64 list \<times> nat) out" where
  "idl_out_floats ok = idl_out_list ok 8 id_unbox_f"

section \<open>String arrays and tables\<close>

text \<open>
  One block holds the pointers, the lengths and then the texts. \<open>x_items\<close> are the pointers as
  offsets into the block \<open>x_block\<close> (0: NULL), \<open>x_bytes\<close> the block's bytes, whose first
  16 for each string are the two arrays.
\<close>

record strs =
  x_count :: nat
  x_block :: nat
  x_items :: "nat list"
  x_lens :: "nat list"
  x_bytes :: "char list"

definition no_strs :: strs where
  "no_strs = \<lparr>x_count = 0, x_block = 0, x_items = [], x_lens = [], x_bytes = []\<rparr>"

definition idl_strs_free :: "strs \<Rightarrow> host \<Rightarrow> strs \<times> host" where
  "idl_strs_free t h = (no_strs, idl_free (x_block t) h)"

fun sum_bytes :: "string list \<Rightarrow> nat \<Rightarrow> nat" where
  "sum_bytes [] b = b"
| "sum_bytes (s # ss) b = sum_bytes ss ((b + (id_slen s + 1)) mod 2 ^ 64)"

fun place :: "string list \<Rightarrow> nat \<Rightarrow> strs \<Rightarrow> strs" where
  "place [] at t = t"
| "place (s # ss) at t =
     place ss (at + id_slen s + 1)
       (t\<lparr>x_bytes := blit at (s @ [CHR 0x00]) (x_bytes t), x_items := x_items t @ [at], x_lens := x_lens t @ [id_slen s]\<rparr>)"

definition idl_strs_make :: "(nat \<Rightarrow> nat \<Rightarrow> bool) \<Rightarrow> (w64 \<Rightarrow> string) \<Rightarrow> idlist option \<Rightarrow> strs option out" where
  "idl_strs_make ok txt Lo h =
     (case (id_list_len Lo, Lo) of
        (Inr k, Some L) \<Rightarrow>
          let n = nat k; ss = map (\<lambda>i. txt (l_data L ! i)) [0..<n]
          in if n = 0 then (Inr (Some no_strs), h)
             else let z = (n * 16 + sum_bytes ss 0) mod 2 ^ 64
                  in (case malloc ok z h of (None, h) \<Rightarrow> (Inr None, h)
                      | (Some r, h) \<Rightarrow>
                          (Inr (Some ((place ss (n * 16) (no_strs\<lparr>x_block := r, x_bytes := replicate z CHR 0x00\<rparr>))\<lparr>x_count := n\<rparr>)), h))
      | (Inr k, None) \<Rightarrow> (Inl (Trapped Trap_null_read), h)
      | (Inl t, _) \<Rightarrow> (Inl (Trapped t), h))"

definition idl_out_strs :: "(nat \<Rightarrow> nat \<Rightarrow> bool) \<Rightarrow> (w64 \<Rightarrow> string) \<Rightarrow> idlist option \<Rightarrow> strs out" where
  "idl_out_strs ok txt Lo h =
     (case idl_strs_make ok txt Lo h of (Inl x, h) \<Rightarrow> (Inl x, h) | (Inr None, h) \<Rightarrow> (Inl Oom, h) | (Inr (Some t), h) \<Rightarrow> (Inr t, h))"

fun free_rows :: "strs list \<Rightarrow> host \<Rightarrow> host" where
  "free_rows [] h = h"
| "free_rows (t # ts) h = free_rows ts (snd (idl_strs_free t h))"

text \<open>
  The loop of \<open>idl_out_table\<close>: \<open>made\<close> are the rows so far, the newest first, in the block
  \<open>rows\<close>. A failed row gives everything back; a trap in a row does not.
\<close>

fun table_rows :: "(nat \<Rightarrow> nat \<Rightarrow> bool) \<Rightarrow> (w64 \<Rightarrow> string) \<Rightarrow> nat \<Rightarrow> idlist option list \<Rightarrow> strs list \<Rightarrow> strs list out" where
  "table_rows ok txt rows [] made h = (Inr (rev made), h)"
| "table_rows ok txt rows (Lo # Ls) made h =
     (case idl_strs_make ok txt Lo h of
        (Inl x, h) \<Rightarrow> (Inl x, h)
      | (Inr None, h) \<Rightarrow> (Inl Oom, idl_free rows (free_rows made h))
      | (Inr (Some t), h) \<Rightarrow> table_rows ok txt rows Ls (t # made) h)"

definition idl_out_table :: "(nat \<Rightarrow> nat \<Rightarrow> bool) \<Rightarrow> (w64 \<Rightarrow> string) \<Rightarrow> (w64 \<Rightarrow> idlist option) \<Rightarrow> idlist option \<Rightarrow> (nat \<times> strs list) out" where
  "idl_out_table ok txt lst Lo h =
     (case (id_list_len Lo, Lo) of
        (Inr k, Some L) \<Rightarrow>
          let n = nat k
          in (case malloc ok (if n \<noteq> 0 then n * 24 else 24) h of (None, h) \<Rightarrow> (Inl Oom, h)
              | (Some rows, h) \<Rightarrow>
                  (case table_rows ok txt rows (map (\<lambda>i. lst (l_data L ! i)) [0..<n]) [] h of
                     (Inl x, h) \<Rightarrow> (Inl x, h) | (Inr ts, h) \<Rightarrow> (Inr (rows, ts), h)))
      | (Inr k, None) \<Rightarrow> (Inl (Trapped Trap_null_read), h)
      | (Inl t, _) \<Rightarrow> (Inl (Trapped t), h))"

definition idl_table_free :: "nat \<times> strs list \<Rightarrow> host \<Rightarrow> host" where
  "idl_table_free t h = idl_free (fst t) (free_rows (snd t) h)"

section \<open>The module shim\<close>

text \<open>
  What a JS module exports for the host side; the sizes are the target's. \<open>idw_str\<close> is
  \<open>id_str_new\<close> with the count as a \<open>size_t\<close>, 32 bits wide there.
\<close>

definition idw_abi :: "w32 \<Rightarrow> w32 \<Rightarrow> w32 \<Rightarrow> w32 \<Rightarrow> w32" where
  "idw_abi list_size data_off cell_size size_size =
     or (or (or list_size (push_bit 8 data_off)) (push_bit 16 cell_size)) (push_bit 24 size_size)"

definition idw_bytes :: "benv \<Rightarrow> int \<Rightarrow> idbytes res" where
  "idw_bytes e n = id_bytes_new e (if n > 0 then n else 0)"

definition idw_list :: "env \<Rightarrow> int \<Rightarrow> idlist res" where
  "idw_list e n =
     andThen (id_list_sized e (if n > 0 then n else 0))
       (\<lambda>L. Inr (put_data (blit 0 (replicate (nat (l_len L)) 0) (l_data L)) L))"

definition idw_span :: "store \<Rightarrow> int \<Rightarrow> int \<Rightarrow> nat res" where
  "idw_span s addr n = id_store_span s addr n"

definition idw_release_bytes :: "bool \<Rightarrow> idbytes option \<Rightarrow> (idbytes option \<times> blk list) res" where
  "idw_release_bytes guard B = id_bytes_free guard B"

definition idw_release_list :: "bool \<Rightarrow> idlist option \<Rightarrow> (idlist option \<times> blk list) res" where
  "idw_release_list guard L = id_list_free guard L"

section \<open>Round trips\<close>

lemma bindc_Inr [simp]: "bindc (Inr v) f = f v"
  by (simp add: bindc_def)

lemma length_host_read: "length xs \<ge> n \<Longrightarrow> length (host_read (Some xs) n) = n"
  by (simp add: host_read_def)

lemma fill_cells_data:
  assumes "i + length vs \<le> length (l_data L)"
  shows "l_data (fill_cells i vs L) = take i (l_data L) @ vs @ drop (i + length vs) (l_data L)
    \<and> l_len (fill_cells i vs L) = l_len L \<and> l_cap (fill_cells i vs L) = l_cap L"
  using assms
proof (induction vs arbitrary: i L)
  case Nil
  then show ?case by simp
next
  case (Cons v vs)
  let ?L = "put_data ((l_data L)[i := v]) L"
  have d: "l_data ?L = (l_data L)[i := v]" "l_len ?L = l_len L" "l_cap ?L = l_cap L"
    by (simp_all add: put_data_def l_data_def split: option.splits)
  have "take (Suc i) ((l_data L)[i := v]) = take i (l_data L) @ [v]"
    using Cons.prems by (simp add: take_Suc_conv_app_nth)
  then show ?case using Cons.IH [of "Suc i" ?L] Cons.prems d by simp
qed

lemma list_make_total:
  assumes "roomy e" "int n \<le> INT_MAX div 2"
  shows "\<exists>L. idl_list_make e n = Inr L \<and> l_len L = int n \<and> l_out L = None \<and> n \<le> length (l_data L)"
  using assms by (auto simp: idl_list_make_def of_res_def id_list_sized_def id_list_make_def roomy_def l_data_def id_list_bytes_def INT_MAX_def SIZE_MAX_def)

lemma in_cells_ok:
  assumes "roomy e" "int n \<le> INT_MAX div 2" "n \<le> length xs"
  shows "\<exists>L. idl_in_cells e cell (Some xs) n = Inr L \<and> l_len L = int n \<and> list_abs L = map cell (take n xs) \<and> 0 \<le> l_len L"
proof -
  obtain L where L: "idl_list_make e n = Inr L" "l_len L = int n" "n \<le> length (l_data L)"
    using list_make_total [OF assms(1,2)] by blast
  have "length (map cell (take n xs)) = n" using assms(3) by simp
  from fill_cells_data [of 0 "map cell (take n xs)" L] L(3) this
  have "l_data (fill_cells 0 (map cell (take n xs)) L) = map cell (take n xs) @ drop n (l_data L)"
    "l_len (fill_cells 0 (map cell (take n xs)) L) = l_len L" by auto
  then show ?thesis using L assms(3) by (simp add: idl_in_cells_def host_read_def list_abs_def)
qed

lemma out_list_ok:
  assumes "0 \<le> l_len L" "length (list_abs L) = nat (l_len L)" "ok (Suc (h_made h)) (if l_len L \<noteq> 0 then (nat (l_len L) * width) mod 2 ^ 64 else 1)"
  shows "idl_out_list ok width cell (Some L) h
    = (Inr (Suc (h_made h), map cell (list_abs L), nat (l_len L)), h\<lparr>h_made := Suc (h_made h), h_live := Suc (h_made h) # h_live h\<rparr>)"
proof -
  have l: "nat (l_len L) \<le> length (l_data L)" using assms(2) by (simp add: list_abs_def)
  have "map (\<lambda>i. l_data L ! i) [0..<nat (l_len L)] = list_abs L"
    using l by (intro nth_equalityI) (simp_all add: list_abs_def)
  then have m: "map (\<lambda>i. cell (l_data L ! i)) [0..<nat (l_len L)] = map cell (list_abs L)"
    by (metis (no_types, lifting) map_map comp_apply map_eq_conv)
  have "id_list_len (Some L) = Inr (l_len L)" using assms(1) by (simp add: id_list_len_def with_list_def)
  moreover have "(nat (l_len L) \<noteq> 0) = (l_len L \<noteq> 0)" using assms(1) by auto
  ultimately show ?thesis using assms(3) m
    by (simp add: idl_out_list_def idl_out_cells_def malloc_def Let_def del: nat_0_iff nat_eq_iff)
qed

lemma cells_back:
  assumes "roomy e" "int n \<le> INT_MAX div 2" "n \<le> length xs" "\<forall>z. ok (Suc (h_made h)) z" "\<And>v. bk (cell v) = v"
  shows "\<exists>L r h'. idl_in_cells e cell (Some xs) n = Inr L \<and> idl_out_list ok width bk (Some L) h = (Inr (r, take n xs, n), h')
    \<and> h_live h' = r # h_live h"
proof -
  obtain L where L: "idl_in_cells e cell (Some xs) n = Inr L" "l_len L = int n" "list_abs L = map cell (take n xs)" "0 \<le> l_len L"
    using in_cells_ok [OF assms(1-3), of cell] by blast
  have n: "length (list_abs L) = nat (l_len L)" using L(2,3) assms(3) by simp
  have "map bk (list_abs L) = take n xs" by (simp add: L(3) assms(5) comp_def)
  then show ?thesis using L(1,2) out_list_ok [OF L(4) n, of ok h width bk] assms(4) by simp
qed

lemma scast_down: "ucast (scast (v :: w32) :: w64) = v"
proof (rule bit_word_eqI)
  fix n assume "n < LENGTH(32)"
  then show "bit (ucast (scast v :: w64) :: w32) n = bit v n"
    by (cases "n = 31") (auto simp: bit_simps min_def)
qed


section \<open>The block of a string array\<close>

definition text_at :: "strs \<Rightarrow> nat \<Rightarrow> string" where
  "text_at t i = take (x_lens t ! i) (drop (x_items t ! i) (x_bytes t))"

lemma sum_bytes_nat:
  "b + sum_list (map (\<lambda>s. length s + 1) ss) < 2 ^ 64 \<Longrightarrow> sum_bytes ss b = b + sum_list (map (\<lambda>s. length s + 1) ss)"
proof (induction ss arbitrary: b)
  case Nil
  then show ?case by simp
next
  case (Cons s ss)
  have "b + (id_slen s + 1) < 2 ^ 64" using Cons.prems by (simp add: id_slen_def)
  then show ?case using Cons by (simp add: id_slen_def add.assoc)
qed

definition span :: "string list \<Rightarrow> nat" where
  "span ss = sum_list (map (\<lambda>s. length s + 1) ss)"

lemma place_fields:
  "x_items (place ss at t) = x_items t @ map (\<lambda>i. at + span (take i ss)) [0..<length ss]"
  "x_lens (place ss at t) = x_lens t @ map length ss" "x_block (place ss at t) = x_block t" "x_count (place ss at t) = x_count t"
proof (induction ss arbitrary: at t)
  case (Cons s ss)
  {
    case 1
    have "map (\<lambda>i. at + span (take i (s # ss))) [0..<length (s # ss)] = at # map (\<lambda>i. at + length s + 1 + span (take i ss)) [0..<length ss]"
      by (simp add: upt_conv_Cons map_Suc_upt [symmetric] span_def comp_def del: upt_Suc)
    then show ?case using Cons.IH(1) by (simp add: id_slen_def)
  next
    case 2 then show ?case using Cons.IH(2) by (simp add: id_slen_def)
  next
    case 3 then show ?case using Cons.IH(3) by simp
  next
    case 4 then show ?case using Cons.IH(4) by simp
  }
qed simp_all

lemma place_bytes:
  assumes "at + span ss = length (x_bytes t)"
  shows "x_bytes (place ss at t) = take at (x_bytes t) @ concat (map (\<lambda>s. s @ [CHR 0x00]) ss)"
  using assms
proof (induction ss arbitrary: at t)
  case Nil
  then show ?case by (simp add: span_def)
next
  case (Cons s ss)
  let ?b = "blit at (s @ [CHR 0x00]) (x_bytes t)"
  have l: "at + length (s @ [CHR 0x00]) \<le> length (x_bytes t)" using Cons.prems by (simp add: span_def)
  have "at + id_slen s + 1 + span ss = length ?b" using Cons.prems length_blit [OF l] by (simp add: span_def id_slen_def)
  moreover have "take (at + id_slen s + 1) ?b = take at (x_bytes t) @ s @ [CHR 0x00]"
    using take_blit [OF l] by (simp add: id_slen_def add.assoc)
  ultimately show ?case using Cons.IH by simp
qed

lemma span_drop: "i < length ss \<Longrightarrow> span ss = span (take i ss) + length (ss ! i) + 1 + span (drop (Suc i) ss)"
  by (subst id_take_nth_drop [of i ss]) (simp_all add: span_def)

lemma concat_span: "length (concat (map (\<lambda>s. s @ [CHR 0x00]) ss)) = span ss"
  by (induction ss) (simp_all add: span_def)

lemma placed_text:
  assumes "i < length ss" "length pre = a"
  shows "take (length (ss ! i) + 1) (drop (a + span (take i ss)) (pre @ concat (map (\<lambda>s. s @ [CHR 0x00]) ss))) = ss ! i @ [CHR 0x00]"
proof -
  have "concat (map (\<lambda>s. s @ [CHR 0x00]) ss)
      = concat (map (\<lambda>s. s @ [CHR 0x00]) (take i ss)) @ (ss ! i @ [CHR 0x00]) @ concat (map (\<lambda>s. s @ [CHR 0x00]) (drop (Suc i) ss))"
    by (subst id_take_nth_drop [OF assms(1)]) simp
  then show ?thesis using concat_span [of "take i ss"] assms(2) by simp
qed

text \<open>
  C26: A list of strings is handed to the host in one block: the two arrays fit before the
  texts, every text is at its pointer with its length and a NUL byte after it, the texts lie
  one after the other without overlap inside the block, and no size computed on the way
  wraps.
\<close>

theorem idl_strs_make_layout:
  assumes "list_inv L" "ss = map txt (list_abs L)" "\<forall>s \<in> set ss. int (length s) \<le> INT_MAX" "l_len L \<noteq> 0" "\<forall>z. ok (Suc (h_made h)) z"
  shows "\<exists>t h'. idl_strs_make ok txt (Some L) h = (Inr (Some t), h') \<and> h_live h' = x_block t # h_live h
    \<and> x_count t = length ss \<and> length (x_bytes t) = 16 * length ss + span ss
    \<and> (\<forall>i < length ss. text_at t i = ss ! i \<and> x_bytes t ! (x_items t ! i + x_lens t ! i) = CHR 0x00
         \<and> 16 * length ss \<le> x_items t ! i \<and> x_items t ! i + x_lens t ! i < length (x_bytes t)
         \<and> (\<forall>j < i. x_items t ! j + x_lens t ! j < x_items t ! i))"
proof -
  note l = list_invD [OF assms(1)]
  define n where "n = nat (l_len L)"
  have n: "length ss = n" "0 < n" "n < 2 ^ 31" using assms(2,4) l list_abs_length [OF list_inv_ok [OF assms(1)]]
    by (auto simp: n_def INT_MAX_def)
  have ss: "map (\<lambda>i. txt (l_data L ! i)) [0..<n] = ss"
    using l by (intro nth_equalityI) (auto simp: assms(2) list_abs_def n_def)
  have each: "length s + 1 \<le> 2 ^ 31" if "s \<in> set ss" for s using assms(3) that by (force simp: INT_MAX_def)
  have "span ss \<le> sum_list (map (\<lambda>_. 2 ^ 31) ss)" unfolding span_def by (rule sum_list_mono) (use each in simp)
  also have "\<dots> = n * 2 ^ 31" by (simp add: sum_list_triv n)
  also have "\<dots> \<le> 2 ^ 31 * 2 ^ 31" using n(3) by (intro mult_right_mono) simp_all
  finally have sp: "span ss \<le> 2 ^ 62" by simp
  then have sum: "sum_bytes ss 0 = span ss" using sum_bytes_nat [of 0 ss] by (simp add: span_def)
  define z where "z = n * 16 + span ss"
  have z: "(n * 16 + sum_bytes ss 0) mod 2 ^ 64 = z" using sp n(3) by (simp add: sum z_def)
  let ?t0 = "no_strs\<lparr>x_block := Suc (h_made h), x_bytes := replicate z CHR 0x00\<rparr>"
  define t where "t = (place ss (n * 16) ?t0)\<lparr>x_count := n\<rparr>"
  have make: "idl_strs_make ok txt (Some L) h
      = (Inr (Some t), h\<lparr>h_made := Suc (h_made h), h_live := Suc (h_made h) # h_live h\<rparr>)"
    using l n(2) assms(5) z ss
    by (simp add: idl_strs_make_def id_list_len_def with_list_def n_def [symmetric] malloc_def t_def Let_def del: nat_0_iff nat_eq_iff)
  have b: "x_bytes t = replicate (n * 16) CHR 0x00 @ concat (map (\<lambda>s. s @ [CHR 0x00]) ss)"
    using place_bytes [of "n * 16" ss ?t0] by (simp add: t_def z_def)
  have f: "x_items t = map (\<lambda>i. n * 16 + span (take i ss)) [0..<n]" "x_lens t = map length ss" "x_block t = Suc (h_made h)" "x_count t = n"
    using place_fields [of ss "n * 16" ?t0] n(1) by (simp_all add: t_def no_strs_def)
  have len: "length (x_bytes t) = 16 * n + span ss" by (simp add: b concat_span)
  have "text_at t i = ss ! i \<and> x_bytes t ! (x_items t ! i + x_lens t ! i) = CHR 0x00 \<and> 16 * n \<le> x_items t ! i
      \<and> x_items t ! i + x_lens t ! i < length (x_bytes t) \<and> (\<forall>j < i. x_items t ! j + x_lens t ! j < x_items t ! i)" if i: "i < n" for i
  proof -
    have it: "x_items t ! i = n * 16 + span (take i ss)" "x_lens t ! i = length (ss ! i)" using i n(1) by (simp_all add: f)
    have p: "take (length (ss ! i) + 1) (drop (x_items t ! i) (x_bytes t)) = ss ! i @ [CHR 0x00]"
      using placed_text [of i ss "replicate (n * 16) (CHR 0x00)" "n * 16"] i n(1) by (simp add: it b)
    have c: "text_at t i = ss ! i" using arg_cong [OF p, of "take (length (ss ! i))"] by (simp add: text_at_def it min_def)
    have e: "x_items t ! i + x_lens t ! i < length (x_bytes t)" using span_drop [of i ss] i n(1) by (simp add: it len)
    have "x_bytes t ! (x_items t ! i + x_lens t ! i) = (take (length (ss ! i) + 1) (drop (x_items t ! i) (x_bytes t))) ! length (ss ! i)"
      using e by (simp add: it)
    then have nul: "x_bytes t ! (x_items t ! i + x_lens t ! i) = CHR 0x00" by (simp only: p nth_append) simp
    have "x_items t ! j + x_lens t ! j < x_items t ! i" if "j < i" for j
      using span_drop [of j "take i ss"] that i n(1) by (simp add: f min_def)
    then show ?thesis using c nul e it by simp
  qed
  then show ?thesis using make f(3,4) len n(1)
    by (intro exI [of _ t] exI [of _ "h\<lparr>h_made := Suc (h_made h), h_live := Suc (h_made h) # h_live h\<rparr>"] conjI) simp_all
qed

section \<open>A table gives everything back or nothing\<close>

definition host_ok :: "host \<Rightarrow> bool" where
  "host_ok h \<longleftrightarrow> (\<forall>p \<in> set (h_live h). 0 < p \<and> p \<le> h_made h)"

text \<open>The blocks of rows, NULL ones left out.\<close>

definition blocks :: "strs list \<Rightarrow> nat list" where
  "blocks ts = filter (\<lambda>p. p \<noteq> 0) (map x_block ts)"

lemma free_rows_live: "h_live h = blocks ts @ ps \<Longrightarrow> h_live (free_rows ts h) = ps"
  by (induction ts arbitrary: h) (auto simp: blocks_def idl_strs_free_def idl_free_def)

lemma strs_make_live:
  "idl_strs_make ok txt Lo h = (Inr (Some t), h') \<Longrightarrow> h_live h' = blocks [t] @ h_live h"
  "idl_strs_make ok txt Lo h = (Inr None, h') \<Longrightarrow> h_live h' = h_live h"
  by (auto simp: idl_strs_make_def malloc_def blocks_def no_strs_def Let_def place_fields split: sum.splits option.splits if_splits)

lemma table_rows_live:
  assumes "table_rows ok txt rows Ls made h = (r, h')" "h_live h = blocks made @ rows # ps" "rows \<noteq> 0"
  shows "(r = Inl Oom \<longrightarrow> h_live h' = ps) \<and> (\<forall>ts. r = Inr ts \<longrightarrow> h_live h' = blocks (rev ts) @ rows # ps)"
  using assms
proof (induction Ls arbitrary: made h)
  case Nil
  then show ?case by auto
next
  case (Cons Lo Ls)
  show ?case
  proof (cases "idl_strs_make ok txt Lo h")
    case (Pair a h1)
    show ?thesis
    proof (cases a)
      case (Inl x)
      then have "x \<noteq> Oom" using Pair by (auto simp: idl_strs_make_def malloc_def Let_def split: sum.splits option.splits if_splits)
      then show ?thesis using Cons.prems(1) Pair Inl by auto
    next
      case (Inr o1)
      show ?thesis
      proof (cases o1)
        case None
        then have "h_live h1 = blocks made @ rows # ps" using strs_make_live(2) Pair Inr Cons.prems(2) by metis
        from free_rows_live [OF this] show ?thesis using Cons.prems(1,3) Pair Inr None by (auto simp: idl_free_def)
      next
        case (Some t)
        then have "h_live h1 = blocks (t # made) @ rows # ps"
          using strs_make_live(1) [where Lo = Lo and h = h and t = t] Pair Inr Cons.prems(2) by (auto simp: blocks_def)
        from Cons.IH [OF _ this Cons.prems(3)] show ?thesis using Cons.prems(1) Pair Inr Some by simp
      qed
    qed
  qed
qed

lemma free_rows_mset: "mset (h_live (free_rows ts h)) = mset (h_live h) - mset (blocks ts)"
  by (induction ts arbitrary: h) (auto simp: blocks_def idl_strs_free_def idl_free_def)

text \<open>
  C27: A table of strings is handed out whole or not at all: when one of its allocations
  fails, every block taken for it is given back, and freeing a table that was made gives
  back exactly what it took.
\<close>

theorem idl_out_table_gives_back:
  assumes "idl_out_table ok txt lst Lo h = (r, h')"
  shows "(r = Inl Oom \<longrightarrow> h_live h' = h_live h) \<and> (\<forall>t. r = Inr t \<longrightarrow> mset (h_live (idl_table_free t h')) = mset (h_live h))"
proof (cases "\<exists>k L. id_list_len Lo = Inr k \<and> Lo = Some L")
  case False
  then have "r \<noteq> Inl Oom \<and> (\<forall>t. r \<noteq> Inr t)" using assms by (auto simp: idl_out_table_def split: sum.splits option.splits)
  then show ?thesis by blast
next
  case True
  then obtain k L where k: "id_list_len Lo = Inr k" "Lo = Some L" by blast
  define z where "z = (if nat k \<noteq> 0 then nat k * 24 else 24)"
  show ?thesis
  proof (cases "malloc ok z h")
    case (Pair a h1)
    show ?thesis
    proof (cases a)
      case None
      then show ?thesis using assms k Pair by (auto simp: idl_out_table_def z_def malloc_def Let_def split: if_splits)
    next
      case (Some rows)
      then have m: "rows \<noteq> 0" "h_live h1 = blocks [] @ rows # h_live h" using Pair by (auto simp: malloc_def blocks_def Let_def split: if_splits)
      obtain q h2 where q: "table_rows ok txt rows (map (\<lambda>i. lst (l_data L ! i)) [0..<nat k]) [] h1 = (q, h2)" by fastforce
      have e: "h' = h2" "r = (case q of Inl x \<Rightarrow> Inl x | Inr ts \<Rightarrow> Inr (rows, ts))"
        using assms k Pair Some q by (auto simp: idl_out_table_def z_def Let_def split: sum.splits if_splits)
      from table_rows_live [OF q m(2,1)]
      have live: "q = Inl Oom \<longrightarrow> h_live h2 = h_live h" "\<And>ts. q = Inr ts \<Longrightarrow> h_live h2 = blocks (rev ts) @ rows # h_live h" by blast+
      have bl: "mset (blocks (rev ts)) = mset (blocks ts)" for ts by (simp add: blocks_def rev_map [symmetric] rev_filter [symmetric])
      show ?thesis using e live m(1)
        by (auto simp: idl_table_free_def idl_free_def free_rows_mset bl split: sum.splits)
    qed
  qed
qed

section \<open>Concrete runs\<close>

definition all_ok :: "nat \<Rightarrow> nat \<Rightarrow> bool" where "all_ok k n = True"

definition row_list :: "w64 list \<Rightarrow> idlist" where
  "row_list cs = \<lparr>l_len = int (length cs), l_cap = 4, l_inl = take 4 (cs @ [0, 0, 0, 0]), l_out = None\<rparr>"


theorem idl_strs_make_layout_witness:
  "\<exists>t h'. idl_strs_make all_ok (\<lambda>v. if v = 8 then ''ab'' else ''xyz'') (Some (row_list [8, 16])) \<lparr>h_made = 0, h_live = []\<rparr> = (Inr (Some t), h')
     \<and> text_at t 0 = ''ab'' \<and> text_at t 1 = ''xyz'' \<and> length (x_bytes t) = 39"
proof -
  let ?L = "row_list [8, 16]" and ?txt = "\<lambda>v :: w64. if v = 8 then ''ab'' else ''xyz''"
  have a: "list_inv ?L" "list_abs ?L = [8, 16]" "l_len ?L \<noteq> 0"
    by (simp_all add: row_list_def list_inv_def list_ok_def list_abs_def l_data_def INT_MAX_def)
  from idl_strs_make_layout [of ?L "[''ab'', ''xyz'']" ?txt all_ok "\<lparr>h_made = 0, h_live = []\<rparr>"] a
  show ?thesis by (auto simp: INT_MAX_def all_ok_def span_def All_less_Suc)
qed

theorem idl_out_table_gives_back_witness:
  "h_live (snd (idl_out_table (\<lambda>k n. k \<noteq> 3) (\<lambda>v. ''ab'') (\<lambda>v. Some (row_list [8])) (Some (row_list [1, 2])) \<lparr>h_made = 0, h_live = []\<rparr>)) = []"
proof -
  let ?ok = "\<lambda>k n. k \<noteq> (3 :: nat)" and ?lst = "\<lambda>v :: w64. Some (row_list [8])" and ?h = "\<lparr>h_made = 0, h_live = []\<rparr>"
  have "fst (idl_out_table ?ok (\<lambda>v. ''ab'') ?lst (Some (row_list [1, 2])) ?h) = Inl Oom"
    by (simp add: idl_out_table_def id_list_len_def with_list_def row_list_def malloc_def Let_def upt_conv_Cons l_data_def
        idl_strs_make_def id_slen_def)
  then obtain h' where r: "idl_out_table ?ok (\<lambda>v. ''ab'') ?lst (Some (row_list [1, 2])) ?h = (Inl Oom, h')" by (metis prod.collapse)
  from idl_out_table_gives_back [OF r] r show ?thesis by simp
qed

end
