(* ===== verification/Teardown.thy ===== *)
theory Teardown
  imports Prelude
begin

text \<open>
  The test harness's cleanup (\<open>src/interop/idtc_teardown.c\<close>): joining a path in a buffer of
  fixed size, reading a child's stderr into a buffer of 4096 bytes, and removing a directory
  tree. The kernel is a parameter: what each system call answers.
\<close>

section \<open>Names and paths\<close>

definition c_at :: "string \<Rightarrow> nat \<Rightarrow> char" where
  "c_at s i = (if i < length s then s ! i else CHR 0x00)"

definition idtc_dots :: "string \<Rightarrow> bool" where
  "idtc_dots s \<longleftrightarrow> c_at s 0 = CHR ''.'' \<and> (c_at s 1 = CHR 0x00 \<or> (c_at s 1 = CHR ''.'' \<and> c_at s 2 = CHR 0x00))"

fun join_loop :: "nat \<Rightarrow> string \<Rightarrow> string \<Rightarrow> string" where
  "join_loop cap [] out = out"
| "join_loop cap (c # cs) out = (if length out + 1 < cap then join_loop cap cs (out @ [c]) else out)"

definition idtc_join :: "nat \<Rightarrow> string \<Rightarrow> string \<Rightarrow> string \<times> nat" where
  "idtc_join cap dir name =
     (let o1 = join_loop cap dir []; o2 = (if length o1 + 1 < cap then o1 @ [CHR ''/''] else o1); o3 = join_loop cap name o2
      in (o3, length o3))"

section \<open>Reading the child's stderr\<close>

text \<open>
  One round of the loop: what \<open>ppoll\<close> answered and, when it found the descriptor ready, what
  \<open>read\<close> answered; \<open>Idle gone\<close> is a timeout with \<open>waitid\<close> saying whether the child has ended.
\<close>

datatype pull_event = Poll_again | Poll_error | Idle bool | Read_again | Read_end | Got string

text \<open>
  \<open>msg\<close> is the text so far, its length \<open>used\<close>; \<open>4095 - used\<close> is a \<open>size_t\<close>. A run whose
  events end before the loop does has not returned.
\<close>

fun idtc_pull :: "pull_event list \<Rightarrow> string \<Rightarrow> int \<Rightarrow> (string \<times> nat) option" where
  "idtc_pull [] msg pid = None"
| "idtc_pull (Poll_again # es) msg pid = idtc_pull es msg pid"
| "idtc_pull (Poll_error # es) msg pid = Some (msg, length msg)"
| "idtc_pull (Idle gone # es) msg pid = (if pid \<le> 0 \<or> gone then Some (msg, length msg) else idtc_pull es msg pid)"
| "idtc_pull (Read_again # es) msg pid = idtc_pull es msg pid"
| "idtc_pull (Read_end # es) msg pid = Some (msg, length msg)"
| "idtc_pull (Got chunk # es) msg pid =
     (let spare = nat ((4095 - int (length msg)) mod 2 ^ 64); r = (if length chunk > spare then spare else length chunk)
      in idtc_pull es (msg @ take r chunk) pid)"

section \<open>Removing a tree\<close>

text \<open>
  The kernel over a state \<open>'s\<close>: \<open>k_dents\<close> gives the next batch of names and an empty one at
  the end; \<open>k_unlink\<close> says whether it removed the file.
\<close>

record 's kernel =
  k_chmod :: "string \<Rightarrow> 's \<Rightarrow> 's"
  k_open :: "string \<Rightarrow> 's \<Rightarrow> int \<times> 's"
  k_dents :: "int \<Rightarrow> 's \<Rightarrow> string list \<times> 's"
  k_close :: "int \<Rightarrow> 's \<Rightarrow> 's"
  k_unlink :: "string \<Rightarrow> 's \<Rightarrow> bool \<times> 's"
  k_rmdir :: "string \<Rightarrow> 's \<Rightarrow> 's"

text \<open>\<open>fuel\<close> bounds the directory depth and the batches of each directory; \<open>None\<close> is a run that is not over.\<close>

function idtc_rmtree :: "nat \<Rightarrow> 's kernel \<Rightarrow> string \<Rightarrow> 's \<Rightarrow> 's option"
  and rm_batches :: "nat \<Rightarrow> 's kernel \<Rightarrow> string \<Rightarrow> int \<Rightarrow> 's \<Rightarrow> 's option"
  and rm_names :: "nat \<Rightarrow> 's kernel \<Rightarrow> string \<Rightarrow> string list \<Rightarrow> 's \<Rightarrow> 's option" where
  "idtc_rmtree fuel k dir s =
     (case fuel of 0 \<Rightarrow> None
      | Suc f \<Rightarrow>
          (case k_open k dir (k_chmod k dir s) of (fd, s) \<Rightarrow>
             map_option (k_rmdir k dir) (if fd \<ge> 0 then map_option (k_close k fd) (rm_batches f k dir fd s) else Some s)))"
| "rm_batches fuel k dir fd s =
     (case k_dents k fd s of (ns, s) \<Rightarrow>
        if ns = [] then Some s
        else case fuel of 0 \<Rightarrow> None | Suc f \<Rightarrow> Option.bind (rm_names f k dir ns s) (rm_batches f k dir fd))"
| "rm_names fuel k dir ns s =
     (case ns of [] \<Rightarrow> Some s
      | n # ns \<Rightarrow>
          if idtc_dots n then rm_names fuel k dir ns s
          else
            let sub = fst (idtc_join 4096 dir n)
            in case k_unlink k sub s of (done, s) \<Rightarrow>
                 if done then rm_names fuel k dir ns s
                 else Option.bind (idtc_rmtree fuel k sub s) (rm_names fuel k dir ns))"
  by pat_completeness auto
termination
  by (relation "measures [\<lambda>x. case x of Inl (f, _) \<Rightarrow> f | Inr (Inl (f, _)) \<Rightarrow> f | Inr (Inr (f, _)) \<Rightarrow> f,
      \<lambda>x. case x of Inl _ \<Rightarrow> 0 | Inr (Inl _) \<Rightarrow> 1 | Inr (Inr (f, k, dir, ns, s)) \<Rightarrow> length ns + 1]") auto

declare idtc_rmtree.simps [simp del] rm_batches.simps [simp del] rm_names.simps [simp del]

section \<open>Properties\<close>

lemma join_loop_text: "length out < cap \<Longrightarrow> join_loop cap cs out = out @ take (cap - 1 - length out) cs"
proof (induction cs arbitrary: out)
  case Nil
  then show ?case by simp
next
  case (Cons c cs)
  show ?case
  proof (cases "length out + 1 < cap")
    case True
    then obtain k where "cap - 1 - length out = Suc k" by (metis Suc_diff_Suc Suc_eq_plus1 diff_diff_left less_diff_conv plus_1_eq_Suc)
    moreover have "cap - 1 - length (out @ [c]) = k" using calculation by simp
    ultimately show ?thesis using True Cons.IH [of "out @ [c]"] by simp
  next
    case False
    then have "cap - 1 - length out = 0" by simp
    then show ?thesis using False by simp
  qed
qed

theorem idtc_join_text:
  assumes "0 < cap"
  shows "idtc_join cap dir name = (take (cap - 1) (dir @ CHR ''/'' # name), min (cap - 1) (length dir + 1 + length name))"
proof -
  have 1: "join_loop cap dir [] = take (cap - 1) dir" using join_loop_text [of "[]" cap dir] assms by simp
  show ?thesis
  proof (cases "length dir < cap - 1")
    case True
    then have "cap = length dir + 2 + (cap - length dir - 2)" by simp
    then obtain k where k: "cap = length dir + 2 + k" by blast
    have "length (dir @ ''/'') < cap" using k by simp
    from join_loop_text [OF this, of name] 1 show ?thesis by (simp add: idtc_join_def Let_def k)
  next
    case False
    then have "length (take (cap - 1) dir) < cap" "\<not> Suc (cap - Suc 0) < cap" using assms by simp_all
    from join_loop_text [OF this(1), of name] this(2) False 1 show ?thesis by (simp add: idtc_join_def Let_def)
  qed
qed

text \<open>A path that fills the buffer is its own entry: the removal of a tree that deep goes round.\<close>

lemma idtc_join_full: "length dir = 4095 \<Longrightarrow> fst (idtc_join 4096 dir name) = dir"
  by (simp add: idtc_join_text)

fun pulled :: "pull_event list \<Rightarrow> string" where
  "pulled [] = []"
| "pulled (Got chunk # es) = chunk @ pulled es"
| "pulled (e # es) = pulled es"

fun pull_stops :: "int \<Rightarrow> pull_event \<Rightarrow> bool" where
  "pull_stops pid (Idle gone) \<longleftrightarrow> pid \<le> 0 \<or> gone"
| "pull_stops pid e \<longleftrightarrow> e = Poll_error \<or> e = Read_end"

theorem idtc_pull_text:
  assumes "length msg \<le> 4095" "\<forall>e \<in> set es. \<not> pull_stops pid e" "pull_stops pid e"
  shows "idtc_pull (es @ e # rest) msg pid = Some (take 4095 (msg @ pulled es), min 4095 (length (msg @ pulled es)))"
  using assms(1,2)
proof (induction es arbitrary: msg)
  case Nil
  then show ?case using assms(3) by (cases e) auto
next
  case (Cons x es)
  show ?case
  proof (cases x)
    case (Got chunk)
    have s: "nat ((4095 - int (length msg)) mod 2 ^ 64) = 4095 - length msg" using Cons.prems(1) by simp
    let ?r = "if length chunk > 4095 - length msg then 4095 - length msg else length chunk"
    have t: "take ?r chunk = take (4095 - length msg) chunk" by simp
    have l: "length (msg @ take ?r chunk) \<le> 4095" using Cons.prems(1) by (cases "4095 - length msg < length chunk") auto
    have "idtc_pull ((x # es) @ e # rest) msg pid = idtc_pull (es @ e # rest) (msg @ take ?r chunk) pid"
      by (simp only: append_Cons Got idtc_pull.simps s Let_def)
    also have "\<dots> = Some (take 4095 ((msg @ take ?r chunk) @ pulled es), min 4095 (length ((msg @ take ?r chunk) @ pulled es)))"
      using Cons.prems(2) by (intro Cons.IH l) simp
    also have "take 4095 ((msg @ take ?r chunk) @ pulled es) = take 4095 (msg @ pulled (x # es))"
      using Cons.prems(1) by (auto simp: Got)
    also have "min 4095 (length ((msg @ take ?r chunk) @ pulled es)) = min 4095 (length (msg @ pulled (x # es)))"
      using Cons.prems(1) by (auto simp: Got)
    finally show ?thesis .
  qed (use Cons in auto)
qed

theorem idtc_join_text_witness: "idtc_join 6 ''ab'' ''cdef'' = (''ab/cd'', 5)"
  using idtc_join_text [of 6 "''ab''" "''cdef''"] by simp

theorem idtc_pull_text_witness:
  "idtc_pull ([Got ''ab'', Poll_again, Idle False, Got ''c''] @ [Idle True]) [] 7 = Some (''abc'', 3)"
  using idtc_pull_text [of "[]" "[Got ''ab'', Poll_again, Idle False, Got ''c'']" 7 "Idle True" "[]"] by simp

end
