(* ===== verification/Digest.thy ===== *)
theory Digest
  imports Canon ListLib
begin

text \<open>
  The digest of a program (the \<open>dg_\<close> functions of \<open>idparse.c\<close>). The test cache keeps the result
  of a case under a key that must change whenever anything the case can reach changes, and that
  is marked when something it reaches depends on files. The program is a graph of functions,
  one node for all asm functions, and the tables of constants; its strongly connected
  components are found in one depth-first pass, and each gets a hash of its members and of the
  components below it. \<open>rc_\<close> answers which function reaches which over the same edges.
\<close>

section \<open>Hashing\<close>

function fnv_loop :: "w64 \<Rightarrow> string \<Rightarrow> int \<Rightarrow> w64" where
  "fnv_loop h s i =
     (if code_at s i \<ge> 0 then fnv_loop ((h XOR word_of_int (code_at s i)) * 1099511628211) s (i + 1) else h)"
  by pat_completeness auto
termination by (relation "measure (\<lambda>(h, s, i). nat (int (length s) - i))") (auto simp: code_at_nonneg)

declare fnv_loop.simps [simp del]

definition id_dg_fnv :: "w64 \<Rightarrow> string \<Rightarrow> w64" where
  "id_dg_fnv h s = fnv_loop h s 0"

definition id_dg_mix :: "w64 \<Rightarrow> w64 \<Rightarrow> w64 res" where
  "id_dg_mix a b =
     (let x = (a * 6364136223846793005) XOR b
      in andThen (id_ushr x 31) (\<lambda>y.
         let x = (x XOR y) * 1099511628211 in andThen (id_ushr x 29) (\<lambda>y. Inr (x XOR y))))"

text \<open>
  What the parser leaves behind: the nodes, the tokens, the functions with their token spans,
  the constants, the exported variables with their owners, asm functions and structs, and
  the test cases.
\<close>

record prog_tabs =
  q_nodes :: "node list"
  q_kind :: "string list"
  q_text :: "string list"
  q_prog :: "int list"
  q_ptoks :: "int list"
  q_ptoke :: "int list"
  q_cdecl :: "int list"
  q_ctoks :: "int list"
  q_ctoke :: "int list"
  q_afname :: "string list"
  q_sdname :: "string list"
  q_sdfname :: "string list list"
  q_sdftype :: "string list list"
  q_enames :: "string list"
  q_eowners :: "string list"
  q_casefn :: "int list"
  q_casestart :: "int list"
  q_caseend :: "int list"
  q_stdunit :: "int list"
  q_exclunit :: "int list"

definition id_dg_tok1 :: "prog_tabs \<Rightarrow> w64 \<Rightarrow> int \<Rightarrow> w64 res" where
  "id_dg_tok1 q h t =
     andThen (lget (q_kind q) t) (\<lambda>k.
     andThen (lget (q_text q) t) (\<lambda>x.
       Inr ((id_dg_fnv (id_dg_fnv h k) x XOR 31) * 1099511628211)))"

function for_res :: "int \<Rightarrow> int \<Rightarrow> (int \<Rightarrow> 's \<Rightarrow> 's res) \<Rightarrow> 's \<Rightarrow> 's res" where
  "for_res i n f s = (if i < n then andThen (f i s) (for_res (i + 1) n f) else Inr s)"
  by pat_completeness auto
termination by (relation "measure (\<lambda>(i, n, f, s). nat (n - i))") auto

function for_run :: "int \<Rightarrow> int \<Rightarrow> (int \<Rightarrow> 's \<Rightarrow> 's run) \<Rightarrow> 's \<Rightarrow> 's run" where
  "for_run i n f s = (if i < n then thenRun (f i s) (for_run (i + 1) n f) else Some (Inr s))"
  by pat_completeness auto
termination by (relation "measure (\<lambda>(i, n, f, s). nat (n - i))") auto

declare for_res.simps [simp del] for_run.simps [simp del]

definition id_dg_tokhash :: "prog_tabs \<Rightarrow> int \<Rightarrow> int \<Rightarrow> w64 res" where
  "id_dg_tokhash q lo hi = for_res lo hi (\<lambda>t h. id_dg_tok1 q h t) 0"

definition id_sd_key :: "prog_tabs \<Rightarrow> int \<Rightarrow> string res" where
  "id_sd_key q i =
     andThen (lget (q_sdfname q) i) (\<lambda>fs.
       for_res 0 (llen fs) (\<lambda>k s.
         andThen (lget fs k) (\<lambda>f.
         andThen (lget (q_sdftype q) i) (\<lambda>ts.
         andThen (lget ts k) (\<lambda>t.
           Inr (s @ id_sep_at '','' k @ f @ '':'' @ t))))) [])"

definition id_dg_structs :: "prog_tabs \<Rightarrow> w64 res" where
  "id_dg_structs q =
     for_res 0 (llen (q_sdname q)) (\<lambda>i h.
       andThen (lget (q_sdname q) i) (\<lambda>n. andThen (id_sd_key q i) (\<lambda>k. Inr (id_dg_fnv h (n @ ''|'' @ k))))) 0"

section \<open>The graph\<close>

text \<open>
  One row for each function, then one for asm, then one for each constant table. \<open>d_f\<close> finds
  the row of a function, \<open>d_e\<close> that of an exported name.
\<close>

record dg =
  d_own :: "w64 list"
  d_out :: "int list list"
  d_nat :: "int list"
  d_ix :: "int list"
  d_low :: "int list"
  d_on :: "int list"
  d_stk :: "int list"
  d_comp :: "int list"
  d_ctr :: "int list"
  d_deep :: "w64 list"
  d_dirty :: "int list"
  d_cout :: "int list list"
  d_f :: hmap
  d_e :: hmap

definition id_dg_init :: dg where
  "id_dg_init = \<lparr>d_own = [], d_out = [], d_nat = [], d_ix = [], d_low = [], d_on = [], d_stk = [], d_comp = [],
     d_ctr = [0, 0], d_deep = [], d_dirty = [], d_cout = [],
     d_f = id_hash_map_initialize no_slots, d_e = id_hash_map_initialize no_slots\<rparr>"

definition id_dg_add :: "w64 \<Rightarrow> int \<Rightarrow> dg \<Rightarrow> dg" where
  "id_dg_add own class s = s\<lparr>d_own := lpush (d_own s) own, d_out := lpush (d_out s) [], d_nat := lpush (d_nat s) class,
     d_ix := lpush (d_ix s) (- 1), d_low := lpush (d_low s) 0, d_on := lpush (d_on s) 0, d_comp := lpush (d_comp s) (- 1),
     d_cout := lpush (d_cout s) []\<rparr>"

definition cache_file_natives :: "string list" where
  "cache_file_natives = [''fs_open'', ''fs_close'', ''fs_error'', ''fs_read'', ''fs_read_mem'', ''fs_size'', ''fs_exists'',
     ''fs_mtime'', ''fs_list'', ''fs_drop_exit'']"

definition cache_taint_natives :: "string list" where
  "cache_taint_natives = [''fs_write'', ''fs_write_mem'', ''fs_flush'', ''fs_mkdir'', ''fs_remove'', ''fs_rename'', ''fs_chmod'',
     ''env_has'', ''env_get'', ''env_set'', ''env_error'']"

definition cache_volatile_builtins :: "string list" where
  "cache_volatile_builtins = [''ticks'', ''getkey'']"

text \<open>1: not tracked (no tokens, or native code), 2: a native that works on files or the environment.\<close>

definition id_dg_nat_class :: "prog_tabs \<Rightarrow> int \<Rightarrow> string \<Rightarrow> int res" where
  "id_dg_nat_class q f nm =
     (if f \<ge> llen (q_ptoke q) then Inr 1
      else
        andThen (lget (q_prog q) f) (\<lambda>p.
        andThen (id_is_native (q_nodes q) p) (\<lambda>b.
          if b then
            andThen (id_list_string_index cache_file_natives nm) (\<lambda>i.
              if i \<ge> 0 then Inr 2
              else andThen (id_list_string_index cache_taint_natives nm) (\<lambda>j. Inr (if j \<ge> 0 then 2 else 1)))
          else Inr 0)))"

definition id_dg_own_of :: "prog_tabs \<Rightarrow> int \<Rightarrow> string \<Rightarrow> w64 res" where
  "id_dg_own_of q f nm =
     andThen
       (if f < llen (q_ptoke q)
        then andThen (lget (q_ptoks q) f) (\<lambda>lo. andThen (lget (q_ptoke q) f) (\<lambda>hi. id_dg_tokhash q lo hi))
        else Inr (id_dg_fnv 0 nm)) (\<lambda>h.
       if llen (q_sdname q) > 0 then andThen (id_dg_structs q) (\<lambda>k. id_dg_mix h k) else Inr h)"

definition id_dg_fill_one :: "prog_tabs \<Rightarrow> int \<Rightarrow> dg \<Rightarrow> dg run" where
  "id_dg_fill_one q f s =
     thenRun (Some (andThen (lget (q_prog q) f) (lget (q_nodes q)))) (\<lambda>n.
     thenRun (id_hash_map_put (d_f s) (n_s1 n) f) (\<lambda>h.
     thenRun (Some (id_dg_own_of q f (n_s1 n))) (\<lambda>own.
     thenRun (Some (id_dg_nat_class q f (n_s1 n))) (\<lambda>c.
       Some (Inr (id_dg_add own c (s\<lparr>d_f := h\<rparr>)))))))"

definition id_dg_asm_names :: "prog_tabs \<Rightarrow> int \<Rightarrow> dg \<Rightarrow> dg run" where
  "id_dg_asm_names q r s =
     for_run 0 (llen (q_afname q)) (\<lambda>i s.
       thenRun (Some (lget (q_afname q) i)) (\<lambda>nm.
       thenRun (id_hash_map_put (d_f s) nm r) (\<lambda>h. Some (Inr (s\<lparr>d_f := h\<rparr>))))) s"

definition id_dg_asm_row :: "prog_tabs \<Rightarrow> dg \<Rightarrow> dg run" where
  "id_dg_asm_row q s = id_dg_asm_names q (llen (d_own s)) (id_dg_add 0 1 s)"

definition id_dg_const_row :: "prog_tabs \<Rightarrow> int \<Rightarrow> dg \<Rightarrow> dg run" where
  "id_dg_const_row q i s =
     thenRun (Some (andThen (lget (q_cdecl q) i) (lget (q_nodes q)))) (\<lambda>n.
     thenRun (Some (if i < llen (q_ctoke q)
        then andThen (lget (q_ctoks q) i) (\<lambda>lo. andThen (lget (q_ctoke q) i) (\<lambda>hi. andThen (id_dg_tokhash q lo hi) (\<lambda>h. Inr (h, 0))))
        else Inr (id_dg_fnv 0 (n_s2 n), 1))) (\<lambda>(own, c).
       let s1 = id_dg_add own c s
       in thenRun (id_hash_map_put (d_e s1) (n_s2 n) (llen (d_own s))) (\<lambda>h. Some (Inr (s1\<lparr>d_e := h\<rparr>)))))"

definition id_dg_const_rows :: "prog_tabs \<Rightarrow> dg \<Rightarrow> dg run" where
  "id_dg_const_rows q = for_run 0 (llen (q_cdecl q)) (id_dg_const_row q)"

text \<open>An exported name stands for its owner, when that is a function of the program.\<close>

definition id_dg_export_one :: "prog_tabs \<Rightarrow> int \<Rightarrow> dg \<Rightarrow> dg run" where
  "id_dg_export_one q i s =
     thenRun (Some (lget (q_eowners q) i)) (\<lambda>w.
     thenRun (id_hash_map_get (d_f s) w (- 1)) (\<lambda>r.
       if r \<ge> 0
       then thenRun (Some (lget (q_enames q) i)) (\<lambda>nm.
            thenRun (id_hash_map_put (d_e s) nm r) (\<lambda>h. Some (Inr (s\<lparr>d_e := h\<rparr>))))
       else Some (Inr s)))"

definition id_dg_exports :: "prog_tabs \<Rightarrow> dg \<Rightarrow> dg run" where
  "id_dg_exports q = for_run 0 (llen (q_enames q)) (id_dg_export_one q)"

text \<open>The row a node refers to, or -1.\<close>

definition id_dg_target :: "prog_tabs \<Rightarrow> int \<Rightarrow> dg \<Rightarrow> int run" where
  "id_dg_target q i s =
     thenRun (Some (lget (q_nodes q) i)) (\<lambda>n.
     thenRun (if n_kind n = ''call'' \<or> n_kind n = ''var'' then id_hash_map_get (d_f s) (n_s1 n) (- 1)
              else if n_kind n = ''import'' then id_hash_map_get (d_e s) (n_s1 n) (- 1)
              else Some (Inr (- 1))) (\<lambda>w.
       if w < 0 \<and> n_kind n = ''call''
       then thenRun (Some (id_list_string_index cache_volatile_builtins (n_s1 n))) (\<lambda>j.
              Some (Inr (if j \<ge> 0 then llen (q_prog q) else w)))
       else Some (Inr w)))"

definition id_dg_link :: "int \<Rightarrow> int \<Rightarrow> dg \<Rightarrow> dg res" where
  "id_dg_link f w s = andThen (lget (d_out s) f) (\<lambda>ws. andThen (lset (d_out s) f (lpush ws w)) (\<lambda>xs. Inr (s\<lparr>d_out := xs\<rparr>)))"

definition id_dg_clink :: "prog_tabs \<Rightarrow> int \<Rightarrow> int \<Rightarrow> int \<Rightarrow> dg \<Rightarrow> dg res" where
  "id_dg_clink q f w i s =
     andThen (lget (q_nodes q) i) (\<lambda>n.
       if n_kind n \<noteq> ''import''
       then andThen (lget (d_cout s) f) (\<lambda>ws. andThen (lset (d_cout s) f (lpush ws w)) (\<lambda>xs. Inr (s\<lparr>d_cout := xs\<rparr>)))
       else Inr s)"

definition id_dg_edge :: "prog_tabs \<Rightarrow> int \<Rightarrow> int \<Rightarrow> dg \<Rightarrow> dg run" where
  "id_dg_edge q f i s =
     thenRun (id_dg_target q i s) (\<lambda>w.
       if w \<ge> 0 then Some (andThen (id_dg_link f w s) (id_dg_clink q f w i)) else Some (Inr s))"

text \<open>The nodes of a function are those after the one before it, up to its own.\<close>

definition id_dg_edges :: "prog_tabs \<Rightarrow> int \<Rightarrow> int \<times> dg \<Rightarrow> (int \<times> dg) run" where
  "id_dg_edges q f ls =
     thenRun (Some (lget (q_prog q) f)) (\<lambda>hi.
     thenRun (for_run (fst ls) (hi + 1) (id_dg_edge q f) (snd ls)) (\<lambda>s.
       Some (Inr (if fst ls \<le> hi then hi + 1 else fst ls, s))))"

definition id_dg_const_edges_of :: "prog_tabs \<Rightarrow> int \<Rightarrow> int \<times> dg \<Rightarrow> (int \<times> dg) run" where
  "id_dg_const_edges_of q i ls =
     thenRun (Some (lget (q_cdecl q) i)) (\<lambda>hi.
     thenRun (Some (lget (q_nodes q) hi)) (\<lambda>n.
     thenRun (id_hash_map_get (d_e (snd ls)) (n_s2 n) (- 1)) (\<lambda>r.
     thenRun (for_run (fst ls) (hi + 1) (id_dg_edge q r) (snd ls)) (\<lambda>s.
       Some (Inr (if fst ls \<le> hi then hi + 1 else fst ls, s))))))"

definition id_dg_const_edges :: "prog_tabs \<Rightarrow> dg \<Rightarrow> (int \<times> dg) run" where
  "id_dg_const_edges q s = for_run 0 (llen (q_cdecl q)) (id_dg_const_edges_of q) (0, s)"

definition id_dg_edges_all :: "prog_tabs \<Rightarrow> dg \<Rightarrow> dg run" where
  "id_dg_edges_all q s =
     thenRun (id_dg_const_edges q s) (\<lambda>ls.
     thenRun (for_run 0 (llen (q_prog q)) (id_dg_edges q) ls) (\<lambda>ls. Some (Inr (snd ls))))"

section \<open>Strongly connected components\<close>

definition id_dg_lower :: "int \<Rightarrow> int \<Rightarrow> dg \<Rightarrow> dg res" where
  "id_dg_lower v l s =
     andThen (lget (d_low s) v) (\<lambda>x.
       if l < x then andThen (lset (d_low s) v l) (\<lambda>xs. Inr (s\<lparr>d_low := xs\<rparr>)) else Inr s)"

definition id_dg_own_comp :: "int \<Rightarrow> int \<Rightarrow> dg \<Rightarrow> dg res" where
  "id_dg_own_comp p c s =
     andThen (lget (d_stk s) p) (\<lambda>m.
     andThen (lset (d_comp s) m c) (\<lambda>cs.
     andThen (lset (d_on s) m 0) (\<lambda>os. Inr (s\<lparr>d_comp := cs, d_on := os\<rparr>))))"

function mark_loop :: "int \<Rightarrow> int \<Rightarrow> int \<Rightarrow> dg \<Rightarrow> (int \<times> dg) res" where
  "mark_loop v c p s =
     andThen (lget (d_stk s) p) (\<lambda>x.
       if x \<noteq> v \<and> p \<ge> 0 then andThen (id_dg_own_comp p c s) (mark_loop v c (p - 1))
       else Inr (p, s))"
  by pat_completeness auto
termination by (relation "measure (\<lambda>(v, c, p, s). nat (p + 1))") auto

declare mark_loop.simps [simp del]

definition id_dg_mark :: "int \<Rightarrow> int \<Rightarrow> dg \<Rightarrow> (int \<times> dg) res" where
  "id_dg_mark v c s =
     andThen (mark_loop v c (llen (d_stk s) - 1) s) (\<lambda>(p, s). andThen (id_dg_own_comp p c s) (\<lambda>s. Inr (p, s)))"

text \<open>
  Sealing a component: the two running sums of \<open>dgacc\<close> and the mark \<open>dgbad\<close>. Only components
  already sealed count, not the one being sealed.
\<close>

type_synonym seal = "w64 \<times> w64 \<times> int"

definition id_dg_seal_edge :: "dg \<Rightarrow> int \<Rightarrow> seal \<Rightarrow> seal res" where
  "id_dg_seal_edge s w acc =
     (case acc of (a, b, bad) \<Rightarrow>
        andThen (lget (d_comp s) w) (\<lambda>c.
          if c < 0 then Inr (a, b, 1)
          else if c < llen (d_deep s)
          then andThen (lget (d_deep s) c) (\<lambda>d. andThen (id_dg_mix d 13) (\<lambda>m.
               andThen (lget (d_dirty s) c) (\<lambda>z. Inr (a, b + m, bad OR z))))
          else Inr (a, b, bad)))"

definition id_dg_seal_out :: "dg \<Rightarrow> int \<Rightarrow> seal \<Rightarrow> seal res" where
  "id_dg_seal_out s m acc =
     andThen (lget (d_out s) m) (\<lambda>ws. for_res 0 (llen ws) (\<lambda>i acc. andThen (lget ws i) (\<lambda>w. id_dg_seal_edge s w acc)) acc)"

definition id_dg_seal_one :: "dg \<Rightarrow> int \<Rightarrow> seal \<Rightarrow> seal res" where
  "id_dg_seal_one s m acc =
     (case acc of (a, b, bad) \<Rightarrow>
        andThen (lget (d_own s) m) (\<lambda>own. andThen (id_dg_mix own 7) (\<lambda>x.
        andThen (lget (d_nat s) m) (\<lambda>z. id_dg_seal_out s m (a + x, b, bad OR z)))))"

definition id_dg_seal :: "int \<Rightarrow> dg \<Rightarrow> dg res" where
  "id_dg_seal p s =
     andThen (for_res p (llen (d_stk s)) (\<lambda>i acc. andThen (lget (d_stk s) i) (\<lambda>m. id_dg_seal_one s m acc)) (0, 0, 0)) (\<lambda>(a, b, bad).
     andThen (id_dg_mix a b) (\<lambda>d.
       Inr (s\<lparr>d_deep := lpush (d_deep s) d, d_dirty := lpush (d_dirty s) bad\<rparr>)))"

function pop_loop :: "int \<Rightarrow> int list \<Rightarrow> int list res" where
  "pop_loop p xs = (if llen xs > p then andThen (lpop xs) (\<lambda>(x, ys). pop_loop p ys) else Inr xs)"
  by pat_completeness auto
termination by (relation "measure (\<lambda>(p, xs). length xs)") (auto simp: lpop_def split: if_splits)

declare pop_loop.simps [simp del]

definition id_dg_pop :: "int \<Rightarrow> dg \<Rightarrow> dg res" where
  "id_dg_pop v s =
     andThen (lget (d_ctr s) 1) (\<lambda>c.
     andThen (lset (d_ctr s) 1 (c + 1)) (\<lambda>k.
     andThen (id_dg_mark v c (s\<lparr>d_ctr := k\<rparr>)) (\<lambda>(p, s).
     andThen (id_dg_seal p s) (\<lambda>s.
     andThen (pop_loop p (d_stk s)) (\<lambda>xs. Inr (s\<lparr>d_stk := xs\<rparr>))))))"

definition dg_enter :: "int \<Rightarrow> dg \<Rightarrow> dg res" where
  "dg_enter v s =
     andThen (lget (d_ctr s) 0) (\<lambda>c.
     andThen (lset (d_ix s) v c) (\<lambda>ixs.
     andThen (lset (d_low s) v c) (\<lambda>lows.
     andThen (lset (d_ctr s) 0 (c + 1)) (\<lambda>k.
     andThen (lset (d_on s) v 1) (\<lambda>os.
       Inr (s\<lparr>d_ix := ixs, d_low := lows, d_ctr := k, d_stk := lpush (d_stk s) v, d_on := os\<rparr>))))))"

text \<open>
  The search calls itself for every new node, so \<open>fuel\<close> bounds the depth of the calls. The
  successors of a node do not change while it runs: \<open>id_dg_succ\<close> walks the list.
\<close>

fun id_dg_visit :: "nat \<Rightarrow> int \<Rightarrow> dg \<Rightarrow> dg run"
  and id_dg_succ :: "nat \<Rightarrow> int \<Rightarrow> int list \<Rightarrow> dg \<Rightarrow> dg run" where
  "id_dg_visit 0 v s = None"
| "id_dg_visit (Suc fuel) v s =
     thenRun (Some (dg_enter v s)) (\<lambda>s.
     thenRun (Some (lget (d_out s) v)) (\<lambda>ws.
     thenRun (id_dg_succ fuel v ws s) (\<lambda>s.
     thenRun (Some (lget (d_low s) v)) (\<lambda>l.
     thenRun (Some (lget (d_ix s) v)) (\<lambda>i.
       if l = i then Some (id_dg_pop v s) else Some (Inr s))))))"
| "id_dg_succ fuel v [] s = Some (Inr s)"
| "id_dg_succ fuel v (w # ws) s =
     thenRun (Some (lget (d_ix s) w)) (\<lambda>i.
     thenRun (if i < 0
              then thenRun (id_dg_visit fuel w s) (\<lambda>s.
                   thenRun (Some (lget (d_low s) w)) (\<lambda>l. Some (id_dg_lower v l s)))
              else thenRun (Some (lget (d_on s) w)) (\<lambda>b.
                   if b = 1 then Some (id_dg_lower v i s) else Some (Inr s))) (\<lambda>s.
       id_dg_succ fuel v ws s))"

definition id_dg_try :: "nat \<Rightarrow> int \<Rightarrow> dg \<Rightarrow> dg run" where
  "id_dg_try fuel v s = thenRun (Some (lget (d_ix s) v)) (\<lambda>i. if i < 0 then id_dg_visit fuel v s else Some (Inr s))"

definition id_dg_scc_all :: "nat \<Rightarrow> dg \<Rightarrow> dg run" where
  "id_dg_scc_all fuel s = for_run 0 (llen (d_ix s)) (id_dg_try fuel) s"

text \<open>The depth of the search is at most the number of rows.\<close>

definition dg_graph :: "prog_tabs \<Rightarrow> dg run" where
  "dg_graph q =
     thenRun (for_run 0 (llen (q_prog q)) (id_dg_fill_one q) id_dg_init) (\<lambda>s.
     thenRun (id_dg_asm_row q s) (\<lambda>s.
     thenRun (id_dg_const_rows q s) (\<lambda>s.
     thenRun (id_dg_exports q s) (id_dg_edges_all q))))"

definition id_dg_build :: "prog_tabs \<Rightarrow> dg run" where
  "id_dg_build q = thenRun (dg_graph q) (\<lambda>s. id_dg_scc_all (length (d_ix s)) s)"

section \<open>The keys of the cases\<close>

definition id_dg_fn_named :: "dg \<Rightarrow> string \<Rightarrow> int run" where
  "id_dg_fn_named s nm = id_hash_map_get (d_f s) nm (- 1)"

definition id_dg_deep_fn :: "dg \<Rightarrow> int \<Rightarrow> w64 res" where
  "id_dg_deep_fn s f = andThen (lget (d_comp s) f) (lget (d_deep s))"

definition id_dg_case_ref :: "dg \<Rightarrow> string \<Rightarrow> w64 \<times> w64 \<Rightarrow> (w64 \<times> w64) run" where
  "id_dg_case_ref s nm acc =
     thenRun (id_dg_fn_named s nm) (\<lambda>g.
     thenRun (if g < 0 then id_hash_map_get (d_e s) nm g else Some (Inr g)) (\<lambda>g.
       if g \<ge> 0
       then Some (andThen (id_dg_deep_fn s g) (\<lambda>d. andThen (id_dg_mix (fst acc) d) (\<lambda>m.
                  andThen (lget (d_comp s) g) (\<lambda>c. andThen (lget (d_dirty s) c) (\<lambda>z. Inr (m, snd acc OR word_of_int z))))))
       else Some (Inr acc)))"

definition id_dg_case_tok :: "prog_tabs \<Rightarrow> dg \<Rightarrow> int \<Rightarrow> w64 \<times> w64 \<Rightarrow> (w64 \<times> w64) run" where
  "id_dg_case_tok q s t acc =
     thenRun (Some (id_dg_tok1 q (fst acc) t)) (\<lambda>h.
     thenRun (Some (lget (q_kind q) t)) (\<lambda>k.
       if k = ''ident''
       then thenRun (Some (lget (q_text q) t)) (\<lambda>x. id_dg_case_ref s x (h, snd acc))
       else Some (Inr (h, snd acc))))"

definition id_dg_case_hash :: "prog_tabs \<Rightarrow> dg \<Rightarrow> int \<Rightarrow> int \<Rightarrow> string run" where
  "id_dg_case_hash q s c f =
     thenRun (Some (andThen (id_dg_deep_fn s f) (\<lambda>d. id_dg_mix d 3))) (\<lambda>a.
     thenRun (Some (andThen (lget (d_comp s) f) (lget (d_dirty s)))) (\<lambda>z.
     thenRun (Some (lget (q_casestart q) c)) (\<lambda>lo.
     thenRun (Some (lget (q_caseend q) c)) (\<lambda>hi.
     thenRun (for_run lo hi (id_dg_case_tok q s) (a, word_of_int z)) (\<lambda>(a, b).
       Some (Inr (id_str_of_word a @ (if b AND 2 \<noteq> 0 then '' f'' else [])))))))) "

definition id_dg_case_fn :: "prog_tabs \<Rightarrow> dg \<Rightarrow> int \<Rightarrow> int run" where
  "id_dg_case_fn q s c =
     (if c < llen (q_caseend q)
      then thenRun (Some (andThen (lget (q_casefn q) c) (lget (q_nodes q)))) (\<lambda>n. id_dg_fn_named s (n_s1 n))
      else Some (Inr (- 1)))"

definition id_dg_case_word :: "prog_tabs \<Rightarrow> dg \<Rightarrow> int \<Rightarrow> string run" where
  "id_dg_case_word q s c =
     thenRun (id_dg_case_fn q s c) (\<lambda>f. if f \<ge> 0 then id_dg_case_hash q s c f else Some (Inr ''-''))"

definition id_unit_excluded :: "prog_tabs \<Rightarrow> int \<Rightarrow> bool res" where
  "id_unit_excluded q c =
     (if llen (q_exclunit q) > 0
      then andThen (lget (q_casefn q) c) (\<lambda>i. andThen (lget (q_nodes q) i) (\<lambda>n. id_list_find (q_exclunit q) (n_unit n)))
      else Inr False)"

definition id_case_is_std :: "prog_tabs \<Rightarrow> int \<Rightarrow> bool res" where
  "id_case_is_std q c =
     andThen (lget (q_stdunit q) 0) (\<lambda>boundary.
     andThen (if boundary \<ge> 0
              then andThen (lget (q_casefn q) c) (\<lambda>i. andThen (lget (q_nodes q) i) (\<lambda>n. Inr (n_unit n \<ge> boundary)))
              else Inr False) (\<lambda>b. if b then Inr True else id_unit_excluded q c))"

definition id_dg_case_key :: "prog_tabs \<Rightarrow> dg \<Rightarrow> int \<Rightarrow> string run" where
  "id_dg_case_key q s c =
     thenRun (Some (id_case_is_std q c)) (\<lambda>b. if b then Some (Inr ''std'') else id_dg_case_word q s c)"

text \<open>The lines printed, with the graph they leave behind.\<close>

definition id_dg_emit_key :: "prog_tabs \<Rightarrow> dg \<Rightarrow> int \<Rightarrow> string list \<Rightarrow> string list run" where
  "id_dg_emit_key q s c out =
     thenRun (id_dg_case_key q s c) (\<lambda>k. Some (Inr (out @ [''// idtc key '' @ int_text c @ '' '' @ k])))"

definition id_dg_emit_keys :: "prog_tabs \<Rightarrow> string list \<Rightarrow> (dg \<times> string list) run" where
  "id_dg_emit_keys q out =
     thenRun (id_dg_build q) (\<lambda>s.
     thenRun (for_run 0 (llen (q_casefn q)) (id_dg_emit_key q s) out) (\<lambda>out. Some (Inr (s, out))))"

text \<open>The graph of components the test driver is given.\<close>

definition id_dg_case_comp :: "prog_tabs \<Rightarrow> dg \<Rightarrow> int \<Rightarrow> int run" where
  "id_dg_case_comp q s c =
     thenRun (Some (andThen (lget (q_casefn q) c) (lget (q_nodes q)))) (\<lambda>n.
     thenRun (id_dg_fn_named s (n_s1 n)) (\<lambda>f. if f \<ge> 0 then Some (lget (d_comp s) f) else Some (Inr (- 1))))"

definition id_dg_case_comps :: "prog_tabs \<Rightarrow> dg \<Rightarrow> int list run" where
  "id_dg_case_comps q s =
     for_run 0 (llen (q_casefn q)) (\<lambda>i cs. thenRun (id_dg_case_comp q s i) (\<lambda>c. Some (Inr (lpush cs c)))) []"

definition id_dg_comp_edge :: "int \<Rightarrow> int \<Rightarrow> int list \<Rightarrow> int list" where
  "id_dg_comp_edge a b es = (if a \<noteq> b then lpush (lpush es a) b else es)"

definition id_dg_comp_edges_of :: "dg \<Rightarrow> int \<Rightarrow> int list \<Rightarrow> int list res" where
  "id_dg_comp_edges_of s f es =
     andThen (lget (d_cout s) f) (\<lambda>ws.
       for_res 0 (llen ws) (\<lambda>i es.
         andThen (lget (d_comp s) f) (\<lambda>a. andThen (lget ws i) (\<lambda>w. andThen (lget (d_comp s) w) (\<lambda>b. Inr (id_dg_comp_edge a b es))))) es)"

definition id_dg_comp_edges :: "dg \<Rightarrow> int list res" where
  "id_dg_comp_edges s = for_res 0 (llen (d_cout s)) (id_dg_comp_edges_of s) []"

section \<open>Who reaches whom\<close>

text \<open>The cache: one row of flags for each source asked for, found by its name.\<close>

record rcache =
  r_on :: "int list"
  r_map :: hmap
  r_sets :: "int list list"

definition id_rc_build :: rcache where
  "id_rc_build = \<lparr>r_on = [1], r_map = id_hash_map_initialize no_slots, r_sets = []\<rparr>"

definition id_rc_visit :: "int \<Rightarrow> int list \<times> int list \<Rightarrow> (int list \<times> int list) res" where
  "id_rc_visit w ft =
     (case ft of (fl, todo) \<Rightarrow>
        if w \<ge> 0
        then andThen (lget fl w) (\<lambda>x. if x = 0 then andThen (lset fl w 1) (\<lambda>fl. Inr (fl, lpush todo w)) else Inr (fl, todo))
        else Inr (fl, todo))"

definition id_rc_step :: "dg \<Rightarrow> int \<Rightarrow> int list \<times> int list \<Rightarrow> (int list \<times> int list) res" where
  "id_rc_step s r ft =
     andThen (lget (d_cout s) r) (\<lambda>ws. for_res 0 (llen ws) (\<lambda>i ft. andThen (lget ws i) (\<lambda>w. id_rc_visit w ft)) ft)"

partial_function (option) id_rc_walk :: "dg \<Rightarrow> int list \<times> int list \<Rightarrow> int list run" where
  "id_rc_walk s ft =
     (if llen (snd ft) > 0
      then thenRun (Some (lpop (snd ft))) (\<lambda>(r, todo). thenRun (Some (id_rc_step s r (fst ft, todo))) (id_rc_walk s))
      else Some (Inr (fst ft)))"

definition id_rc_flags :: "dg \<Rightarrow> string \<Rightarrow> int list run" where
  "id_rc_flags s src =
     thenRun (id_dg_fn_named s src) (\<lambda>v.
     thenRun (Some (id_rc_visit v (id_list_fill [] (llen (d_cout s)) 0, []))) (id_rc_walk s))"

definition id_rc_new :: "dg \<Rightarrow> string \<Rightarrow> rcache \<Rightarrow> (int \<times> rcache) run" where
  "id_rc_new s src r =
     thenRun (id_rc_flags s src) (\<lambda>fl.
     thenRun (id_hash_map_put (r_map r) src (llen (r_sets r))) (\<lambda>h.
       Some (Inr (llen (r_sets r), r\<lparr>r_sets := lpush (r_sets r) fl, r_map := h\<rparr>))))"

definition id_rc_of :: "dg \<Rightarrow> string \<Rightarrow> rcache \<Rightarrow> (int \<times> rcache) run" where
  "id_rc_of s src r =
     thenRun (id_hash_map_get (r_map r) src (- 1)) (\<lambda>i. if i < 0 then id_rc_new s src r else Some (Inr (i, r)))"

definition id_rc_has :: "dg \<Rightarrow> string \<Rightarrow> string \<Rightarrow> rcache \<Rightarrow> (bool \<times> rcache) run" where
  "id_rc_has s src dst r =
     thenRun (id_rc_of s src r) (\<lambda>(i, r).
     thenRun (id_dg_fn_named s dst) (\<lambda>w.
       if w \<ge> 0
       then thenRun (Some (andThen (lget (r_sets r) i) (\<lambda>fl. lget fl w))) (\<lambda>x. Some (Inr (x = 1, r)))
       else Some (Inr (False, r))))"

text \<open>\<open>id_rc_ready\<close> builds graph and cache on the first question.\<close>

definition id_rc_ready :: "prog_tabs \<Rightarrow> (dg \<times> rcache) option \<Rightarrow> (dg \<times> rcache) run" where
  "id_rc_ready q sr =
     (case sr of Some x \<Rightarrow> Some (Inr x) | None \<Rightarrow> thenRun (id_dg_build q) (\<lambda>s. Some (Inr (s, id_rc_build))))"

definition id_reaches :: "prog_tabs \<Rightarrow> string \<Rightarrow> string \<Rightarrow> (dg \<times> rcache) option \<Rightarrow> (bool \<times> dg \<times> rcache) run" where
  "id_reaches q src dst sr =
     thenRun (id_rc_ready q sr) (\<lambda>(s, r).
       if src = dst then Some (Inr (True, s, r))
       else thenRun (id_rc_has s src dst r) (\<lambda>(b, r). Some (Inr (b, s, r))))"

end
