(* ===== verification/DigestSpec.thy ===== *)
theory DigestSpec
  imports Digest
begin

text \<open>
  The components of the digest are the strongly connected components of the graph, numbered so
  that an edge never leads to a larger number, and what is sealed for a component is determined
  by its members and the components below. The search is Tarjan's, with its state in lists;
  the invariant keeps the grey nodes (those whose calls are open) as a ghost.
\<close>

section \<open>Nodes, edges and cells\<close>

definition node :: "int list list \<Rightarrow> int \<Rightarrow> bool" where
  "node g v \<longleftrightarrow> 0 \<le> v \<and> v < llen g"

definition edge :: "int list list \<Rightarrow> (int \<times> int) set" where
  "edge g = {(v, w). node g v \<and> w \<in> set (g ! nat v)}"

definition wf_graph :: "int list list \<Rightarrow> bool" where
  "wf_graph g \<longleftrightarrow> (\<forall>ws \<in> set g. \<forall>w \<in> set ws. node g w)"

definition reach :: "int list list \<Rightarrow> int \<Rightarrow> int \<Rightarrow> bool" where
  "reach g v w \<longleftrightarrow> (v, w) \<in> (edge g)\<^sup>*"

lemma reach_refl [simp]: "reach g v v"
  by (simp add: reach_def)

lemma reach_edge: "(v, w) \<in> edge g \<Longrightarrow> reach g v w"
  by (auto simp: reach_def)

lemma reach_trans: "reach g u v \<Longrightarrow> reach g v w \<Longrightarrow> reach g u w"
  by (auto simp: reach_def)

lemma edge_node: "wf_graph g \<Longrightarrow> (v, w) \<in> edge g \<Longrightarrow> node g v \<and> node g w"
  by (auto simp: wf_graph_def edge_def node_def llen_def)

text \<open>A set that edges do not leave.\<close>

lemma reach_closed: "reach g v w \<Longrightarrow> v \<in> S \<Longrightarrow> (\<And>x y. x \<in> S \<Longrightarrow> (x, y) \<in> edge g \<Longrightarrow> y \<in> S) \<Longrightarrow> w \<in> S"
  unfolding reach_def by (induction rule: rtrancl_induct) auto

abbreviation cell :: "'a list \<Rightarrow> int \<Rightarrow> 'a" where
  "cell xs v \<equiv> xs ! nat v"

lemma lget_cell: "0 \<le> v \<Longrightarrow> v < llen xs \<Longrightarrow> lget xs v = Inr (cell xs v)"
  by (rule lget_ok)

lemma cell_upd: "0 \<le> v \<Longrightarrow> 0 \<le> w \<Longrightarrow> w < llen xs \<Longrightarrow> cell (xs[nat v := x]) w = (if w = v then x else cell xs w)"
  by (auto simp: llen_def nth_list_update)

lemma for_res_list: "for_res (int k) (llen xs) (\<lambda>i a. andThen (lget xs i) (\<lambda>x. f x a)) a
    = fold (\<lambda>x r. andThen r (f x)) (drop k xs) (Inr a)"
proof (induction "length xs - k" arbitrary: k a)
  case 0
  then show ?case by (subst for_res.simps) (simp add: llen_def)
next
  case (Suc m)
  then have k: "k < length xs" by simp
  have d: "drop k xs = xs ! k # drop (Suc k) xs" using k by (simp add: Cons_nth_drop_Suc)
  have ih: "for_res (int (Suc k)) (llen xs) (\<lambda>i a. andThen (lget xs i) (\<lambda>x. f x a)) b
      = fold (\<lambda>x r. andThen r (f x)) (drop (Suc k) xs) (Inr b)" for b
    using Suc by (intro Suc(1)) simp
  have stop: "fold (\<lambda>x r. andThen r (f x)) ys (Inl t) = Inl t" for ys t by (induction ys) simp_all
  have "for_res (int k) (llen xs) (\<lambda>i a. andThen (lget xs i) (\<lambda>x. f x a)) a
      = andThen (f (xs ! k) a) (for_res (int (Suc k)) (llen xs) (\<lambda>i a. andThen (lget xs i) (\<lambda>x. f x a)))"
    using k by (subst for_res.simps) (simp add: llen_def add.commute)
  then show ?case using ih by (cases "f (xs ! k) a") (simp_all add: d stop)
qed

lemma fold_total:
  assumes "\<And>x a. x \<in> set xs \<Longrightarrow> f x a = Inr (h x a)"
  shows "fold (\<lambda>x r. andThen r (f x)) xs (Inr a) = Inr (fold h xs a)"
  using assms by (induction xs arbitrary: a) simp_all

definition mix_word :: "w64 \<Rightarrow> w64 \<Rightarrow> w64" where
  "mix_word a b = (case id_dg_mix a b of Inr x \<Rightarrow> x | Inl _ \<Rightarrow> 0)"

lemma mix_total: "id_dg_mix a b = Inr (mix_word a b)"
  by (simp add: mix_word_def id_dg_mix_def id_ushr_def Let_def)

section \<open>The invariant\<close>

definition shape :: "int list list \<Rightarrow> w64 list \<Rightarrow> int list \<Rightarrow> dg \<Rightarrow> bool" where
  "shape g own nt s \<longleftrightarrow> d_out s = g \<and> d_own s = own \<and> d_nat s = nt \<and> llen own = llen g \<and> llen nt = llen g
     \<and> llen (d_ix s) = llen g \<and> llen (d_low s) = llen g \<and> llen (d_on s) = llen g \<and> llen (d_comp s) = llen g
     \<and> length (d_ctr s) = 2 \<and> llen (d_dirty s) = llen (d_deep s)"

definition visited :: "dg \<Rightarrow> int \<Rightarrow> bool" where
  "visited s v \<longleftrightarrow> 0 \<le> cell (d_ix s) v"

definition comp_of :: "dg \<Rightarrow> int \<Rightarrow> int" where
  "comp_of s v = cell (d_comp s) v"

definition members :: "int list list \<Rightarrow> dg \<Rightarrow> int \<Rightarrow> int set" where
  "members g s k = {v. node g v \<and> comp_of s v = k}"

text \<open>What is sealed for component \<open>k\<close>: the hash of its members and of the edges to lower components, and the mark.\<close>

definition deep_ok :: "int list list \<Rightarrow> w64 list \<Rightarrow> dg \<Rightarrow> int \<Rightarrow> bool" where
  "deep_ok g own s k \<longleftrightarrow> cell (d_deep s) k
     = mix_word (\<Sum>v \<in> members g s k. mix_word (cell own v) 7)
         (\<Sum>v \<in> members g s k. \<Sum>w \<leftarrow> filter (\<lambda>w. comp_of s w < k) (cell g v). mix_word (cell (d_deep s) (comp_of s w)) 13)"

definition dirty_ok :: "int list list \<Rightarrow> int list \<Rightarrow> dg \<Rightarrow> int \<Rightarrow> bool" where
  "dirty_ok g nt s k \<longleftrightarrow> (\<forall>b. bit (cell (d_dirty s) k) b
     \<longleftrightarrow> (\<exists>v \<in> members g s k. bit (cell nt v) b
          \<or> (\<exists>w. (v, w) \<in> edge g \<and> comp_of s w < k \<and> bit (cell (d_dirty s) (comp_of s w)) b)))"

definition stack_ok :: "int list list \<Rightarrow> dg \<Rightarrow> bool" where
  "stack_ok g s \<longleftrightarrow> sorted_wrt (\<lambda>x y. cell (d_ix s) x < cell (d_ix s) y) (d_stk s)
     \<and> (\<forall>v \<in> set (d_stk s). node g v \<and> visited s v)
     \<and> (\<forall>v. node g v \<longrightarrow> cell (d_ix s) v < d_ctr s ! 0 \<and> 0 \<le> d_ctr s ! 0
          \<and> (visited s v \<longrightarrow> (v \<in> set (d_stk s) \<longleftrightarrow> comp_of s v < 0))
          \<and> cell (d_on s) v = (if v \<in> set (d_stk s) then 1 else 0))"

definition comps_ok :: "int list list \<Rightarrow> dg \<Rightarrow> bool" where
  "comps_ok g s \<longleftrightarrow> (\<forall>v. node g v \<and> 0 \<le> comp_of s v \<longrightarrow> comp_of s v < llen (d_deep s) \<and> visited s v
       \<and> (\<forall>w. (v, w) \<in> edge g \<longrightarrow> 0 \<le> comp_of s w \<and> comp_of s w \<le> comp_of s v)
       \<and> (\<forall>w. node g w \<and> comp_of s w = comp_of s v \<longrightarrow> reach g v w))"

definition grey_ok :: "int list list \<Rightarrow> int set \<Rightarrow> dg \<Rightarrow> bool" where
  "grey_ok g G s \<longleftrightarrow> G \<subseteq> set (d_stk s)
     \<and> (\<forall>v w. node g v \<and> visited s v \<and> v \<notin> G \<and> (v, w) \<in> edge g \<longrightarrow> visited s w)
     \<and> (\<forall>x \<in> set (d_stk s). \<exists>y \<in> G. cell (d_ix s) y \<le> cell (d_ix s) x \<and> reach g x y)
     \<and> (\<forall>y \<in> G. \<forall>x \<in> set (d_stk s). cell (d_ix s) y \<le> cell (d_ix s) x \<longrightarrow> reach g y x)"

definition sealed :: "int list list \<Rightarrow> w64 list \<Rightarrow> int list \<Rightarrow> dg \<Rightarrow> bool" where
  "sealed g own nt s \<longleftrightarrow> d_ctr s ! 1 = llen (d_deep s) \<and> (\<forall>k. 0 \<le> k \<and> k < llen (d_deep s) \<longrightarrow> deep_ok g own s k \<and> dirty_ok g nt s k)"

definition tinv :: "int list list \<Rightarrow> w64 list \<Rightarrow> int list \<Rightarrow> int set \<Rightarrow> dg \<Rightarrow> bool" where
  "tinv g own nt G s \<longleftrightarrow> shape g own nt s \<and> stack_ok g s \<and> comps_ok g s \<and> grey_ok g G s \<and> sealed g own nt s"

lemma stack_nodes: "stack_ok g s \<Longrightarrow> v \<in> set (d_stk s) \<Longrightarrow> node g v \<and> visited s v \<and> comp_of s v < 0"
  by (auto simp: stack_ok_def)

lemma stackD:
  assumes "stack_ok g s" "node g v"
  shows "cell (d_ix s) v < d_ctr s ! 0" "0 \<le> d_ctr s ! 0" "visited s v \<Longrightarrow> v \<in> set (d_stk s) \<longleftrightarrow> comp_of s v < 0"
    "cell (d_on s) v = (if v \<in> set (d_stk s) then 1 else 0)" "v \<in> set (d_stk s) \<Longrightarrow> visited s v"
  using assms unfolding stack_ok_def by blast+

lemma compsD:
  assumes "comps_ok g s" "node g v" "0 \<le> comp_of s v"
  shows "comp_of s v < llen (d_deep s)" "visited s v" "(v, w) \<in> edge g \<Longrightarrow> 0 \<le> comp_of s w" "(v, w) \<in> edge g \<Longrightarrow> comp_of s w \<le> comp_of s v"
    "node g w \<Longrightarrow> comp_of s w = comp_of s v \<Longrightarrow> reach g v w"
  using assms unfolding comps_ok_def by blast+

lemma greyD:
  assumes "grey_ok g G s"
  shows "G \<subseteq> set (d_stk s)" "node g v \<Longrightarrow> visited s v \<Longrightarrow> v \<notin> G \<Longrightarrow> (v, w) \<in> edge g \<Longrightarrow> visited s w"
    "x \<in> set (d_stk s) \<Longrightarrow> \<exists>y \<in> G. cell (d_ix s) y \<le> cell (d_ix s) x \<and> reach g x y"
    "y \<in> G \<Longrightarrow> x \<in> set (d_stk s) \<Longrightarrow> cell (d_ix s) y \<le> cell (d_ix s) x \<Longrightarrow> reach g y x"
  using assms unfolding grey_ok_def by blast+

lemma cells_ok:
  assumes "shape g own nt s" "node g v"
  shows "lget (d_ix s) v = Inr (cell (d_ix s) v)" "lget (d_low s) v = Inr (cell (d_low s) v)" "lget (d_on s) v = Inr (cell (d_on s) v)"
    "lget (d_comp s) v = Inr (comp_of s v)" "lget (d_out s) v = Inr (cell g v)" "lget (d_own s) v = Inr (cell own v)" "lget (d_nat s) v = Inr (cell nt v)"
    "lset (d_low s) v x = Inr ((d_low s)[nat v := x])" "lset (d_ix s) v x = Inr ((d_ix s)[nat v := x])"
    "lset (d_on s) v x = Inr ((d_on s)[nat v := x])" "lset (d_comp s) v x = Inr ((d_comp s)[nat v := x])"
  using assms by (simp_all add: shape_def node_def lget_ok lset_ok comp_of_def)

section \<open>Entering a node\<close>

lemma sealed_same:
  assumes "sealed g own nt s" "d_comp s' = d_comp s" "d_deep s' = d_deep s" "d_dirty s' = d_dirty s" "d_ctr s' ! 1 = d_ctr s ! 1"
  shows "sealed g own nt s'"
proof -
  have "comp_of s' = comp_of s" by (rule ext) (simp add: comp_of_def assms(2))
  then have "members g s' = members g s" by (simp add: members_def fun_eq_iff)
  then show ?thesis using assms(1) \<open>comp_of s' = comp_of s\<close> by (simp add: sealed_def deep_ok_def dirty_ok_def assms(3,4) assms(5) [simplified])
qed

lemma enter_ok:
  assumes "wf_graph g" "tinv g own nt G s" "node g v" "\<not> visited s v" "\<forall>y \<in> G. reach g y v"
  shows "\<exists>s'. dg_enter v s = Inr s' \<and> tinv g own nt (insert v G) s' \<and> d_stk s' = d_stk s @ [v]
    \<and> d_ix s' = (d_ix s)[nat v := d_ctr s ! 0] \<and> d_low s' = (d_low s)[nat v := d_ctr s ! 0]
    \<and> d_comp s' = d_comp s \<and> d_deep s' = d_deep s \<and> d_dirty s' = d_dirty s"
proof -
  let ?c = "d_ctr s ! 0"
  define s' where "s' = s\<lparr>d_ix := (d_ix s)[nat v := ?c], d_low := (d_low s)[nat v := ?c], d_ctr := (d_ctr s)[0 := ?c + 1],
     d_stk := lpush (d_stk s) v, d_on := (d_on s)[nat v := 1]\<rparr>"
  have sh: "shape g own nt s" and st: "stack_ok g s" and co: "comps_ok g s" and gr: "grey_ok g G s" and se: "sealed g own nt s"
    using assms(2) by (auto simp: tinv_def)
  have l: "length (d_ctr s) = 2" "llen (d_ix s) = llen g" "llen (d_on s) = llen g" using sh by (auto simp: shape_def)
  have "dg_enter v s = Inr s'"
    using cells_ok [OF sh assms(3)] l(1) lget_ok [of 0 "d_ctr s"] lset_ok [of 0 "d_ctr s" "?c + 1"]
    by (simp add: dg_enter_def s'_def llen_def)
  moreover have sh': "shape g own nt s'" using sh by (simp add: shape_def s'_def)
  have ix: "cell (d_ix s') w = (if w = v then ?c else cell (d_ix s) w)" "cell (d_on s') w = (if w = v then 1 else cell (d_on s) w)"
    if w: "node g w" for w
  proof -
    have b: "0 \<le> v" "0 \<le> w" "w < llen (d_ix s)" "w < llen (d_on s)" using w assms(3) l by (auto simp: node_def)
    have d: "d_ix s' = (d_ix s)[nat v := ?c]" "d_on s' = (d_on s)[nat v := 1]" by (simp_all add: s'_def)
    show "cell (d_ix s') w = (if w = v then ?c else cell (d_ix s) w)" unfolding d(1) by (rule cell_upd [OF b(1-3)])
    show "cell (d_on s') w = (if w = v then 1 else cell (d_on s) w)" unfolding d(2) by (rule cell_upd [OF b(1,2,4)])
  qed
  have c0: "0 \<le> ?c" using stackD(2) [OF st assms(3)] .
  have vis: "visited s' w \<longleftrightarrow> w = v \<or> visited s w" if "node g w" for w
    unfolding visited_def ix(1) [OF that] using c0 by simp
  have v: "v \<notin> set (d_stk s)" using stackD(5) [OF st assms(3)] assms(4) by blast
  have vc: "comp_of s v < 0" using compsD(2) [OF co assms(3)] assms(4) by fastforce
  have below: "cell (d_ix s) w < ?c" if "node g w" for w by (rule stackD(1) [OF st that])
  have stk: "d_stk s' = d_stk s @ [v]" and cmp: "comp_of s' = comp_of s" by (simp_all add: s'_def lpush_def comp_of_def fun_eq_iff)
  have ne: "w \<noteq> v" "node g w" if "w \<in> set (d_stk s)" for w using that v stack_nodes [OF st that] by auto
  have st': "stack_ok g s'"
    unfolding stack_ok_def
  proof (intro conjI ballI allI impI)
    have "sorted_wrt (\<lambda>x y. cell (d_ix s') x < cell (d_ix s') y) (d_stk s)"
    proof (rule sorted_wrt_mono_rel [rotated])
      show "sorted_wrt (\<lambda>x y. cell (d_ix s) x < cell (d_ix s) y) (d_stk s)" using st unfolding stack_ok_def by blast
    qed (simp add: ix(1) ne)
    then show "sorted_wrt (\<lambda>x y. cell (d_ix s') x < cell (d_ix s') y) (d_stk s')"
      using below ne ix(1) assms(3) by (simp only: stk sorted_wrt_append) simp
    show "node g w" "visited s' w" if "w \<in> set (d_stk s')" for w
      using that stack_nodes [OF st, of w] vis [of w] assms(3) by (auto simp: stk)
    fix w assume w: "node g w"
    have k: "d_ctr s' ! 0 = ?c + 1" using l(1) by (simp add: s'_def)
    show "cell (d_ix s') w < d_ctr s' ! 0" "0 \<le> d_ctr s' ! 0" using below [OF w] c0 k ix(1) [OF w] by (simp_all split: if_splits)
    show "cell (d_on s') w = (if w \<in> set (d_stk s') then 1 else 0)" using stackD(4) [OF st w] ix(2) [OF w] by (simp add: stk)
    show "w \<in> set (d_stk s') \<longleftrightarrow> comp_of s' w < 0" if "visited s' w"
      using that stackD(3) [OF st w] vis [OF w] vc by (auto simp: stk cmp)
  qed
  have co': "comps_ok g s'" unfolding comps_ok_def cmp
  proof (intro allI impI, elim conjE)
    fix x assume x: "node g x" "0 \<le> comp_of s x"
    show "comp_of s x < llen (d_deep s') \<and> visited s' x \<and> (\<forall>w. (x, w) \<in> edge g \<longrightarrow> 0 \<le> comp_of s w \<and> comp_of s w \<le> comp_of s x)
      \<and> (\<forall>w. node g w \<and> comp_of s w = comp_of s x \<longrightarrow> reach g x w)"
      using compsD [OF co x] vis [OF x(1)] by (simp add: s'_def)
  qed
  have gr': "grey_ok g (insert v G) s'"
    unfolding grey_ok_def
  proof (intro conjI allI ballI impI)
    show "insert v G \<subseteq> set (d_stk s')" using greyD(1) [OF gr] by (auto simp: stk)
    fix x w assume x: "node g x \<and> visited s' x \<and> x \<notin> insert v G \<and> (x, w) \<in> edge g"
    then have "visited s w" "node g w" using greyD(2) [OF gr, of x w] vis [of x] edge_node [OF assms(1)] by auto
    then show "visited s' w" by (simp add: vis)
  next
    fix x assume x: "x \<in> set (d_stk s')"
    show "\<exists>y \<in> insert v G. cell (d_ix s') y \<le> cell (d_ix s') x \<and> reach g x y"
    proof (cases "x = v")
      case False
      then have xs: "x \<in> set (d_stk s)" using x by (simp add: stk)
      obtain y where y: "y \<in> G" "cell (d_ix s) y \<le> cell (d_ix s) x" "reach g x y" using greyD(3) [OF gr xs] by blast
      have "y \<in> set (d_stk s)" using greyD(1) [OF gr] y(1) by blast
      then show ?thesis using y ne xs ix(1) by (intro bexI [of _ y]) simp_all
    qed auto
  next
    fix y x assume y: "y \<in> insert v G" and x: "x \<in> set (d_stk s')" and le: "cell (d_ix s') y \<le> cell (d_ix s') x"
    have yn: "y = v \<or> (y \<in> set (d_stk s) \<and> y \<in> G)" using y greyD(1) [OF gr] by blast
    show "reach g y x"
    proof (cases "x = v")
      case True
      then show ?thesis using y assms(5) by auto
    next
      case False
      then have xs: "x \<in> set (d_stk s)" using x by (simp add: stk)
      have "y \<noteq> v" using le below [of x] ne [OF xs] ix(1) [of x] ix(1) [OF assms(3)] by auto
      then have "y \<in> G" "y \<in> set (d_stk s)" using yn by auto
      then show ?thesis using le greyD(4) [OF gr, of y x] ne [OF xs] xs ne [of y] ix(1) [of x] ix(1) [of y] by simp
    qed
  qed
  have "sealed g own nt s'" using se by (rule sealed_same) (simp_all add: s'_def)
  then have "tinv g own nt (insert v G) s'" using sh' st' co' gr' by (simp add: tinv_def)
  ultimately show ?thesis by (intro exI [of _ s']) (simp add: s'_def lpush_def)
qed

section \<open>Lowering, marking and popping\<close>

lemma tinv_low:
  assumes "tinv g own nt G s" "llen xs = llen g"
  shows "tinv g own nt G (s\<lparr>d_low := xs\<rparr>)"
proof -
  let ?s = "s\<lparr>d_low := xs\<rparr>"
  have "visited ?s = visited s" "comp_of ?s = comp_of s" by (auto simp: visited_def comp_of_def fun_eq_iff)
  then have "stack_ok g ?s = stack_ok g s" "comps_ok g ?s = comps_ok g s" "grey_ok g G ?s = grey_ok g G s"
    unfolding stack_ok_def comps_ok_def grey_ok_def by simp_all
  moreover have "shape g own nt ?s" using assms by (simp add: tinv_def shape_def)
  moreover have "sealed g own nt ?s" by (rule sealed_same [of g own nt s]) (use assms(1) in \<open>simp_all add: tinv_def\<close>)
  ultimately show ?thesis using assms(1) by (simp add: tinv_def)
qed

lemma lower_ok:
  assumes "tinv g own nt G s" "node g v"
  shows "\<exists>xs. id_dg_lower v l s = Inr (s\<lparr>d_low := xs\<rparr>) \<and> tinv g own nt G (s\<lparr>d_low := xs\<rparr>)
    \<and> (\<forall>w. node g w \<longrightarrow> cell xs w = (if w = v then min l (cell (d_low s) v) else cell (d_low s) w))"
proof -
  have sh: "shape g own nt s" using assms(1) by (simp add: tinv_def)
  have n: "llen (d_low s) = llen g" using sh by (simp add: shape_def)
  show ?thesis
  proof (cases "l < cell (d_low s) v")
    case True
    have "cell ((d_low s)[nat v := l]) w = (if w = v then l else cell (d_low s) w)" if "node g w" for w
      using that assms(2) n by (intro cell_upd) (auto simp: node_def)
    then show ?thesis using cells_ok [OF sh assms(2)] True tinv_low [OF assms(1), of "(d_low s)[nat v := l]"] n
      by (intro exI [of _ "(d_low s)[nat v := l]"]) (simp add: id_dg_lower_def)
  next
    case False
    then show ?thesis using cells_ok [OF sh assms(2)] tinv_low [OF assms(1), of "d_low s"] n
      by (intro exI [of _ "d_low s"]) (simp add: id_dg_lower_def)
  qed
qed

text \<open>The members of the new component, as marked: nodes of the stack from \<open>v\<close> up.\<close>

definition marked :: "int list list \<Rightarrow> int set \<Rightarrow> int \<Rightarrow> dg \<Rightarrow> dg \<Rightarrow> bool" where
  "marked g X c s s' \<longleftrightarrow> (\<exists>cs os. s' = s\<lparr>d_comp := cs, d_on := os\<rparr> \<and> llen cs = llen g \<and> llen os = llen g
     \<and> (\<forall>w. node g w \<longrightarrow> cell cs w = (if w \<in> X then c else comp_of s w) \<and> cell os w = (if w \<in> X then 0 else cell (d_on s) w)))"

lemma own_comp_ok:
  assumes "shape g own nt s" "0 \<le> p" "p < llen (d_stk s)" "node g (cell (d_stk s) p)"
  shows "\<exists>s'. id_dg_own_comp p c s = Inr s' \<and> marked g {cell (d_stk s) p} c s s' \<and> shape g own nt s' \<and> d_stk s' = d_stk s"
proof -
  let ?m = "cell (d_stk s) p"
  let ?s = "s\<lparr>d_comp := (d_comp s)[nat ?m := c], d_on := (d_on s)[nat ?m := 0]\<rparr>"
  have n: "llen (d_comp s) = llen g" "llen (d_on s) = llen g" using assms(1) by (auto simp: shape_def)
  have "cell ((d_comp s)[nat ?m := c]) w = (if w = ?m then c else comp_of s w)" if "node g w" for w
    unfolding comp_of_def using that assms(4) n by (intro cell_upd) (auto simp: node_def)
  moreover have "cell ((d_on s)[nat ?m := 0]) w = (if w = ?m then 0 else cell (d_on s) w)" if "node g w" for w
    using that assms(4) n by (intro cell_upd) (auto simp: node_def)
  ultimately have "marked g {?m} c s ?s"
    unfolding marked_def using n by (intro exI [of _ "(d_comp s)[nat ?m := c]"] exI [of _ "(d_on s)[nat ?m := 0]"]) simp
  moreover have "id_dg_own_comp p c s = Inr ?s"
    using lget_ok [OF assms(2,3)] cells_ok(10,11) [OF assms(1,4)] by (simp add: id_dg_own_comp_def)
  moreover have "shape g own nt ?s" using assms(1) by (simp add: shape_def)
  ultimately show ?thesis by auto
qed

lemma marked_trans:
  assumes "marked g X c s s'" "marked g Y c s' s''"
  shows "marked g (X \<union> Y) c s s''"
proof -
  obtain cs os where 1: "s' = s\<lparr>d_comp := cs, d_on := os\<rparr>"
    "\<And>w. node g w \<Longrightarrow> cell cs w = (if w \<in> X then c else comp_of s w) \<and> cell os w = (if w \<in> X then 0 else cell (d_on s) w)"
    using assms(1) unfolding marked_def by blast
  obtain cs' os' where 2: "s'' = s'\<lparr>d_comp := cs', d_on := os'\<rparr>" "llen cs' = llen g" "llen os' = llen g"
    "\<And>w. node g w \<Longrightarrow> cell cs' w = (if w \<in> Y then c else comp_of s' w) \<and> cell os' w = (if w \<in> Y then 0 else cell (d_on s') w)"
    using assms(2) unfolding marked_def by blast
  have "comp_of s' w = cell cs w" "d_on s' = os" for w by (simp_all add: 1(1) comp_of_def)
  then show ?thesis using 1 2 unfolding marked_def by (intro exI [of _ cs'] exI [of _ os']) simp
qed

lemma marked_none: "shape g own nt s \<Longrightarrow> marked g {} c s s"
  unfolding marked_def by (intro exI [of _ "d_comp s"] exI [of _ "d_on s"]) (simp add: shape_def comp_of_def)

lemma mark_loop_ok:
  assumes "shape g own nt s" "d_stk s = S @ v # T @ U" "v \<notin> set T" "\<forall>w \<in> set T. node g w"
  shows "\<exists>s'. mark_loop v c (llen S + llen T) s = Inr (llen S, s') \<and> marked g (set T) c s s' \<and> shape g own nt s' \<and> d_stk s' = d_stk s"
  using assms
proof (induction T arbitrary: U s rule: rev_induct)
  case Nil
  have "lget (d_stk s) (llen S) = Inr v" using Nil(2) by (simp add: lget_def llen_def)
  then show ?case using Nil(1) marked_none [OF Nil(1), of c] by (subst mark_loop.simps) simp
next
  case (snoc t T)
  let ?p = "llen S + (llen T + 1)"
  have c: "cell (d_stk s) ?p = t" using snoc.prems(2) by (simp add: llen_def nth_append nat_add_distrib Suc_nat_eq_nat_zadd1)
  have l: "?p < llen (d_stk s)" "0 \<le> ?p" using snoc.prems(2) by (simp_all add: llen_def)
  obtain s1 where s1: "id_dg_own_comp ?p c s = Inr s1" "marked g {t} c s s1" "shape g own nt s1" "d_stk s1 = d_stk s"
    using own_comp_ok [OF snoc.prems(1) l(2,1), of c] snoc.prems(4) c by auto
  have "d_stk s1 = S @ v # T @ (t # U)" using s1(4) snoc.prems(2) by simp
  from snoc.IH [OF s1(3) this] obtain s' where s': "mark_loop v c (llen S + llen T) s1 = Inr (llen S, s')"
    "marked g (set T) c s1 s'" "shape g own nt s'" "d_stk s' = d_stk s1" using snoc.prems(3,4) by auto
  have "mark_loop v c ?p s = Inr (llen S, s')"
    using snoc.prems(3) lget_ok [OF l(2,1)] c s1(1) s'(1) l(2) by (subst mark_loop.simps) (simp add: algebra_simps)
  then show ?case using marked_trans [OF s1(2) s'(2)] s' s1(4) by (intro exI [of _ s']) (simp add: insert_commute)
qed

lemma mark_ok:
  assumes "shape g own nt s" "d_stk s = S @ v # T" "v \<notin> set T" "\<forall>w \<in> set (v # T). node g w"
  shows "\<exists>s'. id_dg_mark v c s = Inr (llen S, s') \<and> marked g (set (v # T)) c s s' \<and> shape g own nt s' \<and> d_stk s' = d_stk s"
proof -
  obtain s1 where s1: "mark_loop v c (llen S + llen T) s = Inr (llen S, s1)" "marked g (set T) c s s1" "shape g own nt s1" "d_stk s1 = d_stk s"
    using mark_loop_ok [of g own nt s S v T "[]" c] assms by auto
  have c: "cell (d_stk s1) (llen S) = v" "llen S < llen (d_stk s1)" using s1(4) assms(2) by (simp_all add: llen_def)
  obtain s' where s': "id_dg_own_comp (llen S) c s1 = Inr s'" "marked g {v} c s1 s'" "shape g own nt s'" "d_stk s' = d_stk s1"
    using own_comp_ok [OF s1(3) _ c(2), of c] assms(4) c(1) by auto
  have "llen (d_stk s) - 1 = llen S + llen T" using assms(2) by simp
  then show ?thesis using s1 s' marked_trans [OF s1(2) s'(2)] by (auto simp: id_dg_mark_def Un_commute)
qed

section \<open>Sealing a component\<close>

definition deep_of :: "dg \<Rightarrow> int \<Rightarrow> w64" where
  "deep_of s w = (if comp_of s w < llen (d_deep s) then mix_word (cell (d_deep s) (comp_of s w)) 13 else 0)"

definition dirty_of :: "dg \<Rightarrow> int \<Rightarrow> int" where
  "dirty_of s w = (if comp_of s w < llen (d_deep s) then cell (d_dirty s) (comp_of s w) else 0)"

definition add_edge :: "dg \<Rightarrow> int \<Rightarrow> seal \<Rightarrow> seal" where
  "add_edge s w acc = (case acc of (a, b, z) \<Rightarrow> (a, b + deep_of s w, z OR dirty_of s w))"

lemma seal_edge_ok:
  assumes "shape g own nt s" "node g w" "0 \<le> comp_of s w"
  shows "id_dg_seal_edge s w acc = Inr (add_edge s w acc)"
proof (cases "comp_of s w < llen (d_deep s)")
  case True
  moreover have "comp_of s w < llen (d_dirty s)" using True assms(1) by (simp add: shape_def)
  ultimately have "lget (d_deep s) (comp_of s w) = Inr (cell (d_deep s) (comp_of s w))"
    "lget (d_dirty s) (comp_of s w) = Inr (cell (d_dirty s) (comp_of s w))"
    using assms(3) by (auto intro: lget_ok)
  then show ?thesis using cells_ok(4) [OF assms(1,2)] True assms(3)
    by (cases acc) (simp add: id_dg_seal_edge_def add_edge_def deep_of_def dirty_of_def mix_total)
next
  case False
  then show ?thesis using cells_ok(4) [OF assms(1,2)] assms(3)
    by (cases acc) (simp add: id_dg_seal_edge_def add_edge_def deep_of_def dirty_of_def)
qed

lemma add_edges: "fold (add_edge s) ws (a, b, z) = (a, b + (\<Sum>w \<leftarrow> ws. deep_of s w), fold (\<lambda>w z. z OR dirty_of s w) ws z)"
  by (induction ws arbitrary: a b z) (simp_all add: add_edge_def add.assoc)

lemma bit_fold_or: "bit (fold (\<lambda>w z. z OR f w) ws z) b \<longleftrightarrow> bit z b \<or> (\<exists>w \<in> set ws. bit (f w) b)" for z :: int
  by (induction ws arbitrary: z) (auto simp: bit_or_iff)

lemma fold_each: "fold (\<lambda>v (a, b, z). (a + A v, b + B v, C v z)) vs (a, b, z)
    = (a + (\<Sum>v \<leftarrow> vs. A v), b + (\<Sum>v \<leftarrow> vs. B v), fold C vs z)"
  for a :: "'a :: comm_monoid_add" and b :: "'b :: comm_monoid_add"
  by (induction vs arbitrary: a b z) (simp_all add: add.assoc)

definition add_node :: "dg \<Rightarrow> int list list \<Rightarrow> w64 list \<Rightarrow> int list \<Rightarrow> int \<Rightarrow> seal \<Rightarrow> seal" where
  "add_node s g own nt v = (\<lambda>(a, b, z). (a + mix_word (cell own v) 7, b + (\<Sum>w \<leftarrow> cell g v. deep_of s w),
     fold (\<lambda>w z. z OR dirty_of s w) (cell g v) (z OR cell nt v)))"

lemma seal_one_ok:
  assumes "shape g own nt s" "node g v" "\<forall>w. (v, w) \<in> edge g \<longrightarrow> node g w \<and> 0 \<le> comp_of s w"
  shows "id_dg_seal_one s v acc = Inr (add_node s g own nt v acc)"
proof -
  have e: "node g w \<and> 0 \<le> comp_of s w" if "w \<in> set (cell g v)" for w
  proof -
    have "(v, w) \<in> edge g" using that assms(2) by (simp add: edge_def)
    then show ?thesis using assms(3) by blast
  qed
  have "id_dg_seal_out s v x = Inr (fold (add_edge s) (cell g v) x)" for x
    using cells_ok(5) [OF assms(1,2)] for_res_list [of 0 "cell g v" "id_dg_seal_edge s" x]
      fold_total [of "cell g v" "id_dg_seal_edge s" "add_edge s" x] seal_edge_ok [OF assms(1)] e
    by (simp add: id_dg_seal_out_def)
  then show ?thesis using cells_ok [OF assms(1,2)]
    by (cases acc) (simp add: id_dg_seal_one_def mix_total add_edges add_node_def)
qed

lemma seal_ok:
  assumes "shape g own nt s" "d_stk s = S @ Y" "distinct Y" "\<forall>v \<in> set Y. node g v"
    "\<forall>v \<in> set Y. \<forall>w. (v, w) \<in> edge g \<longrightarrow> node g w \<and> 0 \<le> comp_of s w"
  shows "\<exists>d z. id_dg_seal (llen S) s = Inr (s\<lparr>d_deep := d_deep s @ [d], d_dirty := d_dirty s @ [z]\<rparr>)
    \<and> d = mix_word (\<Sum>v \<in> set Y. mix_word (cell own v) 7) (\<Sum>v \<in> set Y. \<Sum>w \<leftarrow> cell g v. deep_of s w)
    \<and> (\<forall>b. bit z b \<longleftrightarrow> (\<exists>v \<in> set Y. bit (cell nt v) b \<or> (\<exists>w. (v, w) \<in> edge g \<and> bit (dirty_of s w) b)))"
proof -
  let ?f = "id_dg_seal_one s" and ?h = "add_node s g own nt"
  define z where "z = fold (\<lambda>v z. fold (\<lambda>w z. z OR dirty_of s w) (cell g v) (z OR cell nt v)) Y 0"
  have "for_res (llen S) (llen (d_stk s)) (\<lambda>i acc. andThen (lget (d_stk s) i) (\<lambda>m. ?f m acc)) (0, 0, 0) = Inr (fold ?h Y (0, 0, 0))"
    using for_res_list [of "length S" "d_stk s" ?f "(0, 0, 0)"] fold_total [of Y ?f ?h "(0, 0, 0)"] seal_one_ok [OF assms(1)] assms(4,5)
    by (simp add: llen_def assms(2))
  moreover have "fold ?h Y (0, 0, 0) = (\<Sum>v \<leftarrow> Y. mix_word (cell own v) 7, \<Sum>v \<leftarrow> Y. \<Sum>w \<leftarrow> cell g v. deep_of s w, z)"
    unfolding add_node_def z_def by (subst fold_each) simp
  ultimately have "id_dg_seal (llen S) s
      = Inr (s\<lparr>d_deep := d_deep s @ [mix_word (\<Sum>v \<leftarrow> Y. mix_word (cell own v) 7) (\<Sum>v \<leftarrow> Y. \<Sum>w \<leftarrow> cell g v. deep_of s w)], d_dirty := d_dirty s @ [z]\<rparr>)"
    by (simp add: id_dg_seal_def mix_total lpush_def)
  moreover have "bit (fold (\<lambda>v z. fold (\<lambda>w z. z OR dirty_of s w) (cell g v) (z OR cell nt v)) vs x) b
      \<longleftrightarrow> bit x b \<or> (\<exists>v \<in> set vs. bit (cell nt v) b \<or> (\<exists>w \<in> set (cell g v). bit (dirty_of s w) b))" for vs x b
    by (induction vs arbitrary: x) (auto simp: bit_fold_or bit_or_iff)
  then have "bit z b \<longleftrightarrow> (\<exists>v \<in> set Y. bit (cell nt v) b \<or> (\<exists>w \<in> set (cell g v). bit (dirty_of s w) b))" for b
    by (simp add: z_def)
  then have "bit z b \<longleftrightarrow> (\<exists>v \<in> set Y. bit (cell nt v) b \<or> (\<exists>w. (v, w) \<in> edge g \<and> bit (dirty_of s w) b))" for b
    using assms(4) by (auto simp: edge_def)
  ultimately show ?thesis using assms(3)
    by (intro exI [of _ "mix_word (\<Sum>v \<leftarrow> Y. mix_word (cell own v) 7) (\<Sum>v \<leftarrow> Y. \<Sum>w \<leftarrow> cell g v. deep_of s w)"] exI [of _ z])
      (simp add: sum_list_distinct_conv_sum_set)
qed

lemma pop_loop_ok: "pop_loop (llen S) (S @ Y) = Inr S"
proof (induction Y rule: rev_induct)
  case Nil
  then show ?case by (subst pop_loop.simps) simp
next
  case (snoc y Y)
  have "lpop (S @ Y @ [y]) = Inr (y, S @ Y)" by (simp add: lpop_def butlast_append)
  then show ?case using snoc by (subst pop_loop.simps) simp
qed

section \<open>A component comes off the stack\<close>

lemma stack_order:
  assumes "stack_ok g s" "d_stk s = S @ v # T"
  shows "distinct (S @ v # T)" "x \<in> set S \<Longrightarrow> y \<in> set (v # T) \<Longrightarrow> cell (d_ix s) x < cell (d_ix s) y"
    "y \<in> set (v # T) \<Longrightarrow> cell (d_ix s) v \<le> cell (d_ix s) y"
proof -
  have so: "sorted_wrt (\<lambda>x y. cell (d_ix s) x < cell (d_ix s) y) (S @ v # T)" using assms unfolding stack_ok_def by simp
  then have "sorted_wrt (<) (map (cell (d_ix s)) (S @ v # T))" by (simp only: sorted_wrt_map)
  then have "distinct (map (cell (d_ix s)) (S @ v # T))" by (simp only: strict_sorted_iff)
  then show "distinct (S @ v # T)" unfolding distinct_map by blast
  show "x \<in> set S \<Longrightarrow> y \<in> set (v # T) \<Longrightarrow> cell (d_ix s) x < cell (d_ix s) y" using so by (auto simp: sorted_wrt_append)
  show "y \<in> set (v # T) \<Longrightarrow> cell (d_ix s) v \<le> cell (d_ix s) y" using so by (auto simp: sorted_wrt_append)
qed

lemma sum_filtered: "(\<Sum>w \<leftarrow> ws. if P w then f w else 0) = (\<Sum>w \<leftarrow> filter P ws. f w)"
  for f :: "'a \<Rightarrow> 'b :: comm_monoid_add"
  by (induction ws) simp_all

text \<open>The nodes above \<open>v\<close> form a component when no edge leads below it.\<close>

lemma top_component:
  assumes "wf_graph g" "tinv g own nt (insert v G) s" "d_stk s = S @ v # T" "G \<subseteq> set S"
    "\<forall>w. (v, w) \<in> edge g \<longrightarrow> visited s w" "\<forall>y \<in> set (v # T). \<forall>z \<in> set S. (y, z) \<notin> edge g"
  shows "y \<in> set (v # T) \<Longrightarrow> (y, w) \<in> edge g \<Longrightarrow> visited s w \<and> (w \<in> set (v # T) \<or> 0 \<le> comp_of s w)"
    "y \<in> set (v # T) \<Longrightarrow> w \<in> set (v # T) \<Longrightarrow> reach g y w"
proof -
  have st: "stack_ok g s" and co: "comps_ok g s" and gr: "grey_ok g (insert v G) s" using assms(2) by (auto simp: tinv_def)
  note o = stack_order [OF st assms(3)]
  show out: "visited s w \<and> (w \<in> set (v # T) \<or> 0 \<le> comp_of s w)" if y: "y \<in> set (v # T)" and e: "(y, w) \<in> edge g" for y w
  proof -
    have n: "node g y" "node g w" "visited s y" using edge_node [OF assms(1) e] stack_nodes [OF st, of y] y assms(3) by auto
    have "y \<noteq> v \<Longrightarrow> y \<notin> insert v G" using o(1) y assms(4) by auto
    then have vis: "visited s w" using assms(5) e greyD(2) [OF gr n(1,3) _ e] by blast
    have "w \<notin> set S" using assms(6) y e by blast
    then show ?thesis using vis stackD(3) [OF st n(2) vis] assms(3) by auto
  qed
  have up: "reach g y v" if y: "y \<in> set (v # T)" for y
  proof -
    obtain x where x: "x \<in> insert v G" "reach g y x" using greyD(3) [OF gr, of y] y assms(3) by auto
    let ?Z = "set (v # T) \<union> {u. node g u \<and> 0 \<le> comp_of s u}"
    have "x \<in> ?Z"
    proof (rule reach_closed [OF x(2)])
      show "y \<in> ?Z" using y by blast
      fix a b assume a: "a \<in> ?Z" and ab: "(a, b) \<in> edge g"
      have "node g b" using edge_node [OF assms(1) ab] by blast
      then show "b \<in> ?Z" using a out [OF _ ab] compsD(3) [OF co _ _ ab] by blast
    qed
    moreover have "\<not> (x \<in> G \<and> x \<in> ?Z)" using assms(4) o(1) stack_nodes [OF st, of x] assms(3) by auto
    ultimately show ?thesis using x by blast
  qed
  show "reach g y w" if "y \<in> set (v # T)" "w \<in> set (v # T)"
    using reach_trans [OF up [OF that(1)] greyD(4) [OF gr, of v w]] o(3) [OF that(2)] that(2) assms(3) by auto
qed

lemma pop_ok:
  assumes "wf_graph g" "tinv g own nt (insert v G) s" "d_stk s = S @ v # T" "G \<subseteq> set S"
    "\<forall>w. (v, w) \<in> edge g \<longrightarrow> visited s w" "\<forall>y \<in> set (v # T). \<forall>z \<in> set S. (y, z) \<notin> edge g"
  shows "\<exists>s'. id_dg_pop v s = Inr s' \<and> tinv g own nt G s' \<and> d_stk s' = S \<and> d_ix s' = d_ix s \<and> d_low s' = d_low s
    \<and> (\<forall>u. node g u \<and> 0 \<le> comp_of s u \<longrightarrow> comp_of s' u = comp_of s u)"
proof -
  let ?X = "set (v # T)" and ?k = "llen (d_deep s)"
  have sh: "shape g own nt s" and st: "stack_ok g s" and co: "comps_ok g s" and gr: "grey_ok g (insert v G) s" and se: "sealed g own nt s"
    using assms(2) by (auto simp: tinv_def)
  note o = stack_order [OF st assms(3)] and top = top_component [OF assms]
  have X: "node g x \<and> visited s x \<and> comp_of s x < 0 \<and> x \<in> set (d_stk s)" if "x \<in> ?X" for x
    using stack_nodes [OF st, of x] that assms(3) by auto
  have c1: "d_ctr s ! 1 = ?k" "length (d_ctr s) = 2" using se sh by (simp_all add: sealed_def shape_def)
  define s1 where "s1 = s\<lparr>d_ctr := (d_ctr s)[1 := ?k + 1]\<rparr>"
  have s1: "shape g own nt s1" "d_stk s1 = S @ v # T" "comp_of s1 = comp_of s" "d_on s1 = d_on s"
    using sh assms(3) by (simp_all add: s1_def shape_def comp_of_def fun_eq_iff)
  obtain s2 where s2: "id_dg_mark v ?k s1 = Inr (llen S, s2)" "marked g ?X ?k s1 s2" "shape g own nt s2" "d_stk s2 = S @ v # T"
    using mark_ok [OF s1(1,2), of ?k] o(1) X s1(2) by auto
  obtain cs os where s2': "s2 = s1\<lparr>d_comp := cs, d_on := os\<rparr>"
    "\<And>w. node g w \<Longrightarrow> cell cs w = (if w \<in> ?X then ?k else comp_of s w) \<and> cell os w = (if w \<in> ?X then 0 else cell (d_on s) w)"
    using s2(2) unfolding marked_def s1(3,4) by blast
  have cmp: "comp_of s2 w = (if w \<in> ?X then ?k else comp_of s w)" if "node g w" for w
    using s2'(2) [OF that] by (simp add: comp_of_def s2'(1))
  have k0: "0 \<le> ?k" by simp
  then have k1: "(?k < 0) = False" by (simp only: not_less [symmetric] simp_thms)
  have e2: "node g w \<and> 0 \<le> comp_of s2 w" if "x \<in> ?X" "(x, w) \<in> edge g" for x w
    using top(1) [OF that] edge_node [OF assms(1) that(2)] cmp [of w] k0 by auto
  have old: "comp_of s w < ?k" if "node g w" for w
    using compsD(1) [OF co that] k0 by (cases "0 \<le> comp_of s w") (simp, linarith)
  obtain d z where s3: "id_dg_seal (llen S) s2 = Inr (s2\<lparr>d_deep := d_deep s2 @ [d], d_dirty := d_dirty s2 @ [z]\<rparr>)"
    "d = mix_word (\<Sum>v \<in> ?X. mix_word (cell own v) 7) (\<Sum>v \<in> ?X. \<Sum>w \<leftarrow> cell g v. deep_of s2 w)"
    "\<forall>b. bit z b \<longleftrightarrow> (\<exists>v \<in> ?X. bit (cell nt v) b \<or> (\<exists>w. (v, w) \<in> edge g \<and> bit (dirty_of s2 w) b))"
    using seal_ok [OF s2(3,4)] o(1) X e2 by auto
  define s4 where "s4 = s2\<lparr>d_deep := d_deep s2 @ [d], d_dirty := d_dirty s2 @ [z], d_stk := S\<rparr>"
  have lg: "lget (d_ctr s) 1 = Inr ?k" "lset (d_ctr s) 1 (?k + 1) = Inr ((d_ctr s)[1 := ?k + 1])"
    using c1 by (simp_all add: lget_def lset_def)
  have pl: "pop_loop (llen S) (d_stk (s2\<lparr>d_deep := d_deep s2 @ [d], d_dirty := d_dirty s2 @ [z]\<rparr>)) = Inr S"
    using s2(4) pop_loop_ok [of S "v # T"] by simp
  have popped: "id_dg_pop v s = Inr s4"
    unfolding id_dg_pop_def lg andThen.simps s1_def [symmetric] s2(1) prod.case s3(1) pl by (simp add: s4_def)
  have f: "d_ix s4 = d_ix s" "d_low s4 = d_low s" "d_stk s4 = S" "d_deep s4 = d_deep s @ [d]" "d_dirty s4 = d_dirty s @ [z]"
    "d_ctr s4 = (d_ctr s)[1 := ?k + 1]" "d_on s4 = os" "d_deep s2 = d_deep s" "d_dirty s2 = d_dirty s"
    by (simp_all add: s4_def s2'(1) s1_def)
  have c4: "comp_of s4 w = (if w \<in> ?X then ?k else comp_of s w)" if "node g w" for w
    using cmp [OF that] by (simp add: comp_of_def s4_def)
  have vis: "visited s4 = visited s" by (simp add: visited_def f fun_eq_iff)
  have sh4: "shape g own nt s4" using s2(3) by (simp add: shape_def s4_def)
  have dis: "x \<notin> ?X" "x \<in> set (d_stk s)" if "x \<in> set S" for x using o(1) that assms(3) by auto
  have st4: "stack_ok g s4"
    unfolding stack_ok_def
  proof (intro conjI ballI allI impI)
    have "sorted_wrt (\<lambda>x y. cell (d_ix s) x < cell (d_ix s) y) (S @ v # T)" using st assms(3) unfolding stack_ok_def by simp
    then show "sorted_wrt (\<lambda>x y. cell (d_ix s4) x < cell (d_ix s4) y) (d_stk s4)" by (simp add: f sorted_wrt_append)
    show "node g x" "visited s4 x" if "x \<in> set (d_stk s4)" for x using stack_nodes [OF st, of x] that dis by (auto simp: f vis)
    fix w assume w: "node g w"
    show "cell (d_ix s4) w < d_ctr s4 ! 0" "0 \<le> d_ctr s4 ! 0" using stackD(1,2) [OF st w] by (simp_all add: f)
    show "cell (d_on s4) w = (if w \<in> set (d_stk s4) then 1 else 0)" using stackD(4) [OF st w] s2'(2) [OF w] assms(3) dis by (auto simp: f)
    show "w \<in> set (d_stk s4) \<longleftrightarrow> comp_of s4 w < 0" if "visited s4 w"
      using stackD(3) [OF st w] that c4 [OF w] assms(3) dis [of w] by (auto simp: f vis k1)
  qed
  have co4: "comps_ok g s4"
    unfolding comps_ok_def
  proof (intro allI impI, elim conjE, cases)
    fix x assume x: "node g x" "0 \<le> comp_of s4 x" and X': "x \<in> ?X"
    have "comp_of s4 w = ?k \<Longrightarrow> node g w \<Longrightarrow> w \<in> ?X" for w using c4 [of w] old [of w] by (auto split: if_splits)
    moreover have "0 \<le> comp_of s4 w \<and> comp_of s4 w \<le> ?k" if "(x, w) \<in> edge g" for w
      using e2 [OF X' that] cmp [of w] c4 [of w] old [of w] by (auto split: if_splits)
    moreover have "comp_of s4 x = ?k" using c4 [OF x(1)] X' by (simp only: if_True)
    moreover have "?k < llen (d_deep s4)" by (simp add: f)
    ultimately show "comp_of s4 x < llen (d_deep s4) \<and> visited s4 x \<and> (\<forall>w. (x, w) \<in> edge g \<longrightarrow> 0 \<le> comp_of s4 w \<and> comp_of s4 w \<le> comp_of s4 x)
      \<and> (\<forall>w. node g w \<and> comp_of s4 w = comp_of s4 x \<longrightarrow> reach g x w)"
      using X [OF X'] top(2) [OF X'] unfolding vis by metis
  next
    fix x assume x: "node g x" "0 \<le> comp_of s4 x" and X': "x \<notin> ?X"
    then have cx: "comp_of s4 x = comp_of s x" "0 \<le> comp_of s x" using c4 [OF x(1)] by presburger+
    note dx = compsD [OF co x(1) cx(2)]
    have sw: "comp_of s4 w = comp_of s w" if e: "(x, w) \<in> edge g" for w
    proof -
      have "w \<notin> ?X" using dx(3) [OF e] X by force
      then show ?thesis using c4 edge_node [OF assms(1) e] by presburger
    qed
    have "\<forall>w. (x, w) \<in> edge g \<longrightarrow> 0 \<le> comp_of s4 w \<and> comp_of s4 w \<le> comp_of s x" using sw dx(3,4) by metis
    moreover have "comp_of s4 w = comp_of s x \<Longrightarrow> node g w \<Longrightarrow> comp_of s w = comp_of s x" for w
      using c4 [of w] old [OF x(1)] by (metis order_less_irrefl)
    moreover have "comp_of s x < llen (d_deep s4)" using dx(1) by (simp add: f)
    ultimately show "comp_of s4 x < llen (d_deep s4) \<and> visited s4 x \<and> (\<forall>w. (x, w) \<in> edge g \<longrightarrow> 0 \<le> comp_of s4 w \<and> comp_of s4 w \<le> comp_of s4 x)
      \<and> (\<forall>w. node g w \<and> comp_of s4 w = comp_of s4 x \<longrightarrow> reach g x w)"
      using dx(2,5) unfolding vis cx(1) by blast
  qed
  have gr4: "grey_ok g G s4"
    unfolding grey_ok_def f vis
  proof (intro conjI allI ballI impI)
    show "G \<subseteq> set S" by (rule assms(4))
    show "visited s w" if "node g x \<and> visited s x \<and> x \<notin> G \<and> (x, w) \<in> edge g" for x w
      using that greyD(2) [OF gr, of x w] assms(5) by (cases "x = v") auto
    show "\<exists>y \<in> G. cell (d_ix s) y \<le> cell (d_ix s) x \<and> reach g x y" if x: "x \<in> set S" for x
    proof -
      obtain y where y: "y \<in> insert v G" "cell (d_ix s) y \<le> cell (d_ix s) x" "reach g x y" using greyD(3) [OF gr dis(2) [OF x]] by blast
      have "y \<noteq> v" using o(2) [OF x, of v] y(2) by auto
      then show ?thesis using y by blast
    qed
    show "reach g y x" if "y \<in> G" "x \<in> set S" "cell (d_ix s) y \<le> cell (d_ix s) x" for y x
      using greyD(4) [OF gr _ dis(2) [OF that(2)] that(3)] that(1) by blast
  qed
  have same: "deep_ok g own s4 j" "dirty_ok g nt s4 j" if j: "0 \<le> j" "j < ?k" for j
  proof -
    have "comp_of s4 w = j \<longleftrightarrow> comp_of s w = j" if w: "node g w" for w
    proof (cases "w \<in> ?X")
      case True
      then have "comp_of s4 w = ?k" "comp_of s w < 0" using c4 [OF w] X by presburger+
      then show ?thesis using j by linarith
    next
      case False
      then show ?thesis using c4 [OF w] by presburger
    qed
    then have m: "members g s4 j = members g s j" unfolding members_def by blast
    have d: "deep_ok g own s j" "dirty_ok g nt s j" using se j by (simp_all add: sealed_def)
    have n: "cell (d_deep s4) i = cell (d_deep s) i" "cell (d_dirty s4) i = cell (d_dirty s) i" if "0 \<le> i" "i < ?k" for i
      using that sh by (simp_all add: f nth_append llen_def shape_def nat_less_iff)
    have w: "comp_of s4 w = comp_of s w \<and> 0 \<le> comp_of s w \<and> comp_of s w < ?k" if "u \<in> members g s j" "(u, w) \<in> edge g" for u w
    proof -
      have u: "node g u" "0 \<le> comp_of s u" using that(1) j by (auto simp: members_def)
      have w0: "0 \<le> comp_of s w" by (rule compsD(3) [OF co u that(2)])
      then have "w \<notin> ?X" using X by force
      then show ?thesis using w0 edge_node [OF assms(1) that(2)] c4 old by presburger
    qed
    have sums: "(\<Sum>w \<leftarrow> filter (\<lambda>w. comp_of s4 w < j) (cell g u). mix_word (cell (d_deep s4) (comp_of s4 w)) 13)
        = (\<Sum>w \<leftarrow> filter (\<lambda>w. comp_of s w < j) (cell g u). mix_word (cell (d_deep s) (comp_of s w)) 13)" if u: "u \<in> members g s j" for u
    proof -
      have f1: "filter (\<lambda>w. comp_of s4 w < j) (cell g u) = filter (\<lambda>w. comp_of s w < j) (cell g u)"
        using w [OF u] u by (intro filter_cong) (auto simp: edge_def members_def)
      have f2: "map (\<lambda>w. mix_word (cell (d_deep s4) (comp_of s4 w)) 13) (filter (\<lambda>w. comp_of s w < j) (cell g u))
        = map (\<lambda>w. mix_word (cell (d_deep s) (comp_of s w)) 13) (filter (\<lambda>w. comp_of s w < j) (cell g u))"
        using w [OF u] u n by (intro map_cong) (auto simp: edge_def members_def)
      show ?thesis unfolding f1 by (rule arg_cong [OF f2])
    qed
    show "deep_ok g own s4 j" using d(1) unfolding deep_ok_def m n(1) [OF j] by (simp add: sums cong: sum.cong)
    show "dirty_ok g nt s4 j" using d(2) n(2) [OF j] w n(2) unfolding dirty_ok_def m by (metis (no_types, lifting))
  qed
  have mk: "members g s4 ?k = ?X"
  proof (rule set_eqI)
    fix x
    show "x \<in> members g s4 ?k \<longleftrightarrow> x \<in> ?X"
    proof (cases "node g x")
      case True
      then show ?thesis using c4 [OF True] old [OF True] by (cases "x \<in> ?X") (simp_all only: members_def mem_Collect_eq if_True if_False, simp_all)
    next
      case False
      then show ?thesis using X [of x] unfolding members_def by blast
    qed
  qed
  have new: "comp_of s4 w = comp_of s2 w" if "node g w" for w using c4 [OF that] cmp [OF that] by simp
  have dk: "cell (d_deep s4) ?k = d" "cell (d_dirty s4) ?k = z" using sh by (simp_all add: f nth_append llen_def shape_def)
  have ok: "deep_of s2 w = (if comp_of s4 w < ?k then mix_word (cell (d_deep s4) (comp_of s4 w)) 13 else 0)"
    "dirty_of s2 w = (if comp_of s4 w < ?k then cell (d_dirty s4) (comp_of s4 w) else 0)"
    if "x \<in> ?X" "(x, w) \<in> edge g" for x w
    using e2 [OF that] new [of w] sh
    by (simp_all add: deep_of_def dirty_of_def f nth_append llen_def shape_def nat_less_iff)
  have "(\<Sum>w \<leftarrow> cell g x. deep_of s2 w)
      = (\<Sum>w \<leftarrow> filter (\<lambda>w. comp_of s4 w < ?k) (cell g x). mix_word (cell (d_deep s4) (comp_of s4 w)) 13)" if x: "x \<in> ?X" for x
  proof -
    have "map (deep_of s2) (cell g x) = map (\<lambda>w. if comp_of s4 w < ?k then mix_word (cell (d_deep s4) (comp_of s4 w)) 13 else 0) (cell g x)"
      using ok(1) [OF x] X [OF x] by (intro map_cong refl) (simp add: edge_def)
    then show ?thesis by (simp only: sum_filtered)
  qed
  then have "deep_ok g own s4 ?k" unfolding deep_ok_def mk dk(1) s3(2) by simp
  moreover have "dirty_ok g nt s4 ?k"
    unfolding dirty_ok_def mk dk(2)
  proof (intro allI)
    fix b
    have "bit (dirty_of s2 w) b \<longleftrightarrow> comp_of s4 w < ?k \<and> bit (cell (d_dirty s4) (comp_of s4 w)) b" if "x \<in> ?X" "(x, w) \<in> edge g" for x w
      unfolding ok(2) [OF that] by simp
    then have "(\<exists>w. (x, w) \<in> edge g \<and> bit (dirty_of s2 w) b)
        \<longleftrightarrow> (\<exists>w. (x, w) \<in> edge g \<and> comp_of s4 w < ?k \<and> bit (cell (d_dirty s4) (comp_of s4 w)) b)" if "x \<in> ?X" for x
      using that by blast
    then show "bit z b \<longleftrightarrow> (\<exists>x \<in> ?X. bit (cell nt x) b
        \<or> (\<exists>w. (x, w) \<in> edge g \<and> comp_of s4 w < ?k \<and> bit (cell (d_dirty s4) (comp_of s4 w)) b))"
      using s3(3) [rule_format, of b] by metis
  qed
  moreover have "d_ctr s4 ! 1 = llen (d_deep s4)" using c1(2) by (simp add: f)
  moreover have "0 \<le> j \<and> j < llen (d_deep s4) \<Longrightarrow> (0 \<le> j \<and> j < ?k) \<or> j = ?k" for j by (auto simp: f)
  ultimately have "sealed g own nt s4" using same unfolding sealed_def by metis
  then have "tinv g own nt G s4" using sh4 st4 co4 gr4 by (simp add: tinv_def)
  moreover have "comp_of s4 u = comp_of s u" if "node g u" "0 \<le> comp_of s u" for u
  proof -
    have "u \<notin> ?X" using X that(2) by force
    then show ?thesis using c4 [OF that(1)] by presburger
  qed
  ultimately show ?thesis using f popped by blast
qed

section \<open>The search\<close>

definition kept :: "int list list \<Rightarrow> int \<Rightarrow> dg \<Rightarrow> dg \<Rightarrow> bool" where
  "kept g v s s' \<longleftrightarrow> (\<forall>u. node g u \<and> visited s u \<longrightarrow> cell (d_ix s') u = cell (d_ix s) u
     \<and> (u \<noteq> v \<longrightarrow> cell (d_low s') u = cell (d_low s) u) \<and> (0 \<le> comp_of s u \<longrightarrow> comp_of s' u = comp_of s u))"

lemma keptD:
  assumes "kept g v s s'" "node g u" "visited s u"
  shows "cell (d_ix s') u = cell (d_ix s) u" "visited s' u" "u \<noteq> v \<Longrightarrow> cell (d_low s') u = cell (d_low s) u"
    "0 \<le> comp_of s u \<Longrightarrow> comp_of s' u = comp_of s u"
  using assms unfolding kept_def visited_def by metis+

lemma kept_refl: "kept g v s s"
  by (simp add: kept_def)

lemma kept_trans: "kept g v s s' \<Longrightarrow> kept g v s' s'' \<Longrightarrow> kept g v s s''"
  unfolding kept_def visited_def by metis

definition whites :: "int list list \<Rightarrow> dg \<Rightarrow> int set" where
  "whites g s = {v. node g v \<and> \<not> visited s v}"

lemma whites_finite: "finite (whites g s)"
proof (rule finite_subset)
  show "whites g s \<subseteq> {0 ..< llen g}" by (auto simp: whites_def node_def)
qed simp

lemma kept_whites: "kept g v s s' \<Longrightarrow> whites g s' \<subseteq> whites g s"
  using keptD(2) unfolding whites_def by blast

text \<open>While the successors of \<open>v\<close> are walked: \<open>S\<close> is the stack below \<open>v\<close>, \<open>done\<close> the successors seen.\<close>

definition low_ok :: "int list list \<Rightarrow> int list \<Rightarrow> int \<Rightarrow> int set \<Rightarrow> dg \<Rightarrow> int list \<Rightarrow> bool" where
  "low_ok g S v seen s T \<longleftrightarrow> cell (d_low s) v \<le> cell (d_ix s) v
     \<and> (cell (d_low s) v = cell (d_ix s) v \<or> (\<exists>x \<in> set S. cell (d_ix s) x = cell (d_low s) v \<and> reach g v x))
     \<and> (\<forall>y \<in> set T. \<forall>z \<in> set S. (y, z) \<in> edge g \<longrightarrow> cell (d_low s) v \<le> cell (d_ix s) z)
     \<and> (\<forall>z \<in> set S \<inter> seen. cell (d_low s) v \<le> cell (d_ix s) z)"

definition sinv :: "int list list \<Rightarrow> w64 list \<Rightarrow> int list \<Rightarrow> int set \<Rightarrow> int list \<Rightarrow> int \<Rightarrow> int set \<Rightarrow> dg \<Rightarrow> bool" where
  "sinv g own nt G S v seen s \<longleftrightarrow> tinv g own nt (insert v G) s \<and> G \<subseteq> set S \<and> (\<forall>w \<in> seen. node g w \<and> visited s w)
     \<and> (\<exists>T. d_stk s = S @ v # T \<and> low_ok g S v seen s T)"

text \<open>What a visit leaves: the nodes that stay on the stack, and the lowest index they lead to.\<close>

definition left_ok :: "int list list \<Rightarrow> int list \<Rightarrow> int \<Rightarrow> dg \<Rightarrow> int list \<Rightarrow> bool" where
  "left_ok g S v s T \<longleftrightarrow> d_stk s = S @ T \<and> (T = [] \<and> cell (d_low s) v = cell (d_ix s) v
     \<or> T \<noteq> [] \<and> (\<exists>x \<in> set S. cell (d_ix s) x = cell (d_low s) v \<and> reach g v x)
         \<and> (\<forall>y \<in> set T. \<forall>z \<in> set S. (y, z) \<in> edge g \<longrightarrow> cell (d_low s) v \<le> cell (d_ix s) z))"

definition vpost :: "int list list \<Rightarrow> w64 list \<Rightarrow> int list \<Rightarrow> int set \<Rightarrow> int \<Rightarrow> dg \<Rightarrow> dg \<Rightarrow> bool" where
  "vpost g own nt G v s s' \<longleftrightarrow> tinv g own nt G s' \<and> kept g v s s' \<and> visited s' v
     \<and> (\<forall>u. node g u \<and> visited s u \<longrightarrow> cell (d_ix s) u < cell (d_ix s') v) \<and> (\<exists>T. left_ok g (d_stk s) v s' T)"

lemma lowered:
  assumes "tinv g own nt (insert v G) s" "low_ok g S v seen s T" "G \<subseteq> set S" "\<forall>w \<in> seen. node g w \<and> visited s w" "node g w" "visited s w"
    "node g v" "l < cell (d_ix s) v \<longrightarrow> (\<exists>x \<in> set S. cell (d_ix s) x = l \<and> reach g v x)"
    "w \<in> set S \<longrightarrow> l \<le> cell (d_ix s) w" "d_stk s = S @ v # T @ R"
    "\<forall>y \<in> set R. \<forall>z \<in> set S. (y, z) \<in> edge g \<longrightarrow> l \<le> cell (d_ix s) z"
  shows "\<exists>s'. id_dg_lower v l s = Inr s' \<and> sinv g own nt G S v (insert w seen) s' \<and> kept g v s s'"
proof -
  obtain xs where xs: "id_dg_lower v l s = Inr (s\<lparr>d_low := xs\<rparr>)" "tinv g own nt (insert v G) (s\<lparr>d_low := xs\<rparr>)"
    "\<And>u. node g u \<Longrightarrow> cell xs u = (if u = v then min l (cell (d_low s) v) else cell (d_low s) u)"
    using lower_ok [OF assms(1,7), of l] by blast
  let ?s = "s\<lparr>d_low := xs\<rparr>"
  have v: "cell xs v = min l (cell (d_low s) v)" using xs(3) [OF assms(7)] by simp
  note lo = assms(2) [unfolded low_ok_def]
  have "low_ok g S v (insert w seen) ?s (T @ R)"
    unfolding low_ok_def
  proof (intro conjI)
    show "cell (d_low ?s) v \<le> cell (d_ix ?s) v" using lo by (simp add: v min_le_iff_disj)
    show "cell (d_low ?s) v = cell (d_ix ?s) v \<or> (\<exists>x \<in> set S. cell (d_ix ?s) x = cell (d_low ?s) v \<and> reach g v x)"
    proof (cases "l < cell (d_low s) v")
      case True
      then have "min l (cell (d_low s) v) = l" "l < cell (d_ix s) v" using lo by auto
      then show ?thesis using assms(8) by (simp add: v)
    next
      case False
      then have "min l (cell (d_low s) v) = cell (d_low s) v" by simp
      then show ?thesis using lo by (simp add: v)
    qed
    show "\<forall>y \<in> set (T @ R). \<forall>z \<in> set S. (y, z) \<in> edge g \<longrightarrow> cell (d_low ?s) v \<le> cell (d_ix ?s) z"
    proof (intro ballI impI)
      fix y z assume y: "y \<in> set (T @ R)" "z \<in> set S" "(y, z) \<in> edge g"
      have "cell (d_low s) v \<le> cell (d_ix s) z \<or> l \<le> cell (d_ix s) z" using y lo assms(11) by auto
      then show "cell (d_low ?s) v \<le> cell (d_ix ?s) z" by (auto simp: v min_le_iff_disj)
    qed
    show "\<forall>z \<in> set S \<inter> insert w seen. cell (d_low ?s) v \<le> cell (d_ix ?s) z"
    proof
      fix z assume z: "z \<in> set S \<inter> insert w seen"
      show "cell (d_low ?s) v \<le> cell (d_ix ?s) z"
      proof (cases "z = w")
        case True
        then show ?thesis using assms(9) z by (simp add: v min_le_iff_disj)
      next
        case False
        then have "cell (d_low s) v \<le> cell (d_ix s) z" using lo z by blast
        then show ?thesis by (simp add: v min_le_iff_disj)
      qed
    qed
  qed
  moreover have "visited ?s = visited s" by (simp add: visited_def fun_eq_iff)
  moreover have "kept g v s ?s" using xs(3) by (simp add: kept_def comp_of_def)
  ultimately show ?thesis using xs(1,2) assms(3-6,10) unfolding sinv_def by auto
qed

lemma sinv_visit:
  assumes "wf_graph g" "sinv g own nt G S v seen s" "(v, w) \<in> edge g" "\<not> visited s w" "vpost g own nt (insert v G) w s s1"
  shows "\<exists>s'. id_dg_lower v (cell (d_low s1) w) s1 = Inr s' \<and> sinv g own nt G S v (insert w seen) s' \<and> kept g v s s'"
proof -
  obtain T where T: "tinv g own nt (insert v G) s" "G \<subseteq> set S" "\<forall>u \<in> seen. node g u \<and> visited s u" "d_stk s = S @ v # T" "low_ok g S v seen s T"
    using assms(2) unfolding sinv_def by blast
  note lo = T(5) [unfolded low_ok_def]
  have st: "stack_ok g s" using T(1) by (simp add: tinv_def)
  note n = edge_node [OF assms(1,3)] and o = stack_order [OF st T(4)]
  have vis: "node g u \<and> visited s u" if "u \<in> set (d_stk s)" for u using stack_nodes [OF st that] by blast
  obtain R where p: "tinv g own nt (insert v G) s1" "kept g w s s1" "visited s1 w"
    "\<And>u. node g u \<Longrightarrow> visited s u \<Longrightarrow> cell (d_ix s) u < cell (d_ix s1) w" "left_ok g (d_stk s) w s1 R"
    using assms(5) unfolding vpost_def by blast
  note le = p(5) [unfolded left_ok_def]
  have ix: "cell (d_ix s1) u = cell (d_ix s) u" if "u \<in> set (d_stk s)" for u using keptD(1) [OF p(2)] vis [OF that] by blast
  have v: "v \<in> set (d_stk s)" "visited s v" using T(4) vis by auto
  have vw: "v \<noteq> w" using assms(4) v(2) by blast
  have lv: "cell (d_low s1) v = cell (d_low s) v" using keptD(3) [OF p(2) _ v(2) vw] n by blast
  have zS: "z \<in> set (d_stk s)" if "z \<in> set S" for z using that T(4) by simp
  have below: "w \<notin> set S" using vis [OF zS] assms(4) by blast
  have small: "cell (d_low s1) w < cell (d_ix s1) v \<longrightarrow> (\<exists>x \<in> set S. cell (d_ix s1) x = cell (d_low s1) w \<and> reach g v x)"
  proof (cases "R = []")
    case True
    then show ?thesis using le p(4) [OF _ v(2)] n ix [OF v(1)] by force
  next
    case False
    then obtain x where x: "x \<in> set (d_stk s)" "cell (d_ix s1) x = cell (d_low s1) w" "reach g w x" using le by blast
    have "x \<in> set (v # T) \<Longrightarrow> cell (d_ix s1) v \<le> cell (d_low s1) w" using o(3) [of x] ix [OF x(1)] ix [OF v(1)] x(2) by simp
    then show ?thesis using x reach_trans [OF reach_edge [OF assms(3)] x(3)] T(4) by force
  qed
  have ixS: "cell (d_ix s1) z = cell (d_ix s) z" if "z \<in> set S" for z using ix [OF zS [OF that]] .
  have lo1: "low_ok g S v seen s1 T"
    unfolding low_ok_def lv ix [OF v(1)]
  proof (intro conjI)
    show "cell (d_low s) v = cell (d_ix s) v \<or> (\<exists>x \<in> set S. cell (d_ix s1) x = cell (d_low s) v \<and> reach g v x)" using lo ixS by metis
    show "\<forall>y \<in> set T. \<forall>z \<in> set S. (y, z) \<in> edge g \<longrightarrow> cell (d_low s) v \<le> cell (d_ix s1) z" using lo ixS by metis
    show "\<forall>z \<in> set S \<inter> seen. cell (d_low s) v \<le> cell (d_ix s1) z" using lo ixS by (metis IntD1)
  qed (use lo in blast)
  have seen1: "\<forall>u \<in> seen. node g u \<and> visited s1 u" using T(3) keptD(2) [OF p(2)] by blast
  have R: "\<forall>y \<in> set R. \<forall>z \<in> set S. (y, z) \<in> edge g \<longrightarrow> cell (d_low s1) w \<le> cell (d_ix s1) z" using le zS by (metis empty_iff list.set(1))
  have stk1: "d_stk s1 = S @ v # T @ R" using le T(4) by simp
  obtain s' where s': "id_dg_lower v (cell (d_low s1) w) s1 = Inr s'" "sinv g own nt G S v (insert w seen) s'" "kept g v s1 s'"
    using lowered [OF p(1) lo1 T(2) seen1 _ p(3) _ small _ stk1 R] n below by blast
  have "kept g v s s1" using p(2) assms(4) unfolding kept_def by metis
  then show ?thesis using s' kept_trans by blast
qed

lemma sinv_stack:
  assumes "wf_graph g" "sinv g own nt G S v seen s" "(v, w) \<in> edge g" "w \<in> set (d_stk s)"
  shows "\<exists>s'. id_dg_lower v (cell (d_ix s) w) s = Inr s' \<and> sinv g own nt G S v (insert w seen) s' \<and> kept g v s s'"
proof -
  obtain T where T: "tinv g own nt (insert v G) s" "G \<subseteq> set S" "\<forall>u \<in> seen. node g u \<and> visited s u" "d_stk s = S @ v # T" "low_ok g S v seen s T"
    using assms(2) unfolding sinv_def by blast
  have st: "stack_ok g s" using T(1) by (simp add: tinv_def)
  note o = stack_order [OF st T(4)] and n = edge_node [OF assms(1,3)]
  have "cell (d_ix s) w < cell (d_ix s) v \<longrightarrow> w \<in> set S" using o(3) [of w] assms(4) T(4) by auto
  then have small: "cell (d_ix s) w < cell (d_ix s) v \<longrightarrow> (\<exists>x \<in> set S. cell (d_ix s) x = cell (d_ix s) w \<and> reach g v x)"
    using reach_edge [OF assms(3)] by blast
  have "visited s w" using stack_nodes [OF st assms(4)] by blast
  then show ?thesis using lowered [OF T(1,5,2,3) _ _ _ small, of w "[]"] n T(4) by simp
qed

lemma sinv_skip:
  assumes "sinv g own nt G S v seen s" "node g w" "visited s w" "w \<notin> set (d_stk s)"
  shows "sinv g own nt G S v (insert w seen) s"
  using assms unfolding sinv_def low_ok_def by auto

lemma sinv_start:
  assumes "tinv g own nt (insert v G) s" "d_stk s = S @ [v]" "G \<subseteq> set S" "cell (d_low s) v = cell (d_ix s) v"
  shows "sinv g own nt G S v {} s"
  using assms unfolding sinv_def low_ok_def by auto

text \<open>A node that is done and stays on the stack.\<close>

lemma blacken:
  assumes "tinv g own nt (insert v G) s" "d_stk s = S @ v # T" "G \<subseteq> set S" "\<forall>w. (v, w) \<in> edge g \<longrightarrow> visited s w"
    "x \<in> set S" "reach g v x"
  shows "tinv g own nt G s"
proof -
  have st: "stack_ok g s" and gr: "grey_ok g (insert v G) s" using assms(1) by (auto simp: tinv_def)
  note o = stack_order [OF st assms(2)]
  have x: "x \<in> set (d_stk s)" using assms(2,5) by simp
  obtain y where y: "y \<in> insert v G" "cell (d_ix s) y \<le> cell (d_ix s) x" "reach g x y" using greyD(3) [OF gr x] by blast
  have lt: "cell (d_ix s) x < cell (d_ix s) v" using o(2) [OF assms(5)] by simp
  then have yG: "y \<in> G" using y by auto
  have "grey_ok g G s"
    unfolding grey_ok_def
  proof (intro conjI allI ballI impI)
    show "G \<subseteq> set (d_stk s)" using assms(2,3) by auto
    show "visited s w" if "node g u \<and> visited s u \<and> u \<notin> G \<and> (u, w) \<in> edge g" for u w
      using that greyD(2) [OF gr, of u w] assms(4) by (cases "u = v") auto
    show "\<exists>y \<in> G. cell (d_ix s) y \<le> cell (d_ix s) u \<and> reach g u y" if u: "u \<in> set (d_stk s)" for u
    proof -
      obtain z where z: "z \<in> insert v G" "cell (d_ix s) z \<le> cell (d_ix s) u" "reach g u z" using greyD(3) [OF gr u] by blast
      show ?thesis
      proof (cases "z = v")
        case True
        then have "reach g u y" using reach_trans [OF z(3)] reach_trans [OF assms(6) y(3)] by blast
        moreover have "cell (d_ix s) y \<le> cell (d_ix s) u" using y(2) lt z(2) unfolding True by simp
        ultimately show ?thesis using yG by blast
      qed (use z in blast)
    qed
    show "reach g y x" if "y \<in> G" "x \<in> set (d_stk s)" "cell (d_ix s) y \<le> cell (d_ix s) x" for y x
      using greyD(4) [OF gr _ that(2,3)] that(1) by blast
  qed
  then show ?thesis using assms(1) by (simp add: tinv_def)
qed

lemma visit_end:
  assumes "wf_graph g" "sinv g own nt G (d_stk s0) v (set (cell g v)) s" "node g v" "kept g v s1 s" "\<not> visited s0 v"
    "\<And>u. node g u \<Longrightarrow> visited s0 u \<Longrightarrow> visited s1 u \<and> cell (d_ix s1) u = cell (d_ix s0) u \<and> cell (d_low s1) u = cell (d_low s0) u
       \<and> comp_of s1 u = comp_of s0 u \<and> cell (d_ix s0) u < cell (d_ix s1) v"
    "visited s1 v" "r = (if cell (d_low s) v = cell (d_ix s) v then id_dg_pop v s else Inr s)"
  shows "\<exists>s'. r = Inr s' \<and> vpost g own nt G v s0 s'"
proof -
  obtain T where T: "tinv g own nt (insert v G) s" "G \<subseteq> set (d_stk s0)" "\<forall>u \<in> set (cell g v). node g u \<and> visited s u"
    "d_stk s = d_stk s0 @ v # T" "low_ok g (d_stk s0) v (set (cell g v)) s T"
    using assms(2) unfolding sinv_def by blast
  note lo = T(5) [unfolded low_ok_def]
  have st: "stack_ok g s" using T(1) by (simp add: tinv_def)
  note o = stack_order [OF st T(4)]
  have succ: "w \<in> set (cell g v)" if "(v, w) \<in> edge g" for w using that by (simp add: edge_def)
  have vs: "\<forall>w. (v, w) \<in> edge g \<longrightarrow> visited s w" using succ T(3) by blast
  have out: "cell (d_low s) v \<le> cell (d_ix s) z" if "y \<in> set (v # T)" "z \<in> set (d_stk s0)" "(y, z) \<in> edge g" for y z
    using that lo succ by auto
  have v1: "visited s v" "cell (d_ix s) v = cell (d_ix s1) v" using keptD(1,2) [OF assms(4,3,7)] by auto
  have k: "kept g v s0 s" and above: "cell (d_ix s0) u < cell (d_ix s) v" if "node g u" "visited s0 u" for u
  proof -
    show "kept g v s0 s" unfolding kept_def
    proof (intro allI impI, elim conjE)
      fix u assume u: "node g u" "visited s0 u"
      note a = assms(6) [OF u]
      have "u \<noteq> v" using assms(5) u(2) by blast
      then show "cell (d_ix s) u = cell (d_ix s0) u \<and> (u \<noteq> v \<longrightarrow> cell (d_low s) u = cell (d_low s0) u)
          \<and> (0 \<le> comp_of s0 u \<longrightarrow> comp_of s u = comp_of s0 u)"
        using a keptD [OF assms(4) u(1)] by metis
    qed
    show "cell (d_ix s0) u < cell (d_ix s) v" using assms(6) [OF that] v1(2) by simp
  qed
  have k: "kept g v s0 s" using k unfolding kept_def by blast
  show ?thesis
  proof (cases "cell (d_low s) v = cell (d_ix s) v")
    case True
    have "\<forall>y \<in> set (v # T). \<forall>z \<in> set (d_stk s0). (y, z) \<notin> edge g"
    proof (intro ballI notI)
      fix y z assume y: "y \<in> set (v # T)" "z \<in> set (d_stk s0)" "(y, z) \<in> edge g"
      have "cell (d_ix s) z < cell (d_ix s) v" using o(2) [OF y(2), of v] by simp
      then show False using out [OF y] True by simp
    qed
    then obtain s' where s': "id_dg_pop v s = Inr s'" "tinv g own nt G s'" "d_stk s' = d_stk s0" "d_ix s' = d_ix s" "d_low s' = d_low s"
      "\<forall>u. node g u \<and> 0 \<le> comp_of s u \<longrightarrow> comp_of s' u = comp_of s u"
      using pop_ok [OF assms(1) T(1,4,2) vs] by blast
    have vis: "visited s' = visited s" by (simp add: visited_def s'(4) fun_eq_iff)
    have "kept g v s0 s'" using k s'(4-6) unfolding kept_def by metis
    moreover have "left_ok g (d_stk s0) v s' []" using s'(3-5) True by (simp add: left_ok_def)
    ultimately have "vpost g own nt G v s0 s'" using s'(2,4) v1(1) above unfolding vpost_def vis by metis
    then show ?thesis using s'(1) True assms(8) by simp
  next
    case False
    then obtain x where x: "x \<in> set (d_stk s0)" "cell (d_ix s) x = cell (d_low s) v" "reach g v x" using lo by blast
    have "tinv g own nt G s" by (rule blacken [OF T(1,4,2) vs x(1,3)])
    moreover have "left_ok g (d_stk s0) v s (v # T)" using T(4) x out unfolding left_ok_def by blast
    ultimately have "vpost g own nt G v s0 s" using k v1(1) above unfolding vpost_def by blast
    then show ?thesis using False assms(8) by simp
  qed
qed

definition visit_goal :: "int list list \<Rightarrow> w64 list \<Rightarrow> int list \<Rightarrow> nat \<Rightarrow> int \<Rightarrow> dg \<Rightarrow> bool" where
  "visit_goal g own nt fuel v s \<longleftrightarrow> (\<forall>G. tinv g own nt G s \<and> node g v \<and> \<not> visited s v \<and> (\<forall>y \<in> G. reach g y v)
     \<and> card (whites g s) \<le> fuel \<longrightarrow> (\<exists>s'. id_dg_visit fuel v s = Some (Inr s') \<and> vpost g own nt G v s s'))"

definition succ_goal :: "int list list \<Rightarrow> w64 list \<Rightarrow> int list \<Rightarrow> nat \<Rightarrow> int \<Rightarrow> int list \<Rightarrow> dg \<Rightarrow> bool" where
  "succ_goal g own nt fuel v ws s \<longleftrightarrow> (\<forall>G S seen. sinv g own nt G S v seen s \<and> node g v \<and> set ws \<subseteq> set (cell g v)
     \<and> (\<forall>y \<in> insert v G. reach g y v) \<and> card (whites g s) \<le> fuel
     \<longrightarrow> (\<exists>s'. id_dg_succ fuel v ws s = Some (Inr s') \<and> sinv g own nt G S v (seen \<union> set ws) s' \<and> kept g v s s'))"

lemma search_ok:
  assumes "wf_graph g"
  shows "visit_goal g own nt fuel v s" "succ_goal g own nt fuel v ws s"
proof (induction fuel v s and fuel v ws s rule: id_dg_visit_id_dg_succ.induct)
  case (1 v s)
  have "v \<in> whites g s \<Longrightarrow> 0 < card (whites g s)" using whites_finite by (auto simp: card_gt_0_iff)
  then have "node g v \<Longrightarrow> \<not> visited s v \<Longrightarrow> \<not> card (whites g s) \<le> 0" by (simp add: whites_def)
  then show ?case unfolding visit_goal_def by blast
next
  case (2 fuel v s)
  show ?case unfolding visit_goal_def
  proof (intro allI impI, elim conjE)
    fix G assume a: "tinv g own nt G s" "node g v" "\<not> visited s v" "\<forall>y \<in> G. reach g y v" "card (whites g s) \<le> Suc fuel"
    obtain s1 where e: "dg_enter v s = Inr s1" "tinv g own nt (insert v G) s1" "d_stk s1 = d_stk s @ [v]"
      "d_ix s1 = (d_ix s)[nat v := d_ctr s ! 0]" "d_low s1 = (d_low s)[nat v := d_ctr s ! 0]" "d_comp s1 = d_comp s"
      using enter_ok [OF assms a(1-4)] by blast
    have sh: "shape g own nt s" "shape g own nt s1" and st: "stack_ok g s" and gr: "grey_ok g G s" using a(1) e(2) by (auto simp: tinv_def)
    have ctr: "0 \<le> d_ctr s ! 0" by (rule stackD(2) [OF st a(2)])
    have l: "llen (d_ix s) = llen g" "llen (d_low s) = llen g" using sh(1) by (auto simp: shape_def)
    have ix: "cell (d_ix s1) u = (if u = v then d_ctr s ! 0 else cell (d_ix s) u)"
      "cell (d_low s1) u = (if u = v then d_ctr s ! 0 else cell (d_low s) u)" if "node g u" for u
      unfolding e(4,5) using that a(2) l by (auto simp only: node_def intro!: cell_upd)
    have v1: "visited s1 v" using ix(1) [OF a(2)] ctr by (simp add: visited_def)
    have sinv: "sinv g own nt G (d_stk s) v {} s1" using sinv_start [OF e(2,3) greyD(1) [OF gr]] ix [OF a(2)] by simp
    have sub: "whites g s1 \<subseteq> whites g s - {v}" using ix(1) v1 by (auto simp: whites_def visited_def split: if_splits)
    have "v \<in> whites g s" using a(2,3) by (simp add: whites_def)
    then have "card (whites g s1) \<le> fuel"
      using card_mono [OF _ sub] whites_finite [of g s] a(5) by (simp add: card_Diff_singleton)
    then obtain s2 where s2: "id_dg_succ fuel v (cell g v) s1 = Some (Inr s2)" "sinv g own nt G (d_stk s) v (set (cell g v)) s2" "kept g v s1 s2"
      using 2 [of "cell g v" s1] cells_ok(5) [OF sh(2) a(2)] sinv a(2,4) unfolding succ_goal_def by fastforce
    have sh2: "shape g own nt s2" using s2(2) by (auto simp: sinv_def tinv_def)
    define r where "r = (if cell (d_low s2) v = cell (d_ix s2) v then id_dg_pop v s2 else Inr s2)"
    have "id_dg_visit (Suc fuel) v s = Some r"
      using e(1) cells_ok(5) [OF sh(2) a(2)] s2(1) cells_ok(1,2) [OF sh2 a(2)] by (simp add: r_def)
    moreover have "\<exists>s'. r = Inr s' \<and> vpost g own nt G v s s'"
    proof (rule visit_end [OF assms s2(2) a(2) s2(3) a(3) _ v1 r_def])
      fix u assume u: "node g u" "visited s u"
      then have "u \<noteq> v" using a(3) by blast
      then show "visited s1 u \<and> cell (d_ix s1) u = cell (d_ix s) u \<and> cell (d_low s1) u = cell (d_low s) u
       \<and> comp_of s1 u = comp_of s u \<and> cell (d_ix s) u < cell (d_ix s1) v"
        using u ix [OF u(1)] ix [OF a(2)] stackD(1) [OF st u(1)] by (simp add: visited_def comp_of_def e(6))
    qed
    ultimately show "\<exists>s'. id_dg_visit (Suc fuel) v s = Some (Inr s') \<and> vpost g own nt G v s s'" by blast
  qed
next
  case (3 fuel v s)
  show ?case unfolding succ_goal_def using kept_refl by auto
next
  case (4 fuel v w ws s)
  show ?case unfolding succ_goal_def
  proof (intro allI impI, elim conjE)
    fix G S seen assume a: "sinv g own nt G S v seen s" "node g v" "set (w # ws) \<subseteq> set (cell g v)"
      "\<forall>y \<in> insert v G. reach g y v" "card (whites g s) \<le> fuel"
    have e: "(v, w) \<in> edge g" using a(2,3) by (simp add: edge_def)
    have n: "node g w" using edge_node [OF assms e] by blast
    have ti: "tinv g own nt (insert v G) s" using a(1) by (auto simp: sinv_def)
    have sh: "shape g own nt s" and st: "stack_ok g s" using ti by (auto simp: tinv_def)
    define step where "step = (if cell (d_ix s) w < 0
              then thenRun (id_dg_visit fuel w s) (\<lambda>s. thenRun (Some (lget (d_low s) w)) (\<lambda>l. Some (id_dg_lower v l s)))
              else thenRun (Some (lget (d_on s) w)) (\<lambda>b. if b = 1 then Some (id_dg_lower v (cell (d_ix s) w) s) else Some (Inr s)))"
    have "\<exists>s'. step = Some (Inr s') \<and> sinv g own nt G S v (insert w seen) s' \<and> kept g v s s'"
    proof (cases "visited s w")
      case False
      have "\<forall>y \<in> insert v G. reach g y w" using a(4) reach_trans reach_edge [OF e] by blast
      then obtain s1 where s1: "id_dg_visit fuel w s = Some (Inr s1)" "vpost g own nt (insert v G) w s s1"
        using 4(1) [of "cell (d_ix s) w"] cells_ok(1) [OF sh n] False ti n a(5) unfolding visit_goal_def visited_def by fastforce
      have "lget (d_low s1) w = Inr (cell (d_low s1) w)" using s1(2) n by (auto simp: vpost_def tinv_def intro: cells_ok(2))
      then show ?thesis using sinv_visit [OF assms a(1) e False s1(2)] s1(1) False by (auto simp: step_def visited_def)
    next
      case True
      note on = stackD(4) [OF st n] and g = cells_ok(3) [OF sh n]
      show ?thesis
      proof (cases "w \<in> set (d_stk s)")
        case True
        then show ?thesis using sinv_stack [OF assms a(1) e True] on g \<open>visited s w\<close> by (auto simp: step_def visited_def)
      next
        case False
        then show ?thesis using sinv_skip [OF a(1) n True False] on g True kept_refl by (auto simp: step_def visited_def)
      qed
    qed
    then obtain s' where s': "step = Some (Inr s')" "sinv g own nt G S v (insert w seen) s'" "kept g v s s'" by blast
    have "card (whites g s') \<le> fuel" using card_mono [OF whites_finite kept_whites [OF s'(3)]] a(5) by linarith
    moreover have "succ_goal g own nt fuel v ws s'" by (rule 4(2))
    ultimately obtain s'' where "id_dg_succ fuel v ws s' = Some (Inr s'')" "sinv g own nt G S v (insert w seen \<union> set ws) s''" "kept g v s' s''"
      using s'(2) a(2-4) unfolding succ_goal_def by fastforce
    moreover have "id_dg_succ fuel v (w # ws) s = id_dg_succ fuel v ws s'" using cells_ok(1) [OF sh n] s'(1) by (simp add: step_def cong: if_cong)
    ultimately show "\<exists>s'. id_dg_succ fuel v (w # ws) s = Some (Inr s') \<and> sinv g own nt G S v (seen \<union> set (w # ws)) s' \<and> kept g v s s'"
      using kept_trans [OF s'(3)] by (intro exI [of _ s'']) auto
  qed
qed

section \<open>The whole search\<close>

lemma for_run_inv:
  assumes "\<And>i s. k \<le> i \<Longrightarrow> i < n \<Longrightarrow> I i s \<Longrightarrow> \<exists>s'. f i s = Some (Inr s') \<and> I (i + 1) s'" "I k s" "k \<le> n"
  shows "\<exists>s'. for_run k n f s = Some (Inr s') \<and> I n s'"
  using assms
proof (induction k n f s rule: for_run.induct)
  case (1 i n f s)
  show ?case
  proof (cases "i < n")
    case True
    then obtain s1 where s1: "f i s = Some (Inr s1)" "I (i + 1) s1" using 1(2) [of i s] 1(3) by auto
    obtain s2 where "for_run (i + 1) n f s1 = Some (Inr s2)" "I n s2"
      using 1(1) [OF True, of s1] 1(2) s1 True by (smt (verit))
    then show ?thesis using s1(1) True by (subst for_run.simps) simp
  next
    case False
    then show ?thesis using 1(3,4) by (subst for_run.simps) simp
  qed
qed

text \<open>The graph as the edges leave it, before the search.\<close>

definition fresh :: "int list list \<Rightarrow> w64 list \<Rightarrow> int list \<Rightarrow> dg \<Rightarrow> bool" where
  "fresh g own nt s \<longleftrightarrow> wf_graph g \<and> d_out s = g \<and> d_own s = own \<and> d_nat s = nt \<and> length own = length g \<and> length nt = length g
     \<and> d_ix s = map (\<lambda>_. - 1) g \<and> d_low s = map (\<lambda>_. 0) g \<and> d_on s = map (\<lambda>_. 0) g \<and> d_comp s = map (\<lambda>_. - 1) g
     \<and> d_stk s = [] \<and> d_ctr s = [0, 0] \<and> d_deep s = [] \<and> d_dirty s = []"

text \<open>And after it: every node belongs to a sealed component.\<close>

definition settled :: "int list list \<Rightarrow> w64 list \<Rightarrow> int list \<Rightarrow> dg \<Rightarrow> bool" where
  "settled g own nt s \<longleftrightarrow> comps_ok g s \<and> sealed g own nt s \<and> shape g own nt s \<and> (\<forall>v. node g v \<longrightarrow> 0 \<le> comp_of s v)"

lemma node_lt: "node g v \<Longrightarrow> nat v < length g"
  by (simp add: node_def llen_def) linarith

lemma fresh_tinv: "fresh g own nt s \<Longrightarrow> tinv g own nt {} s"
  unfolding tinv_def
  by (intro conjI) (auto simp: fresh_def shape_def stack_ok_def comps_ok_def grey_ok_def sealed_def visited_def comp_of_def llen_def
    dest: node_lt)

lemma scc_all_ok:
  assumes "fresh g own nt s" "length g \<le> fuel"
  shows "\<exists>s'. id_dg_scc_all fuel s = Some (Inr s') \<and> settled g own nt s'"
proof -
  have w: "wf_graph g" and n: "llen (d_ix s) = llen g" using assms(1) by (auto simp: fresh_def llen_def)
  let ?I = "\<lambda>i s. tinv g own nt {} s \<and> (\<forall>u. node g u \<and> u < i \<longrightarrow> visited s u)"
  have small: "card (whites g s) \<le> fuel" for s
  proof -
    have "whites g s \<subseteq> {0..<llen g}" by (auto simp: whites_def node_def)
    then have "card (whites g s) \<le> nat (llen g)" using card_mono [of "{0..<llen g}"] by fastforce
    then show ?thesis using assms(2) by (simp add: llen_def)
  qed
  have step: "\<exists>s'. id_dg_try fuel i s = Some (Inr s') \<and> ?I (i + 1) s'" if i: "0 \<le> i" "i < llen g" "?I i s" for i s
  proof -
    have nd: "node g i" using i by (simp add: node_def)
    have sh: "shape g own nt s" using i by (auto simp: tinv_def)
    show ?thesis
    proof (cases "visited s i")
      case True
      then have "id_dg_try fuel i s = Some (Inr s)" using cells_ok(1) [OF sh nd] by (simp add: id_dg_try_def visited_def)
      moreover have "visited s u" if "node g u" "u < i + 1" for u using that i True by (cases "u = i") auto
      ultimately show ?thesis using i by blast
    next
      case False
      then obtain s' where s': "id_dg_visit fuel i s = Some (Inr s')" "vpost g own nt {} i s s'"
        using search_ok(1) [OF w, of own nt fuel i s] i nd small [of s] unfolding visit_goal_def by blast
      then have p: "tinv g own nt {} s'" "kept g i s s'" "visited s' i" unfolding vpost_def by blast+
      have "id_dg_try fuel i s = Some (Inr s')" using cells_ok(1) [OF sh nd] False s'(1) by (simp add: id_dg_try_def visited_def)
      moreover have "visited s' u" if "node g u" "u < i + 1" for u
        using that i p keptD(2) [OF p(2), of u] by (cases "u = i") auto
      ultimately show ?thesis using p(1) by blast
    qed
  qed
  have "?I 0 s" using fresh_tinv [OF assms(1)] by (auto simp: node_def)
  then obtain s' where s': "for_run 0 (llen g) (id_dg_try fuel) s = Some (Inr s')" "?I (llen g) s'"
    using for_run_inv [of 0 "llen g" ?I "id_dg_try fuel" s] step by (auto simp: llen_def)
  then have t: "tinv g own nt {} s'" by blast
  have gr: "grey_ok g {} s'" and st: "stack_ok g s'" using t by (auto simp: tinv_def)
  have "d_stk s' = []" using greyD(3) [OF gr] by (cases "d_stk s'") auto
  then have "0 \<le> comp_of s' v" if "node g v" for v
    using stackD(3) [OF st that] s'(2) that by (auto simp: node_def)
  then show ?thesis using s'(1) t n by (auto simp: id_dg_scc_all_def settled_def tinv_def)
qed

lemma settledD:
  assumes "settled g own nt s" "node g v"
  shows "0 \<le> comp_of s v" "comp_of s v < llen (d_deep s)" "(v, w) \<in> edge g \<Longrightarrow> comp_of s w \<le> comp_of s v"
    "node g w \<Longrightarrow> comp_of s w = comp_of s v \<Longrightarrow> reach g v w"
    "deep_ok g own s (comp_of s v)" "dirty_ok g nt s (comp_of s v)"
  using assms unfolding settled_def sealed_def by (auto dest: compsD)

lemma reach_node: "wf_graph g \<Longrightarrow> reach g v w \<Longrightarrow> node g v \<Longrightarrow> node g w"
  using reach_closed [of g v w "Collect (node g)"] edge_node by auto

lemma reach_comp:
  assumes "wf_graph g" "settled g own nt s" "node g v" "reach g v w"
  shows "comp_of s w \<le> comp_of s v"
  using reach_closed [OF assms(4), of "{u. node g u \<and> comp_of s u \<le> comp_of s v}"] assms(3) settledD(3) [OF assms(2)] edge_node [OF assms(1)]
  by fastforce

lemma same_comp:
  assumes "wf_graph g" "settled g own nt s" "node g v" "node g w"
  shows "comp_of s v = comp_of s w \<longleftrightarrow> reach g v w \<and> reach g w v"
  using settledD(4) [OF assms(2)] reach_comp [OF assms(1,2)] assms(3,4) by (metis order_antisym)

text \<open>
  C6: The one-pass search of the digest finds the strongly connected components: over any
  graph whose edges stay among its rows it returns, with fuel for as many nested calls as
  there are rows; two rows get the same component number exactly when each reaches the
  other; and a row never has a smaller number than a row it reaches, so what a component
  depends on is sealed before it.
\<close>

theorem id_dg_scc_components:
  assumes "fresh g own nt s" "length g \<le> fuel"
  shows "\<exists>s'. id_dg_scc_all fuel s = Some (Inr s') \<and> d_out s' = g
    \<and> (\<forall>v w. node g v \<and> node g w \<longrightarrow> (comp_of s' v = comp_of s' w \<longleftrightarrow> reach g v w \<and> reach g w v)
         \<and> (reach g v w \<longrightarrow> 0 \<le> comp_of s' w \<and> comp_of s' w \<le> comp_of s' v \<and> comp_of s' v < llen (d_deep s')))"
proof -
  obtain s' where s': "id_dg_scc_all fuel s = Some (Inr s')" "settled g own nt s'" using scc_all_ok [OF assms] by blast
  have w: "wf_graph g" using assms(1) by (simp add: fresh_def)
  have "d_out s' = g" using s'(2) by (simp add: settled_def shape_def)
  then show ?thesis
    using s'(1) same_comp [OF w s'(2)] reach_comp [OF w s'(2)] settledD(1,2) [OF s'(2)] by (intro exI [of _ s']) auto
qed

definition sample_graph :: "int list list" where
  "sample_graph = [[1], [0, 2], [], [2, 3, 0]]"

definition sample_dg :: "w64 list \<Rightarrow> int list \<Rightarrow> dg" where
  "sample_dg own nt = id_dg_init\<lparr>d_own := own, d_out := sample_graph, d_nat := nt, d_ix := [- 1, - 1, - 1, - 1], d_low := [0, 0, 0, 0],
     d_on := [0, 0, 0, 0], d_comp := [- 1, - 1, - 1, - 1]\<rparr>"

lemma sample_fresh: "length own = 4 \<Longrightarrow> length nt = 4 \<Longrightarrow> fresh sample_graph own nt (sample_dg own nt)"
  by (simp add: fresh_def wf_graph_def node_def llen_def sample_dg_def sample_graph_def id_dg_init_def)

lemma id_dg_scc_components_witness:
  "\<exists>s'. id_dg_scc_all 4 (sample_dg [5, 6, 7, 8] [0, 0, 2, 0]) = Some (Inr s') \<and> (comp_of s' 0 = comp_of s' 1 \<longleftrightarrow>
     reach sample_graph 0 1 \<and> reach sample_graph 1 0)"
proof -
  have n: "node sample_graph 0" "node sample_graph 1" by (simp_all add: node_def sample_graph_def llen_def)
  have "length sample_graph \<le> 4" by (simp add: sample_graph_def)
  then obtain s' where "id_dg_scc_all 4 (sample_dg [5, 6, 7, 8] [0, 0, 2, 0]) = Some (Inr s')"
    "\<forall>v w. node sample_graph v \<and> node sample_graph w \<longrightarrow> (comp_of s' v = comp_of s' w \<longleftrightarrow> reach sample_graph v w \<and> reach sample_graph w v)"
    using id_dg_scc_components [OF sample_fresh [of "[5, 6, 7, 8]" "[0, 0, 2, 0]"], of 4] by auto
  then show ?thesis using n by blast
qed

section \<open>What the marks and the hashes depend on\<close>

abbreviation mark_of :: "dg \<Rightarrow> int \<Rightarrow> int" where
  "mark_of s v \<equiv> cell (d_dirty s) (comp_of s v)"

abbreviation hash_of :: "dg \<Rightarrow> int \<Rightarrow> w64" where
  "hash_of s v \<equiv> cell (d_deep s) (comp_of s v)"

lemma mark_eq:
  assumes "settled g own nt s" "node g v"
  shows "bit (mark_of s v) b \<longleftrightarrow> (\<exists>x. node g x \<and> comp_of s x = comp_of s v \<and> (bit (cell nt x) b
     \<or> (\<exists>w. (x, w) \<in> edge g \<and> comp_of s w < comp_of s v \<and> bit (mark_of s w) b)))"
  using settledD(6) [OF assms] unfolding dirty_ok_def members_def by auto

lemma mark_below:
  assumes "wf_graph g" "settled g own nt s" "node g v" "bit (mark_of s v) b"
  shows "\<exists>w. reach g v w \<and> bit (cell nt w) b"
  using assms(3,4)
proof (induction "nat (comp_of s v)" arbitrary: v rule: less_induct)
  case less
  obtain x where x: "node g x" "comp_of s x = comp_of s v"
    "bit (cell nt x) b \<or> (\<exists>w. (x, w) \<in> edge g \<and> comp_of s w < comp_of s v \<and> bit (mark_of s w) b)"
    using less(3) unfolding mark_eq [OF assms(2) less(2)] by blast
  have vx: "reach g v x" using settledD(4) [OF assms(2) less(2) x(1,2)] .
  show ?case
  proof (cases "bit (cell nt x) b")
    case True
    then show ?thesis using vx by blast
  next
    case False
    then obtain w where w: "(x, w) \<in> edge g" "comp_of s w < comp_of s v" "bit (mark_of s w) b" using x(3) by blast
    have n: "node g w" using edge_node [OF assms(1) w(1)] by blast
    have "nat (comp_of s w) < nat (comp_of s v)" using w(2) settledD(1) [OF assms(2) n] by linarith
    then obtain u where "reach g w u" "bit (cell nt u) b" using less(1) [OF _ n w(3)] by blast
    then show ?thesis using vx w(1) reach_trans reach_edge by meson
  qed
qed

lemma mark_above:
  assumes "wf_graph g" "settled g own nt s" "reach g v w" "node g v" "bit (cell nt w) b"
  shows "bit (mark_of s v) b"
  using assms(3,4) unfolding reach_def
proof (induction rule: converse_rtrancl_induct)
  case base
  then show ?case unfolding mark_eq [OF assms(2) base] using assms(5) by blast
next
  case (step v u)
  have u: "node g u" using edge_node [OF assms(1) step(1)] by blast
  have "comp_of s u \<le> comp_of s v" by (rule settledD(3) [OF assms(2) step(4,1)])
  then consider "comp_of s u = comp_of s v" | "comp_of s u < comp_of s v" by linarith
  then show ?case
  proof cases
    case 1
    then show ?thesis using step(3) [OF u] by simp
  next
    case 2
    then show ?thesis unfolding mark_eq [OF assms(2) step(4)] using step(1,3,4) u by blast
  qed
qed

text \<open>A row is marked exactly when it reaches a row that carries the bit.\<close>

lemma marks_reach:
  assumes "fresh g own nt s" "length g \<le> fuel"
  shows "\<exists>s'. id_dg_scc_all fuel s = Some (Inr s') \<and> (\<forall>v. node g v \<longrightarrow> (\<exists>z. andThen (lget (d_comp s') v) (lget (d_dirty s')) = Inr z
    \<and> (\<forall>b. bit z b \<longleftrightarrow> (\<exists>w. reach g v w \<and> bit (cell nt w) b))))"
proof -
  obtain s' where s': "id_dg_scc_all fuel s = Some (Inr s')" "settled g own nt s'" using scc_all_ok [OF assms] by blast
  have w: "wf_graph g" using assms(1) by (simp add: fresh_def)
  have sh: "shape g own nt s'" using s'(2) by (simp add: settled_def)
  have "andThen (lget (d_comp s') v) (lget (d_dirty s')) = Inr (mark_of s' v)" if "node g v" for v
    using settledD(1,2) [OF s'(2) that] sh that by (simp add: lget_cell comp_of_def shape_def node_def)
  then show ?thesis using s'(1) mark_below [OF w s'(2)] mark_above [OF w s'(2)] by (intro exI [of _ s']) blast
qed

text \<open>
  A program that contains the part reachable from \<open>v\<close>, with its rows renumbered by \<open>f\<close>.
\<close>

definition renamed :: "(int \<Rightarrow> int) \<Rightarrow> int list list \<Rightarrow> w64 list \<Rightarrow> int list list \<Rightarrow> w64 list \<Rightarrow> int \<Rightarrow> bool" where
  "renamed f g own g2 own2 v \<longleftrightarrow> inj_on f {x. reach g v x}
     \<and> (\<forall>x. reach g v x \<longrightarrow> node g2 (f x) \<and> cell g2 (f x) = map f (cell g x) \<and> cell own2 (f x) = cell own x)"

lemma renamed_below: "renamed f g own g2 own2 v \<Longrightarrow> reach g v w \<Longrightarrow> renamed f g own g2 own2 w"
  unfolding renamed_def using reach_trans by (blast intro: inj_on_subset)

lemma renamedD:
  assumes "renamed f g own g2 own2 v" "reach g v x"
  shows "node g2 (f x)" "cell g2 (f x) = map f (cell g x)" "cell own2 (f x) = cell own x" "reach g v w \<Longrightarrow> f x = f w \<Longrightarrow> x = w"
  using assms unfolding renamed_def inj_on_def by blast+

lemma renamed_image:
  assumes "renamed f g own g2 own2 v" "reach g v w"
  shows "reach g2 (f v) (f w)"
proof -
  have "w \<in> {x. reach g v x \<and> reach g2 (f v) (f x)}"
  proof (rule reach_closed [OF assms(2)], simp)
    fix x y assume a: "x \<in> {x. reach g v x \<and> reach g2 (f v) (f x)}" "(x, y) \<in> edge g"
    have "(f x, f y) \<in> edge g2" using a renamedD(1,2) [OF assms(1), of x] by (auto simp: edge_def)
    then show "y \<in> {x. reach g v x \<and> reach g2 (f v) (f x)}" using a reach_edge reach_trans by blast
  qed
  then show ?thesis by simp
qed

lemma renamed_back:
  assumes "renamed f g own g2 own2 v" "node g v" "wf_graph g" "reach g2 (f v) y"
  shows "\<exists>w. reach g v w \<and> y = f w"
proof -
  have "y \<in> f ` {x. reach g v x}"
  proof (rule reach_closed [OF assms(4)], simp)
    fix x y assume a: "x \<in> f ` {x. reach g v x}" "(x, y) \<in> edge g2"
    obtain u where u: "reach g v u" "x = f u" using a(1) by blast
    obtain w where w: "w \<in> set (cell g u)" "y = f w" using a(2) renamedD(2) [OF assms(1) u(1)] u(2) by (auto simp: edge_def)
    have "(u, w) \<in> edge g" using w(1) reach_node [OF assms(3) u(1) assms(2)] by (simp add: edge_def)
    then show "y \<in> f ` {x. reach g v x}" using u(1) w(2) reach_edge reach_trans by blast
  qed
  then show ?thesis by blast
qed

lemma renamed_reach:
  assumes "renamed f g own g2 own2 v" "node g v" "wf_graph g" "reach g v x" "reach g v w"
  shows "reach g2 (f x) (f w) \<longleftrightarrow> reach g x w"
proof
  assume "reach g2 (f x) (f w)"
  then obtain u where u: "reach g x u" "f w = f u"
    using renamed_back [OF renamed_below [OF assms(1,4)] reach_node [OF assms(3,4,2)] assms(3)] by blast
  have "w = u" using renamedD(4) [OF assms(1,5) reach_trans [OF assms(4) u(1)] u(2)] .
  then show "reach g x w" using u(1) by simp
qed (rule renamed_image [OF renamed_below [OF assms(1,4)]])

lemma renamed_members:
  assumes r: "renamed f g own g2 own2 v" and v: "node g v" and w: "wf_graph g" "wf_graph g2"
    and t: "settled g own nt t" "settled g2 own2 nt2 t2"
  shows "members g2 t2 (comp_of t2 (f v)) = f ` members g t (comp_of t v)"
proof -
  have f: "node g2 (f v)" by (rule renamedD(1) [OF r reach_refl])
  have m: "x \<in> members g t (comp_of t v) \<longleftrightarrow> reach g v x \<and> reach g x v" for x
    using same_comp [OF w(1) t(1) _ v] reach_node [OF w(1) _ v] unfolding members_def by blast
  have m2: "y \<in> members g2 t2 (comp_of t2 (f v)) \<longleftrightarrow> reach g2 (f v) y \<and> reach g2 y (f v)" for y
    using same_comp [OF w(2) t(2) _ f] reach_node [OF w(2) _ f] unfolding members_def by blast
  show ?thesis
  proof (intro set_eqI iffI)
    fix y assume y: "y \<in> members g2 t2 (comp_of t2 (f v))"
    then obtain x where x: "reach g v x" "y = f x" using m2 renamed_back [OF r v w(1)] by blast
    have "reach g x v" using renamed_reach [OF r v w(1) x(1) reach_refl] y m2 x(2) by blast
    then show "y \<in> f ` members g t (comp_of t v)" using x m by blast
  next
    fix y assume "y \<in> f ` members g t (comp_of t v)"
    then obtain x where x: "reach g v x" "reach g x v" "y = f x" using m by blast
    then show "y \<in> members g2 t2 (comp_of t2 (f v))"
      using m2 renamed_image [OF r x(1)] renamed_reach [OF r v w(1) x(1) reach_refl] by blast
  qed
qed

lemma renamed_hash:
  assumes "renamed f g own g2 own2 v" "node g v" "wf_graph g" "wf_graph g2" "settled g own nt t" "settled g2 own2 nt2 t2"
  shows "hash_of t2 (f v) = hash_of t v"
  using assms(1,2)
proof (induction "nat (comp_of t v)" arbitrary: v rule: less_induct)
  case less
  note r = less(2) and v = less(3) and w = assms(3,4) and t = assms(5,6)
  let ?M = "members g t (comp_of t v)"
  have rx: "reach g v x" if "x \<in> ?M" for x using settledD(4) [OF t(1) v] that unfolding members_def by blast
  have f: "node g2 (f v)" by (rule renamedD(1) [OF r reach_refl])
  have inj: "inj_on f ?M" using rx renamedD(4) [OF r] by (auto simp: inj_on_def)
  have own: "(\<Sum>y \<in> f ` ?M. mix_word (cell own2 y) 7) = (\<Sum>x \<in> ?M. mix_word (cell own x) 7)"
    using renamedD(3) [OF r rx] by (simp add: sum.reindex [OF inj])
  have out: "(\<Sum>u \<leftarrow> filter (\<lambda>u. comp_of t2 u < comp_of t2 (f v)) (cell g2 (f x)). mix_word (hash_of t2 u) 13)
      = (\<Sum>u \<leftarrow> filter (\<lambda>u. comp_of t u < comp_of t v) (cell g x). mix_word (hash_of t u) 13)" if x: "x \<in> ?M" for x
  proof -
    have u: "reach g v u \<and> node g u" if "u \<in> set (cell g x)" for u
    proof -
      have "(x, u) \<in> edge g" using that x by (simp add: edge_def members_def)
      then have "reach g v u" using reach_trans [OF rx [OF x] reach_edge] by blast
      then show ?thesis using reach_node [OF w(1) _ v] by blast
    qed
    have lt: "comp_of t2 (f u) < comp_of t2 (f v) \<longleftrightarrow> comp_of t u < comp_of t v" if "u \<in> set (cell g x)" for u
    proof -
      note un = u [OF that]
      have fu: "node g2 (f u)" "reach g2 (f v) (f u)" using renamedD(1) [OF r] renamed_image [OF r] un by blast+
      have "comp_of t2 (f u) < comp_of t2 (f v) \<longleftrightarrow> \<not> reach g2 (f u) (f v)"
        using reach_comp [OF w(2) t(2) f fu(2)] same_comp [OF w(2) t(2) fu(1) f] fu(2) by fastforce
      moreover have "comp_of t u < comp_of t v \<longleftrightarrow> \<not> reach g u v"
        using reach_comp [OF w(1) t(1) v] same_comp [OF w(1) t(1) _ v] un by fastforce
      ultimately show ?thesis using renamed_reach [OF r v w(1) _ reach_refl, of u] un by blast
    qed
    have eq: "hash_of t2 (f u) = hash_of t u" if "u \<in> set (cell g x)" "comp_of t u < comp_of t v" for u
    proof (rule less(1))
      show "nat (comp_of t u) < nat (comp_of t v)" using that(2) settledD(1) [OF t(1), of u] u [OF that(1)] by linarith
    qed (use u [OF that(1)] renamed_below [OF r] in auto)
    have "cell g2 (f x) = map f (cell g x)" by (rule renamedD(2) [OF r rx [OF x]])
    moreover have "filter (\<lambda>u. comp_of t2 (f u) < comp_of t2 (f v)) (cell g x) = filter (\<lambda>u. comp_of t u < comp_of t v) (cell g x)"
      using lt by (rule filter_cong [OF refl])
    ultimately show ?thesis using eq by (auto simp: filter_map comp_def intro!: arg_cong [of _ _ sum_list])
  qed
  show ?case
    using settledD(5) [OF t(1) v] settledD(5) [OF t(2) f] own out
    unfolding deep_ok_def renamed_members [OF r v w t] by (simp add: sum.reindex [OF inj])
qed

text \<open>
  C7: The digest of a function depends on what it reaches and on nothing else: in any two
  graphs, when a renumbering carries the rows reachable from a row, with their own hashes
  and edges, into the other graph, the row and its image get the same digest, whatever the
  other rows are. A cached result is found again when code elsewhere changes or functions
  are added that shift the rows.
\<close>

theorem id_dg_digest_renamed:
  assumes "fresh g own nt s" "length g \<le> fuel" "fresh g2 own2 nt2 s2" "length g2 \<le> fuel2" "node g v" "renamed f g own g2 own2 v"
  shows "\<exists>t t2 d. id_dg_scc_all fuel s = Some (Inr t) \<and> id_dg_scc_all fuel2 s2 = Some (Inr t2)
     \<and> id_dg_deep_fn t v = Inr d \<and> id_dg_deep_fn t2 (f v) = Inr d"
proof -
  obtain t t2 where t: "id_dg_scc_all fuel s = Some (Inr t)" "settled g own nt t" "id_dg_scc_all fuel2 s2 = Some (Inr t2)" "settled g2 own2 nt2 t2"
    using scc_all_ok [OF assms(1,2)] scc_all_ok [OF assms(3,4)] by blast
  have w: "wf_graph g" "wf_graph g2" using assms(1,3) by (auto simp: fresh_def)
  have deep: "id_dg_deep_fn t v = Inr (hash_of t v)" if "settled g own nt t" "node g v" for g own nt t v
    using settledD(1,2) [OF that] that by (simp add: id_dg_deep_fn_def lget_cell comp_of_def settled_def shape_def node_def)
  have "node g2 (f v)" by (rule renamedD(1) [OF assms(6) reach_refl])
  then show ?thesis using t deep [OF t(2) assms(5)] deep [OF t(4)] renamed_hash [OF assms(6,5) w t(2,4)] by simp
qed

text \<open>The sample with a row put in front and its last row left out.\<close>

definition moved_graph :: "int list list" where
  "moved_graph = [[2, 1], [2], [1, 3], []]"

lemma sample_moved: "renamed (\<lambda>x. x + 1) sample_graph [5, 6, 7, 8] moved_graph [9, 5, 6, 7] 0"
proof -
  have r: "x \<in> {0, 1, 2}" if "reach sample_graph 0 x" for x
    by (rule reach_closed [OF that]) (auto simp: edge_def sample_graph_def)
  have "node moved_graph (x + 1) \<and> cell moved_graph (x + 1) = map (\<lambda>x. x + 1) (cell sample_graph x)
      \<and> cell [9, 5, 6, 7 :: w64] (x + 1) = cell [5, 6, 7, 8] x" if "x \<in> {0, 1, 2}" for x
    using that by (auto simp: moved_graph_def sample_graph_def node_def llen_def)
  then show ?thesis using r unfolding renamed_def by (auto simp: inj_on_def)
qed

lemma id_dg_digest_renamed_witness:
  "\<exists>t t2 d. id_dg_scc_all 4 (sample_dg [5, 6, 7, 8] [0, 0, 2, 0]) = Some (Inr t)
     \<and> id_dg_scc_all 4 ((sample_dg [9, 5, 6, 7] [0, 0, 0, 2])\<lparr>d_out := moved_graph\<rparr>) = Some (Inr t2)
     \<and> id_dg_deep_fn t 0 = Inr d \<and> id_dg_deep_fn t2 1 = Inr d"
proof -
  have f: "fresh moved_graph [9, 5, 6, 7] [0, 0, 0, 2] ((sample_dg [9, 5, 6, 7] [0, 0, 0, 2])\<lparr>d_out := moved_graph\<rparr>)"
    by (simp add: fresh_def wf_graph_def node_def llen_def sample_dg_def moved_graph_def id_dg_init_def)
  have n: "length sample_graph \<le> 4" "length moved_graph \<le> 4" "node sample_graph 0"
    by (simp_all add: sample_graph_def moved_graph_def node_def llen_def)
  show ?thesis
    using id_dg_digest_renamed [OF sample_fresh [of "[5, 6, 7, 8]" "[0, 0, 2, 0]"] n(1) f n(2,3) sample_moved] by simp
qed

end
