(* ===== verification/DigestBuild.thy ===== *)
theory DigestBuild
  imports DigestSpec
begin

text \<open>
  The graph the search is given. Every stage that builds it adds rows and edges in one way only,
  so whatever the tables of the program hold, what they leave is a fresh graph: its rows are not
  yet visited and its edges stay among the rows. With the theorems on the search this gives
  those on \<open>id_dg_build\<close>.
\<close>

section \<open>The values of a table\<close>

lemma lset_set: "lset xs i v = Inr ys \<Longrightarrow> set ys \<subseteq> insert v (set xs)"
  by (auto simp: lset_def split: if_splits dest!: set_update_subset_insert [THEN subsetD])

lemma lget_set: "lget xs i = Inr v \<Longrightarrow> v \<in> set xs"
  by (auto simp: lget_Inr_iff llen_def)

lemma fill_values: "set (h_values (fill_slots h i n)) \<subseteq> insert 0 (set (h_values h))"
proof (induction h i n rule: fill_slots.induct)
  case (1 h i n)
  have "set (h_values (id_idstd_hash_map_fill_one h)) = insert 0 (set (h_values h))" by (simp add: id_idstd_hash_map_fill_one_def lpush_def)
  then show ?case using 1 by (subst fill_slots.simps) auto
qed

lemma copy_old_values:
  "id_idstd_hash_map_copy_old h g i cap = Inr h' \<Longrightarrow> set (h_values h') \<subseteq> set (h_values h) \<union> set (h_values g)"
proof (induction h g i cap rule: id_idstd_hash_map_copy_old.induct)
  case (1 h g i cap)
  show ?case
  proof (cases "i < cap")
    case True
    then obtain h1 where h1: "id_idstd_hash_map_copy_old_one h g i = Inr h1" "id_idstd_hash_map_copy_old h1 g (i + 1) cap = Inr h'"
      using 1(2) by (subst (asm) id_idstd_hash_map_copy_old.simps) (auto simp: andThen_Inr_iff)
    have "set (h_values h1) \<subseteq> set (h_values h) \<union> set (h_values g)"
      using h1(1) by (auto simp: id_idstd_hash_map_copy_old_one_def andThen_Inr_iff dest!: lset_set lget_set)
    then show ?thesis using 1(1) [OF True h1] by blast
  next
    case False
    then show ?thesis using 1(2) by (subst (asm) id_idstd_hash_map_copy_old.simps) simp
  qed
qed

lemma clear_values: "id_idstd_hash_map_clear h i cap = Inr h' \<Longrightarrow> set (h_values h') \<subseteq> insert 0 (set (h_values h))"
proof (induction h i cap rule: id_idstd_hash_map_clear.induct)
  case (1 h i cap)
  show ?case
  proof (cases "i < cap")
    case True
    then obtain h1 where h1: "id_idstd_hash_map_clear_one h i = Inr h1" "id_idstd_hash_map_clear h1 (i + 1) cap = Inr h'"
      using 1(2) by (subst (asm) id_idstd_hash_map_clear.simps) (auto simp: andThen_Inr_iff)
    have "set (h_values h1) \<subseteq> insert 0 (set (h_values h))"
      using h1(1) by (auto simp: id_idstd_hash_map_clear_one_def andThen_Inr_iff dest!: lset_set)
    then show ?thesis using 1(1) [OF True h1] by blast
  next
    case False
    then show ?thesis using 1(2) by (subst (asm) id_idstd_hash_map_clear.simps) auto
  qed
qed

lemma rehash_values:
  "id_idstd_hash_map_rehash g h i = Some (Inr h') \<Longrightarrow> set (h_values h') \<subseteq> set (h_values h) \<union> set (h_values g)"
proof (induction g h i rule: id_idstd_hash_map_rehash.induct)
  case (1 g h i)
  show ?case
  proof (cases "i < llen (h_keys g)")
    case True
    then obtain h1 where h1: "id_idstd_hash_map_rehash_slot g h i = Some (Inr h1)" "id_idstd_hash_map_rehash g h1 (i + 1) = Some (Inr h')"
      using 1(2) by (subst (asm) id_idstd_hash_map_rehash.simps) (auto simp: thenRun_Inr_iff)
    have "set (h_values h1) \<subseteq> set (h_values h) \<union> set (h_values g)"
      using h1(1) by (auto simp: id_idstd_hash_map_rehash_slot_def id_idstd_hash_map_rehash_place_def thenRun_Inr_iff andThen_Inr_iff
        split: if_splits dest!: lset_set lget_set)
    then show ?thesis using 1(1) [OF True h1(2)] by blast
  next
    case False
    then show ?thesis using 1(2) by (subst (asm) id_idstd_hash_map_rehash.simps) simp
  qed
qed

lemma grow_values:
  assumes "id_idstd_hash_map_grow h = Some (Inr h')"
  shows "set (h_values h') \<subseteq> insert 0 (set (h_values h))"
proof -
  obtain h1 g h2 n where h: "id_idstd_hash_map_copy_old (fill_slots no_slots 0 n) h1 0 n = Inr g" "id_idstd_hash_map_clear h1 0 n = Inr h2"
    "id_idstd_hash_map_rehash g h2 0 = Some (Inr h')" "set (h_values h1) \<subseteq> insert 0 (set (h_values h))"
    using assms fill_values unfolding id_idstd_hash_map_grow_def Let_def thenRun_Inr_iff id_idstd_hash_map_fill_def by (metis option.inject)
  have "set (h_values (fill_slots no_slots 0 n)) \<subseteq> {0}" using fill_values [of no_slots 0 n] by (simp add: no_slots_def)
  then show ?thesis using copy_old_values [OF h(1)] clear_values [OF h(2)] rehash_values [OF h(3)] h(4) by blast
qed

lemma take_slot_values: "take_slot h j k = Inr h' \<Longrightarrow> h_values h' = h_values h"
  by (auto simp: take_slot_def andThen_Inr_iff)

lemma put_values:
  assumes "id_hash_map_put h k v = Some (Inr h')"
  shows "set (h_values h') \<subseteq> {0, v} \<union> set (h_values h)"
proof -
  obtain full h1 u slot h2 vs where h: "(if full then id_idstd_hash_map_grow h else Some (Inr h)) = Some (Inr h1)"
    "(if u = (0 :: int) then take_slot h1 slot k else Inr h1) = Inr h2" "lset (h_values h2) slot v = Inr vs" "h2\<lparr>h_values := vs\<rparr> = h'"
    using assms unfolding id_hash_map_put_def thenRun_Inr_iff option.inject sum.inject by - (elim exE conjE, rule that)
  have "set (h_values h1) \<subseteq> insert 0 (set (h_values h))" using h(1) grow_values [of h h1] by (cases full) auto
  moreover have "h_values h2 = h_values h1" using h(2) take_slot_values [of h1 slot k h2] by (simp split: if_splits)
  ultimately show ?thesis using lset_set [OF h(3)] unfolding h(4) [symmetric] by auto
qed

lemma get_values: "id_hash_map_get h k d = Some (Inr x) \<Longrightarrow> x = d \<or> x \<in> set (h_values h)"
  by (auto simp: id_hash_map_get_def thenRun_Inr_iff split: if_splits dest: lget_set)

section \<open>Rows and edges\<close>

definition rows :: "int \<Rightarrow> dg \<Rightarrow> bool" where
  "rows n s \<longleftrightarrow> fresh (d_out s) (d_own s) (d_nat s) s \<and> llen (d_out s) = n
     \<and> set (h_values (d_f s)) \<union> set (h_values (d_e s)) \<subseteq> insert 0 {0..<n}"

lemma for_run_keeps:
  assumes "\<And>i s s'. k \<le> i \<Longrightarrow> i < n \<Longrightarrow> I i s \<Longrightarrow> f i s = Some (Inr s') \<Longrightarrow> I (i + 1) s'" "I k s" "for_run k n f s = Some (Inr s')"
  shows "I (max k n) s'"
  using assms
proof (induction k n f s rule: for_run.induct)
  case (1 i n f s)
  show ?case
  proof (cases "i < n")
    case True
    then obtain s1 where s1: "f i s = Some (Inr s1)" "for_run (i + 1) n f s1 = Some (Inr s')"
      using 1(4) by (subst (asm) for_run.simps) (auto simp: thenRun_Inr_iff)
    have "I (max (i + 1) n) s'"
    proof (rule 1(1) [OF True])
      show "I (i + 1) s1" using 1(2) [of i] 1(3) s1(1) True by simp
    qed (use 1(2) s1(2) in auto)
    then show ?thesis using True by (simp add: max_def)
  next
    case False
    then show ?thesis using 1(3,4) by (subst (asm) for_run.simps) (auto simp: max_def)
  qed
qed

lemma wf_snoc: "wf_graph g \<Longrightarrow> wf_graph (g @ [[]])"
  by (fastforce simp: wf_graph_def node_def llen_def)

lemma rows_add: "rows n s \<Longrightarrow> rows (n + 1) (id_dg_add own c s)"
  by (auto simp: rows_def id_dg_add_def fresh_def lpush_def wf_snoc llen_def)

lemma rows_maps:
  assumes "rows n s" "set (h_values h) \<subseteq> insert 0 {0..<n}"
  shows "rows n (s\<lparr>d_f := h\<rparr>)" "rows n (s\<lparr>d_e := h\<rparr>)"
  using assms by (auto simp: rows_def fresh_def)

lemma rows_nonneg: "rows n s \<Longrightarrow> 0 \<le> n"
  by (auto simp: rows_def llen_def)

lemma rows_put:
  assumes "rows n s" "0 \<le> v" "v < n" "set (h_values h) \<subseteq> {0, v} \<union> set (h_values h0)" "h0 = d_f s \<or> h0 = d_e s"
  shows "rows n (s\<lparr>d_f := h\<rparr>)" "rows n (s\<lparr>d_e := h\<rparr>)"
proof -
  have "set (h_values h) \<subseteq> insert 0 {0..<n}" using assms by (auto simp: rows_def)
  then show "rows n (s\<lparr>d_f := h\<rparr>)" "rows n (s\<lparr>d_e := h\<rparr>)" using rows_maps [OF assms(1)] by blast+
qed

lemma rows_get: "rows n s \<Longrightarrow> h = d_f s \<or> h = d_e s \<Longrightarrow> id_hash_map_get h k d = Some (Inr x) \<Longrightarrow> x = d \<or> x = 0 \<or> 0 \<le> x \<and> x < n"
  by (drule get_values) (auto simp: rows_def)

lemma rows_init: "rows 0 id_dg_init"
  using fill_values [of no_slots 0 8]
  by (auto simp: rows_def fresh_def id_dg_init_def wf_graph_def llen_def id_hash_map_initialize_def id_idstd_hash_map_fill_def no_slots_def Let_def)

lemma fill_one_rows: "rows i s \<Longrightarrow> id_dg_fill_one q i s = Some (Inr s') \<Longrightarrow> rows (i + 1) s'"
proof -
  assume r: "rows i s" and "id_dg_fill_one q i s = Some (Inr s')"
  then obtain nm h own c where h: "id_hash_map_put (d_f s) nm i = Some (Inr h)" "s' = id_dg_add own c (s\<lparr>d_f := h\<rparr>)"
    unfolding id_dg_fill_one_def thenRun_Inr_iff by blast
  have "s' = (id_dg_add own c s)\<lparr>d_f := h\<rparr>" "d_f (id_dg_add own c s) = d_f s" using h(2) by (simp_all add: id_dg_add_def)
  then show "rows (i + 1) s'" using rows_put(1) [OF rows_add [OF r], of i h "d_f s" own c] put_values [OF h(1)] rows_nonneg [OF r] by simp
qed

lemma asm_row_rows:
  assumes "rows n s" "id_dg_asm_row q s = Some (Inr s')"
  shows "rows (n + 1) s'"
proof -
  let ?s = "id_dg_add 0 1 s"
  have n: "llen (d_own s) = n" using assms(1) by (auto simp: rows_def fresh_def llen_def)
  have "(\<lambda>_. rows (n + 1)) (max 0 (llen (q_afname q))) s'"
  proof (rule for_run_keeps [where I = "\<lambda>_. rows (n + 1)"])
    show "rows (n + 1) ?s" by (rule rows_add [OF assms(1)])
    fix i t t' assume t: "rows (n + 1) t"
      "thenRun (Some (lget (q_afname q) i)) (\<lambda>nm. thenRun (id_hash_map_put (d_f t) nm n) (\<lambda>h. Some (Inr (t\<lparr>d_f := h\<rparr>)))) = Some (Inr t')"
    then obtain nm h where "id_hash_map_put (d_f t) nm n = Some (Inr h)" "t' = t\<lparr>d_f := h\<rparr>" unfolding thenRun_Inr_iff by blast
    then show "rows (n + 1) t'" using rows_put(1) [OF t(1) rows_nonneg [OF assms(1)], of h "d_f t"] put_values [of "d_f t" nm n h] by simp
  qed (use assms(2) n in \<open>simp add: id_dg_asm_row_def id_dg_asm_names_def\<close>)
  then show ?thesis by simp
qed

lemma const_row_rows: "rows n s \<Longrightarrow> id_dg_const_row q i s = Some (Inr s') \<Longrightarrow> rows (n + 1) s'"
proof -
  assume r: "rows n s" and "id_dg_const_row q i s = Some (Inr s')"
  then obtain k own c h where h: "id_hash_map_put (d_e (id_dg_add own c s)) k (llen (d_own s)) = Some (Inr h)"
    "s' = (id_dg_add own c s)\<lparr>d_e := h\<rparr>"
    unfolding id_dg_const_row_def thenRun_Inr_iff Let_def by (auto simp: thenRun_Inr_iff)
  have "llen (d_own s) = n" using r by (auto simp: rows_def fresh_def llen_def)
  then show "rows (n + 1) s'" using rows_put(2) [OF rows_add [OF r], of n h _ own c] put_values [OF h(1)] rows_nonneg [OF r] h(2) by simp
qed

lemma export_rows: "rows n s \<Longrightarrow> 0 < n \<Longrightarrow> id_dg_export_one q i s = Some (Inr s') \<Longrightarrow> rows n s'"
proof -
  assume r: "rows n s" "0 < n" and "id_dg_export_one q i s = Some (Inr s')"
  then obtain w x where w: "id_hash_map_get (d_f s) w (- 1) = Some (Inr x)"
    "(if x \<ge> 0 then thenRun (Some (lget (q_enames q) i)) (\<lambda>nm. thenRun (id_hash_map_put (d_e s) nm x) (\<lambda>h. Some (Inr (s\<lparr>d_e := h\<rparr>))))
      else Some (Inr s)) = Some (Inr s')"
    unfolding id_dg_export_one_def by (auto simp only: thenRun_Inr_iff)
  show "rows n s'"
  proof (cases "x \<ge> 0")
    case True
    then obtain nm h where "id_hash_map_put (d_e s) nm x = Some (Inr h)" "s' = s\<lparr>d_e := h\<rparr>" using w(2) by (force simp: thenRun_Inr_iff)
    moreover have "x < n" using rows_get [OF r(1) _ w(1)] True r(2) by auto
    ultimately show ?thesis using rows_put(2) [OF r(1) True, of h "d_e s"] put_values [of "d_e s" nm x h] by simp
  qed (use w r in simp)
qed

lemma link_rows:
  assumes "rows n s" "0 \<le> w" "w < n" "id_dg_link f w s = Inr s'"
  shows "rows n s'"
proof -
  let ?g = "d_out s"
  obtain ws xs where g: "lget ?g f = Inr ws" "lset ?g f (lpush ws w) = Inr xs" "s' = s\<lparr>d_out := xs\<rparr>"
    using assms(4) by (auto simp: id_dg_link_def andThen_Inr_iff)
  have x: "xs = ?g[nat f := ws @ [w]]" "length xs = length ?g" "ws \<in> set ?g"
    using g by (auto simp: lset_def lpush_def split: if_splits dest: lget_set)
  have "node xs u \<longleftrightarrow> node ?g u" for u by (simp add: node_def llen_def x(2))
  moreover have "node ?g w" using assms by (simp add: node_def rows_def)
  moreover have "set xs \<subseteq> insert (ws @ [w]) (set ?g)" unfolding x(1) by (rule set_update_subset_insert)
  moreover have "node ?g u" if "ws' \<in> set ?g" "u \<in> set ws'" for ws' u using assms(1) that by (simp add: rows_def fresh_def wf_graph_def)
  ultimately have n: "node xs u" if "ws' \<in> set xs" "u \<in> set ws'" for ws' u
    using that x(3) by (cases "ws' = ws @ [w]") auto
  have wf: "wf_graph xs" unfolding wf_graph_def using n by blast
  have "map (\<lambda>_. c) xs = map (\<lambda>_. c) ?g" for c :: int by (simp add: map_replicate_const x(2))
  moreover have "llen xs = llen ?g" by (simp add: llen_def x(2))
  ultimately show ?thesis using assms(1) x(2) wf unfolding rows_def fresh_def g(3) by simp
qed

lemma target_rows:
  assumes "rows n s" "llen (q_prog q) < n" "id_dg_target q i s = Some (Inr w)" "0 \<le> w"
  shows "w < n"
proof -
  have n: "0 < n" using assms(2) by (simp add: llen_def)
  have g: "id_hash_map_get h k (- 1) = Some (Inr x) \<Longrightarrow> h = d_f s \<or> h = d_e s \<Longrightarrow> x < n" for h k x
    using rows_get [OF assms(1), of h k "- 1" x] n by auto
  obtain d :: node and x where x: "(if n_kind d = ''call'' \<or> n_kind d = ''var'' then id_hash_map_get (d_f s) (n_s1 d) (- 1)
       else if n_kind d = ''import'' then id_hash_map_get (d_e s) (n_s1 d) (- 1) else Some (Inr (- 1))) = Some (Inr x)"
    "(if x < 0 \<and> n_kind d = ''call''
       then thenRun (Some (id_list_string_index cache_volatile_builtins (n_s1 d))) (\<lambda>j. Some (Inr (if j \<ge> 0 then llen (q_prog q) else x)))
       else Some (Inr x)) = Some (Inr w)"
    using assms(3) unfolding id_dg_target_def by (elim thenRun_InrE) (rule that)
  have "x < n" using x(1) g n by (simp split: if_splits)
  moreover have "w = x \<or> w = llen (q_prog q)" using x(2) unfolding thenRun_Inr_iff by (auto simp only: thenRun_Inr_iff option.inject sum.inject split: if_splits)
  ultimately show ?thesis using assms(2) by auto
qed

lemma clink_rows: "rows n s \<Longrightarrow> id_dg_clink q f w i s = Inr s' \<Longrightarrow> rows n s'"
proof -
  assume r: "rows n s" and "id_dg_clink q f w i s = Inr s'"
  then obtain xs where "s' = s \<or> s' = s\<lparr>d_cout := xs\<rparr>" unfolding id_dg_clink_def andThen_Inr_iff by (auto simp: andThen_Inr_iff split: if_splits)
  then show "rows n s'" using r by (elim disjE) (simp_all add: rows_def fresh_def)
qed

lemma edge_rows:
  assumes "rows n s" "llen (q_prog q) < n" "id_dg_edge q f i s = Some (Inr s')"
  shows "rows n s'"
proof -
  obtain w where w: "id_dg_target q i s = Some (Inr w)"
    "(if w \<ge> 0 then Some (andThen (id_dg_link f w s) (id_dg_clink q f w i)) else Some (Inr s)) = Some (Inr s')"
    using assms(3) by (auto simp only: id_dg_edge_def thenRun_Inr_iff)
  show ?thesis
  proof (cases "w \<ge> 0")
    case True
    then obtain s1 where "id_dg_link f w s = Inr s1" "id_dg_clink q f w i s1 = Inr s'" using w(2) by (auto simp: andThen_Inr_iff)
    then show ?thesis using link_rows [OF assms(1) True target_rows [OF assms(1,2) w(1) True]] clink_rows by blast
  qed (use w assms(1) in simp)
qed

lemma edges_rows:
  assumes "rows n s" "llen (q_prog q) < n" "for_run k m (id_dg_edge q f) s = Some (Inr s')"
  shows "rows n s'"
  using for_run_keeps [where I = "\<lambda>_. rows n", OF _ assms(1,3)] edge_rows [OF _ assms(2)] by blast

lemma const_edges_of_rows:
  assumes "rows n (snd ls)" "llen (q_prog q) < n" "id_dg_const_edges_of q i ls = Some (Inr ls')"
  shows "rows n (snd ls')"
proof -
  obtain r hi s where "for_run (fst ls) (hi + 1) (id_dg_edge q r) (snd ls) = Some (Inr s)" "snd ls' = s"
    using assms(3) unfolding id_dg_const_edges_of_def by (elim thenRun_InrE) (rule that, assumption, clarsimp)
  then show ?thesis using edges_rows [OF assms(1,2)] by blast
qed

lemma fn_edges_rows:
  assumes "rows n (snd ls)" "llen (q_prog q) < n" "id_dg_edges q i ls = Some (Inr ls')"
  shows "rows n (snd ls')"
proof -
  obtain hi s where "for_run (fst ls) (hi + 1) (id_dg_edge q i) (snd ls) = Some (Inr s)" "snd ls' = s"
    using assms(3) unfolding id_dg_edges_def by (elim thenRun_InrE) (rule that, assumption, clarsimp)
  then show ?thesis using edges_rows [OF assms(1,2)] by blast
qed

lemma edges_all_rows:
  assumes "rows n s" "llen (q_prog q) < n" "id_dg_edges_all q s = Some (Inr s')"
  shows "rows n s'"
proof -
  obtain ls ls' where e: "for_run 0 (llen (q_cdecl q)) (id_dg_const_edges_of q) (0, s) = Some (Inr ls)"
    "for_run 0 (llen (q_prog q)) (id_dg_edges q) ls = Some (Inr ls')" "s' = snd ls'"
    using assms(3) by (auto simp: id_dg_edges_all_def id_dg_const_edges_def thenRun_Inr_iff)
  have "rows n (snd (0 :: int, s))" using assms(1) by simp
  then have "rows n (snd ls)"
    using for_run_keeps [where I = "\<lambda>_ ls. rows n (snd ls)", OF _ _ e(1)] const_edges_of_rows [OF _ assms(2)] by blast
  then have "rows n (snd ls')"
    using for_run_keeps [where I = "\<lambda>_ ls. rows n (snd ls)", OF _ _ e(2)] fn_edges_rows [OF _ assms(2)] by blast
  then show ?thesis using e(3) by simp
qed

lemma graph_fresh:
  assumes "dg_graph q = Some (Inr s)"
  shows "fresh (d_out s) (d_own s) (d_nat s) s"
proof -
  let ?p = "llen (q_prog q)" let ?c = "llen (q_cdecl q)"
  obtain s1 s2 s3 s4 where s: "for_run 0 ?p (id_dg_fill_one q) id_dg_init = Some (Inr s1)" "id_dg_asm_row q s1 = Some (Inr s2)"
    "for_run 0 ?c (id_dg_const_row q) s2 = Some (Inr s3)" "for_run 0 (llen (q_enames q)) (id_dg_export_one q) s3 = Some (Inr s4)"
    "id_dg_edges_all q s4 = Some (Inr s)"
    using assms unfolding dg_graph_def id_dg_const_rows_def id_dg_exports_def thenRun_Inr_iff by blast
  have p: "max 0 ?p = ?p" "max 0 ?c = ?c" "0 \<le> ?c" by (simp_all add: llen_def)
  have "rows ?p s1" using for_run_keeps [where I = rows, OF _ rows_init s(1)] fill_one_rows unfolding p(1) by blast
  then have "rows (?p + 1) s2" using asm_row_rows s(2) by blast
  then have "rows (?p + 1 + 0) s2" by simp
  then have "rows (?p + 1 + ?c) s3"
    using for_run_keeps [where I = "\<lambda>i. rows (?p + 1 + i)", OF _ _ s(3)] const_row_rows unfolding p(2) by (metis add.assoc)
  then have "rows (?p + 1 + ?c) s4"
    using for_run_keeps [where I = "\<lambda>_. rows (?p + 1 + ?c)", OF _ _ s(4)] export_rows p by (smt (verit))
  then have "rows (?p + 1 + ?c) s" using edges_all_rows s(5) p(3) by (smt (verit))
  then show ?thesis by (simp add: rows_def)
qed

section \<open>The whole construction\<close>

text \<open>
  C13: Whatever the program, once its tables have been read into the graph the construction
  of the digest returns, its components are the classes of rows that reach each other, and a
  row carries a mark (depends on files, or on code that is not tracked) exactly when some
  row it reaches carries it.
\<close>

theorem id_dg_build_marks:
  assumes "dg_graph q = Some (Inr s)"
  shows "\<exists>t. id_dg_build q = Some (Inr t)
    \<and> (\<forall>v w. node (d_out s) v \<and> node (d_out s) w \<longrightarrow> (comp_of t v = comp_of t w \<longleftrightarrow> reach (d_out s) v w \<and> reach (d_out s) w v))
    \<and> (\<forall>v. node (d_out s) v \<longrightarrow> (\<exists>z. andThen (lget (d_comp t) v) (lget (d_dirty t)) = Inr z
         \<and> (\<forall>b. bit z b \<longleftrightarrow> (\<exists>w. reach (d_out s) v w \<and> bit (cell (d_nat s) w) b))))"
proof -
  have f: "fresh (d_out s) (d_own s) (d_nat s) s" by (rule graph_fresh [OF assms])
  have w: "wf_graph (d_out s)" and n: "length (d_out s) \<le> length (d_ix s)" using f by (simp_all add: fresh_def)
  obtain t where t: "id_dg_scc_all (length (d_ix s)) s = Some (Inr t)" "settled (d_out s) (d_own s) (d_nat s) t"
    using scc_all_ok [OF f n] by blast
  have b: "id_dg_build q = Some (Inr t)" using assms t(1) by (simp add: id_dg_build_def)
  show ?thesis using b t(1) marks_reach [OF f n] same_comp [OF w t(2)] by (intro exI [of _ t]) auto
qed

text \<open>One function that reads the clock: it reaches the row of the functions that are not tracked.\<close>

definition plain_node :: "string \<Rightarrow> string \<Rightarrow> int \<Rightarrow> int \<Rightarrow> node" where
  "plain_node k t a b = \<lparr>n_kind = k, n_i1 = a, n_i2 = b, n_s1 = t, n_s2 = [], n_l1 = [], n_l2 = [], n_unit = 0, n_line = 1, n_tok = 0, n_st = 0\<rparr>"

definition clock_prog :: prog_tabs where
  "clock_prog = \<lparr>q_nodes = [plain_node ''call'' ''ticks'' 0 0, plain_node ''func'' ''a'' 0 0], q_kind = [''ident''], q_text = [''ticks''],
     q_prog = [1], q_ptoks = [0], q_ptoke = [1], q_cdecl = [], q_ctoks = [], q_ctoke = [], q_afname = [], q_sdname = [],
     q_sdfname = [], q_sdftype = [], q_enames = [], q_eowners = [], q_casefn = [], q_casestart = [], q_caseend = [], q_stdunit = [- 1],
     q_exclunit = []\<rparr>"

lemma clock_graph: "\<exists>s. dg_graph clock_prog = Some (Inr s) \<and> d_out s = [[1], []] \<and> d_nat s = [0, 1]"
proof -
  obtain h where h: "id_hash_map_put (id_hash_map_initialize no_slots) ''a'' 0 = Some (Inr h)" "hm_inv h"
    "hm_abs h = (hm_abs (id_hash_map_initialize no_slots))(''a'' \<mapsto> 0)"
    using put_ok [OF small_table(1), of "''a''" 0] by (auto simp: small_table(2) INT_MAX_def)
  have a: "hm_abs (id_hash_map_initialize no_slots) = Map.empty" using table.mk_law by blast
  have g: "id_hash_map_get h ''ticks'' (- 1) = Some (Inr (- 1))" using get_ok(1) [OF h(2), of "''ticks''" "- 1"] h(3) a by simp
  obtain own where own: "id_dg_own_of clock_prog 0 ''a'' = Inr own"
    by (simp add: id_dg_own_of_def clock_prog_def id_dg_tokhash_def id_dg_tok1_def for_res.simps llen_def lget_def)
  have c: "id_dg_nat_class clock_prog 0 ''a'' = Inr 0"
    by (simp add: id_dg_nat_class_def clock_prog_def id_is_native_def plain_node_def llen_def lget_def)
  have f: "id_dg_fill_one clock_prog 0 id_dg_init = Some (Inr (id_dg_add own 0 (id_dg_init\<lparr>d_f := h\<rparr>)))"
    using h(1) own c by (simp add: id_dg_fill_one_def id_dg_init_def) (simp add: clock_prog_def plain_node_def lget_def)
  have t: "id_dg_target clock_prog 0 s = Some (Inr 1)" if "d_f s = h" for s
    using g that unfolding id_dg_target_def
    by (simp add: clock_prog_def plain_node_def lget_def llen_def) code_simp
  have t1: "id_dg_target clock_prog 1 s = Some (Inr (- 1))" for s
    unfolding id_dg_target_def by (simp add: clock_prog_def plain_node_def lget_def)
  have l: "llen (q_prog clock_prog) = 1" "llen (q_afname clock_prog) = 0" "llen (q_cdecl clock_prog) = 0" "llen (q_enames clock_prog) = 0"
    "lget (q_prog clock_prog) 0 = Inr 1" by (simp_all add: clock_prog_def llen_def lget_def)
  let ?s = "id_dg_add 0 1 (id_dg_add own 0 (id_dg_init\<lparr>d_f := h\<rparr>))"
  have s: "d_f ?s = h" "d_out ?s = [[], []]" "d_nat ?s = [0, 1]" by (simp_all add: id_dg_add_def id_dg_init_def lpush_def)
  have e: "id_dg_link 0 1 ?s = Inr (?s\<lparr>d_out := [[1], []]\<rparr>)" using s(2) by (simp add: id_dg_link_def lget_def lset_def lpush_def)
  obtain s' where s': "id_dg_clink clock_prog 0 1 0 (?s\<lparr>d_out := [[1], []]\<rparr>) = Inr s'" "d_out s' = [[1], []]" "d_nat s' = [0, 1]"
    using s(3) by (simp add: id_dg_clink_def id_dg_add_def id_dg_init_def lpush_def clock_prog_def plain_node_def lget_def lset_def)
  have "dg_graph clock_prog = Some (Inr s')"
    using f e s' t [of ?s] s(1)
    by (simp add: dg_graph_def for_run.simps id_dg_asm_row_def id_dg_asm_names_def id_dg_const_rows_def id_dg_exports_def
        id_dg_edges_all_def id_dg_const_edges_def id_dg_edges_def id_dg_edge_def t1 l)
  then show ?thesis using s'(2,3) by blast
qed

lemma id_dg_build_marks_witness:
  "\<exists>s t z. dg_graph clock_prog = Some (Inr s) \<and> id_dg_build clock_prog = Some (Inr t)
     \<and> andThen (lget (d_comp t) 0) (lget (d_dirty t)) = Inr z \<and> bit z 0"
proof -
  obtain s where s: "dg_graph clock_prog = Some (Inr s)" "d_out s = [[1], []]" "d_nat s = [0, 1]" using clock_graph by blast
  have n: "node (d_out s) 0" and e: "reach (d_out s) 0 1" unfolding s(2) by (auto simp: node_def llen_def edge_def intro: reach_edge)
  have "bit (cell (d_nat s) 1) 0" unfolding s(3) by simp
  then have "\<exists>w. reach (d_out s) 0 w \<and> bit (cell (d_nat s) w) 0" using e by blast
  then show ?thesis using s(1) id_dg_build_marks [OF s(1)] n by blast
qed

end
