(* ===== verification/Reaches.thy ===== *)
theory Reaches
  imports DigestSpec
begin

text \<open>
  Which function reaches which: the walk of \<open>id_rc_flags\<close> marks exactly the rows that its source
  reaches over the edges of calls, and the cache keeps one such row of flags for every source
  asked for.
\<close>

section \<open>The walk\<close>

definition zeros :: "int list \<Rightarrow> nat" where
  "zeros fl = length (filter (\<lambda>x. x = 0) fl)"

lemma zeros_update: "i < length fl \<Longrightarrow> fl ! i = 0 \<Longrightarrow> Suc (zeros (fl[i := 1])) = zeros fl"
proof (induction fl arbitrary: i)
  case (Cons x fl)
  then show ?case by (cases i) (auto simp: zeros_def)
qed simp

lemma visit_all:
  assumes "\<And>w. w \<in> set ws \<Longrightarrow> node g w" "llen fl = llen g"
  shows "\<exists>fl' new. fold (\<lambda>w r. andThen r (id_rc_visit w)) ws (Inr (fl, todo)) = Inr (fl', todo @ new) \<and> llen fl' = llen g
     \<and> (\<forall>u. node g u \<longrightarrow> cell fl' u = (if u \<in> set ws \<and> cell fl u = 0 then 1 else cell fl u))
     \<and> set new = {u \<in> set ws. cell fl u = 0} \<and> zeros fl' + length new = zeros fl"
  using assms
proof (induction ws arbitrary: fl todo)
  case (Cons w ws)
  have w: "0 \<le> w" "w < llen fl" using Cons.prems(1) [of w] Cons.prems(2) by (simp_all add: node_def)
  have ws: "node g x" if "x \<in> set ws" for x using Cons.prems(1) that by simp
  have get: "lget fl w = Inr (cell fl w)" by (rule lget_cell [OF w])
  have up: "cell (fl[nat w := 1]) u = (if u = w then 1 else cell fl u)" if "node g u" for u
    using that Cons.prems(2) by (intro cell_upd [OF w(1)]) (auto simp: node_def)
  show ?case
  proof (cases "cell fl w = 0")
    case True
    have v: "id_rc_visit w (fl, todo) = Inr (fl[nat w := 1], todo @ [w])"
      using get True lset_ok [OF w, of 1] w(1) by (simp add: id_rc_visit_def lpush_def)
    have l: "llen (fl[nat w := 1]) = llen g" using Cons.prems(2) by (simp add: llen_def)
    obtain fl' new where ih: "fold (\<lambda>w r. andThen r (id_rc_visit w)) ws (Inr (fl[nat w := 1], todo @ [w])) = Inr (fl', (todo @ [w]) @ new)"
      "llen fl' = llen g"
      "\<And>u. node g u \<Longrightarrow> cell fl' u = (if u \<in> set ws \<and> cell (fl[nat w := 1]) u = 0 then 1 else cell (fl[nat w := 1]) u)"
      "set new = {u \<in> set ws. cell (fl[nat w := 1]) u = 0}" "zeros fl' + length new = zeros (fl[nat w := 1])"
      using Cons.IH [OF ws l, of "todo @ [w]"] by blast
    have "set new = {u \<in> set ws. u \<noteq> w \<and> cell fl u = 0}" unfolding ih(4) using up Cons.prems(1) by (auto split: if_splits)
    then have "set (w # new) = {u \<in> set (w # ws). cell fl u = 0}" using True by auto
    moreover have "zeros fl' + length (w # new) = zeros fl" using ih(5) zeros_update [of "nat w" fl] True w by (simp add: llen_def)
    moreover have "\<forall>u. node g u \<longrightarrow> cell fl' u = (if u \<in> set (w # ws) \<and> cell fl u = 0 then 1 else cell fl u)"
      using ih(3) up True by auto
    ultimately show ?thesis using v ih(1,2) by (intro exI [of _ fl'] exI [of _ "w # new"]) simp
  next
    case False
    have v: "id_rc_visit w (fl, todo) = Inr (fl, todo)" using get False w(1) by (simp add: id_rc_visit_def)
    obtain fl' new where "fold (\<lambda>w r. andThen r (id_rc_visit w)) ws (Inr (fl, todo)) = Inr (fl', todo @ new)" "llen fl' = llen g"
      "\<forall>u. node g u \<longrightarrow> cell fl' u = (if u \<in> set ws \<and> cell fl u = 0 then 1 else cell fl u)"
      "set new = {u \<in> set ws. cell fl u = 0}" "zeros fl' + length new = zeros fl"
      using Cons.IH [OF ws Cons.prems(2), of todo] by blast
    then show ?thesis using v False by (intro exI [of _ fl'] exI [of _ new]) auto
  qed
qed simp

definition winv :: "int list list \<Rightarrow> int \<Rightarrow> int list \<Rightarrow> int list \<Rightarrow> bool" where
  "winv g v fl todo \<longleftrightarrow> llen fl = llen g \<and> (\<forall>u. node g u \<longrightarrow> cell fl u = 0 \<or> cell fl u = 1 \<and> reach g v u)
     \<and> (\<forall>u \<in> set todo. node g u \<and> cell fl u = 1)
     \<and> (\<forall>u w. node g u \<and> cell fl u = 1 \<and> u \<notin> set todo \<and> (u, w) \<in> edge g \<longrightarrow> cell fl w = 1)"

lemma walk_ok:
  assumes "wf_graph g" "d_cout s = g" "winv g v fl todo"
  shows "\<exists>fl'. id_rc_walk s (fl, todo) = Some (Inr fl') \<and> winv g v fl' [] \<and> (\<forall>u. node g u \<and> cell fl u = 1 \<longrightarrow> cell fl' u = 1)"
  using assms(3)
proof (induction "2 * zeros fl + length todo" arbitrary: fl todo rule: less_induct)
  case less
  show ?case
  proof (cases todo rule: rev_cases)
    case Nil
    then show ?thesis using less(2) by (subst id_rc_walk.simps) (auto simp: llen_def)
  next
    case (snoc ts r)
    have r: "node g r" "cell fl r = 1" using less(2) snoc by (auto simp: winv_def)
    have e: "w \<in> set (cell g r) \<longleftrightarrow> (r, w) \<in> edge g" for w using r(1) by (simp add: edge_def)
    have n: "node g w" if "w \<in> set (cell g r)" for w using edge_node [OF assms(1)] that e by blast
    obtain fl' new where f: "fold (\<lambda>w r. andThen r (id_rc_visit w)) (cell g r) (Inr (fl, ts)) = Inr (fl', ts @ new)" "llen fl' = llen g"
      "\<And>u. node g u \<Longrightarrow> cell fl' u = (if u \<in> set (cell g r) \<and> cell fl u = 0 then 1 else cell fl u)"
      "set new = {u \<in> set (cell g r). cell fl u = 0}" "zeros fl' + length new = zeros fl"
      using visit_all [of "cell g r" g fl ts] n less(2) unfolding winv_def by blast
    have step: "id_rc_step s r (fl, ts) = Inr (fl', ts @ new)"
      using for_res_list [of 0 "cell g r" id_rc_visit "(fl, ts)"] f(1) r(1) lget_cell [of r g]
      by (simp add: id_rc_step_def assms(2) node_def)
    have w: "winv g v fl' (ts @ new)"
      unfolding winv_def
    proof (intro conjI allI ballI impI)
      fix u assume u: "node g u"
      show "cell fl' u = 0 \<or> cell fl' u = 1 \<and> reach g v u"
      proof (cases "u \<in> set (cell g r) \<and> cell fl u = 0")
        case True
        have "reach g v r" using less(2) r by (auto simp: winv_def)
        then show ?thesis using True f(3) [OF u] e reach_edge reach_trans by metis
      next
        case False
        then show ?thesis using less(2) f(3) [OF u] u unfolding winv_def by auto
      qed
    next
      fix u assume "u \<in> set (ts @ new)"
      then show "node g u" "cell fl' u = 1" using less(2) f(3,4) n unfolding winv_def snoc by auto
    next
      fix u w assume "node g u \<and> cell fl' u = 1 \<and> u \<notin> set (ts @ new) \<and> (u, w) \<in> edge g"
      then have a: "node g u" "cell fl' u = 1" "u \<notin> set (ts @ new)" "(u, w) \<in> edge g" by blast+
      have w: "node g w" using edge_node [OF assms(1) a(4)] by blast
      have u1: "cell fl u = 1" using a f(3) [OF a(1)] f(4) by (auto split: if_splits)
      show "cell fl' w = 1"
      proof (cases "u = r")
        case True
        then have "w \<in> set (cell g r)" using a(4) e by blast
        then show ?thesis using f(3) [OF w] less(2) w unfolding winv_def by auto
      next
        case False
        then have "cell fl w = 1" using less(2) a u1 unfolding winv_def snoc by auto
        then show ?thesis using f(3) [OF w] by simp
      qed
    qed (rule f(2))
    have "2 * zeros fl' + length (ts @ new) < 2 * zeros fl + length todo" using f(5) snoc by simp
    then obtain fl2 where fl2: "id_rc_walk s (fl', ts @ new) = Some (Inr fl2)" "winv g v fl2 []" "\<forall>u. node g u \<and> cell fl' u = 1 \<longrightarrow> cell fl2 u = 1"
      using less(1) w by blast
    have "id_rc_walk s (fl, todo) = Some (Inr fl2)"
      using step fl2(1) snoc by (subst id_rc_walk.simps) (simp add: llen_def lpop_def)
    moreover have "\<forall>u. node g u \<and> cell fl u = 1 \<longrightarrow> cell fl2 u = 1" using fl2(3) f(3) by simp
    ultimately show ?thesis using fl2(2) by blast
  qed
qed

text \<open>What the flags of a source say; a source that is no function has none.\<close>

definition flags_ok :: "int list list \<Rightarrow> int \<Rightarrow> int list \<Rightarrow> bool" where
  "flags_ok g v fl \<longleftrightarrow> llen fl = llen g \<and> (\<forall>w. node g w \<longrightarrow> cell fl w = (if node g v \<and> reach g v w then 1 else 0))"

lemma fill_zero: "id_list_fill [] n 0 = replicate (nat n) 0"
  by (simp add: id_list_fill_def fill_loop_text)

lemma flags_loop:
  assumes "wf_graph g" "d_cout s = g" "node g v \<or> v < 0"
  shows "\<exists>fl. thenRun (Some (id_rc_visit v (id_list_fill [] (llen g) 0, []))) (id_rc_walk s) = Some (Inr fl) \<and> flags_ok g v fl"
proof (cases "v < 0")
  case True
  then have "\<not> node g v" by (simp add: node_def)
  then show ?thesis
    using True fill_zero [of "llen g"]
    by (auto simp: id_rc_visit_def id_rc_walk.simps [of s "(_, [])"] flags_ok_def llen_def node_def nth_replicate nat_less_iff)
next
  case False
  then have v: "node g v" using assms(3) by simp
  let ?z = "replicate (length g) (0 :: int)" let ?f = "?z[nat v := 1]"
  have l: "llen ?z = llen g" "llen ?f = llen g" by (simp_all add: llen_def)
  have z: "cell ?z u = 0" "cell ?f u = (if u = v then 1 else 0)" if "node g u" for u
    using that v by (auto simp: node_def llen_def nth_list_update)
  have visit: "id_rc_visit v (id_list_fill [] (llen g) 0, []) = Inr (?f, [v])"
    using v z(1) [OF v] by (simp add: fill_zero id_rc_visit_def lget_ok lset_ok node_def llen_def lpush_def)
  have "winv g v ?f [v]" unfolding winv_def using l(2) z(2) v by auto
  then obtain fl where fl: "id_rc_walk s (?f, [v]) = Some (Inr fl)" "winv g v fl []" "cell fl v = 1"
    using walk_ok [OF assms(1,2)] z(2) [OF v] v by metis
  have "cell fl w = 1" if "reach g v w" for w
  proof -
    have "w \<in> {u. node g u \<and> cell fl u = 1}"
    proof (rule reach_closed [OF that])
      fix x y assume x: "x \<in> {u. node g u \<and> cell fl u = 1}" "(x, y) \<in> edge g"
      have "\<forall>u w. node g u \<and> cell fl u = 1 \<and> u \<notin> set [] \<and> (u, w) \<in> edge g \<longrightarrow> cell fl w = 1" using fl(2) unfolding winv_def by (elim conjE)
      then have "cell fl y = 1" using x by auto
      then show "y \<in> {u. node g u \<and> cell fl u = 1}" using edge_node [OF assms(1) x(2)] by simp
    qed (use v fl(3) in simp)
    then show ?thesis by simp
  qed
  then have "flags_ok g v fl" using fl(2) v unfolding flags_ok_def winv_def by auto
  then show ?thesis using visit fl(1) by simp
qed

section \<open>The cache\<close>

definition row_of :: "dg \<Rightarrow> string \<Rightarrow> int" where
  "row_of s k = (case hm_abs (d_f s) k of None \<Rightarrow> - 1 | Some v \<Rightarrow> v)"

definition names_ok :: "dg \<Rightarrow> bool" where
  "names_ok s \<longleftrightarrow> wf_graph (d_cout s) \<and> hm_inv (d_f s) \<and> (\<forall>v \<in> ran (hm_abs (d_f s)). node (d_cout s) v)"

definition cache_ok :: "dg \<Rightarrow> rcache \<Rightarrow> bool" where
  "cache_ok s r \<longleftrightarrow> hm_inv (r_map r) \<and> (\<forall>k i. hm_abs (r_map r) k = Some i \<longrightarrow>
     0 \<le> i \<and> i < llen (r_sets r) \<and> flags_ok (d_cout s) (row_of s k) (cell (r_sets r) i))"

lemma row_named:
  assumes "names_ok s" "c_string k"
  shows "id_dg_fn_named s k = Some (Inr (row_of s k))" "node (d_cout s) (row_of s k) \<or> row_of s k < 0"
  using assms get_ok(1) [of "d_f s" k "- 1"]
  by (auto simp: names_ok_def c_string_def id_dg_fn_named_def row_of_def ran_def split: option.splits)

lemma flags_total:
  assumes "names_ok s" "c_string k"
  shows "\<exists>fl. id_rc_flags s k = Some (Inr fl) \<and> flags_ok (d_cout s) (row_of s k) fl"
  using flags_loop [of "d_cout s" s "row_of s k"] row_named [OF assms] assms(1) by (simp add: id_rc_flags_def names_ok_def)

lemma cache_new:
  assumes "names_ok s" "cache_ok s r" "table_small (r_map r)" "c_string k"
  shows "\<exists>r'. id_rc_new s k r = Some (Inr (llen (r_sets r), r')) \<and> cache_ok s r' \<and> hm_abs (r_map r') k = Some (llen (r_sets r))"
proof -
  obtain fl where fl: "id_rc_flags s k = Some (Inr fl)" "flags_ok (d_cout s) (row_of s k) fl" using flags_total [OF assms(1,4)] by blast
  let ?n = "llen (r_sets r)"
  obtain h where h: "id_hash_map_put (r_map r) k ?n = Some (Inr h)" "hm_inv h" "hm_abs h = (hm_abs (r_map r))(k \<mapsto> ?n)"
    using table.put_law [OF _ assms(3,4)] assms(2) unfolding cache_ok_def by blast
  let ?r = "r\<lparr>r_sets := lpush (r_sets r) fl, r_map := h\<rparr>"
  have "cache_ok s ?r"
    unfolding cache_ok_def
  proof (intro conjI allI impI)
    fix j i assume a: "hm_abs (r_map ?r) j = Some i"
    show "0 \<le> i" "i < llen (r_sets ?r)" "flags_ok (d_cout s) (row_of s j) (cell (r_sets ?r) i)"
    proof -
      have "((hm_abs (r_map r))(k \<mapsto> ?n)) j = Some i" using a unfolding h(3) [symmetric] by simp
      then consider "j = k" "i = ?n" | "hm_abs (r_map r) j = Some i" by (cases "j = k") simp_all
      then have "0 \<le> i \<and> i < llen (r_sets ?r) \<and> flags_ok (d_cout s) (row_of s j) (cell (r_sets ?r) i)"
      proof cases
        case 1
        then show ?thesis using fl(2) by (simp add: llen_def lpush_def)
      next
        case 2
        then have "0 \<le> i" "i < llen (r_sets r)" "flags_ok (d_cout s) (row_of s j) (cell (r_sets r) i)"
          using assms(2) by (auto simp: cache_ok_def)
        then show ?thesis by (simp add: llen_def lpush_def nth_append nat_less_iff)
      qed
      then show "0 \<le> i" "i < llen (r_sets ?r)" "flags_ok (d_cout s) (row_of s j) (cell (r_sets ?r) i)" by blast+
    qed
  qed (use h(2) in simp)
  then show ?thesis using fl(1) h by (simp add: id_rc_new_def)
qed

lemma cache_of:
  assumes "names_ok s" "cache_ok s r" "table_small (r_map r)" "c_string k"
  shows "\<exists>i r'. id_rc_of s k r = Some (Inr (i, r')) \<and> cache_ok s r' \<and> hm_abs (r_map r') k = Some i"
proof -
  have g: "id_hash_map_get (r_map r) k (- 1) = Some (Inr (case hm_abs (r_map r) k of None \<Rightarrow> - 1 | Some v \<Rightarrow> v))"
    using table.get_law [of "r_map r" k "- 1"] assms(2,4) by (auto simp: cache_ok_def)
  show ?thesis
  proof (cases "hm_abs (r_map r) k")
    case None
    then show ?thesis using g cache_new [OF assms] by (auto simp: id_rc_of_def)
  next
    case (Some i)
    then have "\<not> i < 0" using assms(2) unfolding cache_ok_def by force
    then show ?thesis using Some g assms(2) by (auto simp: id_rc_of_def)
  qed
qed

text \<open>
  C16: The cache of reachability answers every question with the truth about the graph of
  calls, whether the flags of the source are computed by the walk for this question or kept
  from one before, and stays right for the questions after it; a name that is no function
  reaches nothing and is reached by nothing.
\<close>

theorem id_rc_has_reaches:
  assumes "names_ok s" "cache_ok s r" "table_small (r_map r)" "c_string src" "c_string dst"
  shows "\<exists>r'. id_rc_has s src dst r = Some (Inr (0 \<le> row_of s src \<and> 0 \<le> row_of s dst \<and> reach (d_cout s) (row_of s src) (row_of s dst), r'))
     \<and> cache_ok s r'"
proof -
  obtain i r' where i: "id_rc_of s src r = Some (Inr (i, r'))" "cache_ok s r'" "hm_abs (r_map r') src = Some i"
    using cache_of [OF assms(1-4)] by blast
  have fl: "0 \<le> i" "i < llen (r_sets r')" "flags_ok (d_cout s) (row_of s src) (cell (r_sets r') i)"
    using i(2,3) by (auto simp: cache_ok_def)
  note src = row_named [OF assms(1,4)] and dst = row_named [OF assms(1,5)]
  show ?thesis
  proof (cases "0 \<le> row_of s dst")
    case True
    then have d: "node (d_cout s) (row_of s dst)" using dst(2) by linarith
    have "node (d_cout s) (row_of s src) \<longleftrightarrow> 0 \<le> row_of s src" using src(2) by (auto simp: node_def)
    then have v: "lget (cell (r_sets r') i) (row_of s dst)
        = Inr (if 0 \<le> row_of s src \<and> reach (d_cout s) (row_of s src) (row_of s dst) then 1 else 0)"
      using fl(3) d lget_cell [of "row_of s dst" "cell (r_sets r') i"] by (simp add: flags_ok_def node_def)
    show ?thesis using i(1,2) dst(1) True fl v by (simp add: id_rc_has_def lget_cell)
  next
    case False
    then show ?thesis using i(1,2) dst(1) by (simp add: id_rc_has_def)
  qed
qed

lemma cache_start: "cache_ok s id_rc_build" "table_small (r_map id_rc_build)"
  using table.mk_law small_table(2) by (auto simp: cache_ok_def id_rc_build_def table_small_def)

lemma id_rc_has_reaches_witness:
  "\<exists>h r'. let s = id_dg_init\<lparr>d_f := h, d_cout := [[1], []]\<rparr> in
     id_rc_has s ''a'' ''a'' id_rc_build = Some (Inr (True, r')) \<and> cache_ok s r'"
proof -
  have k: "c_string ''a''" by (simp add: c_string_def INT_MAX_def)
  have "hm_abs (id_hash_map_initialize no_slots) = Map.empty" using table.mk_law by blast
  then obtain h where h: "hm_inv h" "hm_abs h = [''a'' \<mapsto> 0]"
    using put_ok [OF small_table(1), of "''a''" 0] by (auto simp: small_table(2) INT_MAX_def)
  let ?s = "id_dg_init\<lparr>d_f := h, d_cout := [[1], []]\<rparr>"
  have n: "names_ok ?s" using h by (auto simp: names_ok_def wf_graph_def node_def llen_def ran_def split: if_splits)
  have "row_of ?s ''a'' = 0" using h(2) by (simp add: row_of_def)
  then show ?thesis using id_rc_has_reaches [OF n cache_start k k] by (intro exI [of _ h]) (simp add: Let_def)
qed

end
