(* ===== verification/Spec2Isabelle.thy ===== *)
theory Spec2Isabelle
  imports Pool IdBytes Store Strings Channels FreeWalk Closures LexNum ListLib HashMap LitSpec StmtLive FrontEnd CanonRun PoolSafe InteropSpec InteropData Teardown DigestBuild Reaches
begin

text \<open>
  This library models the two C programs under src/bootstrap/ that the compiler is built from.
  \<open>idlex.c\<close> is the lexer: it reads source text and prints one line per token. \<open>idparse.c\<close>
  reads these lines, parses them and emits code. Both are themselves compiled from \<open>id\<close> and
  carry the same C run time and the parts of the standard library they use. A definition has
  the name of the C function it translates, unless the text beside it says otherwise.

  Errors. Every fatal error of the C code prints a message and exits: it is the left case of
  the result type \<open>res\<close> (Prelude). A loop that need not end is an option on top (\<open>run\<close>, Cells),
  whose \<open>None\<close> is not returning. \<open>int\<close> values of the C code are integers with \<open>wrap32\<close> written
  where arithmetic may wrap, or words where bits matter; \<open>long long\<close> and addresses are 64-bit
  words. Character codes are bytes.

  Run time (\<open>idlex.c\<close>, lines 1 to 1400).
  \<^item> Arith: division, shifts, rotation, products, checked arithmetic, decimal text. Division
    identity and rounding, the high product against 128 bits, checked operations exact, text
    round trip.
  \<^item> Pool: the size classes, free lists and chunks behind every allocation; the class of a
    request is the smallest that fits. PoolSafe runs the allocator against a C library that
    answers with blocks of its own: an owner for every address shows that live blocks never
    overlap, keep their contents and are all released at exit.
  \<^item> Growable: the locale a growable buffer meets and what follows for sequences of operations.
    IdList (cells) and IdBytes (bytes) are the two buffers; each interprets the locale, which
    gives the refinement of a plain sequence.
  \<^item> StrCore, Strings: string blocks, concatenation, substrings, reading input.
  \<^item> Store: the linear store of a thread; store and load round trip, fresh allocations, the
    address check with the case where it fails.
  \<^item> Channels: bounded channels and threads as atomic steps under the channel's mutex; runs
    are first in, first out.
  \<^item> FreeWalk: release of a structured value by descriptor or by typed functions, with an
    explicit work stack; every owned object is released once. Closures: captured cells.

  Lexer (\<open>idlex.c\<close>, lines 1400 to 2213). LexScan holds the character classes and the loops that
  find the end of a token, Lexer the dispatch, line counting, token output and main. LexSpec shows
  that main returns on every source (the loop's cursor moves on each step) and that written-out
  tokens are printed back; LexNum that hexadecimal and binary literals are printed by value.

  Standard library as compiled into \<open>idparse.c\<close>. Cells: the lists of the run time seen as
  sequences, with the facts that the run time's list implements them. ListLib: search, fill,
  extend, splice; the two list arguments of a routine are distinct objects. HashMap: the open
  addressing table, shown to be a map for any sequence of puts. StrLib, StrSpec: string functions
  against specifications on plain lists.

  Parser (\<open>idparse.c\<close>). Loader reads the lexer's lines into the token arrays, LoadSpec shows it
  gives back the tokens. ParseCore has the state, token access, diagnostics and node makers;
  ParseExpr, ParseType, ParseStmt and ParseFun the recursive descent. Recursion through
  parentheses, blocks and statements is bounded by a nesting argument; \<open>None\<close> is running out of
  it. ParseLive has a small calculus of weakest preconditions for parsers, and StmtLive uses it
  to show that with a nesting above the number of tokens left every parse returns, prints only
  with the failure flag set and makes a forest. ExprTree and ParseTree define expression trees,
  their tokens and when a node denotes a tree, and show that parsing inverts printing. FrontEnd
  puts lexer, loader and parser together. Literals, LitSpec: the checks of literals, done on
  their text, against the value of the literal.

  Names: the hashed index of functions against a linear search. Canon: the canonical text of
  expressions, statements, functions and units that the compiler compares to find code written
  twice. CanonSpec gives the text of an expression as the text of a tree, CanonRead shows the
  tree can be read back, CanonSound has the interface of arithmetic laws the simplifications
  rest on (\<open>arith_laws\<close>), and CanonRun the arithmetic of the run time, its interpretation, and the
  claims: equal texts have equal values as long as no operand is converted, and they need not
  otherwise.

  Digest has the digest of a program, under which the test cache keeps results: the graph of
  functions and constants, its components, the hash and mark of each, the keys of the cases and
  the cached answers to which function reaches which. DigestSpec proves the search for
  components with the open calls as a ghost set of grey rows, and that a digest depends only on
  what is reached, up to the numbers of the rows. The depth of the search is at most the
  number of rows, which is the fuel. DigestBuild shows that building the graph leaves it as the
  search needs it, and Reaches that the walk and its cache tell the truth.

  Programs as libraries (src/interop/). Interop has the entry points of \<open>idl.c\<close>: a call is
  framed in the pool, a trap inside it jumps back with a message, and what it allocated is
  released. InteropSpec proves this over PoolSafe for any body that uses the allocator as its
  clients do; the two loops of the release need as much fuel as there are C blocks. InteropData
  has the conversions of arguments and results and most of the JS shim, with the host's
  \<open>malloc\<close> as a parameter that may fail; Teardown is the test harness's cleanup, with the answers
  of the system calls as parameters.

  Bounds. \<open>INT_MAX\<close> bounds the length of strings and lists, as in the C code. The nesting bound
  of the parser counts recursive descents, each of which consumes a token, so one more than the
  number of tokens left is enough; the same bound on the height of a tree is enough for Canon.

  Not modelled: terminal, time and process calls of the run time; the columns of a diagnostic;
  import resolution, the checks of types and ownership, the comparison of canonical texts across
  the program, the optimiser and the emitters of
  \<open>idparse.c\<close>; the flush and the 32-bit string allocation of the JS shim; the compiler's own
  \<open>id\<close> sources, from which the C files are generated.
\<close>

end
